(* ===== verification/Codec_Prelude.thy ===== *)
theory Codec_Prelude
  imports "HOL-Library.Word" "HOL-Library.Code_Target_Nat"
begin

unbundle bit_operations_syntax

text \<open>
  What every component shares: the machine integer types of the C code, byte strings read as
  big-endian and little-endian numbers, and the two interfaces that the encoders and decoders of
  the libraries provide to their clients.

  Conventions of the whole development: a C function that returns 0 or 1 and fills out-parameters
  is a function into an option (\<open>None\<close> is the return value 0); a cursor over bytes that such a
  function advances is returned beside the option, also when the call failed, because the C code
  leaves a cursor where the failing step stopped.  \<open>size_t\<close> is 64 bits wide (the targets are
  LP64); a length is a \<open>nat\<close> and the code's overflow checks on lengths are written with
  \<open>mod 2 ^ 64\<close>.
\<close>

type_synonym byte = "8 word"
type_synonym u16 = "16 word"
type_synonym u32 = "32 word"
type_synonym u64 = "64 word"

named_theorems codec_defs \<open>definitions that evaluate a codec step\<close>

text \<open>\<open>SIZE_MAX + 1\<close>: the modulus of \<open>size_t\<close> arithmetic.\<close>

abbreviation size_mod :: nat where
  "size_mod \<equiv> 18446744073709551616"

section \<open>Byte strings as numbers\<close>

definition be_nat :: "byte list \<Rightarrow> nat" where
  "be_nat bs = foldl (\<lambda>n b. 256 * n + unat b) 0 bs"

primrec be_bytes :: "nat \<Rightarrow> nat \<Rightarrow> byte list" where
  "be_bytes 0 v = []"
| "be_bytes (Suc n) v = be_bytes n (v div 256) @ [word_of_nat v]"

lemma be_nat_Nil [simp]: "be_nat [] = 0"
  by (simp add: be_nat_def)

lemma be_nat_snoc [simp]: "be_nat (bs @ [b]) = 256 * be_nat bs + unat b"
  by (simp add: be_nat_def)

lemma be_nat_single [simp]: "be_nat [b] = unat b"
  by (simp add: be_nat_def)

lemma unat_byte_less [simp]: "unat (b :: byte) < 256"
  using unsigned_less [of b, where 'a = nat] by simp

lemma be_nat_append: "be_nat (xs @ ys) = be_nat xs * 256 ^ length ys + be_nat ys"
proof (induction ys rule: rev_induct)
  case Nil
  then show ?case by simp
next
  case (snoc y ys)
  have "be_nat (xs @ ys @ [y]) = 256 * be_nat (xs @ ys) + unat y"
    using be_nat_snoc [of "xs @ ys" y] by simp
  with snoc show ?case by (simp add: algebra_simps)
qed

lemma be_nat_Cons: "be_nat (b # bs) = unat b * 256 ^ length bs + be_nat bs"
  using be_nat_append [of "[b]" bs] by simp

lemma be_nat_less: "be_nat bs < 256 ^ length bs"
proof (induction bs rule: rev_induct)
  case Nil
  then show ?case by simp
next
  case (snoc b bs)
  have "256 * be_nat bs + unat b < 256 * Suc (be_nat bs)"
    using unat_byte_less [of b] unfolding mult_Suc_right by linarith
  also from snoc have "Suc (be_nat bs) \<le> 256 ^ length bs" by simp
  then have "256 * Suc (be_nat bs) \<le> 256 * 256 ^ length bs" by (rule mult_le_mono2)
  finally show ?case by simp
qed

lemma length_be_bytes [simp]: "length (be_bytes n v) = n"
  by (induction n arbitrary: v) auto

lemma be_bytes_Nil_iff [simp]: "be_bytes n v = [] \<longleftrightarrow> n = 0"
  by (cases n) auto

lemma unat_of_nat_byte [simp]: "unat (word_of_nat v :: byte) = v mod 256"
  by (simp add: unat_of_nat)

lemma be_nat_be_bytes: "be_nat (be_bytes n v) = v mod 256 ^ n"
proof (induction n arbitrary: v)
  case 0
  then show ?case by simp
next
  case (Suc n)
  then show ?case
    by (simp add: mod_mult2_eq)
qed

lemma be_nat_be_bytes_id [simp]: "v < 256 ^ n \<Longrightarrow> be_nat (be_bytes n v) = v"
  by (simp add: be_nat_be_bytes)

lemma be_bytes_be_nat [simp]: "be_bytes (length bs) (be_nat bs) = bs"
proof (induction bs rule: rev_induct)
  case Nil
  then show ?case by simp
next
  case (snoc b bs)
  have "(256 * be_nat bs + unat b) div 256 = be_nat bs"
    using unat_byte_less [of b] by simp
  moreover have "word_of_nat (256 * be_nat bs + unat b) = b"
  proof (rule word_unat_eq_iff [THEN iffD2])
    show "unat (word_of_nat (256 * be_nat bs + unat b) :: byte) = unat b"
      by (simp only: unat_of_nat_byte mod_mult_self4) (simp add: mod_less [OF unat_byte_less])
  qed
  ultimately show ?case using snoc by simp
qed

lemma be_nat_inject:
  assumes "be_nat xs = be_nat ys" "length xs = length ys"
  shows "xs = ys"
  by (metis assms be_bytes_be_nat)

lemma be_bytes_mod: "be_bytes n (v mod 256 ^ n) = be_bytes n v"
  by (rule be_nat_inject) (simp_all add: be_nat_be_bytes)

lemma be_bytes_inject:
  assumes "be_bytes n v = be_bytes n w" "v < 256 ^ n" "w < 256 ^ n"
  shows "v = w"
  using assms by (metis be_nat_be_bytes_id)

section \<open>Numbers in text\<close>

text \<open>\<open>printf\<close> of an unsigned number.\<close>

fun decimal :: "nat \<Rightarrow> byte list" where
  "decimal n = (if n < 10 then [word_of_nat (48 + n)] else decimal (n div 10) @ [word_of_nat (48 + n mod 10)])"

declare decimal.simps [simp del]

lemma decimal_nonempty [simp]: "decimal n \<noteq> []"
  by (subst decimal.simps) simp

lemma unat_digit: "n < 10 \<Longrightarrow> unat (word_of_nat (48 + n) :: byte) = 48 + n"
  by (simp only: unat_of_nat_byte) simp

lemma length_decimal: "n < 10 ^ k \<Longrightarrow> 0 < k \<Longrightarrow> length (decimal n) \<le> k"
proof (induction k arbitrary: n)
  case (Suc k)
  show ?case
  proof (cases "n < 10")
    case True
    then show ?thesis by (simp add: decimal.simps [of n])
  next
    case False
    then have "0 < k" using Suc.prems by (cases k) auto
    moreover have "n div 10 < 10 ^ k" using Suc.prems(1) by (intro less_mult_imp_div_less) simp
    ultimately have "length (decimal (n div 10)) \<le> k" using Suc.IH by blast
    with False show ?thesis by (simp add: decimal.simps [of n])
  qed
qed simp

section \<open>Word facts\<close>

lemma sint_small: "unat w < 2 ^ 31 \<Longrightarrow> sint w = int (unat w)" for w :: u32
proof -
  assume "unat w < 2 ^ 31"
  then have "int (unat w) < int (2 ^ 31)" by (simp only: of_nat_less_iff)
  then have "uint w < 2 ^ 31" by simp
  moreover have "- (2 ^ 31) \<le> uint w" by (rule order_trans [OF _ unsigned_greater_eq]) simp
  ultimately show ?thesis unfolding sint_uint by (simp add: signed_take_bit_int_eq_self)
qed

lemma byte_top_bit: "(b :: byte) AND 0x80 = 0 \<longleftrightarrow> unat b < 128"
proof -
  have "b AND 0x80 = 0 \<longleftrightarrow> \<not> bit b 7"
  proof -
    have "(0x80 :: byte) = 2 ^ 7" by simp
    then show ?thesis by (metis and_exp_eq_0_iff_not_bit)
  qed
  also have "\<dots> \<longleftrightarrow> \<not> odd (unat b div 2 ^ 7)"
  proof -
    have "bit (unat b) 7 \<longleftrightarrow> bit b 7" by (simp add: bit_unsigned_iff)
    then show ?thesis by (simp add: bit_iff_odd)
  qed
  also have "\<dots> \<longleftrightarrow> unat b < 128"
  proof -
    have "unat b div 128 < 2" using unat_byte_less [of b] by (intro less_mult_imp_div_less) simp
    then have "unat b div 128 = 0 \<or> unat b div 128 = 1" by linarith
    then show ?thesis by (auto simp: div_eq_0_iff)
  qed
  finally show ?thesis .
qed

lemma unat_byte_and_7f: "unat ((b :: byte) AND 0x7f) = unat b mod 128"
proof -
  have "(0x7f :: byte) = mask 7" by (simp add: mask_eq_exp_minus_1)
  then have "b AND 0x7f = take_bit 7 b" by (simp only: take_bit_eq_mask)
  then have "unat (b AND 0x7f) = take_bit 7 (unat b)" by (simp only: unsigned_take_bit_eq)
  then show ?thesis by (simp only: take_bit_eq_mod) simp
qed

lemma unat_or_disjoint:
  fixes a b :: "'a::len word"
  assumes "a AND b = 0"
  shows "unat (a OR b) = unat a + unat b"
proof -
  have "a OR b = a + b"
    using assms by (simp add: disjunctive_add_eq_or)
  moreover have "unat a + unat b < 2 ^ LENGTH('a)"
  proof -
    have "unat a AND unat b = 0"
      using assms by (metis unsigned_0 unsigned_and_eq)
    then have "unat a + unat b = unat a OR unat b"
      by (simp add: disjunctive_add_eq_or)
    also have "\<dots> = unat (a OR b)"
      by (simp add: unsigned_or_eq)
    finally show ?thesis
      using unsigned_less [of "a OR b", where 'a = nat] by simp
  qed
  ultimately show ?thesis
    by (simp add: unat_word_ariths)
qed

lemma unat_ucast_up:
  assumes "LENGTH('a::len) \<le> LENGTH('b::len)"
  shows "unat (ucast (w :: 'a word) :: 'b word) = unat w"
proof -
  have "unat w < 2 ^ LENGTH('a)" by (rule unsigned_less)
  also have "(2 :: nat) ^ LENGTH('a) \<le> 2 ^ LENGTH('b)"
    using assms by (intro power_increasing) simp_all
  finally show ?thesis by (simp add: unsigned_ucast_eq take_bit_nat_eq_self)
qed

lemma unat_ucast_down:
  "unat (w :: 'a::len word) < 2 ^ LENGTH('b::len) \<Longrightarrow> unat (ucast w :: 'b word) = unat w"
  by (simp add: unsigned_ucast_eq take_bit_nat_eq_self)

section \<open>The interfaces between encoders and decoders\<close>

text \<open>
  A decoder consumes a value from the front of a byte string and returns what is left.  An encoder
  matches it when decoding an encoding, followed by anything, returns the value and the rest.  The
  clients that write several values one after another rely on exactly that law; what follows from
  it is proved once here and used through the interpretations.
\<close>

locale prefix_codec =
  fixes enc :: "'a \<Rightarrow> byte list"
    and dec :: "byte list \<Rightarrow> 'a option \<times> byte list"
    and ok :: "'a \<Rightarrow> bool"
  assumes dec_enc: "ok v \<Longrightarrow> dec (enc v @ rest) = (Some v, rest)"
begin

lemma dec_enc_exact: "ok v \<Longrightarrow> dec (enc v) = (Some v, [])"
  using dec_enc [of v "[]"] by simp

lemma prefix_free:
  assumes "ok v" "ok w" "enc v @ r = enc w @ s"
  shows "v = w \<and> r = s"
  by (metis assms dec_enc option.inject prod.inject)

lemma enc_inject: "ok v \<Longrightarrow> ok w \<Longrightarrow> enc v = enc w \<Longrightarrow> v = w"
  using prefix_free [of v w "[]" "[]"] by simp

lemma enc_not_proper_prefix: "ok v \<Longrightarrow> ok w \<Longrightarrow> enc v @ r = enc w \<Longrightarrow> r = []"
  using prefix_free [of v w r "[]"] by simp

text \<open>A sequence of encodings determines the sequence of values (for values that are not
  encoded by the empty string).\<close>

lemma concat_inject:
  assumes "\<And>v. ok v \<Longrightarrow> enc v \<noteq> []"
    and "list_all ok vs" "list_all ok ws"
    and "concat (map enc vs) = concat (map enc ws)"
  shows "vs = ws"
  using assms(2-4)
proof (induction vs arbitrary: ws)
  case Nil
  then show ?case
    using assms(1) by (cases ws) auto
next
  case (Cons v vs)
  show ?case
  proof (cases ws)
    case Nil
    with Cons.prems assms(1) [of v] show ?thesis by simp
  next
    case ws: (Cons w ws')
    with Cons.prems have "v = w \<and> concat (map enc vs) = concat (map enc ws')"
      by (intro prefix_free) simp_all
    with Cons ws show ?thesis by simp
  qed
qed

end

text \<open>A decoder is canonical when it accepts nothing but encodings: no value has a second
  representation that the decoder also takes.\<close>

locale canonical_codec = prefix_codec +
  assumes enc_dec: "dec s = (Some v, rest) \<Longrightarrow> ok v \<and> s = enc v @ rest"
begin

lemma accepts_iff: "dec s = (Some v, rest) \<longleftrightarrow> ok v \<and> s = enc v @ rest"
  using dec_enc enc_dec by blast

lemma same_value_same_bytes:
  assumes "dec s = (Some v, r)" "dec s' = (Some v, r)"
  shows "s = s'"
  using assms by (simp add: accepts_iff)

lemma dec_consumes:
  assumes "dec s = (Some v, rest)" "\<And>v. ok v \<Longrightarrow> enc v \<noteq> []"
  shows "length rest < length s"
  using assms by (auto simp: accepts_iff)

end

end
