(* ===== verification/Ossl_Mem.thy ===== *)
theory Ossl_Mem
  imports Codec_Prelude
begin

text \<open>
  The memory and string helpers of BoringSSL (\<^verbatim>\<open>crypto/mem.c\<close>) that the byte-string code calls.

  A heap block is the list of its bytes.  The C library's \<open>malloc\<close> is the record \<open>allocator\<close>: which
  request sizes it grants and what an uninitialised byte of a fresh block holds.  The override
  hooks of \<^verbatim>\<open>mem.c\<close> (\<open>OPENSSL_memory_alloc\<close> and its companions) are weak symbols that no code of
  the repository defines, so the model follows the branch where they are \<open>NULL\<close>.  A C string is the
  list of its bytes before the terminating zero; reading at or behind the end of the list gives the
  terminator.  \<open>char\<close> is signed on the targets.
\<close>

record allocator =
  malloc_ok :: "nat \<Rightarrow> bool"
  junk :: "nat \<Rightarrow> byte"

definition good_allocator :: allocator where
  "good_allocator = \<lparr>malloc_ok = (\<lambda>n. n < size_mod), junk = (\<lambda>_. 0xCC)\<rparr>"

section \<open>Allocation\<close>

definition OPENSSL_malloc :: "allocator \<Rightarrow> nat \<Rightarrow> byte list option" where
  "OPENSSL_malloc al n =
     (if (n + 8) mod size_mod < n then None
      else if malloc_ok al (n + 8) then Some (map (junk al) [0..<n]) else None)"

definition OPENSSL_realloc :: "allocator \<Rightarrow> byte list option \<Rightarrow> nat \<Rightarrow> byte list option" where
  "OPENSSL_realloc al orig new_size =
     (case orig of
        None \<Rightarrow> OPENSSL_malloc al new_size
      | Some old \<Rightarrow>
          (case OPENSSL_malloc al new_size of
             None \<Rightarrow> None
           | Some ret \<Rightarrow>
               (let to_copy = (if length old < new_size then length old else new_size)
                in Some (take to_copy old @ drop to_copy ret))))"

definition OPENSSL_memdup :: "allocator \<Rightarrow> byte list \<Rightarrow> byte list option" where
  "OPENSSL_memdup al data =
     (if length data = 0 then None
      else case OPENSSL_malloc al (length data) of None \<Rightarrow> None | Some _ \<Rightarrow> Some data)"

text \<open>\<open>OPENSSL_cleanse\<close> zeroes a block; \<open>OPENSSL_free\<close> zeroes it with the size in front of it and hands it to
  \<open>free\<close>: the result is the block as \<open>free\<close> gets it.\<close>

definition OPENSSL_cleanse :: "byte list \<Rightarrow> nat \<Rightarrow> byte list" where
  "OPENSSL_cleanse block len = replicate len 0 @ drop len block"

definition OPENSSL_free :: "byte list option \<Rightarrow> byte list option" where
  "OPENSSL_free orig_ptr =
     (case orig_ptr of
        None \<Rightarrow> None
      | Some block \<Rightarrow>
          (let ptr = map (\<lambda>i. word_of_nat (length block div 256 ^ i)) [0..<8] @ block
           in Some (OPENSSL_cleanse ptr (length block + 8))))"

definition OPENSSL_clear_free :: "byte list option \<Rightarrow> nat \<Rightarrow> byte list option" where
  "OPENSSL_clear_free ptr unused = OPENSSL_free ptr"

definition CRYPTO_malloc :: "allocator \<Rightarrow> nat \<Rightarrow> byte list option" where
  "CRYPTO_malloc al n = OPENSSL_malloc al n"

definition CRYPTO_realloc :: "allocator \<Rightarrow> byte list option \<Rightarrow> nat \<Rightarrow> byte list option" where
  "CRYPTO_realloc al ptr new_size = OPENSSL_realloc al ptr new_size"

definition CRYPTO_free :: "byte list option \<Rightarrow> byte list option" where
  "CRYPTO_free ptr = OPENSSL_free ptr"

lemma OPENSSL_free_zeroed: "OPENSSL_free (Some block) = Some (replicate (length block + 8) 0)"
  by (simp add: OPENSSL_free_def OPENSSL_cleanse_def)

lemma OPENSSL_malloc_length: "OPENSSL_malloc al n = Some b \<Longrightarrow> length b = n"
  by (auto simp: OPENSSL_malloc_def split: if_splits)

lemma OPENSSL_realloc_length: "OPENSSL_realloc al orig n = Some b \<Longrightarrow> length b = n"
  by (auto simp: OPENSSL_realloc_def Let_def dest: OPENSSL_malloc_length
      split: option.splits if_splits)

lemma OPENSSL_realloc_grows:
  assumes "OPENSSL_realloc al (Some old) n = Some b" "k \<le> length old" "length old \<le> n"
  shows "take k b = take k old"
  using assms by (auto simp: OPENSSL_realloc_def Let_def split: option.splits if_splits)

section \<open>Comparison\<close>

text \<open>The loop of \<open>CRYPTO_memcmp\<close> reads the same number of bytes from both blocks whatever they
  hold; the accumulator collects every difference.\<close>

definition CRYPTO_memcmp :: "byte list \<Rightarrow> byte list \<Rightarrow> nat \<Rightarrow> byte" where
  "CRYPTO_memcmp a b len = foldl (\<lambda>x i. x OR (a ! i XOR b ! i)) 0 [0..<len]"

lemma foldl_or_eq_0_iff:
  "foldl (\<lambda>x i. x OR f i) a is = (0 :: 'a::len word) \<longleftrightarrow> a = 0 \<and> (\<forall>i \<in> set is. f i = 0)"
proof (induction "is" arbitrary: a)
  case Nil
  then show ?case by simp
next
  case (Cons i "is")
  have "a OR f i = 0 \<longleftrightarrow> a = 0 \<and> f i = 0"
    by (auto simp: bit_eq_iff bit_simps)
  with Cons show ?case by auto
qed

lemma CRYPTO_memcmp_eq_0_iff:
  assumes "n \<le> length a" "n \<le> length b"
  shows "CRYPTO_memcmp a b n = 0 \<longleftrightarrow> take n a = take n b"
proof -
  have xor: "x XOR y = 0 \<longleftrightarrow> x = y" for x y :: byte
    by (auto simp: bit_eq_iff bit_simps)
  have "CRYPTO_memcmp a b n = 0 \<longleftrightarrow> (\<forall>i < n. a ! i = b ! i)"
    by (auto simp: CRYPTO_memcmp_def foldl_or_eq_0_iff xor)
  with assms show ?thesis
    by (auto simp: list_eq_iff_nth_eq)
qed

text \<open>\<open>OPENSSL_memcmp\<close>: the sign of the first difference.\<close>

definition mem_cmp :: "byte list \<Rightarrow> byte list \<Rightarrow> nat \<Rightarrow> int" where
  "mem_cmp a b n =
     (case filter (\<lambda>i. a ! i \<noteq> b ! i) [0..<n] of
        [] \<Rightarrow> 0
      | i # _ \<Rightarrow> if a ! i < b ! i then -1 else 1)"

lemma mem_cmp_eq_0_iff:
  assumes "n \<le> length a" "n \<le> length b"
  shows "mem_cmp a b n = 0 \<longleftrightarrow> take n a = take n b"
proof -
  have "mem_cmp a b n = 0 \<longleftrightarrow> filter (\<lambda>i. a ! i \<noteq> b ! i) [0..<n] = []"
    by (simp add: mem_cmp_def split: list.split)
  also have "\<dots> \<longleftrightarrow> (\<forall>i < n. a ! i = b ! i)" by (auto simp: filter_empty_conv)
  finally show ?thesis using assms by (auto simp: list_eq_iff_nth_eq)
qed

definition OPENSSL_tolower :: "int \<Rightarrow> int" where
  "OPENSSL_tolower c = (if c \<ge> 65 \<and> c \<le> 90 then c + (97 - 65) else c)"

text \<open>The byte at the front of a C string, as a (signed) \<open>int\<close>.\<close>

definition c_char :: "byte list \<Rightarrow> int" where
  "c_char s = (case s of [] \<Rightarrow> 0 | b # _ \<Rightarrow> sint b)"

function OPENSSL_strcasecmp :: "byte list \<Rightarrow> byte list \<Rightarrow> int" where
  "OPENSSL_strcasecmp a b =
     (let aa = OPENSSL_tolower (c_char a); bb = OPENSSL_tolower (c_char b) in
      if aa < bb then -1
      else if aa > bb then 1
      else if aa = 0 then 0
      else OPENSSL_strcasecmp (tl a) (tl b))"
  by pat_completeness auto
termination
proof (relation "measure (\<lambda>(a, b). length a)", simp, goal_cases)
  case (1 a b aa bb)
  have "OPENSSL_tolower 0 = 0" by (simp add: OPENSSL_tolower_def)
  with 1 have "a \<noteq> []" by (auto simp: c_char_def)
  then show ?case by simp
qed

fun OPENSSL_strncasecmp :: "byte list \<Rightarrow> byte list \<Rightarrow> nat \<Rightarrow> int" where
  "OPENSSL_strncasecmp a b 0 = 0"
| "OPENSSL_strncasecmp a b (Suc n) =
     (let aa = OPENSSL_tolower (c_char a); bb = OPENSSL_tolower (c_char b) in
      if aa < bb then -1
      else if aa > bb then 1
      else if aa = 0 then 0
      else OPENSSL_strncasecmp (tl a) (tl b) n)"

declare OPENSSL_strcasecmp.simps [simp del]

lemma OPENSSL_strcasecmp_refl: "OPENSSL_strcasecmp a a = 0"
proof (induction a)
  case Nil
  show ?case
    by (subst OPENSSL_strcasecmp.simps) (simp add: Let_def c_char_def OPENSSL_tolower_def)
next
  case (Cons b a)
  then show ?case
    by (subst OPENSSL_strcasecmp.simps) (simp add: Let_def)
qed

lemma OPENSSL_strcasecmp_antisym: "OPENSSL_strcasecmp a b = - OPENSSL_strcasecmp b a"
proof (induction a b rule: OPENSSL_strcasecmp.induct)
  case (1 a b)
  then show ?case
    by (subst (1 2) OPENSSL_strcasecmp.simps) (auto simp: Let_def)
qed

lemma OPENSSL_strncasecmp_long:
  "length a < n \<Longrightarrow> OPENSSL_strncasecmp a b n = OPENSSL_strcasecmp a b"
proof (induction a b n rule: OPENSSL_strncasecmp.induct)
  case (1 a b)
  then show ?case by simp
next
  case (2 a b n)
  have zero: "OPENSSL_tolower 0 = 0" by (simp add: OPENSSL_tolower_def)
  show ?case
  proof (cases a)
    case Nil
    then show ?thesis
      by (subst OPENSSL_strcasecmp.simps) (simp add: Let_def c_char_def zero)
  next
    case (Cons c a')
    with 2 show ?thesis
      by (subst OPENSSL_strcasecmp.simps) (simp add: Let_def)
  qed
qed

section \<open>Strings and hashing\<close>

fun OPENSSL_strnlen :: "byte list \<Rightarrow> nat \<Rightarrow> nat" where
  "OPENSSL_strnlen s 0 = 0"
| "OPENSSL_strnlen [] (Suc n) = 0"
| "OPENSSL_strnlen (b # s) (Suc n) = (if b = 0 then 0 else Suc (OPENSSL_strnlen s n))"

lemma OPENSSL_strnlen_takeWhile:
  "take (OPENSSL_strnlen s n) s = takeWhile (\<lambda>b. b \<noteq> 0) (take n s)"
  by (induction s n rule: OPENSSL_strnlen.induct) auto

lemma OPENSSL_strnlen_le: "OPENSSL_strnlen s n \<le> n" "OPENSSL_strnlen s n \<le> length s"
  by (induction s n rule: OPENSSL_strnlen.induct) auto

text \<open>The result of \<open>OPENSSL_strndup\<close> is the new block, with its terminator.\<close>

definition OPENSSL_strndup :: "allocator \<Rightarrow> byte list \<Rightarrow> nat \<Rightarrow> byte list option" where
  "OPENSSL_strndup al str n =
     (let len = OPENSSL_strnlen str n; alloc_size = (len + 1) mod size_mod in
      if alloc_size < len then None
      else case OPENSSL_malloc al alloc_size of
             None \<Rightarrow> None
           | Some _ \<Rightarrow> Some (take len str @ [0]))"

definition OPENSSL_hash32 :: "byte list \<Rightarrow> u32" where
  "OPENSSL_hash32 ptr = foldl (\<lambda>h b. (h XOR ucast b) * 16777619) 2166136261 ptr"

lemma OPENSSL_hash32_append:
  "OPENSSL_hash32 (xs @ [b]) = (OPENSSL_hash32 xs XOR ucast b) * 16777619"
  by (simp add: OPENSSL_hash32_def)

text \<open>\<open>OPENSSL_strlcpy\<close>: the bytes written to the destination (with the terminator, when there is
  room for one) and the length of the source.\<close>

fun strlcpy_loop :: "byte list \<Rightarrow> nat \<Rightarrow> byte list \<times> byte list \<times> nat" where
  "strlcpy_loop [] n = ([], [], n)"
| "strlcpy_loop (b # src) n =
     (if n > 1 \<and> b \<noteq> 0
      then (case strlcpy_loop src (n - 1) of (out, rest, n') \<Rightarrow> (b # out, rest, n'))
      else ([], b # src, n))"

definition OPENSSL_strlcpy :: "byte list \<Rightarrow> nat \<Rightarrow> byte list \<times> nat" where
  "OPENSSL_strlcpy src dst_size =
     (case strlcpy_loop src dst_size of
        (out, rest, n) \<Rightarrow>
          (if n \<noteq> 0 then out @ [0] else out,
           length out + length (takeWhile (\<lambda>b. b \<noteq> 0) rest)))"

lemma strlcpy_loop_split:
  "strlcpy_loop src n = (out, rest, n') \<Longrightarrow>
     src = out @ rest \<and> n = length out + n' \<and> (n > 0 \<longrightarrow> n' > 0) \<and> (\<forall>b \<in> set out. b \<noteq> 0)"
  by (induction src n arbitrary: out rest n' rule: strlcpy_loop.induct)
    (fastforce split: if_splits prod.splits)+

lemma strlcpy_loop_out:
  "fst (strlcpy_loop src n) = take (n - 1) (takeWhile (\<lambda>b. b \<noteq> 0) src)"
proof (induction src n rule: strlcpy_loop.induct)
  case (1 n)
  then show ?case by simp
next
  case (2 b src n)
  then show ?case
    by (cases n rule: nat.exhaust; cases "n - 1") (auto split: prod.splits)
qed

lemma OPENSSL_strlcpy_spec:
  assumes "0 < n"
  shows "OPENSSL_strlcpy src n =
    (take (n - 1) (takeWhile (\<lambda>b. b \<noteq> 0) src) @ [0], length (takeWhile (\<lambda>b. b \<noteq> 0) src))"
proof -
  obtain out rest n' where loop: "strlcpy_loop src n = (out, rest, n')"
    using prod_cases3 by blast
  note split = strlcpy_loop_split [OF this]
  have "takeWhile (\<lambda>b. b \<noteq> 0) src = takeWhile (\<lambda>b. b \<noteq> 0) (out @ rest)"
    using split by simp
  also have "\<dots> = out @ takeWhile (\<lambda>b. b \<noteq> 0) rest"
    by (rule takeWhile_append2) (use split in blast)
  finally have len: "length out + length (takeWhile (\<lambda>b. b \<noteq> 0) rest)
      = length (takeWhile (\<lambda>b. b \<noteq> 0) src)"
    by simp
  have "n' > 0" using split assms by blast
  then have "OPENSSL_strlcpy src n = (out @ [0], length (takeWhile (\<lambda>b. b \<noteq> 0) src))"
    by (simp add: OPENSSL_strlcpy_def loop len)
  moreover have "take (n - 1) (takeWhile (\<lambda>b. b \<noteq> 0) src) = out"
    using strlcpy_loop_out [of src n] loop by simp
  ultimately show ?thesis by simp
qed

text \<open>\<open>OPENSSL_strlcat\<close>: the string in \<open>dst\<close> is skipped, as far as the size reaches, and the source copied behind it.  The
  result is what the destination then begins with and the length that the whole would have.\<close>

fun strlcat_skip :: "byte list \<Rightarrow> nat \<Rightarrow> nat" where
  "strlcat_skip dst 0 = 0"
| "strlcat_skip [] (Suc n) = 0"
| "strlcat_skip (b # dst) (Suc n) = (if b \<noteq> 0 then Suc (strlcat_skip dst n) else 0)"

definition OPENSSL_strlcat :: "byte list \<Rightarrow> byte list \<Rightarrow> nat \<Rightarrow> byte list \<times> nat" where
  "OPENSSL_strlcat dst src dst_size =
     (let l = strlcat_skip dst dst_size in
      case OPENSSL_strlcpy src (dst_size - l) of (copied, n) \<Rightarrow> (take l dst @ copied, l + n))"

definition OPENSSL_strdup :: "allocator \<Rightarrow> byte list option \<Rightarrow> byte list option" where
  "OPENSSL_strdup al s =
     (case s of
        None \<Rightarrow> None
      | Some s \<Rightarrow>
          (let str = takeWhile (\<lambda>b. b \<noteq> 0) s in
           case OPENSSL_malloc al (length str + 1) of None \<Rightarrow> None | Some _ \<Rightarrow> Some (str @ [0])))"

definition OPENSSL_strhash :: "byte list \<Rightarrow> u32" where
  "OPENSSL_strhash s = OPENSSL_hash32 (takeWhile (\<lambda>b. b \<noteq> 0) s)"

lemma strlcat_skip_takeWhile: "take (strlcat_skip dst n) dst = takeWhile (\<lambda>b. b \<noteq> 0) (take n dst)"
  by (induction dst n rule: strlcat_skip.induct) auto

lemma strlcat_skip_le: "strlcat_skip dst n \<le> n"
  by (induction dst n rule: strlcat_skip.induct) auto

text \<open>With room for the string in the destination, \<open>OPENSSL_strlcat\<close> appends as much of the source as fits.\<close>

lemma OPENSSL_strlcat_spec:
  fixes dst src :: "byte list"
  defines "d \<equiv> takeWhile (\<lambda>b. b \<noteq> 0) dst" and "s \<equiv> takeWhile (\<lambda>b. b \<noteq> 0) src"
  assumes "length d < n" "length d < length dst"
  shows "OPENSSL_strlcat dst src n = (d @ take (n - length d - 1) s @ [0], length d + length s)"
proof -
  have "length (takeWhile (\<lambda>b. b \<noteq> 0) dst) < n \<Longrightarrow> length (takeWhile (\<lambda>b. b \<noteq> 0) dst) < length dst \<Longrightarrow>
      strlcat_skip dst n = length (takeWhile (\<lambda>b. b \<noteq> 0) dst)"
    by (induction dst n rule: strlcat_skip.induct) auto
  then have skip: "strlcat_skip dst n = length d" using assms by (simp add: d_def)
  have "take (length d) dst = d"
    unfolding d_def by (rule takeWhile_eq_take [symmetric])
  with skip assms(3) OPENSSL_strlcpy_spec [of "n - length d" src] show ?thesis
    by (simp add: OPENSSL_strlcat_def Let_def s_def)
qed

end
