(* ===== verification/Cbs.thy ===== *)
theory Cbs
  imports Ossl_Mem
begin

text \<open>
  The byte-string reader of BoringSSL, \<^verbatim>\<open>crypto/bytestring/cbs.c\<close> up to the ASN.1 functions: a
  \<open>CBS\<close> is a pointer to bytes owned by somebody else and their number.  The model is the list of
  these bytes; a \<open>CBS\<close> that a call hands out is a slice of the same memory, so slices are
  sublists.  Every getter returns its result in an option (\<open>None\<close> is the return value 0) and the
  \<open>CBS\<close> as the call left it, on failure too.
\<close>

type_synonym CBS = "byte list"
type_synonym 'a reader = "CBS \<Rightarrow> 'a option \<times> CBS"

section \<open>Raw access\<close>

definition CBS_init :: "byte list \<Rightarrow> nat \<Rightarrow> CBS" where
  "CBS_init data len = take len data"

definition cbs_get :: "CBS \<Rightarrow> nat \<Rightarrow> byte list option \<times> CBS" where
  "cbs_get cbs n =
     (if length cbs < n then (None, cbs) else (Some (take n cbs), drop n cbs))"

definition CBS_skip :: "CBS \<Rightarrow> nat \<Rightarrow> unit option \<times> CBS" where
  "CBS_skip cbs len =
     (case cbs_get cbs len of (None, cbs) \<Rightarrow> (None, cbs) | (Some _, cbs) \<Rightarrow> (Some (), cbs))"

definition CBS_data :: "CBS \<Rightarrow> byte list" where
  "CBS_data cbs = cbs"

definition CBS_len :: "CBS \<Rightarrow> nat" where
  "CBS_len cbs = length cbs"

text \<open>\<open>CBS_stow\<close> succeeds with no buffer (\<open>NULL\<close>) for an empty \<open>CBS\<close>.\<close>

definition CBS_stow :: "allocator \<Rightarrow> CBS \<Rightarrow> byte list option option" where
  "CBS_stow al cbs =
     (if CBS_len cbs = 0 then Some None
      else case OPENSSL_memdup al cbs of None \<Rightarrow> None | Some p \<Rightarrow> Some (Some p))"

definition CBS_strdup :: "allocator \<Rightarrow> CBS \<Rightarrow> byte list option" where
  "CBS_strdup al cbs = OPENSSL_strndup al (CBS_data cbs) (CBS_len cbs)"

definition CBS_contains_zero_byte :: "CBS \<Rightarrow> bool" where
  "CBS_contains_zero_byte cbs = (0 \<in> set cbs)"

definition CBS_mem_equal :: "CBS \<Rightarrow> byte list \<Rightarrow> nat \<Rightarrow> bool" where
  "CBS_mem_equal cbs data len =
     (if len \<noteq> CBS_len cbs then False else CRYPTO_memcmp cbs data len = 0)"

section \<open>Fixed-width integers\<close>

text \<open>The loop of \<open>cbs_get_u\<close>: shift the result left by a byte, or the next byte in.\<close>

definition be_word :: "byte list \<Rightarrow> u64" where
  "be_word data = foldl (\<lambda>result b. push_bit 8 result OR ucast b) 0 data"

definition cbs_get_u :: "CBS \<Rightarrow> nat \<Rightarrow> u64 option \<times> CBS" where
  "cbs_get_u cbs len =
     (case cbs_get cbs len of
        (None, cbs) \<Rightarrow> (None, cbs)
      | (Some data, cbs) \<Rightarrow> (Some (be_word data), cbs))"

definition CBS_get_u8 :: "CBS \<Rightarrow> byte option \<times> CBS" where
  "CBS_get_u8 cbs =
     (case cbs_get cbs 1 of (None, cbs) \<Rightarrow> (None, cbs) | (Some v, cbs) \<Rightarrow> (Some (v ! 0), cbs))"

definition CBS_get_u16 :: "CBS \<Rightarrow> u16 option \<times> CBS" where
  "CBS_get_u16 cbs =
     (case cbs_get_u cbs 2 of (None, cbs) \<Rightarrow> (None, cbs) | (Some v, cbs) \<Rightarrow> (Some (ucast v), cbs))"

definition CBS_get_u24 :: "CBS \<Rightarrow> u32 option \<times> CBS" where
  "CBS_get_u24 cbs =
     (case cbs_get_u cbs 3 of (None, cbs) \<Rightarrow> (None, cbs) | (Some v, cbs) \<Rightarrow> (Some (ucast v), cbs))"

definition CBS_get_u32 :: "CBS \<Rightarrow> u32 option \<times> CBS" where
  "CBS_get_u32 cbs =
     (case cbs_get_u cbs 4 of (None, cbs) \<Rightarrow> (None, cbs) | (Some v, cbs) \<Rightarrow> (Some (ucast v), cbs))"

definition CBS_get_u64 :: "CBS \<Rightarrow> u64 option \<times> CBS" where
  "CBS_get_u64 cbs = cbs_get_u cbs 8"

definition CRYPTO_bswap2 :: "u16 \<Rightarrow> u16" where
  "CRYPTO_bswap2 x = drop_bit 8 x OR push_bit 8 x"

definition CRYPTO_bswap4 :: "u32 \<Rightarrow> u32" where
  "CRYPTO_bswap4 x =
     (let x = drop_bit 16 x OR push_bit 16 x in
      drop_bit 8 (x AND 0xff00ff00) OR push_bit 8 (x AND 0x00ff00ff))"

definition CRYPTO_bswap8 :: "u64 \<Rightarrow> u64" where
  "CRYPTO_bswap8 x =
     ucast (CRYPTO_bswap4 (ucast (drop_bit 32 x)))
       OR push_bit 32 (ucast (CRYPTO_bswap4 (ucast x)))"

definition CBS_get_u16le :: "CBS \<Rightarrow> u16 option \<times> CBS" where
  "CBS_get_u16le cbs =
     (case CBS_get_u16 cbs of (None, cbs) \<Rightarrow> (None, cbs)
      | (Some v, cbs) \<Rightarrow> (Some (CRYPTO_bswap2 v), cbs))"

definition CBS_get_u32le :: "CBS \<Rightarrow> u32 option \<times> CBS" where
  "CBS_get_u32le cbs =
     (case CBS_get_u32 cbs of (None, cbs) \<Rightarrow> (None, cbs)
      | (Some v, cbs) \<Rightarrow> (Some (CRYPTO_bswap4 v), cbs))"

definition CBS_get_u64le :: "CBS \<Rightarrow> u64 option \<times> CBS" where
  "CBS_get_u64le cbs =
     (case cbs_get_u cbs 8 of (None, cbs) \<Rightarrow> (None, cbs)
      | (Some v, cbs) \<Rightarrow> (Some (CRYPTO_bswap8 v), cbs))"

definition CBS_get_last_u8 :: "CBS \<Rightarrow> byte option \<times> CBS" where
  "CBS_get_last_u8 cbs =
     (if CBS_len cbs = 0 then (None, cbs)
      else (Some (cbs ! (CBS_len cbs - 1)), take (CBS_len cbs - 1) cbs))"

section \<open>Slices\<close>

definition CBS_get_bytes :: "CBS \<Rightarrow> nat \<Rightarrow> CBS option \<times> CBS" where
  "CBS_get_bytes cbs len =
     (case cbs_get cbs len of
        (None, cbs) \<Rightarrow> (None, cbs)
      | (Some v, cbs) \<Rightarrow> (Some (CBS_init v len), cbs))"

definition CBS_copy_bytes :: "CBS \<Rightarrow> nat \<Rightarrow> byte list option \<times> CBS" where
  "CBS_copy_bytes cbs len =
     (case cbs_get cbs len of (None, cbs) \<Rightarrow> (None, cbs) | (Some v, cbs) \<Rightarrow> (Some v, cbs))"

definition cbs_get_length_prefixed :: "CBS \<Rightarrow> nat \<Rightarrow> CBS option \<times> CBS" where
  "cbs_get_length_prefixed cbs len_len =
     (case cbs_get_u cbs len_len of
        (None, cbs) \<Rightarrow> (None, cbs)
      | (Some len, cbs) \<Rightarrow> CBS_get_bytes cbs (unat len))"

definition CBS_get_u8_length_prefixed :: "CBS \<Rightarrow> CBS option \<times> CBS" where
  "CBS_get_u8_length_prefixed cbs = cbs_get_length_prefixed cbs 1"

definition CBS_get_u16_length_prefixed :: "CBS \<Rightarrow> CBS option \<times> CBS" where
  "CBS_get_u16_length_prefixed cbs = cbs_get_length_prefixed cbs 2"

definition CBS_get_u24_length_prefixed :: "CBS \<Rightarrow> CBS option \<times> CBS" where
  "CBS_get_u24_length_prefixed cbs = cbs_get_length_prefixed cbs 3"

definition CBS_get_until_first :: "CBS \<Rightarrow> byte \<Rightarrow> CBS option \<times> CBS" where
  "CBS_get_until_first cbs c =
     (if c \<notin> set (CBS_data cbs) then (None, cbs)
      else CBS_get_bytes cbs (length (takeWhile (\<lambda>b. b \<noteq> c) (CBS_data cbs))))"

section \<open>What the getters do\<close>

lemma cbs_get_append [simp]: "cbs_get (xs @ s) (length xs) = (Some xs, s)"
  by (simp add: cbs_get_def)

lemma cbs_get_Some_iff: "cbs_get s n = (Some v, r) \<longleftrightarrow> length v = n \<and> s = v @ r"
  by (auto simp: cbs_get_def split: if_splits)

lemma cbs_get_None_iff: "cbs_get s n = (None, r) \<longleftrightarrow> length s < n \<and> r = s"
  by (auto simp: cbs_get_def)

lemma CBS_get_u8_Nil [simp]: "CBS_get_u8 [] = (None, [])"
  by (simp add: CBS_get_u8_def cbs_get_def)

lemma CBS_get_u8_Cons [simp]: "CBS_get_u8 (b # s) = (Some b, s)"
  by (simp add: CBS_get_u8_def cbs_get_def)

lemma CBS_get_bytes_eq:
  "CBS_get_bytes s n = (if length s < n then (None, s) else (Some (take n s), drop n s))"
  by (simp add: CBS_get_bytes_def CBS_init_def cbs_get_def)

lemma CBS_get_bytes_append [simp]: "CBS_get_bytes (xs @ s) (length xs) = (Some xs, s)"
  by (simp add: CBS_get_bytes_eq)

lemma CBS_get_bytes_Some_iff:
  "CBS_get_bytes s n = (Some v, r) \<longleftrightarrow> length v = n \<and> s = v @ r"
  by (auto simp: CBS_get_bytes_eq split: if_splits)

lemma CBS_skip_eq:
  "CBS_skip s n = (if length s < n then (None, s) else (Some (), drop n s))"
  by (simp add: CBS_skip_def cbs_get_def)

subsection \<open>Big-endian words\<close>

lemma be_word_Nil [simp]: "be_word [] = 0"
  by (simp add: be_word_def)

lemma be_word_snoc: "be_word (bs @ [b]) = push_bit 8 (be_word bs) OR ucast b"
  by (simp add: be_word_def)

lemma push_ucast_disjoint:
  "push_bit 8 (w :: u64) AND ucast (b :: byte) = 0"
  by (rule bit_word_eqI) (auto simp: bit_simps dest: bit_imp_le_length)

lemma unat_ucast_byte [simp]: "unat (ucast (b :: byte) :: u64) = unat b"
  by (rule unat_ucast_up) simp

lemma unat_ucast_byte32 [simp]: "unat (ucast (b :: byte) :: u32) = unat b"
  by (rule unat_ucast_up) simp

text \<open>As long as nothing is shifted out, the loop computes the big-endian number.\<close>

lemma unat_be_word: "length bs \<le> 8 \<Longrightarrow> unat (be_word bs) = be_nat bs"
proof (induction bs rule: rev_induct)
  case Nil
  then show ?case by simp
next
  case (snoc b bs)
  then have IH: "unat (be_word bs) = be_nat bs" by simp
  have "be_nat bs < 256 ^ length bs" by (rule be_nat_less)
  also have "\<dots> \<le> 256 ^ 7" using snoc.prems by (intro power_increasing) simp_all
  finally have fits: "be_nat bs * 256 < 2 ^ 64" by simp
  have "unat (push_bit 8 (be_word bs)) = take_bit 64 (be_nat bs * 256)"
    by (simp add: unsigned_push_bit_eq IH) (simp add: push_bit_eq_mult)
  also from fits have "\<dots> = be_nat bs * 256"
    by (rule take_bit_nat_eq_self)
  finally have "unat (push_bit 8 (be_word bs)) = be_nat bs * 256" .
  then show ?case
    by (simp add: be_word_snoc unat_or_disjoint push_ucast_disjoint)
qed

lemma unat_ucast_be_word:
  assumes "length bs \<le> 8" "256 ^ length bs \<le> (2 ^ LENGTH('a) :: nat)"
  shows "unat (ucast (be_word bs) :: 'a::len word) = be_nat bs"
proof -
  have "be_nat bs < 2 ^ LENGTH('a)"
    using be_nat_less [of bs] assms(2) by linarith
  then show ?thesis
    by (simp add: unsigned_ucast_eq unat_be_word [OF assms(1)] take_bit_nat_eq_self)
qed

lemma cbs_get_u_be_bytes [simp]:
  assumes "n \<le> 8" "v < 256 ^ n"
  shows "cbs_get_u (be_bytes n v @ rest) n = (Some (word_of_nat v), rest)"
proof -
  have "be_word (be_bytes n v) = word_of_nat v"
    using unat_be_word [of "be_bytes n v"] assms
    by (metis be_nat_be_bytes_id length_be_bytes of_nat_unat ucast_id)
  then show ?thesis
    using cbs_get_append [of "be_bytes n v" rest] by (simp add: cbs_get_u_def)
qed

lemma cbs_get_u_Some_iff:
  assumes "n \<le> 8"
  shows "cbs_get_u s n = (Some w, r) \<longleftrightarrow> unat w < 256 ^ n \<and> s = be_bytes n (unat w) @ r"
proof
  assume "cbs_get_u s n = (Some w, r)"
  then obtain v where v: "cbs_get s n = (Some v, r)" "w = be_word v"
    by (auto simp: cbs_get_u_def split: prod.splits option.splits)
  then have len: "length v = n" and s: "s = v @ r"
    by (simp_all add: cbs_get_Some_iff)
  have w: "unat w = be_nat v"
    using v(2) len assms by (simp add: unat_be_word)
  then have "be_bytes n (unat w) = v" "unat w < 256 ^ n"
    using be_bytes_be_nat [of v] be_nat_less [of v] len by simp_all
  with s show "unat w < 256 ^ n \<and> s = be_bytes n (unat w) @ r" by simp
next
  assume "unat w < 256 ^ n \<and> s = be_bytes n (unat w) @ r"
  with assms show "cbs_get_u s n = (Some w, r)"
    using cbs_get_u_be_bytes [of n "unat w" r] by simp
qed

lemma cbs_get_u_None_iff: "cbs_get_u s n = (None, r) \<longleftrightarrow> length s < n \<and> r = s"
  by (auto simp: cbs_get_u_def cbs_get_def)

subsection \<open>Byte swapping\<close>

text \<open>The bits of a number read from bytes, and of its byte-swapped form.\<close>

lemma bit_be_word_snoc:
  "bit (be_word (bs @ [b])) n \<longleftrightarrow> (if n < 8 then bit b n else n < 64 \<and> bit (be_word bs) (n - 8))"
  by (auto simp: be_word_snoc bit_simps dest: bit_imp_le_length)

lemma bit_be_word_append:
  "bit (be_word (xs @ ys)) n \<longleftrightarrow>
     (if n < 8 * length ys then n < 64 \<and> bit (be_word ys) n
      else n < 64 \<and> bit (be_word xs) (n - 8 * length ys))"
proof (induction ys arbitrary: n rule: rev_induct)
  case Nil
  then show ?case by (auto dest: bit_imp_le_length)
next
  case (snoc y ys)
  have "n - 8 < 8 * length ys \<longleftrightarrow> n < 8 * length (ys @ [y])" if "8 \<le> n"
    using that by auto
  moreover have "n - 8 - 8 * length ys = n - 8 * length (ys @ [y])" by simp
  ultimately show ?case
    using snoc [of "n - 8"] bit_be_word_snoc [of "xs @ ys" y n] bit_be_word_snoc [of ys y n]
    by (auto dest: bit_imp_le_length)
qed

lemma bit_be_word_single: "bit (be_word [a]) n \<longleftrightarrow> bit a n"
  using bit_be_word_snoc [of "[]" a n] by (auto dest: bit_imp_le_length)

lemma bit_be_word_2:
  "bit (be_word [a, b]) n \<longleftrightarrow> (if n < 8 then bit b n else bit a (n - 8))"
  using bit_be_word_append [of "[a]" "[b]" n]
  by (auto simp: bit_be_word_single dest: bit_imp_le_length)

lemma bit_be_word_4:
  "bit (be_word [a, b, c, d]) n \<longleftrightarrow>
     (if n < 16 then bit (be_word [c, d]) n else n < 32 \<and> bit (be_word [a, b]) (n - 16))"
  using bit_be_word_append [of "[a, b]" "[c, d]" n]
  by (auto simp: bit_be_word_2 dest: bit_imp_le_length split: if_splits)

lemma bit_be_word_8:
  "bit (be_word [a, b, c, d, e, f, g, h]) n \<longleftrightarrow>
     (if n < 32 then bit (be_word [e, f, g, h]) n
      else n < 64 \<and> bit (be_word [a, b, c, d]) (n - 32))"
  using bit_be_word_append [of "[a, b, c, d]" "[e, f, g, h]" n] by simp

lemma bit_mask_ff00ff00:
  "bit (0xff00ff00 :: u32) n \<longleftrightarrow> (8 \<le> n \<and> n < 16) \<or> (24 \<le> n \<and> n < 32)"
proof -
  have "0xff00ff00 = push_bit 8 (mask 8) OR push_bit 24 (mask 8 :: u32)"
    by (simp add: mask_eq_exp_minus_1)
  then show ?thesis by (simp only: bit_simps) auto
qed

lemma bit_mask_00ff00ff:
  "bit (0x00ff00ff :: u32) n \<longleftrightarrow> n < 8 \<or> (16 \<le> n \<and> n < 24)"
proof -
  have "0x00ff00ff = mask 8 OR push_bit 16 (mask 8 :: u32)"
    by (simp add: mask_eq_exp_minus_1)
  then show ?thesis by (simp only: bit_simps) auto
qed

lemma bit_swap_masked:
  fixes y m m' :: u32
  shows "bit (drop_bit 8 (y AND m) OR push_bit 8 (y AND m')) n \<longleftrightarrow>
    bit y (n + 8) \<and> bit m (n + 8) \<or> 8 \<le> n \<and> n < 32 \<and> bit y (n - 8) \<and> bit m' (n - 8)"
  by (auto simp: bit_simps add.commute)

lemma bit_CRYPTO_bswap4:
  "bit (CRYPTO_bswap4 x) n \<longleftrightarrow>
     (if n < 8 then bit x (n + 24) else if n < 16 then bit x (n + 8)
      else if n < 24 then bit x (n - 8) else n < 32 \<and> bit x (n - 24))"
proof -
  define y where "y = drop_bit 16 x OR push_bit 16 x"
  have y: "bit y k \<longleftrightarrow> (if k < 16 then bit x (k + 16) else k < 32 \<and> bit x (k - 16))" for k
    by (auto simp: y_def bit_simps add.commute dest: bit_imp_le_length)
  have "bit (CRYPTO_bswap4 x) n \<longleftrightarrow>
      bit y (n + 8) \<and> bit (0xff00ff00 :: u32) (n + 8) \<or>
      8 \<le> n \<and> n < 32 \<and> bit y (n - 8) \<and> bit (0x00ff00ff :: u32) (n - 8)"
    unfolding CRYPTO_bswap4_def y_def [symmetric] Let_def by (rule bit_swap_masked)
  also have "\<dots> \<longleftrightarrow> n < 8 \<and> bit x (n + 24) \<or> 8 \<le> n \<and> n < 16 \<and> bit x (n + 8)
      \<or> 16 \<le> n \<and> n < 24 \<and> bit x (n - 8) \<or> 24 \<le> n \<and> n < 32 \<and> bit x (n - 24)"
    unfolding bit_mask_ff00ff00 bit_mask_00ff00ff y
    by (auto simp: add.commute dest: bit_imp_le_length)
  finally show ?thesis by auto
qed

lemma bit_CRYPTO_bswap8:
  "bit (CRYPTO_bswap8 x) n \<longleftrightarrow>
     (if n < 32 then bit (CRYPTO_bswap4 (ucast (drop_bit 32 x))) n
      else n < 64 \<and> bit (CRYPTO_bswap4 (ucast x)) (n - 32))"
  by (auto simp: CRYPTO_bswap8_def bit_simps dest: bit_imp_le_length)

lemma CRYPTO_bswap2_be:
  "CRYPTO_bswap2 (ucast (be_word [a, b])) = ucast (be_word [b, a])"
  by (rule bit_word_eqI)
    (auto simp: CRYPTO_bswap2_def bit_be_word_2 bit_simps dest: bit_imp_le_length)

lemma bit_be_word_4_bytes:
  "bit (be_word [a, b, c, d]) n \<longleftrightarrow>
     (if n < 8 then bit d n else if n < 16 then bit c (n - 8)
      else if n < 24 then bit b (n - 16) else bit a (n - 24))"
  by (auto simp: bit_be_word_4 bit_be_word_2 dest: bit_imp_le_length)

lemma CRYPTO_bswap4_be:
  "CRYPTO_bswap4 (ucast (be_word [a, b, c, d])) = ucast (be_word [d, c, b, a])"
  by (rule bit_word_eqI)
    (auto simp: bit_CRYPTO_bswap4 bit_be_word_4_bytes bit_simps dest: bit_imp_le_length)

lemma CRYPTO_bswap8_be:
  "CRYPTO_bswap8 (be_word [a, b, c, d, e, f, g, h]) = be_word [h, g, f, e, d, c, b, a]"
proof -
  have hi: "ucast (drop_bit 32 (be_word [a, b, c, d, e, f, g, h]))
      = (ucast (be_word [a, b, c, d]) :: u32)"
    by (rule bit_word_eqI) (auto simp: bit_simps bit_be_word_8)
  have lo: "ucast (be_word [a, b, c, d, e, f, g, h]) = (ucast (be_word [e, f, g, h]) :: u32)"
    by (rule bit_word_eqI) (auto simp: bit_simps bit_be_word_8)
  show ?thesis
    by (rule bit_word_eqI)
      (auto simp: bit_CRYPTO_bswap8 hi lo CRYPTO_bswap4_be bit_be_word_8 bit_simps
        dest: bit_imp_le_length)
qed

section \<open>The integer getters are canonical decoders\<close>

lemma get_word_iff:
  assumes "n \<le> 8" "256 ^ n \<le> (2 ^ LENGTH('a) :: nat)"
  shows "(case cbs_get_u s n of (None, c) \<Rightarrow> (None, c)
      | (Some v, c) \<Rightarrow> (Some (ucast v :: 'a::len word), c)) = (Some w, r) \<longleftrightarrow>
    unat w < 256 ^ n \<and> s = be_bytes n (unat w) @ r" (is "?lhs \<longleftrightarrow> ?rhs")
proof
  assume ?lhs
  then obtain v where v: "cbs_get_u s n = (Some v, r)" "w = ucast v"
    by (auto split: prod.splits option.splits)
  then have bound: "unat v < 256 ^ n" and s: "s = be_bytes n (unat v) @ r"
    using assms by (simp_all add: cbs_get_u_Some_iff)
  from bound assms(2) have "unat v < 2 ^ LENGTH('a)" by linarith
  then have "unat w = unat v"
    using v(2) by (simp add: unsigned_ucast_eq take_bit_nat_eq_self)
  with bound s show ?rhs by simp
next
  assume rhs: ?rhs
  then have "cbs_get_u s n = (Some (word_of_nat (unat w)), r)"
    using assms(1) by simp
  moreover have "ucast (word_of_nat (unat w) :: u64) = w"
  proof (rule word_unat_eq_iff [THEN iffD2])
    have "256 ^ n \<le> (256 ^ 8 :: nat)" using assms(1) by (intro power_increasing) simp_all
    with rhs have "unat w < 2 ^ 64" by simp
    then have "take_bit 64 (unat w) = unat w"
      by (rule take_bit_nat_eq_self)
    then show "unat (ucast (word_of_nat (unat w) :: u64) :: 'a word) = unat w"
      by (simp add: unsigned_ucast_eq unsigned_take_bit_eq)
  qed
  ultimately show ?lhs by simp
qed

lemma CBS_get_u8_Some_iff: "CBS_get_u8 s = (Some b, r) \<longleftrightarrow> s = b # r"
  by (cases s) auto

lemma CBS_get_u16_Some_iff: "CBS_get_u16 s = (Some w, r) \<longleftrightarrow> s = be_bytes 2 (unat w) @ r"
  unfolding CBS_get_u16_def
  using get_word_iff [of 2 s w r] unsigned_less [of w, where 'a = nat] by simp

lemma CBS_get_u24_Some_iff:
  "CBS_get_u24 s = (Some w, r) \<longleftrightarrow> unat w < 256 ^ 3 \<and> s = be_bytes 3 (unat w) @ r"
  unfolding CBS_get_u24_def using get_word_iff [of 3 s w r] by simp

lemma CBS_get_u32_Some_iff: "CBS_get_u32 s = (Some w, r) \<longleftrightarrow> s = be_bytes 4 (unat w) @ r"
  unfolding CBS_get_u32_def
  using get_word_iff [of 4 s w r] unsigned_less [of w, where 'a = nat] by simp

lemma CBS_get_u64_Some_iff: "CBS_get_u64 s = (Some w, r) \<longleftrightarrow> s = be_bytes 8 (unat w) @ r"
  unfolding CBS_get_u64_def
  using cbs_get_u_Some_iff [of 8 s w r] unsigned_less [of w, where 'a = nat] by simp

interpretation u8_codec: canonical_codec "\<lambda>b. [b]" CBS_get_u8 "\<lambda>_. True"
  by unfold_locales (simp_all add: CBS_get_u8_Some_iff)

interpretation u16_codec: canonical_codec "\<lambda>w. be_bytes 2 (unat w)" CBS_get_u16 "\<lambda>_. True"
  by unfold_locales (simp_all add: CBS_get_u16_Some_iff)

interpretation u24_codec:
  canonical_codec "\<lambda>w. be_bytes 3 (unat w)" CBS_get_u24 "\<lambda>w. unat w < 256 ^ 3"
  by unfold_locales (simp_all add: CBS_get_u24_Some_iff)

interpretation u32_codec: canonical_codec "\<lambda>w. be_bytes 4 (unat w)" CBS_get_u32 "\<lambda>_. True"
  by unfold_locales (simp_all add: CBS_get_u32_Some_iff)

interpretation u64_codec: canonical_codec "\<lambda>w. be_bytes 8 (unat w)" CBS_get_u64 "\<lambda>_. True"
  by unfold_locales (simp_all add: CBS_get_u64_Some_iff)

subsection \<open>Little endian\<close>

lemma be_bytes_unat_ucast_be_word:
  assumes "length bs = n" "n \<le> 8" "256 ^ n \<le> (2 ^ LENGTH('a) :: nat)"
  shows "be_bytes n (unat (ucast (be_word bs) :: 'a::len word)) = bs"
  using assms by (auto simp: unat_ucast_be_word)

lemma bytes_of_word:
  assumes "n \<le> 8" "256 ^ n \<le> (2 ^ LENGTH('a) :: nat)" "unat (w :: 'a::len word) < 256 ^ n"
  obtains bs where "length bs = n" "w = ucast (be_word bs)" "be_bytes n (unat w) = bs"
proof
  show "w = ucast (be_word (be_bytes n (unat w)))"
    using assms by (intro word_unat_eq_iff [THEN iffD2]) (simp add: unat_ucast_be_word)
qed (use assms in simp_all)

lemma CRYPTO_bswap2_bytes: "be_bytes 2 (unat (CRYPTO_bswap2 w)) = rev (be_bytes 2 (unat w))"
proof -
  have "unat w < 256 ^ 2" using unsigned_less [of w, where 'a = nat] by simp
  then obtain bs where bs: "length bs = 2" "w = ucast (be_word bs)" "be_bytes 2 (unat w) = bs"
    using bytes_of_word [of 2 w] by auto
  from bs(1) obtain a b where list: "bs = [a, b]"
    by (auto simp: length_Suc_conv eval_nat_numeral)
  have w: "w = ucast (be_word [a, b])" using bs(2) by (simp add: list)
  have "be_bytes 2 (unat (CRYPTO_bswap2 w)) = [b, a]"
    unfolding w CRYPTO_bswap2_be
    by (rule be_bytes_unat_ucast_be_word) simp_all
  with bs(3) list show ?thesis by simp
qed

lemma CRYPTO_bswap4_bytes: "be_bytes 4 (unat (CRYPTO_bswap4 w)) = rev (be_bytes 4 (unat w))"
proof -
  have "unat w < 256 ^ 4" using unsigned_less [of w, where 'a = nat] by simp
  then obtain bs where bs: "length bs = 4" "w = ucast (be_word bs)" "be_bytes 4 (unat w) = bs"
    using bytes_of_word [of 4 w] by auto
  from bs(1) obtain a b c d where list: "bs = [a, b, c, d]"
    by (auto simp: length_Suc_conv eval_nat_numeral)
  have w: "w = ucast (be_word [a, b, c, d])" using bs(2) by (simp add: list)
  have "be_bytes 4 (unat (CRYPTO_bswap4 w)) = [d, c, b, a]"
    unfolding w CRYPTO_bswap4_be
    by (rule be_bytes_unat_ucast_be_word) simp_all
  with bs(3) list show ?thesis by simp
qed

lemma CRYPTO_bswap8_bytes: "be_bytes 8 (unat (CRYPTO_bswap8 w)) = rev (be_bytes 8 (unat w))"
proof -
  have "unat w < 256 ^ 8" using unsigned_less [of w, where 'a = nat] by simp
  then obtain bs where bs: "length bs = 8" "w = ucast (be_word bs)" "be_bytes 8 (unat w) = bs"
    using bytes_of_word [of 8 w] by auto
  from bs(1) obtain a b c d e f g h where list: "bs = [a, b, c, d, e, f, g, h]"
    by (auto simp: length_Suc_conv eval_nat_numeral)
  have w: "w = be_word [a, b, c, d, e, f, g, h]" using bs(2) by (simp add: list)
  have "be_bytes 8 (unat (CRYPTO_bswap8 w)) = [h, g, f, e, d, c, b, a]"
    unfolding w CRYPTO_bswap8_be
    by (rule be_bytes_unat_ucast_be_word [where 'a = 64, unfolded ucast_id]) simp_all
  with bs(3) list show ?thesis by simp
qed

lemma CRYPTO_bswap2_invol: "CRYPTO_bswap2 (CRYPTO_bswap2 w) = w"
proof (rule word_unat_eq_iff [THEN iffD2])
  have "be_bytes 2 (unat (CRYPTO_bswap2 (CRYPTO_bswap2 w))) = be_bytes 2 (unat w)"
    by (simp only: CRYPTO_bswap2_bytes rev_rev_ident)
  then show "unat (CRYPTO_bswap2 (CRYPTO_bswap2 w)) = unat w"
    using unsigned_less [of w, where 'a = nat]
      unsigned_less [of "CRYPTO_bswap2 (CRYPTO_bswap2 w)", where 'a = nat]
    by (intro be_bytes_inject [of 2]) simp_all
qed

lemma CBS_get_u16le_Some_iff:
  "CBS_get_u16le s = (Some w, r) \<longleftrightarrow> s = rev (be_bytes 2 (unat w)) @ r"
proof -
  have "CBS_get_u16le s = (Some w, r) \<longleftrightarrow> CBS_get_u16 s = (Some (CRYPTO_bswap2 w), r)"
    by (auto simp: CBS_get_u16le_def CRYPTO_bswap2_invol split: prod.splits option.splits)
      (metis CRYPTO_bswap2_invol)?
  then show ?thesis by (simp only: CBS_get_u16_Some_iff CRYPTO_bswap2_bytes)
qed

lemma CRYPTO_bswap4_invol: "CRYPTO_bswap4 (CRYPTO_bswap4 w) = w"
proof (rule word_unat_eq_iff [THEN iffD2])
  have "be_bytes 4 (unat (CRYPTO_bswap4 (CRYPTO_bswap4 w))) = be_bytes 4 (unat w)"
    by (simp only: CRYPTO_bswap4_bytes rev_rev_ident)
  then show "unat (CRYPTO_bswap4 (CRYPTO_bswap4 w)) = unat w"
    using unsigned_less [of w, where 'a = nat]
      unsigned_less [of "CRYPTO_bswap4 (CRYPTO_bswap4 w)", where 'a = nat]
    by (intro be_bytes_inject [of 4]) simp_all
qed

lemma CBS_get_u32le_Some_iff:
  "CBS_get_u32le s = (Some w, r) \<longleftrightarrow> s = rev (be_bytes 4 (unat w)) @ r"
proof -
  have "CBS_get_u32le s = (Some w, r) \<longleftrightarrow> CBS_get_u32 s = (Some (CRYPTO_bswap4 w), r)"
    by (auto simp: CBS_get_u32le_def CRYPTO_bswap4_invol split: prod.splits option.splits)
      (metis CRYPTO_bswap4_invol)?
  then show ?thesis by (simp only: CBS_get_u32_Some_iff CRYPTO_bswap4_bytes)
qed

lemma CRYPTO_bswap8_invol: "CRYPTO_bswap8 (CRYPTO_bswap8 w) = w"
proof (rule word_unat_eq_iff [THEN iffD2])
  have "be_bytes 8 (unat (CRYPTO_bswap8 (CRYPTO_bswap8 w))) = be_bytes 8 (unat w)"
    by (simp only: CRYPTO_bswap8_bytes rev_rev_ident)
  then show "unat (CRYPTO_bswap8 (CRYPTO_bswap8 w)) = unat w"
    using unsigned_less [of w, where 'a = nat]
      unsigned_less [of "CRYPTO_bswap8 (CRYPTO_bswap8 w)", where 'a = nat]
    by (intro be_bytes_inject [of 8]) simp_all
qed

lemma CBS_get_u64le_Some_iff:
  "CBS_get_u64le s = (Some w, r) \<longleftrightarrow> s = rev (be_bytes 8 (unat w)) @ r"
proof -
  have "CBS_get_u64le s = (Some w, r) \<longleftrightarrow> CBS_get_u64 s = (Some (CRYPTO_bswap8 w), r)"
    by (auto simp: CBS_get_u64le_def CBS_get_u64_def CRYPTO_bswap8_invol split: prod.splits option.splits)
      (metis CRYPTO_bswap8_invol)?
  then show ?thesis by (simp only: CBS_get_u64_Some_iff CRYPTO_bswap8_bytes)
qed

interpretation u16le_codec:
  canonical_codec "\<lambda>w. rev (be_bytes 2 (unat w))" CBS_get_u16le "\<lambda>_. True"
  by unfold_locales (simp_all add: CBS_get_u16le_Some_iff)

interpretation u32le_codec:
  canonical_codec "\<lambda>w. rev (be_bytes 4 (unat w))" CBS_get_u32le "\<lambda>_. True"
  by unfold_locales (simp_all add: CBS_get_u32le_Some_iff)

interpretation u64le_codec:
  canonical_codec "\<lambda>w. rev (be_bytes 8 (unat w))" CBS_get_u64le "\<lambda>_. True"
  by unfold_locales (simp_all add: CBS_get_u64le_Some_iff)

section \<open>Length-prefixed strings\<close>

definition length_prefixed :: "nat \<Rightarrow> byte list \<Rightarrow> byte list" where
  "length_prefixed len_len body = be_bytes len_len (length body) @ body"

lemma cbs_get_length_prefixed_Some_iff:
  assumes "n \<le> 7"
  shows "cbs_get_length_prefixed s n = (Some body, r) \<longleftrightarrow>
    length body < 256 ^ n \<and> s = length_prefixed n body @ r"
proof
  assume "cbs_get_length_prefixed s n = (Some body, r)"
  then obtain w c where get: "cbs_get_u s n = (Some w, c)"
    and bytes: "CBS_get_bytes c (unat w) = (Some body, r)"
    by (auto simp: cbs_get_length_prefixed_def split: prod.splits option.splits)
  from get assms have "unat w < 256 ^ n" "s = be_bytes n (unat w) @ c"
    by (simp_all add: cbs_get_u_Some_iff)
  moreover from bytes have "length body = unat w" "c = body @ r"
    by (simp_all add: CBS_get_bytes_Some_iff)
  ultimately show "length body < 256 ^ n \<and> s = length_prefixed n body @ r"
    by (simp add: length_prefixed_def)
next
  assume rhs: "length body < 256 ^ n \<and> s = length_prefixed n body @ r"
  have "256 ^ n \<le> (256 ^ 7 :: nat)" using assms by (intro power_increasing) simp_all
  with rhs have "length body < 2 ^ 64" by simp
  then have "unat (word_of_nat (length body) :: u64) = length body"
    by (simp add: unsigned_of_nat take_bit_nat_eq_self)
  with rhs assms show "cbs_get_length_prefixed s n = (Some body, r)"
    by (simp add: cbs_get_length_prefixed_def length_prefixed_def)
qed

interpretation u8_prefixed: canonical_codec
  "length_prefixed 1" CBS_get_u8_length_prefixed "\<lambda>b. length b < 256 ^ 1"
  by unfold_locales
    (simp_all add: CBS_get_u8_length_prefixed_def cbs_get_length_prefixed_Some_iff)

interpretation u16_prefixed: canonical_codec
  "length_prefixed 2" CBS_get_u16_length_prefixed "\<lambda>b. length b < 256 ^ 2"
  by unfold_locales
    (simp_all add: CBS_get_u16_length_prefixed_def cbs_get_length_prefixed_Some_iff)

interpretation u24_prefixed: canonical_codec
  "length_prefixed 3" CBS_get_u24_length_prefixed "\<lambda>b. length b < 256 ^ 3"
  by unfold_locales
    (simp_all add: CBS_get_u24_length_prefixed_def cbs_get_length_prefixed_Some_iff)

text \<open>A failing length-prefixed read may have consumed the length: only the getters that read
  from a copy of the \<open>CBS\<close> leave it alone.\<close>

lemma CBS_get_u8_length_prefixed_short:
  "length body < unat len \<Longrightarrow> CBS_get_u8_length_prefixed (len # body) = (None, body)"
  using cbs_get_u_be_bytes [of 1 "unat len" body]
  by (simp add: CBS_get_u8_length_prefixed_def cbs_get_length_prefixed_def CBS_get_bytes_eq)

section \<open>No reader looks outside its input\<close>

text \<open>What every client of a reader relies on: the \<open>CBS\<close> that is left is the rest of the input
  behind what was consumed, whether the call succeeded or not.\<close>

locale cbs_reader =
  fixes get :: "'a reader"
  assumes rest_suffix: "\<exists>p. s = p @ snd (get s)"
begin

lemma rest_length: "get s = (res, r) \<Longrightarrow> length r \<le> length s"
  using rest_suffix [of s] by auto

lemma rest_drop: "get s = (res, r) \<Longrightarrow> r = drop (length s - length r) s"
  using rest_suffix [of s] by (metis append_eq_conv_conj length_append add_diff_cancel_right' snd_conv)

lemma rest_set: "get s = (res, r) \<Longrightarrow> set r \<subseteq> set s"
  using rest_suffix [of s] by (metis Un_upper2 set_append snd_conv)

end

lemma cbs_get_suffix: "\<exists>p. s = p @ snd (cbs_get s n)"
  by (auto simp: cbs_get_def) (metis append_take_drop_id)

lemma cbs_get_u_suffix: "\<exists>p. s = p @ snd (cbs_get_u s n)"
  using cbs_get_suffix [of s n] by (auto simp: cbs_get_u_def split: prod.splits option.splits)

lemma CBS_get_bytes_suffix: "\<exists>p. s = p @ snd (CBS_get_bytes s n)"
  using cbs_get_suffix [of s n] by (auto simp: CBS_get_bytes_def split: prod.splits option.splits)

lemma cbs_get_length_prefixed_suffix: "\<exists>p. s = p @ snd (cbs_get_length_prefixed s n)"
proof -
  obtain p where p: "s = p @ snd (cbs_get_u s n)"
    using cbs_get_u_suffix by blast
  obtain q where q: "snd (cbs_get_u s n)
      = q @ snd (CBS_get_bytes (snd (cbs_get_u s n)) (unat (the (fst (cbs_get_u s n)))))"
    using CBS_get_bytes_suffix by blast
  show ?thesis
  proof (cases "fst (cbs_get_u s n)")
    case None
    with p show ?thesis
      by (auto simp: cbs_get_length_prefixed_def split: prod.splits)
  next
    case (Some w)
    then have "cbs_get_length_prefixed s n = CBS_get_bytes (snd (cbs_get_u s n)) (unat w)"
      by (auto simp: cbs_get_length_prefixed_def split: prod.splits)
    with p q Some show ?thesis by (metis append.assoc option.sel)
  qed
qed

lemma CBS_get_u8_suffix: "\<exists>p. s = p @ snd (CBS_get_u8 s)"
  by (cases s) auto

interpretation u8_reader: cbs_reader CBS_get_u8
  by unfold_locales (rule CBS_get_u8_suffix)

interpretation prefixed_reader: cbs_reader "\<lambda>s. cbs_get_length_prefixed s n" for n
  by unfold_locales (rule cbs_get_length_prefixed_suffix)

section \<open>Copies and comparison\<close>

lemma CBS_mem_equal_iff:
  assumes "len \<le> length data"
  shows "CBS_mem_equal cbs data len \<longleftrightarrow> cbs = take len data"
  using assms by (auto simp: CBS_mem_equal_def CBS_len_def CRYPTO_memcmp_eq_0_iff)

text \<open>\<open>CBS_strdup\<close> copies up to the first zero byte, so it is faithful exactly for strings
  without one.\<close>

lemma CBS_strdup_Some:
  assumes "CBS_strdup al cbs = Some p"
  shows "p = takeWhile (\<lambda>b. b \<noteq> 0) cbs @ [0]"
    and "p = cbs @ [0] \<longleftrightarrow> \<not> CBS_contains_zero_byte cbs"
proof -
  show p: "p = takeWhile (\<lambda>b. b \<noteq> 0) cbs @ [0]"
    using assms OPENSSL_strnlen_takeWhile [of cbs "length cbs"]
    by (auto simp: CBS_strdup_def OPENSSL_strndup_def CBS_data_def CBS_len_def Let_def
        split: if_splits option.splits)
  show "p = cbs @ [0] \<longleftrightarrow> \<not> CBS_contains_zero_byte cbs"
    unfolding p by (auto simp: CBS_contains_zero_byte_def)
qed

lemma CBS_get_until_first_Some_iff:
  "CBS_get_until_first s c = (Some p, r) \<longleftrightarrow> c \<notin> set p \<and> (\<exists>r'. r = c # r') \<and> s = p @ r"
proof
  assume "CBS_get_until_first s c = (Some p, r)"
  then have c: "c \<in> set s" and get: "CBS_get_bytes s (length (takeWhile (\<lambda>b. b \<noteq> c) s)) = (Some p, r)"
    by (auto simp: CBS_get_until_first_def CBS_data_def split: if_splits)
  then have s: "s = p @ r" "length p = length (takeWhile (\<lambda>b. b \<noteq> c) s)"
    by (simp_all add: CBS_get_bytes_Some_iff)
  then have p: "p = takeWhile (\<lambda>b. b \<noteq> c) s" and r: "r = dropWhile (\<lambda>b. b \<noteq> c) s"
    by (metis append_eq_append_conv takeWhile_dropWhile_id)+
  have nonempty: "dropWhile (\<lambda>b. b \<noteq> c) s \<noteq> []" using c by simp
  then have "hd r = c" using r hd_dropWhile [of "\<lambda>b. b \<noteq> c" s] by blast
  then have "\<exists>r'. r = c # r'" using nonempty r by (metis list.exhaust_sel)
  moreover have "c \<notin> set p" unfolding p by (auto dest: set_takeWhileD)
  ultimately show "c \<notin> set p \<and> (\<exists>r'. r = c # r') \<and> s = p @ r"
    using s by blast
next
  assume rhs: "c \<notin> set p \<and> (\<exists>r'. r = c # r') \<and> s = p @ r"
  have "takeWhile (\<lambda>b. b \<noteq> c) (p @ r) = p @ takeWhile (\<lambda>b. b \<noteq> c) r"
    by (rule takeWhile_append2) (use rhs in auto)
  with rhs have "takeWhile (\<lambda>b. b \<noteq> c) s = p" by auto
  with rhs show "CBS_get_until_first s c = (Some p, r)"
    by (auto simp: CBS_get_until_first_def CBS_data_def)
qed

section \<open>Properties\<close>

text \<open>The big-endian readers accept exactly the big-endian encodings of their type: a read
  succeeds with value \<open>w\<close> and rest \<open>r\<close> if and only if the input is the fixed-width encoding of \<open>w\<close>
  followed by \<open>r\<close>.\<close>

theorem cbs_fixed_width_exact:
  "(CBS_get_u8 s = (Some a, r) \<longleftrightarrow> s = be_bytes 1 (unat a) @ r)
   \<and> (CBS_get_u16 s = (Some b, r) \<longleftrightarrow> s = be_bytes 2 (unat b) @ r)
   \<and> (CBS_get_u24 s = (Some c, r) \<longleftrightarrow> unat c < 256 ^ 3 \<and> s = be_bytes 3 (unat c) @ r)
   \<and> (CBS_get_u32 s = (Some c, r) \<longleftrightarrow> s = be_bytes 4 (unat c) @ r)
   \<and> (CBS_get_u64 s = (Some e, r) \<longleftrightarrow> s = be_bytes 8 (unat e) @ r)"
proof -
  have "be_bytes 1 (unat a) = [a]" by simp
  then show ?thesis
    by (simp only: CBS_get_u8_Some_iff CBS_get_u16_Some_iff CBS_get_u24_Some_iff
        CBS_get_u32_Some_iff CBS_get_u64_Some_iff append_Cons append_Nil)
qed

text \<open>The little-endian readers, which read big-endian and swap with \<open>CRYPTO_bswap\<close>, accept
  exactly the reversed encodings.\<close>

theorem cbs_little_endian_exact:
  "(CBS_get_u16le s = (Some b, r) \<longleftrightarrow> s = rev (be_bytes 2 (unat b)) @ r)
   \<and> (CBS_get_u32le s = (Some c, r) \<longleftrightarrow> s = rev (be_bytes 4 (unat c)) @ r)
   \<and> (CBS_get_u64le s = (Some e, r) \<longleftrightarrow> s = rev (be_bytes 8 (unat e)) @ r)"
  by (simp only: CBS_get_u16le_Some_iff CBS_get_u32le_Some_iff CBS_get_u64le_Some_iff)

text \<open>The length-prefixed readers accept exactly a body behind its length, and no body that is
  too long for the prefix.\<close>

theorem cbs_length_prefixed_exact:
  "(CBS_get_u8_length_prefixed s = (Some x, r) \<longleftrightarrow>
      length x < 256 \<and> s = be_bytes 1 (length x) @ x @ r)
   \<and> (CBS_get_u16_length_prefixed s = (Some x, r) \<longleftrightarrow>
      length x < 65536 \<and> s = be_bytes 2 (length x) @ x @ r)
   \<and> (CBS_get_u24_length_prefixed s = (Some x, r) \<longleftrightarrow>
      length x < 16777216 \<and> s = be_bytes 3 (length x) @ x @ r)"
  using u8_prefixed.accepts_iff [of s x r] u16_prefixed.accepts_iff [of s x r]
    u24_prefixed.accepts_iff [of s x r]
  by (simp add: length_prefixed_def)

end
