(* ===== verification/Cbs_Asn1.thy ===== *)
theory Cbs_Asn1
  imports Cbs
begin

text \<open>
  The ASN.1 half of \<^verbatim>\<open>crypto/bytestring/cbs.c\<close>: base-128 integers, identifier octets, element
  headers, and the typed getters built on them.  The first half of the theory is the code; the
  second half gives the encodings as functions of the value (\<open>base128\<close>, \<open>der_tag\<close>, \<open>der_len\<close>,
  \<open>der_element\<close>, \<open>asn1_int\<close>) and shows that the getters accept exactly these.
\<close>

section \<open>Constants of \<open>bytestring.h\<close>\<close>

abbreviation CBS_ASN1_CONSTRUCTED :: u32 where "CBS_ASN1_CONSTRUCTED \<equiv> 0x20000000"
abbreviation CBS_ASN1_TAG_NUMBER_MASK :: u32 where "CBS_ASN1_TAG_NUMBER_MASK \<equiv> 0x1fffffff"
abbreviation CBS_ASN1_BOOLEAN :: u32 where "CBS_ASN1_BOOLEAN \<equiv> 0x1"
abbreviation CBS_ASN1_INTEGER :: u32 where "CBS_ASN1_INTEGER \<equiv> 0x2"
abbreviation CBS_ASN1_OCTETSTRING :: u32 where "CBS_ASN1_OCTETSTRING \<equiv> 0x4"
abbreviation CBS_ASN1_OBJECT :: u32 where "CBS_ASN1_OBJECT \<equiv> 0x6"
abbreviation CBS_ASN1_SEQUENCE :: u32 where "CBS_ASN1_SEQUENCE \<equiv> 0x20000010"

section \<open>The parser\<close>

fun parse_base128_loop :: "u64 \<Rightarrow> CBS \<Rightarrow> u64 option \<times> CBS" where
  "parse_base128_loop v [] = (None, [])"
| "parse_base128_loop v (b # cbs) =
     (if drop_bit (64 - 7) v \<noteq> 0 then (None, cbs)
      else if v = 0 \<and> b = 0x80 then (None, cbs)
      else let v = push_bit 7 v OR (ucast b AND 0x7f) in
        if b AND 0x80 \<noteq> 0 then parse_base128_loop v cbs else (Some v, cbs))"

definition parse_base128_integer :: "CBS \<Rightarrow> u64 option \<times> CBS" where
  "parse_base128_integer cbs = parse_base128_loop 0 cbs"

definition parse_asn1_tag :: "CBS \<Rightarrow> u32 option \<times> CBS" where
  "parse_asn1_tag cbs =
     (case CBS_get_u8 cbs of
        (None, cbs) \<Rightarrow> (None, cbs)
      | (Some tag_byte, cbs) \<Rightarrow>
          (let tag = push_bit 24 (ucast tag_byte AND 0xe0);
               tag_number = ucast (tag_byte AND 0x1f) in
           if tag_number = 0x1f
           then (case parse_base128_integer cbs of
                   (None, cbs) \<Rightarrow> (None, cbs)
                 | (Some v, cbs) \<Rightarrow>
                     if v > ucast CBS_ASN1_TAG_NUMBER_MASK \<or> v < 0x1f then (None, cbs)
                     else (Some (tag OR ucast v), cbs))
           else (Some (tag OR tag_number), cbs)))"

text \<open>
  \<open>cbs_get_any_asn1_element\<close> works on a copy of the \<open>CBS\<close>, so a failure leaves the argument where
  it was.  The result is the element with its header, the tag, the header's length and, in the BER
  mode, whether something was found that DER forbids.
\<close>

definition cbs_get_any_asn1_element ::
  "CBS \<Rightarrow> bool \<Rightarrow> (CBS \<times> u32 \<times> nat \<times> bool) option \<times> CBS" where
  "cbs_get_any_asn1_element cbs ber_ok =
     (case parse_asn1_tag cbs of
        (None, _) \<Rightarrow> (None, cbs)
      | (Some tag, header) \<Rightarrow>
     (case CBS_get_u8 header of
        (None, _) \<Rightarrow> (None, cbs)
      | (Some length_byte, header) \<Rightarrow>
     (let header_len = CBS_len cbs - CBS_len header in
      if length_byte AND 0x80 = 0
      then (case CBS_get_bytes cbs (unat length_byte + header_len) of
              (None, _) \<Rightarrow> (None, cbs)
            | (Some out, cbs) \<Rightarrow> (Some (out, tag, header_len, False), cbs))
      else
     (let num_bytes = unat (length_byte AND 0x7f) in
      if ber_ok \<and> tag AND CBS_ASN1_CONSTRUCTED \<noteq> 0 \<and> num_bytes = 0
      then (case CBS_get_bytes cbs header_len of
              (None, _) \<Rightarrow> (None, cbs)
            | (Some out, cbs) \<Rightarrow> (Some (out, tag, header_len, True), cbs))
      else if num_bytes = 0 \<or> num_bytes > 4 then (None, cbs)
      else
     (case cbs_get_u header num_bytes of
        (None, _) \<Rightarrow> (None, cbs)
      | (Some len64, header) \<Rightarrow>
     (let nonminimal = (len64 < 128 \<or> drop_bit ((num_bytes - 1) * 8) len64 = 0);
          len = unat len64 in
      if nonminimal \<and> \<not> ber_ok then (None, cbs)
      else if (len + header_len + num_bytes) mod size_mod < len then (None, cbs)
      else (case CBS_get_bytes cbs ((len + header_len + num_bytes) mod size_mod) of
              (None, _) \<Rightarrow> (None, cbs)
            | (Some out, cbs) \<Rightarrow>
                (Some (out, tag, header_len + num_bytes, nonminimal), cbs))))))))"

definition CBS_get_any_asn1_element :: "CBS \<Rightarrow> (CBS \<times> u32 \<times> nat) option \<times> CBS" where
  "CBS_get_any_asn1_element cbs =
     (case cbs_get_any_asn1_element cbs False of
        (None, cbs) \<Rightarrow> (None, cbs)
      | (Some (out, tag, header_len, _), cbs) \<Rightarrow> (Some (out, tag, header_len), cbs))"

definition CBS_get_any_ber_asn1_element ::
  "CBS \<Rightarrow> (CBS \<times> u32 \<times> nat \<times> bool) option \<times> CBS" where
  "CBS_get_any_ber_asn1_element cbs = cbs_get_any_asn1_element cbs True"

definition CBS_get_any_asn1 :: "CBS \<Rightarrow> (CBS \<times> u32) option \<times> CBS" where
  "CBS_get_any_asn1 cbs =
     (case CBS_get_any_asn1_element cbs of
        (None, cbs) \<Rightarrow> (None, cbs)
      | (Some (out, tag, header_len), cbs) \<Rightarrow>
          (case CBS_skip out header_len of
             (None, _) \<Rightarrow> (None, cbs)
           | (Some _, out) \<Rightarrow> (Some (out, tag), cbs)))"

definition cbs_get_asn1 :: "CBS \<Rightarrow> u32 \<Rightarrow> bool \<Rightarrow> CBS option \<times> CBS" where
  "cbs_get_asn1 cbs tag_value skip_header =
     (case CBS_get_any_asn1_element cbs of
        (None, cbs) \<Rightarrow> (None, cbs)
      | (Some (out, tag, header_len), cbs) \<Rightarrow>
          if tag \<noteq> tag_value then (None, cbs)
          else if skip_header
          then (case CBS_skip out header_len of
                  (None, _) \<Rightarrow> (None, cbs)
                | (Some _, out) \<Rightarrow> (Some out, cbs))
          else (Some out, cbs))"

definition CBS_get_asn1 :: "CBS \<Rightarrow> u32 \<Rightarrow> CBS option \<times> CBS" where
  "CBS_get_asn1 cbs tag_value = cbs_get_asn1 cbs tag_value True"

definition CBS_get_asn1_element :: "CBS \<Rightarrow> u32 \<Rightarrow> CBS option \<times> CBS" where
  "CBS_get_asn1_element cbs tag_value = cbs_get_asn1 cbs tag_value False"

definition CBS_peek_asn1_tag :: "CBS \<Rightarrow> u32 \<Rightarrow> bool" where
  "CBS_peek_asn1_tag cbs tag_value =
     (if CBS_len cbs < 1 then False
      else case parse_asn1_tag cbs of
             (None, _) \<Rightarrow> False
           | (Some actual_tag, _) \<Rightarrow> tag_value = actual_tag)"

section \<open>Integers, booleans, bit strings\<close>

text \<open>The result of \<open>CBS_is_valid_asn1_integer\<close> with \<open>out_is_negative\<close>.\<close>

definition CBS_is_valid_asn1_integer :: "CBS \<Rightarrow> bool \<times> bool" where
  "CBS_is_valid_asn1_integer cbs =
     (case CBS_get_u8 cbs of
        (None, _) \<Rightarrow> (False, False)
      | (Some first_byte, copy) \<Rightarrow>
          (let is_negative = (first_byte AND 0x80 \<noteq> 0) in
           case CBS_get_u8 copy of
             (None, _) \<Rightarrow> (True, is_negative)
           | (Some second_byte, _) \<Rightarrow>
               if first_byte = 0x00 \<and> second_byte AND 0x80 = 0 \<or>
                  first_byte = 0xff \<and> second_byte AND 0x80 \<noteq> 0
               then (False, is_negative) else (True, is_negative)))"

definition CBS_is_unsigned_asn1_integer :: "CBS \<Rightarrow> bool" where
  "CBS_is_unsigned_asn1_integer cbs =
     (case CBS_is_valid_asn1_integer cbs of (ok, is_negative) \<Rightarrow> ok \<and> \<not> is_negative)"

fun asn1_uint64_loop :: "u64 \<Rightarrow> byte list \<Rightarrow> u64 option" where
  "asn1_uint64_loop out [] = Some out"
| "asn1_uint64_loop out (b # data) =
     (if drop_bit 56 out \<noteq> 0 then None
      else asn1_uint64_loop (push_bit 8 out OR ucast b) data)"

definition CBS_get_asn1_uint64 :: "CBS \<Rightarrow> u64 option \<times> CBS" where
  "CBS_get_asn1_uint64 cbs =
     (case CBS_get_asn1 cbs CBS_ASN1_INTEGER of
        (None, cbs) \<Rightarrow> (None, cbs)
      | (Some bytes, cbs) \<Rightarrow>
          if \<not> CBS_is_unsigned_asn1_integer bytes then (None, cbs)
          else (asn1_uint64_loop 0 bytes, cbs))"

text \<open>\<open>CBS_get_asn1_int64\<close> fills the bytes of an \<open>int64_t\<close> from the little end, over a background
  of sign bytes; the value is the word with these bytes, read as two's complement by \<open>sint\<close>.\<close>

definition CBS_get_asn1_int64 :: "CBS \<Rightarrow> u64 option \<times> CBS" where
  "CBS_get_asn1_int64 cbs =
     (case CBS_get_asn1 cbs CBS_ASN1_INTEGER of
        (None, cbs) \<Rightarrow> (None, cbs)
      | (Some bytes, cbs) \<Rightarrow>
          (case CBS_is_valid_asn1_integer bytes of
             (False, _) \<Rightarrow> (None, cbs)
           | (True, is_negative) \<Rightarrow>
               if CBS_len bytes > 8 then (None, cbs)
               else (let fill = (if is_negative then 0xff else 0);
                         u = rev bytes @ replicate (8 - CBS_len bytes) fill
                     in (Some (be_word (rev u)), cbs))))"

definition CBS_get_asn1_bool :: "CBS \<Rightarrow> bool option \<times> CBS" where
  "CBS_get_asn1_bool cbs =
     (case CBS_get_asn1 cbs CBS_ASN1_BOOLEAN of
        (None, cbs) \<Rightarrow> (None, cbs)
      | (Some bytes, cbs) \<Rightarrow>
          if CBS_len bytes \<noteq> 1 then (None, cbs)
          else (let value = bytes ! 0 in
                if value \<noteq> 0 \<and> value \<noteq> 0xff then (None, cbs) else (Some (value \<noteq> 0), cbs)))"

definition CBS_is_valid_asn1_bitstring :: "CBS \<Rightarrow> bool" where
  "CBS_is_valid_asn1_bitstring cbs =
     (case CBS_get_u8 cbs of
        (None, _) \<Rightarrow> False
      | (Some num_unused_bits, inp) \<Rightarrow>
          if num_unused_bits > 7 then False
          else if num_unused_bits = 0 then True
          else (case CBS_get_last_u8 inp of
                  (None, _) \<Rightarrow> False
                | (Some last_byte, _) \<Rightarrow>
                    last_byte AND (push_bit (unat num_unused_bits) 1 - 1) = 0))"

definition CBS_asn1_bitstring_has_bit :: "CBS \<Rightarrow> nat \<Rightarrow> bool" where
  "CBS_asn1_bitstring_has_bit cbs bit_index =
     (if \<not> CBS_is_valid_asn1_bitstring cbs then False
      else (let byte_num = bit_index div 8 + 1; bit_num = 7 - bit_index mod 8 in
            byte_num < CBS_len cbs \<and> cbs ! byte_num AND push_bit bit_num 1 \<noteq> 0))"

section \<open>Optional fields\<close>

text \<open>The results: whether the element was present, and what the out-parameter was set to (a getter
  that does not set it when the element is absent gives \<open>None\<close>).\<close>

definition CBS_get_optional_asn1 :: "CBS \<Rightarrow> u32 \<Rightarrow> CBS option option \<times> CBS" where
  "CBS_get_optional_asn1 cbs tag =
     (if CBS_peek_asn1_tag cbs tag
      then (case CBS_get_asn1 cbs tag of
              (None, cbs) \<Rightarrow> (None, cbs)
            | (Some out, cbs) \<Rightarrow> (Some (Some out), cbs))
      else (Some None, cbs))"

definition CBS_get_optional_asn1_octet_string :: "CBS \<Rightarrow> u32 \<Rightarrow> (CBS \<times> bool) option \<times> CBS" where
  "CBS_get_optional_asn1_octet_string cbs tag =
     (case CBS_get_optional_asn1 cbs tag of
        (None, cbs) \<Rightarrow> (None, cbs)
      | (Some None, cbs) \<Rightarrow> (Some ([], False), cbs)
      | (Some (Some child), cbs) \<Rightarrow>
          (case CBS_get_asn1 child CBS_ASN1_OCTETSTRING of
             (None, _) \<Rightarrow> (None, cbs)
           | (Some out, child) \<Rightarrow>
               if CBS_len child \<noteq> 0 then (None, cbs) else (Some (out, True), cbs)))"

definition CBS_get_optional_asn1_uint64 :: "CBS \<Rightarrow> u32 \<Rightarrow> u64 \<Rightarrow> u64 option \<times> CBS" where
  "CBS_get_optional_asn1_uint64 cbs tag default_value =
     (case CBS_get_optional_asn1 cbs tag of
        (None, cbs) \<Rightarrow> (None, cbs)
      | (Some None, cbs) \<Rightarrow> (Some default_value, cbs)
      | (Some (Some child), cbs) \<Rightarrow>
          (case CBS_get_asn1_uint64 child of
             (None, _) \<Rightarrow> (None, cbs)
           | (Some out, child) \<Rightarrow>
               if CBS_len child \<noteq> 0 then (None, cbs) else (Some out, cbs)))"

definition CBS_get_optional_asn1_bool :: "CBS \<Rightarrow> u32 \<Rightarrow> int \<Rightarrow> int option \<times> CBS" where
  "CBS_get_optional_asn1_bool cbs tag default_value =
     (case CBS_get_optional_asn1 cbs tag of
        (None, cbs) \<Rightarrow> (None, cbs)
      | (Some None, cbs) \<Rightarrow> (Some default_value, cbs)
      | (Some (Some child), cbs) \<Rightarrow>
          (case CBS_get_asn1 child CBS_ASN1_BOOLEAN of
             (None, _) \<Rightarrow> (None, cbs)
           | (Some child2, child) \<Rightarrow>
               if CBS_len child2 \<noteq> 1 \<or> CBS_len child \<noteq> 0 then (None, cbs)
               else (let boolean = child2 ! 0 in
                     if boolean = 0 then (Some 0, cbs)
                     else if boolean = 0xff then (Some 1, cbs)
                     else (None, cbs))))"

section \<open>Base-128 integers\<close>

text \<open>The octets of a base-128 number: every digit but the last has the top bit set, and there is
  no leading zero digit.\<close>

fun base128_hi :: "nat \<Rightarrow> byte list" where
  "base128_hi n = (if n = 0 then [] else base128_hi (n div 128) @ [word_of_nat (128 + n mod 128)])"

definition base128 :: "nat \<Rightarrow> byte list" where
  "base128 n = base128_hi (n div 128) @ [word_of_nat (n mod 128)]"

declare base128_hi.simps [simp del]

lemma base128_hi_0 [simp]: "base128_hi 0 = []"
  by (simp add: base128_hi.simps)

lemma base128_hi_step:
  "0 < n \<Longrightarrow> base128_hi n = base128_hi (n div 128) @ [word_of_nat (128 + n mod 128)]"
  by (subst base128_hi.simps) simp

lemma base128_nonempty [simp]: "base128 n \<noteq> []"
  by (simp add: base128_def)

lemma unat_and_7f: "unat ((ucast (b :: byte) :: u64) AND 0x7f) = unat b mod 128"
proof -
  have "(0x7f :: u64) = mask 7" by (simp add: mask_eq_exp_minus_1)
  then have "(ucast b :: u64) AND 0x7f = take_bit 7 (ucast b)"
    by (simp only: take_bit_eq_mask)
  then have "unat ((ucast b :: u64) AND 0x7f) = take_bit 7 (unat b)"
    by (simp only: unsigned_take_bit_eq unat_ucast_byte)
  then show ?thesis by (simp only: take_bit_eq_mod) simp
qed

lemma drop_bit_57: "drop_bit 57 (v :: u64) = 0 \<longleftrightarrow> unat v < 2 ^ 57"
proof -
  have "drop_bit 57 v = 0 \<longleftrightarrow> unat (drop_bit 57 v) = 0"
    by (simp only: unsigned_eq_0_iff)
  also have "unat (drop_bit 57 v) = drop_bit 57 (unat v)"
    by (rule unat_drop_bit_eq)
  also have "\<dots> = unat v div 2 ^ 57"
    by (rule drop_bit_eq_div)
  finally show ?thesis by (simp add: div_eq_0_iff)
qed

lemma base128_shift:
  assumes "drop_bit 57 (v :: u64) = 0"
  shows "unat (push_bit 7 v OR (ucast (b :: byte) AND 0x7f)) = 128 * unat v + unat b mod 128"
proof -
  have v: "unat v < 2 ^ 57" using assms by (simp add: drop_bit_57)
  then have fits: "unat v * 128 < 2 ^ 64" by simp
  have "unat (push_bit 7 v) = take_bit 64 (unat v * 128)"
    by (simp add: unsigned_push_bit_eq) (simp add: push_bit_eq_mult)
  also have "\<dots> = unat v * 128" using fits by (rule take_bit_nat_eq_self)
  finally have push: "unat (push_bit 7 v) = unat v * 128" .
  have "push_bit 7 v AND (ucast b AND 0x7f) = 0"
  proof -
    have "(0x7f :: u64) = mask 7" by (simp add: mask_eq_exp_minus_1)
    then show ?thesis
      by (auto simp: bit_eq_iff bit_simps)
  qed
  then show ?thesis by (simp add: unat_or_disjoint push unat_and_7f)
qed

text \<open>Reading the high digits from the start accumulates their value.\<close>

lemma parse_base128_loop_hi:
  "n < 2 ^ 57 \<Longrightarrow>
    parse_base128_loop 0 (base128_hi n @ s) = parse_base128_loop (word_of_nat n) s"
proof (induction n arbitrary: s rule: less_induct)
  case (less n)
  show ?case
  proof (cases "n = 0")
    case True
    then show ?thesis by simp
  next
    case False
    define v :: u64 where "v = word_of_nat (n div 128)"
    define b :: byte where "b = word_of_nat (128 + n mod 128)"
    have small: "n div 128 < 2 ^ 57" using less.prems by linarith
    then have uv: "unat v = n div 128"
      by (simp add: v_def unsigned_of_nat take_bit_nat_eq_self)
    then have top: "drop_bit 57 v = 0" using small by (simp add: drop_bit_57)
    have "n mod 128 < 128" by simp
    then have ub: "unat b = 128 + n mod 128" by (simp only: b_def unat_of_nat_byte) simp
    have "unat (push_bit 7 v OR (ucast b AND 0x7f)) = n"
      using base128_shift [OF top, of b] uv ub by simp
    then have shift: "push_bit 7 v OR (ucast b AND 0x7f) = word_of_nat n"
      by (metis of_nat_unat ucast_id)
    have more: "b AND 0x80 \<noteq> 0" using ub byte_top_bit [of b] by simp
    have minimal: "\<not> (v = 0 \<and> b = 0x80)"
    proof
      assume "v = 0 \<and> b = 0x80"
      with uv ub have "n div 128 = 0" "n mod 128 = 0" by simp_all
      with False show False by (metis div_mult_mod_eq add_0 mult_0)
    qed
    have "parse_base128_loop 0 (base128_hi n @ s) = parse_base128_loop 0 (base128_hi (n div 128) @ b # s)"
      using False by (simp add: base128_hi_step b_def)
    also have "\<dots> = parse_base128_loop v (b # s)"
      using less.IH [of "n div 128" "b # s"] False small less.prems
      by (cases "n div 128 = 0") (simp_all add: v_def)
    also have "\<dots> = parse_base128_loop (word_of_nat n) s"
      using top minimal more shift by (auto simp: Let_def)
    finally show ?thesis .
  qed
qed

lemma parse_base128_loop_last:
  assumes "unat (v :: u64) < 2 ^ 57" "unat b < 128"
  shows "parse_base128_loop v (b # s) = (Some (word_of_nat (128 * unat v + unat b)), s)"
proof -
  have top: "drop_bit 57 v = 0" using assms by (simp add: drop_bit_57)
  have "unat (push_bit 7 v OR (ucast b AND 0x7f)) = 128 * unat v + unat b"
    using base128_shift [OF top, of b] assms(2) by simp
  then have "push_bit 7 v OR (ucast b AND 0x7f) = word_of_nat (128 * unat v + unat b)"
    by (metis of_nat_unat ucast_id)
  moreover have "b AND 0x80 = 0" "b \<noteq> 0x80" using assms(2) byte_top_bit [of b] by auto
  ultimately show ?thesis using top by (simp add: Let_def)
qed

lemma parse_base128_integer_base128:
  "parse_base128_integer (base128 (unat w) @ s) = (Some w, s)"
proof -
  have w: "unat w < 2 ^ 64" using unsigned_less [of w, where 'a = nat] by simp
  then have hi: "unat w div 128 < 2 ^ 57" by (intro less_mult_imp_div_less) simp
  then have uv: "unat (word_of_nat (unat w div 128) :: u64) = unat w div 128"
    by (simp add: unsigned_of_nat take_bit_nat_eq_self)
  have ub: "unat (word_of_nat (unat w mod 128) :: byte) = unat w mod 128" by simp
  have "parse_base128_integer (base128 (unat w) @ s)
      = parse_base128_loop (word_of_nat (unat w div 128)) (word_of_nat (unat w mod 128) # s)"
    using parse_base128_loop_hi [OF hi] by (simp add: parse_base128_integer_def base128_def)
  also have "\<dots> = (Some (word_of_nat (unat w)), s)"
    using hi by (subst parse_base128_loop_last) (simp_all only: uv ub, simp_all)
  finally show ?thesis by simp
qed

text \<open>Conversely, whatever the loop accepts continues the digits it has seen to a whole number.\<close>

lemma parse_base128_loop_Some:
  "parse_base128_loop v s = (Some w, r) \<Longrightarrow>
    \<exists>ds. s = ds @ r \<and> base128_hi (unat v) @ ds = base128 (unat w)"
proof (induction v s rule: parse_base128_loop.induct)
  case (1 v)
  then show ?case by simp
next
  case (2 v b s)
  let ?v = "push_bit 7 v OR (ucast b AND 0x7f)"
  from "2.prems" have top: "drop_bit 57 v = 0" and min: "\<not> (v = 0 \<and> b = 0x80)"
    by (auto split: if_splits)
  have uv: "unat ?v = 128 * unat v + unat b mod 128" by (rule base128_shift [OF top])
  then have digits: "unat ?v div 128 = unat v" "unat ?v mod 128 = unat b mod 128" by simp_all
  show ?case
  proof (cases "b AND 0x80 = 0")
    case True
    with "2.prems" top min have wr: "w = ?v" "r = s" by (auto simp: Let_def split: if_splits)
    have "unat b < 128" using True by (simp add: byte_top_bit)
    then have "base128 (unat w) = base128_hi (unat v) @ [b]"
      using digits by (simp add: base128_def wr)
    with wr show ?thesis by auto
  next
    case False
    with "2.prems" top min have "parse_base128_loop ?v s = (Some w, r)"
      by (auto simp: Let_def split: if_splits)
    with "2.IH" [OF _ min] top False
    obtain ds where ds: "s = ds @ r" "base128_hi (unat ?v) @ ds = base128 (unat w)" by auto
    have ub: "128 \<le> unat b" using False by (simp add: byte_top_bit)
    moreover have "unat b - 128 < 128" using ub unat_byte_less [of b] by linarith
    ultimately have "unat b mod 128 = unat b - 128" by (simp add: le_mod_geq)
    with ub have b: "128 + unat b mod 128 = unat b" by linarith
    have "unat ?v \<noteq> 0"
    proof
      assume "unat ?v = 0"
      with uv have "unat v = 0" and low: "unat b mod 128 = 0" by linarith+
      then have "v = 0" by (simp only: unsigned_eq_0_iff)
      have "unat b = 128" using b low by linarith
      then have "b = 0x80" by (simp add: word_unat_eq_iff)
      with \<open>v = 0\<close> min show False by simp
    qed
    then have "base128_hi (unat ?v) = base128_hi (unat v) @ [b]"
      using digits b by (simp add: base128_hi_step)
    with ds show ?thesis by auto
  qed
qed

lemma parse_base128_integer_Some_iff:
  "parse_base128_integer s = (Some w, r) \<longleftrightarrow> s = base128 (unat w) @ r"
  using parse_base128_loop_Some [of 0 s w r] parse_base128_integer_base128 [of w r]
  by (auto simp: parse_base128_integer_def)

interpretation base128_codec:
  canonical_codec "\<lambda>w :: u64. base128 (unat w)" parse_base128_integer "\<lambda>_. True"
  by unfold_locales (simp_all add: parse_base128_integer_Some_iff)

section \<open>Identifier octets\<close>

definition der_tag :: "u32 \<Rightarrow> byte list" where
  "der_tag t =
     (let tag_bits = ucast (drop_bit 24 t) AND 0xe0;
          tag_number = unat (t AND CBS_ASN1_TAG_NUMBER_MASK)
      in if tag_number \<ge> 0x1f then (tag_bits OR 0x1f) # base128 tag_number
         else [tag_bits OR word_of_nat tag_number])"

lemma bit_e0_byte: "bit (0xe0 :: byte) n \<longleftrightarrow> 5 \<le> n \<and> n < 8"
proof -
  have "0xe0 = push_bit 5 (mask 3 :: byte)" by (simp add: mask_eq_exp_minus_1)
  then show ?thesis by (simp only: bit_simps) auto
qed

lemma bit_e0_word: "bit (0xe0 :: u32) n \<longleftrightarrow> 5 \<le> n \<and> n < 8"
proof -
  have "0xe0 = push_bit 5 (mask 3 :: u32)" by (simp add: mask_eq_exp_minus_1)
  then show ?thesis by (simp only: bit_simps) auto
qed

lemma bit_1f_byte: "bit (0x1f :: byte) n \<longleftrightarrow> n < 5"
proof -
  have "0x1f = (mask 5 :: byte)" by (simp add: mask_eq_exp_minus_1)
  then show ?thesis by (simp only: bit_simps) auto
qed

lemma bit_number_mask: "bit CBS_ASN1_TAG_NUMBER_MASK n \<longleftrightarrow> n < 29"
proof -
  have "CBS_ASN1_TAG_NUMBER_MASK = mask 29" by (simp add: mask_eq_exp_minus_1)
  then show ?thesis by (simp only: bit_simps) auto
qed

lemma byte_and_1f: "unat ((b :: byte) AND 0x1f) = unat b mod 32"
proof -
  have "b AND 0x1f = take_bit 5 b"
    by (rule bit_word_eqI) (auto simp only: bit_and_iff bit_1f_byte bit_take_bit_iff)
  then have "unat (b AND 0x1f) = take_bit 5 (unat b)"
    by (simp only: unsigned_take_bit_eq)
  then show ?thesis by (simp only: take_bit_eq_mod) simp
qed

lemma tag_number_bound: "unat (t AND CBS_ASN1_TAG_NUMBER_MASK) < 2 ^ 29"
proof -
  have "t AND CBS_ASN1_TAG_NUMBER_MASK = take_bit 29 t"
    by (rule bit_word_eqI) (auto simp only: bit_and_iff bit_number_mask bit_take_bit_iff)
  then have "unat (t AND CBS_ASN1_TAG_NUMBER_MASK) = take_bit 29 (unat t)"
    by (simp only: unsigned_take_bit_eq)
  then show ?thesis by (simp only: take_bit_nat_less_exp)
qed

lemma small_byte_bit:
  assumes "unat (x :: byte) < 32" "bit x n"
  shows "n < 5"
proof (rule ccontr)
  assume "\<not> n < 5"
  have "take_bit 5 (unat x) = unat x" using assms(1) by (simp add: take_bit_nat_eq_self)
  then have "unat (take_bit 5 x) = unat x" by (simp only: unsigned_take_bit_eq)
  then have "take_bit 5 x = x" by (simp add: word_unat_eq_iff)
  with assms(2) have "bit (take_bit 5 x) n" by simp
  with \<open>\<not> n < 5\<close> show False by (simp add: bit_take_bit_iff)
qed

lemma tag_byte_split:
  assumes "unat (x :: byte) < 32"
  shows "(c AND 0xe0 OR x) AND 0x1f = x"
    and "(ucast (c AND 0xe0 OR x) :: u32) AND 0xe0 = ucast (c AND 0xe0)"
proof -
  note small = small_byte_bit [OF assms]
  show "(c AND 0xe0 OR x) AND 0x1f = x"
    by (rule bit_word_eqI)
      (simp only: bit_and_iff bit_or_iff bit_e0_byte bit_1f_byte, auto dest: small)
  show "(ucast (c AND 0xe0 OR x) :: u32) AND 0xe0 = ucast (c AND 0xe0)"
    by (rule bit_word_eqI)
      (simp only: bit_and_iff bit_or_iff bit_ucast_iff bit_e0_byte bit_e0_word,
        auto dest: small bit_imp_le_length)
qed

lemma tag_recompose:
  "push_bit 24 (ucast ((ucast (drop_bit 24 t) :: byte) AND 0xe0)) OR (t AND CBS_ASN1_TAG_NUMBER_MASK)
     = (t :: u32)"
proof (rule bit_word_eqI)
  fix n :: nat
  assume "n < LENGTH(32)"
  then show "bit (push_bit 24 (ucast ((ucast (drop_bit 24 t) :: byte) AND 0xe0))
      OR (t AND CBS_ASN1_TAG_NUMBER_MASK)) n \<longleftrightarrow> bit t n"
    unfolding bit_or_iff bit_and_iff bit_push_bit_iff bit_number_mask bit_ucast_iff bit_e0_byte
      bit_drop_bit_eq
    by (cases "n < 29") (auto simp: bit_imp_le_length)
qed

lemma der_tag_cases:
  fixes t :: u32
  defines "c \<equiv> ucast (drop_bit 24 t) :: byte" and "n \<equiv> t AND CBS_ASN1_TAG_NUMBER_MASK"
  obtains (high) "unat n \<ge> 31" "der_tag t = (c AND 0xe0 OR 0x1f) # base128 (unat n)"
  | (low) "unat n < 31" "der_tag t = [c AND 0xe0 OR word_of_nat (unat n)]"
  unfolding c_def n_def der_tag_def Let_def by (metis not_le)

lemma der_tag_nonempty [simp]: "der_tag t \<noteq> []"
  by (cases t rule: der_tag_cases) simp_all

lemma tag_from_parts:
  fixes c :: byte and n :: u32
  assumes "unat n < 2 ^ 29"
  defines "t \<equiv> push_bit 24 (ucast (c AND 0xe0)) OR n"
  shows "t AND CBS_ASN1_TAG_NUMBER_MASK = n"
    and "ucast (drop_bit 24 t) AND 0xe0 = c AND (0xe0 :: byte)"
proof -
  have "take_bit 29 (unat n) = unat n" using assms(1) by (simp only: take_bit_nat_eq_self)
  then have "unat (take_bit 29 n) = unat n" by (simp only: unsigned_take_bit_eq)
  then have "take_bit 29 n = n" by (simp only: word_unat_eq_iff)
  then have small: "bit n k \<Longrightarrow> k < 29" for k by (metis bit_take_bit_iff)
  show "t AND CBS_ASN1_TAG_NUMBER_MASK = n"
    unfolding t_def
    by (rule bit_word_eqI)
      (simp only: bit_and_iff bit_or_iff bit_push_bit_iff bit_ucast_iff bit_number_mask bit_e0_byte,
        auto dest: small)
  show "ucast (drop_bit 24 t) AND 0xe0 = c AND (0xe0 :: byte)"
    unfolding t_def
    by (rule bit_word_eqI)
      (simp only: bit_and_iff bit_or_iff bit_push_bit_iff bit_ucast_iff bit_drop_bit_eq o_def
        bit_e0_byte, auto dest: small simp: bit_imp_le_length)
qed

lemma parse_asn1_tag_der_tag: "parse_asn1_tag (der_tag t @ s) = (Some t, s)"
proof -
  define n where "n = t AND CBS_ASN1_TAG_NUMBER_MASK"
  define c :: byte where "c = ucast (drop_bit 24 t)"
  have bound: "unat n < 2 ^ 29" unfolding n_def by (rule tag_number_bound)
  have t: "push_bit 24 (ucast (c AND 0xe0)) OR n = t"
    unfolding n_def c_def by (rule tag_recompose)
  show ?thesis
  proof (cases t rule: der_tag_cases)
    case high
    then have tag: "der_tag t = (c AND 0xe0 OR 0x1f) # base128 (unat n)" and n: "31 \<le> unat n"
      by (simp_all add: n_def c_def)
    note split = tag_byte_split [of "0x1f" c, simplified]
    define w :: u64 where "w = ucast n"
    have uw: "unat w = unat n" unfolding w_def by (rule unat_ucast_up) simp
    then have parse: "parse_base128_integer (base128 (unat n) @ s) = (Some w, s)"
      using parse_base128_integer_base128 [of w s] by simp
    have range: "\<not> (w > ucast CBS_ASN1_TAG_NUMBER_MASK \<or> w < 0x1f)"
      using uw n bound by (simp add: word_less_nat_alt)
    have "(ucast w :: u32) = n"
      unfolding w_def by (rule bit_word_eqI) (simp add: bit_ucast_iff)
    with t parse range show ?thesis
      by (simp add: parse_asn1_tag_def tag Let_def split)
  next
    case low
    define x :: byte where "x = word_of_nat (unat n)"
    have tag: "der_tag t = [c AND 0xe0 OR x]" and n: "unat n < 31"
      using low by (simp_all add: n_def c_def x_def)
    have ux: "unat x = unat n" using n by (simp only: x_def unat_of_nat_byte) simp
    then have small: "unat x < 32" using n by simp
    note split = tag_byte_split [OF small, of c]
    have ucx: "(ucast x :: u32) = n" by (simp add: word_unat_eq_iff ux)
    have "n \<noteq> 0x1f" using n by auto
    with t ucx show ?thesis
      by (simp add: parse_asn1_tag_def tag Let_def split)
  qed
qed

lemma byte_high_low: "(b :: byte) = b AND 0xe0 OR b AND 0x1f"
  by (rule bit_word_eqI) (simp only: bit_and_iff bit_or_iff bit_e0_byte bit_1f_byte, auto)

lemma ucast_and_e0: "(ucast (b :: byte) :: u32) AND 0xe0 = ucast (b AND 0xe0)"
  by (rule bit_word_eqI) (simp only: bit_and_iff bit_ucast_iff bit_e0_byte bit_e0_word, auto)

lemma parse_asn1_tag_Some:
  assumes "parse_asn1_tag s = (Some t, r)"
  shows "s = der_tag t @ r"
proof -
  obtain b s' where s: "s = b # s'"
    using assms by (cases s) (simp_all add: parse_asn1_tag_def)
  define x where "x = b AND 0x1f"
  have ux: "unat x < 32" by (simp add: x_def byte_and_1f)
  have b: "b = b AND 0xe0 OR x" unfolding x_def by (rule byte_high_low)
  show ?thesis
  proof (cases "x = 0x1f")
    case True
    then have "(ucast x :: u32) = 0x1f" by simp
    with assms s obtain w where w: "parse_base128_integer s' = (Some w, r)"
      "\<not> (w > ucast CBS_ASN1_TAG_NUMBER_MASK \<or> w < 0x1f)"
      "t = push_bit 24 (ucast (b AND 0xe0)) OR ucast w"
      by (auto simp: parse_asn1_tag_def x_def ucast_and_e0 Let_def
          split: prod.splits option.splits if_splits)
    from w(2) have wb: "unat w < 2 ^ 29" "31 \<le> unat w"
      by (simp_all add: word_less_nat_alt not_less)
    have un: "unat (ucast w :: u32) = unat w" by (rule unat_ucast_down) (use wb in simp)
    note parts = tag_from_parts [of "ucast w" b, unfolded un, OF wb(1), folded w(3)]
    have "der_tag t = b # base128 (unat w)"
      using wb b True by (simp add: der_tag_def Let_def parts un)
    with w(1) s show ?thesis by (simp add: parse_base128_integer_Some_iff)
  next
    case False
    then have "unat x \<noteq> 31" by (simp add: word_unat_eq_iff)
    then have "(ucast x :: u32) \<noteq> 0x1f" by (simp add: word_unat_eq_iff)
    with assms s have t: "t = push_bit 24 (ucast (b AND 0xe0)) OR ucast x" and r: "s' = r"
      by (auto simp: parse_asn1_tag_def x_def ucast_and_e0 Let_def
          split: prod.splits option.splits if_splits)
    have un: "unat (ucast x :: u32) = unat x" by simp
    have "unat (ucast x :: u32) < 2 ^ 29" using ux by simp
    note parts = tag_from_parts [OF this, of b, folded t]
    have "unat x < 31" using ux \<open>unat x \<noteq> 31\<close> by linarith
    then have "der_tag t = [b]"
      using b by (simp add: der_tag_def Let_def parts)
    with s r show ?thesis by simp
  qed
qed

lemma parse_asn1_tag_Some_iff: "parse_asn1_tag s = (Some t, r) \<longleftrightarrow> s = der_tag t @ r"
  using parse_asn1_tag_Some parse_asn1_tag_der_tag by blast

interpretation tag_codec: canonical_codec der_tag parse_asn1_tag "\<lambda>_. True"
  by unfold_locales (simp_all add: parse_asn1_tag_Some_iff)

lemma length_base128_hi: "n < 128 ^ k \<Longrightarrow> length (base128_hi n) \<le> k"
proof (induction k arbitrary: n)
  case 0
  then show ?case by simp
next
  case (Suc k)
  then have "n div 128 < 128 ^ k" by (intro less_mult_imp_div_less) (simp add: mult.commute)
  with Suc show ?case by (cases "n = 0") (simp_all add: base128_hi_step)
qed

lemma length_der_tag: "length (der_tag t) \<le> 6"
proof (cases t rule: der_tag_cases)
  case high
  have "unat (t AND CBS_ASN1_TAG_NUMBER_MASK) < 128 ^ 5"
    using tag_number_bound [of t] by simp
  then have "unat (t AND CBS_ASN1_TAG_NUMBER_MASK) div 128 < 128 ^ 4"
    by (intro less_mult_imp_div_less) simp
  then have "length (base128_hi (unat (t AND CBS_ASN1_TAG_NUMBER_MASK) div 128)) \<le> 4"
    by (rule length_base128_hi)
  with high show ?thesis by (simp add: base128_def)
qed simp

section \<open>Length octets and elements\<close>

definition der_len_octets :: "nat \<Rightarrow> nat" where
  "der_len_octets n = (if n < 256 then 1 else if n < 256 ^ 2 then 2 else if n < 256 ^ 3 then 3 else 4)"

definition der_len :: "nat \<Rightarrow> byte list" where
  "der_len n =
     (if n < 128 then [word_of_nat n]
      else word_of_nat (128 + der_len_octets n) # be_bytes (der_len_octets n) n)"

definition der_header :: "u32 \<Rightarrow> nat \<Rightarrow> byte list" where
  "der_header t n = der_tag t @ der_len n"

definition der_element :: "u32 \<Rightarrow> byte list \<Rightarrow> byte list" where
  "der_element t body = der_header t (length body) @ body"

lemma der_len_octets_bounds: "1 \<le> der_len_octets n" "der_len_octets n \<le> 4"
  by (simp_all add: der_len_octets_def)

lemma der_len_octets_eq:
  assumes "1 \<le> k" "k \<le> 4" "n < 256 ^ k" "256 ^ (k - 1) \<le> n \<or> k = 1"
  shows "der_len_octets n = k"
proof -
  from assms(1,2) have "k = 1 \<or> k = 2 \<or> k = 3 \<or> k = 4" by linarith
  with assms(3,4) show ?thesis by (auto simp: der_len_octets_def)
qed

lemma der_len_octets_fits: "n < 2 ^ 32 \<Longrightarrow> n < 256 ^ der_len_octets n"
  by (simp add: der_len_octets_def)

lemma der_len_octets_minimal: "1 < der_len_octets n \<Longrightarrow> 256 ^ (der_len_octets n - 1) \<le> n"
  by (auto simp: der_len_octets_def)

lemma der_len_nonempty [simp]: "der_len n \<noteq> []"
  by (simp add: der_len_def)

lemma der_element_nonempty [simp]: "der_element t body \<noteq> []"
  by (simp add: der_element_def der_header_def)

lemma length_byte_long:
  assumes "1 \<le> k" "k \<le> 4"
  shows "(word_of_nat (128 + k) :: byte) AND 0x80 \<noteq> 0"
    and "unat ((word_of_nat (128 + k) :: byte) AND 0x7f) = k"
proof -
  from assms have "k = 1 \<or> k = 2 \<or> k = 3 \<or> k = 4" by linarith
  then show "(word_of_nat (128 + k) :: byte) AND 0x80 \<noteq> 0"
    and "unat ((word_of_nat (128 + k) :: byte) AND 0x7f) = k"
    by auto
qed

lemma long_length_byte:
  assumes "(b :: byte) AND 0x80 \<noteq> 0"
  shows "b = word_of_nat (128 + unat (b AND 0x7f))"
proof -
  have ub: "128 \<le> unat b" using assms by (simp add: byte_top_bit)
  moreover have "unat b - 128 < 128" using ub unat_byte_less [of b] by linarith
  ultimately have "unat b mod 128 = unat b - 128" by (simp add: le_mod_geq)
  with ub have "128 + unat (b AND 0x7f) = unat b" by (simp add: unat_byte_and_7f)
  then show ?thesis by (metis of_nat_unat ucast_id)
qed

lemma drop_bit_len64:
  "drop_bit n (w :: u64) = 0 \<longleftrightarrow> unat w < 2 ^ n"
proof -
  have "drop_bit n w = 0 \<longleftrightarrow> unat (drop_bit n w) = 0"
    by (simp only: unsigned_eq_0_iff)
  also have "unat (drop_bit n w) = drop_bit n (unat w)"
    by (rule unat_drop_bit_eq)
  also have "\<dots> = unat w div 2 ^ n"
    by (rule drop_bit_eq_div)
  finally show ?thesis by (simp add: div_eq_0_iff)
qed

lemma drop_bytes_len64: "drop_bit (n * 8) (w :: u64) = 0 \<longleftrightarrow> unat w < 256 ^ n"
proof -
  have "(2 :: nat) ^ (n * 8) = 256 ^ n" by (simp only: mult.commute [of n] power_mult) simp
  then show ?thesis by (simp only: drop_bit_len64)
qed

lemma split_behind_prefix:
  assumes "pre @ rest = out @ r" "length out = length pre + m"
  shows "\<exists>body. out = pre @ body \<and> length body = m \<and> rest = body @ r"
proof (intro exI conjI)
  have "take (length pre) (pre @ rest) = take (length pre) (out @ r)"
    by (simp only: assms(1))
  then have "pre = take (length pre) out" using assms(2) by simp
  then show out: "out = pre @ drop (length pre) out" by (metis append_take_drop_id)
  show "length (drop (length pre) out) = m" using assms(2) by simp
  have "pre @ rest = pre @ drop (length pre) out @ r" using assms(1) out by simp
  then show "rest = drop (length pre) out @ r" by simp
qed

lemma der_short_element:
  assumes "(b :: byte) AND 0x80 = 0" "unat b = length body"
  shows "der_tag t @ b # body = der_element t body"
    and "length (der_tag t) + 1 = length (der_header t (length body))"
proof -
  have "length body < 128" using assms by (simp add: byte_top_bit)
  moreover have "word_of_nat (length body) = b" using assms(2) by (metis of_nat_unat ucast_id)
  ultimately show "der_tag t @ b # body = der_element t body"
    and "length (der_tag t) + 1 = length (der_header t (length body))"
    by (simp_all add: der_element_def der_header_def der_len_def)
qed

lemma der_long_element:
  assumes "(b :: byte) AND 0x80 \<noteq> 0" "unat (b AND 0x7f) = k" "1 \<le> k" "k \<le> 4"
    and "128 \<le> length body" "length body < 256 ^ k" "256 ^ (k - 1) \<le> length body"
  shows "der_tag t @ b # be_bytes k (length body) @ body = der_element t body"
    and "length (der_tag t) + 1 + k = length (der_header t (length body))"
proof -
  have "der_len_octets (length body) = k" using assms by (intro der_len_octets_eq) simp_all
  moreover have "b = word_of_nat (128 + k)" using long_length_byte [OF assms(1)] assms(2) by simp
  ultimately have "der_len (length body) = b # be_bytes k (length body)"
    using assms(5) by (simp add: der_len_def)
  then show "der_tag t @ b # be_bytes k (length body) @ body = der_element t body"
    and "length (der_tag t) + 1 + k = length (der_header t (length body))"
    by (simp_all add: der_element_def der_header_def)
qed

text \<open>The three ways to accept an element.\<close>

lemma any_element_cases:
  assumes "cbs_get_any_asn1_element s ber_ok = (Some (out, t, hl, ber), r)"
  obtains
    (short_form) b h where "s = der_tag t @ b # h" "b AND 0x80 = 0" "hl = length (der_tag t) + 1"
      "\<not> ber" "CBS_get_bytes s (unat b + hl) = (Some out, r)"
  | (long_form) b k w h where "s = der_tag t @ b # be_bytes k (unat w) @ h" "b AND 0x80 \<noteq> 0"
      "unat (b AND 0x7f) = k" "1 \<le> k" "k \<le> 4" "unat (w :: u64) < 256 ^ k"
      "hl = length (der_tag t) + 1 + k" "ber \<longleftrightarrow> w < 128 \<or> drop_bit ((k - 1) * 8) w = 0"
      "ber \<longrightarrow> ber_ok" "CBS_get_bytes s (unat w + hl) = (Some out, r)"
  | (indefinite) b h where "s = der_tag t @ b # h" "b AND 0x80 \<noteq> 0" "unat (b AND 0x7f) = 0"
      "ber_ok" "ber" "t AND CBS_ASN1_CONSTRUCTED \<noteq> 0" "hl = length (der_tag t) + 1"
      "CBS_get_bytes s hl = (Some out, r)"
proof -
  obtain h where tag: "parse_asn1_tag s = (Some t, h)"
    using assms by (auto simp: cbs_get_any_asn1_element_def Let_def split: prod.splits option.splits if_splits)
  then have s: "s = der_tag t @ h" by (rule parse_asn1_tag_Some)
  obtain b h2 where h: "h = b # h2"
    using assms tag by (cases h) (auto simp: cbs_get_any_asn1_element_def)
  have hlen: "CBS_len s - CBS_len h2 = length (der_tag t) + 1"
    by (simp add: s h CBS_len_def)
  consider "b AND 0x80 = 0" | "b AND 0x80 \<noteq> 0" "unat (b AND 0x7f) \<noteq> 0"
    | "b AND 0x80 \<noteq> 0" "unat (b AND 0x7f) = 0" by blast
  then show ?thesis
  proof cases
    case 1
    with assms tag h hlen short_form [of b h2] s show ?thesis
      by (auto simp: cbs_get_any_asn1_element_def Let_def split: prod.splits option.splits)
  next
    case 3
    with assms tag h hlen indefinite [of b h2] s show ?thesis
      by (auto simp: cbs_get_any_asn1_element_def Let_def split: prod.splits option.splits if_splits)
  next
    case 2
    define k where "k = unat (b AND 0x7f)"
    from assms tag h 2 have k: "1 \<le> k" "k \<le> 4"
      by (auto simp: cbs_get_any_asn1_element_def Let_def k_def split: if_splits)
    obtain w h3 where w: "cbs_get_u h2 k = (Some w, h3)"
      using assms tag h 2 k
      by (auto simp: cbs_get_any_asn1_element_def Let_def k_def split: prod.splits option.splits)
    then have h2: "h2 = be_bytes k (unat w) @ h3" and wk: "unat w < 256 ^ k"
      using k by (simp_all add: cbs_get_u_Some_iff)
    define m where "m = unat w + (length (der_tag t) + 1) + k"
    have "(256::nat) ^ k \<le> 256 ^ 4" using k by (intro power_increasing) simp_all
    with wk have "unat w < 2 ^ 32" by simp
    then have m: "m mod size_mod = m" using length_der_tag [of t] k by (simp add: m_def)
    from assms tag h 2 k w hlen
    have get: "CBS_get_bytes s (m mod size_mod) = (Some out, r)" and ok: "ber \<longrightarrow> ber_ok"
      and ber: "ber \<longleftrightarrow> w < 128 \<or> drop_bit ((k - 1) * 8) w = 0"
      and hl: "hl = length (der_tag t) + 1 + k"
      by (auto simp: cbs_get_any_asn1_element_def Let_def k_def m_def
          split: prod.splits option.splits if_splits)
    have "s = der_tag t @ b # be_bytes k (unat w) @ h3" by (simp add: s h h2)
    moreover have "CBS_get_bytes s (unat w + hl) = (Some out, r)"
      using get unfolding m by (simp add: m_def hl add.assoc)
    ultimately show ?thesis
      using long_form [OF _ 2(1) k_def [symmetric] k wk hl ber ok] by blast
  qed
qed

lemma cbs_get_any_asn1_element_Some:
  assumes "cbs_get_any_asn1_element s ber_ok = (Some (out, t, hl, False), r)"
  shows "\<exists>body. length body < 2 ^ 32 \<and> out = der_element t body
    \<and> hl = length (der_header t (length body)) \<and> s = out @ r"
  using assms
proof (cases rule: any_element_cases)
  case (short_form b h)
  then have "length out = length (der_tag t @ [b]) + unat b" and so: "s = out @ r"
    by (simp_all add: CBS_get_bytes_Some_iff)
  moreover have "(der_tag t @ [b]) @ h = s" using short_form(1) by simp
  ultimately obtain body where body: "out = (der_tag t @ [b]) @ body" "length body = unat b"
    using split_behind_prefix [of "der_tag t @ [b]" h out r "unat b"] by auto
  have "length body < 2 ^ 32" by (rule less_trans [of _ 256]) (simp_all add: body(2))
  with body short_form so der_short_element [of b body t] show ?thesis
    by (intro exI [of _ body]) simp
next
  case (long_form b k w h)
  define pre where "pre = der_tag t @ b # be_bytes k (unat w)"
  have "length out = length pre + unat w" and so: "s = out @ r"
    using long_form by (simp_all add: CBS_get_bytes_Some_iff pre_def)
  moreover have "pre @ h = s" using long_form(1) by (simp add: pre_def)
  ultimately obtain body where body: "out = pre @ body" "length body = unat w"
    using split_behind_prefix [of pre h out r "unat w"] by auto
  have "128 \<le> unat w" using long_form(8) by (simp add: word_less_nat_alt)
  moreover have "256 ^ (k - 1) \<le> unat w" using long_form(8) by (simp add: drop_bytes_len64)
  ultimately have "der_element t body = out" "hl = length (der_header t (length body))"
    using der_long_element [of b k body t] long_form body by (simp_all add: pre_def)
  moreover have "(256::nat) ^ k \<le> 256 ^ 4" using long_form(5) by (intro power_increasing) simp_all
  then have "length body < 2 ^ 32" using body(2) long_form(6) by simp
  ultimately show ?thesis using so by blast
next
  case (indefinite b h)
  then show ?thesis by simp
qed

lemma cbs_get_any_asn1_element_der:
  assumes "length body < 2 ^ 32"
  shows "cbs_get_any_asn1_element (der_element t body @ r) ber_ok
    = (Some (der_element t body, t, length (der_header t (length body)), False), r)"
proof -
  define n where "n = length body"
  define s where "s = der_element t body @ r"
  have tag: "parse_asn1_tag s = (Some t, der_len n @ body @ r)"
    by (simp add: s_def der_element_def der_header_def n_def parse_asn1_tag_der_tag)
  have all: "CBS_get_bytes s (length (der_element t body)) = (Some (der_element t body), r)"
    by (simp only: s_def CBS_get_bytes_append)
  show ?thesis
  proof (cases "n < 128")
    case True
    define b :: byte where "b = word_of_nat n"
    have b: "unat b = n" "b AND 0x80 = 0" "der_len n = [b]"
      using True byte_top_bit [of b] by (simp_all add: b_def der_len_def)
    have "CBS_len s - CBS_len (body @ r) = length (der_header t n)"
      by (simp add: s_def CBS_len_def der_element_def n_def der_header_def b)
    moreover have "n + length (der_header t n) = length (der_element t body)"
      by (simp add: der_element_def n_def)
    ultimately show ?thesis using tag b all
      by (simp add: cbs_get_any_asn1_element_def Let_def flip: s_def n_def)
  next
    case False
    define k where "k = der_len_octets n"
    define b :: byte where "b = word_of_nat (128 + k)"
    have k: "1 \<le> k" "k \<le> 4" unfolding k_def by (rule der_len_octets_bounds)+
    note b = length_byte_long [OF k, folded b_def]
    have len: "der_len n = b # be_bytes k n" using False by (simp add: der_len_def b_def k_def)
    have n: "n < 2 ^ 32" "n < 256 ^ k"
      using assms der_len_octets_fits by (simp_all add: n_def k_def)
    define w :: u64 where "w = word_of_nat n"
    have uw: "unat w = n" using n(1) by (simp add: w_def unsigned_of_nat take_bit_nat_eq_self)
    have get: "cbs_get_u (be_bytes k n @ body @ r) k = (Some w, body @ r)"
      using k n by (simp add: w_def)
    have "256 ^ (k - 1) \<le> n"
      using False der_len_octets_minimal [of n] k by (cases "k = 1") (auto simp: k_def)
    then have min: "drop_bit ((k - 1) * 8) w \<noteq> 0" "\<not> w < 128"
      using False by (simp_all add: drop_bytes_len64 uw word_less_nat_alt)
    have h: "CBS_len s - CBS_len (be_bytes k n @ body @ r) = length (der_tag t) + 1"
      by (simp add: s_def CBS_len_def der_element_def n_def [symmetric] der_header_def len)
    have l: "n + (length (der_tag t) + 1) + k = length (der_element t body)"
      by (simp add: der_element_def n_def [symmetric] der_header_def len)
    have no_wrap: "(n + (length (der_tag t) + 1) + k) mod size_mod = n + (length (der_tag t) + 1) + k"
      using n(1) k length_der_tag [of t] by simp
    show ?thesis
      using tag b len k get min h all no_wrap
      unfolding cbs_get_any_asn1_element_def Let_def s_def [symmetric]
      by (simp add: uw l [symmetric] n_def [symmetric] der_header_def)
  qed
qed

lemma der_mode_no_ber:
  assumes "cbs_get_any_asn1_element s False = (Some (out, t, hl, ber), r)"
  shows "\<not> ber"
  using assms by (cases rule: any_element_cases) simp_all


lemma CBS_get_any_asn1_element_Some_iff:
  "CBS_get_any_asn1_element s = (Some (out, t, hl), r) \<longleftrightarrow>
    (\<exists>body. length body < 2 ^ 32 \<and> out = der_element t body
      \<and> hl = length (der_header t (length body)) \<and> s = out @ r)"
  (is "?get \<longleftrightarrow> ?der")
proof
  assume ?get
  then obtain ber where "cbs_get_any_asn1_element s False = (Some (out, t, hl, ber), r)"
    by (auto simp: CBS_get_any_asn1_element_def split: prod.splits option.splits)
  moreover from this have "\<not> ber" by (rule der_mode_no_ber)
  ultimately have "cbs_get_any_asn1_element s False = (Some (out, t, hl, False), r)" by simp
  from cbs_get_any_asn1_element_Some [OF this] show ?der by blast
next
  assume ?der
  then show ?get
    by (auto simp: CBS_get_any_asn1_element_def cbs_get_any_asn1_element_der)
qed

lemma CBS_skip_der_header:
  "CBS_skip (der_element t body) (length (der_header t (length body))) = (Some (), body)"
  by (simp add: CBS_skip_eq der_element_def)

lemma CBS_get_any_asn1_Some_iff:
  "CBS_get_any_asn1 s = (Some (body, t), r) \<longleftrightarrow> length body < 2 ^ 32 \<and> s = der_element t body @ r"
  (is "?get \<longleftrightarrow> ?der")
proof
  assume ?get
  then obtain out hl where "CBS_get_any_asn1_element s = (Some (out, t, hl), r)"
    and "fst (CBS_skip out hl) \<noteq> None" "snd (CBS_skip out hl) = body"
    by (auto simp: CBS_get_any_asn1_def split: prod.splits option.splits)
  then show ?der
    by (auto simp: CBS_get_any_asn1_element_Some_iff CBS_skip_der_header)
next
  assume ?der
  then have "CBS_get_any_asn1_element s
      = (Some (der_element t body, t, length (der_header t (length body))), r)"
    by (simp add: CBS_get_any_asn1_element_Some_iff) blast
  then show ?get by (simp add: CBS_get_any_asn1_def CBS_skip_der_header)
qed

lemma CBS_get_asn1_Some_iff:
  "CBS_get_asn1 s t = (Some body, r) \<longleftrightarrow> length body < 2 ^ 32 \<and> s = der_element t body @ r"
  (is "?get \<longleftrightarrow> ?der")
proof
  assume ?get
  then obtain out hl where "CBS_get_any_asn1_element s = (Some (out, t, hl), r)"
    and "fst (CBS_skip out hl) \<noteq> None" "snd (CBS_skip out hl) = body"
    by (auto simp: CBS_get_asn1_def cbs_get_asn1_def split: prod.splits option.splits if_splits)
  then show ?der
    by (auto simp: CBS_get_any_asn1_element_Some_iff CBS_skip_der_header)
next
  assume ?der
  then have "CBS_get_any_asn1_element s
      = (Some (der_element t body, t, length (der_header t (length body))), r)"
    by (simp add: CBS_get_any_asn1_element_Some_iff) blast
  then show ?get by (simp add: CBS_get_asn1_def cbs_get_asn1_def CBS_skip_der_header)
qed

lemma CBS_get_asn1_element_Some_iff:
  "CBS_get_asn1_element s t = (Some out, r) \<longleftrightarrow>
    (\<exists>body. length body < 2 ^ 32 \<and> out = der_element t body) \<and> s = out @ r"
  (is "?get \<longleftrightarrow> ?der")
proof
  assume ?get
  then obtain hl where "CBS_get_any_asn1_element s = (Some (out, t, hl), r)"
    by (auto simp: CBS_get_asn1_element_def cbs_get_asn1_def split: prod.splits option.splits if_splits)
  then show ?der by (auto simp: CBS_get_any_asn1_element_Some_iff)
next
  assume ?der
  then obtain hl where "CBS_get_any_asn1_element s = (Some (out, t, hl), r)"
    by (auto simp: CBS_get_any_asn1_element_Some_iff)
  then show ?get by (simp add: CBS_get_asn1_element_def cbs_get_asn1_def)
qed

interpretation any_element: canonical_codec
  "\<lambda>(body, t). der_element t body" CBS_get_any_asn1 "\<lambda>(body, t). length body < 2 ^ 32"
  by unfold_locales (auto simp: CBS_get_any_asn1_Some_iff)

interpretation element: canonical_codec
  "der_element t" "\<lambda>s. CBS_get_asn1 s t" "\<lambda>body. length body < 2 ^ 32" for t
  by unfold_locales (simp_all add: CBS_get_asn1_Some_iff)

lemma CBS_peek_asn1_tag_iff: "CBS_peek_asn1_tag s t \<longleftrightarrow> (\<exists>r. s = der_tag t @ r)"
proof -
  have "CBS_peek_asn1_tag s t \<longleftrightarrow> s \<noteq> [] \<and> (\<exists>r. parse_asn1_tag s = (Some t, r))"
    by (cases s) (auto simp: CBS_peek_asn1_tag_def CBS_len_def split: prod.splits option.splits)
  then show ?thesis by (auto simp: parse_asn1_tag_Some_iff)
qed

lemma CBS_peek_der_element [simp]: "CBS_peek_asn1_tag (der_element t body @ r) t' \<longleftrightarrow> t = t'"
proof
  assume "CBS_peek_asn1_tag (der_element t body @ r) t'"
  then obtain x where "der_tag t @ der_len (length body) @ body @ r = der_tag t' @ x"
    by (auto simp: CBS_peek_asn1_tag_iff der_element_def der_header_def)
  then show "t = t'" using tag_codec.prefix_free by blast
qed (simp add: CBS_peek_asn1_tag_iff der_element_def der_header_def)

section \<open>The BER mode\<close>

text \<open>In the BER mode the element is still a prefix of the input, with a header of at least two
  bytes, so that a client that loops over elements makes progress.\<close>

lemma ber_element_prefix:
  assumes "cbs_get_any_asn1_element s ber_ok = (Some (out, t, hl, ber), r)"
  shows "s = out @ r" "2 \<le> hl" "hl \<le> length out"
proof -
  have "1 \<le> length (der_tag t)" by (simp add: Suc_le_eq)
  with assms show "s = out @ r" "2 \<le> hl" "hl \<le> length out"
    by (cases rule: any_element_cases; simp add: CBS_get_bytes_Some_iff)+
qed

lemma ber_element_not_ber:
  "cbs_get_any_asn1_element s ber_ok = (Some (out, t, hl, False), r) \<longleftrightarrow>
   (\<exists>body. length body < 2 ^ 32 \<and> out = der_element t body
    \<and> hl = length (der_header t (length body)) \<and> s = out @ r)"
  using cbs_get_any_asn1_element_Some [of s ber_ok out t hl r] cbs_get_any_asn1_element_der
  by auto

section \<open>Integers\<close>

text \<open>The content octets of an INTEGER: the shortest two's complement form.\<close>

function asn1_int :: "int \<Rightarrow> byte list" where
  "asn1_int i =
     (if -128 \<le> i \<and> i < 128 then [word_of_int i]
      else asn1_int (i div 256) @ [word_of_int i])"
  by auto
termination by (relation "measure (\<lambda>i. nat \<bar>i\<bar>)") auto

declare asn1_int.simps [simp del]

definition be_int :: "byte list \<Rightarrow> int" where
  "be_int bs =
     int (be_nat bs) - (if bs \<noteq> [] \<and> 128 \<le> unat (hd bs) then 256 ^ length bs else 0)"

lemma be_int_snoc: "bs \<noteq> [] \<Longrightarrow> be_int (bs @ [b]) = 256 * be_int bs + int (unat b)"
  by (simp add: be_int_def)

lemma be_int_single: "be_int [b] = (if unat b < 128 then int (unat b) else int (unat b) - 256)"
  by (simp add: be_int_def)

lemma asn1_int_nonempty [simp]: "asn1_int i \<noteq> []"
  by (subst asn1_int.simps) simp

lemma int_unat_byte: "int (unat (word_of_int i :: byte)) = i mod 256"
  by (simp add: uint_word_of_int)

lemma be_int_asn1_int [simp]: "be_int (asn1_int i) = i"
proof (induction i rule: asn1_int.induct)
  case (1 i)
  show ?case
  proof (cases "-128 \<le> i \<and> i < 128")
    case True
    define b :: byte where "b = word_of_int i"
    have b: "int (unat b) = i mod 256" unfolding b_def by (rule int_unat_byte)
    have "i mod 256 = (if 0 \<le> i then i else i + 256)"
    proof (cases "0 \<le> i")
      case False
      then have "(i + 256) mod 256 = i + 256" using True by (intro mod_pos_pos_trivial) simp_all
      with False show ?thesis by simp
    qed (use True in simp)
    define n where "n = unat b"
    have "i mod 256 = (if 0 \<le> i then i else i + 256)" by fact
    then have "(if n < 128 then int n else int n - 256) = i"
      using b [folded n_def] True by auto
    then have "be_int [b] = i" by (simp only: be_int_single n_def)
    with True show ?thesis by (simp add: asn1_int.simps b_def)
  next
    case False
    then have "be_int (asn1_int i) = be_int (asn1_int (i div 256) @ [word_of_int i])"
      by (subst asn1_int.simps) auto
    also have "\<dots> = 256 * (i div 256) + i mod 256"
      using 1 [OF False] by (simp only: be_int_snoc asn1_int_nonempty not_False_eq_True int_unat_byte)
    finally show ?thesis by simp
  qed
qed

text \<open>Minimal: not all of the first nine bits are the same.\<close>

fun minimal_int :: "byte list \<Rightarrow> bool" where
  "minimal_int [] = False"
| "minimal_int [a] = True"
| "minimal_int (a # b # bs) = (\<not> (a = 0 \<and> unat b < 128 \<or> a = 0xff \<and> 128 \<le> unat b))"

lemma CBS_is_valid_asn1_integer_eq:
  "CBS_is_valid_asn1_integer s = (minimal_int s, s \<noteq> [] \<and> 128 \<le> unat (hd s))"
  by (cases s rule: minimal_int.cases)
    (simp_all add: CBS_is_valid_asn1_integer_def byte_top_bit Let_def not_less)

lemma minimal_int_snoc: "bs \<noteq> [] \<Longrightarrow> minimal_int (bs @ [c]) \<Longrightarrow> minimal_int bs"
  by (cases bs rule: minimal_int.cases) simp_all

lemma minimal_asn1_int: "minimal_int (asn1_int i)"
proof (induction i rule: asn1_int.induct)
  case (1 i)
  show ?case
  proof (cases "-128 \<le> i \<and> i < 128")
    case True
    then show ?thesis by (simp add: asn1_int.simps)
  next
    case False
    define q where "q = i div 256"
    define c :: byte where "c = word_of_int i"
    have i: "asn1_int i = asn1_int q @ [c]"
      using False by (subst asn1_int.simps) (auto simp: q_def c_def)
    have IH: "minimal_int (asn1_int q)" using 1 [OF False] by (simp add: q_def)
    show ?thesis
    proof (cases "asn1_int q" rule: minimal_int.cases)
      case (2 a)
      have q: "be_int [a] = q" using be_int_asn1_int [of q] 2 by simp
      have i': "i = 256 * q + int (unat c)"
        unfolding q_def c_def int_unat_byte by simp
      have "\<not> (a = 0 \<and> unat c < 128 \<or> a = 0xff \<and> 128 \<le> unat c)"
      proof
        assume "a = 0 \<and> unat c < 128 \<or> a = 0xff \<and> 128 \<le> unat c"
        then show False
        proof
          assume a: "a = 0 \<and> unat c < 128"
          then have "q = 0" using q by (simp add: be_int_single)
          with i' have "i = int (unat c)" by linarith
          with a False show False by linarith
        next
          assume a: "a = 0xff \<and> 128 \<le> unat c"
          then have "q = -1" using q by (simp add: be_int_single)
          with a i' False unat_byte_less [of c] show False by linarith
        qed
      qed
      with 2 show ?thesis by (simp add: i)
    next
      case (3 a b bs)
      with IH show ?thesis by (simp add: i)
    qed simp
  qed
qed

lemma asn1_int_be_int [simp]: "minimal_int bs \<Longrightarrow> asn1_int (be_int bs) = bs"
proof (induction bs rule: rev_induct)
  case Nil
  then show ?case by simp
next
  case (snoc c bs)
  show ?case
  proof (cases "bs = []")
    case True
    have "word_of_int (be_int [c]) = c" "-128 \<le> be_int [c]" "be_int [c] < 128"
    proof -
      have "word_of_int (int (unat c) - 256) = c"
        by (simp only: of_int_diff of_int_of_nat_eq of_nat_unat ucast_id) simp
      then show "word_of_int (be_int [c]) = c" by (auto simp: be_int_single)
      define n where "n = unat c"
      have "n < 256" by (simp add: n_def)
      then show "-128 \<le> be_int [c]" "be_int [c] < 128"
        unfolding be_int_single n_def [symmetric] by auto
    qed
    then show ?thesis using True by (simp add: asn1_int.simps)
  next
    case False
    with snoc have IH: "asn1_int (be_int bs) = bs" using minimal_int_snoc by blast
    define i where "i = be_int (bs @ [c])"
    have i: "i = 256 * be_int bs + int (unat c)"
      unfolding i_def using False by (rule be_int_snoc)
    have c: "0 \<le> int (unat c)" "int (unat c) < 256"
      using unat_byte_less [of c] by linarith+
    have div: "i div 256 = be_int bs" using c by (simp add: i)
    have wc: "word_of_int i = c"
      by (rule word_unat_eq_iff [THEN iffD2], rule int_int_eq [THEN iffD1])
        (simp only: int_unat_byte i, use c in simp)
    have "\<not> (-128 \<le> i \<and> i < 128)"
    proof
      assume range: "-128 \<le> i \<and> i < 128"
      then have "be_int bs < 1" "-2 < be_int bs" using i c by linarith+
      then have "be_int bs = 0 \<or> be_int bs = -1" by linarith
      then have "bs = [0] \<or> bs = [0xff]"
      proof
        assume "be_int bs = 0"
        moreover have "asn1_int 0 = [0]" by (subst asn1_int.simps) simp
        ultimately show ?thesis using IH by simp
      next
        assume "be_int bs = -1"
        moreover have "asn1_int (-1) = [0xff]" by (subst asn1_int.simps) simp
        ultimately show ?thesis using IH by simp
      qed
      then show False
      proof
        assume "bs = [0]"
        moreover from this have "i = int (unat c)" using i by (simp add: be_int_single)
        then have "unat c < 128" using range by linarith
        ultimately show False using snoc.prems by simp
      next
        assume "bs = [0xff]"
        moreover from this have "i = int (unat c) - 256" using i by (simp add: be_int_single)
        then have "128 \<le> unat c" using range by linarith
        ultimately show False using snoc.prems by simp
      qed
    qed
    then have "asn1_int i = asn1_int (be_int bs) @ [c]"
      by (subst asn1_int.simps) (auto simp: div wc)
    with IH show ?thesis by (simp add: i_def)
  qed
qed

lemma minimal_int_iff: "minimal_int bs \<longleftrightarrow> asn1_int (be_int bs) = bs"
  using minimal_asn1_int [of "be_int bs"] by auto

lemma asn1_int_negative: "128 \<le> unat (hd (asn1_int i)) \<longleftrightarrow> i < 0"
proof -
  let ?bs = "asn1_int i"
  define n where "n = int (be_nat ?bs)"
  have "n < 256 ^ length ?bs" "0 \<le> n"
    using be_nat_less [of ?bs] by (simp_all add: n_def)
  moreover have "n - (if 128 \<le> unat (hd ?bs) then 256 ^ length ?bs else 0) = i"
    using be_int_asn1_int [of i] by (simp add: be_int_def n_def)
  ultimately show ?thesis by (auto split: if_splits)
qed

text \<open>How many octets an integer takes.\<close>

lemma length_asn1_int:
  "length (asn1_int i) \<le> Suc k \<longleftrightarrow> - (128 * 256 ^ k) \<le> i \<and> i < 128 * 256 ^ k"
proof (induction k arbitrary: i)
  case 0
  have "asn1_int (i div 256) \<noteq> []" by simp
  then show ?case by (subst asn1_int.simps) (auto simp: Suc_le_eq)
next
  case (Suc k)
  show ?case
  proof (cases "-128 \<le> i \<and> i < 128")
    case True
    have "(1 :: int) \<le> 256 ^ Suc k" by (rule one_le_power) simp
    with True show ?thesis by (subst asn1_int.simps) auto
  next
    case False
    then have "length (asn1_int i) = Suc (length (asn1_int (i div 256)))"
      by (subst asn1_int.simps) auto
    moreover have "- (128 * 256 ^ k) \<le> i div 256 \<and> i div 256 < 128 * 256 ^ k
        \<longleftrightarrow> - (128 * 256 ^ Suc k) \<le> i \<and> i < 128 * 256 ^ Suc k"
    proof -
      define m :: int where "m = 128 * 256 ^ k"
      define q c where "q = i div 256" and "c = i mod 256"
      have "i = 256 * q + c" "0 \<le> c" "c < 256" by (simp_all add: q_def c_def)
      then have "(- m \<le> q \<and> q < m) \<longleftrightarrow> (- (256 * m) \<le> i \<and> i < 256 * m)" by linarith
      then show ?thesis by (simp add: m_def q_def)
    qed
    ultimately show ?thesis using Suc.IH by simp
  qed
qed

lemma asn1_uint64_loop_eq:
  "asn1_uint64_loop v bs =
     (if unat v * 256 ^ length bs + be_nat bs < 2 ^ 64
      then Some (word_of_nat (unat v * 256 ^ length bs + be_nat bs)) else None)"
proof (induction bs arbitrary: v)
  case Nil
  then show ?case using unsigned_less [of v, where 'a = nat] by simp
next
  case (Cons b bs)
  have top: "drop_bit 56 v = 0 \<longleftrightarrow> unat v < 256 ^ 7" using drop_bytes_len64 [of 7 v] by simp
  define n where "n = unat v * 256 ^ length (b # bs) + be_nat (b # bs)"
  show ?case
  proof (cases "drop_bit 56 v = 0")
    case False
    then have "256 ^ 7 \<le> unat v" using top by simp
    moreover have "256 * 1 \<le> (256 :: nat) ^ length (b # bs)" by simp
    ultimately have "256 ^ 7 * (256 * 1) \<le> unat v * 256 ^ length (b # bs)" by (rule mult_le_mono)
    then have "\<not> n < 2 ^ 64" by (simp add: n_def)
    then show ?thesis using False by (simp add: n_def)
  next
    case True
    let ?w = "push_bit 8 v OR ucast b"
    have v: "unat v < 256 ^ 7" using True top by simp
    have "unat (push_bit 8 v) = take_bit 64 (unat v * 256)"
      by (simp add: unsigned_push_bit_eq) (simp add: push_bit_eq_mult)
    also have "\<dots> = unat v * 256" using v by (intro take_bit_nat_eq_self) simp
    finally have "unat ?w = unat v * 256 + unat b"
      by (simp add: unat_or_disjoint push_ucast_disjoint)
    then have "unat ?w * 256 ^ length bs + be_nat bs = n"
      by (simp add: n_def be_nat_Cons algebra_simps)
    then show ?thesis using True Cons.IH [of ?w] by (simp add: n_def)
  qed
qed

lemma CBS_is_unsigned_asn1_integer_iff:
  "CBS_is_unsigned_asn1_integer bs \<longleftrightarrow> bs = asn1_int (int (be_nat bs))"
proof
  assume "CBS_is_unsigned_asn1_integer bs"
  then have "minimal_int bs" "\<not> 128 \<le> unat (hd bs)"
    by (auto simp: CBS_is_unsigned_asn1_integer_def CBS_is_valid_asn1_integer_eq)
  moreover then have "be_int bs = int (be_nat bs)" by (simp add: be_int_def)
  ultimately show "bs = asn1_int (int (be_nat bs))" using asn1_int_be_int [of bs] by simp
next
  assume bs: "bs = asn1_int (int (be_nat bs))"
  moreover have "minimal_int bs" using bs minimal_asn1_int by metis
  moreover have "\<not> 128 \<le> unat (hd bs)"
    using bs asn1_int_negative [of "int (be_nat bs)"] by (metis not_less of_nat_0_le_iff)
  ultimately show "CBS_is_unsigned_asn1_integer bs"
    by (simp add: CBS_is_unsigned_asn1_integer_def CBS_is_valid_asn1_integer_eq)
qed

lemma be_nat_asn1_int: "0 \<le> i \<Longrightarrow> int (be_nat (asn1_int i)) = i"
  using be_int_asn1_int [of i] asn1_int_negative [of i] by (simp add: be_int_def split: if_splits)

lemma length_asn1_int_u64: "length (asn1_int (int (unat (w :: u64)))) \<le> Suc 8"
proof -
  define i where "i = int (unat w)"
  have "unat w < 2 ^ 64" using unsigned_less [of w, where 'a = nat] by simp
  then have "i < 2 ^ 64" "0 \<le> i" by (simp_all only: i_def of_nat_less_numeral_power_cancel_iff of_nat_0_le_iff)
  then show ?thesis unfolding i_def [symmetric] length_asn1_int by simp
qed

lemma CBS_get_asn1_uint64_Some_iff:
  "CBS_get_asn1_uint64 s = (Some w, r) \<longleftrightarrow>
    s = der_element CBS_ASN1_INTEGER (asn1_int (int (unat w))) @ r"
proof
  assume "CBS_get_asn1_uint64 s = (Some w, r)"
  then obtain bs where "CBS_get_asn1 s CBS_ASN1_INTEGER = (Some bs, r)"
    and "CBS_is_unsigned_asn1_integer bs" and loop: "asn1_uint64_loop 0 bs = Some w"
    by (auto simp: CBS_get_asn1_uint64_def split: prod.splits option.splits if_splits)
  moreover from loop have "unat w = be_nat bs"
    by (auto simp: asn1_uint64_loop_eq unsigned_of_nat take_bit_nat_eq_self split: if_splits)
  ultimately show "s = der_element CBS_ASN1_INTEGER (asn1_int (int (unat w))) @ r"
    unfolding CBS_get_asn1_Some_iff CBS_is_unsigned_asn1_integer_iff by metis
next
  define bs where "bs = asn1_int (int (unat w))"
  assume s: "s = der_element CBS_ASN1_INTEGER (asn1_int (int (unat w))) @ r"
  have w: "unat w < 2 ^ 64" using unsigned_less [of w, where 'a = nat] by simp
  have nat: "be_nat bs = unat w" 
    using be_nat_asn1_int [of "int (unat w)", folded bs_def] by linarith
  then have "CBS_is_unsigned_asn1_integer bs" by (simp add: CBS_is_unsigned_asn1_integer_iff bs_def)
  moreover have "asn1_uint64_loop 0 bs = Some w" using w by (simp add: asn1_uint64_loop_eq nat)
  moreover have "length bs \<le> Suc 8"
    unfolding bs_def by (rule length_asn1_int_u64)
  then have "CBS_get_asn1 s CBS_ASN1_INTEGER = (Some bs, r)"
    by (simp add: CBS_get_asn1_Some_iff s bs_def)
  ultimately show "CBS_get_asn1_uint64 s = (Some w, r)"
    by (simp add: CBS_get_asn1_uint64_def)
qed

text \<open>The sign extension of \<open>CBS_get_asn1_int64\<close>.\<close>

lemma be_nat_replicate_0: "be_nat (replicate k 0 @ bs) = be_nat bs"
  by (induction k) (simp_all add: be_nat_Cons)

lemma be_nat_replicate_ff:
  "int (be_nat (replicate k 0xff @ bs)) = int (be_nat bs) + 256 ^ (k + length bs) - 256 ^ length bs"
proof (induction k)
  case 0
  then show ?case by simp
next
  case (Suc k)
  have "be_nat (replicate (Suc k) 0xff @ bs)
      = 255 * 256 ^ (k + length bs) + be_nat (replicate k 0xff @ bs)"
    by (simp add: be_nat_Cons)
  with Suc show ?case by simp
qed

lemma sign_extended:
  assumes "length bs \<le> 8"
  shows "be_word (replicate (8 - length bs) (if bs \<noteq> [] \<and> 128 \<le> unat (hd bs) then 0xff else 0) @ bs)
    = word_of_int (be_int bs)"
proof -
  define neg where "neg = (bs \<noteq> [] \<and> 128 \<le> unat (hd bs))"
  define u :: "byte list" where "u = replicate (8 - length bs) (if neg then 0xff else 0) @ bs"
  have "length u = 8" using assms by (simp add: u_def)
  have "int (be_nat u) = be_int bs + (if neg then 256 ^ 8 else 0)"
  proof (cases neg)
    case True
    then show ?thesis using be_nat_replicate_ff [of "8 - length bs" bs] assms
      by (simp add: u_def be_int_def flip: neg_def)
  next
    case False
    then show ?thesis
      by (simp add: u_def be_int_def be_nat_replicate_0 flip: neg_def)
  qed
  moreover have "word_of_int (x + 256 ^ 8) = (word_of_int x :: u64)" for x
    by (rule word_of_int_eq_iff [THEN iffD2]) (simp add: take_bit_eq_mod)
  ultimately have "(word_of_int (int (be_nat u)) :: u64) = word_of_int (be_int bs)" by auto
  moreover have "be_word u = word_of_nat (be_nat u)"
    using unat_be_word [of u] \<open>length u = 8\<close> by (metis of_nat_unat ucast_id order_refl)
  ultimately show ?thesis by (simp add: u_def neg_def)
qed

lemma sint_word_of_int64:
  assumes "- (2 ^ 63) \<le> i" "i < 2 ^ 63"
  shows "sint (word_of_int i :: u64) = i"
  using assms by (simp add: sint_sbintrunc' signed_take_bit_int_eq_self)

lemma CBS_get_asn1_int64_Some_iff:
  "CBS_get_asn1_int64 s = (Some w, r) \<longleftrightarrow>
    s = der_element CBS_ASN1_INTEGER (asn1_int (sint w)) @ r"
proof
  assume "CBS_get_asn1_int64 s = (Some w, r)"
  then obtain bs where get: "CBS_get_asn1 s CBS_ASN1_INTEGER = (Some bs, r)"
    and "minimal_int bs" and len: "length bs \<le> 8"
    and w: "w = be_word (replicate (8 - length bs) (if bs \<noteq> [] \<and> 128 \<le> unat (hd bs) then 0xff else 0) @ bs)"
    by (auto simp: CBS_get_asn1_int64_def CBS_is_valid_asn1_integer_eq CBS_len_def Let_def
        split: prod.splits option.splits if_splits bool.splits)
  then have bs: "asn1_int (be_int bs) = bs" by simp
  then have "- (128 * 256 ^ 7) \<le> be_int bs \<and> be_int bs < 128 * 256 ^ 7"
    using length_asn1_int [of "be_int bs" 7] len by simp
  then have "sint w = be_int bs"
    unfolding w sign_extended [OF len] by (intro sint_word_of_int64) simp_all
  with get bs show "s = der_element CBS_ASN1_INTEGER (asn1_int (sint w)) @ r"
    by (simp add: CBS_get_asn1_Some_iff)
next
  define bs where "bs = asn1_int (sint w)"
  assume s: "s = der_element CBS_ASN1_INTEGER (asn1_int (sint w)) @ r"
  have "- (2 ^ 63) \<le> sint w" "sint w < 2 ^ 63"
    using sint_greater_eq [of w] sint_less [of w] by simp_all
  then have len: "length bs \<le> Suc 7" unfolding bs_def length_asn1_int by simp
  then have get: "CBS_get_asn1 s CBS_ASN1_INTEGER = (Some bs, r)"
    by (simp add: CBS_get_asn1_Some_iff s bs_def)
  have min: "minimal_int bs" by (simp add: bs_def minimal_asn1_int)
  have "be_word (replicate (8 - length bs) (if bs \<noteq> [] \<and> 128 \<le> unat (hd bs) then 0xff else 0) @ bs) = w"
    using sign_extended [of bs] len by (simp add: bs_def)
  with get min len show "CBS_get_asn1_int64 s = (Some w, r)"
    by (auto simp: CBS_get_asn1_int64_def CBS_is_valid_asn1_integer_eq CBS_len_def Let_def)
qed

interpretation asn1_uint64: canonical_codec
  "\<lambda>w :: u64. der_element CBS_ASN1_INTEGER (asn1_int (int (unat w)))" CBS_get_asn1_uint64 "\<lambda>_. True"
  by unfold_locales (use CBS_get_asn1_uint64_Some_iff in blast)+

interpretation asn1_int64: canonical_codec
  "\<lambda>w :: u64. der_element CBS_ASN1_INTEGER (asn1_int (sint w))" CBS_get_asn1_int64 "\<lambda>_. True"
  by unfold_locales (use CBS_get_asn1_int64_Some_iff in blast)+

section \<open>Booleans and optional fields\<close>

lemma CBS_get_asn1_bool_Some_iff:
  "CBS_get_asn1_bool s = (Some v, r) \<longleftrightarrow>
    s = der_element CBS_ASN1_BOOLEAN [if v then 0xff else 0] @ r"
proof
  assume "CBS_get_asn1_bool s = (Some v, r)"
  then obtain bs where "CBS_get_asn1 s CBS_ASN1_BOOLEAN = (Some bs, r)" "length bs = 1"
    "bs ! 0 = (if v then 0xff else 0)"
    by (auto simp: CBS_get_asn1_bool_def CBS_len_def Let_def split: prod.splits option.splits if_splits)
  moreover then have "bs = [if v then 0xff else 0]" by (cases bs) auto
  ultimately show "s = der_element CBS_ASN1_BOOLEAN [if v then 0xff else 0] @ r"
    by (simp add: CBS_get_asn1_Some_iff)
next
  assume "s = der_element CBS_ASN1_BOOLEAN [if v then 0xff else 0] @ r"
  then have "CBS_get_asn1 s CBS_ASN1_BOOLEAN = (Some [if v then 0xff else 0], r)"
    by (simp add: CBS_get_asn1_Some_iff)
  then show "CBS_get_asn1_bool s = (Some v, r)"
    by (simp add: CBS_get_asn1_bool_def CBS_len_def Let_def)
qed

interpretation asn1_bool: canonical_codec
  "\<lambda>v. der_element CBS_ASN1_BOOLEAN [if v then 0xff else 0]" CBS_get_asn1_bool "\<lambda>_. True"
  by unfold_locales (simp_all add: CBS_get_asn1_bool_Some_iff)

text \<open>An optional element is either the wrapped element or nothing, and nothing is recognised by the
  next element's tag being a different one.\<close>

lemma CBS_get_optional_asn1_present:
  "length body < 2 ^ 32 \<Longrightarrow>
    CBS_get_optional_asn1 (der_element t body @ r) t = (Some (Some body), r)"
  by (simp add: CBS_get_optional_asn1_def CBS_get_asn1_Some_iff [THEN iffD2])

lemma CBS_get_optional_asn1_absent:
  "\<not> CBS_peek_asn1_tag s t \<Longrightarrow> CBS_get_optional_asn1 s t = (Some None, s)"
  by (simp add: CBS_get_optional_asn1_def)

lemma CBS_get_optional_asn1_Some_iff:
  "CBS_get_optional_asn1 s t = (Some x, r) \<longleftrightarrow>
    (case x of None \<Rightarrow> \<not> CBS_peek_asn1_tag s t \<and> r = s
     | Some body \<Rightarrow> length body < 2 ^ 32 \<and> s = der_element t body @ r)"
proof (cases "CBS_peek_asn1_tag s t")
  case True
  then have "CBS_get_optional_asn1 s t = (Some x, r) \<longleftrightarrow>
      (\<exists>body. x = Some body \<and> CBS_get_asn1 s t = (Some body, r))"
    by (auto simp: CBS_get_optional_asn1_def split: prod.splits option.splits)
  with True show ?thesis by (cases x) (simp_all add: CBS_get_asn1_Some_iff)
next
  case False
  moreover have "s \<noteq> der_element t body @ r" for body using False by auto
  ultimately show ?thesis by (cases x) (auto simp: CBS_get_optional_asn1_def)
qed

lemma CBS_get_optional_asn1_uint64_Some_iff:
  "CBS_get_optional_asn1_uint64 s t d = (Some w, r) \<longleftrightarrow>
    (if CBS_peek_asn1_tag s t
     then s = der_element t (der_element CBS_ASN1_INTEGER (asn1_int (int (unat w)))) @ r
     else w = d \<and> r = s)"
proof (cases "CBS_peek_asn1_tag s t")
  case True
  define e where "e = der_element CBS_ASN1_INTEGER (asn1_int (int (unat w)))"
  have "length e < 2 ^ 32"
  proof -
    have "length (asn1_int (int (unat w))) \<le> Suc 8" by (rule length_asn1_int_u64)
    moreover have "length (der_tag CBS_ASN1_INTEGER) \<le> 6" by (rule length_der_tag)
    ultimately show ?thesis by (simp add: e_def der_element_def der_header_def der_len_def)
  qed
  show ?thesis
  proof
    assume "CBS_get_optional_asn1_uint64 s t d = (Some w, r)"
    with True obtain child where "CBS_get_asn1 s t = (Some child, r)"
      and "CBS_get_asn1_uint64 child = (Some w, [])"
      by (auto simp: CBS_get_optional_asn1_uint64_def CBS_get_optional_asn1_def CBS_len_def
          split: prod.splits option.splits if_splits)
    with True show "if CBS_peek_asn1_tag s t
     then s = der_element t (der_element CBS_ASN1_INTEGER (asn1_int (int (unat w)))) @ r
     else w = d \<and> r = s"
      by (simp add: CBS_get_asn1_Some_iff CBS_get_asn1_uint64_Some_iff)
  next
    assume "if CBS_peek_asn1_tag s t
     then s = der_element t (der_element CBS_ASN1_INTEGER (asn1_int (int (unat w)))) @ r
     else w = d \<and> r = s"
    with True have "s = der_element t e @ r" by (simp add: e_def)
    with \<open>length e < 2 ^ 32\<close> have "CBS_get_asn1 s t = (Some e, r)"
      by (simp add: CBS_get_asn1_Some_iff)
    moreover have "CBS_get_asn1_uint64 e = (Some w, [])"
      by (simp only: CBS_get_asn1_uint64_Some_iff e_def append_Nil2)
    ultimately show "CBS_get_optional_asn1_uint64 s t d = (Some w, r)"
      using True by (simp add: CBS_get_optional_asn1_uint64_def CBS_get_optional_asn1_def CBS_len_def)
  qed
next
  case False
  then show ?thesis
    by (auto simp: CBS_get_optional_asn1_uint64_def CBS_get_optional_asn1_def)
qed

section \<open>Bit strings\<close>

text \<open>A bit string of \<open>n\<close> bits, as the bits that \<open>CBS_asn1_bitstring_has_bit\<close> addresses: bit \<open>i\<close> is
  bit \<open>7 - i mod 8\<close> of content byte \<open>i div 8\<close>.\<close>

lemma CBS_is_valid_asn1_bitstring_Cons:
  "CBS_is_valid_asn1_bitstring (u # bits) \<longleftrightarrow>
     u = 0 \<or> unat u \<le> 7 \<and> bits \<noteq> [] \<and> (\<forall>k < unat u. \<not> bit (last bits) k)"
proof -
  have "last_byte AND (push_bit n 1 - 1) = 0 \<longleftrightarrow> (\<forall>k < n. \<not> bit last_byte k)" for last_byte :: byte and n
  proof -
    have "push_bit n 1 - 1 = (mask n :: byte)"
      by (simp add: mask_eq_exp_minus_1 push_bit_eq_mult)
    then have "last_byte AND (push_bit n 1 - 1) = take_bit n last_byte"
      by (simp only: take_bit_eq_mask)
    moreover have "take_bit n last_byte = 0 \<longleftrightarrow> (\<forall>k < n. \<not> bit last_byte k)"
    proof
      assume "take_bit n last_byte = 0"
      then show "\<forall>k < n. \<not> bit last_byte k" by (metis bit_0_eq bit_take_bit_iff bot_apply bot_bool_def)
    qed (auto simp: bit_eq_iff bit_take_bit_iff)
    ultimately show ?thesis by simp
  qed
  moreover have "bits \<noteq> [] \<Longrightarrow> bits ! (length bits - 1) = last bits" by (simp add: last_conv_nth)
  ultimately show ?thesis
    by (auto simp: CBS_is_valid_asn1_bitstring_def CBS_get_last_u8_def CBS_len_def not_less
        word_less_nat_alt word_le_nat_alt unsigned_eq_0_iff)
qed

lemma CBS_asn1_bitstring_has_bit_iff:
  "CBS_asn1_bitstring_has_bit (u # bits) i \<longleftrightarrow>
     CBS_is_valid_asn1_bitstring (u # bits) \<and> i div 8 < length bits \<and> bit (bits ! (i div 8)) (7 - i mod 8)"
proof -
  have "push_bit n 1 = (2 ^ n :: byte)" for n by (simp add: push_bit_eq_mult)
  then show ?thesis
    by (simp add: CBS_asn1_bitstring_has_bit_def CBS_len_def Let_def and_exp_eq_0_iff_not_bit)
qed

text \<open>No unused bit is ever reported as set.\<close>

lemma CBS_asn1_bitstring_has_bit_used:
  assumes "CBS_asn1_bitstring_has_bit (u # bits) i"
  shows "i < 8 * length bits - unat u"
proof (rule ccontr)
  assume "\<not> i < 8 * length bits - unat u"
  with assms have valid: "CBS_is_valid_asn1_bitstring (u # bits)"
    and i: "i div 8 < length bits" "8 * length bits - unat u \<le> i" "bit (bits ! (i div 8)) (7 - i mod 8)"
    by (simp_all add: CBS_asn1_bitstring_has_bit_iff)
  have "u \<noteq> 0" using i by auto
  with valid have u: "unat u \<le> 7" "bits \<noteq> []" "\<forall>k < unat u. \<not> bit (last bits) k"
    by (simp_all add: CBS_is_valid_asn1_bitstring_Cons)
  define q m where "q = i div 8" and "m = i mod 8"
  have im: "i = 8 * q + m" "m < 8" by (simp_all add: q_def m_def)
  with i(1,2) u(1) have "q = length bits - 1" unfolding q_def [symmetric] by linarith
  then have "bits ! q = last bits" using u(2) by (simp add: last_conv_nth)
  moreover have "7 - m < unat u" using im i(1,2) u(1) \<open>q = length bits - 1\<close>
    unfolding q_def [symmetric] by linarith
  ultimately show False using u(3) i(3) by (simp add: q_def m_def)
qed

section \<open>Properties\<close>

text \<open>\<open>parse_base128_integer\<close> accepts exactly the minimal base-128 encodings of the 64-bit
  numbers: no leading zero digit, no overflow.\<close>

theorem base128_exact:
  "parse_base128_integer s = (Some w, r) \<longleftrightarrow> s = base128 (unat w) @ r"
  by (rule base128_codec.accepts_iff [simplified])

text \<open>C2. The ASN.1 readers accept exactly DER: \<open>CBS_get_asn1\<close> returns a body if and only if the
  input starts with the DER element of that tag and body (shortest identifier, shortest length), for
  every body shorter than \<open>2 ^ 32\<close>; \<open>CBS_get_any_asn1\<close> likewise for any tag.\<close>

theorem cbs_asn1_accepts_exactly_der:
  "(CBS_get_asn1 s t = (Some body, r) \<longleftrightarrow> length body < 2 ^ 32 \<and> s = der_element t body @ r)
   \<and> (CBS_get_any_asn1 s = (Some (body, t), r) \<longleftrightarrow>
       length body < 2 ^ 32 \<and> s = der_element t body @ r)"
  using element.accepts_iff [of s t body r] any_element.accepts_iff [of s "(body, t)" r] by simp

text \<open>The BER mode differs from the DER mode only where it says so: with \<open>ber_found\<close> clear it
  returns an element if and only if that element is DER, and then the header length is that of the
  DER header.\<close>

theorem ber_found_clear_iff_der:
  "CBS_get_any_ber_asn1_element s = (Some (out, t, hl, False), r) \<longleftrightarrow>
   (\<exists>body. length body < 2 ^ 32 \<and> out = der_element t body
     \<and> hl = length (der_header t (length body)) \<and> s = out @ r)"
  unfolding CBS_get_any_ber_asn1_element_def by (rule ber_element_not_ber)

text \<open>An element is a prefix of the input with a header of at least two bytes, in both modes: a
  loop over elements makes progress and never reads outside its input.\<close>

theorem any_element_in_bounds:
  assumes "cbs_get_any_asn1_element s ber_ok = (Some (out, t, hl, ber), r)"
  shows "s = out @ r \<and> 2 \<le> hl \<and> hl \<le> length out"
  using ber_element_prefix [OF assms] by simp

theorem any_element_in_bounds_witness:
  "[0x30, 0x81, 0x01, 7, 9] = [0x30, 0x81, 0x01, 7] @ [9 :: byte] \<and> 2 \<le> (3 :: nat)
    \<and> 3 \<le> length [0x30, 0x81, 0x01, 7 :: byte]"
  by (rule any_element_in_bounds [where ber_ok = True and t = CBS_ASN1_SEQUENCE and ber = True])
    code_simp

text \<open>C10. \<open>CBS_is_valid_asn1_integer\<close> recognises exactly the minimal two's complement encodings,
  and reports the sign of the number they encode.\<close>

theorem valid_asn1_integer_exact:
  "CBS_is_valid_asn1_integer bs = (bs = asn1_int (be_int bs), bs \<noteq> [] \<and> 128 \<le> unat (hd bs))
   \<and> (bs = asn1_int i \<longrightarrow> CBS_is_valid_asn1_integer bs = (True, i < 0))"
proof
  show "CBS_is_valid_asn1_integer bs = (bs = asn1_int (be_int bs), bs \<noteq> [] \<and> 128 \<le> unat (hd bs))"
    by (auto simp: CBS_is_valid_asn1_integer_eq minimal_int_iff)
  show "bs = asn1_int i \<longrightarrow> CBS_is_valid_asn1_integer bs = (True, i < 0)"
    by (simp add: CBS_is_valid_asn1_integer_eq minimal_asn1_int asn1_int_negative)
qed

theorem valid_asn1_integer_exact_witness:
  "CBS_is_valid_asn1_integer [0xff, 0x7f] = (True, True)"
proof -
  have "[0xff, 0x7f] = asn1_int (-129)"
    by (subst asn1_int.simps, simp, subst asn1_int.simps, simp)
  then show ?thesis
    using valid_asn1_integer_exact [of "[0xff, 0x7f]" "-129", THEN conjunct2] by simp
qed

text \<open>\<open>CBS_get_asn1_uint64\<close> and \<open>CBS_get_asn1_int64\<close> accept exactly the DER INTEGERs of the
  64-bit numbers, unsigned and signed.\<close>

theorem asn1_integers_exact:
  "(CBS_get_asn1_uint64 s = (Some w, r) \<longleftrightarrow>
      s = der_element CBS_ASN1_INTEGER (asn1_int (int (unat w))) @ r)
   \<and> (CBS_get_asn1_int64 s = (Some w, r) \<longleftrightarrow>
      s = der_element CBS_ASN1_INTEGER (asn1_int (sint w)) @ r)"
  using asn1_uint64.accepts_iff [of s w r] asn1_int64.accepts_iff [of s w r]
  by (simp only: simp_thms)

text \<open>\<open>CBS_asn1_bitstring_has_bit\<close> never reports an unused bit, whatever the bit string.\<close>

theorem bitstring_has_bit_in_range:
  assumes "CBS_asn1_bitstring_has_bit (u # bits) i"
  shows "i < 8 * length bits - unat u"
  using assms by (rule CBS_asn1_bitstring_has_bit_used)

theorem bitstring_has_bit_in_range_witness:
  "(4 :: nat) < 8 * length [0x08 :: byte] - unat (3 :: byte)"
  by (rule bitstring_has_bit_in_range [of _ "[0x08]" 4]) code_simp

text \<open>An optional element: present exactly when the tag matches, absent without consuming
  anything, and refused when the tag matches and the element is not the DER INTEGER in its wrapper.\<close>

theorem optional_uint64_exact:
  "CBS_get_optional_asn1_uint64 s t d = (Some w, r) \<longleftrightarrow>
    (if CBS_peek_asn1_tag s t
     then s = der_element t (der_element CBS_ASN1_INTEGER (asn1_int (int (unat w)))) @ r
     else w = d \<and> r = s)"
  by (rule CBS_get_optional_asn1_uint64_Some_iff)

end
