(* ===== verification/Cbb.thy ===== *)
theory Cbb
  imports Cbs_Asn1
begin

text \<open>
  The byte-string builder of BoringSSL, \<^verbatim>\<open>crypto/bytestring/cbb.c\<close>, up to the typed ASN.1 writers.

  A top-level \<open>CBB\<close> and the children with a pending length prefix that hang off it form a chain (a
  \<open>CBB\<close> has at most one child), all of them writing to one buffer.  The model keeps the chain as
  one state: the buffer (\<open>None\<close> is a \<open>base\<close> pointer of \<open>NULL\<close>) and the list of the open children from
  the top down.  A \<open>CBB *\<close> argument is the depth of that \<open>CBB\<close> in the chain; 0 is the top level, and
  a depth behind the end of the chain is a child that a flush has closed, whose \<open>base\<close> the code has
  set to \<open>NULL\<close>.  Every operation returns the C return value and the new state.  The buffer is the
  whole block, \<open>b_cap\<close> bytes, of which the first \<open>b_len\<close> are valid.
\<close>

record cbb_buffer_st =
  b_buf :: "byte list"
  b_len :: nat
  b_cap :: nat
  b_can_resize :: bool
  b_error :: bool

record CBB =
  c_offset :: nat
  c_pending_len_len :: nat
  c_pending_is_asn1 :: bool

record cbb_st =
  cbb_base :: "cbb_buffer_st option"
  cbb_children :: "CBB list"

section \<open>Blocks\<close>

definition mem_write :: "byte list \<Rightarrow> nat \<Rightarrow> byte list \<Rightarrow> byte list" where
  "mem_write buf i bs = take i buf @ bs @ drop (i + length bs) buf"

definition mem_read :: "byte list \<Rightarrow> nat \<Rightarrow> nat \<Rightarrow> byte list" where
  "mem_read buf i n = take n (drop i buf)"

section \<open>The buffer\<close>

definition CBB_zero :: cbb_st where
  "CBB_zero = \<lparr>cbb_base = None, cbb_children = []\<rparr>"

text \<open>32 bytes: the size of a \<open>struct cbb_buffer_st\<close>.\<close>

definition cbb_init :: "allocator \<Rightarrow> byte list \<Rightarrow> nat \<Rightarrow> cbb_st option" where
  "cbb_init al buf cap =
     (case OPENSSL_malloc al 32 of
        None \<Rightarrow> None
      | Some _ \<Rightarrow>
          Some \<lparr>cbb_base = Some \<lparr>b_buf = buf, b_len = 0, b_cap = cap, b_can_resize = True, b_error = False\<rparr>,
                cbb_children = []\<rparr>)"

definition CBB_init :: "allocator \<Rightarrow> nat \<Rightarrow> cbb_st option" where
  "CBB_init al initial_capacity =
     (case OPENSSL_malloc al initial_capacity of
        None \<Rightarrow> if initial_capacity > 0 then None else cbb_init al [] initial_capacity
      | Some buf \<Rightarrow> cbb_init al buf initial_capacity)"

definition CBB_init_fixed :: "allocator \<Rightarrow> byte list \<Rightarrow> nat \<Rightarrow> cbb_st option" where
  "CBB_init_fixed al buf n =
     (case cbb_init al buf n of
        None \<Rightarrow> None
      | Some cbb \<Rightarrow>
          Some (cbb\<lparr>cbb_base := map_option (\<lambda>b. b\<lparr>b_can_resize := False\<rparr>) (cbb_base cbb)\<rparr>))"

definition CBB_cleanup :: "cbb_st \<Rightarrow> cbb_st" where
  "CBB_cleanup cbb = cbb\<lparr>cbb_base := None\<rparr>"

text \<open>The position of the reserved space in the block stands for the \<open>out\<close> pointer.\<close>

definition cbb_buffer_reserve ::
  "allocator \<Rightarrow> cbb_buffer_st \<Rightarrow> nat \<Rightarrow> nat option \<times> cbb_buffer_st" where
  "cbb_buffer_reserve al base n =
     (let newlen = (b_len base + n) mod size_mod in
      if newlen < b_len base then (None, base\<lparr>b_error := True\<rparr>)
      else if newlen > b_cap base
      then if \<not> b_can_resize base then (None, base\<lparr>b_error := True\<rparr>)
           else (let newcap = (b_cap base * 2) mod size_mod;
                     newcap = (if newcap < b_cap base \<or> newcap < newlen then newlen else newcap)
                 in case OPENSSL_realloc al (Some (b_buf base)) newcap of
                      None \<Rightarrow> (None, base\<lparr>b_error := True\<rparr>)
                    | Some newbuf \<Rightarrow> (Some (b_len base), base\<lparr>b_buf := newbuf, b_cap := newcap\<rparr>))
      else (Some (b_len base), base))"

definition cbb_buffer_add ::
  "allocator \<Rightarrow> cbb_buffer_st \<Rightarrow> nat \<Rightarrow> nat option \<times> cbb_buffer_st" where
  "cbb_buffer_add al base n =
     (case cbb_buffer_reserve al base n of
        (None, base) \<Rightarrow> (None, base)
      | (Some out, base) \<Rightarrow> (Some out, base\<lparr>b_len := b_len base + n\<rparr>))"

text \<open>The loop that writes \<open>n\<close> bytes from the last to the first; the rest of the value is returned.\<close>

fun write_be :: "byte list \<Rightarrow> nat \<Rightarrow> nat \<Rightarrow> nat \<Rightarrow> byte list \<times> nat" where
  "write_be buf pos 0 v = (buf, v)"
| "write_be buf pos (Suc i) v = write_be (buf[pos + i := word_of_nat v]) pos i (v div 256)"

definition cbb_buffer_add_u ::
  "allocator \<Rightarrow> cbb_buffer_st \<Rightarrow> u64 \<Rightarrow> nat \<Rightarrow> bool \<times> cbb_buffer_st" where
  "cbb_buffer_add_u al base v len_len =
     (if len_len = 0 then (True, base)
      else case cbb_buffer_add al base len_len of
        (None, base) \<Rightarrow> (False, base)
      | (Some pos, base) \<Rightarrow>
          (case write_be (b_buf base) pos len_len (unat v) of
             (buf, v) \<Rightarrow>
               if v \<noteq> 0 then (False, base\<lparr>b_buf := buf, b_error := True\<rparr>)
               else (True, base\<lparr>b_buf := buf\<rparr>)))"

section \<open>Flushing\<close>

text \<open>
  \<open>CBB_flush\<close> on a \<open>CBB\<close> whose children, from the top down, are the list.  The recursion follows
  the chain: the child's own children are flushed first, then its length prefix is written
  (\<open>asn1_len_len\<close> is the case distinction on the length of an ASN.1 element).
\<close>

definition asn1_len_len :: "nat \<Rightarrow> nat" where
  "asn1_len_len n =
     (if n > 0xffffff then 5 else if n > 0xffff then 4 else if n > 0xff then 3
      else if n > 0x7f then 2 else 1)"

fun cbb_flush_children ::
  "allocator \<Rightarrow> cbb_buffer_st \<Rightarrow> CBB list \<Rightarrow> bool \<times> cbb_buffer_st \<times> CBB list" where
  "cbb_flush_children al base [] = (\<not> b_error base, base, [])"
| "cbb_flush_children al base (child # grandchildren) =
     (if b_error base then (False, base, child # grandchildren)
      else if c_pending_len_len child = 0 then (True, base, child # grandchildren)
      else
     (let child_start = (c_offset child + c_pending_len_len child) mod size_mod in
      case cbb_flush_children al base grandchildren of
        (False, base, rest) \<Rightarrow> (False, base\<lparr>b_error := True\<rparr>, child # rest)
      | (True, base, rest) \<Rightarrow>
      if child_start < c_offset child \<or> b_len base < child_start
      then (False, base\<lparr>b_error := True\<rparr>, child # rest)
      else
     (let n = b_len base - child_start in
      if c_pending_is_asn1 child
      then if n > 0xfffffffe then (False, base\<lparr>b_error := True\<rparr>, child # rest)
           else
          (let len_len = asn1_len_len n;
               initial_length_byte = (if len_len = 1 then word_of_nat n
                                      else word_of_nat (0x80 + (len_len - 1)));
               extra_bytes = len_len - 1;
               moved = (if len_len = 1 then (Some 0, base) else cbb_buffer_add al base extra_bytes)
           in case moved of
                (None, base) \<Rightarrow> (False, base\<lparr>b_error := True\<rparr>, child # rest)
              | (Some _, base) \<Rightarrow>
               (let buf = (if len_len = 1 then b_buf base
                           else mem_write (b_buf base) (child_start + extra_bytes)
                                  (mem_read (b_buf base) child_start n));
                    n = (if len_len = 1 then 0 else n);
                    buf = buf[c_offset child := initial_length_byte]
                in case write_be buf (c_offset child + 1) (len_len - 1) n of
                     (buf, n) \<Rightarrow>
                       if n \<noteq> 0
                       then (False, base\<lparr>b_buf := buf, b_error := True\<rparr>,
                             child\<lparr>c_offset := c_offset child + 1, c_pending_len_len := len_len - 1\<rparr> # rest)
                       else (True, base\<lparr>b_buf := buf\<rparr>, [])))
      else case write_be (b_buf base) (c_offset child) (c_pending_len_len child) n of
             (buf, n) \<Rightarrow>
               if n \<noteq> 0 then (False, base\<lparr>b_buf := buf, b_error := True\<rparr>, child # rest)
               else (True, base\<lparr>b_buf := buf\<rparr>, []))))"

definition CBB_flush :: "allocator \<Rightarrow> nat \<Rightarrow> cbb_st \<Rightarrow> bool \<times> cbb_st" where
  "CBB_flush al d cbb =
     (case cbb_base cbb of
        None \<Rightarrow> (False, cbb)
      | Some base \<Rightarrow>
          if d > length (cbb_children cbb) then (False, cbb)
          else (case cbb_flush_children al base (drop d (cbb_children cbb)) of
                  (ok, base, rest) \<Rightarrow>
                    (ok, cbb\<lparr>cbb_base := Some base, cbb_children := take d (cbb_children cbb) @ rest\<rparr>)))"

text \<open>Flush, then an operation on the buffer.\<close>

definition flush_then ::
  "allocator \<Rightarrow> nat \<Rightarrow> (cbb_buffer_st \<Rightarrow> 'a option \<times> cbb_buffer_st) \<Rightarrow> cbb_st \<Rightarrow> 'a option \<times> cbb_st" where
  "flush_then al d f cbb =
     (case CBB_flush al d cbb of
        (False, cbb) \<Rightarrow> (None, cbb)
      | (True, cbb) \<Rightarrow>
          (case cbb_base cbb of
             None \<Rightarrow> (None, cbb)
           | Some base \<Rightarrow> (case f base of (r, base) \<Rightarrow> (r, cbb\<lparr>cbb_base := Some base\<rparr>))))"

definition CBB_finish ::
  "allocator \<Rightarrow> nat \<Rightarrow> bool \<Rightarrow> bool \<Rightarrow> cbb_st \<Rightarrow> (byte list \<times> nat) option \<times> cbb_st" where
  "CBB_finish al d want_data want_len cbb =
     (if d \<noteq> 0 then (None, cbb)
      else case CBB_flush al d cbb of
        (False, cbb) \<Rightarrow> (None, cbb)
      | (True, cbb) \<Rightarrow>
          (case cbb_base cbb of
             None \<Rightarrow> (None, cbb)
           | Some base \<Rightarrow>
               if b_can_resize base \<and> (\<not> want_data \<or> \<not> want_len) then (None, cbb)
               else (Some (b_buf base, b_len base), CBB_cleanup cbb)))"

section \<open>Reading back\<close>

text \<open>Where the contents of the \<open>CBB\<close> at depth \<open>d\<close> start: the top level has offset 0 and no
  prefix.\<close>

definition cbb_start :: "nat \<Rightarrow> cbb_st \<Rightarrow> nat" where
  "cbb_start d cbb =
     (if d = 0 then 0
      else c_offset (cbb_children cbb ! (d - 1)) + c_pending_len_len (cbb_children cbb ! (d - 1)))"

definition CBB_len :: "nat \<Rightarrow> cbb_st \<Rightarrow> nat" where
  "CBB_len d cbb = (case cbb_base cbb of None \<Rightarrow> 0 | Some base \<Rightarrow> b_len base - cbb_start d cbb)"

definition CBB_data :: "nat \<Rightarrow> cbb_st \<Rightarrow> byte list" where
  "CBB_data d cbb =
     (case cbb_base cbb of None \<Rightarrow> [] | Some base \<Rightarrow> drop (cbb_start d cbb) (b_buf base))"

section \<open>Writing\<close>

text \<open>A writer that opens a child returns with the child at depth \<open>d + 1\<close>.\<close>

definition cbb_add_length_prefixed :: "allocator \<Rightarrow> nat \<Rightarrow> nat \<Rightarrow> cbb_st \<Rightarrow> bool \<times> cbb_st" where
  "cbb_add_length_prefixed al d len_len cbb =
     (case flush_then al d (\<lambda>base. cbb_buffer_add al base len_len) cbb of
        (None, cbb) \<Rightarrow> (False, cbb)
      | (Some offset, cbb) \<Rightarrow>
          (True, cbb\<lparr>cbb_base := map_option
                       (\<lambda>b. b\<lparr>b_buf := mem_write (b_buf b) offset (replicate len_len 0)\<rparr>) (cbb_base cbb),
                     cbb_children := take d (cbb_children cbb) @
                       [\<lparr>c_offset = offset, c_pending_len_len = len_len, c_pending_is_asn1 = False\<rparr>]\<rparr>))"

definition CBB_add_u8_length_prefixed :: "allocator \<Rightarrow> nat \<Rightarrow> cbb_st \<Rightarrow> bool \<times> cbb_st" where
  "CBB_add_u8_length_prefixed al d cbb = cbb_add_length_prefixed al d 1 cbb"

definition CBB_add_u16_length_prefixed :: "allocator \<Rightarrow> nat \<Rightarrow> cbb_st \<Rightarrow> bool \<times> cbb_st" where
  "CBB_add_u16_length_prefixed al d cbb = cbb_add_length_prefixed al d 2 cbb"

definition CBB_add_u24_length_prefixed :: "allocator \<Rightarrow> nat \<Rightarrow> cbb_st \<Rightarrow> bool \<times> cbb_st" where
  "CBB_add_u24_length_prefixed al d cbb = cbb_add_length_prefixed al d 3 cbb"

definition cbb_add_u :: "allocator \<Rightarrow> nat \<Rightarrow> u64 \<Rightarrow> nat \<Rightarrow> cbb_st \<Rightarrow> bool \<times> cbb_st" where
  "cbb_add_u al d v len_len cbb =
     (case flush_then al d
             (\<lambda>base. case cbb_buffer_add_u al base v len_len of
                       (ok, base) \<Rightarrow> (if ok then Some () else None, base)) cbb of
        (r, cbb) \<Rightarrow> (r \<noteq> None, cbb))"

definition CBB_add_u8 :: "allocator \<Rightarrow> nat \<Rightarrow> byte \<Rightarrow> cbb_st \<Rightarrow> bool \<times> cbb_st" where
  "CBB_add_u8 al d value cbb = cbb_add_u al d (ucast value) 1 cbb"

definition CBB_add_u16 :: "allocator \<Rightarrow> nat \<Rightarrow> u16 \<Rightarrow> cbb_st \<Rightarrow> bool \<times> cbb_st" where
  "CBB_add_u16 al d value cbb = cbb_add_u al d (ucast value) 2 cbb"

definition CBB_add_u24 :: "allocator \<Rightarrow> nat \<Rightarrow> u32 \<Rightarrow> cbb_st \<Rightarrow> bool \<times> cbb_st" where
  "CBB_add_u24 al d value cbb = cbb_add_u al d (ucast value) 3 cbb"

definition CBB_add_u32 :: "allocator \<Rightarrow> nat \<Rightarrow> u32 \<Rightarrow> cbb_st \<Rightarrow> bool \<times> cbb_st" where
  "CBB_add_u32 al d value cbb = cbb_add_u al d (ucast value) 4 cbb"

definition CBB_add_u64 :: "allocator \<Rightarrow> nat \<Rightarrow> u64 \<Rightarrow> cbb_st \<Rightarrow> bool \<times> cbb_st" where
  "CBB_add_u64 al d value cbb = cbb_add_u al d value 8 cbb"

definition CBB_add_u16le :: "allocator \<Rightarrow> nat \<Rightarrow> u16 \<Rightarrow> cbb_st \<Rightarrow> bool \<times> cbb_st" where
  "CBB_add_u16le al d value cbb = CBB_add_u16 al d (CRYPTO_bswap2 value) cbb"

definition CBB_add_u32le :: "allocator \<Rightarrow> nat \<Rightarrow> u32 \<Rightarrow> cbb_st \<Rightarrow> bool \<times> cbb_st" where
  "CBB_add_u32le al d value cbb = CBB_add_u32 al d (CRYPTO_bswap4 value) cbb"

definition CBB_add_u64le :: "allocator \<Rightarrow> nat \<Rightarrow> u64 \<Rightarrow> cbb_st \<Rightarrow> bool \<times> cbb_st" where
  "CBB_add_u64le al d value cbb = CBB_add_u64 al d (CRYPTO_bswap8 value) cbb"

definition CBB_add_space :: "allocator \<Rightarrow> nat \<Rightarrow> nat \<Rightarrow> cbb_st \<Rightarrow> nat option \<times> cbb_st" where
  "CBB_add_space al d n cbb = flush_then al d (\<lambda>base. cbb_buffer_add al base n) cbb"

definition cbb_store :: "nat \<Rightarrow> byte list \<Rightarrow> cbb_st \<Rightarrow> cbb_st" where
  "cbb_store pos bs cbb =
     cbb\<lparr>cbb_base := map_option (\<lambda>b. b\<lparr>b_buf := mem_write (b_buf b) pos bs\<rparr>) (cbb_base cbb)\<rparr>"

definition CBB_add_bytes :: "allocator \<Rightarrow> nat \<Rightarrow> byte list \<Rightarrow> nat \<Rightarrow> cbb_st \<Rightarrow> bool \<times> cbb_st" where
  "CBB_add_bytes al d data n cbb =
     (case flush_then al d (\<lambda>base. cbb_buffer_add al base n) cbb of
        (None, cbb) \<Rightarrow> (False, cbb)
      | (Some dest, cbb) \<Rightarrow> (True, cbb_store dest (take n data) cbb))"

definition CBB_add_zeros :: "allocator \<Rightarrow> nat \<Rightarrow> nat \<Rightarrow> cbb_st \<Rightarrow> bool \<times> cbb_st" where
  "CBB_add_zeros al d n cbb =
     (case CBB_add_space al d n cbb of
        (None, cbb) \<Rightarrow> (False, cbb)
      | (Some out, cbb) \<Rightarrow> (True, cbb_store out (replicate n 0) cbb))"

definition CBB_reserve :: "allocator \<Rightarrow> nat \<Rightarrow> nat \<Rightarrow> cbb_st \<Rightarrow> nat option \<times> cbb_st" where
  "CBB_reserve al d n cbb = flush_then al d (\<lambda>base. cbb_buffer_reserve al base n) cbb"

definition CBB_did_write :: "nat \<Rightarrow> nat \<Rightarrow> cbb_st \<Rightarrow> bool \<times> cbb_st" where
  "CBB_did_write d n cbb =
     (case cbb_base cbb of
        None \<Rightarrow> (False, cbb)
      | Some base \<Rightarrow>
          (let newlen = (b_len base + n) mod size_mod in
           if d \<noteq> length (cbb_children cbb) \<or> newlen < b_len base \<or> newlen > b_cap base
           then (False, cbb)
           else (True, cbb\<lparr>cbb_base := Some (base\<lparr>b_len := newlen\<rparr>)\<rparr>)))"

definition CBB_discard_child :: "nat \<Rightarrow> cbb_st \<Rightarrow> cbb_st" where
  "CBB_discard_child d cbb =
     (if d < length (cbb_children cbb)
      then cbb\<lparr>cbb_base := map_option (\<lambda>b. b\<lparr>b_len := c_offset (cbb_children cbb ! d)\<rparr>) (cbb_base cbb),
               cbb_children := take d (cbb_children cbb)\<rparr>
      else cbb)"

text \<open>\<open>add_base128_integer\<close>: the number of 7-bit digits, then the digits from the top.\<close>

function base128_len :: "u64 \<Rightarrow> nat" where
  "base128_len copy = (if copy > 0 then Suc (base128_len (drop_bit 7 copy)) else 0)"
  by auto
termination
proof (relation "measure unat", simp, goal_cases)
  case (1 copy)
  then have "unat copy div 128 < unat copy" by (simp add: word_less_nat_alt)
  moreover have "unat (drop_bit 7 copy) = unat copy div 128"
    using unat_drop_bit_eq [of 7 copy] drop_bit_eq_div [of 7 "unat copy"] by (simp only:) simp
  ultimately show ?case by (simp only: in_measure)
qed

fun add_base128_digits :: "allocator \<Rightarrow> nat \<Rightarrow> u64 \<Rightarrow> nat \<Rightarrow> cbb_st \<Rightarrow> bool \<times> cbb_st" where
  "add_base128_digits al d v 0 cbb = (True, cbb)"
| "add_base128_digits al d v (Suc i) cbb =
     (let b = ucast (drop_bit (7 * i) v AND 0x7f) :: byte;
          b = (if i \<noteq> 0 then b OR 0x80 else b) in
      case CBB_add_u8 al d b cbb of
        (False, cbb) \<Rightarrow> (False, cbb)
      | (True, cbb) \<Rightarrow> add_base128_digits al d v i cbb)"

definition add_base128_integer :: "allocator \<Rightarrow> nat \<Rightarrow> u64 \<Rightarrow> cbb_st \<Rightarrow> bool \<times> cbb_st" where
  "add_base128_integer al d v cbb =
     add_base128_digits al d v (if base128_len v = 0 then 1 else base128_len v) cbb"

definition CBB_add_asn1 :: "allocator \<Rightarrow> nat \<Rightarrow> u32 \<Rightarrow> cbb_st \<Rightarrow> bool \<times> cbb_st" where
  "CBB_add_asn1 al d tag cbb =
     (case CBB_flush al d cbb of
        (False, cbb) \<Rightarrow> (False, cbb)
      | (True, cbb) \<Rightarrow>
     (let tag_bits = ucast (drop_bit 24 tag) AND 0xe0 :: byte;
          tag_number = tag AND CBS_ASN1_TAG_NUMBER_MASK;
          tagged = (if tag_number \<ge> 0x1f
                    then (case CBB_add_u8 al d (tag_bits OR 0x1f) cbb of
                            (False, cbb) \<Rightarrow> (False, cbb)
                          | (True, cbb) \<Rightarrow> add_base128_integer al d (ucast tag_number) cbb)
                    else CBB_add_u8 al d (tag_bits OR ucast tag_number) cbb)
      in case tagged of
           (False, cbb) \<Rightarrow> (False, cbb)
         | (True, cbb) \<Rightarrow>
             (let offset = (case cbb_base cbb of None \<Rightarrow> 0 | Some base \<Rightarrow> b_len base) in
              case CBB_add_u8 al d 0 cbb of
                (False, cbb) \<Rightarrow> (False, cbb)
              | (True, cbb) \<Rightarrow>
                  (True, cbb\<lparr>cbb_children := take d (cbb_children cbb) @
                     [\<lparr>c_offset = offset, c_pending_len_len = 1, c_pending_is_asn1 = True\<rparr>]\<rparr>))))"

declare base128_len.simps [simp del]

end
