(* ===== verification/Cbb_Refine.thy ===== *)
theory Cbb_Refine
  imports Cbb
begin

text \<open>
  What a \<open>CBB\<close> promises: the specification is the stack of the open levels, each with the kind of its
  pending length prefix and the bytes written to it so far.  Writing at a level closes the levels
  below it, that is, appends each of them with its prefix to its parent.  The lemmas show that every
  operation of \<^verbatim>\<open>cbb.c\<close> that returns 1 does that to the buffer, and that it returns 1 whenever the
  specification has a result and the buffer can hold it.
\<close>

section \<open>The specification\<close>

datatype prefix = Pfx nat | Asn1Len

type_synonym level = "prefix \<times> byte list"

fun placeholder :: "prefix \<Rightarrow> nat" where
  "placeholder (Pfx n) = n"
| "placeholder Asn1Len = 1"

fun enc_prefix :: "prefix \<Rightarrow> nat \<Rightarrow> byte list option" where
  "enc_prefix (Pfx n) len = (if len < 256 ^ n then Some (be_bytes n len) else None)"
| "enc_prefix Asn1Len len = (if len \<le> 0xfffffffe then Some (der_len len) else None)"

fun close_levels :: "level list \<Rightarrow> byte list option" where
  "close_levels [] = Some []"
| "close_levels ((k, c) # lv) =
     (case close_levels lv of
        None \<Rightarrow> None
      | Some rest \<Rightarrow>
          (case enc_prefix k (length (c @ rest)) of
             None \<Rightarrow> None
           | Some p \<Rightarrow> Some (p @ c @ rest)))"

definition emit :: "byte list \<Rightarrow> level list \<Rightarrow> level list" where
  "emit bs L = butlast L @ [(fst (last L), snd (last L) @ bs)]"

definition settle :: "nat \<Rightarrow> level list \<Rightarrow> level list option" where
  "settle d L =
     (if d < length L
      then map_option (\<lambda>x. emit x (take (Suc d) L)) (close_levels (drop (Suc d) L)) else None)"

definition write_at :: "nat \<Rightarrow> byte list \<Rightarrow> level list \<Rightarrow> level list option" where
  "write_at d bs L = map_option (emit bs) (settle d L)"

definition open_at :: "nat \<Rightarrow> prefix \<Rightarrow> level list \<Rightarrow> level list option" where
  "open_at d k L = map_option (\<lambda>L. L @ [(k, [])]) (settle d L)"

text \<open>The bytes in the buffer while the levels are open, and the chain of children.\<close>

fun flat :: "level list \<Rightarrow> byte list" where
  "flat [] = []"
| "flat ((k, c) # lv) = replicate (placeholder k) 0 @ c @ flat lv"

fun children_at :: "nat \<Rightarrow> level list \<Rightarrow> CBB list" where
  "children_at n [] = []"
| "children_at n ((k, c) # lv) =
     \<lparr>c_offset = n, c_pending_len_len = placeholder k, c_pending_is_asn1 = (k = Asn1Len)\<rparr>
     # children_at (n + placeholder k + length c) lv"

definition wf_prefix :: "prefix \<Rightarrow> bool" where
  "wf_prefix k = (1 \<le> placeholder k \<and> placeholder k \<le> 8)"

definition wf_levels :: "level list \<Rightarrow> bool" where
  "wf_levels L = (L \<noteq> [] \<and> fst (hd L) = Pfx 0 \<and> list_all (\<lambda>(k, c). wf_prefix k) (tl L))"

section \<open>The representation\<close>

definition holds :: "cbb_buffer_st \<Rightarrow> byte list \<Rightarrow> bool" where
  "holds b bs =
     (length (b_buf b) = b_cap b \<and> b_len b \<le> b_cap b \<and> b_cap b < size_mod \<and> \<not> b_error b
      \<and> take (b_len b) (b_buf b) = bs)"

definition repr :: "cbb_st \<Rightarrow> level list \<Rightarrow> bool" where
  "repr st L =
     (wf_levels L \<and> cbb_children st = tl (children_at 0 L)
      \<and> (\<exists>b. cbb_base st = Some b \<and> holds b (flat L)))"

definition granting :: "allocator \<Rightarrow> bool" where
  "granting al = (\<forall>n < size_mod. malloc_ok al n)"

text \<open>The buffer has room for \<open>n\<close> bytes: it has the capacity, or it may grow and stay below the
  range in which the doubling of the capacity could wrap.\<close>

definition room :: "allocator \<Rightarrow> cbb_buffer_st \<Rightarrow> nat \<Rightarrow> bool" where
  "room al b n =
     (n \<le> b_cap b \<or> b_can_resize b \<and> granting al \<and> n \<le> 2 ^ 60 \<and> b_cap b \<le> 2 ^ 61)"

definition st_room :: "allocator \<Rightarrow> cbb_st \<Rightarrow> nat \<Rightarrow> bool" where
  "st_room al st n = (case cbb_base st of None \<Rightarrow> False | Some b \<Rightarrow> room al b n)"

definition room_le :: "allocator \<Rightarrow> cbb_st \<Rightarrow> cbb_st \<Rightarrow> bool" where
  "room_le al st st' = (\<forall>n. st_room al st n \<longrightarrow> st_room al st' n)"

lemma room_mono: "room al b n \<Longrightarrow> m \<le> n \<Longrightarrow> room al b m"
  by (auto simp: room_def)

lemma st_room_mono: "st_room al st n \<Longrightarrow> m \<le> n \<Longrightarrow> st_room al st m"
  by (auto simp: st_room_def intro: room_mono split: option.splits)

lemma room_le_refl [simp]: "room_le al st st"
  by (simp add: room_le_def)

lemma room_le_trans: "room_le al a b \<Longrightarrow> room_le al b c \<Longrightarrow> room_le al a c"
  by (simp add: room_le_def)

section \<open>Lists\<close>

lemma length_mem_write: "i + length bs \<le> length buf \<Longrightarrow> length (mem_write buf i bs) = length buf"
  by (simp add: mem_write_def)

lemma take_mem_write:
  assumes "i + length bs \<le> n" "n \<le> length buf"
  shows "take n (mem_write buf i bs) = mem_write (take n buf) i bs"
proof (cases "i = n")
  case True
  with assms have "bs = []" by simp
  with True assms show ?thesis by (simp add: mem_write_def)
next
  case False
  with assms show ?thesis by (simp add: mem_write_def min_def drop_take)
qed

lemma mem_write_middle: "length x = length bs \<Longrightarrow> mem_write (pre @ x @ post) (length pre) bs = pre @ bs @ post"
  by (simp add: mem_write_def)

lemma list_update_mem_write: "i < length buf \<Longrightarrow> buf[i := b] = mem_write buf i [b]"
  by (simp add: mem_write_def upd_conv_take_nth_drop)

lemma mem_write_append:
  "i + length xs + length ys \<le> length buf \<Longrightarrow>
    mem_write (mem_write buf (i + length xs) ys) i xs = mem_write buf i (xs @ ys)"
  by (simp add: mem_write_def min_def add.assoc)

lemma write_be_eq:
  "pos + n \<le> length buf \<Longrightarrow> write_be buf pos n v = (mem_write buf pos (be_bytes n v), v div 256 ^ n)"
proof (induction n arbitrary: buf v)
  case 0
  then show ?case by (simp add: mem_write_def)
next
  case (Suc n)
  then have "write_be buf pos (Suc n) v
      = (mem_write (buf[pos + n := word_of_nat v]) pos (be_bytes n (v div 256)), v div 256 div 256 ^ n)"
    by simp
  moreover have "mem_write (buf[pos + n := word_of_nat v]) pos (be_bytes n (v div 256))
      = mem_write buf pos (be_bytes n (v div 256) @ [word_of_nat v])"
    using Suc.prems mem_write_append [of pos "be_bytes n (v div 256)" "[word_of_nat v]" buf]
    by (simp add: list_update_mem_write)
  ultimately show ?case by (simp add: div_mult2_eq)
qed

section \<open>Reserving space\<close>

lemma add_wrap:
  assumes "a < size_mod" "n < size_mod"
  shows "(a + n) mod size_mod < a \<or> (a + n) mod size_mod = a + n \<and> a + n < size_mod"
  using assms by (cases "a + n < size_mod") (simp_all add: le_mod_geq not_less)

lemma reserve_cases:
  assumes "length (b_buf b) = b_cap b" "b_len b \<le> b_cap b" "b_cap b < size_mod" "n < size_mod"
    and "cbb_buffer_reserve al b n = (r, b')"
  obtains (fits) "b_len b + n \<le> b_cap b" "r = Some (b_len b)" "b' = b"
  | (grown) newcap newbuf where "b_cap b < b_len b + n" "b_can_resize b" "b_len b + n \<le> newcap"
      "newcap < size_mod" "b_cap b \<le> newcap" "newcap \<le> max (2 * b_cap b) (b_len b + n)"
      "OPENSSL_realloc al (Some (b_buf b)) newcap = Some newbuf"
      "r = Some (b_len b)" "b' = b\<lparr>b_buf := newbuf, b_cap := newcap\<rparr>"
  | (failed) "r = None" "b' = b\<lparr>b_error := True\<rparr>" "\<not> room al b (b_len b + n)"
proof -
  define newlen where "newlen = (b_len b + n) mod size_mod"
  define c where "c = (b_cap b * 2) mod size_mod"
  define newcap where "newcap = (if c < b_cap b \<or> c < newlen then newlen else c)"
  have res: "cbb_buffer_reserve al b n =
     (if newlen < b_len b then (None, b\<lparr>b_error := True\<rparr>)
      else if newlen > b_cap b
      then if \<not> b_can_resize b then (None, b\<lparr>b_error := True\<rparr>)
           else (case OPENSSL_realloc al (Some (b_buf b)) newcap of
                   None \<Rightarrow> (None, b\<lparr>b_error := True\<rparr>)
                 | Some newbuf \<Rightarrow> (Some (b_len b), b\<lparr>b_buf := newbuf, b_cap := newcap\<rparr>))
      else (Some (b_len b), b))"
    unfolding cbb_buffer_reserve_def Let_def newlen_def c_def newcap_def by (rule refl)
  have wrap: "newlen < b_len b \<or> newlen = b_len b + n \<and> b_len b + n < size_mod"
    unfolding newlen_def by (rule add_wrap) (use assms in simp_all)
  have cap: "newlen \<le> newcap" "newcap < size_mod"
    by (auto simp: newcap_def newlen_def c_def)
  have cap': "b_cap b < newlen \<Longrightarrow> b_cap b \<le> newcap" "newcap \<le> max (2 * b_cap b) newlen"
    by (auto simp: newcap_def c_def max_def intro: order_trans [OF mod_less_eq_dividend])
  consider "newlen < b_len b" | "newlen = b_len b + n" "newlen \<le> b_cap b"
    | "newlen = b_len b + n" "b_cap b < newlen" "\<not> b_can_resize b"
    | "newlen = b_len b + n" "b_cap b < newlen" "b_can_resize b"
        "OPENSSL_realloc al (Some (b_buf b)) newcap = None"
    | newbuf where "newlen = b_len b + n" "b_cap b < newlen" "b_can_resize b"
        "OPENSSL_realloc al (Some (b_buf b)) newcap = Some newbuf"
    using wrap by (metis not_le option.exhaust)
  then show ?thesis
  proof cases
    case 1
    then have "\<not> b_len b + n < size_mod" by (auto simp: newlen_def)
    then have "\<not> room al b (b_len b + n)" using assms(3) by (simp add: room_def)
    with 1 res assms(5) failed show ?thesis by auto
  next
    case 2
    with res assms(5) fits show ?thesis by auto
  next
    case 3
    with res assms(5) failed show ?thesis by (auto simp: room_def)
  next
    case 4
    have "\<not> room al b (b_len b + n)"
    proof
      assume room: "room al b (b_len b + n)"
      with 4 have "newcap \<le> 2 ^ 62" "granting al" using cap'(2) by (auto simp: room_def max_def split: if_splits)
      then have "OPENSSL_malloc al newcap \<noteq> None" by (simp add: OPENSSL_malloc_def granting_def)
      with 4(4) show False by (simp add: OPENSSL_realloc_def Let_def split: option.splits)
    qed
    with 4 res assms(5) failed show ?thesis by auto
  next
    case 5
    with res assms(5) grown cap cap' assms(2) show ?thesis by auto
  qed
qed

lemma cbb_buffer_reserve_holds:
  assumes "holds b bs" "n < size_mod" "cbb_buffer_reserve al b n = (r, b')"
  shows "r = Some p \<Longrightarrow> p = length bs \<and> holds b' bs \<and> length bs + n \<le> b_cap b'"
    and "r = None \<Longrightarrow> b_error b'"
    and "r \<noteq> None \<Longrightarrow> room al b m \<Longrightarrow> room al b' m"
    and "room al b (length bs + n) \<Longrightarrow> r \<noteq> None"
proof -
  note b = assms(1) [unfolded holds_def]
  then have len: "length bs = b_len b" by auto
  have "(r = Some p \<longrightarrow> p = length bs \<and> holds b' bs \<and> length bs + n \<le> b_cap b')
      \<and> (r = None \<longrightarrow> b_error b') \<and> (r \<noteq> None \<longrightarrow> room al b m \<longrightarrow> room al b' m)
      \<and> (room al b (length bs + n) \<longrightarrow> r \<noteq> None)"
    using b(1) [THEN conjunct1] b(1) [THEN conjunct2, THEN conjunct1]
      b(1) [THEN conjunct2, THEN conjunct2, THEN conjunct1] assms(2,3)
  proof (cases rule: reserve_cases)
    case fits
    with assms(1) len show ?thesis by simp
  next
    case (grown newcap newbuf)
    have "take (b_len b) newbuf = bs"
      using OPENSSL_realloc_grows [OF grown(7), of "b_len b"] b grown by simp
    moreover have "length newbuf = newcap" using grown(7) by (rule OPENSSL_realloc_length)
    ultimately have "holds b' bs" using grown b by (simp add: holds_def)
    moreover have "room al b' m" if "room al b m"
      using that grown by (auto simp: room_def max_def split: if_splits)
    ultimately show ?thesis using grown len by simp
  next
    case failed
    with len show ?thesis by simp
  qed
  then show "r = Some p \<Longrightarrow> p = length bs \<and> holds b' bs \<and> length bs + n \<le> b_cap b'"
    and "r = None \<Longrightarrow> b_error b'"
    and "r \<noteq> None \<Longrightarrow> room al b m \<Longrightarrow> room al b' m"
    and "room al b (length bs + n) \<Longrightarrow> r \<noteq> None"
    by blast+
qed


lemma cbb_buffer_add_holds:
  assumes "holds b bs" "n < size_mod" "cbb_buffer_add al b n = (r, b')"
  shows "r = Some p \<Longrightarrow> p = length bs \<and> (\<exists>x. length x = n \<and> holds b' (bs @ x))"
    and "r = None \<Longrightarrow> b_error b'"
    and "r \<noteq> None \<Longrightarrow> room al b m \<Longrightarrow> room al b' m"
    and "room al b (length bs + n) \<Longrightarrow> r \<noteq> None"
proof -
  obtain r1 b1 where res: "cbb_buffer_reserve al b n = (r1, b1)" by fastforce
  note R = cbb_buffer_reserve_holds [OF assms(1,2) res]
  have eq: "r = r1" "b' = (if r1 = None then b1 else b1\<lparr>b_len := b_len b1 + n\<rparr>)"
    using assms(3) by (auto simp: cbb_buffer_add_def res split: option.splits)
  show "r = None \<Longrightarrow> b_error b'" "room al b (length bs + n) \<Longrightarrow> r \<noteq> None"
    using R(2,4) eq by auto
  show "r \<noteq> None \<Longrightarrow> room al b m \<Longrightarrow> room al b' m"
    using R(3) [of m] eq by (auto simp: room_def)
  show "r = Some p \<Longrightarrow> p = length bs \<and> (\<exists>x. length x = n \<and> holds b' (bs @ x))"
  proof -
    assume "r = Some p"
    then have b1: "p = length bs" "holds b1 bs" "length bs + n \<le> b_cap b1" using R(1) eq by auto
    define x where "x = take n (drop (b_len b1) (b_buf b1))"
    have len: "b_len b1 = length bs" using b1(2) by (auto simp: holds_def)
    have "length x = n" using b1 len by (simp add: x_def holds_def)
    moreover have "holds b' (bs @ x)"
      using b1 len eq \<open>r = Some p\<close> by (auto simp: holds_def x_def take_add)
    ultimately show ?thesis using b1(1) by blast
  qed
qed

lemma holds_mem_write:
  assumes "holds b bs" "i + length ys \<le> length bs"
  shows "holds (b\<lparr>b_buf := mem_write (b_buf b) i ys\<rparr>) (mem_write bs i ys)"
  using assms by (auto simp: holds_def length_mem_write take_mem_write)

lemma holds_length: "holds b bs \<Longrightarrow> length bs = b_len b \<and> b_len b \<le> length (b_buf b) \<and> length bs < size_mod"
  by (auto simp: holds_def)

lemma room_buf [simp]: "room al (b\<lparr>b_buf := x\<rparr>) n = room al b n"
  by (simp add: room_def)

lemma cbb_buffer_add_u_holds:
  assumes "holds b bs" "1 \<le> n" "n \<le> 8" "cbb_buffer_add_u al b v n = (ok, b')"
  shows "ok \<Longrightarrow> unat v < 256 ^ n \<and> holds b' (bs @ be_bytes n (unat v))"
    and "\<not> ok \<Longrightarrow> b_error b'"
    and "ok \<Longrightarrow> room al b m \<Longrightarrow> room al b' m"
    and "room al b (length bs + n) \<Longrightarrow> unat v < 256 ^ n \<Longrightarrow> ok"
proof -
  obtain r b1 where add: "cbb_buffer_add al b n = (r, b1)" by fastforce
  have "n < size_mod" using assms(3) by simp
  note R = cbb_buffer_add_holds [OF assms(1) this add]
  have n0: "n \<noteq> 0" using assms(2) by simp
  have "(ok \<longrightarrow> unat v < 256 ^ n \<and> holds b' (bs @ be_bytes n (unat v))) \<and> (\<not> ok \<longrightarrow> b_error b')
      \<and> (ok \<longrightarrow> room al b m \<longrightarrow> room al b' m)
      \<and> (room al b (length bs + n) \<longrightarrow> unat v < 256 ^ n \<longrightarrow> ok)"
  proof (cases r)
    case None
    with R assms(4) n0 show ?thesis by (auto simp: cbb_buffer_add_u_def add)
  next
    case (Some p)
    then obtain x where p: "p = length bs" and x: "length x = n" "holds b1 (bs @ x)" using R(1) by auto
    have "p + n \<le> length (b_buf b1)" using holds_length [OF x(2)] p x(1) by simp
    note W = write_be_eq [OF this]
    have "holds (b1\<lparr>b_buf := mem_write (b_buf b1) p (be_bytes n (unat v))\<rparr>) (bs @ be_bytes n (unat v))"
      using holds_mem_write [OF x(2), of p "be_bytes n (unat v)"]
        mem_write_middle [of x "be_bytes n (unat v)" bs "[]"] x(1) p by simp
    with Some R(3) [of m] assms(4) n0 W show ?thesis
      by (auto simp: cbb_buffer_add_u_def add div_eq_0_iff split: if_splits)
  qed
  then show "ok \<Longrightarrow> unat v < 256 ^ n \<and> holds b' (bs @ be_bytes n (unat v))"
    and "\<not> ok \<Longrightarrow> b_error b'"
    and "ok \<Longrightarrow> room al b m \<Longrightarrow> room al b' m"
    and "room al b (length bs + n) \<Longrightarrow> unat v < 256 ^ n \<Longrightarrow> ok"
    by blast+
qed

section \<open>Flushing\<close>

lemma move_and_prefix:
  assumes "length x = e" "length bs = e"
  shows "mem_write (mem_write (mem_write (pre @ [z] @ body @ x) (length pre + 1 + e) body)
           (length pre) [ib]) (length pre + 1) bs
       = pre @ (ib # bs) @ body"
  using assms by (simp add: mem_write_def)

text \<open>The children below a child are flushed first; what remains is to flush it alone.\<close>

lemma flush_children_step:
  assumes "\<not> b_error b" "c_pending_len_len child \<noteq> 0"
    and "cbb_flush_children al b gs = (True, b1, [])" "\<not> b_error b1"
  shows "cbb_flush_children al b (child # gs) = cbb_flush_children al b1 [child]"
  using assms by simp

definition child_of :: "nat \<Rightarrow> prefix \<Rightarrow> CBB" where
  "child_of n k =
     \<lparr>c_offset = n, c_pending_len_len = placeholder k, c_pending_is_asn1 = (k = Asn1Len)\<rparr>"

text \<open>What flushing promises for the prefixes \<open>p\<close> of the specification.\<close>

definition flushes ::
  "allocator \<Rightarrow> cbb_buffer_st \<Rightarrow> byte list option \<Rightarrow> bool \<times> cbb_buffer_st \<times> CBB list \<Rightarrow> bool" where
  "flushes al b x res =
     (case res of (ok, b', rest) \<Rightarrow>
        (ok \<longrightarrow> (\<exists>bs. x = Some bs \<and> holds b' bs \<and> rest = []))
        \<and> (\<not> ok \<longrightarrow> b_error b')
        \<and> (ok \<longrightarrow> (\<forall>m. room al b m \<longrightarrow> room al b' m))
        \<and> (\<forall>bs. x = Some bs \<longrightarrow> room al b (length bs) \<longrightarrow> ok))"

lemma flushes_error: "b_error b' \<Longrightarrow> (\<And>bs. x = Some bs \<Longrightarrow> \<not> room al b (length bs))
    \<Longrightarrow> flushes al b x (False, b', rest)"
  by (auto simp: flushes_def)

lemma flush_plain_child:
  assumes b: "holds b (pre @ replicate n 0 @ c)" and n: "1 \<le> n" "n \<le> 8"
  shows "flushes al b (map_option (\<lambda>p. pre @ p @ c) (enc_prefix (Pfx n) (length c)))
    (cbb_flush_children al b [child_of (length pre) (Pfx n)])"
proof -
  note len = holds_length [OF b]
  have start: "(length pre + n) mod size_mod = length pre + n" using len by simp
  have blen: "b_len b = length pre + n + length c" using len by simp
  have "length pre + n \<le> length (b_buf b)" using len by simp
  note W = write_be_eq [OF this]
  have "holds (b\<lparr>b_buf := mem_write (b_buf b) (length pre) (be_bytes n (length c))\<rparr>)
      (pre @ be_bytes n (length c) @ c)"
    using holds_mem_write [OF b, of "length pre" "be_bytes n (length c)"]
      mem_write_middle [of "replicate n 0" "be_bytes n (length c)" pre c] by simp
  moreover have "\<not> b_error b" using b by (simp add: holds_def)
  ultimately show ?thesis
    using n W by (simp add: child_of_def flushes_def start blen div_eq_0_iff Let_def)
qed

lemma flush_asn1_short:
  assumes b: "holds b (pre @ [0] @ c)" and c: "length c < 128"
  shows "flushes al b (map_option (\<lambda>p. pre @ p @ c) (enc_prefix Asn1Len (length c)))
    (cbb_flush_children al b [child_of (length pre) Asn1Len])"
proof -
  note len = holds_length [OF b]
  have start: "(length pre + 1) mod size_mod = length pre + 1" using len by simp
  have blen: "b_len b = length pre + 1 + length c" using len by simp
  have "holds (b\<lparr>b_buf := mem_write (b_buf b) (length pre) [word_of_nat (length c)]\<rparr>)
      (pre @ [word_of_nat (length c)] @ c)"
    using holds_mem_write [OF b, of "length pre" "[word_of_nat (length c)]"]
      mem_write_middle [of "[0]" "[word_of_nat (length c)]" pre c] by simp
  moreover have "\<not> b_error b" using b by (simp add: holds_def)
  moreover have "length pre < length (b_buf b)" using len by simp
  ultimately show ?thesis
    using c start blen
    by (simp add: child_of_def flushes_def Let_def list_update_mem_write der_len_def asn1_len_len_def
        del: One_nat_def)
qed

lemma asn1_len_len_octets: "128 \<le> n \<Longrightarrow> asn1_len_len n = Suc (der_len_octets n)"
  by (auto simp: der_len_octets_def asn1_len_len_def)

lemma flush_asn1_long:
  assumes b: "holds b (pre @ [0] @ c)" and c: "128 \<le> length c" "length c \<le> 0xfffffffe"
  shows "flushes al b (map_option (\<lambda>p. pre @ p @ c) (enc_prefix Asn1Len (length c)))
    (cbb_flush_children al b [child_of (length pre) Asn1Len])"
proof -
  note len = holds_length [OF b]
  define n where "n = length c"
  define e where "e = der_len_octets n"
  define ib :: byte where "ib = word_of_nat (0x80 + e)"
  have e: "1 \<le> e" "e \<le> 4" unfolding e_def by (rule der_len_octets_bounds)+
  have start: "(length pre + 1) mod size_mod = length pre + 1" using len by simp
  have blen: "b_len b = length pre + 1 + n" using len by (simp add: n_def)
  have L: "asn1_len_len n = Suc e"
    using asn1_len_len_octets [of n] c by (simp add: e_def n_def)
  have fits: "n < 256 ^ e" unfolding e_def by (rule der_len_octets_fits) (use c in \<open>simp add: n_def\<close>)
  have err: "\<not> b_error b" using b by (simp add: holds_def)
  obtain r b1 where add: "cbb_buffer_add al b e = (r, b1)" by fastforce
  have "e < size_mod" using e by simp
  note R = cbb_buffer_add_holds [OF b this add]
  have eq: "cbb_flush_children al b [child_of (length pre) Asn1Len]
    = (case r of None \<Rightarrow> (False, b1\<lparr>b_error := True\<rparr>, [child_of (length pre) Asn1Len])
       | Some _ \<Rightarrow>
          (case write_be ((mem_write (b_buf b1) (length pre + 1 + e)
                       (mem_read (b_buf b1) (length pre + 1) n))[length pre := ib]) (length pre + 1) e n of
             (buf, m) \<Rightarrow> if m \<noteq> 0
               then (False, b1\<lparr>b_buf := buf, b_error := True\<rparr>,
                     [\<lparr>c_offset = length pre + 1, c_pending_len_len = e, c_pending_is_asn1 = True\<rparr>])
               else (True, b1\<lparr>b_buf := buf\<rparr>, [])))"
    using start blen c err L add e(1)
    by (simp add: child_of_def n_def [symmetric] ib_def Let_def del: One_nat_def
        split: option.splits prod.splits)
  have spec: "enc_prefix Asn1Len n = Some (ib # be_bytes e n)"
    using c by (simp add: n_def der_len_def e_def ib_def)
  show ?thesis
  proof (cases r)
    case None
    have "\<not> room al b (length (pre @ (ib # be_bytes e n) @ c))"
    proof
      assume "room al b (length (pre @ (ib # be_bytes e n) @ c))"
      then have "room al b (length (pre @ [0 :: byte] @ c) + e)" by (rule room_mono) simp
      with R(4) None show False by simp
    qed
    then show ?thesis
      unfolding eq n_def [symmetric] spec None option.case option.map
      by (intro flushes_error) (simp, simp only: option.inject, blast)
  next
    case (Some p)
    then obtain x where x: "length x = e" "holds b1 (pre @ [0] @ c @ x)" using R(1) by auto
    note len1 = holds_length [OF x(2)]
    have buf_len: "length pre + 1 + e + n \<le> length (b_buf b1)" using len1 x(1) by (simp add: n_def)
    have "b_buf b1 = (pre @ [0] @ c @ x) @ drop (b_len b1) (b_buf b1)"
      using x(2) unfolding holds_def by (metis append_take_drop_id)
    moreover have "mem_read ((pre @ [0] @ c @ x) @ rest) (length pre + 1) n = c" for rest
      by (simp add: mem_read_def n_def)
    ultimately have read: "mem_read (b_buf b1) (length pre + 1) n = c" by metis
    define B1 where "B1 = mem_write (b_buf b1) (length pre + 1 + e) c"
    have B1: "length B1 = length (b_buf b1)"
      using buf_len by (simp add: B1_def length_mem_write n_def)
    define B2 where "B2 = mem_write B1 (length pre) [ib]"
    have B2: "B1[length pre := ib] = B2" "length B2 = length (b_buf b1)"
      using buf_len B1 by (simp_all add: B2_def list_update_mem_write length_mem_write)
    have W: "write_be B2 (length pre + 1) e n = (mem_write B2 (length pre + 1) (be_bytes e n), 0)"
      using write_be_eq [of "length pre + 1" e B2 n] B2 buf_len fits by simp
    have "holds (b1\<lparr>b_buf := mem_write B2 (length pre + 1) (be_bytes e n)\<rparr>) (pre @ (ib # be_bytes e n) @ c)"
    proof -
      have 1: "holds (b1\<lparr>b_buf := B1\<rparr>) (mem_write (pre @ [0] @ c @ x) (length pre + 1 + e) c)"
        unfolding B1_def by (rule holds_mem_write [OF x(2)]) (use x(1) in simp)
      have l1: "length (mem_write (pre @ [0] @ c @ x) (length pre + 1 + e) c) = length pre + 1 + e + n"
        using x(1) by (simp add: length_mem_write n_def)
      have 2: "holds (b1\<lparr>b_buf := B2\<rparr>)
        (mem_write (mem_write (pre @ [0] @ c @ x) (length pre + 1 + e) c) (length pre) [ib])"
        using holds_mem_write [OF 1, of "length pre" "[ib]"] l1 by (simp add: B2_def)
      have l2: "length (mem_write (mem_write (pre @ [0] @ c @ x) (length pre + 1 + e) c) (length pre) [ib])
          = length pre + 1 + e + n"
        using l1 by (subst length_mem_write) simp_all
      show ?thesis
        using holds_mem_write [OF 2, of "length pre + 1" "be_bytes e n"] l2
          move_and_prefix [OF x(1), of "be_bytes e n" pre 0 c ib] by simp
    qed
    then have "flushes al b (Some (pre @ (ib # be_bytes e n) @ c))
        (True, b1\<lparr>b_buf := mem_write B2 (length pre + 1) (be_bytes e n)\<rparr>, [])"
      using Some R(3) by (simp add: flushes_def)
    then show ?thesis
      unfolding eq n_def [symmetric] spec Some option.case option.map read B1_def [symmetric] B2(1) W
      by simp
  qed
qed

lemma flush_child:
  assumes b: "holds b (pre @ replicate (placeholder k) 0 @ c)" and k: "wf_prefix k"
  shows "flushes al b (map_option (\<lambda>p. pre @ p @ c) (enc_prefix k (length c)))
    (cbb_flush_children al b [child_of (length pre) k])"
proof (cases k)
  case (Pfx n)
  with b k show ?thesis using flush_plain_child [of b pre n c al] by (simp add: wf_prefix_def)
next
  case k: Asn1Len
  with b have b1: "holds b (pre @ [0] @ c)" by simp
  consider "length c < 128" | "128 \<le> length c" "length c \<le> 0xfffffffe" | "0xfffffffe < length c"
    by linarith
  then show ?thesis
  proof cases
    case 1
    with b1 show ?thesis unfolding k by (rule flush_asn1_short)
  next
    case 2
    with b1 show ?thesis unfolding k by (rule flush_asn1_long)
  next
    case 3
    have "length pre + 1 < size_mod" "b_len b = length pre + 1 + length c" "\<not> b_error b"
      using holds_length [OF b1] b1 by (simp_all add: holds_def)
    with 3 k show ?thesis
      by (simp add: child_of_def flushes_def Let_def)
  qed
qed

lemma length_enc_prefix:
  "enc_prefix k n = Some p \<Longrightarrow> placeholder k \<le> length p"
  by (cases k) (auto simp: der_len_def Suc_le_eq split: if_splits)

lemma length_close_levels: "close_levels lv = Some x \<Longrightarrow> length (flat lv) \<le> length x"
proof (induction lv arbitrary: x rule: close_levels.induct)
  case (2 k c lv)
  then obtain rest p where "close_levels lv = Some rest" "enc_prefix k (length (c @ rest)) = Some p"
    "x = p @ c @ rest" by (auto split: option.splits)
  with 2 length_enc_prefix [of k _ p] show ?case by fastforce
qed simp

lemma flushes_room_le:
  "flushes al b1 x res \<Longrightarrow> (\<And>m. room al b m \<Longrightarrow> room al b1 m) \<Longrightarrow> flushes al b x res"
  by (cases res) (auto simp: flushes_def)

declare cbb_flush_children.simps(2) [simp del]

text \<open>Flushing the chain from a level down closes the levels below it.\<close>

lemma flush_children:
  assumes "holds b (pre @ flat lv)" "list_all (\<lambda>(k, c). wf_prefix k) lv"
  shows "flushes al b (map_option (\<lambda>x. pre @ x) (close_levels lv))
    (cbb_flush_children al b (children_at (length pre) lv))"
  using assms
proof (induction lv arbitrary: pre b)
  case Nil
  then show ?case by (simp add: flushes_def holds_def)
next
  case (Cons l lv)
  obtain k c where l: "l = (k, c)" by fastforce
  define pre' where "pre' = pre @ replicate (placeholder k) 0 @ c"
  define child where "child = child_of (length pre) k"
  define gs where "gs = children_at (length pre') lv"
  have ch: "children_at (length pre) (l # lv) = child # gs"
    by (simp add: l child_def gs_def pre'_def child_of_def add.assoc)
  have k: "wf_prefix k" and lv: "list_all (\<lambda>(k, c). wf_prefix k) lv" using Cons.prems l by simp_all
  have err: "\<not> b_error b" using Cons.prems by (simp add: holds_def)
  have pll: "c_pending_len_len child \<noteq> 0" using k by (simp add: child_def child_of_def wf_prefix_def)
  obtain ok b1 rest where inner: "cbb_flush_children al b gs = (ok, b1, rest)" by (metis prod_cases3)
  have IH: "flushes al b (map_option (\<lambda>x. pre' @ x) (close_levels lv)) (ok, b1, rest)"
    using Cons.IH [of b pre'] Cons.prems lv inner by (simp add: pre'_def gs_def l)
  show ?case
  proof (cases ok)
    case False
    then have res: "cbb_flush_children al b (child # gs) = (False, b1\<lparr>b_error := True\<rparr>, child # rest)"
      using inner err pll by (simp add: cbb_flush_children.simps(2))
    have "\<not> room al b (length (pre @ x))" if x: "close_levels (l # lv) = Some x" for x
    proof -
      from x obtain rest' p where r: "close_levels lv = Some rest'"
        and p: "enc_prefix k (length (c @ rest')) = Some p" "x = p @ c @ rest'"
        by (auto simp: l split: option.splits)
      have "\<not> room al b (length (pre' @ rest'))" using IH False r by (simp add: flushes_def)
      moreover have "length (pre' @ rest') \<le> length (pre @ x)"
        using length_enc_prefix [OF p(1)] p(2) by (simp add: pre'_def)
      ultimately show ?thesis using room_mono by blast
    qed
    then show ?thesis unfolding ch res by (auto intro!: flushes_error)
  next
    case True
    with IH obtain r where r: "close_levels lv = Some r" "rest = []" "holds b1 (pre' @ r)"
      by (auto simp: flushes_def)
    have rm: "\<And>m. room al b m \<Longrightarrow> room al b1 m" using IH True by (simp add: flushes_def)
    have "\<not> b_error b1" using r by (simp add: holds_def)
    then have res: "cbb_flush_children al b (child # gs) = cbb_flush_children al b1 [child]"
      using flush_children_step [OF err pll] inner True r(2) by simp
    have "holds b1 (pre @ replicate (placeholder k) 0 @ c @ r)" using r(3) by (simp add: pre'_def)
    moreover have "map_option (\<lambda>p. pre @ p @ c @ r) (enc_prefix k (length (c @ r)))
        = map_option (\<lambda>x. pre @ x) (close_levels (l # lv))"
      by (simp add: l r(1) split: option.splits)
    ultimately have "flushes al b1 (map_option (\<lambda>x. pre @ x) (close_levels (l # lv)))
        (cbb_flush_children al b1 [child])"
      using flush_child [of b1 pre k "c @ r" al] k by (simp only: child_def)
    then have "flushes al b (map_option (\<lambda>x. pre @ x) (close_levels (l # lv)))
        (cbb_flush_children al b1 [child])"
      using rm by (rule flushes_room_le)
    then show ?thesis unfolding ch res .
  qed
qed

section \<open>Writers\<close>

lemma flat_append: "flat (xs @ ys) = flat xs @ flat ys"
  by (induction xs rule: flat.induct) simp_all

lemma drop_children_at:
  "drop d (children_at n L) = children_at (n + length (flat (take d L))) (drop d L)"
proof (induction L arbitrary: n d)
  case (Cons l L)
  obtain k c where "l = (k, c)" by fastforce
  with Cons show ?case by (cases d) (simp_all add: add.assoc)
qed simp

lemma take_children_at: "take d (children_at n L) = children_at n (take d L)"
proof (induction L arbitrary: n d)
  case (Cons l L)
  then show ?case by (cases l; cases d) simp_all
qed simp

lemma length_children_at [simp]: "length (children_at n L) = length L"
  by (induction n L rule: children_at.induct) simp_all

lemma children_at_emit:
  "L \<noteq> [] \<Longrightarrow> children_at n (emit bs L) = children_at n L"
proof -
  have "children_at n (M @ [(k, c)]) = children_at n (M @ [(k, c @ bs)])" for M k c
    by (induction n M rule: children_at.induct) simp_all
  moreover assume "L \<noteq> []"
  then have "L = butlast L @ [(fst (last L), snd (last L))]" by simp
  ultimately show ?thesis by (metis emit_def)
qed

lemma flat_emit: "L \<noteq> [] \<Longrightarrow> flat (emit bs L) = flat L @ bs"
proof -
  assume "L \<noteq> []"
  then obtain M k c where "L = M @ [(k, c)]" by (metis append_butlast_last_id prod.collapse)
  then show ?thesis by (simp add: emit_def flat_append)
qed

lemma emit_Nil: "L \<noteq> [] \<Longrightarrow> emit [] L = L"
  by (simp add: emit_def)

lemma emit_emit: "emit ys (emit xs L) = emit (xs @ ys) L"
  by (simp add: emit_def)

lemma length_emit [simp]: "L \<noteq> [] \<Longrightarrow> length (emit bs L) = length L"
  by (simp add: emit_def)

lemma emit_nonempty [simp]: "emit bs L \<noteq> []"
  by (simp add: emit_def)

lemma wf_emit: "wf_levels L \<Longrightarrow> wf_levels (emit bs L)"
  by (cases L rule: rev_cases; cases "butlast L") (auto simp: wf_levels_def emit_def)

lemma wf_take: "wf_levels L \<Longrightarrow> 0 < d \<Longrightarrow> wf_levels (take d L)"
  by (cases L; cases d) (auto simp: wf_levels_def list_all_iff dest: in_set_takeD)

lemma wf_drop: "wf_levels L \<Longrightarrow> list_all (\<lambda>(k, c). wf_prefix k) (drop (Suc d) L)"
  by (cases L) (auto simp: wf_levels_def list_all_iff dest: in_set_dropD)

lemma settle_length: "settle d L = Some L' \<Longrightarrow> length L' = Suc d"
  by (cases L) (auto simp: settle_def min_def Suc_le_eq split: if_splits)

lemma settle_settled: "length L = Suc d \<Longrightarrow> settle d L = Some L"
  by (cases L) (simp_all add: settle_def emit_Nil)

lemma settle_size: "settle d L = Some L' \<Longrightarrow> length (flat L) \<le> length (flat L')"
proof -
  assume "settle d L = Some L'"
  then obtain x where d: "d < length L" and x: "close_levels (drop (Suc d) L) = Some x"
    and L': "L' = emit x (take (Suc d) L)"
    by (auto simp: settle_def split: if_splits)
  have "length (flat (drop (Suc d) L)) \<le> length x" using x by (rule length_close_levels)
  moreover have "flat L = flat (take (Suc d) L) @ flat (drop (Suc d) L)"
    by (simp flip: flat_append)
  moreover have "take (Suc d) L \<noteq> []" using d by auto
  ultimately show ?thesis by (simp add: L' flat_emit)
qed

lemma CBB_flush_repr:
  assumes st: "repr st L" and d: "d < length L" and run: "CBB_flush al d st = (ok, st')"
  shows "ok \<Longrightarrow> \<exists>L'. settle d L = Some L' \<and> repr st' L'"
    and "\<not> ok \<Longrightarrow> \<exists>b. cbb_base st' = Some b \<and> b_error b"
    and "ok \<Longrightarrow> room_le al st st'"
    and "settle d L = Some L' \<Longrightarrow> st_room al st (length (flat L')) \<Longrightarrow> ok"
proof -
  obtain b where b: "cbb_base st = Some b" "holds b (flat L)" and ch: "cbb_children st = tl (children_at 0 L)"
    and wf: "wf_levels L" using st by (auto simp: repr_def)
  define pre where "pre = flat (take (Suc d) L)"
  have tk: "take (Suc d) L \<noteq> []" using d by auto
  have fl: "flat L = pre @ flat (drop (Suc d) L)" by (simp add: pre_def flip: flat_append)
  have dr: "drop d (cbb_children st) = children_at (length pre) (drop (Suc d) L)"
    using drop_children_at [of "Suc d" 0 L] by (simp add: ch drop_Suc pre_def)
  have tkc: "take d (cbb_children st) = tl (children_at 0 (take (Suc d) L))"
  proof -
    have "take d (tl (children_at 0 L)) = tl (take (Suc d) (children_at 0 L))"
      by (cases "children_at 0 L") simp_all
    then show ?thesis by (simp add: ch take_children_at)
  qed
  obtain ok1 b1 rest where run1: "cbb_flush_children al b (drop d (cbb_children st)) = (ok1, b1, rest)"
    by (metis prod_cases3)
  have "\<not> d > length (cbb_children st)" using d ch by (auto simp: wf_levels_def)
  then have st': "ok = ok1"
    "st' = st\<lparr>cbb_base := Some b1, cbb_children := take d (cbb_children st) @ rest\<rparr>"
    using run b(1) run1 by (simp_all add: CBB_flush_def)
  have F: "flushes al b (map_option (\<lambda>x. pre @ x) (close_levels (drop (Suc d) L))) (ok1, b1, rest)"
    using flush_children [of b pre "drop (Suc d) L" al] b(2) fl wf_drop [OF wf] run1 dr by simp
  show "\<not> ok \<Longrightarrow> \<exists>b. cbb_base st' = Some b \<and> b_error b"
    using F st' by (auto simp: flushes_def)
  show "ok \<Longrightarrow> room_le al st st'"
    using F st' b(1) by (auto simp: flushes_def room_le_def st_room_def)
  show "settle d L = Some L' \<Longrightarrow> st_room al st (length (flat L')) \<Longrightarrow> ok"
  proof -
    assume "settle d L = Some L'" "st_room al st (length (flat L'))"
    then obtain x where "close_levels (drop (Suc d) L) = Some x" "room al b (length (pre @ x))"
      using d tk b(1) by (auto simp: settle_def flat_emit pre_def st_room_def)
    with F st' show ok by (simp add: flushes_def)
  qed
  show "ok \<Longrightarrow> \<exists>L'. settle d L = Some L' \<and> repr st' L'"
  proof -
    assume ok
    with F st' obtain x where x: "close_levels (drop (Suc d) L) = Some x" "holds b1 (pre @ x)" "rest = []"
      by (auto simp: flushes_def)
    then have "settle d L = Some (emit x (take (Suc d) L))" using d by (simp add: settle_def)
    moreover have "repr st' (emit x (take (Suc d) L))"
      using st' x tk wf_emit [OF wf_take [OF wf]]
      by (simp add: repr_def flat_emit children_at_emit tkc pre_def)
    ultimately show ?thesis by blast
  qed
qed

text \<open>
  The contract of a writer: when it returns 1 it has done what its specification says, when the
  specification has a result that fits it does return 1, and nothing that was written is lost.
\<close>

locale cbb_writer =
  fixes al :: allocator
    and op :: "cbb_st \<Rightarrow> bool \<times> cbb_st"
    and spec :: "level list \<Rightarrow> level list option"
  assumes result: "repr st L \<Longrightarrow> op st = (True, st') \<Longrightarrow>
      \<exists>L'. spec L = Some L' \<and> repr st' L' \<and> room_le al st st'"
    and total: "repr st L \<Longrightarrow> spec L = Some L' \<Longrightarrow> st_room al st (length (flat L')) \<Longrightarrow> fst (op st)"
    and grows: "spec L = Some L' \<Longrightarrow> length (flat L) \<le> length (flat L')"
begin

lemma writes:
  assumes "repr st L" "spec L = Some L'" "st_room al st (length (flat L'))"
  shows "\<exists>st'. op st = (True, st') \<and> repr st' L' \<and> room_le al st st'"
proof -
  have "fst (op st)" using assms by (rule total)
  then obtain st' where "op st = (True, st')" by (cases "op st") simp
  with result [OF assms(1) this] assms(2) show ?thesis by auto
qed

lemma refuses: "repr st L \<Longrightarrow> spec L = None \<Longrightarrow> \<not> fst (op st)"
  using result by (cases "op st") fastforce

end

lemma cbb_writer_seq:
  assumes "cbb_writer al f F" "cbb_writer al g G"
  shows "cbb_writer al (\<lambda>st. case f st of (False, st) \<Rightarrow> (False, st) | (True, st) \<Rightarrow> g st)
    (\<lambda>L. case F L of None \<Rightarrow> None | Some L \<Rightarrow> G L)"
proof
  fix st L st'
  assume st: "repr st L" and run: "(case f st of (False, st) \<Rightarrow> (False, st) | (True, st) \<Rightarrow> g st) = (True, st')"
  then obtain st1 where 1: "f st = (True, st1)" "g st1 = (True, st')"
    by (auto split: prod.splits bool.splits)
  obtain L1 where L1: "F L = Some L1" "repr st1 L1" "room_le al st st1"
    using cbb_writer.result [OF assms(1) st 1(1)] by blast
  obtain L2 where "G L1 = Some L2" "repr st' L2" "room_le al st1 st'"
    using cbb_writer.result [OF assms(2) L1(2) 1(2)] by blast
  with L1 room_le_trans
  show "\<exists>L'. (case F L of None \<Rightarrow> None | Some L \<Rightarrow> G L) = Some L' \<and> repr st' L' \<and> room_le al st st'"
    by auto
next
  fix st L L'
  assume st: "repr st L" and spec: "(case F L of None \<Rightarrow> None | Some L \<Rightarrow> G L) = Some L'"
    and room: "st_room al st (length (flat L'))"
  from spec obtain L1 where L1: "F L = Some L1" "G L1 = Some L'" by (auto split: option.splits)
  have "st_room al st (length (flat L1))"
    using room cbb_writer.grows [OF assms(2) L1(2)] st_room_mono by blast
  from cbb_writer.writes [OF assms(1) st L1(1) this]
  obtain st1 where st1: "f st = (True, st1)" "repr st1 L1" "room_le al st st1" by blast
  with room have "st_room al st1 (length (flat L'))" by (simp add: room_le_def)
  from cbb_writer.total [OF assms(2) st1(2) L1(2) this] st1(1)
  show "fst (case f st of (False, st) \<Rightarrow> (False, st) | (True, st) \<Rightarrow> g st)" by simp
next
  fix L L'
  assume "(case F L of None \<Rightarrow> None | Some L \<Rightarrow> G L) = Some L'"
  then obtain L1 where "F L = Some L1" "G L1 = Some L'" by (auto split: option.splits)
  then show "length (flat L) \<le> length (flat L')"
    using cbb_writer.grows [OF assms(1)] cbb_writer.grows [OF assms(2)] order_trans by blast
qed

lemma write_at_seq:
  "(case write_at d xs L of None \<Rightarrow> None | Some L \<Rightarrow> write_at d ys L) = write_at d (xs @ ys) L"
proof (cases "settle d L")
  case (Some L1)
  then have "length (emit xs L1) = Suc d" using settle_length [OF Some] by (cases L1) simp_all
  then show ?thesis using Some by (simp add: write_at_def settle_settled emit_emit)
qed (simp add: write_at_def)

lemma cbb_writer_append:
  assumes "cbb_writer al f (write_at d x)" "cbb_writer al g (write_at d y)"
  shows "cbb_writer al (\<lambda>st. case f st of (False, st) \<Rightarrow> (False, st) | (True, st) \<Rightarrow> g st)
    (write_at d (x @ y))"
  using cbb_writer_seq [OF assms] by (simp only: write_at_seq)

lemma write_at_size: "write_at d bs L = Some L' \<Longrightarrow> length (flat L) \<le> length (flat L')"
proof -
  assume "write_at d bs L = Some L'"
  then obtain L1 where L1: "settle d L = Some L1" "L' = emit bs L1" by (auto simp: write_at_def)
  then have "L1 \<noteq> []" using settle_length [OF L1(1)] by auto
  with settle_size [OF L1(1)] L1(2) show ?thesis by (simp add: flat_emit)
qed

lemma repr_emit:
  assumes "repr st L" "holds b (flat L @ x)"
  shows "repr (st\<lparr>cbb_base := Some b\<rparr>) (emit x L)"
proof -
  have wf: "wf_levels L" "L \<noteq> []" using assms by (auto simp: repr_def wf_levels_def)
  with assms show ?thesis
    by (simp add: repr_def flat_emit children_at_emit wf_emit)
qed

text \<open>An operation that flushes and then works on the buffer.\<close>

lemma flush_then_cases:
  assumes st: "repr st L"
  obtains (refused) st1 where "flush_then al d f st = (None, st1)"
      "\<And>L1. settle d L = Some L1 \<Longrightarrow> \<not> st_room al st (length (flat L1))"
  | (flushed) L1 st1 b where "settle d L = Some L1" "repr st1 L1" "cbb_base st1 = Some b"
      "holds b (flat L1)" "room_le al st st1"
      "flush_then al d f st = (fst (f b), st1\<lparr>cbb_base := Some (snd (f b))\<rparr>)"
proof -
  obtain ok st1 where run: "CBB_flush al d st = (ok, st1)" by fastforce
  show ?thesis
  proof (cases "d < length L")
    case False
    then have "length (cbb_children st) < d"
      using st by (cases L) (auto simp: repr_def wf_levels_def)
    then have "\<not> ok" using run by (auto simp: CBB_flush_def split: option.splits)
    with run refused [of st1] False show ?thesis by (simp add: flush_then_def settle_def)
  next
    case True
    note F = CBB_flush_repr [OF st True run]
    show ?thesis
    proof (cases ok)
      case False
      with run refused [of st1] F(4) show ?thesis by (auto simp: flush_then_def)
    next
      case True
      then obtain L1 where L1: "settle d L = Some L1" "repr st1 L1" using F(1) by blast
      then obtain b where "cbb_base st1 = Some b" "holds b (flat L1)" by (auto simp: repr_def)
      with L1 True run F(3) flushed [of L1 st1 b] show ?thesis
        by (simp add: flush_then_def split: prod.splits)
    qed
  qed
qed

text \<open>A writer that adds \<open>n\<close> bytes and fills them in.\<close>

lemma flush_add_store:
  assumes st: "repr st L" and n: "length x < size_mod"
    and run: "flush_then al d (\<lambda>base. cbb_buffer_add al base (length x)) st = (r, st')"
  shows "r = Some p \<Longrightarrow> \<exists>L1. settle d L = Some L1 \<and> repr (cbb_store p x st') (emit x L1)
      \<and> room_le al st (cbb_store p x st') \<and> p = length (flat L1) \<and> cbb_children st' = tl (children_at 0 L1)"
    and "write_at d x L = Some L' \<Longrightarrow> st_room al st (length (flat L')) \<Longrightarrow> r \<noteq> None"
proof -
  have "(\<forall>p. r = Some p \<longrightarrow> (\<exists>L1. settle d L = Some L1 \<and> repr (cbb_store p x st') (emit x L1)
      \<and> room_le al st (cbb_store p x st') \<and> p = length (flat L1) \<and> cbb_children st' = tl (children_at 0 L1)))
    \<and> (\<forall>L'. write_at d x L = Some L' \<longrightarrow> st_room al st (length (flat L')) \<longrightarrow> r \<noteq> None)"
    using st
  proof (cases rule: flush_then_cases [where d = d and al = al and f = "\<lambda>base. cbb_buffer_add al base (length x)"])
    case (refused st1)
    have "\<not> st_room al st (length (flat L'))" if w: "write_at d x L = Some L'" for L'
    proof -
      from w obtain L1 where L1: "settle d L = Some L1" "L' = emit x L1" by (auto simp: write_at_def)
      then have "L1 \<noteq> []" using settle_length [OF L1(1)] by auto
      then have "length (flat L1) \<le> length (flat L')" by (simp add: L1(2) flat_emit)
      then show ?thesis using refused(2) [OF L1(1)] st_room_mono by blast
    qed
    moreover have "r = None" using refused(1) run by simp
    ultimately show ?thesis by simp
  next
    case (flushed L1 st1 b)
    obtain r1 b1 where add: "cbb_buffer_add al b (length x) = (r1, b1)" by fastforce
    note R = cbb_buffer_add_holds [OF flushed(4) n add]
    have L1: "L1 \<noteq> []" using settle_length [OF flushed(1)] by auto
    have res: "r = r1" "st' = st1\<lparr>cbb_base := Some b1\<rparr>" using flushed(6) run add by simp_all
    have "\<exists>L1. settle d L = Some L1 \<and> repr (cbb_store p x st') (emit x L1)
      \<and> room_le al st (cbb_store p x st') \<and> p = length (flat L1) \<and> cbb_children st' = tl (children_at 0 L1)"
      if p: "r = Some p" for p
    proof -
      obtain y where y: "p = length (flat L1)" "length y = length x" "holds b1 (flat L1 @ y)"
        using R(1) p res by auto
      have "holds (b1\<lparr>b_buf := mem_write (b_buf b1) p x\<rparr>) (flat L1 @ x)"
        using holds_mem_write [OF y(3), of p x] mem_write_middle [of y x "flat L1" "[]"] y by simp
      moreover have "cbb_store p x st' = st1\<lparr>cbb_base := Some (b1\<lparr>b_buf := mem_write (b_buf b1) p x\<rparr>)\<rparr>"
        by (simp add: cbb_store_def res)
      ultimately have "repr (cbb_store p x st') (emit x L1)"
        using repr_emit [OF flushed(2)] by simp
      moreover have "room_le al st1 (cbb_store p x st')"
        using R(3) p res flushed(3) by (auto simp: room_le_def st_room_def cbb_store_def)
      then have "room_le al st (cbb_store p x st')" using flushed(5) room_le_trans by blast
      moreover have "cbb_children st' = tl (children_at 0 L1)"
        using flushed(2) res(2) by (simp add: repr_def)
      ultimately show ?thesis using flushed(1) y(1) by blast
    qed
    moreover have "r \<noteq> None" if w: "write_at d x L = Some L'" "st_room al st (length (flat L'))" for L'
    proof -
      have "st_room al st1 (length (flat L'))" using w(2) flushed(5) by (simp add: room_le_def)
      moreover have "length (flat L') = length (flat L1) + length x"
        using w(1) flushed(1) L1 by (auto simp: write_at_def flat_emit)
      ultimately have "room al b (length (flat L1) + length x)"
        using flushed(3) by (simp add: st_room_def)
      then show ?thesis using R(4) res by simp
    qed
    ultimately show ?thesis by blast
  qed
  then show "r = Some p \<Longrightarrow> \<exists>L1. settle d L = Some L1 \<and> repr (cbb_store p x st') (emit x L1)
      \<and> room_le al st (cbb_store p x st') \<and> p = length (flat L1) \<and> cbb_children st' = tl (children_at 0 L1)"
    and "write_at d x L = Some L' \<Longrightarrow> st_room al st (length (flat L')) \<Longrightarrow> r \<noteq> None"
    by blast+
qed


lemma add_bytes_writer:
  assumes "n \<le> length data" "n < size_mod"
  shows "cbb_writer al (CBB_add_bytes al d data n) (write_at d (take n data))"
proof
  have n: "length (take n data) = n" "length (take n data) < size_mod" using assms by simp_all
  fix st L
  assume st: "repr st L"
  obtain r st1 where run: "flush_then al d (\<lambda>base. cbb_buffer_add al base (length (take n data))) st = (r, st1)"
    by fastforce
  note F = flush_add_store [OF st n(2) run]
  have op: "CBB_add_bytes al d data n st
      = (case r of None \<Rightarrow> (False, st1) | Some p \<Rightarrow> (True, cbb_store p (take n data) st1))"
    using run n(1) by (simp add: CBB_add_bytes_def)
  show "\<exists>L'. write_at d (take n data) L = Some L' \<and> repr st' L' \<and> room_le al st st'"
    if "CBB_add_bytes al d data n st = (True, st')" for st'
  proof -
    from that obtain p where "r = Some p" "st' = cbb_store p (take n data) st1"
      by (auto simp: op split: option.splits)
    then show ?thesis using F(1) by (auto simp: write_at_def)
  qed
  show "fst (CBB_add_bytes al d data n st)"
    if "write_at d (take n data) L = Some L'" "st_room al st (length (flat L'))" for L'
    using F(2) [OF that] by (auto simp: op split: option.splits)
qed (rule write_at_size)

lemma add_zeros_writer:
  assumes "n < size_mod"
  shows "cbb_writer al (CBB_add_zeros al d n) (write_at d (replicate n 0))"
proof -
  have "CBB_add_zeros al d n = CBB_add_bytes al d (replicate n 0) n"
    by (rule ext) (simp add: CBB_add_zeros_def CBB_add_bytes_def CBB_add_space_def
        split: prod.splits option.splits)
  then show ?thesis using add_bytes_writer [of n "replicate n 0" al d] assms by simp
qed

definition write_u_at :: "nat \<Rightarrow> u64 \<Rightarrow> nat \<Rightarrow> level list \<Rightarrow> level list option" where
  "write_u_at d v n L = (if unat v < 256 ^ n then write_at d (be_bytes n (unat v)) L else None)"

lemma add_u_writer:
  assumes "1 \<le> n" "n \<le> 8"
  shows "cbb_writer al (cbb_add_u al d v n) (write_u_at d v n)"
proof
  fix st L
  assume st: "repr st L"
  define f where "f = (\<lambda>base. case cbb_buffer_add_u al base v n of
    (ok, base) \<Rightarrow> (if ok then Some () else None, base))"
  have op: "cbb_add_u al d v n st = (case flush_then al d f st of (r, cbb) \<Rightarrow> (r \<noteq> None, cbb))"
    by (simp add: cbb_add_u_def f_def)
  have both: "(\<forall>st'. cbb_add_u al d v n st = (True, st') \<longrightarrow>
        (\<exists>L'. write_u_at d v n L = Some L' \<and> repr st' L' \<and> room_le al st st'))
    \<and> (\<forall>L'. write_u_at d v n L = Some L' \<longrightarrow> st_room al st (length (flat L'))
        \<longrightarrow> fst (cbb_add_u al d v n st))"
    using st
  proof (cases rule: flush_then_cases [where d = d and al = al and f = f])
    case (refused st1)
    have "\<not> st_room al st (length (flat L'))" if w: "write_u_at d v n L = Some L'" for L'
    proof -
      from w obtain L1 where L1: "settle d L = Some L1" "L' = emit (be_bytes n (unat v)) L1"
        by (auto simp: write_u_at_def write_at_def split: if_splits)
      then have "L1 \<noteq> []" using settle_length [OF L1(1)] by auto
      then have "length (flat L1) \<le> length (flat L')" by (simp add: L1(2) flat_emit)
      then show ?thesis using refused(2) [OF L1(1)] st_room_mono by blast
    qed
    moreover have "cbb_add_u al d v n st = (False, st1)" using refused(1) by (simp add: op)
    ultimately show ?thesis by simp
  next
    case (flushed L1 st1 b)
    obtain ok b1 where add: "cbb_buffer_add_u al b v n = (ok, b1)" by fastforce
    note R = cbb_buffer_add_u_holds [OF flushed(4) assms add]
    have L1: "L1 \<noteq> []" using settle_length [OF flushed(1)] by auto
    have run: "cbb_add_u al d v n st = (ok, st1\<lparr>cbb_base := Some b1\<rparr>)"
      using flushed(6) by (simp add: op f_def add)
    have "\<exists>L'. write_u_at d v n L = Some L' \<and> repr (st1\<lparr>cbb_base := Some b1\<rparr>) L'
        \<and> room_le al st (st1\<lparr>cbb_base := Some b1\<rparr>)" if ok
    proof -
      have v: "unat v < 256 ^ n" "holds b1 (flat L1 @ be_bytes n (unat v))" using R(1) that by auto
      have "room_le al st1 (st1\<lparr>cbb_base := Some b1\<rparr>)"
        using R(3) [OF that] flushed(3) by (simp add: room_le_def st_room_def)
      then have "room_le al st (st1\<lparr>cbb_base := Some b1\<rparr>)" using flushed(5) room_le_trans by blast
      moreover have "write_u_at d v n L = Some (emit (be_bytes n (unat v)) L1)"
        using v(1) flushed(1) by (simp add: write_u_at_def write_at_def)
      ultimately show ?thesis using repr_emit [OF flushed(2) v(2)] by blast
    qed
    moreover have ok if w: "write_u_at d v n L = Some L'" "st_room al st (length (flat L'))" for L'
    proof -
      have "st_room al st1 (length (flat L'))" using w(2) flushed(5) by (simp add: room_le_def)
      moreover have "length (flat L') = length (flat L1) + n" and v: "unat v < 256 ^ n"
        using w(1) flushed(1) L1 by (auto simp: write_u_at_def write_at_def flat_emit split: if_splits)
      ultimately have "room al b (length (flat L1) + n)" "unat v < 256 ^ n"
        using flushed(3) by (simp_all add: st_room_def)
      then show ?thesis using R(4) by simp
    qed
    ultimately show ?thesis by (auto simp: run)
  qed
  show "\<exists>L'. write_u_at d v n L = Some L' \<and> repr st' L' \<and> room_le al st st'"
    if "cbb_add_u al d v n st = (True, st')" for st'
    using both that by blast
  show "fst (cbb_add_u al d v n st)"
    if "write_u_at d v n L = Some L'" "st_room al st (length (flat L'))" for L'
    using both that by blast
next
  show "length (flat L) \<le> length (flat L')" if "write_u_at d v n L = Some L'" for L L'
    using that write_at_size by (auto simp: write_u_at_def split: if_splits)
qed

subsection \<open>The integer writers\<close>

lemma write_u_at_fits: "unat v < 256 ^ n \<Longrightarrow> write_u_at d v n = write_at d (be_bytes n (unat v))"
  by (rule ext) (simp add: write_u_at_def)

interpretation add_u8: cbb_writer al "CBB_add_u8 al d v" "write_at d [v]" for al d v
proof -
  have "write_u_at d (ucast v) 1 = write_at d [v]"
    by (subst write_u_at_fits) simp_all
  then show "cbb_writer al (CBB_add_u8 al d v) (write_at d [v])"
    using add_u_writer [of 1 al d "ucast v"] unfolding CBB_add_u8_def by simp
qed

interpretation add_u16: cbb_writer al "CBB_add_u16 al d v" "write_at d (be_bytes 2 (unat v))" for al d v
proof -
  have "unat (ucast v :: u64) = unat v" by (rule unat_ucast_up) simp
  moreover have "unat v < 256 ^ 2" using unsigned_less [of v, where 'a = nat] by simp
  ultimately have "write_u_at d (ucast v) 2 = write_at d (be_bytes 2 (unat v))"
    by (subst write_u_at_fits) simp_all
  then show "cbb_writer al (CBB_add_u16 al d v) (write_at d (be_bytes 2 (unat v)))"
    using add_u_writer [of 2 al d "ucast v"] unfolding CBB_add_u16_def by simp
qed

interpretation add_u24: cbb_writer al "CBB_add_u24 al d v"
  "\<lambda>L. if unat v < 256 ^ 3 then write_at d (be_bytes 3 (unat v)) L else None" for al d v
proof -
  have "unat (ucast v :: u64) = unat v" by (rule unat_ucast_up) simp
  then have "write_u_at d (ucast v) 3
      = (\<lambda>L. if unat v < 256 ^ 3 then write_at d (be_bytes 3 (unat v)) L else None)"
    by (intro ext) (simp add: write_u_at_def)
  then show "cbb_writer al (CBB_add_u24 al d v)
      (\<lambda>L. if unat v < 256 ^ 3 then write_at d (be_bytes 3 (unat v)) L else None)"
    using add_u_writer [of 3 al d "ucast v"] unfolding CBB_add_u24_def by simp
qed

interpretation add_u32: cbb_writer al "CBB_add_u32 al d v" "write_at d (be_bytes 4 (unat v))" for al d v
proof -
  have "unat (ucast v :: u64) = unat v" by (rule unat_ucast_up) simp
  moreover have "unat v < 256 ^ 4" using unsigned_less [of v, where 'a = nat] by simp
  ultimately have "write_u_at d (ucast v) 4 = write_at d (be_bytes 4 (unat v))"
    by (subst write_u_at_fits) simp_all
  then show "cbb_writer al (CBB_add_u32 al d v) (write_at d (be_bytes 4 (unat v)))"
    using add_u_writer [of 4 al d "ucast v"] unfolding CBB_add_u32_def by simp
qed

interpretation add_u64: cbb_writer al "CBB_add_u64 al d v" "write_at d (be_bytes 8 (unat v))" for al d v
proof -
  have "unat v < 256 ^ 8" using unsigned_less [of v, where 'a = nat] by simp
  then have "write_u_at d v 8 = write_at d (be_bytes 8 (unat v))" by (rule write_u_at_fits)
  then show "cbb_writer al (CBB_add_u64 al d v) (write_at d (be_bytes 8 (unat v)))"
    using add_u_writer [of 8 al d v] unfolding CBB_add_u64_def by simp
qed

interpretation add_u16le: cbb_writer al "CBB_add_u16le al d v" "write_at d (rev (be_bytes 2 (unat v)))" for al d v
  using add_u16.cbb_writer_axioms [of al d "CRYPTO_bswap2 v"]
  unfolding CBB_add_u16le_def CRYPTO_bswap2_bytes by simp

interpretation add_u32le: cbb_writer al "CBB_add_u32le al d v" "write_at d (rev (be_bytes 4 (unat v)))" for al d v
  using add_u32.cbb_writer_axioms [of al d "CRYPTO_bswap4 v"]
  unfolding CBB_add_u32le_def CRYPTO_bswap4_bytes by simp

interpretation add_u64le: cbb_writer al "CBB_add_u64le al d v" "write_at d (rev (be_bytes 8 (unat v)))" for al d v
  using add_u64.cbb_writer_axioms [of al d "CRYPTO_bswap8 v"]
  unfolding CBB_add_u64le_def CRYPTO_bswap8_bytes by simp

subsection \<open>Opening a child\<close>

lemma flat_open: "flat (L @ [(k, [])]) = flat L @ replicate (placeholder k) 0"
  by (simp add: flat_append)

lemma open_at_size: "open_at d k L = Some L' \<Longrightarrow> length (flat L) \<le> length (flat L')"
  by (auto simp: open_at_def flat_open dest: settle_size)

lemma open_at_write_at:
  "open_at d k L = Some L' \<longleftrightarrow> (\<exists>L1. settle d L = Some L1 \<and> L' = L1 @ [(k, [])])"
  by (auto simp: open_at_def)

text \<open>The child is registered behind the placeholder bytes that were written to its parent.\<close>

lemma repr_open:
  assumes st: "repr st (emit (replicate (placeholder k) 0) L1)" and k: "wf_prefix k"
    and ch: "cbb_children st' = tl (children_at 0 L1) @ [child_of (length (flat L1)) k]"
    and "cbb_base st' = cbb_base st" "L1 \<noteq> []"
  shows "repr st' (L1 @ [(k, [])])"
proof -
  have "wf_levels L1"
    using st \<open>L1 \<noteq> []\<close> by (cases L1 rule: rev_cases; cases "butlast L1")
      (auto simp: repr_def wf_levels_def emit_def)
  then have "wf_levels (L1 @ [(k, [])])" using k by (cases L1) (auto simp: wf_levels_def)
  moreover have "children_at n (M @ [(k, [])]) = children_at n M @ [child_of (n + length (flat M)) k]" for n M
    by (induction n M rule: children_at.induct) (simp_all add: child_of_def add.assoc)
  then have "cbb_children st' = tl (children_at 0 (L1 @ [(k, [])]))"
    using ch \<open>L1 \<noteq> []\<close> by (cases L1) (auto simp: add.assoc)
  ultimately show ?thesis
    using assms by (auto simp: repr_def flat_emit flat_open)
qed

lemma length_prefixed_writer:
  assumes n: "1 \<le> n" "n \<le> 8"
  shows "cbb_writer al (cbb_add_length_prefixed al d n) (open_at d (Pfx n))"
proof
  fix st L
  assume st: "repr st L"
  define x :: "byte list" where "x = replicate n 0"
  have len: "length x = n" "length x < size_mod" using n by (simp_all add: x_def)
  obtain r st1 where run: "flush_then al d (\<lambda>base. cbb_buffer_add al base (length x)) st = (r, st1)"
    by fastforce
  note F = flush_add_store [OF st len(2) run]
  define child where "child p = \<lparr>c_offset = p, c_pending_len_len = n, c_pending_is_asn1 = False\<rparr>" for p
  have op: "cbb_add_length_prefixed al d n st
      = (case r of None \<Rightarrow> (False, st1)
         | Some p \<Rightarrow> (True, (cbb_store p x st1)\<lparr>cbb_children := take d (cbb_children st1) @ [child p]\<rparr>))"
    using run by (simp add: cbb_add_length_prefixed_def len cbb_store_def x_def [symmetric] child_def
        split: option.splits)
  show "\<exists>L'. open_at d (Pfx n) L = Some L' \<and> repr st' L' \<and> room_le al st st'"
    if "cbb_add_length_prefixed al d n st = (True, st')" for st'
  proof -
    from that obtain p where p: "r = Some p"
      and st': "st' = (cbb_store p x st1)\<lparr>cbb_children := take d (cbb_children st1) @ [child p]\<rparr>"
      by (auto simp: op split: option.splits)
    from F(1) [OF p] obtain L1 where L1: "settle d L = Some L1" "repr (cbb_store p x st1) (emit x L1)"
      "room_le al st (cbb_store p x st1)" "p = length (flat L1)" "cbb_children st1 = tl (children_at 0 L1)"
      by blast
    have sz: "length L1 = Suc d" using L1(1) by (rule settle_length)
    then have "take d (cbb_children st1) = tl (children_at 0 L1)" using L1(5) by simp
    moreover have "child p = child_of (length (flat L1)) (Pfx n)"
      by (simp add: child_def child_of_def L1(4))
    ultimately have "repr st' (L1 @ [(Pfx n, [])])"
      using L1(2) sz n by (intro repr_open [where st = "cbb_store p x st1"])
        (auto simp: st' x_def wf_prefix_def)
    moreover have "room_le al st st'"
      using L1(3) by (simp add: room_le_def st_room_def st')
    ultimately show ?thesis using L1(1) by (auto simp: open_at_def)
  qed
  show "fst (cbb_add_length_prefixed al d n st)"
    if L': "open_at d (Pfx n) L = Some L'" and room: "st_room al st (length (flat L'))" for L'
  proof -
    from L' obtain L1 where L1: "settle d L = Some L1" "L' = L1 @ [(Pfx n, [])]"
      by (auto simp: open_at_def)
    have "L1 \<noteq> []" using settle_length [OF L1(1)] by auto
    then have "length (flat (emit x L1)) = length (flat L')" by (simp add: L1 flat_emit flat_open x_def)
    moreover have "write_at d x L = Some (emit x L1)" using L1 by (simp add: write_at_def)
    ultimately show ?thesis using F(2) room by (auto simp: op split: option.splits)
  qed
qed (rule open_at_size)

interpretation add_u8_length_prefixed:
  cbb_writer al "CBB_add_u8_length_prefixed al d" "open_at d (Pfx 1)" for al d
  unfolding CBB_add_u8_length_prefixed_def by (rule length_prefixed_writer) simp_all

interpretation add_u16_length_prefixed:
  cbb_writer al "CBB_add_u16_length_prefixed al d" "open_at d (Pfx 2)" for al d
  unfolding CBB_add_u16_length_prefixed_def by (rule length_prefixed_writer) simp_all

interpretation add_u24_length_prefixed:
  cbb_writer al "CBB_add_u24_length_prefixed al d" "open_at d (Pfx 3)" for al d
  unfolding CBB_add_u24_length_prefixed_def by (rule length_prefixed_writer) simp_all

section \<open>ASN.1 elements\<close>

text \<open>The base-128 digits that \<open>add_base128_integer\<close> writes are those of \<open>base128\<close>.\<close>

definition digit_hi :: "nat \<Rightarrow> nat \<Rightarrow> byte" where
  "digit_hi n i = word_of_nat (128 + n div 128 ^ i mod 128)"

fun digit_count :: "nat \<Rightarrow> nat" where
  "digit_count n = (if n = 0 then 0 else Suc (digit_count (n div 128)))"

declare digit_count.simps [simp del]

lemma digit_hi_shift: "map (digit_hi n) (rev [1..<Suc k]) = map (digit_hi (n div 128)) (rev [0..<k])"
proof -
  have "[1..<Suc k] = map Suc [0..<k]" by (simp only: map_Suc_upt) simp
  then have "rev [1..<Suc k] = map Suc (rev [0..<k])" by (simp only: rev_map)
  moreover have "digit_hi n (Suc i) = digit_hi (n div 128) i" for i
    by (simp add: digit_hi_def div_mult2_eq)
  ultimately show ?thesis by (simp add: o_def)
qed

lemma base128_hi_digits: "base128_hi n = map (digit_hi n) (rev [0..<digit_count n])"
proof (induction n rule: less_induct)
  case (less n)
  show ?case
  proof (cases "n = 0")
    case True
    then show ?thesis by (simp add: digit_count.simps)
  next
    case False
    then have c: "digit_count n = Suc (digit_count (n div 128))" by (simp add: digit_count.simps)
    have "rev [0..<Suc k] = rev [1..<Suc k] @ [0]" for k by (simp add: upt_rec)
    then have "map (digit_hi n) (rev [0..<digit_count n])
        = map (digit_hi (n div 128)) (rev [0..<digit_count (n div 128)]) @ [digit_hi n 0]"
      by (simp only: c map_append digit_hi_shift) simp
    also have "\<dots> = base128_hi (n div 128) @ [digit_hi n 0]"
      using False less [of "n div 128"] by simp
    also have "\<dots> = base128_hi n" using False by (simp add: base128_hi_step digit_hi_def)
    finally show ?thesis by simp
  qed
qed

lemma base128_len_count: "base128_len w = digit_count (unat w)"
proof (induction w rule: base128_len.induct)
  case (1 w)
  have u: "unat (drop_bit 7 w) = unat w div 128"
    using unat_drop_bit_eq [of 7 w] drop_bit_eq_div [of 7 "unat w"] by (simp only:) simp
  show ?case
  proof (cases "w > 0")
    case True
    then have "unat w \<noteq> 0" by (simp add: unsigned_eq_0_iff)
    with True 1 u show ?thesis by (subst base128_len.simps, subst digit_count.simps) simp
  next
    case False
    then have "w = 0" by (simp add: word_gt_0)
    then show ?thesis by (subst base128_len.simps, subst digit_count.simps) simp
  qed
qed

fun base128_digits :: "u64 \<Rightarrow> nat \<Rightarrow> byte list" where
  "base128_digits v 0 = []"
| "base128_digits v (Suc i) =
     (let b = ucast (drop_bit (7 * i) v AND 0x7f) :: byte in (if i \<noteq> 0 then b OR 0x80 else b))
     # base128_digits v i"

lemma seven_bits:
  "(ucast ((w :: u64) AND 0x7f) :: byte) = word_of_nat (unat w mod 128)"
  "(ucast ((w :: u64) AND 0x7f) :: byte) OR 0x80 = word_of_nat (128 + unat w mod 128)"
proof -
  have "(0x7f :: u64) = mask 7" by (simp add: mask_eq_exp_minus_1)
  then have "w AND 0x7f = take_bit 7 w" by (simp only: take_bit_eq_mask)
  then have "unat (w AND 0x7f) = take_bit 7 (unat w)" by (simp only: unsigned_take_bit_eq)
  then have "unat (w AND 0x7f) = unat w mod 128" by (simp add: take_bit_eq_mod)
  then have u: "unat (ucast (w AND 0x7f) :: byte) = unat w mod 128"
    by (subst unat_ucast_down) (simp_all add: less_le_trans [OF mod_less_divisor])
  then show 1: "(ucast (w AND 0x7f) :: byte) = word_of_nat (unat w mod 128)"
    by (metis of_nat_unat ucast_id)
  have "(ucast (w AND 0x7f) :: byte) AND 0x80 = 0"
    using u by (simp add: byte_top_bit)
  then have "unat ((ucast (w AND 0x7f) :: byte) OR 0x80) = unat w mod 128 + 128"
    using u by (simp add: unat_or_disjoint)
  then show "(ucast (w AND 0x7f) :: byte) OR 0x80 = word_of_nat (128 + unat w mod 128)"
    by (metis of_nat_unat ucast_id add.commute)
qed

lemma unat_drop_digits: "unat (drop_bit (7 * i) (v :: u64)) = unat v div 128 ^ i"
proof -
  have "unat (drop_bit (7 * i) v) = unat v div 2 ^ (7 * i)"
    using unat_drop_bit_eq [of "7 * i" v] drop_bit_eq_div [of "7 * i" "unat v"] by (simp only:)
  then show ?thesis by (simp add: power_mult)
qed

lemma base128_digits_eq:
  "base128_digits v (Suc n) = map (digit_hi (unat v)) (rev [1..<Suc n]) @ [word_of_nat (unat v mod 128)]"
proof (induction n)
  case 0
  then show ?case by (simp add: seven_bits)
next
  case (Suc n)
  have "(ucast (drop_bit (7 * Suc n) v AND 0x7f) :: byte) OR 0x80 = digit_hi (unat v) (Suc n)"
    by (simp only: seven_bits(2) unat_drop_digits digit_hi_def)
  then have "base128_digits v (Suc (Suc n)) = digit_hi (unat v) (Suc n) # base128_digits v (Suc n)"
    by (simp only: base128_digits.simps(2) [of v "Suc n"] Let_def
        nat.distinct not_False_eq_True if_True)
  also have "\<dots> = (digit_hi (unat v) (Suc n) # map (digit_hi (unat v)) (rev [1..<Suc n]))
      @ [word_of_nat (unat v mod 128)]"
    by (simp only: Suc append_Cons)
  also have "digit_hi (unat v) (Suc n) # map (digit_hi (unat v)) (rev [1..<Suc n])
      = map (digit_hi (unat v)) (rev [1..<Suc (Suc n)])"
    by simp
  finally show ?case .
qed

lemma base128_digits_base128:
  "base128_digits v (if base128_len v = 0 then 1 else base128_len v) = base128 (unat v)"
proof -
  have "(if base128_len v = 0 then 1 else base128_len v) = Suc (digit_count (unat v div 128))"
    unfolding base128_len_count using digit_count.simps [of "unat v"]
    by (cases "unat v = 0") (simp_all add: digit_count.simps [of 0])
  then show ?thesis
    by (simp only: base128_digits_eq digit_hi_shift base128_def base128_hi_digits)
qed

lemma add_base128_digits_writer:
  "1 \<le> n \<Longrightarrow> cbb_writer al (add_base128_digits al d v n) (write_at d (base128_digits v n))"
proof (induction n rule: nat_induct_at_least)
  case base
  have "add_base128_digits al d v 1 = CBB_add_u8 al d (ucast (v AND 0x7f))"
    by (rule ext) (simp add: Let_def split: prod.splits bool.splits)
  moreover have "base128_digits v 1 = [ucast (v AND 0x7f)]" by (simp add: Let_def)
  ultimately show ?case using add_u8.cbb_writer_axioms by simp
next
  case (Suc n)
  let ?b = "let b = ucast (drop_bit (7 * n) v AND 0x7f) :: byte in if n \<noteq> 0 then b OR 0x80 else b"
  have "add_base128_digits al d v (Suc n)
      = (\<lambda>st. case CBB_add_u8 al d ?b st of (False, st) \<Rightarrow> (False, st)
          | (True, st) \<Rightarrow> add_base128_digits al d v n st)"
    by (rule ext) (simp add: Let_def)
  moreover have "write_at d (base128_digits v (Suc n))
      = (\<lambda>L. case write_at d [?b] L of None \<Rightarrow> None | Some L \<Rightarrow> write_at d (base128_digits v n) L)"
    by (rule ext) (simp only: write_at_seq base128_digits.simps append_Cons append_Nil)
  ultimately show ?case
    using cbb_writer_seq [OF add_u8.cbb_writer_axioms Suc.IH] by simp
qed

interpretation add_base128: cbb_writer al "add_base128_integer al d v" "write_at d (base128 (unat v))" for al d v
proof -
  have "cbb_writer al (\<lambda>st. add_base128_integer al d v st)
      (write_at d (base128_digits v (if base128_len v = 0 then 1 else base128_len v)))"
    unfolding add_base128_integer_def by (rule add_base128_digits_writer) simp
  then show "cbb_writer al (add_base128_integer al d v) (write_at d (base128 (unat v)))"
    by (simp only: base128_digits_base128)
qed

interpretation flush: cbb_writer al "CBB_flush al d" "settle d" for al d
proof
  fix st st' L L'
  show "\<exists>L'. settle d L = Some L' \<and> repr st' L' \<and> room_le al st st'"
    if "repr st L" "CBB_flush al d st = (True, st')"
  proof -
    have "d < length L"
    proof (rule ccontr)
      assume "\<not> d < length L"
      then have "length (cbb_children st) < d"
        using that(1) by (cases L) (auto simp: repr_def wf_levels_def)
      with that show False by (auto simp: CBB_flush_def split: option.splits)
    qed
    with CBB_flush_repr [OF that(1) this that(2)] show ?thesis by blast
  qed
  show "fst (CBB_flush al d st)"
    if "repr st L" "settle d L = Some L'" "st_room al st (length (flat L'))"
  proof -
    have d: "d < length L" using that(2) by (auto simp: settle_def split: if_splits)
    obtain ok st' where run: "CBB_flush al d st = (ok, st')" by fastforce
    with CBB_flush_repr(4) [OF that(1) d run that(2,3)] show ?thesis by simp
  qed
qed (rule settle_size)

text \<open>The identifier octets of \<open>CBB_add_asn1\<close>.\<close>

definition add_tag :: "allocator \<Rightarrow> nat \<Rightarrow> u32 \<Rightarrow> cbb_st \<Rightarrow> bool \<times> cbb_st" where
  "add_tag al d tag cbb =
     (let tag_bits = ucast (drop_bit 24 tag) AND 0xe0 :: byte;
          tag_number = tag AND CBS_ASN1_TAG_NUMBER_MASK
      in if tag_number \<ge> 0x1f
         then (case CBB_add_u8 al d (tag_bits OR 0x1f) cbb of
                 (False, cbb) \<Rightarrow> (False, cbb)
               | (True, cbb) \<Rightarrow> add_base128_integer al d (ucast tag_number) cbb)
         else CBB_add_u8 al d (tag_bits OR ucast tag_number) cbb)"

interpretation add_tag: cbb_writer al "add_tag al d tag" "write_at d (der_tag tag)" for al d tag
proof (cases tag rule: der_tag_cases)
  case high
  let ?n = "tag AND CBS_ASN1_TAG_NUMBER_MASK"
  have "add_tag al d tag = (\<lambda>cbb. case CBB_add_u8 al d (ucast (drop_bit 24 tag) AND 0xe0 OR 0x1f) cbb of
                 (False, cbb) \<Rightarrow> (False, cbb)
               | (True, cbb) \<Rightarrow> add_base128_integer al d (ucast ?n) cbb)"
    using high(1) by (intro ext) (simp add: add_tag_def Let_def word_le_nat_alt)
  moreover have "unat (ucast ?n :: u64) = unat ?n" by (rule unat_ucast_up) simp
  then have "write_at d (der_tag tag) = (\<lambda>L. case write_at d [ucast (drop_bit 24 tag) AND 0xe0 OR 0x1f] L of
      None \<Rightarrow> None | Some L \<Rightarrow> write_at d (base128 (unat (ucast ?n :: u64))) L)"
    by (intro ext) (simp only: write_at_seq high(2) append_Cons append_Nil)
  ultimately show "cbb_writer al (add_tag al d tag) (write_at d (der_tag tag))"
    using cbb_writer_seq [OF add_u8.cbb_writer_axioms add_base128.cbb_writer_axioms] by simp
next
  case low
  let ?n = "tag AND CBS_ASN1_TAG_NUMBER_MASK"
  have "word_of_nat (unat ?n) = (ucast ?n :: byte)"
    by (simp add: unsigned_ucast_eq word_unat_eq_iff take_bit_eq_mod)
  moreover have "add_tag al d tag = CBB_add_u8 al d (ucast (drop_bit 24 tag) AND 0xe0 OR ucast ?n)"
    using low(1) by (intro ext) (simp add: add_tag_def Let_def word_le_nat_alt)
  ultimately show "cbb_writer al (add_tag al d tag) (write_at d (der_tag tag))"
    using add_u8.cbb_writer_axioms low(2) by simp
qed


text \<open>The pending length octet, and the registration of the child.\<close>

definition open_asn1 :: "allocator \<Rightarrow> nat \<Rightarrow> cbb_st \<Rightarrow> bool \<times> cbb_st" where
  "open_asn1 al d cbb =
     (let offset = (case cbb_base cbb of None \<Rightarrow> 0 | Some base \<Rightarrow> b_len base) in
      case CBB_add_u8 al d 0 cbb of
        (False, cbb) \<Rightarrow> (False, cbb)
      | (True, cbb) \<Rightarrow>
          (True, cbb\<lparr>cbb_children := take d (cbb_children cbb) @
             [\<lparr>c_offset = offset, c_pending_len_len = 1, c_pending_is_asn1 = True\<rparr>]\<rparr>))"

lemma CBB_add_asn1_steps:
  "CBB_add_asn1 al d tag cbb =
     (case (case CBB_flush al d cbb of (False, cbb) \<Rightarrow> (False, cbb) | (True, cbb) \<Rightarrow> add_tag al d tag cbb) of
        (False, cbb) \<Rightarrow> (False, cbb)
      | (True, cbb) \<Rightarrow> open_asn1 al d cbb)"
  unfolding CBB_add_asn1_def add_tag_def open_asn1_def Let_def
  by (cases "CBB_flush al d cbb"; cases "fst (CBB_flush al d cbb)") simp_all

lemma open_asn1_repr:
  assumes st: "repr st L" and L: "length L = Suc d"
  shows "open_asn1 al d st = (True, st') \<Longrightarrow> repr st' (L @ [(Asn1Len, [])]) \<and> room_le al st st'"
    and "st_room al st (length (flat L) + 1) \<Longrightarrow> fst (open_asn1 al d st)"
proof -
  obtain b where b: "cbb_base st = Some b" "holds b (flat L)" using st by (auto simp: repr_def)
  have off: "b_len b = length (flat L)" using holds_length [OF b(2)] by simp
  have L0: "L \<noteq> []" using L by auto
  have w: "write_at d [0] L = Some (emit [0] L)" using L by (simp add: write_at_def settle_settled)
  obtain ok st1 where run: "CBB_add_u8 al d 0 st = (ok, st1)" by fastforce
  have op: "open_asn1 al d st = (ok, if ok then st1\<lparr>cbb_children := take d (cbb_children st1) @
             [child_of (length (flat L)) Asn1Len]\<rparr> else st1)"
    using run b off by (cases ok) (simp_all add: open_asn1_def child_of_def)
  show "fst (open_asn1 al d st)" if "st_room al st (length (flat L) + 1)"
    using add_u8.total [OF st w, of al] that run by (simp add: op flat_emit [OF L0])
  show "repr st' (L @ [(Asn1Len, [])]) \<and> room_le al st st'" if "open_asn1 al d st = (True, st')"
  proof -
    have st': "ok" "st' = st1\<lparr>cbb_children := take d (cbb_children st1) @
             [child_of (length (flat L)) Asn1Len]\<rparr>"
      using that by (auto simp: op split: if_splits)
    then have run': "CBB_add_u8 al d 0 st = (True, st1)" using run by simp
    from add_u8.result [OF st run'] w have r: "repr st1 (emit [0] L)" "room_le al st st1" by simp_all
    have "cbb_children st1 = tl (children_at 0 L)"
      using r(1) L0 by (simp add: repr_def children_at_emit)
    then have "take d (cbb_children st1) = tl (children_at 0 L)" using L by simp
    then have "repr st' (L @ [(Asn1Len, [])])"
      using r(1) L0 by (intro repr_open [where st = st1]) (simp_all add: st' wf_prefix_def)
    with r(2) show ?thesis by (simp add: room_le_def st_room_def st')
  qed
qed

definition open_asn1_at :: "nat \<Rightarrow> u32 \<Rightarrow> level list \<Rightarrow> level list option" where
  "open_asn1_at d tag L = map_option (\<lambda>L. L @ [(Asn1Len, [])]) (write_at d (der_tag tag) L)"

lemma settle_write_at: "(case settle d L of None \<Rightarrow> None | Some L \<Rightarrow> write_at d x L) = write_at d x L"
proof (cases "settle d L")
  case (Some L1)
  then show ?thesis using settle_length [OF Some] by (simp add: write_at_def settle_settled)
qed (simp add: write_at_def)

lemma write_at_length: "write_at d x L = Some L' \<Longrightarrow> length L' = Suc d"
  by (auto simp: write_at_def dest!: settle_length) (metis length_emit length_0_conv nat.distinct(1))

interpretation add_asn1: cbb_writer al "CBB_add_asn1 al d tag" "open_asn1_at d tag" for al d tag
proof -
  define tagged where "tagged cbb = (case CBB_flush al d cbb of (False, cbb) \<Rightarrow> (False, cbb)
    | (True, cbb) \<Rightarrow> add_tag al d tag cbb)" for cbb
  have T: "cbb_writer al tagged (write_at d (der_tag tag))"
    using cbb_writer_seq [OF flush.cbb_writer_axioms add_tag.cbb_writer_axioms, of al d tag d]
    by (simp only: settle_write_at tagged_def [abs_def])
  have op: "CBB_add_asn1 al d tag st
      = (case tagged st of (False, cbb) \<Rightarrow> (False, cbb) | (True, cbb) \<Rightarrow> open_asn1 al d cbb)" for st
    by (simp only: CBB_add_asn1_steps tagged_def)
  show "cbb_writer al (CBB_add_asn1 al d tag) (open_asn1_at d tag)"
  proof
    fix st st' L L'
    show "\<exists>L'. open_asn1_at d tag L = Some L' \<and> repr st' L' \<and> room_le al st st'"
      if "repr st L" "CBB_add_asn1 al d tag st = (True, st')"
    proof -
      from that(2) obtain st1 where st1: "tagged st = (True, st1)" "open_asn1 al d st1 = (True, st')"
        by (auto simp: op split: prod.splits bool.splits)
      from cbb_writer.result [OF T that(1) st1(1)]
      obtain L1 where L1: "write_at d (der_tag tag) L = Some L1" "repr st1 L1" "room_le al st st1" by blast
      from open_asn1_repr(1) [OF L1(2) write_at_length [OF L1(1)] st1(2)] L1(1,3) room_le_trans
      show ?thesis by (auto simp: open_asn1_at_def)
    qed
    show "fst (CBB_add_asn1 al d tag st)"
      if st: "repr st L" and spec: "open_asn1_at d tag L = Some L'" and room: "st_room al st (length (flat L'))"
    proof -
      from spec obtain L1 where L1: "write_at d (der_tag tag) L = Some L1" "L' = L1 @ [(Asn1Len, [])]"
        by (auto simp: open_asn1_at_def)
      have sz: "length (flat L') = length (flat L1) + 1" by (simp add: L1 flat_open)
      have "st_room al st (length (flat L1))" using room sz st_room_mono by (metis le_add1)
      from cbb_writer.writes [OF T st L1(1) this]
      obtain st1 where st1: "tagged st = (True, st1)" "repr st1 L1" "room_le al st st1" by blast
      have "st_room al st1 (length (flat L1) + 1)" using st1(3) room sz by (simp add: room_le_def)
      from open_asn1_repr(2) [OF st1(2) write_at_length [OF L1(1)] this] st1(1)
      show ?thesis by (simp add: op)
    qed
    show "length (flat L) \<le> length (flat L')" if spec: "open_asn1_at d tag L = Some L'"
    proof -
      from spec obtain L1 where "write_at d (der_tag tag) L = Some L1" "L' = L1 @ [(Asn1Len, [])]"
        by (auto simp: open_asn1_at_def)
      with write_at_size show ?thesis by (fastforce simp: flat_open)
    qed
  qed
qed


section \<open>Whole messages\<close>

text \<open>A message as a client nests it, and the calls that write it at a level.\<close>

datatype field =
    Bytes "byte list"
  | U8 byte
  | U16 u16
  | U24 u32
  | U32 u32
  | U64 u64
  | U8_prefixed "field list"
  | U16_prefixed "field list"
  | U24_prefixed "field list"
  | Asn1 u32 "field list"

fun write_fields :: "allocator \<Rightarrow> nat \<Rightarrow> field list \<Rightarrow> cbb_st \<Rightarrow> bool \<times> cbb_st" where
  "write_fields al d [] cbb = (True, cbb)"
| "write_fields al d (Bytes bs # fs) cbb =
     (case CBB_add_bytes al d bs (length bs) cbb of
        (False, cbb) \<Rightarrow> (False, cbb) | (True, cbb) \<Rightarrow> write_fields al d fs cbb)"
| "write_fields al d (U8 v # fs) cbb =
     (case CBB_add_u8 al d v cbb of
        (False, cbb) \<Rightarrow> (False, cbb) | (True, cbb) \<Rightarrow> write_fields al d fs cbb)"
| "write_fields al d (U16 w # fs) cbb =
     (case CBB_add_u16 al d w cbb of
        (False, cbb) \<Rightarrow> (False, cbb) | (True, cbb) \<Rightarrow> write_fields al d fs cbb)"
| "write_fields al d (U24 x # fs) cbb =
     (case CBB_add_u24 al d x cbb of
        (False, cbb) \<Rightarrow> (False, cbb) | (True, cbb) \<Rightarrow> write_fields al d fs cbb)"
| "write_fields al d (U32 x # fs) cbb =
     (case CBB_add_u32 al d x cbb of
        (False, cbb) \<Rightarrow> (False, cbb) | (True, cbb) \<Rightarrow> write_fields al d fs cbb)"
| "write_fields al d (U64 y # fs) cbb =
     (case CBB_add_u64 al d y cbb of
        (False, cbb) \<Rightarrow> (False, cbb) | (True, cbb) \<Rightarrow> write_fields al d fs cbb)"
| "write_fields al d (U8_prefixed inner # fs) cbb =
     (case CBB_add_u8_length_prefixed al d cbb of
        (False, cbb) \<Rightarrow> (False, cbb)
      | (True, cbb) \<Rightarrow> (case write_fields al (Suc d) inner cbb of
          (False, cbb) \<Rightarrow> (False, cbb) | (True, cbb) \<Rightarrow> write_fields al d fs cbb))"
| "write_fields al d (U16_prefixed inner # fs) cbb =
     (case CBB_add_u16_length_prefixed al d cbb of
        (False, cbb) \<Rightarrow> (False, cbb)
      | (True, cbb) \<Rightarrow> (case write_fields al (Suc d) inner cbb of
          (False, cbb) \<Rightarrow> (False, cbb) | (True, cbb) \<Rightarrow> write_fields al d fs cbb))"
| "write_fields al d (U24_prefixed inner # fs) cbb =
     (case CBB_add_u24_length_prefixed al d cbb of
        (False, cbb) \<Rightarrow> (False, cbb)
      | (True, cbb) \<Rightarrow> (case write_fields al (Suc d) inner cbb of
          (False, cbb) \<Rightarrow> (False, cbb) | (True, cbb) \<Rightarrow> write_fields al d fs cbb))"
| "write_fields al d (Asn1 tag inner # fs) cbb =
     (case CBB_add_asn1 al d tag cbb of
        (False, cbb) \<Rightarrow> (False, cbb)
      | (True, cbb) \<Rightarrow> (case write_fields al (Suc d) inner cbb of
          (False, cbb) \<Rightarrow> (False, cbb) | (True, cbb) \<Rightarrow> write_fields al d fs cbb))"

text \<open>The bytes of a message; \<open>None\<close> when a value or a length does not fit its field.\<close>

definition with_prefix :: "nat \<Rightarrow> byte list option \<Rightarrow> byte list option \<Rightarrow> byte list option" where
  "with_prefix n body rest =
     (case body of None \<Rightarrow> None
      | Some b \<Rightarrow> if length b < 256 ^ n then map_option (\<lambda>r. length_prefixed n b @ r) rest else None)"

definition with_header :: "u32 \<Rightarrow> byte list option \<Rightarrow> byte list option \<Rightarrow> byte list option" where
  "with_header tag body rest =
     (case body of None \<Rightarrow> None
      | Some b \<Rightarrow> if length b \<le> 0xfffffffe then map_option (\<lambda>r. der_element tag b @ r) rest else None)"

fun fields_bytes :: "field list \<Rightarrow> byte list option" where
  "fields_bytes [] = Some []"
| "fields_bytes (Bytes bs # fs) =
     map_option (\<lambda>r. bs @ r) (fields_bytes fs)"
| "fields_bytes (U8 v # fs) = map_option (\<lambda>r. v # r) (fields_bytes fs)"
| "fields_bytes (U16 w # fs) = map_option (\<lambda>r. be_bytes 2 (unat w) @ r) (fields_bytes fs)"
| "fields_bytes (U24 x # fs) =
     (if unat x < 256 ^ 3 then map_option (\<lambda>r. be_bytes 3 (unat x) @ r) (fields_bytes fs) else None)"
| "fields_bytes (U32 x # fs) = map_option (\<lambda>r. be_bytes 4 (unat x) @ r) (fields_bytes fs)"
| "fields_bytes (U64 y # fs) = map_option (\<lambda>r. be_bytes 8 (unat y) @ r) (fields_bytes fs)"
| "fields_bytes (U8_prefixed inner # fs) = with_prefix 1 (fields_bytes inner) (fields_bytes fs)"
| "fields_bytes (U16_prefixed inner # fs) = with_prefix 2 (fields_bytes inner) (fields_bytes fs)"
| "fields_bytes (U24_prefixed inner # fs) = with_prefix 3 (fields_bytes inner) (fields_bytes fs)"
| "fields_bytes (Asn1 tag inner # fs) = with_header tag (fields_bytes inner) (fields_bytes fs)"


text \<open>No byte string is longer than an object can be.\<close>

fun fields_ok :: "field list \<Rightarrow> bool" where
  "fields_ok [] = True"
| "fields_ok (Bytes bs # fs) = (length bs < size_mod \<and> fields_ok fs)"
| "fields_ok (U8_prefixed inner # fs) = (fields_ok inner \<and> fields_ok fs)"
| "fields_ok (U16_prefixed inner # fs) = (fields_ok inner \<and> fields_ok fs)"
| "fields_ok (U24_prefixed inner # fs) = (fields_ok inner \<and> fields_ok fs)"
| "fields_ok (Asn1 tag inner # fs) = (fields_ok inner \<and> fields_ok fs)"
| "fields_ok (_ # fs) = fields_ok fs"

definition write_opt :: "nat \<Rightarrow> byte list option \<Rightarrow> level list \<Rightarrow> level list option" where
  "write_opt d x L = (case x of None \<Rightarrow> None | Some x \<Rightarrow> write_at d x L)"

text \<open>A writer of fields may leave a child open; what it promises is the state after the next
  flush.\<close>

definition field_writer ::
  "allocator \<Rightarrow> nat \<Rightarrow> (cbb_st \<Rightarrow> bool \<times> cbb_st) \<Rightarrow> byte list option \<Rightarrow> bool" where
  "field_writer al d op x =
     (\<forall>st L. repr st L \<longrightarrow> d < length L \<longrightarrow>
        (\<forall>st'. op st = (True, st') \<longrightarrow>
           (\<exists>L'. repr st' L' \<and> d < length L' \<and> settle d L' = write_opt d x L \<and> room_le al st st'))
        \<and> (\<forall>L'. write_opt d x L = Some L' \<longrightarrow> st_room al st (length (flat L')) \<longrightarrow> fst (op st)))"

lemma field_writer_result:
  assumes "field_writer al d op x" "repr st L" "d < length L" "op st = (True, st')"
  obtains L' where "repr st' L'" "d < length L'" "settle d L' = write_opt d x L" "room_le al st st'"
  using assms unfolding field_writer_def by blast

lemma field_writer_total:
  assumes "field_writer al d op x" "repr st L" "d < length L"
    and "write_opt d x L = Some L'" "st_room al st (length (flat L'))"
  shows "fst (op st)"
  using assms unfolding field_writer_def by blast

lemma field_writer_nil: "field_writer al d (\<lambda>st. (True, st)) (Some [])"
proof -
  have "settle d L = write_opt d (Some []) L" for L
  proof (cases "settle d L")
    case (Some L1)
    then have "L1 \<noteq> []" using settle_length [OF Some] by auto
    with Some show ?thesis by (simp add: write_opt_def write_at_def emit_Nil)
  qed (simp add: write_opt_def write_at_def)
  then show ?thesis by (auto simp: field_writer_def)
qed

lemma write_opt_cons:
  "write_opt d (map_option (\<lambda>r. x @ r) y) L
     = (case write_at d x L of None \<Rightarrow> None | Some L \<Rightarrow> write_opt d y L)"
  by (cases y) (simp_all add: write_opt_def flip: write_at_seq split: option.splits)

lemma write_opt_size: "write_opt d x L = Some L' \<Longrightarrow> length (flat L) \<le> length (flat L')"
  using write_at_size by (auto simp: write_opt_def split: option.splits)

lemma field_writer_cons:
  assumes f: "cbb_writer al f (write_at d x)" and g: "field_writer al d g y"
  shows "field_writer al d (\<lambda>st. case f st of (False, st) \<Rightarrow> (False, st) | (True, st) \<Rightarrow> g st)
    (map_option (\<lambda>r. x @ r) y)"
  unfolding field_writer_def
proof (intro allI impI conjI)
  fix st L
  assume st: "repr st L" and d: "d < length L"
  show "\<exists>L'. repr st' L' \<and> d < length L' \<and> settle d L' = write_opt d (map_option (\<lambda>r. x @ r) y) L
      \<and> room_le al st st'"
    if run: "(case f st of (False, st) \<Rightarrow> (False, st) | (True, st) \<Rightarrow> g st) = (True, st')" for st'
  proof -
    from run obtain st1 where st1: "f st = (True, st1)" "g st1 = (True, st')"
      by (auto split: prod.splits bool.splits)
    from cbb_writer.result [OF f st st1(1)]
    obtain L1 where L1: "write_at d x L = Some L1" "repr st1 L1" "room_le al st st1" by blast
    have "d < length L1" using write_at_length [OF L1(1)] by simp
    from field_writer_result [OF g L1(2) this st1(2)]
    obtain L' where "repr st' L'" "d < length L'" "settle d L' = write_opt d y L1" "room_le al st1 st'" .
    with L1 room_le_trans show ?thesis by (auto simp: write_opt_cons)
  qed
  show "fst (case f st of (False, st) \<Rightarrow> (False, st) | (True, st) \<Rightarrow> g st)"
    if w: "write_opt d (map_option (\<lambda>r. x @ r) y) L = Some L'" "st_room al st (length (flat L'))" for L'
  proof -
    from w(1) obtain L1 where L1: "write_at d x L = Some L1" "write_opt d y L1 = Some L'"
      by (auto simp: write_opt_cons split: option.splits)
    have "st_room al st (length (flat L1))" using w(2) write_opt_size [OF L1(2)] st_room_mono by blast
    from cbb_writer.writes [OF f st L1(1) this]
    obtain st1 where st1: "f st = (True, st1)" "repr st1 L1" "room_le al st st1" by blast
    have "d < length L1" using write_at_length [OF L1(1)] by simp
    from field_writer_total [OF g st1(2) this L1(2)] w(2) st1 show ?thesis by (simp add: room_le_def)
  qed
qed

text \<open>Closing in two stages.\<close>

lemma close_levels_snoc_step:
  "close_levels (L @ M) = (case close_levels M of None \<Rightarrow> None
     | Some x \<Rightarrow> close_levels (if L = [] then [] else emit x L))" if "L \<noteq> []"
  using that
proof (induction L rule: close_levels.induct)
  case (2 k c L)
  show ?case
  proof (cases "L = []")
    case True
    then show ?thesis by (simp add: emit_def split: option.splits)
  next
    case False
    then have "emit x ((k, c) # L) = (k, c) # emit x L" for x by (simp add: emit_def)
    with 2 False show ?thesis by (simp split: option.splits)
  qed
qed simp

lemma settle_settle:
  assumes "Suc d < length L"
  shows "settle d L = (case settle (Suc d) L of None \<Rightarrow> None | Some M \<Rightarrow> settle d M)"
proof -
  define l where "l = L ! Suc d"
  define A where "A = take (Suc d) L"
  define B where "B = drop (Suc (Suc d)) L"
  have L: "L = A @ [l] @ B" "length A = Suc d"
    using assms by (simp_all add: A_def B_def l_def min_def Cons_nth_drop_Suc)
  have tk: "take (Suc (Suc d)) L = A @ [l]" using L(2) by (subst L(1)) simp
  have "settle (Suc d) L = map_option (\<lambda>x. A @ emit x [l]) (close_levels B)"
    using assms by (simp add: settle_def tk B_def [symmetric]) (simp add: emit_def)
  moreover have "settle d (A @ emit x [l]) = map_option (\<lambda>x. emit x A) (close_levels (emit x [l]))" for x
    using L(2) by (simp add: settle_def)
  moreover have "settle d L = map_option (\<lambda>x. emit x A) (close_levels ([l] @ B))"
    using L by (simp add: settle_def)
  moreover have "close_levels ([l] @ B) = (case close_levels B of None \<Rightarrow> None
      | Some x \<Rightarrow> close_levels (emit x [l]))"
    using close_levels_snoc_step [of "[l]" B] by (cases "close_levels B") simp_all
  ultimately show ?thesis by (simp split: option.splits)
qed

text \<open>An opened child, its contents, and what follows.\<close>

lemma settle_child:
  assumes "length L = Suc d"
  shows "settle d (L @ [(k, x)])
    = map_option (\<lambda>p. emit (p @ x) L) (enc_prefix k (length x))"
  using assms by (simp add: settle_def split: option.splits)

lemma settle_opened:
  assumes L1: "length L1 = Suc d" and L2: "Suc d < length L2"
    and inner: "settle (Suc d) L2 = write_opt (Suc d) b (L1 @ [(k, [])])"
  shows "settle d L2 = (case b of None \<Rightarrow> None
    | Some x \<Rightarrow> map_option (\<lambda>p. emit (p @ x) L1) (enc_prefix k (length x)))"
proof -
  have "write_at (Suc d) x (L1 @ [(k, [])]) = Some (L1 @ [(k, x)])" for x
    using L1 by (simp add: write_at_def settle_settled emit_def)
  then have "settle (Suc d) L2 = map_option (\<lambda>x. L1 @ [(k, x)]) b"
    using inner by (simp add: write_opt_def split: option.splits)
  then show ?thesis
    using settle_settle [OF L2] settle_child [OF L1] by (simp split: option.splits)
qed

lemma write_opt_settle:
  assumes "d < length L"
  shows "write_opt d y L = (case settle d L of None \<Rightarrow> None | Some M \<Rightarrow> write_opt d y M)"
proof (cases "settle d L")
  case (Some M)
  then show ?thesis using settle_length [OF Some]
    by (simp add: write_opt_def write_at_def settle_settled split: option.splits)
qed (auto simp: write_opt_def write_at_def split: option.splits)

lemma field_writer_seq:
  assumes f: "field_writer al d f x" and g: "field_writer al d g y"
  shows "field_writer al d (\<lambda>st. case f st of (False, st) \<Rightarrow> (False, st) | (True, st) \<Rightarrow> g st)
    (case x of None \<Rightarrow> None | Some x \<Rightarrow> map_option (\<lambda>r. x @ r) y)" (is "field_writer al d ?op ?xy")
  unfolding field_writer_def
proof (intro allI impI conjI)
  fix st L
  assume st: "repr st L" and d: "d < length L"
  have after: "write_opt d y M = write_opt d ?xy L"
    if "settle d M = write_opt d x L" "d < length M" for M
    unfolding write_opt_settle [OF that(2)] that(1)
    by (cases x) (simp_all add: write_opt_def [of d None] write_opt_def [of d "Some _"] write_opt_cons)
  show "\<exists>L'. repr st' L' \<and> d < length L' \<and> settle d L' = write_opt d ?xy L \<and> room_le al st st'"
    if run: "?op st = (True, st')" for st'
  proof -
    from run obtain st1 where r: "f st = (True, st1)" "g st1 = (True, st')"
      by (auto split: prod.splits bool.splits)
    from field_writer_result [OF f st d r(1)] obtain M where M: "repr st1 M" "d < length M"
      "settle d M = write_opt d x L" "room_le al st st1" .
    from field_writer_result [OF g M(1,2) r(2)] obtain L' where "repr st' L'" "d < length L'"
      "settle d L' = write_opt d y M" "room_le al st1 st'" .
    with after [OF M(3,2)] M(4) room_le_trans show ?thesis by metis
  qed
  show "fst (?op st)" if w: "write_opt d ?xy L = Some L'" and room: "st_room al st (length (flat L'))" for L'
  proof -
    from w obtain a where a: "x = Some a" by (auto simp: write_opt_def split: option.splits)
    from w obtain L1 where L1: "write_opt d x L = Some L1" and y: "write_opt d y L1 = Some L'"
      by (auto simp: a write_opt_cons write_opt_def [of d "Some a"] split: option.splits)
    have "st_room al st (length (flat L1))" using room write_opt_size [OF y] st_room_mono by blast
    with field_writer_total [OF f st d L1] obtain st1 where r: "f st = (True, st1)"
      by (cases "f st") simp
    from field_writer_result [OF f st d r] obtain M where M: "repr st1 M" "d < length M"
      "settle d M = write_opt d x L" "room_le al st st1" .
    have "write_opt d y M = Some L'" using after [OF M(3,2)] w by simp
    moreover have "st_room al st1 (length (flat L'))" using M(4) room by (simp add: room_le_def)
    ultimately have "fst (g st1)" by (rule field_writer_total [OF g M(1,2)])
    with r show ?thesis by simp
  qed
qed

text \<open>\<open>t\<close> is what the opening call writes before the length prefix.\<close>

lemma field_writer_child:
  assumes f: "cbb_writer al f (\<lambda>L. map_option (\<lambda>L. L @ [(k, [])]) (write_at d t L))"
    and g: "field_writer al (Suc d) g b" and h: "field_writer al d h y"
  shows "field_writer al d
    (\<lambda>st. case f st of (False, st) \<Rightarrow> (False, st)
       | (True, st) \<Rightarrow> (case g st of (False, st) \<Rightarrow> (False, st) | (True, st) \<Rightarrow> h st))
    (case b of None \<Rightarrow> None | Some x \<Rightarrow>
       (case enc_prefix k (length x) of None \<Rightarrow> None | Some p \<Rightarrow> map_option (\<lambda>r. (t @ p @ x) @ r) y))"
    (is "field_writer al d ?op ?spec")
  unfolding field_writer_def
proof (intro allI impI conjI)
  fix st L
  assume st: "repr st L" and d: "d < length L"
  define P where "P = (case b of None \<Rightarrow> None
    | Some x \<Rightarrow> map_option (\<lambda>p. p @ x) (enc_prefix k (length x)))"
  have spec: "?spec = (case P of None \<Rightarrow> None | Some q \<Rightarrow> map_option (\<lambda>r. (t @ q) @ r) y)"
    by (cases y) (auto simp: P_def split: option.splits)
  have key: "write_opt d ?spec L = (case write_at d t L of None \<Rightarrow> None
      | Some L1 \<Rightarrow> (case P of None \<Rightarrow> None | Some q \<Rightarrow> write_opt d y (emit q L1)))"
  proof (cases P)
    case None
    then show ?thesis by (simp add: spec write_opt_def split: option.splits)
  next
    case (Some q)
    have "write_at d (t @ q) L = map_option (emit q) (write_at d t L)"
      by (cases "settle d L") (simp_all add: write_at_def emit_emit)
    then show ?thesis
      unfolding spec Some option.case write_opt_cons by (cases "write_at d t L") simp_all
  qed
  have after: "settle d L2 = map_option (\<lambda>q. emit q L1) P"
    if "write_at d t L = Some L1" "Suc d < length L2"
      "settle (Suc d) L2 = write_opt (Suc d) b (L1 @ [(k, [])])" for L1 L2
    using settle_opened [OF write_at_length [OF that(1)] that(2,3)]
    by (auto simp: P_def option.map_comp o_def split: option.splits)
  show "\<exists>L'. repr st' L' \<and> d < length L' \<and> settle d L' = write_opt d ?spec L \<and> room_le al st st'"
    if run: "?op st = (True, st')" for st'
  proof -
    from run obtain st1 st2 where r: "f st = (True, st1)" "g st1 = (True, st2)" "h st2 = (True, st')"
      by (auto split: prod.splits bool.splits)
    from cbb_writer.result [OF f st r(1)] obtain L1 where L1: "write_at d t L = Some L1"
      "repr st1 (L1 @ [(k, [])])" "room_le al st st1" by auto
    have len: "length L1 = Suc d" using L1(1) by (rule write_at_length)
    have "Suc d < length (L1 @ [(k, [])])" using len by simp
    from field_writer_result [OF g L1(2) this r(2)] obtain L2 where L2: "repr st2 L2"
      "Suc d < length L2" "settle (Suc d) L2 = write_opt (Suc d) b (L1 @ [(k, [])])" "room_le al st1 st2" .
    have "d < length L2" using L2(2) by simp
    from field_writer_result [OF h L2(1) this r(3)] obtain L' where L': "repr st' L'"
      "d < length L'" "settle d L' = write_opt d y L2" "room_le al st2 st'" .
    have "write_opt d y L2 = write_opt d ?spec L"
      unfolding write_opt_settle [OF \<open>d < length L2\<close>] key after [OF L1(1) L2(2,3)]
      using L1(1) by (simp split: option.splits)
    with L' L1(3) L2(4) show ?thesis using room_le_trans by metis
  qed
  show "fst (?op st)" if w: "write_opt d ?spec L = Some L'" and room: "st_room al st (length (flat L'))" for L'
  proof -
    from w obtain L1 q where L1: "write_at d t L = Some L1" and q: "P = Some q"
      and y: "write_opt d y (emit q L1) = Some L'"
      unfolding key by (auto split: option.splits)
    have len: "length L1 = Suc d" using L1 by (rule write_at_length)
    have L10: "L1 \<noteq> []" using len by auto
    from q obtain x p where x: "b = Some x" "enc_prefix k (length x) = Some p" "q = p @ x"
      by (auto simp: P_def split: option.splits)
    have sizes: "length (flat (L1 @ [(k, x)])) \<le> length (flat (emit q L1))"
      "length (flat (emit q L1)) \<le> length (flat L')"
      using length_enc_prefix [OF x(2)] write_opt_size [OF y] L10
      by (simp_all add: flat_append flat_emit x(3))
    then have sz: "length (flat (L1 @ [(k, x)])) \<le> length (flat L')" by linarith
    have "length (flat (L1 @ [(k, [])])) \<le> length (flat (L1 @ [(k, x)]))" by (simp add: flat_append)
    then have "st_room al st (length (flat (L1 @ [(k, [])])))"
      using room sz st_room_mono order_trans by blast
    from cbb_writer.writes [OF f st _ this] L1
    obtain st1 where st1: "f st = (True, st1)" "repr st1 (L1 @ [(k, [])])" "room_le al st st1" by auto
    have wx: "write_opt (Suc d) b (L1 @ [(k, [])]) = Some (L1 @ [(k, x)])"
      using len x(1) by (simp add: write_opt_def write_at_def settle_settled emit_def)
    have room1: "st_room al st1 (length (flat L'))" using st1(3) room by (simp add: room_le_def)
    have lt: "Suc d < length (L1 @ [(k, [])])" using len by simp
    have "fst (g st1)"
      using field_writer_total [OF g st1(2) lt wx] room1 sz st_room_mono by blast
    then obtain st2 where st2: "g st1 = (True, st2)" by (cases "g st1") simp
    from field_writer_result [OF g st1(2) lt st2] obtain L2 where L2: "repr st2 L2"
      "Suc d < length L2" "settle (Suc d) L2 = write_opt (Suc d) b (L1 @ [(k, [])])" "room_le al st1 st2" .
    have d2: "d < length L2" using L2(2) by simp
    have "write_opt d y L2 = Some L'"
      using y q unfolding write_opt_settle [OF d2] after [OF L1 L2(2,3)] by simp
    moreover have "st_room al st2 (length (flat L'))" using L2(4) room1 by (simp add: room_le_def)
    ultimately have "fst (h st2)" by (rule field_writer_total [OF h L2(1) d2])
    with st1(1) st2 show ?thesis by simp
  qed
qed

lemma field_writer_refuse:
  "(\<And>st L. repr st L \<Longrightarrow> \<not> fst (op st)) \<Longrightarrow> field_writer al d op None"
  by (fastforce simp: field_writer_def write_opt_def)

lemma prefixed_child_writer:
  assumes f: "cbb_writer al f (open_at d (Pfx n))"
    and g: "field_writer al (Suc d) g b" and h: "field_writer al d h y"
  shows "field_writer al d
    (\<lambda>st. case f st of (False, st) \<Rightarrow> (False, st)
       | (True, st) \<Rightarrow> (case g st of (False, st) \<Rightarrow> (False, st) | (True, st) \<Rightarrow> h st))
    (with_prefix n b y)"
proof -
  have "open_at d (Pfx n) = (\<lambda>L. map_option (\<lambda>L. L @ [(Pfx n, [])]) (write_at d [] L))"
  proof
    fix L
    show "open_at d (Pfx n) L = map_option (\<lambda>L. L @ [(Pfx n, [])]) (write_at d [] L)"
    proof (cases "settle d L")
      case (Some M)
      then have "M \<noteq> []" using settle_length [OF Some] by auto
      with Some show ?thesis by (simp add: open_at_def write_at_def emit_Nil)
    qed (simp add: open_at_def write_at_def)
  qed
  moreover have "with_prefix n b y = (case b of None \<Rightarrow> None | Some x \<Rightarrow>
       (case enc_prefix (Pfx n) (length x) of None \<Rightarrow> None
        | Some p \<Rightarrow> map_option (\<lambda>r. ([] @ p @ x) @ r) y))"
    by (auto simp: with_prefix_def length_prefixed_def split: option.splits)
  ultimately show ?thesis using field_writer_child [of al f "Pfx n" d "[]" g b h y] f g h by simp
qed

lemma asn1_child_writer:
  assumes g: "field_writer al (Suc d) g b" and h: "field_writer al d h y"
  shows "field_writer al d
    (\<lambda>st. case CBB_add_asn1 al d tag st of (False, st) \<Rightarrow> (False, st)
       | (True, st) \<Rightarrow> (case g st of (False, st) \<Rightarrow> (False, st) | (True, st) \<Rightarrow> h st))
    (with_header tag b y)"
proof -
  have "with_header tag b y = (case b of None \<Rightarrow> None | Some x \<Rightarrow>
       (case enc_prefix Asn1Len (length x) of None \<Rightarrow> None
        | Some p \<Rightarrow> map_option (\<lambda>r. (der_tag tag @ p @ x) @ r) y))"
    by (auto simp: with_header_def der_element_def der_header_def split: option.splits)
  then show ?thesis
    using field_writer_child [of al "CBB_add_asn1 al d tag" Asn1Len d "der_tag tag" g b h y]
      add_asn1.cbb_writer_axioms [of al d tag, unfolded open_asn1_at_def [abs_def]] g h by simp
qed

theorem write_fields_writer:
  "fields_ok fs \<Longrightarrow> field_writer al d (write_fields al d fs) (fields_bytes fs)"
proof (induction fs arbitrary: d rule: fields_bytes.induct)
  case 1
  then show ?case using field_writer_nil by (simp add: fun_eq_iff [symmetric])
next
  case (2 bs fs)
  then have "cbb_writer al (CBB_add_bytes al d bs (length bs)) (write_at d bs)"
    using add_bytes_writer [of "length bs" bs al d] by simp
  from field_writer_cons [OF this 2(1)] 2(2) show ?case by simp
next
  case (3 v fs)
  then show ?case using field_writer_cons [OF add_u8.cbb_writer_axioms 3(1)] by simp
next
  case (4 w fs)
  then show ?case using field_writer_cons [OF add_u16.cbb_writer_axioms 4(1)] by simp
next
  case (5 x fs)
  show ?case
  proof (cases "unat x < 256 ^ 3")
    case True
    with 5 show ?thesis
      using field_writer_cons [OF add_u24.cbb_writer_axioms [where v = x, simplified True if_True] 5(1)]
      by simp
  next
    case False
    have "\<not> fst (write_fields al d (U24 x # fs) st)" if st: "repr st L" for st L
      using add_u24.refuses [OF st, where v = x and al = al and d = d] False
      by (auto split: prod.splits bool.splits)
    with False show ?thesis by (auto intro!: field_writer_refuse)
  qed
next
  case (6 x fs)
  then show ?case using field_writer_cons [OF add_u32.cbb_writer_axioms 6(1)] by simp
next
  case (7 y fs)
  then show ?case using field_writer_cons [OF add_u64.cbb_writer_axioms 7(1)] by simp
next
  case (8 inner fs)
  then show ?case
    using prefixed_child_writer [OF add_u8_length_prefixed.cbb_writer_axioms 8(1) 8(2)] by simp
next
  case (9 inner fs)
  then show ?case
    using prefixed_child_writer [OF add_u16_length_prefixed.cbb_writer_axioms 9(1) 9(2)] by simp
next
  case (10 inner fs)
  then show ?case
    using prefixed_child_writer [OF add_u24_length_prefixed.cbb_writer_axioms 10(1) 10(2)] by simp
next
  case (11 tag inner fs)
  then show ?case using asn1_child_writer [OF 11(1) 11(2)] by simp
qed

section \<open>Starting and finishing\<close>

lemma CBB_init_repr:
  assumes "CBB_init al n = Some st"
  shows "repr st [(Pfx 0, [])]"
    and "granting al \<Longrightarrow> n \<le> 2 ^ 61 \<Longrightarrow> m \<le> 2 ^ 60 \<Longrightarrow> st_room al st m"
proof -
  define fresh where "fresh buf = \<lparr>cbb_base = Some \<lparr>b_buf = buf, b_len = 0,
      b_cap = n, b_can_resize = True, b_error = False\<rparr>, cbb_children = []\<rparr>" for buf
  have init: "cbb_init al buf n = Some st \<Longrightarrow> st = fresh buf" for buf
    by (simp add: cbb_init_def fresh_def split: option.splits)
  obtain buf where "length buf = n" "n < size_mod" "st = fresh buf"
  proof (cases "OPENSSL_malloc al n")
    case None
    with assms have "n = 0" "cbb_init al [] n = Some st"
      by (simp_all add: CBB_init_def split: if_splits)
    with that init show ?thesis by simp
  next
    case (Some buf)
    have "(n + 8) mod size_mod < size_mod" by (rule mod_less_divisor) simp
    moreover have "\<not> (n + 8) mod size_mod < n"
      using Some unfolding OPENSSL_malloc_def by (meson option.distinct(1))
    ultimately have "n < size_mod" by linarith
    with that Some assms init OPENSSL_malloc_length [OF Some] show ?thesis
      by (simp add: CBB_init_def)
  qed
  then show "repr st [(Pfx 0, [])]"
    and "granting al \<Longrightarrow> n \<le> 2 ^ 61 \<Longrightarrow> m \<le> 2 ^ 60 \<Longrightarrow> st_room al st m"
    by (simp_all add: fresh_def repr_def wf_levels_def holds_def st_room_def room_def)
qed

lemma CBB_init_granting:
  assumes "granting al" "n \<le> 2 ^ 61"
  shows "CBB_init al n \<noteq> None"
proof -
  have "OPENSSL_malloc al k \<noteq> None" if "k \<le> 2 ^ 61" for k
    using that assms(1) by (simp add: OPENSSL_malloc_def granting_def)
  from this [OF assms(2)] this [of 32] show ?thesis
    by (auto simp: CBB_init_def cbb_init_def)
qed

lemma CBB_init_fixed_repr:
  assumes "CBB_init_fixed al buf (length buf) = Some st" "length buf < size_mod"
  shows "repr st [(Pfx 0, [])]" and "m \<le> length buf \<longleftrightarrow> st_room al st m"
proof -
  have "st = \<lparr>cbb_base = Some \<lparr>b_buf = buf, b_len = 0,
      b_cap = length buf, b_can_resize = False, b_error = False\<rparr>, cbb_children = []\<rparr>"
    using assms by (auto simp: CBB_init_fixed_def cbb_init_def split: option.splits)
  with assms(2) show "repr st [(Pfx 0, [])]" and "m \<le> length buf \<longleftrightarrow> st_room al st m"
    by (simp_all add: repr_def wf_levels_def holds_def st_room_def room_def)
qed

lemma CBB_finish_repr:
  assumes st: "repr st L"
  shows "CBB_finish al 0 True True st = (Some (buf, n), st') \<Longrightarrow>
      \<exists>x. settle 0 L = Some [(Pfx 0, x)] \<and> take n buf = x \<and> cbb_base st' = None"
    and "settle 0 L = Some L' \<Longrightarrow> st_room al st (length (flat L')) \<Longrightarrow>
      fst (CBB_finish al 0 True True st) \<noteq> None"
proof -
  obtain ok st1 where run: "CBB_flush al 0 st = (ok, st1)" by fastforce
  have one: "\<exists>x. L' = [(Pfx 0, x)]" if "settle 0 L = Some L'" "repr st1 L'" for L'
    using that settle_length [OF that(1)] by (cases L') (auto simp: repr_def wf_levels_def)
  show "\<exists>x. settle 0 L = Some [(Pfx 0, x)] \<and> take n buf = x \<and> cbb_base st' = None"
    if fin: "CBB_finish al 0 True True st = (Some (buf, n), st')"
  proof -
    have ok using fin run by (auto simp: CBB_finish_def split: bool.splits)
    with flush.result [OF st, of al 0 st1] run
    obtain L' where L': "settle 0 L = Some L'" "repr st1 L'" by auto
    with one obtain x where "L' = [(Pfx 0, x)]" by blast
    with L' fin run \<open>ok\<close> show ?thesis
      by (auto simp: CBB_finish_def repr_def holds_def CBB_cleanup_def)
  qed
  show "fst (CBB_finish al 0 True True st) \<noteq> None"
    if w: "settle 0 L = Some L'" "st_room al st (length (flat L'))"
  proof -
    have ok using flush.total [OF st w] run by simp
    with flush.result [OF st, of al 0 st1] run have "\<exists>b. cbb_base st1 = Some b" by (auto simp: repr_def)
    with run \<open>ok\<close> show ?thesis by (auto simp: CBB_finish_def)
  qed
qed

text \<open>The whole life of a builder: what \<open>op\<close> writes between \<open>CBB_init\<close> and \<open>CBB_finish\<close>.\<close>

definition finish_with ::
  "allocator \<Rightarrow> nat \<Rightarrow> (cbb_st \<Rightarrow> bool \<times> cbb_st) \<Rightarrow> byte list option" where
  "finish_with al n op =
     (case CBB_init al n of
        None \<Rightarrow> None
      | Some cbb \<Rightarrow>
          (case op cbb of
             (False, _) \<Rightarrow> None
           | (True, cbb) \<Rightarrow>
               (case CBB_finish al 0 True True cbb of
                  (None, _) \<Rightarrow> None
                | (Some (data, len), _) \<Rightarrow> Some (take len data))))"

definition build :: "allocator \<Rightarrow> nat \<Rightarrow> field list \<Rightarrow> byte list option" where
  "build al n fs = finish_with al n (write_fields al 0 fs)"

lemma write_opt_root: "write_opt 0 x [(Pfx 0, [])] = map_option (\<lambda>x. [(Pfx 0, x)]) x"
  by (cases x) (simp_all add: write_opt_def write_at_def settle_settled emit_def)

lemma finish_with_sound:
  assumes W: "field_writer al 0 op y" and "finish_with al n op = Some x"
  shows "y = Some x"
proof -
  from assms(2) obtain st st1 buf len st2 where run: "CBB_init al n = Some st"
    "op st = (True, st1)" "CBB_finish al 0 True True st1 = (Some (buf, len), st2)"
    and x: "x = take len buf"
    by (auto simp: finish_with_def split: option.splits prod.splits bool.splits)
  have st: "repr st [(Pfx 0, [])]" using run(1) by (rule CBB_init_repr)
  obtain L where "repr st1 L" "settle 0 L = write_opt 0 y [(Pfx 0, [])]"
    using field_writer_result [OF W st _ run(2)] by auto
  with CBB_finish_repr(1) [OF this(1) run(3)] x show ?thesis
    by (auto simp: write_opt_root)
qed

lemma finish_with_complete:
  assumes W: "field_writer al 0 op (Some x)"
    and "granting al" "n \<le> 2 ^ 61" "length x \<le> 2 ^ 60"
  shows "finish_with al n op = Some x"
proof -
  obtain st where init: "CBB_init al n = Some st" using CBB_init_granting [OF assms(2,3)] by blast
  have st: "repr st [(Pfx 0, [])]" using init by (rule CBB_init_repr)
  have room: "st_room al st (length x)" using CBB_init_repr(2) [OF init assms(2,3,4)] .
  have w: "write_opt 0 (Some x) [(Pfx 0, [])] = Some [(Pfx 0, x)]" by (simp add: write_opt_root)
  have "fst (op st)"
    using field_writer_total [OF W st _ w] room by simp
  then obtain st1 where run: "op st = (True, st1)" by (cases "op st") simp
  obtain L where L: "repr st1 L" "settle 0 L = Some [(Pfx 0, x)]" "room_le al st st1"
    using field_writer_result [OF W st _ run] w by auto
  have "st_room al st1 (length (flat [(Pfx 0, x)]))" using room L(3) by (simp add: room_le_def)
  from CBB_finish_repr(2) [OF L(1,2) this] obtain buf len st2
    where fin: "CBB_finish al 0 True True st1 = (Some (buf, len), st2)"
    by (cases "CBB_finish al 0 True True st1") auto
  with CBB_finish_repr(1) [OF L(1) fin] L(2) init run show ?thesis
    by (simp add: finish_with_def)
qed

lemma cbb_writer_field:
  assumes "cbb_writer al f (write_at d x)"
  shows "field_writer al d f (Some x)"
proof -
  have "(\<lambda>st. case f st of (False, st) \<Rightarrow> (False, st) | (True, st) \<Rightarrow> (True, st)) = f"
    by (auto simp: fun_eq_iff split: prod.splits bool.splits)
  with field_writer_cons [OF assms field_writer_nil] show ?thesis by simp
qed

lemma build_sound: "fields_ok fs \<Longrightarrow> build al n fs = Some x \<Longrightarrow> fields_bytes fs = Some x"
  unfolding build_def by (rule finish_with_sound [OF write_fields_writer])

lemma fields_ok_short: "fields_bytes fs = Some x \<Longrightarrow> length x < size_mod \<Longrightarrow> fields_ok fs"
proof (induction fs arbitrary: x rule: fields_bytes.induct)
  case (8 inner fs)
  then show ?case
    by (fastforce simp: with_prefix_def length_prefixed_def split: option.splits if_splits)
next
  case (9 inner fs)
  then show ?case
    by (fastforce simp: with_prefix_def length_prefixed_def split: option.splits if_splits)
next
  case (10 inner fs)
  then show ?case
    by (fastforce simp: with_prefix_def length_prefixed_def split: option.splits if_splits)
next
  case (11 tag inner fs)
  then show ?case
    by (fastforce simp: with_header_def der_element_def split: option.splits if_splits)
qed (fastforce split: if_splits)+

lemma build_complete:
  assumes "granting al" "n \<le> 2 ^ 61" "fields_bytes fs = Some x" "length x \<le> 2 ^ 60"
  shows "build al n fs = Some x"
proof -
  have "length x < size_mod" by (rule le_less_trans [OF assms(4)]) simp
  with assms(3) have "fields_ok fs" by (rule fields_ok_short)
  from write_fields_writer [OF this, of al 0] show ?thesis
    unfolding build_def assms(3) by (rule finish_with_complete) fact+
qed

text \<open>The error flag is sticky: after an error no operation succeeds.\<close>

lemma flush_after_error:
  assumes "cbb_base st = Some b" "b_error b"
  shows "CBB_flush al d st = (False, st)"
proof -
  have "cbb_flush_children al b fr = (False, b, fr)" for fr
    using assms(2) by (cases fr) (simp_all add: cbb_flush_children.simps(2))
  with assms(1) show ?thesis by (simp add: CBB_flush_def)
qed

section \<open>Properties\<close>

text \<open>C1. Whatever a client writes through a \<open>CBB\<close>, nested as it likes, and however the buffer was
  resized and the contents moved on the way: if every call returns 1, \<open>CBB_finish\<close> returns the
  serialisation of the fields.\<close>

theorem cbb_message_bytes:
  assumes "fields_ok fs" "build al n fs = Some x"
  shows "fields_bytes fs = Some x"
  using assms by (rule build_sound)

theorem cbb_message_bytes_witness:
  "fields_bytes [U16 0x0102, Asn1 CBS_ASN1_SEQUENCE [U8_prefixed [U8 7]], U8 9]
    = Some [1, 2, 0x30, 2, 1, 7, 9]"
  by (rule cbb_message_bytes [where al = good_allocator and n = 1]) (code_simp, code_simp)

text \<open>C9. The calls do succeed: with an allocator that grants every request, each message whose
  values fit their fields and that is not longer than \<open>2 ^ 60\<close> bytes is built, from any initial
  capacity up to \<open>2 ^ 61\<close>.\<close>

theorem cbb_message_total:
  assumes "granting al" "n \<le> 2 ^ 61" "fields_bytes fs = Some x" "length x \<le> 2 ^ 60"
  shows "build al n fs = Some x"
  using assms by (rule build_complete)

theorem cbb_message_total_witness:
  "build \<lparr>malloc_ok = (\<lambda>_. True), junk = (\<lambda>_. 0)\<rparr> 0
     [Asn1 CBS_ASN1_OCTETSTRING [Bytes [1, 2, 3]]] = Some [4, 3, 1, 2, 3]"
  by (rule cbb_message_total) (simp_all add: granting_def, code_simp)

end
