(* ===== verification/Cbb_Asn1.thy ===== *)
theory Cbb_Asn1
  imports Cbb_Refine
begin

text \<open>
  The typed ASN.1 writers at the end of \<^verbatim>\<open>crypto/bytestring/cbb.c\<close>, and the text form of object
  identifiers (\<open>CBB_add_asn1_oid_from_text\<close> there, \<open>CBS_asn1_oid_to_text\<close> in
  \<^verbatim>\<open>crypto/bytestring/cbs.c\<close>).  A local \<open>CBB child\<close> is the builder at depth \<open>d + 1\<close>.
\<close>

section \<open>Typed writers\<close>

text \<open>The loop of \<open>CBB_add_asn1_uint64\<close>; \<open>k\<close> bytes are left, the next is \<open>value >> 8 * (k - 1)\<close>.  The
  result is \<open>started\<close>.\<close>

fun asn1_uint64_bytes ::
  "allocator \<Rightarrow> nat \<Rightarrow> u64 \<Rightarrow> nat \<Rightarrow> bool \<Rightarrow> cbb_st \<Rightarrow> bool option \<times> cbb_st" where
  "asn1_uint64_bytes al d value 0 started cbb = (Some started, cbb)"
| "asn1_uint64_bytes al d value (Suc k) started cbb =
     (let b = ucast (drop_bit (8 * k) value AND 0xff) :: byte in
      if \<not> started \<and> b = 0 then asn1_uint64_bytes al d value k started cbb
      else
     (case (if \<not> started \<and> b AND 0x80 \<noteq> 0 then CBB_add_u8 al d 0 cbb else (True, cbb)) of
        (False, cbb) \<Rightarrow> (None, cbb)
      | (True, cbb) \<Rightarrow>
          (case CBB_add_u8 al d b cbb of
             (False, cbb) \<Rightarrow> (None, cbb)
           | (True, cbb) \<Rightarrow> asn1_uint64_bytes al d value k True cbb)))"

definition CBB_add_asn1_uint64 :: "allocator \<Rightarrow> nat \<Rightarrow> u64 \<Rightarrow> cbb_st \<Rightarrow> bool \<times> cbb_st" where
  "CBB_add_asn1_uint64 al d value cbb =
     (case CBB_add_asn1 al d CBS_ASN1_INTEGER cbb of
        (False, cbb) \<Rightarrow> (False, cbb)
      | (True, cbb) \<Rightarrow>
     (case asn1_uint64_bytes al (Suc d) value 8 False cbb of
        (None, cbb) \<Rightarrow> (False, cbb)
      | (Some started, cbb) \<Rightarrow>
     (case (if \<not> started then CBB_add_u8 al (Suc d) 0 cbb else (True, cbb)) of
        (False, cbb) \<Rightarrow> (False, cbb)
      | (True, cbb) \<Rightarrow> CBB_flush al d cbb)))"

text \<open>\<open>u\<close> is the memory of the \<open>int64_t\<close>, least significant byte first.\<close>

fun int64_start :: "byte list \<Rightarrow> nat \<Rightarrow> nat" where
  "int64_start u 0 = 0"
| "int64_start u (Suc start) =
     (if u ! Suc start = 0xff \<and> u ! start AND 0x80 \<noteq> 0 then int64_start u start else Suc start)"

text \<open>The loop that adds \<open>u[i]\<close> for \<open>i\<close> from \<open>n - 1\<close> down to 0.\<close>

fun add_bytes_down :: "allocator \<Rightarrow> nat \<Rightarrow> byte list \<Rightarrow> nat \<Rightarrow> cbb_st \<Rightarrow> bool \<times> cbb_st" where
  "add_bytes_down al d u 0 cbb = (True, cbb)"
| "add_bytes_down al d u (Suc i) cbb =
     (case CBB_add_u8 al d (u ! i) cbb of
        (False, cbb) \<Rightarrow> (False, cbb)
      | (True, cbb) \<Rightarrow> add_bytes_down al d u i cbb)"

definition CBB_add_asn1_int64 :: "allocator \<Rightarrow> nat \<Rightarrow> u64 \<Rightarrow> cbb_st \<Rightarrow> bool \<times> cbb_st" where
  "CBB_add_asn1_int64 al d value cbb =
     (if sint value \<ge> 0 then CBB_add_asn1_uint64 al d value cbb
      else
     (let u = rev (be_bytes 8 (unat value)); start = int64_start u 7 in
      case CBB_add_asn1 al d CBS_ASN1_INTEGER cbb of
        (False, cbb) \<Rightarrow> (False, cbb)
      | (True, cbb) \<Rightarrow>
     (case add_bytes_down al (Suc d) u (Suc start) cbb of
        (False, cbb) \<Rightarrow> (False, cbb)
      | (True, cbb) \<Rightarrow> CBB_flush al d cbb)))"

definition CBB_add_asn1_octet_string ::
  "allocator \<Rightarrow> nat \<Rightarrow> byte list \<Rightarrow> nat \<Rightarrow> cbb_st \<Rightarrow> bool \<times> cbb_st" where
  "CBB_add_asn1_octet_string al d data data_len cbb =
     (case CBB_add_asn1 al d CBS_ASN1_OCTETSTRING cbb of
        (False, cbb) \<Rightarrow> (False, cbb)
      | (True, cbb) \<Rightarrow>
     (case CBB_add_bytes al (Suc d) data data_len cbb of
        (False, cbb) \<Rightarrow> (False, cbb)
      | (True, cbb) \<Rightarrow> CBB_flush al d cbb))"

definition CBB_add_asn1_bool :: "allocator \<Rightarrow> nat \<Rightarrow> int \<Rightarrow> cbb_st \<Rightarrow> bool \<times> cbb_st" where
  "CBB_add_asn1_bool al d value cbb =
     (case CBB_add_asn1 al d CBS_ASN1_BOOLEAN cbb of
        (False, cbb) \<Rightarrow> (False, cbb)
      | (True, cbb) \<Rightarrow>
     (case CBB_add_u8 al (Suc d) (if value \<noteq> 0 then 0xff else 0) cbb of
        (False, cbb) \<Rightarrow> (False, cbb)
      | (True, cbb) \<Rightarrow> CBB_flush al d cbb))"

section \<open>Object identifiers as text\<close>

text \<open>The loop of \<open>parse_dotted_decimal\<close>.  A dot ends a component unless it is the last character.\<close>

fun dotted_decimal_loop :: "u64 \<Rightarrow> bool \<Rightarrow> CBS \<Rightarrow> u64 option \<times> CBS" where
  "dotted_decimal_loop out seen_digit [] = (if seen_digit then Some out else None, [])"
| "dotted_decimal_loop out seen_digit (u # cbs) =
     (if u = 46 \<and> cbs \<noteq> [] then (if seen_digit then Some out else None, cbs)
      else if u < 48 \<or> u > 57 \<or> seen_digit \<and> out = 0 \<or> out > 0xffffffffffffffff div 10
        \<or> out * 10 > 0xffffffffffffffff - ucast (u - 48)
      then (None, cbs)
      else dotted_decimal_loop (out * 10 + ucast (u - 48)) True cbs)"

definition parse_dotted_decimal :: "CBS \<Rightarrow> u64 option \<times> CBS" where
  "parse_dotted_decimal cbs = dotted_decimal_loop 0 False cbs"

text \<open>The loop over the remaining components.  Every round consumes at least one byte, so the length
  of the text is fuel enough.\<close>

fun oid_components_loop ::
  "allocator \<Rightarrow> nat \<Rightarrow> nat \<Rightarrow> CBS \<Rightarrow> cbb_st \<Rightarrow> bool \<times> cbb_st" where
  "oid_components_loop al d 0 cbs cbb = (cbs = [], cbb)"
| "oid_components_loop al d (Suc fuel) cbs cbb =
     (if CBS_len cbs > 0
      then (case parse_dotted_decimal cbs of
              (None, _) \<Rightarrow> (False, cbb)
            | (Some a, cbs) \<Rightarrow>
                (case add_base128_integer al d a cbb of
                   (False, cbb) \<Rightarrow> (False, cbb)
                 | (True, cbb) \<Rightarrow> oid_components_loop al d fuel cbs cbb))
      else (True, cbb))"

definition CBB_add_asn1_oid_from_text ::
  "allocator \<Rightarrow> nat \<Rightarrow> byte list \<Rightarrow> nat \<Rightarrow> cbb_st \<Rightarrow> bool \<times> cbb_st" where
  "CBB_add_asn1_oid_from_text al d text len cbb =
     (case CBB_flush al d cbb of
        (False, cbb) \<Rightarrow> (False, cbb)
      | (True, cbb) \<Rightarrow>
     (let cbs = CBS_init text len in
      case parse_dotted_decimal cbs of
        (None, _) \<Rightarrow> (False, cbb)
      | (Some a, cbs) \<Rightarrow>
     (case parse_dotted_decimal cbs of
        (None, _) \<Rightarrow> (False, cbb)
      | (Some b, cbs) \<Rightarrow>
      if a > 2 \<or> a < 2 \<and> b > 39 \<or> b > 0xffffffffffffffff - 80 then (False, cbb)
      else (case add_base128_integer al d (40 * a + b) cbb of
              (False, cbb) \<Rightarrow> (False, cbb)
            | (True, cbb) \<Rightarrow> oid_components_loop al d (length cbs) cbs cbb))))"

definition add_decimal :: "allocator \<Rightarrow> u64 \<Rightarrow> cbb_st \<Rightarrow> bool \<times> cbb_st" where
  "add_decimal al v cbb =
     (let buf = decimal (unat v) in CBB_add_bytes al 0 buf (length buf) cbb)"

fun oid_text_loop :: "allocator \<Rightarrow> nat \<Rightarrow> CBS \<Rightarrow> cbb_st \<Rightarrow> bool \<times> cbb_st" where
  "oid_text_loop al 0 copy cbb = (copy = [], cbb)"
| "oid_text_loop al (Suc fuel) copy cbb =
     (if CBS_len copy \<noteq> 0
      then (case parse_base128_integer copy of
              (None, _) \<Rightarrow> (False, cbb)
            | (Some v, copy) \<Rightarrow>
           (case CBB_add_u8 al 0 46 cbb of
              (False, cbb) \<Rightarrow> (False, cbb)
            | (True, cbb) \<Rightarrow>
           (case add_decimal al v cbb of
              (False, cbb) \<Rightarrow> (False, cbb)
            | (True, cbb) \<Rightarrow> oid_text_loop al fuel copy cbb)))
      else (True, cbb))"

text \<open>The first two components, which share one base-128 integer.\<close>

definition oid_text_first :: "allocator \<Rightarrow> u64 \<Rightarrow> cbb_st \<Rightarrow> bool \<times> cbb_st" where
  "oid_text_first al v cbb =
     (if v \<ge> 80
      then (case CBB_add_bytes al 0 [50, 46] 2 cbb of
              (False, cbb) \<Rightarrow> (False, cbb)
            | (True, cbb) \<Rightarrow> add_decimal al (v - 80) cbb)
      else (case add_decimal al (v div 40) cbb of
              (False, cbb) \<Rightarrow> (False, cbb)
            | (True, cbb) \<Rightarrow>
                (case CBB_add_u8 al 0 46 cbb of
                   (False, cbb) \<Rightarrow> (False, cbb)
                 | (True, cbb) \<Rightarrow> add_decimal al (v mod 40) cbb)))"

definition CBS_asn1_oid_to_text :: "allocator \<Rightarrow> CBS \<Rightarrow> byte list option" where
  "CBS_asn1_oid_to_text al cbs =
     (case CBB_init al 32 of
        None \<Rightarrow> None
      | Some cbb \<Rightarrow>
     (case parse_base128_integer cbs of
        (None, _) \<Rightarrow> None
      | (Some v, copy) \<Rightarrow>
     (case oid_text_first al v cbb of
        (False, _) \<Rightarrow> None
      | (True, cbb) \<Rightarrow>
     (case oid_text_loop al (length copy) copy cbb of
        (False, _) \<Rightarrow> None
      | (True, cbb) \<Rightarrow>
     (case CBB_add_u8 al 0 0 cbb of
        (False, _) \<Rightarrow> None
      | (True, cbb) \<Rightarrow>
     (case CBB_finish al 0 True True cbb of
        (None, _) \<Rightarrow> None
      | (Some (txt, txt_len), _) \<Rightarrow> Some (take txt_len txt)))))))"

section \<open>SET OF\<close>

definition compare_set_of_element :: "CBS \<Rightarrow> CBS \<Rightarrow> int" where
  "compare_set_of_element a b =
     (let a_len = CBS_len a; b_len = CBS_len b;
          min_len = (if a_len < b_len then a_len else b_len);
          ret = mem_cmp (CBS_data a) (CBS_data b) min_len in
      if ret \<noteq> 0 then ret
      else if a_len = b_len then 0
      else if a_len < b_len then -1 else 1)"

text \<open>The elements of a \<open>CBS\<close>, as the counting loop and the loop that fills \<open>children\<close> read them.\<close>

fun set_of_children :: "nat \<Rightarrow> CBS \<Rightarrow> CBS list option" where
  "set_of_children 0 cbs = (if cbs = [] then Some [] else None)"
| "set_of_children (Suc fuel) cbs =
     (if CBS_len cbs \<noteq> 0
      then (case CBS_get_any_asn1_element cbs of
              (None, _) \<Rightarrow> None
            | (Some (child, _, _), cbs) \<Rightarrow> map_option (\<lambda>cs. child # cs) (set_of_children fuel cbs))
      else Some [])"

fun add_children :: "allocator \<Rightarrow> nat \<Rightarrow> CBS list \<Rightarrow> cbb_st \<Rightarrow> bool \<times> cbb_st" where
  "add_children al d [] cbb = (True, cbb)"
| "add_children al d (c # cs) cbb =
     (case CBB_add_bytes al d c (CBS_len c) cbb of
        (False, cbb) \<Rightarrow> (False, cbb)
      | (True, cbb) \<Rightarrow> add_children al d cs cbb)"

text \<open>\<open>qsort\<close> with the comparison function, as an insertion sort: the comparison is 0 only for equal
  byte strings, so every correct sort gives the same list.\<close>

fun insert_child :: "CBS \<Rightarrow> CBS list \<Rightarrow> CBS list" where
  "insert_child c [] = [c]"
| "insert_child c (x # xs) =
     (if compare_set_of_element c x \<le> 0 then c # x # xs else x # insert_child c xs)"

definition sort_children :: "CBS list \<Rightarrow> CBS list" where
  "sort_children cs = foldr insert_child cs []"

definition CBB_flush_asn1_set_of :: "allocator \<Rightarrow> nat \<Rightarrow> cbb_st \<Rightarrow> bool \<times> cbb_st" where
  "CBB_flush_asn1_set_of al d cbb =
     (case CBB_flush al d cbb of
        (False, cbb) \<Rightarrow> (False, cbb)
      | (True, cbb) \<Rightarrow>
     (let contents = take (CBB_len d cbb) (CBB_data d cbb) in
      case set_of_children (length contents) contents of
        None \<Rightarrow> (False, cbb)
      | Some children \<Rightarrow>
      if length children < 2 then (True, cbb)
      else if length children > (size_mod - 1) div 16 then (False, cbb)
      else if OPENSSL_memdup al contents = None \<or> OPENSSL_malloc al (length children * 16) = None
      then (False, cbb)
      else
     (let cbb = cbb\<lparr>cbb_base := map_option (\<lambda>b. b\<lparr>b_len := cbb_start d cbb\<rparr>) (cbb_base cbb)\<rparr>
      in add_children al d (sort_children children) cbb)))"

section \<open>\<^verbatim>\<open>asn1_compat.c\<close>\<close>

text \<open>\<open>CBB_finish_i2d\<close>: the caller passed no pointer, a pointer to \<open>NULL\<close>, or a pointer to a buffer,
  into which the bytes are copied.  The result is the length (-1 on error) and what \<open>*outp\<close> points
  to afterwards: a fresh block, or the caller's buffer behind what was written.\<close>

datatype i2d_out = No_out | Null_out | Out "byte list"

definition CBB_finish_i2d :: "allocator \<Rightarrow> i2d_out \<Rightarrow> cbb_st \<Rightarrow> int \<times> byte list option \<times> nat" where
  "CBB_finish_i2d al outp cbb =
     (case CBB_finish al 0 True True cbb of
        (None, _) \<Rightarrow> (-1, None, 0)
      | (Some (der, der_length), _) \<Rightarrow>
          if der_length > 2 ^ 31 - 1 then (-1, None, 0)
          else (case outp of
                  No_out \<Rightarrow> (int der_length, None, 0)
                | Null_out \<Rightarrow> (int der_length, Some der, 0)
                | Out buf \<Rightarrow> (int der_length, Some (mem_write buf 0 (take der_length der)), der_length)))"

section \<open>What the typed writers write\<close>

lemma asn1_value_writer:
  assumes g: "cbb_writer al g (write_at (Suc d) body)"
  shows "cbb_writer al
    (\<lambda>cbb. case CBB_add_asn1 al d tag cbb of (False, cbb) \<Rightarrow> (False, cbb)
       | (True, cbb) \<Rightarrow> (case g cbb of (False, cbb) \<Rightarrow> (False, cbb) | (True, cbb) \<Rightarrow> CBB_flush al d cbb))
    (\<lambda>L. if length body \<le> 0xfffffffe then write_at d (der_element tag body) L else None)"
proof -
  have spec: "(case open_asn1_at d tag L of None \<Rightarrow> None
      | Some L \<Rightarrow> (case write_at (Suc d) body L of None \<Rightarrow> None | Some L \<Rightarrow> settle d L))
    = (if length body \<le> 0xfffffffe then write_at d (der_element tag body) L else None)" for L
  proof (cases "settle d L")
    case (Some M)
    define M' where "M' = emit (der_tag tag) M"
    have len: "length M' = Suc d" using settle_length [OF Some] by (cases M) (simp_all add: M'_def)
    have 1: "open_asn1_at d tag L = Some (M' @ [(Asn1Len, [])])"
      using Some by (simp add: open_asn1_at_def write_at_def M'_def)
    have 2: "write_at (Suc d) body (M' @ [(Asn1Len, [])]) = Some (M' @ [(Asn1Len, body)])"
      using len by (simp add: write_at_def settle_settled emit_def)
    have 3: "settle d (M' @ [(Asn1Len, body)])
        = (if length body \<le> 0xfffffffe then Some (emit (der_len (length body) @ body) M') else None)"
      using settle_child [OF len, of Asn1Len body] by simp
    have 4: "write_at d (der_element tag body) L = Some (emit (der_len (length body) @ body) M')"
      using Some by (simp add: write_at_def M'_def emit_emit der_element_def der_header_def)
    show ?thesis by (simp only: 1 2 3 4 option.case)
  qed (simp add: open_asn1_at_def write_at_def)
  have "cbb_writer al (\<lambda>cbb. case g cbb of (False, cbb) \<Rightarrow> (False, cbb) | (True, cbb) \<Rightarrow> CBB_flush al d cbb)
      (\<lambda>L. case write_at (Suc d) body L of None \<Rightarrow> None | Some L \<Rightarrow> settle d L)"
    using cbb_writer_seq [OF g flush.cbb_writer_axioms] .
  from cbb_writer_seq [OF add_asn1.cbb_writer_axioms this, of d tag] show ?thesis
    by (simp only: spec)
qed

lemma asn1_value_writer_short:
  assumes "cbb_writer al g (write_at (Suc d) body)" "length body \<le> 0xfffffffe"
  shows "cbb_writer al
    (\<lambda>cbb. case CBB_add_asn1 al d tag cbb of (False, cbb) \<Rightarrow> (False, cbb)
       | (True, cbb) \<Rightarrow> (case g cbb of (False, cbb) \<Rightarrow> (False, cbb) | (True, cbb) \<Rightarrow> CBB_flush al d cbb))
    (write_at d (der_element tag body))"
  using asn1_value_writer [OF assms(1), of tag] assms(2) by simp

subsection \<open>Unsigned integers\<close>

text \<open>Writing a list of bytes one by one.\<close>

fun add_u8s :: "allocator \<Rightarrow> nat \<Rightarrow> byte list \<Rightarrow> cbb_st \<Rightarrow> bool \<times> cbb_st" where
  "add_u8s al d [] cbb = (True, cbb)"
| "add_u8s al d (b # bs) cbb =
     (case CBB_add_u8 al d b cbb of (False, cbb) \<Rightarrow> (False, cbb) | (True, cbb) \<Rightarrow> add_u8s al d bs cbb)"

lemma add_u8s_writer: "bs \<noteq> [] \<Longrightarrow> cbb_writer al (add_u8s al d bs) (write_at d bs)"
proof (induction bs)
  case (Cons b bs)
  show ?case
  proof (cases "bs = []")
    case True
    then have "add_u8s al d (b # bs) = CBB_add_u8 al d b"
      by (intro ext) (simp split: prod.splits bool.splits)
    then show ?thesis using add_u8.cbb_writer_axioms True by simp
  next
    case False
    with Cons have IH: "cbb_writer al (add_u8s al d bs) (write_at d bs)" by simp
    have "write_at d (b # bs) = (\<lambda>L. case write_at d [b] L of None \<Rightarrow> None | Some L \<Rightarrow> write_at d bs L)"
      by (intro ext) (simp only: write_at_seq append_Cons append_Nil)
    moreover have "add_u8s al d (b # bs) = (\<lambda>cbb. case CBB_add_u8 al d b cbb of
        (False, cbb) \<Rightarrow> (False, cbb) | (True, cbb) \<Rightarrow> add_u8s al d bs cbb)"
      by (intro ext) simp
    ultimately show ?thesis using cbb_writer_seq [OF add_u8.cbb_writer_axioms IH] by simp
  qed
qed simp

fun uint64_octets :: "u64 \<Rightarrow> nat \<Rightarrow> bool \<Rightarrow> byte list" where
  "uint64_octets v 0 started = (if started then [] else [0])"
| "uint64_octets v (Suc k) started =
     (let b = ucast (drop_bit (8 * k) v AND 0xff) :: byte in
      if \<not> started \<and> b = 0 then uint64_octets v k started
      else (if \<not> started \<and> b AND 0x80 \<noteq> 0 then [0, b] else [b]) @ uint64_octets v k True)"

lemma asn1_uint64_bytes_octets:
  "(case asn1_uint64_bytes al d v k started cbb of
      (None, cbb) \<Rightarrow> (False, cbb)
    | (Some started, cbb) \<Rightarrow> (if \<not> started then CBB_add_u8 al d 0 cbb else (True, cbb)))
   = add_u8s al d (uint64_octets v k started) cbb"
proof (induction k arbitrary: started cbb)
  case 0
  then show ?case by (auto split: prod.splits bool.splits)
next
  case (Suc k)
  show ?case
    by (simp add: Let_def Suc.IH [symmetric] split: prod.splits bool.splits option.splits)
qed

lemma unat_octet: "unat (ucast (drop_bit (8 * k) (v :: u64) AND 0xff) :: byte) = unat v div 256 ^ k mod 256"
proof -
  have "(0xff :: u64) = mask 8" by (simp add: mask_eq_exp_minus_1)
  then have "drop_bit (8 * k) v AND 0xff = take_bit 8 (drop_bit (8 * k) v)"
    by (simp only: take_bit_eq_mask)
  then have "unat (drop_bit (8 * k) v AND 0xff) = take_bit 8 (unat (drop_bit (8 * k) v))"
    by (simp only: unsigned_take_bit_eq)
  also have "unat (drop_bit (8 * k) v) = unat v div 2 ^ (8 * k)"
    using unat_drop_bit_eq [of "8 * k" v] drop_bit_eq_div [of "8 * k" "unat v"] by (simp only:)
  finally have "unat (drop_bit (8 * k) v AND 0xff) = unat v div 256 ^ k mod 256"
    by (simp add: take_bit_eq_mod power_mult)
  then show ?thesis by (subst unat_ucast_down) simp_all
qed

lemma mod_256_Suc: "(n :: nat) mod 256 ^ Suc k = n div 256 ^ k mod 256 * 256 ^ k + n mod 256 ^ k"
proof -
  have "n mod (256 ^ k * 256) = 256 ^ k * (n div 256 ^ k mod 256) + n mod 256 ^ k"
    by (rule mod_mult2_eq)
  then show ?thesis by (simp add: mult.commute)
qed

lemma uint64_octets_started: "uint64_octets v k True = be_bytes k (unat v)"
proof (induction k)
  case 0
  then show ?case by simp
next
  case (Suc k)
  let ?b = "ucast (drop_bit (8 * k) v AND 0xff) :: byte"
  have "be_nat (?b # be_bytes k (unat v)) = unat v mod 256 ^ Suc k"
    by (simp add: be_nat_Cons unat_octet be_nat_be_bytes mod_256_Suc [of "unat v" k] del: power_Suc)
  moreover have "be_nat (be_bytes (Suc k) (unat v)) = unat v mod 256 ^ Suc k" by (rule be_nat_be_bytes)
  ultimately have "be_nat (?b # be_bytes k (unat v)) = be_nat (be_bytes (Suc k) (unat v))"
    by (simp only:)
  then have "?b # be_bytes k (unat v) = be_bytes (Suc k) (unat v)" by (rule be_nat_inject) simp
  with Suc show ?case by (simp add: Let_def)
qed

lemma uint64_octets_start: "uint64_octets v k False = asn1_int (int (unat v mod 256 ^ k))"
proof (induction k)
  case 0
  have "asn1_int 0 = [0]" by (subst asn1_int.simps) simp
  then show ?case by simp
next
  case (Suc k)
  define b :: byte where "b = ucast (drop_bit (8 * k) v AND 0xff)"
  have ub: "unat b = unat v div 256 ^ k mod 256" unfolding b_def by (rule unat_octet)
  show ?case
  proof (cases "b = 0")
    case True
    then have "unat v div 256 ^ k mod 256 = 0" using ub by simp
    then have "unat v mod 256 ^ Suc k = unat v mod 256 ^ k" by (simp only: mod_256_Suc)
    with True Suc show ?thesis by (simp add: Let_def b_def del: power_Suc)
  next
    case False
    define bs where "bs = (if b AND 0x80 \<noteq> 0 then [0, b] else [b]) @ be_bytes k (unat v)"
    have oct: "uint64_octets v (Suc k) False = bs"
      using False by (simp add: Let_def b_def [symmetric] bs_def uint64_octets_started)
    have nat: "be_nat bs = unat v mod 256 ^ Suc k"
      by (simp add: bs_def be_nat_Cons be_nat_be_bytes ub mod_256_Suc del: power_Suc)
    have "minimal_int bs"
    proof (cases "b AND 0x80 = 0")
      case True
      then have "unat b < 128" by (simp add: byte_top_bit)
      then have "b \<noteq> 0xff" by auto
      with True False show ?thesis
        by (cases "be_bytes k (unat v)") (simp_all add: bs_def)
    next
      case False
      then have "128 \<le> unat b" by (simp add: byte_top_bit)
      with False show ?thesis by (simp add: bs_def)
    qed
    moreover have "be_int bs = int (be_nat bs)"
      by (auto simp: be_int_def bs_def byte_top_bit)
    ultimately have "bs = asn1_int (int (be_nat bs))" using asn1_int_be_int by metis
    then show ?thesis by (simp only: oct nat)
  qed
qed

interpretation add_asn1_uint64: cbb_writer al "CBB_add_asn1_uint64 al d v"
  "write_at d (der_element CBS_ASN1_INTEGER (asn1_int (int (unat v))))" for al d v
proof -
  define bs where "bs = uint64_octets v 8 False"
  have "unat v < 256 ^ 8" using unsigned_less [of v, where 'a = nat] by simp
  then have bs: "bs = asn1_int (int (unat v))" by (simp add: bs_def uint64_octets_start)
  have "length bs \<le> Suc 8" unfolding bs by (rule length_asn1_int_u64)
  then have len: "length bs \<le> 0xfffffffe" by simp
  have op: "CBB_add_asn1_uint64 al d v = (\<lambda>cbb. case CBB_add_asn1 al d CBS_ASN1_INTEGER cbb of
         (False, cbb) \<Rightarrow> (False, cbb)
       | (True, cbb) \<Rightarrow> (case add_u8s al (Suc d) bs cbb of
            (False, cbb) \<Rightarrow> (False, cbb) | (True, cbb) \<Rightarrow> CBB_flush al d cbb))"
    unfolding bs_def asn1_uint64_bytes_octets [symmetric]
    by (intro ext) (auto simp: CBB_add_asn1_uint64_def split: prod.splits option.splits bool.splits)
  have "bs \<noteq> []" by (simp add: bs)
  from asn1_value_writer_short [OF add_u8s_writer [OF this] len, of al d CBS_ASN1_INTEGER]
  show "cbb_writer al (CBB_add_asn1_uint64 al d v)
      (write_at d (der_element CBS_ASN1_INTEGER (asn1_int (int (unat v)))))"
    by (simp only: op bs)
qed

subsection \<open>Signed integers, octet strings, booleans\<close>

fun strip_ff :: "byte list \<Rightarrow> byte list" where
  "strip_ff (a # b # bs) = (if a = 0xff \<and> b AND 0x80 \<noteq> 0 then strip_ff (b # bs) else a # b # bs)"
| "strip_ff bs = bs"

lemma strip_ff_nonempty: "bs \<noteq> [] \<Longrightarrow> strip_ff bs \<noteq> []"
  by (induction bs rule: strip_ff.induct) auto

lemma strip_ff_be_int:
  "bs \<noteq> [] \<Longrightarrow> 128 \<le> unat (hd bs) \<Longrightarrow> be_int (strip_ff bs) = be_int bs \<and> minimal_int (strip_ff bs)"
proof (induction bs rule: strip_ff.induct)
  case (1 a b bs)
  show ?case
  proof (cases "a = 0xff \<and> b AND 0x80 \<noteq> 0")
    case True
    then have b: "128 \<le> unat b" by (simp add: byte_top_bit)
    have "be_nat (a # b # bs) = 255 * 256 ^ Suc (length bs) + be_nat (b # bs)"
      using True be_nat_Cons [of a "b # bs"] by simp
    then have "be_int (b # bs) = be_int (a # b # bs)"
      using True b by (simp add: be_int_def)
    with 1 True b show ?thesis by simp
  next
    case False
    then have "minimal_int (a # b # bs)" using 1(3) by (auto simp: byte_top_bit)
    with False show ?thesis by auto
  qed
qed auto

lemma int64_start_strip:
  "n < length u \<Longrightarrow> rev (take (Suc (int64_start u n)) u) = strip_ff (rev (take (Suc n) u))"
proof (induction n)
  case 0
  then show ?case by (cases u) simp_all
next
  case (Suc n)
  have "rev (take (Suc (Suc n)) u) = u ! Suc n # rev (take (Suc n) u)"
    using Suc.prems by (simp add: take_Suc_conv_app_nth)
  moreover have "rev (take (Suc n) u) = u ! n # rev (take n u)"
    using Suc.prems by (simp add: take_Suc_conv_app_nth)
  ultimately show ?case using Suc by simp
qed

lemma add_bytes_down_u8s:
  "n \<le> length u \<Longrightarrow> add_bytes_down al d u n cbb = add_u8s al d (rev (take n u)) cbb"
  by (induction n arbitrary: cbb) (auto simp: take_Suc_conv_app_nth split: prod.splits bool.splits)

lemma be_int_be_bytes_sint: "be_int (be_bytes 8 (unat (v :: u64))) = sint v"
proof -
  define bs where "bs = be_bytes 8 (unat v)"
  have u: "unat v < 256 ^ 8" using unsigned_less [of v, where 'a = nat] by simp
  then have nat: "be_nat bs = unat v" by (simp add: bs_def)
  have len: "length bs = 8" by (simp add: bs_def)
  have "be_word bs = word_of_int (be_int bs)" using sign_extended [of bs] len by simp
  moreover have "be_word bs = v"
    using unat_be_word [of bs] nat len by (simp add: word_unat_eq_iff)
  moreover have "- (128 * 256 ^ 7) \<le> be_int bs \<and> be_int bs < 128 * 256 ^ 7"
  proof -
    obtain b r where b: "bs = b # r" "length r = 7" using len by (cases bs) simp_all
    define m where "m = int (be_nat r)"
    define k where "k = int (unat b)"
    have "be_nat r < 256 ^ 7" using be_nat_less [of r] b(2) by simp
    then have m: "0 \<le> m" "m < 256 ^ 7" by (simp_all add: m_def)
    have k: "0 \<le> k" "k < 256" unfolding k_def using unat_byte_less [of b] by linarith+
    have "be_int bs = k * 256 ^ 7 + m - (if 128 \<le> k then 256 ^ 8 else 0)"
    proof -
      have "int (be_nat bs) = k * 256 ^ 7 + m" by (simp add: b be_nat_Cons k_def m_def)
      moreover have "128 \<le> unat b \<longleftrightarrow> 128 \<le> k" unfolding k_def by linarith
      ultimately show ?thesis using b by (simp add: be_int_def len)
    qed
    with m k show ?thesis by (auto split: if_splits)
  qed
  ultimately show ?thesis
    using sint_word_of_int64 [of "be_int bs"] by (simp add: bs_def)
qed

interpretation add_asn1_int64: cbb_writer al "CBB_add_asn1_int64 al d v"
  "write_at d (der_element CBS_ASN1_INTEGER (asn1_int (sint v)))" for al d v
proof (cases "sint v \<ge> 0")
  case True
  then have "CBB_add_asn1_int64 al d v = CBB_add_asn1_uint64 al d v"
    by (intro ext) (simp add: CBB_add_asn1_int64_def)
  moreover have "sint v = int (unat v)"
  proof -
    have "be_int (be_bytes 8 (unat v)) = int (be_nat (be_bytes 8 (unat v)))
        \<or> be_int (be_bytes 8 (unat v)) < 0"
      using be_nat_less [of "be_bytes 8 (unat v)"] by (auto simp: be_int_def)
    moreover have "unat v < 256 ^ 8" using unsigned_less [of v, where 'a = nat] by simp
    ultimately show ?thesis using True by (auto simp: be_int_be_bytes_sint)
  qed
  ultimately show "cbb_writer al (CBB_add_asn1_int64 al d v)
      (write_at d (der_element CBS_ASN1_INTEGER (asn1_int (sint v))))"
    using add_asn1_uint64.cbb_writer_axioms by simp
next
  case False
  define u where "u = rev (be_bytes 8 (unat v))"
  define bs where "bs = strip_ff (be_bytes 8 (unat v))"
  have u: "length u = 8" "rev (take 8 u) = be_bytes 8 (unat v)" by (simp_all add: u_def)
  have "int64_start u n \<le> n" for n by (induction n) auto
  from this [of 7] have s: "Suc (int64_start u 7) \<le> length u" using u by simp
  have "rev (take (Suc (int64_start u 7)) u) = strip_ff (rev (take (Suc 7) u))"
    by (rule int64_start_strip) (simp add: u(1))
  moreover have "Suc 7 = (8 :: nat)" by simp
  ultimately have "rev (take (Suc (int64_start u 7)) u) = bs"
    by (simp only: u(2) bs_def)
  then have down: "add_bytes_down al (Suc d) u (Suc (int64_start u 7)) cbb = add_u8s al (Suc d) bs cbb" for cbb
    using add_bytes_down_u8s [OF s, of al "Suc d" cbb] by simp
  have op: "CBB_add_asn1_int64 al d v = (\<lambda>cbb. case CBB_add_asn1 al d CBS_ASN1_INTEGER cbb of
         (False, cbb) \<Rightarrow> (False, cbb)
       | (True, cbb) \<Rightarrow> (case add_u8s al (Suc d) bs cbb of
            (False, cbb) \<Rightarrow> (False, cbb) | (True, cbb) \<Rightarrow> CBB_flush al d cbb))"
    by (intro ext) (simp only: CBB_add_asn1_int64_def Let_def u_def [symmetric] False if_False down)
  have "128 \<le> unat (hd (be_bytes 8 (unat v)))"
  proof (rule ccontr)
    assume "\<not> 128 \<le> unat (hd (be_bytes 8 (unat v)))"
    then have "be_int (be_bytes 8 (unat v)) = int (be_nat (be_bytes 8 (unat v)))"
      by (simp add: be_int_def)
    with False show False by (simp add: be_int_be_bytes_sint)
  qed
  then have "be_int bs = sint v" "minimal_int bs"
    using strip_ff_be_int [of "be_bytes 8 (unat v)"] by (simp_all add: bs_def be_int_be_bytes_sint)
  then have bs: "bs = asn1_int (sint v)" using asn1_int_be_int by metis
  have "- (128 * 256 ^ 7) \<le> sint v \<and> sint v < 128 * 256 ^ 7"
    using sint_greater_eq [of v] sint_less [of v] by simp
  then have "length bs \<le> Suc 7" unfolding bs length_asn1_int .
  then have len: "length bs \<le> 0xfffffffe" by simp
  have "bs \<noteq> []" by (simp add: bs)
  from asn1_value_writer_short [OF add_u8s_writer [OF this] len, of al d CBS_ASN1_INTEGER]
  show "cbb_writer al (CBB_add_asn1_int64 al d v)
      (write_at d (der_element CBS_ASN1_INTEGER (asn1_int (sint v))))"
    by (simp only: op bs)
qed

lemma add_asn1_octet_string_writer:
  assumes "n \<le> length data" "n < size_mod"
  shows "cbb_writer al (CBB_add_asn1_octet_string al d data n)
    (\<lambda>L. if n \<le> 0xfffffffe then write_at d (der_element CBS_ASN1_OCTETSTRING (take n data)) L else None)"
proof -
  have "CBB_add_asn1_octet_string al d data n = (\<lambda>cbb. case CBB_add_asn1 al d CBS_ASN1_OCTETSTRING cbb of
         (False, cbb) \<Rightarrow> (False, cbb)
       | (True, cbb) \<Rightarrow> (case CBB_add_bytes al (Suc d) data n cbb of
            (False, cbb) \<Rightarrow> (False, cbb) | (True, cbb) \<Rightarrow> CBB_flush al d cbb))"
    by (intro ext) (simp add: CBB_add_asn1_octet_string_def)
  moreover have "length (take n data) = n" using assms by simp
  ultimately show ?thesis
    using asn1_value_writer [OF add_bytes_writer [OF assms], of al d CBS_ASN1_OCTETSTRING]
    by (simp only:)
qed

interpretation add_asn1_bool: cbb_writer al "CBB_add_asn1_bool al d v"
  "write_at d (der_element CBS_ASN1_BOOLEAN [if v \<noteq> 0 then 0xff else 0])" for al d v
proof -
  have "CBB_add_asn1_bool al d v = (\<lambda>cbb. case CBB_add_asn1 al d CBS_ASN1_BOOLEAN cbb of
         (False, cbb) \<Rightarrow> (False, cbb)
       | (True, cbb) \<Rightarrow> (case CBB_add_u8 al (Suc d) (if v \<noteq> 0 then 0xff else 0) cbb of
            (False, cbb) \<Rightarrow> (False, cbb) | (True, cbb) \<Rightarrow> CBB_flush al d cbb))"
    by (intro ext) (simp add: CBB_add_asn1_bool_def)
  then show "cbb_writer al (CBB_add_asn1_bool al d v)
      (write_at d (der_element CBS_ASN1_BOOLEAN [if v \<noteq> 0 then 0xff else 0]))"
    using asn1_value_writer_short [OF add_u8.cbb_writer_axioms, of "if v \<noteq> 0 then 0xff else 0" al d CBS_ASN1_BOOLEAN]
    by simp
qed

section \<open>Object identifiers\<close>

text \<open>\<open>parse_dotted_decimal\<close> reads back the decimal form of every 64-bit number.\<close>

lemma dotted_decimal_step:
  assumes n: "10 * m + k < 2 ^ 64" and k: "k < 10" and seen: "seen \<Longrightarrow> m \<noteq> 0"
  shows "dotted_decimal_loop (word_of_nat m) seen (word_of_nat (48 + k) # s)
    = dotted_decimal_loop (word_of_nat (10 * m + k)) True s"
proof -
  define u :: byte where "u = word_of_nat (48 + k)"
  define out :: u64 where "out = word_of_nat m"
  have u: "unat u = 48 + k" unfolding u_def using k by (rule unat_digit)
  have m: "unat out = m" using n by (simp add: out_def unsigned_of_nat take_bit_nat_eq_self)
  have "unat (u - 48) = k"
  proof -
    have "(48 :: byte) \<le> u" using u by (simp add: word_le_nat_alt)
    then have "unat (u - 48) = unat u - 48" by (simp add: unat_sub)
    with u show ?thesis by simp
  qed
  then have d: "unat (ucast (u - 48) :: u64) = k" by simp
  have ten: "unat (out * 10) = 10 * m" using n m by (simp add: unat_mult_lem [THEN iffD1] unat_word_ariths)
  have sub: "unat (0xffffffffffffffff - ucast (u - 48) :: u64) = 2 ^ 64 - 1 - k"
    using d k by (subst unat_sub) (simp_all add: word_le_nat_alt)
  have "u \<noteq> 46" "\<not> u < 48" "\<not> u > 57" using u k by (auto simp: word_less_nat_alt)
  moreover have "\<not> (seen \<and> out = 0)" using seen m by auto
  moreover have "\<not> out > 0xffffffffffffffff div 10"
    using m n by (simp add: word_less_nat_alt unat_div)
  moreover have "\<not> out * 10 > 0xffffffffffffffff - ucast (u - 48)"
    using ten sub n k by (simp add: word_less_nat_alt)
  moreover have "out * 10 + ucast (u - 48) = word_of_nat (10 * m + k)"
  proof (rule word_unat_eq_iff [THEN iffD2])
    have "unat (out * 10 + ucast (u - 48)) = 10 * m + k"
      using ten d n by (simp add: unat_word_ariths)
    moreover have "N < 2 ^ 64 \<Longrightarrow> unat (word_of_nat N :: u64) = N" for N
      by (simp add: unsigned_of_nat take_bit_nat_eq_self)
    ultimately show "unat (out * 10 + ucast (u - 48)) = unat (word_of_nat (10 * m + k) :: u64)"
      using n by (simp only:)
  qed
  ultimately show ?thesis
    unfolding u_def [symmetric] out_def [symmetric]
    by (simp only: dotted_decimal_loop.simps if_False simp_thms)
qed

lemma dotted_decimal_loop_decimal:
  "n < 2 ^ 64 \<Longrightarrow> dotted_decimal_loop 0 False (decimal n @ s) = dotted_decimal_loop (word_of_nat n) True s"
proof (induction n arbitrary: s rule: less_induct)
  case (less n)
  show ?case
  proof (cases "n < 10")
    case True
    then show ?thesis
      using dotted_decimal_step [of 0 n False s] by (simp add: decimal.simps [of n])
  next
    case False
    have "dotted_decimal_loop 0 False (decimal n @ s)
        = dotted_decimal_loop 0 False (decimal (n div 10) @ word_of_nat (48 + n mod 10) # s)"
      using False by (simp add: decimal.simps [of n])
    also have "\<dots> = dotted_decimal_loop (word_of_nat (n div 10)) True (word_of_nat (48 + n mod 10) # s)"
      by (rule less.IH) (use False less.prems in simp_all)
    also have "\<dots> = dotted_decimal_loop (word_of_nat (10 * (n div 10) + n mod 10)) True s"
      by (rule dotted_decimal_step) (use False less.prems in auto)
    finally show ?thesis by simp
  qed
qed

lemma parse_dotted_decimal_last: "parse_dotted_decimal (decimal (unat (v :: u64))) = (Some v, [])"
proof -
  have "unat v < 2 ^ 64" using unsigned_less [of v, where 'a = nat] by simp
  from dotted_decimal_loop_decimal [OF this, of "[]"] show ?thesis
    by (simp add: parse_dotted_decimal_def)
qed

lemma parse_dotted_decimal_more:
  assumes "rest \<noteq> []"
  shows "parse_dotted_decimal (decimal (unat (v :: u64)) @ 46 # rest) = (Some v, rest)"
proof -
  have "unat v < 2 ^ 64" using unsigned_less [of v, where 'a = nat] by simp
  from dotted_decimal_loop_decimal [OF this, of "46 # rest"] assms show ?thesis
    by (simp add: parse_dotted_decimal_def)
qed

text \<open>The text and the contents octets of the components after the first two.\<close>

definition arcs_text :: "u64 list \<Rightarrow> byte list" where
  "arcs_text vs = concat (map (\<lambda>v. 46 # decimal (unat v)) vs)"

definition arcs_der :: "u64 list \<Rightarrow> byte list" where
  "arcs_der vs = concat (map (\<lambda>v. base128 (unat v)) vs)"

text \<open>The text behind a component: what \<open>parse_dotted_decimal\<close> leaves is without the dot.\<close>

lemma parse_dotted_decimal_arcs:
  "parse_dotted_decimal (decimal (unat v) @ arcs_text vs) = (Some v, tl (arcs_text vs))"
proof (cases vs)
  case Nil
  then show ?thesis by (simp add: arcs_text_def parse_dotted_decimal_last)
next
  case (Cons w ws)
  then show ?thesis by (simp add: arcs_text_def parse_dotted_decimal_more)
qed

lemma oid_components_loop_writer:
  "length vs \<le> fuel \<Longrightarrow>
    field_writer al d (oid_components_loop al d fuel (tl (arcs_text vs))) (Some (arcs_der vs))"
proof (induction vs arbitrary: fuel)
  case Nil
  have "oid_components_loop al d fuel [] = (\<lambda>cbb. (True, cbb))"
    by (cases fuel) (auto simp: CBS_len_def)
  then show ?case using field_writer_nil by (simp add: arcs_text_def arcs_der_def)
next
  case (Cons v vs)
  then obtain k where k: "fuel = Suc k" "length vs \<le> k" by (cases fuel) auto
  have tl: "tl (arcs_text (v # vs)) = decimal (unat v) @ arcs_text vs" by (simp add: arcs_text_def)
  have "oid_components_loop al d fuel (tl (arcs_text (v # vs)))
      = (\<lambda>st. case add_base128_integer al d v st of (False, st) \<Rightarrow> (False, st)
          | (True, st) \<Rightarrow> oid_components_loop al d k (tl (arcs_text vs)) st)"
    by (intro ext) (simp add: k tl CBS_len_def parse_dotted_decimal_arcs)
  then show ?case
    using field_writer_cons [OF add_base128.cbb_writer_axioms Cons.IH [OF k(2)], of v]
    by (simp add: arcs_der_def)
qed

lemma length_arcs_text: "length vs \<le> length (tl (arcs_text vs))"
proof (induction vs)
  case (Cons v vs)
  have "1 \<le> length (decimal (unat v))" by (simp add: Suc_le_eq)
  moreover have "length vs \<le> length (arcs_text vs)" using Cons by simp
  ultimately show ?case by (simp add: arcs_text_def)
qed simp

text \<open>An object identifier \<open>a.b.vs\<close> whose first two components can be encoded.\<close>

definition oid_ok :: "u64 \<Rightarrow> u64 \<Rightarrow> bool" where
  "oid_ok a b = (a \<le> 2 \<and> (a < 2 \<longrightarrow> b \<le> 39) \<and> b \<le> 0xffffffffffffffff - 80)"

definition oid_text :: "u64 \<Rightarrow> u64 \<Rightarrow> u64 list \<Rightarrow> byte list" where
  "oid_text a b vs = decimal (unat a) @ 46 # decimal (unat b) @ arcs_text vs"

definition oid_der :: "u64 \<Rightarrow> u64 \<Rightarrow> u64 list \<Rightarrow> byte list" where
  "oid_der a b vs = base128 (unat (40 * a + b)) @ arcs_der vs"

lemma oid_from_text_writer:
  assumes "oid_ok a b"
  shows "field_writer al d (CBB_add_asn1_oid_from_text al d (oid_text a b vs) (length (oid_text a b vs)))
    (Some (oid_der a b vs))"
proof -
  have p1: "parse_dotted_decimal (oid_text a b vs) = (Some a, decimal (unat b) @ arcs_text vs)"
    by (simp add: oid_text_def parse_dotted_decimal_more)
  have "CBS_init (oid_text a b vs) (length (oid_text a b vs)) = oid_text a b vs"
    by (simp add: CBS_init_def)
  then have op: "CBB_add_asn1_oid_from_text al d (oid_text a b vs) (length (oid_text a b vs))
    = (\<lambda>cbb. case (case CBB_flush al d cbb of (False, cbb) \<Rightarrow> (False, cbb)
         | (True, cbb) \<Rightarrow> add_base128_integer al d (40 * a + b) cbb) of
        (False, cbb) \<Rightarrow> (False, cbb)
      | (True, cbb) \<Rightarrow> oid_components_loop al d (length (tl (arcs_text vs))) (tl (arcs_text vs)) cbb)"
    using assms
    by (intro ext) (auto simp: CBB_add_asn1_oid_from_text_def p1 parse_dotted_decimal_arcs oid_ok_def
        not_less Let_def split: prod.splits bool.splits)
  have first: "cbb_writer al (\<lambda>cbb. case CBB_flush al d cbb of (False, cbb) \<Rightarrow> (False, cbb)
         | (True, cbb) \<Rightarrow> add_base128_integer al d (40 * a + b) cbb)
      (write_at d (base128 (unat (40 * a + b))))"
    using cbb_writer_seq [OF flush.cbb_writer_axioms add_base128.cbb_writer_axioms, of al d "40 * a + b" d]
    by (simp only: settle_write_at)
  show ?thesis
    using field_writer_cons [OF first oid_components_loop_writer [OF length_arcs_text]]
    by (simp add: op oid_der_def)
qed

text \<open>From contents octets to text: the components the loop reads.\<close>

fun oid_arcs :: "nat \<Rightarrow> CBS \<Rightarrow> u64 list option" where
  "oid_arcs 0 copy = (if copy = [] then Some [] else None)"
| "oid_arcs (Suc fuel) copy =
     (if copy = [] then Some []
      else (case parse_base128_integer copy of
              (None, _) \<Rightarrow> None
            | (Some v, copy) \<Rightarrow> map_option (\<lambda>vs. v # vs) (oid_arcs fuel copy)))"

lemma oid_arcs_iff: "length copy \<le> fuel \<Longrightarrow> oid_arcs fuel copy = Some vs \<longleftrightarrow> copy = arcs_der vs"
proof (induction fuel copy arbitrary: vs rule: oid_arcs.induct)
  case (1 copy)
  have "arcs_der vs = [] \<longleftrightarrow> vs = []" by (cases vs) (simp_all add: arcs_der_def)
  with 1 show ?case by auto
next
  case (2 fuel copy)
  show ?case
  proof (cases "copy = []")
    case True
    have "arcs_der vs = [] \<longleftrightarrow> vs = []" by (cases vs) (simp_all add: arcs_der_def)
    with True show ?thesis by auto
  next
    case False
    show ?thesis
    proof (cases "fst (parse_base128_integer copy)")
      case None
      then have "copy \<noteq> base128 (unat v) @ r" for v :: u64 and r
        using parse_base128_integer_Some_iff [of copy v r] by auto
      then have "copy \<noteq> arcs_der vs" using False by (cases vs) (auto simp: arcs_der_def)
      moreover have "oid_arcs (Suc fuel) copy = None"
        using None False by (auto split: prod.splits)
      ultimately show ?thesis by simp
    next
      case (Some v)
      then obtain c where c: "parse_base128_integer copy = (Some v, c)"
        by (cases "parse_base128_integer copy") simp
      then have copy: "copy = base128 (unat v) @ c" by (simp add: parse_base128_integer_Some_iff)
      have "1 \<le> length (base128 (unat v))" by (simp add: Suc_le_eq)
      then have "length c \<le> fuel" using 2(2) copy by simp
      then have IH: "oid_arcs fuel c = Some ws \<longleftrightarrow> c = arcs_der ws" for ws
        using 2(1) [OF False c [symmetric] refl] by blast
      have "copy = arcs_der vs \<longleftrightarrow> (\<exists>ws. vs = v # ws \<and> c = arcs_der ws)"
      proof
        assume der: "copy = arcs_der vs"
        with False obtain w ws where vs: "vs = w # ws" by (cases vs) (auto simp: arcs_der_def)
        with der copy have "base128 (unat v) @ c = base128 (unat w) @ arcs_der ws"
          by (simp add: arcs_der_def)
        with base128_codec.prefix_free [where v = v and w = w] vs show "\<exists>ws. vs = v # ws \<and> c = arcs_der ws" by auto
      qed (auto simp: copy arcs_der_def)
      moreover have "oid_arcs (Suc fuel) copy = Some vs \<longleftrightarrow> (\<exists>ws. vs = v # ws \<and> oid_arcs fuel c = Some ws)"
        using False c by auto
      ultimately show ?thesis using IH by simp
    qed
  qed
qed

lemma length_decimal_u64: "length (decimal (unat (v :: u64))) \<le> 20"
proof (rule length_decimal)
  have "unat v < 2 ^ 64" using unsigned_less [of v, where 'a = nat] by simp
  then show "unat v < 10 ^ 20" by simp
qed simp

lemma add_decimal_writer: "cbb_writer al (add_decimal al v) (write_at 0 (decimal (unat v)))"
proof -
  have "length (decimal (unat v)) < size_mod" using length_decimal_u64 [of v] by simp
  from add_bytes_writer [OF order_refl this, of al 0] show ?thesis
    by (simp add: add_decimal_def [abs_def] Let_def)
qed

lemma oid_text_loop_writer:
  "field_writer al 0 (oid_text_loop al fuel copy) (map_option arcs_text (oid_arcs fuel copy))"
proof (induction fuel arbitrary: copy)
  case 0
  show ?case
  proof (cases "copy = []")
    case True
    then have "oid_text_loop al 0 copy = (\<lambda>cbb. (True, cbb))" by (intro ext) simp
    with True show ?thesis using field_writer_nil by (simp add: arcs_text_def)
  next
    case False
    then have "field_writer al 0 (oid_text_loop al 0 copy) None"
      by (intro field_writer_refuse) simp
    moreover have "map_option arcs_text (oid_arcs 0 copy) = None" using False by simp
    ultimately show ?thesis by (simp only:)
  qed
next
  case (Suc fuel)
  show ?case
  proof (cases "copy = []")
    case True
    then have "oid_text_loop al (Suc fuel) copy = (\<lambda>cbb. (True, cbb))" by (intro ext) (simp add: CBS_len_def)
    with True show ?thesis using field_writer_nil by (simp add: arcs_text_def)
  next
    case False
    obtain o1 c where p: "parse_base128_integer copy = (o1, c)" by fastforce
    show ?thesis
    proof (cases o1)
      case None
      then have "field_writer al 0 (oid_text_loop al (Suc fuel) copy) None"
        using False p by (intro field_writer_refuse) (simp add: CBS_len_def)
      moreover have "map_option arcs_text (oid_arcs (Suc fuel) copy) = None" using False p None by simp
      ultimately show ?thesis by (simp only:)
    next
      case (Some v)
      have op: "oid_text_loop al (Suc fuel) copy = (\<lambda>cbb. case (case CBB_add_u8 al 0 46 cbb of
           (False, cbb) \<Rightarrow> (False, cbb) | (True, cbb) \<Rightarrow> add_decimal al v cbb) of
           (False, cbb) \<Rightarrow> (False, cbb) | (True, cbb) \<Rightarrow> oid_text_loop al fuel c cbb)"
        using False p Some by (intro ext) (simp add: CBS_len_def split: prod.splits bool.splits)
      have first: "cbb_writer al (\<lambda>cbb. case CBB_add_u8 al 0 46 cbb of
           (False, cbb) \<Rightarrow> (False, cbb) | (True, cbb) \<Rightarrow> add_decimal al v cbb)
         (write_at 0 (46 # decimal (unat v)))"
        using cbb_writer_seq [OF add_u8.cbb_writer_axioms [where d = 0 and v = 46] add_decimal_writer [of al v]]
        by (simp only: write_at_seq append_Cons append_Nil)
      have "map_option arcs_text (oid_arcs (Suc fuel) copy)
          = map_option (\<lambda>r. (46 # decimal (unat v)) @ r) (map_option arcs_text (oid_arcs fuel c))"
        using False p Some by (simp add: option.map_comp o_def arcs_text_def)
      then show ?thesis
        using field_writer_cons [OF first Suc.IH [of c]] by (simp only: op)
    qed
  qed
qed

text \<open>The first two components of the text and of the contents.\<close>

lemma unat_40_80:
  fixes v :: u64
  shows "v \<ge> 80 \<Longrightarrow> oid_ok 2 (v - 80) \<and> 40 * 2 + (v - 80) = v"
    and "\<not> v \<ge> 80 \<Longrightarrow> oid_ok (v div 40) (v mod 40) \<and> 40 * (v div 40) + v mod 40 = v"
proof -
  show "v \<ge> 80 \<Longrightarrow> oid_ok 2 (v - 80) \<and> 40 * 2 + (v - 80) = v"
  proof -
    assume v: "v \<ge> 80"
    then have "unat (v - 80) = unat v - 80" by (simp add: unat_sub)
    moreover have "unat v < 2 ^ 64" using unsigned_less [of v, where 'a = nat] by simp
    ultimately show ?thesis by (simp add: oid_ok_def word_le_nat_alt)
  qed
  assume v: "\<not> v \<ge> 80"
  then have n: "unat v < 80" by (simp add: word_le_nat_alt)
  have "unat (v div 40) = unat v div 40" "unat (v mod 40) = unat v mod 40"
    by (simp_all add: unat_div unat_mod)
  moreover have "unat v div 40 < 2" "unat v mod 40 \<le> 39" using n by auto
  ultimately have "oid_ok (v div 40) (v mod 40)"
    by (simp add: oid_ok_def word_le_nat_alt word_less_nat_alt)
  then show "oid_ok (v div 40) (v mod 40) \<and> 40 * (v div 40) + v mod 40 = v"
    by (simp only: mult_div_mod_eq simp_thms)
qed

definition first_arcs :: "u64 \<Rightarrow> u64 \<times> u64" where
  "first_arcs v = (if v \<ge> 80 then (2, v - 80) else (v div 40, v mod 40))"

lemma oid_text_first_writer:
  "cbb_writer al (oid_text_first al v)
     (write_at 0 (decimal (unat (fst (first_arcs v))) @ 46 # decimal (unat (snd (first_arcs v)))))"
proof (cases "v \<ge> 80")
  case True
  have b: "cbb_writer al (CBB_add_bytes al 0 [50, 46] 2) (write_at 0 [50, 46])"
    using add_bytes_writer [of 2 "[50, 46]" al 0] by simp
  have two: "decimal 2 = [50]" by (subst decimal.simps) simp
  have "oid_text_first al v = (\<lambda>cbb. case CBB_add_bytes al 0 [50, 46] 2 cbb of
      (False, cbb) \<Rightarrow> (False, cbb) | (True, cbb) \<Rightarrow> add_decimal al (v - 80) cbb)"
    using True by (intro ext) (simp add: oid_text_first_def)
  then show ?thesis
    using cbb_writer_append [OF b add_decimal_writer [of al "v - 80"]] True
    by (simp add: first_arcs_def two)
next
  case False
  have "oid_text_first al v = (\<lambda>cbb. case add_decimal al (v div 40) cbb of
      (False, cbb) \<Rightarrow> (False, cbb)
    | (True, cbb) \<Rightarrow> (case CBB_add_u8 al 0 46 cbb of
        (False, cbb) \<Rightarrow> (False, cbb) | (True, cbb) \<Rightarrow> add_decimal al (v mod 40) cbb))"
    using False by (intro ext) (simp add: oid_text_first_def)
  then show ?thesis
    using cbb_writer_append [OF add_decimal_writer [of al "v div 40"]
        cbb_writer_append [OF add_u8.cbb_writer_axioms [where d = 0 and v = 46] add_decimal_writer [of al "v mod 40"]]]
      False
    by (simp add: first_arcs_def)
qed

text \<open>The text builder, as one operation between \<open>CBB_init\<close> and \<open>CBB_finish\<close>.\<close>

definition oid_text_op :: "allocator \<Rightarrow> CBS \<Rightarrow> cbb_st \<Rightarrow> bool \<times> cbb_st" where
  "oid_text_op al cbs cbb =
     (case parse_base128_integer cbs of
        (None, _) \<Rightarrow> (False, cbb)
      | (Some v, copy) \<Rightarrow>
         (case oid_text_first al v cbb of
            (False, cbb) \<Rightarrow> (False, cbb)
          | (True, cbb) \<Rightarrow>
             (case oid_text_loop al (length copy) copy cbb of
                (False, cbb) \<Rightarrow> (False, cbb)
              | (True, cbb) \<Rightarrow> CBB_add_u8 al 0 0 cbb)))"

lemma CBS_asn1_oid_to_text_finish:
  "CBS_asn1_oid_to_text al cbs = finish_with al 32 (oid_text_op al cbs)"
proof (cases "CBB_init al 32")
  case None
  then show ?thesis by (simp add: CBS_asn1_oid_to_text_def finish_with_def)
next
  case (Some st)
  obtain p1 copy where p: "parse_base128_integer cbs = (p1, copy)" by fastforce
  show ?thesis
  proof (cases p1)
    case None
    with Some p show ?thesis
      by (simp add: CBS_asn1_oid_to_text_def finish_with_def oid_text_op_def)
  next
    case (Some v)
    obtain r1 st1 where r1: "oid_text_first al v st = (r1, st1)" by fastforce
    obtain r2 st2 where r2: "oid_text_loop al (length copy) copy st1 = (r2, st2)" by fastforce
    obtain r3 st3 where r3: "CBB_add_u8 al 0 0 st2 = (r3, st3)" by fastforce
    show ?thesis
      using \<open>CBB_init al 32 = Some st\<close> p Some r1 r2 r3
      by (cases r1; cases r2; cases r3)
        (simp_all add: CBS_asn1_oid_to_text_def finish_with_def oid_text_op_def)
  qed
qed

lemma oid_text_op_writer:
  assumes p: "parse_base128_integer cbs = (Some v, copy)"
  shows "field_writer al 0 (oid_text_op al cbs)
    (map_option (\<lambda>vs. oid_text (fst (first_arcs v)) (snd (first_arcs v)) vs @ [0])
      (oid_arcs (length copy) copy))"
proof -
  have op: "oid_text_op al cbs = (\<lambda>cbb. case oid_text_first al v cbb of
            (False, cbb) \<Rightarrow> (False, cbb)
          | (True, cbb) \<Rightarrow>
             (case oid_text_loop al (length copy) copy cbb of
                (False, cbb) \<Rightarrow> (False, cbb)
              | (True, cbb) \<Rightarrow> CBB_add_u8 al 0 0 cbb))"
    by (intro ext) (simp add: oid_text_op_def p)
  note last = cbb_writer_field [OF add_u8.cbb_writer_axioms [where d = 0 and v = 0 and al = al]]
  have "field_writer al 0 (oid_text_op al cbs) (map_option
      (\<lambda>r. (decimal (unat (fst (first_arcs v))) @ 46 # decimal (unat (snd (first_arcs v)))) @ r)
      (case map_option arcs_text (oid_arcs (length copy) copy) of None \<Rightarrow> None
       | Some x \<Rightarrow> map_option (\<lambda>r. x @ r) (Some [0])))"
    unfolding op by (rule field_writer_cons [OF oid_text_first_writer
        field_writer_seq [OF oid_text_loop_writer last]])
  then show ?thesis
    by (cases "oid_arcs (length copy) copy") (simp_all add: oid_text_def)
qed

text \<open>A text comes out exactly for the contents octets of an object identifier, and it is that
  identifier's text (with the terminating zero).\<close>

lemma oid_der_first:
  "oid_ok (fst (first_arcs v)) (snd (first_arcs v))
   \<and> oid_der (fst (first_arcs v)) (snd (first_arcs v)) vs = base128 (unat v) @ arcs_der vs"
  using unat_40_80 [of v] by (cases "v \<ge> 80") (simp_all add: first_arcs_def oid_der_def)

lemma CBS_asn1_oid_to_text_Some:
  assumes "CBS_asn1_oid_to_text al cbs = Some t"
  shows "\<exists>a b vs. oid_ok a b \<and> cbs = oid_der a b vs \<and> t = oid_text a b vs @ [0]"
proof -
  have run: "finish_with al 32 (oid_text_op al cbs) = Some t"
    using assms by (simp add: CBS_asn1_oid_to_text_finish)
  obtain p1 copy where p: "parse_base128_integer cbs = (p1, copy)" by fastforce
  show ?thesis
  proof (cases p1)
    case None
    then have "field_writer al 0 (oid_text_op al cbs) None"
      by (intro field_writer_refuse) (simp add: oid_text_op_def p)
    from finish_with_sound [OF this run] show ?thesis by simp
  next
    case (Some v)
    with p have "cbs = base128 (unat v) @ copy" by (simp add: parse_base128_integer_Some_iff)
    moreover from finish_with_sound [OF oid_text_op_writer run] p Some
    obtain vs where "oid_arcs (length copy) copy = Some vs"
      and "t = oid_text (fst (first_arcs v)) (snd (first_arcs v)) vs @ [0]" by auto
    moreover from this have "copy = arcs_der vs" by (simp add: oid_arcs_iff)
    ultimately show ?thesis using oid_der_first [of v vs] by metis
  qed
qed

lemma length_arcs_text_le: "length (arcs_text vs) \<le> 21 * length vs"
proof (induction vs)
  case (Cons v vs)
  with length_decimal_u64 [of v] show ?case by (simp add: arcs_text_def)
qed (simp add: arcs_text_def)

lemma first_arcs_inverse:
  assumes "oid_ok a b"
  shows "first_arcs (40 * a + b) = (a, b)"
proof -
  have a: "unat a \<le> 2" and b: "unat a < 2 \<longrightarrow> unat b \<le> 39" and m: "unat b \<le> 2 ^ 64 - 81"
    using assms by (simp_all add: oid_ok_def word_le_nat_alt word_less_nat_alt)
  have ab: "unat (40 * a + b) = 40 * unat a + unat b"
  proof -
    have "40 * unat a + unat b < 2 ^ 64" using a m by simp
    then show ?thesis by (simp add: unat_word_ariths)
  qed
  show ?thesis
  proof (cases "unat a < 2")
    case True
    then have "40 * unat a + unat b < 80" "(40 * unat a + unat b) div 40 = unat a"
      "(40 * unat a + unat b) mod 40 = unat b" using b by auto
    then show ?thesis
      by (simp add: first_arcs_def word_le_nat_alt ab word_unat_eq_iff unat_div unat_mod)
  next
    case False
    then have a2: "unat a = 2" using a by simp
    then have "a = 2" by (simp add: word_unat_eq_iff)
    with ab a2 show ?thesis by (simp add: first_arcs_def word_le_nat_alt)
  qed
qed

lemma CBS_asn1_oid_to_text_der:
  assumes "granting al" "oid_ok a b" "length vs \<le> 2 ^ 50"
  shows "CBS_asn1_oid_to_text al (oid_der a b vs) = Some (oid_text a b vs @ [0])"
proof -
  have p: "parse_base128_integer (oid_der a b vs) = (Some (40 * a + b), arcs_der vs)"
    by (simp add: oid_der_def parse_base128_integer_Some_iff)
  have "field_writer al 0 (oid_text_op al (oid_der a b vs)) (Some (oid_text a b vs @ [0]))"
    using oid_text_op_writer [OF p, of al] oid_arcs_iff [of "arcs_der vs" _ vs]
    by (simp add: first_arcs_inverse [OF assms(2)])
  moreover have "length (oid_text a b vs @ [0]) \<le> 2 ^ 60"
    using length_arcs_text_le [of vs] length_decimal_u64 [of a] length_decimal_u64 [of b] assms(3)
    by (simp add: oid_text_def)
  ultimately show ?thesis
    unfolding CBS_asn1_oid_to_text_finish by (intro finish_with_complete assms(1)) simp_all
qed

section \<open>Properties\<close>

text \<open>What the typed writers write, the typed readers read back: a builder with an allocator that
  grants every request writes any 64-bit number, unsigned and signed, any boolean, and the reader
  returns it with exactly the bytes behind the element as the rest.\<close>

theorem asn1_typed_round_trip:
  assumes "granting al" "n \<le> 2 ^ 61"
  shows "(\<exists>x. finish_with al n (CBB_add_asn1_uint64 al 0 w) = Some x
            \<and> CBS_get_asn1_uint64 (x @ r) = (Some w, r))
    \<and> (\<exists>x. finish_with al n (CBB_add_asn1_int64 al 0 w) = Some x
            \<and> CBS_get_asn1_int64 (x @ r) = (Some w, r))
    \<and> (\<exists>x. finish_with al n (CBB_add_asn1_bool al 0 i) = Some x
            \<and> CBS_get_asn1_bool (x @ r) = (Some (i \<noteq> 0), r))"
proof -
  have short: "length (der_element CBS_ASN1_INTEGER bs) \<le> 2 ^ 60" if "length bs \<le> 9" for bs
    using that length_der_tag [of CBS_ASN1_INTEGER] by (simp add: der_element_def der_header_def der_len_def)
  have bool: "length (der_element CBS_ASN1_BOOLEAN [b]) \<le> 2 ^ 60" for b
    using length_der_tag [of CBS_ASN1_BOOLEAN] by (simp add: der_element_def der_header_def der_len_def)
  have i: "length (asn1_int (sint w)) \<le> 9"
  proof -
    have "- (128 * 256 ^ 8) \<le> sint w \<and> sint w < 128 * 256 ^ 8"
      using sint_greater_eq [of w] sint_less [of w] by simp
    then show ?thesis using length_asn1_int [of "sint w" 8] by simp
  qed
  have u: "length (asn1_int (int (unat w))) \<le> 9" using length_asn1_int_u64 [of w] by simp
  note run = finish_with_complete [OF cbb_writer_field assms]
  show ?thesis
    using run [OF add_asn1_uint64.cbb_writer_axioms short [OF u]]
      run [OF add_asn1_int64.cbb_writer_axioms short [OF i]]
      run [OF add_asn1_bool.cbb_writer_axioms bool]
      CBS_get_asn1_uint64_Some_iff CBS_get_asn1_int64_Some_iff CBS_get_asn1_bool_Some_iff
    by metis
qed

theorem asn1_typed_round_trip_witness:
  "\<exists>x. finish_with \<lparr>malloc_ok = (\<lambda>_. True), junk = (\<lambda>_. 0)\<rparr> 4
        (CBB_add_asn1_int64 \<lparr>malloc_ok = (\<lambda>_. True), junk = (\<lambda>_. 0)\<rparr> 0 (-129)) = Some x
     \<and> CBS_get_asn1_int64 (x @ [7]) = (Some (-129), [7])"
  using asn1_typed_round_trip [of "\<lparr>malloc_ok = (\<lambda>_. True), junk = (\<lambda>_. 0)\<rparr>" 4 "-129" "[7]" 0]
  by (simp add: granting_def)

text \<open>
  An error is sticky.  The calls of the builder interface, at any depth (the other writers are these with a
  fixed width or byte order):
\<close>

datatype cbb_call =
    Call_flush nat | Call_reserve nat nat | Call_add_space nat nat | Call_add_bytes nat "byte list" nat | Call_add_zeros nat nat
  | Call_add_u nat u64 nat | Call_add_prefixed nat nat | Call_add_asn1 nat u32 | Call_uint64 nat u64 | Call_int64 nat u64
  | Call_octet_string nat "byte list" nat | Call_bool nat int | Call_oid nat "byte list" nat | Call_set_of nat
  | Call_did_write nat nat | Call_discard_child nat

fun run_call :: "allocator \<Rightarrow> cbb_call \<Rightarrow> cbb_st \<Rightarrow> bool \<times> cbb_st" where
  "run_call al (Call_flush d) st = CBB_flush al d st"
| "run_call al (Call_reserve d n) st = (case CBB_reserve al d n st of (r, st) \<Rightarrow> (r \<noteq> None, st))"
| "run_call al (Call_add_space d n) st = (case CBB_add_space al d n st of (r, st) \<Rightarrow> (r \<noteq> None, st))"
| "run_call al (Call_add_bytes d bs n) st = CBB_add_bytes al d bs n st"
| "run_call al (Call_add_zeros d n) st = CBB_add_zeros al d n st"
| "run_call al (Call_add_u d v k) st = cbb_add_u al d v k st"
| "run_call al (Call_add_prefixed d k) st = cbb_add_length_prefixed al d k st"
| "run_call al (Call_add_asn1 d tag) st = CBB_add_asn1 al d tag st"
| "run_call al (Call_uint64 d v) st = CBB_add_asn1_uint64 al d v st"
| "run_call al (Call_int64 d v) st = CBB_add_asn1_int64 al d v st"
| "run_call al (Call_octet_string d bs n) st = CBB_add_asn1_octet_string al d bs n st"
| "run_call al (Call_bool d v) st = CBB_add_asn1_bool al d v st"
| "run_call al (Call_oid d txt n) st = CBB_add_asn1_oid_from_text al d txt n st"
| "run_call al (Call_set_of d) st = CBB_flush_asn1_set_of al d st"
| "run_call al (Call_did_write d n) st = CBB_did_write d n st"
| "run_call al (Call_discard_child d) st = (True, CBB_discard_child d st)"

text \<open>The two calls that do not flush, and so do not look at the flag.\<close>

fun looks_at_error :: "cbb_call \<Rightarrow> bool" where
  "looks_at_error (Call_did_write d n) = False"
| "looks_at_error (Call_discard_child d) = False"
| "looks_at_error c = True"

definition in_error :: "cbb_st \<Rightarrow> bool" where
  "in_error st = (case cbb_base st of None \<Rightarrow> False | Some b \<Rightarrow> b_error b)"

lemma call_after_error: "in_error st \<Longrightarrow> looks_at_error c \<Longrightarrow> run_call al c st = (False, st)"
  by (cases c)
    (simp_all add: in_error_def flush_after_error flush_then_def CBB_reserve_def CBB_add_space_def CBB_add_bytes_def
      CBB_add_zeros_def cbb_add_u_def cbb_add_length_prefixed_def CBB_add_asn1_def CBB_add_asn1_uint64_def
      CBB_add_asn1_int64_def CBB_add_asn1_octet_string_def CBB_add_asn1_bool_def CBB_add_asn1_oid_from_text_def
      CBB_flush_asn1_set_of_def split: option.splits)

lemma call_keeps_error: "in_error st \<Longrightarrow> in_error (snd (run_call al c st))"
proof (cases "looks_at_error c")
  case False
  then show "in_error st \<Longrightarrow> in_error (snd (run_call al c st))"
    by (cases c) (auto simp: in_error_def CBB_did_write_def CBB_discard_child_def Let_def split: option.splits)
qed (simp add: call_after_error)

lemma calls_keep_error: "in_error st \<Longrightarrow> in_error (fold (\<lambda>c st. snd (run_call al c st)) calls st)"
  by (induction calls arbitrary: st) (simp_all add: call_keeps_error)

text \<open>C11. An error is sticky: once the buffer has recorded one, then after any sequence of calls of the builder,
  at any depth, \<open>CBB_finish\<close> fails, and so does every call that flushes, leaving the builder as it is.  The
  exceptions are \<open>CBB_discard_child\<close>, which returns nothing, and \<open>CBB_did_write\<close>: it does not look at the
  flag, and succeeds exactly when the bytes fit the buffer and no child is open.\<close>

theorem cbb_error_sticky:
  assumes "cbb_base st = Some b" "b_error b"
  shows "let st' = fold (\<lambda>c st. snd (run_call al c st)) calls st in
    fst (CBB_finish al d wd wl st') = None \<and> (\<exists>b'. cbb_base st' = Some b' \<and> b_error b') \<and>
    (\<forall>c. looks_at_error c \<longrightarrow> run_call al c st' = (False, st')) \<and>
    (fst (CBB_did_write d n st) \<longleftrightarrow>
      d = length (cbb_children st) \<and> b_len b \<le> (b_len b + n) mod size_mod \<and> (b_len b + n) mod size_mod \<le> b_cap b)"
proof -
  define st' where "st' = fold (\<lambda>c st. snd (run_call al c st)) calls st"
  have st': "in_error st'" unfolding st'_def by (rule calls_keep_error) (simp add: in_error_def assms)
  then obtain b' where b': "cbb_base st' = Some b'" "b_error b'" by (auto simp: in_error_def split: option.splits)
  then have "fst (CBB_finish al d wd wl st') = None"
    by (simp add: CBB_finish_def flush_after_error)
  moreover have "\<forall>c. looks_at_error c \<longrightarrow> run_call al c st' = (False, st')" using call_after_error [OF st'] by blast
  ultimately show ?thesis
    using b' assms(1) unfolding st'_def [symmetric] Let_def by (auto simp: CBB_did_write_def Let_def)
qed

theorem cbb_error_sticky_witness:
  "fst (CBB_finish good_allocator 0 True True (fold (\<lambda>c st. snd (run_call good_allocator c st))
     [Call_did_write 0 1, Call_add_bytes 0 [7] 1, Call_flush 0]
     \<lparr>cbb_base = Some \<lparr>b_buf = [1, 2], b_len = 1, b_cap = 2, b_can_resize = True, b_error = True\<rparr>, cbb_children = []\<rparr>)) = None"
  using cbb_error_sticky [of "\<lparr>cbb_base = Some \<lparr>b_buf = [1, 2], b_len = 1, b_cap = 2, b_can_resize = True, b_error = True\<rparr>,
      cbb_children = []\<rparr>" _ good_allocator "[Call_did_write 0 1, Call_add_bytes 0 [7] 1, Call_flush 0]" 0 True True]
  unfolding Let_def by simp

text \<open>C12. The dotted text of an object identifier and its contents octets are converted into each
  other, in both directions, for every identifier whose first two components X.690 can encode.\<close>

theorem oid_text_round_trip:
  assumes "granting al" "n \<le> 2 ^ 61" "oid_ok a b" "length vs \<le> 2 ^ 50"
  shows "finish_with al n
      (CBB_add_asn1_oid_from_text al 0 (oid_text a b vs) (length (oid_text a b vs))) = Some (oid_der a b vs)
    \<and> CBS_asn1_oid_to_text al (oid_der a b vs) = Some (oid_text a b vs @ [0])"
proof
  have digits: "length (base128 (unat (v :: u64))) \<le> 11" for v
  proof -
    have "unat v < 2 ^ 64" using unsigned_less [of v, where 'a = nat] by simp
    then have "unat v div 128 < 128 ^ 10" by (intro less_mult_imp_div_less) simp
    then have "length (base128_hi (unat v div 128)) \<le> 10" by (rule length_base128_hi)
    then show ?thesis by (simp add: base128_def)
  qed
  have "length (arcs_der ws) \<le> 11 * length ws" for ws
  proof (induction ws)
    case (Cons w ws)
    with digits [of w] show ?case by (simp add: arcs_der_def)
  qed (simp add: arcs_der_def)
  from this [of vs] digits [of "40 * a + b"] assms(4)
  have "length (oid_der a b vs) \<le> 2 ^ 60" by (simp add: oid_der_def)
  with assms show "finish_with al n
      (CBB_add_asn1_oid_from_text al 0 (oid_text a b vs) (length (oid_text a b vs))) = Some (oid_der a b vs)"
    by (intro finish_with_complete oid_from_text_writer)
  show "CBS_asn1_oid_to_text al (oid_der a b vs) = Some (oid_text a b vs @ [0])"
    using assms by (intro CBS_asn1_oid_to_text_der)
qed

theorem oid_text_round_trip_witness:
  "CBS_asn1_oid_to_text \<lparr>malloc_ok = (\<lambda>_. True), junk = (\<lambda>_. 0)\<rparr> [42, 134, 72]
     = Some [49, 46, 50, 46, 56, 52, 48, 0]"
proof -
  have "oid_der 1 2 [840] = [42, 134, 72]" by code_simp
  moreover have "oid_text 1 2 [840] = [49, 46, 50, 46, 56, 52, 48]" by code_simp
  ultimately show ?thesis
    using oid_text_round_trip [of "\<lparr>malloc_ok = (\<lambda>_. True), junk = (\<lambda>_. 0)\<rparr>" 0 1 2 "[840]"]
    by (simp add: granting_def oid_ok_def)
qed

text \<open>\<open>CBS_asn1_oid_to_text\<close> produces a text for nothing else: what it accepts is the contents of
  an object identifier (minimal base-128 components that fit 64 bits), and the text is its own.\<close>

theorem oid_to_text_sound:
  assumes "CBS_asn1_oid_to_text al cbs = Some t"
  shows "\<exists>a b vs. oid_ok a b \<and> cbs = oid_der a b vs \<and> t = oid_text a b vs @ [0]"
  using assms by (rule CBS_asn1_oid_to_text_Some)

theorem oid_to_text_sound_witness:
  "\<exists>a b vs. oid_ok a b \<and> [85, 4, 3] = oid_der a b vs
     \<and> [50, 46, 53, 46, 52, 46, 51, 0] = oid_text a b vs @ [0]"
  by (rule oid_to_text_sound [where al = good_allocator]) code_simp

end
