(* ===== verification/Unicode_Codec.thy ===== *)
theory Unicode_Codec
  imports Cbb_Asn1
begin

text \<open>
  The character codecs of \<^verbatim>\<open>crypto/bytestring/unicode.c\<close>: UTF-8, Latin-1, UCS-2 and UTF-32, each a
  reader of one code point from a \<open>CBS\<close> and a writer of one code point to a \<open>CBB\<close>.
\<close>

section \<open>The code\<close>

definition is_valid_code_point :: "u32 \<Rightarrow> bool" where
  "is_valid_code_point v =
     (if v > 0x10ffff \<or> v AND 0xfffe = 0xfffe \<or> (v \<ge> 0xfdd0 \<and> v \<le> 0xfdef)
        \<or> (v \<ge> 0xd800 \<and> v \<le> 0xdfff)
      then False else True)"

definition BOTTOM_BITS :: "nat \<Rightarrow> byte" where
  "BOTTOM_BITS n = ucast (push_bit n 1 - 1 :: u32)"

definition TOP_BITS :: "nat \<Rightarrow> byte" where
  "TOP_BITS n = NOT (BOTTOM_BITS (8 - n))"

fun utf8_continuation :: "nat \<Rightarrow> u32 \<Rightarrow> CBS \<Rightarrow> u32 option \<times> CBS" where
  "utf8_continuation 0 v cbs = (Some v, cbs)"
| "utf8_continuation (Suc len) v cbs =
     (case CBS_get_u8 cbs of
        (None, cbs) \<Rightarrow> (None, cbs)
      | (Some c, cbs) \<Rightarrow>
          if c AND TOP_BITS 2 \<noteq> TOP_BITS 1 then (None, cbs)
          else utf8_continuation len (push_bit 6 v OR ucast (c AND BOTTOM_BITS 6)) cbs)"

definition cbs_get_utf8 :: "CBS \<Rightarrow> u32 option \<times> CBS" where
  "cbs_get_utf8 cbs =
     (case CBS_get_u8 cbs of
        (None, cbs) \<Rightarrow> (None, cbs)
      | (Some c, cbs) \<Rightarrow>
          if c \<le> 0x7f then (Some (ucast c), cbs)
          else
         (case (if c AND TOP_BITS 3 = TOP_BITS 2 then Some (ucast (c AND BOTTOM_BITS 5), 1, 0x80)
                else if c AND TOP_BITS 4 = TOP_BITS 3 then Some (ucast (c AND BOTTOM_BITS 4), 2, 0x800)
                else if c AND TOP_BITS 5 = TOP_BITS 4 then Some (ucast (c AND BOTTOM_BITS 3), 3, 0x10000)
                else None) of
            None \<Rightarrow> (None, cbs)
          | Some (v, len, lower_bound) \<Rightarrow>
              (case utf8_continuation len v cbs of
                 (None, cbs) \<Rightarrow> (None, cbs)
               | (Some v, cbs) \<Rightarrow>
                   if \<not> is_valid_code_point v \<or> v < lower_bound then (None, cbs) else (Some v, cbs))))"

definition cbs_get_latin1 :: "CBS \<Rightarrow> u32 option \<times> CBS" where
  "cbs_get_latin1 cbs =
     (case CBS_get_u8 cbs of (None, cbs) \<Rightarrow> (None, cbs) | (Some c, cbs) \<Rightarrow> (Some (ucast c), cbs))"

definition cbs_get_ucs2_be :: "CBS \<Rightarrow> u32 option \<times> CBS" where
  "cbs_get_ucs2_be cbs =
     (case CBS_get_u16 cbs of
        (None, cbs) \<Rightarrow> (None, cbs)
      | (Some c, cbs) \<Rightarrow>
          if \<not> is_valid_code_point (ucast c) then (None, cbs) else (Some (ucast c), cbs))"

definition cbs_get_utf32_be :: "CBS \<Rightarrow> u32 option \<times> CBS" where
  "cbs_get_utf32_be cbs =
     (case CBS_get_u32 cbs of
        (None, cbs) \<Rightarrow> (None, cbs)
      | (Some v, cbs) \<Rightarrow> if is_valid_code_point v then (Some v, cbs) else (None, cbs))"

definition cbb_get_utf8_len :: "u32 \<Rightarrow> nat" where
  "cbb_get_utf8_len u =
     (if u \<le> 0x7f then 1 else if u \<le> 0x7ff then 2 else if u \<le> 0xffff then 3 else 4)"

text \<open>\<open>&&\<close> of two calls.\<close>

definition and_then ::
  "(cbb_st \<Rightarrow> bool \<times> cbb_st) \<Rightarrow> (cbb_st \<Rightarrow> bool \<times> cbb_st) \<Rightarrow> cbb_st \<Rightarrow> bool \<times> cbb_st" where
  "and_then f g st = (case f st of (False, st) \<Rightarrow> (False, st) | (True, st) \<Rightarrow> g st)"

definition cbb_add_utf8 :: "allocator \<Rightarrow> nat \<Rightarrow> u32 \<Rightarrow> cbb_st \<Rightarrow> bool \<times> cbb_st" where
  "cbb_add_utf8 al d u cbb =
     (if \<not> is_valid_code_point u then (False, cbb)
      else if u \<le> 0x7f then CBB_add_u8 al d (ucast u) cbb
      else if u \<le> 0x7ff
      then and_then (CBB_add_u8 al d (TOP_BITS 2 OR ucast (drop_bit 6 u)))
             (CBB_add_u8 al d (TOP_BITS 1 OR (ucast u AND BOTTOM_BITS 6))) cbb
      else if u \<le> 0xffff
      then and_then (CBB_add_u8 al d (TOP_BITS 3 OR ucast (drop_bit 12 u)))
            (and_then (CBB_add_u8 al d (TOP_BITS 1 OR (ucast (drop_bit 6 u) AND BOTTOM_BITS 6)))
               (CBB_add_u8 al d (TOP_BITS 1 OR (ucast u AND BOTTOM_BITS 6)))) cbb
      else if u \<le> 0x10ffff
      then and_then (CBB_add_u8 al d (TOP_BITS 4 OR ucast (drop_bit 18 u)))
            (and_then (CBB_add_u8 al d (TOP_BITS 1 OR (ucast (drop_bit 12 u) AND BOTTOM_BITS 6)))
              (and_then (CBB_add_u8 al d (TOP_BITS 1 OR (ucast (drop_bit 6 u) AND BOTTOM_BITS 6)))
                 (CBB_add_u8 al d (TOP_BITS 1 OR (ucast u AND BOTTOM_BITS 6))))) cbb
      else (False, cbb))"

definition cbb_add_latin1 :: "allocator \<Rightarrow> nat \<Rightarrow> u32 \<Rightarrow> cbb_st \<Rightarrow> bool \<times> cbb_st" where
  "cbb_add_latin1 al d u cbb = (if u \<le> 0xff then CBB_add_u8 al d (ucast u) cbb else (False, cbb))"

definition cbb_add_ucs2_be :: "allocator \<Rightarrow> nat \<Rightarrow> u32 \<Rightarrow> cbb_st \<Rightarrow> bool \<times> cbb_st" where
  "cbb_add_ucs2_be al d u cbb =
     (if u \<le> 0xffff \<and> is_valid_code_point u then CBB_add_u16 al d (ucast u) cbb else (False, cbb))"

definition cbb_add_utf32_be :: "allocator \<Rightarrow> nat \<Rightarrow> u32 \<Rightarrow> cbb_st \<Rightarrow> bool \<times> cbb_st" where
  "cbb_add_utf32_be al d u cbb =
     (if is_valid_code_point u then CBB_add_u32 al d u cbb else (False, cbb))"

section \<open>The encodings\<close>

text \<open>UTF-8 as numbers.\<close>

definition utf8_octets :: "nat \<Rightarrow> byte list" where
  "utf8_octets u =
     map word_of_nat
      (if u < 0x80 then [u]
       else if u < 0x800 then [0xc0 + u div 64, 0x80 + u mod 64]
       else if u < 0x10000 then [0xe0 + u div 4096, 0x80 + u div 64 mod 64, 0x80 + u mod 64]
       else [0xf0 + u div 262144, 0x80 + u div 4096 mod 64, 0x80 + u div 64 mod 64, 0x80 + u mod 64])"

lemma TOP_BITS_values:
  "TOP_BITS 1 = 0x80" "TOP_BITS 2 = 0xC0" "TOP_BITS 3 = 0xE0" "TOP_BITS 4 = 0xF0" "TOP_BITS 5 = 0xF8"
  by (simp_all add: TOP_BITS_def BOTTOM_BITS_def)

lemma BOTTOM_BITS_values:
  "BOTTOM_BITS 3 = 0x7" "BOTTOM_BITS 4 = 0xF" "BOTTOM_BITS 5 = 0x1F" "BOTTOM_BITS 6 = 0x3F"
  by (simp_all add: BOTTOM_BITS_def)

lemma unat_and_top:
  assumes "m = push_bit k (mask (8 - k) :: byte)"
  shows "unat (b AND m) = unat b div 2 ^ k * 2 ^ k"
proof -
  have "b AND m = push_bit k (drop_bit k b)"
    unfolding assms by (rule bit_word_eqI) (auto simp: bit_simps)
  moreover have "unat (drop_bit k b) = unat b div 2 ^ k"
    using unat_drop_bit_eq [of k b] drop_bit_eq_div [of k "unat b"] by (simp only:)
  ultimately have "unat (b AND m) = take_bit 8 (unat b div 2 ^ k * 2 ^ k)"
    by (simp only: unsigned_push_bit_eq) (simp only: push_bit_eq_mult, simp)
  also have "\<dots> = unat b div 2 ^ k * 2 ^ k"
  proof (rule take_bit_nat_eq_self)
    have "unat b div 2 ^ k * 2 ^ k \<le> unat b" by simp
    also have "unat b < 2 ^ 8" by simp
    finally show "unat b div 2 ^ k * 2 ^ k < 2 ^ 8" .
  qed
  finally show ?thesis .
qed

lemma top_and_iff:
  assumes "m = push_bit k (mask (8 - k) :: byte)" "unat t = q * 2 ^ k"
  shows "b AND m = t \<longleftrightarrow> q * 2 ^ k \<le> unat b \<and> unat b < (q + 1) * 2 ^ k"
proof -
  have "b AND m = t \<longleftrightarrow> unat b div 2 ^ k * 2 ^ k = q * 2 ^ k"
    by (simp add: word_unat_eq_iff unat_and_top [OF assms(1)] assms(2))
  also have "\<dots> \<longleftrightarrow> unat b div 2 ^ k = q" by simp
  also have "\<dots> \<longleftrightarrow> q * 2 ^ k \<le> unat b \<and> unat b < (q + 1) * 2 ^ k"
  proof
    assume "unat b div 2 ^ k = q"
    moreover have "unat b = unat b div 2 ^ k * 2 ^ k + unat b mod 2 ^ k"
      by (rule div_mult_mod_eq [symmetric])
    moreover have "unat b mod 2 ^ k < 2 ^ k" by simp
    ultimately show "q * 2 ^ k \<le> unat b \<and> unat b < (q + 1) * 2 ^ k"
      by (simp only: distrib_right) linarith
  qed (auto simp: mult.commute intro!: div_nat_eqI)
  finally show ?thesis .
qed

text \<open>What the lead byte tests recognise.\<close>

lemma utf8_lead:
  "b AND TOP_BITS 2 = TOP_BITS 1 \<longleftrightarrow> 128 \<le> unat b \<and> unat b < 192"
  "b AND TOP_BITS 3 = TOP_BITS 2 \<longleftrightarrow> 192 \<le> unat b \<and> unat b < 224"
  "b AND TOP_BITS 4 = TOP_BITS 3 \<longleftrightarrow> 224 \<le> unat b \<and> unat b < 240"
  "b AND TOP_BITS 5 = TOP_BITS 4 \<longleftrightarrow> 240 \<le> unat b \<and> unat b < 248"
  unfolding TOP_BITS_values
  using top_and_iff [of "0xC0" 6 "0x80" 2 b] top_and_iff [of "0xE0" 5 "0xC0" 6 b]
    top_and_iff [of "0xF0" 4 "0xE0" 14 b] top_and_iff [of "0xF8" 3 "0xF0" 30 b]
  by (simp_all add: mask_eq_exp_minus_1)

lemma unat_and_mask: "unat ((b :: byte) AND mask k) = unat b mod 2 ^ k"
proof -
  have "b AND mask k = take_bit k b" by (simp only: take_bit_eq_mask)
  then have "unat (b AND mask k) = take_bit k (unat b)" by (simp only: unsigned_take_bit_eq)
  then show ?thesis by (simp only: take_bit_eq_mod)
qed

lemma utf8_bottom:
  "unat (b AND BOTTOM_BITS 3) = unat b mod 8"
  "unat (b AND BOTTOM_BITS 4) = unat b mod 16"
  "unat (b AND BOTTOM_BITS 5) = unat b mod 32"
  "unat (b AND BOTTOM_BITS 6) = unat b mod 64"
  using unat_and_mask [of b 3] unat_and_mask [of b 4] unat_and_mask [of b 5] unat_and_mask [of b 6]
  by (simp_all add: BOTTOM_BITS_values mask_eq_exp_minus_1)

text \<open>One continuation byte.\<close>

lemma utf8_shift:
  assumes "unat (v :: u32) < 2 ^ 26"
  shows "unat (push_bit 6 v OR ucast (b AND BOTTOM_BITS 6)) = 64 * unat v + unat b mod 64"
proof -
  have "push_bit 6 v AND ucast (b AND BOTTOM_BITS 6) = 0"
  proof -
    have "BOTTOM_BITS 6 = mask 6" by (simp add: BOTTOM_BITS_values mask_eq_exp_minus_1)
    then show ?thesis
      by (simp only:) (rule bit_word_eqI, auto simp: bit_simps)
  qed
  moreover have "unat (push_bit 6 v) = take_bit 32 (unat v * 64)"
    by (simp add: unsigned_push_bit_eq) (simp add: push_bit_eq_mult)
  moreover have "take_bit 32 (unat v * 64) = unat v * 64"
    using assms by (intro take_bit_nat_eq_self) simp
  ultimately show ?thesis by (simp add: unat_or_disjoint utf8_bottom)
qed

definition continuation_byte :: "nat \<Rightarrow> byte" where
  "continuation_byte k = word_of_nat (0x80 + k)"

primrec utf8_tail :: "nat \<Rightarrow> nat \<Rightarrow> byte list" where
  "utf8_tail 0 u = []"
| "utf8_tail (Suc n) u = continuation_byte (u div 64 ^ n mod 64) # utf8_tail n u"

lemma continuation_byte_eq:
  assumes "k < 64"
  shows "b = continuation_byte k \<longleftrightarrow> (128 \<le> unat b \<and> unat b < 192) \<and> unat b mod 64 = k"
proof -
  have "b = continuation_byte k \<longleftrightarrow> unat b = 128 + k"
    using assms by (simp add: continuation_byte_def word_unat_eq_iff del: of_nat_add)
  also have "\<dots> \<longleftrightarrow> (128 \<le> unat b \<and> unat b < 192) \<and> unat b mod 64 = k"
  proof
    assume r: "(128 \<le> unat b \<and> unat b < 192) \<and> unat b mod 64 = k"
    define x where "x = unat b - 128"
    have "unat b = 64 * 2 + x" "x < 64" using r by (auto simp: x_def)
    then have "unat b mod 64 = x" by (simp only: mod_mult_self4) simp
    then show "unat b = 128 + k" using r by (simp add: x_def)
  next
    assume "unat b = 128 + k"
    moreover have "(128 + k) mod 64 = k" using assms mod_mult_self4 [of 64 2 k] by simp
    ultimately show "(128 \<le> unat b \<and> unat b < 192) \<and> unat b mod 64 = k" using assms by simp
  qed
  finally show ?thesis .
qed

lemma digit_split:
  assumes "(k :: nat) < 64"
  shows "x = 64 * v + k \<longleftrightarrow> x div 64 = v \<and> x mod 64 = k"
  using assms by auto

lemma utf8_continuation_iff:
  "n \<le> 5 \<Longrightarrow> unat v < 2 ^ (32 - 6 * n) \<Longrightarrow>
    utf8_continuation n v s = (Some w, r) \<longleftrightarrow> unat w div 64 ^ n = unat v \<and> s = utf8_tail n (unat w) @ r"
proof (induction n arbitrary: v s)
  case 0
  then show ?case by (auto simp: word_unat_eq_iff)
next
  case (Suc n)
  show ?case
  proof (cases s)
    case Nil
    then show ?thesis by auto
  next
    case (Cons b s')
    define v' where "v' = push_bit 6 v OR ucast (b AND BOTTOM_BITS 6)"
    have p: "(2 :: nat) ^ (32 - 6 * n) = 64 * 2 ^ (32 - 6 * Suc n)"
    proof -
      have "32 - 6 * n = (32 - 6 * Suc n) + 6" using Suc.prems(1) by simp
      then show ?thesis by (simp only: power_add) simp
    qed
    have "(2 :: nat) ^ (32 - 6 * Suc n) \<le> 2 ^ 26" by (intro power_increasing) simp_all
    then have "unat v < 2 ^ 26" using Suc.prems(2) by linarith
    then have v': "unat v' = 64 * unat v + unat b mod 64" unfolding v'_def by (rule utf8_shift)
    have m: "unat b mod 64 < 64" by simp
    then have "unat v' < 2 ^ (32 - 6 * n)" using v' p Suc.prems(2) by linarith
    with Suc.IH [of v' s'] Suc.prems(1)
    have IH: "utf8_continuation n v' s' = (Some w, r) \<longleftrightarrow>
        unat w div 64 ^ n = unat v' \<and> s' = utf8_tail n (unat w) @ r"
      by simp
    have step: "utf8_continuation (Suc n) v s = (Some w, r) \<longleftrightarrow>
        (128 \<le> unat b \<and> unat b < 192) \<and> utf8_continuation n v' s' = (Some w, r)"
      unfolding Cons utf8_continuation.simps CBS_get_u8_Cons prod.case option.case v'_def
      by (simp only: utf8_lead(1) [symmetric]) simp
    have "unat w div 64 ^ Suc n = unat w div 64 ^ n div 64"
      by (simp only: power_Suc2 div_mult2_eq)
    moreover have "unat w div 64 ^ n mod 64 < 64" by simp
    ultimately show ?thesis
      unfolding step IH v' digit_split [OF m]
      by (auto simp: Cons continuation_byte_eq)
  qed
qed

lemma valid_7bit: "u \<le> 0x7f \<Longrightarrow> is_valid_code_point u"
  using word_and_le2 [of u "0xfffe"] word_and_le1 [of "0xfffe" u]
  unfolding is_valid_code_point_def
  by (auto simp: word_le_nat_alt word_less_nat_alt)

lemma valid_bound: "is_valid_code_point u \<Longrightarrow> unat u \<le> 0x10ffff"
  by (auto simp: is_valid_code_point_def word_le_nat_alt word_less_nat_alt split: if_splits)

text \<open>The multi-byte form with \<open>n\<close> continuation bytes: \<open>base\<close> is the least lead byte, \<open>2 ^ m\<close> the
  number of lead bytes and \<open>lower\<close> the bound of the shortest-form check.\<close>

definition utf8_rest :: "nat \<Rightarrow> u32 \<Rightarrow> u32 \<Rightarrow> CBS \<Rightarrow> u32 option \<times> CBS" where
  "utf8_rest n v lower_bound cbs =
     (case utf8_continuation n v cbs of
        (None, cbs) \<Rightarrow> (None, cbs)
      | (Some v, cbs) \<Rightarrow>
          if \<not> is_valid_code_point v \<or> v < lower_bound then (None, cbs) else (Some v, cbs))"

lemma utf8_rest_iff:
  assumes "n \<le> 5" "unat v < 2 ^ (32 - 6 * n)"
  shows "utf8_rest n v lower s = (Some u, r) \<longleftrightarrow>
    unat u div 64 ^ n = unat v \<and> s = utf8_tail n (unat u) @ r \<and> is_valid_code_point u \<and> lower \<le> u"
  using utf8_continuation_iff [OF assms, of s u r]
  by (auto simp: utf8_rest_def not_less split: prod.splits option.splits if_splits)

lemma cbs_get_utf8_Nil [simp]: "cbs_get_utf8 [] = (None, [])"
  by (simp add: cbs_get_utf8_def)

lemma cbs_get_utf8_1:
  assumes "unat c < 128"
  shows "cbs_get_utf8 (c # s) = (Some (ucast c), s)"
  using assms by (simp add: cbs_get_utf8_def word_le_nat_alt)

lemma cbs_get_utf8_Cons:
  assumes "128 \<le> unat c"
  shows "cbs_get_utf8 (c # s) =
    (if 192 \<le> unat c \<and> unat c < 224 then utf8_rest 1 (ucast (c AND BOTTOM_BITS 5)) 0x80 s
     else if 224 \<le> unat c \<and> unat c < 240 then utf8_rest 2 (ucast (c AND BOTTOM_BITS 4)) 0x800 s
     else if 240 \<le> unat c \<and> unat c < 248 then utf8_rest 3 (ucast (c AND BOTTOM_BITS 3)) 0x10000 s
     else (None, s))"
proof -
  have "\<not> c \<le> 0x7f" using assms by (simp add: word_le_nat_alt)
  then show ?thesis
    unfolding cbs_get_utf8_def CBS_get_u8_Cons prod.case option.case utf8_lead utf8_rest_def
    by simp
qed

text \<open>Of the lead byte the bits of the code point above the continuation bytes are read.\<close>

lemma utf8_lead_value:
  "192 \<le> unat c \<Longrightarrow> unat c < 224 \<Longrightarrow> unat (ucast (c AND BOTTOM_BITS 5) :: u32) = unat c - 192"
  "224 \<le> unat c \<Longrightarrow> unat c < 240 \<Longrightarrow> unat (ucast (c AND BOTTOM_BITS 4) :: u32) = unat c - 224"
  "240 \<le> unat c \<Longrightarrow> unat c < 248 \<Longrightarrow> unat (ucast (c AND BOTTOM_BITS 3) :: u32) = unat c - 240"
proof -
  have sub: "x mod m = x - q * m" if "q * m \<le> x" "x < q * m + m" for x q m :: nat
  proof -
    have "x = (x - q * m) + q * m" using that by simp
    then have "x mod m = (x - q * m) mod m" by (metis mod_mult_self1)
    also have "\<dots> = x - q * m" using that by (intro mod_less) linarith
    finally show ?thesis .
  qed
  show "192 \<le> unat c \<Longrightarrow> unat c < 224 \<Longrightarrow> unat (ucast (c AND BOTTOM_BITS 5) :: u32) = unat c - 192"
    using sub [of 6 32 "unat c"] by (simp add: unat_ucast_up utf8_bottom)
  show "224 \<le> unat c \<Longrightarrow> unat c < 240 \<Longrightarrow> unat (ucast (c AND BOTTOM_BITS 4) :: u32) = unat c - 224"
    using sub [of 14 16 "unat c"] by (simp add: unat_ucast_up utf8_bottom)
  show "240 \<le> unat c \<Longrightarrow> unat c < 248 \<Longrightarrow> unat (ucast (c AND BOTTOM_BITS 3) :: u32) = unat c - 240"
    using sub [of 30 8 "unat c"] by (simp add: unat_ucast_up utf8_bottom)
qed

definition utf8_form :: "nat \<Rightarrow> nat \<Rightarrow> nat \<Rightarrow> byte list" where
  "utf8_form base n u = word_of_nat (base + u div 64 ^ n) # utf8_tail n u"

lemma utf8_octets_forms:
  "utf8_octets u =
    (if u < 0x80 then [word_of_nat u]
     else if u < 0x800 then utf8_form 192 1 u
     else if u < 0x10000 then utf8_form 224 2 u
     else utf8_form 240 3 u)"
  by (simp add: utf8_octets_def utf8_form_def numeral_2_eq_2 numeral_3_eq_3 continuation_byte_def)

lemma utf8_form_iff:
  assumes "base + 2 ^ m \<le> 256" "u div 64 ^ n < 2 ^ m"
  shows "c # s = utf8_form base n u @ r \<longleftrightarrow>
    (base \<le> unat c \<and> unat c < base + 2 ^ m) \<and> u div 64 ^ n = unat c - base \<and> s = utf8_tail n u @ r"
proof -
  have "c = word_of_nat (base + u div 64 ^ n) \<longleftrightarrow> unat c = base + u div 64 ^ n"
    using assms by (simp add: word_unat_eq_iff del: of_nat_add)
  also have "\<dots> \<longleftrightarrow> (base \<le> unat c \<and> unat c < base + 2 ^ m) \<and> u div 64 ^ n = unat c - base"
    using assms by auto
  finally show ?thesis by (auto simp: utf8_form_def)
qed

text \<open>The decoder accepts exactly the shortest form of a valid code point.\<close>

lemma utf8_octets_not_lead:
  assumes "128 \<le> unat c"
  shows "c # s = utf8_octets u @ r \<longleftrightarrow>
    (0x80 \<le> u \<and> u < 0x800 \<and> c # s = utf8_form 192 1 u @ r) \<or>
    (0x800 \<le> u \<and> u < 0x10000 \<and> c # s = utf8_form 224 2 u @ r) \<or>
    (0x10000 \<le> u \<and> c # s = utf8_form 240 3 u @ r)"
proof -
  have "c \<noteq> word_of_nat u" if "u < 0x80"
    using that assms by (auto simp: unat_of_nat)
  then show ?thesis unfolding utf8_octets_forms by auto
qed

lemma cbs_get_utf8_iff:
  "cbs_get_utf8 s = (Some u, r) \<longleftrightarrow> is_valid_code_point u \<and> s = utf8_octets (unat u) @ r"
proof (cases s)
  case Nil
  then show ?thesis by (simp add: utf8_octets_def)
next
  case (Cons c t)
  show ?thesis
  proof (cases "unat c < 128")
    case True
    have oct: "c # t = utf8_octets (unat u) @ r \<longleftrightarrow> unat u = unat c \<and> t = r"
      if valid: "is_valid_code_point u"
    proof (cases "unat u < 0x80")
      case small: True
      then have "c = word_of_nat (unat u) \<longleftrightarrow> unat u = unat c"
        by (auto simp: word_unat_eq_iff unat_of_nat simp del: of_nat_unat)
      with small show ?thesis by (simp only: utf8_octets_forms) auto
    next
      case big: False
      have "c # t \<noteq> utf8_form base n x @ r"
        if "128 \<le> base" "base + x div 64 ^ n < 256" for base n x
      proof
        assume "c # t = utf8_form base n x @ r"
        then have "unat c = (base + x div 64 ^ n) mod 256"
          unfolding utf8_form_def by (simp only: append_Cons list.inject unat_of_nat_byte)
        then show False using that True by simp
      qed
      from this [of 192 "unat u" 1] this [of 224 "unat u" 2] this [of 240 "unat u" 3]
        valid_bound [OF valid] big True
      show ?thesis by (auto simp: utf8_octets_forms simp del: utf8_tail.simps One_nat_def)
    qed
    moreover have "ucast c = u \<longleftrightarrow> unat u = unat c" by (auto simp: word_unat_eq_iff unat_ucast_up)
    moreover have "unat u = unat c \<Longrightarrow> is_valid_code_point u"
      using True by (intro valid_7bit) (simp add: word_le_nat_alt)
    ultimately show ?thesis using cbs_get_utf8_1 [OF True, of t] oct by (auto simp: Cons)
  next
    case False
    then have c: "128 \<le> unat c" by simp
    show ?thesis
    proof (cases "is_valid_code_point u")
      case valid: True
      define x where "x = unat u"
      have bound: "x \<le> 0x10ffff" using valid_bound [OF valid] by (simp add: x_def)
      have f1: "c # t = utf8_form 192 1 x @ r \<longleftrightarrow>
          (192 \<le> unat c \<and> unat c < 224) \<and> x div 64 ^ 1 = unat c - 192 \<and> t = utf8_tail 1 x @ r"
        if "x < 0x800"
        using utf8_form_iff [of 192 5 x 1 c t r] that by (simp del: One_nat_def utf8_tail.simps)
      have f2: "c # t = utf8_form 224 2 x @ r \<longleftrightarrow>
          (224 \<le> unat c \<and> unat c < 240) \<and> x div 64 ^ 2 = unat c - 224 \<and> t = utf8_tail 2 x @ r"
        if "x < 0x10000"
        using utf8_form_iff [of 224 4 x 2 c t r] that by (simp del: utf8_tail.simps)
      have f3: "c # t = utf8_form 240 3 x @ r \<longleftrightarrow>
          (240 \<le> unat c \<and> unat c < 248) \<and> x div 64 ^ 3 = unat c - 240 \<and> t = utf8_tail 3 x @ r"
        using utf8_form_iff [of 240 3 x 3 c t r] bound by (simp del: utf8_tail.simps)
      have rest: "utf8_rest n v l t = (Some u, r) \<longleftrightarrow>
          x div 64 ^ n = unat v \<and> t = utf8_tail n x @ r \<and> unat l \<le> x"
        if "n \<le> 3" "unat v < 64" for n v l
      proof -
        have "(2 :: nat) ^ 6 \<le> 2 ^ (32 - 6 * n)" using that(1) by (intro power_increasing) simp_all
        with that valid show ?thesis
          by (subst utf8_rest_iff) (auto simp: word_le_nat_alt x_def)
      qed
      have bounds: "x div 64 ^ 1 < 32 \<Longrightarrow> x < 0x800" "x div 64 ^ 2 < 16 \<Longrightarrow> x < 0x10000" by simp_all
      note get = cbs_get_utf8_Cons [OF c, of t] and split = utf8_octets_not_lead [OF c, of t x r]
      have "cbs_get_utf8 (c # t) = (Some u, r) \<longleftrightarrow> c # t = utf8_octets x @ r"
      proof -
        consider "unat c < 192 \<or> 248 \<le> unat c" | "192 \<le> unat c" "unat c < 224"
          | "224 \<le> unat c" "unat c < 240" | "240 \<le> unat c" "unat c < 248" by linarith
        then show ?thesis
        proof cases
          case 1
          then have "cbs_get_utf8 (c # t) = (None, t)" using get by auto
          moreover have "c # t \<noteq> utf8_octets x @ r" using 1 split f1 f2 f3 by auto
          ultimately show ?thesis by simp
        next
          case 2
          note v = utf8_lead_value(1) [OF 2]
          have "cbs_get_utf8 (c # t) = (Some u, r) \<longleftrightarrow>
              x div 64 ^ 1 = unat c - 192 \<and> t = utf8_tail 1 x @ r \<and> 0x80 \<le> x"
            using get 2 v rest [of 1 "ucast (c AND BOTTOM_BITS 5)" "0x80"] by simp
          also have "\<dots> \<longleftrightarrow> c # t = utf8_octets x @ r"
            unfolding split using 2 f1 f2 f3 bounds(1) by auto
          finally show ?thesis .
        next
          case 3
          note v = utf8_lead_value(2) [OF 3]
          have "cbs_get_utf8 (c # t) = (Some u, r) \<longleftrightarrow>
              x div 64 ^ 2 = unat c - 224 \<and> t = utf8_tail 2 x @ r \<and> 0x800 \<le> x"
            using get 3 v rest [of 2 "ucast (c AND BOTTOM_BITS 4)" "0x800"] by simp
          also have "\<dots> \<longleftrightarrow> c # t = utf8_octets x @ r"
            unfolding split using 3 f1 f2 f3 bounds(2) by auto
          finally show ?thesis .
        next
          case 4
          note v = utf8_lead_value(3) [OF 4]
          have "cbs_get_utf8 (c # t) = (Some u, r) \<longleftrightarrow>
              x div 64 ^ 3 = unat c - 240 \<and> t = utf8_tail 3 x @ r \<and> 0x10000 \<le> x"
            using get 4 v rest [of 3 "ucast (c AND BOTTOM_BITS 3)" "0x10000"] by simp
          also have "\<dots> \<longleftrightarrow> c # t = utf8_octets x @ r"
            unfolding split using 4 f1 f2 f3 by auto
          finally show ?thesis .
        qed
      qed
      then show ?thesis using valid by (simp add: Cons x_def)
    next
      case invalid: False
      then have "utf8_rest n v l t \<noteq> (Some u, r)" for n v l
        by (auto simp: utf8_rest_def split: prod.splits option.splits if_splits)
      then show ?thesis using invalid by (simp add: Cons cbs_get_utf8_Cons [OF c])
    qed
  qed
qed

section \<open>The writers\<close>

lemma or_low_bits:
  assumes "t = push_bit k (y :: byte)" "unat x < 2 ^ k"
  shows "t OR x = word_of_nat (unat t + unat x)"
proof -
  have x: "take_bit k x = x"
    using assms(2) by (simp add: word_unat_eq_iff unsigned_take_bit_eq take_bit_nat_eq_self)
  have less: "bit x n \<Longrightarrow> n < k" for n using x bit_take_bit_iff [of k x n] by auto
  then have "t AND x = 0"
    unfolding assms(1) by (intro bit_word_eqI) (auto simp: bit_simps not_less dest: less)
  from unat_or_disjoint [OF this] show ?thesis by (metis of_nat_unat ucast_id)
qed

lemma unat_ucast_drop:
  assumes "unat (u :: u32) div 2 ^ k < 256"
  shows "unat (ucast (drop_bit k u) :: byte) = unat u div 2 ^ k"
proof -
  have "unat (drop_bit k u) = unat u div 2 ^ k"
    using unat_drop_bit_eq [of k u] drop_bit_eq_div [of k "unat u"] by (simp only:)
  with assms show ?thesis by (simp add: unat_ucast_down)
qed

text \<open>The lead bytes and the continuation bytes the code writes.\<close>

lemma utf8_lead_written:
  "unat (u :: u32) div 64 ^ 1 < 32 \<Longrightarrow> TOP_BITS 2 OR ucast (drop_bit 6 u) = word_of_nat (192 + unat u div 64 ^ 1)"
  "unat u div 64 ^ 2 < 16 \<Longrightarrow> TOP_BITS 3 OR ucast (drop_bit 12 u) = word_of_nat (224 + unat u div 64 ^ 2)"
  "unat u div 64 ^ 3 < 8 \<Longrightarrow> TOP_BITS 4 OR ucast (drop_bit 18 u) = word_of_nat (240 + unat u div 64 ^ 3)"
  using or_low_bits [of "TOP_BITS 2" 5 6 "ucast (drop_bit 6 u)"] unat_ucast_drop [of u 6]
    or_low_bits [of "TOP_BITS 3" 4 14 "ucast (drop_bit 12 u)"] unat_ucast_drop [of u 12]
    or_low_bits [of "TOP_BITS 4" 3 30 "ucast (drop_bit 18 u)"] unat_ucast_drop [of u 18]
  by (simp_all add: TOP_BITS_values push_bit_eq_mult)

lemma utf8_tail_written:
  "TOP_BITS 1 OR (ucast (u :: u32) AND BOTTOM_BITS 6) = continuation_byte (unat u mod 64)"
  "TOP_BITS 1 OR (ucast (drop_bit k u) AND BOTTOM_BITS 6) = continuation_byte (unat u div 2 ^ k mod 64)"
proof -
  have *: "TOP_BITS 1 OR (ucast (u :: u32) AND BOTTOM_BITS 6) = continuation_byte (unat u mod 64)" for u
  proof -
    have "unat (ucast u AND BOTTOM_BITS 6 :: byte) = unat u mod 256 mod 64"
      by (simp add: utf8_bottom unsigned_ucast_eq take_bit_eq_mod)
    also have "\<dots> = unat u mod 64" by (simp add: mod_mod_cancel)
    finally have low: "unat (ucast u AND BOTTOM_BITS 6 :: byte) = unat u mod 64" .
    have "0x80 = push_bit 6 (2 :: byte)" "unat (0x80 :: byte) = 128"
      by (simp_all add: push_bit_eq_mult)
    with low show ?thesis
      using or_low_bits [of "0x80" 6 2 "ucast u AND BOTTOM_BITS 6"]
      by (simp add: TOP_BITS_values(1) continuation_byte_def del: One_nat_def)
  qed
  show "TOP_BITS 1 OR (ucast (u :: u32) AND BOTTOM_BITS 6) = continuation_byte (unat u mod 64)" by (rule *)
  have "unat (drop_bit k u) = unat u div 2 ^ k"
    using unat_drop_bit_eq [of k u] drop_bit_eq_div [of k "unat u"] by (simp only:)
  with * [of "drop_bit k u"]
  show "TOP_BITS 1 OR (ucast (drop_bit k u) AND BOTTOM_BITS 6) = continuation_byte (unat u div 2 ^ k mod 64)"
    by (simp only:)
qed

lemma utf8_tail_2: "utf8_tail 2 u = [continuation_byte (u div 64 mod 64), continuation_byte (u mod 64)]"
  by (simp add: numeral_2_eq_2)

lemma and_then_writer:
  assumes "cbb_writer al f (write_at d x)" "cbb_writer al g (write_at d y)"
  shows "cbb_writer al (and_then f g) (write_at d (x @ y))"
  using cbb_writer_append [OF assms] by (simp add: and_then_def [abs_def])

lemma utf8_writer:
  assumes valid: "is_valid_code_point u"
  shows "cbb_writer al (cbb_add_utf8 al d u) (write_at d (utf8_octets (unat u)))"
proof -
  note one = add_u8.cbb_writer_axioms
  define x where "x = unat u"
  have b: "x \<le> 0x10ffff" unfolding x_def using valid by (rule valid_bound)
  note two = and_then_writer [OF one one]
  note three = and_then_writer [OF one two]
  note four = and_then_writer [OF one three]
  have le: "u \<le> 0x7f \<longleftrightarrow> x < 0x80" "u \<le> 0x7ff \<longleftrightarrow> x < 0x800" "u \<le> 0xffff \<longleftrightarrow> x < 0x10000"
    "u \<le> 0x10ffff"
    using b by (auto simp: word_le_nat_alt x_def)
  consider "x < 0x80" | "0x80 \<le> x" "x < 0x800" | "0x800 \<le> x" "x < 0x10000" | "0x10000 \<le> x" by linarith
  then show ?thesis
  proof cases
    case 1
    then have "ucast u = (word_of_nat x :: byte)"
      by (simp add: word_unat_eq_iff x_def unat_ucast_down unat_of_nat)
    with 1 have "cbb_add_utf8 al d u = CBB_add_u8 al d (word_of_nat x)"
      unfolding cbb_add_utf8_def [abs_def] using valid le by simp
    with 1 one [of al d "word_of_nat x"] show ?thesis by (simp add: utf8_octets_forms flip: x_def)
  next
    case 2
    then have "cbb_add_utf8 al d u = and_then
        (CBB_add_u8 al d (word_of_nat (192 + x div 64 ^ 1))) (CBB_add_u8 al d (continuation_byte (x mod 64)))"
      unfolding cbb_add_utf8_def [abs_def] utf8_tail_written(2) unfolding utf8_tail_written(1) x_def [symmetric]
      using valid le utf8_lead_written(1) [of u] by (simp add: x_def del: of_nat_add)
    with 2 two [of al d "word_of_nat (192 + x div 64 ^ 1)" "continuation_byte (x mod 64)"]
    show ?thesis by (simp add: utf8_octets_forms utf8_form_def flip: x_def del: of_nat_add)
  next
    case 3
    then have "cbb_add_utf8 al d u = and_then (CBB_add_u8 al d (word_of_nat (224 + x div 64 ^ 2)))
        (and_then (CBB_add_u8 al d (continuation_byte (x div 2 ^ 6 mod 64)))
          (CBB_add_u8 al d (continuation_byte (x mod 64))))"
      unfolding cbb_add_utf8_def [abs_def] utf8_tail_written(2) unfolding utf8_tail_written(1) x_def [symmetric]
      using valid le utf8_lead_written(2) [of u] by (simp add: x_def del: of_nat_add)
    with 3 three [of al d "word_of_nat (224 + x div 64 ^ 2)" "continuation_byte (x div 2 ^ 6 mod 64)"
        "continuation_byte (x mod 64)"]
    show ?thesis
      by (simp add: utf8_octets_forms utf8_form_def utf8_tail_2 flip: x_def del: of_nat_add)
  next
    case 4
    then have "cbb_add_utf8 al d u = and_then (CBB_add_u8 al d (word_of_nat (240 + x div 64 ^ 3)))
        (and_then (CBB_add_u8 al d (continuation_byte (x div 2 ^ 12 mod 64)))
          (and_then (CBB_add_u8 al d (continuation_byte (x div 2 ^ 6 mod 64)))
            (CBB_add_u8 al d (continuation_byte (x mod 64)))))"
      unfolding cbb_add_utf8_def [abs_def] utf8_tail_written(2) unfolding utf8_tail_written(1) x_def [symmetric]
      using valid le b utf8_lead_written(3) [of u] by (simp add: x_def del: of_nat_add)
    with 4 four [of al d "word_of_nat (240 + x div 64 ^ 3)" "continuation_byte (x div 2 ^ 12 mod 64)"
        "continuation_byte (x div 2 ^ 6 mod 64)" "continuation_byte (x mod 64)"]
    show ?thesis
      by (simp add: utf8_octets_forms utf8_form_def numeral_3_eq_3 flip: x_def del: of_nat_add)
  qed
qed

lemma utf8_writer_refuses: "\<not> is_valid_code_point u \<Longrightarrow> cbb_add_utf8 al d u st = (False, st)"
  by (simp add: cbb_add_utf8_def)

lemma utf8_octets_length: "length (utf8_octets (unat u)) = cbb_get_utf8_len u"
  by (simp add: utf8_octets_def cbb_get_utf8_len_def word_le_nat_alt)

lemma latin1_writer:
  assumes "u \<le> 0xff"
  shows "cbb_writer al (cbb_add_latin1 al d u) (write_at d [word_of_nat (unat u)])"
proof -
  have "ucast u = (word_of_nat (unat u) :: byte)"
    by (simp add: word_unat_eq_iff unsigned_ucast_eq take_bit_eq_mod)
  with assms have "cbb_add_latin1 al d u = CBB_add_u8 al d (word_of_nat (unat u))"
    by (simp add: cbb_add_latin1_def [abs_def])
  then show ?thesis using add_u8.cbb_writer_axioms [of al d "word_of_nat (unat u)"] by simp
qed

lemma ucs2_writer:
  assumes "u \<le> 0xffff" "is_valid_code_point u"
  shows "cbb_writer al (cbb_add_ucs2_be al d u) (write_at d (be_bytes 2 (unat u)))"
proof -
  have "unat (ucast u :: u16) = unat u" using assms(1) by (simp add: unat_ucast_down word_le_nat_alt)
  then show ?thesis
    using assms add_u16.cbb_writer_axioms [of al d "ucast u"]
    by (simp add: cbb_add_ucs2_be_def [abs_def])
qed

lemma utf32_writer:
  "is_valid_code_point u \<Longrightarrow> cbb_writer al (cbb_add_utf32_be al d u) (write_at d (be_bytes 4 (unat u)))"
  using add_u32.cbb_writer_axioms [of al d u] by (simp add: cbb_add_utf32_be_def [abs_def])

section \<open>The codecs\<close>

interpretation utf8: canonical_codec "\<lambda>u. utf8_octets (unat u)" cbs_get_utf8 is_valid_code_point
  by unfold_locales (simp_all add: cbs_get_utf8_iff)

lemma cbs_get_latin1_iff:
  "cbs_get_latin1 s = (Some u, r) \<longleftrightarrow> unat u < 256 \<and> s = word_of_nat (unat u) # r"
proof (cases s)
  case (Cons c t)
  have "ucast c = u \<longleftrightarrow> unat u = unat c" by (auto simp: word_unat_eq_iff unat_ucast_up)
  moreover have "unat u < 256 \<and> c = word_of_nat (unat u) \<longleftrightarrow> unat u = unat c"
    by (auto simp: word_unat_eq_iff unat_of_nat simp del: of_nat_unat)
  ultimately show ?thesis by (auto simp: Cons cbs_get_latin1_def)
qed (simp add: cbs_get_latin1_def)

interpretation latin1: canonical_codec "\<lambda>u. [word_of_nat (unat u)]" cbs_get_latin1 "\<lambda>u. unat u < 256"
  by unfold_locales (simp_all add: cbs_get_latin1_iff)

lemma cbs_get_ucs2_be_iff:
  "cbs_get_ucs2_be s = (Some u, r) \<longleftrightarrow>
    (unat u < 65536 \<and> is_valid_code_point u) \<and> s = be_bytes 2 (unat u) @ r"
proof -
  have "cbs_get_ucs2_be s = (Some u, r) \<longleftrightarrow>
      (\<exists>c. CBS_get_u16 s = (Some c, r) \<and> is_valid_code_point (ucast c) \<and> ucast c = u)"
    by (auto simp: cbs_get_ucs2_be_def split: prod.splits option.splits if_splits)
  also have "\<dots> \<longleftrightarrow> (\<exists>c :: u16. s = be_bytes 2 (unat c) @ r \<and> is_valid_code_point u \<and> ucast c = u)"
    by (simp only: CBS_get_u16_Some_iff) blast
  also have "\<dots> \<longleftrightarrow> (unat u < 65536 \<and> is_valid_code_point u) \<and> s = be_bytes 2 (unat u) @ r"
  proof (intro iffI; elim exE conjE)
    fix c :: u16
    assume "s = be_bytes 2 (unat c) @ r" "is_valid_code_point u" "ucast c = u"
    moreover have "unat (ucast c :: u32) = unat c" by (rule unat_ucast_up) simp
    moreover have "unat c < 65536" using unsigned_less [of c, where 'a = nat] by simp
    ultimately show "(unat u < 65536 \<and> is_valid_code_point u) \<and> s = be_bytes 2 (unat u) @ r" by auto
  next
    assume u: "unat u < 65536" "is_valid_code_point u" "s = be_bytes 2 (unat u) @ r"
    then have "unat (ucast u :: u16) = unat u" by (intro unat_ucast_down) simp
    moreover from this have "ucast (ucast u :: u16) = u"
      by (simp add: word_unat_eq_iff unat_ucast_up)
    ultimately show "\<exists>c :: u16. s = be_bytes 2 (unat c) @ r \<and> is_valid_code_point u \<and> ucast c = u"
      using u by (intro exI [of _ "ucast u"]) simp
  qed
  finally show ?thesis .
qed

interpretation ucs2: canonical_codec "\<lambda>u. be_bytes 2 (unat u)" cbs_get_ucs2_be
  "\<lambda>u. unat u < 65536 \<and> is_valid_code_point u"
  by unfold_locales (simp_all add: cbs_get_ucs2_be_iff)

lemma cbs_get_utf32_be_iff:
  "cbs_get_utf32_be s = (Some u, r) \<longleftrightarrow> is_valid_code_point u \<and> s = be_bytes 4 (unat u) @ r"
proof -
  have "cbs_get_utf32_be s = (Some u, r) \<longleftrightarrow> CBS_get_u32 s = (Some u, r) \<and> is_valid_code_point u"
    by (auto simp: cbs_get_utf32_be_def split: prod.splits option.splits if_splits)
  then show ?thesis by (auto simp: CBS_get_u32_Some_iff)
qed

interpretation utf32: canonical_codec "\<lambda>u. be_bytes 4 (unat u)" cbs_get_utf32_be is_valid_code_point
  by unfold_locales (simp_all add: cbs_get_utf32_be_iff)

section \<open>Properties\<close>

text \<open>C13. The four readers accept exactly the encodings of the valid code points: UTF-8 only in its
  shortest form, Latin-1 the numbers below 256, UCS-2 and UTF-32 in big-endian order; no surrogate
  and no other form is accepted.\<close>

theorem unicode_readers_exact:
  "(cbs_get_utf8 s = (Some u, r) \<longleftrightarrow> is_valid_code_point u \<and> s = utf8_octets (unat u) @ r)
   \<and> (cbs_get_latin1 s = (Some u, r) \<longleftrightarrow> unat u < 256 \<and> s = word_of_nat (unat u) # r)
   \<and> (cbs_get_ucs2_be s = (Some u, r) \<longleftrightarrow>
        (unat u < 65536 \<and> is_valid_code_point u) \<and> s = be_bytes 2 (unat u) @ r)
   \<and> (cbs_get_utf32_be s = (Some u, r) \<longleftrightarrow> is_valid_code_point u \<and> s = be_bytes 4 (unat u) @ r)"
  by (simp only: utf8.accepts_iff latin1.accepts_iff ucs2.accepts_iff utf32.accepts_iff append_Cons append_Nil)

text \<open>A code point is written if and only if the encoding has it, with the announced number of
  bytes for UTF-8, and what was written is read back as that code point.\<close>

theorem unicode_round_trip:
  assumes "granting al" "n \<le> 2 ^ 61"
  shows "(case finish_with al n (cbb_add_utf8 al 0 u) of
            None \<Rightarrow> \<not> is_valid_code_point u
          | Some x \<Rightarrow> length x = cbb_get_utf8_len u \<and> cbs_get_utf8 (x @ r) = (Some u, r))
    \<and> (case finish_with al n (cbb_add_latin1 al 0 u) of
            None \<Rightarrow> u > 0xff
          | Some x \<Rightarrow> length x = 1 \<and> cbs_get_latin1 (x @ r) = (Some u, r))
    \<and> (case finish_with al n (cbb_add_ucs2_be al 0 u) of
            None \<Rightarrow> \<not> (u \<le> 0xffff \<and> is_valid_code_point u)
          | Some x \<Rightarrow> length x = 2 \<and> cbs_get_ucs2_be (x @ r) = (Some u, r))
    \<and> (case finish_with al n (cbb_add_utf32_be al 0 u) of
            None \<Rightarrow> \<not> is_valid_code_point u
          | Some x \<Rightarrow> length x = 4 \<and> cbs_get_utf32_be (x @ r) = (Some u, r))"
    (is "?utf8 \<and> ?latin1 \<and> ?ucs2 \<and> ?utf32")
proof (intro conjI)
  note run = finish_with_complete [OF cbb_writer_field assms]
  have refuse: "finish_with al n op = None" if "\<And>st. op st = (False, st)" for op
    using that by (simp add: finish_with_def split: option.splits)
  have "cbb_get_utf8_len u \<le> 2 ^ 60" by (simp add: cbb_get_utf8_len_def)
  then show ?utf8
    using run [OF utf8_writer] refuse [of "cbb_add_utf8 al 0 u"] utf8_writer_refuses [of u al 0] utf8.dec_enc
    by (cases "is_valid_code_point u") (simp_all add: utf8_octets_length)
  show ?latin1
    using run [OF latin1_writer, of u] refuse [of "cbb_add_latin1 al 0 u"] latin1.dec_enc [of u r]
    by (cases "u \<le> 0xff") (simp_all add: cbb_add_latin1_def word_le_nat_alt word_less_nat_alt)
  show ?ucs2
  proof (cases "u \<le> 0xffff \<and> is_valid_code_point u")
    case True
    then show ?thesis
      using run [OF ucs2_writer, of u] ucs2.dec_enc [of u r] by (simp add: word_le_nat_alt)
  next
    case False
    then have "finish_with al n (cbb_add_ucs2_be al 0 u) = None"
      by (intro refuse) (simp only: cbb_add_ucs2_be_def if_False)
    with False show ?thesis by simp
  qed
  show ?utf32
    using run [OF utf32_writer, of u] refuse [of "cbb_add_utf32_be al 0 u"] utf32.dec_enc [of u r]
    by (cases "is_valid_code_point u") (simp_all add: cbb_add_utf32_be_def)
qed

theorem unicode_round_trip_witness:
  "case finish_with \<lparr>malloc_ok = (\<lambda>_. True), junk = (\<lambda>_. 0)\<rparr> 1
        (cbb_add_utf8 \<lparr>malloc_ok = (\<lambda>_. True), junk = (\<lambda>_. 0)\<rparr> 0 0x20ac) of
     None \<Rightarrow> \<not> is_valid_code_point 0x20ac
   | Some x \<Rightarrow> length x = cbb_get_utf8_len 0x20ac \<and> cbs_get_utf8 (x @ [1]) = (Some 0x20ac, [1])"
  using unicode_round_trip [of "\<lparr>malloc_ok = (\<lambda>_. True), junk = (\<lambda>_. 0)\<rparr>" 1 "0x20ac" "[1]"]
  by (simp add: granting_def)

end
