(* ===== verification/Ber.thy ===== *)
theory Ber
  imports Cbb_Asn1
begin

text \<open>
  The converter from BER to DER of \<^verbatim>\<open>crypto/bytestring/ber.c\<close>: a scan for what DER forbids, the
  conversion, and the reader of implicitly tagged strings.

  The functions that recurse take the number of levels left, \<open>kMaxDepth + 1 - depth\<close>, in place of
  \<open>depth\<close>; with no level left they fail, as the code does when \<open>depth > kMaxDepth\<close>.  The loop of
  \<open>cbs_convert_ber\<close> takes the length of its input as the bound on its rounds: every round reads an
  element header of at least two bytes.
\<close>

section \<open>The code\<close>

definition kMaxDepth :: nat where
  "kMaxDepth = 2048"

abbreviation CBS_ASN1_UTF8STRING :: u32 where "CBS_ASN1_UTF8STRING \<equiv> 0xc"
abbreviation CBS_ASN1_NUMERICSTRING :: u32 where "CBS_ASN1_NUMERICSTRING \<equiv> 0x12"
abbreviation CBS_ASN1_PRINTABLESTRING :: u32 where "CBS_ASN1_PRINTABLESTRING \<equiv> 0x13"
abbreviation CBS_ASN1_T61STRING :: u32 where "CBS_ASN1_T61STRING \<equiv> 0x14"
abbreviation CBS_ASN1_VIDEOTEXSTRING :: u32 where "CBS_ASN1_VIDEOTEXSTRING \<equiv> 0x15"
abbreviation CBS_ASN1_IA5STRING :: u32 where "CBS_ASN1_IA5STRING \<equiv> 0x16"
abbreviation CBS_ASN1_GRAPHICSTRING :: u32 where "CBS_ASN1_GRAPHICSTRING \<equiv> 0x19"
abbreviation CBS_ASN1_VISIBLESTRING :: u32 where "CBS_ASN1_VISIBLESTRING \<equiv> 0x1a"
abbreviation CBS_ASN1_GENERALSTRING :: u32 where "CBS_ASN1_GENERALSTRING \<equiv> 0x1b"
abbreviation CBS_ASN1_UNIVERSALSTRING :: u32 where "CBS_ASN1_UNIVERSALSTRING \<equiv> 0x1c"
abbreviation CBS_ASN1_BMPSTRING :: u32 where "CBS_ASN1_BMPSTRING \<equiv> 0x1e"

definition is_string_type :: "u32 \<Rightarrow> bool" where
  "is_string_type tag =
     (tag AND NOT CBS_ASN1_CONSTRUCTED \<in>
       {CBS_ASN1_OCTETSTRING, CBS_ASN1_UTF8STRING, CBS_ASN1_NUMERICSTRING,
        CBS_ASN1_PRINTABLESTRING, CBS_ASN1_T61STRING, CBS_ASN1_VIDEOTEXSTRING,
        CBS_ASN1_IA5STRING, CBS_ASN1_GRAPHICSTRING, CBS_ASN1_VISIBLESTRING,
        CBS_ASN1_GENERALSTRING, CBS_ASN1_UNIVERSALSTRING, CBS_ASN1_BMPSTRING})"

lemma ber_get_shorter:
  assumes "CBS_get_any_ber_asn1_element s = (Some (contents, tag, hl, ber), r)"
  shows "s = contents @ r" "2 \<le> hl" "hl \<le> length contents" "length r < length s"
  using ber_element_prefix [OF assms [unfolded CBS_get_any_ber_asn1_element_def]]
  by (auto simp: neq_Nil_conv simp flip: length_greater_0_conv)

lemma CBS_get_asn1_shorter: "CBS_get_asn1 s t = (Some body, r) \<Longrightarrow> length r < length s"
  by (simp add: CBS_get_asn1_Some_iff)

text \<open>The loop of \<open>cbs_find_ber\<close>; \<open>scan\<close> is the recursive call and \<open>ber_found\<close> the out-parameter.\<close>

function find_ber_loop :: "(CBS \<Rightarrow> bool option) \<Rightarrow> CBS \<Rightarrow> bool \<Rightarrow> bool option" where
  "find_ber_loop scan inp ber_found =
     (if \<not> CBS_len inp > 0 then Some ber_found
      else case CBS_get_any_ber_asn1_element inp of
        (None, _) \<Rightarrow> None
      | (Some (contents, tag, header_len, ber_found), inp) \<Rightarrow>
          if ber_found then Some True
          else if tag AND CBS_ASN1_CONSTRUCTED \<noteq> 0
          then (if is_string_type tag then Some True
                else case CBS_skip contents header_len of
                  (None, _) \<Rightarrow> None
                | (Some _, contents) \<Rightarrow>
                    (case scan contents of
                       None \<Rightarrow> None
                     | Some ber_found \<Rightarrow> find_ber_loop scan inp ber_found))
          else find_ber_loop scan inp ber_found)"
  by pat_completeness auto
termination
  by (relation "measure (\<lambda>(_, inp, _). length inp)") (auto dest: ber_get_shorter(4) [OF sym])

declare find_ber_loop.simps [simp del]

primrec cbs_find_ber :: "nat \<Rightarrow> CBS \<Rightarrow> bool option" where
  "cbs_find_ber 0 orig_in = None"
| "cbs_find_ber (Suc levels) orig_in = find_ber_loop (cbs_find_ber levels) orig_in False"

definition is_eoc :: "nat \<Rightarrow> CBS \<Rightarrow> bool" where
  "is_eoc header_len contents = (header_len = 2 \<and> CBS_len contents = 2 \<and> CBS_data contents = [0, 0])"

text \<open>The body of one element is copied to the builder at depth \<open>d\<close>; \<open>conv\<close> is the recursive call.\<close>

definition convert_contents ::
  "(u32 \<Rightarrow> bool \<Rightarrow> nat \<Rightarrow> CBS \<Rightarrow> cbb_st \<Rightarrow> bool \<times> CBS \<times> cbb_st) \<Rightarrow> allocator \<Rightarrow> nat \<Rightarrow> u32 \<Rightarrow>
   u32 \<Rightarrow> nat \<Rightarrow> CBS \<Rightarrow> CBS \<Rightarrow> cbb_st \<Rightarrow> bool \<times> CBS \<times> cbb_st" where
  "convert_contents conv al d child_string_tag tag header_len contents inp out =
     (if CBS_len contents = header_len \<and> header_len > 0 \<and> CBS_data contents ! (header_len - 1) = 0x80
      then conv child_string_tag True d inp out
      else case CBS_skip contents header_len of
        (None, _) \<Rightarrow> (False, inp, out)
      | (Some _, contents) \<Rightarrow>
          if tag AND CBS_ASN1_CONSTRUCTED \<noteq> 0
          then (case conv child_string_tag False d contents out of (ok, _, out) \<Rightarrow> (ok, inp, out))
          else (case CBB_add_bytes al d (CBS_data contents) (CBS_len contents) out of
                  (ok, out) \<Rightarrow> (ok, inp, out)))"

fun convert_ber_loop ::
  "(u32 \<Rightarrow> bool \<Rightarrow> nat \<Rightarrow> CBS \<Rightarrow> cbb_st \<Rightarrow> bool \<times> CBS \<times> cbb_st) \<Rightarrow> allocator \<Rightarrow> u32 \<Rightarrow> bool \<Rightarrow>
   nat \<Rightarrow> nat \<Rightarrow> CBS \<Rightarrow> cbb_st \<Rightarrow> bool \<times> CBS \<times> cbb_st" where
  "convert_ber_loop conv al string_tag looking_for_eoc d rounds inp out =
     (if \<not> CBS_len inp > 0 then (\<not> looking_for_eoc, inp, out)
      else case rounds of 0 \<Rightarrow> (False, inp, out) | Suc rounds \<Rightarrow>
      (case CBS_get_any_ber_asn1_element inp of
        (None, inp) \<Rightarrow> (False, inp, out)
      | (Some (contents, tag, header_len, _), inp) \<Rightarrow>
          if is_eoc header_len contents then (looking_for_eoc, inp, out)
          else
         (case (if string_tag \<noteq> 0
                then (tag AND NOT CBS_ASN1_CONSTRUCTED = string_tag, string_tag, d, out)
                else
               (let string = tag AND CBS_ASN1_CONSTRUCTED \<noteq> 0 \<and> is_string_type tag;
                    out_tag = if string then tag AND NOT CBS_ASN1_CONSTRUCTED else tag;
                    child_string_tag = if string then out_tag else string_tag
                in case CBB_add_asn1 al d out_tag out of (ok, out) \<Rightarrow>
                  (ok, child_string_tag, Suc d, out))) of
            (False, _, _, out) \<Rightarrow> (False, inp, out)
          | (True, child_string_tag, out_contents, out) \<Rightarrow>
              (case convert_contents conv al out_contents child_string_tag tag header_len contents inp out of
                 (False, inp, out) \<Rightarrow> (False, inp, out)
               | (True, inp, out) \<Rightarrow>
                   (case CBB_flush al d out of
                      (False, out) \<Rightarrow> (False, inp, out)
                    | (True, out) \<Rightarrow>
                        convert_ber_loop conv al string_tag looking_for_eoc d rounds inp out)))))"

declare convert_ber_loop.simps [simp del]

primrec cbs_convert_ber ::
  "nat \<Rightarrow> allocator \<Rightarrow> u32 \<Rightarrow> bool \<Rightarrow> nat \<Rightarrow> CBS \<Rightarrow> cbb_st \<Rightarrow> bool \<times> CBS \<times> cbb_st" where
  "cbs_convert_ber 0 al string_tag looking_for_eoc d inp out = (False, inp, out)"
| "cbs_convert_ber (Suc levels) al string_tag looking_for_eoc d inp out =
     convert_ber_loop (\<lambda>tag eoc. cbs_convert_ber levels al tag eoc) al string_tag looking_for_eoc d
       (CBS_len inp) inp out"

text \<open>The results are \<open>out\<close> and \<open>out_storage\<close>, \<open>None\<close> for a NULL storage.\<close>

definition CBS_asn1_ber_to_der :: "allocator \<Rightarrow> CBS \<Rightarrow> (CBS \<times> byte list option) option \<times> CBS" where
  "CBS_asn1_ber_to_der al inp =
     (case cbs_find_ber (kMaxDepth + 1) inp of
        None \<Rightarrow> (None, inp)
      | Some False \<Rightarrow>
          (case CBS_get_any_asn1_element inp of
             (None, inp) \<Rightarrow> (None, inp)
           | (Some (out, _), inp) \<Rightarrow> (Some (out, None), inp))
      | Some True \<Rightarrow>
          (case CBB_init al (CBS_len inp) of
             None \<Rightarrow> (None, inp)
           | Some cbb \<Rightarrow>
               (case cbs_convert_ber (kMaxDepth + 1) al 0 False 0 inp cbb of
                  (False, inp, _) \<Rightarrow> (None, inp)
                | (True, inp, cbb) \<Rightarrow>
                    (case CBB_finish al 0 True True cbb of
                       (None, _) \<Rightarrow> (None, inp)
                     | (Some (data, len), _) \<Rightarrow> (Some (CBS_init data len, Some data), inp)))))"

function implicit_chunks :: "allocator \<Rightarrow> u32 \<Rightarrow> CBS \<Rightarrow> cbb_st \<Rightarrow> bool \<times> cbb_st" where
  "implicit_chunks al inner_tag child result =
     (if \<not> CBS_len child > 0 then (True, result)
      else case CBS_get_asn1 child inner_tag of
        (None, _) \<Rightarrow> (False, result)
      | (Some chunk, child) \<Rightarrow>
          (case CBB_add_bytes al 0 (CBS_data chunk) (CBS_len chunk) result of
             (False, result) \<Rightarrow> (False, result)
           | (True, result) \<Rightarrow> implicit_chunks al inner_tag child result))"
  by pat_completeness auto
termination
  by (relation "measure (\<lambda>(_, _, child, _). length child)") (auto dest: CBS_get_asn1_shorter [OF sym])

declare implicit_chunks.simps [simp del]

definition CBS_get_asn1_implicit_string ::
  "allocator \<Rightarrow> CBS \<Rightarrow> u32 \<Rightarrow> u32 \<Rightarrow> (CBS \<times> byte list option) option \<times> CBS" where
  "CBS_get_asn1_implicit_string al inp outer_tag inner_tag =
     (if CBS_peek_asn1_tag inp outer_tag
      then (case CBS_get_asn1 inp outer_tag of
              (None, inp) \<Rightarrow> (None, inp)
            | (Some out, inp) \<Rightarrow> (Some (out, None), inp))
      else case CBB_init al (CBS_len inp) of
        None \<Rightarrow> (None, inp)
      | Some result \<Rightarrow>
          (case CBS_get_asn1 inp (outer_tag OR CBS_ASN1_CONSTRUCTED) of
             (None, inp) \<Rightarrow> (None, inp)
           | (Some child, inp) \<Rightarrow>
               (case implicit_chunks al inner_tag child result of
                  (False, _) \<Rightarrow> (None, inp)
                | (True, result) \<Rightarrow>
                    (case CBB_finish al 0 True True result of
                       (None, _) \<Rightarrow> (None, inp)
                     | (Some (data, len), _) \<Rightarrow> (Some (CBS_init data len, Some data), inp)))))"

section \<open>What the converter means\<close>

text \<open>The conversion as a function on bytes, without the builder: the DER of the elements read and
  the input that is left.  \<open>spec\<close> stands for the conversion one level down.\<close>

definition contents_spec ::
  "(u32 \<Rightarrow> bool \<Rightarrow> CBS \<Rightarrow> (byte list \<times> CBS) option) \<Rightarrow> u32 \<Rightarrow> u32 \<Rightarrow> nat \<Rightarrow> CBS \<Rightarrow> CBS \<Rightarrow>
   (byte list \<times> CBS) option" where
  "contents_spec spec child_string_tag tag header_len contents inp =
     (if CBS_len contents = header_len \<and> header_len > 0 \<and> CBS_data contents ! (header_len - 1) = 0x80
      then spec child_string_tag True inp
      else if tag AND CBS_ASN1_CONSTRUCTED \<noteq> 0
      then map_option (\<lambda>(x, _). (x, inp)) (spec child_string_tag False (drop header_len contents))
      else Some (drop header_len contents, inp))"

fun convert_spec_loop ::
  "(u32 \<Rightarrow> bool \<Rightarrow> CBS \<Rightarrow> (byte list \<times> CBS) option) \<Rightarrow> u32 \<Rightarrow> bool \<Rightarrow> nat \<Rightarrow> CBS \<Rightarrow>
   (byte list \<times> CBS) option" where
  "convert_spec_loop spec string_tag eoc rounds inp =
     (if inp = [] then (if eoc then None else Some ([], []))
      else case rounds of 0 \<Rightarrow> None | Suc rounds \<Rightarrow>
      (case CBS_get_any_ber_asn1_element inp of
         (None, _) \<Rightarrow> None
       | (Some (contents, tag, header_len, _), inp) \<Rightarrow>
           if is_eoc header_len contents then (if eoc then Some ([], inp) else None)
           else if string_tag \<noteq> 0
           then (if tag AND NOT CBS_ASN1_CONSTRUCTED \<noteq> string_tag then None
                 else case contents_spec spec string_tag tag header_len contents inp of
                   None \<Rightarrow> None
                 | Some (x, inp) \<Rightarrow>
                     map_option (\<lambda>(y, r). (x @ y, r)) (convert_spec_loop spec string_tag eoc rounds inp))
           else
          (let string = tag AND CBS_ASN1_CONSTRUCTED \<noteq> 0 \<and> is_string_type tag;
               out_tag = if string then tag AND NOT CBS_ASN1_CONSTRUCTED else tag
           in case contents_spec spec (if string then out_tag else 0) tag header_len contents inp of
                None \<Rightarrow> None
              | Some (x, inp) \<Rightarrow>
                  if length x \<le> 0xfffffffe
                  then map_option (\<lambda>(y, r). (der_element out_tag x @ y, r))
                         (convert_spec_loop spec string_tag eoc rounds inp)
                  else None)))"

declare convert_spec_loop.simps [simp del]

primrec convert_spec :: "nat \<Rightarrow> u32 \<Rightarrow> bool \<Rightarrow> CBS \<Rightarrow> (byte list \<times> CBS) option" where
  "convert_spec 0 string_tag eoc inp = None"
| "convert_spec (Suc levels) string_tag eoc inp =
     convert_spec_loop (convert_spec levels) string_tag eoc (length inp) inp"

section \<open>The converter writes what it means\<close>

text \<open>A converter at depth \<open>d\<close> writes the spec's bytes and leaves the spec's rest.\<close>

definition writes_rest ::
  "allocator \<Rightarrow> nat \<Rightarrow> (cbb_st \<Rightarrow> bool \<times> CBS \<times> cbb_st) \<Rightarrow> (byte list \<times> CBS) option \<Rightarrow> bool" where
  "writes_rest al d op x =
     (field_writer al d (\<lambda>st. case op st of (ok, _, st) \<Rightarrow> (ok, st)) (map_option fst x)
      \<and> (\<forall>bs r st r' st'. x = Some (bs, r) \<longrightarrow> op st = (True, r', st') \<longrightarrow> r' = r))"

lemma writes_rest_refuse:
  "(\<And>st L. repr st L \<Longrightarrow> d < length L \<Longrightarrow> \<not> fst (op st)) \<Longrightarrow> writes_rest al d op None"
  by (auto simp: writes_rest_def field_writer_def write_opt_def split: prod.splits) fastforce

lemma writes_rest_nil: "writes_rest al d (\<lambda>st. (True, r, st)) (Some ([], r))"
  using field_writer_nil by (simp add: writes_rest_def)

lemma field_writer_then_flush_refuses:
  assumes "field_writer al d f None" "repr st L" "d < length L" "f st = (True, st')"
  shows "\<not> fst (CBB_flush al d st')"
proof -
  from field_writer_result [OF assms] obtain L' where "repr st' L'" "settle d L' = None"
    by (auto simp: write_opt_def)
  then show ?thesis by (rule flush.refuses)
qed

lemma flush_field_writer:
  assumes "field_writer al d g y"
  shows "field_writer al d (\<lambda>st. case CBB_flush al d st of (False, st) \<Rightarrow> (False, st) | (True, st) \<Rightarrow> g st) y"
proof -
  have "settle d = write_at d []"
  proof
    fix L
    show "settle d L = write_at d [] L"
    proof (cases "settle d L")
      case (Some M)
      then have "M \<noteq> []" using settle_length [OF Some] by auto
      with Some show ?thesis by (simp add: write_at_def emit_Nil)
    qed (simp add: write_at_def)
  qed
  then have "cbb_writer al (CBB_flush al d) (write_at d [])" using flush.cbb_writer_axioms [of al d] by simp
  from field_writer_cons [OF this assms] show ?thesis by (simp add: option.map_ident)
qed

text \<open>One element without a header of its own (a fragment of a string), and what follows.\<close>

lemma writes_rest_fragment:
  assumes B: "writes_rest al d B S"
    and K: "\<And>x r. S = Some (x, r) \<Longrightarrow> writes_rest al d (K r) (T r)"
  shows "writes_rest al d
    (\<lambda>st. case B st of (False, r, st) \<Rightarrow> (False, r, st)
       | (True, r, st) \<Rightarrow> (case CBB_flush al d st of (False, st) \<Rightarrow> (False, r, st) | (True, st) \<Rightarrow> K r st))
    (case S of None \<Rightarrow> None | Some (x, r) \<Rightarrow> map_option (\<lambda>(y, r). (x @ y, r)) (T r))"
proof (cases S)
  case None
  have "field_writer al d (\<lambda>st. case B st of (ok, _, st) \<Rightarrow> (ok, st)) None"
    using B None by (simp add: writes_rest_def)
  from field_writer_then_flush_refuses [OF this] None show ?thesis
    by (auto intro!: writes_rest_refuse split: prod.splits bool.splits) fastforce
next
  case (Some a)
  obtain x r where a: "a = (x, r)" by (cases a)
  have r: "r' = r" if "B st = (True, r', st')" for st r' st'
    using B that by (auto simp: writes_rest_def Some a)
  have B': "field_writer al d (\<lambda>st. case B st of (ok, _, st) \<Rightarrow> (ok, st)) (Some x)"
    using B by (simp add: writes_rest_def Some a)
  have K': "field_writer al d (\<lambda>st. case K r st of (ok, _, st) \<Rightarrow> (ok, st)) (map_option fst (T r))"
    using K [of x r] by (simp add: writes_rest_def Some a)
  have eq: "(\<lambda>st. case (case B st of (False, r, st) \<Rightarrow> (False, r, st)
       | (True, r, st) \<Rightarrow> (case CBB_flush al d st of (False, st) \<Rightarrow> (False, r, st) | (True, st) \<Rightarrow> K r st))
      of (ok, _, st) \<Rightarrow> (ok, st))
    = (\<lambda>st. case (case B st of (ok, _, st) \<Rightarrow> (ok, st)) of (False, st) \<Rightarrow> (False, st)
        | (True, st) \<Rightarrow> (case CBB_flush al d st of (False, st) \<Rightarrow> (False, st)
            | (True, st) \<Rightarrow> (case K r st of (ok, _, st) \<Rightarrow> (ok, st))))"
    using r by (auto simp: fun_eq_iff split: prod.splits bool.splits)
  show ?thesis
    unfolding writes_rest_def eq Some a
  proof (intro conjI)
    show "field_writer al d (\<lambda>st. case (case B st of (ok, _, st) \<Rightarrow> (ok, st)) of (False, st) \<Rightarrow> (False, st)
        | (True, st) \<Rightarrow> (case CBB_flush al d st of (False, st) \<Rightarrow> (False, st)
            | (True, st) \<Rightarrow> (case K r st of (ok, _, st) \<Rightarrow> (ok, st))))
      (map_option fst (case Some (x, r) of None \<Rightarrow> None | Some (x, r) \<Rightarrow> map_option (\<lambda>(y, r). (x @ y, r)) (T r)))"
      using field_writer_seq [OF B' flush_field_writer [OF K']]
      by (simp add: option.map_comp o_def case_prod_unfold)
  next
    show "\<forall>bs ra st r' st'. (case Some (x, r) of None \<Rightarrow> None | Some (x, r) \<Rightarrow>
        map_option (\<lambda>(y, r). (x @ y, r)) (T r)) = Some (bs, ra) \<longrightarrow>
      (case B st of (False, r, st) \<Rightarrow> (False, r, st)
       | (True, r, st) \<Rightarrow> (case CBB_flush al d st of (False, st) \<Rightarrow> (False, r, st) | (True, st) \<Rightarrow> K r st))
        = (True, r', st') \<longrightarrow> r' = ra"
    proof (intro allI impI)
      fix bs ra st r' st'
      assume T: "(case Some (x, r) of None \<Rightarrow> None | Some (x, r) \<Rightarrow>
          map_option (\<lambda>(y, r). (x @ y, r)) (T r)) = Some (bs, ra)"
        and run: "(case B st of (False, r, st) \<Rightarrow> (False, r, st)
         | (True, r, st) \<Rightarrow> (case CBB_flush al d st of (False, st) \<Rightarrow> (False, r, st) | (True, st) \<Rightarrow> K r st))
           = (True, r', st')"
      from T obtain y where y: "T r = Some (y, ra)" by auto
      from run obtain r1 st1 st2 where "B st = (True, r1, st1)" "K r1 st2 = (True, r', st')"
        by (auto split: prod.splits bool.splits)
      with r [of st r1 st1] K [of x r] y show "r' = ra" by (auto simp: writes_rest_def Some a)
    qed
  qed
qed

text \<open>One element with its header, and what follows.\<close>

lemma writes_rest_element:
  assumes B: "writes_rest al (Suc d) B S"
    and K: "\<And>x r. S = Some (x, r) \<Longrightarrow> writes_rest al d (K r) (T r)"
  shows "writes_rest al d
    (\<lambda>st. case CBB_add_asn1 al d tag st of (False, st) \<Rightarrow> (False, inp, st)
     | (True, st) \<Rightarrow> (case B st of (False, r, st) \<Rightarrow> (False, r, st)
       | (True, r, st) \<Rightarrow> (case CBB_flush al d st of (False, st) \<Rightarrow> (False, r, st) | (True, st) \<Rightarrow> K r st)))
    (case S of None \<Rightarrow> None | Some (x, r) \<Rightarrow> if length x \<le> 0xfffffffe
       then map_option (\<lambda>(y, r). (der_element tag x @ y, r)) (T r) else None)"
    (is "writes_rest al d ?op ?spec")
proof (cases S)
  case None
  have g: "field_writer al (Suc d) (\<lambda>st. case B st of (ok, _, st) \<Rightarrow> (ok, st)) None"
    using B None by (simp add: writes_rest_def)
  have "\<not> fst (?op st)" if st: "repr st L" for st L
  proof (cases "CBB_add_asn1 al d tag st")
    case (Pair ok st1)
    show ?thesis
    proof (cases "ok \<and> fst (B st1)")
      case True
      then obtain r st2 where st2: "B st1 = (True, r, st2)" by (cases "B st1") auto
      from Pair True add_asn1.result [OF st, of al d tag st1]
      obtain L1 where "open_asn1_at d tag L = Some L1" "repr st1 L1" by auto
      then have L1: "repr st1 L1" "Suc d < length L1"
        by (auto simp: open_asn1_at_def dest: write_at_length)
      from field_writer_result [OF g L1, of st2] st2
      obtain L2 where L2: "repr st2 L2" "Suc d < length L2" "settle (Suc d) L2 = None"
        by (auto simp: write_opt_def)
      then have "settle d L2 = None" by (simp add: settle_settle)
      with L2(1) have "\<not> fst (CBB_flush al d st2)" by (rule flush.refuses)
      then show ?thesis using Pair True st2 by (auto split: prod.splits bool.splits)
    next
      case False
      then show ?thesis using Pair by (auto split: prod.splits bool.splits)
    qed
  qed
  then show ?thesis unfolding None option.case by (intro writes_rest_refuse) blast
next
  case (Some a)
  obtain x r where a: "a = (x, r)" by (cases a)
  have r: "r' = r" if "B st = (True, r', st')" for st r' st'
    using B that by (auto simp: writes_rest_def Some a)
  have B': "field_writer al (Suc d) (\<lambda>st. case B st of (ok, _, st) \<Rightarrow> (ok, st)) (Some x)"
    using B by (simp add: writes_rest_def Some a)
  have K': "field_writer al d (\<lambda>st. case K r st of (ok, _, st) \<Rightarrow> (ok, st)) (map_option fst (T r))"
    using K [of x r] by (simp add: writes_rest_def Some a)
  have eq: "(\<lambda>st. case ?op st of (ok, _, st) \<Rightarrow> (ok, st))
    = (\<lambda>st. case CBB_add_asn1 al d tag st of (False, st) \<Rightarrow> (False, st)
        | (True, st) \<Rightarrow> (case (case B st of (ok, _, st) \<Rightarrow> (ok, st)) of (False, st) \<Rightarrow> (False, st)
        | (True, st) \<Rightarrow> (case CBB_flush al d st of (False, st) \<Rightarrow> (False, st)
            | (True, st) \<Rightarrow> (case K r st of (ok, _, st) \<Rightarrow> (ok, st)))))"
    using r by (auto simp: fun_eq_iff split: prod.splits bool.splits)
  have spec: "map_option fst ?spec = with_header tag (Some x) (map_option fst (T r))"
    by (simp add: Some a with_header_def option.map_comp o_def case_prod_unfold)
  show ?thesis
    unfolding writes_rest_def eq spec
  proof (intro conjI allI impI)
    show "field_writer al d (\<lambda>st. case CBB_add_asn1 al d tag st of (False, st) \<Rightarrow> (False, st)
        | (True, st) \<Rightarrow> (case (case B st of (ok, _, st) \<Rightarrow> (ok, st)) of (False, st) \<Rightarrow> (False, st)
        | (True, st) \<Rightarrow> (case CBB_flush al d st of (False, st) \<Rightarrow> (False, st)
            | (True, st) \<Rightarrow> (case K r st of (ok, _, st) \<Rightarrow> (ok, st)))))
        (with_header tag (Some x) (map_option fst (T r)))"
      by (rule asn1_child_writer [OF B' flush_field_writer [OF K']])
  next
    fix bs ra st r' st'
    assume T: "?spec = Some (bs, ra)" and run: "?op st = (True, r', st')"
    from T obtain y where y: "T r = Some (y, ra)" by (auto simp: Some a split: if_splits)
    from run obtain st0 r1 st1 st2 where "B st0 = (True, r1, st1)" "K r1 st2 = (True, r', st')"
      by (auto split: prod.splits bool.splits)
    with r [of st0 r1 st1] K [of x r] y show "r' = ra" by (auto simp: writes_rest_def Some a)
  qed
qed

lemma convert_contents_writes:
  assumes conv: "\<And>tag eoc d inp. length inp < size_mod \<Longrightarrow>
      writes_rest al d (conv tag eoc d inp) (spec tag eoc inp)"
    and sizes: "length inp < size_mod" "length contents < size_mod" "hl \<le> length contents"
  shows "writes_rest al d (convert_contents conv al d cst tag hl contents inp)
    (contents_spec spec cst tag hl contents inp)"
proof -
  let ?indefinite = "CBS_len contents = hl \<and> hl > 0 \<and> CBS_data contents ! (hl - 1) = 0x80"
  have skip: "CBS_skip contents hl = (Some (), drop hl contents)" using sizes by (simp add: CBS_skip_eq)
  consider "?indefinite" | "\<not> ?indefinite" "tag AND CBS_ASN1_CONSTRUCTED \<noteq> 0"
    | "\<not> ?indefinite" "tag AND CBS_ASN1_CONSTRUCTED = 0" by blast
  then show ?thesis
  proof cases
    case 1
    have "convert_contents conv al d cst tag hl contents inp = conv cst True d inp"
      using 1 by (simp add: fun_eq_iff convert_contents_def)
    with 1 conv [OF sizes(1)] show ?thesis by (simp add: contents_spec_def)
  next
    case 2
    let ?conv = "conv cst False d (drop hl contents)"
    have op: "convert_contents conv al d cst tag hl contents inp
        = (\<lambda>st. case ?conv st of (ok, _, st) \<Rightarrow> (ok, inp, st))"
      unfolding fun_eq_iff convert_contents_def if_not_P [OF 2(1)] skip using 2(2) by simp
    have spec: "contents_spec spec cst tag hl contents inp
        = map_option (\<lambda>(x, _). (x, inp)) (spec cst False (drop hl contents))"
      unfolding contents_spec_def if_not_P [OF 2(1)] using 2(2) by simp
    have "writes_rest al d ?conv (spec cst False (drop hl contents))" using sizes by (intro conv) simp
    then show ?thesis unfolding op spec
      by (auto simp: writes_rest_def option.map_comp o_def case_prod_unfold split: prod.splits)
  next
    case 3
    have op: "convert_contents conv al d cst tag hl contents inp
        = (\<lambda>st. case CBB_add_bytes al d (drop hl contents) (length (drop hl contents)) st of
             (ok, st) \<Rightarrow> (ok, inp, st))"
      unfolding fun_eq_iff convert_contents_def if_not_P [OF 3(1)] skip using 3(2)
      by (simp add: CBS_data_def CBS_len_def)
    have spec: "contents_spec spec cst tag hl contents inp = Some (drop hl contents, inp)"
      unfolding contents_spec_def if_not_P [OF 3(1)] using 3(2) by simp
    have "cbb_writer al (CBB_add_bytes al d (drop hl contents) (length (drop hl contents)))
        (write_at d (drop hl contents))"
      using add_bytes_writer [of "length (drop hl contents)" "drop hl contents" al d] sizes by simp
    from cbb_writer_field [OF this] show ?thesis unfolding op spec
      by (auto simp: writes_rest_def case_prod_unfold)
  qed
qed

text \<open>The input left is never longer than the input.\<close>

lemma convert_spec_loop_shrinks:
  assumes spec: "\<And>tag eoc inp x r. spec tag eoc inp = Some (x, r) \<Longrightarrow> length r \<le> length inp"
  shows "convert_spec_loop spec string_tag eoc rounds inp = Some (x, r) \<Longrightarrow> length r \<le> length inp"
proof (induction rounds arbitrary: inp x)
  case 0
  then show ?case by (auto simp: convert_spec_loop.simps split: if_splits)
next
  case (Suc rounds)
  have cont: "length r' \<le> length inp1" if "contents_spec spec cst tag hl contents inp1 = Some (y, r')"
    for cst tag hl contents inp1 y r'
    using that spec by (fastforce simp: contents_spec_def split: if_splits)
  show ?case
  proof (cases "inp = []")
    case False
    from Suc.prems False obtain contents tag hl ber inp1
      where get: "CBS_get_any_ber_asn1_element inp = (Some (contents, tag, hl, ber), inp1)"
      by (auto simp: convert_spec_loop.simps [of _ _ _ "Suc rounds"] split: prod.splits option.splits if_splits)
    have less: "length inp1 < length inp" using get by (rule ber_get_shorter)
    consider "r = inp1"
      | y cst r' z where "contents_spec spec cst tag hl contents inp1 = Some (y, r')"
          "convert_spec_loop spec string_tag eoc rounds r' = Some (z, r)"
      using Suc.prems False get
      by (auto simp: convert_spec_loop.simps [of _ _ _ "Suc rounds"] Let_def split: prod.splits option.splits if_splits)
    then show ?thesis
    proof cases
      case 1
      with less show ?thesis by simp
    next
      case 2
      with cont [OF 2(1)] Suc.IH [OF 2(2)] less show ?thesis by simp
    qed
  qed (use Suc.prems in \<open>auto simp: convert_spec_loop.simps split: if_splits\<close>)
qed

lemma convert_spec_shrinks: "convert_spec levels tag eoc inp = Some (x, r) \<Longrightarrow> length r \<le> length inp"
proof (induction levels arbitrary: tag eoc inp x r)
  case (Suc levels)
  from convert_spec_loop_shrinks [of "convert_spec levels", OF Suc.IH] Suc.prems show ?case by auto
qed simp

lemma contents_spec_shrinks:
  assumes "\<And>tag eoc inp x r. spec tag eoc inp = Some (x, r) \<Longrightarrow> length r \<le> length inp"
    and "contents_spec spec cst tag hl contents inp = Some (x, r)"
  shows "length r \<le> length inp"
  using assms by (fastforce simp: contents_spec_def split: if_splits)

lemma convert_loop_writes:
  assumes conv: "\<And>tag eoc d inp. length inp < size_mod \<Longrightarrow>
      writes_rest al d (conv tag eoc d inp) (spec tag eoc inp)"
    and shrinks: "\<And>tag eoc inp x r. spec tag eoc inp = Some (x, r) \<Longrightarrow> length r \<le> length inp"
  shows "length inp < size_mod \<Longrightarrow>
    writes_rest al d (convert_ber_loop conv al string_tag eoc d rounds inp)
      (convert_spec_loop spec string_tag eoc rounds inp)"
proof (induction rounds arbitrary: inp)
  case 0
  show ?case
    using writes_rest_nil [of al d inp]
    by (auto simp: convert_ber_loop.simps convert_spec_loop.simps CBS_len_def intro!: writes_rest_refuse)
next
  case (Suc rounds)
  show ?case
  proof (cases "inp = []")
    case True
    then show ?thesis
      using writes_rest_nil [of al d inp]
      by (auto simp: convert_ber_loop.simps convert_spec_loop.simps CBS_len_def intro!: writes_rest_refuse)
  next
    case False
    obtain res inp1 where get: "CBS_get_any_ber_asn1_element inp = (res, inp1)" by (rule prod.exhaust)
    show ?thesis
    proof (cases res)
      case None
      with get False show ?thesis
        by (auto simp: convert_ber_loop.simps convert_spec_loop.simps CBS_len_def intro!: writes_rest_refuse)
    next
      case (Some t)
      obtain contents tag hl ber where t: "t = (contents, tag, hl, ber)" by (rule prod_cases4)
      note get' = get [unfolded Some t]
      note parts = ber_get_shorter [OF get']
      have sizes: "length inp1 < size_mod" "length contents < size_mod" "hl \<le> length contents"
        using parts Suc.prems by simp_all
      let ?B = "\<lambda>d cst. convert_contents conv al d cst tag hl contents inp1"
      let ?S = "\<lambda>cst. contents_spec spec cst tag hl contents inp1"
      let ?K = "\<lambda>r. convert_ber_loop conv al string_tag eoc d rounds r"
      let ?T = "\<lambda>r. convert_spec_loop spec string_tag eoc rounds r"
      have B: "writes_rest al d' (?B d' cst) (?S cst)" for d' cst
        by (rule convert_contents_writes) (use conv sizes in auto)
      have K: "writes_rest al d (?K r) (?T r)" if "?S cst = Some (x, r)" for cst x r
      proof -
        have "length r \<le> length inp1" using that by (rule contents_spec_shrinks [rotated]) (rule shrinks)
        with sizes show ?thesis by (intro Suc.IH) simp
      qed
      consider (eoc) "is_eoc hl contents"
        | (mismatch) "\<not> is_eoc hl contents" "string_tag \<noteq> 0" "tag AND NOT CBS_ASN1_CONSTRUCTED \<noteq> string_tag"
        | (fragment) "\<not> is_eoc hl contents" "string_tag \<noteq> 0" "tag AND NOT CBS_ASN1_CONSTRUCTED = string_tag"
        | (element) "\<not> is_eoc hl contents" "string_tag = 0" by blast
      then show ?thesis
      proof cases
        case eoc
        then show ?thesis
          using writes_rest_nil [of al d inp1] False get'
          by (auto simp: convert_ber_loop.simps convert_spec_loop.simps CBS_len_def intro!: writes_rest_refuse)
      next
        case mismatch
        then show ?thesis
          using False get'
          by (auto simp: convert_ber_loop.simps convert_spec_loop.simps CBS_len_def intro!: writes_rest_refuse)
      next
        case fragment
        have "convert_ber_loop conv al string_tag eoc d (Suc rounds) inp
          = (\<lambda>st. case ?B d string_tag st of (False, r, st) \<Rightarrow> (False, r, st)
              | (True, r, st) \<Rightarrow> (case CBB_flush al d st of (False, st) \<Rightarrow> (False, r, st) | (True, st) \<Rightarrow> ?K r st))"
          using fragment False get'
          by (auto simp: fun_eq_iff convert_ber_loop.simps [of _ _ _ _ _ "Suc rounds"] CBS_len_def
              split: prod.splits bool.splits)
        moreover have "convert_spec_loop spec string_tag eoc (Suc rounds) inp
          = (case ?S string_tag of None \<Rightarrow> None | Some (x, r) \<Rightarrow> map_option (\<lambda>(y, r). (x @ y, r)) (?T r))"
          using fragment False get' by (simp add: convert_spec_loop.simps [of _ _ _ "Suc rounds"])
        ultimately show ?thesis using writes_rest_fragment [OF B K] by simp
      next
        case element
        let ?string = "tag AND CBS_ASN1_CONSTRUCTED \<noteq> 0 \<and> is_string_type tag"
        let ?out = "if ?string then tag AND NOT CBS_ASN1_CONSTRUCTED else tag"
        let ?cst = "if ?string then ?out else 0"
        have "convert_ber_loop conv al string_tag eoc d (Suc rounds) inp
          = (\<lambda>st. case CBB_add_asn1 al d ?out st of (False, st) \<Rightarrow> (False, inp1, st)
             | (True, st) \<Rightarrow> (case ?B (Suc d) ?cst st of (False, r, st) \<Rightarrow> (False, r, st)
              | (True, r, st) \<Rightarrow> (case CBB_flush al d st of (False, st) \<Rightarrow> (False, r, st) | (True, st) \<Rightarrow> ?K r st)))"
          using element False get'
          by (auto simp: fun_eq_iff convert_ber_loop.simps [of _ _ _ _ _ "Suc rounds"] CBS_len_def Let_def
              split: prod.splits bool.splits)
        moreover have "convert_spec_loop spec string_tag eoc (Suc rounds) inp
          = (case ?S ?cst of None \<Rightarrow> None | Some (x, r) \<Rightarrow> if length x \<le> 0xfffffffe
               then map_option (\<lambda>(y, r). (der_element ?out x @ y, r)) (?T r) else None)"
          unfolding convert_spec_loop.simps [of _ _ _ "Suc rounds"] Let_def
          using element False get' by (simp only: if_False simp_thms nat.case prod.case option.case)
        ultimately show ?thesis using writes_rest_element [OF B K] by simp
      qed
    qed
  qed
qed

lemma convert_ber_writes:
  "length inp < size_mod \<Longrightarrow>
    writes_rest al d (cbs_convert_ber levels al tag eoc d inp) (convert_spec levels tag eoc inp)"
proof (induction levels arbitrary: tag eoc d inp)
  case 0
  then show ?case by (auto intro!: writes_rest_refuse)
next
  case (Suc levels)
  have "writes_rest al d (convert_ber_loop (\<lambda>tag eoc. cbs_convert_ber levels al tag eoc) al tag eoc d
      (length inp) inp) (convert_spec_loop (convert_spec levels) tag eoc (length inp) inp)"
    using Suc.IH convert_spec_shrinks Suc.prems by (rule convert_loop_writes)
  then show ?case by (simp add: fun_eq_iff [symmetric] CBS_len_def)
qed

section \<open>DER\<close>

text \<open>
  Sequences of elements with the shortest tags and lengths, nested at most \<open>n\<close> deep, in which no string of X.690
  is constructed but for BIT STRINGs: those are left as they are (\<open>is_string_type\<close> says why).  The strings are
  those with the universal tags of OCTET STRING (4), UTF8String (12) and the types from 18 on; 23 and 24 are
  times and 29 is CHARACTER STRING.
\<close>

definition string_tags :: "u32 set" where
  "string_tags = {4, 12, 18, 19, 20, 21, 22, 25, 26, 27, 28, 30}"

definition universal_string :: "u32 \<Rightarrow> bool" where
  "universal_string t \<longleftrightarrow> t AND NOT CBS_ASN1_CONSTRUCTED \<in> string_tags"

lemma universal_string_eq [simp]: "universal_string t = is_string_type t"
  unfolding universal_string_def string_tags_def is_string_type_def by (simp only: insert_iff empty_iff)

inductive minimal_forest :: "nat \<Rightarrow> byte list \<Rightarrow> bool" where
  der_nil: "minimal_forest n []"
| der_primitive: "t AND CBS_ASN1_CONSTRUCTED = 0 \<Longrightarrow> length body < 2 ^ 32 \<Longrightarrow> minimal_forest n r
    \<Longrightarrow> minimal_forest n (der_element t body @ r)"
| der_constructed: "t AND CBS_ASN1_CONSTRUCTED \<noteq> 0 \<Longrightarrow> \<not> universal_string t \<Longrightarrow> length body < 2 ^ 32
    \<Longrightarrow> minimal_forest n body \<Longrightarrow> minimal_forest (Suc n) r
    \<Longrightarrow> minimal_forest (Suc n) (der_element t body @ r)"

lemma minimal_forest_mono: "minimal_forest n x \<Longrightarrow> n \<le> m \<Longrightarrow> minimal_forest m x"
proof (induction arbitrary: m rule: minimal_forest.induct)
  case (der_constructed t body n r)
  then obtain m' where "m = Suc m'" "n \<le> m'" by (cases m) auto
  with der_constructed show ?case by (auto intro: minimal_forest.der_constructed)
qed (auto intro: minimal_forest.intros)

lemma get_der_element:
  assumes "length body < 2 ^ 32"
  shows "CBS_get_any_ber_asn1_element (der_element t body @ r)
    = (Some (der_element t body, t, length (der_header t (length body)), False), r)"
  using assms unfolding CBS_get_any_ber_asn1_element_def ber_element_not_ber by auto

text \<open>In DER the scan finds nothing.\<close>

lemma find_ber_der: "minimal_forest n x \<Longrightarrow> cbs_find_ber (Suc n) x = Some False"
proof (induction rule: minimal_forest.induct)
  case (der_nil n)
  then show ?case by (simp add: find_ber_loop.simps CBS_len_def)
next
  case (der_primitive t body n r)
  then show ?case
    by (simp add: find_ber_loop.simps [of _ "der_element t body @ r"] get_der_element CBS_len_def)
next
  case (der_constructed t body n r)
  then show ?case
    by (simp add: find_ber_loop.simps [of _ "der_element t body @ r"] get_der_element CBS_skip_der_header
        CBS_len_def del: cbs_find_ber.simps(2)) (simp add: find_ber_loop.simps [of _ "der_element t body @ r"] get_der_element CBS_skip_der_header
        CBS_len_def)
qed

text \<open>The converter writes DER.\<close>

lemma primitive_tag: "(t AND NOT CBS_ASN1_CONSTRUCTED) AND CBS_ASN1_CONSTRUCTED = 0"
  by (simp add: and.assoc)

lemma convert_spec_loop_der:
  assumes spec: "\<And>eoc inp x r. spec 0 eoc inp = Some (x, r) \<Longrightarrow> \<exists>m. n = Suc m \<and> minimal_forest m x"
  shows "convert_spec_loop spec 0 eoc rounds inp = Some (x, r) \<Longrightarrow> minimal_forest n x"
proof (induction rounds arbitrary: inp x)
  case 0
  then show ?case by (auto simp: convert_spec_loop.simps der_nil split: if_splits)
next
  case (Suc rounds)
  show ?case
  proof (cases "x = []")
    case False
    then have "inp \<noteq> []" using Suc.prems by (auto simp: convert_spec_loop.simps split: if_splits)
    with Suc.prems obtain contents tag hl ber inp1
      where get: "CBS_get_any_ber_asn1_element inp = (Some (contents, tag, hl, ber), inp1)"
      by (auto simp: convert_spec_loop.simps [of _ _ _ "Suc rounds"] split: prod.splits option.splits if_splits)
    let ?string = "tag AND CBS_ASN1_CONSTRUCTED \<noteq> 0 \<and> is_string_type tag"
    let ?out = "if ?string then tag AND NOT CBS_ASN1_CONSTRUCTED else tag"
    from Suc.prems \<open>inp \<noteq> []\<close> False get obtain b inp2 y where
      b: "contents_spec spec (if ?string then ?out else 0) tag hl contents inp1 = Some (b, inp2)"
      and len: "length b \<le> 0xfffffffe" and y: "convert_spec_loop spec 0 eoc rounds inp2 = Some (y, r)"
      and x: "x = der_element ?out b @ y"
      unfolding convert_spec_loop.simps [of _ _ _ "Suc rounds"] Let_def
      by (auto simp only: simp_thms if_False if_True nat.case prod.case option.case
          split: if_splits option.splits prod.splits)
    have rest: "minimal_forest n y" using y by (rule Suc.IH)
    show ?thesis
    proof (cases "?out AND CBS_ASN1_CONSTRUCTED = 0")
      case True
      then show ?thesis unfolding x using len rest by (intro der_primitive) simp_all
    next
      case False
      then have tag: "tag AND CBS_ASN1_CONSTRUCTED \<noteq> 0" "\<not> is_string_type tag"
        using primitive_tag [of tag] by (auto split: if_splits)
      with b have "\<exists>eoc inp r. spec 0 eoc inp = Some (b, r)"
        by (auto simp: contents_spec_def split: if_splits)
      then obtain m where "n = Suc m" "minimal_forest m b" using spec by blast
      with tag len rest show ?thesis unfolding x by (auto intro: der_constructed)
    qed
  qed (simp add: der_nil)
qed

lemma convert_spec_der: "convert_spec (Suc n) 0 eoc inp = Some (x, r) \<Longrightarrow> minimal_forest n x"
proof (induction n arbitrary: eoc inp x r)
  case 0
  then show ?case using convert_spec_loop_der [of "convert_spec 0" 0] by auto
next
  case (Suc n)
  then show ?case using convert_spec_loop_der [of "convert_spec (Suc n)" "Suc n"]
    by (auto simp del: convert_spec.simps(2) simp: convert_spec.simps(2) [of "Suc n"])
qed

section \<open>The converter as a whole\<close>

lemma finish_convert:
  "finish_with al n (\<lambda>st. case op st of (ok, _, st) \<Rightarrow> (ok, st)) =
    (case CBB_init al n of None \<Rightarrow> None | Some cbb \<Rightarrow>
      (case op cbb of (False, _, _) \<Rightarrow> None | (True, r, cbb) \<Rightarrow>
        (case CBB_finish al 0 True True cbb of (None, _) \<Rightarrow> None
         | (Some (data, len), _) \<Rightarrow> Some (take len data))))"
  by (simp add: finish_with_def split: option.splits prod.splits bool.splits)

lemma ber_to_der_converted:
  assumes "length inp < size_mod"
  shows "CBS_asn1_ber_to_der al inp = (Some (out, Some storage), r) \<Longrightarrow>
    cbs_find_ber (kMaxDepth + 1) inp = Some True \<and> convert_spec (kMaxDepth + 1) 0 False inp = Some (out, r)"
proof -
  assume run: "CBS_asn1_ber_to_der al inp = (Some (out, Some storage), r)"
  let ?op = "cbs_convert_ber (kMaxDepth + 1) al 0 False 0 inp"
  have w: "writes_rest al 0 ?op (convert_spec (kMaxDepth + 1) 0 False inp)"
    using assms by (rule convert_ber_writes)
  from run obtain cbb cbb1 data len where steps: "cbs_find_ber (kMaxDepth + 1) inp = Some True"
    "CBB_init al (CBS_len inp) = Some cbb" "?op cbb = (True, r, cbb1)"
    "fst (CBB_finish al 0 True True cbb1) = Some (data, len)" "out = take len data"
    by (auto simp: CBS_asn1_ber_to_der_def CBS_init_def simp del: cbs_find_ber.simps cbs_convert_ber.simps
        split: option.splits bool.splits prod.splits)
  then have "finish_with al (CBS_len inp) (\<lambda>st. case ?op st of (ok, _, st) \<Rightarrow> (ok, st)) = Some out"
    unfolding finish_convert by (auto simp del: cbs_convert_ber.simps split: prod.splits option.splits)
  with w finish_with_sound have "map_option fst (convert_spec (kMaxDepth + 1) 0 False inp) = Some out"
    unfolding writes_rest_def by blast
  then obtain r' where r': "convert_spec (kMaxDepth + 1) 0 False inp = Some (out, r')" by auto
  moreover have "r = r'" using w r' steps(3) unfolding writes_rest_def by blast
  ultimately show ?thesis using steps(1) by simp
qed

lemma ber_to_der_converts:
  assumes "granting al" "length inp \<le> 2 ^ 61"
    and "cbs_find_ber (kMaxDepth + 1) inp = Some True"
    and spec: "convert_spec (kMaxDepth + 1) 0 False inp = Some (x, r)" and "length x \<le> 2 ^ 60"
  shows "\<exists>storage. CBS_asn1_ber_to_der al inp = (Some (x, Some storage), r)"
proof -
  let ?op = "cbs_convert_ber (kMaxDepth + 1) al 0 False 0 inp"
  have "length inp < size_mod" using assms(2) by simp
  then have w: "writes_rest al 0 ?op (convert_spec (kMaxDepth + 1) 0 False inp)"
    by (rule convert_ber_writes)
  then have "field_writer al 0 (\<lambda>st. case ?op st of (ok, _, st) \<Rightarrow> (ok, st)) (Some x)"
    by (simp only: writes_rest_def spec option.map fst_conv)
  from finish_with_complete [OF this assms(1,2,5)] obtain cbb r' cbb1 data len cbb2 where
    "CBB_init al (length inp) = Some cbb" "?op cbb = (True, r', cbb1)"
    "CBB_finish al 0 True True cbb1 = (Some (data, len), cbb2)" "x = take len data"
    unfolding finish_convert by (auto simp del: cbs_convert_ber.simps split: prod.splits option.splits bool.splits)
  moreover from this w have "r' = r" unfolding writes_rest_def spec by blast
  ultimately show ?thesis
    using assms(3) by (simp add: CBS_asn1_ber_to_der_def CBS_init_def CBS_len_def
        del: cbs_find_ber.simps cbs_convert_ber.simps)
qed

lemma ber_to_der_unconverted:
  assumes "minimal_forest kMaxDepth (der_element t body @ r)" "length body < 2 ^ 32"
  shows "CBS_asn1_ber_to_der al (der_element t body @ r) = (Some (der_element t body, None), r)"
proof -
  have "CBS_get_any_asn1_element (der_element t body @ r)
      = (Some (der_element t body, t, length (der_header t (length body))), r)"
    using assms(2) unfolding CBS_get_any_asn1_element_Some_iff by auto
  then show ?thesis
    using find_ber_der [OF assms(1)]
    by (simp add: CBS_asn1_ber_to_der_def del: cbs_find_ber.simps)
qed

section \<open>Implicitly tagged strings\<close>

lemma implicit_chunks_writes:
  "list_all (\<lambda>c. length c < 2 ^ 32) cs \<Longrightarrow>
    field_writer al 0 (implicit_chunks al t (concat (map (der_element t) cs))) (Some (concat cs))"
proof (induction cs)
  case Nil
  then show ?case using field_writer_nil by (simp add: implicit_chunks.simps CBS_len_def)
next
  case (Cons c cs)
  have get: "CBS_get_asn1 (der_element t c @ concat (map (der_element t) cs)) t
      = (Some c, concat (map (der_element t) cs))"
    using Cons.prems by (simp add: CBS_get_asn1_Some_iff)
  have "implicit_chunks al t (concat (map (der_element t) (c # cs)))
      = (\<lambda>st. case CBB_add_bytes al 0 c (length c) st of (False, st) \<Rightarrow> (False, st)
          | (True, st) \<Rightarrow> implicit_chunks al t (concat (map (der_element t) cs)) st)"
    using get by (simp add: fun_eq_iff CBS_len_def CBS_data_def
        implicit_chunks.simps [of _ _ "der_element t c @ concat (map (der_element t) cs)"])
  moreover have "cbb_writer al (CBB_add_bytes al 0 c (length c)) (write_at 0 c)"
    using add_bytes_writer [of "length c" c al 0] Cons.prems by simp
  ultimately show ?case using field_writer_cons [OF _ Cons.IH] Cons.prems by simp
qed

lemma implicit_chunks_elements:
  "implicit_chunks al t child st = (True, st') \<Longrightarrow>
    \<exists>cs. list_all (\<lambda>c. length c < 2 ^ 32) cs \<and> child = concat (map (der_element t) cs)"
proof (induction al t child st rule: implicit_chunks.induct)
  case (1 al t child st)
  show ?case
  proof (cases "child = []")
    case False
    with "1.prems" obtain chunk child1 st1 where get: "CBS_get_asn1 child t = (Some chunk, child1)"
      and add: "CBB_add_bytes al 0 (CBS_data chunk) (CBS_len chunk) st = (True, st1)"
      and run: "implicit_chunks al t child1 st1 = (True, st')"
      by (subst (asm) implicit_chunks.simps) (auto simp: CBS_len_def split: prod.splits option.splits bool.splits)
    have "\<exists>cs. list_all (\<lambda>c. length c < 2 ^ 32) cs \<and> child1 = concat (map (der_element t) cs)"
      using False by (intro "1.IH" [OF _ get [symmetric] refl add [symmetric] refl run]) (simp_all add: CBS_len_def)
    then obtain cs where "list_all (\<lambda>c. length c < 2 ^ 32) cs"
      "child1 = concat (map (der_element t) cs)" by blast
    with get show ?thesis
      by (intro exI [of _ "chunk # cs"]) (simp add: CBS_get_asn1_Some_iff)
  qed (auto intro: exI [of _ "[]"])
qed

lemma implicit_string_constructed:
  assumes "list_all (\<lambda>c. length c < 2 ^ 32) cs"
    and "length (concat (map (der_element inner) cs)) < 2 ^ 32"
    and "granting al" and "length r \<le> 2 ^ 60" and "outer AND CBS_ASN1_CONSTRUCTED = 0"
  shows "\<exists>storage. CBS_get_asn1_implicit_string al
      (der_element (outer OR CBS_ASN1_CONSTRUCTED) (concat (map (der_element inner) cs)) @ r) outer inner
    = (Some (concat cs, Some storage), r)"
proof -
  define child where "child = concat (map (der_element inner) cs)"
  define inp where "inp = der_element (outer OR CBS_ASN1_CONSTRUCTED) child @ r"
  have child: "length child < 2 ^ 32" using assms(2) by (simp add: child_def)
  have "outer \<noteq> outer OR CBS_ASN1_CONSTRUCTED"
  proof
    assume "outer = outer OR CBS_ASN1_CONSTRUCTED"
    moreover have "(outer OR CBS_ASN1_CONSTRUCTED) AND CBS_ASN1_CONSTRUCTED = CBS_ASN1_CONSTRUCTED"
      by (simp only: bit.conj_disj_distrib2 assms(5) and.idem or.left_neutral)
    ultimately have "CBS_ASN1_CONSTRUCTED = 0" using assms(5) by (simp only:)
    then show False by simp
  qed
  then have peek: "\<not> CBS_peek_asn1_tag inp outer" by (simp add: inp_def)
  have get: "CBS_get_asn1 inp (outer OR CBS_ASN1_CONSTRUCTED) = (Some child, r)"
    using child by (simp add: CBS_get_asn1_Some_iff inp_def)
  have len: "length (concat cs) \<le> length child"
    unfolding child_def by (induction cs) (simp_all add: der_element_def)
  have "length inp \<le> 2 ^ 61"
  proof -
    have "length (der_header t n) \<le> 11" for t n
      using length_der_tag [of t] der_len_octets_bounds(2) [of n] by (simp add: der_header_def der_len_def)
    then have "length inp \<le> 11 + length child + length r" by (simp add: inp_def der_element_def)
    with child assms(4) show ?thesis by simp
  qed
  from finish_with_complete [OF implicit_chunks_writes [OF assms(1)] assms(3) this] len child
  have "finish_with al (length inp) (implicit_chunks al inner child) = Some (concat cs)"
    by (simp add: child_def)
  then obtain cbb cbb1 data n cbb2 where "CBB_init al (length inp) = Some cbb"
    "implicit_chunks al inner child cbb = (True, cbb1)"
    "CBB_finish al 0 True True cbb1 = (Some (data, n), cbb2)" "concat cs = take n data"
    by (auto simp: finish_with_def split: option.splits prod.splits bool.splits)
  then show ?thesis
    using peek get unfolding child_def [symmetric] inp_def [symmetric]
    by (simp add: CBS_get_asn1_implicit_string_def CBS_len_def CBS_init_def)
qed

lemma implicit_string_sound:
  assumes "CBS_get_asn1_implicit_string al inp outer inner = (Some (out, storage), r)"
  shows "(storage = None \<and> length out < 2 ^ 32 \<and> inp = der_element outer out @ r)
    \<or> (storage \<noteq> None \<and> (\<exists>cs. list_all (\<lambda>c. length c < 2 ^ 32) cs \<and> out = concat cs
        \<and> inp = der_element (outer OR CBS_ASN1_CONSTRUCTED) (concat (map (der_element inner) cs)) @ r))"
proof (cases "CBS_peek_asn1_tag inp outer")
  case True
  with assms show ?thesis
    by (auto simp: CBS_get_asn1_implicit_string_def CBS_get_asn1_Some_iff split: prod.splits option.splits)
next
  case False
  with assms obtain cbb child cbb1 data n cbb2 where run: "CBB_init al (CBS_len inp) = Some cbb"
    "CBS_get_asn1 inp (outer OR CBS_ASN1_CONSTRUCTED) = (Some child, r)"
    "implicit_chunks al inner child cbb = (True, cbb1)"
    "CBB_finish al 0 True True cbb1 = (Some (data, n), cbb2)" "out = take n data" "storage = Some data"
    by (auto simp: CBS_get_asn1_implicit_string_def CBS_init_def split: prod.splits option.splits bool.splits)
  from implicit_chunks_elements [OF run(3)] obtain cs where
    cs: "list_all (\<lambda>c. length c < 2 ^ 32) cs" "child = concat (map (der_element inner) cs)" by blast
  have "finish_with al (CBS_len inp) (implicit_chunks al inner child) = Some out"
    using run by (simp add: finish_with_def)
  with finish_with_sound [OF implicit_chunks_writes [OF cs(1)]] cs have "out = concat cs" by blast
  with run cs show ?thesis by (auto simp: CBS_get_asn1_Some_iff)
qed

section \<open>Properties\<close>

text \<open>C14. What \<open>CBS_asn1_ber_to_der\<close> converts consists of elements with the shortest tags and lengths, nested
  below the depth limit, in which no string is constructed, a BIT STRING excepted.  (This is not all of DER: constructed
  BIT STRINGs and the contents of primitives are left as they are.)  A second run finds nothing to convert in it.\<close>

theorem ber_to_der_output:
  assumes "length inp < 2 ^ 64" "CBS_asn1_ber_to_der al inp = (Some (out, Some storage), r)"
  shows "minimal_forest kMaxDepth out \<and> cbs_find_ber (kMaxDepth + 1) out = Some False"
proof -
  have "convert_spec (Suc kMaxDepth) 0 False inp = Some (out, r)"
    using ber_to_der_converted [of inp al out storage r] assms by (simp del: convert_spec.simps)
  then have "minimal_forest kMaxDepth out" by (rule convert_spec_der)
  with find_ber_der [of kMaxDepth out] show ?thesis by (simp del: cbs_find_ber.simps)
qed

theorem ber_to_der_output_witness:
  "minimal_forest kMaxDepth [4, 2, 0xaa, 0xbb] \<and> minimal_forest kMaxDepth [0x30, 5, 0x23, 3, 3, 1, 0]
   \<and> cbs_find_ber (kMaxDepth + 1) [4, 2, 0xaa, 0xbb] = Some False"
proof -
  let ?inp = "[0x24, 0x80, 4, 1, 0xaa, 4, 1, 0xbb, 0, 0]"
  have run: "CBS_asn1_ber_to_der good_allocator ?inp = (Some ([4, 2, 0xaa, 0xbb], Some ([4, 2, 0xaa, 0xbb] @ replicate 6 0xcc)), [])"
    "CBS_asn1_ber_to_der good_allocator [0x30, 0x80, 0x23, 3, 3, 1, 0, 0, 0] =
      (Some ([0x30, 5, 0x23, 3, 3, 1, 0], Some ([0x30, 5, 0x23, 3, 3, 1, 0] @ replicate 2 0xcc)), [])"
    by code_simp+
  have "length ?inp < 2 ^ 64" "length [0x30, 0x80, 0x23, 3, 3, 1, 0, 0, 0] < 2 ^ 64" by simp_all
  from ber_to_der_output [OF this(1) run(1)] ber_to_der_output [OF this(2) run(2)] show ?thesis by simp
qed

text \<open>C15. The conversion with the builder computes the conversion on bytes: when the scan asks for it
  and the allocator grants the memory, the result is \<open>convert_spec\<close>'s, at every nesting and for
  every mix of definite and indefinite lengths and of string fragments.\<close>

theorem ber_to_der_refines:
  assumes "granting al" "length inp \<le> 2 ^ 61"
    and "cbs_find_ber (kMaxDepth + 1) inp = Some True"
    and "convert_spec (kMaxDepth + 1) 0 False inp = Some (x, r)" and "length x \<le> 2 ^ 60"
  shows "\<exists>storage. CBS_asn1_ber_to_der al inp = (Some (x, Some storage), r)"
  using assms by (rule ber_to_der_converts)

theorem ber_to_der_refines_witness:
  "\<exists>storage. CBS_asn1_ber_to_der \<lparr>malloc_ok = (\<lambda>_. True), junk = (\<lambda>_. 0)\<rparr> [0x24, 0x80, 4, 1, 7, 4, 1, 8, 0, 0]
     = (Some ([4, 2, 7, 8], Some storage), [])"
  by (rule ber_to_der_refines) (simp add: granting_def, simp, code_simp, code_simp, simp)

text \<open>DER is returned as it is, the first element of the input, without a copy.\<close>

theorem ber_to_der_keeps_der:
  assumes "minimal_forest kMaxDepth (der_element t body @ r)" "length body < 2 ^ 32"
  shows "CBS_asn1_ber_to_der al (der_element t body @ r) = (Some (der_element t body, None), r)"
  using assms by (rule ber_to_der_unconverted)

theorem ber_to_der_keeps_der_witness:
  "CBS_asn1_ber_to_der good_allocator (der_element CBS_ASN1_INTEGER [5] @ [])
     = (Some (der_element CBS_ASN1_INTEGER [5], None), [])"
  by (rule ber_to_der_keeps_der) (rule der_primitive, simp_all add: der_nil)

text \<open>C16. The scan loses what it found: when something that DER forbids lies inside a child that is
  followed by a primitive sibling, \<open>ber_found\<close> ends clear, and the input is handed out as DER without
  conversion, whatever was found.\<close>

theorem find_ber_forgets:
  assumes "cbs_find_ber (kMaxDepth - 1) body = Some True"
    and "t AND CBS_ASN1_CONSTRUCTED \<noteq> 0" "\<not> is_string_type t" "p AND CBS_ASN1_CONSTRUCTED = 0"
    and "length (der_element t body @ der_element p c) < 2 ^ 32"
  shows "CBS_asn1_ber_to_der al (der_element t (der_element t body @ der_element p c))
    = (Some (der_element t (der_element t body @ der_element p c), None), [])"
proof -
  define pair where "pair = der_element t body @ der_element p c"
  have sizes: "length body < 2 ^ 32" "length c < 2 ^ 32"
    using assms(5) by (simp_all add: der_element_def)
  have len: "length pair < 2 ^ 32" using assms(5) by (simp add: pair_def)
  have "find_ber_loop scan (der_element p c) f = Some False" for scan f
    using get_der_element [OF sizes(2), of p "[]"] assms(4)
    by (simp add: find_ber_loop.simps [of _ "der_element p c"] find_ber_loop.simps [of _ "[]"] CBS_len_def)
  then have inner: "cbs_find_ber (Suc (kMaxDepth - 1)) pair = Some False"
    using assms(1-3) get_der_element [OF sizes(1), of t "der_element p c"]
    by (simp add: find_ber_loop.simps [of _ "der_element t body @ der_element p c"] pair_def CBS_skip_der_header CBS_len_def)
  have k: "kMaxDepth + 1 = Suc (Suc (kMaxDepth - 1))" "kMaxDepth = Suc (kMaxDepth - 1)"
    by (simp_all add: kMaxDepth_def)
  have "cbs_find_ber (kMaxDepth + 1) (der_element t pair) = Some False"
    unfolding k(1) cbs_find_ber.simps(2) [of "Suc (kMaxDepth - 1)"]
    using assms(2,3) get_der_element [OF len, of t "[]"] inner
    by (simp add: find_ber_loop.simps [of _ "der_element t pair"] find_ber_loop.simps [of _ "[]"]
        CBS_skip_der_header CBS_len_def del: cbs_find_ber.simps)
  moreover have "CBS_get_any_asn1_element (der_element t pair @ [])
      = (Some (der_element t pair, t, length (der_header t (length pair))), [])"
    using len unfolding CBS_get_any_asn1_element_Some_iff by auto
  ultimately show ?thesis unfolding pair_def [symmetric] by (simp add: CBS_asn1_ber_to_der_def del: cbs_find_ber.simps)
qed

theorem find_ber_forgets_witness:
  "CBS_asn1_ber_to_der good_allocator
      (der_element CBS_ASN1_SEQUENCE (der_element CBS_ASN1_SEQUENCE [0x24, 2, 4, 0] @ der_element 5 []))
    = (Some (der_element CBS_ASN1_SEQUENCE (der_element CBS_ASN1_SEQUENCE [0x24, 2, 4, 0] @ der_element 5 []),
        None), [])"
  by (rule find_ber_forgets) (code_simp, simp, simp add: is_string_type_def, simp, code_simp)

text \<open>An implicitly tagged string: a primitive one is returned in place, a constructed one is the
  concatenation of its chunks, and nothing else is accepted.\<close>

theorem implicit_string_exact:
  assumes "CBS_get_asn1_implicit_string al inp outer inner = (Some (out, storage), r)"
  shows "(storage = None \<and> length out < 2 ^ 32 \<and> inp = der_element outer out @ r)
    \<or> (storage \<noteq> None \<and> (\<exists>cs. list_all (\<lambda>c. length c < 2 ^ 32) cs \<and> out = concat cs
        \<and> inp = der_element (outer OR CBS_ASN1_CONSTRUCTED) (concat (map (der_element inner) cs)) @ r))"
  using assms by (rule implicit_string_sound)

theorem implicit_string_exact_witness:
  "\<exists>cs. [7, 8] = concat cs \<and> [0xa0, 6, 4, 1, 7, 4, 1, 8 :: byte]
     = der_element (0x80000000 OR CBS_ASN1_CONSTRUCTED) (concat (map (der_element CBS_ASN1_OCTETSTRING) cs)) @ []"
proof -
  have "CBS_get_asn1_implicit_string good_allocator [0xa0, 6, 4, 1, 7, 4, 1, 8] 0x80000000 CBS_ASN1_OCTETSTRING
      = (Some ([7, 8], Some ([7, 8] @ replicate 6 0xcc)), [])"
    by code_simp
  from implicit_string_exact [OF this] show ?thesis by auto
qed

text \<open>A constructed string of short chunks is read back whole when memory suffices.\<close>

theorem implicit_string_total:
  assumes "list_all (\<lambda>c. length c < 2 ^ 32) cs"
    and "length (concat (map (der_element inner) cs)) < 2 ^ 32"
    and "granting al" and "length r \<le> 2 ^ 60" and "outer AND CBS_ASN1_CONSTRUCTED = 0"
  shows "\<exists>storage. CBS_get_asn1_implicit_string al
      (der_element (outer OR CBS_ASN1_CONSTRUCTED) (concat (map (der_element inner) cs)) @ r) outer inner
    = (Some (concat cs, Some storage), r)"
  using assms by (rule implicit_string_constructed)

theorem implicit_string_total_witness:
  "\<exists>storage. CBS_get_asn1_implicit_string \<lparr>malloc_ok = (\<lambda>_. True), junk = (\<lambda>_. 0)\<rparr>
      (der_element (0x80000000 OR CBS_ASN1_CONSTRUCTED)
        (concat (map (der_element CBS_ASN1_OCTETSTRING) [[7], [8]])) @ []) 0x80000000 CBS_ASN1_OCTETSTRING
    = (Some (concat [[7], [8]], Some storage), [])"
  by (rule implicit_string_total) (simp, code_simp, simp add: granting_def, simp, simp)

end
