(* ===== verification/Const_Time.thy ===== *)
theory Const_Time
  imports Codec_Prelude
begin

text \<open>
  The constant-time primitives of \<^verbatim>\<open>crypto/internal.h\<close>: comparisons that return a mask of ones or
  zeros and a selection by such a mask, computed without a branch.  \<open>crypto_word_t\<close> has 64 bits on
  the targets.  Each is proved equal to the branching function its comment describes.
\<close>

type_synonym crypto_word = "64 word"

section \<open>The code\<close>

definition constant_time_msb_w :: "crypto_word \<Rightarrow> crypto_word" where
  "constant_time_msb_w a = 0 - drop_bit (8 * 8 - 1) a"

definition constant_time_lt_w :: "crypto_word \<Rightarrow> crypto_word \<Rightarrow> crypto_word" where
  "constant_time_lt_w a b = constant_time_msb_w (a XOR ((a XOR b) OR ((a - b) XOR a)))"

definition constant_time_lt_8 :: "crypto_word \<Rightarrow> crypto_word \<Rightarrow> byte" where
  "constant_time_lt_8 a b = ucast (constant_time_lt_w a b)"

definition constant_time_ge_w :: "crypto_word \<Rightarrow> crypto_word \<Rightarrow> crypto_word" where
  "constant_time_ge_w a b = NOT (constant_time_lt_w a b)"

definition constant_time_ge_8 :: "crypto_word \<Rightarrow> crypto_word \<Rightarrow> byte" where
  "constant_time_ge_8 a b = ucast (constant_time_ge_w a b)"

definition constant_time_is_zero_w :: "crypto_word \<Rightarrow> crypto_word" where
  "constant_time_is_zero_w a = constant_time_msb_w (NOT a AND (a - 1))"

definition constant_time_is_zero_8 :: "crypto_word \<Rightarrow> byte" where
  "constant_time_is_zero_8 a = ucast (constant_time_is_zero_w a)"

definition constant_time_eq_w :: "crypto_word \<Rightarrow> crypto_word \<Rightarrow> crypto_word" where
  "constant_time_eq_w a b = constant_time_is_zero_w (a XOR b)"

definition constant_time_eq_8 :: "crypto_word \<Rightarrow> crypto_word \<Rightarrow> byte" where
  "constant_time_eq_8 a b = ucast (constant_time_eq_w a b)"

text \<open>The conversion of an \<open>int\<close> to \<open>crypto_word_t\<close> extends the sign.\<close>

definition constant_time_eq_int :: "32 word \<Rightarrow> 32 word \<Rightarrow> crypto_word" where
  "constant_time_eq_int a b = constant_time_eq_w (scast a) (scast b)"

definition constant_time_eq_int_8 :: "32 word \<Rightarrow> 32 word \<Rightarrow> byte" where
  "constant_time_eq_int_8 a b = constant_time_eq_8 (scast a) (scast b)"

definition constant_time_select_w :: "crypto_word \<Rightarrow> crypto_word \<Rightarrow> crypto_word \<Rightarrow> crypto_word" where
  "constant_time_select_w m a b = ((m AND a) OR (NOT m AND b))"

definition constant_time_select_8 :: "byte \<Rightarrow> byte \<Rightarrow> byte \<Rightarrow> byte" where
  "constant_time_select_8 m a b = ucast (constant_time_select_w (ucast m) (ucast a) (ucast b))"

definition constant_time_select_int :: "crypto_word \<Rightarrow> 32 word \<Rightarrow> 32 word \<Rightarrow> 32 word" where
  "constant_time_select_int m a b = ucast (constant_time_select_w m (scast a) (scast b))"

section \<open>Masks\<close>

abbreviation mask_of :: "bool \<Rightarrow> 'a::len word" where
  "mask_of p \<equiv> (if p then -1 else 0)"

lemma msb_w: "constant_time_msb_w a = mask_of (bit a 63)"
proof -
  have "drop_bit 63 a = of_bool (bit a 63)"
  proof (rule bit_word_eqI)
    fix n
    show "bit (drop_bit 63 a) n \<longleftrightarrow> bit (of_bool (bit a 63) :: crypto_word) n"
      using bit_imp_le_length [of a "63 + n"] by (cases n) (auto simp: bit_simps)
  qed
  then show ?thesis by (simp add: constant_time_msb_w_def)
qed

lemma bit_63: "bit (a :: crypto_word) 63 \<longleftrightarrow> 2 ^ 63 \<le> unat a"
proof -
  have "bit a 63 \<longleftrightarrow> odd (unat a div 2 ^ 63)"
    using bit_unsigned_iff [of a 63, where 'a = nat] by (simp add: bit_iff_odd)
  moreover have "unat a < 2 ^ 64" using unsigned_less [of a, where 'a = nat] by simp
  then have "unat a div 2 ^ 63 < 2" by (intro less_mult_imp_div_less) simp
  then have "unat a div 2 ^ 63 = 0 \<or> unat a div 2 ^ 63 = 1" by auto
  moreover have "unat a div 2 ^ 63 = 0 \<longleftrightarrow> unat a < 2 ^ 63" by (simp add: div_eq_0_iff)
  ultimately show ?thesis by auto
qed

lemma unat_sub_wrap:
  "unat ((a :: crypto_word) - b) = (if b \<le> a then unat a - unat b else 2 ^ 64 - (unat b - unat a))"
proof (cases "b \<le> a")
  case False
  then have less: "unat a < unat b" by (simp add: word_le_nat_alt)
  have b: "unat b < 2 ^ 64" using unsigned_less [of b, where 'a = nat] by simp
  have "a \<le> b" using False by simp
  then have d: "unat (b - a) = unat b - unat a" by (rule unat_sub)
  have "unat ((a - b) + (b - a)) = 0" by simp
  then have "(unat (a - b) + (unat b - unat a)) mod 2 ^ 64 = 0"
    unfolding unat_word_ariths d by simp
  then obtain k where k: "unat (a - b) + (unat b - unat a) = 2 ^ 64 * k" by auto
  have "unat (a - b) < 2 ^ 64" using unsigned_less [of "a - b", where 'a = nat] by simp
  with k less b have "0 < k \<and> k < 2" by auto
  then have "k = 1" by simp
  with k have "unat (a - b) = 2 ^ 64 - (unat b - unat a)" by simp
  with False show ?thesis by simp
qed (simp add: unat_sub)

lemma lt_w: "constant_time_lt_w a b = mask_of (a < b)"
proof -
  have "bit (a XOR ((a XOR b) OR ((a - b) XOR a))) 63
      \<longleftrightarrow> (if bit a 63 = bit b 63 then bit (a - b) 63 else bit b 63)"
    by (auto simp: bit_simps)
  also have "\<dots> \<longleftrightarrow> a < b"
    unfolding bit_63 unat_sub_wrap
    using unsigned_less [of a, where 'a = nat] unsigned_less [of b, where 'a = nat]
    by (auto simp: word_le_nat_alt word_less_nat_alt)
  finally show ?thesis by (simp add: constant_time_lt_w_def msb_w)
qed

lemma is_zero_w: "constant_time_is_zero_w a = mask_of (a = 0)"
proof -
  have "bit (NOT a AND (a - 1)) 63 \<longleftrightarrow> \<not> bit a 63 \<and> bit (a - 1) 63"
    by (simp add: bit_simps)
  also have "\<dots> \<longleftrightarrow> a = 0"
    unfolding bit_63 unat_sub_wrap
    by (auto simp: word_le_nat_alt unat_gt_0 Suc_le_eq)
  finally show ?thesis by (simp add: constant_time_is_zero_w_def msb_w)
qed

lemma eq_w: "constant_time_eq_w a b = mask_of (a = b)"
proof -
  have "a = b" if "a XOR b = 0"
  proof -
    have "(a XOR b) XOR b = b" by (simp add: that)
    then show ?thesis by (simp add: xor.assoc)
  qed
  then show ?thesis by (auto simp: constant_time_eq_w_def is_zero_w)
qed

lemma ucast_mask: "ucast (mask_of p :: crypto_word) = (mask_of p :: byte)"
proof -
  have "ucast (-1 :: crypto_word) = (-1 :: byte)" by (rule bit_word_eqI) (simp add: bit_simps)
  then show ?thesis by simp
qed

lemma select_w: "constant_time_select_w (mask_of p) a b = (if p then a else b)"
  by (simp add: constant_time_select_w_def)

lemma select_8: "constant_time_select_8 (mask_of p) a b = (if p then a else b)"
proof -
  have "ucast ((ucast (-1 :: byte) :: crypto_word) AND ucast a OR (NOT (ucast (-1 :: byte))) AND ucast b) = (a :: byte)"
    by (rule bit_word_eqI) (auto simp: bit_simps)
  moreover have "ucast (ucast b :: crypto_word) = b" by (rule bit_word_eqI) (auto simp: bit_simps)
  ultimately show ?thesis by (simp add: constant_time_select_8_def constant_time_select_w_def)
qed

section \<open>Property\<close>

text \<open>Every primitive computes what its comment says, without a branch: the comparisons are the
  mask of the comparison (unsigned), of all ones or zeros, and a selection by such a mask is the
  conditional.\<close>

lemma constant_time_exact:
  "constant_time_lt_w a b = mask_of (a < b) \<and> constant_time_lt_8 a b = mask_of (a < b)
   \<and> constant_time_ge_w a b = mask_of (a \<ge> b) \<and> constant_time_ge_8 a b = mask_of (a \<ge> b)
   \<and> constant_time_is_zero_w a = mask_of (a = 0) \<and> constant_time_is_zero_8 a = mask_of (a = 0)
   \<and> constant_time_eq_w a b = mask_of (a = b) \<and> constant_time_eq_8 a b = mask_of (a = b)
   \<and> constant_time_eq_int i j = mask_of (i = j) \<and> constant_time_eq_int_8 i j = mask_of (i = j)
   \<and> constant_time_select_w (mask_of p) a b = (if p then a else b)
   \<and> constant_time_select_8 (mask_of p) x y = (if p then x else y)
   \<and> constant_time_select_int (mask_of p) i j = (if p then i else j)"
proof -
  have down: "ucast (scast i :: crypto_word) = i" for i :: "32 word"
    by (rule bit_word_eqI) (simp add: bit_simps)
  have scast: "scast i = (scast j :: crypto_word) \<longleftrightarrow> i = j" for i j :: "32 word"
    using down by metis
  have ones: "ucast (-1 :: crypto_word) = (-1 :: byte)" using ucast_mask [of True] by simp
  show ?thesis
    by (intro conjI; auto simp: constant_time_lt_8_def constant_time_ge_w_def constant_time_ge_8_def
        constant_time_is_zero_8_def constant_time_eq_8_def constant_time_eq_int_def
        constant_time_eq_int_8_def constant_time_select_int_def lt_w is_zero_w eq_w select_w select_8
        scast down ones not_less)
qed

end
