(* ===== verification/Base64.thy ===== *)
theory Base64
  imports Const_Time Cbb
begin

text \<open>
  Base64 as in \<^verbatim>\<open>crypto/base64/base64.c\<close>: the constant-time alphabet, the block encoder and decoder,
  and the streaming encoder and decoder around an \<open>EVP_ENCODE_CTX\<close>.  An output buffer is returned as
  the bytes written to it, from its start; a failing call returns no bytes.
\<close>

section \<open>The code\<close>

abbreviation INT_MAX :: nat where "INT_MAX \<equiv> 2147483647"

record EVP_ENCODE_CTX =
  data_used :: nat
  ctx_data :: "byte list"
  eof_seen :: bool
  error_encountered :: bool

definition constant_time_lt_args_8 :: "byte \<Rightarrow> byte \<Rightarrow> byte" where
  "constant_time_lt_args_8 a b = ucast (constant_time_msb_w (ucast a - ucast b))"

definition constant_time_in_range_8 :: "byte \<Rightarrow> byte \<Rightarrow> byte \<Rightarrow> byte" where
  "constant_time_in_range_8 a lo hi = constant_time_lt_args_8 (a - lo) (hi - lo + 1)"

text \<open>The characters \<open>+\<close>, \<open>/\<close>, \<open>0\<close>, \<open>=\<close>, \<open>A\<close>, \<open>Z\<close>, \<open>a\<close>, \<open>z\<close>, \<open>9\<close> by their codes.\<close>

definition conv_bin2ascii :: "byte \<Rightarrow> byte" where
  "conv_bin2ascii a =
     (let a = a AND 0x3f;
          ret = constant_time_select_8 (constant_time_eq_8 (ucast a) 62) 43 47;
          ret = constant_time_select_8 (constant_time_lt_args_8 a 62) (a - 52 + 48) ret;
          ret = constant_time_select_8 (constant_time_lt_args_8 a 52) (a - 26 + 97) ret
      in constant_time_select_8 (constant_time_lt_args_8 a 26) (a + 65) ret)"

definition EVP_EncodedLength :: "nat \<Rightarrow> nat option" where
  "EVP_EncodedLength len =
     (if (len + 2) mod size_mod < len then None
      else (let len = (len + 2) mod size_mod div 3 in
        if len * 4 mod size_mod div 4 \<noteq> len then None
        else (let len = len * 4 mod size_mod in
          if (len + 1) mod size_mod < len then None else Some ((len + 1) mod size_mod))))"

definition EVP_EncodeInit :: EVP_ENCODE_CTX where
  "EVP_EncodeInit = \<lparr>data_used = 0, ctx_data = replicate 48 0, eof_seen = False, error_encountered = False\<rparr>"

text \<open>The bytes written, the terminating NUL among them, and the count without it.\<close>

fun EVP_EncodeBlock :: "byte list \<Rightarrow> byte list \<times> nat" where
  "EVP_EncodeBlock [] = ([0], 0)"
| "EVP_EncodeBlock [s0] =
     (let l = push_bit 16 (ucast s0 :: u32) in
      ([conv_bin2ascii (ucast (drop_bit 18 l)), conv_bin2ascii (ucast (drop_bit 12 l)), 61, 61, 0], 4))"
| "EVP_EncodeBlock [s0, s1] =
     (let l = push_bit 16 (ucast s0 :: u32) OR push_bit 8 (ucast s1) in
      ([conv_bin2ascii (ucast (drop_bit 18 l)), conv_bin2ascii (ucast (drop_bit 12 l)),
        conv_bin2ascii (ucast (drop_bit 6 l)), 61, 0], 4))"
| "EVP_EncodeBlock (s0 # s1 # s2 # src) =
     (let l = push_bit 16 (ucast s0 :: u32) OR push_bit 8 (ucast s1) OR ucast s2 in
      case EVP_EncodeBlock src of (dst, ret) \<Rightarrow>
        (conv_bin2ascii (ucast (drop_bit 18 l)) # conv_bin2ascii (ucast (drop_bit 12 l))
         # conv_bin2ascii (ucast (drop_bit 6 l)) # conv_bin2ascii (ucast l) # dst, 4 + ret))"

text \<open>A block and its newline at position \<open>written\<close> of \<open>out\<close>, over the NUL of the line before.\<close>

definition put_line :: "byte list \<Rightarrow> nat \<Rightarrow> byte list \<times> nat \<Rightarrow> byte list" where
  "put_line out written block = (case block of (enc, encoded) \<Rightarrow> take written out @ take encoded enc @ [10, 0])"

function encode_lines :: "byte list \<Rightarrow> nat \<Rightarrow> byte list \<Rightarrow> byte list \<times> nat option \<times> byte list" where
  "encode_lines out written src =
     (if length src \<ge> 48 then
       (let block = EVP_EncodeBlock (take 48 src);
            out = put_line out written block;
            next_written = (written + snd block + 1) mod size_mod
        in if next_written < written then (out, None, drop 48 src)
           else encode_lines out next_written (drop 48 src))
      else (out, Some written, src))"
  by pat_completeness auto
termination
  by (relation "measure (\<lambda>(_, _, src). length src)") auto

declare encode_lines.simps [simp del]

definition EVP_EncodeUpdate :: "EVP_ENCODE_CTX \<Rightarrow> byte list \<Rightarrow> byte list \<times> nat \<times> EVP_ENCODE_CTX" where
  "EVP_EncodeUpdate ctx src =
     (if length src = 0 then ([], 0, ctx)
      else if 48 - data_used ctx > length src
      then ([], 0, ctx\<lparr>ctx_data := mem_write (ctx_data ctx) (data_used ctx) src,
                       data_used := data_used ctx + length src\<rparr>)
      else
     (case (if data_used ctx \<noteq> 0
            then (let todo = 48 - data_used ctx;
                      ctx = ctx\<lparr>ctx_data := mem_write (ctx_data ctx) (data_used ctx) (take todo src)\<rparr>;
                      block = EVP_EncodeBlock (ctx_data ctx)
                  in (put_line [] 0 block, snd block + 1, drop todo src, ctx\<lparr>data_used := 0\<rparr>))
            else ([], 0, src, ctx)) of
        (out, written, src, ctx) \<Rightarrow>
          (case encode_lines out written src of
             (out, None, _) \<Rightarrow> (out, 0, ctx)
           | (out, Some written, src) \<Rightarrow>
              (let ctx = (if length src \<noteq> 0 then ctx\<lparr>ctx_data := mem_write (ctx_data ctx) 0 src\<rparr> else ctx)
               in (out, if written > INT_MAX then 0 else written, ctx\<lparr>data_used := length src\<rparr>)))))"

definition EVP_EncodeFinal :: "EVP_ENCODE_CTX \<Rightarrow> byte list \<times> nat \<times> EVP_ENCODE_CTX" where
  "EVP_EncodeFinal ctx =
     (if data_used ctx = 0 then ([], 0, ctx)
      else (let block = EVP_EncodeBlock (take (data_used ctx) (ctx_data ctx)) in
        (put_line [] 0 block, snd block + 1, ctx\<lparr>data_used := 0\<rparr>)))"

definition EVP_DecodedLength :: "nat \<Rightarrow> nat option" where
  "EVP_DecodedLength len = (if len mod 4 \<noteq> 0 then None else Some (len div 4 * 3))"

definition EVP_DecodeInit :: EVP_ENCODE_CTX where
  "EVP_DecodeInit = \<lparr>data_used = 0, ctx_data = replicate 48 0, eof_seen = False, error_encountered = False\<rparr>"

definition base64_ascii_to_bin :: "byte \<Rightarrow> byte" where
  "base64_ascii_to_bin a =
     (let is_upper = constant_time_in_range_8 a 65 90;
          is_lower = constant_time_in_range_8 a 97 122;
          is_digit = constant_time_in_range_8 a 48 57;
          is_plus = constant_time_eq_8 (ucast a) 43;
          is_slash = constant_time_eq_8 (ucast a) 47;
          is_equals = constant_time_eq_8 (ucast a) 61;
          ret = 0;
          ret = ret OR (is_upper AND (a - 65));
          ret = ret OR (is_lower AND (a - 97 + 26));
          ret = ret OR (is_digit AND (a - 48 + 52));
          ret = ret OR (is_plus AND 62);
          ret = ret OR (is_slash AND 63);
          is_valid = is_upper OR is_lower OR is_digit OR is_plus OR is_slash OR is_equals
      in ret OR NOT is_valid)"

definition base64_decode_quad :: "byte \<Rightarrow> byte \<Rightarrow> byte \<Rightarrow> byte \<Rightarrow> byte list option" where
  "base64_decode_quad in0 in1 in2 in3 =
     (let a = base64_ascii_to_bin in0;
          b = base64_ascii_to_bin in1;
          c = base64_ascii_to_bin in2;
          d = base64_ascii_to_bin in3
      in if a = 0xff \<or> b = 0xff \<or> c = 0xff \<or> d = 0xff then None
         else
        (let v = push_bit 18 (ucast a :: u32) OR push_bit 12 (ucast b) OR push_bit 6 (ucast c) OR ucast d;
             padding_pattern = push_bit 3 (of_bool (in0 = 61)) OR push_bit 2 (of_bool (in1 = 61))
               OR push_bit 1 (of_bool (in2 = 61)) OR (of_bool (in3 = 61) :: u32)
         in if padding_pattern = 0
            then Some [ucast (drop_bit 16 v), ucast (drop_bit 8 v), ucast v]
            else if padding_pattern = 1 then Some [ucast (drop_bit 16 v), ucast (drop_bit 8 v)]
            else if padding_pattern = 3 then Some [ucast (drop_bit 16 v)]
            else None))"

text \<open>The loop of \<open>EVP_DecodeUpdate\<close>; \<open>None\<close> is the return value \<open>-1\<close> inside the loop.\<close>

fun decode_update_loop ::
  "EVP_ENCODE_CTX \<Rightarrow> byte list \<Rightarrow> byte list \<Rightarrow> byte list option \<times> EVP_ENCODE_CTX" where
  "decode_update_loop ctx out [] = (Some out, ctx)"
| "decode_update_loop ctx out (c # src) =
     (if c = 32 \<or> c = 9 \<or> c = 13 \<or> c = 10 then decode_update_loop ctx out src
      else if eof_seen ctx then (None, ctx\<lparr>error_encountered := True\<rparr>)
      else
     (let ctx = ctx\<lparr>ctx_data := (ctx_data ctx)[data_used ctx := c], data_used := data_used ctx + 1\<rparr> in
      if data_used ctx = 4
      then (case base64_decode_quad (ctx_data ctx ! 0) (ctx_data ctx ! 1) (ctx_data ctx ! 2) (ctx_data ctx ! 3) of
              None \<Rightarrow> (None, ctx\<lparr>error_encountered := True\<rparr>)
            | Some bytes \<Rightarrow>
                (let ctx = ctx\<lparr>data_used := 0\<rparr>;
                     ctx = (if length bytes < 3 then ctx\<lparr>eof_seen := True\<rparr> else ctx)
                 in decode_update_loop ctx (out @ bytes) src))
      else decode_update_loop ctx out src))"

text \<open>The return value, the bytes written with their count, and the context.\<close>

definition EVP_DecodeUpdate :: "EVP_ENCODE_CTX \<Rightarrow> byte list \<Rightarrow> int \<times> byte list \<times> EVP_ENCODE_CTX" where
  "EVP_DecodeUpdate ctx src =
     (if error_encountered ctx then (-1, [], ctx)
      else case decode_update_loop ctx [] src of
        (None, ctx) \<Rightarrow> (-1, [], ctx)
      | (Some out, ctx) \<Rightarrow>
          if length out > INT_MAX then (-1, [], ctx\<lparr>error_encountered := True\<rparr>)
          else if eof_seen ctx then (0, out, ctx) else (1, out, ctx))"

definition EVP_DecodeFinal :: "EVP_ENCODE_CTX \<Rightarrow> int" where
  "EVP_DecodeFinal ctx = (if error_encountered ctx \<or> data_used ctx \<noteq> 0 then -1 else 1)"

fun decode_base64_loop :: "byte list \<Rightarrow> byte list option" where
  "decode_base64_loop (in0 # in1 # in2 # in3 # src) =
     (case base64_decode_quad in0 in1 in2 in3 of
        None \<Rightarrow> None
      | Some bytes \<Rightarrow>
          if length bytes \<noteq> 3 \<and> src \<noteq> [] then None
          else map_option (\<lambda>out. bytes @ out) (decode_base64_loop src))"
| "decode_base64_loop _ = Some []"

definition EVP_DecodeBase64 :: "nat \<Rightarrow> byte list \<Rightarrow> byte list option" where
  "EVP_DecodeBase64 max_out src =
     (if length src mod 4 \<noteq> 0 then None
      else case EVP_DecodedLength (length src) of
        None \<Rightarrow> None
      | Some max_len \<Rightarrow> if max_out < max_len then None else decode_base64_loop src)"

text \<open>The padding with NULs up to a multiple of three.\<close>

function pad_three :: "byte list \<Rightarrow> byte list" where
  "pad_three dst = (if length dst mod 3 \<noteq> 0 then pad_three (dst @ [0]) else dst)"
  by pat_completeness auto
termination
proof (relation "measure (\<lambda>dst. (3 - length dst mod 3) mod 3)", goal_cases)
  case (2 dst)
  then have "length dst mod 3 = 1 \<or> length dst mod 3 = 2" by linarith
  then show ?case by (auto simp: mod_Suc)
qed simp

declare pad_three.simps [simp del]

definition EVP_DecodeBlock :: "byte list \<Rightarrow> int \<times> byte list" where
  "EVP_DecodeBlock src =
     (let src = dropWhile (\<lambda>c. c = 32 \<or> c = 9) src;
          src = rev (dropWhile (\<lambda>c. c = 32 \<or> c = 9 \<or> c = 13 \<or> c = 10) (rev src))
      in case EVP_DecodedLength (length src) of
           None \<Rightarrow> (-1, [])
         | Some dst_len \<Rightarrow>
             if dst_len > INT_MAX then (-1, [])
             else (case EVP_DecodeBase64 dst_len src of
                     None \<Rightarrow> (-1, [])
                   | Some dst \<Rightarrow> (int (length (pad_three dst)), pad_three dst)))"

section \<open>The alphabet\<close>

lemma lt_args_8: "constant_time_lt_args_8 a b = mask_of (a < b)"
proof -
  have u: "unat (ucast x :: crypto_word) = unat x" for x :: byte by (rule unat_ucast_up) simp
  have "2 ^ 63 \<le> unat ((ucast a :: crypto_word) - ucast b) \<longleftrightarrow> a < b"
  proof -
    define x y where "x = unat a" and "y = unat b"
    have "x < 256" "y < 256" by (simp_all only: x_def y_def unat_byte_less)
    then show ?thesis
      unfolding unat_sub_wrap u word_le_nat_alt word_less_nat_alt x_def [symmetric] y_def [symmetric] by auto
  qed
  then show ?thesis
    by (simp add: constant_time_lt_args_8_def msb_w bit_63 ucast_mask)
qed

lemma byte_eq_8: "constant_time_eq_8 (ucast (a :: byte)) (ucast b) = mask_of (a = b)"
proof -
  have "ucast a = (ucast b :: crypto_word) \<longleftrightarrow> a = b"
    by (auto simp: word_unat_eq_iff unat_ucast_up)
  then show ?thesis by (simp add: constant_time_eq_8_def eq_w ucast_mask)
qed

lemma in_range_8:
  assumes "lo \<le> hi" "hi < 255"
  shows "constant_time_in_range_8 a lo hi = mask_of (lo \<le> a \<and> a \<le> hi)"
proof -
  have "unat (hi - lo + 1) = unat hi - unat lo + 1"
  proof -
    have "unat (hi - lo) = unat hi - unat lo" using assms(1) by (rule unat_sub)
    moreover have "unat hi < 255" using assms(2) by (simp add: word_less_nat_alt)
    ultimately show ?thesis by (simp add: unat_word_ariths)
  qed
  moreover have "unat (a - lo) = (if lo \<le> a then unat a - unat lo else unat a + 256 - unat lo)"
    by (simp add: unat_sub_if' word_le_nat_alt)
  moreover define x l h where "x = unat a" and "l = unat lo" and "h = unat hi"
  moreover have "l \<le> h" "h < 255"
    using assms by (simp_all add: l_def h_def word_le_nat_alt word_less_nat_alt)
  ultimately have "a - lo < hi - lo + 1 \<longleftrightarrow> lo \<le> a \<and> a \<le> hi"
    unfolding word_less_nat_alt word_le_nat_alt by (cases "l \<le> x"; cases "x \<le> h") simp_all
  then show ?thesis by (simp add: constant_time_in_range_8_def lt_args_8)
qed

text \<open>The two directions without masks.\<close>

definition alphabet :: "byte \<Rightarrow> byte" where
  "alphabet a = (if a < 26 then a + 65 else if a < 52 then a - 26 + 97
     else if a < 62 then a - 52 + 48 else if a = 62 then 43 else 47)"

lemma conv_bin2ascii_eq: "conv_bin2ascii a = alphabet (a AND 0x3f)"
proof -
  have "constant_time_eq_8 (ucast (a AND 0x3f)) 62 = mask_of (a AND 0x3f = 62)"
    using byte_eq_8 [of "a AND 0x3f" 62] by simp
  then show ?thesis
    by (simp only: conv_bin2ascii_def Let_def alphabet_def lt_args_8 select_8)
qed

lemma base64_ascii_to_bin_eq:
  "base64_ascii_to_bin a =
    (if 65 \<le> a \<and> a \<le> 90 then a - 65 else if 97 \<le> a \<and> a \<le> 122 then a - 97 + 26
     else if 48 \<le> a \<and> a \<le> 57 then a - 48 + 52 else if a = 43 then 62 else if a = 47 then 63
     else if a = 61 then 0 else 0xff)"
proof -
  have eqs: "constant_time_eq_8 (ucast a) 43 = mask_of (a = 43)"
    "constant_time_eq_8 (ucast a) 47 = mask_of (a = 47)"
    "constant_time_eq_8 (ucast a) 61 = mask_of (a = 61)"
    using byte_eq_8 [of a 43] byte_eq_8 [of a 47] byte_eq_8 [of a 61] by simp_all
  have ranges: "constant_time_in_range_8 a 65 90 = mask_of (65 \<le> a \<and> a \<le> 90)"
    "constant_time_in_range_8 a 97 122 = mask_of (97 \<le> a \<and> a \<le> 122)"
    "constant_time_in_range_8 a 48 57 = mask_of (48 \<le> a \<and> a \<le> 57)"
    by (rule in_range_8; simp)+
  have "\<not> (97 \<le> a \<and> a \<le> 122) \<and> \<not> (48 \<le> a \<and> a \<le> 57) \<and> a \<noteq> 43 \<and> a \<noteq> 47 \<and> a \<noteq> 61" if "65 \<le> a \<and> a \<le> 90"
    using that by (auto simp: word_le_nat_alt)
  moreover have "\<not> (48 \<le> a \<and> a \<le> 57) \<and> a \<noteq> 43 \<and> a \<noteq> 47 \<and> a \<noteq> 61" if "97 \<le> a \<and> a \<le> 122"
    using that by (auto simp: word_le_nat_alt)
  moreover have "a \<noteq> 43 \<and> a \<noteq> 47 \<and> a \<noteq> 61" if "48 \<le> a \<and> a \<le> 57"
    using that by (auto simp: word_le_nat_alt)
  ultimately show ?thesis
    unfolding base64_ascii_to_bin_def Let_def eqs ranges by auto
qed

lemma ascii_to_bin_alphabet:
  assumes "a < 64"
  shows "base64_ascii_to_bin (alphabet a) = a" "alphabet a \<noteq> 61"
proof -
  define n where "n = unat a"
  have a: "a = word_of_nat n" "n < 64" using assms by (simp_all add: n_def word_less_nat_alt)
  consider "n < 26" | "26 \<le> n" "n < 52" | "52 \<le> n" "n < 62" | "n = 62" | "n = 63" using a(2) by linarith
  then have "base64_ascii_to_bin (alphabet a) = a \<and> alphabet a \<noteq> 61"
  proof cases
    case 1
    have u: "unat (a + 65) = n + 65" using 1 by (simp add: unat_word_ariths n_def)
    moreover have "alphabet a = a + 65" using 1 by (simp add: alphabet_def word_less_nat_alt n_def)
    moreover from this u have "alphabet a \<noteq> 61" using 1 by (simp only: word_unat_eq_iff) simp
    ultimately show ?thesis
      using 1 by (auto simp: base64_ascii_to_bin_eq word_le_nat_alt)
  next
    case 2
    have "unat (a - 26) = n - 26" using 2 by (simp add: unat_sub word_le_nat_alt n_def)
    then have u: "unat (a - 26 + 97) = n + 71" using 2 by (simp only: unat_word_ariths) simp
    moreover have "alphabet a = a - 26 + 97" using 2 by (simp add: alphabet_def word_less_nat_alt n_def)
    moreover from this u have "alphabet a \<noteq> 61" using 2 by (simp only: word_unat_eq_iff) simp
    ultimately show ?thesis
      using 2 by (simp add: base64_ascii_to_bin_eq word_le_nat_alt)
  next
    case 3
    have "unat (a - 52) = n - 52" using 3 by (simp add: unat_sub word_le_nat_alt n_def)
    then have u: "unat (a - 52 + 48) = n - 4" using 3 by (simp only: unat_word_ariths) simp
    moreover have "48 \<le> n - 4" "n - 4 \<le> 57" using 3 by simp_all
    moreover have "alphabet a = a - 52 + 48" using 3 by (simp add: alphabet_def word_less_nat_alt n_def)
    moreover from this u have "alphabet a \<noteq> 61" using 3 by (simp only: word_unat_eq_iff) simp
    ultimately show ?thesis
      using 3 by (simp add: base64_ascii_to_bin_eq word_le_nat_alt)
  next
    case 4
    then have "a = 62" using a by simp
    then show ?thesis by (simp add: base64_ascii_to_bin_eq alphabet_def)
  next
    case 5
    then have "a = 63" using a by simp
    then show ?thesis by (simp add: base64_ascii_to_bin_eq alphabet_def)
  qed
  then show "base64_ascii_to_bin (alphabet a) = a" "alphabet a \<noteq> 61" by simp_all
qed

lemma and_3f: "(a :: byte) AND 0x3f = take_bit 6 a"
  by (simp add: take_bit_eq_mask mask_eq_exp_minus_1)

lemma decode_encode_char:
  "base64_ascii_to_bin (conv_bin2ascii a) = take_bit 6 a" "conv_bin2ascii a \<noteq> 61"
proof -
  have "unat (take_bit 6 a) < 2 ^ 6"
    unfolding unsigned_take_bit_eq by (rule take_bit_nat_less_exp)
  then have "take_bit 6 a < 64" by (simp add: word_less_nat_alt)
  then show "base64_ascii_to_bin (conv_bin2ascii a) = take_bit 6 a" "conv_bin2ascii a \<noteq> 61"
    unfolding conv_bin2ascii_eq and_3f by (rule ascii_to_bin_alphabet)+
qed

lemma take_bit_6_not_ff: "take_bit 6 (a :: byte) \<noteq> 0xff"
proof
  assume "take_bit 6 a = 0xff"
  then have "bit (take_bit 6 a) 7 \<longleftrightarrow> bit (0xff :: byte) 7" by simp
  then show False by (simp add: bit_simps)
qed

section \<open>Quads and blocks\<close>

text \<open>The 24 bits of a triple, cut into four digits and put together again.\<close>

lemma digits_join:
  "push_bit 18 (ucast (take_bit 6 (ucast (drop_bit 18 l) :: byte)) :: u32)
     OR push_bit 12 (ucast (take_bit 6 (ucast (drop_bit 12 l) :: byte)))
     OR push_bit 6 (ucast (take_bit 6 (ucast (drop_bit 6 l) :: byte)))
     OR ucast (take_bit 6 (ucast l :: byte)) = take_bit 24 (l :: u32)"
proof (rule bit_word_eqI)
  fix n
  assume "n < LENGTH(32)"
  consider "n < 6" | "6 \<le> n" "n < 12" | "12 \<le> n" "n < 18" | "18 \<le> n" "n < 24" | "24 \<le> n" by linarith
  then show "bit (push_bit 18 (ucast (take_bit 6 (ucast (drop_bit 18 l) :: byte)) :: u32)
     OR push_bit 12 (ucast (take_bit 6 (ucast (drop_bit 12 l) :: byte)))
     OR push_bit 6 (ucast (take_bit 6 (ucast (drop_bit 6 l) :: byte)))
     OR ucast (take_bit 6 (ucast l :: byte))) n \<longleftrightarrow> bit (take_bit 24 l) n"
    by cases (auto simp: bit_simps)
qed

lemma triple_bytes:
  fixes s0 s1 s2 :: byte
  defines "l \<equiv> push_bit 16 (ucast s0 :: u32) OR push_bit 8 (ucast s1) OR ucast s2"
  shows "ucast (drop_bit 16 (take_bit 24 l)) = s0" "ucast (drop_bit 8 (take_bit 24 l)) = s1"
    "ucast (take_bit 24 l) = s2"
  unfolding l_def by (rule bit_word_eqI; auto simp: bit_simps dest: bit_imp_le_length)+

text \<open>The decoder on the encoder's four characters, in the three forms.\<close>

abbreviation digit :: "u32 \<Rightarrow> nat \<Rightarrow> byte" where
  "digit l k \<equiv> conv_bin2ascii (ucast (drop_bit k l))"

lemma decode_quad_full:
  "base64_decode_quad (digit l 18) (digit l 12) (digit l 6) (conv_bin2ascii (ucast l))
    = Some [ucast (drop_bit 16 (take_bit 24 l)), ucast (drop_bit 8 (take_bit 24 l)), ucast (take_bit 24 l)]"
  using digits_join [of l]
  by (simp add: base64_decode_quad_def decode_encode_char take_bit_6_not_ff Let_def)

lemma equals_to_bin: "base64_ascii_to_bin 61 = 0"
  by (simp add: base64_ascii_to_bin_eq)

lemma decode_quad_two:
  assumes "take_bit 6 (ucast l :: byte) = 0"
  shows "base64_decode_quad (digit l 18) (digit l 12) (digit l 6) 61
    = Some [ucast (drop_bit 16 (take_bit 24 l)), ucast (drop_bit 8 (take_bit 24 l))]"
  using digits_join [of l] assms
  by (simp add: base64_decode_quad_def decode_encode_char take_bit_6_not_ff equals_to_bin Let_def)

lemma decode_quad_one:
  assumes "take_bit 6 (ucast l :: byte) = 0" "take_bit 6 (ucast (drop_bit 6 l) :: byte) = 0"
  shows "base64_decode_quad (digit l 18) (digit l 12) 61 61 = Some [ucast (drop_bit 16 (take_bit 24 l))]"
  using digits_join [of l] assms
  by (simp add: base64_decode_quad_def decode_encode_char take_bit_6_not_ff equals_to_bin Let_def)

lemma short_triple:
  "take_bit 6 (ucast (push_bit 16 (ucast s0 :: u32) OR push_bit 8 (ucast (s1 :: byte))) :: byte) = 0"
  "take_bit 6 (ucast (push_bit 16 (ucast (s0 :: byte) :: u32)) :: byte) = 0"
  "take_bit 6 (ucast (drop_bit 6 (push_bit 16 (ucast (s0 :: byte) :: u32))) :: byte) = 0"
  by (rule bit_word_eqI; auto simp: bit_simps)+

text \<open>The text of a block: the bytes before the NUL.\<close>

definition encoded :: "byte list \<Rightarrow> byte list" where
  "encoded src = butlast (fst (EVP_EncodeBlock src))"

lemma EncodeBlock_nonempty: "fst (EVP_EncodeBlock src) \<noteq> []"
  by (induction src rule: EVP_EncodeBlock.induct) (auto simp: Let_def split: prod.splits)

lemma EncodeBlock_eq: "EVP_EncodeBlock src = (encoded src @ [0], length (encoded src))"
proof (induction src rule: EVP_EncodeBlock.induct)
  case (4 s0 s1 s2 src)
  then show ?case using EncodeBlock_nonempty [of src]
    by (auto simp: encoded_def Let_def split: prod.splits)
qed (simp_all add: encoded_def Let_def)

lemma encoded_simps [simp]: "encoded [] = []" by (simp add: encoded_def)

lemma encoded_three:
  "encoded (s0 # s1 # s2 # src) =
    (let l = push_bit 16 (ucast s0 :: u32) OR push_bit 8 (ucast s1) OR ucast s2 in
      [digit l 18, digit l 12, digit l 6, conv_bin2ascii (ucast l)] @ encoded src)"
  using EncodeBlock_nonempty [of src]
  by (auto simp: encoded_def [of "s0 # s1 # s2 # src"] EncodeBlock_eq [of src] Let_def)

lemma length_encoded: "length (encoded src) = 4 * ((length src + 2) div 3)"
proof (induction src rule: EVP_EncodeBlock.induct)
  case (4 s0 s1 s2 src)
  have "(5 + length src) div 3 = (length src + 2) div 3 + 1" by linarith
  with 4 show ?case by (simp add: encoded_three Let_def)
qed (simp_all add: encoded_def Let_def)

lemma encoded_append:
  "length xs mod 3 = 0 \<Longrightarrow> encoded (xs @ ys) = encoded xs @ encoded ys"
proof (induction xs rule: EVP_EncodeBlock.induct)
  case (4 s0 s1 s2 src)
  then have "length src mod 3 = 0" by (simp add: mod_Suc split: if_splits)
  with 4 show ?case by (simp add: encoded_three Let_def)
qed simp_all

lemma decode_encoded: "decode_base64_loop (encoded src) = Some src"
proof (induction src rule: EVP_EncodeBlock.induct)
  case (2 s0)
  show ?case
    using decode_quad_one [OF short_triple(2,3), of s0] triple_bytes [of s0 0 0]
    by (simp add: encoded_def Let_def)
next
  case (3 s0 s1)
  show ?case
    using decode_quad_two [OF short_triple(1), of s0 s1] triple_bytes [of s0 s1 0]
    by (simp add: encoded_def Let_def)
next
  case (4 s0 s1 s2 src)
  show ?case
    using decode_quad_full [of "push_bit 16 (ucast s0) OR push_bit 8 (ucast s1) OR ucast s2"]
      triple_bytes [of s0 s1 s2] 4
    by (simp add: encoded_three Let_def)
qed simp

text \<open>No character of the text is white space or NUL.\<close>

definition is_space :: "byte \<Rightarrow> bool" where
  "is_space c = (c = 32 \<or> c = 9 \<or> c = 13 \<or> c = 10)"

lemma not_space: "base64_ascii_to_bin c \<noteq> 0xff \<Longrightarrow> \<not> is_space c"
  by (auto simp: is_space_def base64_ascii_to_bin_eq)

lemma encoded_no_space: "list_all (\<lambda>c. \<not> is_space c) (encoded src)"
proof (induction src rule: EVP_EncodeBlock.induct)
  have c: "\<not> is_space (conv_bin2ascii a)" for a
    using not_space decode_encode_char take_bit_6_not_ff by metis
  have e: "\<not> is_space 61" by (simp add: is_space_def)
  case (2 s0) show ?case by (simp add: encoded_def Let_def c e)
  case (3 s0 s1) show ?case by (simp add: encoded_def Let_def c e)
  case (4 s0 s1 s2 src) then show ?case by (simp add: encoded_three Let_def c e)
qed simp

section \<open>Streaming\<close>

text \<open>The lines of the complete blocks of 48 bytes, and the bytes behind them.\<close>

function full_lines :: "byte list \<Rightarrow> byte list" where
  "full_lines bs = (if length bs \<ge> 48 then encoded (take 48 bs) @ 10 # full_lines (drop 48 bs) else [])"
  by pat_completeness auto
termination
  by (relation "measure length") auto

function rest48 :: "byte list \<Rightarrow> byte list" where
  "rest48 bs = (if length bs \<ge> 48 then rest48 (drop 48 bs) else bs)"
  by pat_completeness auto
termination
  by (relation "measure length") auto

declare full_lines.simps [simp del] rest48.simps [simp del]

lemma short_lines [simp]: "length bs < 48 \<Longrightarrow> full_lines bs = []" "length bs < 48 \<Longrightarrow> rest48 bs = bs"
  by (simp_all add: full_lines.simps [of bs] rest48.simps [of bs])

lemma block_lines:
  assumes "length b = 48"
  shows "full_lines (b @ bs) = encoded b @ 10 # full_lines bs" "rest48 (b @ bs) = rest48 bs"
  using assms by (simp_all add: full_lines.simps [of "b @ bs"] rest48.simps [of "b @ bs"])

lemma length_rest48: "length (rest48 bs) < 48"
proof (induction bs rule: rest48.induct)
  case (1 bs)
  then show ?case by (cases "48 \<le> length bs") (simp_all add: rest48.simps [of bs])
qed

lemma lines_append:
  "full_lines (xs @ ys) = full_lines xs @ full_lines (rest48 xs @ ys)
   \<and> rest48 (xs @ ys) = rest48 (rest48 xs @ ys)"
proof (induction xs rule: rest48.induct)
  case (1 xs)
  show ?case
  proof (cases "48 \<le> length xs")
    case True
    define b where "b = take 48 xs"
    define r where "r = drop 48 xs"
    have xs: "xs = b @ r" "length b = 48" using True by (simp_all add: b_def r_def)
    show ?thesis
      using 1 [OF True, folded r_def] block_lines [OF xs(2), of r] block_lines [OF xs(2), of "r @ ys"]
      by (simp add: xs(1))
  qed simp
qed

lemma length_full_lines: "length (full_lines bs) \<le> 2 * length bs"
proof (induction bs rule: full_lines.induct)
  case (1 bs)
  then show ?case by (cases "48 \<le> length bs") (auto simp: full_lines.simps [of bs] length_encoded)
qed

lemma encode_lines_eq:
  assumes "written \<le> length out" "written + 2 * length src < size_mod"
  shows "\<exists>out'. encode_lines out written src = (out', Some (written + length (full_lines src)), rest48 src)
    \<and> take (written + length (full_lines src)) out' = take written out @ full_lines src
    \<and> written + length (full_lines src) \<le> length out'"
  using assms
proof (induction out written src rule: encode_lines.induct)
  case (1 out written src)
  show ?case
  proof (cases "48 \<le> length src")
    case True
    define b where "b = take 48 src"
    define r where "r = drop 48 src"
    have src: "src = b @ r" "length b = 48" using True by (simp_all add: b_def r_def)
    have len: "length (encoded b) = 64" using src(2) by (simp add: length_encoded)
    define out1 where "out1 = put_line out written (EVP_EncodeBlock b)"
    have out1: "out1 = take written out @ encoded b @ [10, 0]"
      by (simp add: out1_def put_line_def EncodeBlock_eq)
    have w: "(written + snd (EVP_EncodeBlock b) + 1) mod size_mod = written + 65"
      using "1.prems"(2) src by (simp add: EncodeBlock_eq len)
    have "encode_lines out written src = encode_lines out1 (written + 65) r"
      using True w by (subst encode_lines.simps) (simp add: Let_def out1_def b_def r_def)
    moreover obtain out' where
      "encode_lines out1 (written + 65) r = (out', Some (written + 65 + length (full_lines r)), rest48 r)"
      "take (written + 65 + length (full_lines r)) out' = take (written + 65) out1 @ full_lines r"
      "written + 65 + length (full_lines r) \<le> length out'"
      using "1.IH" [OF True refl, of out1] w "1.prems" src len
      by (auto simp: out1_def [symmetric] b_def [symmetric] r_def [symmetric] out1)
    moreover have "take (written + 65) out1 = take written out @ encoded b @ [10]"
      using "1.prems"(1) len by (simp add: out1)
    ultimately show ?thesis
      unfolding src(1) block_lines [OF src(2)] by (auto simp: len ac_simps)
  next
    case False
    with "1.prems" show ?thesis by (subst encode_lines.simps) simp
  qed
qed

text \<open>The bytes an encoder's context holds back.\<close>

definition pending :: "EVP_ENCODE_CTX \<Rightarrow> byte list" where
  "pending ctx = take (data_used ctx) (ctx_data ctx)"

definition encoder_ok :: "EVP_ENCODE_CTX \<Rightarrow> bool" where
  "encoder_ok ctx = (length (ctx_data ctx) = 48 \<and> data_used ctx < 48)"

lemma mem_write_pending:
  assumes "i + length bs \<le> length buf"
  shows "take (i + length bs) (mem_write buf i bs) = take i buf @ bs" "length (mem_write buf i bs) = length buf"
  using assms by (simp_all add: mem_write_def)

text \<open>What the update does once the context holds nothing back: \<open>w\<close> bytes are in \<open>out\<close>.\<close>

definition update_rest ::
  "byte list \<Rightarrow> nat \<Rightarrow> byte list \<Rightarrow> EVP_ENCODE_CTX \<Rightarrow> byte list \<times> nat \<times> EVP_ENCODE_CTX" where
  "update_rest out w src ctx =
     (case encode_lines out w src of
        (out, None, _) \<Rightarrow> (out, 0, ctx)
      | (out, Some written, src) \<Rightarrow>
         (let ctx = (if length src \<noteq> 0 then ctx\<lparr>ctx_data := mem_write (ctx_data ctx) 0 src\<rparr> else ctx)
          in (out, if written > INT_MAX then 0 else written, ctx\<lparr>data_used := length src\<rparr>)))"

lemma update_rest_eq:
  assumes "w \<le> length out" "w \<le> 65" "2 * length src \<le> 2 ^ 30" "length (ctx_data ctx) = 48"
    and run: "update_rest out w src ctx = (out', n, ctx')"
  shows "encoder_ok ctx' \<and> take n out' = take w out @ full_lines src \<and> pending ctx' = rest48 src"
proof -
  have "w + 2 * length src < size_mod" using assms(2,3) by simp
  from encode_lines_eq [OF assms(1) this] obtain out1 where
    e: "encode_lines out w src = (out1, Some (w + length (full_lines src)), rest48 src)"
      "take (w + length (full_lines src)) out1 = take w out @ full_lines src" by blast
  have "w + length (full_lines src) \<le> INT_MAX"
    using length_full_lines [of src] assms(2,3) by simp
  with e run have n: "out' = out1" "n = w + length (full_lines src)"
    "ctx' = (if length (rest48 src) \<noteq> 0 then ctx\<lparr>ctx_data := mem_write (ctx_data ctx) 0 (rest48 src)\<rparr> else ctx)
      \<lparr>data_used := length (rest48 src)\<rparr>"
    by (simp_all add: update_rest_def Let_def)
  have "length (rest48 src) < 48" by (rule length_rest48)
  then show ?thesis
    using e(2) n assms(4) mem_write_pending [of 0 "rest48 src" "ctx_data ctx"]
    by (auto simp: encoder_ok_def pending_def)
qed

lemma EncodeUpdate_eq:
  assumes ok: "encoder_ok ctx" and small: "2 * length src \<le> 2 ^ 30"
    and run: "EVP_EncodeUpdate ctx src = (out, n, ctx')"
  shows "encoder_ok ctx' \<and> take n out = full_lines (pending ctx @ src)
    \<and> pending ctx' = rest48 (pending ctx @ src)"
proof -
  have len: "length (pending ctx) = data_used ctx" "data_used ctx < 48" "length (ctx_data ctx) = 48"
    using ok by (auto simp: encoder_ok_def pending_def)
  consider "src = []" | "src \<noteq> []" "48 - data_used ctx > length src"
    | (full) "src \<noteq> []" "48 - data_used ctx \<le> length src" "data_used ctx \<noteq> 0"
    | (empty) "src \<noteq> []" "48 - data_used ctx \<le> length src" "data_used ctx = 0" by linarith
  then show ?thesis
  proof cases
    case 1
    with run ok len show ?thesis by (auto simp: EVP_EncodeUpdate_def)
  next
    case 2
    then have "data_used ctx + length src < 48" by linarith
    with 2 run len mem_write_pending [of "data_used ctx" src "ctx_data ctx"] show ?thesis
      by (auto simp: EVP_EncodeUpdate_def encoder_ok_def pending_def)
  next
    case full
    define todo where "todo = 48 - data_used ctx"
    define b where "b = pending ctx @ take todo src"
    have b: "length b = 48" using full len by (simp add: b_def todo_def)
    have data: "mem_write (ctx_data ctx) (data_used ctx) (take todo src) = b"
      using mem_write_pending [of "data_used ctx" "take todo src" "ctx_data ctx"] full len
      by (simp add: b_def todo_def pending_def)
    have len_b: "length (encoded b) = 64" using b by (simp add: length_encoded)
    let ?ctx = "ctx\<lparr>ctx_data := b, data_used := 0\<rparr>"
    have "update_rest (encoded b @ [10, 0]) 65 (drop todo src) ?ctx = (out, n, ctx')"
      using run full unfolding EVP_EncodeUpdate_def
      by (simp add: Let_def todo_def [symmetric] data put_line_def EncodeBlock_eq len_b update_rest_def)
    from update_rest_eq [OF _ _ _ _ this] b small len_b
    have "encoder_ok ctx' \<and> take n out = encoded b @ [10] @ full_lines (drop todo src)
        \<and> pending ctx' = rest48 (drop todo src)"
      by simp
    moreover have "pending ctx @ src = b @ drop todo src" by (simp add: b_def)
    ultimately show ?thesis using block_lines [OF b] by simp
  next
    case empty
    then have "update_rest [] 0 src ctx = (out, n, ctx')"
      using run unfolding EVP_EncodeUpdate_def by (simp add: update_rest_def)
    from update_rest_eq [OF _ _ small _ this] len empty show ?thesis
      by (simp add: pending_def)
  qed
qed

text \<open>A whole run: the updates, then the final call; the text is what each call reports.\<close>

fun encode_run :: "EVP_ENCODE_CTX \<Rightarrow> byte list list \<Rightarrow> byte list" where
  "encode_run ctx [] = (case EVP_EncodeFinal ctx of (out, n, _) \<Rightarrow> take n out)"
| "encode_run ctx (src # srcs) =
     (case EVP_EncodeUpdate ctx src of (out, n, ctx) \<Rightarrow> take n out @ encode_run ctx srcs)"

definition pem_text :: "byte list \<Rightarrow> byte list" where
  "pem_text bs = full_lines bs @ (if rest48 bs = [] then [] else encoded (rest48 bs) @ [10])"

lemma pem_text_append: "pem_text (xs @ ys) = full_lines xs @ pem_text (rest48 xs @ ys)"
  using lines_append [of xs ys] by (simp add: pem_text_def)

lemma encode_run_eq:
  assumes "encoder_ok ctx" "list_all (\<lambda>src. length src \<le> 2 ^ 29) srcs"
  shows "encode_run ctx srcs = pem_text (pending ctx @ concat srcs)"
  using assms
proof (induction srcs arbitrary: ctx)
  case Nil
  then have "length (pending ctx) < 48" "length (pending ctx) = data_used ctx"
    by (auto simp: encoder_ok_def pending_def)
  then show ?case
    by (auto simp: EVP_EncodeFinal_def Let_def put_line_def EncodeBlock_eq pem_text_def simp flip: pending_def)
next
  case (Cons src srcs)
  obtain out n ctx' where run: "EVP_EncodeUpdate ctx src = (out, n, ctx')" by (rule prod_cases3)
  have "2 * length src \<le> 2 ^ 30" using Cons.prems by simp
  from EncodeUpdate_eq [OF Cons.prems(1) this run] Cons.IH [of ctx'] Cons.prems run show ?case
    using pem_text_append [of "pending ctx @ src" "concat srcs"] by simp
qed

section \<open>Decoding the text\<close>

lemma pem_text_filter: "filter (\<lambda>c. \<not> is_space c) (pem_text bs) = encoded bs"
proof -
  have enc: "filter (\<lambda>c. \<not> is_space c) (encoded x) = encoded x" for x
    using encoded_no_space [of x] by (simp add: list_all_iff)
  have nl: "is_space 10" by (simp add: is_space_def)
  have "filter (\<lambda>c. \<not> is_space c) (full_lines bs) @ encoded (rest48 bs) = encoded bs"
  proof (induction bs rule: rest48.induct)
    case (1 bs)
    show ?case
    proof (cases "48 \<le> length bs")
      case True
      define b where "b = take 48 bs"
      define r where "r = drop 48 bs"
      have bs: "bs = b @ r" "length b = 48" using True by (simp_all add: b_def r_def)
      show ?thesis
        using 1 [OF True, folded r_def] bs(2) encoded_append [of b r]
        unfolding bs(1) block_lines [OF bs(2)] by (simp add: enc nl)
    qed simp
  qed
  then show ?thesis by (auto simp: pem_text_def enc nl)
qed

lemma decode_loop_append:
  "decode_update_loop ctx out (xs @ ys) =
    (case decode_update_loop ctx out xs of (None, ctx) \<Rightarrow> (None, ctx)
     | (Some out, ctx) \<Rightarrow> decode_update_loop ctx out ys)"
  by (induction ctx out xs rule: decode_update_loop.induct) (auto simp: Let_def split: option.splits)

lemma decode_loop_filter:
  "decode_update_loop ctx out (filter (\<lambda>c. \<not> is_space c) src) = decode_update_loop ctx out src"
  by (induction ctx out src rule: decode_update_loop.induct)
    (auto simp: is_space_def Let_def split: option.splits)

lemma decode_loop_quad:
  assumes "data_used ctx = 0" "length (ctx_data ctx) = 48" "\<not> eof_seen ctx"
    and "\<not> is_space a" "\<not> is_space b" "\<not> is_space c" "\<not> is_space d"
    and "base64_decode_quad a b c d = Some bytes"
  shows "\<exists>data. length data = 48 \<and> decode_update_loop ctx out (a # b # c # d # src)
    = decode_update_loop (ctx\<lparr>ctx_data := data, data_used := 0, eof_seen := length bytes < 3\<rparr>) (out @ bytes) src"
proof -
  define data where "data = (ctx_data ctx)[0 := a, 1 := b, 2 := c, 3 := d]"
  have data: "length data = 48" "data ! 0 = a" "data ! 1 = b" "data ! 2 = c" "data ! 3 = d"
    using assms(2) by (simp_all add: data_def)
  have "decode_update_loop ctx out (a # b # c # d # src)
    = decode_update_loop (ctx\<lparr>ctx_data := data, data_used := 0, eof_seen := length bytes < 3\<rparr>) (out @ bytes) src"
    using assms data by (cases ctx) (simp add: is_space_def Let_def numeral_2_eq_2 numeral_3_eq_3 data_def)
  with data show ?thesis by blast
qed

text \<open>Four characters at a time the loop does what the block decoder does.\<close>

lemma decode_loop_encoded:
  assumes "data_used ctx = 0" "length (ctx_data ctx) = 48" "\<not> eof_seen ctx" "\<not> error_encountered ctx"
  shows "\<exists>ctx'. decode_update_loop ctx out (encoded src) = (Some (out @ src), ctx')
    \<and> data_used ctx' = 0 \<and> \<not> error_encountered ctx'"
  using assms
proof (induction src arbitrary: ctx out rule: EVP_EncodeBlock.induct)
  case (1 ctx)
  then show ?case by simp
next
  case (2 s0 ctx)
  let ?l = "push_bit 16 (ucast s0 :: u32)"
  have q: "base64_decode_quad (digit ?l 18) (digit ?l 12) 61 61 = Some [s0]"
    using decode_quad_one [OF short_triple(2,3), of s0] triple_bytes [of s0 0 0] by simp
  have e: "encoded [s0] = [digit ?l 18, digit ?l 12, 61, 61]" by (simp add: encoded_def Let_def)
  have sp: "list_all (\<lambda>c. \<not> is_space c) (encoded [s0])" by (rule encoded_no_space)
  from decode_loop_quad [OF 2(1-3) _ _ _ _ q, of out "[]"] sp 2(4) show ?case unfolding e by (auto simp del: decode_update_loop.simps(2))
next
  case (3 s0 s1 ctx)
  let ?l = "push_bit 16 (ucast s0 :: u32) OR push_bit 8 (ucast s1)"
  have q: "base64_decode_quad (digit ?l 18) (digit ?l 12) (digit ?l 6) 61 = Some [s0, s1]"
    using decode_quad_two [OF short_triple(1), of s0 s1] triple_bytes [of s0 s1 0] by simp
  have e: "encoded [s0, s1] = [digit ?l 18, digit ?l 12, digit ?l 6, 61]" by (simp add: encoded_def Let_def)
  have sp: "list_all (\<lambda>c. \<not> is_space c) (encoded [s0, s1])" by (rule encoded_no_space)
  from decode_loop_quad [OF 3(1-3) _ _ _ _ q, of out "[]"] sp 3(4) show ?case unfolding e by (auto simp del: decode_update_loop.simps(2))
next
  case (4 s0 s1 s2 src ctx)
  let ?l = "push_bit 16 (ucast s0 :: u32) OR push_bit 8 (ucast s1) OR ucast s2"
  have q: "base64_decode_quad (digit ?l 18) (digit ?l 12) (digit ?l 6) (conv_bin2ascii (ucast ?l)) = Some [s0, s1, s2]"
    using decode_quad_full [of ?l] triple_bytes [of s0 s1 s2] by simp
  have e: "encoded (s0 # s1 # s2 # src)
      = digit ?l 18 # digit ?l 12 # digit ?l 6 # conv_bin2ascii (ucast ?l) # encoded src"
    by (simp add: encoded_three Let_def)
  have sp: "list_all (\<lambda>c. \<not> is_space c) (encoded (s0 # s1 # s2 # src))" by (rule encoded_no_space)
  from decode_loop_quad [OF 4(2-4) _ _ _ _ q, of out "encoded src"] sp obtain data where
    "length data = 48" "decode_update_loop ctx out (encoded (s0 # s1 # s2 # src))
      = decode_update_loop (ctx\<lparr>ctx_data := data, data_used := 0, eof_seen := False\<rparr>) (out @ [s0, s1, s2]) (encoded src)"
    unfolding e by (auto simp del: decode_update_loop.simps(2))
  with 4(1) [OF refl, of "ctx\<lparr>ctx_data := data, data_used := 0, eof_seen := False\<rparr>" "out @ [s0, s1, s2]"] 4(5)
  show ?case by (simp del: decode_update_loop.simps(2))
qed

text \<open>A whole run of the decoder: \<open>None\<close> when a call returns \<open>-1\<close>.\<close>

fun decode_run :: "EVP_ENCODE_CTX \<Rightarrow> byte list list \<Rightarrow> byte list option" where
  "decode_run ctx [] = (if EVP_DecodeFinal ctx = -1 then None else Some [])"
| "decode_run ctx (src # srcs) =
     (case EVP_DecodeUpdate ctx src of (ret, out, ctx) \<Rightarrow>
        if ret = -1 then None else map_option (\<lambda>x. out @ x) (decode_run ctx srcs))"

lemma decode_loop_out:
  "decode_update_loop ctx out src = (case decode_update_loop ctx [] src of
     (None, ctx) \<Rightarrow> (None, ctx) | (Some x, ctx) \<Rightarrow> (Some (out @ x), ctx))"
proof -
  have "decode_update_loop ctx (out @ x) src = (case decode_update_loop ctx x src of
     (None, ctx) \<Rightarrow> (None, ctx) | (Some x, ctx) \<Rightarrow> (Some (out @ x), ctx))" for x
    by (induction ctx x src rule: decode_update_loop.induct)
      (auto simp: Let_def split: option.splits)
  from this [of "[]"] show ?thesis by simp
qed

lemma decode_run_eq:
  assumes "\<not> error_encountered ctx" "decode_update_loop ctx [] (concat srcs) = (Some x, ctx')"
    and "data_used ctx' = 0" "\<not> error_encountered ctx'" "length x \<le> INT_MAX"
  shows "decode_run ctx srcs = Some x"
  using assms
proof (induction srcs arbitrary: ctx x)
  case Nil
  then show ?case by (auto simp: EVP_DecodeFinal_def)
next
  case (Cons src srcs)
  obtain res ctx1 where 1: "decode_update_loop ctx [] src = (res, ctx1)" by (rule prod.exhaust)
  with Cons.prems(2) obtain out where out: "res = Some out"
    by (auto simp: decode_loop_append split: option.splits)
  from Cons.prems(2) obtain y where y: "decode_update_loop ctx1 [] (concat srcs) = (Some y, ctx')" "x = out @ y"
    using decode_loop_out [of ctx1 out "concat srcs"]
    by (auto simp: decode_loop_append 1 out split: prod.splits option.splits)
  have keep: "decode_update_loop ctx x src = (Some z, c) \<Longrightarrow> error_encountered c = error_encountered ctx"
    for ctx x src z c
    by (induction ctx x src rule: decode_update_loop.induct) (auto simp: Let_def split: if_splits option.splits)
  have "\<not> error_encountered ctx1" using keep [of ctx "[]" src out ctx1] 1 out Cons.prems(1) by simp
  from Cons.IH [OF this y(1) Cons.prems(3,4)] Cons.prems(1,5) y(2) 1 out show ?case
    by (auto simp: EVP_DecodeUpdate_def)
qed

section \<open>Properties\<close>

lemma encoder_init: "encoder_ok EVP_EncodeInit" "pending EVP_EncodeInit = []"
  by (simp_all add: encoder_ok_def pending_def EVP_EncodeInit_def)

text \<open>The streaming encoder is independent of how its input is cut: from a fresh context, the
  texts that the updates and the final call report are, together, the base64 of the whole input in
  lines of 48 bytes.\<close>

theorem base64_stream_encode:
  assumes "list_all (\<lambda>src. length src \<le> 2 ^ 29) srcs"
  shows "encode_run EVP_EncodeInit srcs = pem_text (concat srcs)"
  using encode_run_eq [OF encoder_init(1) assms] by (simp add: encoder_init)

theorem base64_stream_encode_witness:
  "encode_run EVP_EncodeInit [[104], [101, 108], [108, 111]] = pem_text [104, 101, 108, 108, 111]"
  using base64_stream_encode [of "[[104], [101, 108], [108, 111]]"] by simp

text \<open>C17. What the streaming encoder wrote, cut anywhere and fed to the streaming decoder in pieces,
  gives the input back; line ends and other white space between the pieces change nothing.\<close>

theorem base64_stream_round_trip:
  assumes "list_all (\<lambda>src. length src \<le> 2 ^ 29) srcs" "length (concat srcs) \<le> INT_MAX"
    and "filter (\<lambda>c. \<not> is_space c) (concat pieces)
      = filter (\<lambda>c. \<not> is_space c) (encode_run EVP_EncodeInit srcs)"
  shows "decode_run EVP_DecodeInit pieces = Some (concat srcs)"
proof -
  have "encode_run EVP_EncodeInit srcs = pem_text (concat srcs)"
    using encode_run_eq [OF encoder_init(1) assms(1)] by (simp add: encoder_init)
  then have f: "filter (\<lambda>c. \<not> is_space c) (concat pieces) = encoded (concat srcs)"
    using assms(3) by (simp add: pem_text_filter)
  have init: "data_used EVP_DecodeInit = 0" "length (ctx_data EVP_DecodeInit) = 48"
    "\<not> eof_seen EVP_DecodeInit" "\<not> error_encountered EVP_DecodeInit"
    by (simp_all add: EVP_DecodeInit_def)
  from decode_loop_encoded [OF init, of "[]" "concat srcs"] obtain ctx' where
    "decode_update_loop EVP_DecodeInit [] (concat pieces) = (Some (concat srcs), ctx')"
    "data_used ctx' = 0" "\<not> error_encountered ctx'"
    using decode_loop_filter [of EVP_DecodeInit "[]" "concat pieces"] by (auto simp: f)
  with init(4) show ?thesis using assms(2) by (intro decode_run_eq)
qed

theorem base64_stream_round_trip_witness:
  "decode_run EVP_DecodeInit [[97, 71], [86, 32, 115, 98, 71, 56], [61, 10]] = Some (concat [[104], [101, 108, 108, 111]])"
proof (rule base64_stream_round_trip)
  have "filter (\<lambda>c. \<not> is_space c) (encode_run EVP_EncodeInit [[104], [101, 108, 108, 111]])
      = encoded [104, 101, 108, 108, 111]"
    using encode_run_eq [OF encoder_init(1), of "[[104], [101, 108, 108, 111]]"]
    by (simp add: encoder_init pem_text_filter)
  also have "\<dots> = [97, 71, 86, 115, 98, 71, 56, 61]"
    by (simp add: encoded_three encoded_def Let_def conv_bin2ascii_eq alphabet_def)
  finally show "filter (\<lambda>c. \<not> is_space c) (concat [[97, 71], [86, 32, 115, 98, 71, 56], [61, 10]])
      = filter (\<lambda>c. \<not> is_space c) (encode_run EVP_EncodeInit [[104], [101, 108, 108, 111]])"
    by (simp add: is_space_def)
qed simp_all

text \<open>A block decodes to what was encoded, its text has the announced length, and the length
  functions are upper bounds for the buffers: \<open>EVP_EncodedLength\<close> counts the text with its NUL,
  \<open>EVP_DecodedLength\<close> covers the bytes of the block.\<close>

theorem base64_block_round_trip:
  assumes "length src < 2 ^ 61" "length (encoded src) div 4 * 3 \<le> max_out"
  shows "EVP_EncodeBlock src = (encoded src @ [0], length (encoded src))
    \<and> EVP_DecodeBase64 max_out (encoded src) = Some src
    \<and> EVP_EncodedLength (length src) = Some (length (fst (EVP_EncodeBlock src)))
    \<and> (case EVP_DecodedLength (length (encoded src)) of None \<Rightarrow> False | Some n \<Rightarrow> length src \<le> n)"
proof (intro conjI)
  show "EVP_EncodeBlock src = (encoded src @ [0], length (encoded src))" by (rule EncodeBlock_eq)
  show "EVP_DecodeBase64 max_out (encoded src) = Some src"
    using assms(2) decode_encoded [of src]
    by (simp add: EVP_DecodeBase64_def EVP_DecodedLength_def length_encoded)
  have "(length src + 2) div 3 * 4 < size_mod" using assms(1) by simp
  then show "EVP_EncodedLength (length src) = Some (length (fst (EVP_EncodeBlock src)))"
    using assms(1) by (simp add: EVP_EncodedLength_def EncodeBlock_eq length_encoded Let_def mult.commute)
  show "case EVP_DecodedLength (length (encoded src)) of None \<Rightarrow> False | Some n \<Rightarrow> length src \<le> n"
    by (simp add: EVP_DecodedLength_def length_encoded)
qed

theorem base64_block_round_trip_witness:
  "EVP_DecodeBase64 3 (encoded [1, 2]) = Some [1, 2]"
  using base64_block_round_trip [of "[1, 2]" 3] by (simp add: length_encoded)

end
