(* ===== verification/Uv_Errno.thy ===== *)
theory Uv_Errno
  imports Main
begin

text \<open>
  The error codes of libuv (\<^verbatim>\<open>libuv/include/uv/errno.h\<close>): \<open>UV__ERR\<close> negates the number that the system headers
  of the targets (Darwin) give to the error.
\<close>

definition UV_E2BIG :: int where "UV_E2BIG = - 7"

definition UV_EINVAL :: int where "UV_EINVAL = - 22"

definition UV_ENOSPC :: int where "UV_ENOSPC = - 28"

definition UV_EAFNOSUPPORT :: int where "UV_EAFNOSUPPORT = - 47"

lemmas uv_errors = UV_E2BIG_def UV_EINVAL_def UV_ENOSPC_def UV_EAFNOSUPPORT_def

end
