(* ===== verification/Uv_Heap.thy ===== *)
theory Uv_Heap
  imports Codec_Prelude "HOL-Library.Multiset"
begin

text \<open>
  The binary heap of \<^verbatim>\<open>libuv/src/heap-inl.h\<close>, an intrusive structure of nodes with three pointers.

  The memory is one map per pointer field, a node is its address, and a variable of type
  \<open>struct heap_node **\<close> is a slot: the root pointer of the heap or a child pointer of a node.  An
  operation returns \<open>None\<close> when it would follow a NULL pointer or not return; the counters are
  \<open>unsigned int\<close>, of 32 bits.
\<close>

section \<open>The code\<close>

type_synonym node = nat

record heap =
  heap_min :: "node option"
  nelts :: nat
  left :: "node \<Rightarrow> node option"
  right :: "node \<Rightarrow> node option"
  parent :: "node \<Rightarrow> node option"

datatype slot = Root | Left node | Right node

fun deref :: "heap \<Rightarrow> slot \<Rightarrow> node option" where
  "deref h Root = heap_min h"
| "deref h (Left n) = left h n"
| "deref h (Right n) = right h n"

fun assign :: "slot \<Rightarrow> node option \<Rightarrow> heap \<Rightarrow> heap" where
  "assign Root v h = h\<lparr>heap_min := v\<rparr>"
| "assign (Left n) v h = h\<lparr>left := (left h)(n := v)\<rparr>"
| "assign (Right n) v h = h\<lparr>right := (right h)(n := v)\<rparr>"

definition set_parent :: "node option \<Rightarrow> node option \<Rightarrow> heap \<Rightarrow> heap" where
  "set_parent p v h = (case p of None \<Rightarrow> h | Some n \<Rightarrow> h\<lparr>parent := (parent h)(n := v)\<rparr>)"

definition heap_init :: "heap \<Rightarrow> heap" where
  "heap_init h = h\<lparr>heap_min := None, nelts := 0\<rparr>"

definition heap_node_swap :: "heap \<Rightarrow> node \<Rightarrow> node \<Rightarrow> heap" where
  "heap_node_swap h p c =
     (let h = h\<lparr>left := (left h)(p := left h c, c := left h p),
                right := (right h)(p := right h c, c := right h p),
                parent := (parent h)(p := parent h c, c := parent h p)\<rparr>;
          h = h\<lparr>parent := (parent h)(p := Some c)\<rparr>;
          is_left = (left h c = Some c);
          h = (if is_left then h\<lparr>left := (left h)(c := Some p)\<rparr> else h\<lparr>right := (right h)(c := Some p)\<rparr>);
          sibling = (if is_left then right h c else left h c);
          h = set_parent sibling (Some c) h;
          h = set_parent (left h p) (Some p) h;
          h = set_parent (right h p) (Some p) h
      in case parent h c of
           None \<Rightarrow> h\<lparr>heap_min := Some c\<rparr>
         | Some g \<Rightarrow> if left h g = Some p then h\<lparr>left := (left h)(g := Some c)\<rparr>
                     else h\<lparr>right := (right h)(g := Some c)\<rparr>)"

text \<open>The loop that computes \<open>path\<close> and \<open>k\<close> for the node of number \<open>n\<close>.\<close>

fun heap_path :: "nat \<Rightarrow> nat \<Rightarrow> nat \<Rightarrow> nat \<times> nat" where
  "heap_path path k n = (if n \<ge> 2 then heap_path (2 * path + n mod 2) (k + 1) (n div 2) else (path, k))"

declare heap_path.simps [simp del]

text \<open>The traversal along the path, with the slot before in \<open>up\<close>.\<close>

fun heap_walk :: "heap \<Rightarrow> slot \<Rightarrow> slot \<Rightarrow> nat \<Rightarrow> nat \<Rightarrow> (slot \<times> slot) option" where
  "heap_walk h up child path 0 = Some (up, child)"
| "heap_walk h up child path (Suc k) =
     (case deref h child of
        None \<Rightarrow> None
      | Some n \<Rightarrow> heap_walk h child (if path mod 2 = 1 then Right n else Left n) (path div 2) k)"

partial_function (option) heap_up :: "(node \<Rightarrow> node \<Rightarrow> bool) \<Rightarrow> heap \<Rightarrow> node \<Rightarrow> heap option" where
  "heap_up lt h n =
     (case parent h n of
        None \<Rightarrow> Some h
      | Some p \<Rightarrow> if lt n p then heap_up lt (heap_node_swap h p n) n else Some h)"

partial_function (option) heap_down :: "(node \<Rightarrow> node \<Rightarrow> bool) \<Rightarrow> heap \<Rightarrow> node \<Rightarrow> heap option" where
  "heap_down lt h child =
     (let smallest = child;
          smallest = (case left h child of None \<Rightarrow> smallest
            | Some l \<Rightarrow> if lt l smallest then l else smallest);
          smallest = (case right h child of None \<Rightarrow> smallest
            | Some r \<Rightarrow> if lt r smallest then r else smallest)
      in if smallest = child then Some h
         else heap_down lt (heap_node_swap h child smallest) child)"

definition heap_insert :: "(node \<Rightarrow> node \<Rightarrow> bool) \<Rightarrow> heap \<Rightarrow> node \<Rightarrow> heap option" where
  "heap_insert lt h newnode =
     (let h = h\<lparr>left := (left h)(newnode := None), right := (right h)(newnode := None),
                parent := (parent h)(newnode := None)\<rparr>
      in case heap_path 0 0 ((1 + nelts h) mod 2 ^ 32) of
        (path, k) \<Rightarrow>
          (case heap_walk h Root Root path k of
             None \<Rightarrow> None
           | Some (up, child) \<Rightarrow>
              (let h = h\<lparr>parent := (parent h)(newnode := deref h up)\<rparr>;
                   h = assign child (Some newnode) h;
                   h = h\<lparr>nelts := (nelts h + 1) mod 2 ^ 32\<rparr>
               in heap_up lt h newnode)))"

definition heap_remove :: "(node \<Rightarrow> node \<Rightarrow> bool) \<Rightarrow> heap \<Rightarrow> node \<Rightarrow> heap option" where
  "heap_remove lt h node =
     (if nelts h = 0 then Some h
      else case heap_path 0 0 (nelts h) of
        (path, k) \<Rightarrow>
          (case heap_walk h Root Root path k of
             None \<Rightarrow> None
           | Some (_, max_slot) \<Rightarrow>
              (let h = h\<lparr>nelts := nelts h - 1\<rparr> in
               case deref h max_slot of
                 None \<Rightarrow> None
               | Some child \<Rightarrow>
                  (let h = assign max_slot None h in
                   if child = node
                   then Some (if Some child = heap_min h then h\<lparr>heap_min := None\<rparr> else h)
                   else
                  (let h = h\<lparr>left := (left h)(child := left h node), right := (right h)(child := right h node),
                             parent := (parent h)(child := parent h node)\<rparr>;
                       h = set_parent (left h child) (Some child) h;
                       h = set_parent (right h child) (Some child) h;
                       h = (case parent h node of
                              None \<Rightarrow> h\<lparr>heap_min := Some child\<rparr>
                            | Some p \<Rightarrow> if left h p = Some node then h\<lparr>left := (left h)(p := Some child)\<rparr>
                                        else h\<lparr>right := (right h)(p := Some child)\<rparr>)
                   in case heap_down lt h child of
                        None \<Rightarrow> None
                      | Some h \<Rightarrow> heap_up lt h child)))))"

definition heap_dequeue :: "(node \<Rightarrow> node \<Rightarrow> bool) \<Rightarrow> heap \<Rightarrow> heap option" where
  "heap_dequeue lt h =
     (case heap_min h of
        None \<Rightarrow> if nelts h = 0 then Some h else None
      | Some n \<Rightarrow> heap_remove lt h n)"

section \<open>The array a heap stands for\<close>

text \<open>The nodes of a complete tree in the order of its rows; node \<open>i\<close> has the children \<open>2 * i + 1\<close>
  and \<open>2 * i + 2\<close>.\<close>

definition at :: "'a list \<Rightarrow> nat \<Rightarrow> 'a option" where
  "at xs i = (if i < length xs then Some (xs ! i) else None)"

definition up_of :: "nat \<Rightarrow> nat" where
  "up_of i = (i - 1) div 2"

definition heap_of :: "heap \<Rightarrow> node list \<Rightarrow> bool" where
  "heap_of h xs =
     (heap_min h = at xs 0 \<and> nelts h = length xs \<and> length xs < 2 ^ 32 \<and> distinct xs
      \<and> (\<forall>i < length xs. left h (xs ! i) = at xs (2 * i + 1) \<and> right h (xs ! i) = at xs (2 * i + 2)
           \<and> parent h (xs ! i) = (if i = 0 then None else Some (xs ! up_of i))))"

definition swap :: "'a list \<Rightarrow> nat \<Rightarrow> nat \<Rightarrow> 'a list" where
  "swap xs i j = xs[i := xs ! j, j := xs ! i]"

section \<open>Swapping\<close>

lemma set_parent_simps [simp]:
  "left (set_parent q v h) = left h" "right (set_parent q v h) = right h"
  "heap_min (set_parent q v h) = heap_min h" "nelts (set_parent q v h) = nelts h"
  "parent (set_parent q v h) x = (if q = Some x then v else parent h x)"
  by (cases q; simp add: set_parent_def)+

text \<open>The last step, which points the parent of the pair at the child.\<close>

definition link_up :: "heap \<Rightarrow> node \<Rightarrow> node \<Rightarrow> heap" where
  "link_up h p c = (case parent h c of
     None \<Rightarrow> h\<lparr>heap_min := Some c\<rparr>
   | Some g \<Rightarrow> if left h g = Some p then h\<lparr>left := (left h)(g := Some c)\<rparr>
               else h\<lparr>right := (right h)(g := Some c)\<rparr>)"

lemma link_up_simps [simp]:
  "parent (link_up h p c) = parent h" "nelts (link_up h p c) = nelts h"
  "heap_min (link_up h p c) = (if parent h c = None then Some c else heap_min h)"
  "left (link_up h p c) v = (if parent h c = Some v \<and> left h v = Some p then Some c else left h v)"
  "right (link_up h p c) v = (if parent h c = Some v \<and> left h v \<noteq> Some p then Some c else right h v)"
  by (cases "parent h c"; simp add: link_up_def)+

definition swapped :: "heap \<Rightarrow> node \<Rightarrow> node \<Rightarrow> heap" where
  "swapped h p c =
     (let h = h\<lparr>left := (left h)(p := left h c, c := left h p),
                right := (right h)(p := right h c, c := right h p),
                parent := (parent h)(p := parent h c, c := parent h p)\<rparr>;
          h = h\<lparr>parent := (parent h)(p := Some c)\<rparr>;
          is_left = (left h c = Some c);
          h = (if is_left then h\<lparr>left := (left h)(c := Some p)\<rparr> else h\<lparr>right := (right h)(c := Some p)\<rparr>);
          sibling = (if is_left then right h c else left h c);
          h = set_parent sibling (Some c) h;
          h = set_parent (left h p) (Some p) h
      in set_parent (right h p) (Some p) h)"

lemma heap_node_swap_eq: "heap_node_swap h p c = link_up (swapped h p c) p c"
  unfolding heap_node_swap_def swapped_def link_up_def Let_def by (rule refl)

lemma swapped_simps:
  assumes "p \<noteq> c"
  shows "parent (swapped h p c) v =
    (if right h c = Some v then Some p else if left h c = Some v then Some p
     else if (if left h p = Some c then right h p else left h p) = Some v then Some c
     else if v = p then Some c else if v = c then parent h p else parent h v)"
    "left (swapped h p c) v = (if v = c then (if left h p = Some c then Some p else left h p)
       else if v = p then left h c else left h v)"
    "right (swapped h p c) v = (if v = c then (if left h p = Some c then right h p else Some p)
       else if v = p then right h c else right h v)"
    "heap_min (swapped h p c) = heap_min h" "nelts (swapped h p c) = nelts h"
  using assms by (cases "left h p = Some c"; simp add: swapped_def Let_def)+

lemma at_eq_iff: "distinct xs \<Longrightarrow> b < length xs \<Longrightarrow> at xs a = Some (xs ! b) \<longleftrightarrow> a = b"
  by (auto simp: at_def nth_eq_iff_index_eq)

lemma at_swap:
  "i < length xs \<Longrightarrow> j < length xs \<Longrightarrow>
    at (swap xs i j) k = (if k = i then Some (xs ! j) else if k = j then Some (xs ! i) else at xs k)"
  by (auto simp: at_def swap_def nth_list_update)

lemma nth_swap:
  "i < length xs \<Longrightarrow> j < length xs \<Longrightarrow> k < length xs \<Longrightarrow>
    swap xs i j ! k = (if k = i then xs ! j else if k = j then xs ! i else xs ! k)"
  by (auto simp: swap_def nth_list_update)

lemma length_swap [simp]: "length (swap xs i j) = length xs"
  by (simp add: swap_def)

lemma mset_swap': "i < length xs \<Longrightarrow> j < length xs \<Longrightarrow> mset (swap xs i j) = mset xs"
  unfolding swap_def by (rule mset_swap)

lemma distinct_swap': "i < length xs \<Longrightarrow> j < length xs \<Longrightarrow> distinct (swap xs i j) = distinct xs"
  unfolding swap_def by (rule distinct_swap)

lemma heap_ofD:
  assumes "heap_of h xs" "i < length xs"
  shows "left h (xs ! i) = at xs (2 * i + 1)" "right h (xs ! i) = at xs (2 * i + 2)"
    "parent h (xs ! i) = (if i = 0 then None else Some (xs ! up_of i))"
  using assms by (auto simp: heap_of_def)

lemma heap_of_swap:
  assumes H: "heap_of h xs" and j: "j = 2 * i + 1 \<or> j = 2 * i + 2" "j < length xs"
  shows "heap_of (heap_node_swap h (xs ! i) (xs ! j)) (swap xs i j)"
proof -
  let ?p = "xs ! i" and ?c = "xs ! j"
  let ?h = "heap_node_swap h ?p ?c"
  have i: "i < length xs" "i \<noteq> j" and d: "distinct xs" using j H by (auto simp: heap_of_def)
  have pc: "?p \<noteq> ?c" using i j d by (simp add: nth_eq_iff_index_eq)
  note P = heap_ofD [OF H i(1)] and C = heap_ofD [OF H j(2)]
  have isl: "left h ?p = Some ?c \<longleftrightarrow> 2 * i + 1 = j"
    by (simp only: P(1) at_eq_iff [OF d j(2)])
  have eq: "xs ! a = xs ! b \<longleftrightarrow> a = b" if "a < length xs" "b < length xs" for a b
    using that d by (simp add: nth_eq_iff_index_eq)
  note ateq = at_eq_iff [OF d]
  have up: "up_of i < length xs" using i by (simp add: up_of_def)
  note sw = swapped_simps [OF pc, of h]
  let ?s = "swapped h ?p ?c"
  have par: "parent ?s (xs ! k) =
      (if 2 * j + 2 = k then Some ?p else if 2 * j + 1 = k then Some ?p
       else if (if 2 * i + 1 = j then 2 * i + 2 else 2 * i + 1) = k then Some ?c
       else if k = i then Some ?c
       else if k = j then parent h ?p else parent h (xs ! k))"
    if k: "k < length xs" for k
  proof -
    have "(if left h ?p = Some ?c then right h ?p else left h ?p) = Some (xs ! k)
        \<longleftrightarrow> (if 2 * i + 1 = j then 2 * i + 2 else 2 * i + 1) = k"
      unfolding isl unfolding P(1,2) by (simp only: ateq [OF k] split: if_split) simp
    then show ?thesis unfolding sw(1) C(1,2) ateq [OF k] eq [OF k i(1)] eq [OF k j(2)] by (simp only:)
  qed
  have left: "left ?s (xs ! k) =
      (if k = j then (if 2 * i + 1 = j then Some ?p else at xs (2 * i + 1))
       else if k = i then at xs (2 * j + 1) else at xs (2 * k + 1))"
    if k: "k < length xs" for k
    unfolding sw(2) isl unfolding P(1) C(1) eq [OF k i(1)] eq [OF k j(2)] heap_ofD(1) [OF H k] by (rule refl)
  have right: "right ?s (xs ! k) =
      (if k = j then (if 2 * i + 1 = j then at xs (2 * i + 2) else Some ?p)
       else if k = i then at xs (2 * j + 2) else at xs (2 * k + 2))"
    if k: "k < length xs" for k
    unfolding sw(3) isl unfolding P(2) C(2) eq [OF k i(1)] eq [OF k j(2)] heap_ofD(2) [OF H k] by (rule refl)
  have parc: "parent ?s ?c = (if i = 0 then None else Some (xs ! up_of i))"
    unfolding par [OF j(2)] P(3) using j(1) by auto
  let ?h = "link_up ?s ?p ?c" and ?ys = "swap xs i j"
  have above: "parent ?s ?c = Some (xs ! k) \<longleftrightarrow> i \<noteq> 0 \<and> k = up_of i" if "k < length xs" for k
    unfolding parc using eq [OF up that] by auto
  have leftp: "left ?s (xs ! k) = Some ?p \<longleftrightarrow> (if k = j then 2 * i + 1 = j else k \<noteq> i \<and> 2 * k + 1 = i)"
    if k: "k < length xs" for k
    unfolding left [OF k] using ateq [OF i(1)] j(1) by auto
  have j_range: "i < j" "k \<noteq> i \<Longrightarrow> 2 * k + 1 \<noteq> j" "k \<noteq> i \<Longrightarrow> 2 * k + 2 \<noteq> j"
      "2 * i + 1 = j \<or> 2 * i + 2 = j" for k
    using j(1) by presburger+
  have up_i: "2 * k + 1 = i \<Longrightarrow> i \<noteq> 0 \<and> k = up_of i" "2 * k + 2 = i \<Longrightarrow> i \<noteq> 0 \<and> k = up_of i"
      "i \<noteq> 0 \<Longrightarrow> k = up_of i \<Longrightarrow> 2 * k + 1 \<noteq> i \<Longrightarrow> 2 * k + 2 = i" "i \<noteq> 0 \<Longrightarrow> up_of i < i" for k
    unfolding up_of_def by presburger+
  note at_ys = at_swap [OF i(1) j(2)]
  have up_j: "up_of j = i" using j(1) by (auto simp: up_of_def)
  have node: "left ?h (?ys ! k) = at ?ys (2 * k + 1) \<and> right ?h (?ys ! k) = at ?ys (2 * k + 2)
      \<and> parent ?h (?ys ! k) = (if k = 0 then None else Some (?ys ! up_of k))"
    if k: "k < length xs" for k
  proof -
    consider "k = i" | "k = j" | "k \<noteq> i" "k \<noteq> j" by blast
    then show ?thesis
    proof cases
      case 1
      then have y: "?ys ! k = ?c" using nth_swap [OF i(1) j(2) k] by simp
      have no: "\<not> (i \<noteq> 0 \<and> j = up_of i)" using up_i(4) j_range(1) by auto
      have "i \<noteq> 0 \<Longrightarrow> ?ys ! up_of i = xs ! up_of i"
        using nth_swap [OF i(1) j(2) up] up_i(4) j_range(1) by auto
      then show ?thesis
        unfolding y link_up_simps above [OF j(2)] left [OF j(2)] right [OF j(2)] unfolding parc at_ys
        using no 1 i(2) j_range(4) by auto
    next
      case 2
      then have y: "?ys ! k = ?p" using nth_swap [OF i(1) j(2) k] by simp
      have no: "\<not> (i \<noteq> 0 \<and> i = up_of i)" using up_i(4) by auto
      have "?ys ! up_of j = ?c" using nth_swap [OF i(1) j(2) i(1)] up_j by simp
      then show ?thesis
        unfolding y link_up_simps above [OF i(1)] left [OF i(1)] right [OF i(1)] par [OF i(1)] at_ys
        using no 2 i(2) j_range(1) by auto
    next
      case 3
      then have y: "?ys ! k = xs ! k" using nth_swap [OF i(1) j(2) k] by simp
      have upl: "(i \<noteq> 0 \<and> k = up_of i) \<and> 2 * k + 1 = i \<longleftrightarrow> 2 * k + 1 = i"
        "(i \<noteq> 0 \<and> k = up_of i) \<and> 2 * k + 1 \<noteq> i \<longleftrightarrow> 2 * k + 2 = i"
        unfolding up_of_def by presburger+
      have l: "left ?h (xs ! k) = at ?ys (2 * k + 1)"
        unfolding link_up_simps above [OF k] leftp [OF k] unfolding left [OF k] at_ys
        using 3 upl(1) j_range(2) [of k] by (simp del: One_nat_def)
      have r: "right ?h (xs ! k) = at ?ys (2 * k + 2)"
        unfolding link_up_simps above [OF k] leftp [OF k] unfolding right [OF k] at_ys
        using 3 upl(2) j_range(3) [of k] by (simp del: One_nat_def)
      have upk: "up_of k < length xs" using k by (simp add: up_of_def)
      have up_k: "k \<noteq> 0 \<Longrightarrow> up_of k = m \<longleftrightarrow> 2 * m + 1 = k \<or> 2 * m + 2 = k" for m
        unfolding up_of_def by presburger
      have sib: "(if 2 * i + 1 = j then 2 * i + 2 else 2 * i + 1) = k \<longleftrightarrow> (2 * i + 1 = k \<or> 2 * i + 2 = k)"
        using 3 j_range(4) by auto
      have "parent ?h (xs ! k) = (if k = 0 then None else Some (?ys ! up_of k))"
      proof (cases "k = 0")
        case True
        then show ?thesis
          unfolding link_up_simps par [OF k] sib heap_ofD(3) [OF H k] using 3 by simp
      next
        case False
        then show ?thesis
          unfolding link_up_simps par [OF k] sib heap_ofD(3) [OF H k] nth_swap [OF i(1) j(2) upk]
          using 3 up_k [OF False, of i] up_k [OF False, of j] by auto
      qed
      with l r y show ?thesis by simp
    qed
  qed
  have "heap_min ?h = at ?ys 0"
    unfolding link_up_simps parc sw(4) at_ys using H j_range(1) by (auto simp: heap_of_def)
  moreover have "nelts ?h = length ?ys" using H by (simp add: sw(5) heap_of_def)
  ultimately show ?thesis
    using node H i j distinct_swap' [OF i(1) j(2)]
    by (simp add: heap_of_def [of _ ?ys] heap_node_swap_eq) (simp add: heap_of_def)
qed

section \<open>Order\<close>

text \<open>What the heap needs of the comparison its client passes: a strict weak order.  (Nodes may compare
  equal.)\<close>

locale heap_order =
  fixes lt :: "node \<Rightarrow> node \<Rightarrow> bool"
  assumes asym: "lt a b \<Longrightarrow> \<not> lt b a"
    and trans: "lt a b \<Longrightarrow> lt b c \<Longrightarrow> lt a c"
    and neg_trans: "\<not> lt a b \<Longrightarrow> \<not> lt b c \<Longrightarrow> \<not> lt a c"
begin

definition edge :: "node list \<Rightarrow> nat \<Rightarrow> bool" where
  "edge xs k = (\<not> lt (xs ! k) (xs ! up_of k))"

definition ordered :: "node list \<Rightarrow> bool" where
  "ordered xs = (\<forall>k < length xs. k \<noteq> 0 \<longrightarrow> edge xs k)"

text \<open>The children of \<open>i\<close> are not below the parent of \<open>i\<close>.\<close>

definition skips :: "node list \<Rightarrow> nat \<Rightarrow> bool" where
  "skips xs i = (\<forall>m < length xs. m \<noteq> 0 \<longrightarrow> up_of m = i \<longrightarrow> i \<noteq> 0 \<longrightarrow> \<not> lt (xs ! m) (xs ! up_of i))"

definition almost_up :: "node list \<Rightarrow> nat \<Rightarrow> bool" where
  "almost_up xs i = ((\<forall>k < length xs. k \<noteq> 0 \<longrightarrow> k \<noteq> i \<longrightarrow> edge xs k) \<and> skips xs i)"

definition almost_down :: "node list \<Rightarrow> nat \<Rightarrow> bool" where
  "almost_down xs i =
     ((\<forall>k < length xs. k \<noteq> 0 \<longrightarrow> k \<noteq> i \<longrightarrow> up_of k \<noteq> i \<longrightarrow> edge xs k) \<and> skips xs i)"

lemma root_minimal: "ordered xs \<Longrightarrow> k < length xs \<Longrightarrow> \<not> lt (xs ! k) (xs ! 0)"
proof (induction k rule: less_induct)
  case (less k)
  show ?case
  proof (cases "k = 0")
    case True
    then show ?thesis using asym by blast
  next
    case False
    then have "up_of k < k" "up_of k < length xs" using less.prems by (auto simp: up_of_def)
    with less False show ?thesis
      using neg_trans [of "xs ! k" "xs ! up_of k" "xs ! 0"] by (auto simp: ordered_def edge_def)
  qed
qed

lemma ordered_skips: "ordered xs \<Longrightarrow> i < length xs \<Longrightarrow> skips xs i"
  unfolding skips_def
proof (intro allI impI)
  fix m
  assume "ordered xs" "m < length xs" "m \<noteq> 0" "up_of m = i" "i \<noteq> 0" "i < length xs"
  then have "\<not> lt (xs ! m) (xs ! i)" "\<not> lt (xs ! i) (xs ! up_of i)" by (auto simp: ordered_def edge_def)
  then show "\<not> lt (xs ! m) (xs ! up_of i)" by (rule neg_trans)
qed

lemma up_step:
  assumes A: "almost_up xs i" and i: "i < length xs" "i \<noteq> 0" and l: "lt (xs ! i) (xs ! up_of i)"
  shows "almost_up (swap xs (up_of i) i) (up_of i)"
proof -
  define p where "p = up_of i"
  have p: "p < i" "p < length xs" using i by (auto simp: p_def up_of_def)
  define ys where "ys = swap xs p i"
  have y: "ys ! k = (if k = p then xs ! i else if k = i then xs ! p else xs ! k)" if "k < length xs" for k
    using nth_swap [OF p(2) i(1) that] by (simp add: ys_def)
  have len: "length ys = length xs" by (simp add: ys_def)
  have e: "\<not> lt (xs ! k) (xs ! up_of k)" if "k < length xs" "k \<noteq> 0" "k \<noteq> i" for k
    using A that by (auto simp: almost_up_def edge_def)
  have sk: "\<not> lt (xs ! m) (xs ! p)" if "m < length xs" "m \<noteq> 0" "up_of m = i" for m
    using A that i(2) by (auto simp: almost_up_def skips_def p_def)
  have upl: "up_of k < k" "up_of k < length xs" if "k < length xs" "k \<noteq> 0" for k
    using that by (auto simp: up_of_def)
  have "edge ys k" if k: "k < length xs" "k \<noteq> 0" "k \<noteq> p" for k
  proof -
    consider "k = i" | "k \<noteq> i" "up_of k = p" | "k \<noteq> i" "up_of k = i" | "k \<noteq> i" "up_of k \<noteq> p" "up_of k \<noteq> i" by blast
    then show ?thesis
    proof cases
      case 1
      then show ?thesis using asym [OF l] y [OF i(1)] y [OF p(2)] p by (simp add: edge_def p_def [symmetric])
    next
      case 2
      then have "\<not> lt (xs ! k) (xs ! p)" using e [OF k(1,2)] by simp
      then have "\<not> lt (xs ! k) (xs ! i)" using trans l unfolding p_def by blast
      with 2 show ?thesis using y [OF k(1)] y [OF p(2)] k(3) by (simp add: edge_def)
    next
      case 3
      then show ?thesis using sk [OF k(1,2)] y [OF k(1)] y [OF i(1)] k(3) p by (simp add: edge_def)
    next
      case 4
      then show ?thesis using e [OF k(1,2)] y [OF k(1)] y [OF upl(2) [OF k(1,2)]] k(3) by (simp add: edge_def)
    qed
  qed
  moreover have "skips ys p"
    unfolding skips_def len
  proof (intro allI impI)
    fix m
    assume m: "m < length xs" "m \<noteq> 0" "up_of m = p" "p \<noteq> 0"
    have up: "up_of p < p" "up_of p < length xs" using upl [OF p(2) m(4)] by auto
    have ep: "\<not> lt (xs ! p) (xs ! up_of p)" using e [OF p(2) m(4)] p by simp
    have "m \<noteq> p" using upl [OF m(1,2)] m(3) by auto
    moreover have "m \<noteq> i \<Longrightarrow> \<not> lt (xs ! m) (xs ! up_of p)"
      using e [OF m(1,2)] m(3) neg_trans [OF _ ep] by simp
    ultimately show "\<not> lt (ys ! m) (ys ! up_of p)"
      using y [OF m(1)] y [OF up(2)] up p ep by auto
  qed
  ultimately show ?thesis unfolding almost_up_def len ys_def [symmetric] p_def [symmetric] by simp
qed

lemma almost_up_done: "almost_up xs i \<Longrightarrow> i = 0 \<or> edge xs i \<Longrightarrow> ordered xs"
  unfolding almost_up_def ordered_def by auto

lemma heap_up_correct:
  "heap_of h xs \<Longrightarrow> i < length xs \<Longrightarrow> almost_up xs i \<Longrightarrow>
    \<exists>h' xs'. heap_up lt h (xs ! i) = Some h' \<and> heap_of h' xs' \<and> ordered xs' \<and> mset xs' = mset xs"
proof (induction i arbitrary: h xs rule: less_induct)
  case (less i)
  have par: "parent h (xs ! i) = (if i = 0 then None else Some (xs ! up_of i))"
    using less.prems by (simp add: heap_ofD)
  show ?case
  proof (cases "i \<noteq> 0 \<and> lt (xs ! i) (xs ! up_of i)")
    case True
    let ?p = "up_of i" and ?ys = "swap xs (up_of i) i"
    have p: "?p < i" "?p < length xs" "i = 2 * ?p + 1 \<or> i = 2 * ?p + 2"
      using True less.prems by (auto simp: up_of_def)
    have H: "heap_of (heap_node_swap h (xs ! ?p) (xs ! i)) ?ys"
      using heap_of_swap [OF less.prems(1) p(3) less.prems(2)] .
    have A: "almost_up ?ys ?p" using up_step less.prems True by blast
    have "?ys ! ?p = xs ! i" using nth_swap [OF p(2) less.prems(2) p(2)] by simp
    with less.IH [OF p(1) H _ A] p(2) obtain h' xs' where
      "heap_up lt (heap_node_swap h (xs ! ?p) (xs ! i)) (xs ! i) = Some h'" "heap_of h' xs'" "ordered xs'"
      "mset xs' = mset ?ys" by auto
    moreover have "mset ?ys = mset xs" using mset_swap' [OF p(2) less.prems(2)] .
    ultimately show ?thesis using True par by (subst heap_up.simps) auto
  next
    case False
    then have "ordered xs" using almost_up_done [OF less.prems(3)] by (auto simp: edge_def)
    with False par less.prems show ?thesis by (subst heap_up.simps) (auto split: option.splits)
  qed
qed

end

context heap_order
begin

lemma down_step:
  assumes A: "almost_down xs i" and j: "j < length xs" "j \<noteq> 0" "up_of j = i"
    and l: "lt (xs ! j) (xs ! i)"
    and least: "\<And>k. k < length xs \<Longrightarrow> k \<noteq> 0 \<Longrightarrow> up_of k = i \<Longrightarrow> \<not> lt (xs ! k) (xs ! j)"
  shows "almost_down (swap xs i j) j"
proof -
  define ys where "ys = swap xs i j"
  have i: "i < j" "i < length xs" using j by (auto simp: up_of_def)
  have y: "ys ! k = (if k = i then xs ! j else if k = j then xs ! i else xs ! k)" if "k < length xs" for k
    using nth_swap [OF i(2) j(1) that] by (simp add: ys_def)
  have len: "length ys = length xs" by (simp add: ys_def)
  have e: "\<not> lt (xs ! k) (xs ! up_of k)" if "k < length xs" "k \<noteq> 0" "k \<noteq> i" "up_of k \<noteq> i" for k
    using A that by (auto simp: almost_down_def edge_def)
  have sk: "\<not> lt (xs ! j) (xs ! up_of i)" if "i \<noteq> 0"
    using A that j by (auto simp: almost_down_def skips_def)
  have upl: "up_of k < k" "up_of k < length xs" if "k < length xs" "k \<noteq> 0" for k
    using that by (auto simp: up_of_def)
  have "edge ys k" if k: "k < length xs" "k \<noteq> 0" "k \<noteq> j" "up_of k \<noteq> j" for k
  proof -
    consider "k = i" | "k \<noteq> i" "up_of k = i" | "k \<noteq> i" "up_of k \<noteq> i" by blast
    then show ?thesis
    proof cases
      case 1
      then have "up_of i < i" "up_of i < length xs" using upl k by auto
      with 1 k i(1) sk y [OF k(1)] y [of "up_of i"] show ?thesis by (simp add: edge_def)
    next
      case 2
      then show ?thesis using least [OF k(1,2)] y [OF k(1)] y [OF i(2)] k(3) by (simp add: edge_def)
    next
      case 3
      then show ?thesis using e [OF k(1,2)] y [OF k(1)] y [OF upl(2) [OF k(1,2)]] k(3,4) by (simp add: edge_def)
    qed
  qed
  moreover have "skips ys j"
    unfolding skips_def len
  proof (intro allI impI)
    fix m
    assume m: "m < length xs" "m \<noteq> 0" "up_of m = j" "j \<noteq> 0"
    then have "j < m" using upl by auto
    then show "\<not> lt (ys ! m) (ys ! up_of j)"
      using e [OF m(1,2)] m(3) i y [OF m(1)] y [OF i(2)] j(3) by simp
  qed
  ultimately show ?thesis unfolding almost_down_def len ys_def [symmetric] by simp
qed

lemma down_done:
  assumes "almost_down xs i"
    and "\<And>k. k < length xs \<Longrightarrow> k \<noteq> 0 \<Longrightarrow> up_of k = i \<Longrightarrow> \<not> lt (xs ! k) (xs ! i)"
  shows "almost_up xs i"
  using assms unfolding almost_down_def almost_up_def edge_def by metis

text \<open>The child chosen by the loop.\<close>

definition smallest_of :: "node list \<Rightarrow> nat \<Rightarrow> nat" where
  "smallest_of xs i =
     (let s = (if 2 * i + 1 < length xs \<and> lt (xs ! (2 * i + 1)) (xs ! i) then 2 * i + 1 else i)
      in if 2 * i + 2 < length xs \<and> lt (xs ! (2 * i + 2)) (xs ! s) then 2 * i + 2 else s)"

lemma smallest_of_least:
  assumes "k < length xs" "k \<noteq> 0" "up_of k = i"
  shows "\<not> lt (xs ! k) (xs ! smallest_of xs i)"
proof -
  have irrefl: "\<not> lt a a" for a using asym by blast
  have "k = 2 * i + 1 \<or> k = 2 * i + 2" using assms by (auto simp: up_of_def)
  define s where "s = (if 2 * i + 1 < length xs \<and> lt (xs ! (2 * i + 1)) (xs ! i) then 2 * i + 1 else i)"
  have l: "2 * i + 1 < length xs \<Longrightarrow> \<not> lt (xs ! (2 * i + 1)) (xs ! s)"
    using irrefl by (simp add: s_def)
  have r: "smallest_of xs i = (if 2 * i + 2 < length xs \<and> lt (xs ! (2 * i + 2)) (xs ! s) then 2 * i + 2 else s)"
    by (simp add: smallest_of_def s_def)
  show ?thesis
  proof (cases "2 * i + 2 < length xs \<and> lt (xs ! (2 * i + 2)) (xs ! s)")
    case True
    then have "\<not> lt (xs ! (2 * i + 1)) (xs ! (2 * i + 2))" using l trans by fastforce
    with True \<open>k = 2 * i + 1 \<or> k = 2 * i + 2\<close> irrefl r show ?thesis by auto
  next
    case False
    with \<open>k = 2 * i + 1 \<or> k = 2 * i + 2\<close> l r assms(1) show ?thesis by auto
  qed
qed

lemma smallest_of_cases:
  "smallest_of xs i = i \<or> (smallest_of xs i = 2 * i + 1 \<or> smallest_of xs i = 2 * i + 2)
    \<and> smallest_of xs i < length xs \<and> lt (xs ! smallest_of xs i) (xs ! i)"
  using trans unfolding smallest_of_def Let_def by (auto split: if_splits)

lemma heap_down_unfold:
  assumes "heap_of h xs" "i < length xs"
  shows "heap_down lt h (xs ! i) =
    (if smallest_of xs i = i then Some h
     else heap_down lt (heap_node_swap h (xs ! i) (xs ! smallest_of xs i)) (xs ! i))"
proof -
  have d: "distinct xs" using assms by (simp add: heap_of_def)
  let ?s = "smallest_of xs i"
  have s: "?s < length xs" using smallest_of_cases [of xs i] assms(2) by auto
  have "(let smallest = xs ! i;
          smallest = (case left h (xs ! i) of None \<Rightarrow> smallest
            | Some l \<Rightarrow> if lt l smallest then l else smallest)
        in (case right h (xs ! i) of None \<Rightarrow> smallest
            | Some r \<Rightarrow> if lt r smallest then r else smallest)) = xs ! ?s"
    unfolding heap_ofD [OF assms] at_def smallest_of_def Let_def by auto
  moreover have "xs ! ?s = xs ! i \<longleftrightarrow> ?s = i" using d s assms(2) by (simp add: nth_eq_iff_index_eq)
  ultimately show ?thesis by (subst heap_down.simps) (simp add: Let_def)
qed

lemma heap_down_correct:
  "heap_of h xs \<Longrightarrow> i < length xs \<Longrightarrow> almost_down xs i \<Longrightarrow>
    \<exists>h' xs' j. heap_down lt h (xs ! i) = Some h' \<and> heap_of h' xs' \<and> j < length xs' \<and> xs' ! j = xs ! i
      \<and> almost_up xs' j \<and> mset xs' = mset xs"
proof (induction "length xs - i" arbitrary: h xs i rule: less_induct)
  case less
  let ?s = "smallest_of xs i"
  show ?case
  proof (cases "?s = i")
    case True
    then have "almost_up xs i" using down_done [OF less.prems(3)] smallest_of_least by metis
    with True less.prems show ?thesis by (auto simp: heap_down_unfold)
  next
    case False
    then have s: "?s = 2 * i + 1 \<or> ?s = 2 * i + 2" "?s < length xs" "lt (xs ! ?s) (xs ! i)"
      using smallest_of_cases [of xs i] by auto
    let ?ys = "swap xs i ?s"
    have up: "?s \<noteq> 0" "up_of ?s = i" using s(1) by (auto simp: up_of_def)
    have H: "heap_of (heap_node_swap h (xs ! i) (xs ! ?s)) ?ys"
      using heap_of_swap [OF less.prems(1) s(1,2)] .
    have A: "almost_down ?ys ?s"
      using less.prems(3) s(2) up s(3) smallest_of_least by (rule down_step)
    have n: "?ys ! ?s = xs ! i" using nth_swap [OF less.prems(2) s(2) s(2)] s(1) by auto
    have "length ?ys - ?s < length xs - i" "?s < length ?ys" using s less.prems(2) by auto
    from less.hyps [OF this(1) H this(2) A] obtain h' xs' j where
      "heap_down lt (heap_node_swap h (xs ! i) (xs ! ?s)) (xs ! i) = Some h'" "heap_of h' xs'"
      "j < length xs'" "xs' ! j = xs ! i" "almost_up xs' j" "mset xs' = mset ?ys"
      unfolding n by blast
    moreover have "mset ?ys = mset xs" using mset_swap' [OF less.prems(2) s(2)] .
    ultimately show ?thesis using False less.prems by (auto simp: heap_down_unfold)
  qed
qed

end

section \<open>Paths\<close>

lemma div_power_Suc: "N div 2 ^ Suc k = N div 2 ^ k div (2 :: nat)"
  by (simp only: power_Suc2 div_mult2_eq)

text \<open>The bits of \<open>N\<close> below its \<open>k\<close>-th, the lowest first, as the loop collects them.\<close>

fun path_bits :: "nat \<Rightarrow> nat \<Rightarrow> nat" where
  "path_bits 0 N = 0"
| "path_bits (Suc k) N = 2 * path_bits k N + (N div 2 ^ k) mod 2"

lemma heap_path_bits:
  assumes "1 \<le> N"
  shows "\<exists>K. heap_path 0 0 N = (path_bits K N, K) \<and> N div 2 ^ K = 1"
proof -
  have "1 \<le> N div 2 ^ k \<Longrightarrow> \<exists>K. heap_path (path_bits k N) k (N div 2 ^ k) = (path_bits K N, K) \<and> N div 2 ^ K = 1"
    for k
  proof (induction "N div 2 ^ k" arbitrary: k rule: less_induct)
    case less
    show ?case
    proof (cases "2 \<le> N div 2 ^ k")
      case True
      have eq: "N div 2 ^ k div 2 = N div 2 ^ Suc k" by (simp only: div_power_Suc)
      have "N div 2 ^ Suc k < N div 2 ^ k" "1 \<le> N div 2 ^ Suc k"
        unfolding eq [symmetric] using True by auto
      from less.hyps [OF this] True eq show ?thesis by (simp add: heap_path.simps [of "path_bits k N"])
    next
      case False
      with less.prems have "N div 2 ^ k = 1" by simp
      then show ?thesis by (auto simp: heap_path.simps [of "path_bits k N"])
    qed
  qed
  from this [of 0] assms show ?thesis by simp
qed

text \<open>The slot of the node of number \<open>m\<close>, counted from 1.\<close>

definition slot_of :: "node list \<Rightarrow> nat \<Rightarrow> slot" where
  "slot_of xs m = (if m \<le> 1 then Root else if m mod 2 = 1 then Right (xs ! (m div 2 - 1)) else Left (xs ! (m div 2 - 1)))"

lemma deref_slot_of:
  assumes "heap_of h xs" "1 \<le> m" "m \<le> length xs + 1"
  shows "deref h (slot_of xs m) = at xs (m - 1)"
proof (cases "m = 1")
  case True
  with assms show ?thesis by (simp add: slot_of_def heap_of_def)
next
  case False
  define i where "i = m div 2 - 1"
  have i: "i < length xs" "m = 2 * i + 2 \<or> m = 2 * i + 3" using False assms by (auto simp: i_def)
  with False heap_ofD [OF assms(1) i(1)] show ?thesis
    unfolding slot_of_def i_def [symmetric] by auto
qed

lemma heap_walk_slot:
  assumes H: "heap_of h xs" and N: "N \<le> length xs + 1"
  shows "1 \<le> N div 2 ^ k \<Longrightarrow>
    heap_walk h up (slot_of xs (N div 2 ^ k)) (path_bits k N) k
      = Some (if k = 0 then up else slot_of xs (N div 2), slot_of xs N)"
proof (induction k arbitrary: up)
  case 0
  then show ?case by simp
next
  case (Suc k)
  define m where "m = N div 2 ^ Suc k"
  define b where "b = (N div 2 ^ k) mod 2"
  have next_m: "N div 2 ^ k = 2 * m + b" "b < 2" "1 \<le> m"
    using Suc.prems mult_div_mod_eq [of 2 "N div 2 ^ k"]
    by (simp_all only: m_def b_def div_power_Suc)
  have m: "m \<le> length xs"
  proof -
    have "2 * m \<le> N div 2 ^ k" using next_m(1) by simp
    also have "\<dots> \<le> N" by simp
    finally show ?thesis using N next_m(3) by linarith
  qed
  have d: "deref h (slot_of xs m) = Some (xs ! (m - 1))"
    using deref_slot_of [OF H next_m(3)] m next_m(3) by (simp add: at_def)
  have bits: "path_bits (Suc k) N mod 2 = b" "path_bits (Suc k) N div 2 = path_bits k N"
    using next_m(2) by (simp_all add: b_def)
  have s: "(if b = 1 then Right (xs ! (m - 1)) else Left (xs ! (m - 1))) = slot_of xs (N div 2 ^ k)"
    using next_m by (auto simp: slot_of_def)
  have "heap_walk h up (slot_of xs m) (path_bits (Suc k) N) (Suc k)
      = heap_walk h (slot_of xs m) (slot_of xs (N div 2 ^ k)) (path_bits k N) k"
    by (simp only: heap_walk.simps d option.case bits s)
  also have "\<dots> = Some (if k = 0 then slot_of xs m else slot_of xs (N div 2), slot_of xs N)"
    using next_m by (intro Suc.IH) simp
  finally show ?case by (simp add: m_def)
qed

lemma heap_walk_number:
  assumes H: "heap_of h xs" and N: "1 \<le> N" "N \<le> length xs + 1"
  obtains path k where "heap_path 0 0 N = (path, k)"
    "heap_walk h Root Root path k = Some (if N = 1 then Root else slot_of xs (N div 2), slot_of xs N)"
proof -
  obtain K where K: "heap_path 0 0 N = (path_bits K N, K)" "N div 2 ^ K = 1"
    using heap_path_bits [OF N(1)] by blast
  have "K = 0 \<longleftrightarrow> N = 1" using K(2) by (cases K) (auto simp: div_mult2_eq)
  with heap_walk_slot [OF H N(2), of K Root] K(2) have
    "heap_walk h Root Root (path_bits K N) K = Some (if N = 1 then Root else slot_of xs (N div 2), slot_of xs N)"
    by (simp add: slot_of_def [of xs "Suc 0"] split: if_splits)
  with K(1) show ?thesis by (rule that)
qed

section \<open>Insertion and removal in the array\<close>

lemma heap_of_outside:
  assumes "heap_of h xs" "n \<notin> set xs"
  shows "heap_of (h\<lparr>left := (left h)(n := a), right := (right h)(n := b), parent := (parent h)(n := c)\<rparr>) xs"
  using assms unfolding heap_of_def by (auto dest: nth_mem)

lemma at_append: "at (xs @ [x]) k = (if k = length xs then Some x else at xs k)"
  by (auto simp: at_def nth_append)

lemma heap_of_append:
  assumes H: "heap_of h xs" and n: "n \<notin> set xs" "left h n = None" "right h n = None"
    and len: "length xs + 1 < 2 ^ 32"
    and par: "parent h n = (if xs = [] then None else Some (xs ! up_of (length xs)))"
  shows "heap_of ((assign (slot_of xs (length xs + 1)) (Some n) h)\<lparr>nelts := (nelts h + 1) mod 2 ^ 32\<rparr>) (xs @ [n])"
proof (cases "xs = []")
  case True
  with H n par show ?thesis by (simp add: heap_of_def slot_of_def at_def)
next
  case False
  define p where "p = up_of (length xs)"
  have p: "p < length xs" "length xs = 2 * p + 1 \<or> length xs = 2 * p + 2"
    using False by (auto simp: p_def up_of_def simp flip: length_greater_0_conv)
  have d: "distinct xs" using H by (simp add: heap_of_def)
  have eq: "xs ! k = xs ! p \<longleftrightarrow> k = p" "xs ! k \<noteq> n" if "k < length xs" for k
    using that p(1) d n(1) by (auto simp: nth_eq_iff_index_eq)
  have slot: "slot_of xs (length xs + 1) = (if length xs = 2 * p + 1 then Left (xs ! p) else Right (xs ! p))"
    using p(2) by (auto simp: slot_of_def)
  let ?h = "(assign (slot_of xs (length xs + 1)) (Some n) h)\<lparr>nelts := (nelts h + 1) mod 2 ^ 32\<rparr>"
  have l: "left ?h v = (if length xs = 2 * p + 1 \<and> v = xs ! p then Some n else left h v)"
    and r: "right ?h v = (if length xs = 2 * p + 2 \<and> v = xs ! p then Some n else right h v)"
    and others: "parent ?h v = parent h v" "heap_min ?h = heap_min h" "nelts ?h = length xs + 1" for v
    using slot p(2) len H by (auto simp: heap_of_def)
  have "left ?h ((xs @ [n]) ! k) = at (xs @ [n]) (2 * k + 1) \<and> right ?h ((xs @ [n]) ! k) = at (xs @ [n]) (2 * k + 2)
      \<and> parent ?h ((xs @ [n]) ! k) = (if k = 0 then None else Some ((xs @ [n]) ! up_of k))"
    if k: "k < length (xs @ [n])" for k
  proof (cases "k = length xs")
    case True
    have "n \<noteq> xs ! p" using eq(2) [OF p(1)] by simp
    then show ?thesis
      unfolding l r others at_append using True n(2,3) par False p(1)
      by (simp add: nth_append p_def [symmetric]) (simp add: at_def)
  next
    case neq: False
    then have k': "k < length xs" using k by simp
    then have up: "up_of k < length xs" by (simp add: up_of_def)
    show ?thesis
      unfolding l r others at_append using k' up heap_ofD [OF H k'] eq(1) [OF k'] p
      by (auto simp: nth_append)
  qed
  moreover have "heap_min ?h = at (xs @ [n]) 0" unfolding others at_append using H False by (simp add: heap_of_def)
  ultimately show ?thesis using others(3) d n(1) len by (simp add: heap_of_def [of _ "xs @ [n]"])
qed

lemma heap_of_butlast:
  assumes H: "heap_of h xs" and ne: "xs \<noteq> []"
  shows "heap_of ((assign (slot_of xs (length xs)) None h)\<lparr>nelts := nelts h - 1\<rparr>) (butlast xs)"
proof -
  define ys where "ys = butlast xs"
  define n where "n = last xs"
  have xs: "xs = ys @ [n]" using ne by (simp add: ys_def n_def)
  have d: "distinct xs" "length ys + 1 < 2 ^ 32" using H by (simp_all add: heap_of_def xs)
  show ?thesis
  proof (cases "ys = []")
    case True
    with H show ?thesis by (simp add: heap_of_def xs slot_of_def at_def)
  next
    case False
    define p where "p = up_of (length ys)"
    have p: "p < length ys" "length ys = 2 * p + 1 \<or> length ys = 2 * p + 2"
      using False by (auto simp: p_def up_of_def simp flip: length_greater_0_conv)
    have eq: "xs ! k = xs ! p \<longleftrightarrow> k = p" if "k < length ys" for k
      using that p(1) d by (subst nth_eq_iff_index_eq) (auto simp: xs)
    have slot: "slot_of xs (length xs) = (if length ys = 2 * p + 1 then Left (xs ! p) else Right (xs ! p))"
      using p(2) by (auto simp: slot_of_def xs)
    let ?h = "(assign (slot_of xs (length xs)) None h)\<lparr>nelts := nelts h - 1\<rparr>"
    have l: "left ?h v = (if length ys = 2 * p + 1 \<and> v = xs ! p then None else left h v)"
      and r: "right ?h v = (if length ys = 2 * p + 2 \<and> v = xs ! p then None else right h v)"
      and others: "parent ?h v = parent h v" "heap_min ?h = heap_min h" "nelts ?h = length ys" for v
      using slot p(2) H by (auto simp: heap_of_def xs)
    have at_xs: "at xs k = (if k = length ys then Some n else at ys k)" for k
      unfolding xs by (rule at_append)
    have "left ?h (ys ! k) = at ys (2 * k + 1) \<and> right ?h (ys ! k) = at ys (2 * k + 2)
        \<and> parent ?h (ys ! k) = (if k = 0 then None else Some (ys ! up_of k))"
      if k: "k < length ys" for k
    proof -
      have k': "k < length xs" "ys ! k = xs ! k" using k by (simp_all add: xs nth_append)
      have "up_of k < length ys" using k by (simp add: up_of_def)
      then have up: "ys ! up_of k = xs ! up_of k" by (simp add: xs nth_append)
      show ?thesis
        unfolding k'(2) up l r others heap_ofD [OF H k'(1)] eq [OF k] at_xs
        using p by (auto simp: at_def) presburger
    qed
    moreover have "heap_min ?h = at ys 0" unfolding others using H at_xs [of 0] False by (simp add: heap_of_def)
    ultimately show ?thesis
      using others(3) d unfolding ys_def [symmetric] by (simp add: heap_of_def [of _ ys] xs)
  qed
qed

text \<open>The node \<open>c\<close> takes the place of node \<open>n\<close>.\<close>

definition replace_node :: "heap \<Rightarrow> node \<Rightarrow> node \<Rightarrow> heap" where
  "replace_node h n c =
     (let h = h\<lparr>left := (left h)(c := left h n), right := (right h)(c := right h n),
                parent := (parent h)(c := parent h n)\<rparr>;
          h = set_parent (left h c) (Some c) h;
          h = set_parent (right h c) (Some c) h
      in case parent h n of
           None \<Rightarrow> h\<lparr>heap_min := Some c\<rparr>
         | Some p \<Rightarrow> if left h p = Some n then h\<lparr>left := (left h)(p := Some c)\<rparr>
                     else h\<lparr>right := (right h)(p := Some c)\<rparr>)"

lemma heap_of_replace:
  assumes H: "heap_of h xs" and i: "i < length xs" and c: "c \<notin> set xs"
  shows "heap_of (replace_node h (xs ! i) c) (xs[i := c])"
proof -
  let ?n = "xs ! i"
  define s where "s = (let h = h\<lparr>left := (left h)(c := left h ?n), right := (right h)(c := right h ?n),
                parent := (parent h)(c := parent h ?n)\<rparr>;
          h = set_parent (left h c) (Some c) h in set_parent (right h c) (Some c) h)"
  have d: "distinct xs" using H by (simp add: heap_of_def)
  have cn: "c \<noteq> ?n" "\<And>k. k < length xs \<Longrightarrow> xs ! k \<noteq> c" using c i nth_mem by metis+
  have ac: "at xs k \<noteq> Some c" for k using cn(2) by (simp add: at_def)
  note N = heap_ofD [OF H i]
  have s_simps: "left s v = (if v = c then left h ?n else left h v)" "right s v = (if v = c then right h ?n else right h v)"
    "parent s v = (if right h ?n = Some v then Some c else if left h ?n = Some v then Some c
       else if v = c then parent h ?n else parent h v)"
    "heap_min s = heap_min h" "nelts s = nelts h" for v
    by (simp_all add: s_def Let_def)
  have eq: "xs ! k = ?n \<longleftrightarrow> k = i" if "k < length xs" for k using that i d by (simp add: nth_eq_iff_index_eq)
  have neq: "2 * i + 1 \<noteq> i" "2 * i + 2 \<noteq> i" by simp_all
  have par_n: "parent s ?n = parent h ?n"
    unfolding s_simps N using at_eq_iff [OF d i] neq cn(1) by auto
  have up: "up_of i < length xs" using i by (simp add: up_of_def)
  let ?h = "case parent s ?n of
           None \<Rightarrow> s\<lparr>heap_min := Some c\<rparr>
         | Some p \<Rightarrow> if left s p = Some ?n then s\<lparr>left := (left s)(p := Some c)\<rparr>
                     else s\<lparr>right := (right s)(p := Some c)\<rparr>"
  have h: "replace_node h ?n c = ?h" unfolding replace_node_def s_def Let_def by (rule refl)
  have f: "parent ?h v = parent s v" "nelts ?h = nelts s"
    "heap_min ?h = (if parent s ?n = None then Some c else heap_min s)"
    "left ?h v = (if parent s ?n = Some v \<and> left s v = Some ?n then Some c else left s v)"
    "right ?h v = (if parent s ?n = Some v \<and> left s v \<noteq> Some ?n then Some c else right s v)" for v
    by (auto split: option.splits)
  have above: "parent s ?n = Some (xs ! k) \<longleftrightarrow> i \<noteq> 0 \<and> k = up_of i" if "k < length xs" for k
    unfolding par_n N using that up d by (auto simp: nth_eq_iff_index_eq)
  have above_c: "parent s ?n \<noteq> Some c" unfolding par_n N using cn(2) [OF up] by auto
  have at_ys: "at (xs[i := c]) k = (if k = i then Some c else at xs k)" for k
    using i by (auto simp: at_def)
  have "left ?h (xs[i := c] ! k) = at (xs[i := c]) (2 * k + 1) \<and> right ?h (xs[i := c] ! k) = at (xs[i := c]) (2 * k + 2)
      \<and> parent ?h (xs[i := c] ! k) = (if k = 0 then None else Some (xs[i := c] ! up_of k))"
    if k: "k < length xs" for k
  proof (cases "k = i")
    case True
    have up': "xs[i := c] ! up_of i = xs ! up_of i" if "i \<noteq> 0"
    proof -
      have "up_of i \<noteq> i" using that by (auto simp: up_of_def)
      then show ?thesis by simp
    qed
    have "left ?h c = at (xs[i := c]) (2 * i + 1)" "right ?h c = at (xs[i := c]) (2 * i + 2)"
      unfolding f at_ys using above_c neq by (simp_all add: s_simps N)
    moreover have "parent ?h c = (if i = 0 then None else Some (xs ! up_of i))"
      unfolding f unfolding s_simps N using ac by simp
    ultimately show ?thesis using True i up' by simp
  next
    case False
    then have y: "xs[i := c] ! k = xs ! k" by simp
    have upk: "up_of k < length xs" "k \<noteq> 0 \<Longrightarrow> up_of k = i \<longleftrightarrow> 2 * i + 1 = k \<or> 2 * i + 2 = k"
      using k by (auto simp: up_of_def)
    have lk: "left s (xs ! k) = at xs (2 * k + 1)" "right s (xs ! k) = at xs (2 * k + 2)"
      unfolding s_simps using cn(2) [OF k] heap_ofD [OF H k] by simp_all
    have upl: "(i \<noteq> 0 \<and> k = up_of i) \<and> 2 * k + 1 = i \<longleftrightarrow> 2 * k + 1 = i"
        "(i \<noteq> 0 \<and> k = up_of i) \<and> 2 * k + 1 \<noteq> i \<longleftrightarrow> 2 * k + 2 = i"
      unfolding up_of_def by presburger+
    have "left ?h (xs ! k) = at (xs[i := c]) (2 * k + 1)"
      unfolding f above [OF k] lk at_ys at_eq_iff [OF d i] upl(1) by (rule refl)
    moreover have "right ?h (xs ! k) = at (xs[i := c]) (2 * k + 2)"
      unfolding f above [OF k] lk at_ys at_eq_iff [OF d i] upl(2) by (rule refl)
    moreover have "parent ?h (xs ! k) = (if k = 0 then None else Some (xs[i := c] ! up_of k))"
      unfolding f unfolding s_simps N at_eq_iff [OF d k] heap_ofD(3) [OF H k] using cn(2) [OF k] upk i
      by (cases "k = 0") (auto simp: nth_list_update)
    ultimately show ?thesis unfolding y by blast
  qed
  moreover have "heap_min ?h = at (xs[i := c]) 0"
    unfolding f unfolding par_n unfolding N s_simps at_ys using H by (simp add: heap_of_def)
  moreover have "distinct (xs[i := c])" using d c by (simp add: distinct_list_update)
  moreover have "nelts ?h = length xs" unfolding f unfolding s_simps using H by (simp add: heap_of_def)
  ultimately show ?thesis unfolding h using H by (simp add: heap_of_def)
qed

section \<open>The operations\<close>

context heap_order
begin

lemma ordered_append_almost:
  assumes "ordered xs"
  shows "almost_up (xs @ [n]) (length xs)"
proof -
  have "edge (xs @ [n]) k" if "k < length xs" "k \<noteq> 0" for k
  proof -
    have "up_of k < length xs" using that by (simp add: up_of_def)
    then show ?thesis using assms that by (simp add: ordered_def edge_def nth_append)
  qed
  moreover have "up_of m \<noteq> length xs" if "m < Suc (length xs)" "m \<noteq> 0" for m
    using that by (auto simp: up_of_def)
  ultimately show ?thesis by (simp add: almost_up_def skips_def)
qed

lemma heap_insert_correct:
  assumes H: "heap_of h xs" and O: "ordered xs" and n: "n \<notin> set xs" and len: "length xs + 1 < 2 ^ 32"
  shows "\<exists>h' xs'. heap_insert lt h n = Some h' \<and> heap_of h' xs' \<and> ordered xs' \<and> mset xs' = add_mset n (mset xs)"
proof -
  define h0 where "h0 = h\<lparr>left := (left h)(n := None), right := (right h)(n := None), parent := (parent h)(n := None)\<rparr>"
  have H0: "heap_of h0 xs" unfolding h0_def using H n by (rule heap_of_outside)
  have N: "1 \<le> length xs + 1" "length xs + 1 \<le> length xs + 1" by simp_all
  obtain path k where walk: "heap_path 0 0 (length xs + 1) = (path, k)"
    "heap_walk h0 Root Root path k =
      Some (if length xs + 1 = 1 then Root else slot_of xs ((length xs + 1) div 2), slot_of xs (length xs + 1))"
    using heap_walk_number [OF H0 N] .
  define up where "up = (if length xs + 1 = 1 then Root else slot_of xs ((length xs + 1) div 2))"
  have up: "deref h0 up = (if xs = [] then None else Some (xs ! up_of (length xs)))"
  proof (cases "xs = []")
    case True
    then show ?thesis using H0 by (simp add: up_def heap_of_def at_def)
  next
    case False
    then have l: "1 \<le> (length xs + 1) div 2" "(length xs + 1) div 2 \<le> length xs"
      "(length xs + 1) div 2 - 1 = up_of (length xs)" "up_of (length xs) < length xs"
      by (auto simp: up_of_def neq_Nil_conv)
    with deref_slot_of [OF H0, of "(length xs + 1) div 2"] False show ?thesis by (simp add: up_def at_def)
  qed
  define h1 where "h1 = h0\<lparr>parent := (parent h0)(n := deref h0 up)\<rparr>"
  have "heap_of (h0\<lparr>left := (left h0)(n := None), right := (right h0)(n := None),
      parent := (parent h0)(n := deref h0 up)\<rparr>) xs"
    using H0 n by (rule heap_of_outside)
  then have H1: "heap_of h1 xs" by (simp add: h1_def h0_def)
  define h2 where "h2 = (assign (slot_of xs (length xs + 1)) (Some n) h1)\<lparr>nelts := (nelts h1 + 1) mod 2 ^ 32\<rparr>"
  have H2: "heap_of h2 (xs @ [n])"
    unfolding h2_def
  proof (rule heap_of_append [OF H1 n _ _ len])
    show "left h1 n = None" "right h1 n = None" by (simp_all add: h1_def h0_def)
    show "parent h1 n = (if xs = [] then None else Some (xs ! up_of (length xs)))"
      using up by (simp add: h1_def)
  qed
  have "heap_insert lt h n = heap_up lt h2 n"
  proof -
    have "nelts h0 = length xs" using H0 by (simp add: heap_of_def)
    moreover have "nelts (assign s v g) = nelts g" for s v g by (cases s) simp_all
    ultimately show ?thesis
      using len walk unfolding heap_insert_def h0_def [symmetric] up_def [symmetric] Let_def
      by (simp add: h1_def h2_def)
  qed
  moreover have "\<exists>h' xs'. heap_up lt h2 ((xs @ [n]) ! length xs) = Some h' \<and> heap_of h' xs' \<and> ordered xs'
      \<and> mset xs' = mset (xs @ [n])"
    using H2 _ ordered_append_almost [OF O] by (rule heap_up_correct) simp
  ultimately show ?thesis by simp
qed

lemma ordered_butlast: "ordered xs \<Longrightarrow> ordered (butlast xs)"
proof -
  assume O: "ordered xs"
  have "edge (butlast xs) k" if "k < length (butlast xs)" "k \<noteq> 0" for k
  proof -
    have "up_of k < length (butlast xs)" using that by (simp add: up_of_def)
    then show ?thesis using O that by (auto simp: ordered_def edge_def nth_butlast)
  qed
  then show ?thesis by (simp add: ordered_def)
qed

lemma ordered_replace:
  assumes O: "ordered xs" and i: "i < length xs"
  shows "almost_down (xs[i := c]) i"
proof -
  have "edge (xs[i := c]) k" if "k < length xs" "k \<noteq> 0" "k \<noteq> i" "up_of k \<noteq> i" for k
    using O that by (simp add: ordered_def edge_def)
  moreover have "skips (xs[i := c]) i"
    unfolding skips_def length_list_update
  proof (intro allI impI)
    fix m
    assume m: "m < length xs" "m \<noteq> 0" "up_of m = i" "i \<noteq> 0"
    then have "m \<noteq> i" "up_of i \<noteq> i" by (auto simp: up_of_def)
    then show "\<not> lt (xs[i := c] ! m) (xs[i := c] ! up_of i)"
      using ordered_skips [OF O i] m by (simp add: skips_def)
  qed
  ultimately show ?thesis by (simp add: almost_down_def)
qed

lemma heap_remove_correct:
  assumes H: "heap_of h xs" and O: "ordered xs" and n: "n \<in> set xs"
  shows "\<exists>h' xs'. heap_remove lt h n = Some h' \<and> heap_of h' xs' \<and> ordered xs' \<and> mset xs' = mset xs - {#n#}"
proof -
  from n have ne: "xs \<noteq> []" by auto
  have len: "nelts h = length xs" "distinct xs" using H by (simp_all add: heap_of_def)
  define ys where "ys = butlast xs"
  define c where "c = last xs"
  have xs: "xs = ys @ [c]" using ne by (simp add: ys_def c_def)
  have c: "c \<notin> set ys" using len(2) by (simp add: xs)
  have N: "1 \<le> length xs" "length xs \<le> length xs + 1" by (simp_all add: xs)
  obtain path k where walk: "heap_path 0 0 (length xs) = (path, k)"
    "heap_walk h Root Root path k =
      Some (if length xs = 1 then Root else slot_of xs (length xs div 2), slot_of xs (length xs))"
    using heap_walk_number [OF H N] .
  have d: "deref h (slot_of xs (length xs)) = Some c"
    using deref_slot_of [OF H N] by (simp add: at_def xs)
  define h1 where "h1 = (assign (slot_of xs (length xs)) None h)\<lparr>nelts := nelts h - 1\<rparr>"
  have H1: "heap_of h1 ys" unfolding h1_def ys_def using H ne by (rule heap_of_butlast)
  have O1: "ordered ys" unfolding ys_def using O by (rule ordered_butlast)
  have comm: "deref (g\<lparr>nelts := m\<rparr>) s = deref g s" "assign s v (g\<lparr>nelts := m\<rparr>) = (assign s v g)\<lparr>nelts := m\<rparr>" for g m s v
    by (cases s; simp)+
  have unf: "heap_remove lt h n =
    (if c = n then Some (if Some c = heap_min h1 then h1\<lparr>heap_min := None\<rparr> else h1)
     else case heap_down lt (replace_node h1 n c) c of None \<Rightarrow> None | Some h \<Rightarrow> heap_up lt h c)"
  proof -
    have "nelts h \<noteq> 0" using len ne by simp
    moreover have "(assign (slot_of xs (length xs)) None h)\<lparr>nelts := length xs - 1\<rparr> = h1"
      unfolding h1_def len(1) by (rule refl)
    ultimately show ?thesis
      unfolding heap_remove_def len(1) walk(1) Let_def prod.case walk(2) option.case comm d
      by (simp only: replace_node_def Let_def len(1) if_False)
  qed
  show ?thesis
  proof (cases "c = n")
    case True
    have "Some c \<noteq> heap_min h1" using H1 c by (auto simp: heap_of_def at_def)
    moreover have "mset ys = mset xs - {#n#}" by (simp add: xs True)
    ultimately show ?thesis using True unf H1 O1 by auto
  next
    case False
    with n obtain i where i: "i < length ys" "ys ! i = n" by (auto simp: xs in_set_conv_nth)
    let ?zs = "ys[i := c]"
    have H2: "heap_of (replace_node h1 n c) ?zs" using heap_of_replace [OF H1 i(1) c] i(2) by simp
    have A: "almost_down ?zs i" using O1 i(1) by (rule ordered_replace)
    have z: "?zs ! i = c" "i < length ?zs" using i(1) by simp_all
    from heap_down_correct [OF H2 z(2) A] z(1) obtain h3 zs j where
      3: "heap_down lt (replace_node h1 n c) c = Some h3" "heap_of h3 zs" "j < length zs" "zs ! j = c"
        "almost_up zs j" "mset zs = mset ?zs" by auto
    from heap_up_correct [OF 3(2,3,5)] 3(4) obtain h4 xs' where
      4: "heap_up lt h3 c = Some h4" "heap_of h4 xs'" "ordered xs'" "mset xs' = mset zs" by auto
    have "n \<in># mset ys" using i by auto
    then have "mset ?zs = mset xs - {#n#}" using i False by (simp add: mset_update xs)
    with 3 4 unf False show ?thesis by auto
  qed
qed

end

end
