(* ===== verification/Uv_Timer.thy ===== *)
theory Uv_Timer
  imports Uv_Errno Uv_Heap "HOL-Library.Word" "HOL-Library.Monad_Syntax"
begin

text \<open>
  The timers of \<^verbatim>\<open>libuv/src/timer.c\<close> with the handle macros of \<^verbatim>\<open>uv-common.h\<close> they use.

  A timer handle and the heap node inside it have the same address, a \<open>node\<close>; \<open>timers\<close> is the memory of
  the handles.  All the handles belong to one loop.  Function pointers are values of a type \<open>'c\<close>, and
  what calling one does to the loop is a parameter of \<open>uv__run_timers\<close>; \<open>data\<close> is the \<open>void *data\<close> of the
  loop, which only the callbacks use.  \<open>None\<close> is a step through a NULL pointer or a loop that does not end.
\<close>

unbundle bit_operations_syntax

section \<open>The code\<close>

definition UV_HANDLE_CLOSING :: "32 word" where "UV_HANDLE_CLOSING = 1"
definition UV_HANDLE_CLOSED :: "32 word" where "UV_HANDLE_CLOSED = 2"
definition UV_HANDLE_ACTIVE :: "32 word" where "UV_HANDLE_ACTIVE = 4"
definition UV_HANDLE_REF :: "32 word" where "UV_HANDLE_REF = 8"
definition INT_MAX :: "64 word" where "INT_MAX = 0x7fffffff"

record 'c uv_timer =
  flags :: "32 word"
  timer_cb :: "'c option"
  timeout :: "64 word"
  repeat :: "64 word"
  start_id :: "64 word"
  next_closing :: "node option"
  close_cb :: "'c option"

record ('c, 'd) uv_loop =
  time :: "64 word"
  timer_counter :: "64 word"
  active_handles :: "32 word"
  timer_heap :: heap
  timers :: "node \<Rightarrow> 'c uv_timer"
  handle_queue :: "node list"
  closing_handles :: "node option"
  data :: 'd

definition upd :: "node \<Rightarrow> ('c uv_timer \<Rightarrow> 'c uv_timer) \<Rightarrow> ('c, 'd) uv_loop \<Rightarrow> ('c, 'd) uv_loop" where
  "upd n f L = L\<lparr>timers := (timers L)(n := f (timers L n))\<rparr>"

definition uv__is_active :: "('c, 'd) uv_loop \<Rightarrow> node \<Rightarrow> bool" where
  "uv__is_active L n = (flags (timers L n) AND UV_HANDLE_ACTIVE \<noteq> 0)"

definition uv__is_closing :: "('c, 'd) uv_loop \<Rightarrow> node \<Rightarrow> bool" where
  "uv__is_closing L n = (flags (timers L n) AND (UV_HANDLE_CLOSING OR UV_HANDLE_CLOSED) \<noteq> 0)"

definition uv__has_ref :: "('c, 'd) uv_loop \<Rightarrow> node \<Rightarrow> bool" where
  "uv__has_ref L n = (flags (timers L n) AND UV_HANDLE_REF \<noteq> 0)"

definition uv__active_handle_add :: "('c, 'd) uv_loop \<Rightarrow> ('c, 'd) uv_loop" where
  "uv__active_handle_add L = L\<lparr>active_handles := active_handles L + 1\<rparr>"

definition uv__active_handle_rm :: "('c, 'd) uv_loop \<Rightarrow> ('c, 'd) uv_loop" where
  "uv__active_handle_rm L = L\<lparr>active_handles := active_handles L - 1\<rparr>"

definition uv__handle_start :: "('c, 'd) uv_loop \<Rightarrow> node \<Rightarrow> ('c, 'd) uv_loop" where
  "uv__handle_start L n =
     (if uv__is_active L n then L
      else let L = upd n (\<lambda>t. t\<lparr>flags := flags t OR UV_HANDLE_ACTIVE\<rparr>) L
           in if uv__has_ref L n then uv__active_handle_add L else L)"

definition uv__handle_stop :: "('c, 'd) uv_loop \<Rightarrow> node \<Rightarrow> ('c, 'd) uv_loop" where
  "uv__handle_stop L n =
     (if \<not> uv__is_active L n then L
      else let L = upd n (\<lambda>t. t\<lparr>flags := flags t AND NOT UV_HANDLE_ACTIVE\<rparr>) L
           in if uv__has_ref L n then uv__active_handle_rm L else L)"

definition uv__handle_ref :: "('c, 'd) uv_loop \<Rightarrow> node \<Rightarrow> ('c, 'd) uv_loop" where
  "uv__handle_ref L n =
     (if uv__has_ref L n then L
      else let L = upd n (\<lambda>t. t\<lparr>flags := flags t OR UV_HANDLE_REF\<rparr>) L
           in if flags (timers L n) AND UV_HANDLE_CLOSING \<noteq> 0 then L
              else if uv__is_active L n then uv__active_handle_add L else L)"

definition uv__handle_unref :: "('c, 'd) uv_loop \<Rightarrow> node \<Rightarrow> ('c, 'd) uv_loop" where
  "uv__handle_unref L n =
     (if \<not> uv__has_ref L n then L
      else let L = upd n (\<lambda>t. t\<lparr>flags := flags t AND NOT UV_HANDLE_REF\<rparr>) L
           in if flags (timers L n) AND UV_HANDLE_CLOSING \<noteq> 0 then L
              else if uv__is_active L n then uv__active_handle_rm L else L)"

definition uv__handle_init :: "('c, 'd) uv_loop \<Rightarrow> node \<Rightarrow> ('c, 'd) uv_loop" where
  "uv__handle_init L n =
     (let L = upd n (\<lambda>t. t\<lparr>flags := UV_HANDLE_REF\<rparr>) L;
          L = L\<lparr>handle_queue := handle_queue L @ [n]\<rparr>
      in upd n (\<lambda>t. t\<lparr>next_closing := None\<rparr>) L)"

definition timer_less_than :: "('c, 'd) uv_loop \<Rightarrow> node \<Rightarrow> node \<Rightarrow> bool" where
  "timer_less_than L ha hb =
     (let a = timers L ha; b = timers L hb
      in if timeout a < timeout b then True
         else if timeout b < timeout a then False
         else start_id a < start_id b)"

definition uv_timer_init :: "('c, 'd) uv_loop \<Rightarrow> node \<Rightarrow> int \<times> ('c, 'd) uv_loop" where
  "uv_timer_init L n =
     (let L = uv__handle_init L n;
          L = upd n (\<lambda>t. t\<lparr>timer_cb := None\<rparr>) L;
          L = upd n (\<lambda>t. t\<lparr>repeat := 0\<rparr>) L
      in (0, L))"

definition uv_timer_stop :: "('c, 'd) uv_loop \<Rightarrow> node \<Rightarrow> (int \<times> ('c, 'd) uv_loop) option" where
  "uv_timer_stop L n =
     (if \<not> uv__is_active L n then Some (0, L)
      else do {
        h \<leftarrow> heap_remove (timer_less_than L) (timer_heap L) n;
        let L = L\<lparr>timer_heap := h\<rparr>;
        let L = uv__handle_stop L n;
        Some (0, L)
      })"

definition uv_timer_start ::
    "('c, 'd) uv_loop \<Rightarrow> node \<Rightarrow> 'c option \<Rightarrow> 64 word \<Rightarrow> 64 word \<Rightarrow> (int \<times> ('c, 'd) uv_loop) option" where
  "uv_timer_start L n cb to rep =
     (if uv__is_closing L n \<or> cb = None then Some (UV_EINVAL, L)
      else do {
        (_, L) \<leftarrow> (if uv__is_active L n then uv_timer_stop L n else Some (0, L));
        let clamped_timeout = time L + to;
        let clamped_timeout = (if clamped_timeout < to then - 1 else clamped_timeout);
        let L = upd n (\<lambda>t. t\<lparr>timer_cb := cb\<rparr>) L;
        let L = upd n (\<lambda>t. t\<lparr>timeout := clamped_timeout\<rparr>) L;
        let L = upd n (\<lambda>t. t\<lparr>repeat := rep\<rparr>) L;
        let L = upd n (\<lambda>t. t\<lparr>start_id := timer_counter L\<rparr>) L;
        let L = L\<lparr>timer_counter := timer_counter L + 1\<rparr>;
        h \<leftarrow> heap_insert (timer_less_than L) (timer_heap L) n;
        let L = L\<lparr>timer_heap := h\<rparr>;
        let L = uv__handle_start L n;
        Some (0, L)
      })"

definition uv_timer_again :: "('c, 'd) uv_loop \<Rightarrow> node \<Rightarrow> (int \<times> ('c, 'd) uv_loop) option" where
  "uv_timer_again L n =
     (if timer_cb (timers L n) = None then Some (UV_EINVAL, L)
      else if repeat (timers L n) \<noteq> 0 then do {
        (_, L) \<leftarrow> uv_timer_stop L n;
        (_, L) \<leftarrow> uv_timer_start L n (timer_cb (timers L n)) (repeat (timers L n)) (repeat (timers L n));
        Some (0, L)
      }
      else Some (0, L))"

definition uv_timer_set_repeat :: "('c, 'd) uv_loop \<Rightarrow> node \<Rightarrow> 64 word \<Rightarrow> ('c, 'd) uv_loop" where
  "uv_timer_set_repeat L n rep = upd n (\<lambda>t. t\<lparr>repeat := rep\<rparr>) L"

definition uv_timer_get_repeat :: "('c, 'd) uv_loop \<Rightarrow> node \<Rightarrow> 64 word" where
  "uv_timer_get_repeat L n = repeat (timers L n)"

definition uv__next_timeout :: "('c, 'd) uv_loop \<Rightarrow> int" where
  "uv__next_timeout L =
     (case heap_min (timer_heap L) of
        None \<Rightarrow> - 1
      | Some n \<Rightarrow>
          if timeout (timers L n) \<le> time L then 0
          else let diff = timeout (timers L n) - time L;
                   diff = (if diff > INT_MAX then INT_MAX else diff)
               in sint (ucast diff :: 32 word))"

text \<open>The body of the loop of \<open>uv__run_timers\<close>, and the loop.\<close>

definition uv__run_timer ::
    "('c \<Rightarrow> node \<Rightarrow> ('c, 'd) uv_loop \<Rightarrow> ('c, 'd) uv_loop option) \<Rightarrow> ('c, 'd) uv_loop \<Rightarrow> node \<Rightarrow> ('c, 'd) uv_loop option" where
  "uv__run_timer call L n = do {
     (_, L) \<leftarrow> uv_timer_stop L n;
     (_, L) \<leftarrow> uv_timer_again L n;
     cb \<leftarrow> timer_cb (timers L n);
     call cb n L
   }"

partial_function (option) uv__run_timers ::
    "('c \<Rightarrow> node \<Rightarrow> ('c, 'd) uv_loop \<Rightarrow> ('c, 'd) uv_loop option) \<Rightarrow> ('c, 'd) uv_loop \<Rightarrow> ('c, 'd) uv_loop option" where
  "uv__run_timers call L =
     (case heap_min (timer_heap L) of
        None \<Rightarrow> Some L
      | Some n \<Rightarrow>
          if timeout (timers L n) > time L then Some L
          else do {
            L \<leftarrow> uv__run_timer call L n;
            uv__run_timers call L
          })"

definition uv__timer_close :: "('c, 'd) uv_loop \<Rightarrow> node \<Rightarrow> (int \<times> ('c, 'd) uv_loop) option" where
  "uv__timer_close L n = uv_timer_stop L n"

text \<open>The branch of \<open>uv_close\<close> for timers.  \<open>None\<close> is also a failed assertion.\<close>

definition uv__make_close_pending :: "('c, 'd) uv_loop \<Rightarrow> node \<Rightarrow> ('c, 'd) uv_loop option" where
  "uv__make_close_pending L n =
     (if flags (timers L n) AND UV_HANDLE_CLOSING = 0 then None
      else if flags (timers L n) AND UV_HANDLE_CLOSED \<noteq> 0 then None
      else let L = upd n (\<lambda>t. t\<lparr>next_closing := closing_handles L\<rparr>) L
           in Some (L\<lparr>closing_handles := Some n\<rparr>))"

definition uv_close :: "('c, 'd) uv_loop \<Rightarrow> node \<Rightarrow> 'c option \<Rightarrow> ('c, 'd) uv_loop option" where
  "uv_close L n cb =
     (if uv__is_closing L n then None
      else do {
        let L = upd n (\<lambda>t. t\<lparr>flags := flags t OR UV_HANDLE_CLOSING\<rparr>) L;
        let L = upd n (\<lambda>t. t\<lparr>close_cb := cb\<rparr>) L;
        (_, L) \<leftarrow> uv__timer_close L n;
        uv__make_close_pending L n
      })"

text \<open>The loop that \<open>uv_loop_init\<close> leaves, over a memory of handles.\<close>

definition uv_loop_init :: "64 word \<Rightarrow> (node \<Rightarrow> 'c uv_timer) \<Rightarrow> 'd \<Rightarrow> ('c, 'd) uv_loop" where
  "uv_loop_init now mem d =
     \<lparr>time = now, timer_counter = 0, active_handles = 0,
      timer_heap = heap_init \<lparr>heap_min = None, nelts = 0, left = \<lambda>_. None, right = \<lambda>_. None, parent = \<lambda>_. None\<rparr>,
      timers = mem, handle_queue = [], closing_handles = None, data = d\<rparr>"

section \<open>Flags\<close>

lemma uv__is_active_iff: "uv__is_active L n \<longleftrightarrow> bit (flags (timers L n)) 2"
  unfolding uv__is_active_def UV_HANDLE_ACTIVE_def
  using and_exp_eq_0_iff_not_bit [of "flags (timers L n)" 2] by simp

lemma uv__has_ref_iff: "uv__has_ref L n \<longleftrightarrow> bit (flags (timers L n)) 3"
  unfolding uv__has_ref_def UV_HANDLE_REF_def
  using and_exp_eq_0_iff_not_bit [of "flags (timers L n)" 3] by simp

lemma uv__is_closing_iff: "uv__is_closing L n \<longleftrightarrow> bit (flags (timers L n)) 0 \<or> bit (flags (timers L n)) 1"
proof -
  let ?f = "flags (timers L n)"
  have "?f AND (1 OR 2) = 0 \<longleftrightarrow> ?f AND 1 = 0 \<and> ?f AND 2 = 0"
    unfolding bit.conj_disj_distrib or_eq_0_iff by (rule refl)
  then show ?thesis
    unfolding uv__is_closing_def UV_HANDLE_CLOSING_def UV_HANDLE_CLOSED_def
    using and_exp_eq_0_iff_not_bit [of ?f 0] and_exp_eq_0_iff_not_bit [of ?f 1] by auto
qed

lemma bit_flags:
  "bit (w OR UV_HANDLE_ACTIVE) k \<longleftrightarrow> bit w k \<or> k = 2"
  "bit (w AND NOT UV_HANDLE_ACTIVE) k \<longleftrightarrow> bit w k \<and> k \<noteq> 2"
  "bit (w OR UV_HANDLE_REF) k \<longleftrightarrow> bit w k \<or> k = 3"
  "bit (w AND NOT UV_HANDLE_REF) k \<longleftrightarrow> bit w k \<and> k \<noteq> 3"
  "bit UV_HANDLE_REF k \<longleftrightarrow> k = 3" "bit UV_HANDLE_ACTIVE k \<longleftrightarrow> k = 2"
proof -
  have "bit (4 :: 32 word) k \<longleftrightarrow> k = 2" "bit (8 :: 32 word) k \<longleftrightarrow> k = 3" for k
    using bit_exp_iff [of 2 k, where 'a = "32 word"] bit_exp_iff [of 3 k, where 'a = "32 word"]
    by auto
  note b = this
  have k: "bit w k \<Longrightarrow> k < 32" using bit_imp_le_length [of w k] by simp
  show "bit (w OR UV_HANDLE_ACTIVE) k \<longleftrightarrow> bit w k \<or> k = 2"
    "bit (w OR UV_HANDLE_REF) k \<longleftrightarrow> bit w k \<or> k = 3" "bit UV_HANDLE_REF k \<longleftrightarrow> k = 3" "bit UV_HANDLE_ACTIVE k \<longleftrightarrow> k = 2"
    unfolding UV_HANDLE_ACTIVE_def UV_HANDLE_REF_def bit_or_iff b by (rule refl)+
  show "bit (w AND NOT UV_HANDLE_ACTIVE) k \<longleftrightarrow> bit w k \<and> k \<noteq> 2"
    "bit (w AND NOT UV_HANDLE_REF) k \<longleftrightarrow> bit w k \<and> k \<noteq> 3"
    unfolding UV_HANDLE_ACTIVE_def UV_HANDLE_REF_def bit_and_iff bit_not_iff b using k by auto
qed

lemma clear_active: "\<not> bit w 2 \<Longrightarrow> w AND NOT UV_HANDLE_ACTIVE = w"
  by (rule bit_word_eqI) (auto simp: bit_flags)

lemma set_active: "bit w 2 \<Longrightarrow> w OR UV_HANDLE_ACTIVE = w"
  by (rule bit_word_eqI) (auto simp: bit_flags)

lemma set_clear_active: "w AND NOT UV_HANDLE_ACTIVE OR UV_HANDLE_ACTIVE = w OR UV_HANDLE_ACTIVE"
  by (rule bit_word_eqI) (auto simp: bit_flags)

lemma upd_simps [simp]:
  "timers (upd n f L) = (timers L)(n := f (timers L n))" "time (upd n f L) = time L"
  "timer_counter (upd n f L) = timer_counter L" "active_handles (upd n f L) = active_handles L"
  "timer_heap (upd n f L) = timer_heap L" "handle_queue (upd n f L) = handle_queue L"
  "closing_handles (upd n f L) = closing_handles L" "data (upd n f L) = data L"
  by (simp_all add: upd_def)

section \<open>The invariant\<close>

interpretation tl: heap_order "timer_less_than L" for L :: "('c, 'd) uv_loop"
  by unfold_locales (auto simp: timer_less_than_def Let_def split: if_splits)

abbreviation timers_ordered :: "('c, 'd) uv_loop \<Rightarrow> node list \<Rightarrow> bool" where
  "timers_ordered L \<equiv> heap_order.ordered (timer_less_than L)"

definition active :: "('c, 'd) uv_loop \<Rightarrow> node set" where
  "active L = {n. uv__is_active L n}"

definition queued :: "('c, 'd) uv_loop \<Rightarrow> node list \<Rightarrow> bool" where
  "queued L xs = (heap_of (timer_heap L) xs \<and> timers_ordered L xs \<and> set xs = active L)"

text \<open>The heap holds exactly the active timers, in order, and the count of active handles is that of the
  active timers that keep the loop alive; and an active timer has a callback and is not closing.\<close>

definition timer_core :: "('c, 'd) uv_loop \<Rightarrow> bool" where
  "timer_core L =
     ((\<exists>xs. queued L xs) \<and> active_handles L = of_nat (card {n \<in> active L. uv__has_ref L n}))"

definition timer_inv :: "('c, 'd) uv_loop \<Rightarrow> bool" where
  "timer_inv L =
     (timer_core L \<and> (\<forall>n. uv__is_active L n \<longrightarrow> timer_cb (timers L n) \<noteq> None \<and> \<not> uv__is_closing L n))"

lemma finite_core: "timer_core L \<Longrightarrow> finite (active L)"
  by (auto simp: timer_core_def queued_def) (metis finite_set)

lemma finite_active: "timer_inv L \<Longrightarrow> finite (active L)"
  by (simp add: timer_inv_def finite_core)

lemma timer_less_than_cong:
  assumes "\<And>n. n \<in> {a, b} \<Longrightarrow> timeout (timers L n) = timeout (timers L' n) \<and> start_id (timers L n) = start_id (timers L' n)"
  shows "timer_less_than L a b = timer_less_than L' a b"
  using assms by (simp add: timer_less_than_def Let_def)

lemma ordered_cong:
  assumes "\<And>n. n \<in> set xs \<Longrightarrow> timeout (timers L n) = timeout (timers L' n) \<and> start_id (timers L n) = start_id (timers L' n)"
  shows "timers_ordered L xs = timers_ordered L' xs"
proof -
  have "heap_order.edge (timer_less_than L) xs k = heap_order.edge (timer_less_than L') xs k" if "k < length xs" "k \<noteq> 0" for k
  proof -
    have "up_of k < length xs" using that by (simp add: up_of_def)
    then have "timer_less_than L (xs ! k) (xs ! up_of k) = timer_less_than L' (xs ! k) (xs ! up_of k)"
      using that by (intro timer_less_than_cong assms) auto
    then show ?thesis by (simp add: tl.edge_def)
  qed
  then show ?thesis by (auto simp: tl.ordered_def)
qed

lemma timer_less_than_eq:
  "timers L = timers L' \<Longrightarrow> timer_less_than L = timer_less_than L'"
  by (simp add: timer_less_than_def fun_eq_iff)

section \<open>Starting and stopping\<close>

definition clamp_add :: "64 word \<Rightarrow> 64 word \<Rightarrow> 64 word" where
  "clamp_add t d = (if t + d < d then - 1 else t + d)"

lemma unat_clamp_add: "unat (clamp_add t d) = min (unat t + unat d) (2 ^ 64 - 1)"
proof -
  have "unat (t + d) = (unat t + unat d) mod 2 ^ 64" by (simp add: unat_word_ariths)
  moreover have "unat t < 2 ^ 64" "unat d < 2 ^ 64" using unsigned_less [of t, where 'a = nat] unsigned_less [of d, where 'a = nat] by simp_all
  moreover have "unat (- 1 :: 64 word) = 2 ^ 64 - 1" by (simp add: unsigned_minus_1_eq_mask mask_eq_exp_minus_1)
  ultimately show ?thesis
    by (auto simp: clamp_add_def word_less_nat_alt mod_if min_def)
qed

definition stopped :: "'c uv_timer \<Rightarrow> 'c uv_timer" where
  "stopped t = t\<lparr>flags := flags t AND NOT UV_HANDLE_ACTIVE\<rparr>"

definition started :: "('c, 'd) uv_loop \<Rightarrow> 'c \<Rightarrow> 64 word \<Rightarrow> 64 word \<Rightarrow> 'c uv_timer \<Rightarrow> 'c uv_timer" where
  "started L cb to rep t =
     t\<lparr>flags := flags t OR UV_HANDLE_ACTIVE, timer_cb := Some cb, timeout := clamp_add (time L) to,
       repeat := rep, start_id := timer_counter L\<rparr>"

lemma heap_insert_queued:
  assumes "heap_of h xs" "timers_ordered L xs" "n \<notin> set xs" "card (set xs) + 1 < 2 ^ 32"
  shows "\<exists>h' xs'. heap_insert (timer_less_than L) h n = Some h' \<and> heap_of h' xs' \<and> timers_ordered L xs'
    \<and> set xs' = insert n (set xs)"
proof -
  have "length xs + 1 < 2 ^ 32" using assms(1,4) by (simp add: heap_of_def distinct_card)
  from tl.heap_insert_correct [OF assms(1-3) this] show ?thesis
    by (metis set_mset_mset set_mset_add_mset_insert)
qed

lemma heap_remove_queued:
  assumes "heap_of h xs" "timers_ordered L xs" "n \<in> set xs"
  shows "\<exists>h' xs'. heap_remove (timer_less_than L) h n = Some h' \<and> heap_of h' xs' \<and> timers_ordered L xs'
    \<and> set xs' = set xs - {n}"
proof -
  from tl.heap_remove_correct [OF assms] obtain h' xs' where
    *: "heap_remove (timer_less_than L) h n = Some h'" "heap_of h' xs'" "timers_ordered L xs'"
      "mset xs' = mset xs - {#n#}" by blast
  have "distinct xs" using assms(1) by (simp add: heap_of_def)
  then have "set xs' = set xs - {n}"
    using *(4) by (metis distinct_remove1_removeAll mset_remove1 mset_eq_setD set_removeAll)
  with * show ?thesis by blast
qed

lemma stop_core:
  assumes I: "timer_core L"
  shows "\<exists>h a. uv_timer_stop L n = Some (0, (upd n stopped L)\<lparr>timer_heap := h, active_handles := a\<rparr>)
    \<and> timer_core ((upd n stopped L)\<lparr>timer_heap := h, active_handles := a\<rparr>)"
proof (cases "uv__is_active L n")
  case False
  then have "stopped (timers L n) = timers L n"
    by (simp add: stopped_def clear_active uv__is_active_iff)
  then have "(upd n stopped L)\<lparr>timer_heap := timer_heap L, active_handles := active_handles L\<rparr> = L"
    by (simp add: upd_def)
  then show ?thesis using False I by (metis uv_timer_stop_def)
next
  case True
  from I obtain xs where xs: "heap_of (timer_heap L) xs" "timers_ordered L xs" "set xs = active L"
    by (auto simp: timer_core_def queued_def)
  have n: "n \<in> set xs" using True xs(3) by (simp add: active_def)
  from heap_remove_queued [OF xs(1,2) n] obtain h ys where
    h: "heap_remove (timer_less_than L) (timer_heap L) n = Some h" "heap_of h ys" "timers_ordered L ys"
      "set ys = active L - {n}" unfolding xs(3) by blast
  define a where "a = (if uv__has_ref L n then active_handles L - 1 else active_handles L)"
  let ?L = "(upd n stopped L)\<lparr>timer_heap := h, active_handles := a\<rparr>"
  have ref: "uv__has_ref ?L m = uv__has_ref L m" "uv__is_closing ?L m = uv__is_closing L m" for m
    by (simp_all add: uv__has_ref_iff uv__is_closing_iff stopped_def bit_flags)
  have act: "active ?L = active L - {n}"
    by (auto simp: active_def uv__is_active_iff stopped_def bit_flags)
  have "uv_timer_stop L n = Some (0, ?L)"
    using True h(1) by (simp add: uv_timer_stop_def uv__handle_stop_def uv__is_active_def uv__has_ref_iff
        uv__active_handle_rm_def stopped_def upd_def bit_flags a_def)
  moreover have "timers_ordered ?L ys"
    using h(3) ordered_cong [of ys ?L L] by (simp add: stopped_def)
  moreover have "a = of_nat (card {m \<in> active L - {n}. uv__has_ref L m})"
  proof (cases "uv__has_ref L n")
    case ref: True
    have "{m \<in> active L. uv__has_ref L m} = insert n {m \<in> active L - {n}. uv__has_ref L m}"
      using True ref by (auto simp: active_def)
    moreover have "finite {m \<in> active L - {n}. uv__has_ref L m}" using finite_core [OF I] by simp
    ultimately show ?thesis using I ref by (simp add: a_def timer_core_def)
  next
    case False
    then have "{m \<in> active L - {n}. uv__has_ref L m} = {m \<in> active L. uv__has_ref L m}" by auto
    then show ?thesis using I False by (simp add: a_def timer_core_def)
  qed
  ultimately have "timer_core ?L"
    unfolding timer_core_def queued_def using h(2,4) act ref by auto
  with \<open>uv_timer_stop L n = _\<close> show ?thesis by blast
qed

lemma stop_correct:
  assumes I: "timer_inv L"
  shows "\<exists>h a. uv_timer_stop L n = Some (0, (upd n stopped L)\<lparr>timer_heap := h, active_handles := a\<rparr>)
    \<and> timer_inv ((upd n stopped L)\<lparr>timer_heap := h, active_handles := a\<rparr>)"
proof -
  from I have "timer_core L" by (simp add: timer_inv_def)
  from stop_core [OF this, of n] obtain h a where
    s: "uv_timer_stop L n = Some (0, (upd n stopped L)\<lparr>timer_heap := h, active_handles := a\<rparr>)"
      "timer_core ((upd n stopped L)\<lparr>timer_heap := h, active_handles := a\<rparr>)" by blast
  moreover have "timer_cb (timers ((upd n stopped L)\<lparr>timer_heap := h, active_handles := a\<rparr>) m) \<noteq> None
      \<and> \<not> uv__is_closing ((upd n stopped L)\<lparr>timer_heap := h, active_handles := a\<rparr>) m"
    if "uv__is_active ((upd n stopped L)\<lparr>timer_heap := h, active_handles := a\<rparr>) m" for m
    using that I by (auto simp: timer_inv_def uv__is_active_iff uv__is_closing_iff stopped_def bit_flags
        split: if_splits)
  ultimately show ?thesis unfolding timer_inv_def by blast
qed

lemma start_inactive:
  assumes I: "timer_inv L" and n: "\<not> uv__is_active L n" "\<not> uv__is_closing L n"
    and c: "card (active L - {n}) + 1 < 2 ^ 32"
  shows "\<exists>h a. let L' = (upd n (started L f to rep) L)\<lparr>timer_counter := timer_counter L + 1,
      timer_heap := h, active_handles := a\<rparr>
    in uv_timer_start L n (Some f) to rep = Some (0, L') \<and> timer_inv L'"
proof -
  from I obtain xs where xs: "heap_of (timer_heap L) xs" "timers_ordered L xs" "set xs = active L"
    by (auto simp: timer_inv_def timer_core_def queued_def)
  have nx: "n \<notin> set xs" using n(1) xs(3) by (simp add: active_def)
  define g where "g t = t\<lparr>timer_cb := Some f, timeout := clamp_add (time L) to, repeat := rep,
      start_id := timer_counter L\<rparr>" for t :: "'a uv_timer"
  define M where "M = (upd n g L)\<lparr>timer_counter := timer_counter L + 1\<rparr>"
  have "timers_ordered M xs = timers_ordered L xs" using nx by (intro ordered_cong) (auto simp: M_def)
  with xs(2) have "timers_ordered M xs" by simp
  moreover have "active L - {n} = active L" using nx xs(3) by simp
  ultimately obtain h ys where
    h: "heap_insert (timer_less_than M) (timer_heap L) n = Some h" "heap_of h ys" "timers_ordered M ys"
      "set ys = insert n (active L)" using heap_insert_queued [OF xs(1) _ nx, of M] c unfolding xs(3) by auto
  define a where "a = (if uv__has_ref L n then active_handles L + 1 else active_handles L)"
  let ?L = "(upd n (started L f to rep) L)\<lparr>timer_counter := timer_counter L + 1, timer_heap := h, active_handles := a\<rparr>"
  have eq: "upd n g L\<lparr>timer_counter := timer_counter L + 1\<rparr> = M" by (simp add: M_def)
  have M: "(upd n (\<lambda>t. t\<lparr>start_id := timer_counter L\<rparr>) (upd n (\<lambda>t. t\<lparr>repeat := rep\<rparr>)
       (upd n (\<lambda>t. t\<lparr>timeout := clamp_add (time L) to\<rparr>) (upd n (\<lambda>t. t\<lparr>timer_cb := Some f\<rparr>) L))))
       \<lparr>timer_counter := timer_counter L + 1\<rparr> = M"
    by (simp add: M_def g_def upd_def)
  have act: "active ?L = insert n (active L)" "uv__has_ref ?L m = uv__has_ref L m"
     "uv__is_closing ?L m = uv__is_closing L m" for m
    by (auto simp: active_def uv__is_active_iff uv__has_ref_iff uv__is_closing_iff started_def bit_flags)
  have "uv_timer_start L n (Some f) to rep = Some (0, uv__handle_start (M\<lparr>timer_heap := h\<rparr>) n)"
    using n M h(1) by (simp add: uv_timer_start_def Let_def clamp_add_def [symmetric])
  moreover have "uv__handle_start (M\<lparr>timer_heap := h\<rparr>) n = ?L"
    using n(1) by (cases L, cases "timers L n") (simp add: uv__handle_start_def uv__is_active_iff uv__has_ref_iff
        M_def g_def upd_def uv__active_handle_add_def a_def started_def bit_flags)
  moreover have "timers_ordered ?L ys"
    using h(3) ordered_cong [of ys ?L M] by (simp add: started_def M_def g_def)
  moreover have "a = of_nat (card {m \<in> insert n (active L). uv__has_ref L m})"
  proof (cases "uv__has_ref L n")
    case True
    then have "{m \<in> insert n (active L). uv__has_ref L m} = insert n {m \<in> active L. uv__has_ref L m}" by auto
    moreover have "n \<notin> {m \<in> active L. uv__has_ref L m}" using n(1) by (simp add: active_def)
    ultimately show ?thesis using I True finite_active [OF I] by (simp add: a_def timer_inv_def timer_core_def)
  next
    case False
    then have "{m \<in> insert n (active L). uv__has_ref L m} = {m \<in> active L. uv__has_ref L m}" by auto
    then show ?thesis using I False by (simp add: a_def timer_inv_def timer_core_def)
  qed
  moreover have "timer_cb (timers ?L m) \<noteq> None \<and> \<not> uv__is_closing ?L m" if "uv__is_active ?L m" for m
  proof (cases "m = n")
    case True
    then show ?thesis using n(2) act(3) [of n] by (simp add: started_def)
  next
    case False
    then have "uv__is_active L m" using that act(1) by (auto simp: active_def)
    then show ?thesis using I False act(3) by (simp add: timer_inv_def)
  qed
  ultimately have "timer_inv ?L" "uv_timer_start L n (Some f) to rep = Some (0, ?L)"
    unfolding timer_inv_def timer_core_def queued_def using h(2,4) act by auto
  then show ?thesis unfolding Let_def by blast
qed

lemma start_correct:
  assumes I: "timer_inv L" and n: "\<not> uv__is_closing L n" and c: "card (active L - {n}) + 1 < 2 ^ 32"
  shows "\<exists>h a. let L' = (upd n (started L f to rep) L)\<lparr>timer_counter := timer_counter L + 1,
      timer_heap := h, active_handles := a\<rparr>
    in uv_timer_start L n (Some f) to rep = Some (0, L') \<and> timer_inv L'"
proof (cases "uv__is_active L n")
  case False
  then show ?thesis using start_inactive [OF I _ n c] by blast
next
  case True
  from stop_correct [OF I, of n] obtain h a where
    s: "uv_timer_stop L n = Some (0, (upd n stopped L)\<lparr>timer_heap := h, active_handles := a\<rparr>)"
      "timer_inv ((upd n stopped L)\<lparr>timer_heap := h, active_handles := a\<rparr>)" by blast
  let ?L = "(upd n stopped L)\<lparr>timer_heap := h, active_handles := a\<rparr>"
  have S: "\<not> uv__is_active ?L n" "\<not> uv__is_closing ?L n"
    using n by (auto simp: uv__is_active_iff uv__is_closing_iff stopped_def bit_flags)
  have "active ?L - {n} = active L - {n}" by (auto simp: active_def uv__is_active_iff stopped_def bit_flags)
  then have c': "card (active ?L - {n}) + 1 < 2 ^ 32" using c by simp
  from start_inactive [OF s(2) S c', of f to rep] obtain h' a' where
    r: "uv_timer_start ?L n (Some f) to rep = Some (0, (upd n (started ?L f to rep) ?L)
        \<lparr>timer_counter := timer_counter L + 1, timer_heap := h', active_handles := a'\<rparr>)"
      "timer_inv ((upd n (started ?L f to rep) ?L)\<lparr>timer_counter := timer_counter L + 1, timer_heap := h', active_handles := a'\<rparr>)"
    by (auto simp: Let_def)
  have "uv_timer_start L n (Some f) to rep = uv_timer_start ?L n (Some f) to rep"
    using True S n s(1) by (simp add: uv_timer_start_def)
  moreover have "(upd n (started ?L f to rep) ?L)\<lparr>timer_counter := timer_counter L + 1, timer_heap := h', active_handles := a'\<rparr>
      = (upd n (started L f to rep) L)\<lparr>timer_counter := timer_counter L + 1, timer_heap := h', active_handles := a'\<rparr>"
    by (simp add: upd_def started_def stopped_def set_clear_active)
  ultimately show ?thesis using r unfolding Let_def by metis
qed

text \<open>\<open>uv_timer_again\<close> restarts a repeating timer and leaves the others.\<close>

lemma again_correct:
  assumes I: "timer_inv L" and cb: "timer_cb (timers L n) = Some f" and n: "\<not> uv__is_closing L n"
    and r: "repeat (timers L n) \<noteq> 0" and c: "card (active L - {n}) + 1 < 2 ^ 32"
  shows "\<exists>h a. let L' = (upd n (started L f (repeat (timers L n)) (repeat (timers L n))) L)
      \<lparr>timer_counter := timer_counter L + 1, timer_heap := h, active_handles := a\<rparr>
    in uv_timer_again L n = Some (0, L') \<and> timer_inv L'"
proof -
  from stop_correct [OF I, of n] obtain h a where
    s: "uv_timer_stop L n = Some (0, (upd n stopped L)\<lparr>timer_heap := h, active_handles := a\<rparr>)"
      "timer_inv ((upd n stopped L)\<lparr>timer_heap := h, active_handles := a\<rparr>)" by blast
  let ?L = "(upd n stopped L)\<lparr>timer_heap := h, active_handles := a\<rparr>" and ?r = "repeat (timers L n)"
  have S: "\<not> uv__is_closing ?L n" "timer_cb (timers ?L n) = Some f" "repeat (timers ?L n) = ?r"
    using n cb by (auto simp: uv__is_closing_iff stopped_def bit_flags)
  have "active ?L - {n} = active L - {n}" by (auto simp: active_def uv__is_active_iff stopped_def bit_flags)
  then have c': "card (active ?L - {n}) + 1 < 2 ^ 32" using c by simp
  from start_correct [OF s(2) S(1) c', of f ?r ?r] obtain h' a' where
    t: "uv_timer_start ?L n (Some f) ?r ?r = Some (0, (upd n (started ?L f ?r ?r) ?L)
        \<lparr>timer_counter := timer_counter L + 1, timer_heap := h', active_handles := a'\<rparr>)"
      "timer_inv ((upd n (started ?L f ?r ?r) ?L)\<lparr>timer_counter := timer_counter L + 1, timer_heap := h', active_handles := a'\<rparr>)"
    by (auto simp: Let_def)
  have "(upd n (started ?L f ?r ?r) ?L)\<lparr>timer_counter := timer_counter L + 1, timer_heap := h', active_handles := a'\<rparr>
      = (upd n (started L f ?r ?r) L)\<lparr>timer_counter := timer_counter L + 1, timer_heap := h', active_handles := a'\<rparr>"
    by (simp add: upd_def started_def stopped_def set_clear_active)
  moreover have "uv_timer_again L n = (case uv_timer_start ?L n (Some f) ?r ?r of None \<Rightarrow> None | Some (_, L) \<Rightarrow> Some (0, L))"
    using s(1) S cb r by (auto simp: uv_timer_again_def split: option.splits)
  ultimately show ?thesis using t unfolding Let_def by (metis option.case(2) prod.case)
qed

section \<open>The other operations\<close>

text \<open>What the invariant reads of a handle is its flags and, when it is active, its place and callback.\<close>

lemma timer_inv_cong:
  assumes I: "timer_inv L" and h: "timer_heap L' = timer_heap L"
    and f: "\<And>n. uv__is_active L' n = uv__is_active L n"
    and p: "\<And>n. uv__is_active L n \<Longrightarrow> timeout (timers L' n) = timeout (timers L n)
      \<and> start_id (timers L' n) = start_id (timers L n) \<and> timer_cb (timers L' n) \<noteq> None \<and> \<not> uv__is_closing L' n"
    and a: "active_handles L' = of_nat (card {n \<in> active L. uv__has_ref L' n})"
  shows "timer_inv L'"
proof -
  have act: "active L' = active L" by (simp add: active_def f)
  from I obtain xs where xs: "queued L xs" by (auto simp: timer_inv_def timer_core_def)
  have "timers_ordered L xs = timers_ordered L' xs"
    using xs p by (intro ordered_cong) (auto simp: queued_def active_def)
  then have "queued L' xs" using xs h act by (simp add: queued_def)
  then show ?thesis using p f a act by (auto simp: timer_inv_def timer_core_def)
qed

lemma init_correct:
  assumes "timer_inv L" "\<not> uv__is_active L n"
  shows "timer_inv (snd (uv_timer_init L n))"
proof (rule timer_inv_cong [OF assms(1)])
  let ?L = "snd (uv_timer_init L n)"
  have "uv__has_ref ?L m = uv__has_ref L m" if "m \<in> active L" for m
    using that assms(2) by (auto simp: uv_timer_init_def Let_def uv__handle_init_def active_def uv__has_ref_iff)
  then have "{m \<in> active L. uv__has_ref ?L m} = {m \<in> active L. uv__has_ref L m}" by blast
  then show "active_handles ?L = of_nat (card {m \<in> active L. uv__has_ref ?L m})"
    using assms(1) by (simp add: timer_inv_def timer_core_def) (simp add: uv_timer_init_def Let_def uv__handle_init_def)
qed (use assms in \<open>auto simp: uv_timer_init_def Let_def uv__handle_init_def uv__is_active_iff
    uv__is_closing_iff timer_inv_def bit_flags\<close>)

lemma set_repeat_correct:
  assumes "timer_inv L"
  shows "timer_inv (uv_timer_set_repeat L n r)"
proof -
  let ?L = "uv_timer_set_repeat L n r"
  have "flags (timers ?L m) = flags (timers L m)" "timer_cb (timers ?L m) = timer_cb (timers L m)" for m
    by (simp_all add: uv_timer_set_repeat_def)
  then have "uv__has_ref ?L = uv__has_ref L" "uv__is_active ?L = uv__is_active L" "uv__is_closing ?L = uv__is_closing L"
    by (auto simp: fun_eq_iff uv__has_ref_iff uv__is_active_iff uv__is_closing_iff)
  with assms show ?thesis
    by (intro timer_inv_cong [OF assms]) (auto simp: timer_inv_def timer_core_def uv_timer_set_repeat_def)
qed

lemma card_toggle:
  assumes "finite A" "n \<in> A"
  shows "\<not> P n \<Longrightarrow> (of_nat (card {m \<in> A. m = n \<or> P m}) :: 32 word) = of_nat (card {m \<in> A. P m}) + 1"
    "P n \<Longrightarrow> (of_nat (card {m \<in> A. m \<noteq> n \<and> P m}) :: 32 word) = of_nat (card {m \<in> A. P m}) - 1"
proof -
  show "(of_nat (card {m \<in> A. m = n \<or> P m}) :: 32 word) = of_nat (card {m \<in> A. P m}) + 1" if "\<not> P n"
  proof -
    have "{m \<in> A. m = n \<or> P m} = insert n {m \<in> A. P m}" using assms by auto
    then show ?thesis using assms that by simp
  qed
  show "(of_nat (card {m \<in> A. m \<noteq> n \<and> P m}) :: 32 word) = of_nat (card {m \<in> A. P m}) - 1" if "P n"
  proof -
    have "{m \<in> A. P m} = insert n {m \<in> A. m \<noteq> n \<and> P m}" using assms that by auto
    then show ?thesis using assms by simp
  qed
qed

lemma ref_correct:
  assumes I: "timer_inv L"
  shows "timer_inv (uv__handle_ref L n)"
proof (rule timer_inv_cong [OF I])
  let ?L = "uv__handle_ref L n"
  have ref: "uv__has_ref ?L m \<longleftrightarrow> m = n \<or> uv__has_ref L m" for m
    by (auto simp: uv__handle_ref_def Let_def uv__active_handle_add_def uv__has_ref_iff bit_flags)
  show "active_handles ?L = of_nat (card {m \<in> active L. uv__has_ref ?L m})"
  proof (cases "uv__is_active L n \<and> \<not> uv__has_ref L n")
    case True
    then have "\<not> bit (flags (timers L n) OR UV_HANDLE_REF) 0"
      using I by (auto simp: timer_inv_def uv__is_closing_iff bit_flags)
    then have "(flags (timers L n) OR UV_HANDLE_REF) AND UV_HANDLE_CLOSING = 0"
      using and_exp_eq_0_iff_not_bit [of "flags (timers L n) OR UV_HANDLE_REF" 0] by (simp add: UV_HANDLE_CLOSING_def)
    then have "active_handles ?L = active_handles L + 1"
      using True by (simp add: uv__handle_ref_def uv__active_handle_add_def uv__is_active_iff bit_flags)
    then show ?thesis
      unfolding ref using card_toggle(1) [OF finite_active [OF I], of n "uv__has_ref L"] True I
      by (simp add: active_def timer_inv_def timer_core_def)
  next
    case False
    then have "{m \<in> active L. uv__has_ref ?L m} = {m \<in> active L. uv__has_ref L m}"
      unfolding ref by (auto simp: active_def)
    then show ?thesis using I False
      by (auto simp: timer_inv_def timer_core_def uv__handle_ref_def Let_def uv__is_active_iff uv__has_ref_iff bit_flags)
  qed
qed (use I in \<open>auto simp: uv__handle_ref_def Let_def uv__is_active_iff uv__active_handle_add_def
    uv__is_closing_iff timer_inv_def bit_flags\<close>)

lemma unref_correct:
  assumes I: "timer_inv L"
  shows "timer_inv (uv__handle_unref L n)"
proof (rule timer_inv_cong [OF I])
  let ?L = "uv__handle_unref L n"
  have ref: "uv__has_ref ?L m \<longleftrightarrow> m \<noteq> n \<and> uv__has_ref L m" for m
    by (auto simp: uv__handle_unref_def Let_def uv__active_handle_rm_def uv__has_ref_iff bit_flags)
  show "active_handles ?L = of_nat (card {m \<in> active L. uv__has_ref ?L m})"
  proof (cases "uv__is_active L n \<and> uv__has_ref L n")
    case True
    then have "\<not> bit (flags (timers L n) AND NOT UV_HANDLE_REF) 0"
      using I by (auto simp: timer_inv_def uv__is_closing_iff bit_flags)
    then have "(flags (timers L n) AND NOT UV_HANDLE_REF) AND UV_HANDLE_CLOSING = 0"
      using and_exp_eq_0_iff_not_bit [of "flags (timers L n) AND NOT UV_HANDLE_REF" 0] by (simp add: UV_HANDLE_CLOSING_def)
    then have "active_handles ?L = active_handles L - 1"
      using True by (simp add: uv__handle_unref_def uv__active_handle_rm_def uv__is_active_iff bit_flags)
    then show ?thesis
      unfolding ref using card_toggle(2) [OF finite_active [OF I], of n "uv__has_ref L"] True I
      by (simp add: active_def timer_inv_def timer_core_def)
  next
    case False
    then have "{m \<in> active L. uv__has_ref ?L m} = {m \<in> active L. uv__has_ref L m}"
      unfolding ref by (auto simp: active_def)
    then show ?thesis using I False
      by (auto simp: timer_inv_def timer_core_def uv__handle_unref_def Let_def uv__is_active_iff uv__has_ref_iff bit_flags)
  qed
qed (use I in \<open>auto simp: uv__handle_unref_def Let_def uv__is_active_iff uv__active_handle_rm_def
    uv__is_closing_iff timer_inv_def bit_flags\<close>)

section \<open>The next timeout and the loop\<close>

lemma heap_min_active:
  assumes "timer_inv L"
  shows "heap_min (timer_heap L) = None \<longleftrightarrow> active L = {}"
    "heap_min (timer_heap L) = Some n \<Longrightarrow> n \<in> active L"
    "heap_min (timer_heap L) = Some n \<Longrightarrow> m \<in> active L \<Longrightarrow> \<not> timer_less_than L m n"
    "card (active L) < 2 ^ 32"
proof -
  from assms obtain xs where xs: "heap_of (timer_heap L) xs" "timers_ordered L xs" "set xs = active L"
    by (auto simp: timer_inv_def timer_core_def queued_def)
  have h: "heap_min (timer_heap L) = at xs 0" "distinct xs" "length xs < 2 ^ 32"
    using xs(1) by (simp_all add: heap_of_def)
  show "heap_min (timer_heap L) = None \<longleftrightarrow> active L = {}"
    unfolding h(1) xs(3) [symmetric] by (simp add: at_def)
  show "n \<in> active L" if "heap_min (timer_heap L) = Some n"
    using that unfolding h(1) xs(3) [symmetric] by (auto simp: at_def split: if_splits)
  show "\<not> timer_less_than L m n" if "heap_min (timer_heap L) = Some n" "m \<in> active L"
  proof -
    from that(2) obtain k where "k < length xs" "xs ! k = m" unfolding xs(3) [symmetric] by (auto simp: in_set_conv_nth)
    with tl.root_minimal [OF xs(2)] that(1) show ?thesis
      unfolding h(1) by (auto simp: at_def split: if_splits)
  qed
  show "card (active L) < 2 ^ 32" using h distinct_card unfolding xs(3) [symmetric] by metis
qed

lemma timer_less_than_timeout:
  "\<not> timer_less_than L m n \<Longrightarrow> timeout (timers L n) \<le> timeout (timers L m)"
  by (auto simp: timer_less_than_def Let_def split: if_splits)

definition remaining :: "('c, 'd) uv_loop \<Rightarrow> node \<Rightarrow> nat" where
  "remaining L n = unat (timeout (timers L n)) - unat (time L)"

lemma next_timeout_correct:
  assumes I: "timer_inv L"
  shows "uv__next_timeout L =
    (if active L = {} then - 1 else int (min (Min (remaining L ` active L)) (2 ^ 31 - 1)))"
proof (cases "heap_min (timer_heap L)")
  case None
  then show ?thesis using heap_min_active(1) [OF I] by (simp add: uv__next_timeout_def)
next
  case (Some n)
  note h = heap_min_active [OF I]
  have n: "n \<in> active L" "active L \<noteq> {}" using h(1,2) Some by auto
  have "Min (remaining L ` active L) = remaining L n"
  proof (rule Min_eqI)
    show "finite (remaining L ` active L)" using finite_active [OF I] by simp
    fix r
    assume "r \<in> remaining L ` active L"
    then obtain m where "m \<in> active L" "r = remaining L m" by blast
    with h(3) [OF Some] timer_less_than_timeout [of L m n] show "remaining L n \<le> r"
      by (auto simp: remaining_def word_le_nat_alt)
  qed (use n in simp)
  moreover have "uv__next_timeout L = int (min (remaining L n) (2 ^ 31 - 1))"
  proof (cases "timeout (timers L n) \<le> time L")
    case True
    then show ?thesis using Some by (simp add: uv__next_timeout_def remaining_def word_le_nat_alt)
  next
    case False
    define d where "d = timeout (timers L n) - time L"
    have d: "unat d = remaining L n" using False by (simp add: d_def remaining_def unat_sub)
    define e where "e = (if d > INT_MAX then INT_MAX else d)"
    have e: "unat e = min (remaining L n) (2 ^ 31 - 1)"
      using d by (auto simp: e_def INT_MAX_def word_less_nat_alt min_def)
    then have "sint (ucast e :: 32 word) = int (unat e)"
      using sint_small [of "ucast e"] by (simp add: unsigned_ucast_eq take_bit_nat_eq_self)
    moreover have "uv__next_timeout L = sint (ucast e :: 32 word)"
      using False by (simp only: uv__next_timeout_def Some Let_def e_def d_def option.case if_False)
    ultimately show ?thesis using e by simp
  qed
  ultimately show ?thesis using n by simp
qed

definition due :: "('c, 'd) uv_loop \<Rightarrow> node set" where
  "due L = {n \<in> active L. timeout (timers L n) \<le> time L}"

lemma due_head:
  assumes "timer_inv L" "due L \<noteq> {}"
  obtains n where "heap_min (timer_heap L) = Some n" "n \<in> due L" "\<And>m. m \<in> due L \<Longrightarrow> \<not> timer_less_than L m n"
proof (cases "heap_min (timer_heap L)")
  case None
  then show ?thesis using heap_min_active(1) [OF assms(1)] assms(2) by (auto simp: due_def)
next
  case (Some n)
  note h = heap_min_active(2,3) [OF assms(1) Some]
  from assms(2) obtain m where "m \<in> active L" "timeout (timers L m) \<le> time L" by (auto simp: due_def)
  then have "timeout (timers L n) \<le> time L"
    using h(2) [of m] timer_less_than_timeout [of L m n] order_trans by blast
  then show ?thesis using that [OF Some] h by (simp add: due_def)
qed

lemma run_timers_done: "timer_inv L \<Longrightarrow> due L = {} \<Longrightarrow> uv__run_timers call L = Some L"
  using heap_min_active(2) [of L]
  by (subst uv__run_timers.simps) (auto simp: due_def not_le split: option.split)

lemma run_timers_step:
  assumes "heap_min (timer_heap L) = Some n" "n \<in> due L"
  shows "uv__run_timers call L = Option.bind (uv__run_timer call L n) (uv__run_timers call)"
  using assms by (subst uv__run_timers.simps) (auto simp: due_def not_less [symmetric])

text \<open>Before its callback a due timer is stopped, and started again when it repeats.\<close>

definition rearmed :: "('c, 'd) uv_loop \<Rightarrow> node \<Rightarrow> 'c uv_timer" where
  "rearmed L n =
     (if repeat (timers L n) = 0 then stopped (timers L n)
      else started L (the (timer_cb (timers L n))) (repeat (timers L n)) (repeat (timers L n)) (timers L n))"

lemma run_timer_correct:
  assumes I: "timer_inv L" and n: "n \<in> active L"
  shows "\<exists>L' cb. uv__run_timer call L n = call cb n L' \<and> timer_cb (timers L n) = Some cb
    \<and> timer_inv L' \<and> timers L' = (timers L)(n := rearmed L n) \<and> time L' = time L \<and> data L' = data L
    \<and> handle_queue L' = handle_queue L \<and> closing_handles L' = closing_handles L"
proof -
  from I n obtain cb where cb: "timer_cb (timers L n) = Some cb" "\<not> uv__is_closing L n"
    by (auto simp: timer_inv_def active_def)
  from stop_correct [OF I, of n] obtain h a where
    s: "uv_timer_stop L n = Some (0, (upd n stopped L)\<lparr>timer_heap := h, active_handles := a\<rparr>)"
      "timer_inv ((upd n stopped L)\<lparr>timer_heap := h, active_handles := a\<rparr>)" by blast
  let ?L = "(upd n stopped L)\<lparr>timer_heap := h, active_handles := a\<rparr>" and ?r = "repeat (timers L n)"
  have S: "\<not> uv__is_closing ?L n" "timer_cb (timers ?L n) = Some cb" "repeat (timers ?L n) = ?r"
    using cb by (auto simp: uv__is_closing_iff stopped_def bit_flags)
  show ?thesis
  proof (cases "?r = 0")
    case True
    then have "uv_timer_again ?L n = Some (0, ?L)" using S by (simp add: uv_timer_again_def)
    then have "uv__run_timer call L n = call cb n ?L" using s(1) S(2) by (simp add: uv__run_timer_def)
    then show ?thesis using s(2) cb(1) True by (intro exI [of _ ?L] exI [of _ cb]) (simp add: rearmed_def)
  next
    case False
    have act: "active ?L = active L - {n}" by (auto simp: active_def uv__is_active_iff stopped_def bit_flags)
    have "card (active L) = Suc (card (active L - {n}))" using n finite_active [OF I] by (metis card.remove)
    then have c: "card (active ?L - {n}) + 1 < 2 ^ 32" unfolding act using heap_min_active(4) [OF I] by simp
    have "repeat (timers ?L n) \<noteq> 0" using False S(3) by simp
    from again_correct [OF s(2) S(2,1) this c] S(3) obtain h' a' where
      t: "uv_timer_again ?L n = Some (0, (upd n (started ?L cb ?r ?r) ?L)
        \<lparr>timer_counter := timer_counter L + 1, timer_heap := h', active_handles := a'\<rparr>)"
      "timer_inv ((upd n (started ?L cb ?r ?r) ?L)\<lparr>timer_counter := timer_counter L + 1, timer_heap := h', active_handles := a'\<rparr>)"
      by (auto simp: Let_def)
    let ?M = "(upd n (started ?L cb ?r ?r) ?L)\<lparr>timer_counter := timer_counter L + 1, timer_heap := h', active_handles := a'\<rparr>"
    have "timer_cb (timers ?M n) = Some cb" by (simp add: started_def)
    then have "uv__run_timer call L n = call cb n ?M" using s(1) t(1) by (simp add: uv__run_timer_def)
    moreover have "timers ?M = (timers L)(n := rearmed L n)"
      using False cb(1) by (simp add: rearmed_def started_def stopped_def set_clear_active)
    ultimately show ?thesis using t(2) cb(1) by (intro exI [of _ ?M] exI [of _ cb]) simp
  qed
qed

text \<open>A repeating timer is due again only when the clock has reached its last value.\<close>

lemma due_rearmed:
  assumes n: "n \<in> due L" and t: "time L \<noteq> - 1"
    and L': "timers L' = (timers L)(n := rearmed L n)" "time L' = time L"
  shows "due L' = due L - {n}"
proof -
  have "m \<in> due L' \<longleftrightarrow> m \<in> due L" if "m \<noteq> n" for m
    using that by (simp add: due_def active_def uv__is_active_iff L')
  moreover have "n \<notin> due L'"
  proof (cases "repeat (timers L n) = 0")
    case True
    then show ?thesis by (simp add: due_def active_def uv__is_active_iff L' rearmed_def stopped_def bit_flags)
  next
    case False
    have "unat (time L) \<noteq> 2 ^ 64 - 1"
    proof
      assume "unat (time L) = 2 ^ 64 - 1"
      also have "\<dots> = unat (- 1 :: 64 word)" by (simp add: unsigned_minus_1_eq_mask mask_eq_exp_minus_1)
      finally have "time L = - 1" by (rule unsigned_word_eqI)
      with t show False by simp
    qed
    moreover have "unat (time L) < 2 ^ 64" using unsigned_less [of "time L", where 'a = nat] by simp
    moreover have "unat (repeat (timers L n)) \<noteq> 0" using False by (simp add: unat_eq_zero)
    ultimately have "unat (time L) < unat (clamp_add (time L) (repeat (timers L n)))"
      unfolding unat_clamp_add by simp
    then show ?thesis using False
      by (simp add: due_def L' rearmed_def started_def word_le_nat_alt)
  qed
  ultimately have "m \<in> due L' \<longleftrightarrow> m \<in> due L - {n}" for m by (cases "m = n") auto
  then show ?thesis by (rule set_eqI)
qed

text \<open>A callback that leaves the timers in order and makes no timer due.\<close>

definition polite :: "('c \<Rightarrow> node \<Rightarrow> ('c, 'd) uv_loop \<Rightarrow> ('c, 'd) uv_loop option) \<Rightarrow> bool" where
  "polite call = (\<forall>cb n L. timer_inv L \<longrightarrow>
     (\<exists>L'. call cb n L = Some L' \<and> timer_inv L' \<and> time L' = time L \<and> due L' \<subseteq> due L))"

lemma run_timers_terminates:
  assumes "polite call" "timer_inv L" "time L \<noteq> - 1"
  shows "\<exists>L'. uv__run_timers call L = Some L' \<and> timer_inv L' \<and> time L' = time L \<and> due L' = {}"
  using assms(2,3)
proof (induction "card (due L)" arbitrary: L rule: less_induct)
  case less
  show ?case
  proof (cases "due L = {}")
    case True
    then show ?thesis using run_timers_done less.prems by blast
  next
    case False
    then obtain n where n: "heap_min (timer_heap L) = Some n" "n \<in> due L" using due_head less.prems(1) by metis
    then have "n \<in> active L" by (simp add: due_def)
    from run_timer_correct [OF less.prems(1) this, of call] obtain M cb where
      M: "uv__run_timer call L n = call cb n M" "timer_inv M" "timers M = (timers L)(n := rearmed L n)" "time M = time L"
      by blast
    from assms(1) M(2) obtain L' where
      L': "call cb n M = Some L'" "timer_inv L'" "time L' = time M" "due L' \<subseteq> due M"
      unfolding polite_def by blast
    have fin: "finite (due L)" using finite_active [OF less.prems(1)] by (simp add: due_def)
    have "due L' \<subseteq> due L - {n}" using due_rearmed [OF n(2) less.prems(2) M(3,4)] L'(4) by simp
    then have "due L' \<subset> due L" using n(2) by blast
    then have "card (due L') < card (due L)" using fin by (simp add: psubset_card_mono)
    from less.hyps [OF this L'(2)] L'(3) M(4) less.prems(2) show ?thesis
      unfolding run_timers_step [OF n] M(1) L'(1) by auto
  qed
qed

text \<open>A callback that does not touch the loop; what it does to the client's data is \<open>f\<close>.  One that records the
  timers it is called for is an example.\<close>

definition quiet :: "('c \<Rightarrow> node \<Rightarrow> ('c, 'd) uv_loop \<Rightarrow> ('c, 'd) uv_loop option) \<Rightarrow> ('c \<Rightarrow> node \<Rightarrow> 'd \<Rightarrow> 'd) \<Rightarrow> bool" where
  "quiet call f = (\<forall>cb n L. call cb n L = Some (L\<lparr>data := f cb n (data L)\<rparr>))"

definition recording :: "'c \<Rightarrow> node \<Rightarrow> ('c, node list) uv_loop \<Rightarrow> ('c, node list) uv_loop option" where
  "recording cb n L = Some (L\<lparr>data := data L @ [n]\<rparr>)"

lemma quiet_recording: "quiet recording (\<lambda>cb n d. d @ [n])"
  by (simp add: quiet_def recording_def)

text \<open>What the callbacks of a list of timers do to the data.\<close>

definition called :: "('c \<Rightarrow> node \<Rightarrow> 'd \<Rightarrow> 'd) \<Rightarrow> ('c, 'd) uv_loop \<Rightarrow> node list \<Rightarrow> 'd \<Rightarrow> 'd" where
  "called f L ns = fold (\<lambda>n. f (the (timer_cb (timers L n))) n) ns"

lemma called_recording: "called (\<lambda>cb n d. d @ [n]) L ns d = d @ ns"
proof -
  have "fold (\<lambda>n d. d @ [n]) ns d = d @ ns" by (induction ns arbitrary: d) simp_all
  then show ?thesis by (simp add: called_def)
qed

lemma timer_inv_data: "timer_inv (L\<lparr>data := d\<rparr>) = timer_inv L" "due (L\<lparr>data := d\<rparr>) = due L"
proof -
  have "timer_less_than (L\<lparr>data := d\<rparr>) = timer_less_than L" by (rule timer_less_than_eq) simp
  moreover have "uv__is_active (L\<lparr>data := d\<rparr>) = uv__is_active L" "uv__has_ref (L\<lparr>data := d\<rparr>) = uv__has_ref L"
    "uv__is_closing (L\<lparr>data := d\<rparr>) = uv__is_closing L"
    by (simp_all add: fun_eq_iff uv__is_active_iff uv__has_ref_iff uv__is_closing_iff)
  ultimately show "timer_inv (L\<lparr>data := d\<rparr>) = timer_inv L" "due (L\<lparr>data := d\<rparr>) = due L"
    by (simp_all add: timer_inv_def timer_core_def queued_def active_def due_def)
qed

text \<open>What becomes of a timer that fires: it stops, or is started again for \<open>repeat\<close> milliseconds later.\<close>

definition fired :: "64 word \<Rightarrow> 'c uv_timer \<Rightarrow> 'c uv_timer \<Rightarrow> bool" where
  "fired now t t' =
     (t' = (if repeat t = 0 then stopped t
            else t\<lparr>timeout := clamp_add now (repeat t), start_id := start_id t'\<rparr>))"

lemma fired_rearmed:
  assumes "n \<in> active L" "timer_cb (timers L n) = Some cb"
  shows "fired (time L) (timers L n) (rearmed L n)"
  using assms by (cases "timers L n")
    (auto simp: fired_def rearmed_def started_def active_def uv__is_active_iff set_active)

lemma run_timers_order:
  assumes call: "quiet call f" and "timer_inv L" "time L \<noteq> - 1"
  shows "\<exists>L' ns. uv__run_timers call L = Some L' \<and> timer_inv L' \<and> data L' = called f L ns (data L) \<and> set ns = due L
    \<and> distinct ns \<and> sorted_wrt (\<lambda>a b. \<not> timer_less_than L b a) ns
    \<and> (\<forall>m. if m \<in> due L then fired (time L) (timers L m) (timers L' m) else timers L' m = timers L m)"
  using assms(2,3)
proof (induction "card (due L)" arbitrary: L rule: less_induct)
  case less
  show ?case
  proof (cases "due L = {}")
    case True
    then show ?thesis using run_timers_done [OF less.prems(1) True] less.prems(1)
      by (intro exI [of _ L] exI [of _ "[]"]) (simp add: called_def)
  next
    case False
    then obtain n where n: "heap_min (timer_heap L) = Some n" "n \<in> due L"
      and least: "\<And>m. m \<in> due L \<Longrightarrow> \<not> timer_less_than L m n" using due_head [OF less.prems(1)] by blast
    then have na: "n \<in> active L" by (simp add: due_def)
    from run_timer_correct [OF less.prems(1) this, of call] obtain M cb where
      M: "uv__run_timer call L n = call cb n M" "timer_inv M" "timers M = (timers L)(n := rearmed L n)"
        "time M = time L" "data M = data L" "timer_cb (timers L n) = Some cb"
      by blast
    define N where "N = M\<lparr>data := f cb n (data L)\<rparr>"
    have N: "timer_inv N" "due N = due L - {n}" "time N = time L" "timers N = timers M" "data N = f cb n (data L)"
      using M(2) due_rearmed [OF n(2) less.prems(2) M(3,4)] M(3,4) by (simp_all add: N_def timer_inv_data)
    have run: "uv__run_timers call L = uv__run_timers call N"
      unfolding run_timers_step [OF n] M(1) using call by (simp add: quiet_def N_def M(5))
    have fin: "finite (due L)" using finite_active [OF less.prems(1)] by (simp add: due_def)
    then have "card (due N) < card (due L)" unfolding N(2) using n(2) by (rule card_Diff1_less)
    moreover have "time N \<noteq> - 1" using N(3) less.prems(2) by simp
    ultimately obtain L' ns where
      L': "uv__run_timers call N = Some L'" "timer_inv L'" "data L' = called f N ns (data N)" "set ns = due N" "distinct ns"
        "sorted_wrt (\<lambda>a b. \<not> timer_less_than N b a) ns"
        "\<forall>m. if m \<in> due N then fired (time L) (timers N m) (timers L' m) else timers L' m = timers N m"
      using less.hyps [OF _ N(1), unfolded N(3)] N(3) by auto
    have "timer_less_than N a b = timer_less_than L a b" if "a \<noteq> n" "b \<noteq> n" for a b
      using that by (intro timer_less_than_cong) (auto simp: N(4) M(3))
    then have "sorted_wrt (\<lambda>a b. \<not> timer_less_than L b a) ns"
      using L'(4,6) N(2) by (auto elim!: sorted_wrt_mono_rel [rotated])
    then have "sorted_wrt (\<lambda>a b. \<not> timer_less_than L b a) (n # ns)"
      using least L'(4) N(2) by simp
    moreover have "set (n # ns) = due L" "distinct (n # ns)" using L'(4,5) N(2) n(2) by auto
    moreover have "if m \<in> due L then fired (time L) (timers L m) (timers L' m) else timers L' m = timers L m" for m
    proof (cases "m = n")
      case True
      have "timers L' n = rearmed L n" using L'(7) [rule_format, of n] by (simp add: N(2,4) M(3))
      then show ?thesis using fired_rearmed [OF na M(6)] n(2) True by simp
    next
      case False
      then have "m \<in> due N \<longleftrightarrow> m \<in> due L" "timers N m = timers L m" by (simp_all add: N(2,4) M(3))
      then show ?thesis using L'(7) by metis
    qed
    moreover have "called f N ns d = called f L ns d" for d
      unfolding called_def using L'(4) N(2,4) M(3) by (intro List.fold_cong) auto
    then have "uv__run_timers call L = Some L'" "data L' = called f L (n # ns) (data L)"
      unfolding run L'(3) N(5) by (simp_all add: L'(1), simp add: called_def M(6))
    ultimately show ?thesis using L'(2) by blast
  qed
qed

text \<open>A callback that starts its timer again, to run at once.\<close>

definition restarting :: "'c \<Rightarrow> node \<Rightarrow> ('c, 'd) uv_loop \<Rightarrow> ('c, 'd) uv_loop option" where
  "restarting cb n L = map_option snd (uv_timer_start L n (Some cb) 0 0)"

lemma restarting_step:
  assumes I: "timer_inv L" and n: "n \<in> active L"
  shows "\<exists>L'. uv__run_timer restarting L n = Some L' \<and> timer_inv L' \<and> n \<in> due L'"
proof -
  from run_timer_correct [OF I n, of restarting] obtain M cb where
    M: "uv__run_timer restarting L n = restarting cb n M" "timer_inv M" "timers M = (timers L)(n := rearmed L n)"
    by blast
  have cl: "\<not> uv__is_closing M n" using I n
    by (auto simp: timer_inv_def active_def uv__is_closing_iff M(3) rearmed_def stopped_def started_def bit_flags)
  have "active M \<subseteq> active L" using n
    by (auto simp: active_def uv__is_active_iff M(3) split: if_splits)
  then have "card (active M - {n}) \<le> card (active L - {n})"
    using finite_active [OF I] by (intro card_mono) auto
  moreover have "Suc (card (active L - {n})) = card (active L)" using n finite_active [OF I] by (metis card.remove)
  ultimately have "card (active M - {n}) + 1 < 2 ^ 32" using heap_min_active(4) [OF I] by linarith
  from start_correct [OF M(2) cl this, of cb 0 0] obtain h a where
    s: "uv_timer_start M n (Some cb) 0 0 = Some (0, (upd n (started M cb 0 0) M)
      \<lparr>timer_counter := timer_counter M + 1, timer_heap := h, active_handles := a\<rparr>)"
    "timer_inv ((upd n (started M cb 0 0) M)\<lparr>timer_counter := timer_counter M + 1, timer_heap := h, active_handles := a\<rparr>)"
    unfolding Let_def by blast
  let ?L = "(upd n (started M cb 0 0) M)\<lparr>timer_counter := timer_counter M + 1, timer_heap := h, active_handles := a\<rparr>"
  have "n \<in> due ?L" by (simp add: due_def active_def uv__is_active_iff started_def bit_flags clamp_add_def)
  with s show ?thesis unfolding M(1) restarting_def by (intro exI [of _ ?L]) simp
qed

lemma run_timers_starve_aux:
  assumes "uv__run_timers call L = Some L'"
  shows "call = restarting \<longrightarrow> timer_inv L \<longrightarrow> due L = {}"
proof (rule uv__run_timers.raw_induct [OF _ assms], intro impI)
  fix rec call and L L' :: "('c, 'd) uv_loop"
  assume 1: "\<And>call L L'. rec call L = Some L' \<Longrightarrow> call = restarting \<longrightarrow> timer_inv L \<longrightarrow> due L = {}"
    "(case heap_min (timer_heap L) of None \<Rightarrow> Some L
      | Some n \<Rightarrow> if time L < timeout (timers L n) then Some L
          else uv__run_timer call L n \<bind> rec call) = Some L'"
    "call = restarting" "timer_inv L"
  show "due L = {}"
  proof (rule ccontr)
    assume d: "due L \<noteq> {}"
    from due_head [OF 1(4) d] obtain n where n: "heap_min (timer_heap L) = Some n" "n \<in> due L" by blast
    from restarting_step [OF 1(4), of n] n obtain M where
      M: "uv__run_timer restarting L n = Some M" "timer_inv M" "n \<in> due M" by (auto simp: due_def)
    have "rec call M = Some L'" using 1(2) n M 1(3) by (simp add: due_def not_le split: if_splits)
    with 1(1) 1(3) M(2,3) show False by blast
  qed
qed

lemma run_timers_starve: "timer_inv L \<Longrightarrow> due L \<noteq> {} \<Longrightarrow> uv__run_timers restarting L = None"
  using run_timers_starve_aux [of restarting L] by (cases "uv__run_timers restarting L") auto

section \<open>The life of the timers\<close>

lemma bit_closing: "bit (w OR UV_HANDLE_CLOSING) k \<longleftrightarrow> bit w k \<or> k = 0"
  unfolding UV_HANDLE_CLOSING_def bit_or_iff by (simp only: bit_1_iff)

lemma timer_inv_init: "(\<And>n. flags (mem n) = 0) \<Longrightarrow> timer_inv (uv_loop_init now mem d)"
proof -
  assume z: "\<And>n. flags (mem n) = 0"
  let ?L = "uv_loop_init now mem d"
  have "\<not> uv__is_active ?L n" for n by (simp add: uv__is_active_def uv_loop_init_def z)
  then have act: "active ?L = {}" "\<And>n. \<not> uv__is_active ?L n" by (simp_all add: active_def)
  have "queued ?L []"
    unfolding queued_def act by (simp add: uv_loop_init_def heap_init_def heap_of_def at_def tl.ordered_def)
  then show ?thesis
    unfolding timer_inv_def timer_core_def using act by (auto simp: uv_loop_init_def)
qed

lemma timer_core_cong:
  assumes I: "timer_core L" and h: "timer_heap L' = timer_heap L" "active_handles L' = active_handles L"
    and f: "\<And>n. uv__is_active L' n = uv__is_active L n" "\<And>n. uv__has_ref L' n = uv__has_ref L n"
    and p: "\<And>n. timeout (timers L' n) = timeout (timers L n) \<and> start_id (timers L' n) = start_id (timers L n)"
  shows "timer_core L'"
proof -
  have act: "active L' = active L" by (simp add: active_def f)
  from I obtain xs where xs: "queued L xs" by (auto simp: timer_core_def)
  have "timers_ordered L xs = timers_ordered L' xs" using p by (intro ordered_cong) simp
  then have "queued L' xs" using xs h act by (simp add: queued_def)
  then show ?thesis using f h I act by (auto simp: timer_core_def)
qed

lemma close_correct:
  assumes I: "timer_inv L" and n: "\<not> uv__is_closing L n"
  shows "\<exists>L'. uv_close L n cb = Some L' \<and> timer_inv L' \<and> active L' = active L - {n} \<and> uv__is_closing L' n
    \<and> closing_handles L' = Some n \<and> next_closing (timers L' n) = closing_handles L
    \<and> (\<forall>m. m \<noteq> n \<longrightarrow> timers L' m = timers L m)"
proof -
  define M where "M = upd n (\<lambda>t. t\<lparr>close_cb := cb\<rparr>) (upd n (\<lambda>t. t\<lparr>flags := flags t OR UV_HANDLE_CLOSING\<rparr>) L)"
  have "timer_core M"
    using I by (intro timer_core_cong [of L M])
      (auto simp: timer_inv_def M_def uv__is_active_iff uv__has_ref_iff bit_closing)
  from stop_core [OF this, of n] obtain h a where
    s: "uv_timer_stop M n = Some (0, (upd n stopped M)\<lparr>timer_heap := h, active_handles := a\<rparr>)"
      "timer_core ((upd n stopped M)\<lparr>timer_heap := h, active_handles := a\<rparr>)" by blast
  let ?S = "(upd n stopped M)\<lparr>timer_heap := h, active_handles := a\<rparr>"
  let ?L = "(upd n (\<lambda>t. t\<lparr>next_closing := closing_handles L\<rparr>) ?S)\<lparr>closing_handles := Some n\<rparr>"
  let ?f = "flags (timers ?S n)"
  have f: "bit ?f 0" "\<not> bit ?f 1"
    using n by (auto simp: stopped_def M_def bit_flags bit_closing uv__is_closing_iff)
  then have "?f AND UV_HANDLE_CLOSING \<noteq> 0" "?f AND UV_HANDLE_CLOSED = 0"
    using and_exp_eq_0_iff_not_bit [of ?f 0] and_exp_eq_0_iff_not_bit [of ?f 1]
    by (auto simp: UV_HANDLE_CLOSING_def UV_HANDLE_CLOSED_def)
  then have "uv__make_close_pending ?S n = Some ?L"
    unfolding uv__make_close_pending_def by (simp add: M_def Let_def)
  then have c: "uv_close L n cb = Some ?L"
    using n s(1) by (simp add: uv_close_def M_def uv__timer_close_def)
  have core: "timer_core ?L"
    using s(2) by (rule timer_core_cong) (auto simp: uv__is_active_iff uv__has_ref_iff)
  have act: "active ?L = active L - {n}"
    by (auto simp: active_def uv__is_active_iff stopped_def M_def bit_flags)
  have cl: "uv__is_closing ?L m \<longleftrightarrow> m = n \<or> uv__is_closing L m" for m
    using f by (auto simp: uv__is_closing_iff stopped_def M_def)
  have cb: "m \<noteq> n \<Longrightarrow> timers ?L m = timers L m" for m by (simp add: M_def)
  have "timer_cb (timers ?L m) \<noteq> None \<and> \<not> uv__is_closing ?L m" if "uv__is_active ?L m" for m
  proof -
    have "m \<in> active L - {n}" using that unfolding act [symmetric] by (simp add: active_def)
    then have "m \<noteq> n" "uv__is_active L m" by (auto simp: active_def)
    then show ?thesis using I cl cb by (simp add: timer_inv_def)
  qed
  then have "timer_inv ?L" using core by (simp add: timer_inv_def)
  with c act cl cb show ?thesis by (intro exI [of _ ?L]) simp
qed

lemma again_inv:
  assumes I: "timer_inv L" and c: "card (active L - {n}) + 1 < 2 ^ 32"
  shows "\<exists>r L'. uv_timer_again L n = Some (r, L') \<and> timer_inv L'"
proof (cases "timer_cb (timers L n) = None \<or> repeat (timers L n) = 0")
  case True
  then show ?thesis using I by (auto simp: uv_timer_again_def)
next
  case False
  then obtain f where f: "timer_cb (timers L n) = Some f" "repeat (timers L n) \<noteq> 0" by auto
  show ?thesis
  proof (cases "uv__is_closing L n")
    case cl: False
    show ?thesis using again_correct [OF I f(1) cl f(2) c] unfolding Let_def by blast
  next
    case True
    from stop_correct [OF I, of n] obtain h a where
      s: "uv_timer_stop L n = Some (0, (upd n stopped L)\<lparr>timer_heap := h, active_handles := a\<rparr>)"
        "timer_inv ((upd n stopped L)\<lparr>timer_heap := h, active_handles := a\<rparr>)" by blast
    have "uv__is_closing ((upd n stopped L)\<lparr>timer_heap := h, active_handles := a\<rparr>) n"
      using True by (auto simp: uv__is_closing_iff stopped_def bit_flags)
    then show ?thesis using s f by (auto simp: uv_timer_again_def uv_timer_start_def)
  qed
qed

text \<open>A program that uses timers: it initialises a handle that is not active and closes a handle once; the clock moves
  forward; and there is room in the heap, whose size is an \<open>unsigned int\<close>.\<close>

inductive timer_step :: "('c, 'd) uv_loop \<Rightarrow> ('c, 'd) uv_loop \<Rightarrow> bool" where
  Init: "\<not> uv__is_active L n \<Longrightarrow> uv_timer_init L n = (r, L') \<Longrightarrow> timer_step L L'"
| Start: "card (active L - {n}) + 1 < 2 ^ 32 \<Longrightarrow> uv_timer_start L n cb to rep = Some (r, L') \<Longrightarrow> timer_step L L'"
| Stop: "uv_timer_stop L n = Some (r, L') \<Longrightarrow> timer_step L L'"
| Again: "card (active L - {n}) + 1 < 2 ^ 32 \<Longrightarrow> uv_timer_again L n = Some (r, L') \<Longrightarrow> timer_step L L'"
| Set_repeat: "timer_step L (uv_timer_set_repeat L n rep)"
| Ref: "timer_step L (uv__handle_ref L n)"
| Unref: "timer_step L (uv__handle_unref L n)"
| Close: "uv_close L n cb = Some L' \<Longrightarrow> timer_step L L'"
| Clock: "time L \<le> now \<Longrightarrow> timer_step L (L\<lparr>time := now\<rparr>)"
| Data: "timer_step L (L\<lparr>data := d\<rparr>)"

inductive timer_reachable :: "('c, 'd) uv_loop \<Rightarrow> bool" where
  Loop_init: "(\<And>n. flags (mem n) = 0) \<Longrightarrow> timer_reachable (uv_loop_init now mem d)"
| Step: "timer_reachable L \<Longrightarrow> timer_step L L' \<Longrightarrow> timer_reachable L'"

lemma start_inv:
  assumes I: "timer_inv L" and c: "card (active L - {n}) + 1 < 2 ^ 32"
  shows "\<exists>r L'. uv_timer_start L n cb to rep = Some (r, L') \<and> timer_inv L'"
proof (cases "uv__is_closing L n \<or> cb = None")
  case True
  then show ?thesis using I by (auto simp: uv_timer_start_def)
next
  case False
  then obtain f where f: "\<not> uv__is_closing L n" "cb = Some f" by auto
  from start_correct [OF I f(1) c, of f to rep] show ?thesis
    unfolding f(2) Let_def by blast
qed

lemma timer_step_inv: "timer_step L L' \<Longrightarrow> timer_inv L \<Longrightarrow> timer_inv L'"
proof (induction rule: timer_step.induct)
  case (Init L n r L')
  then show ?case using init_correct by (metis snd_conv)
next
  case (Start L n cb to rep r L')
  then show ?case using start_inv by (metis option.inject prod.inject)
next
  case (Stop L n r L')
  then show ?case using stop_correct by (metis option.inject prod.inject)
next
  case (Again L n r L')
  then show ?case using again_inv by (metis option.inject prod.inject)
next
  case (Close L n cb L')
  then have "\<not> uv__is_closing L n" by (auto simp: uv_close_def)
  then show ?case using close_correct Close by (metis option.inject)
next
  case (Clock L now)
  then show ?case
    by (intro timer_inv_cong [OF Clock(2)])
      (auto simp: timer_inv_def timer_core_def uv__is_active_iff uv__is_closing_iff uv__has_ref_iff)
qed (auto intro: set_repeat_correct ref_correct unref_correct simp: timer_inv_data)

lemma timer_reachable_inv: "timer_reachable L \<Longrightarrow> timer_inv L"
  by (induction rule: timer_reachable.induct) (auto intro: timer_inv_init timer_step_inv)

section \<open>Properties\<close>

text \<open>C22. The heap operations, with the comparison of the timers, refine insertion into and removal from a
  multiset: on a heap that stands for an array in heap order they return, never through a NULL pointer, a heap
  that stands for an ordered array with the node added or removed, and dequeuing removes a least node.\<close>

theorem timer_heap_refines:
  assumes "heap_of h xs" "timers_ordered L xs"
  shows "(n \<notin> set xs \<longrightarrow> length xs + 1 < 2 ^ 32 \<longrightarrow>
      (\<exists>h' ys. heap_insert (timer_less_than L) h n = Some h' \<and> heap_of h' ys \<and> timers_ordered L ys
        \<and> mset ys = add_mset n (mset xs)))
    \<and> (n \<in> set xs \<longrightarrow>
      (\<exists>h' ys. heap_remove (timer_less_than L) h n = Some h' \<and> heap_of h' ys \<and> timers_ordered L ys
        \<and> mset ys = mset xs - {#n#}))
    \<and> (xs \<noteq> [] \<longrightarrow>
      (\<exists>m h' ys. heap_min h = Some m \<and> (\<forall>k \<in> set xs. \<not> timer_less_than L k m)
        \<and> heap_dequeue (timer_less_than L) h = Some h' \<and> heap_of h' ys \<and> timers_ordered L ys
        \<and> mset xs = add_mset m (mset ys)))"
proof (intro conjI impI)
  assume "xs \<noteq> []"
  then have m: "heap_min h = Some (xs ! 0)" "xs ! 0 \<in> set xs" using assms(1) by (simp_all add: heap_of_def at_def)
  have least: "\<forall>k \<in> set xs. \<not> timer_less_than L k (xs ! 0)"
    using tl.root_minimal [OF assms(2)] by (auto simp: in_set_conv_nth)
  have "heap_dequeue (timer_less_than L) h = heap_remove (timer_less_than L) h (xs ! 0)"
    by (simp add: heap_dequeue_def m(1))
  moreover have "mset ys = mset xs - {#xs ! 0#} \<Longrightarrow> mset xs = add_mset (xs ! 0) (mset ys)" for ys
    using m(2) by simp
  ultimately show "\<exists>m h' ys. heap_min h = Some m \<and> (\<forall>k \<in> set xs. \<not> timer_less_than L k m)
      \<and> heap_dequeue (timer_less_than L) h = Some h' \<and> heap_of h' ys \<and> timers_ordered L ys
      \<and> mset xs = add_mset m (mset ys)"
    using tl.heap_remove_correct [OF assms m(2)] m(1) least by metis
qed (use tl.heap_insert_correct [OF assms] tl.heap_remove_correct [OF assms] in auto)

text \<open>C18. Whatever timer operations a program performs, in any order, the state stays in the invariant, and
  stopping, restarting or closing a timer, and starting one while there is room, never follows a NULL pointer
  or fails to return.\<close>

theorem timers_reachable:
  assumes "timer_reachable L"
  shows "timer_inv L
    \<and> (\<exists>L'. uv_timer_stop L n = Some (0, L') \<and> active L' = active L - {n})
    \<and> (card (active L - {n}) + 1 < 2 ^ 32 \<longrightarrow> uv_timer_start L n cb to rep \<noteq> None \<and> uv_timer_again L n \<noteq> None)
    \<and> (\<not> uv__is_closing L n \<longrightarrow>
        (\<exists>L'. uv_close L n f = Some L' \<and> active L' = active L - {n} \<and> uv__is_closing L' n))"
proof -
  have I: "timer_inv L" using assms by (rule timer_reachable_inv)
  from stop_correct [OF I, of n] obtain h a where
    s: "uv_timer_stop L n = Some (0, (upd n stopped L)\<lparr>timer_heap := h, active_handles := a\<rparr>)" by blast
  have "active ((upd n stopped L)\<lparr>timer_heap := h, active_handles := a\<rparr>) = active L - {n}"
    by (auto simp: active_def uv__is_active_iff stopped_def bit_flags)
  with s have stop: "\<exists>L'. uv_timer_stop L n = Some (0, L') \<and> active L' = active L - {n}" by blast
  show ?thesis
    using I stop start_inv [OF I, of n cb to rep] again_inv [OF I, of n] close_correct [OF I, of n f] by auto
qed

theorem timers_reachable_witness:
  "timer_inv (uv_loop_init 5 (\<lambda>_. \<lparr>flags = 0, timer_cb = Some (), timeout = 0, repeat = 0, start_id = 0,
     next_closing = None, close_cb = None\<rparr>) ())"
  by (rule timers_reachable [THEN conjunct1]) (rule Loop_init, simp)

text \<open>\<open>uv_timer_start\<close> refuses a closing handle and a missing callback and changes nothing; otherwise the
  timer is active, to run after \<open>to\<close> milliseconds, or at the last value of the clock when the sum overflows, behind the
  timers already started for that time; the other timers are left alone.\<close>

theorem timer_start_exact:
  assumes "timer_inv L" "card (active L - {n}) + 1 < 2 ^ 32"
  shows "(uv__is_closing L n \<or> cb = None \<longrightarrow> uv_timer_start L n cb to rep = Some (UV_EINVAL, L))
    \<and> (\<not> uv__is_closing L n \<longrightarrow> cb \<noteq> None \<longrightarrow>
      (\<exists>L'. uv_timer_start L n cb to rep = Some (0, L') \<and> timer_inv L' \<and> active L' = insert n (active L)
        \<and> timer_cb (timers L' n) = cb \<and> repeat (timers L' n) = rep
        \<and> unat (timeout (timers L' n)) = min (unat (time L) + unat to) (2 ^ 64 - 1)
        \<and> start_id (timers L' n) = timer_counter L \<and> timer_counter L' = timer_counter L + 1
        \<and> time L' = time L \<and> data L' = data L \<and> (\<forall>m. m \<noteq> n \<longrightarrow> timers L' m = timers L m)))"
proof (intro conjI impI)
  assume n: "\<not> uv__is_closing L n" and "cb \<noteq> None"
  then obtain f where f: "cb = Some f" by auto
  from start_correct [OF assms(1) n assms(2), of f to rep] obtain h a where
    s: "uv_timer_start L n cb to rep = Some (0, (upd n (started L f to rep) L)
        \<lparr>timer_counter := timer_counter L + 1, timer_heap := h, active_handles := a\<rparr>)"
      "timer_inv ((upd n (started L f to rep) L)
        \<lparr>timer_counter := timer_counter L + 1, timer_heap := h, active_handles := a\<rparr>)"
    unfolding Let_def f by blast
  have "active ((upd n (started L f to rep) L)
      \<lparr>timer_counter := timer_counter L + 1, timer_heap := h, active_handles := a\<rparr>) = insert n (active L)"
    by (auto simp: active_def uv__is_active_iff started_def bit_flags)
  with s show "\<exists>L'. uv_timer_start L n cb to rep = Some (0, L') \<and> timer_inv L' \<and> active L' = insert n (active L)
        \<and> timer_cb (timers L' n) = cb \<and> repeat (timers L' n) = rep
        \<and> unat (timeout (timers L' n)) = min (unat (time L) + unat to) (2 ^ 64 - 1)
        \<and> start_id (timers L' n) = timer_counter L \<and> timer_counter L' = timer_counter L + 1
        \<and> time L' = time L \<and> data L' = data L \<and> (\<forall>m. m \<noteq> n \<longrightarrow> timers L' m = timers L m)"
    by (intro exI [of _ "(upd n (started L f to rep) L)
        \<lparr>timer_counter := timer_counter L + 1, timer_heap := h, active_handles := a\<rparr>"])
      (simp add: started_def unat_clamp_add f)
qed (simp add: uv_timer_start_def)

abbreviation idle_timer :: "unit uv_timer" where
  "idle_timer \<equiv> \<lparr>flags = 0, timer_cb = None, timeout = 0, repeat = 0, start_id = 0,
     next_closing = None, close_cb = None\<rparr>"

abbreviation idle_loop :: "64 word \<Rightarrow> (unit, node list) uv_loop" where
  "idle_loop now \<equiv> uv_loop_init now (\<lambda>_. idle_timer) []"

lemma idle_loop_inv: "timer_inv (idle_loop now)" "active (idle_loop now) = {}" "time (idle_loop now) = now"
    "data (idle_loop now) = []"
  using timer_inv_init [of "\<lambda>_. idle_timer"]
  by (auto simp: active_def uv__is_active_def uv_loop_init_def)

lemma idle_loop_not_closing: "\<not> uv__is_closing (idle_loop now) n"
  by (simp add: uv__is_closing_def uv_loop_init_def)

theorem timer_start_exact_witness:
  "\<exists>L'. uv_timer_start (idle_loop 7) 3 (Some ()) (- 1) 0 = Some (0, L') \<and> active L' = {3}
     \<and> unat (timeout (timers L' 3)) = 2 ^ 64 - 1"
proof -
  have "card (active (idle_loop 7) - {3}) + 1 < 2 ^ 32" by (simp add: idle_loop_inv)
  from timer_start_exact [OF idle_loop_inv(1) this, of "Some ()" "- 1" 0]
  have "\<exists>L'. uv_timer_start (idle_loop 7) 3 (Some ()) (- 1) 0 = Some (0, L') \<and> active L' = insert 3 (active (idle_loop 7))
     \<and> unat (timeout (timers L' 3)) = min (unat (time (idle_loop 7)) + unat (- 1 :: 64 word)) (2 ^ 64 - 1)"
    using idle_loop_not_closing by blast
  then show ?thesis by (simp add: idle_loop_inv unsigned_minus_1_eq_mask mask_eq_exp_minus_1)
qed

lemma idle_loop_started:
  obtains L where "uv_timer_start (idle_loop 7) 3 (Some ()) 0 rep = Some (0, L)" "timer_inv L" "due L = {3}"
    "active L = {3}" "time L = 7" "data L = []"
proof -
  have c: "card (active (idle_loop 7) - {3}) + 1 < 2 ^ 32" by (simp add: idle_loop_inv)
  from start_correct [OF idle_loop_inv(1) idle_loop_not_closing c, of "()" 0 rep] obtain h a where
    s: "uv_timer_start (idle_loop 7) 3 (Some ()) 0 rep = Some (0, (upd 3 (started (idle_loop 7) () 0 rep) (idle_loop 7))
      \<lparr>timer_counter := timer_counter (idle_loop 7) + 1, timer_heap := h, active_handles := a\<rparr>)"
      "timer_inv ((upd 3 (started (idle_loop 7) () 0 rep) (idle_loop 7))
      \<lparr>timer_counter := timer_counter (idle_loop 7) + 1, timer_heap := h, active_handles := a\<rparr>)"
    unfolding Let_def by blast
  let ?L = "(upd 3 (started (idle_loop 7) () 0 rep) (idle_loop 7))
      \<lparr>timer_counter := timer_counter (idle_loop 7) + 1, timer_heap := h, active_handles := a\<rparr>"
  have a: "active ?L = {3}" "timeout (timers ?L 3) = 7"
    using idle_loop_inv(2)
    by (auto simp: active_def uv__is_active_iff started_def bit_flags uv_loop_init_def clamp_add_def)
  then have "due ?L = {3}" by (auto simp: due_def idle_loop_inv(3))
  then show ?thesis using that [OF s] a by (simp add: idle_loop_inv)
qed

text \<open>\<open>uv__next_timeout\<close> is \<open>- 1\<close> when no timer is active and otherwise the time that remains to the first of
  all the active timers, 0 when it is over and \<open>INT_MAX\<close> when it does not fit an \<open>int\<close>.\<close>

theorem next_timeout_exact:
  assumes "timer_inv L"
  shows "uv__next_timeout L =
    (if active L = {} then - 1 else int (min (Min (remaining L ` active L)) (2 ^ 31 - 1)))"
  using assms by (rule next_timeout_correct)

theorem next_timeout_exact_witness: "uv__next_timeout (idle_loop 7) = - 1"
  using next_timeout_exact [OF idle_loop_inv(1)] idle_loop_inv(2) by simp

text \<open>C20. \<open>uv__run_timers\<close> returns, in the invariant and with no timer due, whenever the callbacks keep the
  invariant and make no timer due, repeating timers included, until the clock reaches its last value.\<close>

theorem run_timers_return:
  assumes "timer_inv L" "time L \<noteq> - 1" "polite call"
  shows "\<exists>L'. uv__run_timers call L = Some L' \<and> timer_inv L' \<and> time L' = time L \<and> due L' = {}"
  using assms(3,1,2) by (rule run_timers_terminates)

lemma polite_recording: "polite recording"
  unfolding polite_def recording_def by (auto simp: timer_inv_data)

theorem run_timers_return_witness:
  "\<exists>(L :: (unit, node list) uv_loop) L'. due L = {3} \<and> uv__run_timers recording L = Some L' \<and> due L' = {}"
proof -
  obtain L :: "(unit, node list) uv_loop" where L: "timer_inv L" "due L = {3}" "time L = 7"
    using idle_loop_started .
  have "time L \<noteq> - 1" using L(3) by simp
  from run_timers_return [OF L(1) this polite_recording] obtain L' where
    "uv__run_timers recording L = Some L'" "due L' = {}" by blast
  with L(2) show ?thesis by (intro exI [of _ L] exI [of _ L'] conjI)
qed

text \<open>C19. When the callbacks leave the loop alone (what they do to the client's data is any function \<open>f\<close>) and the
  clock has not reached its last value, \<open>uv__run_timers\<close> fires exactly the timers that are due, each once, in the
  order of their timeouts and, for equal ones, in that of their starts; a timer that repeats runs next \<open>repeat\<close>
  milliseconds after the time of the loop, one that does not is stopped, and the others are left alone.\<close>

theorem run_timers_fire:
  assumes "timer_inv L" "time L \<noteq> - 1" "quiet call f"
  shows "\<exists>L' ns. uv__run_timers call L = Some L' \<and> timer_inv L' \<and> data L' = called f L ns (data L) \<and> set ns = due L
    \<and> distinct ns \<and> sorted_wrt (\<lambda>a b. \<not> timer_less_than L b a) ns
    \<and> (\<forall>m. if m \<in> due L then fired (time L) (timers L m) (timers L' m) else timers L' m = timers L m)"
  using assms(3,1,2) by (rule run_timers_order)

theorem run_timers_fire_witness:
  "\<exists>(L :: (unit, node list) uv_loop) L'. due L = {3} \<and> uv__run_timers recording L = Some L' \<and> data L' = [3]"
proof -
  obtain L :: "(unit, node list) uv_loop" where L: "timer_inv L" "due L = {3}" "time L = 7" "data L = []"
    using idle_loop_started .
  have "time L \<noteq> - 1" using L(3) by simp
  from run_timers_fire [OF L(1) this quiet_recording] obtain L' ns where
    "uv__run_timers recording L = Some L'" "data L' = ns" "set ns = {3}" "distinct ns"
    unfolding called_recording L(2,4) by auto
  moreover from this(3,4) have "ns = [3]" by (cases ns) (auto simp: subset_singleton_iff)
  ultimately show ?thesis using L(2) by (intro exI [of _ L] exI [of _ L'] conjI) simp_all
qed

text \<open>C21. A callback that starts its timer again with a timeout of 0 keeps \<open>uv__run_timers\<close> from returning: every
  pass of the loop succeeds and leaves the timer due.\<close>

theorem run_timers_starve_loop:
  assumes "timer_inv L" "due L \<noteq> {}"
  shows "uv__run_timers restarting L = None
    \<and> (\<exists>n L'. heap_min (timer_heap L) = Some n \<and> uv__run_timer restarting L n = Some L' \<and> timer_inv L' \<and> due L' \<noteq> {})"
proof -
  obtain n where n: "heap_min (timer_heap L) = Some n" "n \<in> due L" using due_head [OF assms] by blast
  then have "n \<in> active L" by (simp add: due_def)
  from restarting_step [OF assms(1) this] n(1) run_timers_starve [OF assms] show ?thesis by blast
qed

theorem run_timers_starve_loop_witness:
  "\<exists>L :: (unit, node list) uv_loop. uv_timer_start (idle_loop 7) 3 (Some ()) 0 0 = Some (0, L)
     \<and> uv__run_timers restarting L = None"
proof -
  obtain L :: "(unit, node list) uv_loop" where
    L: "uv_timer_start (idle_loop 7) 3 (Some ()) 0 0 = Some (0, L)" "timer_inv L" "due L = {3}"
    using idle_loop_started .
  then have "due L \<noteq> {}" by simp
  from run_timers_starve_loop [OF L(2) this] L(1) show ?thesis by (intro exI [of _ L] conjI) simp_all
qed

theorem timer_heap_refines_witness:
  "\<exists>h ys. heap_insert (timer_less_than (idle_loop 7)) (timer_heap (idle_loop 7)) 4 = Some h
     \<and> heap_of h ys \<and> mset ys = {#4#}"
proof -
  have "heap_of (timer_heap (idle_loop 7)) []" "timers_ordered (idle_loop 7) []"
    by (simp_all add: uv_loop_init_def heap_init_def heap_of_def at_def tl.ordered_def)
  from timer_heap_refines [OF this, of 4] show ?thesis by auto
qed

end
