(* ===== verification/Punycode.thy ===== *)
theory Punycode
  imports Codec_Prelude
begin

text \<open>
  Punycode as RFC 3492 has it, over natural numbers: the variable-length integers, the bias
  adaptation and the decoder of section 6.2, and an encoder in the shape of section 6.3, which the decoder
  inverts.  Nothing here is code of the repository: it is what \<open>Uv_Idna\<close> is measured against.
\<close>

section \<open>Variable-length integers\<close>

definition threshold :: "nat \<Rightarrow> nat \<Rightarrow> nat" where
  "threshold bias k = (if k \<le> bias then 1 else min 26 (k - bias))"

lemma threshold_range: "1 \<le> threshold bias k" "threshold bias k \<le> 26"
  by (auto simp: threshold_def)

function vlq :: "nat \<Rightarrow> nat \<Rightarrow> nat \<Rightarrow> nat list" where
  "vlq bias k q =
     (let t = threshold bias k in
      if q < t then [q] else (t + (q - t) mod (36 - t)) # vlq bias (k + 36) ((q - t) div (36 - t)))"
  by pat_completeness auto
termination
proof (relation "measure (\<lambda>(_, _, q). q)")
  fix bias k q t
  assume t: "t = threshold bias k" "\<not> q < t"
  then have "1 \<le> t" "t \<le> 26" "t \<le> q" using threshold_range by auto
  moreover have "(q - t) div (36 - t) \<le> q - t" by (rule div_le_dividend)
  ultimately have "(q - t) div (36 - t) < q" by linarith
  then show "((bias, k + 36, (q - t) div (36 - t)), bias, k, q) \<in> measure (\<lambda>(_, _, q). q)" by simp
qed simp

declare vlq.simps [simp del]

fun unvlq :: "nat \<Rightarrow> nat \<Rightarrow> nat \<Rightarrow> nat \<Rightarrow> nat list \<Rightarrow> (nat \<times> nat list) option" where
  "unvlq bias k w i [] = None"
| "unvlq bias k w i (d # ds) =
     (let t = threshold bias k in
      if d < t then Some (i + d * w, ds) else unvlq bias (k + 36) (w * (36 - t)) (i + d * w) ds)"

lemma unvlq_vlq: "unvlq bias k w i (vlq bias k q @ ds) = Some (i + q * w, ds)"
proof (induction bias k q arbitrary: w i rule: vlq.induct)
  case (1 bias k q)
  define t where "t = threshold bias k"
  show ?case
  proof (cases "q < t")
    case True
    then show ?thesis by (simp add: vlq.simps [of bias k q] t_def Let_def)
  next
    case False
    define r where "r = (q - t) mod (36 - t)"
    define q' where "q' = (q - t) div (36 - t)"
    have q: "q = t + r + q' * (36 - t)" using False mult_div_mod_eq [of "36 - t" "q - t"] by (simp add: r_def q'_def algebra_simps)
    have "unvlq bias k w i (vlq bias k q @ ds) = Some (i + (t + r) * w + q' * (w * (36 - t)), ds)"
      using False 1 [OF t_def False] by (simp add: vlq.simps [of bias k q] t_def [symmetric] Let_def r_def q'_def)
    also have "i + (t + r) * w + q' * (w * (36 - t)) = i + q * w"
      by (subst q) (simp add: algebra_simps)
    finally show ?thesis .
  qed
qed

lemma vlq_digits: "d \<in> set (vlq bias k q) \<Longrightarrow> d < 36"
proof (induction bias k q rule: vlq.induct)
  case (1 bias k q)
  define t where "t = threshold bias k"
  have t: "1 \<le> t" "t \<le> 26" using threshold_range by (auto simp: t_def)
  have "(q - t) mod (36 - t) < 36 - t" using t by simp
  then have "t + (q - t) mod (36 - t) < 36" using t by linarith
  then show ?case
    using 1 t by (auto simp: vlq.simps [of bias k q] t_def [symmetric] Let_def split: if_splits)
qed

lemma vlq_nonempty: "vlq bias k q \<noteq> []"
  by (subst vlq.simps) (simp add: Let_def)

section \<open>Bias adaptation\<close>

fun adapt_loop :: "nat \<Rightarrow> nat \<Rightarrow> nat" where
  "adapt_loop bias delta =
     (if delta > 35 * 26 div 2 then adapt_loop (bias + 36) (delta div 35) else bias + 36 * delta div (delta + 38))"

declare adapt_loop.simps [simp del]

definition adapt :: "nat \<Rightarrow> nat \<Rightarrow> bool \<Rightarrow> nat" where
  "adapt delta points first =
     (let delta = (if first then delta div 700 else delta div 2) in adapt_loop 0 (delta + delta div points))"

section \<open>The decoder\<close>

definition insert_at :: "nat \<Rightarrow> 'a \<Rightarrow> 'a list \<Rightarrow> 'a list" where
  "insert_at i x xs = take i xs @ x # drop i xs"

lemma unvlq_shorter: "unvlq bias k w i ds = Some (j, rest) \<Longrightarrow> length rest < length ds"
  by (induction bias k w i ds rule: unvlq.induct) (fastforce simp: Let_def split: if_splits)+

function decode :: "nat \<Rightarrow> nat \<Rightarrow> nat \<Rightarrow> nat list \<Rightarrow> nat list \<Rightarrow> nat list option" where
  "decode n i bias outp ds =
     (if ds = [] then Some outp
      else case unvlq bias 36 1 i ds of
        None \<Rightarrow> None
      | Some (j, rest) \<Rightarrow>
          (let points = length outp + 1; n' = n + j div points; i' = j mod points
           in decode n' (i' + 1) (adapt (j - i) points (i = 0)) (insert_at i' n' outp) rest))"
  by pat_completeness auto
termination
  by (relation "measure (\<lambda>(_, _, _, _, ds). length ds)") (auto dest: unvlq_shorter)

declare decode.simps [simp del]

text \<open>The text of a label after \<open>xn--\<close>: the code points before the last delimiter, and the digits after it.\<close>

definition digit_value :: "byte \<Rightarrow> nat option" where
  "digit_value c =
     (if 97 \<le> c \<and> c \<le> 122 then Some (unat c - 97)
      else if 48 \<le> c \<and> c \<le> 57 then Some (unat c - 22) else None)"

fun digit_values :: "byte list \<Rightarrow> nat list option" where
  "digit_values [] = Some []"
| "digit_values (c # cs) =
     (case digit_value c of
        None \<Rightarrow> None
      | Some d \<Rightarrow> map_option ((#) d) (digit_values cs))"

definition split_last :: "'a \<Rightarrow> 'a list \<Rightarrow> 'a list \<times> 'a list" where
  "split_last d xs =
     (let tail = rev (takeWhile (\<lambda>c. c \<noteq> d) (rev xs)) in
      if d \<in> set xs then (take (length xs - length tail - 1) xs, tail) else ([], xs))"

definition punycode_decode :: "byte list \<Rightarrow> nat list option" where
  "punycode_decode cs =
     (case split_last 45 cs of
        (basic, ds) \<Rightarrow>
          (case digit_values ds of
             None \<Rightarrow> None
           | Some ds \<Rightarrow> decode 128 0 72 (map unat basic) ds))"

section \<open>The encoder\<close>

record encoder =
  digits :: "nat list"
  points :: nat
  ebias :: nat
  edelta :: nat

text \<open>One pass over the code points for the code point \<open>m\<close>, and the passes for all the code points from \<open>n\<close> on.\<close>

fun pass :: "nat \<Rightarrow> nat list \<Rightarrow> encoder \<Rightarrow> encoder" where
  "pass m [] s = s"
| "pass m (c # cs) s =
     (if c < m then pass m cs (s\<lparr>edelta := edelta s + 1\<rparr>)
      else if c = m then
        pass m cs
          (s\<lparr>digits := digits s @ vlq (ebias s) 36 (edelta s), points := points s + 1,
             ebias := adapt (edelta s) (points s + 1) (digits s = []), edelta := 0\<rparr>)
      else pass m cs s)"

function passes :: "nat \<Rightarrow> nat list \<Rightarrow> encoder \<Rightarrow> encoder" where
  "passes n cps s =
     (case filter (\<lambda>c. n \<le> c) cps of
        [] \<Rightarrow> s
      | c # cs \<Rightarrow>
          (let m = Min (set (c # cs));
               s = pass m cps (s\<lparr>edelta := edelta s + (m - n) * (points s + 1)\<rparr>)
           in passes (m + 1) cps (s\<lparr>edelta := edelta s + 1\<rparr>)))"
  by pat_completeness auto
termination
proof (relation "measure (\<lambda>(n, cps, s). length (filter (\<lambda>c. n \<le> c) cps))")
  fix n m :: nat and cps c cs and s s' :: encoder
  assume f: "filter (\<lambda>c. n \<le> c) cps = c # cs" and m: "m = Min (set (c # cs))"
  have "m \<in> set (filter (\<lambda>c. n \<le> c) cps)" unfolding f m by (rule Min_in) simp_all
  then have "m \<in> set cps" "n \<le> m" by auto
  then have "length (filter (\<lambda>c. m + 1 \<le> c) cps) < length (filter (\<lambda>c. n \<le> c) cps)"
  proof (induction cps)
    case (Cons a cps)
    have "length (filter (\<lambda>c. m + 1 \<le> c) cps) \<le> length (filter (\<lambda>c. n \<le> c) cps)" for cps
      using Cons.prems(2) by (induction cps) auto
    then show ?case using Cons by (auto simp: le_imp_less_Suc)
  qed simp
  then show "((m + 1, cps, s'\<lparr>edelta := edelta s' + 1\<rparr>), n, cps, s)
      \<in> measure (\<lambda>(n, cps, s). length (filter (\<lambda>c. n \<le> c) cps))" by simp
qed simp

declare passes.simps [simp del]

text \<open>The place of a scan at the code point \<open>n\<close>, with \<open>i\<close> of \<open>p\<close> code points behind it.\<close>

definition place :: "nat \<Rightarrow> nat \<Rightarrow> nat \<Rightarrow> nat" where
  "place p n i = n * (p + 1) + i"

lemma decode_step:
  assumes "place p n i + q = place p m j" "j \<le> p" "p = length outp"
  shows "decode n i bias outp (vlq bias 36 q @ ds)
    = decode m (j + 1) (adapt q (p + 1) (i = 0)) (insert_at j m outp) ds"
proof -
  have "n \<le> m"
  proof (rule ccontr)
    assume "\<not> n \<le> m"
    then have "(m + 1) * (p + 1) \<le> n * (p + 1)" by (intro mult_le_mono1) simp
    then show False using assms(1,2) by (simp add: place_def)
  qed
  then obtain e where e: "m = n + e" by (auto simp: le_iff_add)
  have "i + q = e * (p + 1) + j" using assms(1) by (simp add: place_def e algebra_simps)
  moreover have "(e * (p + 1) + j) div (p + 1) = e" "(e * (p + 1) + j) mod (p + 1) = j"
    using assms(2) by (simp_all del: mult_Suc_right One_nat_def)
  ultimately have "n + (i + q) div (p + 1) = m" "(i + q) mod (p + 1) = j"
    using e by (simp_all del: mult_Suc_right)
  then show ?thesis
    using assms(3) unvlq_vlq [of bias 36 1 i q ds]
    by (subst decode.simps) (simp add: vlq_nonempty Let_def)
qed

definition encodes :: "nat list \<Rightarrow> nat \<Rightarrow> nat \<Rightarrow> nat list \<Rightarrow> encoder \<Rightarrow> bool" where
  "encodes basic m j outp s =
     (points s = length outp \<and>
      (\<exists>n i. place (points s) n i + edelta s = place (points s) m j \<and> (i = 0 \<longleftrightarrow> digits s = []) \<and> i \<le> points s
         \<and> (\<forall>ds. decode 128 0 72 basic (digits s @ ds) = decode n i (ebias s) outp ds)))"

text \<open>The digits so far make the decoder produce \<open>outp\<close>, and \<open>edelta\<close> leads from its place to the place of the scan.\<close>

lemma encodesI:
  assumes "points s = length outp" "place (points s) n i + edelta s = place (points s) m j"
    "i = 0 \<longleftrightarrow> digits s = []" "i \<le> points s"
    "\<And>ds. decode 128 0 72 basic (digits s @ ds) = decode n i (ebias s) outp ds"
  shows "encodes basic m j outp s"
  using assms unfolding encodes_def by blast

lemma encodes_shift:
  assumes "encodes basic m j outp s" "place (length outp) m' j' = place (length outp) m j + e"
  shows "encodes basic m' j' outp (s\<lparr>edelta := edelta s + e\<rparr>)"
proof -
  from assms(1) obtain n i where p: "points s = length outp"
    and ni: "place (points s) n i + edelta s = place (points s) m j" "i = 0 \<longleftrightarrow> digits s = []" "i \<le> points s"
      "\<forall>ds. decode 128 0 72 basic (digits s @ ds) = decode n i (ebias s) outp ds"
    unfolding encodes_def by blast
  have "place (points s) n i + (edelta s + e) = place (points s) m' j'" using ni(1) assms(2) p by simp
  with ni p show ?thesis by (auto simp: encodes_def)
qed

lemma encodes_insert:
  assumes "encodes basic m j outp s" "j \<le> length outp"
  shows "encodes basic m (j + 1) (insert_at j m outp)
    (s\<lparr>digits := digits s @ vlq (ebias s) 36 (edelta s), points := points s + 1,
       ebias := adapt (edelta s) (points s + 1) (digits s = []), edelta := 0\<rparr>)"
proof -
  from assms(1) obtain n i where p: "points s = length outp"
    and ni: "place (points s) n i + edelta s = place (points s) m j" "i = 0 \<longleftrightarrow> digits s = []"
      "\<And>ds. decode 128 0 72 basic (digits s @ ds) = decode n i (ebias s) outp ds"
    unfolding encodes_def by blast
  have "j \<le> points s" using assms(2) p by simp
  from decode_step [OF ni(1) this p, of "ebias s"] ni(2,3) p assms(2) show ?thesis
    by (intro encodesI [where n = m and i = "j + 1"]) (simp_all add: insert_at_def vlq_nonempty)
qed

lemma pass_correct:
  assumes "encodes basic m (length (filter (\<lambda>c. c \<le> m) xs)) (filter (\<lambda>c. c \<le> m) xs @ filter (\<lambda>c. c < m) cs) s"
  shows "encodes basic m (length (filter (\<lambda>c. c \<le> m) (xs @ cs))) (filter (\<lambda>c. c \<le> m) (xs @ cs)) (pass m cs s)"
  using assms
proof (induction cs arbitrary: xs s)
  case Nil
  then show ?case by simp
next
  case (Cons c cs)
  consider "c < m" | "c = m" | "m < c" by linarith
  then show ?case
  proof cases
    case 1
    with Cons.prems have "encodes basic m (length (filter (\<lambda>c. c \<le> m) (xs @ [c])))
        (filter (\<lambda>c. c \<le> m) (xs @ [c]) @ filter (\<lambda>c. c < m) cs) (s\<lparr>edelta := edelta s + 1\<rparr>)"
      by (intro encodes_shift [where m = m and j = "length (filter (\<lambda>c. c \<le> m) xs)"]) (simp_all add: place_def)
    from Cons.IH [OF this] 1 show ?thesis by simp
  next
    case 2
    have "encodes basic m (length (filter (\<lambda>c. c \<le> m) xs) + 1)
        (insert_at (length (filter (\<lambda>c. c \<le> m) xs)) m (filter (\<lambda>c. c \<le> m) xs @ filter (\<lambda>c. c < m) (c # cs)))
        (s\<lparr>digits := digits s @ vlq (ebias s) 36 (edelta s), points := points s + 1,
           ebias := adapt (edelta s) (points s + 1) (digits s = []), edelta := 0\<rparr>)"
      using Cons.prems by (rule encodes_insert) simp
    then have "encodes basic m (length (filter (\<lambda>c. c \<le> m) (xs @ [c])))
        (filter (\<lambda>c. c \<le> m) (xs @ [c]) @ filter (\<lambda>c. c < m) cs)
        (s\<lparr>digits := digits s @ vlq (ebias s) 36 (edelta s), points := points s + 1,
           ebias := adapt (edelta s) (points s + 1) (digits s = []), edelta := 0\<rparr>)"
      using 2 by (simp add: insert_at_def)
    from Cons.IH [OF this] 2 show ?thesis by simp
  next
    case 3
    with Cons.prems Cons.IH [of "xs @ [c]" s] show ?thesis by simp
  qed
qed

lemma filter_none: "filter (\<lambda>c. n \<le> c) cps = [] \<Longrightarrow> filter (\<lambda>c. c < n) cps = cps" for n :: nat
  by (simp add: filter_empty_conv filter_id_conv not_le)

text \<open>The next code point, and the round of the encoder for it.\<close>

lemma next_codepoint:
  fixes n :: nat
  assumes "filter (\<lambda>c. n \<le> c) cps = c # cs"
  shows "n \<le> Min (set (c # cs))" "Min (set (c # cs)) \<in> set cps"
    "filter (\<lambda>d. d < n) cps = filter (\<lambda>d. d < Min (set (c # cs))) cps"
proof -
  define m where "m = Min (set (c # cs))"
  have "m \<in> set (filter (\<lambda>c. n \<le> c) cps)" unfolding m_def assms by (rule Min_in) simp_all
  then show m: "n \<le> Min (set (c # cs))" "Min (set (c # cs)) \<in> set cps" by (simp_all add: m_def)
  have "m \<le> d" if "d \<in> set cps" "n \<le> d" for d
  proof -
    have "d \<in> set (c # cs)" unfolding assms [symmetric] using that by simp
    then show ?thesis unfolding m_def by (intro Min_le) simp_all
  qed
  then show "filter (\<lambda>d. d < n) cps = filter (\<lambda>d. d < Min (set (c # cs))) cps"
    using m unfolding m_def [symmetric] by (intro filter_cong) (auto simp: not_less [symmetric])
qed

lemma encodes_round:
  assumes "encodes basic n 0 (filter (\<lambda>c. c < n) cps) s" "filter (\<lambda>c. n \<le> c) cps = c # cs" "m = Min (set (c # cs))"
  defines "s' \<equiv> pass m cps (s\<lparr>edelta := edelta s + (m - n) * (points s + 1)\<rparr>)"
  shows "encodes basic (m + 1) 0 (filter (\<lambda>c. c < m + 1) cps) (s'\<lparr>edelta := edelta s' + 1\<rparr>)"
proof -
  note nc = next_codepoint [OF assms(2), folded assms(3)]
  let ?s = "s\<lparr>edelta := edelta s + (m - n) * (points s + 1)\<rparr>"
  have "points s = length (filter (\<lambda>c. c < n) cps)" using assms(1) by (simp add: encodes_def)
  moreover have "n * (p + 1) + (m - n) * (p + 1) = m * (p + 1)" for p
    using nc(1) by (simp only: add_mult_distrib [symmetric] le_add_diff_inverse)
  ultimately have "encodes basic m 0 (filter (\<lambda>c. c < m) cps) ?s"
    using assms(1) unfolding nc(3) [symmetric] by (intro encodes_shift) (auto simp: place_def)
  then have "encodes basic m (length (filter (\<lambda>c. c \<le> m) cps)) (filter (\<lambda>c. c \<le> m) cps) s'"
    using pass_correct [of basic m "[]" cps ?s] by (simp add: s'_def)
  moreover have "filter (\<lambda>c. c \<le> m) cps = filter (\<lambda>c. c < m + 1) cps" by (intro filter_cong) auto
  ultimately show ?thesis by (intro encodes_shift) (auto simp: place_def)
qed

lemma passes_correct:
  assumes "encodes basic n 0 (filter (\<lambda>c. c < n) cps) s"
  shows "decode 128 0 72 basic (digits (passes n cps s)) = Some cps"
  using assms
proof (induction n cps s rule: passes.induct)
  case (1 n cps s)
  show ?case
  proof (cases "filter (\<lambda>c. n \<le> c) cps")
    case Nil
    from 1(2) have "\<exists>n' i'. \<forall>ds. decode 128 0 72 basic (digits s @ ds)
        = decode n' i' (ebias s) (filter (\<lambda>c. c < n) cps) ds" by (auto simp: encodes_def)
    then have "decode 128 0 72 basic (digits s) = Some (filter (\<lambda>c. c < n) cps)"
      by (metis append_Nil2 decode.simps)
    then show ?thesis using Nil filter_none [OF Nil] by (simp add: passes.simps [of n])
  next
    case (Cons c cs)
    from 1(1) [OF Cons refl refl encodes_round [OF 1(2) Cons refl]] show ?thesis
      by (subst passes.simps) (simp add: Cons Let_def)
  qed
qed

lemma pass_digits: "(\<And>d. d \<in> set (digits s) \<Longrightarrow> d < 36) \<Longrightarrow> d \<in> set (digits (pass m cs s)) \<Longrightarrow> d < 36"
  by (induction m cs s rule: pass.induct) (auto split: if_splits dest: vlq_digits)

lemma passes_digits: "(\<And>d. d \<in> set (digits s) \<Longrightarrow> d < 36) \<Longrightarrow> d \<in> set (digits (passes n cps s)) \<Longrightarrow> d < 36"
proof (induction n cps s rule: passes.induct)
  case (1 n cps s)
  show ?case
  proof (cases "filter (\<lambda>c. n \<le> c) cps")
    case Nil
    then show ?thesis using 1(2,3) by (simp add: passes.simps [of n])
  next
    case (Cons c cs)
    define s' where "s' = pass (Min (set (c # cs))) cps (s\<lparr>edelta := edelta s + (Min (set (c # cs)) - n) * (points s + 1)\<rparr>)"
    have p: "passes n cps s = passes (Min (set (c # cs)) + 1) cps (s'\<lparr>edelta := edelta s' + 1\<rparr>)"
      by (subst passes.simps) (simp add: Cons Let_def s'_def)
    have "d < 36" if "d \<in> set (digits s')" for d
      using that 1(2) unfolding s'_def by (rule pass_digits [rotated]) simp
    then show ?thesis using 1(1) [OF Cons refl s'_def] 1(3) unfolding p by simp
  qed
qed

theorem decode_passes:
  "decode 128 0 72 (filter (\<lambda>c. c < 128) cps)
     (digits (passes 128 cps \<lparr>digits = [], points = length (filter (\<lambda>c. c < 128) cps), ebias = 72, edelta = 0\<rparr>))
   = Some cps"
  by (rule passes_correct, rule encodesI [where n = 128 and i = 0]) (simp_all add: place_def)

lemma punycode_decode_examples:
  "punycode_decode (map of_char ''bcher-kva'') = Some (map of_char ''b'' @ [0xfc] @ map of_char ''cher'')"
  by code_simp

end
