(* ===== verification/Uv_Idna.thy ===== *)
theory Uv_Idna
  imports Uv_Errno Unicode_Codec Punycode "HOL-Library.Monad_Syntax"
begin

text \<open>
  The IDNA encoder of \<^verbatim>\<open>libuv/src/idna.c\<close>: the UTF-8 decoder, Punycode (RFC 3492) for one label, and
  the conversion of a domain name.

  The input is a buffer, a list of bytes, and pointers into it are indices: \<open>None\<close> is a read outside the
  buffer, or a loop that does not end.  The output buffer is the list of the bytes written so far beside its
  size \<open>avail\<close>; the code drops what does not fit.
\<close>

section \<open>The code\<close>

definition rd :: "byte list \<Rightarrow> nat \<Rightarrow> u32 option" where
  "rd mem p = (if p < length mem then Some (ucast (mem ! p)) else None)"

definition utf8_checks :: "u32 \<Rightarrow> u32 \<Rightarrow> u32 \<Rightarrow> u32 \<Rightarrow> u32 \<Rightarrow> u32" where
  "utf8_checks lo a b c d =
     (if 0x80 \<noteq> (0xC0 AND (b XOR c XOR d)) then - 1
      else let b = b AND 63; c = c AND 63; d = d AND 63;
               a = push_bit 18 a OR push_bit 12 b OR push_bit 6 c OR d
      in if a < lo then - 1
         else if a > 0x10FFFF then - 1
         else if a \<ge> 0xD800 \<and> a \<le> 0xDFFF then - 1
         else a)"

definition uv__utf8_decode1_slow :: "byte list \<Rightarrow> nat \<Rightarrow> nat \<Rightarrow> u32 \<Rightarrow> (u32 \<times> nat) option" where
  "uv__utf8_decode1_slow mem p pe a =
     (if a > 0xF7 then Some (- 1, p)
      else let switch = int p - int pe in
        if switch \<noteq> 2 \<and> switch \<noteq> 1 \<and> a > 0xEF then do {
          b \<leftarrow> rd mem p; c \<leftarrow> rd mem (p + 1); d \<leftarrow> rd mem (p + 2);
          Some (utf8_checks 0x10000 (a AND 7) b c d, p + 3)
        }
        else if switch \<noteq> 1 \<and> a > 0xDF then do {
          c \<leftarrow> rd mem p; d \<leftarrow> rd mem (p + 1);
          Some (utf8_checks 0x800 0 (0x80 OR (a AND 15)) c d, p + 2)
        }
        else if a > 0xBF then do {
          d \<leftarrow> rd mem p;
          Some (utf8_checks 0x80 0 0x80 (0x80 OR (a AND 31)) d, p + 1)
        }
        else Some (- 1, p))"

definition uv__utf8_decode1 :: "byte list \<Rightarrow> nat \<Rightarrow> nat \<Rightarrow> (u32 \<times> nat) option" where
  "uv__utf8_decode1 mem p pe = do {
     a \<leftarrow> rd mem p;
     if a < 128 then Some (a, p + 1) else uv__utf8_decode1_slow mem (p + 1) pe a
   }"

lemma uv__utf8_decode1_advances: "uv__utf8_decode1 mem p pe = Some (c, p') \<Longrightarrow> p < p' \<and> p' \<le> p + 4"
  by (auto simp: uv__utf8_decode1_def uv__utf8_decode1_slow_def Let_def split: bind_splits if_splits)

text \<open>The macro \<open>foreach_codepoint\<close>.  The body of the loop maps its state to the state to go on with
  (\<open>Inl\<close>) or to the value to leave the loop with (\<open>Inr\<close>).\<close>

function foreach_codepoint ::
    "(u32 \<Rightarrow> 's \<Rightarrow> 's + 'r) \<Rightarrow> byte list \<Rightarrow> nat \<Rightarrow> nat \<Rightarrow> 's \<Rightarrow> ('s + 'r) option" where
  "foreach_codepoint body mem p pe s =
     (if p \<le> pe then
        (case uv__utf8_decode1 mem p pe of
           None \<Rightarrow> None
         | Some (c, p) \<Rightarrow>
             if p \<le> pe then
               (case body c s of
                  Inl s \<Rightarrow> foreach_codepoint body mem p pe s
                | Inr r \<Rightarrow> Some (Inr r))
             else Some (Inl s))
      else Some (Inl s))"
  by pat_completeness auto
termination
  by (relation "measure (\<lambda>(_, _, p, pe, _). Suc pe - p)") (auto dest!: uv__utf8_decode1_advances)

declare foreach_codepoint.simps [simp del]

definition alphabet :: "byte list" where
  "alphabet = map of_char ''abcdefghijklmnopqrstuvwxyz0123456789''"

definition put :: "nat \<Rightarrow> byte \<Rightarrow> byte list \<Rightarrow> byte list" where
  "put avail c out = (if length out < avail then out @ [c] else out)"

text \<open>The loop that writes the digits of \<open>delta\<close> but the last.\<close>

function put_digits :: "nat \<Rightarrow> u32 \<Rightarrow> u32 \<Rightarrow> u32 \<Rightarrow> byte list \<Rightarrow> u32 \<times> byte list" where
  "put_digits avail bias q k out =
     (let t = (if k > bias then k - bias else 1);
          t = (if t > 26 then 26 else t)
      in if q < t then (q, out)
         else let x = q - t;
                  y = 36 - t;
                  q = x div y;
                  t = t + x mod y
              in put_digits avail bias q (k + 36) (put avail (alphabet ! unat t) out))"
  by pat_completeness auto
termination
proof (relation "measure (\<lambda>(_, _, q, _, _). unat q)")
  fix avail out and bias q k t' t x y q' t'' :: u32
  assume t': "t' = (if k > bias then k - bias else 1)" and t: "t = (if t' > 26 then 26 else t')" "\<not> q < t"
    and q': "x = q - t" "y = 36 - t" "q' = x div y"
    and "t'' = t + x mod y"
  have "t' \<noteq> 0" using t' by auto
  then have "1 \<le> unat t" "unat t \<le> unat q"
    using t by (auto simp: word_less_nat_alt unat_gt_0 Suc_le_eq not_less)
  moreover have "unat q' \<le> unat x" unfolding q' by (simp add: unat_div)
  moreover have "unat x = unat q - unat t" unfolding q' using t(2) by (simp add: unat_sub not_less)
  ultimately have "unat q' < unat q" by linarith
  then show "((avail, bias, q', k + 36, put avail (alphabet ! unat t'') out), avail, bias, q, k, out)
      \<in> measure (\<lambda>(_, _, q, _, _). unat q)" by simp
qed simp

declare put_digits.simps [simp del]

text \<open>The loop that computes the next bias, and the step after it.\<close>

function adapt_bias :: "u32 \<Rightarrow> u32 \<Rightarrow> u32" where
  "adapt_bias bias delta =
     (if delta > 35 * 26 div 2 then adapt_bias (bias + 36) (delta div 35)
      else bias + 36 * delta div (delta + 38))"
  by pat_completeness auto
termination
proof (relation "measure (\<lambda>(_, delta). unat delta)")
  fix bias delta :: u32
  assume "delta > 35 * 26 div 2"
  then have "455 < unat delta" by (simp add: word_less_nat_alt)
  then show "((bias + 36, delta div 35), bias, delta) \<in> measure (\<lambda>(_, delta). unat delta)"
    by (simp add: unat_div)
qed simp

declare adapt_bias.simps [simp del]

record puny =
  pout :: "byte list"
  ph :: u32
  pbias :: u32
  pdelta :: u32
  ptodo :: u32
  pfirst :: bool

text \<open>The body of the last loop of the label, which inserts every occurrence of the code point \<open>n\<close>.\<close>

definition insert_codepoint :: "nat \<Rightarrow> u32 \<Rightarrow> u32 \<Rightarrow> puny \<Rightarrow> puny + int \<times> byte list" where
  "insert_codepoint avail n c s =
     (let s = (if c < n then s\<lparr>pdelta := pdelta s + 1\<rparr> else s) in
      if c < n \<and> pdelta s = 0 then Inr (UV_E2BIG, pout s)
      else if c \<noteq> n then Inl s
      else case put_digits avail (pbias s) (pdelta s) 36 (pout s) of
        (q, out) \<Rightarrow>
          (let s = s\<lparr>pout := put avail (alphabet ! unat q) out\<rparr>;
               s = s\<lparr>pdelta := pdelta s div 2\<rparr>;
               s = (if pfirst s then s\<lparr>pdelta := pdelta s div 350, pfirst := False\<rparr> else s);
               s = s\<lparr>ph := ph s + 1\<rparr>;
               s = s\<lparr>pdelta := pdelta s + pdelta s div ph s\<rparr>;
               s = s\<lparr>pbias := adapt_bias 0 (pdelta s)\<rparr>
           in Inl (s\<lparr>pdelta := 0, ptodo := ptodo s - 1\<rparr>)))"

definition min_codepoint :: "u32 \<Rightarrow> u32 \<Rightarrow> u32 \<Rightarrow> u32 + unit" where
  "min_codepoint n c m = Inl (if c \<ge> n then if c < m then c else m else m)"

partial_function (option) punycode ::
    "nat \<Rightarrow> byte list \<Rightarrow> nat \<Rightarrow> nat \<Rightarrow> u32 \<Rightarrow> puny \<Rightarrow> (int \<times> byte list) option" where
  "punycode avail mem ss se n s =
     (if ptodo s = 0 then Some (0, pout s)
      else (case foreach_codepoint (min_codepoint n) mem ss se (- 1) of
        None \<Rightarrow> None
      | Some (Inr _) \<Rightarrow> None
      | Some (Inl m) \<Rightarrow>
          (let x = m - n; y = ph s + 1 in
           if x > NOT (pdelta s) div y then Some (UV_E2BIG, pout s)
           else (case foreach_codepoint (insert_codepoint avail m) mem ss se (s\<lparr>pdelta := pdelta s + x * y\<rparr>) of
                  None \<Rightarrow> None
                | Some (Inr r) \<Rightarrow> Some r
                | Some (Inl s) \<Rightarrow> punycode avail mem ss se (m + 1) (s\<lparr>pdelta := pdelta s + 1\<rparr>)))))"

definition count_codepoint :: "u32 \<Rightarrow> u32 \<times> u32 \<Rightarrow> u32 \<times> u32 + int" where
  "count_codepoint c s =
     (case s of (h, todo) \<Rightarrow>
        if c < 128 then Inl (h + 1, todo)
        else if c = - 1 then Inr UV_EINVAL
        else Inl (h, todo + 1))"

definition copy_ascii :: "nat \<Rightarrow> u32 \<Rightarrow> u32 \<Rightarrow> u32 \<times> byte list \<Rightarrow> u32 \<times> byte list + byte list" where
  "copy_ascii avail h c s =
     (case s of (x, out) \<Rightarrow>
        if c > 127 then Inl s
        else let out = put avail (ucast c) out; x = x + 1
             in if x = h then Inr out else Inl (x, out))"

definition uv__idna_toascii_label ::
    "nat \<Rightarrow> byte list \<Rightarrow> nat \<Rightarrow> nat \<Rightarrow> byte list \<Rightarrow> (int \<times> byte list) option" where
  "uv__idna_toascii_label avail mem s se out =
     (case foreach_codepoint count_codepoint mem s se (0, 0) of
        None \<Rightarrow> None
      | Some (Inr rc) \<Rightarrow> Some (rc, out)
      | Some (Inl (h, todo)) \<Rightarrow>
          (let out = (if todo > 0 then put avail 45 (put avail 45 (put avail 110 (put avail 120 out))) else out) in
           (case foreach_codepoint (copy_ascii avail h) mem s se (0, out) of
              None \<Rightarrow> None
            | Some r \<Rightarrow>
                (let out = (case r of Inl (x, out) \<Rightarrow> out | Inr out \<Rightarrow> out) in
                 if todo = 0 then Some (sint h, out)
                 else let out = (if h > 0 then put avail 45 out else out)
                 in punycode avail mem s se 128
                      \<lparr>pout = out, ph = h, pbias = 72, pdelta = 0, ptodo = todo, pfirst = True\<rparr>))))"

text \<open>The loop over the labels that end in a dot: the code, where the last label starts and the output.\<close>

function idna_labels :: "nat \<Rightarrow> byte list \<Rightarrow> nat \<Rightarrow> nat \<Rightarrow> nat \<Rightarrow> byte list \<Rightarrow> (int \<times> nat \<times> byte list) option" where
  "idna_labels avail mem s si se out =
     (if si < se then
        (case uv__utf8_decode1 mem si se of
           None \<Rightarrow> None
         | Some (c, si') \<Rightarrow>
             if c \<noteq> 46 \<and> c \<noteq> 0x3002 \<and> c \<noteq> 0xFF0E \<and> c \<noteq> 0xFF61
             then idna_labels avail mem s si' se out
             else (case uv__idna_toascii_label avail mem s si out of
                     None \<Rightarrow> None
                   | Some (rc, out) \<Rightarrow>
                       if rc < 0 then Some (rc, s, out)
                       else idna_labels avail mem si' si' se (put avail 46 out)))
      else Some (0, s, out))"
  by pat_completeness auto
termination
  by (relation "measure (\<lambda>(_, _, _, si, se, _). se - si)") (auto dest!: uv__utf8_decode1_advances)

declare idna_labels.simps [simp del]

definition uv__idna_toascii :: "nat \<Rightarrow> byte list \<Rightarrow> nat \<Rightarrow> nat \<Rightarrow> (int \<times> byte list) option" where
  "uv__idna_toascii avail mem s se =
     (case idna_labels avail mem s s se [] of
        None \<Rightarrow> None
      | Some (rc, s, out) \<Rightarrow>
          if rc < 0 then Some (rc, out)
          else (case (if s < se then uv__idna_toascii_label avail mem s se out else Some (0, out)) of
                  None \<Rightarrow> None
                | Some (rc, out) \<Rightarrow>
                    if rc < 0 then Some (rc, out)
                    else let out = put avail 0 out in Some (int (length out), out)))"

section \<open>The loops over code points\<close>

fun reads :: "byte list \<Rightarrow> nat \<Rightarrow> u32 list \<Rightarrow> nat \<Rightarrow> bool" where
  "reads mem p [] pe = (p = pe \<and> uv__utf8_decode1 mem p pe \<noteq> None)"
| "reads mem p (c # cs) pe =
     (p < pe \<and> (case uv__utf8_decode1 mem p pe of
        None \<Rightarrow> False
      | Some (c', p') \<Rightarrow> c' = c \<and> p' \<le> pe \<and> reads mem p' cs pe))"

fun run :: "(u32 \<Rightarrow> 's \<Rightarrow> 's + 'r) \<Rightarrow> u32 list \<Rightarrow> 's \<Rightarrow> 's + 'r" where
  "run body [] s = Inl s"
| "run body (c # cs) s = (case body c s of Inl s \<Rightarrow> run body cs s | Inr r \<Rightarrow> Inr r)"

lemma foreach_reads: "reads mem p cs pe \<Longrightarrow> foreach_codepoint body mem p pe s = Some (run body cs s)"
proof (induction cs arbitrary: p s)
  case Nil
  then obtain c p' where "uv__utf8_decode1 mem p pe = Some (c, p')" "p = pe" by auto
  then show ?case using uv__utf8_decode1_advances [of mem p pe c p'] by (simp add: foreach_codepoint.simps)
next
  case (Cons c cs)
  then obtain p' where "uv__utf8_decode1 mem p pe = Some (c, p')" "p < pe" "p' \<le> pe" "reads mem p' cs pe"
    by (auto split: option.splits)
  then show ?case using Cons.IH by (subst foreach_codepoint.simps) (simp split: sum.split)
qed

section \<open>The output\<close>

definition puts :: "nat \<Rightarrow> byte list \<Rightarrow> byte list \<Rightarrow> byte list" where
  "puts avail cs out = foldl (\<lambda>out c. put avail c out) out cs"

lemma puts_simps [simp]:
  "puts avail [] out = out" "puts avail (c # cs) out = puts avail cs (put avail c out)"
  "puts avail (cs @ ds) out = puts avail ds (puts avail cs out)"
  by (simp_all add: puts_def)

lemma puts_eq: "length out \<le> avail \<Longrightarrow> puts avail cs out = take avail (out @ cs)"
proof (induction cs arbitrary: out)
  case Nil
  then show ?case by simp
next
  case (Cons c cs)
  then have "length (put avail c out) \<le> avail" by (simp add: put_def)
  from Cons.IH [OF this] Cons.prems show ?case by (auto simp: put_def take_Cons')
qed

lemma run_count:
  assumes "- 1 \<notin> set cs"
  shows "run count_codepoint cs (h, t) = Inl (h + of_nat (length (filter (\<lambda>c. c < 128) cs)),
    t + of_nat (length (filter (\<lambda>c. \<not> c < 128) cs)))"
  using assms by (induction cs arbitrary: h t) (auto simp: count_codepoint_def algebra_simps)

lemma run_count_invalid:
  assumes "- 1 \<in> set cs"
  shows "run count_codepoint cs s = Inr UV_EINVAL"
  using assms
proof (induction cs arbitrary: s)
  case (Cons c cs)
  have "\<not> (- 1 :: u32) < 128" by simp
  then show ?case using Cons by (cases s) (auto simp: count_codepoint_def)
qed simp

definition ascii :: "u32 list \<Rightarrow> byte list" where
  "ascii cs = map ucast (filter (\<lambda>c. c < 128) cs)"

lemma run_copy:
  assumes "unat x + length (ascii cs) = unat (h :: u32)" "ascii cs \<noteq> []"
  shows "run (copy_ascii avail h) cs (x, out) = Inr (puts avail (ascii cs) out)"
  using assms
proof (induction cs arbitrary: x out)
  case Nil
  then show ?case by (simp add: ascii_def)
next
  case (Cons c cs)
  show ?case
  proof (cases "c < 128")
    case False
    then have "c > 127" by (simp add: word_less_nat_alt word_le_nat_alt not_less)
    then show ?thesis using False Cons by (simp add: copy_ascii_def ascii_def)
  next
    case True
    then have c: "\<not> c > 127" by (simp add: word_less_nat_alt not_less)
    have h: "unat x + Suc (length (ascii cs)) = unat h" using True Cons.prems by (simp add: ascii_def)
    then have "unat x + 1 < 2 ^ 32" using unsigned_less [of h, where 'a = nat] by simp
    then have x: "unat (x + 1) = unat x + 1" by (simp add: unat_word_ariths)
    show ?thesis
    proof (cases "ascii cs = []")
      case e: True
      then have "unat (x + 1) = unat h" using h x by simp
      then have "x + 1 = h" by (rule unsigned_word_eqI)
      then show ?thesis using c True e by (simp add: copy_ascii_def ascii_def)
    next
      case e: False
      then have "0 < length (ascii cs)" by simp
      then have "unat (x + 1) \<noteq> unat h" using h x by linarith
      then have "x + 1 \<noteq> h" by auto
      moreover have "unat (x + 1) + length (ascii cs) = unat h" using h x by simp
      ultimately show ?thesis using c True Cons.IH [OF _ e] by (simp add: copy_ascii_def ascii_def)
    qed
  qed
qed

lemma run_copy_none: "ascii cs = [] \<Longrightarrow> run (copy_ascii avail h) cs (x, out) = Inl (x, out)"
proof (induction cs arbitrary: x)
  case (Cons c cs)
  then have "c > 127" by (simp add: ascii_def word_less_nat_alt not_less split: if_splits)
  then show ?case using Cons by (simp add: copy_ascii_def ascii_def split: if_splits)
qed simp

lemma run_min:
  "\<exists>m'. run (min_codepoint n) cs m = Inl m' \<and> unat m' = Min (insert (unat m) (unat ` {c \<in> set cs. n \<le> c}))"
proof (induction cs arbitrary: m)
  case (Cons c cs)
  let ?S = "\<lambda>m :: u32. insert (unat m) (unat ` {c \<in> set cs. n \<le> c})"
  have fin: "finite (?S m)" "?S m \<noteq> {}" for m by simp_all
  have le: "Min (?S m) \<le> unat m" for m by (rule Min_le) simp_all
  have set: "insert (unat m) (unat ` {d \<in> set (c # cs). n \<le> d}) = (if n \<le> c then insert (unat c) (?S m) else ?S m)"
    by auto
  show ?case
  proof (cases "n \<le> c \<and> c < m")
    case True
    then have "insert (unat c) (?S m) = insert (unat m) (?S c)" "unat c < unat m"
      by (auto simp: word_less_nat_alt)
    then have "Min (insert (unat c) (?S m)) = Min (?S c)"
      using Min_insert [OF fin, of "unat m" c] le [of c] by (simp add: min_def)
    then show ?thesis using True Cons.IH [of c] unfolding set by (simp add: min_codepoint_def)
  next
    case False
    have "Min (insert (unat c) (?S m)) = Min (?S m)" if "n \<le> c"
    proof -
      have "unat m \<le> unat c" using that False by (simp add: word_less_nat_alt)
      with le [of m] have "Min (?S m) \<le> unat c" by (rule order_trans)
      then show ?thesis unfolding Min_insert [OF fin] by (rule min_absorb2)
    qed
    then show ?thesis using False Cons.IH [of m] unfolding set by (auto simp: min_codepoint_def)
  qed
qed simp

section \<open>Digits and bias\<close>

definition alph :: "nat \<Rightarrow> byte" where
  "alph d = alphabet ! d"

lemma alphabet_eq:
  "alphabet = [97, 98, 99, 100, 101, 102, 103, 104, 105, 106, 107, 108, 109, 110, 111, 112, 113, 114, 115, 116, 117,
    118, 119, 120, 121, 122, 48, 49, 50, 51, 52, 53, 54, 55, 56, 57]"
  by (simp add: alphabet_def)

lemma digit_value_alph:
  assumes "d < 36"
  shows "digit_value (alph d) = Some d" "alph d \<noteq> 45"
proof -
  have a: "map digit_value alphabet = map Some [0..<36]" "length alphabet = 36" "45 \<notin> set alphabet"
    by (simp_all add: alphabet_eq digit_value_def word_le_nat_alt upt_rec)
  from arg_cong [OF a(1), of "\<lambda>xs. xs ! d"] show "digit_value (alph d) = Some d"
    using assms a(2) by (simp add: alph_def)
  have "alphabet ! d \<in> set alphabet" using assms a(2) by simp
  then show "alph d \<noteq> 45" using a(3) by (auto simp: alph_def)
qed

lemma digit_values_alph: "(\<And>d. d \<in> set ds \<Longrightarrow> d < 36) \<Longrightarrow> digit_values (map alph ds) = Some ds"
  by (induction ds) (auto simp: digit_value_alph)

lemma vlq_length: "q < 10 ^ n \<Longrightarrow> length (vlq b k q) \<le> n + 1"
proof (induction b k q arbitrary: n rule: vlq.induct)
  case (1 b k q)
  define t where "t = threshold b k"
  have t: "1 \<le> t" "t \<le> 26" using threshold_range by (auto simp: t_def)
  show ?case
  proof (cases "q < t")
    case True
    then show ?thesis by (simp add: vlq.simps [of b k] t_def Let_def)
  next
    case False
    obtain n' where n: "n = Suc n'" using 1(2) t False by (cases n) auto
    have "(q - t) div (36 - t) \<le> (q - t) div 10" using t by (intro div_le_mono2) auto
    also have "\<dots> < 10 ^ n'" using 1(2) n by (intro less_mult_imp_div_less) (simp add: mult.commute)
    finally have "length (vlq b (k + 36) ((q - t) div (36 - t))) \<le> n' + 1"
      using 1(1) [OF t_def False] by blast
    then show ?thesis using False n by (simp add: vlq.simps [of b k] t_def [symmetric] Let_def)
  qed
qed

lemma put_digits_vlq:
  assumes "unat k + 36 * length (vlq (unat b) (unat k) (unat q)) < 2 ^ 32"
  shows "(case put_digits avail b q k out of (q, out) \<Rightarrow> put avail (alphabet ! unat q) out)
    = puts avail (map alph (vlq (unat b) (unat k) (unat q))) out"
  using assms
proof (induction avail b q k out rule: put_digits.induct)
  case (1 avail b q k out)
  define t' where "t' = (if k > b then k - b else 1)"
  define t where "t = (if t' > 26 then 26 else t')"
  have "unat t' = (if unat b < unat k then unat k - unat b else 1)"
    by (simp add: t'_def word_less_nat_alt unat_sub word_le_nat_alt)
  then have t: "unat t = threshold (unat b) (unat k)"
    by (auto simp: t_def threshold_def word_less_nat_alt min_def not_less split: if_splits)
  have r: "1 \<le> unat t" "unat t \<le> 26" using threshold_range t by auto
  have pd: "put_digits avail b q k out = (if q < t then (q, out)
      else put_digits avail b ((q - t) div (36 - t)) (k + 36) (put avail (alphabet ! unat (t + (q - t) mod (36 - t))) out))"
    by (subst put_digits.simps) (simp only: t_def t'_def Let_def)
  show ?case
  proof (cases "q < t")
    case True
    then show ?thesis
      unfolding pd by (subst vlq.simps) (simp add: Let_def t [symmetric] word_less_nat_alt alph_def)
  next
    case False
    then have q: "unat t \<le> unat q" "\<not> unat q < unat t" by (simp_all add: word_less_nat_alt)
    have y: "unat (36 - t) = 36 - unat t" using r by (subst unat_sub) (auto simp: word_le_nat_alt)
    have x: "unat (q - t) = unat q - unat t" using q by (simp add: unat_sub word_le_nat_alt)
    have "(unat q - unat t) mod (36 - unat t) < 36 - unat t" using r by simp
    then have "unat t + (unat q - unat t) mod (36 - unat t) < 36" using r by linarith
    then have "unat t + (unat q - unat t) mod (36 - unat t) < 2 ^ LENGTH(32)" by simp
    then have d: "unat (t + (q - t) mod (36 - t)) = unat t + (unat q - unat t) mod (36 - unat t)"
      unfolding unat_word_ariths(1) unat_mod x y by (rule mod_less)
    have q': "unat ((q - t) div (36 - t)) = (unat q - unat t) div (36 - unat t)" by (simp add: unat_div x y)
    have v: "vlq (unat b) (unat k) (unat q) = (unat t + (unat q - unat t) mod (36 - unat t))
        # vlq (unat b) (unat k + 36) ((unat q - unat t) div (36 - unat t))"
      using q by (subst vlq.simps) (simp add: Let_def t [symmetric])
    have k: "unat (k + 36) = unat k + 36" using 1(2) unfolding v by (simp add: unat_word_ariths)
    have "unat (k + 36) + 36 * length (vlq (unat b) (unat (k + 36)) (unat ((q - t) div (36 - t)))) < 2 ^ 32"
      using 1(2) unfolding v k q' by simp
    from 1(1) [OF t'_def t_def False refl refl refl refl this]
    show ?thesis
      unfolding v k q' d pd using False by (simp add: alph_def d)
  qed
qed

lemma adapt_bias_loop: "unat b + unat d < 2 ^ 32 - 36 \<Longrightarrow> unat (adapt_bias b d) = adapt_loop (unat b) (unat d)"
proof (induction b d rule: adapt_bias.induct)
  case (1 b d)
  show ?case
  proof (cases "35 * 26 div 2 < d")
    case True
    then have d: "455 < unat d" by (simp add: word_less_nat_alt)
    then have "unat (b + 36) = unat b + 36" "unat (d div 35) = unat d div 35" "unat d div 35 + 36 \<le> unat d"
      using 1(2) by (auto simp: unat_word_ariths unat_div)
    then show ?thesis using 1 True d by (subst adapt_bias.simps, subst adapt_loop.simps) simp
  next
    case False
    then have d: "unat d \<le> 455" by (simp add: word_less_nat_alt not_less)
    have "unat (36 * d) = 36 * unat d" "unat (d + 38) = unat d + 38" using d by (simp_all add: unat_word_ariths)
    then have e: "unat (36 * d div (d + 38)) = 36 * unat d div (unat d + 38)" by (simp add: unat_div)
    have "36 * unat d div (unat d + 38) < 37" by (rule less_mult_imp_div_less) simp
    then have "unat (b + 36 * d div (d + 38)) = unat b + 36 * unat d div (unat d + 38)"
      unfolding unat_word_ariths(1) e using 1(2) by simp
    then show ?thesis using False d by (subst adapt_bias.simps, subst adapt_loop.simps) simp
  qed
qed

section \<open>Punycode\<close>

definition refines :: "nat \<Rightarrow> byte list \<Rightarrow> puny \<Rightarrow> encoder \<Rightarrow> bool" where
  "refines avail outp s e =
     (pout s = puts avail (map alph (digits e)) outp \<and> unat (ph s) = points e \<and> unat (pbias s) = ebias e
      \<and> unat (pdelta s) = edelta e \<and> pfirst s = (digits e = []))"

lemma insert_digit:
  assumes R: "refines avail outp s e" and b: "edelta e + 36 < 2 ^ 32" "points e + 1 < 2 ^ 32"
  shows "\<exists>s'. insert_codepoint avail n n s = Inl s' \<and> ptodo s' = ptodo s - 1 \<and>
    refines avail outp s' (e\<lparr>digits := digits e @ vlq (ebias e) 36 (edelta e), points := points e + 1,
       ebias := adapt (edelta e) (points e + 1) (digits e = []), edelta := 0\<rparr>)"
proof -
  note R = R [unfolded refines_def]
  obtain q out where p: "put_digits avail (pbias s) (pdelta s) 36 (pout s) = (q, out)" by fastforce
  have "unat (pdelta s) < 10 ^ 10" using unsigned_less [of "pdelta s", where 'a = nat] by simp
  from vlq_length [OF this, of "unat (pbias s)" 36] have "unat (36 :: u32) + 36 * length (vlq (unat (pbias s)) (unat (36 :: u32)) (unat (pdelta s))) < 2 ^ 32"
    by simp
  from put_digits_vlq [OF this, of avail "pout s"] p R
  have out: "put avail (alphabet ! unat q) out = puts avail (map alph (digits e @ vlq (ebias e) 36 (edelta e))) outp"
    by simp
  define d where "d = (if pfirst s then pdelta s div 2 div 350 else pdelta s div 2)"
  define dn where "dn = (if digits e = [] then edelta e div 700 else edelta e div 2)"
  have d: "unat d = dn" using R by (simp add: d_def dn_def unat_div div_mult2_eq [symmetric])
  have h: "unat (ph s + 1) = points e + 1" using R b(2) by (simp add: unat_word_ariths)
  have "dn \<le> edelta e div 2" unfolding dn_def by (auto intro: div_le_mono2)
  moreover have "dn div (points e + 1) \<le> dn" by (rule div_le_dividend)
  ultimately have le: "dn + dn div (points e + 1) \<le> edelta e" by linarith
  then have sum: "unat (d + d div (ph s + 1)) = dn + dn div (points e + 1)"
    unfolding unat_word_ariths(1) [of d "d div (ph s + 1)"] unat_div [of d] d h using b(1) by (intro mod_less) simp
  have "unat (0 :: u32) + unat (d + d div (ph s + 1)) < 2 ^ 32 - 36" unfolding sum using le b(1) by simp
  from adapt_bias_loop [OF this] sum
  have bias: "unat (adapt_bias 0 (d + d div (ph s + 1))) = adapt (edelta e) (points e + 1) (digits e = [])"
    by (simp add: adapt_def dn_def Let_def)
  show ?thesis
  proof (intro exI conjI)
    show "insert_codepoint avail n n s = Inl (s\<lparr>pout := put avail (alphabet ! unat q) out, pfirst := False, ph := ph s + 1,
        pbias := adapt_bias 0 (d + d div (ph s + 1)), pdelta := 0, ptodo := ptodo s - 1\<rparr>)"
      using p by (cases s) (simp add: insert_codepoint_def d_def Let_def)
  qed (simp_all add: refines_def out h bias vlq_nonempty)
qed

lemma run_insert:
  assumes "refines avail outp s e" "edelta e + length cs + 36 < 2 ^ 32" "points e + length cs < 2 ^ 32"
  shows "\<exists>s'. run (insert_codepoint avail m) cs s = Inl s' \<and> refines avail outp s' (pass (unat m) (map unat cs) e)
    \<and> ptodo s' = ptodo s - of_nat (length (filter (\<lambda>c. c = m) cs))"
  using assms
proof (induction cs arbitrary: s e)
  case Nil
  then show ?case by simp
next
  case (Cons c cs)
  consider "c < m" | "c = m" | "m < c" by fastforce
  then show ?case
  proof cases
    case 1
    have d: "unat (pdelta s + 1) = edelta e + 1"
      using Cons.prems by (simp add: refines_def unat_word_ariths)
    then have "pdelta s + 1 \<noteq> 0" by (metis One_nat_def add_is_0 unsigned_0 zero_neq_one)
    then have "insert_codepoint avail m c s = Inl (s\<lparr>pdelta := pdelta s + 1\<rparr>)"
      using 1 less_imp_neq [OF 1] by (simp add: insert_codepoint_def Let_def)
    moreover have "refines avail outp (s\<lparr>pdelta := pdelta s + 1\<rparr>) (e\<lparr>edelta := edelta e + 1\<rparr>)"
      using Cons.prems(1) d by (simp add: refines_def)
    ultimately show ?thesis
      using Cons.IH [of "s\<lparr>pdelta := pdelta s + 1\<rparr>" "e\<lparr>edelta := edelta e + 1\<rparr>"] Cons.prems(2,3) 1
      by (auto simp: word_less_nat_alt)
  next
    case 2
    let ?e = "e\<lparr>digits := digits e @ vlq (ebias e) 36 (edelta e), points := points e + 1,
       ebias := adapt (edelta e) (points e + 1) (digits e = []), edelta := 0\<rparr>"
    have "edelta e + 36 < 2 ^ 32" "points e + 1 < 2 ^ 32" using Cons.prems(2,3) by simp_all
    from insert_digit [OF Cons.prems(1) this, of m] obtain s' where
      s': "insert_codepoint avail m m s = Inl s'" "ptodo s' = ptodo s - 1" "refines avail outp s' ?e" by blast
    from Cons.IH [OF s'(3)] Cons.prems(2,3) s' 2 show ?thesis by (auto simp: algebra_simps)
  next
    case 3
    then have "insert_codepoint avail m c s = Inl s" by (auto simp: insert_codepoint_def Let_def)
    then show ?thesis using Cons.IH [OF Cons.prems(1)] Cons.prems(2,3) 3 by (auto simp: word_less_nat_alt)
  qed
qed

lemma unat_not: "unat (NOT w) = 2 ^ 32 - 1 - unat w" for w :: u32
proof -
  have "NOT w = - 1 - w" by (simp add: not_eq_complement)
  moreover have "w \<le> - 1" by (rule word_order.extremum)
  ultimately show ?thesis by (simp add: unat_sub unsigned_minus_1_eq_mask mask_eq_exp_minus_1)
qed

lemma length_filter_split:
  "length (filter (\<lambda>c. m \<le> c) xs) = length (filter (\<lambda>c. m + 1 \<le> c) xs) + length (filter (\<lambda>c. c = m) xs)"
  for m :: nat
  by (induction xs) auto

lemma punycode_passes:
  assumes "reads mem ss cs se" "refines avail outp s e"
    and "encodes basic (unat n) 0 (filter (\<lambda>c. c < unat n) (map unat cs)) e"
    and "\<forall>c \<in> set cs. unat c \<le> 0x10FFFF" "length cs \<le> 3000"
    and "unat (ptodo s) = length (filter (\<lambda>c. unat n \<le> c) (map unat cs))"
  shows "\<exists>s'. punycode avail mem ss se n s = Some (0, pout s')
    \<and> refines avail outp s' (passes (unat n) (map unat cs) e)"
  using assms(2,3,6)
proof (induction "length (filter (\<lambda>c. unat n \<le> c) (map unat cs))" arbitrary: n s e rule: less_induct)
  case less
  let ?cps = "map unat cs"
  show ?case
  proof (cases "filter (\<lambda>c. unat n \<le> c) ?cps")
    case Nil
    then have "ptodo s = 0" using less.prems(3) by (simp add: unat_eq_zero)
    then show ?thesis
      using less.prems(1) Nil by (subst punycode.simps, subst passes.simps) auto
  next
    case (Cons d ds)
    define m where "m = Min (set (d # ds))"
    note nc = next_codepoint [OF Cons, folded m_def]
    have todo: "ptodo s \<noteq> 0" using less.prems(3) Cons by auto
    obtain mw where mw: "run (min_codepoint n) cs (- 1) = (Inl mw :: u32 + unit)"
      "unat mw = Min (insert (unat (- 1 :: u32)) (unat ` {c \<in> set cs. n \<le> c}))"
      using run_min [of n cs "- 1"] by auto
    have "unat ` {c \<in> set cs. n \<le> c} = set (d # ds)"
      unfolding Cons [symmetric] by (auto simp: word_le_nat_alt)
    then have "unat mw = min (unat (- 1 :: u32)) m"
      unfolding mw(2) m_def by (simp only: Min_insert finite_set list.distinct set_empty not_False_eq_True)
    moreover have "m \<le> 0x10FFFF" using nc(2) assms(4) by auto
    moreover have "unat (- 1 :: u32) = 2 ^ 32 - 1" by (simp add: unsigned_minus_1_eq_mask mask_eq_exp_minus_1)
    ultimately have m: "unat mw = m" "m \<le> 0x10FFFF" by simp_all
    note R = less.prems(1) [unfolded refines_def]
    have pts: "points e \<le> 3000"
      using less.prems(2) assms(5) by (auto simp: encodes_def intro: order_trans [OF length_filter_le])
    have y: "unat (ph s + 1) = points e + 1" using R pts by (simp add: unat_word_ariths)
    have x: "unat (mw - n) = m - unat n" using nc(1) by (simp add: unat_sub m word_le_nat_alt)
    have "edelta e \<le> unat n * (points e + 1)" using less.prems(2) by (auto simp: encodes_def place_def)
    moreover have "unat n * (points e + 1) + (m - unat n) * (points e + 1) = m * (points e + 1)"
      using nc(1) by (simp only: add_mult_distrib [symmetric] le_add_diff_inverse)
    moreover have "m * (points e + 1) \<le> 0x10FFFF * 3001" using m(2) pts by (intro mult_le_mono) simp_all
    ultimately have bound: "edelta e + (m - unat n) * (points e + 1) \<le> 0x10FFFF * 3001" by linarith
    have nd: "unat (NOT (pdelta s)) = 2 ^ 32 - 1 - edelta e"
      using R unat_not [of "pdelta s"] by simp
    have "\<not> mw - n > NOT (pdelta s) div (ph s + 1)"
    proof -
      have "(m - unat n) * (points e + 1) \<le> 2 ^ 32 - 1 - edelta e" using bound by simp
      then have "m - unat n \<le> (2 ^ 32 - 1 - edelta e) div (points e + 1)"
        by (simp add: less_eq_div_iff_mult_less_eq)
      then show ?thesis by (simp only: word_less_nat_alt unat_div nd x y not_less)
    qed
    moreover have delta: "unat (pdelta s + (mw - n) * (ph s + 1)) = edelta e + (m - unat n) * (points e + 1)"
    proof -
      have "unat ((mw - n) * (ph s + 1)) = (m - unat n) * (points e + 1)"
        unfolding unat_word_ariths(2) x y using bound by (intro mod_less) simp
      then show ?thesis unfolding unat_word_ariths(1) using R bound by simp
    qed
    let ?s = "s\<lparr>pdelta := pdelta s + (mw - n) * (ph s + 1)\<rparr>"
    let ?e = "e\<lparr>edelta := edelta e + (m - unat n) * (points e + 1)\<rparr>"
    have "refines avail outp ?s ?e" using less.prems(1) delta by (simp add: refines_def)
    from run_insert [OF this, of cs mw] bound pts assms(5) obtain s' where
      s': "run (insert_codepoint avail mw) cs ?s = Inl s'" "refines avail outp s' (pass m ?cps ?e)"
        "ptodo s' = ptodo s - of_nat (length (filter (\<lambda>c. c = mw) cs))"
      unfolding m(1) by auto
    define e' where "e' = pass m ?cps ?e"
    have enc: "encodes basic (m + 1) 0 (filter (\<lambda>c. c < m + 1) ?cps) (e'\<lparr>edelta := edelta e' + 1\<rparr>)"
      unfolding e'_def using encodes_round [OF less.prems(2) Cons m_def] .
    have m1: "unat (mw + 1) = m + 1" using m by (simp add: unat_word_ariths)
    have "edelta e' + 1 \<le> (m + 1) * (points e' + 1)" using enc by (auto simp: encodes_def place_def)
    moreover have "points e' \<le> 3000"
      using enc assms(5) by (auto simp: encodes_def intro: order_trans [OF length_filter_le])
    then have "(m + 1) * (points e' + 1) \<le> 0x110000 * 3001" using m(2) by (intro mult_le_mono) simp_all
    ultimately have "unat (pdelta s' + 1) = edelta e' + 1"
      using s'(2) unfolding e'_def [symmetric] refines_def by (simp add: unat_word_ariths)
    then have R': "refines avail outp (s'\<lparr>pdelta := pdelta s' + 1\<rparr>) (e'\<lparr>edelta := edelta e' + 1\<rparr>)"
      using s'(2) unfolding e'_def [symmetric] by (simp add: refines_def)
    define k where "k = length (filter (\<lambda>c. c = m) ?cps)"
    have "d < unat n \<longleftrightarrow> d < m" if "d \<in> set ?cps" for d
    proof -
      have "d \<in> set (filter (\<lambda>c. c < unat n) ?cps) \<longleftrightarrow> d \<in> set (filter (\<lambda>c. c < m) ?cps)" by (simp only: nc(3))
      then show ?thesis using that by simp
    qed
    then have "filter (\<lambda>c. unat n \<le> c) ?cps = filter (\<lambda>c. m \<le> c) ?cps"
      by (intro filter_cong) (auto simp: not_less [symmetric])
    then have split: "length (filter (\<lambda>c. unat n \<le> c) ?cps) = length (filter (\<lambda>c. m + 1 \<le> c) ?cps) + k"
      using length_filter_split [of m ?cps] by (simp add: k_def)
    have "filter (\<lambda>c. c = mw) cs = filter (\<lambda>c. unat c = m) cs"
      unfolding m(1) [symmetric] by (intro filter_cong) (auto intro: unsigned_word_eqI)
    then have k: "ptodo s' = ptodo s - of_nat k"
      using s'(3) by (simp add: k_def filter_map comp_def)
    have "k \<le> 3000" unfolding k_def using assms(5) by (intro order_trans [OF length_filter_le]) simp
    then have uk: "unat (of_nat k :: u32) = k" by (simp add: unat_of_nat)
    then have "unat (ptodo s') = unat (ptodo s) - k"
      unfolding k using less.prems(3) split by (subst unat_sub) (simp_all add: word_le_nat_alt)
    then have t': "unat (ptodo (s'\<lparr>pdelta := pdelta s' + 1\<rparr>)) = length (filter (\<lambda>c. unat (mw + 1) \<le> c) ?cps)"
      unfolding m1 using less.prems(3) split by simp
    have "0 < k" unfolding k_def using nc(2) by (auto simp: filter_empty_conv)
    then have "length (filter (\<lambda>c. unat (mw + 1) \<le> c) ?cps) < length (filter (\<lambda>c. unat n \<le> c) ?cps)"
      unfolding m1 split by simp
    from less.hyps [OF this R' _ t'] enc obtain s'' where
      s'': "punycode avail mem ss se (mw + 1) (s'\<lparr>pdelta := pdelta s' + 1\<rparr>) = Some (0, pout s'')"
        "refines avail outp s'' (passes (m + 1) ?cps (e'\<lparr>edelta := edelta e' + 1\<rparr>))"
      unfolding m1 by blast
    have "passes (unat n) ?cps e = passes (m + 1) ?cps (e'\<lparr>edelta := edelta e' + 1\<rparr>)"
      by (subst passes.simps) (simp add: Cons Let_def m_def e'_def)
    moreover have "punycode avail mem ss se n s = punycode avail mem ss se (mw + 1) (s'\<lparr>pdelta := pdelta s' + 1\<rparr>)"
      using todo \<open>\<not> mw - n > NOT (pdelta s) div (ph s + 1)\<close> s'(1)
      by (subst punycode.simps) (simp add: foreach_reads [OF assms(1)] mw(1) Let_def)
    ultimately show ?thesis using s'' by auto
  qed
qed

section \<open>A label\<close>

lemma split_last_text:
  assumes "45 \<notin> set ds"
  shows "split_last 45 ((if bs = [] then [] else bs @ [45]) @ ds) = (bs, ds :: byte list)"
proof -
  have all: "takeWhile (\<lambda>c. c \<noteq> 45) (rev ds @ xs) = rev ds @ takeWhile (\<lambda>c. c \<noteq> 45) xs" for xs
    using assms by (intro takeWhile_append2) auto
  show ?thesis using assms all [of "45 # rev bs"] by (simp add: split_last_def Let_def)
qed

definition label_digits :: "nat list \<Rightarrow> nat list" where
  "label_digits cps =
     digits (passes 128 cps \<lparr>digits = [], points = length (filter (\<lambda>c. c < 128) cps), ebias = 72, edelta = 0\<rparr>)"

definition label_text :: "nat list \<Rightarrow> byte list" where
  "label_text cps =
     (let bs = map word_of_nat (filter (\<lambda>c. c < 128) cps)
      in (if bs = [] then [] else bs @ [45]) @ map alph (label_digits cps))"

lemma label_text_decodes: "punycode_decode (label_text cps) = Some cps"
proof -
  let ?bs = "map word_of_nat (filter (\<lambda>c. c < 128) cps) :: byte list" and ?ds = "label_digits cps"
  have "d < 36" if "d \<in> set ?ds" for d
    using that unfolding label_digits_def by (rule passes_digits [rotated]) simp
  then have ds: "45 \<notin> set (map alph ?ds)" "digit_values (map alph ?ds) = Some ?ds"
    using digit_value_alph digit_values_alph by auto
  have "map (unat \<circ> (word_of_nat :: nat \<Rightarrow> byte)) (filter (\<lambda>c. c < 128) cps) = filter (\<lambda>c. c < 128) cps"
    by (intro map_idI) (simp add: unat_of_nat)
  then have "map unat ?bs = filter (\<lambda>c. c < 128) cps" by simp
  moreover have "split_last 45 (label_text cps) = (?bs, map alph ?ds)"
    unfolding label_text_def Let_def using ds(1) by (rule split_last_text)
  ultimately show ?thesis
    unfolding punycode_decode_def using decode_passes [of cps] by (simp add: ds(2)) (simp add: label_digits_def)
qed

lemma ascii_word: "ascii cs = map word_of_nat (filter (\<lambda>c. c < 128) (map unat cs))"
proof -
  have c: "(ucast :: u32 \<Rightarrow> byte) = (\<lambda>c. word_of_nat (unat c))" by (rule ext) simp
  have "filter (\<lambda>c. c < 128) (map unat cs) = map unat (filter (\<lambda>c. c < 128) cs)"
    by (simp add: filter_map comp_def word_less_nat_alt)
  then show ?thesis by (simp only: ascii_def map_map comp_def c)
qed

lemma length_ascii: "length (ascii cs) = length (filter (\<lambda>c. c < 128) (map unat cs))"
  by (simp add: ascii_word)

lemma run_copy_all:
  assumes "length cs \<le> 3000"
  shows "(case run (copy_ascii avail (of_nat (length (ascii cs)))) cs (0, out) of Inl (x, out) \<Rightarrow> out | Inr out \<Rightarrow> out)
    = puts avail (ascii cs) out"
proof (cases "ascii cs = []")
  case True
  then show ?thesis by (simp add: run_copy_none)
next
  case False
  have "length (ascii cs) \<le> 3000" using assms by (simp add: length_ascii order_trans [OF length_filter_le])
  then have "unat (0 :: u32) + length (ascii cs) = unat (of_nat (length (ascii cs)) :: u32)" by (simp add: unat_of_nat)
  from run_copy [OF this False] show ?thesis by simp
qed

definition utf8_scalar :: "u32 \<Rightarrow> bool" where
  "utf8_scalar c = (unat c \<le> 0x10FFFF \<and> \<not> (0xD800 \<le> unat c \<and> unat c \<le> 0xDFFF))"

text \<open>The text of a label in the encoded name.\<close>

definition idna_label :: "u32 list \<Rightarrow> byte list" where
  "idna_label cs =
     (if \<forall>c \<in> set cs. c < 128 then ascii cs
      else map of_char ''xn--'' @ label_text (map unat cs))"

lemma label_correct:
  assumes "reads mem s cs se" "\<forall>c \<in> set cs. unat c \<le> 0x10FFFF" "length cs \<le> 3000" "length out \<le> avail"
  shows "\<exists>rc. uv__idna_toascii_label avail mem s se out = Some (rc, take avail (out @ idna_label cs)) \<and> 0 \<le> rc"
proof -
  let ?h = "of_nat (length (ascii cs)) :: u32" and ?t = "length (filter (\<lambda>c. \<not> c < 128) cs)"
  have nm: "- 1 \<notin> set cs"
  proof
    assume "- 1 \<in> set cs"
    then have "unat (- 1 :: u32) \<le> 0x10FFFF" using assms(2) by blast
    then show False by (simp add: unsigned_minus_1_eq_mask mask_eq_exp_minus_1)
  qed
  have la: "length (filter (\<lambda>c. c < 128) cs) = length (ascii cs)" by (simp add: ascii_def)
  have h: "unat ?h = length (ascii cs)"
    using assms(3) by (simp add: unat_of_nat length_ascii le_less_trans [OF length_filter_le])
  have t: "unat (of_nat ?t :: u32) = ?t"
    using assms(3) by (simp add: unat_of_nat le_less_trans [OF length_filter_le])
  define pre where "pre = (if ?t = 0 then [] else map of_char ''xn--'' :: byte list)"
  have p: "(if (of_nat ?t :: u32) > 0 then put avail 45 (put avail 45 (put avail 110 (put avail 120 out))) else out)
      = puts avail pre out"
    using t by (auto simp: pre_def word_less_nat_alt)
  note f = foreach_reads [OF assms(1)]
  have cnt: "run count_codepoint cs (0, 0) = Inl (?h, of_nat ?t)"
    using run_count [OF nm, of 0 0] la by simp
  have copy: "(case run (copy_ascii avail ?h) cs (0, puts avail pre out) of Inl (x, out) \<Rightarrow> out | Inr out \<Rightarrow> out)
      = puts avail (pre @ ascii cs) out"
    using run_copy_all [OF assms(3)] by simp
  define sep where "sep = (if ascii cs = [] then [] else [45 :: byte])"
  have sep: "(if ?h > 0 then put avail 45 o' else o') = puts avail sep o'" for o'
    using h by (auto simp: sep_def word_less_nat_alt)
  have unf: "uv__idna_toascii_label avail mem s se out =
      (if of_nat ?t = (0 :: u32) then Some (sint ?h, puts avail (pre @ ascii cs) out)
       else punycode avail mem s se 128 \<lparr>pout = puts avail (pre @ ascii cs @ sep) out, ph = ?h, pbias = 72,
         pdelta = 0, ptodo = of_nat ?t, pfirst = True\<rparr>)"
    unfolding uv__idna_toascii_label_def f cnt option.case sum.case prod.case Let_def p copy sep
    by (simp only: puts_simps append_assoc)
  show ?thesis
  proof (cases "?t = 0")
    case True
    then have "\<forall>c \<in> set cs. c < 128" by (simp add: filter_empty_conv)
    moreover have "unat ?h < 2 ^ 31" using h assms(3) by (simp add: length_ascii le_less_trans [OF length_filter_le])
    then have "0 \<le> sint ?h" by (simp add: sint_small)
    ultimately show ?thesis
      unfolding unf using True assms(4) by (simp add: pre_def puts_eq idna_label_def)
  next
    case False
    then have "\<not> (\<forall>c \<in> set cs. c < 128)" by (auto simp: filter_empty_conv)
    let ?cps = "map unat cs"
    let ?s = "\<lparr>pout = puts avail (pre @ ascii cs @ sep) out, ph = ?h, pbias = 72, pdelta = 0, ptodo = of_nat ?t, pfirst = True\<rparr>"
    let ?e = "\<lparr>digits = [], points = length (filter (\<lambda>c. c < 128) ?cps), ebias = 72, edelta = 0\<rparr>"
    have R: "refines avail (puts avail (pre @ ascii cs @ sep) out) ?s ?e"
      using h by (simp add: refines_def length_ascii)
    have E: "encodes (filter (\<lambda>c. c < 128) ?cps) (unat (128 :: u32)) 0 (filter (\<lambda>c. c < unat (128 :: u32)) ?cps) ?e"
      by (rule encodesI [where n = 128 and i = 0]) (simp_all add: place_def)
    have T: "unat (ptodo ?s) = length (filter (\<lambda>c. unat (128 :: u32) \<le> c) ?cps)"
      using t by (simp add: filter_map comp_def word_less_nat_alt not_less)
    from punycode_passes [OF assms(1) R E assms(2,3) T] obtain s' where
      s': "punycode avail mem s se 128 ?s = Some (0, pout s')"
        "refines avail (puts avail (pre @ ascii cs @ sep) out) s' (passes (unat (128 :: u32)) ?cps ?e)" by blast
    have "pout s' = puts avail (pre @ ascii cs @ sep @ map alph (label_digits ?cps)) out"
      using s'(2) by (simp add: refines_def label_digits_def)
    also have "\<dots> = take avail (out @ idna_label cs)"
      unfolding puts_eq [OF assms(4)] using \<open>\<not> (\<forall>c \<in> set cs. c < 128)\<close> False
      by (simp only: idna_label_def if_False label_text_def Let_def pre_def sep_def ascii_word [symmetric])
        (simp add: ascii_word)
    finally have "pout s' = take avail (out @ idna_label cs)" .
    moreover have "(of_nat ?t :: u32) \<noteq> 0" using t False by auto
    ultimately show ?thesis unfolding unf using s'(1) by simp
  qed
qed

section \<open>The UTF-8 decoder\<close>

lemma low_bits: "unat (X :: u32) < 2 ^ k \<Longrightarrow> bit X n \<Longrightarrow> n < k"
proof -
  assume "unat X < 2 ^ k" "bit X n"
  moreover from this have "take_bit k X = X"
    by (simp add: word_unat_eq_iff unsigned_take_bit_eq take_bit_nat_eq_self)
  ultimately show "n < k" using bit_take_bit_iff [of k X n] by simp
qed

lemma unat_or_low:
  assumes "t = push_bit k (y :: u32)" "unat x < 2 ^ k"
  shows "unat (t OR x) = unat t + unat x"
proof -
  have "t AND x = 0"
    unfolding assms(1) by (intro bit_word_eqI) (auto simp: bit_simps not_less dest!: low_bits [OF assms(2)])
  then show ?thesis by (rule unat_or_disjoint)
qed

lemma unat_push: "unat a * 2 ^ k < 2 ^ 32 \<Longrightarrow> unat (push_bit k a) = unat a * 2 ^ k" for a :: u32
  by (simp add: unsigned_push_bit_eq) (simp add: push_bit_eq_mult take_bit_nat_eq_self)

lemma bits_C0: "bit (0xC0 :: u32) n \<longleftrightarrow> n = 6 \<or> n = 7" "bit (0x80 :: u32) n \<longleftrightarrow> n = 7" "bit (63 :: u32) n \<longleftrightarrow> n < 6"
proof -
  have "(0xC0 :: u32) = push_bit 6 (mask 2)" "(0x80 :: u32) = push_bit 7 1" "(63 :: u32) = mask 6"
    by (simp_all add: push_bit_eq_mult mask_eq_exp_minus_1)
  then show "bit (0xC0 :: u32) n \<longleftrightarrow> n = 6 \<or> n = 7" "bit (0x80 :: u32) n \<longleftrightarrow> n = 7" "bit (63 :: u32) n \<longleftrightarrow> n < 6"
    by (auto simp only: bit_push_bit_iff bit_mask_iff bit_1_iff possible_bit_word) auto
qed

definition cont :: "u32 \<Rightarrow> u32" where
  "cont X = 0x80 OR X"

lemma cont_bits:
  assumes "unat X < 64" "unat Y < 64" "unat Z < 64"
  shows "cont X AND 63 = X" "0xC0 AND (cont X XOR cont Y XOR cont Z) = 0x80"
proof -
  have l: "bit X n \<Longrightarrow> n < 6" "bit Y n \<Longrightarrow> n < 6" "bit Z n \<Longrightarrow> n < 6" for n
    using assms low_bits [of X 6 n] low_bits [of Y 6 n] low_bits [of Z 6 n] by simp_all
  show "cont X AND 63 = X"
    unfolding cont_def
    by (intro bit_word_eqI) (auto simp only: bit_and_iff bit_or_iff bit_xor_iff bits_C0 dest: l)
  show "0xC0 AND (cont X XOR cont Y XOR cont Z) = 0x80"
    unfolding cont_def
    by (intro bit_word_eqI) (auto simp only: bit_and_iff bit_or_iff bit_xor_iff bits_C0 dest: l)
qed

lemma unat_chain:
  assumes "unat (a :: u32) < 8" "unat X < 64" "unat Y < 64" "unat Z < 64"
  shows "unat (push_bit 18 a OR push_bit 12 X OR push_bit 6 Y OR Z)
    = unat a * 262144 + unat X * 4096 + unat Y * 64 + unat Z"
proof -
  have 1: "unat (push_bit 6 Y) = unat Y * 64" "unat (push_bit 12 X) = unat X * 4096" "unat (push_bit 18 a) = unat a * 262144"
    using assms unat_push [of Y 6] unat_push [of X 12] unat_push [of a 18] by simp_all
  have 2: "unat (push_bit 6 Y OR Z) = unat Y * 64 + unat Z"
    using unat_or_low [OF refl, of Z 6 Y] assms 1 by simp
  have 3: "unat (push_bit 12 X OR (push_bit 6 Y OR Z)) = unat X * 4096 + (unat Y * 64 + unat Z)"
    using unat_or_low [OF refl, of "push_bit 6 Y OR Z" 12 X] assms 1 2 by simp
  have "unat (push_bit 18 a OR (push_bit 12 X OR (push_bit 6 Y OR Z)))
      = unat a * 262144 + (unat X * 4096 + (unat Y * 64 + unat Z))"
    using unat_or_low [OF refl, of "push_bit 12 X OR (push_bit 6 Y OR Z)" 18 a] assms 1 3 by simp
  then show ?thesis by (simp only: or.assoc add.assoc)
qed

lemma utf8_checks_eq:
  assumes "unat (a :: u32) < 8" "unat X < 64" "unat Y < 64" "unat Z < 64"
    and "unat u = unat a * 262144 + unat X * 4096 + unat Y * 64 + unat Z"
    and "lo \<le> u" "utf8_scalar u"
  shows "utf8_checks lo a (cont X) (cont Y) (cont Z) = u"
proof -
  have "push_bit 18 a OR push_bit 12 X OR push_bit 6 Y OR Z = u"
    using unat_chain [OF assms(1-4)] assms(5) by (simp add: word_unat_eq_iff)
  then show ?thesis
    using assms(6,7) cont_bits assms(2-4)
    by (auto simp: utf8_checks_def Let_def cont_bits utf8_scalar_def word_le_nat_alt word_less_nat_alt not_less)
qed

lemma ucast_continuation:
  assumes "k < 64"
  shows "(ucast (continuation_byte k) :: u32) = cont (word_of_nat k)" "unat (word_of_nat k :: u32) = k"
proof -
  show k: "unat (word_of_nat k :: u32) = k" using assms by (simp add: unat_of_nat)
  have "(0x80 :: u32) = push_bit 7 1" by (simp add: push_bit_eq_mult)
  from unat_or_low [where t = "0x80" and x = "word_of_nat k", OF this] k assms
  have "unat (cont (word_of_nat k)) = 128 + k" unfolding cont_def by simp
  moreover have "unat (ucast (continuation_byte k) :: u32) = 128 + k"
    using assms by (simp add: continuation_byte_def unsigned_ucast_eq unat_of_nat take_bit_nat_eq_self del: of_nat_add)
  ultimately show "(ucast (continuation_byte k) :: u32) = cont (word_of_nat k)" by (simp add: word_unat_eq_iff)
qed

lemma ucast_lead:
  assumes "base + q < 256" "0x80 \<le> base"
  shows "(ucast (word_of_nat (base + q) :: byte) :: u32) = word_of_nat (base + q)"
    "unat (word_of_nat (base + q) :: u32) = base + q"
  using assms by (simp_all add: word_unat_eq_iff unsigned_ucast_eq unat_of_nat take_bit_nat_eq_self del: of_nat_add)

lemma rd_nth: "mem = pre @ bs @ post \<Longrightarrow> i < length bs \<Longrightarrow> rd mem (length pre + i) = Some (ucast (bs ! i))"
  by (simp add: rd_def nth_append)

lemma decode1_lead:
  assumes "mem = pre @ bs @ post" "bs \<noteq> []" "ucast (hd bs) = a" "128 \<le> unat a"
  shows "uv__utf8_decode1 mem (length pre) pe = uv__utf8_decode1_slow mem (length pre + 1) pe a"
proof -
  have "rd mem (length pre) = Some a"
    using rd_nth [OF assms(1), of 0] assms(2,3) by (simp add: hd_conv_nth)
  then show ?thesis using assms(4) by (simp add: uv__utf8_decode1_def word_less_nat_alt)
qed

lemma unat_and_low: "unat (a AND mask k) = unat a mod 2 ^ k" for a :: u32
proof -
  have "a AND mask k = take_bit k a" by (simp only: take_bit_eq_mask)
  then have "unat (a AND mask k) = take_bit k (unat a)" by (simp only: unsigned_take_bit_eq)
  then show ?thesis by (simp only: take_bit_eq_mod)
qed

lemma and_lead:
  "unat ((word_of_nat n :: u32) AND 31) = n mod 32" "unat ((word_of_nat n :: u32) AND 15) = n mod 16"
  "unat ((word_of_nat n :: u32) AND 7) = n mod 8" if "n < 256"
  using that unat_and_low [of "word_of_nat n" 5] unat_and_low [of "word_of_nat n" 4] unat_and_low [of "word_of_nat n" 3]
  by (simp_all add: mask_eq_exp_minus_1 unat_of_nat)

lemma digits_64:
  "(v :: nat) div 64 * 64 + v mod 64 = v"
  "v div 4096 * 4096 + v div 64 mod 64 * 64 + v mod 64 = v"
  "v div 262144 * 262144 + v div 4096 mod 64 * 4096 + v div 64 mod 64 * 64 + v mod 64 = v"
proof -
  have "v div 4096 = v div 64 div 64" "v div 262144 = v div 4096 div 64" by (simp_all add: div_mult2_eq [symmetric])
  moreover have "v div 64 = v div 64 div 64 * 64 + v div 64 mod 64" "v = v div 64 * 64 + v mod 64"
    "v div 4096 = v div 4096 div 64 * 64 + v div 4096 mod 64" by (simp_all only: div_mult_mod_eq)
  ultimately show "v div 64 * 64 + v mod 64 = v"
    "v div 4096 * 4096 + v div 64 mod 64 * 64 + v mod 64 = v"
    "v div 262144 * 262144 + v div 4096 mod 64 * 4096 + v div 64 mod 64 * 64 + v mod 64 = v" by linarith+
qed

lemma decode1_scalar:
  assumes c: "utf8_scalar u" and mem: "mem = pre @ utf8_octets (unat u) @ post" and p: "length pre < pe"
  shows "uv__utf8_decode1 mem (length pre) pe = Some (u, length pre + length (utf8_octets (unat u)))"
proof -
  define v where "v = unat u"
  have v: "v \<le> 0x10FFFF" "(word_of_nat v :: u32) = u" using c by (simp_all add: utf8_scalar_def v_def)
  note mem' = mem [folded v_def]
  have sw: "int (length pre + 1) - int pe \<noteq> 2" "int (length pre + 1) - int pe \<noteq> 1" using p by simp_all
  have rds: "rd mem (length pre + i) = Some (ucast (utf8_octets v ! i))" if "i < length (utf8_octets v)" for i
    using rd_nth [OF mem' that] .
  have co: "(ucast (continuation_byte (k mod 64)) :: u32) = cont (word_of_nat (k mod 64))"
    "unat (word_of_nat (k mod 64) :: u32) = k mod 64" for k
    by (rule ucast_continuation; simp)+
  have chk: "utf8_checks lo a (cont X) (cont Y) (cont (word_of_nat (v mod 64))) = u"
    if "unat a < 8" "unat X < 64" "unat Y < 64" "v = unat a * 262144 + unat X * 4096 + unat Y * 64 + v mod 64"
      "unat lo \<le> v" for lo a X Y
    using that c co(2) [of v] by (intro utf8_checks_eq) (simp_all add: word_le_nat_alt v_def)
  have c0: "(0x80 :: u32) = cont 0" by (simp add: cont_def)
  consider "v < 0x80" | "0x80 \<le> v" "v < 0x800" | "0x800 \<le> v" "v < 0x10000" | "0x10000 \<le> v" by linarith
  then have "uv__utf8_decode1 mem (length pre) pe = Some (u, length pre + length (utf8_octets v))"
  proof cases
    case 1
    then have o: "utf8_octets v = [word_of_nat v]" by (simp add: utf8_octets_def)
    have "(ucast (word_of_nat v :: byte) :: u32) = word_of_nat v"
      using 1 by (simp add: word_unat_eq_iff unsigned_ucast_eq unat_of_nat take_bit_nat_eq_self)
    then have "rd mem (length pre) = Some u" using rds [of 0] o v(2) by simp
    then show ?thesis using 1 o by (simp add: uv__utf8_decode1_def word_less_nat_alt v_def)
  next
    case 2
    define q where "q = v div 64"
    have q: "2 \<le> q" "q < 32" using 2 by (auto simp: q_def)
    have o: "utf8_octets v = [word_of_nat (0xc0 + q), continuation_byte (v mod 64)]"
      using 2 by (simp add: utf8_octets_def continuation_byte_def q_def)
    define a :: u32 where "a = word_of_nat (0xc0 + q)"
    have a: "ucast (word_of_nat (0xc0 + q) :: byte) = a" "unat a = 0xc0 + q" "unat (a AND 31) = q"
      using q ucast_lead [of 192 q] and_lead(1) [of "192 + q"] mod_mult_self4 [of 32 6 q] by (simp_all add: a_def del: of_nat_add)
    have "utf8_checks 0x80 0 (cont 0) (cont (a AND 31)) (cont (word_of_nat (v mod 64))) = u"
      using a(3) q digits_64(1) [of v] 2 by (intro chk) (simp_all add: q_def)
    moreover have "uv__utf8_decode1 mem (length pre) pe = uv__utf8_decode1_slow mem (length pre + 1) pe a"
      using a q o by (intro decode1_lead [OF mem']) simp_all
    moreover have "rd mem (length pre + 1) = Some (cont (word_of_nat (v mod 64)))" using rds [of 1] o co(1) by simp
    ultimately show ?thesis
      using a q by (simp add: uv__utf8_decode1_slow_def word_less_nat_alt o c0 [symmetric] cont_def [symmetric])
  next
    case 3
    define q where "q = v div 4096"
    have q: "q < 16" using 3 by (auto simp: q_def)
    have o: "utf8_octets v = [word_of_nat (0xe0 + q), continuation_byte (v div 64 mod 64), continuation_byte (v mod 64)]"
      using 3 by (simp add: utf8_octets_def continuation_byte_def q_def)
    define a :: u32 where "a = word_of_nat (0xe0 + q)"
    have a: "ucast (word_of_nat (0xe0 + q) :: byte) = a" "unat a = 0xe0 + q" "unat (a AND 15) = q"
      using q ucast_lead [of 224 q] and_lead(2) [of "224 + q"] mod_mult_self4 [of 16 14 q] by (simp_all add: a_def del: of_nat_add)
    have "utf8_checks 0x800 0 (cont (a AND 15)) (cont (word_of_nat (v div 64 mod 64))) (cont (word_of_nat (v mod 64))) = u"
      using a(3) q digits_64(2) [of v] 3 co(2) by (intro chk) (simp_all add: q_def)
    moreover have "uv__utf8_decode1 mem (length pre) pe = uv__utf8_decode1_slow mem (length pre + 1) pe a"
      using a q o by (intro decode1_lead [OF mem']) simp_all
    moreover have "rd mem (length pre + 1) = Some (cont (word_of_nat (v div 64 mod 64)))"
      "rd mem (length pre + 2) = Some (cont (word_of_nat (v mod 64)))" using rds [of 1] rds [of 2] o co(1) by simp_all
    ultimately show ?thesis
      using a q sw by (simp add: uv__utf8_decode1_slow_def word_less_nat_alt o cont_def [symmetric])
  next
    case 4
    define q where "q = v div 262144"
    have q: "q < 8" using v(1) by (auto simp: q_def)
    have o: "utf8_octets v = [word_of_nat (0xf0 + q), continuation_byte (v div 4096 mod 64),
        continuation_byte (v div 64 mod 64), continuation_byte (v mod 64)]"
      using 4 by (simp add: utf8_octets_def continuation_byte_def q_def)
    define a :: u32 where "a = word_of_nat (0xf0 + q)"
    have a: "ucast (word_of_nat (0xf0 + q) :: byte) = a" "unat a = 0xf0 + q" "unat (a AND 7) = q"
      using q ucast_lead [of 240 q] and_lead(3) [of "240 + q"] mod_mult_self4 [of 8 30 q] by (simp_all add: a_def del: of_nat_add)
    have "utf8_checks 0x10000 (a AND 7) (cont (word_of_nat (v div 4096 mod 64))) (cont (word_of_nat (v div 64 mod 64)))
        (cont (word_of_nat (v mod 64))) = u"
      using a(3) q digits_64(3) [of v] 4 co(2) by (intro chk) (simp_all add: q_def)
    moreover have "uv__utf8_decode1 mem (length pre) pe = uv__utf8_decode1_slow mem (length pre + 1) pe a"
      using a q o by (intro decode1_lead [OF mem']) simp_all
    moreover have r: "rd mem (length pre + 1) = Some (cont (word_of_nat (v div 4096 mod 64)))"
      "rd mem (length pre + 1 + 1) = Some (cont (word_of_nat (v div 64 mod 64)))"
      "rd mem (length pre + 1 + 2) = Some (cont (word_of_nat (v mod 64)))"
      using rds [of 1] rds [of 2] rds [of 3] o co(1) by (simp_all add: numeral_3_eq_3)
    moreover have l: "\<not> a > 0xF7" "a > 0xEF" using a(2) q by (simp_all add: word_less_nat_alt)
    ultimately have "uv__utf8_decode1 mem (length pre) pe = Some (u, length pre + 1 + 3)"
      using sw by (simp only: uv__utf8_decode1_slow_def Let_def if_True if_False simp_thms bind.bind_lunit)
    then show ?thesis using o by simp
  qed
  then show ?thesis by (simp add: v_def)
qed

section \<open>Names\<close>

definition utf8 :: "u32 list \<Rightarrow> byte list" where
  "utf8 cs = concat (map (\<lambda>c. utf8_octets (unat c)) cs)"

lemma utf8_simps [simp]: "utf8 [] = []" "utf8 (c # cs) = utf8_octets (unat c) @ utf8 cs" "utf8 (cs @ ds) = utf8 cs @ utf8 ds"
  by (simp_all add: utf8_def)

lemma utf8_octets_nonempty [simp]: "utf8_octets u \<noteq> []"
  by (simp add: utf8_octets_def)

lemma reads_utf8:
  assumes "\<forall>c \<in> set cs. utf8_scalar c" "mem = pre @ utf8 cs @ post" "pe = length pre + length (utf8 cs)"
    and "uv__utf8_decode1 mem pe pe \<noteq> None"
  shows "reads mem (length pre) cs pe"
  using assms
proof (induction cs arbitrary: pre)
  case (Cons c cs)
  have m: "mem = pre @ utf8_octets (unat c) @ (utf8 cs @ post)" using Cons.prems(2) by simp
  have p: "length pre < pe" using Cons.prems(3) by simp
  have "utf8_scalar c" using Cons.prems(1) by simp
  from decode1_scalar [OF this m p] Cons.IH [of "pre @ utf8_octets (unat c)"] Cons.prems p show ?case by simp
qed simp

definition is_dot :: "u32 \<Rightarrow> bool" where
  "is_dot c = (c \<in> {46, 0x3002, 0xFF0E, 0xFF61})"

text \<open>The labels of a name that end in a dot, and what follows the last dot.\<close>

fun labels :: "u32 list \<Rightarrow> u32 list \<Rightarrow> u32 list list \<times> u32 list" where
  "labels cur [] = ([], cur)"
| "labels cur (c # cs) =
     (if is_dot c then (case labels [] cs of (ls, l) \<Rightarrow> (cur # ls, l)) else labels (cur @ [c]) cs)"

definition name_text :: "u32 list \<Rightarrow> byte list" where
  "name_text cs =
     (case labels [] cs of
        (ls, l) \<Rightarrow> concat (map (\<lambda>l. idna_label l @ [46]) ls) @ (if l = [] then [] else idna_label l))"

lemma dot_octets:
  assumes "is_dot c"
  obtains "c = 46" "utf8_octets (unat c) = [46]"
  | x y where "utf8_octets (unat c) = [0xe3, x, y]"
  | x y where "utf8_octets (unat c) = [0xef, x, y]"
  using assms that by (auto simp: is_dot_def utf8_octets_def)

lemma decode1_ascii: "rd mem p = Some b \<Longrightarrow> b < 128 \<Longrightarrow> uv__utf8_decode1 mem p pe = Some (b, p + 1)"
  by (simp add: uv__utf8_decode1_def)

text \<open>The byte at the end of a label may be that of a dot or a terminating NUL: the loops read it.\<close>

lemma decode1_at_dot:
  assumes "is_dot c" "mem = pre @ utf8_octets (unat c) @ post"
  shows "uv__utf8_decode1 mem (length pre) (length pre) \<noteq> None"
proof -
  have three: "uv__utf8_decode1 mem (length pre) (length pre) \<noteq> None"
    if o: "utf8_octets (unat c) = [l, x, y]" and l: "l = 0xe3 \<or> l = 0xef" for l x y
  proof -
    have "rd mem (length pre) = Some (ucast l)" "rd mem (length pre + 1) = Some (ucast x)"
      using rd_nth [OF assms(2), of 0] rd_nth [OF assms(2), of 1] o by simp_all
    then show ?thesis using l by (auto simp: uv__utf8_decode1_def uv__utf8_decode1_slow_def word_less_nat_alt)
  qed
  show ?thesis using assms(1)
  proof (cases rule: dot_octets)
    case 1
    then have "rd mem (length pre) = Some 46" using rd_nth [OF assms(2), of 0] by simp
    then show ?thesis using decode1_ascii [of mem _ 46] by simp
  qed (use three in auto)
qed

lemma take_take_append [simp]: "take n (take n xs @ ys) = take n (xs @ ys)"
  by (cases "length xs \<le> n") auto

lemma put_take: "length out \<le> avail \<Longrightarrow> put avail c out = take avail (out @ [c])"
  using puts_eq [of out avail "[c]"] by simp

lemma scalar_bound: "utf8_scalar c \<Longrightarrow> unat c \<le> 0x10FFFF"
  by (simp add: utf8_scalar_def)

lemma is_dot_code: "(c \<noteq> 46 \<and> c \<noteq> 0x3002 \<and> c \<noteq> 0xFF0E \<and> c \<noteq> 0xFF61) = (\<not> is_dot c)"
  by (auto simp: is_dot_def)

lemma idna_labels_correct:
  assumes "mem = pre @ utf8 cur @ utf8 cs @ 0 # post" "\<forall>c \<in> set (cur @ cs). utf8_scalar c"
    and "length (cur @ cs) \<le> 3000" "length out \<le> avail"
    and "si = length pre + length (utf8 cur)" "se = si + length (utf8 cs)"
  shows "\<exists>pre'. idna_labels avail mem (length pre) si se out =
      Some (0, length pre', take avail (out @ concat (map (\<lambda>l. idna_label l @ [46]) (fst (labels cur cs)))))
    \<and> mem = pre' @ utf8 (snd (labels cur cs)) @ 0 # post \<and> se = length pre' + length (utf8 (snd (labels cur cs)))
    \<and> set (snd (labels cur cs)) \<subseteq> set (cur @ cs) \<and> length (snd (labels cur cs)) \<le> 3000"
  using assms
proof (induction cs arbitrary: pre cur out si)
  case Nil
  then show ?case by (intro exI [of _ pre]) (simp add: idna_labels.simps)
next
  case (Cons c cs)
  let ?o = "utf8_octets (unat c)"
  have m: "mem = (pre @ utf8 cur) @ ?o @ (utf8 cs @ 0 # post)" using Cons.prems(1) by simp
  have si: "length (pre @ utf8 cur) = si" "si < se" using Cons.prems(5,6) by simp_all
  have sc: "utf8_scalar c" using Cons.prems(2) by simp
  have dec: "uv__utf8_decode1 mem si se = Some (c, si + length ?o)"
    using decode1_scalar [OF sc m, of se] si by simp
  show ?case
  proof (cases "is_dot c")
    case False
    have "mem = pre @ utf8 (cur @ [c]) @ utf8 cs @ 0 # post" using Cons.prems(1) by simp
    from Cons.IH [OF this, of out "si + length ?o"] Cons.prems(2-6)
    obtain pre' where I: "idna_labels avail mem (length pre) (si + length ?o) se out =
        Some (0, length pre', take avail (out @ concat (map (\<lambda>l. idna_label l @ [46]) (fst (labels (cur @ [c]) cs)))))"
      "mem = pre' @ utf8 (snd (labels (cur @ [c]) cs)) @ 0 # post"
      "se = length pre' + length (utf8 (snd (labels (cur @ [c]) cs)))"
      "set (snd (labels (cur @ [c]) cs)) \<subseteq> set (cur @ c # cs)" "length (snd (labels (cur @ [c]) cs)) \<le> 3000"
      by auto
    have "idna_labels avail mem (length pre) si se out = idna_labels avail mem (length pre) (si + length ?o) se out"
      using si(2) False by (subst idna_labels.simps) (simp add: dec is_dot_code)
    then show ?thesis using I False by (intro exI [of _ pre']) simp
  next
    case True
    have "uv__utf8_decode1 mem si si \<noteq> None" using decode1_at_dot [OF True m] si(1) by simp
    then have r: "reads mem (length pre) cur si"
      using Cons.prems(1,2,5) by (intro reads_utf8) auto
    have b: "\<forall>c \<in> set cur. unat c \<le> 0x10FFFF" using Cons.prems(2) scalar_bound by auto
    have "length cur \<le> 3000" using Cons.prems(3) by simp
    from label_correct [OF r b this Cons.prems(4)] obtain rc where
      l: "uv__idna_toascii_label avail mem (length pre) si out = Some (rc, take avail (out @ idna_label cur))" "0 \<le> rc"
      by blast
    have "put avail 46 (take avail (out @ idna_label cur)) = take avail (out @ idna_label cur @ [46])"
      by (simp only: put_take length_take min.cobounded2 take_take_append append_assoc)
    then have step: "idna_labels avail mem (length pre) si se out
        = idna_labels avail mem (si + length ?o) (si + length ?o) se (take avail (out @ idna_label cur @ [46]))"
      using si(2) True l by (subst idna_labels.simps) (simp add: dec is_dot_code)
    have m': "mem = (pre @ utf8 cur @ ?o) @ utf8 [] @ utf8 cs @ 0 # post" using Cons.prems(1) by simp
    have len: "length (pre @ utf8 cur @ ?o) = si + length ?o" using si by simp
    have P: "\<forall>c \<in> set ([] @ cs). utf8_scalar c" "length ([] @ cs) \<le> 3000"
      "length (take avail (out @ idna_label cur @ [46])) \<le> avail"
      "si + length ?o = length (pre @ utf8 cur @ ?o) + length (utf8 [])" "se = si + length ?o + length (utf8 cs)"
      using Cons.prems(2-6) by (simp_all del: take_append)
    from Cons.IH [OF m' P] obtain pre' where "idna_labels avail mem (si + length ?o) (si + length ?o) se (take avail (out @ idna_label cur @ [46])) =
        Some (0, length pre', take avail (out @ idna_label cur @ [46] @ concat (map (\<lambda>l. idna_label l @ [46]) (fst (labels [] cs)))))"
      "mem = pre' @ utf8 (snd (labels [] cs)) @ 0 # post" "se = length pre' + length (utf8 (snd (labels [] cs)))"
      "set (snd (labels [] cs)) \<subseteq> set cs" "length (snd (labels [] cs)) \<le> 3000"
      unfolding len take_take_append append_assoc append_Nil by blast
    then show ?thesis
      unfolding step using True by (intro exI [of _ pre']) (auto split: prod.split)
  qed
qed

lemma toascii_correct:
  assumes "\<forall>c \<in> set cs. utf8_scalar c" "length cs \<le> 3000"
  shows "uv__idna_toascii avail (utf8 cs @ 0 # post) 0 (length (utf8 cs))
    = (let out = take avail (name_text cs @ [0]) in Some (int (length out), out))"
proof -
  let ?mem = "utf8 cs @ 0 # post" and ?se = "length (utf8 cs)"
  obtain ls l where ll: "labels [] cs = (ls, l)" by fastforce
  define o1 where "o1 = take avail (concat (map (\<lambda>l. idna_label l @ [46]) ls))"
  from idna_labels_correct [of ?mem "[]" "[]" cs post "[]" avail 0 ?se] assms ll
  obtain pre' where I: "idna_labels avail ?mem 0 0 ?se [] = Some (0, length pre', o1)"
    "?mem = pre' @ utf8 l @ 0 # post" "?se = length pre' + length (utf8 l)" "set l \<subseteq> set cs" "length l \<le> 3000"
    by (auto simp: o1_def)
  have nt: "name_text cs = concat (map (\<lambda>l. idna_label l @ [46]) ls) @ (if l = [] then [] else idna_label l)"
    by (simp add: name_text_def ll)
  have last: "\<exists>rc. (if length pre' < ?se then uv__idna_toascii_label avail ?mem (length pre') ?se o1 else Some (0, o1))
      = Some (rc, take avail (name_text cs)) \<and> 0 \<le> rc"
  proof (cases "l = []")
    case True
    then show ?thesis using I(3) by (simp add: nt o1_def)
  next
    case False
    then have ne: "length pre' < ?se" using I(3) by (cases l) simp_all
    have "rd ?mem ?se = Some 0" by (simp add: rd_def)
    then have "uv__utf8_decode1 ?mem ?se ?se \<noteq> None" by (simp add: decode1_ascii)
    then have r: "reads ?mem (length pre') l ?se" using I(2-4) assms(1) by (intro reads_utf8) auto
    have b: "\<forall>c \<in> set l. unat c \<le> 0x10FFFF" using I(4) assms(1) scalar_bound by auto
    have "length o1 \<le> avail" by (simp add: o1_def)
    from label_correct [OF r b I(5) this] obtain rc where
      "uv__idna_toascii_label avail ?mem (length pre') ?se o1 = Some (rc, take avail (o1 @ idna_label l))" "0 \<le> rc" by blast
    then show ?thesis using ne False by (simp add: nt o1_def del: take_append)
  qed
  then obtain rc where rc: "(if length pre' < ?se then uv__idna_toascii_label avail ?mem (length pre') ?se o1 else Some (0, o1))
      = Some (rc, take avail (name_text cs))" "0 \<le> rc" by blast
  have "put avail 0 (take avail (name_text cs)) = take avail (name_text cs @ [0])"
    by (simp only: put_take length_take min.cobounded2 take_take_append)
  then show ?thesis
    unfolding uv__idna_toascii_def I(1) option.case prod.case rc(1) using rc(2) by (simp add: Let_def)
qed

section \<open>Properties\<close>

lemma utf8_checks_scalar: "utf8_checks lo a b c d = - 1 \<or> utf8_scalar (utf8_checks lo a b c d)"
  by (auto simp: utf8_checks_def Let_def utf8_scalar_def word_le_nat_alt word_less_nat_alt not_less not_le)

lemma decode1_range:
  assumes "uv__utf8_decode1 mem p pe = Some (c, p')"
  shows "c = - 1 \<or> utf8_scalar c"
proof -
  define P where "P c = (c = - 1 \<or> utf8_scalar c)" for c
  have "P (- 1)" "P (utf8_checks lo a b c d)" "a < 128 \<Longrightarrow> P a" for lo a b c d
    using utf8_checks_scalar by (simp_all add: P_def utf8_scalar_def word_less_nat_alt)
  then have "P c"
    using assms by (auto simp: uv__utf8_decode1_def uv__utf8_decode1_slow_def Let_def split: bind_splits if_splits)
  then show ?thesis by (simp add: P_def)
qed

text \<open>C32. \<open>uv__utf8_decode1\<close> decodes the shortest encoding of every scalar value and what it returns is a scalar value
  or the error; but it compares the top bits of the continuation bytes only together, so that it accepts some
  bytes that no encoding has.\<close>

theorem utf8_decode1_exact:
  "(\<forall>u pre post pe. utf8_scalar u \<longrightarrow> length pre < pe \<longrightarrow>
      uv__utf8_decode1 (pre @ utf8_octets (unat u) @ post) (length pre) pe
        = Some (u, length pre + length (utf8_octets (unat u))))
    \<and> (\<forall>mem p pe c p'. uv__utf8_decode1 mem p pe = Some (c, p') \<longrightarrow> c = - 1 \<or> utf8_scalar c)
    \<and> uv__utf8_decode1 [0xE1, 0x41, 0x41] 0 3 = Some (0x1041, 3)"
  using decode1_scalar [OF _ refl] decode1_range by (intro conjI allI impI) (blast | code_simp)+

theorem utf8_decode1_exact_witness: "uv__utf8_decode1 [0xC3, 0xA4, 0] 0 2 = Some (0xE4, 2)"
proof -
  have "utf8_scalar 0xE4" "length ([] :: byte list) < 2" "utf8_octets (unat (0xE4 :: u32)) = [0xC3, 0xA4]"
    by (simp_all add: utf8_scalar_def utf8_octets_def)
  with utf8_decode1_exact [THEN conjunct1, rule_format, of "0xE4" "[]" 2 "[0]"] show ?thesis by simp
qed

text \<open>C30. A label that is all ASCII is copied; any other is written as \<open>xn--\<close> and a text from which the decoder of
  RFC 3492 gives back its code points, cut to the room of the output; no label of at most 3000 code points overflows a
  counter.\<close>

theorem idna_label_exact:
  assumes "\<forall>c \<in> set cs. utf8_scalar c" "length cs \<le> 3000" "length out \<le> avail"
  shows "\<exists>rc txt. uv__idna_toascii_label avail (pre @ utf8 cs @ 0 # post) (length pre) (length pre + length (utf8 cs)) out
      = Some (rc, take avail (out @ txt)) \<and> 0 \<le> rc
    \<and> (if \<forall>c \<in> set cs. c < 128 then txt = ascii cs
       else \<exists>p. txt = map of_char ''xn--'' @ p \<and> punycode_decode p = Some (map unat cs))"
proof -
  let ?mem = "pre @ utf8 cs @ 0 # post" and ?se = "length pre + length (utf8 cs)"
  have "rd ?mem ?se = Some 0" by (simp add: rd_def nth_append)
  then have "uv__utf8_decode1 ?mem ?se ?se \<noteq> None" by (simp add: decode1_ascii)
  then have "reads ?mem (length pre) cs ?se" using assms(1) by (intro reads_utf8) auto
  moreover have "\<forall>c \<in> set cs. unat c \<le> 0x10FFFF" using assms(1) scalar_bound by blast
  ultimately obtain rc where
    "uv__idna_toascii_label avail ?mem (length pre) ?se out = Some (rc, take avail (out @ idna_label cs))" "0 \<le> rc"
    using label_correct assms(2,3) by blast
  then show ?thesis
    using label_text_decodes [of "map unat cs"]
    by (intro exI [of _ rc] exI [of _ "idna_label cs"]) (auto simp: idna_label_def)
qed

theorem idna_label_exact_witness:
  "\<exists>rc p. uv__idna_toascii_label 20 [0xC3, 0xA4, 0] 0 2 [] = Some (rc, take 20 (map of_char ''xn--'' @ p))
     \<and> punycode_decode p = Some [0xE4]"
proof -
  have "\<forall>c \<in> set [0xE4]. utf8_scalar c" "length [0xE4 :: u32] \<le> 3000" "length ([] :: byte list) \<le> 20"
    by (simp_all add: utf8_scalar_def)
  from idna_label_exact [OF this, of "[]" "[]"]
  have "\<exists>rc p. uv__idna_toascii_label 20 (utf8 [0xE4] @ [0]) 0 (length (utf8 [0xE4])) []
      = Some (rc, take 20 (map of_char ''xn--'' @ p)) \<and> punycode_decode p = Some [0xE4]" by auto
  moreover have "utf8 [0xE4] = [0xC3, 0xA4]" by (simp add: utf8_octets_def)
  moreover have "length [0xC3, 0xA4 :: byte] = 2" by simp
  ultimately show ?thesis by (simp only: append.simps)
qed

text \<open>C31. \<open>uv__idna_toascii\<close> writes the labels of a name, each with its dot, and a NUL, cut to the room of the
  output; when the text fills the room the code reports success all the same and the output has no NUL.\<close>

theorem idna_toascii_exact:
  assumes "\<forall>c \<in> set cs. utf8_scalar c" "length cs \<le> 3000"
  shows "uv__idna_toascii avail (utf8 cs @ 0 # post) 0 (length (utf8 cs))
      = Some (int (min avail (length (name_text cs) + 1)),
          if length (name_text cs) < avail then name_text cs @ [0] else take avail (name_text cs))"
  using toascii_correct [OF assms, of avail post] by (simp add: Let_def)

theorem idna_toascii_exact_witness:
  "uv__idna_toascii 3 [0x61, 0x62, 0x63, 0] 0 3 = Some (3, [0x61, 0x62, 0x63])"
proof -
  have "\<forall>c \<in> set [0x61, 0x62, 0x63]. utf8_scalar c" "length [0x61, 0x62, 0x63 :: u32] \<le> 3000"
    by (simp_all add: utf8_scalar_def)
  from idna_toascii_exact [OF this, of 3 "[]"] show ?thesis
    by (simp add: utf8_octets_def name_text_def is_dot_def idna_label_def ascii_def numeral_3_eq_3)
qed

lemma idna_labels_skip:
  assumes "\<forall>c \<in> set cs. utf8_scalar c \<and> \<not> is_dot c" "mem = pre @ utf8 cs @ post" "length pre + length (utf8 cs) \<le> se"
  shows "idna_labels avail mem s (length pre) se out = idna_labels avail mem s (length pre + length (utf8 cs)) se out"
  using assms
proof (induction cs arbitrary: pre)
  case (Cons c cs)
  let ?o = "utf8_octets (unat c)"
  have m: "mem = pre @ ?o @ (utf8 cs @ post)" using Cons.prems(2) by simp
  have lt: "length pre < se" using Cons.prems(3) by (simp add: less_le_trans [of _ "length pre + length ?o"])
  have sc: "utf8_scalar c" using Cons.prems(1) by simp
  from decode1_scalar [OF sc m lt] lt Cons.prems(1)
  have "idna_labels avail mem s (length pre) se out = idna_labels avail mem s (length pre + length ?o) se out"
    by (subst idna_labels.simps) (simp add: is_dot_code)
  also have "\<dots> = idna_labels avail mem s (length pre + length ?o + length (utf8 cs)) se out"
    using Cons.IH [of "pre @ ?o"] Cons.prems by simp
  finally show ?case by (simp add: add.assoc)
qed simp

text \<open>C33. A name that ends in the first byte of a sequence of four is read beyond its terminating NUL: in a buffer that
  holds the name and the NUL the conversion reads outside the buffer.\<close>

theorem idna_reads_past_end:
  assumes "\<forall>c \<in> set cs. utf8_scalar c \<and> \<not> is_dot c" "0xF0 \<le> unat b" "unat b \<le> 0xF7"
  shows "uv__idna_toascii avail (utf8 cs @ [b, 0]) 0 (length (utf8 cs) + 1) = None"
proof -
  let ?mem = "utf8 cs @ [b, 0]" and ?p = "length (utf8 cs)"
  have r: "rd ?mem ?p = Some (ucast b)" "rd ?mem (?p + 1 + 1) = None" by (simp_all add: rd_def nth_append)
  have "unat (ucast b :: u32) = unat b" by simp
  then have "uv__utf8_decode1 ?mem ?p (?p + 1) = None"
    using assms(2,3) r
    by (auto simp: uv__utf8_decode1_def uv__utf8_decode1_slow_def word_less_nat_alt split: bind_splits)
  then have "idna_labels avail ?mem 0 ?p (?p + 1) [] = None" by (subst idna_labels.simps) simp
  then have "idna_labels avail ?mem 0 0 (?p + 1) [] = None"
    using idna_labels_skip [OF assms(1), of ?mem "[]" "[b, 0]" "?p + 1" avail 0 "[]"] by simp
  then show ?thesis by (simp add: uv__idna_toascii_def)
qed

theorem idna_reads_past_end_witness: "uv__idna_toascii 256 [0x61, 0xF0, 0] 0 2 = None"
proof -
  have "\<forall>c \<in> set [0x61]. utf8_scalar c \<and> \<not> is_dot c" "0xF0 \<le> unat (0xF0 :: byte)" "unat (0xF0 :: byte) \<le> 0xF7"
    by (simp_all add: utf8_scalar_def is_dot_def)
  from idna_reads_past_end [OF this, of 256]
  have "uv__idna_toascii 256 (utf8 [0x61] @ [0xF0, 0]) 0 (length (utf8 [0x61]) + 1) = None" .
  moreover have "utf8 [0x61] = [0x61]" by (simp add: utf8_octets_def)
  moreover have "length [0x61 :: byte] + 1 = 2" by simp
  ultimately show ?thesis by (simp only: append.simps)
qed

end
