(* ===== verification/Uv_Inet.thy ===== *)
theory Uv_Inet
  imports Uv_Errno Codec_Prelude "HOL-Library.Monad_Syntax"
begin

text \<open>
  Textual addresses: \<^verbatim>\<open>libuv/src/inet.c\<close> and the bounded string copy of \<^verbatim>\<open>libuv/src/strscpy.c\<close>.

  A C string is a list of bytes with a terminating 0 somewhere in it, and a buffer is the list of the bytes it
  has room for; \<open>None\<close> is an access outside a buffer or past the end of an unterminated string.  The local
  arrays \<open>tmp\<close> that the code fills from the front are the list of the bytes written, with their capacity
  checked at every write; \<open>junk\<close> is what an uninitialised array holds.  An \<open>Inl\<close> is an error code returned.
\<close>

section \<open>The code\<close>

definition AF_INET :: int where "AF_INET = 2"

definition AF_INET6 :: int where "AF_INET6 = 30"

definition UV__INET6_ADDRSTRLEN :: nat where "UV__INET6_ADDRSTRLEN = 46"

definition UV__INET_ADDRSTRLEN :: nat where "UV__INET_ADDRSTRLEN = 16"

definition SSIZE_MAX :: nat where "SSIZE_MAX = 2 ^ 63 - 1"

text \<open>The loop of \<open>uv__strscpy\<close> at index \<open>i\<close> with \<open>k\<close> rounds left; the result is what it returned, if it did.\<close>

fun strscpy_loop :: "byte list \<Rightarrow> byte list \<Rightarrow> nat \<Rightarrow> nat \<Rightarrow> (int option \<times> byte list) option" where
  "strscpy_loop d s i 0 = Some (None, d)"
| "strscpy_loop d s i (Suc k) =
     (if i < length s \<and> i < length d
      then let d = d[i := s ! i] in
        if s ! i = 0 then Some (Some (if i > SSIZE_MAX then UV_E2BIG else int i), d)
        else strscpy_loop d s (Suc i) k
      else None)"

definition uv__strscpy :: "byte list \<Rightarrow> byte list \<Rightarrow> nat \<Rightarrow> (int \<times> byte list) option" where
  "uv__strscpy d s n =
     (case strscpy_loop d s 0 n of
        None \<Rightarrow> None
      | Some (Some r, d) \<Rightarrow> Some (r, d)
      | Some (None, d) \<Rightarrow> if n = 0 then Some (0, d) else Some (UV_E2BIG, d[n - 1 := 0]))"

text \<open>\<open>snprintf\<close> with \<open>%u.%u.%u.%u\<close> into a buffer of \<open>n\<close> bytes: what it returns, and the string it leaves.\<close>

definition dotted_quad :: "byte list \<Rightarrow> byte list" where
  "dotted_quad a = decimal (unat (a ! 0)) @ [46] @ decimal (unat (a ! 1)) @ [46] @ decimal (unat (a ! 2))
     @ [46] @ decimal (unat (a ! 3))"

definition snprintf_bytes :: "nat \<Rightarrow> byte list \<Rightarrow> int \<times> byte list" where
  "snprintf_bytes n out = (int (length out), take (n - 1) out @ [0])"

definition inet_ntop4 :: "byte list \<Rightarrow> byte list \<Rightarrow> nat \<Rightarrow> (int \<times> byte list) option" where
  "inet_ntop4 src dst sz =
     (if length src < 4 then None
      else let (l, tmp) = snprintf_bytes UV__INET_ADDRSTRLEN (dotted_quad src) in
        if l \<le> 0 \<or> nat l \<ge> sz then Some (UV_ENOSPC, dst)
        else do {
          (r, dst) \<leftarrow> uv__strscpy dst tmp sz;
          Some (0, dst)
        })"

text \<open>\<open>words[i / 2] |= src[i] << ((1 - (i % 2)) << 3)\<close> for the 16 bytes.\<close>

definition in6_words :: "byte list \<Rightarrow> u32 list" where
  "in6_words src =
     fold (\<lambda>i ws. ws[i div 2 := ws ! (i div 2) OR push_bit ((1 - i mod 2) * 8) (ucast (src ! i))])
       [0..<16] (replicate 8 0)"

record zero_run =
  base :: int
  len :: int

definition better_run :: "zero_run \<Rightarrow> zero_run \<Rightarrow> zero_run" where
  "better_run best cur = (if base best = - 1 \<or> len cur > len best then cur else best)"

definition scan_word :: "u32 list \<Rightarrow> nat \<Rightarrow> zero_run \<times> zero_run \<Rightarrow> zero_run \<times> zero_run" where
  "scan_word ws i = (\<lambda>(best, cur).
     if ws ! i = 0 then
       (if base cur = - 1 then (best, \<lparr>base = int i, len = 1\<rparr>) else (best, cur\<lparr>len := len cur + 1\<rparr>))
     else if base cur \<noteq> - 1 then (better_run best cur, cur\<lparr>base := - 1\<rparr>)
     else (best, cur))"

definition best_run :: "u32 list \<Rightarrow> zero_run" where
  "best_run ws =
     (let (best, cur) = fold (scan_word ws) [0..<8] (\<lparr>base = - 1, len = 0\<rparr>, \<lparr>base = - 1, len = 0\<rparr>);
          best = (if base cur \<noteq> - 1 then better_run best cur else best)
      in if base best \<noteq> - 1 \<and> len best < 2 then best\<lparr>base := - 1\<rparr> else best)"

text \<open>\<open>*tp++ = c\<close> and \<open>tp += sprintf(tp, ...)\<close> in \<open>tmp[UV__INET6_ADDRSTRLEN]\<close>.\<close>

definition tmp_put :: "byte \<Rightarrow> byte list \<Rightarrow> byte list option" where
  "tmp_put c tmp = (if length tmp < UV__INET6_ADDRSTRLEN then Some (tmp @ [c]) else None)"

definition tmp_print :: "byte list \<Rightarrow> byte list \<Rightarrow> byte list option" where
  "tmp_print out tmp = (if length tmp + length out < UV__INET6_ADDRSTRLEN then Some (tmp @ out) else None)"

fun hexadecimal :: "nat \<Rightarrow> byte list" where
  "hexadecimal n =
     (let digit = (\<lambda>d. word_of_nat (if d < 10 then 48 + d else 87 + d)) in
      if n < 16 then [digit n] else hexadecimal (n div 16) @ [digit (n mod 16)])"

declare hexadecimal.simps [simp del]

text \<open>\<open>strlen\<close> of a string that ends inside its buffer.\<close>

definition c_string :: "byte list \<Rightarrow> byte list option" where
  "c_string mem = (if 0 \<in> set mem then Some (takeWhile (\<lambda>b. b \<noteq> 0) mem) else None)"

definition ends_in_ipv4 :: "zero_run \<Rightarrow> u32 list \<Rightarrow> nat \<Rightarrow> bool" where
  "ends_in_ipv4 best ws i \<longleftrightarrow>
     i = 6 \<and> base best = 0 \<and> (len best = 6 \<or> len best = 7 \<and> ws ! 7 \<noteq> 0x0001 \<or> len best = 5 \<and> ws ! 5 = 0xffff)"

text \<open>The formatting loop over the indices still to come.\<close>

fun ntop6_loop ::
  "(nat \<Rightarrow> byte) \<Rightarrow> byte list \<Rightarrow> u32 list \<Rightarrow> zero_run \<Rightarrow> nat list \<Rightarrow> byte list \<Rightarrow> (int + byte list) option" where
  "ntop6_loop junk src ws best [] tmp = Some (Inr tmp)"
| "ntop6_loop junk src ws best (i # is) tmp =
     (if base best \<noteq> - 1 \<and> int i \<ge> base best \<and> int i < base best + len best
      then do {
        tmp \<leftarrow> (if int i = base best then tmp_put 58 tmp else Some tmp);
        ntop6_loop junk src ws best is tmp
      }
      else do {
        tmp \<leftarrow> (if i \<noteq> 0 then tmp_put 58 tmp else Some tmp);
        if ends_in_ipv4 best ws i
        then do {
          (err, dst) \<leftarrow> inet_ntop4 (drop 12 src) (map junk [length tmp..<UV__INET6_ADDRSTRLEN])
                          (UV__INET6_ADDRSTRLEN - length tmp);
          if err \<noteq> 0 then Some (Inl err)
          else do {
            s \<leftarrow> c_string dst;
            Some (Inr (tmp @ s))
          }
        }
        else do {
          tmp \<leftarrow> tmp_print (hexadecimal (unat (ws ! i))) tmp;
          ntop6_loop junk src ws best is tmp
        }
      })"

definition inet_ntop6 :: "(nat \<Rightarrow> byte) \<Rightarrow> byte list \<Rightarrow> byte list \<Rightarrow> nat \<Rightarrow> (int \<times> byte list) option" where
  "inet_ntop6 junk src dst sz =
     (if length src < 16 then None
      else let ws = in6_words src; best = best_run ws in do {
        r \<leftarrow> ntop6_loop junk src ws best [0..<8] [];
        case r of
          Inl err \<Rightarrow> Some (err, dst)
        | Inr tmp \<Rightarrow> do {
            tmp \<leftarrow> (if base best \<noteq> - 1 \<and> base best + len best = 8 then tmp_put 58 tmp else Some tmp);
            tmp \<leftarrow> tmp_put 0 tmp;
            (r, dst) \<leftarrow> uv__strscpy dst tmp sz;
            Some (if r = UV_E2BIG then UV_ENOSPC else 0, dst)
          }
      })"

definition uv_inet_ntop :: "(nat \<Rightarrow> byte) \<Rightarrow> int \<Rightarrow> byte list \<Rightarrow> byte list \<Rightarrow> nat \<Rightarrow> (int \<times> byte list) option" where
  "uv_inet_ntop junk af src dst sz =
     (if af = AF_INET then inet_ntop4 src dst sz
      else if af = AF_INET6 then inet_ntop6 junk src dst sz
      else Some (UV_EAFNOSUPPORT, dst))"

text \<open>\<open>strchr(digits, ch) - digits\<close>, for a \<open>ch\<close> that is not 0.\<close>

definition digits_l :: "byte list" where
  "digits_l = [48, 49, 50, 51, 52, 53, 54, 55, 56, 57]"

definition xdigits_l :: "byte list" where
  "xdigits_l = digits_l @ [97, 98, 99, 100, 101, 102]"

definition xdigits_u :: "byte list" where
  "xdigits_u = digits_l @ [65, 66, 67, 68, 69, 70]"

fun strchr_at :: "nat \<Rightarrow> byte list \<Rightarrow> byte \<Rightarrow> nat option" where
  "strchr_at k [] c = None"
| "strchr_at k (d # ds) c = (if d = c then Some k else strchr_at (Suc k) ds c)"

text \<open>The loop of \<open>inet_pton4\<close>: \<open>octs\<close> are the bytes of \<open>tmp\<close> before \<open>tp\<close>, \<open>cur\<close> is \<open>*tp\<close>.\<close>

fun pton4_loop :: "bool \<Rightarrow> nat \<Rightarrow> byte list \<Rightarrow> byte \<Rightarrow> byte list \<Rightarrow> (int + byte list) option" where
  "pton4_loop saw_digit octets octs cur [] = None"
| "pton4_loop saw_digit octets octs cur (ch # src) =
     (if ch = 0 then
        (if octets < 4 then Some (Inl UV_EINVAL) else Some (Inr (octs @ [cur])))
      else case strchr_at 0 digits_l ch of
        Some d \<Rightarrow>
          (let nw = ucast cur * 10 + word_of_nat d :: u32 in
           if saw_digit \<and> cur = 0 then Some (Inl UV_EINVAL)
           else if nw > 255 then Some (Inl UV_EINVAL)
           else if \<not> saw_digit \<and> octets + 1 > 4 then Some (Inl UV_EINVAL)
           else pton4_loop True (if saw_digit then octets else octets + 1) octs (ucast nw) src)
      | None \<Rightarrow>
          if ch = 46 \<and> saw_digit then
            (if octets = 4 then Some (Inl UV_EINVAL)
             else pton4_loop False octets (octs @ [cur]) 0 src)
          else Some (Inl UV_EINVAL))"

definition inet_pton4 :: "byte list \<Rightarrow> (int + byte list) option" where
  "inet_pton4 src = pton4_loop False 0 [] 0 src"

text \<open>
  \<open>inet_pton6\<close>: \<open>tmp\<close> is the array of 16 bytes, \<open>tp\<close> and \<open>colonp\<close> are indices into it, and \<open>curtok\<close> is the rest of
  the string at the start of the current token.
\<close>

record pton6_st =
  p_tmp :: "byte list"
  p_tp :: nat
  p_colonp :: "nat option"
  p_curtok :: "byte list"
  p_seen_xdigits :: nat
  p_val :: u32

text \<open>\<open>*tp++ = (val >> 8) & 0xff; *tp++ = val & 0xff\<close>.\<close>

definition put_group :: "pton6_st \<Rightarrow> pton6_st option" where
  "put_group s =
     (if p_tp s + 1 < length (p_tmp s)
      then Some (s\<lparr>p_tmp := (p_tmp s)[p_tp s := ucast (drop_bit 8 (p_val s)) AND 0xff,
                                 p_tp s + 1 := ucast (p_val s) AND 0xff],
                   p_tp := p_tp s + 2\<rparr>)
      else None)"

definition xdigit :: "byte \<Rightarrow> nat option" where
  "xdigit ch =
     (case strchr_at 0 xdigits_l ch of
        None \<Rightarrow> strchr_at 0 xdigits_u ch
      | Some d \<Rightarrow> Some d)"

fun pton6_loop :: "byte list \<Rightarrow> pton6_st \<Rightarrow> (int + pton6_st) option" where
  "pton6_loop [] s = None"
| "pton6_loop (ch # src) s =
     (if ch = 0 then Some (Inr s)
      else case xdigit ch of
        Some d \<Rightarrow>
          (let s = s\<lparr>p_val := push_bit 4 (p_val s) OR word_of_nat d, p_seen_xdigits := p_seen_xdigits s + 1\<rparr> in
           if p_seen_xdigits s > 4 then Some (Inl UV_EINVAL) else pton6_loop src s)
      | None \<Rightarrow>
        if ch = 58 then
          (let s = s\<lparr>p_curtok := src\<rparr> in
           if p_seen_xdigits s = 0 then
             (if p_colonp s \<noteq> None then Some (Inl UV_EINVAL)
              else pton6_loop src (s\<lparr>p_colonp := Some (p_tp s)\<rparr>))
           else if src = [] then None
           else if hd src = 0 then Some (Inl UV_EINVAL)
           else if p_tp s + 2 > 16 then Some (Inl UV_EINVAL)
           else do {
             s \<leftarrow> put_group s;
             pton6_loop src (s\<lparr>p_seen_xdigits := 0, p_val := 0\<rparr>)
           })
        else if ch = 46 \<and> p_tp s + 4 \<le> 16 then do {
          r \<leftarrow> inet_pton4 (p_curtok s);
          case r of
            Inr octets \<Rightarrow>
              Some (Inr (s\<lparr>p_tmp := take (p_tp s) (p_tmp s) @ octets @ drop (p_tp s + 4) (p_tmp s),
                           p_tp := p_tp s + 4, p_seen_xdigits := 0\<rparr>))
          | Inl _ \<Rightarrow> Some (Inl UV_EINVAL)
        }
        else Some (Inl UV_EINVAL))"

text \<open>\<open>endp[-i] = colonp[n - i]; colonp[n - i] = 0\<close> for \<open>i\<close> from 1 to \<open>n\<close>.\<close>

definition shift_groups :: "nat \<Rightarrow> nat \<Rightarrow> byte list \<Rightarrow> byte list" where
  "shift_groups colonp n tmp =
     fold (\<lambda>i tmp. tmp[16 - i := tmp ! (colonp + (n - i)), colonp + (n - i) := 0]) [1..<n + 1] tmp"

text \<open>The leading colon: what the rest of the function starts at.\<close>

definition pton6_start :: "byte list \<Rightarrow> (int + byte list) option" where
  "pton6_start src =
     (case src of
        [] \<Rightarrow> None
      | c # src' \<Rightarrow>
          if c = 58 then
            (case src' of [] \<Rightarrow> None | c' # _ \<Rightarrow> Some (if c' \<noteq> 58 then Inl UV_EINVAL else Inr src'))
          else Some (Inr src))"

text \<open>What follows the loop.\<close>

definition pton6_finish :: "pton6_st \<Rightarrow> (int + byte list) option" where
  "pton6_finish s =
     (if p_seen_xdigits s \<noteq> 0 \<and> p_tp s + 2 > 16 then Some (Inl UV_EINVAL)
      else do {
        s \<leftarrow> (if p_seen_xdigits s \<noteq> 0 then put_group s else Some s);
        case p_colonp s of
          Some colonp \<Rightarrow>
            if p_tp s = 16 then Some (Inl UV_EINVAL)
            else Some (Inr (shift_groups colonp (p_tp s - colonp) (p_tmp s)))
        | None \<Rightarrow> if p_tp s \<noteq> 16 then Some (Inl UV_EINVAL) else Some (Inr (p_tmp s))
      })"

definition inet_pton6 :: "byte list \<Rightarrow> (int + byte list) option" where
  "inet_pton6 src = do {
     start \<leftarrow> pton6_start src;
     case start of
       Inl err \<Rightarrow> Some (Inl err)
     | Inr src \<Rightarrow> do {
         r \<leftarrow> pton6_loop src \<lparr>p_tmp = replicate 16 0, p_tp = 0, p_colonp = None, p_curtok = src,
                            p_seen_xdigits = 0, p_val = 0\<rparr>;
         case r of
           Inl err \<Rightarrow> Some (Inl err)
         | Inr s \<Rightarrow> pton6_finish s
       }
   }"

text \<open>\<open>memcpy(dst, tmp, n)\<close> into a buffer, when the parser returned 0.\<close>

definition copy_result :: "byte list \<Rightarrow> int + byte list \<Rightarrow> (int \<times> byte list) option" where
  "copy_result dst r =
     (case r of
        Inl err \<Rightarrow> Some (err, dst)
      | Inr a \<Rightarrow> if length a \<le> length dst then Some (0, a @ drop (length a) dst) else None)"

text \<open>
  The copy of what stands before a \<open>%\<close>; \<open>len\<close> is an \<open>int\<close>, and a negative one is a huge \<open>size_t\<close> for \<open>memcpy\<close>.
\<close>

definition strip_scope :: "byte list \<Rightarrow> (int + byte list) option" where
  "strip_scope src =
     (let n = length (takeWhile (\<lambda>c. c \<noteq> 0 \<and> c \<noteq> 37) src) in
      if n = length src then None
      else if src ! n = 37 then
        (let len = sint (word_of_nat n :: u32) in
         if len > int UV__INET6_ADDRSTRLEN - 1 then Some (Inl UV_EINVAL)
         else if len < 0 then None
         else Some (Inr (take (nat len) src @ [0])))
      else Some (Inr src))"

definition uv_inet_pton :: "int \<Rightarrow> byte list option \<Rightarrow> byte list option \<Rightarrow> (int \<times> byte list option) option" where
  "uv_inet_pton af src dst =
     (case (src, dst) of
        (Some src, Some dst) \<Rightarrow> map_option (\<lambda>(r, d). (r, Some d))
          (if af = AF_INET then do { r \<leftarrow> inet_pton4 src; copy_result dst r }
           else if af = AF_INET6 then do {
             s \<leftarrow> strip_scope src;
             r \<leftarrow> (case s of Inl err \<Rightarrow> Some (Inl err) | Inr s \<Rightarrow> inet_pton6 s);
             copy_result dst r
           }
           else Some (UV_EAFNOSUPPORT, dst))
      | _ \<Rightarrow> Some (UV_EINVAL, dst))"

section \<open>Copying strings\<close>

lemma strscpy_loop_add:
  "strscpy_loop d s i n = Some (None, d') \<Longrightarrow> strscpy_loop d s i (n + k) = strscpy_loop d' s (i + n) k"
  by (induction n arbitrary: d i) (auto simp: Let_def split: if_splits)

lemma strscpy_loop_cut:
  assumes "i + n \<le> length t" "i + n \<le> length d" "0 \<notin> set t"
  shows "strscpy_loop d (t @ rest) i n = Some (None, take i d @ take n (drop i t) @ drop (i + n) d)"
  using assms
proof (induction n arbitrary: d i)
  case 0
  then show ?case by simp
next
  case (Suc n)
  let ?d = "d[i := t ! i]"
  have t: "drop i t = t ! i # drop (Suc i) t" using Suc.prems by (simp add: Cons_nth_drop_Suc)
  have d: "take (Suc i) ?d = take i d @ [t ! i]" using Suc.prems by (simp add: take_Suc_conv_app_nth)
  have "t ! i \<noteq> 0" using Suc.prems by (metis add_Suc_right less_add_Suc1 nth_mem order_less_le_trans)
  then have "strscpy_loop d (t @ rest) i (Suc n) = strscpy_loop ?d (t @ rest) (Suc i) n"
    using Suc.prems by (simp add: nth_append)
  also have "\<dots> = Some (None, take (Suc i) ?d @ take n (drop (Suc i) t) @ drop (Suc i + n) ?d)"
    by (rule Suc.IH) (use Suc.prems in simp_all)
  finally show ?case unfolding d t by simp
qed

lemma strscpy_fits:
  assumes "0 \<notin> set t" "length t < n" "n \<le> length d" "length t \<le> SSIZE_MAX"
  shows "uv__strscpy d (t @ 0 # rest) n = Some (int (length t), t @ 0 # drop (Suc (length t)) d)"
proof -
  let ?d = "t @ drop (length t) d"
  have cut: "strscpy_loop d (t @ 0 # rest) 0 (length t) = Some (None, ?d)"
    using strscpy_loop_cut [of 0 "length t" t d "0 # rest"] assms by simp
  obtain k where n: "n = length t + Suc k" using assms(2) by (metis add_Suc_right less_imp_Suc_add)
  have "?d[length t := 0] = t @ 0 # drop (Suc (length t)) d"
    using assms by (simp add: list_update_append Cons_nth_drop_Suc [symmetric])
  then have "strscpy_loop d (t @ 0 # rest) 0 n = Some (Some (int (length t)), t @ 0 # drop (Suc (length t)) d)"
    unfolding n strscpy_loop_add [OF cut] using assms by simp
  then show ?thesis by (simp add: uv__strscpy_def)
qed

text \<open>What does not fit is cut, and the rest of the buffer is not touched.\<close>

lemma strscpy_cut:
  assumes "0 \<notin> set t" "0 < n" "n \<le> length t" "n \<le> length d"
  shows "uv__strscpy d (t @ rest) n = Some (UV_E2BIG, take (n - 1) t @ 0 # drop n d)"
proof -
  have "length (take (n - 1) t) = n - 1" using assms by simp
  have "(take n t @ drop n d)[n - 1 := 0] = take (n - 1) t @ 0 # drop n d"
  proof -
    have "take n t = take (n - 1) t @ [t ! (n - 1)]"
      using assms take_Suc_conv_app_nth [of "n - 1" t] by simp
    then show ?thesis using \<open>length (take (n - 1) t) = n - 1\<close> by (simp add: list_update_append)
  qed
  then show ?thesis
    using strscpy_loop_cut [of 0 n t d rest] assms by (simp add: uv__strscpy_def)
qed

section \<open>IPv4\<close>

definition dotted :: "byte list \<Rightarrow> byte list" where
  "dotted octs = concat (map (\<lambda>b. decimal (unat b) @ [46]) octs)"

lemma dotted_simps [simp]:
  "dotted [] = []"
  "dotted (octs @ [b]) = dotted octs @ decimal (unat b) @ [46]"
  by (simp_all add: dotted_def)

lemma dotted_quad_eq: "length octs = 3 \<Longrightarrow> dotted_quad (octs @ [b]) = dotted octs @ decimal (unat b)"
  by (auto simp: dotted_quad_def dotted_def numeral_3_eq_3 length_Suc_conv)

lemma strchr_at_some:
  "strchr_at k ds c = Some i \<Longrightarrow> k \<le> i \<and> i < k + length ds \<and> ds ! (i - k) = c"
  by (induction k ds c rule: strchr_at.induct) (auto simp: nth_Cons' split: if_splits)

lemma strchr_at_nth:
  "distinct ds \<Longrightarrow> j < length ds \<Longrightarrow> strchr_at k ds (ds ! j) = Some (k + j)"
proof (induction ds arbitrary: k j)
  case Nil
  then show ?case by simp
next
  case (Cons d ds)
  then show ?case by (cases j) auto
qed

lemma strchr_at_none: "strchr_at k ds c = None \<longleftrightarrow> c \<notin> set ds"
  by (induction k ds c rule: strchr_at.induct) auto

definition digit_char :: "nat \<Rightarrow> byte" where "digit_char d = word_of_nat (48 + d)"

lemma strchr_digits: "strchr_at 0 digits_l ch = Some d \<longleftrightarrow> d < 10 \<and> ch = digit_char d"
proof -
  have "distinct digits_l" "length digits_l = 10" by (simp_all add: digits_l_def)
  moreover have "\<forall>d\<in>set [0..<10]. digits_l ! d = digit_char d"
    by (simp add: digits_l_def digit_char_def upt_rec)
  then have "d < 10 \<Longrightarrow> digits_l ! d = digit_char d" by simp
  ultimately show ?thesis
    using strchr_at_some [of 0 digits_l ch d] strchr_at_nth [of digits_l d 0] by auto
qed

lemma strchr_digits_digit [simp]: "d < 10 \<Longrightarrow> strchr_at 0 digits_l (digit_char d) = Some d"
  by (simp add: strchr_digits)

lemma digit_not_special: "d < 10 \<Longrightarrow> digit_char d \<noteq> 0"
  using unat_digit [of d] by (fastforce simp: digit_char_def)

lemma decimal_digit: "n < 10 \<Longrightarrow> decimal n = [digit_char n]"
  by (simp add: decimal.simps [of n] digit_char_def)

lemma decimal_split: "\<not> n < 10 \<Longrightarrow> decimal n = decimal (n div 10) @ [digit_char (n mod 10)]"
  by (subst decimal.simps) (simp add: digit_char_def)

lemma decimal_more:
  assumes "0 < n" "d < 10"
  shows "decimal (n * 10 + d) = decimal n @ [digit_char d]"
proof -
  have "\<not> n * 10 + d < 10" "(n * 10 + d) div 10 = n" "(n * 10 + d) mod 10 = d" using assms by simp_all
  then show ?thesis by (simp add: decimal_split)
qed

lemma ucast_eq_nat: "(ucast w :: 'b::len word) = word_of_nat (unat w)"
  by (simp add: unsigned_def)

lemma unat_nw: "d < 10 \<Longrightarrow> unat (ucast (cur :: byte) * 10 + word_of_nat d :: u32) = unat cur * 10 + d"
proof -
  assume d: "d < 10"
  have "unat cur * 10 + d < 4294967296" using unat_byte_less [of cur] d by linarith
  then have "unat (word_of_nat (unat cur * 10 + d) :: u32) = unat cur * 10 + d"
    by (simp only: unat_of_nat) simp
  moreover have "ucast cur * 10 + word_of_nat d = (word_of_nat (unat cur * 10 + d) :: u32)"
    by (simp add: unsigned_def)
  ultimately show ?thesis by (simp only:)
qed

lemma pton4_digit:
  assumes "d < 10"
  shows "pton4_loop saw k octs cur (digit_char d # src) =
    (if saw \<and> cur = 0 \<or> unat cur * 10 + d > 255 \<or> \<not> saw \<and> k \<ge> 4 then Some (Inl UV_EINVAL)
     else pton4_loop True (if saw then k else k + 1) octs (word_of_nat (unat cur * 10 + d)) src)"
proof -
  define nw :: u32 where "nw = ucast cur * 10 + word_of_nat d"
  have nw: "unat nw = unat cur * 10 + d" unfolding nw_def using assms by (rule unat_nw)
  have "nw > 255 \<longleftrightarrow> unat cur * 10 + d > 255" by (simp add: word_less_nat_alt nw)
  moreover have "ucast nw = (word_of_nat (unat cur * 10 + d) :: byte)"
    using nw by (simp only: ucast_eq_nat)
  ultimately show ?thesis
    using assms digit_not_special [OF assms] by (simp add: Let_def nw_def [symmetric] del: of_nat_add of_nat_mult)
qed

declare pton4_loop.simps(2) [simp del]

lemma pton4_dot:
  "pton4_loop saw k octs cur (46 # src) =
    (if \<not> saw \<or> k = 4 then Some (Inl UV_EINVAL) else pton4_loop False k (octs @ [cur]) 0 src)"
proof -
  have "strchr_at 0 digits_l 46 = None" by (simp add: digits_l_def)
  then show ?thesis by (simp add: pton4_loop.simps(2))
qed

lemma pton4_end:
  "pton4_loop saw k octs cur (0 # src) = Some (if k < 4 then Inl UV_EINVAL else Inr (octs @ [cur]))"
  by (simp add: pton4_loop.simps(2))

lemma pton4_other:
  assumes "ch \<noteq> 0" "ch \<noteq> 46" "\<And>d. d < 10 \<Longrightarrow> ch \<noteq> digit_char d"
  shows "pton4_loop saw k octs cur (ch # src) = Some (Inl UV_EINVAL)"
proof -
  have "strchr_at 0 digits_l ch = None"
    using assms(3) strchr_digits [of ch] by (cases "strchr_at 0 digits_l ch") auto
  then show ?thesis using assms(1,2) by (simp add: pton4_loop.simps(2))
qed

lemmas pton4_steps = pton4_digit pton4_dot pton4_end

text \<open>The four cases of a character.\<close>

lemma pton4_char_cases:
  obtains (nul) "ch = (0 :: byte)" | (dot) "ch = 46" | (digit) d where "d < 10" "ch = digit_char d"
    | (other) "ch \<noteq> 0" "ch \<noteq> 46" "\<And>d. d < 10 \<Longrightarrow> ch \<noteq> digit_char d"
  by blast

lemma pton4_returns: "0 \<in> set src \<Longrightarrow> \<exists>r. pton4_loop saw k octs cur src = Some r"
proof (induction src arbitrary: saw k octs cur)
  case Nil
  then show ?case by simp
next
  case (Cons ch src)
  show ?case
  proof (cases ch rule: pton4_char_cases)
    case nul
    then show ?thesis by (simp add: pton4_end)
  next
    case dot
    with Cons show ?thesis by (simp add: pton4_dot)
  next
    case (digit d)
    with Cons digit_not_special [of d] show ?thesis by (simp add: pton4_digit)
  next
    case other
    then show ?thesis by (simp add: pton4_other)
  qed
qed

lemma pton4_error: "pton4_loop saw k octs cur src = Some (Inl e) \<Longrightarrow> e = UV_EINVAL"
proof (induction src arbitrary: saw k octs cur)
  case Nil
  then show ?case by simp
next
  case (Cons ch src)
  then show ?case
    by (cases ch rule: pton4_char_cases) (auto simp: pton4_steps pton4_other split: if_splits)
qed

lemma pton4_sound:
  assumes "pton4_loop saw k octs cur src = Some (Inr r)"
    and "k = length octs + (if saw then 1 else 0)" "k \<le> 4" "\<not> saw \<Longrightarrow> cur = 0 \<and> k < 4"
  shows "length r = 4 \<and> (\<exists>rest. dotted octs @ (if saw then decimal (unat cur) else []) @ src = dotted_quad r @ 0 # rest)"
  using assms
proof (induction src arbitrary: saw k octs cur)
  case Nil
  then show ?case by simp
next
  case (Cons ch src)
  show ?case
  proof (cases ch rule: pton4_char_cases)
    case nul
    with Cons.prems show ?thesis by (auto simp: pton4_end dotted_quad_eq split: if_splits)
  next
    case dot
    with Cons.prems have "saw" "k \<noteq> 4" "pton4_loop False k (octs @ [cur]) 0 src = Some (Inr r)"
      by (simp_all add: pton4_dot split: if_splits)
    with Cons.IH [of False k "octs @ [cur]" 0] Cons.prems dot show ?thesis by simp
  next
    case (digit d)
    let ?cur = "word_of_nat (unat cur * 10 + d) :: byte"
    from Cons.prems(1) digit have r: "\<not> (saw \<and> cur = 0)" "unat cur * 10 + d \<le> 255" "saw \<or> k < 4"
      "pton4_loop True (if saw then k else k + 1) octs ?cur src = Some (Inr r)"
      by (auto simp: pton4_digit not_le split: if_splits)
    have cur: "unat ?cur = unat cur * 10 + d" using r(2) by (simp only: unat_of_nat_byte) simp
    have "decimal (unat ?cur) = (if saw then decimal (unat cur) else []) @ [ch]"
    proof (cases saw)
      case True
      then have "0 < unat cur" using r(1) by (simp add: unat_gt_0)
      with True digit cur show ?thesis by (simp add: decimal_more)
    next
      case False
      with Cons.prems digit cur show ?thesis by (simp add: decimal_digit)
    qed
    moreover have "length r = 4 \<and> (\<exists>rest. dotted octs @ decimal (unat ?cur) @ src = dotted_quad r @ 0 # rest)"
      using Cons.IH [OF r(4)] Cons.prems(2,3) r(3) by (auto split: if_splits)
    ultimately show ?thesis by (auto split: if_splits)
  next
    case other
    with Cons.prems show ?thesis by (simp add: pton4_other)
  qed
qed

lemma pton4_decimal:
  "n < 256 \<Longrightarrow> k < 4 \<Longrightarrow>
    pton4_loop False k octs 0 (decimal n @ src) = pton4_loop True (Suc k) octs (word_of_nat n) src"
proof (induction n arbitrary: src rule: less_induct)
  case (less n)
  show ?case
  proof (cases "n < 10")
    case True
    then show ?thesis using less.prems by (simp add: decimal_digit pton4_digit)
  next
    case False
    let ?m = "n div 10"
    have m: "unat (word_of_nat ?m :: byte) = ?m" "(word_of_nat ?m :: byte) \<noteq> 0"
    proof -
      show *: "unat (word_of_nat ?m :: byte) = ?m" using less.prems by (simp only: unat_of_nat_byte) simp
      have "0 < ?m" using False by simp
      with * show "(word_of_nat ?m :: byte) \<noteq> 0" by (metis less_numeral_extra(3) unsigned_0)
    qed
    have "pton4_loop False k octs 0 (decimal n @ src)
        = pton4_loop False k octs 0 (decimal ?m @ digit_char (n mod 10) # src)"
      using False by (simp add: decimal_split)
    also have "\<dots> = pton4_loop True (Suc k) octs (word_of_nat ?m) (digit_char (n mod 10) # src)"
      by (rule less.IH) (use False less.prems in simp_all)
    also have "\<dots> = pton4_loop True (Suc k) octs (word_of_nat n) src"
      using less.prems m div_mult_mod_eq [of n 10] by (subst pton4_digit) simp_all
    finally show ?thesis .
  qed
qed

lemma pton4_complete:
  assumes "length q = 4"
  shows "inet_pton4 (dotted_quad q @ 0 # rest) = Some (Inr q)"
proof -
  obtain a b c d where q: "q = [a, b, c, d]"
    using assms by (auto simp: numeral_eq_Suc length_Suc_conv)
  show ?thesis
    by (simp add: inet_pton4_def q dotted_quad_def pton4_decimal pton4_dot pton4_end)
qed

lemma nul_unique:
  "t @ 0 # rest = u @ 0 # r \<Longrightarrow> 0 \<notin> set t \<Longrightarrow> 0 \<notin> set u \<Longrightarrow> t = u \<and> rest = r" for t u :: "byte list"
proof -
  assume a: "t @ 0 # rest = u @ 0 # r" "0 \<notin> set t" "0 \<notin> set u"
  then have "takeWhile (\<lambda>b. b \<noteq> 0) (t @ 0 # rest) = t" "takeWhile (\<lambda>b. b \<noteq> 0) (u @ 0 # r) = u"
    by (subst takeWhile_append2; fastforce)+
  with a show ?thesis by simp
qed

lemma decimal_no_nul: "0 \<notin> set (decimal n)"
proof (induction n rule: less_induct)
  case (less n)
  then show ?case
    by (cases "n < 10") (auto simp: decimal_digit decimal_split digit_not_special [symmetric])
qed

lemma length_decimal_byte: "length (decimal (unat (b :: byte))) \<le> 3"
  by (intro length_decimal order.strict_trans [OF unat_byte_less]) simp_all

lemma dotted_quad_no_nul [simp]: "0 \<notin> set (dotted_quad q)"
  by (simp add: dotted_quad_def decimal_no_nul)

text \<open>\<open>inet_pton4\<close> accepts exactly the texts \<open>dotted_quad\<close> prints.\<close>

lemma inet_pton4_iff:
  assumes "0 \<notin> set t"
  shows "inet_pton4 (t @ 0 # rest) = Some (Inr q) \<longleftrightarrow> length q = 4 \<and> t = dotted_quad q"
proof
  assume "inet_pton4 (t @ 0 # rest) = Some (Inr q)"
  then have "length q = 4" "\<exists>r. t @ 0 # rest = dotted_quad q @ 0 # r"
    using pton4_sound [of False 0 "[]" 0 "t @ 0 # rest" q] by (auto simp: inet_pton4_def)
  then show "length q = 4 \<and> t = dotted_quad q"
    using assms nul_unique [of t rest "dotted_quad q"] by auto
next
  assume "length q = 4 \<and> t = dotted_quad q"
  then show "inet_pton4 (t @ 0 # rest) = Some (Inr q)" by (simp add: pton4_complete)
qed

end
