(* ===== verification/Uv_Inet6.thy ===== *)
theory Uv_Inet6
  imports Uv_Inet
begin

text \<open>
  IPv6 addresses: the notation of RFC 4291 as a grammar, and the proof that \<open>inet_pton6\<close> accepts exactly that
  grammar.
\<close>

section \<open>The notation of IPv6 addresses\<close>

text \<open>
  RFC 4291, section 2.2: groups of one to four hexadecimal digits, the last two of which can be a dotted quad;
  \<open>::\<close> stands for at least one group of zeros.  \<open>groups_text\<close> ends every group with its colon, so that
  what follows the last colon is the tail: a group, a dotted quad, or nothing after \<open>::\<close>.
\<close>

definition hex_value :: "byte list \<Rightarrow> nat" where
  "hex_value g = foldl (\<lambda>v c. 16 * v + the (xdigit c)) 0 g"

definition hex_digits :: "byte list \<Rightarrow> bool" where
  "hex_digits g \<longleftrightarrow> (\<forall>c\<in>set g. xdigit c \<noteq> None)"

definition hex_group :: "byte list \<Rightarrow> bool" where
  "hex_group g \<longleftrightarrow> g \<noteq> [] \<and> length g \<le> 4 \<and> hex_digits g"

definition groups_text :: "byte list list \<Rightarrow> byte list" where
  "groups_text gs = concat (map (\<lambda>g. g @ [58]) gs)"

definition groups_bytes :: "byte list list \<Rightarrow> byte list" where
  "groups_bytes gs = concat (map (\<lambda>g. be_bytes 2 (hex_value g)) gs)"

inductive ipv6_tail :: "byte list \<Rightarrow> byte list \<Rightarrow> bool" where
  no_tail: "ipv6_tail [] []"
| group_tail: "hex_group g \<Longrightarrow> ipv6_tail g (be_bytes 2 (hex_value g))"
| quad_tail: "length q = 4 \<Longrightarrow> ipv6_tail (dotted_quad q) q"

inductive ipv6_denotes :: "byte list \<Rightarrow> byte list \<Rightarrow> bool" where
  full: "list_all hex_group gs \<Longrightarrow> ipv6_tail t bs \<Longrightarrow> t \<noteq> [] \<Longrightarrow> length (groups_bytes gs @ bs) = 16
    \<Longrightarrow> ipv6_denotes (groups_text gs @ t) (groups_bytes gs @ bs)"
| short: "list_all hex_group before \<Longrightarrow> list_all hex_group after \<Longrightarrow> ipv6_tail t bs \<Longrightarrow> (t = [] \<Longrightarrow> after = [])
    \<Longrightarrow> length (groups_bytes before) + k + length (groups_bytes after @ bs) = 16 \<Longrightarrow> 0 < k
    \<Longrightarrow> ipv6_denotes ((if before = [] then [58] else []) @ groups_text before @ [58] @ groups_text after @ t)
          (groups_bytes before @ replicate k 0 @ groups_bytes after @ bs)"

lemma hex_value_simps [simp]: "hex_value [] = 0" "hex_value (g @ [c]) = 16 * hex_value g + the (xdigit c)"
  by (simp_all add: hex_value_def)

lemma hex_digits_simps [simp]:
  "hex_digits []" "hex_digits (c # g) \<longleftrightarrow> xdigit c \<noteq> None \<and> hex_digits g"
  "hex_digits (g @ h) \<longleftrightarrow> hex_digits g \<and> hex_digits h"
  by (auto simp: hex_digits_def)

lemma groups_simps [simp]:
  "groups_text [] = []" "groups_text (g # gs) = g @ 58 # groups_text gs"
  "groups_text (gs @ hs) = groups_text gs @ groups_text hs"
  "groups_bytes [] = []" "groups_bytes (g # gs) = be_bytes 2 (hex_value g) @ groups_bytes gs"
  "groups_bytes (gs @ hs) = groups_bytes gs @ groups_bytes hs"
  by (simp_all add: groups_text_def groups_bytes_def)

lemma length_groups_bytes [simp]: "length (groups_bytes gs) = 2 * length gs"
  by (induction gs) (simp_all del: be_bytes.simps)

lemma xdigit_special [simp]: "xdigit 0 = None" "xdigit 46 = None" "xdigit 58 = None"
  by (simp_all add: xdigit_def xdigits_l_def xdigits_u_def digits_l_def)

lemma xdigit_less: "xdigit c = Some d \<Longrightarrow> d < 16"
proof -
  assume "xdigit c = Some d"
  then have "strchr_at 0 xdigits_l c = Some d \<or> strchr_at 0 xdigits_u c = Some d"
    by (simp add: xdigit_def split: option.splits)
  moreover have "length xdigits_l = 16" "length xdigits_u = 16"
    by (simp_all add: xdigits_l_def xdigits_u_def digits_l_def)
  ultimately show ?thesis by (auto dest: strchr_at_some)
qed

lemma hex_value_less: "hex_digits g \<Longrightarrow> hex_value g < 16 ^ length g"
proof (induction g rule: rev_induct)
  case Nil
  then show ?case by simp
next
  case (snoc c g)
  then obtain d where "xdigit c = Some d" "hex_value g < 16 ^ length g" by auto
  with xdigit_less [of c d] show ?case by simp
qed

lemma hex_value_less_word: "hex_digits g \<Longrightarrow> length g \<le> 4 \<Longrightarrow> hex_value g < 65536"
proof -
  assume g: "hex_digits g" "length g \<le> 4"
  then have "hex_value g < 16 ^ length g" by (intro hex_value_less)
  also have "(16 :: nat) ^ length g \<le> 16 ^ 4" using g(2) by (intro power_increasing) simp_all
  finally show ?thesis by simp
qed

section \<open>Parsing an IPv6 address\<close>

text \<open>
  The states of the loop: \<open>om\<close> is what was written before \<open>::\<close>, when it was seen, \<open>bs\<close> what was written since,
  and \<open>ds\<close> the digits of the current token.
\<close>

definition written :: "byte list option \<Rightarrow> byte list \<Rightarrow> byte list" where
  "written om bs = (case om of None \<Rightarrow> [] | Some a \<Rightarrow> a) @ bs"

definition pton6_at :: "byte list option \<Rightarrow> byte list \<Rightarrow> byte list \<Rightarrow> byte list \<Rightarrow> pton6_st" where
  "pton6_at om bs ds src =
     \<lparr>p_tmp = written om bs @ replicate (16 - length (written om bs)) 0, p_tp = length (written om bs),
      p_colonp = map_option length om, p_curtok = ds @ src, p_seen_xdigits = length ds,
      p_val = word_of_nat (hex_value ds)\<rparr>"

lemma push_digit:
  assumes "d < 16"
  shows "push_bit 4 (w :: u32) OR word_of_nat d = word_of_nat 16 * w + word_of_nat d"
proof -
  have "push_bit 4 w AND word_of_nat d = 0"
  proof (rule bit_eqI)
    fix n
    have "d = take_bit 4 d" using assms by (simp add: take_bit_nat_eq_self)
    then have "n \<ge> 4 \<Longrightarrow> \<not> bit d n" by (metis bit_take_bit_iff not_le)
    then show "bit (push_bit 4 w AND word_of_nat d) n \<longleftrightarrow> bit (0 :: u32) n"
      by (auto simp: bit_simps)
  qed
  then have "push_bit 4 w OR word_of_nat d = push_bit 4 w + word_of_nat d"
    by (simp add: disjunctive_add_eq_or)
  then show ?thesis by (simp add: push_bit_eq_mult mult.commute)
qed

lemma group_bytes_of_word:
  assumes "v < 65536"
  shows "[ucast (drop_bit 8 (word_of_nat v :: u32)) AND 0xff, ucast (word_of_nat v :: u32) AND 0xff] = be_bytes 2 v"
proof -
  have v: "unat (word_of_nat v :: u32) = v" using assms by (simp add: unat_of_nat)
  have "unat (drop_bit 8 (word_of_nat v :: u32)) = v div 256"
    by (simp add: drop_bit_eq_div unat_div v)
  moreover have "(b :: byte) AND 0xff = b" for b
  proof -
    have "(0xff :: byte) = - 1" by simp
    then show ?thesis by (simp only: and.right_neutral)
  qed
  ultimately show ?thesis by (simp add: ucast_eq_nat v numeral_2_eq_2)
qed

lemma put_group_at:
  assumes "length (written om bs) + 2 \<le> 16" "hex_digits ds" "length ds \<le> 4"
  shows "put_group (pton6_at om bs ds src) =
    Some ((pton6_at om (bs @ be_bytes 2 (hex_value ds)) ds src))"
proof -
  let ?v = "hex_value ds" and ?w = "written om bs"
  obtain x y where xy: "be_bytes 2 ?v = [x, y]"
    by (simp add: numeral_2_eq_2)
  have "[ucast (drop_bit 8 (word_of_nat ?v :: u32)) AND 0xff, ucast (word_of_nat ?v :: u32) AND 0xff] = [x, y]"
    unfolding xy [symmetric] by (rule group_bytes_of_word) (use hex_value_less_word assms in blast)
  moreover have "16 - length ?w = Suc (Suc (14 - length ?w))" using assms(1) by linarith
  ultimately show ?thesis
    using assms(1) by (simp add: put_group_def pton6_at_def written_def xy list_update_append)
qed

declare pton6_loop.simps(2) [simp del]

text \<open>One character.\<close>

lemma pton6_digit:
  assumes "xdigit c \<noteq> None" "hex_digits ds"
  shows "pton6_loop (c # src) (pton6_at om bs ds (c # src)) =
    (if length ds \<ge> 4 then Some (Inl UV_EINVAL) else pton6_loop src (pton6_at om bs (ds @ [c]) src))"
proof -
  obtain d where d: "xdigit c = Some d" using assms(1) by blast
  then have "c \<noteq> 0" "d < 16" using xdigit_less by auto
  then show ?thesis
    using d by (simp add: pton6_loop.simps(2) pton6_at_def push_digit)
qed

lemma pton6_omission:
  "pton6_loop (58 # src) (pton6_at om bs [] (58 # src)) =
    (case om of None \<Rightarrow> pton6_loop src (pton6_at (Some bs) [] [] src) | Some _ \<Rightarrow> Some (Inl UV_EINVAL))"
  by (cases om) (simp_all add: pton6_loop.simps(2) pton6_at_def written_def)

lemma pton6_colon:
  assumes "ds \<noteq> []" "hex_digits ds" "length ds \<le> 4"
  shows "pton6_loop (58 # src) (pton6_at om bs ds (58 # src)) =
    (if src = [] then None
     else if hd src = 0 \<or> length (written om bs) + 2 > 16 then Some (Inl UV_EINVAL)
     else pton6_loop src (pton6_at om (bs @ be_bytes 2 (hex_value ds)) [] src))"
proof -
  have "put_group (pton6_at om bs ds (58 # src)\<lparr>p_curtok := src\<rparr>)
      = map_option (\<lambda>s. s\<lparr>p_curtok := src\<rparr>) (put_group (pton6_at om bs ds (58 # src)))"
    by (simp add: put_group_def)
  moreover have "p_seen_xdigits (pton6_at om bs ds (58 # src)) = length ds"
    "p_tp (pton6_at om bs ds (58 # src)) = length (written om bs)" for src
    by (simp_all add: pton6_at_def)
  moreover have "pton6_at om bs' ds (58 # src)\<lparr>p_curtok := src, p_seen_xdigits := 0, p_val := 0\<rparr> = pton6_at om bs' [] src" for bs'
    by (simp add: pton6_at_def)
  ultimately show ?thesis
    using put_group_at [of om bs ds "58 # src"] assms by (simp add: pton6_loop.simps(2) Let_def)
qed

lemma pton6_nul: "pton6_loop (0 # src) s = Some (Inr s)"
  by (simp add: pton6_loop.simps(2))

lemma pton6_other:
  assumes "xdigit c = None" "c \<noteq> 0" "c \<noteq> 58" "c \<noteq> 46"
  shows "pton6_loop (c # src) s = Some (Inl UV_EINVAL)"
  using assms by (simp add: pton6_loop.simps(2))

lemma shift_groups_step:
  fixes a b :: "byte list"
  assumes "i < length b" "length a + length b + k = 16" "0 < k"
  shows "(\<lambda>tmp. tmp[16 - Suc i := tmp ! (length a + (length b - Suc i)), length a + (length b - Suc i) := 0])
      (a @ take (length b - i) b @ replicate k 0 @ drop (length b - i) b)
    = a @ take (length b - Suc i) b @ replicate k 0 @ drop (length b - Suc i) b"
proof -
  define m where "m = length b - Suc i"
  have m: "length b - i = Suc m" "m < length b" "16 - Suc i = length a + (m + k)"
    using assms by (simp_all add: m_def)
  obtain k' where k': "k = Suc k'" using assms(3) gr0_conv_Suc by auto
  have b: "take (Suc m) b = take m b @ [b ! m]" "drop m b = b ! m # drop (Suc m) b"
    using m(2) by (simp_all add: take_Suc_conv_app_nth Cons_nth_drop_Suc)
  have r: "replicate k (0 :: byte) = replicate k' 0 @ [0]" by (simp add: k' replicate_append_same)
  have len: "length (take m b) = m" using m(2) by simp
  have "(a @ (take m b @ [b ! m]) @ replicate k 0 @ drop (Suc m) b) ! (length a + m) = b ! m"
    using len by (simp add: nth_append)
  moreover have "(a @ (take m b @ [b ! m]) @ replicate k 0 @ drop (Suc m) b)[length a + (m + k) := b ! m]
      = a @ take m b @ [b ! m] @ replicate k' 0 @ [b ! m] @ drop (Suc m) b"
    unfolding r using len by (simp add: list_update_append k')
  moreover have "(a @ take m b @ [b ! m] @ replicate k' 0 @ [b ! m] @ drop (Suc m) b)[length a + m := 0]
      = a @ take m b @ replicate k 0 @ drop m b"
    unfolding b(2) using len by (simp add: list_update_append k')
  ultimately show ?thesis
    unfolding m_def [symmetric] m b by simp
qed

lemma shift_groups_at:
  assumes "length a + length b + k = 16" "0 < k"
  shows "shift_groups (length a) (length b) (a @ b @ replicate k 0) = a @ replicate k 0 @ b"
proof -
  define f where "f = (\<lambda>i tmp :: byte list. tmp[16 - i := tmp ! (length a + (length b - i)), length a + (length b - i) := 0])"
  have "n \<le> length b \<Longrightarrow> fold f [1..<n + 1] (a @ b @ replicate k 0)
      = a @ take (length b - n) b @ replicate k 0 @ drop (length b - n) b" for n
  proof (induction n)
    case 0
    then show ?case by simp
  next
    case (Suc n)
    then show ?case
      using shift_groups_step [of n b a k] assms by (simp add: f_def)
  qed
  from this [of "length b"] show ?thesis by (simp add: shift_groups_def f_def)
qed

text \<open>What follows the loop.\<close>

definition padded :: "byte list option \<Rightarrow> byte list \<Rightarrow> byte list option" where
  "padded om bs =
     (case om of
        None \<Rightarrow> if length bs = 16 then Some bs else None
      | Some a \<Rightarrow> if length a + length bs < 16 then Some (a @ replicate (16 - (length a + length bs)) 0 @ bs) else None)"

lemma pton6_finish_written:
  assumes "length (written om bs) \<le> 16"
    "p_tmp s = written om bs @ replicate (16 - length (written om bs)) 0" "p_tp s = length (written om bs)"
    "p_colonp s = map_option length om" "p_seen_xdigits s = 0"
  shows "pton6_finish s = Some (case padded om bs of None \<Rightarrow> Inl UV_EINVAL | Some a \<Rightarrow> Inr a)"
  using assms shift_groups_at
  by (cases om) (auto simp: pton6_finish_def padded_def written_def)

lemma pton6_finish_group:
  assumes "p_seen_xdigits s \<noteq> 0" "p_tp s + 2 \<le> 16" "put_group s = Some s'"
  shows "pton6_finish s = pton6_finish (s'\<lparr>p_seen_xdigits := 0\<rparr>)"
  using assms by (simp add: pton6_finish_def split: option.split)

lemma pton6_finish_at:
  assumes "length (written om bs) \<le> 16" "hex_digits ds" "length ds \<le> 4"
  shows "pton6_finish (pton6_at om bs ds src) =
    Some (if ds \<noteq> [] \<and> length (written om bs) + 2 > 16 then Inl UV_EINVAL
      else case padded om (bs @ (if ds = [] then [] else be_bytes 2 (hex_value ds))) of None \<Rightarrow> Inl UV_EINVAL | Some a \<Rightarrow> Inr a)"
proof (cases "ds = []")
  case True
  then show ?thesis
    using pton6_finish_written [of om bs "pton6_at om bs ds src"] assms by (simp add: pton6_at_def)
next
  case False
  let ?bs = "bs @ be_bytes 2 (hex_value ds)"
  show ?thesis
  proof (cases "length (written om bs) + 2 > 16")
    case True
    with False show ?thesis by (simp add: pton6_finish_def pton6_at_def)
  next
    case room: False
    have "pton6_finish (pton6_at om bs ds src) = pton6_finish (pton6_at om ?bs ds src\<lparr>p_seen_xdigits := 0\<rparr>)"
      by (rule pton6_finish_group) (use put_group_at [of om bs ds src] room False assms in \<open>auto simp: pton6_at_def\<close>)
    also have "\<dots> = Some (case padded om ?bs of None \<Rightarrow> Inl UV_EINVAL | Some a \<Rightarrow> Inr a)"
      by (rule pton6_finish_written) (use room in \<open>simp_all add: pton6_at_def written_def del: be_bytes.simps\<close>)
    finally show ?thesis using False room by simp
  qed
qed

text \<open>The grammar without the first of two leading colons, and the texts that lead to a state of the loop.\<close>

definition token_text :: "byte list option \<Rightarrow> byte list \<Rightarrow> byte list \<Rightarrow> bool" where
  "token_text om bs c \<longleftrightarrow>
     (\<exists>after. list_all hex_group after \<and> bs = groups_bytes after \<and>
        (case om of
           None \<Rightarrow> c = groups_text after
         | Some b \<Rightarrow> \<exists>before. list_all hex_group before \<and> b = groups_bytes before \<and>
                      c = groups_text before @ 58 # groups_text after))"

definition body_denotes :: "byte list \<Rightarrow> byte list \<Rightarrow> bool" where
  "body_denotes text a \<longleftrightarrow>
     (\<exists>om bs c t tb. text = c @ t \<and> ipv6_tail t tb \<and> padded om (bs @ tb) = Some a
        \<and> (t = [] \<longrightarrow> om \<noteq> None \<and> bs = []) \<and> token_text om bs c)"

lemma token_text_group:
  assumes "token_text om bs c" "hex_group g"
  shows "token_text om (bs @ be_bytes 2 (hex_value g)) (c @ g @ [58])"
proof -
  from assms(1) obtain after where after: "list_all hex_group after" "bs = groups_bytes after"
    "case om of None \<Rightarrow> c = groups_text after
       | Some b \<Rightarrow> \<exists>before. list_all hex_group before \<and> b = groups_bytes before \<and> c = groups_text before @ 58 # groups_text after"
    unfolding token_text_def by blast
  show ?thesis
    unfolding token_text_def
    by (rule exI [of _ "after @ [g]"]) (use after assms(2) in \<open>auto split: option.splits\<close>)
qed

lemma token_text_omission: "token_text None bs c \<Longrightarrow> token_text (Some bs) [] (c @ [58])"
  unfolding token_text_def by (rule exI [of _ "[]"]) auto

definition pton6_run :: "byte list \<Rightarrow> pton6_st \<Rightarrow> (int + byte list) option" where
  "pton6_run src s = do {
     r \<leftarrow> pton6_loop src s;
     case r of Inl err \<Rightarrow> Some (Inl err) | Inr s \<Rightarrow> pton6_finish s
   }"

lemma pton6_quad_finish:
  assumes "length (written om bs) + 4 \<le> 16" "length q = 4"
  shows "pton6_finish (pton6_at om bs ds src\<lparr>p_tmp := take (length (written om bs)) (p_tmp (pton6_at om bs ds src)) @ q
      @ drop (length (written om bs) + 4) (p_tmp (pton6_at om bs ds src)),
      p_tp := length (written om bs) + 4, p_seen_xdigits := 0\<rparr>)
    = Some (case padded om (bs @ q) of None \<Rightarrow> Inl UV_EINVAL | Some a \<Rightarrow> Inr a)"
proof (rule pton6_finish_written)
  have "drop 4 (replicate (16 - length (written om bs)) (0 :: byte)) = replicate (12 - length (written om bs)) 0"
    by simp
  then show "p_tmp (pton6_at om bs ds src\<lparr>p_tmp := take (length (written om bs)) (p_tmp (pton6_at om bs ds src)) @ q
      @ drop (length (written om bs) + 4) (p_tmp (pton6_at om bs ds src)),
      p_tp := length (written om bs) + 4, p_seen_xdigits := 0\<rparr>)
    = written om (bs @ q) @ replicate (16 - length (written om (bs @ q))) 0"
    using assms by (simp add: pton6_at_def written_def)
qed (use assms in \<open>simp_all add: pton6_at_def written_def\<close>)

lemma pton6_dot:
  "pton6_run (46 # src) (pton6_at om bs ds (46 # src)) =
    (if length (written om bs) + 4 \<le> 16 then
       (case inet_pton4 (ds @ 46 # src) of
          None \<Rightarrow> None
        | Some (Inl _) \<Rightarrow> Some (Inl UV_EINVAL)
        | Some (Inr q) \<Rightarrow> Some (case padded om (bs @ q) of None \<Rightarrow> Inl UV_EINVAL | Some a \<Rightarrow> Inr a))
     else Some (Inl UV_EINVAL))"
proof (cases "length (written om bs) + 4 \<le> 16")
  case True
  have at: "p_tp (pton6_at om bs ds (46 # src)) = length (written om bs)"
    "p_curtok (pton6_at om bs ds (46 # src)) = ds @ 46 # src"
    by (simp_all add: pton6_at_def)
  show ?thesis
  proof (cases "inet_pton4 (ds @ 46 # src)")
    case None
    with True at show ?thesis by (simp add: pton6_run_def pton6_loop.simps(2))
  next
    case (Some r)
    show ?thesis
    proof (cases r)
      case (Inl e)
      with True at Some show ?thesis by (simp add: pton6_run_def pton6_loop.simps(2))
    next
      case (Inr q)
      have "length q = 4"
        using pton4_sound [of False 0 "[]" 0 "ds @ 46 # src" q] Some Inr by (simp add: inet_pton4_def)
      with True at Some Inr pton6_quad_finish [of om bs q ds "46 # src"] show ?thesis
        by (simp add: pton6_run_def pton6_loop.simps(2))
    qed
  qed
next
  case False
  then show ?thesis by (simp add: pton6_run_def pton6_loop.simps(2) pton6_at_def)
qed

text \<open>The cases of a character.\<close>

lemma pton6_char_cases:
  obtains (nul) "c = (0 :: byte)" | (digit) "xdigit c \<noteq> None" | (colon) "c = 58" | (dot) "c = 46"
    | (other) "xdigit c = None" "c \<noteq> 0" "c \<noteq> 58" "c \<noteq> 46"
  by blast

lemma pton6_run_steps:
  "pton6_run (0 # src) s = pton6_finish s"
  "xdigit c \<noteq> None \<Longrightarrow> hex_digits ds \<Longrightarrow> pton6_run (c # src) (pton6_at om bs ds (c # src)) =
    (if length ds \<ge> 4 then Some (Inl UV_EINVAL) else pton6_run src (pton6_at om bs (ds @ [c]) src))"
  "pton6_run (58 # src) (pton6_at om bs [] (58 # src)) =
    (case om of None \<Rightarrow> pton6_run src (pton6_at (Some bs) [] [] src) | Some _ \<Rightarrow> Some (Inl UV_EINVAL))"
  "ds \<noteq> [] \<Longrightarrow> hex_digits ds \<Longrightarrow> length ds \<le> 4 \<Longrightarrow> pton6_run (58 # src) (pton6_at om bs ds (58 # src)) =
    (if src = [] then None
     else if hd src = 0 \<or> length (written om bs) + 2 > 16 then Some (Inl UV_EINVAL)
     else pton6_run src (pton6_at om (bs @ be_bytes 2 (hex_value ds)) [] src))"
  "xdigit c = None \<Longrightarrow> c \<noteq> 0 \<Longrightarrow> c \<noteq> 58 \<Longrightarrow> c \<noteq> 46 \<Longrightarrow> pton6_run (c # src) s = Some (Inl UV_EINVAL)"
  by (simp_all add: pton6_run_def pton6_nul pton6_digit pton6_omission pton6_colon pton6_other split: option.split)

lemma body_denotesI:
  assumes "token_text om bs c" "ipv6_tail t tb" "padded om (bs @ tb) = Some a" "t = [] \<Longrightarrow> om \<noteq> None \<and> bs = []"
  shows "body_denotes (c @ t) a"
  unfolding body_denotes_def using assms by blast

lemma pton6_run_sound:
  assumes "pton6_run src (pton6_at om bs ds src) = Some (Inr a)" "token_text om bs c"
    and "hex_digits ds" "length ds \<le> 4" "length (written om bs) \<le> 16"
    and "ds = [] \<Longrightarrow> c = [] \<or> om \<noteq> None \<and> bs = [] \<or> hd src \<noteq> 0"
  shows "\<exists>text rest. c @ ds @ src = text @ 0 # rest \<and> body_denotes text a"
  using assms
proof (induction src arbitrary: om bs ds c)
  case Nil
  then show ?case by (simp add: pton6_run_def)
next
  case (Cons ch src)
  show ?case
  proof (cases ch rule: pton6_char_cases)
    case nul
    have "body_denotes (c @ ds) a"
    proof (cases "ds = []")
      case True
      have "padded om bs = Some a"
        using Cons.prems nul True by (simp add: pton6_run_steps pton6_finish_at split: option.splits)
      moreover have "om \<noteq> None \<and> bs = []"
        using Cons.prems(2,6) True nul \<open>padded om bs = Some a\<close>
        by (auto simp: token_text_def padded_def groups_text_def split: option.splits if_splits)
      ultimately show ?thesis
        using body_denotesI [OF Cons.prems(2) no_tail] True by simp
    next
      case False
      then have "padded om (bs @ be_bytes 2 (hex_value ds)) = Some a"
        using Cons.prems nul by (simp add: pton6_run_steps pton6_finish_at split: option.splits if_splits)
      moreover have "hex_group ds" using False Cons.prems by (simp add: hex_group_def)
      ultimately show ?thesis using body_denotesI [OF Cons.prems(2) group_tail] False by blast
    qed
    with nul show ?thesis by (intro exI [of _ "c @ ds"] exI [of _ src]) simp
  next
    case digit
    then have "pton6_run src (pton6_at om bs (ds @ [ch]) src) = Some (Inr a)" "length (ds @ [ch]) \<le> 4"
      using Cons.prems by (auto simp: pton6_run_steps split: if_splits)
    from Cons.IH [OF this(1) Cons.prems(2) _ this(2) Cons.prems(5)] Cons.prems(3) digit show ?thesis by simp
  next
    case colon
    show ?thesis
    proof (cases "ds = []")
      case True
      with Cons.prems colon have "om = None" "pton6_run src (pton6_at (Some bs) [] [] src) = Some (Inr a)"
        by (auto simp: pton6_run_steps split: option.splits)
      moreover from this Cons.prems have "token_text (Some bs) [] (c @ [58])" "length (written (Some bs) []) \<le> 16"
        by (simp_all add: token_text_omission written_def)
      ultimately show ?thesis using Cons.IH [of "Some bs" "[]" "[]" "c @ [58]"] True colon by simp
    next
      case False
      with Cons.prems colon have *: "pton6_run src (pton6_at om (bs @ be_bytes 2 (hex_value ds)) [] src) = Some (Inr a)"
        "hd src \<noteq> 0" "length (written om bs) + 2 \<le> 16"
        by (auto simp: pton6_run_steps split: if_splits)
      have "token_text om (bs @ be_bytes 2 (hex_value ds)) (c @ ds @ [58])"
        using Cons.prems False by (intro token_text_group) (simp_all add: hex_group_def)
      moreover have "length (written om (bs @ be_bytes 2 (hex_value ds))) \<le> 16"
        using *(3) by (simp add: written_def del: be_bytes.simps)
      ultimately show ?thesis
        using Cons.IH [of om "bs @ be_bytes 2 (hex_value ds)" "[]" "c @ ds @ [58]"] * colon by simp
    qed
  next
    case dot
    with Cons.prems(1) obtain q where q: "inet_pton4 (ds @ 46 # src) = Some (Inr q)" "padded om (bs @ q) = Some a"
      by (auto simp: pton6_dot split: if_splits option.splits sum.splits)
    with pton4_sound [of False 0 "[]" 0 "ds @ 46 # src" q] obtain rest where
      "length q = 4" "ds @ 46 # src = dotted_quad q @ 0 # rest"
      by (auto simp: inet_pton4_def)
    moreover from this have "body_denotes (c @ dotted_quad q) a"
      using body_denotesI [OF Cons.prems(2) quad_tail q(2)] by (simp add: dotted_quad_def)
    ultimately show ?thesis using dot by (intro exI [of _ "c @ dotted_quad q"] exI [of _ rest]) simp
  next
    case other
    with Cons.prems show ?thesis by (simp add: pton6_run_steps)
  qed
qed

text \<open>The other direction: running over groups, and over the tail.\<close>

lemma pton6_run_digits:
  assumes "hex_digits (ds @ g)" "length ds + length g \<le> 4"
  shows "pton6_run (g @ src) (pton6_at om bs ds (g @ src)) = pton6_run src (pton6_at om bs (ds @ g) src)"
  using assms
proof (induction g arbitrary: ds)
  case Nil
  then show ?case by simp
next
  case (Cons c g)
  then show ?case using Cons.IH [of "ds @ [c]"] by (simp add: pton6_run_steps)
qed

lemma pton6_run_groups:
  assumes "list_all hex_group gs" "src \<noteq> []" "hd src \<noteq> 0" "length (written om bs) + 2 * length gs \<le> 16"
  shows "pton6_run (groups_text gs @ src) (pton6_at om bs [] (groups_text gs @ src))
    = pton6_run src (pton6_at om (bs @ groups_bytes gs) [] src)"
  using assms
proof (induction gs arbitrary: bs)
  case Nil
  then show ?case by simp
next
  case (Cons g gs)
  let ?src = "groups_text gs @ src"
  have g: "g \<noteq> []" "length g \<le> 4" "hex_digits g" using Cons.prems by (simp_all add: hex_group_def)
  have hd: "?src \<noteq> []" "hd ?src \<noteq> 0"
  proof -
    show "?src \<noteq> []" using Cons.prems by simp
    show "hd ?src \<noteq> 0"
    proof (cases gs)
      case Nil
      then show ?thesis using Cons.prems by simp
    next
      case (Cons h hs)
      with Cons.prems obtain c h' where "h = c # h'" "xdigit c \<noteq> None"
        by (cases h) (auto simp: hex_group_def)
      with Cons show ?thesis by auto
    qed
  qed
  have "pton6_run (g @ 58 # ?src) (pton6_at om bs [] (g @ 58 # ?src))
      = pton6_run (58 # ?src) (pton6_at om bs g (58 # ?src))"
    using pton6_run_digits [of "[]" g] g by simp
  also have "\<dots> = pton6_run ?src (pton6_at om (bs @ be_bytes 2 (hex_value g)) [] ?src)"
    using g hd Cons.prems(4) by (simp add: pton6_run_steps del: append_is_Nil_conv)
  also have "\<dots> = pton6_run src (pton6_at om ((bs @ be_bytes 2 (hex_value g)) @ groups_bytes gs) [] src)"
    by (rule Cons.IH) (use Cons.prems in \<open>simp_all add: written_def del: be_bytes.simps\<close>)
  finally show ?case by simp
qed

lemma padded_room: "padded om (bs @ tb) = Some a \<Longrightarrow> length (written om bs) + length tb \<le> 16"
  by (auto simp: padded_def written_def split: option.splits if_splits)

text \<open>The state in which the loop starts.\<close>

abbreviation pton6_init :: "byte list \<Rightarrow> pton6_st" where
  "pton6_init src \<equiv> pton6_at None [] [] src"

lemma inet_pton6_run:
  "inet_pton6 src =
     (case pton6_start src of
        None \<Rightarrow> None | Some (Inl err) \<Rightarrow> Some (Inl err) | Some (Inr src) \<Rightarrow> pton6_run src (pton6_init src))"
  by (auto simp: inet_pton6_def pton6_run_def pton6_at_def written_def split: option.split sum.split bind_split)

lemma ipv6_tail_first:
  assumes "ipv6_tail t tb" "t \<noteq> []"
  shows "hd t \<noteq> 0 \<and> hd t \<noteq> 58"
  using assms
proof cases
  case group_tail
  with assms(2) obtain c g where "t = c # g" "xdigit c \<noteq> None" by (cases t) (auto simp: hex_group_def)
  then show ?thesis by auto
next
  case quad_tail
  have "hd (decimal n) \<noteq> 0 \<and> hd (decimal n) \<noteq> 58" for n
  proof (induction n rule: less_induct)
    case (less n)
    show ?case
    proof (cases "n < 10")
      case True
      then have "unat (digit_char n) = 48 + n" by (simp only: digit_char_def unat_digit)
      then have "digit_char n \<noteq> 0" "digit_char n \<noteq> 58" using True by auto
      with True show ?thesis by (simp add: decimal_digit)
    next
      case False
      with less show ?thesis by (simp add: decimal_split)
    qed
  qed
  with quad_tail show ?thesis by (simp add: dotted_quad_def hd_append)
qed simp

lemma pton6_run_tail:
  assumes "ipv6_tail t tb" "padded om (bs @ tb) = Some a"
  shows "pton6_run (t @ 0 # rest) (pton6_at om bs [] (t @ 0 # rest)) = Some (Inr a)"
  using assms(1)
proof cases
  case no_tail
  with assms padded_room [OF assms(2)] show ?thesis by (simp add: pton6_run_steps pton6_finish_at)
next
  case group_tail
  then have g: "t \<noteq> []" "length t \<le> 4" "hex_digits t" by (simp_all add: hex_group_def)
  have "pton6_run (t @ 0 # rest) (pton6_at om bs [] (t @ 0 # rest)) = pton6_run (0 # rest) (pton6_at om bs t (0 # rest))"
    using pton6_run_digits [of "[]" t "0 # rest"] g by simp
  then show ?thesis
    using g group_tail assms(2) padded_room [OF assms(2)] by (simp add: pton6_run_steps pton6_finish_at)
next
  case quad_tail
  obtain x y z w where q: "tb = [x, y, z, w]"
    using quad_tail by (auto simp: numeral_eq_Suc length_Suc_conv)
  define tl where "tl = decimal (unat y) @ [46] @ decimal (unat z) @ [46] @ decimal (unat w)"
  have t: "t = decimal (unat x) @ 46 # tl" by (simp add: quad_tail q dotted_quad_def tl_def)
  have digits: "hex_digits (decimal n)" for n
  proof (induction n rule: less_induct)
    case (less n)
    have "d < 10 \<Longrightarrow> xdigit (digit_char d) \<noteq> None" for d
      using strchr_digits [of "digit_char d" d] strchr_at_none [of 0 digits_l "digit_char d"]
        strchr_at_none [of 0 xdigits_l "digit_char d"]
      by (auto simp: xdigit_def xdigits_l_def split: option.splits)
    then show ?case using less by (cases "n < 10") (simp_all add: decimal_digit decimal_split)
  qed
  have short: "length (decimal (unat x)) \<le> 4" using length_decimal_byte [of x] by linarith
  have quad: "decimal (unat x) @ 46 # tl @ 0 # rest = dotted_quad tb @ 0 # rest"
    using t quad_tail by simp
  have "pton6_run (t @ 0 # rest) (pton6_at om bs [] (t @ 0 # rest))
      = pton6_run (46 # tl @ 0 # rest) (pton6_at om bs (decimal (unat x)) (46 # tl @ 0 # rest))"
    using pton6_run_digits [of "[]" "decimal (unat x)" "46 # tl @ 0 # rest"] digits short by (simp add: t)
  also have "\<dots> = Some (Inr a)"
    using pton4_complete [of tb rest] quad_tail(2) assms(2) padded_room [OF assms(2)]
    by (simp add: pton6_dot quad)
  finally show ?thesis .
qed

lemma pton6_run_complete:
  assumes "body_denotes body a"
  shows "pton6_run (body @ 0 # rest) (pton6_init (body @ 0 # rest)) = Some (Inr a)"
proof -
  from assms obtain om bs c t tb after where body: "body = c @ t" "ipv6_tail t tb" "padded om (bs @ tb) = Some a"
    "t = [] \<longrightarrow> om \<noteq> None \<and> bs = []" and after: "list_all hex_group after" "bs = groups_bytes after"
    and c: "case om of None \<Rightarrow> c = groups_text after
       | Some b \<Rightarrow> \<exists>before. list_all hex_group before \<and> b = groups_bytes before \<and> c = groups_text before @ 58 # groups_text after"
    unfolding body_denotes_def token_text_def by blast
  have room: "length (written om bs) + length tb \<le> 16" using body(3) by (rule padded_room)
  have tl: "t \<noteq> [] \<Longrightarrow> hd (t @ 0 # rest) \<noteq> 0" using ipv6_tail_first [OF body(2)] by simp
  have groups: "pton6_run (groups_text after @ t @ 0 # rest) (pton6_at om [] [] (groups_text after @ t @ 0 # rest))
      = pton6_run (t @ 0 # rest) (pton6_at om bs [] (t @ 0 # rest))"
  proof (cases "t = []")
    case True
    then have "after = []" using body(4) after(2) by (cases after) (simp_all add: numeral_2_eq_2)
    with after(2) show ?thesis by simp
  next
    case False
    then show ?thesis
      using pton6_run_groups [of after "t @ 0 # rest" om "[]"] after tl room by (simp add: written_def)
  qed
  note tail = pton6_run_tail [OF body(2,3), of rest]
  show ?thesis
  proof (cases om)
    case None
    with c body(1) groups tail show ?thesis by simp
  next
    case (Some b)
    with c obtain before where before: "list_all hex_group before" "b = groups_bytes before"
      "c = groups_text before @ 58 # groups_text after" by auto
    let ?src = "58 # groups_text after @ t @ 0 # rest"
    have "pton6_run (groups_text before @ ?src) (pton6_init (groups_text before @ ?src))
        = pton6_run ?src (pton6_at None b [] ?src)"
      using pton6_run_groups [of before ?src None "[]"] before room Some by (simp add: written_def)
    also have "\<dots> = Some (Inr a)"
      using groups tail Some by (simp add: pton6_run_steps)
    finally show ?thesis by (simp add: body(1) before(3))
  qed
qed

text \<open>The grammar and \<open>body_denotes\<close>.\<close>

lemma body_full:
  "list_all hex_group gs \<Longrightarrow> ipv6_tail t bs \<Longrightarrow> t \<noteq> [] \<Longrightarrow> length (groups_bytes gs @ bs) = 16
    \<Longrightarrow> body_denotes (groups_text gs @ t) (groups_bytes gs @ bs)"
  by (rule body_denotesI [of None "groups_bytes gs"]) (auto simp: token_text_def padded_def)

lemma body_short:
  assumes "list_all hex_group before" "list_all hex_group after" "ipv6_tail t bs" "t = [] \<Longrightarrow> after = []"
    and "length (groups_bytes before) + k + length (groups_bytes after @ bs) = 16" "0 < k"
  shows "body_denotes (groups_text before @ 58 # groups_text after @ t)
    (groups_bytes before @ replicate k 0 @ groups_bytes after @ bs)"
proof -
  have "padded (Some (groups_bytes before)) (groups_bytes after @ bs)
      = Some (groups_bytes before @ replicate k 0 @ groups_bytes after @ bs)"
    using assms(5,6) by (auto simp: padded_def)
  moreover have "token_text (Some (groups_bytes before)) (groups_bytes after) (groups_text before @ 58 # groups_text after)"
    using assms(1,2) by (auto simp: token_text_def)
  ultimately show ?thesis using body_denotesI [OF _ assms(3)] assms(4) by fastforce
qed

lemma groups_text_hd: "list_all hex_group gs \<Longrightarrow> gs \<noteq> [] \<Longrightarrow> groups_text gs \<noteq> [] \<and> hd (groups_text gs) \<noteq> 58"
  by (cases gs; cases "hd gs") (auto simp: hex_group_def)

lemma ipv6_denotes_body:
  "ipv6_denotes t a \<longleftrightarrow>
     t \<noteq> [] \<and> (if hd t = 58 then body_denotes (tl t) a \<and> tl t \<noteq> [] \<and> hd (tl t) = 58 else body_denotes t a)"
proof
  assume "ipv6_denotes t a"
  then show "t \<noteq> [] \<and> (if hd t = 58 then body_denotes (tl t) a \<and> tl t \<noteq> [] \<and> hd (tl t) = 58 else body_denotes t a)"
  proof cases
    case (full gs u bs)
    then have "hd t \<noteq> 58" "t \<noteq> []"
      using groups_text_hd [of gs] ipv6_tail_first [of u bs] by (cases "gs = []"; simp add: hd_append)+
    with body_full full show ?thesis by simp
  next
    case (short before after u bs k)
    have b: "body_denotes (groups_text before @ 58 # groups_text after @ u) a"
      unfolding short(2) by (rule body_short) (use short in auto)
    show ?thesis
    proof (cases "before = []")
      case True
      with b short(1) show ?thesis by simp
    next
      case False
      with b short(1) groups_text_hd [OF short(3) False] show ?thesis by (simp add: hd_append)
    qed
  qed
next
  assume r: "t \<noteq> [] \<and> (if hd t = 58 then body_denotes (tl t) a \<and> tl t \<noteq> [] \<and> hd (tl t) = 58 else body_denotes t a)"
  define body where "body = (if hd t = 58 then tl t else t)"
  from r have "body_denotes body a" by (simp add: body_def split: if_splits)
  then obtain om bs c u tb after where body: "body = c @ u" "ipv6_tail u tb" "padded om (bs @ tb) = Some a"
    "u = [] \<longrightarrow> om \<noteq> None \<and> bs = []" and after: "list_all hex_group after" "bs = groups_bytes after"
    and c: "case om of None \<Rightarrow> c = groups_text after
       | Some b \<Rightarrow> \<exists>before. list_all hex_group before \<and> b = groups_bytes before \<and> c = groups_text before @ 58 # groups_text after"
    unfolding body_denotes_def token_text_def by blast
  show "ipv6_denotes t a"
  proof (cases om)
    case None
    with c body have c: "c = groups_text after" "u \<noteq> []" "a = groups_bytes after @ tb" "length a = 16"
      using after by (auto simp: padded_def split: if_splits)
    then have "hd body \<noteq> 58" "body \<noteq> []"
      using groups_text_hd [of after] ipv6_tail_first [OF body(2)] after(1) body(1)
      by (cases "after = []"; simp add: hd_append)+
    with r have "t = body" by (auto simp: body_def split: if_splits)
    with full [OF after(1) body(2)] c body(1) show ?thesis by simp
  next
    case (Some b)
    with c obtain before where before: "list_all hex_group before" "b = groups_bytes before"
      "c = groups_text before @ 58 # groups_text after" by auto
    from Some body(3) before(2) after(2) obtain k where a: "a = groups_bytes before @ replicate k 0 @ groups_bytes after @ tb"
      "length (groups_bytes before) + k + length (groups_bytes after @ tb) = 16" "0 < k"
      by (auto simp: padded_def split: if_splits)
    have "hd body = 58 \<longleftrightarrow> before = []"
      using groups_text_hd [OF before(1)] before(3) body(1) by (cases "before = []") (auto simp: hd_append)
    then have "t = (if before = [] then [58] else []) @ body"
      using r by (cases t) (auto simp: body_def split: if_splits)
    moreover have "u = [] \<Longrightarrow> after = []"
      using body(4) after(2) by (cases after) (auto simp: numeral_2_eq_2)
    ultimately show ?thesis
      using short [OF before(1) after(1) body(2) _ a(2,3)] a(1) body(1) before(3) by simp
  qed
qed

lemma token_text_start: "token_text None [] []"
  by (simp add: token_text_def) (rule exI [of _ "[]"], simp)

lemma written_start [simp]: "length (written None []) \<le> 16"
  by (simp add: written_def)

lemma pton6_run_init_sound:
  assumes "pton6_run src (pton6_init src) = Some (Inr a)"
  shows "\<exists>body rest. src = body @ 0 # rest \<and> body_denotes body a"
  using pton6_run_sound [OF assms token_text_start] by simp

lemma padded_length: "padded om bs = Some a \<Longrightarrow> length a = 16"
  by (auto simp: padded_def split: option.splits if_splits)

lemma hex_group_no_nul: "hex_group g \<Longrightarrow> 0 \<notin> set g"
  using xdigit_special(1) by (auto simp: hex_group_def hex_digits_def)

lemma ipv6_tail_no_nul: "ipv6_tail t tb \<Longrightarrow> 0 \<notin> set t"
  by (induction rule: ipv6_tail.induct) (simp_all add: hex_group_no_nul)

lemma groups_text_no_nul: "list_all hex_group gs \<Longrightarrow> 0 \<notin> set (groups_text gs)"
  by (induction gs) (simp_all add: hex_group_no_nul)

lemma ipv6_denotes_facts:
  assumes "ipv6_denotes t a"
  shows "0 \<notin> set t \<and> length a = 16"
  using assms by cases (auto simp: groups_text_no_nul ipv6_tail_no_nul)

text \<open>\<open>inet_pton6\<close> accepts exactly the grammar, and gives the address that the text denotes.\<close>

lemma inet_pton6_iff:
  assumes "0 \<notin> set t"
  shows "inet_pton6 (t @ 0 # rest) = Some (Inr a) \<longleftrightarrow> ipv6_denotes t a"
proof
  assume run: "inet_pton6 (t @ 0 # rest) = Some (Inr a)"
  then obtain src where src: "pton6_start (t @ 0 # rest) = Some (Inr src)" "pton6_run src (pton6_init src) = Some (Inr a)"
    by (auto simp: inet_pton6_run split: option.splits sum.splits)
  from pton6_run_init_sound [OF src(2)] obtain body r where body: "src = body @ 0 # r" "body_denotes body a" by blast
  have nul: "0 \<notin> set body"
    using body(2) by (auto simp: body_denotes_def token_text_def ipv6_tail_no_nul groups_text_no_nul split: option.splits)
  show "ipv6_denotes t a"
  proof (cases "t \<noteq> [] \<and> hd t = 58")
    case True
    then obtain u where t: "t = 58 # u" by (cases t) auto
    with src(1) have "src = u @ 0 # rest" "u \<noteq> []" "hd u = 58"
      by (cases u; simp add: pton6_start_def split: if_splits)+
    with body nul t assms nul_unique [of u rest body r] show ?thesis by (auto simp: ipv6_denotes_body)
  next
    case False
    then have "src = t @ 0 # rest"
      using src(1) by (cases t) (auto simp: pton6_start_def split: if_splits)
    with body nul assms nul_unique [of t rest body r] have "t = body" by simp
    moreover have "t \<noteq> []"
      using body(2) \<open>t = body\<close> by (auto simp: body_denotes_def token_text_def split: option.splits)
    ultimately show ?thesis using False body(2) by (simp add: ipv6_denotes_body)
  qed
next
  assume "ipv6_denotes t a"
  then have t: "t \<noteq> []" "if hd t = 58 then body_denotes (tl t) a \<and> tl t \<noteq> [] \<and> hd (tl t) = 58 else body_denotes t a"
    by (simp_all add: ipv6_denotes_body)
  then obtain c u where cu: "t = c # u" by (cases t) auto
  show "inet_pton6 (t @ 0 # rest) = Some (Inr a)"
  proof (cases "c = 58")
    case True
    with t cu obtain v where "u = 58 # v" "body_denotes u a" by (cases u) auto
    with True cu pton6_run_complete [of u a rest] show ?thesis by (simp add: inet_pton6_run pton6_start_def)
  next
    case False
    with t cu pton6_run_complete [of t a rest] show ?thesis by (simp add: inet_pton6_run pton6_start_def)
  qed
qed

text \<open>On a terminated string it returns, and \<open>UV_EINVAL\<close> is the only error.\<close>

lemma pton6_run_returns:
  assumes "0 \<in> set src" "hex_digits ds" "length ds \<le> 4" "length (written om bs) \<le> 16"
  shows "\<exists>r. pton6_run src (pton6_at om bs ds src) = Some r \<and> (\<forall>e. r = Inl e \<longrightarrow> e = UV_EINVAL)"
  using assms
proof (induction src arbitrary: om bs ds)
  case Nil
  then show ?case by simp
next
  case (Cons c src)
  show ?case
  proof (cases c rule: pton6_char_cases)
    case nul
    with Cons.prems show ?thesis by (simp add: pton6_run_steps pton6_finish_at split: option.split)
  next
    case digit
    then have "0 \<in> set src" using Cons.prems(1) by auto
    with digit Cons.prems Cons.IH [of "ds @ [c]"] show ?thesis by (simp add: pton6_run_steps)
  next
    case colon
    then have src: "0 \<in> set src" "src \<noteq> []" using Cons.prems(1) by auto
    show ?thesis
    proof (cases "ds = []")
      case True
      with colon src Cons.prems Cons.IH [of "[]" "Some bs" "[]"] show ?thesis
        by (simp add: pton6_run_steps written_def split: option.split)
    next
      case False
      with colon src Cons.prems Cons.IH [of "[]" om "bs @ be_bytes 2 (hex_value ds)"] show ?thesis
        by (simp add: pton6_run_steps written_def del: be_bytes.simps)
    qed
  next
    case dot
    obtain r where "inet_pton4 (ds @ 46 # src) = Some r"
      using pton4_returns [of "ds @ 46 # src" False 0 "[]" 0] Cons.prems(1) dot by (auto simp: inet_pton4_def)
    with dot show ?thesis by (simp add: pton6_dot split: sum.split option.split)
  next
    case other
    then show ?thesis by (simp add: pton6_run_steps)
  qed
qed

lemma inet_pton6_returns:
  assumes "0 \<in> set src"
  shows "\<exists>r. inet_pton6 src = Some r \<and> (\<forall>e. r = Inl e \<longrightarrow> e = UV_EINVAL)"
proof -
  have run: "0 \<in> set src \<Longrightarrow> \<exists>r. pton6_run src (pton6_init src) = Some r \<and> (\<forall>e. r = Inl e \<longrightarrow> e = UV_EINVAL)" for src
    by (rule pton6_run_returns) simp_all
  obtain c u where src: "src = c # u" using assms by (cases src) auto
  show ?thesis
  proof (cases "c = 58")
    case True
    with assms src have u: "0 \<in> set u" "u \<noteq> []" by auto
    then show ?thesis using True src run [OF u(1)] by (cases u) (auto simp: inet_pton6_run pton6_start_def)
  next
    case False
    with src run [OF assms] show ?thesis by (simp add: inet_pton6_run pton6_start_def)
  qed
qed

end
