(* ===== verification/Uv_Inet_Text.thy ===== *)
theory Uv_Inet_Text
  imports Uv_Inet6
begin

text \<open>
  Printing addresses, and the two families together: the locale \<open>address_family\<close> is what a caller of
  \<open>uv_inet_pton\<close> and \<open>uv_inet_ntop\<close> relies on, interpreted for IPv4 and for IPv6.
\<close>

section \<open>Printing an IPv6 address\<close>

definition xdigit_char :: "nat \<Rightarrow> byte" where
  "xdigit_char d = word_of_nat (if d < 10 then 48 + d else 87 + d)"

lemma hexadecimal_digit: "n < 16 \<Longrightarrow> hexadecimal n = [xdigit_char n]"
  by (simp add: hexadecimal.simps [of n] xdigit_char_def)

lemma hexadecimal_split: "\<not> n < 16 \<Longrightarrow> hexadecimal n = hexadecimal (n div 16) @ [xdigit_char (n mod 16)]"
  by (subst hexadecimal.simps) (simp add: xdigit_char_def)

lemma xdigit_char [simp]: "d < 16 \<Longrightarrow> xdigit (xdigit_char d) = Some d"
proof -
  assume d: "d < 16"
  have "distinct xdigits_l" "length xdigits_l = 16" by (simp_all add: xdigits_l_def digits_l_def)
  moreover have "\<forall>d\<in>set [0..<16]. xdigits_l ! d = xdigit_char d"
    by (simp add: xdigits_l_def digits_l_def xdigit_char_def upt_rec)
  then have "xdigits_l ! d = xdigit_char d" using d by simp
  ultimately show ?thesis using strchr_at_nth [of xdigits_l d 0] d by (simp add: xdigit_def)
qed

lemma hexadecimal_value: "hex_digits (hexadecimal n) \<and> hex_value (hexadecimal n) = n \<and> hexadecimal n \<noteq> []"
proof (induction n rule: less_induct)
  case (less n)
  show ?case
  proof (cases "n < 16")
    case True
    then show ?thesis using hex_value_simps(2) [of "[]" "xdigit_char n"] by (simp add: hexadecimal_digit)
  next
    case False
    then show ?thesis using less [of "n div 16"] by (simp add: hexadecimal_split)
  qed
qed

lemma length_hexadecimal: "n < 16 ^ k \<Longrightarrow> 0 < k \<Longrightarrow> length (hexadecimal n) \<le> k"
proof (induction k arbitrary: n)
  case 0
  then show ?case by simp
next
  case (Suc k)
  show ?case
  proof (cases "n < 16")
    case True
    then show ?thesis by (simp add: hexadecimal_digit)
  next
    case False
    then have "0 < k" using Suc.prems by (cases k) auto
    moreover have "n div 16 < 16 ^ k" using Suc.prems by (simp add: less_mult_imp_div_less)
    ultimately show ?thesis using Suc.IH [of "n div 16"] False by (simp add: hexadecimal_split)
  qed
qed

lemma hexadecimal_group: "n < 65536 \<Longrightarrow> hex_group (hexadecimal n) \<and> hex_value (hexadecimal n) = n"
  using hexadecimal_value [of n] length_hexadecimal [of n 4] by (simp add: hex_group_def)

text \<open>The eight groups of an address.\<close>

definition in6_group :: "byte list \<Rightarrow> nat \<Rightarrow> nat" where
  "in6_group a i = 256 * unat (a ! (2 * i)) + unat (a ! (2 * i + 1))"

lemma in6_group_less: "in6_group a i < 65536"
  using unat_byte_less [of "a ! (2 * i)"] unat_byte_less [of "a ! (2 * i + 1)"] unfolding in6_group_def by linarith

lemma unat_group_word:
  "unat (push_bit 8 (ucast (x :: byte)) OR ucast (y :: byte) :: u32) = 256 * unat x + unat y"
proof -
  have "push_bit 8 (ucast x) AND (ucast y :: u32) = 0"
    by (rule bit_eqI) (auto simp: bit_simps dest: bit_imp_le_length)
  then have "unat (push_bit 8 (ucast x) OR ucast y :: u32) = unat (push_bit 8 (ucast x) :: u32) + unat (ucast y :: u32)"
    by (rule unat_or_disjoint)
  moreover have up: "unat (ucast b :: u32) = unat b" for b :: byte
    by (rule unat_ucast_up) simp
  moreover have "256 * unat x < 4294967296" using unat_byte_less [of x] by linarith
  then have "unat (push_bit 8 (ucast x) :: u32) = 256 * unat x"
    by (simp add: push_bit_eq_mult unat_word_ariths up mult.commute)
  ultimately show ?thesis by simp
qed

lemma in6_words_fold:
  assumes "k \<le> 8"
  shows "fold (\<lambda>i ws. ws[i div 2 := ws ! (i div 2) OR push_bit ((1 - i mod 2) * 8) (ucast (a ! i))]) [0..<2 * k] (replicate 8 (0 :: u32))
    = map (\<lambda>i. push_bit 8 (ucast (a ! (2 * i))) OR ucast (a ! (2 * i + 1))) [0..<k] @ replicate (8 - k) 0"
  using assms
proof (induction k)
  case 0
  then show ?case by simp
next
  case (Suc k)
  have upt: "[0..<2 * Suc k] = [0..<2 * k] @ [2 * k, 2 * k + 1]" by simp
  have rep: "replicate (8 - k) (0 :: u32) = 0 # replicate (8 - Suc k) 0"
    using Suc.prems by (metis Suc_diff_le diff_Suc_Suc replicate_Suc)
  show ?case
    unfolding upt fold_append comp_apply Suc.IH [OF Suc_leD [OF Suc.prems]] rep
    by (simp add: nth_append list_update_append)
qed

lemma in6_words_groups: "map unat (in6_words a) = map (in6_group a) [0..<8]"
  using in6_words_fold [of 8 a] by (simp add: in6_words_def in6_group_def unat_group_word)

lemma length_in6_words: "length (in6_words a) = 8"
  using in6_words_groups [of a] by (metis length_map length_upt diff_zero)

lemma in6_words_nth: "i < 8 \<Longrightarrow> unat (in6_words a ! i) = in6_group a i"
  using arg_cong [OF in6_words_groups, of "\<lambda>l. l ! i" a] by (simp add: length_in6_words)

lemma be_bytes_group: "2 * i + 1 < length a \<Longrightarrow> be_bytes 2 (in6_group a i) = [a ! (2 * i), a ! (2 * i + 1)]"
proof -
  have "be_nat [x, y] = 256 * unat x + unat y" for x y :: byte
    by (simp add: be_nat_Cons)
  then have "in6_group a i = be_nat [a ! (2 * i), a ! (2 * i + 1)]" by (simp add: in6_group_def)
  then show ?thesis
    using be_bytes_be_nat [of "[a ! (2 * i), a ! (2 * i + 1)]"] by (simp add: numeral_2_eq_2 del: be_bytes.simps)
qed

text \<open>The run of zeros that is abbreviated: the first of the longest ones, of at least two.\<close>

definition zeros :: "nat list \<Rightarrow> nat \<Rightarrow> nat \<Rightarrow> bool" where
  "zeros ws b l \<longleftrightarrow> b + l \<le> length ws \<and> (\<forall>i. b \<le> i \<and> i < b + l \<longrightarrow> ws ! i = 0)"

definition abbreviates :: "nat list \<Rightarrow> (nat \<times> nat) option \<Rightarrow> bool" where
  "abbreviates ws run \<longleftrightarrow>
     (case run of
        None \<Rightarrow> \<forall>b. \<not> zeros ws b 2
      | Some (b, l) \<Rightarrow> 2 \<le> l \<and> zeros ws b l \<and> (\<forall>b' l'. zeros ws b' l' \<longrightarrow> l' < l \<or> l' = l \<and> b \<le> b'))"

text \<open>
  The scan over runs as pairs: after \<open>n\<close> words, \<open>cur\<close> is the run that ends there and \<open>best\<close> the first longest of
  those before it.
\<close>

definition represents :: "zero_run \<Rightarrow> (nat \<times> nat) option \<Rightarrow> bool" where
  "represents r run \<longleftrightarrow> (case run of None \<Rightarrow> base r = - 1 | Some (b, l) \<Rightarrow> r = \<lparr>base = int b, len = int l\<rparr>)"

definition longest :: "nat list \<Rightarrow> nat \<Rightarrow> (nat \<times> nat) option \<Rightarrow> bool" where
  "longest ws n run \<longleftrightarrow>
     (case run of
        None \<Rightarrow> \<forall>b l. zeros ws b l \<longrightarrow> b + l \<le> n \<longrightarrow> l = 0
      | Some (b, l) \<Rightarrow> 1 \<le> l \<and> b + l \<le> n \<and> zeros ws b l \<and>
          (\<forall>b' l'. zeros ws b' l' \<longrightarrow> b' + l' \<le> n \<longrightarrow> l' < l \<or> l' = l \<and> b \<le> b'))"

definition ends_at :: "nat list \<Rightarrow> nat \<Rightarrow> (nat \<times> nat) option \<Rightarrow> bool" where
  "ends_at ws n run \<longleftrightarrow>
     (case run of
        None \<Rightarrow> n = 0 \<or> ws ! (n - 1) \<noteq> 0
      | Some (b, l) \<Rightarrow> 1 \<le> l \<and> b + l = n \<and> zeros ws b l \<and> (b = 0 \<or> ws ! (b - 1) \<noteq> 0))"

definition better :: "(nat \<times> nat) option \<Rightarrow> nat \<times> nat \<Rightarrow> (nat \<times> nat) option" where
  "better best cur =
     (case best of None \<Rightarrow> Some cur | Some (b, l) \<Rightarrow> if snd cur > l then Some cur else best)"

lemma better_represents:
  "represents r best \<Longrightarrow> represents (better_run r \<lparr>base = int b, len = int l\<rparr>) (better best (b, l))"
  by (auto simp: represents_def better_run_def better_def split: option.splits)

lemma zeros_before:
  assumes "zeros ws b' l'" "b' + l' \<le> b + l" "b = 0 \<or> ws ! (b - 1) \<noteq> 0"
  shows "b' + l' \<le> b \<or> b \<le> b' \<and> l' \<le> l"
proof (cases "b' < b \<and> b < b' + l'")
  case True
  then have "b' \<le> b - 1 \<and> b - 1 < b' + l'" by linarith
  with assms(1) have "ws ! (b - 1) = 0" unfolding zeros_def by blast
  with True assms(3) show ?thesis by simp
qed (use assms(2) in linarith)

lemma better_longest:
  assumes best: "longest ws b best" and cur: "ends_at ws n (Some (b, l))"
  shows "longest ws n (better best (b, l))"
proof -
  from cur have c: "1 \<le> l" "b + l = n" "zeros ws b l" "b = 0 \<or> ws ! (b - 1) \<noteq> 0"
    by (simp_all add: ends_at_def)
  have runs: "b' + l' \<le> b \<or> b \<le> b' \<and> l' \<le> l" if "zeros ws b' l'" "b' + l' \<le> n" for b' l'
    using zeros_before [OF that(1), of b l] that(2) c by simp
  have best': "l' = 0" if "best = None" "zeros ws b' l'" "b' + l' \<le> b" for b' l'
    using best that by (auto simp: longest_def)
  show ?thesis
  proof (cases best)
    case None
    have "l' < l \<or> l' = l \<and> b \<le> b'" if "zeros ws b' l'" "b' + l' \<le> n" for b' l'
      using runs [OF that] best' [OF None that(1)] c(1) by linarith
    with None c show ?thesis by (simp add: better_def longest_def)
  next
    case (Some run)
    obtain bb bl where run: "run = (bb, bl)" by (cases run)
    with best Some have b: "1 \<le> bl" "bb + bl \<le> b" "zeros ws bb bl"
      "\<And>b' l'. zeros ws b' l' \<Longrightarrow> b' + l' \<le> b \<Longrightarrow> l' < bl \<or> l' = bl \<and> bb \<le> b'"
      by (simp_all add: longest_def)
    show ?thesis
    proof (cases "l > bl")
      case True
      have "l' < l \<or> l' = l \<and> b \<le> b'" if "zeros ws b' l'" "b' + l' \<le> n" for b' l'
        using runs [OF that] b(4) [OF that(1)] True by linarith
      with Some run c True show ?thesis by (simp add: better_def longest_def)
    next
      case False
      have "l' < bl \<or> l' = bl \<and> bb \<le> b'" if "zeros ws b' l'" "b' + l' \<le> n" for b' l'
        using runs [OF that] b(2) b(4) [OF that(1)] False by linarith
      with Some run b False c(2) show ?thesis by (simp add: better_def longest_def)
    qed
  qed
qed

lemma longest_Suc:
  assumes "longest ws n run" "ws ! n \<noteq> 0"
  shows "longest ws (Suc n) run"
proof -
  have "l = 0 \<or> b + l \<le> n" if "zeros ws b l" "b + l \<le> Suc n" for b l
  proof (rule ccontr)
    assume "\<not> (l = 0 \<or> b + l \<le> n)"
    with that have "ws ! n = 0" unfolding zeros_def by (auto simp: le_Suc_eq)
    with assms(2) show False by simp
  qed
  with assms(1) show ?thesis
    unfolding longest_def by (fastforce split: option.splits prod.splits)
qed

definition scan_inv :: "u32 list \<Rightarrow> nat \<Rightarrow> zero_run \<times> zero_run \<Rightarrow> bool" where
  "scan_inv ws n rs \<longleftrightarrow>
     (\<exists>best cur. represents (fst rs) best \<and> represents (snd rs) cur \<and> ends_at (map unat ws) n cur
        \<and> longest (map unat ws) (case cur of None \<Rightarrow> n | Some (b, l) \<Rightarrow> b) best)"

lemma scan_invI:
  assumes "represents r best" "represents c cur" "ends_at (map unat ws) n cur"
    "longest (map unat ws) (case cur of None \<Rightarrow> n | Some (b, l) \<Rightarrow> b) best"
  shows "scan_inv ws n (r, c)"
  unfolding scan_inv_def using assms by (intro exI [of _ best] exI [of _ cur]) simp

lemma represents_simps [simp]:
  "represents r None \<longleftrightarrow> base r = - 1"
  "represents r (Some (b, l)) \<longleftrightarrow> r = \<lparr>base = int b, len = int l\<rparr>"
  by (simp_all add: represents_def)

lemma scan_word_inv:
  assumes "scan_inv ws n rs" "n < length ws"
  shows "scan_inv ws (Suc n) (scan_word ws n rs)"
proof -
  obtain r c where rs: "rs = (r, c)" by (cases rs)
  let ?ws = "map unat ws"
  from assms(1) rs obtain best cur where b: "represents r best" "represents c cur" "ends_at ?ws n cur"
    "longest ?ws (case cur of None \<Rightarrow> n | Some (b, l) \<Rightarrow> b) best" by (auto simp: scan_inv_def)
  have word: "?ws ! n = 0 \<longleftrightarrow> ws ! n = 0" using assms(2) by (simp add: unat_eq_0)
  show ?thesis
  proof (cases cur)
    case None
    with b have c: "base c = - 1" "n = 0 \<or> ?ws ! (n - 1) \<noteq> 0" "longest ?ws n best"
      by (simp_all add: ends_at_def)
    show ?thesis
    proof (cases "ws ! n = 0")
      case True
      with word assms(2) c(2) have "ends_at ?ws (Suc n) (Some (n, 1))"
        by (auto simp: ends_at_def zeros_def less_Suc_eq)
      moreover have "scan_word ws n rs = (r, \<lparr>base = int n, len = int 1\<rparr>)"
        using True c(1) rs by (simp add: scan_word_def)
      ultimately show ?thesis using b(1) c(3) scan_invI [of r best _ "Some (n, 1)"] by simp
    next
      case False
      with word have "longest ?ws (Suc n) best" "ends_at ?ws (Suc n) None"
        using longest_Suc [OF c(3)] by (simp_all add: ends_at_def)
      moreover have "scan_word ws n rs = (r, c)"
        using False c(1) rs by (simp add: scan_word_def)
      ultimately show ?thesis using b(1) c(1) scan_invI [of r best c None] by simp
    qed
  next
    case (Some run)
    obtain s l where run: "cur = Some (s, l)" using Some by (cases run) simp
    with b have c: "c = \<lparr>base = int s, len = int l\<rparr>" "ends_at ?ws n (Some (s, l))" "longest ?ws s best"
      by simp_all
    show ?thesis
    proof (cases "ws ! n = 0")
      case True
      with word assms(2) c(2) have "ends_at ?ws (Suc n) (Some (s, Suc l))"
        by (auto simp: ends_at_def zeros_def less_Suc_eq)
      moreover have "scan_word ws n rs = (r, \<lparr>base = int s, len = int (Suc l)\<rparr>)"
        using True c(1) rs by (simp add: scan_word_def)
      ultimately show ?thesis using b(1) c(3) scan_invI [of r best _ "Some (s, Suc l)"] by simp
    next
      case False
      with word have "longest ?ws (Suc n) (better best (s, l))" "ends_at ?ws (Suc n) None"
        using longest_Suc [OF better_longest [OF c(3,2)]] by (simp_all add: ends_at_def)
      moreover have "scan_word ws n rs = (better_run r c, c\<lparr>base := - 1\<rparr>)"
        using False c(1) rs by (simp add: scan_word_def)
      ultimately show ?thesis
        using better_represents [OF b(1), of s l] c(1) scan_invI [of _ "better best (s, l)" _ None] by simp
    qed
  qed
qed

text \<open>The run that the code abbreviates is the one that the notation asks for.\<close>

lemma best_run_abbreviates:
  assumes "length ws = 8"
  shows "\<exists>run. represents (best_run ws) run \<and> abbreviates (map unat ws) run"
proof -
  let ?ws = "map unat ws"
  define rs where "rs = fold (scan_word ws) [0..<8] (\<lparr>base = - 1, len = 0\<rparr>, \<lparr>base = - 1, len = 0\<rparr>)"
  have "n \<le> 8 \<Longrightarrow> scan_inv ws n (fold (scan_word ws) [0..<n] (\<lparr>base = - 1, len = 0\<rparr>, \<lparr>base = - 1, len = 0\<rparr>))" for n
  proof (induction n)
    case 0
    have "longest ?ws 0 None" "ends_at ?ws 0 None" by (simp_all add: longest_def ends_at_def)
    then show ?case by (auto intro!: scan_invI [of _ None _ None])
  next
    case (Suc n)
    then show ?case using assms by (simp add: scan_word_inv)
  qed
  from this [of 8] have "scan_inv ws 8 rs" by (simp add: rs_def)
  then obtain best cur where b: "represents (fst rs) best" "represents (snd rs) cur" "ends_at ?ws 8 cur"
    "longest ?ws (case cur of None \<Rightarrow> 8 | Some (b, l) \<Rightarrow> b) best" unfolding scan_inv_def by blast
  define r where "r = (if base (snd rs) \<noteq> - 1 then better_run (fst rs) (snd rs) else fst rs)"
  have "\<exists>run. represents r run \<and> longest ?ws 8 run"
  proof (cases cur)
    case None
    with b show ?thesis by (auto simp: r_def)
  next
    case (Some run)
    obtain s l where run: "cur = Some (s, l)" using Some by (cases run) simp
    with b have "represents (better_run (fst rs) (snd rs)) (better best (s, l))" "longest ?ws 8 (better best (s, l))"
      using better_represents [OF b(1), of s l] better_longest [of ?ws s best 8 l] by simp_all
    with b(2) run show ?thesis by (auto simp: r_def)
  qed
  then obtain run where run: "represents r run" "longest ?ws 8 run" by blast
  have fits: "b + l \<le> 8" if "zeros ?ws b l" for b l using that assms by (simp add: zeros_def)
  have best: "best_run ws = (if base r \<noteq> - 1 \<and> len r < 2 then r\<lparr>base := - 1\<rparr> else r)"
    by (simp add: best_run_def r_def rs_def Let_def split: prod.split)
  show ?thesis
  proof (cases run)
    case None
    then have "abbreviates ?ws None" using run(2) fits by (fastforce simp: abbreviates_def longest_def)
    with None run(1) best show ?thesis by (intro exI [of _ None]) simp
  next
    case (Some sl)
    obtain s l where sl: "run = Some (s, l)" using Some by (cases sl) simp
    with run have r: "r = \<lparr>base = int s, len = int l\<rparr>" "1 \<le> l" "zeros ?ws s l"
      "\<And>b' l'. zeros ?ws b' l' \<Longrightarrow> l' < l \<or> l' = l \<and> s \<le> b'"
      using fits by (simp_all add: longest_def)
    show ?thesis
    proof (cases "l < 2")
      case True
      then have "abbreviates ?ws None" using r(4) by (fastforce simp: abbreviates_def)
      with r(1) best True show ?thesis by (intro exI [of _ None]) simp
    next
      case False
      then have "abbreviates ?ws (Some (s, l))" using r by (simp add: abbreviates_def)
      with r(1) best False show ?thesis by (intro exI [of _ "Some (s, l)"]) simp
    qed
  qed
qed

text \<open>The text of an address, with the run to be abbreviated.\<close>

definition colon_join :: "nat list \<Rightarrow> byte list" where
  "colon_join gs = (case gs of [] \<Rightarrow> [] | g # gs \<Rightarrow> hexadecimal g @ concat (map (\<lambda>g. 58 # hexadecimal g) gs))"

definition quad_tailed :: "byte list \<Rightarrow> nat \<times> nat \<Rightarrow> bool" where
  "quad_tailed a = (\<lambda>(b, l). b = 0 \<and> (l = 6 \<or> l = 5 \<and> in6_group a 5 = 0xffff))"

definition ipv6_text :: "byte list \<Rightarrow> (nat \<times> nat) option \<Rightarrow> byte list" where
  "ipv6_text a run =
     (let gs = map (in6_group a) [0..<8] in
      case run of
        None \<Rightarrow> colon_join gs
      | Some (b, l) \<Rightarrow> colon_join (take b gs) @ [58, 58] @
          (if quad_tailed a (b, l) then groups_text (map hexadecimal (drop l (take 6 gs))) @ dotted_quad (drop 12 a)
           else colon_join (drop (b + l) gs)))"

lemma length_dotted_quad: "length (dotted_quad a) \<le> 15"
  using length_decimal_byte [of "a ! 0"] length_decimal_byte [of "a ! 1"] length_decimal_byte [of "a ! 2"]
    length_decimal_byte [of "a ! 3"] by (simp add: dotted_quad_def)

lemma inet_ntop4_exact:
  assumes "4 \<le> length src" "sz \<le> length dst"
  shows "inet_ntop4 src dst sz =
    (if length (dotted_quad src) < sz then Some (0, dotted_quad src @ 0 # drop (Suc (length (dotted_quad src))) dst)
     else Some (UV_ENOSPC, dst))"
proof -
  let ?t = "dotted_quad src"
  have t: "length ?t \<le> 15" "?t \<noteq> []" "take 15 ?t = ?t"
    using length_dotted_quad [of src] by (simp_all add: dotted_quad_def)
  show ?thesis
  proof (cases "length ?t < sz")
    case True
    then have "uv__strscpy dst (?t @ 0 # []) sz = Some (int (length ?t), ?t @ 0 # drop (Suc (length ?t)) dst)"
      by (intro strscpy_fits) (use t(1) assms in \<open>simp_all add: SSIZE_MAX_def\<close>)
    with True t assms show ?thesis
      by (simp add: inet_ntop4_def snprintf_bytes_def UV__INET_ADDRSTRLEN_def)
  next
    case False
    with t assms show ?thesis
      by (simp add: inet_ntop4_def snprintf_bytes_def UV__INET_ADDRSTRLEN_def)
  qed
qed

text \<open>The loop over indices outside the run and before a dotted quad.\<close>

definition in_run :: "zero_run \<Rightarrow> nat \<Rightarrow> bool" where
  "in_run best i \<longleftrightarrow> base best \<noteq> - 1 \<and> int i \<ge> base best \<and> int i < base best + len best"

lemma ntop6_loop_steps:
  "in_run best i \<Longrightarrow> ntop6_loop junk src ws best (i # is) tmp =
    (if int i = base best then tmp_put 58 tmp \<bind> ntop6_loop junk src ws best is
     else ntop6_loop junk src ws best is tmp)"
  "\<not> in_run best i \<Longrightarrow> \<not> ends_in_ipv4 best ws i \<Longrightarrow> ntop6_loop junk src ws best (i # is) tmp =
    (if i \<noteq> 0 then tmp_put 58 tmp else Some tmp) \<bind> (\<lambda>tmp. tmp_print (hexadecimal (unat (ws ! i))) tmp \<bind>
      ntop6_loop junk src ws best is)"
  "\<not> in_run best i \<Longrightarrow> ends_in_ipv4 best ws i \<Longrightarrow> i \<noteq> 0 \<Longrightarrow> ntop6_loop junk src ws best (i # is) tmp =
    tmp_put 58 tmp \<bind> (\<lambda>tmp. inet_ntop4 (drop 12 src) (map junk [length tmp..<UV__INET6_ADDRSTRLEN])
      (UV__INET6_ADDRSTRLEN - length tmp) \<bind> (\<lambda>(err, dst).
        if err \<noteq> 0 then Some (Inl err) else c_string dst \<bind> (\<lambda>s. Some (Inr (tmp @ s)))))"
  unfolding ntop6_loop.simps(2) in_run_def [symmetric] by simp_all

definition group_pieces :: "u32 list \<Rightarrow> nat list \<Rightarrow> byte list" where
  "group_pieces ws is = concat (map (\<lambda>i. (if i \<noteq> 0 then [58] else []) @ hexadecimal (unat (ws ! i))) is)"

lemma ntop6_plain:
  assumes "\<And>i. i \<in> set is \<Longrightarrow> \<not> in_run best i \<and> \<not> ends_in_ipv4 best ws i \<and> unat (ws ! i) < 65536"
    and "length tmp + 5 * length is \<le> 45"
  shows "ntop6_loop junk src ws best (is @ js) tmp = ntop6_loop junk src ws best js (tmp @ group_pieces ws is)"
  using assms
proof (induction "is" arbitrary: tmp)
  case Nil
  then show ?case by (simp add: group_pieces_def)
next
  case (Cons i "is")
  let ?p = "(if i \<noteq> 0 then [58] else []) @ hexadecimal (unat (ws ! i))"
  have h: "length (hexadecimal (unat (ws ! i))) \<le> 4"
    using hexadecimal_group [of "unat (ws ! i)"] Cons.prems(1) [of i] by (simp add: hex_group_def)
  have "ntop6_loop junk src ws best (i # is @ js) tmp = ntop6_loop junk src ws best (is @ js) (tmp @ ?p)"
    using Cons.prems(1) [of i] Cons.prems(2) h
    by (cases "i = 0") (simp_all add: ntop6_loop_steps(2) tmp_put_def tmp_print_def UV__INET6_ADDRSTRLEN_def del: ntop6_loop.simps)
  also have "\<dots> = ntop6_loop junk src ws best js ((tmp @ ?p) @ group_pieces ws is)"
    by (rule Cons.IH) (use Cons.prems h in auto)
  finally show ?case by (simp add: group_pieces_def)
qed

lemma ntop6_in_run:
  assumes "best = \<lparr>base = int b, len = int l\<rparr>" "b < i" "i \<le> b + l"
  shows "ntop6_loop junk src ws best ([i..<b + l] @ js) tmp = ntop6_loop junk src ws best js tmp"
  using assms(2,3)
proof (induction "b + l - i" arbitrary: i)
  case 0
  then show ?case by simp
next
  case (Suc n)
  then have i: "i < b + l" "in_run best i" "int i \<noteq> base best" using assms(1) by (auto simp: in_run_def)
  with Suc show ?case by (simp add: upt_conv_Cons [OF i(1)] ntop6_loop_steps(1) del: ntop6_loop.simps)
qed

lemma ntop6_run:
  assumes "best = \<lparr>base = int b, len = int l\<rparr>" "0 < l" "length tmp < 46"
  shows "ntop6_loop junk src ws best ([b..<b + l] @ js) tmp = ntop6_loop junk src ws best js (tmp @ [58])"
proof -
  have "in_run best b" "int b = base best" using assms(1,2) by (auto simp: in_run_def)
  then show ?thesis
    using assms(2,3) ntop6_in_run [OF assms(1), of "Suc b"]
    by (simp add: upt_conv_Cons [of b "b + l"] ntop6_loop_steps(1) tmp_put_def UV__INET6_ADDRSTRLEN_def del: ntop6_loop.simps)
qed

lemma ntop6_quad:
  assumes "\<not> in_run best 6" "ends_in_ipv4 best ws 6" "length tmp \<le> 29" "length src = 16"
  shows "ntop6_loop junk src ws best (6 # js) tmp = Some (Inr (tmp @ 58 # dotted_quad (drop 12 src)))"
proof -
  let ?tmp = "tmp @ [58]" and ?q = "dotted_quad (drop 12 src)"
  let ?dst = "map junk [length ?tmp..<46]"
  have "length ?q < 46 - length ?tmp" using length_dotted_quad [of "drop 12 src"] assms(3) by simp
  then have "inet_ntop4 (drop 12 src) ?dst (46 - length ?tmp) = Some (0, ?q @ 0 # drop (Suc (length ?q)) ?dst)"
    using assms(4) by (subst inet_ntop4_exact) simp_all
  moreover have "c_string (?q @ 0 # r) = Some ?q" for r
  proof -
    have "takeWhile (\<lambda>b. b \<noteq> 0) (?q @ 0 # r) = ?q"
      by (subst takeWhile_append2) (use dotted_quad_no_nul [of "drop 12 src"] in fastforce)+
    then show ?thesis by (simp add: c_string_def)
  qed
  ultimately show ?thesis
    using assms(1-3) by (simp add: ntop6_loop_steps(3) tmp_put_def UV__INET6_ADDRSTRLEN_def del: ntop6_loop.simps)
qed

lemma group_pieces_simps:
  "group_pieces ws [] = []"
  "group_pieces ws (is @ js) = group_pieces ws is @ group_pieces ws js"
  by (simp_all add: group_pieces_def)

lemma group_pieces_later:
  assumes "0 < i" "j \<le> 8"
  shows "group_pieces (in6_words a) [i..<j] = concat (map (\<lambda>g. 58 # hexadecimal g) (map (in6_group a) [i..<j]))"
  unfolding group_pieces_def map_map comp_apply
  by (rule arg_cong [of _ _ concat], rule map_cong) (use assms in \<open>auto simp: in6_words_nth\<close>)

lemma group_pieces_after:
  assumes "0 < i" "i < 8"
  shows "group_pieces (in6_words a) [i..<8] = 58 # colon_join (map (in6_group a) [i..<8])"
  using group_pieces_later [OF assms(1), of 8 a] assms(2) by (simp add: upt_conv_Cons colon_join_def)

lemma group_pieces_first:
  assumes "j \<le> 8"
  shows "group_pieces (in6_words a) [0..<j] = colon_join (map (in6_group a) [0..<j])"
proof (cases j)
  case 0
  then show ?thesis by (simp add: group_pieces_simps colon_join_def)
next
  case (Suc k)
  then have "[0..<j] = 0 # [1..<j]" by (simp add: upt_conv_Cons)
  moreover have "group_pieces (in6_words a) (0 # is) = hexadecimal (in6_group a 0) @ group_pieces (in6_words a) is" for "is"
    by (simp add: group_pieces_def in6_words_nth)
  ultimately show ?thesis
    using group_pieces_later [of 1 j a] assms by (simp add: colon_join_def)
qed

lemma length_group_pieces:
  "(\<And>i. i \<in> set is \<Longrightarrow> i < 8) \<Longrightarrow> length (group_pieces (in6_words a) is) \<le> 5 * length is"
proof (induction "is")
  case Nil
  then show ?case by (simp add: group_pieces_def)
next
  case (Cons i "is")
  have "length (hexadecimal (unat (in6_words a ! i))) \<le> 4"
    using hexadecimal_group [OF in6_group_less, of a i] Cons.prems [of i] by (simp add: in6_words_nth hex_group_def)
  with Cons show ?case by (cases "i = 0") (simp_all add: group_pieces_def)
qed

lemma not_in_run: "best = \<lparr>base = int b, len = int l\<rparr> \<Longrightarrow> i < b \<or> b + l \<le> i \<Longrightarrow> \<not> in_run best i"
  by (auto simp: in_run_def)

lemma word_less: "i < 8 \<Longrightarrow> unat (in6_words a ! i) < 65536"
  by (simp add: in6_words_nth in6_group_less)

text \<open>What the loop leaves in \<open>tmp\<close>, before the colon of a run at the end.\<close>

lemma ntop6_loop_no_run:
  assumes "base best = - 1"
  shows "ntop6_loop junk src (in6_words a) best [0..<8] [] = Some (Inr (colon_join (map (in6_group a) [0..<8])))"
proof -
  have "ntop6_loop junk src (in6_words a) best ([0..<8] @ []) []
      = ntop6_loop junk src (in6_words a) best [] ([] @ group_pieces (in6_words a) [0..<8])"
    by (rule ntop6_plain) (use assms in \<open>auto simp: in_run_def ends_in_ipv4_def word_less\<close>)
  then show ?thesis by (simp add: group_pieces_first)
qed

lemma ntop6_loop_run:
  assumes best: "best = \<lparr>base = int b, len = int l\<rparr>" and l: "2 \<le> l" "b + l \<le> 8"
    and quad: "\<not> quad_tailed a (b, l)"
  shows "ntop6_loop junk src (in6_words a) best [0..<8] []
    = Some (Inr (colon_join (map (in6_group a) [0..<b]) @ [58] @ group_pieces (in6_words a) [b + l..<8]))"
proof -
  let ?ws = "in6_words a" and ?p = "group_pieces (in6_words a) [0..<b]"
  have upt: "[0..<8] = [0..<b] @ [b..<b + l] @ [b + l..<8] @ []"
    using upt_add_eq_append [of 0 "b + l" "8 - (b + l)"] upt_add_eq_append [of 0 b l] l by simp
  have p: "length ?p \<le> 5 * b" using length_group_pieces [of "[0..<b]" a] l by simp
  have no_quad: "\<not> in_run best i \<Longrightarrow> \<not> ends_in_ipv4 best ?ws i" for i
  proof
    assume i: "\<not> in_run best i" "ends_in_ipv4 best ?ws i"
    then have "b = 0" "l = 6 \<or> l = 5 \<and> ?ws ! 5 = 0xffff"
      using best by (auto simp: ends_in_ipv4_def in_run_def)
    moreover have "?ws ! 5 = 0xffff \<longleftrightarrow> in6_group a 5 = 0xffff"
      using in6_words_nth [of 5 a] by (simp add: word_unat_eq_iff)
    ultimately show False using quad by (simp add: quad_tailed_def)
  qed
  have "ntop6_loop junk src ?ws best [0..<8] [] = ntop6_loop junk src ?ws best ([b..<b + l] @ [b + l..<8] @ []) ([] @ ?p)"
    unfolding upt by (rule ntop6_plain) (use best l no_quad in \<open>auto simp: not_in_run word_less\<close>)
  also have "\<dots> = ntop6_loop junk src ?ws best ([b + l..<8] @ []) (?p @ [58])"
    using ntop6_run [OF best] l p by simp
  also have "\<dots> = ntop6_loop junk src ?ws best [] ((?p @ [58]) @ group_pieces ?ws [b + l..<8])"
    by (rule ntop6_plain) (use best l p no_quad in \<open>auto simp: not_in_run word_less\<close>)
  finally show ?thesis using l by (simp add: group_pieces_first)
qed

lemma ntop6_loop_quad:
  assumes best: "best = \<lparr>base = int 0, len = int l\<rparr>" and a: "length a = 16" and quad: "quad_tailed a (0, l)"
  shows "ntop6_loop junk a (in6_words a) best [0..<8] []
    = Some (Inr (58 # group_pieces (in6_words a) [l..<6] @ 58 # dotted_quad (drop 12 a)))"
proof -
  let ?ws = "in6_words a" and ?p = "group_pieces (in6_words a) [l..<6]"
  have l: "l = 5 \<and> in6_group a 5 = 0xffff \<or> l = 6" using quad by (auto simp: quad_tailed_def)
  have upt: "[0..<8] = [0..<0 + l] @ [l..<6] @ [6, 7]" using l by (auto simp: upt_rec)
  have p: "length ?p \<le> 5" using length_group_pieces [of "[l..<6]" a] l by auto
  have "?ws ! 5 = 0xffff \<longleftrightarrow> in6_group a 5 = 0xffff"
    using in6_words_nth [of 5 a] by (simp add: word_unat_eq_iff)
  then have six: "\<not> in_run best 6" "ends_in_ipv4 best ?ws 6"
    using best l by (auto simp: in_run_def ends_in_ipv4_def)
  have "ntop6_loop junk a ?ws best [0..<8] [] = ntop6_loop junk a ?ws best ([l..<6] @ [6, 7]) ([] @ [58])"
    unfolding upt by (rule ntop6_run [OF best]) (use l in auto)
  also have "\<dots> = ntop6_loop junk a ?ws best [6, 7] (([] @ [58]) @ ?p)"
    by (rule ntop6_plain) (use best l in \<open>auto simp: not_in_run word_less ends_in_ipv4_def\<close>)
  also have "\<dots> = Some (Inr ((([] @ [58]) @ ?p) @ 58 # dotted_quad (drop 12 a)))"
    using six p a by (intro ntop6_quad) simp_all
  finally show ?thesis by simp
qed

text \<open>The text denotes the address.\<close>

definition part :: "byte list \<Rightarrow> nat \<Rightarrow> nat \<Rightarrow> byte list" where
  "part a i j = drop (2 * i) (take (2 * j) a)"

lemma part_append:
  assumes "i \<le> j" "j \<le> k"
  shows "part a i j @ part a j k = part a i k"
proof -
  define b where "b = take (2 * k) a"
  have b: "take (2 * j) a = take (2 * j) b" using assms by (simp add: b_def min_def)
  have "drop (2 * i) b = drop (2 * i) (take (2 * j) b @ drop (2 * j) b)" by simp
  also have "\<dots> = drop (2 * i) (take (2 * j) b) @ drop (2 * i - length (take (2 * j) b)) (drop (2 * j) b)"
    by (simp only: drop_append)
  also have "drop (2 * i - length (take (2 * j) b)) (drop (2 * j) b) = drop (2 * j) b"
    using assms by (cases "2 * j \<le> length b") simp_all
  finally show ?thesis by (simp add: part_def b flip: b_def)
qed

lemma be_bytes_part:
  assumes "i \<le> j" "2 * j \<le> length a"
  shows "concat (map (be_bytes 2) (map (in6_group a) [i..<j])) = part a i j"
  using assms
proof (induction j)
  case 0
  then show ?case by (simp add: part_def)
next
  case (Suc j)
  show ?case
  proof (cases "i = Suc j")
    case True
    then show ?thesis by (simp add: part_def)
  next
    case False
    have "take (2 * Suc j) a = take (2 * j) a @ [a ! (2 * j), a ! (2 * j + 1)]"
      using Suc.prems by (simp add: take_Suc_conv_app_nth)
    then have "part a i (Suc j) = part a i j @ [a ! (2 * j), a ! (2 * j + 1)]"
      using False Suc.prems by (simp add: part_def)
    then show ?thesis
      using Suc False be_bytes_group [of j a] by (simp del: be_bytes.simps)
  qed
qed

definition hex_groups :: "byte list \<Rightarrow> nat \<Rightarrow> nat \<Rightarrow> byte list list" where
  "hex_groups a i j = map hexadecimal (map (in6_group a) [i..<j])"

lemma hex_groups_facts:
  "list_all hex_group (hex_groups a i j)"
  "i \<le> j \<Longrightarrow> 2 * j \<le> length a \<Longrightarrow> groups_bytes (hex_groups a i j) = part a i j"
proof -
  show "list_all hex_group (hex_groups a i j)"
    using hexadecimal_group [OF in6_group_less, of a] by (simp add: hex_groups_def list_all_iff)
  assume "i \<le> j" "2 * j \<le> length a"
  from be_bytes_part [OF this] show "groups_bytes (hex_groups a i j) = part a i j"
    using hexadecimal_group [OF in6_group_less, of a]
    by (simp add: hex_groups_def groups_bytes_def comp_def del: be_bytes.simps)
qed

lemma hex_groups_Nil [simp]: "hex_groups a i j = [] \<longleftrightarrow> j \<le> i"
  by (auto simp: hex_groups_def)

lemma colons_groups: "concat (map (\<lambda>g. 58 # hexadecimal g) hs) @ 58 # r = 58 # groups_text (map hexadecimal hs) @ r"
  by (induction hs) simp_all

lemma colon_join_snoc: "colon_join (gs @ [g]) = groups_text (map hexadecimal gs) @ hexadecimal g"
  by (cases gs) (simp_all add: colon_join_def colons_groups)

lemma colon_join_groups:
  "i \<le> j \<Longrightarrow> colon_join (map (in6_group a) [i..<Suc j]) = groups_text (hex_groups a i j) @ hexadecimal (in6_group a j)"
  by (simp add: colon_join_snoc hex_groups_def)

lemma zeros_part:
  assumes "zeros (map (in6_group a) [0..<8]) b l" "length a = 16"
  shows "part a b (b + l) = replicate (2 * l) 0"
proof -
  have z: "b + l \<le> 8" "\<And>i. b \<le> i \<Longrightarrow> i < b + l \<Longrightarrow> in6_group a i = 0"
    using assms(1) by (auto simp: zeros_def)
  have "map (in6_group a) [b..<b + l] = replicate l 0"
    by (rule replicate_eqI) (use z in auto)
  then have "part a b (b + l) = concat (replicate l (be_bytes 2 0))"
    using be_bytes_part [of b "b + l" a] z(1) assms(2) by (simp del: be_bytes.simps)
  also have "\<dots> = replicate (2 * l) 0"
    by (induction l) (simp_all add: numeral_2_eq_2)
  finally show ?thesis .
qed

lemma hexadecimal_tail: "ipv6_tail (hexadecimal (in6_group a i)) (be_bytes 2 (in6_group a i))"
  using group_tail [of "hexadecimal (in6_group a i)"] hexadecimal_group [OF in6_group_less, of a i] by simp

lemma last_part: "length a = 16 \<Longrightarrow> be_bytes 2 (in6_group a 7) = part a 7 8"
  using be_bytes_part [of 7 8 a] by (simp add: upt_rec del: be_bytes.simps)

lemma part_all: "length a = 16 \<Longrightarrow> part a 0 8 = a"
  by (simp add: part_def)

lemma length_part: "j \<le> 8 \<Longrightarrow> length a = 16 \<Longrightarrow> length (part a i j) = 2 * (j - i)"
  by (simp add: part_def)

lemma ipv6_text_denotes:
  assumes a: "length a = 16" and run: "abbreviates (map (in6_group a) [0..<8]) run"
  shows "ipv6_denotes (ipv6_text a run) a"
proof (cases run)
  case None
  have shown: "ipv6_text a run = groups_text (hex_groups a 0 7) @ hexadecimal (in6_group a 7)"
    using colon_join_groups [of 0 7 a] None by (simp add: ipv6_text_def)
  have bytes: "groups_bytes (hex_groups a 0 7) @ be_bytes 2 (in6_group a 7) = a"
    using a part_append [of 0 7 8 a] by (simp add: hex_groups_facts(2) last_part part_all del: be_bytes.simps)
  have "hexadecimal (in6_group a 7) \<noteq> []"
    using hexadecimal_value by blast
  from full [OF hex_groups_facts(1) hexadecimal_tail this, of a 0 7] show ?thesis
    unfolding shown bytes using a by simp
next
  case (Some bl)
  obtain b l where r: "run = Some (b, l)" using Some by (cases bl) simp
  with run have l: "2 \<le> l" "b + l \<le> 8" "zeros (map (in6_group a) [0..<8]) b l"
    by (auto simp: abbreviates_def zeros_def)
  let ?before = "hex_groups a 0 b"
  have take_b: "take b (map (in6_group a) [0..<8]) = map (in6_group a) [0..<b]"
    using l by (simp add: take_map)
  have before: "colon_join (map (in6_group a) [0..<b]) @ [58, 58] @ r
      = (if ?before = [] then [58] else []) @ groups_text ?before @ [58] @ r" for r
  proof (cases b)
    case 0
    then show ?thesis by (simp add: colon_join_def hex_groups_def)
  next
    case (Suc k)
    then show ?thesis using colon_join_groups [of 0 k a] by (simp add: hex_groups_def)
  qed
  have denotes: "ipv6_denotes (colon_join (map (in6_group a) [0..<b]) @ [58, 58] @ groups_text (hex_groups a (b + l) j) @ t) a"
    if t: "ipv6_tail t tb" "part a j 8 = tb" "t = [] \<Longrightarrow> j \<le> b + l" "b + l \<le> j" "j \<le> 8" for t tb j
  proof -
    have bytes: "groups_bytes ?before @ replicate (2 * l) 0 @ groups_bytes (hex_groups a (b + l) j) @ tb = a"
    proof -
      have "groups_bytes (hex_groups a (b + l) j) @ tb = part a (b + l) 8"
        using t(4,5) a part_append [of "b + l" j 8 a] by (simp add: hex_groups_facts(2) t(2) [symmetric])
      then show ?thesis
        using l a zeros_part [OF l(3) a] part_append [of b "b + l" 8 a] part_append [of 0 b 8 a]
        by (simp add: hex_groups_facts(2) part_all)
    qed
    have "length ?before = b" "length (hex_groups a (b + l) j) = j - (b + l)"
      by (simp_all add: hex_groups_def)
    then have sum: "length (groups_bytes ?before) + 2 * l + length (groups_bytes (hex_groups a (b + l) j) @ tb) = 16"
      using t a l length_part [of 8 a j] by auto
    show ?thesis
      unfolding before
      using short [OF hex_groups_facts(1) hex_groups_facts(1) t(1) _ sum] t(3) l(1) bytes by simp
  qed
  show ?thesis
  proof (cases "quad_tailed a (b, l)")
    case True
    then have b: "b = 0" "l \<le> 6" by (auto simp: quad_tailed_def)
    have "ipv6_tail (dotted_quad (drop 12 a)) (drop 12 a)" using a by (intro quad_tail) simp
    from denotes [OF this, of 6] show ?thesis
      using True b a r take_b by (simp add: ipv6_text_def hex_groups_def take_map drop_map part_def dotted_quad_def)
  next
    case False
    show ?thesis
    proof (cases "b + l = 8")
      case True
      from denotes [OF no_tail, of 8] show ?thesis
        using True False r take_b a by (simp add: ipv6_text_def hex_groups_def part_def colon_join_def)
    next
      case less: False
      have "colon_join (drop (b + l) (map (in6_group a) [0..<8])) = groups_text (hex_groups a (b + l) 7) @ hexadecimal (in6_group a 7)"
        using colon_join_groups [of "b + l" 7 a] less l by (simp add: drop_map)
      with denotes [OF hexadecimal_tail [of a 7], of 7] show ?thesis
        using False r take_b less l last_part [OF a] hexadecimal_value [of "in6_group a 7"] by (simp add: ipv6_text_def)
    qed
  qed
qed

lemma length_colon_join: "colon_join (map (in6_group a) [0..<j]) = group_pieces (in6_words a) [0..<j]
    \<Longrightarrow> j \<le> 8 \<Longrightarrow> length (colon_join (map (in6_group a) [0..<j])) \<le> 5 * j"
  using length_group_pieces [of "[0..<j]" a] by simp

text \<open>What \<open>tmp\<close> holds before the copy is the text, and it fits.\<close>

lemma ntop6_text:
  assumes a: "length a = 16" and run: "represents best run" "abbreviates (map (in6_group a) [0..<8]) run"
  shows "\<exists>tmp. ntop6_loop junk a (in6_words a) best [0..<8] [] = Some (Inr tmp)
    \<and> ipv6_text a run = tmp @ (if base best \<noteq> - 1 \<and> base best + len best = 8 then [58] else [])
    \<and> length (ipv6_text a run) \<le> 45"
proof (cases run)
  case None
  have "length (colon_join (map (in6_group a) [0..<8])) \<le> 5 * 8"
    by (rule length_colon_join) (simp_all add: group_pieces_first)
  with None run(1) ntop6_loop_no_run [of best junk a a] show ?thesis by (simp add: ipv6_text_def)
next
  case (Some bl)
  obtain b l where r: "run = Some (b, l)" using Some by (cases bl) simp
  with run have best: "best = \<lparr>base = int b, len = int l\<rparr>" and l: "2 \<le> l" "b + l \<le> 8"
    by (auto simp: abbreviates_def zeros_def)
  have b8: "int b + int l = 8 \<longleftrightarrow> b + l = 8" by linarith
  have first: "length (colon_join (map (in6_group a) [0..<b])) \<le> 5 * b"
    by (rule length_colon_join) (use l in \<open>simp_all add: group_pieces_first\<close>)
  show ?thesis
  proof (cases "quad_tailed a (b, l)")
    case True
    then have b: "b = 0" "l = 5 \<or> l = 6" by (auto simp: quad_tailed_def)
    let ?p = "group_pieces (in6_words a) [l..<6]"
    have p: "?p @ 58 # dotted_quad (drop 12 a) = 58 # groups_text (map hexadecimal (map (in6_group a) [l..<6])) @ dotted_quad (drop 12 a)"
      using b(2) by (subst group_pieces_later) (auto simp only: colons_groups)
    have "drop l (take 6 (map (in6_group a) [0..<8])) = map (in6_group a) [l..<6]"
      by (simp add: take_map drop_map)
    then have "ipv6_text a run = 58 # ?p @ 58 # dotted_quad (drop 12 a)"
      using True r b(1) p by (simp add: ipv6_text_def colon_join_def)
    moreover have "length ?p \<le> 5" using length_group_pieces [of "[l..<6]" a] b(2) by auto
    moreover have "ntop6_loop junk a (in6_words a) best [0..<8] [] = Some (Inr (58 # ?p @ 58 # dotted_quad (drop 12 a)))"
      by (rule ntop6_loop_quad) (use best b(1) a True in auto)
    ultimately show ?thesis using best b length_dotted_quad [of "drop 12 a"] by auto
  next
    case False
    have loop: "ntop6_loop junk a (in6_words a) best [0..<8] []
        = Some (Inr (colon_join (map (in6_group a) [0..<b]) @ [58] @ group_pieces (in6_words a) [b + l..<8]))"
      by (rule ntop6_loop_run) (use best l False in auto)
    have rest: "length (group_pieces (in6_words a) [b + l..<8]) \<le> 5 * (8 - (b + l))"
      using length_group_pieces [of "[b + l..<8]" a] by simp
    have "ipv6_text a run = (colon_join (map (in6_group a) [0..<b]) @ [58] @ group_pieces (in6_words a) [b + l..<8])
        @ (if b + l = 8 then [58] else [])"
    proof (cases "b + l = 8")
      case True
      then show ?thesis using False r l by (simp add: ipv6_text_def take_map group_pieces_simps colon_join_def)
    next
      case less: False
      then show ?thesis
        using False r l group_pieces_after [of "b + l" a] by (simp add: ipv6_text_def take_map drop_map)
    qed
    with loop first rest l best b8 show ?thesis by (auto simp: not_le)
  qed
qed

text \<open>What the caller's buffer holds, and the return value, for a text that the family prints.\<close>

definition printed :: "byte list \<Rightarrow> byte list \<Rightarrow> nat \<Rightarrow> int \<times> byte list" where
  "printed t dst sz =
     (if length t < sz then (0, t @ 0 # drop (Suc (length t)) dst)
      else if sz = 0 then (0, dst)
      else (UV_ENOSPC, take (sz - 1) t @ 0 # drop sz dst))"

lemma copy_printed:
  assumes "0 \<notin> set t" "length t \<le> 45" "sz \<le> length dst"
  shows "uv__strscpy dst (t @ [0]) sz \<bind> (\<lambda>(r, dst). Some (if r = UV_E2BIG then UV_ENOSPC else 0, dst)) = Some (printed t dst sz)"
proof (cases "length t < sz")
  case True
  then have "uv__strscpy dst (t @ 0 # []) sz = Some (int (length t), t @ 0 # drop (Suc (length t)) dst)"
    by (intro strscpy_fits) (use assms in \<open>simp_all add: SSIZE_MAX_def\<close>)
  with True show ?thesis by (simp add: printed_def UV_E2BIG_def)
next
  case False
  show ?thesis
  proof (cases "sz = 0")
    case True
    then show ?thesis by (simp add: printed_def uv__strscpy_def UV_E2BIG_def)
  next
    case pos: False
    with False have "uv__strscpy dst (t @ [0]) sz = Some (UV_E2BIG, take (sz - 1) t @ 0 # drop sz dst)"
      by (intro strscpy_cut) (use assms in simp_all)
    with False pos show ?thesis by (simp add: printed_def)
  qed
qed

lemma inet_ntop6_exact:
  assumes a: "length a = 16" and sz: "sz \<le> length dst"
  shows "\<exists>run. abbreviates (map (in6_group a) [0..<8]) run \<and> length (ipv6_text a run) \<le> 45
    \<and> inet_ntop6 junk a dst sz = Some (printed (ipv6_text a run) dst sz)"
proof -
  from best_run_abbreviates [OF length_in6_words, of a] obtain run where
    run: "represents (best_run (in6_words a)) run" "abbreviates (map (in6_group a) [0..<8]) run"
    unfolding in6_words_groups by blast
  from ntop6_text [OF a run, of junk] obtain tmp where
    tmp: "ntop6_loop junk a (in6_words a) (best_run (in6_words a)) [0..<8] [] = Some (Inr tmp)"
      "ipv6_text a run = tmp @ (if base (best_run (in6_words a)) \<noteq> - 1 \<and> base (best_run (in6_words a)) + len (best_run (in6_words a)) = 8 then [58] else [])"
      "length (ipv6_text a run) \<le> 45" by blast
  let ?closing = "base (best_run (in6_words a)) \<noteq> - 1 \<and> base (best_run (in6_words a)) + len (best_run (in6_words a)) = 8"
  have put: "(if ?closing then tmp_put 58 tmp else Some tmp) = Some (ipv6_text a run)"
    using tmp(2,3) by (auto simp: tmp_put_def UV__INET6_ADDRSTRLEN_def)
  have nul: "tmp_put 0 (ipv6_text a run) = Some (ipv6_text a run @ [0])"
    using tmp(3) by (simp add: tmp_put_def UV__INET6_ADDRSTRLEN_def)
  have "0 \<notin> set (ipv6_text a run)"
    using ipv6_denotes_facts [OF ipv6_text_denotes [OF a run(2)]] by simp
  from copy_printed [OF this tmp(3) sz] have "inet_ntop6 junk a dst sz = Some (printed (ipv6_text a run) dst sz)"
    using a by (simp add: inet_ntop6_def Let_def tmp(1) put nul)
  with run(2) tmp(3) show ?thesis by blast
qed

section \<open>The two families\<close>

text \<open>
  What a caller relies on: which texts denote an address, that the parser accepts exactly these, and which of
  them the printer produces.
\<close>

locale address_family =
  fixes addr_len text_max :: nat
    and denotes :: "byte list \<Rightarrow> byte list \<Rightarrow> bool"
    and shown :: "byte list \<Rightarrow> byte list \<Rightarrow> bool"
    and parse :: "byte list \<Rightarrow> (int + byte list) option"
  assumes parse_iff: "0 \<notin> set t \<Longrightarrow> parse (t @ 0 # rest) = Some (Inr a) \<longleftrightarrow> denotes t a"
    and parse_returns: "0 \<in> set s \<Longrightarrow> \<exists>r. parse s = Some r \<and> (\<forall>e. r = Inl e \<longrightarrow> e = UV_EINVAL)"
    and denotes_facts: "denotes t a \<Longrightarrow> 0 \<notin> set t \<and> length a = addr_len"
    and shown_denotes: "length a = addr_len \<Longrightarrow> shown a t \<Longrightarrow> denotes t a \<and> length t \<le> text_max"
begin

lemma parse_denoted: "denotes t a \<Longrightarrow> parse (t @ 0 # rest) = Some (Inr a)"
  using parse_iff denotes_facts by blast

lemma denotes_unique:
  assumes "denotes t a" "denotes t b"
  shows "a = b"
  using parse_denoted [OF assms(1), of "[]"] parse_denoted [OF assms(2), of "[]"] by simp

lemma parse_rejected:
  assumes "0 \<notin> set t" "\<And>a. \<not> denotes t a"
  shows "parse (t @ 0 # rest) = Some (Inl UV_EINVAL)"
proof -
  obtain r where r: "parse (t @ 0 # rest) = Some r" "\<forall>e. r = Inl e \<longrightarrow> e = UV_EINVAL"
    using parse_returns [of "t @ 0 # rest"] by auto
  with assms parse_iff [OF assms(1)] show ?thesis by (cases r) auto
qed

text \<open>The parser followed by the copy to the caller.\<close>

lemma parse_copied:
  assumes "0 \<notin> set t" "addr_len \<le> length dst"
  shows "(\<exists>a. denotes t a \<and> parse (t @ 0 # rest) \<bind> copy_result dst = Some (0, a @ drop addr_len dst))
    \<or> (\<forall>a. \<not> denotes t a) \<and> parse (t @ 0 # rest) \<bind> copy_result dst = Some (UV_EINVAL, dst)"
proof (cases "\<exists>a. denotes t a")
  case True
  then obtain a where a: "denotes t a" by blast
  with parse_denoted [OF a] denotes_facts [OF a] assms(2) show ?thesis by (auto simp: copy_result_def)
next
  case False
  with parse_rejected [OF assms(1)] show ?thesis by (auto simp: copy_result_def)
qed

lemma shown_inject: "length a = addr_len \<Longrightarrow> length b = addr_len \<Longrightarrow> shown a t \<Longrightarrow> shown b t \<Longrightarrow> a = b"
  using shown_denotes denotes_unique by blast

lemma parse_shown:
  assumes "length a = addr_len" "shown a t" "addr_len \<le> length dst"
  shows "parse (t @ 0 # rest) \<bind> copy_result dst = Some (0, a @ drop addr_len dst)"
  using shown_denotes [OF assms(1,2)] parse_denoted [of t a rest] assms by (simp add: copy_result_def)

end

definition ipv4_denotes :: "byte list \<Rightarrow> byte list \<Rightarrow> bool" where
  "ipv4_denotes t a \<longleftrightarrow> length a = 4 \<and> t = dotted_quad a"

definition ipv6_shown :: "byte list \<Rightarrow> byte list \<Rightarrow> bool" where
  "ipv6_shown a t \<longleftrightarrow> (\<exists>run. abbreviates (map (in6_group a) [0..<8]) run \<and> t = ipv6_text a run)"

interpretation ipv4: address_family 4 15 ipv4_denotes "\<lambda>a t. t = dotted_quad a" inet_pton4
proof
  show "inet_pton4 (t @ 0 # rest) = Some (Inr a) \<longleftrightarrow> ipv4_denotes t a" if "0 \<notin> set t" for t rest a
    using inet_pton4_iff [OF that] by (simp add: ipv4_denotes_def)
  show "\<exists>r. inet_pton4 s = Some r \<and> (\<forall>e. r = Inl e \<longrightarrow> e = UV_EINVAL)" if "0 \<in> set s" for s
    using pton4_returns [OF that, of False 0 "[]" 0] pton4_error by (fastforce simp: inet_pton4_def)
qed (auto simp: ipv4_denotes_def length_dotted_quad)

lemma ipv6_shown_facts:
  assumes "length a = 16" "ipv6_shown a t"
  shows "ipv6_denotes t a \<and> length t \<le> 45"
proof -
  from assms(2) obtain run where run: "abbreviates (map (in6_group a) [0..<8]) run" "t = ipv6_text a run"
    by (auto simp: ipv6_shown_def)
  moreover have "\<exists>r. represents r run" by (cases run) (auto simp: represents_def intro: exI [of _ "\<lparr>base = - 1, len = 0\<rparr>"])
  then obtain r where "represents r run" by blast
  from ntop6_text [OF assms(1) this run(1)] have "length t \<le> 45" by (auto simp: run(2))
  ultimately show ?thesis using ipv6_text_denotes [OF assms(1)] by simp
qed

interpretation ipv6: address_family 16 45 ipv6_denotes ipv6_shown inet_pton6
  by unfold_locales (simp_all add: inet_pton6_iff inet_pton6_returns ipv6_denotes_facts ipv6_shown_facts)

section \<open>Scopes\<close>

definition without_scope :: "byte list \<Rightarrow> byte list" where
  "without_scope t = takeWhile (\<lambda>c. c \<noteq> 37) t"

lemma strip_scope_position:
  assumes "0 \<notin> set t"
  shows "takeWhile (\<lambda>c. c \<noteq> 0 \<and> c \<noteq> 37) (t @ 0 # rest) = without_scope t"
proof -
  have "takeWhile (\<lambda>c. c \<noteq> 0 \<and> c \<noteq> 37) (t @ 0 # rest) = takeWhile (\<lambda>c. c \<noteq> 37) t"
    using assms by (induction t) auto
  then show ?thesis by (simp add: without_scope_def)
qed

lemma without_scope_split: "37 \<in> set t \<Longrightarrow> \<exists>r. t = without_scope t @ 37 # r"
  unfolding without_scope_def by (induction t) auto

lemma strip_scope_exact:
  assumes t: "0 \<notin> set t"
  shows "strip_scope (t @ 0 # rest) =
    (if 37 \<in> set t then
       (let len = sint (word_of_nat (length (without_scope t)) :: u32) in
        if len > 45 then Some (Inl UV_EINVAL) else if len < 0 then None
        else Some (Inr (take (nat len) (t @ 0 # rest) @ [0])))
     else Some (Inr (t @ 0 # rest)))"
proof (cases "37 \<in> set t")
  case True
  then obtain r where r: "t = without_scope t @ 37 # r" using without_scope_split by blast
  then have "(t @ 0 # rest) ! length (without_scope t) = 37" "length (without_scope t) < length t"
    by (metis append_Cons append_assoc nth_append_length, metis length_Cons length_append less_add_same_cancel1 zero_less_Suc)
  with True strip_scope_position [OF t, of rest] show ?thesis
    by (simp add: strip_scope_def Let_def UV__INET6_ADDRSTRLEN_def)
next
  case False
  then have "without_scope t = t" by (auto simp: without_scope_def)
  with False strip_scope_position [OF t, of rest] show ?thesis
    by (simp add: strip_scope_def Let_def nth_append)
qed

lemma strip_scope_short:
  assumes t: "0 \<notin> set t" "37 \<in> set t" and n: "length (without_scope t) < 2 ^ 31"
  shows "strip_scope (t @ 0 # rest) =
    Some (if length (without_scope t) > 45 then Inl UV_EINVAL else Inr (without_scope t @ [0]))"
proof -
  let ?n = "length (without_scope t)"
  have "unat (word_of_nat ?n :: u32) = ?n"
    using n by (simp add: unat_of_nat)
  then have len: "sint (word_of_nat ?n :: u32) = int ?n"
    using sint_small [of "word_of_nat ?n :: u32"] n by simp
  obtain r where "t = without_scope t @ 37 # r" using without_scope_split t(2) by blast
  then have "take ?n (t @ 0 # rest) = without_scope t" by (metis append_assoc append_eq_conv_conj)
  with t len show ?thesis by (simp add: strip_scope_exact Let_def)
qed

section \<open>The exported functions\<close>

definition accepted :: "int \<Rightarrow> byte list \<Rightarrow> byte list \<Rightarrow> bool" where
  "accepted af t a \<longleftrightarrow>
     (if af = AF_INET then length a = 4 \<and> t = dotted_quad a
      else ipv6_denotes (without_scope t) a \<and> (37 \<in> set t \<longrightarrow> length (without_scope t) \<le> 45))"

lemma accepted_length: "accepted af t a \<Longrightarrow> length a = (if af = AF_INET then 4 else 16)"
  by (auto simp: accepted_def ipv6_denotes_facts split: if_splits)

lemma inet_pton_ipv6:
  assumes t: "0 \<notin> set t" and dst: "16 \<le> length dst" and n: "length (without_scope t) < 2 ^ 31"
  shows "(\<exists>a. accepted AF_INET6 t a \<and> uv_inet_pton AF_INET6 (Some (t @ 0 # rest)) (Some dst) = Some (0, Some (a @ drop 16 dst)))
    \<or> (\<nexists>a. accepted AF_INET6 t a) \<and> uv_inet_pton AF_INET6 (Some (t @ 0 # rest)) (Some dst) = Some (UV_EINVAL, Some dst)"
proof (cases "37 \<in> set t \<and> length (without_scope t) > 45")
  case True
  with strip_scope_short [OF t _ n, of rest] show ?thesis
    by (simp add: uv_inet_pton_def accepted_def AF_INET_def AF_INET6_def copy_result_def)
next
  case False
  have nul: "0 \<notin> set (without_scope t)"
    using t set_takeWhileD by (fastforce simp: without_scope_def)
  have "37 \<notin> set t \<Longrightarrow> without_scope t = t" by (auto simp: without_scope_def)
  then obtain rest' where "strip_scope (t @ 0 # rest) = Some (Inr (without_scope t @ 0 # rest'))"
    using False strip_scope_short [OF t _ n, of rest] strip_scope_exact [OF t, of rest]
    by (cases "37 \<in> set t") auto
  then have "uv_inet_pton AF_INET6 (Some (t @ 0 # rest)) (Some dst)
      = map_option (\<lambda>(r, d). (r, Some d)) (inet_pton6 (without_scope t @ 0 # rest') \<bind> copy_result dst)"
    by (simp add: uv_inet_pton_def AF_INET_def AF_INET6_def)
  moreover have "accepted AF_INET6 t a \<longleftrightarrow> ipv6_denotes (without_scope t) a" for a
    using False by (auto simp: accepted_def AF_INET_def AF_INET6_def)
  ultimately show ?thesis
    using ipv6.parse_copied [OF nul dst, of rest'] by (elim disjE exE conjE) auto
qed

lemma inet_pton_ipv4:
  assumes t: "0 \<notin> set t" and dst: "4 \<le> length dst"
  shows "(\<exists>a. accepted AF_INET t a \<and> uv_inet_pton AF_INET (Some (t @ 0 # rest)) (Some dst) = Some (0, Some (a @ drop 4 dst)))
    \<or> (\<nexists>a. accepted AF_INET t a) \<and> uv_inet_pton AF_INET (Some (t @ 0 # rest)) (Some dst) = Some (UV_EINVAL, Some dst)"
proof -
  have "uv_inet_pton AF_INET (Some (t @ 0 # rest)) (Some dst)
      = map_option (\<lambda>(r, d). (r, Some d)) (inet_pton4 (t @ 0 # rest) \<bind> copy_result dst)"
    by (simp add: uv_inet_pton_def)
  moreover have "accepted AF_INET t a \<longleftrightarrow> ipv4_denotes t a" for a
    by (simp add: accepted_def ipv4_denotes_def)
  ultimately show ?thesis
    using ipv4.parse_copied [OF assms, of rest] by (elim disjE exE conjE) auto
qed

text \<open>
  C34. \<open>uv_inet_pton\<close> accepts exactly the notation of the two families and stores the address that the text
  denotes: for IPv4 four decimal octets without leading zeros, for IPv6 the grammar of RFC 4291, before a scope
  that begins with \<open>%\<close> if there is one.  Any other text is refused with \<open>UV_EINVAL\<close> and the buffer left as it
  was; no text makes it read past the end of the string or write outside the address.
\<close>

theorem inet_pton_exact:
  assumes "0 \<notin> set t" "length t < 2 ^ 31" "af = AF_INET \<or> af = AF_INET6" "16 \<le> length dst"
  shows "(\<exists>a. accepted af t a \<and>
        uv_inet_pton af (Some (t @ 0 # rest)) (Some dst) = Some (0, Some (a @ drop (length a) dst)))
    \<or> (\<nexists>a. accepted af t a) \<and> uv_inet_pton af (Some (t @ 0 # rest)) (Some dst) = Some (UV_EINVAL, Some dst)"
proof -
  have "length (without_scope t) < 2 ^ 31"
    using assms(2) length_takeWhile_le [of "\<lambda>c. c \<noteq> 37" t] by (simp add: without_scope_def)
  with assms show ?thesis
    using inet_pton_ipv4 [OF assms(1), of dst rest] inet_pton_ipv6 [OF assms(1,4), of rest] accepted_length
    by (auto simp: AF_INET_def AF_INET6_def)
qed

text \<open>The text ::ffff:1.2.3.4%e, and 1.2.3.04.\<close>

theorem inet_pton_exact_witness:
  "uv_inet_pton AF_INET6 (Some [58, 58, 102, 102, 102, 102, 58, 49, 46, 50, 46, 51, 46, 52, 37, 101, 0]) (Some (replicate 16 7))
      = Some (0, Some [0, 0, 0, 0, 0, 0, 0, 0, 0, 0, 0xff, 0xff, 1, 2, 3, 4])
    \<and> (\<exists>a. accepted AF_INET6 [58, 58, 102, 102, 102, 102, 58, 49, 46, 50, 46, 51, 46, 52, 37, 101] a \<and>
        a = [0, 0, 0, 0, 0, 0, 0, 0, 0, 0, 0xff, 0xff, 1, 2, 3, 4])
    \<and> (\<nexists>a. accepted AF_INET [49, 46, 50, 46, 51, 46, 48, 52] a)"
proof -
  let ?t = "[58, 58, 102, 102, 102, 102, 58, 49, 46, 50, 46, 51, 46, 52, 37, 101] :: byte list"
  let ?u = "[49, 46, 50, 46, 51, 46, 48, 52] :: byte list"
  have 1: "uv_inet_pton AF_INET6 (Some (?t @ 0 # [])) (Some (replicate 16 7))
      = Some (0, Some [0, 0, 0, 0, 0, 0, 0, 0, 0, 0, 0xff, 0xff, 1, 2, 3, 4])" by code_simp
  have 2: "uv_inet_pton AF_INET (Some (?u @ 0 # [])) (Some (replicate 16 7)) = Some (UV_EINVAL, Some (replicate 16 7))"
    by code_simp
  have "(\<exists>a. accepted AF_INET6 ?t a \<and> uv_inet_pton AF_INET6 (Some (?t @ 0 # [])) (Some (replicate 16 7)) = Some (0, Some (a @ drop (length a) (replicate 16 7))))
      \<or> (\<nexists>a. accepted AF_INET6 ?t a) \<and> uv_inet_pton AF_INET6 (Some (?t @ 0 # [])) (Some (replicate 16 7)) = Some (UV_EINVAL, Some (replicate 16 7))"
    by (rule inet_pton_exact) simp_all
  then have a: "\<exists>a. accepted AF_INET6 ?t a \<and> a = [0, 0, 0, 0, 0, 0, 0, 0, 0, 0, 0xff, 0xff, 1, 2, 3, 4]"
    unfolding 1 using accepted_length [of AF_INET6 ?t] by (auto simp: UV_EINVAL_def AF_INET_def AF_INET6_def)
  have "(\<exists>a. accepted AF_INET ?u a \<and> uv_inet_pton AF_INET (Some (?u @ 0 # [])) (Some (replicate 16 7)) = Some (0, Some (a @ drop (length a) (replicate 16 7))))
      \<or> (\<nexists>a. accepted AF_INET ?u a) \<and> uv_inet_pton AF_INET (Some (?u @ 0 # [])) (Some (replicate 16 7)) = Some (UV_EINVAL, Some (replicate 16 7))"
    by (rule inet_pton_exact) simp_all
  then have "\<nexists>a. accepted AF_INET ?u a" unfolding 2 by (auto simp: UV_EINVAL_def)
  with 1 a show ?thesis by simp
qed

text \<open>
  C35. \<open>uv_inet_ntop\<close> prints an IPv4 address as its four octets and an IPv6 address as eight groups, of which the
  first longest run of at least two zeros is abbreviated and the last two are printed as a dotted quad after six zeros
  or \<open>::ffff\<close>.  The text has at most 45 characters, so the array on the stack is never overrun whatever the
  address; a text that does not fit the caller's buffer gives \<open>UV_ENOSPC\<close>, with the buffer untouched for
  IPv4 and the terminated beginning of the text in it for IPv6.
\<close>

theorem inet_ntop_exact:
  assumes "sz \<le> length dst"
  shows "(length a = 4 \<longrightarrow> length (dotted_quad a) \<le> 15 \<and>
      uv_inet_ntop junk AF_INET a dst sz =
        Some (if length (dotted_quad a) < sz then (0, dotted_quad a @ 0 # drop (Suc (length (dotted_quad a))) dst)
              else (UV_ENOSPC, dst)))
    \<and> (length a = 16 \<longrightarrow> (\<exists>run. abbreviates (map (in6_group a) [0..<8]) run \<and> length (ipv6_text a run) \<le> 45 \<and>
      uv_inet_ntop junk AF_INET6 a dst sz = Some (printed (ipv6_text a run) dst sz)))"
  using inet_ntop4_exact [of a sz dst] inet_ntop6_exact [of a sz dst junk] length_dotted_quad assms
  by (simp add: uv_inet_ntop_def AF_INET_def AF_INET6_def)

text \<open>2001:db8::1 in a buffer of 8 bytes.\<close>

theorem inet_ntop_exact_witness:
  "(\<exists>run. abbreviates (map (in6_group (0x20 # 1 # 0xd # 0xb8 # replicate 11 0 @ [1])) [0..<8]) run \<and>
      printed (ipv6_text (0x20 # 1 # 0xd # 0xb8 # replicate 11 0 @ [1]) run) (replicate 8 9) 8
        = (UV_ENOSPC, [50, 48, 48, 49, 58, 100, 98, 0]))"
proof -
  let ?a = "0x20 # 1 # 0xd # 0xb8 # replicate 11 0 @ [1] :: byte list"
  have "\<exists>run. abbreviates (map (in6_group ?a) [0..<8]) run \<and> length (ipv6_text ?a run) \<le> 45 \<and>
      uv_inet_ntop (\<lambda>_. 0) AF_INET6 ?a (replicate 8 9) 8 = Some (printed (ipv6_text ?a run) (replicate 8 9) 8)"
    using inet_ntop_exact [of 8 "replicate 8 9" ?a "\<lambda>_. 0"] by simp
  moreover have "uv_inet_ntop (\<lambda>_. 0) AF_INET6 ?a (replicate 8 9) 8 = Some (UV_ENOSPC, [50, 48, 48, 49, 58, 100, 98, 0])"
    by code_simp
  ultimately show ?thesis by auto
qed

lemma ipv6_tail_no_scope: "ipv6_tail t tb \<Longrightarrow> 37 \<notin> set t"
proof (induction rule: ipv6_tail.induct)
  case (group_tail g)
  have "xdigit 37 = None" by (simp add: xdigit_def xdigits_l_def xdigits_u_def digits_l_def)
  with group_tail show ?case by (auto simp: hex_group_def hex_digits_def)
next
  case (quad_tail q)
  have "37 \<notin> set (decimal n)" for n
  proof (induction n rule: less_induct)
    case (less n)
    have "digit_char d \<noteq> 37" if "d < 10" for d
    proof -
      have "unat (digit_char d) = 48 + d" using that by (simp only: digit_char_def unat_digit)
      then show ?thesis by auto
    qed
    then show ?case using less by (cases "n < 10") (auto simp: decimal_digit decimal_split)
  qed
  then show ?case by (simp add: dotted_quad_def)
qed simp

lemma ipv6_denotes_no_scope:
  assumes "ipv6_denotes t a"
  shows "37 \<notin> set t"
proof -
  have "xdigit 37 = None" by (simp add: xdigit_def xdigits_l_def xdigits_u_def digits_l_def)
  then have "list_all hex_group gs \<Longrightarrow> 37 \<notin> set (groups_text gs)" for gs
    by (induction gs) (auto simp: hex_group_def hex_digits_def)
  with assms show ?thesis by cases (auto simp: ipv6_tail_no_scope)
qed

lemma without_scope_id: "37 \<notin> set t \<Longrightarrow> without_scope t = t"
  by (auto simp: without_scope_def)

text \<open>
  C36. What \<open>uv_inet_ntop\<close> prints of an address into a buffer of \<open>INET6_ADDRSTRLEN\<close> bytes,
  \<open>uv_inet_pton\<close> reads back as the same address, for every address of both families.
\<close>

theorem inet_round_trip:
  assumes "af = AF_INET \<and> length a = 4 \<or> af = AF_INET6 \<and> length a = 16"
    and "46 \<le> sz" "sz \<le> length buf" "16 \<le> length dst"
  shows "\<exists>s. uv_inet_ntop junk af a buf sz = Some (0, s)
    \<and> uv_inet_pton af (Some s) (Some dst) = Some (0, Some (a @ drop (length a) dst))"
proof (cases "af = AF_INET")
  case True
  with assms have a: "length a = 4" "length (dotted_quad a) < sz"
    using length_dotted_quad [of a] by (auto simp: AF_INET_def AF_INET6_def)
  with True assms show ?thesis
    using inet_ntop4_exact [of a sz buf] ipv4.parse_shown [of a _ dst]
    by (simp add: uv_inet_ntop_def uv_inet_pton_def)
next
  case False
  with assms have a: "af = AF_INET6" "length a = 16" by auto
  from inet_ntop6_exact [OF a(2) assms(3), of junk] obtain run where
    run: "abbreviates (map (in6_group a) [0..<8]) run" "length (ipv6_text a run) \<le> 45"
      "inet_ntop6 junk a buf sz = Some (printed (ipv6_text a run) buf sz)" by blast
  let ?t = "ipv6_text a run" and ?rest = "drop (Suc (length (ipv6_text a run))) buf"
  have t: "ipv6_denotes ?t a" using a(2) run(1) by (rule ipv6_text_denotes)
  then have "0 \<notin> set ?t" "37 \<notin> set ?t" using ipv6_denotes_facts ipv6_denotes_no_scope by blast+
  then have "strip_scope (?t @ 0 # ?rest) = Some (Inr (?t @ 0 # ?rest))" by (simp add: strip_scope_exact)
  moreover have "ipv6_shown a ?t" using run(1) by (auto simp: ipv6_shown_def)
  from ipv6.parse_shown [OF a(2) this assms(4), of ?rest]
  have "inet_pton6 (?t @ 0 # ?rest) \<bind> copy_result dst = Some (0, a @ drop 16 dst)" .
  ultimately have "uv_inet_pton AF_INET6 (Some (?t @ 0 # ?rest)) (Some dst) = Some (0, Some (a @ drop 16 dst))"
    by (simp add: uv_inet_pton_def AF_INET_def AF_INET6_def)
  moreover have "uv_inet_ntop junk AF_INET6 a buf sz = Some (0, ?t @ 0 # ?rest)"
    using run(2,3) assms(2) by (simp add: uv_inet_ntop_def AF_INET_def AF_INET6_def printed_def)
  ultimately show ?thesis using a by auto
qed

theorem inet_round_trip_witness:
  "\<exists>s. uv_inet_ntop (\<lambda>_. 0) AF_INET6 (0xfe # 0x80 # replicate 12 0 @ [0xab, 1]) (replicate 46 0) 46 = Some (0, s)
    \<and> take 11 s = [102, 101, 56, 48, 58, 58, 97, 98, 48, 49, 0]
    \<and> uv_inet_pton AF_INET6 (Some s) (Some (replicate 16 0)) = Some (0, Some (0xfe # 0x80 # replicate 12 0 @ [0xab, 1]))"
proof -
  let ?a = "0xfe # 0x80 # replicate 12 0 @ [0xab, 1] :: byte list"
  have "\<exists>s. uv_inet_ntop (\<lambda>_. 0) AF_INET6 ?a (replicate 46 0) 46 = Some (0, s)
      \<and> uv_inet_pton AF_INET6 (Some s) (Some (replicate 16 0)) = Some (0, Some (?a @ drop (length ?a) (replicate 16 0)))"
    by (rule inet_round_trip) simp_all
  moreover have "uv_inet_ntop (\<lambda>_. 0) AF_INET6 ?a (replicate 46 0) 46
      = Some (0, [102, 101, 56, 48, 58, 58, 97, 98, 48, 49] @ replicate 36 0)" by code_simp
  ultimately show ?thesis by simp
qed

text \<open>
  With a buffer of size 0 \<open>uv_inet_ntop\<close> reports success for every IPv6 address and writes nothing, not
  even a terminator: \<open>uv__strscpy\<close> returns 0 for \<open>n = 0\<close>, and \<open>inet_ntop6\<close> only looks for \<open>UV_E2BIG\<close>.  For
  IPv4 the same call is \<open>UV_ENOSPC\<close>.
\<close>

theorem ntop6_zero_size:
  "\<forall>a. (length a = 16 \<longrightarrow> uv_inet_ntop junk AF_INET6 a dst 0 = Some (0, dst))
    \<and> (length a = 4 \<longrightarrow> uv_inet_ntop junk AF_INET a dst 0 = Some (UV_ENOSPC, dst))"
  using inet_ntop6_exact [of _ 0 dst junk] inet_ntop4_exact [of _ 0 dst]
  by (fastforce simp: uv_inet_ntop_def AF_INET_def AF_INET6_def printed_def)

theorem ntop6_zero_size_witness:
  "uv_inet_ntop (\<lambda>_. 0) AF_INET6 (replicate 16 0) [7] 0 = Some (0, [7])
    \<and> uv_inet_ntop (\<lambda>_. 0) AF_INET (replicate 4 0) [7] 0 = Some (UV_ENOSPC, [7])"
  using ntop6_zero_size [of "\<lambda>_. 0" "[7]"] by simp

text \<open>
  The length before \<open>%\<close> is kept in an \<open>int\<close>: for a text of \<open>2 ^ 32\<close> and more bytes only its beginning is parsed, so
  that a text that is no address is accepted.
\<close>

lemma scope_length_truncated:
  assumes t: "ipv6_denotes t a" "length t \<le> 45" and u: "length u = 2 ^ 32" "0 \<notin> set u" "37 \<notin> set u" and dst: "16 \<le> length dst"
  shows "uv_inet_pton AF_INET6 (Some (t @ u @ 37 # s @ [0])) (Some dst) = Some (0, Some (a @ drop 16 dst))"
proof -
  have nul: "0 \<notin> set t" "37 \<notin> set t" using ipv6_denotes_facts [OF t(1)] ipv6_denotes_no_scope [OF t(1)] by auto
  have "takeWhile (\<lambda>c. c \<noteq> 0 \<and> c \<noteq> 37) ((t @ u) @ 37 # s @ [0])
      = (t @ u) @ takeWhile (\<lambda>c. c \<noteq> 0 \<and> c \<noteq> 37) (37 # s @ [0])"
    by (rule takeWhile_append2) (use nul u in auto)
  then have "takeWhile (\<lambda>c. c \<noteq> 0 \<and> c \<noteq> 37) (t @ u @ 37 # s @ [0]) = t @ u" by simp
  moreover have "(t @ u @ 37 # s @ [0]) ! (length t + length u) = 37" by (simp add: nth_append)
  moreover have "sint (word_of_nat (length t + length u) :: u32) = int (length t)"
  proof -
    have "(word_of_nat (length t + length u) :: u32) = word_of_nat (length t)"
      by (simp add: u(1))
    moreover have "unat (word_of_nat (length t) :: u32) = length t" using t(2) by (simp add: unat_of_nat)
    ultimately show ?thesis using sint_small [of "word_of_nat (length t) :: u32"] t(2) by simp
  qed
  ultimately have "strip_scope (t @ u @ 37 # s @ [0]) = Some (Inr (t @ [0]))"
    using t(2) by (simp add: strip_scope_def Let_def UV__INET6_ADDRSTRLEN_def)
  then show ?thesis
    using ipv6.parse_denoted [OF t(1), of "[]"] dst ipv6_denotes_facts [OF t(1)]
    by (simp add: uv_inet_pton_def AF_INET_def AF_INET6_def copy_result_def)
qed

end
