(* ===== verification/Pb_Stream.thy ===== *)
theory Pb_Stream
  imports Ossl_Mem "HOL-Library.Monad_Syntax"
begin

text \<open>
  The streams of nanopb and its wire format: \<^verbatim>\<open>nanopb/pb_decode.c\<close> and \<^verbatim>\<open>nanopb/pb_encode.c\<close> up to the
  decoders and encoders of single fields, with the library built as the app builds it
  (\<open>PB_ENABLE_MALLOC\<close>, \<open>PB_FIELD_32BIT\<close>, 64-bit integers).

  A stream reads from a buffer (\<open>buf_read\<close>) or through a callback of the client; a callback is a function
  of its state, of \<open>bytes_left\<close>, which it may change, and of the number of bytes asked for.  An operation
  returns \<open>None\<close> when it would touch memory outside a buffer or does not return; \<open>Some (r, s)\<close> is the
  stream \<open>s\<close> as the call left it, with \<open>r = None\<close> for the return value \<open>false\<close>.  An output stream writes
  to a buffer, of which \<open>Buf_write\<close> keeps the bytes written and the number that still fit, through a
  callback, or nowhere (no callback: a stream that only counts).  \<open>uint_fast8_t\<close> has 8 bits on the targets.
\<close>

section \<open>Streams\<close>

datatype 's pb_source =
    Buf_read "byte list"
  | Read_callback "'s \<Rightarrow> u64 \<Rightarrow> u64 \<Rightarrow> byte list option \<times> 's \<times> u64" 's

record 's pb_istream =
  source :: "'s pb_source"
  bytes_left :: u64
  ierrmsg :: "string option"

datatype 's pb_sink =
    Buf_write "byte list" nat
  | Write_callback "'s \<Rightarrow> byte list \<Rightarrow> bool \<times> 's" 's

record 's pb_ostream =
  sink :: "'s pb_sink option"
  max_size :: u64
  bytes_written :: u64
  oerrmsg :: "string option"

type_synonym ('a, 's) pb_result = "('a option \<times> 's) option"

text \<open>A call whose result \<open>false\<close> the caller returns at once: \<open>if (!m) return false;\<close>.\<close>

definition pb_then :: "('a, 's) pb_result \<Rightarrow> ('a \<Rightarrow> 's \<Rightarrow> ('b, 's) pb_result) \<Rightarrow> ('b, 's) pb_result" where
  "pb_then m k =
     (case m of None \<Rightarrow> None | Some (None, s) \<Rightarrow> Some (None, s) | Some (Some x, s) \<Rightarrow> k x s)"

lemma pb_then_simps [simp]:
  "pb_then None k = None"
  "pb_then (Some (None, s)) k = Some (None, s)"
  "pb_then (Some (Some x, s)) k = k x s"
  by (simp_all add: pb_then_def)

lemma pb_then_mono [partial_function_mono]:
  fixes B :: "('f \<Rightarrow> 'g option) \<Rightarrow> ('a, 's) pb_result"
    and C :: "'a \<Rightarrow> 's \<Rightarrow> ('f \<Rightarrow> 'g option) \<Rightarrow> ('b, 's) pb_result"
  assumes "mono_option B" "\<And>x s. mono_option (\<lambda>f. C x s f)"
  shows "mono_option (\<lambda>f. pb_then (B f) (\<lambda>x s. C x s f))"
proof (rule monotoneI)
  fix f g :: "'f \<Rightarrow> 'g option"
  assume fg: "option.le_fun f g"
  note B = assms(1) [unfolded monotone_on_def, rule_format, OF UNIV_I UNIV_I fg]
  note C = assms(2) [unfolded monotone_on_def, rule_format, OF UNIV_I UNIV_I fg]
  show "option_ord (pb_then (B f) (\<lambda>x s. C x s f)) (pb_then (B g) (\<lambda>x s. C x s g))"
    using B C by (cases "B f") (auto simp: flat_ord_def pb_then_def split: option.splits)
qed

abbreviation pb_ok :: "'s \<Rightarrow> (unit, 's) pb_result" where
  "pb_ok s \<equiv> Some (Some (), s)"

definition pb_ireturn_error :: "'s pb_istream \<Rightarrow> string \<Rightarrow> ('a, 's pb_istream) pb_result" where
  "pb_ireturn_error s msg =
     Some (None, s\<lparr>ierrmsg := (case ierrmsg s of None \<Rightarrow> Some msg | Some m \<Rightarrow> Some m)\<rparr>)"

definition pb_oreturn_error :: "'s pb_ostream \<Rightarrow> string \<Rightarrow> ('a, 's pb_ostream) pb_result" where
  "pb_oreturn_error s msg =
     Some (None, s\<lparr>oerrmsg := (case oerrmsg s of None \<Rightarrow> Some msg | Some m \<Rightarrow> Some m)\<rparr>)"

subsection \<open>Reading\<close>

definition buf_read :: "byte list \<Rightarrow> u64 \<Rightarrow> 's pb_istream \<Rightarrow> (byte list, 's pb_istream) pb_result" where
  "buf_read src count s =
     (if unat count \<le> length src
      then Some (Some (take (unat count) src), s\<lparr>source := Buf_read (drop (unat count) src)\<rparr>)
      else None)"

text \<open>\<open>stream->callback(stream, buf, count)\<close>.\<close>

definition call_source :: "u64 \<Rightarrow> 's pb_istream \<Rightarrow> (byte list, 's pb_istream) pb_result" where
  "call_source count s =
     (case source s of
        Buf_read src \<Rightarrow> buf_read src count s
      | Read_callback f st \<Rightarrow>
          (let (r, st', left) = f st (bytes_left s) count
           in Some (r, s\<lparr>source := Read_callback f st', bytes_left := left\<rparr>)))"

definition reads_buffer :: "'s pb_istream \<Rightarrow> bool" where
  "reads_buffer s = (case source s of Buf_read _ \<Rightarrow> True | Read_callback _ _ \<Rightarrow> False)"

definition call_or_io_error :: "u64 \<Rightarrow> 's pb_istream \<Rightarrow> (byte list, 's pb_istream) pb_result" where
  "call_or_io_error count s =
     (case call_source count s of
        Some (None, s) \<Rightarrow> pb_ireturn_error s ''io error''
      | r \<Rightarrow> r)"

text \<open>\<open>pb_read\<close>; \<open>skip\<close> holds for a \<open>buf\<close> of \<open>NULL\<close>.  The result is the bytes stored at \<open>buf\<close>, and has no
  meaning when there is no \<open>buf\<close>.\<close>

function pb_read :: "bool \<Rightarrow> u64 \<Rightarrow> 's pb_istream \<Rightarrow> (byte list, 's pb_istream) pb_result" where
  "pb_read skip count s =
     (if count = 0 then Some (Some [], s)
      else if skip \<and> \<not> reads_buffer s then
        (if count > 16 then pb_then (pb_read False 16 s) (\<lambda>_ s. pb_read True (count - 16) s)
         else pb_read False count s)
      else if bytes_left s < count then pb_ireturn_error s ''end-of-stream''
      else pb_then (call_or_io_error count s) (\<lambda>bytes s.
        Some (Some bytes, s\<lparr>bytes_left := bytes_left s - count\<rparr>)))"
  by pat_completeness auto
termination
proof (relation "measure (\<lambda>(skip, count, s). (if skip then 1 else 0) + unat count)", goal_cases)
  case (2 skip count s)
  then have "16 < unat count" by (simp add: word_less_nat_alt)
  with 2 show ?case by simp
next
  case (3 skip count s x xa)
  then have "16 < unat count" by (simp add: word_less_nat_alt)
  then have "unat (count - 16) = unat count - 16" by (subst unat_sub) (simp_all add: word_le_nat_alt)
  with 3 \<open>16 < unat count\<close> show ?case by simp
qed simp_all

declare pb_read.simps [simp del]

definition pb_readbyte :: "'s pb_istream \<Rightarrow> (byte, 's pb_istream) pb_result" where
  "pb_readbyte s =
     (if bytes_left s = 0 then pb_ireturn_error s ''end-of-stream''
      else pb_then (call_or_io_error 1 s) (\<lambda>bytes s.
        case bytes of [b] \<Rightarrow> Some (Some b, s\<lparr>bytes_left := bytes_left s - 1\<rparr>) | _ \<Rightarrow> None))"

definition pb_istream_from_buffer :: "byte list \<Rightarrow> u64 \<Rightarrow> 's pb_istream" where
  "pb_istream_from_buffer buf bufsize = \<lparr>source = Buf_read buf, bytes_left = bufsize, ierrmsg = None\<rparr>"

subsection \<open>Writing\<close>

definition buf_write :: "byte list \<Rightarrow> nat \<Rightarrow> byte list \<Rightarrow> 's pb_ostream \<Rightarrow> (unit, 's pb_ostream) pb_result" where
  "buf_write written fit buf s =
     (if length buf \<le> fit
      then pb_ok (s\<lparr>sink := Some (Buf_write (written @ buf) (fit - length buf))\<rparr>)
      else None)"

definition pb_ostream_from_buffer :: "nat \<Rightarrow> u64 \<Rightarrow> 's pb_ostream" where
  "pb_ostream_from_buffer mem bufsize =
     \<lparr>sink = Some (Buf_write [] mem), max_size = bufsize, bytes_written = 0, oerrmsg = None\<rparr>"

definition PB_OSTREAM_SIZING :: "'s pb_ostream" where
  "PB_OSTREAM_SIZING = \<lparr>sink = None, max_size = 0, bytes_written = 0, oerrmsg = None\<rparr>"

definition call_sink :: "byte list \<Rightarrow> 's pb_ostream \<Rightarrow> (unit, 's pb_ostream) pb_result" where
  "call_sink buf s =
     (case sink s of
        None \<Rightarrow> None
      | Some (Buf_write written fit) \<Rightarrow> buf_write written fit buf s
      | Some (Write_callback f st) \<Rightarrow>
          (let (r, st') = f st buf; s = s\<lparr>sink := Some (Write_callback f st')\<rparr>
           in if r then pb_ok s else pb_oreturn_error s ''io error''))"

text \<open>\<open>buf\<close> is the memory at the pointer (none for \<open>NULL\<close>); a stream that only counts does not read it.\<close>

definition pb_write :: "byte list \<Rightarrow> u64 \<Rightarrow> 's pb_ostream \<Rightarrow> (unit, 's pb_ostream) pb_result" where
  "pb_write buf count s =
     pb_then
       (if count > 0 \<and> sink s \<noteq> None then
          (if bytes_written s + count < bytes_written s \<or> bytes_written s + count > max_size s
           then pb_oreturn_error s ''stream full''
           else if unat count \<le> length buf then call_sink (take (unat count) buf) s
           else None)
        else pb_ok s)
       (\<lambda>_ s. pb_ok (s\<lparr>bytes_written := bytes_written s + count\<rparr>))"

section \<open>The wire format: reading\<close>

text \<open>The \<open>do\<close> loop of \<open>pb_decode_varint32_eof\<close>, with the last byte and its \<open>bitpos + 7\<close>.\<close>

partial_function (option) varint32_loop ::
  "u32 \<Rightarrow> byte \<Rightarrow> 's pb_istream \<Rightarrow> (u32 \<times> byte \<times> byte, 's pb_istream) pb_result" where
  "varint32_loop result bitpos s =
     pb_then (pb_readbyte s) (\<lambda>byte s.
       let sign_extension = (if bitpos < 63 then 0xFF else 0x01);
           overflow = (bitpos \<ge> 32 \<and> byte AND 0x7F \<noteq> 0 \<and>
                       (drop_bit 31 result = 0 \<or> byte \<noteq> sign_extension));
           result = (if bitpos \<ge> 32 then result
                     else result OR push_bit (unat bitpos) (ucast (byte AND 0x7F)));
           bitpos = bitpos + 7
       in if overflow then pb_ireturn_error s ''varint overflow''
          else if byte AND 0x80 \<noteq> 0 then varint32_loop result bitpos s
          else Some (Some (result, bitpos, byte), s))"

text \<open>The flag beside the result is \<open>*eof\<close> after the call, where it was \<open>eof\<close> before.\<close>

definition pb_decode_varint32_eof ::
  "bool \<Rightarrow> 's pb_istream \<Rightarrow> ((u32 option \<times> bool) \<times> 's pb_istream) option" where
  "pb_decode_varint32_eof eof s =
     (case pb_readbyte s of
        None \<Rightarrow> None
      | Some (None, s) \<Rightarrow> Some ((None, eof \<or> bytes_left s = 0), s)
      | Some (Some byte, s) \<Rightarrow>
          map_option (\<lambda>(r, s). ((r, eof), s))
            (if byte AND 0x80 = 0 then Some (Some (ucast byte), s)
             else pb_then (varint32_loop (ucast (byte AND 0x7F)) 7 s) (\<lambda>(result, bitpos, byte) s.
               if bitpos = 35 \<and> byte AND 0x70 \<noteq> 0 then pb_ireturn_error s ''varint overflow''
               else Some (Some result, s))))"

definition pb_decode_varint32 :: "'s pb_istream \<Rightarrow> (u32, 's pb_istream) pb_result" where
  "pb_decode_varint32 s = map_option (\<lambda>((r, _), s). (r, s)) (pb_decode_varint32_eof False s)"

partial_function (option) varint_loop ::
  "u64 \<Rightarrow> byte \<Rightarrow> 's pb_istream \<Rightarrow> (u64, 's pb_istream) pb_result" where
  "varint_loop result bitpos s =
     (if bitpos \<ge> 64 then pb_ireturn_error s ''varint overflow''
      else pb_then (pb_readbyte s) (\<lambda>byte s.
        let result = result OR push_bit (unat bitpos) (ucast (byte AND 0x7F));
            bitpos = bitpos + 7
        in if byte AND 0x80 \<noteq> 0 then varint_loop result bitpos s else Some (Some result, s)))"

definition pb_decode_varint :: "'s pb_istream \<Rightarrow> (u64, 's pb_istream) pb_result" where
  "pb_decode_varint s = varint_loop 0 0 s"

partial_function (option) pb_skip_varint :: "'s pb_istream \<Rightarrow> (unit, 's pb_istream) pb_result" where
  "pb_skip_varint s =
     pb_then (pb_read False 1 s) (\<lambda>bytes s.
       case bytes of
         [byte] \<Rightarrow> if byte AND 0x80 \<noteq> 0 then pb_skip_varint s else pb_ok s
       | _ \<Rightarrow> None)"

definition pb_skip :: "u64 \<Rightarrow> 's pb_istream \<Rightarrow> (unit, 's pb_istream) pb_result" where
  "pb_skip count s = pb_then (pb_read True count s) (\<lambda>_ s. pb_ok s)"

definition pb_skip_string :: "'s pb_istream \<Rightarrow> (unit, 's pb_istream) pb_result" where
  "pb_skip_string s = pb_then (pb_decode_varint32 s) (\<lambda>len s. pb_skip (ucast len) s)"

text \<open>The enumeration, and the values a cast to it can give besides.\<close>

datatype pb_wire_type = PB_WT_VARINT | PB_WT_64BIT | PB_WT_STRING | PB_WT_32BIT | PB_WT_other u32

definition wire_type_of :: "u32 \<Rightarrow> pb_wire_type" where
  "wire_type_of n =
     (if n = 0 then PB_WT_VARINT else if n = 1 then PB_WT_64BIT
      else if n = 2 then PB_WT_STRING else if n = 5 then PB_WT_32BIT else PB_WT_other n)"

primrec wire_type_code :: "pb_wire_type \<Rightarrow> u32" where
  "wire_type_code PB_WT_VARINT = 0"
| "wire_type_code PB_WT_64BIT = 1"
| "wire_type_code PB_WT_STRING = 2"
| "wire_type_code PB_WT_32BIT = 5"
| "wire_type_code (PB_WT_other n) = n"

text \<open>The wire type and the tag of the next field, and \<open>*eof\<close>; a failing call leaves 0 in both.\<close>

definition pb_decode_tag ::
  "'s pb_istream \<Rightarrow> (((pb_wire_type \<times> u32) option \<times> bool) \<times> 's pb_istream) option" where
  "pb_decode_tag s =
     map_option (\<lambda>((r, eof), s).
       case r of
         None \<Rightarrow> ((None, eof), s)
       | Some temp \<Rightarrow>
           if temp = 0 then ((None, True), s)
           else ((Some (wire_type_of (temp AND 7), drop_bit 3 temp), eof), s))
       (pb_decode_varint32_eof False s)"

definition pb_skip_field :: "pb_wire_type \<Rightarrow> 's pb_istream \<Rightarrow> (unit, 's pb_istream) pb_result" where
  "pb_skip_field wire_type s =
     (case wire_type of
        PB_WT_VARINT \<Rightarrow> pb_skip_varint s
      | PB_WT_64BIT \<Rightarrow> pb_skip 8 s
      | PB_WT_STRING \<Rightarrow> pb_skip_string s
      | PB_WT_32BIT \<Rightarrow> pb_skip 4 s
      | PB_WT_other _ \<Rightarrow> pb_ireturn_error s ''invalid wire_type'')"

text \<open>The bytes stored so far in the buffer of \<open>max_len\<close> bytes are \<open>buf\<close>; their number is \<open>*size\<close>.\<close>

partial_function (option) read_raw_varint ::
  "nat \<Rightarrow> byte list \<Rightarrow> 's pb_istream \<Rightarrow> (byte list, 's pb_istream) pb_result" where
  "read_raw_varint max_len buf s =
     (if length buf + 1 > max_len then Some (None, s)
      else pb_then (pb_read False 1 s) (\<lambda>bytes s.
        case bytes of
          [byte] \<Rightarrow> if byte AND 0x80 \<noteq> 0 then read_raw_varint max_len (buf @ [byte]) s
                    else Some (Some (buf @ [byte]), s)
        | _ \<Rightarrow> None))"

definition read_raw_value :: "pb_wire_type \<Rightarrow> nat \<Rightarrow> 's pb_istream \<Rightarrow> (byte list, 's pb_istream) pb_result" where
  "read_raw_value wire_type max_len s =
     (case wire_type of
        PB_WT_VARINT \<Rightarrow> read_raw_varint max_len [] s
      | PB_WT_64BIT \<Rightarrow> if max_len < 8 then None else pb_read False 8 s
      | PB_WT_32BIT \<Rightarrow> if max_len < 4 then None else pb_read False 4 s
      | _ \<Rightarrow> pb_ireturn_error s ''invalid wire_type'')"

definition pb_make_string_substream :: "'s pb_istream \<Rightarrow> ('s pb_istream, 's pb_istream) pb_result" where
  "pb_make_string_substream s =
     pb_then (pb_decode_varint32 s) (\<lambda>len s.
       if bytes_left s < ucast len then pb_ireturn_error s ''parent stream too short''
       else Some (Some (s\<lparr>bytes_left := ucast len\<rparr>), s\<lparr>bytes_left := bytes_left s - ucast len\<rparr>))"

text \<open>The state of a callback is an object that both streams point to: what the substream has read of it is gone for the
  parent too, even when the call fails.  Of a buffer each stream has its own position.\<close>

definition pb_close_string_substream ::
  "'s pb_istream \<Rightarrow> 's pb_istream \<Rightarrow> (unit, 's pb_istream) pb_result" where
  "pb_close_string_substream s sub =
     (case (if bytes_left sub \<noteq> 0 then pb_skip (bytes_left sub) sub else pb_ok sub) of
        None \<Rightarrow> None
      | Some (None, sub) \<Rightarrow>
          Some (None, case source s of Buf_read _ \<Rightarrow> s | Read_callback _ _ \<Rightarrow> s\<lparr>source := source sub\<rparr>)
      | Some (Some _, sub) \<Rightarrow> pb_ok (s\<lparr>source := source sub, ierrmsg := ierrmsg sub\<rparr>))"

definition pb_decode_svarint :: "'s pb_istream \<Rightarrow> (u64, 's pb_istream) pb_result" where
  "pb_decode_svarint s =
     pb_then (pb_decode_varint s) (\<lambda>value s.
       if value AND 1 \<noteq> 0 then Some (Some (NOT (drop_bit 1 value)), s)
       else Some (Some (drop_bit 1 value), s))"

definition pb_decode_fixed32 :: "'s pb_istream \<Rightarrow> (u32, 's pb_istream) pb_result" where
  "pb_decode_fixed32 s =
     pb_then (pb_read False 4 s) (\<lambda>b s.
       Some (Some (push_bit 0 (ucast (b ! 0)) OR push_bit 8 (ucast (b ! 1)) OR
                   push_bit 16 (ucast (b ! 2)) OR push_bit 24 (ucast (b ! 3))), s))"

definition pb_decode_fixed64 :: "'s pb_istream \<Rightarrow> (u64, 's pb_istream) pb_result" where
  "pb_decode_fixed64 s =
     pb_then (pb_read False 8 s) (\<lambda>b s.
       Some (Some (push_bit 0 (ucast (b ! 0)) OR push_bit 8 (ucast (b ! 1)) OR
                   push_bit 16 (ucast (b ! 2)) OR push_bit 24 (ucast (b ! 3)) OR
                   push_bit 32 (ucast (b ! 4)) OR push_bit 40 (ucast (b ! 5)) OR
                   push_bit 48 (ucast (b ! 6)) OR push_bit 56 (ucast (b ! 7))), s))"

section \<open>The wire format: writing\<close>

text \<open>The loop of \<open>pb_encode_varint\<close> into a buffer of 10 bytes.\<close>

function varint_buffer :: "u64 \<Rightarrow> byte list \<Rightarrow> byte list option" where
  "varint_buffer value buffer =
     (if value = 0 then Some buffer
      else if length buffer \<ge> 10 then None
      else varint_buffer (drop_bit 7 value) (buffer @ [ucast (value AND 0x7F) OR 0x80]))"
  by pat_completeness auto
termination
proof (relation "measure (\<lambda>(value, buffer). 10 - length buffer)", goal_cases)
qed simp_all

declare varint_buffer.simps [simp del]

definition pb_encode_varint :: "u64 \<Rightarrow> 's pb_ostream \<Rightarrow> (unit, 's pb_ostream) pb_result" where
  "pb_encode_varint value s =
     (if value \<le> 0x7F then pb_write [ucast value] 1 s
      else case varint_buffer value [] of
             None \<Rightarrow> None
           | Some buffer \<Rightarrow>
               pb_write (buffer[length buffer - 1 := buffer ! (length buffer - 1) AND 0x7F])
                 (word_of_nat (length buffer)) s)"

definition pb_encode_svarint :: "u64 \<Rightarrow> 's pb_ostream \<Rightarrow> (unit, 's pb_ostream) pb_result" where
  "pb_encode_svarint value s =
     pb_encode_varint (if sint value < 0 then NOT (push_bit 1 value) else push_bit 1 value) s"

definition pb_encode_fixed32 :: "u32 \<Rightarrow> 's pb_ostream \<Rightarrow> (unit, 's pb_ostream) pb_result" where
  "pb_encode_fixed32 val s =
     pb_write [ucast (val AND 0xFF), ucast (drop_bit 8 val AND 0xFF), ucast (drop_bit 16 val AND 0xFF),
               ucast (drop_bit 24 val AND 0xFF)] 4 s"

definition pb_encode_fixed64 :: "u64 \<Rightarrow> 's pb_ostream \<Rightarrow> (unit, 's pb_ostream) pb_result" where
  "pb_encode_fixed64 val s =
     pb_write [ucast (val AND 0xFF), ucast (drop_bit 8 val AND 0xFF), ucast (drop_bit 16 val AND 0xFF),
               ucast (drop_bit 24 val AND 0xFF), ucast (drop_bit 32 val AND 0xFF),
               ucast (drop_bit 40 val AND 0xFF), ucast (drop_bit 48 val AND 0xFF),
               ucast (drop_bit 56 val AND 0xFF)] 8 s"

definition pb_encode_tag :: "pb_wire_type \<Rightarrow> u32 \<Rightarrow> 's pb_ostream \<Rightarrow> (unit, 's pb_ostream) pb_result" where
  "pb_encode_tag wiretype field_number s =
     pb_encode_varint (push_bit 3 (ucast field_number) OR ucast (wire_type_code wiretype)) s"

definition pb_encode_string :: "byte list \<Rightarrow> u64 \<Rightarrow> 's pb_ostream \<Rightarrow> (unit, 's pb_ostream) pb_result" where
  "pb_encode_string buffer count s =
     pb_then (pb_encode_varint count s) (\<lambda>_ s. pb_write buffer count s)"

section \<open>Streams over a buffer\<close>

text \<open>What is still to be read of a stream over a buffer, and the stream \<open>n\<close> bytes further on.\<close>

definition wf_istream :: "'s pb_istream \<Rightarrow> bool" where
  "wf_istream s =
     (case source s of Buf_read bs \<Rightarrow> unat (bytes_left s) \<le> length bs | Read_callback _ _ \<Rightarrow> False)"

definition pending :: "'s pb_istream \<Rightarrow> byte list" where
  "pending s =
     (case source s of Buf_read bs \<Rightarrow> take (unat (bytes_left s)) bs | Read_callback _ _ \<Rightarrow> [])"

definition advance :: "nat \<Rightarrow> 's pb_istream \<Rightarrow> 's pb_istream" where
  "advance n s =
     s\<lparr>source := (case source s of Buf_read bs \<Rightarrow> Buf_read (drop n bs) | src \<Rightarrow> src),
       bytes_left := bytes_left s - word_of_nat n\<rparr>"

lemma wf_istream_from_buffer [simp]:
  "wf_istream (pb_istream_from_buffer buf n) \<longleftrightarrow> unat n \<le> length buf"
  by (simp add: wf_istream_def pb_istream_from_buffer_def)

lemma pending_from_buffer [simp]: "pending (pb_istream_from_buffer buf n) = take (unat n) buf"
  by (simp add: pending_def pb_istream_from_buffer_def)

lemma stream_errmsg [simp]:
  "wf_istream (s\<lparr>ierrmsg := e\<rparr>) = wf_istream s" "pending (s\<lparr>ierrmsg := e\<rparr>) = pending s"
  "advance n (s\<lparr>ierrmsg := e\<rparr>) = (advance n s)\<lparr>ierrmsg := e\<rparr>" "ierrmsg (advance n s) = ierrmsg s"
  by (simp_all add: wf_istream_def pending_def advance_def split: pb_source.splits)

lemma advance_0 [simp]: "advance 0 s = s"
  by (cases s) (simp add: advance_def split: pb_source.splits)

lemma advance_advance [simp]: "advance m (advance n s) = advance (n + m) s"
  by (simp add: advance_def add.commute split: pb_source.splits)

lemma length_pending: "wf_istream s \<Longrightarrow> length (pending s) = unat (bytes_left s)"
  by (simp add: wf_istream_def pending_def split: pb_source.splits)

lemma bytes_left_advance:
  "wf_istream s \<Longrightarrow> n \<le> length (pending s) \<Longrightarrow> unat (bytes_left (advance n s)) = unat (bytes_left s) - n"
  using unsigned_less [of "bytes_left s", where 'a = nat]
  by (simp add: length_pending advance_def unat_sub word_le_nat_alt unat_of_nat)

lemma wf_advance [simp]: "wf_istream s \<Longrightarrow> n \<le> length (pending s) \<Longrightarrow> wf_istream (advance n s)"
  using bytes_left_advance [of s n]
  by (auto simp: wf_istream_def advance_def length_pending split: pb_source.splits)

lemma pending_advance [simp]:
  "wf_istream s \<Longrightarrow> n \<le> length (pending s) \<Longrightarrow> pending (advance n s) = drop n (pending s)"
  using bytes_left_advance [of s n]
  by (auto simp: wf_istream_def advance_def pending_def drop_take split: pb_source.splits)

lemma bytes_left_0_iff: "wf_istream s \<Longrightarrow> bytes_left s = 0 \<longleftrightarrow> pending s = []"
  using length_pending [of s] by (auto simp: unat_eq_0)

lemma call_source_wf:
  assumes "wf_istream s" "unat n \<le> length (pending s)"
  shows "call_or_io_error n s =
    Some (Some (take (unat n) (pending s)), (advance (unat n) s)\<lparr>bytes_left := bytes_left s\<rparr>)"
proof -
  from assms(1) obtain bs where bs: "source s = Buf_read bs" "unat (bytes_left s) \<le> length bs"
    by (auto simp: wf_istream_def split: pb_source.splits)
  with assms have "unat n \<le> unat (bytes_left s)" by (simp add: pending_def)
  with bs show ?thesis
    by (cases s) (simp add: call_or_io_error_def call_source_def buf_read_def pending_def advance_def min_def)
qed

lemma reads_buffer_wf: "wf_istream s \<Longrightarrow> reads_buffer s"
  by (simp add: wf_istream_def reads_buffer_def split: pb_source.splits)

lemma pb_read_wf:
  assumes "wf_istream s"
  shows "pb_read skip n s =
    (if unat n \<le> length (pending s)
     then Some (Some (take (unat n) (pending s)), advance (unat n) s)
     else pb_ireturn_error s ''end-of-stream'')"
proof (cases "unat n \<le> length (pending s)")
  case True
  then have "\<not> bytes_left s < n" using assms by (simp add: length_pending word_less_nat_alt)
  show ?thesis
  proof (cases "n = 0")
    case True
    then show ?thesis by (subst pb_read.simps) simp
  next
    case False
    with \<open>\<not> bytes_left s < n\<close> \<open>unat n \<le> length (pending s)\<close> show ?thesis
      by (subst pb_read.simps) (simp add: reads_buffer_wf assms call_source_wf advance_def)
  qed
next
  case False
  then have "bytes_left s < n" using assms by (simp add: length_pending word_less_nat_alt)
  with False show ?thesis
    by (subst pb_read.simps) (auto simp: reads_buffer_wf assms)
qed

lemma pb_readbyte_wf:
  assumes "wf_istream s"
  shows "pb_readbyte s =
    (case pending s of [] \<Rightarrow> pb_ireturn_error s ''end-of-stream'' | b # _ \<Rightarrow> Some (Some b, advance (Suc 0) s))"
proof (cases "pending s")
  case Nil
  then show ?thesis using bytes_left_0_iff [OF assms] by (simp add: pb_readbyte_def)
next
  case (Cons b bs)
  then have "unat (1 :: u64) \<le> length (pending s)" by simp
  note c = call_source_wf [OF assms this]
  have "bytes_left s \<noteq> 0" using bytes_left_0_iff [OF assms] Cons by simp
  then show ?thesis by (simp add: pb_readbyte_def c Cons) (simp add: advance_def)
qed

lemma pb_skip_wf:
  assumes "wf_istream s"
  shows "pb_skip n s =
    (if unat n \<le> length (pending s) then pb_ok (advance (unat n) s)
     else pb_ireturn_error s ''end-of-stream'')"
  by (simp add: pb_skip_def pb_read_wf assms pb_ireturn_error_def)

section \<open>What every reader keeps\<close>

named_theorems pb_readers \<open>operations that read a stream over a buffer inside its bounds\<close>

text \<open>A call on the stream \<open>s\<close> returns, with the stream some bytes further on, and no error message is
  set when it succeeds.\<close>

definition pb_within :: "'s pb_istream \<Rightarrow> ('a, 's pb_istream) pb_result \<Rightarrow> bool" where
  "pb_within s res \<longleftrightarrow>
     (\<exists>r n e. res = Some (r, (advance n s)\<lparr>ierrmsg := e\<rparr>) \<and> n \<le> length (pending s) \<and>
              (r \<noteq> None \<longrightarrow> e = ierrmsg s))"

definition pb_reader :: "('s pb_istream \<Rightarrow> ('a, 's pb_istream) pb_result) \<Rightarrow> bool" where
  "pb_reader op \<longleftrightarrow> (\<forall>s. wf_istream s \<longrightarrow> pb_within s (op s))"

lemma set_same_errmsg [simp]: "s\<lparr>ierrmsg := ierrmsg s\<rparr> = s" for s :: "'s pb_istream"
  by (cases s) simp

lemma advance_same_errmsg: "(advance n s)\<lparr>ierrmsg := ierrmsg s\<rparr> = advance n s"
  using set_same_errmsg [of "advance n s"] by simp

lemma pb_within_readsI:
  "n \<le> length (pending s) \<Longrightarrow> pb_within s (Some (Some v, advance n s))"
  unfolding pb_within_def using advance_same_errmsg [of s n] by (metis (no_types, lifting))

lemma pb_within_failsI:
  "n \<le> length (pending s) \<Longrightarrow> pb_within s (Some (None, (advance n s)\<lparr>ierrmsg := e\<rparr>))"
  by (auto simp: pb_within_def)

lemma pb_withinE:
  assumes "pb_within s res"
  obtains (fails) n e where "res = Some (None, (advance n s)\<lparr>ierrmsg := e\<rparr>)" "n \<le> length (pending s)"
  | (reads) v n where "res = Some (Some v, advance n s)" "n \<le> length (pending s)"
proof -
  from assms obtain r n e where *: "res = Some (r, (advance n s)\<lparr>ierrmsg := e\<rparr>)"
    "n \<le> length (pending s)" "r \<noteq> None \<longrightarrow> e = ierrmsg s"
    unfolding pb_within_def by blast
  show thesis
  proof (cases r)
    case None
    with * fails show ?thesis by blast
  next
    case (Some v)
    with * reads show ?thesis by (simp add: advance_same_errmsg)
  qed
qed

lemma pb_within_ok [simp]: "pb_within s (Some (Some v, s))"
  using pb_within_readsI [of 0 s v] by simp

lemma pb_within_error [simp]: "pb_within s (pb_ireturn_error s msg)" "pb_within s (Some (None, s))"
  using pb_within_failsI [of 0 s] pb_within_failsI [of 0 s "ierrmsg s"]
  by (simp_all add: pb_ireturn_error_def)

lemma pb_within_advance:
  assumes "wf_istream s" "n \<le> length (pending s)" "pb_within (advance n s) res"
  shows "pb_within s res"
  using assms(3)
proof (cases rule: pb_withinE)
  case (fails m e)
  with assms(1,2) show ?thesis by (simp add: pb_within_failsI le_diff_conv2)
next
  case (reads v m)
  with assms(1,2) show ?thesis by (simp add: pb_within_readsI le_diff_conv2)
qed

lemma pb_within_then:
  assumes "wf_istream s" "pb_within s res"
    and "\<And>v n. n \<le> length (pending s) \<Longrightarrow> res = Some (Some v, advance n s) \<Longrightarrow> pb_within (advance n s) (k v (advance n s))"
  shows "pb_within s (pb_then res k)"
  using assms(2)
proof (cases rule: pb_withinE)
  case (fails n e)
  then show ?thesis by (simp add: pb_within_failsI)
next
  case (reads v n)
  with assms(1,3) show ?thesis by (simp add: pb_within_advance)
qed

lemma pb_within_read [simp]: "wf_istream s \<Longrightarrow> pb_within s (pb_read skip n s)"
  by (simp add: pb_read_wf pb_within_readsI)

lemma pb_within_readbyte [simp]: "wf_istream s \<Longrightarrow> pb_within s (pb_readbyte s)"
  using pb_within_readsI [of "Suc 0" s] by (auto simp: pb_readbyte_wf split: list.split)

lemma pb_readerI: "(\<And>s. wf_istream s \<Longrightarrow> pb_within s (op s)) \<Longrightarrow> pb_reader op"
  by (simp add: pb_reader_def)

lemma pb_readerD: "pb_reader op \<Longrightarrow> wf_istream s \<Longrightarrow> pb_within s (op s)"
  by (simp add: pb_reader_def)

lemma pb_reader_then [pb_readers]:
  assumes "pb_reader op" "\<And>v. pb_reader (k v)"
  shows "pb_reader (\<lambda>s. pb_then (op s) (k))"
  using assms by (intro pb_readerI pb_within_then) (simp_all add: pb_readerD)

lemma pb_reader_if [pb_readers]:
  "pb_reader f \<Longrightarrow> pb_reader g \<Longrightarrow> pb_reader (\<lambda>s. if P s then f s else g s)"
  by (simp add: pb_reader_def)

lemma pb_reader_ok [pb_readers]: "pb_reader (\<lambda>s. Some (Some (f s), s))"
  by (simp add: pb_reader_def)

lemma pb_reader_error [pb_readers]: "pb_reader (\<lambda>s. pb_ireturn_error s msg)"
  by (simp add: pb_reader_def)

lemma pb_reader_read [pb_readers]: "pb_reader (pb_read skip n)"
  by (simp add: pb_reader_def)

lemma pb_reader_readbyte [pb_readers]: "pb_reader pb_readbyte"
  by (simp add: pb_reader_def)

lemma pb_reader_skip [pb_readers]: "pb_reader (pb_skip n)"
  unfolding pb_skip_def by (intro pb_readers)

text \<open>A loop that reads one byte in each round, by induction on what is left to read.\<close>

lemma pb_within_byte_loop:
  assumes "wf_istream s"
    and "\<And>b bs. pending s = b # bs \<Longrightarrow> pb_within (advance (Suc 0) s) (k b (advance (Suc 0) s))"
  shows "pb_within s (pb_then (pb_readbyte s) k)"
proof (cases "pending s")
  case Nil
  with assms(1) show ?thesis
    by (simp add: pb_readbyte_wf) (simp add: pb_ireturn_error_def pb_within_failsI [of 0, simplified])
next
  case (Cons b bs)
  with assms have "pb_within (advance (Suc 0) s) (k b (advance (Suc 0) s))" by simp
  with assms(1) Cons show ?thesis
    using pb_within_advance [of s "Suc 0" "k b (advance (Suc 0) s)"] by (simp add: pb_readbyte_wf)
qed

lemma varint32_loop_within:
  "wf_istream s \<Longrightarrow> pb_within s (varint32_loop result bitpos s)"
proof (induction "length (pending s)" arbitrary: s result bitpos)
  case 0
  then show ?case by (subst varint32_loop.simps) (rule pb_within_byte_loop, simp_all)
next
  case (Suc n)
  then have *: "pb_within (advance (Suc 0) s) (varint32_loop r p (advance (Suc 0) s))" for r p by simp
  show ?case
    by (subst varint32_loop.simps, rule pb_within_byte_loop [OF Suc.prems])
       (simp add: Let_def *)
qed

lemma varint_loop_within:
  "wf_istream s \<Longrightarrow> pb_within s (varint_loop result bitpos s)"
proof (induction "length (pending s)" arbitrary: s result bitpos)
  case 0
  then show ?case
    by (subst varint_loop.simps) (simp, intro impI pb_within_byte_loop, simp_all)
next
  case (Suc n)
  then have *: "pb_within (advance (Suc 0) s) (varint_loop r p (advance (Suc 0) s))" for r p by simp
  have "pb_within s (pb_then (pb_readbyte s) k)"
    if "\<And>b. pb_within (advance (Suc 0) s) (k b (advance (Suc 0) s))"
    for k :: "byte \<Rightarrow> 'a pb_istream \<Rightarrow> (u64, 'a pb_istream) pb_result"
    using Suc.prems that by (rule pb_within_byte_loop)
  then show ?case
    by (subst varint_loop.simps) (simp add: Let_def *)
qed

lemma pb_read_byte_wf:
  assumes "wf_istream s"
  shows "pb_then (pb_read False 1 s) (\<lambda>bytes s. case bytes of [b] \<Rightarrow> k b s | _ \<Rightarrow> None) =
    pb_then (pb_readbyte s) k"
  using assms
  by (auto simp: pb_read_wf pb_readbyte_wf pb_ireturn_error_def Suc_le_eq neq_Nil_conv split: list.split)

lemma pb_reader_decode_varint [pb_readers]: "pb_reader pb_decode_varint"
  by (intro pb_readerI) (simp add: pb_decode_varint_def varint_loop_within)

lemma pb_skip_varint_within: "wf_istream s \<Longrightarrow> pb_within s (pb_skip_varint s)"
proof (induction "length (pending s)" arbitrary: s)
  case 0
  then show ?case
    by (subst pb_skip_varint.simps) (simp only: pb_read_byte_wf, rule pb_within_byte_loop, simp_all)
next
  case (Suc n)
  then have *: "pb_within (advance (Suc 0) s) (pb_skip_varint (advance (Suc 0) s))" by simp
  show ?case
    by (subst pb_skip_varint.simps, simp only: pb_read_byte_wf [OF Suc.prems], rule pb_within_byte_loop [OF Suc.prems])
       (simp add: *)
qed

lemma pb_reader_skip_varint [pb_readers]: "pb_reader pb_skip_varint"
  by (intro pb_readerI pb_skip_varint_within)

lemma read_raw_varint_within: "wf_istream s \<Longrightarrow> pb_within s (read_raw_varint max_len buf s)"
proof (induction "length (pending s)" arbitrary: s buf)
  case 0
  then show ?case
    by (subst read_raw_varint.simps) (simp only: pb_read_byte_wf, simp, intro impI pb_within_byte_loop, simp_all)
next
  case (Suc n)
  then have *: "pb_within (advance (Suc 0) s) (read_raw_varint max_len b (advance (Suc 0) s))" for b by simp
  have "pb_within s (pb_then (pb_readbyte s) k)"
    if "\<And>b. pb_within (advance (Suc 0) s) (k b (advance (Suc 0) s))"
    for k :: "byte \<Rightarrow> 'a pb_istream \<Rightarrow> (byte list, 'a pb_istream) pb_result"
    using Suc.prems that by (rule pb_within_byte_loop)
  then show ?case
    by (subst read_raw_varint.simps) (simp only: pb_read_byte_wf [OF Suc.prems], simp add: *)
qed

text \<open>\<open>*eof\<close> of the reader beside a result.\<close>

lemma varint32_eof_within:
  assumes "wf_istream s"
  obtains r eof' n e where "pb_decode_varint32_eof eof s = Some ((r, eof'), (advance n s)\<lparr>ierrmsg := e\<rparr>)"
    "n \<le> length (pending s)" "r \<noteq> None \<longrightarrow> e = ierrmsg s" "eof' \<longleftrightarrow> eof \<or> pending s = []" "r \<noteq> None \<longrightarrow> 0 < n"
proof (cases "pending s")
  case Nil
  with assms show ?thesis
    by (intro that [of None True "ierrmsg (snd (the (pb_ireturn_error s ''end-of-stream'')))" 0])
       (simp_all add: pb_decode_varint32_eof_def pb_readbyte_wf pb_ireturn_error_def bytes_left_0_iff)
next
  case (Cons b bs)
  define res where "res = (if b AND 0x80 = 0 then Some (Some (ucast b), advance (Suc 0) s)
    else pb_then (varint32_loop (ucast (b AND 0x7F)) 7 (advance (Suc 0) s)) (\<lambda>(result, bitpos, byte) s.
      if bitpos = 35 \<and> byte AND 0x70 \<noteq> 0 then pb_ireturn_error s ''varint overflow''
      else Some (Some (result :: u32), s)))"
  have "pb_within (advance (Suc 0) s) res"
    using assms Cons unfolding res_def
    by (auto intro!: pb_within_then varint32_loop_within)
  then obtain r n e where "res = Some (r, (advance (Suc n) s)\<lparr>ierrmsg := e\<rparr>)" "Suc n \<le> length (pending s)"
    "r \<noteq> None \<longrightarrow> e = ierrmsg s" using assms Cons by (auto simp: pb_within_def)
  moreover have "pb_decode_varint32_eof eof s = map_option (\<lambda>(r, s). ((r, eof), s)) res"
    using assms Cons by (simp add: pb_decode_varint32_eof_def pb_readbyte_wf res_def)
  ultimately show ?thesis using Cons by (intro that [of r eof e "Suc n"]) simp_all
qed

lemma pb_reader_decode_varint32 [pb_readers]: "pb_reader pb_decode_varint32"
proof (rule pb_readerI)
  fix s :: "'a pb_istream"
  assume "wf_istream s"
  then show "pb_within s (pb_decode_varint32 s)"
    by (rule varint32_eof_within [where eof = False]) (auto simp: pb_decode_varint32_def pb_within_def)
qed

lemma pb_reader_skip_string [pb_readers]: "pb_reader pb_skip_string"
  unfolding pb_skip_string_def by (intro pb_readers)

lemma pb_reader_skip_field [pb_readers]: "pb_reader (pb_skip_field wt)"
  unfolding pb_skip_field_def by (cases wt) (simp_all add: pb_readers)

lemma pb_reader_read_raw_value [pb_readers]: "10 \<le> max_len \<Longrightarrow> pb_reader (read_raw_value wt max_len)"
  unfolding read_raw_value_def by (cases wt) (simp_all add: pb_readers pb_readerI read_raw_varint_within)

lemma pb_reader_decode_svarint [pb_readers]: "pb_reader pb_decode_svarint"
  unfolding pb_decode_svarint_def by (intro pb_readers)

lemma pb_reader_decode_fixed [pb_readers]: "pb_reader pb_decode_fixed32" "pb_reader pb_decode_fixed64"
  unfolding pb_decode_fixed32_def pb_decode_fixed64_def by (intro pb_readers)+

section \<open>Base-128 varints\<close>

text \<open>The wire format has the least significant group of 7 bits first; the top bit of a byte announces
  another one.\<close>

fun is_varint :: "byte list \<Rightarrow> bool" where
  "is_varint [] = False"
| "is_varint (b # bs) = (if unat b < 128 then bs = [] else is_varint bs)"

fun varint_nat :: "byte list \<Rightarrow> nat" where
  "varint_nat [] = 0"
| "varint_nat (b # bs) = unat b mod 128 + 128 * varint_nat bs"

definition announcing :: "nat \<Rightarrow> byte" where
  "announcing m = word_of_nat (m mod 128 + 128)"

fun varint :: "nat \<Rightarrow> byte list" where
  "varint n = (if n < 128 then [word_of_nat n] else announcing n # varint (n div 128))"

declare varint.simps [simp del]

lemma unat_announcing [simp]: "unat (announcing m) = m mod 128 + 128"
proof -
  have "m mod 128 < 128" by simp
  then have "m mod 128 + 128 < 256" by linarith
  then show ?thesis unfolding announcing_def by (simp only: unat_of_nat_byte mod_less)
qed

lemma is_varint_varint [simp]: "is_varint (varint n)"
proof (induction n rule: varint.induct)
  case (1 n)
  then show ?case by (subst varint.simps) simp
qed

lemma varint_nat_varint [simp]: "varint_nat (varint n) = n"
proof (induction n rule: varint.induct)
  case (1 n)
  then show ?case by (subst varint.simps) simp
qed

lemma varint_not_Nil [simp]: "varint n \<noteq> []"
  by (subst varint.simps) simp

lemma length_varint_le: "0 < k \<Longrightarrow> length (varint n) \<le> k \<longleftrightarrow> n < 128 ^ k"
proof (induction k arbitrary: n)
  case (Suc k)
  show ?case
  proof (cases "n < 128")
    case True
    then have "n < 128 ^ Suc k" by (rule less_le_trans) simp
    with True show ?thesis by (subst varint.simps) simp
  next
    case False
    then have "length (varint n) = Suc (length (varint (n div 128)))" by (subst varint.simps) simp
    with False Suc show ?thesis
      by (cases "k = 0") (auto simp: div_less_iff_less_mult mult.commute)
  qed
qed simp

lemma is_varint_prefix_free:
  "is_varint bs \<Longrightarrow> is_varint cs \<Longrightarrow> bs @ r = cs @ s \<Longrightarrow> bs = cs \<and> r = s"
proof (induction bs arbitrary: cs)
  case (Cons b bs)
  then show ?case by (cases cs) (auto split: if_splits)
qed simp

text \<open>Every byte string starts with a varint or consists of bytes that announce another one.\<close>

lemma varint_split:
  obtains (varint) bs rest where "p = bs @ rest" "is_varint bs"
  | (none) "\<forall>b \<in> set p. unat b \<ge> 128"
proof (induction p arbitrary: thesis)
  case (Cons b p)
  show ?case
  proof (cases "unat b < 128")
    case True
    then show ?thesis using Cons.prems(1) [of "[b]" p] by simp
  next
    case False
    show ?thesis
    proof (rule Cons.IH)
      fix bs rest assume "p = bs @ rest" "is_varint bs"
      with False show thesis using Cons.prems(1) [of "b # bs" rest] by simp
    next
      assume "\<forall>b \<in> set p. 128 \<le> unat b"
      with False Cons.prems(2) show thesis by auto
    qed
  qed
qed simp

text \<open>\<open>j\<close> bits more at bit position \<open>p\<close>.\<close>

lemma or_step:
  assumes "m < 2 ^ j"
  shows "push_bit p (word_of_nat m) OR word_of_nat (2 ^ (p + j) * n) =
    (word_of_nat (2 ^ p * (m + 2 ^ j * n)) :: 'a::len word)"
proof -
  have m: "push_bit p (word_of_nat m) = (word_of_nat (2 ^ p * m) :: 'a word)"
    by (simp add: push_bit_eq_mult mult.commute)
  have "take_bit j m AND push_bit j n = 0"
    by (auto simp: bit_eq_iff bit_and_iff bit_take_bit_iff bit_push_bit_iff)
  then have "take_bit j m OR push_bit j n = take_bit j m + push_bit j n"
    by (rule disjunctive_add_eq_or [symmetric])
  then have "push_bit p (take_bit j m) OR push_bit p (push_bit j n) = push_bit p (take_bit j m + push_bit j n)"
    by (metis push_bit_or)
  then have "2 ^ p * m OR 2 ^ (p + j) * n = 2 ^ p * (m + 2 ^ j * n)"
    using assms
    by (simp add: push_bit_eq_mult take_bit_nat_eq_self power_add mult.commute mult.left_commute)
  then show ?thesis unfolding m by (metis of_nat_or_eq)
qed

lemma varint_step:
  "push_bit p (ucast (b AND 0x7F)) OR word_of_nat (2 ^ (p + 7) * n) =
   (word_of_nat (2 ^ p * (unat b mod 128 + 128 * n)) :: 'a::len word)" for b :: byte
proof -
  have "ucast (b AND 0x7F) = (word_of_nat (unat b mod 128) :: 'a word)"
    by (metis of_nat_unat unat_byte_and_7f)
  then show ?thesis using or_step [of "unat b mod 128" 7 p n, where 'a = 'a] by simp
qed

lemma byte_step:
  "push_bit p (ucast b) OR word_of_nat (2 ^ (p + 8) * n) =
   (word_of_nat (2 ^ p * (unat b + 256 * n)) :: 'a::len word)" for b :: byte
  using or_step [of "unat b" 8 p n, where 'a = 'a] by (simp add: of_nat_unat)

text \<open>The loop of \<open>pb_decode_varint\<close> after \<open>k\<close> bytes.\<close>

lemma bitpos_Suc: "unat p = 7 * k \<Longrightarrow> k \<le> 35 \<Longrightarrow> unat (p + 7 :: byte) = 7 * Suc k"
  by (simp add: unat_word_ariths)

lemma varint_loop_exact:
  assumes "wf_istream s" "k + length bs \<le> 10" "is_varint bs" "pending s = bs @ rest" "unat p = 7 * k"
  shows "varint_loop result p s =
    Some (Some (result OR word_of_nat (2 ^ (7 * k) * varint_nat bs)), advance (length bs) s)"
  using assms
proof (induction bs arbitrary: s k p result)
  case (Cons b bs)
  from Cons.prems(2,5) have pos: "\<not> p \<ge> 64" "unat (p + 7) = 7 * Suc k"
    by (simp add: word_le_nat_alt) (use Cons.prems(2,5) in \<open>simp add: bitpos_Suc\<close>)
  have step: "push_bit (7 * k) (ucast (b AND 0x7F)) OR word_of_nat (2 ^ (7 * Suc k) * varint_nat bs) =
      (word_of_nat (2 ^ (7 * k) * varint_nat (b # bs)) :: u64)"
    using varint_step [of "7 * k" b "varint_nat bs", where 'a = 64] by (simp add: add.commute)
  show ?case
  proof (cases "unat b < 128")
    case True
    with Cons.prems step pos(1) show ?thesis
      by (subst varint_loop.simps) (simp add: pb_readbyte_wf Let_def byte_top_bit)
  next
    case False
    have "varint_loop r (p + 7) (advance (Suc 0) s) =
        Some (Some (r OR word_of_nat (2 ^ (7 * Suc k) * varint_nat bs)), advance (length bs) (advance (Suc 0) s))" for r
      using Cons.prems False pos(2) by (intro Cons.IH) auto
    with Cons.prems False pos(1) show ?thesis
      by (subst varint_loop.simps)
         (simp add: pb_readbyte_wf Let_def byte_top_bit or.assoc step del: varint_nat.simps mult_Suc_right of_nat_mult)
  qed
qed simp

lemma pb_decode_varint_reads:
  assumes "wf_istream s" "pending s = bs @ rest" "is_varint bs" "length bs \<le> 10"
  shows "pb_decode_varint s = Some (Some (word_of_nat (varint_nat bs)), advance (length bs) s)"
  using varint_loop_exact [of s 0 bs rest 0 0] assms by (simp add: pb_decode_varint_def)

text \<open>Without a last byte among the first ten the varint is too long or cut off.\<close>

lemma varint_loop_open:
  assumes "wf_istream s" "k + n = 10" "unat p = 7 * k" "\<forall>b \<in> set (take n (pending s)). 128 \<le> unat b"
  shows "varint_loop result p s =
    (if length (pending s) < n then pb_ireturn_error (advance (length (pending s)) s) ''end-of-stream''
     else pb_ireturn_error (advance n s) ''varint overflow'')"
  using assms
proof (induction n arbitrary: s k p result)
  case 0
  then have "p \<ge> 64" by (simp add: word_le_nat_alt)
  then show ?case by (subst varint_loop.simps) simp
next
  case (Suc n)
  then have pos: "\<not> p \<ge> 64" "unat (p + 7) = 7 * Suc k"
    by (simp_all add: word_le_nat_alt bitpos_Suc)
  show ?case
  proof (cases "pending s")
    case Nil
    with Suc.prems pos show ?thesis by (subst varint_loop.simps) (simp add: pb_readbyte_wf pb_ireturn_error_def)
  next
    case (Cons b bs)
    have "varint_loop r (p + 7) (advance (Suc 0) s) =
      (if length (pending (advance (Suc 0) s)) < n
       then pb_ireturn_error (advance (length (pending (advance (Suc 0) s))) (advance (Suc 0) s)) ''end-of-stream''
       else pb_ireturn_error (advance n (advance (Suc 0) s)) ''varint overflow'')" for r
      using Suc.prems pos(2) Cons by (intro Suc.IH [of _ "Suc k"]) simp_all
    with Suc.prems Cons pos show ?thesis
      by (subst varint_loop.simps) (auto simp: pb_readbyte_wf Let_def byte_top_bit)
  qed
qed

end
