(* ===== verification/Pb_Wire.thy ===== *)
theory Pb_Wire
  imports Pb_Stream
begin

text \<open>
  What the functions of \<open>Pb_Stream\<close> do to the bytes of a message: what every encoder writes, what the
  decoders accept, and that the one reads back what the other wrote.
\<close>

section \<open>What the encoders write\<close>

text \<open>A stream over a buffer that has room for what the stream may still take, or one that only
  counts, on which nothing has failed; the stream with more bytes written; whether \<open>n\<close> more bytes may be written.\<close>

definition wf_ostream :: "'s pb_ostream \<Rightarrow> bool" where
  "wf_ostream s =
     (oerrmsg s = None \<and> (case sink s of
        None \<Rightarrow> True
      | Some (Buf_write _ fit) \<Rightarrow>
          bytes_written s \<le> max_size s \<and> unat (max_size s) - unat (bytes_written s) \<le> fit
      | Some (Write_callback _ _) \<Rightarrow> False))"

definition put :: "byte list \<Rightarrow> 's pb_ostream \<Rightarrow> 's pb_ostream" where
  "put bs s =
     s\<lparr>sink := (case sink s of
                  Some (Buf_write w fit) \<Rightarrow> Some (Buf_write (w @ bs) (fit - length bs))
                | k \<Rightarrow> k),
       bytes_written := bytes_written s + word_of_nat (length bs)\<rparr>"

definition fits :: "nat \<Rightarrow> 's pb_ostream \<Rightarrow> bool" where
  "fits n s \<longleftrightarrow> sink s = None \<or> unat (bytes_written s) + n \<le> unat (max_size s)"

lemmas ostream_defs = wf_ostream_def put_def fits_def

lemma put_Nil [simp]: "put [] s = s"
  by (cases s) (auto simp: put_def split: option.splits pb_sink.splits)

lemma put_put [simp]: "put cs (put bs s) = put (bs @ cs) s"
  by (auto simp: put_def split: option.splits pb_sink.splits)

lemma put_errmsg [simp]:
  "oerrmsg (put bs s) = oerrmsg s" "fits n (s\<lparr>oerrmsg := e\<rparr>) = fits n s"
  by (auto simp: ostream_defs split: option.splits pb_sink.splits)

lemma unat_written_put:
  "fits (length bs) s \<Longrightarrow> sink s \<noteq> None \<Longrightarrow>
   unat (bytes_written s + word_of_nat (length bs)) = unat (bytes_written s) + length bs"
  using unsigned_less [of "max_size s", where 'a = nat]
  by (auto simp: fits_def unat_word_ariths unat_of_nat)

lemma fits_put:
  assumes "fits (length bs) s"
  shows "fits n (put bs s) \<longleftrightarrow> fits (length bs + n) s"
proof (cases "sink s")
  case None
  then show ?thesis by (simp add: fits_def put_def)
next
  case (Some k)
  with unat_written_put [OF assms] show ?thesis
    by (auto simp: fits_def put_def split: pb_sink.splits)
qed

lemma wf_put:
  assumes "wf_ostream s" "fits (length bs) s"
  shows "wf_ostream (put bs s)"
proof (cases "sink s")
  case None
  with assms show ?thesis by (simp add: wf_ostream_def put_def)
next
  case (Some k)
  with unat_written_put [OF assms(2)] assms show ?thesis
    by (auto simp: wf_ostream_def fits_def put_def word_le_nat_alt split: pb_sink.splits)
qed

lemma fits_0: "wf_ostream s \<Longrightarrow> fits 0 s"
  by (auto simp: ostream_defs word_le_nat_alt split: option.splits pb_sink.splits)

lemma fits_mono: "fits n s \<Longrightarrow> m \<le> n \<Longrightarrow> fits m s"
  by (auto simp: fits_def)

lemma pb_write_wf:
  assumes "wf_ostream s" "unat count \<le> length buf"
  shows "pb_write buf count s =
    (if fits (unat count) s then pb_ok (put (take (unat count) buf) s)
     else pb_oreturn_error s ''stream full'')"
proof (cases "sink s")
  case None
  with assms show ?thesis by (cases s) (simp add: pb_write_def fits_def put_def)
next
  case (Some k)
  with assms(1) obtain w fit where k: "k = Buf_write w fit"
    by (auto simp: wf_ostream_def split: pb_sink.splits)
  have fits: "fits (unat count) s \<longleftrightarrow>
      \<not> (bytes_written s + count < bytes_written s \<or> bytes_written s + count > max_size s)"
  proof (cases "unat (bytes_written s) + unat count < size_mod")
    case True
    then have "unat (bytes_written s + count) = unat (bytes_written s) + unat count"
      by (simp add: unat_word_ariths)
    with Some show ?thesis by (auto simp: fits_def word_less_nat_alt)
  next
    case False
    then have "unat (bytes_written s + count) = unat (bytes_written s) + unat count - size_mod"
      using unsigned_less [of "bytes_written s", where 'a = nat] unsigned_less [of count, where 'a = nat]
      by (simp add: unat_word_ariths mod_if)
    then have "bytes_written s + count < bytes_written s"
      using unsigned_less [of "bytes_written s", where 'a = nat] unsigned_less [of count, where 'a = nat] False
      by (simp add: word_less_nat_alt)
    moreover have "\<not> fits (unat count) s"
      using Some False unsigned_less [of "max_size s", where 'a = nat] by (simp add: fits_def)
    ultimately show ?thesis by simp
  qed
  show ?thesis
  proof (cases "count = 0")
    case True
    with fits_0 [OF assms(1)] show ?thesis by (cases s) (simp add: pb_write_def)
  next
    case False
    then have pos: "count > 0" by (simp add: word_greater_zero_iff)
    show ?thesis
    proof (cases "fits (unat count) s")
      case True
      then have "unat count \<le> fit" using assms(1) Some k by (auto simp: ostream_defs)
      then show ?thesis
        using True fits pos Some k assms(2)
        by (simp add: pb_write_def call_sink_def buf_write_def put_def min_def)
    next
      case False
      with fits pos Some show ?thesis by (simp add: pb_write_def pb_oreturn_error_def)
    qed
  qed
qed

text \<open>A call writes the bytes \<open>bs\<close>, or part of them and fails when they do not fit.\<close>

named_theorems pb_writers \<open>what an encoder writes\<close>

definition pb_writes :: "('s pb_ostream \<Rightarrow> (unit, 's pb_ostream) pb_result) \<Rightarrow> byte list \<Rightarrow> bool" where
  "pb_writes op bs \<longleftrightarrow> (\<forall>s. wf_ostream s \<longrightarrow>
     (if fits (length bs) s then op s = pb_ok (put bs s)
      else \<exists>k e. k < length bs \<and> fits k s \<and> op s = Some (None, (put (take k bs) s)\<lparr>oerrmsg := Some e\<rparr>)))"

lemma pb_writesD: "pb_writes op bs \<Longrightarrow> wf_ostream s \<Longrightarrow> fits (length bs) s \<Longrightarrow> op s = pb_ok (put bs s)"
  by (auto simp: pb_writes_def)

lemma pb_writesE:
  assumes "pb_writes op bs" "wf_ostream s"
  obtains "fits (length bs) s" "op s = pb_ok (put bs s)"
  | k e where "\<not> fits (length bs) s" "k < length bs" "fits k s"
      "op s = Some (None, (put (take k bs) s)\<lparr>oerrmsg := Some e\<rparr>)"
  using assms unfolding pb_writes_def by (metis (full_types))

lemma pb_writes_then [pb_writers]:
  assumes "pb_writes f bs" "pb_writes g cs"
  shows "pb_writes (\<lambda>s. pb_then (f s) (\<lambda>_. g)) (bs @ cs)"
  unfolding pb_writes_def
proof (intro allI impI)
  fix s :: "'a pb_ostream"
  assume wf: "wf_ostream s"
  from assms(1) wf show "if fits (length (bs @ cs)) s then pb_then (f s) (\<lambda>_. g) = pb_ok (put (bs @ cs) s)
    else \<exists>k e. k < length (bs @ cs) \<and> fits k s \<and>
      pb_then (f s) (\<lambda>_. g) = Some (None, (put (take k (bs @ cs)) s)\<lparr>oerrmsg := Some e\<rparr>)"
  proof (cases rule: pb_writesE)
    case 1
    then have wf': "wf_ostream (put bs s)" using wf by (simp add: wf_put)
    note f = fits_put [OF 1(1)]
    from assms(2) wf' show ?thesis
    proof (cases rule: pb_writesE)
      case 2: 1
      with 1 f show ?thesis by simp
    next
      case (2 k e)
      with 1 f [of k] f [of "length cs"] show ?thesis
        by (auto intro!: exI [of _ "length bs + k"])
    qed
  next
    case (2 k e)
    then have "\<not> fits (length (bs @ cs)) s" using fits_mono [of "length bs + length cs" s "length bs"] by auto
    with 2 show ?thesis by (auto intro!: exI [of _ k])
  qed
qed

lemma pb_writes_write [pb_writers]:
  assumes "unat count \<le> length buf"
  shows "pb_writes (pb_write buf count) (take (unat count) buf)"
  unfolding pb_writes_def
proof (intro allI impI)
  fix s :: "'a pb_ostream"
  assume wf: "wf_ostream s"
  have n: "length (take (unat count) buf) = unat count" using assms by simp
  show "if fits (length (take (unat count) buf)) s then pb_write buf count s = pb_ok (put (take (unat count) buf) s)
    else \<exists>k e. k < length (take (unat count) buf) \<and> fits k s \<and>
      pb_write buf count s = Some (None, (put (take k (take (unat count) buf)) s)\<lparr>oerrmsg := Some e\<rparr>)"
  proof (cases "fits (unat count) s")
    case True
    then show ?thesis unfolding n by (simp add: pb_write_wf wf assms)
  next
    case False
    have "0 < unat count" using False fits_0 [OF wf] by (cases "unat count") auto
    moreover obtain e where "(pb_oreturn_error s ''stream full'' :: (unit, 'a pb_ostream) pb_result) = Some (None, s\<lparr>oerrmsg := Some e\<rparr>)"
      by (cases "oerrmsg s") (auto simp: pb_oreturn_error_def)
    ultimately show ?thesis
      unfolding n using False fits_0 [OF wf]
      by (auto simp: pb_write_wf wf assms intro!: exI [of _ 0])
  qed
qed

text \<open>The bytes of \<open>pb_encode_varint\<close> before the last one is cut to 7 bits.\<close>

fun announced :: "nat \<Rightarrow> byte list" where
  "announced n = (if n = 0 then [] else announcing n # announced (n div 128))"

declare announced.simps [simp del]

lemma announcing_word: "ucast (v AND 0x7F) OR 0x80 = announcing (unat v)" for v :: u64
proof -
  have "(0x7F :: u64) = mask 7" by (simp add: mask_eq_exp_minus_1)
  then have "v AND 0x7F = take_bit 7 v" by (simp only: take_bit_eq_mask)
  then have v: "unat (v AND 0x7F) = unat v mod 128"
    by (simp only: unsigned_take_bit_eq) (simp add: take_bit_eq_mod)
  then have x: "unat (ucast (v AND 0x7F) :: byte) = unat v mod 128"
    by (simp add: unsigned_ucast_eq take_bit_eq_mod)
  then have "(ucast (v AND 0x7F) :: byte) AND 0x80 = 0" by (simp add: byte_top_bit)
  then have "unat (ucast (v AND 0x7F) OR 0x80 :: byte) = unat v mod 128 + 128"
    by (simp only: unat_or_disjoint x) simp
  then show ?thesis by (simp add: word_unat_eq_iff)
qed

lemma announced_varint: "0 < n \<Longrightarrow> announced n \<noteq> [] \<and>
  (announced n)[length (announced n) - 1 := announced n ! (length (announced n) - 1) AND 0x7F] = varint n"
proof (induction n rule: varint.induct)
  case (1 n)
  have cut: "announcing n AND 0x7F = word_of_nat (n mod 128)"
    
    by (metis unat_byte_and_7f unat_announcing of_nat_unat ucast_id mod_add_self2 mod_mod_trivial)
  show ?case
  proof (cases "n < 128")
    case True
    with 1 cut show ?thesis by (simp add: announced.simps [of n] announced.simps [of 0] varint.simps [of n])
  next
    case False
    then have "0 < n div 128" by (simp add: div_greater_zero_iff)
    with 1(1) False obtain c cs where c: "announced (n div 128) = c # cs"
      "(announced (n div 128))[length (announced (n div 128)) - 1 := announced (n div 128) ! (length (announced (n div 128)) - 1) AND 0x7F] = varint (n div 128)"
      by (cases "announced (n div 128)") auto
    with False show ?thesis by (simp add: announced.simps [of n] varint.simps [of n])
  qed
qed

lemma varint_buffer_exact:
  "length buffer + length (announced (unat v)) \<le> 10 \<Longrightarrow>
   varint_buffer v buffer = Some (buffer @ announced (unat v))"
proof (induction v buffer rule: varint_buffer.induct)
  case (1 v buffer)
  show ?case
  proof (cases "v = 0")
    case True
    then show ?thesis by (simp add: varint_buffer.simps announced.simps)
  next
    case False
    then have a: "announced (unat v) = announcing (unat v) # announced (unat v div 128)"
      by (subst announced.simps) (simp add: unat_eq_0)
    have "unat (drop_bit 7 v) = unat v div 128" 
      using unat_drop_bit_eq [of 7 v] drop_bit_eq_div [of 7 "unat v"] by simp
    with 1 a False show ?thesis
      by (subst varint_buffer.simps) (simp add: announcing_word)
  qed
qed

lemma pb_writes_encode_varint [pb_writers]: "pb_writes (pb_encode_varint v) (varint (unat v))"
proof (cases "v \<le> 0x7F")
  case True
  then have small: "unat v < 128" by (simp add: word_le_nat_alt)
  then have "varint (unat v) = [ucast v]"
    by (subst varint.simps) (simp add: of_nat_unat)
  moreover have "pb_encode_varint v = (pb_write [ucast v] 1 :: 'a pb_ostream \<Rightarrow> _)"
    using True by (simp add: pb_encode_varint_def fun_eq_iff)
  ultimately show ?thesis using pb_writes_write [of 1 "[ucast v]"] by simp
next
  case False
  then have pos: "0 < unat v" "128 \<le> unat v" by (simp_all add: word_le_nat_alt)
  have "unat v < 128 ^ 10" using unsigned_less [of v, where 'a = nat] by simp
  then have "length (varint (unat v)) \<le> 10" by (simp add: length_varint_le)
  moreover note a = announced_varint [OF pos(1)]
  ultimately have len: "length (announced (unat v)) \<le> 10" "length (announced (unat v)) = length (varint (unat v))"
    by (metis length_list_update)+
  have "pb_encode_varint v = (pb_write (varint (unat v)) (word_of_nat (length (varint (unat v)))) :: 'a pb_ostream \<Rightarrow> _)"
    using False varint_buffer_exact [of "[]" v] len a by (simp add: pb_encode_varint_def fun_eq_iff)
  moreover have "unat (word_of_nat (length (varint (unat v))) :: u64) = length (varint (unat v))"
    using len by (simp add: unat_of_nat)
  ultimately show ?thesis using pb_writes_write [of "word_of_nat (length (varint (unat v)))" "varint (unat v)"] by simp
qed

section \<open>Codecs\<close>

text \<open>
  The interface between an encoder and the decoder of the same type: what is written for a value, that
  the encoder writes it, and that the decoder reads it back from the front of a stream and stops
  behind it.
\<close>

locale pb_codec =
  fixes encode :: "'v \<Rightarrow> 's pb_ostream \<Rightarrow> (unit, 's pb_ostream) pb_result"
    and decode :: "'t pb_istream \<Rightarrow> ('v, 't pb_istream) pb_result"
    and wire :: "'v \<Rightarrow> byte list"
  assumes writes: "pb_writes (encode v) (wire v)"
    and reads: "wf_istream s \<Longrightarrow> pending s = wire v @ rest \<Longrightarrow> decode s = Some (Some v, advance (length (wire v)) s)"
begin

lemma pending_after:
  assumes "wf_istream s" "pending s = wire v @ rest"
  shows "\<exists>s'. decode s = Some (Some v, s') \<and> wf_istream s' \<and> pending s' = rest \<and> ierrmsg s' = ierrmsg s"
  using assms reads [OF assms] by simp

text \<open>Two streams that differ only in what follows the value agree on the value.\<close>

lemma wire_inject: "wire v = wire w \<Longrightarrow> length (wire v) < size_mod \<Longrightarrow> v = w"
  using reads [of "pb_istream_from_buffer (wire v) (word_of_nat (length (wire v)))" v "[]"]
    reads [of "pb_istream_from_buffer (wire v) (word_of_nat (length (wire v)))" w "[]"]
  by (simp add: unat_of_nat)

text \<open>Into a buffer with room and back.\<close>

lemma round_trip:
  assumes "length (wire v) \<le> n" "n < size_mod"
  shows "\<exists>w. encode v (pb_ostream_from_buffer n (word_of_nat n)) = pb_ok w \<and>
    sink w = Some (Buf_write (wire v) (n - length (wire v))) \<and>
    bytes_written w = word_of_nat (length (wire v)) \<and>
    (\<forall>rest m. unat m = length (wire v @ rest) \<longrightarrow>
      (\<exists>s. decode (pb_istream_from_buffer (wire v @ rest) m) = Some (Some v, s) \<and> pending s = rest))"
proof -
  let ?o = "pb_ostream_from_buffer n (word_of_nat n) :: 's pb_ostream"
  have wf: "wf_ostream ?o" "fits (length (wire v)) ?o"
    using assms by (simp_all add: wf_ostream_def fits_def pb_ostream_from_buffer_def unat_of_nat)
  have "encode v ?o = pb_ok (put (wire v) ?o)" by (rule pb_writesD [OF writes wf])
  moreover have "sink (put (wire v) ?o) = Some (Buf_write (wire v) (n - length (wire v)))"
    "bytes_written (put (wire v) ?o) = word_of_nat (length (wire v))"
    by (simp_all add: put_def pb_ostream_from_buffer_def)
  moreover have "\<exists>s. decode (pb_istream_from_buffer (wire v @ rest) m) = Some (Some v, s) \<and> pending s = rest"
    if "unat m = length (wire v @ rest)" for rest m
    using pending_after [of "pb_istream_from_buffer (wire v @ rest) m" v rest] that by auto
  ultimately show ?thesis by auto
qed

text \<open>A stream that only counts, and one over a buffer that is too small.\<close>

lemma sizing: "encode v PB_OSTREAM_SIZING = pb_ok (PB_OSTREAM_SIZING\<lparr>bytes_written := word_of_nat (length (wire v))\<rparr>)"
proof -
  have "wf_ostream (PB_OSTREAM_SIZING :: 's pb_ostream)" "fits (length (wire v)) (PB_OSTREAM_SIZING :: 's pb_ostream)"
    by (simp_all add: wf_ostream_def fits_def PB_OSTREAM_SIZING_def)
  from pb_writesD [OF writes this] show ?thesis by (simp add: put_def PB_OSTREAM_SIZING_def)
qed

lemma too_small: "wf_ostream s \<Longrightarrow> \<not> fits (length (wire v)) s \<Longrightarrow> \<exists>s'. encode v s = Some (None, s')"
  using writes by (metis pb_writesE)

end

text \<open>The signed number of a 64-bit word, zigzagged.\<close>

definition zigzag :: "u64 \<Rightarrow> u64" where
  "zigzag v = (if sint v < 0 then NOT (push_bit 1 v) else push_bit 1 v)"

lemma zigzag_back: "(if zigzag v AND 1 \<noteq> 0 then NOT (drop_bit 1 (zigzag v)) else drop_bit 1 (zigzag v)) = v"
proof (cases "sint v < 0")
  case True
  then have "bit v 63" using bit_last_iff [of v] by simp
  moreover have "zigzag v AND 1 \<noteq> 0"
    using True and_exp_eq_0_iff_not_bit [of "zigzag v" 0]
    by (simp only: zigzag_def if_True bit_not_iff bit_push_bit_iff power_0) simp
  moreover have "NOT (drop_bit 1 (zigzag v)) = v"
  proof (rule bit_word_eqI)
    fix n assume "n < LENGTH(64)"
    moreover have "bit (v * 2) (Suc n) \<longleftrightarrow> Suc n < 64 \<and> bit v n"
      using bit_push_bit_iff [of 1 v "Suc n"] by simp
    ultimately show "bit (NOT (drop_bit 1 (zigzag v))) n = bit v n"
      using True \<open>bit v 63\<close> by (cases "n = 63") (auto simp: zigzag_def bit_not_iff bit_drop_bit_eq bit_push_bit_iff)
  qed
  ultimately show ?thesis by simp
next
  case False
  then have "\<not> bit v 63" using bit_last_iff [of v] by simp
  moreover have "zigzag v AND 1 = 0"
    using False and_exp_eq_0_iff_not_bit [of "zigzag v" 0]
    by (simp only: zigzag_def if_False bit_push_bit_iff power_0) simp
  moreover have "drop_bit 1 (zigzag v) = v"
  proof (rule bit_word_eqI)
    fix n assume "n < LENGTH(64)"
    moreover have "bit (v * 2) (Suc n) \<longleftrightarrow> Suc n < 64 \<and> bit v n"
      using bit_push_bit_iff [of 1 v "Suc n"] by simp
    ultimately show "bit (drop_bit 1 (zigzag v)) n = bit v n"
      using False \<open>\<not> bit v 63\<close> by (cases "n = 63") (auto simp: zigzag_def bit_drop_bit_eq bit_push_bit_iff)
  qed
  ultimately show ?thesis by simp
qed

lemma pb_writes_encode_svarint [pb_writers]: "pb_writes (pb_encode_svarint v) (varint (unat (zigzag v)))"
proof -
  have "pb_encode_svarint v = (pb_encode_varint (zigzag v) :: 'a pb_ostream \<Rightarrow> _)"
    by (simp add: fun_eq_iff pb_encode_svarint_def zigzag_def)
  then show ?thesis by (simp add: pb_writers)
qed

lemma length_varint_u64: "length (varint (unat (v :: u64))) \<le> 10"
  using unsigned_less [of v, where 'a = nat] by (simp add: length_varint_le)

lemma pb_decode_svarint_reads:
  assumes "wf_istream s" "pending s = varint (unat (zigzag v)) @ rest"
  shows "pb_decode_svarint s = Some (Some v, advance (length (varint (unat (zigzag v)))) s)"
  using pb_decode_varint_reads [OF assms is_varint_varint length_varint_u64] zigzag_back [of v]
  by (auto simp: pb_decode_svarint_def split: if_splits)

text \<open>Four and eight bytes, the least significant first.\<close>

definition le_bytes :: "nat \<Rightarrow> nat \<Rightarrow> byte list" where
  "le_bytes n v = rev (be_bytes n v)"

lemma length_le_bytes [simp]: "length (le_bytes n v) = n"
  by (simp add: le_bytes_def)

lemma le_bytes_Suc: "le_bytes (Suc n) v = word_of_nat v # le_bytes n (v div 256)"
  by (simp add: le_bytes_def)

lemma le_bytes_0: "le_bytes 0 v = []"
  by (simp add: le_bytes_def)

lemma le_bytes_numeral: "le_bytes (numeral k) v = word_of_nat v # le_bytes (pred_numeral k) (v div 256)"
  unfolding numeral_eq_Suc [of k] by (rule le_bytes_Suc)

lemma byte_slice: "ucast (drop_bit k v AND 0xFF) = (word_of_nat (unat v div 2 ^ k) :: byte)"
  for v :: "'a::len word"
proof -
  have "(0xFF :: 'a word) = mask 8" by (simp add: mask_eq_exp_minus_1)
  then have "ucast (drop_bit k v AND 0xFF) = (ucast (take_bit 8 (drop_bit k v)) :: byte)"
    by (simp only: take_bit_eq_mask)
  also have "\<dots> = ucast (drop_bit k v)"
    by (rule bit_word_eqI) (auto simp: bit_ucast_iff bit_take_bit_iff dest: bit_imp_le_length)
  also have "\<dots> = word_of_nat (unat v div 2 ^ k)"
    by (metis of_nat_unat unat_drop_bit_eq drop_bit_eq_div)
  finally show ?thesis .
qed

lemma pb_writes_encode_fixed32 [pb_writers]: "pb_writes (pb_encode_fixed32 v) (le_bytes 4 (unat v))"
proof -
  have "[ucast (v AND 0xFF), ucast (drop_bit 8 v AND 0xFF), ucast (drop_bit 16 v AND 0xFF),
      ucast (drop_bit 24 v AND 0xFF)] = le_bytes 4 (unat v)"
    using byte_slice [of 0 v]
    by (simp add: byte_slice le_bytes_numeral le_bytes_Suc le_bytes_0 div_mult2_eq [symmetric])
  then have "pb_encode_fixed32 v = (pb_write (le_bytes 4 (unat v)) 4 :: 'a pb_ostream \<Rightarrow> _)"
    by (simp add: fun_eq_iff pb_encode_fixed32_def)
  then show ?thesis using pb_writes_write [of 4 "le_bytes 4 (unat v)"] by simp
qed

lemma pb_writes_encode_fixed64 [pb_writers]: "pb_writes (pb_encode_fixed64 v) (le_bytes 8 (unat v))"
proof -
  have "[ucast (v AND 0xFF), ucast (drop_bit 8 v AND 0xFF), ucast (drop_bit 16 v AND 0xFF),
      ucast (drop_bit 24 v AND 0xFF), ucast (drop_bit 32 v AND 0xFF), ucast (drop_bit 40 v AND 0xFF),
      ucast (drop_bit 48 v AND 0xFF), ucast (drop_bit 56 v AND 0xFF)] = le_bytes 8 (unat v)"
    using byte_slice [of 0 v]
    by (simp add: byte_slice le_bytes_numeral le_bytes_Suc le_bytes_0 div_mult2_eq [symmetric])
  then have "pb_encode_fixed64 v = (pb_write (le_bytes 8 (unat v)) 8 :: 'a pb_ostream \<Rightarrow> _)"
    by (simp add: fun_eq_iff pb_encode_fixed64_def)
  then show ?thesis using pb_writes_write [of 8 "le_bytes 8 (unat v)"] by simp
qed

fun le_nat :: "byte list \<Rightarrow> nat" where
  "le_nat [] = 0"
| "le_nat (b # bs) = unat b + 256 * le_nat bs"

lemma le_nat_le_bytes: "le_nat (le_bytes n v) = v mod 256 ^ n"
  by (induction n arbitrary: v) (simp_all add: le_bytes_0 le_bytes_Suc mod_mult2_eq)

lemma fixed32_value:
  assumes "length bs = 4"
  shows "push_bit 0 (ucast (bs ! 0)) OR push_bit 8 (ucast (bs ! 1)) OR push_bit 16 (ucast (bs ! 2)) OR
    push_bit 24 (ucast (bs ! 3)) = (word_of_nat (le_nat bs) :: u32)"
proof -
  from assms obtain a b c d where bs: "bs = [a, b, c, d]"
    by (auto simp: length_Suc_conv numeral_eq_Suc)
  show ?thesis
    using byte_step [of 0 a "le_nat [b, c, d]", where 'a = 32] byte_step [of 8 b "le_nat [c, d]", where 'a = 32]
      byte_step [of 16 c "le_nat [d]", where 'a = 32] byte_step [of 24 d 0, where 'a = 32]
    unfolding bs by (simp del: of_nat_add of_nat_mult add: or.assoc)
qed

lemma fixed64_value:
  assumes "length bs = 8"
  shows "push_bit 0 (ucast (bs ! 0)) OR push_bit 8 (ucast (bs ! 1)) OR push_bit 16 (ucast (bs ! 2)) OR
    push_bit 24 (ucast (bs ! 3)) OR push_bit 32 (ucast (bs ! 4)) OR push_bit 40 (ucast (bs ! 5)) OR
    push_bit 48 (ucast (bs ! 6)) OR push_bit 56 (ucast (bs ! 7)) = (word_of_nat (le_nat bs) :: u64)"
proof -
  from assms obtain a b c d e f g h where bs: "bs = [a, b, c, d, e, f, g, h]"
    by (auto simp: length_Suc_conv numeral_eq_Suc)
  show ?thesis
    using byte_step [of 0 a "le_nat [b, c, d, e, f, g, h]", where 'a = 64]
      byte_step [of 8 b "le_nat [c, d, e, f, g, h]", where 'a = 64]
      byte_step [of 16 c "le_nat [d, e, f, g, h]", where 'a = 64]
      byte_step [of 24 d "le_nat [e, f, g, h]", where 'a = 64]
      byte_step [of 32 e "le_nat [f, g, h]", where 'a = 64]
      byte_step [of 40 f "le_nat [g, h]", where 'a = 64]
      byte_step [of 48 g "le_nat [h]", where 'a = 64] byte_step [of 56 h 0, where 'a = 64]
    unfolding bs by (simp del: of_nat_add of_nat_mult add: or.assoc)
qed

lemma pb_decode_fixed32_reads:
  assumes "wf_istream s" "pending s = bs @ rest" "length bs = 4"
  shows "pb_decode_fixed32 s = Some (Some (word_of_nat (le_nat bs)), advance 4 s)"
  using assms by (simp add: pb_decode_fixed32_def pb_read_wf fixed32_value [simplified])

lemma pb_decode_fixed64_reads:
  assumes "wf_istream s" "pending s = bs @ rest" "length bs = 8"
  shows "pb_decode_fixed64 s = Some (Some (word_of_nat (le_nat bs)), advance 8 s)"
  using assms by (simp add: pb_decode_fixed64_def pb_read_wf fixed64_value [simplified])

text \<open>The loop of \<open>pb_decode_varint32_eof\<close> up to its fifth byte.\<close>

lemma varint32_loop_short:
  assumes "wf_istream s" "0 < k" "k + length bs \<le> 5" "is_varint bs" "pending s = bs @ rest" "unat p = 7 * k"
  shows "varint32_loop result p s =
    Some (Some (result OR word_of_nat (2 ^ (7 * k) * varint_nat bs), p + 7 * word_of_nat (length bs), last bs),
      advance (length bs) s)"
  using assms
proof (induction bs arbitrary: s k p result)
  case (Cons b bs)
  from Cons.prems(3,6) have pos: "\<not> p \<ge> 32" "unat (p + 7) = 7 * Suc k"
    by (simp add: word_le_nat_alt) (use Cons.prems(3,6) in \<open>simp add: bitpos_Suc\<close>)
  have step: "push_bit (7 * k) (ucast (b AND 0x7F)) OR word_of_nat (2 ^ (7 * Suc k) * varint_nat bs) =
      (word_of_nat (2 ^ (7 * k) * varint_nat (b # bs)) :: u32)"
    using varint_step [of "7 * k" b "varint_nat bs", where 'a = 32] by (simp add: add.commute)
  show ?case
  proof (cases "unat b < 128")
    case True
    with Cons.prems step pos(1) show ?thesis
      by (subst varint32_loop.simps) (simp add: pb_readbyte_wf Let_def byte_top_bit)
  next
    case False
    have "varint32_loop r (p + 7) (advance (Suc 0) s) =
        Some (Some (r OR word_of_nat (2 ^ (7 * Suc k) * varint_nat bs), p + 7 + 7 * word_of_nat (length bs), last bs),
          advance (length bs) (advance (Suc 0) s))" for r
      using Cons.prems False pos(2) by (intro Cons.IH) auto
    with Cons.prems False pos(1) show ?thesis
      by (subst varint32_loop.simps)
         (auto simp: pb_readbyte_wf Let_def byte_top_bit or.assoc step add.assoc distrib_left
           simp del: varint_nat.simps mult_Suc_right of_nat_mult)
  qed
qed simp

lemma varint32_loop_announced:
  assumes "wf_istream s" "0 < k" "k + length bs \<le> 5" "\<forall>b \<in> set bs. 128 \<le> unat b"
    "pending s = bs @ rest" "unat p = 7 * k"
  shows "varint32_loop result p s =
    varint32_loop (result OR word_of_nat (2 ^ (7 * k) * varint_nat bs)) (p + 7 * word_of_nat (length bs))
      (advance (length bs) s)"
  using assms
proof (induction bs arbitrary: s k p result)
  case (Cons b bs)
  from Cons.prems(3,6) have pos: "\<not> p \<ge> 32" "unat (p + 7) = 7 * Suc k"
    by (simp add: word_le_nat_alt) (use Cons.prems(3,6) in \<open>simp add: bitpos_Suc\<close>)
  have step: "push_bit (7 * k) (ucast (b AND 0x7F)) OR word_of_nat (2 ^ (7 * Suc k) * varint_nat bs) =
      (word_of_nat (2 ^ (7 * k) * varint_nat (b # bs)) :: u32)"
    using varint_step [of "7 * k" b "varint_nat bs", where 'a = 32] by (simp add: add.commute)
  have IH: "varint32_loop r (p + 7) (advance (Suc 0) s) =
      varint32_loop (r OR word_of_nat (2 ^ (7 * Suc k) * varint_nat bs)) (p + 7 + 7 * word_of_nat (length bs))
        (advance (length bs) (advance (Suc 0) s))" for r
    using Cons.prems pos(2) by (intro Cons.IH) auto
  with Cons.prems pos(1) show ?case
    by (subst varint32_loop.simps)
       (auto simp: pb_readbyte_wf Let_def byte_top_bit or.assoc step add.assoc distrib_left
         simp del: varint_nat.simps mult_Suc_right of_nat_mult)
qed simp

text \<open>Behind the fifth byte: groups of zeros or ones, and a last bit, when bit 31 is set.\<close>

primrec sign_extends :: "nat \<Rightarrow> nat \<Rightarrow> bool" where
  "sign_extends 0 m \<longleftrightarrow> m = 1"
| "sign_extends (Suc j) m \<longleftrightarrow> m mod 128 \<in> {0, 127} \<and> sign_extends j (m div 128)"

lemma sign_extends_0 [simp]: "\<not> sign_extends j 0"
  by (induction j) auto

lemma small_byte:
  assumes "0 < m" "m < 128"
  shows "word_of_nat m AND 0x80 = (0 :: byte)" "word_of_nat m AND 0x7F \<noteq> (0 :: byte)"
    "word_of_nat m = (1 :: byte) \<longleftrightarrow> m = 1" "word_of_nat m \<noteq> (0xFF :: byte)"
proof -
  have u: "unat (word_of_nat m :: byte) = m" using assms(2) by simp
  then show "word_of_nat m AND 0x80 = (0 :: byte)" using assms(2) by (simp only: byte_top_bit)
  have "unat (word_of_nat m AND 0x7F :: byte) = m"
    using u assms(2) by (simp only: unat_byte_and_7f mod_less)
  then show "word_of_nat m AND 0x7F \<noteq> (0 :: byte)" using assms(1) by auto
  show "word_of_nat m = (1 :: byte) \<longleftrightarrow> m = 1" "word_of_nat m \<noteq> (0xFF :: byte)"
    using u assms(2) by (auto simp: word_unat_eq_iff)
qed

lemma announcing_byte:
  "announcing m AND 0x80 \<noteq> 0" "announcing m AND 0x7F = 0 \<longleftrightarrow> m mod 128 = 0"
  "announcing m = 0xFF \<longleftrightarrow> m mod 128 = 127"
proof -
  show "announcing m AND 0x80 \<noteq> 0" by (simp add: byte_top_bit)
  have "unat (announcing m AND 0x7F) = m mod 128" by (simp only: unat_byte_and_7f unat_announcing) simp
  then show "announcing m AND 0x7F = 0 \<longleftrightarrow> m mod 128 = 0" by (metis unsigned_0 unsigned_eq_0_iff)
  show "announcing m = 0xFF \<longleftrightarrow> m mod 128 = 127" by (simp add: word_unat_eq_iff)
qed

lemma varint32_loop_tail:
  assumes "wf_istream s" "j \<le> 4" "length (varint m) \<le> Suc j" "0 < m" "pending s = varint m @ rest"
    "unat p = 7 * (9 - j)"
  shows "if drop_bit 31 result \<noteq> 0 \<and> sign_extends j m
    then varint32_loop result p s =
      Some (Some (result, p + 7 * word_of_nat (length (varint m)), 1), advance (length (varint m)) s) \<and>
      length (varint m) = Suc j
    else \<exists>k \<le> length (varint m). varint32_loop result p s = pb_ireturn_error (advance k s) ''varint overflow''"
  using assms
proof (induction j arbitrary: s m p)
  case 0
  then have "m < 128" by (simp add: length_varint_le)
  then have v: "varint m = [word_of_nat m]" by (subst varint.simps) simp
  have p: "p \<ge> 32" "\<not> p < 63" using 0 by (simp_all add: word_le_nat_alt word_less_nat_alt)
  note b = small_byte [OF \<open>0 < m\<close> \<open>m < 128\<close>]
  show ?case
    using 0 v p b
    by (subst (1 2) varint32_loop.simps)
       (auto simp: pb_readbyte_wf Let_def intro!: exI [of _ "Suc 0"])
next
  case (Suc j)
  have p: "p \<ge> 32" "p < 63" "unat (p + 7) = 7 * (9 - j)"
    using Suc.prems(2,6) bitpos_Suc [of p "9 - Suc j"]
    by (simp_all add: word_le_nat_alt word_less_nat_alt Suc_diff_Suc)
  show ?case
  proof (cases "m < 128")
    case True
    then have v: "varint m = [word_of_nat m]" by (subst varint.simps) simp
    note b = small_byte [OF \<open>0 < m\<close> True]
    show ?thesis
      using Suc.prems v p b True
      by (subst (1 2) varint32_loop.simps)
         (auto simp: pb_readbyte_wf Let_def intro!: exI [of _ "Suc 0"])
  next
    case False
    then have v: "varint m = announcing m # varint (m div 128)" by (subst varint.simps) simp
    note b = announcing_byte
    have IH: "if drop_bit 31 result \<noteq> 0 \<and> sign_extends j (m div 128)
      then varint32_loop result (p + 7) (advance (Suc 0) s) =
        Some (Some (result, p + 7 + 7 * word_of_nat (length (varint (m div 128))), 1),
          advance (length (varint (m div 128))) (advance (Suc 0) s)) \<and> length (varint (m div 128)) = Suc j
      else \<exists>k \<le> length (varint (m div 128)).
        varint32_loop result (p + 7) (advance (Suc 0) s) = pb_ireturn_error (advance k (advance (Suc 0) s)) ''varint overflow''"
      using Suc.prems v p False by (intro Suc.IH) (simp_all add: div_greater_zero_iff)
    have step: "varint32_loop result p s =
      (if m mod 128 \<noteq> 0 \<and> (drop_bit 31 result = 0 \<or> m mod 128 \<noteq> 127)
       then pb_ireturn_error (advance (Suc 0) s) ''varint overflow''
       else varint32_loop result (p + 7) (advance (Suc 0) s))"
      using Suc.prems v p b by (subst varint32_loop.simps) (simp add: pb_readbyte_wf Let_def)
    show ?thesis
    proof (cases "m mod 128 \<noteq> 0 \<and> (drop_bit 31 result = 0 \<or> m mod 128 \<noteq> 127)")
      case True
      with step v show ?thesis by (auto intro!: exI [of _ "Suc 0"])
    next
      case False
      with step v IH show ?thesis
        by (auto simp: algebra_simps split: if_splits intro!: exI [of _ "Suc k" for k])
    qed
  qed
qed

lemma varint_prefix:
  "128 ^ k \<le> n \<Longrightarrow> \<exists>bs. length bs = k \<and> (\<forall>b \<in> set bs. 128 \<le> unat b) \<and>
     varint_nat bs = n mod 128 ^ k \<and> varint n = bs @ varint (n div 128 ^ k)"
proof (induction k arbitrary: n)
  case (Suc k)
  have "\<not> n < 128" using Suc.prems one_le_power [of "128 :: nat" k] unfolding power_Suc by linarith
  then have v: "varint n = announcing n # varint (n div 128)" by (subst varint.simps) simp
  have "128 ^ k \<le> n div 128" using Suc.prems by (simp add: less_eq_div_iff_mult_less_eq mult.commute)
  from Suc.IH [OF this] obtain bs where "length bs = k" "\<forall>b \<in> set bs. 128 \<le> unat b"
    "varint_nat bs = n div 128 mod 128 ^ k" "varint (n div 128) = bs @ varint (n div 128 div 128 ^ k)"
    by blast
  with v show ?case
    by (intro exI [of _ "announcing n # bs"]) (simp add: mod_mult2_eq div_mult2_eq)
qed simp

lemma last_varint: "last (varint n) = word_of_nat (n div 128 ^ (length (varint n) - 1))"
proof (induction n rule: varint.induct)
  case (1 n)
  show ?case
  proof (cases "n < 128")
    case False
    then have v: "varint n = announcing n # varint (n div 128)" by (subst varint.simps) simp
    have "(128 :: nat) ^ length (varint (n div 128)) = 128 * 128 ^ (length (varint (n div 128)) - 1)"
      by (cases "varint (n div 128)") simp_all
    with 1 False v show ?thesis by (simp add: div_mult2_eq)
  qed (simp add: varint.simps [of n])
qed

lemma byte_and_70: "(b :: byte) AND 0x70 = 0 \<longleftrightarrow> unat b div 16 mod 8 = 0"
proof -
  have m: "(0x70 :: byte) = push_bit 4 (mask 3)" by (simp add: mask_eq_exp_minus_1)
  have "b AND 0x70 = push_bit 4 (take_bit 3 (drop_bit 4 b))"
    unfolding m by (rule bit_word_eqI)
      (auto simp: bit_and_iff bit_push_bit_iff bit_mask_iff bit_take_bit_iff bit_drop_bit_eq)
  moreover have "push_bit 4 (take_bit 3 (drop_bit 4 b)) = 0 \<longleftrightarrow> take_bit 3 (drop_bit 4 b) = 0"
  proof
    assume *: "push_bit 4 (take_bit 3 (drop_bit 4 b)) = 0"
    show "take_bit 3 (drop_bit 4 b) = 0"
    proof (rule bit_word_eqI)
      fix n assume "n < LENGTH(8)"
      have "bit (push_bit 4 (take_bit 3 (drop_bit 4 b))) (n + 4) = bit (0 :: byte) (n + 4)" by (simp only: *)
      then show "bit (take_bit 3 (drop_bit 4 b)) n = bit 0 n"
        by (auto simp: bit_push_bit_iff bit_take_bit_iff)
    qed
  qed simp
  moreover have "unat (take_bit 3 (drop_bit 4 b)) = unat b div 16 mod 8"
    by (simp only: unsigned_take_bit_eq unat_drop_bit_eq) (simp add: take_bit_eq_mod drop_bit_eq_div)
  ultimately show ?thesis by (metis unsigned_0 unsigned_eq_0_iff)
qed

lemma top_bit_u32: "drop_bit 31 w = 0 \<longleftrightarrow> \<not> bit w 31" for w :: u32
proof -
  have "unat (drop_bit 31 w) = unat w div 2 ^ 31"
    using unat_drop_bit_eq [of 31 w] by (simp add: drop_bit_eq_div)
  moreover have "unat w div 2 ^ 31 < 2"
    using unsigned_less [of w, where 'a = nat] by (simp add: div_less_iff_less_mult)
  then have "unat w div 2 ^ 31 = 0 \<longleftrightarrow> \<not> odd (unat w div 2 ^ 31)"
    by (cases "unat w div 2 ^ 31") auto
  moreover have "bit w 31 \<longleftrightarrow> odd (unat w div 2 ^ 31)"
    using bit_unsigned_iff [of w 31, where 'a = nat] bit_iff_odd [of "unat w" 31] by simp
  ultimately show ?thesis by (metis unsigned_0 unsigned_eq_0_iff)
qed

lemma pb_decode_varint32_first:
  assumes "wf_istream s" "pending s = b # bs"
  shows "pb_decode_varint32 s =
    (if unat b < 128 then Some (Some (ucast b), advance (Suc 0) s)
     else pb_then (varint32_loop (ucast (b AND 0x7F)) 7 (advance (Suc 0) s)) (\<lambda>(result, bitpos, byte) s.
       if bitpos = 35 \<and> byte AND 0x70 \<noteq> 0 then pb_ireturn_error s ''varint overflow''
       else Some (Some result, s)))"
  using assms
  by (simp add: pb_decode_varint32_def pb_decode_varint32_eof_def pb_readbyte_wf byte_top_bit
      option.map_comp comp_def split_def option.map_ident)

lemma pb_decode_varint32_canonical:
  assumes "wf_istream s" "pending s = varint n @ rest" "n < 2 ^ 64"
  shows "if n < 2 ^ 32 \<or> bit n 31 \<and> sign_extends 4 (n div 2 ^ 35)
    then pb_decode_varint32 s = Some (Some (word_of_nat n), advance (length (varint n)) s)
    else \<exists>k \<le> length (varint n). pb_decode_varint32 s = pb_ireturn_error (advance k s) ''varint overflow''"
proof (cases "n < 128")
  case True
  then have "varint n = [word_of_nat n]" by (subst varint.simps) simp
  with True assms(1,2) show ?thesis
    by (simp add: pb_decode_varint32_first) (simp add: word_unat_eq_iff unat_ucast_up unat_of_nat)
next
  case False
  then have v: "varint n = announcing n # varint (n div 128)" by (subst varint.simps) simp
  let ?s = "advance (Suc 0) s"
  have s: "wf_istream ?s" "pending ?s = varint (n div 128) @ rest" using assms(1,2) v by simp_all
  have loop: "pb_decode_varint32 s =
    pb_then (varint32_loop (ucast (announcing n AND 0x7F)) 7 ?s) (\<lambda>(result, bitpos, byte) s.
       if bitpos = 35 \<and> byte AND 0x70 \<noteq> 0 then pb_ireturn_error s ''varint overflow''
       else Some (Some result, s))"
    using assms(1,2) v by (simp add: pb_decode_varint32_first)
  have value1: "ucast (announcing n AND 0x7F) OR word_of_nat (2 ^ 7 * m) = (word_of_nat (n mod 128 + 128 * m) :: u32)" for m
    using varint_step [of 0 "announcing n" m, where 'a = 32] by simp
  show ?thesis
  proof (cases "n < 2 ^ 35")
    case True
    then have "n div 128 < 128 ^ 4" by (simp add: div_less_iff_less_mult)
    then have len: "length (varint (n div 128)) \<le> 4" by (simp add: length_varint_le)
    have eq: "varint32_loop (ucast (announcing n AND 0x7F)) 7 ?s =
      Some (Some (word_of_nat n, 7 + 7 * word_of_nat (length (varint (n div 128))), last (varint (n div 128))),
        advance (length (varint n)) s)"
      using varint32_loop_short [OF s(1) _ _ is_varint_varint s(2), of 1 7] len value1 [of "n div 128"] v assms(1)
      by (simp del: of_nat_add of_nat_mult)
    show ?thesis
    proof (cases "length (varint (n div 128)) = 4")
      case False
      then have "n div 128 < 128 ^ 3" using len length_varint_le [of 3 "n div 128"] by simp
      then have small: "n < 2 ^ 32" by (simp add: div_less_iff_less_mult)
      have "length (varint (n div 128)) \<noteq> 0" by simp
      with False len have "length (varint (n div 128)) = 1 \<or> length (varint (n div 128)) = 2 \<or>
        length (varint (n div 128)) = 3" by linarith
      then have "(7 + 7 * word_of_nat (length (varint (n div 128))) :: byte) \<noteq> 35" by auto
      with small show ?thesis unfolding loop eq by simp
    next
      case len4: True
      have last: "last (varint (n div 128)) = word_of_nat (n div 2 ^ 28)"
        using last_varint [of "n div 128"] len4 by (simp add: div_mult2_eq [symmetric])
      have "n div 2 ^ 28 < 2 ^ 7" using True by (simp add: div_less_iff_less_mult)
      then have "unat (last (varint (n div 128))) = n div 2 ^ 28" unfolding last by simp
      moreover have "n div 2 ^ 28 div 16 mod 8 = 0 \<longleftrightarrow> n < 2 ^ 32"
      proof -
        have "n div 2 ^ 28 div 16 = n div 2 ^ 32" by (simp add: div_mult2_eq [symmetric])
        moreover have "n div 2 ^ 32 < 8" using True by (simp add: div_less_iff_less_mult)
        ultimately show ?thesis by (simp add: div_eq_0_iff)
      qed
      ultimately have top: "last (varint (n div 128)) AND 0x70 = 0 \<longleftrightarrow> n < 2 ^ 32"
        by (simp only: byte_and_70)
      have "n div 2 ^ 35 = 0" using True by simp
      with top show ?thesis unfolding loop eq by (auto simp: len4)
    qed
  next
    case big: False
    have "128 ^ 4 \<le> n div 128" using big by (simp add: less_eq_div_iff_mult_less_eq)
    from varint_prefix [OF this] obtain bs where bs: "length bs = 4" "\<forall>b \<in> set bs. 128 \<le> unat b"
      "varint_nat bs = n div 128 mod 128 ^ 4" "varint (n div 128) = bs @ varint (n div 128 div 128 ^ 4)"
      by blast
    have d: "n div 128 div 128 ^ 4 = n div 2 ^ 35" by (simp add: div_mult2_eq [symmetric])
    let ?m = "n div 2 ^ 35"
    have "0 < ?m" using big by (simp add: div_greater_zero_iff)
    have "?m < 128 ^ 5" using assms(3) by (simp add: div_less_iff_less_mult)
    then have len: "length (varint ?m) \<le> 5" by (simp add: length_varint_le)
    have low: "word_of_nat (n mod 128 + 128 * (n div 128 mod 128 ^ 4)) = (word_of_nat n :: u32)"
    proof -
      have "n mod 128 + 128 * (n div 128 mod 128 ^ 4) = n mod 2 ^ 35"
        using mod_mult2_eq [of n 128 "128 ^ 4"] by simp
      moreover have "n mod 2 ^ 35 mod 2 ^ 32 = n mod 2 ^ 32" by (intro mod_mod_cancel le_imp_power_dvd) simp
      ultimately show ?thesis by (simp add: word_unat_eq_iff unat_of_nat)
    qed
    have eq: "varint32_loop (ucast (announcing n AND 0x7F)) 7 ?s =
      varint32_loop (word_of_nat n) 35 (advance 4 ?s)"
      using varint32_loop_announced [OF s(1) _ _ bs(2), of 1 "varint ?m @ rest" 7 "ucast (announcing n AND 0x7F)"]
        s(2) bs value1 [of "n div 128 mod 128 ^ 4"] low unfolding d
      by (simp del: of_nat_add of_nat_mult)
    have s': "wf_istream (advance 4 ?s)" "pending (advance 4 ?s) = varint ?m @ rest"
      using wf_advance [of ?s 4] pending_advance [of ?s 4] s bs unfolding d
      by (simp_all del: advance_advance)
    have "unat (word_of_nat n :: u32) = take_bit 32 n" by (simp add: unsigned_of_nat)
    moreover have "bit (word_of_nat n :: u32) 31 \<longleftrightarrow> bit (unat (word_of_nat n :: u32)) 31"
      by (simp only: bit_unsigned_iff) simp
    ultimately have "drop_bit 31 (word_of_nat n :: u32) \<noteq> 0 \<longleftrightarrow> bit n 31"
      by (simp add: top_bit_u32 bit_take_bit_iff)
    with varint32_loop_tail [OF s'(1) _ _ \<open>0 < ?m\<close> s'(2), of 4 35 "word_of_nat n"] len
    have tail: "if bit n 31 \<and> sign_extends 4 ?m
      then varint32_loop (word_of_nat n) 35 (advance 4 ?s) =
        Some (Some (word_of_nat n, 35 + 7 * word_of_nat (length (varint ?m)), 1), advance (length (varint ?m)) (advance 4 ?s)) \<and>
        length (varint ?m) = 5
      else \<exists>k \<le> length (varint ?m). varint32_loop (word_of_nat n) 35 (advance 4 ?s) =
        pb_ireturn_error (advance k (advance 4 ?s)) ''varint overflow''"
      by (cases "bit n 31"; cases "sign_extends 4 ?m") simp_all
    have n: "length (varint n) = 5 + length (varint ?m)" "\<not> n < 2 ^ 32" using v bs big unfolding d by simp_all
    show ?thesis
    proof (cases "bit n 31 \<and> sign_extends 4 ?m")
      case True
      with tail n show ?thesis unfolding loop eq by simp
    next
      case False
      with tail obtain k where "k \<le> length (varint ?m)"
        "varint32_loop (word_of_nat n) 35 (advance 4 ?s) = pb_ireturn_error (advance (5 + k) s) ''varint overflow''"
        by auto
      with False n show ?thesis unfolding loop eq by (auto simp: pb_ireturn_error_def intro!: exI [of _ "5 + k"])
    qed
  qed
qed

lemma unat_word_of_nat_less: "n < 2 ^ LENGTH('a) \<Longrightarrow> unat (word_of_nat n :: 'a::len word) = n"
  by (simp add: unat_of_nat)

lemma pb_writes_encode_string [pb_writers]:
  assumes "unat n \<le> length buf"
  shows "pb_writes (pb_encode_string buf n) (varint (unat n) @ take (unat n) buf)"
proof -
  have "pb_encode_string buf n = (\<lambda>s :: 'a pb_ostream. pb_then (pb_encode_varint n s) (\<lambda>_. pb_write buf n))"
    by (simp add: fun_eq_iff pb_encode_string_def)
  then show ?thesis
    using pb_writes_then [OF pb_writes_encode_varint [of n] pb_writes_write [OF assms]] by simp
qed

text \<open>The first bytes of a field.\<close>

definition tag_bytes :: "pb_wire_type \<Rightarrow> nat \<Rightarrow> byte list" where
  "tag_bytes wt tag = varint (8 * tag + unat (wire_type_code wt))"

definition proper_wire_type :: "pb_wire_type \<Rightarrow> bool" where
  "proper_wire_type wt \<longleftrightarrow> (\<forall>n. wt \<noteq> PB_WT_other n)"

lemma wire_type_code_less: "proper_wire_type wt \<Longrightarrow> unat (wire_type_code wt) < 8"
  by (cases wt) (simp_all add: proper_wire_type_def)

lemma wire_type_of_code [simp]: "proper_wire_type wt \<Longrightarrow> wire_type_of (wire_type_code wt) = wt"
  by (cases wt) (simp_all add: proper_wire_type_def wire_type_of_def)

lemma pb_writes_encode_tag [pb_writers]:
  assumes "proper_wire_type wt"
  shows "pb_writes (pb_encode_tag wt tag) (tag_bytes wt (unat tag))"
proof -
  let ?n = "8 * unat tag + unat (wire_type_code wt)"
  have "push_bit 3 (ucast tag) OR ucast (wire_type_code wt) = (word_of_nat ?n :: u64)"
    using or_step [of "unat (wire_type_code wt)" 3 0 "unat tag", where 'a = 64] wire_type_code_less [OF assms]
    by (simp add: or.commute add.commute push_bit_eq_mult mult.commute)
  moreover have "unat (word_of_nat ?n :: u64) = ?n"
    using wire_type_code_less [OF assms] unsigned_less [of tag, where 'a = nat]
    by (intro unat_word_of_nat_less) simp
  ultimately have "pb_encode_tag wt tag = (pb_encode_varint (word_of_nat ?n) :: 'a pb_ostream \<Rightarrow> _)"
    by (simp add: fun_eq_iff pb_encode_tag_def del: of_nat_add of_nat_mult)
  with \<open>unat (word_of_nat ?n :: u64) = ?n\<close> show ?thesis
    using pb_writes_encode_varint [of "word_of_nat ?n"] by (simp add: tag_bytes_def del: of_nat_add of_nat_mult)
qed

lemma pb_decode_varint32_reads:
  assumes "wf_istream s" "pending s = varint n @ rest" "n < 2 ^ 32"
  shows "pb_decode_varint32 s = Some (Some (word_of_nat n), advance (length (varint n)) s)"
  using pb_decode_varint32_canonical [OF assms(1,2)] assms(3) by simp

lemma pb_decode_tag_reads:
  assumes "wf_istream s" "pending s = tag_bytes wt tag @ rest" "proper_wire_type wt" "0 < tag" "tag < 2 ^ 29"
  shows "pb_decode_tag s = Some ((Some (wt, word_of_nat tag), False), advance (length (tag_bytes wt tag)) s)"
proof -
  let ?n = "8 * tag + unat (wire_type_code wt)"
  note c = wire_type_code_less [OF assms(3)]
  with assms(5) have n: "?n < 2 ^ 32" by simp
  from pb_decode_varint32_reads [OF assms(1) assms(2) [unfolded tag_bytes_def] n]
  have dec: "pb_decode_varint32 s = Some (Some (word_of_nat ?n), advance (length (tag_bytes wt tag)) s)"
    by (simp add: tag_bytes_def)
  have "pending s \<noteq> []" using assms(2) by (simp add: tag_bytes_def)
  with dec have eof: "pb_decode_varint32_eof False s =
      Some ((Some (word_of_nat ?n), False), advance (length (tag_bytes wt tag)) s)"
    by (rule_tac varint32_eof_within [OF assms(1), of False]) (auto simp: pb_decode_varint32_def)
  have u: "unat (word_of_nat ?n :: u32) = ?n" using n by (intro unat_word_of_nat_less) simp
  then have "(word_of_nat ?n :: u32) \<noteq> 0" using assms(4) by (metis add_is_0 mult_is_0 not_gr_zero unsigned_0 zero_neq_numeral)
  moreover have "drop_bit 3 (word_of_nat ?n :: u32) = word_of_nat tag"
  proof -
    have "unat (drop_bit 3 (word_of_nat ?n :: u32)) = ?n div 8"
      using unat_drop_bit_eq [of 3 "word_of_nat ?n :: u32"] u by (simp add: drop_bit_eq_div del: of_nat_add of_nat_mult)
    also have "\<dots> = tag" using c by simp
    also have "\<dots> = unat (word_of_nat tag :: u32)" using assms(5) by (simp add: unat_of_nat)
    finally show ?thesis by (simp add: word_unat_eq_iff)
  qed
  moreover have "(word_of_nat ?n :: u32) AND 7 = wire_type_code wt"
  proof -
    have "(7 :: u32) = mask 3" by (simp add: mask_eq_exp_minus_1)
    then have "(word_of_nat ?n :: u32) AND 7 = take_bit 3 (word_of_nat ?n)" by (simp only: take_bit_eq_mask)
    then have "unat ((word_of_nat ?n :: u32) AND 7) = ?n mod 8"
      by (simp only: unsigned_take_bit_eq u) (simp add: take_bit_eq_mod)
    with c show ?thesis by (simp add: word_unat_eq_iff)
  qed
  ultimately show ?thesis
    unfolding pb_decode_tag_def eof using assms(3) by (simp del: of_nat_add of_nat_mult)
qed

text \<open>What may follow the tag.\<close>

definition payload :: "pb_wire_type \<Rightarrow> byte list \<Rightarrow> bool" where
  "payload wt bs =
     (case wt of
        PB_WT_VARINT \<Rightarrow> is_varint bs
      | PB_WT_64BIT \<Rightarrow> length bs = 8
      | PB_WT_STRING \<Rightarrow> (\<exists>xs. bs = varint (length xs) @ xs \<and> length xs < 2 ^ 32)
      | PB_WT_32BIT \<Rightarrow> length bs = 4
      | PB_WT_other _ \<Rightarrow> False)"

lemma pb_skip_varint_exact:
  "wf_istream s \<Longrightarrow> is_varint bs \<Longrightarrow> pending s = bs @ rest \<Longrightarrow> pb_skip_varint s = pb_ok (advance (length bs) s)"
proof (induction bs arbitrary: s)
  case (Cons b bs)
  have "pb_skip_varint s = pb_then (pb_readbyte s) (\<lambda>byte s. if byte AND 0x80 \<noteq> 0 then pb_skip_varint s else pb_ok s)"
    by (subst pb_skip_varint.simps) (simp only: pb_read_byte_wf [OF Cons.prems(1)])
  with Cons show ?case by (auto simp: pb_readbyte_wf byte_top_bit split: if_splits)
qed simp

lemma pb_skip_field_exact:
  assumes "wf_istream s" "payload wt bs" "pending s = bs @ rest"
  shows "pb_skip_field wt s = pb_ok (advance (length bs) s)"
proof (cases wt)
  case PB_WT_STRING
  with assms(2) obtain xs where xs: "bs = varint (length xs) @ xs" "length xs < 2 ^ 32"
    by (auto simp: payload_def)
  with assms(1,3) have "pb_decode_varint32 s = Some (Some (word_of_nat (length xs)), advance (length (varint (length xs))) s)"
    by (intro pb_decode_varint32_reads [of _ _ "xs @ rest"]) simp_all
  moreover have "unat (ucast (word_of_nat (length xs) :: u32) :: u64) = length xs"
    using xs(2) by (simp add: unat_ucast_up unat_of_nat)
  ultimately show ?thesis
    using PB_WT_STRING xs assms(1,3) by (simp add: pb_skip_field_def pb_skip_string_def pb_skip_wf)
qed (use assms in \<open>auto simp: pb_skip_field_def payload_def pb_skip_wf pb_skip_varint_exact\<close>)

section \<open>The codecs\<close>

interpretation varint_codec: pb_codec pb_encode_varint pb_decode_varint "\<lambda>v. varint (unat v)"
  by unfold_locales
     (simp_all add: pb_writers pb_decode_varint_reads [OF _ _ is_varint_varint length_varint_u64])

interpretation svarint_codec: pb_codec pb_encode_svarint pb_decode_svarint "\<lambda>v. varint (unat (zigzag v))"
  by unfold_locales (simp_all add: pb_writers pb_decode_svarint_reads)

interpretation fixed32_codec: pb_codec pb_encode_fixed32 pb_decode_fixed32 "\<lambda>v. le_bytes 4 (unat v)"
proof unfold_locales
  show "pb_writes (pb_encode_fixed32 v) (le_bytes 4 (unat v))" for v by (rule pb_writers)
  fix s :: "'b pb_istream" and v :: u32 and rest
  assume "wf_istream s" "pending s = le_bytes 4 (unat v) @ rest"
  from pb_decode_fixed32_reads [OF this] unsigned_less [of v, where 'a = nat]
  show "pb_decode_fixed32 s = Some (Some v, advance (length (le_bytes 4 (unat v))) s)"
    by (simp add: le_nat_le_bytes)
qed

interpretation fixed64_codec: pb_codec pb_encode_fixed64 pb_decode_fixed64 "\<lambda>v. le_bytes 8 (unat v)"
proof unfold_locales
  show "pb_writes (pb_encode_fixed64 v) (le_bytes 8 (unat v))" for v by (rule pb_writers)
  fix s :: "'b pb_istream" and v :: u64 and rest
  assume "wf_istream s" "pending s = le_bytes 8 (unat v) @ rest"
  from pb_decode_fixed64_reads [OF this] unsigned_less [of v, where 'a = nat]
  show "pb_decode_fixed64 s = Some (Some v, advance (length (le_bytes 8 (unat v))) s)"
    by (simp add: le_nat_le_bytes)
qed

interpretation varint32_codec: pb_codec "\<lambda>v. pb_encode_varint (ucast v)" pb_decode_varint32 "\<lambda>v :: u32. varint (unat v)"
proof unfold_locales
  show "pb_writes (pb_encode_varint (ucast v)) (varint (unat v))" for v :: u32
    using pb_writes_encode_varint [of "ucast v"] by (simp add: unat_ucast_up)
  fix s :: "'b pb_istream" and v :: u32 and rest
  assume "wf_istream s" "pending s = varint (unat v) @ rest"
  from pb_decode_varint32_reads [OF this] unsigned_less [of v, where 'a = nat]
  show "pb_decode_varint32 s = Some (Some v, advance (length (varint (unat v))) s)" by simp
qed

section \<open>Properties\<close>

text \<open>An encoder writes \<open>bs\<close> for \<open>v\<close> into any buffer with room, and the decoder gives \<open>v\<close> back from a
  buffer that starts with \<open>bs\<close>, and leaves what follows.\<close>

definition pb_round_trips ::
  "('v \<Rightarrow> unit pb_ostream \<Rightarrow> (unit, unit pb_ostream) pb_result) \<Rightarrow>
   (unit pb_istream \<Rightarrow> ('v, unit pb_istream) pb_result) \<Rightarrow> 'v \<Rightarrow> byte list \<Rightarrow> bool" where
  "pb_round_trips enc dec v bs \<longleftrightarrow> (\<forall>n. length bs \<le> n \<longrightarrow> n < 2 ^ 64 \<longrightarrow>
     (\<exists>w. enc v (pb_ostream_from_buffer n (word_of_nat n)) = pb_ok w \<and>
          sink w = Some (Buf_write bs (n - length bs)) \<and>
          bytes_written w = word_of_nat (length bs) \<and>
          (\<forall>rest m. unat m = length (bs @ rest) \<longrightarrow>
            (\<exists>s. dec (pb_istream_from_buffer (bs @ rest) m) = Some (Some v, s) \<and> pending s = rest))))"

lemma pb_round_tripsI: "pb_codec enc dec wire \<Longrightarrow> pb_round_trips enc dec v (wire v)"
  using pb_codec.round_trip [of enc dec wire v] by (simp add: pb_round_trips_def)

text \<open>Every scalar encoder of nanopb writes the same bytes into every buffer that has room for them, and
  its decoder reads the value back and stops right behind it: varints (and those read as 32 bits),
  zigzagged signed varints, and the fixed-width formats, which are little-endian.\<close>

lemma pb_scalars_round_trip:
  "pb_round_trips pb_encode_varint pb_decode_varint v (varint (unat v)) \<and>
   pb_round_trips (\<lambda>v. pb_encode_varint (ucast v)) pb_decode_varint32 w (varint (unat w)) \<and>
   pb_round_trips pb_encode_svarint pb_decode_svarint v (varint (unat (zigzag v))) \<and>
   pb_round_trips pb_encode_fixed32 pb_decode_fixed32 w (rev (be_bytes 4 (unat w))) \<and>
   pb_round_trips pb_encode_fixed64 pb_decode_fixed64 v (rev (be_bytes 8 (unat v)))"
  using pb_round_tripsI [OF varint_codec.pb_codec_axioms] pb_round_tripsI [OF varint32_codec.pb_codec_axioms]
    pb_round_tripsI [OF svarint_codec.pb_codec_axioms] pb_round_tripsI [OF fixed32_codec.pb_codec_axioms]
    pb_round_tripsI [OF fixed64_codec.pb_codec_axioms]
  unfolding le_bytes_def by blast

text \<open>\<open>pb_decode_varint\<close> on a stream over a buffer, completely: it reads up to the first byte without
  the continuation bit; the value is the little-endian base-128 number modulo \<open>2 ^ 64\<close> (bits of the tenth
  byte above bit 63 are dropped); ten bytes with the continuation bit are an overflow, and the end
  of the stream before the last byte is an error.  It never reads outside the buffer.\<close>

theorem pb_decode_varint_exact:
  assumes "wf_istream s"
  defines "c \<equiv> length (takeWhile (\<lambda>b. 128 \<le> unat b) (pending s))"
  shows "pb_decode_varint s =
    (if 10 \<le> c then pb_ireturn_error (advance 10 s) ''varint overflow''
     else if c = length (pending s) then pb_ireturn_error (advance c s) ''end-of-stream''
     else Some (Some (word_of_nat (varint_nat (take (Suc c) (pending s)))), advance (Suc c) s))"
proof -
  let ?bs = "takeWhile (\<lambda>b. 128 \<le> unat b) (pending s)"
  have p: "take c (pending s) = ?bs" unfolding c_def by (rule takeWhile_eq_take [symmetric])
  have announce: "\<forall>b \<in> set ?bs. 128 \<le> unat b" by (auto dest: set_takeWhileD)
  show ?thesis
  proof (cases "10 \<le> c")
    case True
    have "\<forall>b \<in> set (take 10 (pending s)). 128 \<le> unat b"
      using True p announce by (metis set_take_subset_set_take subsetD)
    moreover have "\<not> length (pending s) < 10"
      using True length_takeWhile_le [of "\<lambda>b. 128 \<le> unat b" "pending s"] unfolding c_def by linarith
    ultimately show ?thesis
      using True varint_loop_open [OF assms(1), of 0 10 0] by (simp add: pb_decode_varint_def)
  next
    case short: False
    show ?thesis
    proof (cases "c = length (pending s)")
      case True
      with p announce have "\<forall>b \<in> set (take 10 (pending s)). 128 \<le> unat b" by (auto dest: in_set_takeD)
      with True short show ?thesis
        using varint_loop_open [OF assms(1), of 0 10 0] by (simp add: pb_decode_varint_def)
    next
      case False
      then have c: "c < length (pending s)"
        using length_takeWhile_le [of "\<lambda>b. 128 \<le> unat b" "pending s"] unfolding c_def by linarith
      then have last: "\<not> 128 \<le> unat (pending s ! c)" unfolding c_def by (rule nth_length_takeWhile)
      have v: "is_varint (bs @ [b])" if "\<forall>b \<in> set bs. 128 \<le> unat b" "unat b < 128" for bs b
        using that by (induction bs) auto
      have "take (Suc c) (pending s) = ?bs @ [pending s ! c]" using c p by (simp add: take_Suc_conv_app_nth)
      with announce last v have "is_varint (take (Suc c) (pending s))" by simp
      moreover have "pending s = take (Suc c) (pending s) @ drop (Suc c) (pending s)" by simp
      ultimately have "pb_decode_varint s =
        Some (Some (word_of_nat (varint_nat (take (Suc c) (pending s)))), advance (length (take (Suc c) (pending s))) s)"
        using short c by (intro pb_decode_varint_reads [OF assms(1), of _ "drop (Suc c) (pending s)"]) simp_all
      moreover have "length (take (Suc c) (pending s)) = Suc c" using c by simp
      ultimately show ?thesis using short False by simp
    qed
  qed
qed

theorem pb_decode_varint_exact_witness:
  "pb_decode_varint (pb_istream_from_buffer [0xAC, 0x02, 0x07] 3 :: unit pb_istream) =
     Some (Some 300, advance (Suc (Suc 0)) (pb_istream_from_buffer [0xAC, 0x02, 0x07] 3))"
  using pb_decode_varint_exact [of "pb_istream_from_buffer [0xAC, 0x02, 0x07] 3 :: unit pb_istream"]
  by simp

text \<open>C37. \<open>pb_decode_varint32\<close> on the shortest encoding of a number below \<open>2 ^ 64\<close>: a number of 32 bits is read
  back; of the others exactly those are accepted that have bit 31 and bit 63 set and whose groups of
  seven bits from bit 35 to bit 62 are each all zeros or all ones, and they are cut to their low 32
  bits; for every other number the result is the error \<open>varint overflow\<close>.  Numbers between that are
  no sign extension of a 32-bit number are thus accepted as well.\<close>

theorem pb_varint32_exact:
  assumes "wf_istream s" "pending s = varint n @ rest" "n < 2 ^ 64"
  shows "if n < 2 ^ 32 \<or> bit n 31 \<and> sign_extends 4 (n div 2 ^ 35)
    then pb_decode_varint32 s = Some (Some (word_of_nat n), advance (length (varint n)) s)
    else \<exists>k \<le> length (varint n). pb_decode_varint32 s = pb_ireturn_error (advance k s) ''varint overflow''"
  using assms by (rule pb_decode_varint32_canonical)

theorem pb_varint32_exact_witness:
  "pb_decode_varint32 (pb_istream_from_buffer [0xAC, 0x02] 2 :: unit pb_istream) =
     Some (Some 300, advance (Suc (Suc 0)) (pb_istream_from_buffer [0xAC, 0x02] 2))"
proof -
  have v: "varint 300 = [0xAC, 0x02]" by (simp add: varint.simps [of 300] varint.simps [of 2] announcing_def)
  show ?thesis
    using pb_varint32_exact [of "pb_istream_from_buffer [0xAC, 0x02] 2 :: unit pb_istream" 300 "[]"] by (simp add: v)
qed

lemma varint32_loop_zeros:
  "wf_istream s \<Longrightarrow> pending s = replicate m 0x80 @ rest \<Longrightarrow>
   varint32_loop r p s = varint32_loop r (p + 7 * word_of_nat m) (advance m s)"
proof (induction m arbitrary: s p)
  case (Suc m)
  have "varint32_loop r p s = varint32_loop r (p + 7) (advance (Suc 0) s)"
    using Suc.prems by (subst varint32_loop.simps) (simp add: pb_readbyte_wf Let_def)
  also have "\<dots> = varint32_loop r (p + 7 + 7 * word_of_nat m) (advance m (advance (Suc 0) s))"
    using Suc.prems by (intro Suc.IH) simp_all
  finally show ?case by (simp add: add.assoc distrib_left)
qed simp

text \<open>On other encodings \<open>pb_decode_varint32\<close> accepts values that do not fit.  A fifth byte that announces
  a sixth is not checked against the four bits that are left, so \<open>2 ^ 32\<close> with a redundant sixth byte
  is read as 0 (\<open>pb_decode_varint\<close> reads \<open>2 ^ 32\<close>).  And \<open>bitpos\<close> is an 8-bit counter with no bound, so the
  38th byte of a varint lands at bit 3 of the result, where \<open>pb_decode_varint\<close> reports an overflow
  after ten bytes.\<close>

theorem pb_varint32_accepts_overlong:
  "let s = pb_istream_from_buffer [0x80, 0x80, 0x80, 0x80, 0x90, 0x00] 6 :: unit pb_istream;
       t = pb_istream_from_buffer (replicate 37 0x80 @ [0x01]) 38 :: unit pb_istream
   in pb_decode_varint32 s = Some (Some 0, advance 6 s) \<and>
      pb_decode_varint s = Some (Some (2 ^ 32), advance 6 s) \<and>
      pb_decode_varint32 t = Some (Some 8, advance 38 t) \<and>
      pb_decode_varint t = pb_ireturn_error (advance 10 t) ''varint overflow''"
proof -
  let ?s = "pb_istream_from_buffer [0x80, 0x80, 0x80, 0x80, 0x90, 0x00] 6 :: unit pb_istream"
  let ?t = "pb_istream_from_buffer (replicate 37 0x80 @ [0x01]) 38 :: unit pb_istream"
  have s: "wf_istream ?s" "pending ?s = 0x80 # replicate 3 0x80 @ [0x90, 0x00]"
    
    by (simp_all add: numeral_3_eq_3)
  have r: "replicate 37 (0x80 :: byte) = 0x80 # replicate 36 0x80"
    using replicate_Suc [of 36 "0x80 :: byte"] by simp
  have t: "wf_istream ?t" "pending ?t = 0x80 # replicate 36 0x80 @ [0x01]"
    unfolding wf_istream_from_buffer pending_from_buffer r by simp_all
  have six: "length [0x80, 0x80, 0x80, 0x80, 0x90, 0x00 :: byte] = 6" by simp
  have "pb_decode_varint ?s = Some (Some (2 ^ 32), advance 6 ?s)"
    using pb_decode_varint_reads [OF s(1), of "[0x80, 0x80, 0x80, 0x80, 0x90, 0x00]" "[]"]
    unfolding six by simp
  moreover have "pb_decode_varint ?t = pb_ireturn_error (advance 10 ?t) ''varint overflow''"
    using varint_loop_open [OF t(1), of 0 10 0 0] unfolding t(2)
    by (simp add: pb_decode_varint_def)
  moreover have "pb_decode_varint32 ?s = Some (Some 0, advance 6 ?s)"
  proof -
    let ?s1 = "advance (Suc 0) ?s"
    have s1: "wf_istream ?s1" "pending ?s1 = replicate 3 0x80 @ [0x90, 0x00]"
      using s by (simp_all del: pending_from_buffer wf_istream_from_buffer)
    have s4: "wf_istream (advance 3 ?s1)" "pending (advance 3 ?s1) = [0x90, 0x00]"
      using s1 by (simp_all del: advance_advance pending_from_buffer wf_istream_from_buffer)
    have s5: "wf_istream (advance (Suc 0) (advance 3 ?s1))" "pending (advance (Suc 0) (advance 3 ?s1)) = [0x00]"
      using s4 by (simp_all del: advance_advance pending_from_buffer wf_istream_from_buffer)
    have z: "(4294967296 :: u32) = 0" by simp
    have "varint32_loop 0 7 ?s1 = varint32_loop 0 28 (advance 3 ?s1)"
      using varint32_loop_zeros [OF s1] by simp
    also have "\<dots> = varint32_loop 0 35 (advance (Suc 0) (advance 3 ?s1))"
      using s4 by (subst varint32_loop.simps) (simp add: pb_readbyte_wf Let_def z del: advance_advance)
    also have "\<dots> = Some (Some (0, 42, 0), advance 6 ?s)"
      using s5 by (subst varint32_loop.simps) (simp add: pb_readbyte_wf Let_def)
    finally show ?thesis using pb_decode_varint32_first [OF s] by simp
  qed
  moreover have "pb_decode_varint32 ?t = Some (Some 8, advance 38 ?t)"
  proof -
    let ?t1 = "advance (Suc 0) ?t"
    have t1: "wf_istream ?t1" "pending ?t1 = replicate 36 0x80 @ [0x01]"
      using t by (simp_all del: pending_from_buffer wf_istream_from_buffer)
    have t37: "wf_istream (advance 36 ?t1)" "pending (advance 36 ?t1) = [0x01]"
      using t1 by (simp_all del: advance_advance pending_from_buffer wf_istream_from_buffer)
    have z: "(259 :: byte) = 3" by simp
    have "varint32_loop 0 7 ?t1 = varint32_loop 0 3 (advance 36 ?t1)"
      using varint32_loop_zeros [OF t1, of 0 7] by (simp add: z)
    also have "\<dots> = Some (Some (8, 10, 1), advance 38 ?t)"
      using t37 by (subst varint32_loop.simps) (simp add: pb_readbyte_wf Let_def)
    finally show ?thesis using pb_decode_varint32_first [OF t] by simp
  qed
  ultimately show ?thesis by simp
qed

text \<open>C38. A reader that does not know a field skips it exactly: after a tag as \<open>pb_encode_tag\<close> writes it,
  \<open>pb_decode_tag\<close> returns the wire type and the tag, and \<open>pb_skip_field\<close> stops right behind the value,
  whatever follows: a varint (of any length), four or eight bytes, or a length and as many bytes.\<close>

theorem pb_unknown_field_skipped:
  assumes "proper_wire_type wt" "0 < tag" "tag < 2 ^ 29" "payload wt bs"
    and "wf_istream s" "pending s = tag_bytes wt (unat tag) @ bs @ rest"
  shows "pb_writes (pb_encode_tag wt tag) (tag_bytes wt (unat tag)) \<and>
    (\<exists>s1 s2. pb_decode_tag s = Some ((Some (wt, tag), False), s1) \<and> pb_skip_field wt s1 = pb_ok s2 \<and>
      wf_istream s2 \<and> pending s2 = rest \<and> ierrmsg s2 = ierrmsg s)"
proof -
  let ?s1 = "advance (length (tag_bytes wt (unat tag))) s"
  have "0 < unat tag" "unat tag < 2 ^ 29"
    using assms(2,3) by (simp_all add: word_less_nat_alt)
  then have "pb_decode_tag s = Some ((Some (wt, tag), False), ?s1)"
    using pb_decode_tag_reads [OF assms(5,6,1)] by simp
  moreover have s1: "wf_istream ?s1" "pending ?s1 = bs @ rest" using assms(5,6) by simp_all
  moreover have "pb_skip_field wt ?s1 = pb_ok (advance (length bs) ?s1)"
    by (rule pb_skip_field_exact [OF s1(1) assms(4) s1(2)])
  moreover have "wf_istream (advance (length bs) ?s1)" "pending (advance (length bs) ?s1) = rest"
    using s1 by (simp_all del: advance_advance)
  moreover have "ierrmsg (advance (length bs) ?s1) = ierrmsg s" by simp
  ultimately show ?thesis using pb_writes_encode_tag [OF assms(1)] by blast
qed

theorem pb_unknown_field_skipped_witness:
  "\<exists>s1 s2. pb_decode_tag (pb_istream_from_buffer [0x12, 0x02, 0x61, 0x62, 0x99] 5 :: unit pb_istream) =
       Some ((Some (PB_WT_STRING, 2), False), s1) \<and>
     pb_skip_field PB_WT_STRING s1 = pb_ok s2 \<and> pending s2 = [0x99]"
proof -
  let ?s = "pb_istream_from_buffer [0x12, 0x02, 0x61, 0x62, 0x99] 5 :: unit pb_istream"
  have v: "varint 18 = [0x12]" "varint 2 = [0x02]" by (simp_all add: varint.simps)
  have "proper_wire_type PB_WT_STRING" by (simp add: proper_wire_type_def)
  moreover have "varint (length [0x61 :: byte, 0x62]) = [0x02]" by (simp add: varint.simps)
  then have "payload PB_WT_STRING [0x02, 0x61, 0x62]"
    unfolding payload_def pb_wire_type.case by (intro exI [of _ "[0x61, 0x62]"]) simp
  moreover have "pending ?s = tag_bytes PB_WT_STRING (unat (2 :: u32)) @ [0x02, 0x61, 0x62] @ [0x99]"
    using v by (simp add: tag_bytes_def)
  ultimately show ?thesis
    using pb_unknown_field_skipped [of PB_WT_STRING 2 "[0x02, 0x61, 0x62]" ?s "[0x99]"] by auto
qed

text \<open>Every operation that reads, called on a stream over a buffer with at least \<open>bytes_left\<close> bytes, returns
  without touching memory outside the buffer and leaves such a stream: some bytes further on, with
  \<open>bytes_left\<close> lowered by their number, and with no error message set when it returned \<open>true\<close>.\<close>

lemma pb_readers_keep_bounds:
  assumes "wf_istream s" "10 \<le> max_len"
  shows "pb_within s (pb_read skip n s) \<and> pb_within s (pb_readbyte s) \<and>
    pb_within s (pb_decode_varint s) \<and> pb_within s (pb_decode_varint32 s) \<and>
    pb_within s (pb_decode_svarint s) \<and> pb_within s (pb_decode_fixed32 s) \<and> pb_within s (pb_decode_fixed64 s) \<and>
    pb_within s (pb_skip_varint s) \<and> pb_within s (pb_skip_string s) \<and> pb_within s (pb_skip_field wt s) \<and>
    pb_within s (read_raw_value wt max_len s) \<and>
    (\<exists>r eof n e. pb_decode_tag s = Some ((r, eof), (advance n s)\<lparr>ierrmsg := e\<rparr>) \<and> n \<le> length (pending s)) \<and>
    (\<forall>n \<le> length (pending s). wf_istream (advance n s) \<and>
       unat (bytes_left (advance n s)) = unat (bytes_left s) - n \<and> pending (advance n s) = drop n (pending s))"
proof -
  obtain r eof n e where "pb_decode_varint32_eof False s = Some ((r, eof), (advance n s)\<lparr>ierrmsg := e\<rparr>)"
    "n \<le> length (pending s)" using varint32_eof_within [OF assms(1)] by metis
  then have "\<exists>r eof n e. pb_decode_tag s = Some ((r, eof), (advance n s)\<lparr>ierrmsg := e\<rparr>) \<and> n \<le> length (pending s)"
    by (cases r) (auto simp: pb_decode_tag_def)
  moreover have "\<forall>n \<le> length (pending s). wf_istream (advance n s) \<and>
      unat (bytes_left (advance n s)) = unat (bytes_left s) - n \<and> pending (advance n s) = drop n (pending s)"
    using assms(1) by (simp add: bytes_left_advance)
  ultimately show ?thesis
    using assms by (intro conjI) (simp_all add: pb_readerD [OF _ assms(1)] pb_readers)
qed

end
