(* ===== verification/Pb_Field.thy ===== *)
theory Pb_Field
  imports Pb_Wire
begin

text \<open>
  The decoders and encoders of single fields, \<open>pb_dec_*\<close> and \<open>pb_enc_*\<close> of \<^verbatim>\<open>nanopb/pb_decode.c\<close> and
  \<^verbatim>\<open>nanopb/pb_encode.c\<close>, except those of submessages.

  The member of a message structure that a field describes is the memory at \<open>dest\<close> or \<open>src\<close>, a list of
  bytes in the order of the (little-endian) targets; \<open>None\<close> is an access outside it.  A member of
  \<open>bytes\<close> or \<open>string\<close> type is stored in place or is a pointer to an allocated block.  An operation
  keeps the stream and this memory as its state, since a failing one may have written to it.
\<close>

section \<open>Field descriptions and memory\<close>

text \<open>\<open>ptr\<close> is null, the descriptor of a submessage (by its number), or the default value.\<close>

datatype pb_ptr = Null_ptr | Fields nat | Default "byte list"

record pb_field =
  field_tag :: u32
  field_type :: byte
  data_offset :: u32
  size_offset :: u32
  data_size :: u32
  array_size :: u32
  field_ptr :: pb_ptr

definition PB_LTYPE :: "byte \<Rightarrow> byte" where "PB_LTYPE x = x AND 0x0F"

definition PB_LTYPE_BOOL :: byte where "PB_LTYPE_BOOL = 0x00"
definition PB_LTYPE_VARINT :: byte where "PB_LTYPE_VARINT = 0x01"
definition PB_LTYPE_UVARINT :: byte where "PB_LTYPE_UVARINT = 0x02"
definition PB_LTYPE_SVARINT :: byte where "PB_LTYPE_SVARINT = 0x03"
definition PB_LTYPE_FIXED32 :: byte where "PB_LTYPE_FIXED32 = 0x04"
definition PB_LTYPE_FIXED64 :: byte where "PB_LTYPE_FIXED64 = 0x05"
definition PB_LTYPE_BYTES :: byte where "PB_LTYPE_BYTES = 0x06"
definition PB_LTYPE_STRING :: byte where "PB_LTYPE_STRING = 0x07"
definition PB_LTYPE_SUBMESSAGE :: byte where "PB_LTYPE_SUBMESSAGE = 0x08"
definition PB_LTYPE_FIXED_LENGTH_BYTES :: byte where "PB_LTYPE_FIXED_LENGTH_BYTES = 0x0A"

lemmas pb_ltypes = PB_LTYPE_BOOL_def PB_LTYPE_VARINT_def PB_LTYPE_UVARINT_def PB_LTYPE_SVARINT_def
  PB_LTYPE_FIXED32_def PB_LTYPE_FIXED64_def PB_LTYPE_BYTES_def PB_LTYPE_STRING_def
  PB_LTYPE_SUBMESSAGE_def PB_LTYPE_FIXED_LENGTH_BYTES_def

definition PB_ATYPE :: "byte \<Rightarrow> byte" where "PB_ATYPE x = x AND 0xC0"

definition PB_ATYPE_STATIC :: byte where "PB_ATYPE_STATIC = 0x00"

definition PB_ATYPE_POINTER :: byte where "PB_ATYPE_POINTER = 0x80"

definition PB_SIZE_MAX :: u32 where "PB_SIZE_MAX = - 1"

text \<open>\<open>offsetof(pb_bytes_array_t, bytes)\<close> is 4.\<close>

definition PB_BYTES_ARRAY_T_ALLOCSIZE :: "u32 \<Rightarrow> u64" where
  "PB_BYTES_ARRAY_T_ALLOCSIZE n = ucast n + 4"

datatype pb_member = Inline "byte list" | Pointer "byte list option"

definition mem_load :: "nat \<Rightarrow> byte list \<Rightarrow> u64 option" where
  "mem_load n mem = (if n \<le> length mem then Some (word_of_nat (le_nat (take n mem))) else None)"

definition mem_store :: "nat \<Rightarrow> byte list \<Rightarrow> byte list \<Rightarrow> byte list option" where
  "mem_store off bs mem =
     (if off + length bs \<le> length mem then Some (take off mem @ bs @ drop (off + length bs) mem) else None)"

type_synonym ('s, 'd) pb_decoding = "'s pb_istream \<times> 'd"

definition keeping :: "'d \<Rightarrow> ('a, 's) pb_result \<Rightarrow> ('a, 's \<times> 'd) pb_result" where
  "keeping d m = map_option (\<lambda>(r, s). (r, (s, d))) m"

definition dec_error :: "('s, 'd) pb_decoding \<Rightarrow> string \<Rightarrow> ('a, ('s, 'd) pb_decoding) pb_result" where
  "dec_error st msg = keeping (snd st) (pb_ireturn_error (fst st) msg)"

definition dest_store :: "nat \<Rightarrow> byte list \<Rightarrow> ('s, byte list) pb_decoding \<Rightarrow> (unit, ('s, byte list) pb_decoding) pb_result" where
  "dest_store off bs st =
     (case mem_store off bs (snd st) of None \<Rightarrow> None | Some mem \<Rightarrow> pb_ok (fst st, mem))"

text \<open>\<open>clamped = *(T *)dest = ...; if (clamped != value) ...\<close> for a type of \<open>n\<close> bytes.\<close>

definition assign_checked :: "nat \<Rightarrow> u64 \<Rightarrow> u64 \<Rightarrow> ('s, byte list) pb_decoding \<Rightarrow> (unit, ('s, byte list) pb_decoding) pb_result" where
  "assign_checked n clamped v st =
     pb_then (dest_store 0 (le_bytes n (unat clamped)) st) (\<lambda>_ st.
       if clamped \<noteq> v then dec_error st ''integer too large'' else pb_ok st)"

section \<open>Decoding\<close>

text \<open>A block is a list of memory cells; \<open>wrap\<close> makes one of a byte.\<close>

definition pb_realloc :: "allocator \<Rightarrow> (byte \<Rightarrow> 'c) \<Rightarrow> 'c list option \<Rightarrow> nat \<Rightarrow> 'c list option" where
  "pb_realloc al wrap ptr n =
     (if malloc_ok al n then
        (let old = (case ptr of None \<Rightarrow> [] | Some block \<Rightarrow> take n block)
         in Some (old @ map (\<lambda>i. wrap (junk al i)) [length old..<n]))
      else None)"

definition allocate_field ::
  "allocator \<Rightarrow> (byte \<Rightarrow> 'c) \<Rightarrow> 's pb_istream \<Rightarrow> 'c list option \<Rightarrow> u64 \<Rightarrow> u64 \<Rightarrow> ('c list, 's pb_istream) pb_result" where
  "allocate_field al wrap s ptr item_size entries =
     (if item_size = 0 \<or> entries = 0 then pb_ireturn_error s ''invalid size''
      else let check_limit = push_bit 32 1 in
        if (item_size \<ge> check_limit \<or> entries \<ge> check_limit) \<and> (- 1) div entries < item_size
        then pb_ireturn_error s ''size too large''
        else case pb_realloc al wrap ptr (unat (entries * item_size)) of
               None \<Rightarrow> pb_ireturn_error s ''realloc failed''
             | Some block \<Rightarrow> Some (Some block, s))"

definition pb_dec_bool :: "byte list \<Rightarrow> 's pb_istream \<Rightarrow> (unit, ('s, byte list) pb_decoding) pb_result" where
  "pb_dec_bool dest s =
     pb_then (keeping dest (pb_decode_varint32 s)) (\<lambda>v. dest_store 0 [if v \<noteq> 0 then 1 else 0])"

definition pb_decode_bool :: "byte list \<Rightarrow> 's pb_istream \<Rightarrow> (unit, ('s, byte list) pb_decoding) pb_result" where
  "pb_decode_bool dest s = pb_dec_bool dest s"

definition pb_dec_varint ::
  "pb_field \<Rightarrow> byte list \<Rightarrow> 's pb_istream \<Rightarrow> (unit, ('s, byte list) pb_decoding) pb_result" where
  "pb_dec_varint field dest s =
     pb_then (keeping dest (pb_decode_varint s)) (\<lambda>v st.
       let svalue = (if data_size field = 8 then v else scast (ucast v :: 32 word)) in
       if data_size field = 8 then assign_checked 8 svalue svalue st
       else if data_size field = 4 then assign_checked 4 (scast (ucast svalue :: 32 word)) svalue st
       else if data_size field = 2 then assign_checked 2 (scast (ucast svalue :: 16 word)) svalue st
       else if data_size field = 1 then assign_checked 1 (scast (ucast svalue :: 8 word)) svalue st
       else dec_error st ''invalid data_size'')"

definition pb_dec_uvarint ::
  "pb_field \<Rightarrow> byte list \<Rightarrow> 's pb_istream \<Rightarrow> (unit, ('s, byte list) pb_decoding) pb_result" where
  "pb_dec_uvarint field dest s =
     pb_then (keeping dest (pb_decode_varint s)) (\<lambda>v st.
       if data_size field = 8 then assign_checked 8 v v st
       else if data_size field = 4 then assign_checked 4 (ucast (ucast v :: 32 word)) v st
       else if data_size field = 2 then assign_checked 2 (ucast (ucast v :: 16 word)) v st
       else if data_size field = 1 then assign_checked 1 (ucast (ucast v :: 8 word)) v st
       else dec_error st ''invalid data_size'')"

definition pb_dec_svarint ::
  "pb_field \<Rightarrow> byte list \<Rightarrow> 's pb_istream \<Rightarrow> (unit, ('s, byte list) pb_decoding) pb_result" where
  "pb_dec_svarint field dest s =
     pb_then (keeping dest (pb_decode_svarint s)) (\<lambda>v st.
       if data_size field = 8 then assign_checked 8 v v st
       else if data_size field = 4 then assign_checked 4 (scast (ucast v :: 32 word)) v st
       else if data_size field = 2 then assign_checked 2 (scast (ucast v :: 16 word)) v st
       else if data_size field = 1 then assign_checked 1 (scast (ucast v :: 8 word)) v st
       else dec_error st ''invalid data_size'')"

definition pb_dec_fixed32 :: "byte list \<Rightarrow> 's pb_istream \<Rightarrow> (unit, ('s, byte list) pb_decoding) pb_result" where
  "pb_dec_fixed32 dest s =
     pb_then (keeping dest (pb_decode_fixed32 s)) (\<lambda>v. dest_store 0 (le_bytes 4 (unat v)))"

definition pb_dec_fixed64 :: "byte list \<Rightarrow> 's pb_istream \<Rightarrow> (unit, ('s, byte list) pb_decoding) pb_result" where
  "pb_dec_fixed64 dest s =
     pb_then (keeping dest (pb_decode_fixed64 s)) (\<lambda>v. dest_store 0 (le_bytes 8 (unat v)))"

text \<open>\<open>pb_read(stream, (pb_byte_t *)dest + off, count)\<close>.\<close>

definition read_into :: "nat \<Rightarrow> u64 \<Rightarrow> ('s, byte list) pb_decoding \<Rightarrow> (unit, ('s, byte list) pb_decoding) pb_result" where
  "read_into off count st =
     pb_then (keeping (snd st) (pb_read False count (fst st))) (\<lambda>bytes. dest_store off bytes)"

definition in_member :: "(byte list \<Rightarrow> pb_member) \<Rightarrow> (unit, ('s, byte list) pb_decoding) pb_result \<Rightarrow>
    (unit, ('s, pb_member) pb_decoding) pb_result" where
  "in_member wrap m = map_option (\<lambda>(r, s, mem). (r, s, wrap mem)) m"

definition pb_dec_bytes :: "allocator \<Rightarrow> pb_field \<Rightarrow> pb_member \<Rightarrow> 's pb_istream \<Rightarrow>
    (unit, ('s, pb_member) pb_decoding) pb_result" where
  "pb_dec_bytes al field dest s =
     pb_then (keeping dest (pb_decode_varint32 s)) (\<lambda>len (s, dest).
       let alloc_size = PB_BYTES_ARRAY_T_ALLOCSIZE len;
           fill = (\<lambda>bdest s.
             pb_then (dest_store 0 (le_bytes 4 (unat len)) (s, bdest)) (\<lambda>_. read_into 4 (ucast len)))
       in if len > PB_SIZE_MAX then dec_error (s, dest) ''bytes overflow''
          else if ucast len > alloc_size then dec_error (s, dest) ''size too large''
          else if PB_ATYPE (field_type field) = PB_ATYPE_POINTER then
            (case dest of
               Inline _ \<Rightarrow> None
             | Pointer ptr \<Rightarrow>
                 if bytes_left s < ucast len then dec_error (s, dest) ''end-of-stream''
                 else pb_then (keeping dest (allocate_field al id s ptr alloc_size 1)) (\<lambda>block (s, _).
                   in_member (\<lambda>mem. Pointer (Some mem)) (fill block s)))
          else
            (case dest of
               Pointer _ \<Rightarrow> None
             | Inline mem \<Rightarrow>
                 if alloc_size > ucast (data_size field) then dec_error (s, dest) ''bytes overflow''
                 else in_member Inline (fill mem s)))"

definition pb_dec_string :: "allocator \<Rightarrow> pb_field \<Rightarrow> pb_member \<Rightarrow> 's pb_istream \<Rightarrow>
    (unit, ('s, pb_member) pb_decoding) pb_result" where
  "pb_dec_string al field dest s =
     pb_then (keeping dest (pb_decode_varint32 s)) (\<lambda>len (s, dest).
       let alloc_size = ucast (len + 1) :: u64;
           fill = (\<lambda>mem s.
             case read_into 0 (ucast len) (s, mem) of
               None \<Rightarrow> None
             | Some (status, s, mem) \<Rightarrow>
                 map_option (\<lambda>mem. (status, s, mem)) (mem_store (unat len) [0] mem))
       in if alloc_size < ucast len then dec_error (s, dest) ''size too large''
          else if PB_ATYPE (field_type field) = PB_ATYPE_POINTER then
            (case dest of
               Inline _ \<Rightarrow> None
             | Pointer ptr \<Rightarrow>
                 if bytes_left s < ucast len then dec_error (s, dest) ''end-of-stream''
                 else pb_then (keeping dest (allocate_field al id s ptr alloc_size 1)) (\<lambda>block (s, _).
                   in_member (\<lambda>mem. Pointer (Some mem)) (fill block s)))
          else
            (case dest of
               Pointer _ \<Rightarrow> None
             | Inline mem \<Rightarrow>
                 if alloc_size > ucast (data_size field) then dec_error (s, dest) ''string overflow''
                 else in_member Inline (fill mem s)))"

definition pb_dec_fixed_length_bytes ::
  "pb_field \<Rightarrow> byte list \<Rightarrow> 's pb_istream \<Rightarrow> (unit, ('s, byte list) pb_decoding) pb_result" where
  "pb_dec_fixed_length_bytes field dest s =
     pb_then (keeping dest (pb_decode_varint32 s)) (\<lambda>len st.
       if len > PB_SIZE_MAX then dec_error st ''bytes overflow''
       else if len = 0 then dest_store 0 (replicate (unat (data_size field)) 0) st
       else if len \<noteq> data_size field then dec_error st ''incorrect fixed length bytes size''
       else read_into 0 (ucast (data_size field)) st)"

section \<open>Encoding\<close>

text \<open>\<open>sizeof(bool)\<close> is 1.\<close>

definition safe_read_bool :: "byte list \<Rightarrow> bool option" where
  "safe_read_bool src = (case src of [] \<Rightarrow> None | b # _ \<Rightarrow> Some (b \<noteq> 0))"

definition pb_enc_bool :: "byte list \<Rightarrow> 's pb_ostream \<Rightarrow> (unit, 's pb_ostream) pb_result" where
  "pb_enc_bool src s = do {
     b \<leftarrow> safe_read_bool src;
     pb_encode_varint (if b then 1 else 0) s
   }"

definition pb_enc_varint :: "pb_field \<Rightarrow> byte list \<Rightarrow> 's pb_ostream \<Rightarrow> (unit, 's pb_ostream) pb_result" where
  "pb_enc_varint field src s =
     (if data_size field = 1 then do {
        v \<leftarrow> mem_load 1 src; pb_encode_varint (scast (ucast v :: 8 word)) s }
      else if data_size field = 2 then do {
        v \<leftarrow> mem_load 2 src; pb_encode_varint (scast (ucast v :: 16 word)) s }
      else if data_size field = 4 then do {
        v \<leftarrow> mem_load 4 src; pb_encode_varint (scast (ucast v :: 32 word)) s }
      else if data_size field = 8 then do {
        v \<leftarrow> mem_load 8 src; pb_encode_varint v s }
      else pb_oreturn_error s ''invalid data_size'')"

definition pb_enc_uvarint :: "pb_field \<Rightarrow> byte list \<Rightarrow> 's pb_ostream \<Rightarrow> (unit, 's pb_ostream) pb_result" where
  "pb_enc_uvarint field src s =
     (if data_size field = 1 then do { v \<leftarrow> mem_load 1 src; pb_encode_varint v s }
      else if data_size field = 2 then do { v \<leftarrow> mem_load 2 src; pb_encode_varint v s }
      else if data_size field = 4 then do { v \<leftarrow> mem_load 4 src; pb_encode_varint v s }
      else if data_size field = 8 then do { v \<leftarrow> mem_load 8 src; pb_encode_varint v s }
      else pb_oreturn_error s ''invalid data_size'')"

definition pb_enc_svarint :: "pb_field \<Rightarrow> byte list \<Rightarrow> 's pb_ostream \<Rightarrow> (unit, 's pb_ostream) pb_result" where
  "pb_enc_svarint field src s =
     (if data_size field = 1 then do {
        v \<leftarrow> mem_load 1 src; pb_encode_svarint (scast (ucast v :: 8 word)) s }
      else if data_size field = 2 then do {
        v \<leftarrow> mem_load 2 src; pb_encode_svarint (scast (ucast v :: 16 word)) s }
      else if data_size field = 4 then do {
        v \<leftarrow> mem_load 4 src; pb_encode_svarint (scast (ucast v :: 32 word)) s }
      else if data_size field = 8 then do {
        v \<leftarrow> mem_load 8 src; pb_encode_svarint v s }
      else pb_oreturn_error s ''invalid data_size'')"

definition pb_enc_fixed64 :: "byte list \<Rightarrow> 's pb_ostream \<Rightarrow> (unit, 's pb_ostream) pb_result" where
  "pb_enc_fixed64 src s = do { v \<leftarrow> mem_load 8 src; pb_encode_fixed64 v s }"

definition pb_enc_fixed32 :: "byte list \<Rightarrow> 's pb_ostream \<Rightarrow> (unit, 's pb_ostream) pb_result" where
  "pb_enc_fixed32 src s = do { v \<leftarrow> mem_load 4 src; pb_encode_fixed32 (ucast v) s }"

text \<open>\<open>src\<close> is the memory at the pointer, or \<open>None\<close> for \<open>NULL\<close>; \<open>bytes->size\<close> is its first four bytes.\<close>

definition pb_enc_bytes :: "pb_field \<Rightarrow> byte list option \<Rightarrow> 's pb_ostream \<Rightarrow> (unit, 's pb_ostream) pb_result" where
  "pb_enc_bytes field src s =
     (case src of
        None \<Rightarrow> pb_encode_string [] 0 s
      | Some mem \<Rightarrow> do {
          n \<leftarrow> mem_load 4 mem;
          let len = (ucast n :: u32);
          let allocsize = PB_BYTES_ARRAY_T_ALLOCSIZE len;
          if allocsize < ucast len \<or>
             PB_ATYPE (field_type field) = PB_ATYPE_STATIC \<and> allocsize > ucast (data_size field)
          then pb_oreturn_error s ''bytes size exceeded''
          else pb_encode_string (drop 4 mem) (ucast len) s
        })"

text \<open>The loop that looks for the end of a string, at most \<open>n\<close> bytes on.\<close>

primrec bounded_strlen :: "byte list \<Rightarrow> nat \<Rightarrow> nat option" where
  "bounded_strlen [] n = (if n = 0 then Some 0 else None)"
| "bounded_strlen (b # mem) n =
     (if n = 0 \<or> b = 0 then Some 0 else map_option Suc (bounded_strlen mem (n - 1)))"

definition pb_enc_string :: "pb_field \<Rightarrow> byte list option \<Rightarrow> 's pb_ostream \<Rightarrow> (unit, 's pb_ostream) pb_result" where
  "pb_enc_string field src s =
     (let max_len = (if PB_ATYPE (field_type field) = PB_ATYPE_POINTER then size_mod - 1
                     else unat (data_size field))
      in case src of
           None \<Rightarrow> pb_encode_string [] 0 s
         | Some mem \<Rightarrow> do {
             len \<leftarrow> bounded_strlen mem max_len;
             pb_encode_string mem (word_of_nat len) s
           })"

definition pb_enc_fixed_length_bytes :: "pb_field \<Rightarrow> byte list \<Rightarrow> 's pb_ostream \<Rightarrow> (unit, 's pb_ostream) pb_result" where
  "pb_enc_fixed_length_bytes field src s = pb_encode_string src (ucast (data_size field)) s"

definition pb_encode_tag_for_field :: "pb_field \<Rightarrow> 's pb_ostream \<Rightarrow> (unit, 's pb_ostream) pb_result" where
  "pb_encode_tag_for_field field s =
     (let ltype = PB_LTYPE (field_type field) in
      if ltype = PB_LTYPE_BOOL \<or> ltype = PB_LTYPE_VARINT \<or> ltype = PB_LTYPE_UVARINT \<or> ltype = PB_LTYPE_SVARINT
      then pb_encode_tag PB_WT_VARINT (field_tag field) s
      else if ltype = PB_LTYPE_FIXED32 then pb_encode_tag PB_WT_32BIT (field_tag field) s
      else if ltype = PB_LTYPE_FIXED64 then pb_encode_tag PB_WT_64BIT (field_tag field) s
      else if ltype = PB_LTYPE_BYTES \<or> ltype = PB_LTYPE_STRING \<or> ltype = PB_LTYPE_SUBMESSAGE \<or>
              ltype = PB_LTYPE_FIXED_LENGTH_BYTES
      then pb_encode_tag PB_WT_STRING (field_tag field) s
      else pb_oreturn_error s ''invalid field type'')"

section \<open>Integers in memory\<close>

lemma le_nat_less: "le_nat bs < 256 ^ length bs"
proof (induction bs)
  case (Cons b bs)
  then have "256 * Suc (le_nat bs) \<le> 256 * 256 ^ length bs" by (intro mult_le_mono2) simp
  moreover have "unat b + 256 * le_nat bs < 256 * Suc (le_nat bs)"
    using unat_byte_less [of b] unfolding mult_Suc_right by linarith
  ultimately show ?case unfolding le_nat.simps length_Cons power_Suc by linarith
qed simp

lemma le_bytes_le_nat [simp]: "le_bytes (length bs) (le_nat bs) = bs"
proof (induction bs)
  case (Cons b bs)
  have "(word_of_nat (unat b + 256 * le_nat bs) :: byte) = b"
    by (simp add: word_unat_eq_iff del: of_nat_add of_nat_mult)
  with Cons show ?case by (simp add: le_bytes_Suc del: of_nat_add of_nat_mult)
qed (simp add: le_bytes_0)

lemma le_bytes_mod: "le_bytes n (v mod 256 ^ n) = le_bytes n v"
  by (simp add: le_bytes_def be_bytes_mod)

text \<open>The value of a signed member, extended to 64 bits.\<close>

definition signed_member :: "byte list \<Rightarrow> u64" where
  "signed_member src =
     (if length src = 1 then scast (word_of_nat (le_nat src) :: 8 word)
      else if length src = 2 then scast (word_of_nat (le_nat src) :: 16 word)
      else if length src = 4 then scast (word_of_nat (le_nat src) :: 32 word)
      else word_of_nat (le_nat src))"

lemma scast_ucast_same:
  "ucast (scast (a :: 8 word) :: u64) = a" "ucast (scast (b :: 16 word) :: u64) = b"
  "ucast (scast (c :: 32 word) :: u64) = c"
  by (rule bit_word_eqI; simp add: bit_unsigned_iff bit_signed_iff min_absorb2)+

lemma scast_through_int:
  "scast (ucast (scast (a :: 8 word) :: u64) :: 32 word) = (scast a :: u64)"
  "scast (ucast (scast (b :: 16 word) :: u64) :: 32 word) = (scast b :: u64)"
  by (rule bit_word_eqI; simp add: bit_unsigned_iff bit_signed_iff min.assoc [symmetric] min_less_iff_disj)+

lemma unat_mod_256: "unat (ucast v :: 'a::len word) = unat v mod 2 ^ LENGTH('a)" for v :: u64
  by (simp add: unsigned_ucast_eq take_bit_eq_mod)

lemma signed_member_back:
  assumes "length src \<in> {1, 2, 4, 8}"
  shows "le_bytes (length src) (unat (signed_member src)) = src"
proof -
  have len: "le_nat src < 256 ^ length src" by (rule le_nat_less)
  have "unat (signed_member src) mod 256 ^ length src = le_nat src"
    using assms len scast_ucast_same(1) [of "word_of_nat (le_nat src)"]
      scast_ucast_same(2) [of "word_of_nat (le_nat src)"] scast_ucast_same(3) [of "word_of_nat (le_nat src)"]
      unat_mod_256 [of "signed_member src", where 'a = 8] unat_mod_256 [of "signed_member src", where 'a = 16]
      unat_mod_256 [of "signed_member src", where 'a = 32]
    by (auto simp: signed_member_def unat_of_nat)
  then show ?thesis by (metis le_bytes_le_nat le_bytes_mod)
qed

lemma mem_load_exact: "length src = n \<Longrightarrow> mem_load n src = Some (word_of_nat (le_nat src))"
  by (simp add: mem_load_def)

lemma dest_store_0: "length bs \<le> length dest \<Longrightarrow> dest_store 0 bs (s, dest) = pb_ok (s, bs @ drop (length bs) dest)"
  by (simp add: dest_store_def mem_store_def)

lemma assign_checked_same:
  "n \<le> length dest \<Longrightarrow> assign_checked n v v (s, dest) = pb_ok (s, le_bytes n (unat v) @ drop n dest)"
  by (simp add: assign_checked_def dest_store_0)

section \<open>Codecs of members\<close>

text \<open>
  An encoder of a member and the decoder into a member of the same type: what is written for the bytes
  of a member, and that decoding stores these bytes at the front of the destination and touches
  nothing behind them.
\<close>

locale pb_member_codec =
  fixes enc :: "byte list \<Rightarrow> 's pb_ostream \<Rightarrow> (unit, 's pb_ostream) pb_result"
    and dec :: "byte list \<Rightarrow> 't pb_istream \<Rightarrow> (unit, ('t, byte list) pb_decoding) pb_result"
    and wire :: "byte list \<Rightarrow> byte list"
    and wt :: pb_wire_type
    and ok :: "byte list \<Rightarrow> bool"
  assumes proper: "proper_wire_type wt"
    and wire_payload: "ok src \<Longrightarrow> payload wt (wire src)"
    and member_writes: "ok src \<Longrightarrow> pb_writes (enc src) (wire src)"
    and member_reads: "ok src \<Longrightarrow> wf_istream s \<Longrightarrow> pending s = wire src @ rest \<Longrightarrow> length src \<le> length dest \<Longrightarrow>
      dec dest s = pb_ok (advance (length (wire src)) s, src @ drop (length src) dest)"
begin

text \<open>A whole field, with its tag: written, read back, or skipped by a reader that does not know it.\<close>

lemma field_writes:
  assumes "ok src"
  shows "pb_writes (\<lambda>s. pb_then (pb_encode_tag wt tag s) (\<lambda>_. enc src)) (tag_bytes wt (unat tag) @ wire src)"
  by (intro pb_writers proper member_writes assms)

lemma field_reads:
  assumes "ok src" "wf_istream s" "pending s = (tag_bytes wt (unat tag) @ wire src) @ rest"
    "0 < unat tag" "unat tag < 2 ^ 29" "length src \<le> length dest"
  shows "\<exists>s1 s2. pb_decode_tag s = Some ((Some (wt, tag), False), s1) \<and>
    dec dest s1 = pb_ok (s2, src @ drop (length src) dest) \<and> pb_skip_field wt s1 = pb_ok s2 \<and>
    wf_istream s2 \<and> pending s2 = rest"
proof -
  let ?s1 = "advance (length (tag_bytes wt (unat tag))) s"
  have "pb_decode_tag s = Some ((Some (wt, word_of_nat (unat tag)), False), ?s1)"
    using assms by (intro pb_decode_tag_reads [of _ _ _ "wire src @ rest"]) (simp_all add: proper)
  moreover have s1: "wf_istream ?s1" "pending ?s1 = wire src @ rest" using assms by simp_all
  moreover have "dec dest ?s1 = pb_ok (advance (length (wire src)) ?s1, src @ drop (length src) dest)"
    by (rule member_reads [OF assms(1) s1 assms(6)])
  moreover have "pb_skip_field wt ?s1 = pb_ok (advance (length (wire src)) ?s1)"
    by (rule pb_skip_field_exact [OF s1(1) wire_payload [OF assms(1)] s1(2)])
  moreover have "wf_istream (advance (length (wire src)) ?s1)" "pending (advance (length (wire src)) ?s1) = rest"
    using s1 by (simp_all del: advance_advance)
  ultimately show ?thesis by auto
qed

end

definition int_member :: "pb_field \<Rightarrow> byte list \<Rightarrow> bool" where
  "int_member f src \<longleftrightarrow> length src = unat (data_size f) \<and> data_size f \<in> {1, 2, 4, 8}"

lemma int_memberE:
  assumes "int_member f src"
  obtains (one) "data_size f = 1" "length src = 1" | (two) "data_size f = 2" "length src = 2"
  | (four) "data_size f = 4" "length src = 4" | (eight) "data_size f = 8" "length src = 8"
  using assms by (auto simp: int_member_def)

lemma int_member_len: "int_member f src \<Longrightarrow> length src \<in> {1, 2, 4, 8}"
  by (auto simp: int_member_def)

lemma small_casts:
  "length src = 1 \<Longrightarrow> ucast (word_of_nat (le_nat src) :: u64) = (word_of_nat (le_nat src) :: 8 word)"
  "length src = 2 \<Longrightarrow> ucast (word_of_nat (le_nat src) :: u64) = (word_of_nat (le_nat src) :: 16 word)"
  "length src = 4 \<Longrightarrow> ucast (word_of_nat (le_nat src) :: u64) = (word_of_nat (le_nat src) :: 32 word)"
  using le_nat_less [of src]
  by (simp_all add: word_unat_eq_iff unsigned_ucast_eq unat_of_nat take_bit_eq_mod)

lemma payload_varint [simp]: "payload PB_WT_VARINT (varint n)"
  by (simp add: payload_def)

lemma keeping_simps [simp]:
  "keeping d (Some (r, s)) = Some (r, (s, d))" "keeping d None = None"
  by (simp_all add: keeping_def)

lemma pb_enc_varint_eq:
  assumes "int_member f src"
  shows "pb_enc_varint f src = pb_encode_varint (signed_member src)"
  using assms
  by (cases rule: int_memberE) (simp_all add: fun_eq_iff pb_enc_varint_def mem_load_exact signed_member_def small_casts)

lemma pb_enc_svarint_eq:
  assumes "int_member f src"
  shows "pb_enc_svarint f src = pb_encode_svarint (signed_member src)"
  using assms
  by (cases rule: int_memberE) (simp_all add: fun_eq_iff pb_enc_svarint_def mem_load_exact signed_member_def small_casts)

lemma pb_enc_uvarint_eq:
  assumes "int_member f src"
  shows "pb_enc_uvarint f src = pb_encode_varint (word_of_nat (le_nat src))"
  using assms
  by (cases rule: int_memberE) (simp_all add: fun_eq_iff pb_enc_uvarint_def mem_load_exact)

lemma pb_dec_varint_value:
  assumes "int_member f src" "pb_decode_varint s = Some (Some (signed_member src), s')" "length src \<le> length dest"
  shows "pb_dec_varint f dest s = pb_ok (s', src @ drop (length src) dest)"
proof -
  have "assign_checked (length src) (signed_member src) (signed_member src) (s', dest) =
      pb_ok (s', src @ drop (length src) dest)"
    using assms by (simp add: assign_checked_same signed_member_back int_member_len [simplified])
  then show ?thesis
    by (cases rule: int_memberE [OF assms(1)])
       (simp_all add: pb_dec_varint_def assms(2) signed_member_def scast_ucast_same scast_through_int)
qed

lemma pb_dec_svarint_value:
  assumes "int_member f src" "pb_decode_svarint s = Some (Some (signed_member src), s')" "length src \<le> length dest"
  shows "pb_dec_svarint f dest s = pb_ok (s', src @ drop (length src) dest)"
proof -
  have "assign_checked (length src) (signed_member src) (signed_member src) (s', dest) =
      pb_ok (s', src @ drop (length src) dest)"
    using assms by (simp add: assign_checked_same signed_member_back int_member_len [simplified])
  then show ?thesis
    by (cases rule: int_memberE [OF assms(1)])
       (simp_all add: pb_dec_svarint_def assms(2) signed_member_def scast_ucast_same)
qed

lemma unsigned_member_back:
  assumes "length src \<le> 8"
  shows "unat (word_of_nat (le_nat src) :: u64) = le_nat src"
proof -
  have "le_nat src < 256 ^ length src" by (rule le_nat_less)
  also have "\<dots> \<le> (256 :: nat) ^ 8" using assms by (intro power_increasing) simp_all
  finally show ?thesis by (intro unat_word_of_nat_less) simp
qed

lemma narrow_and_back:
  "LENGTH('a) \<le> 64 \<Longrightarrow> unat v < 2 ^ LENGTH('a) \<Longrightarrow> ucast (ucast v :: 'a::len word) = v" for v :: u64
  by (simp add: word_unat_eq_iff unat_ucast_up unat_mod_256)

lemma pb_dec_uvarint_value:
  assumes "int_member f src" "pb_decode_varint s = Some (Some (word_of_nat (le_nat src)), s')" "length src \<le> length dest"
  shows "pb_dec_uvarint f dest s = pb_ok (s', src @ drop (length src) dest)"
proof -
  have len: "length src \<le> 8" using int_member_len [OF assms(1)] by auto
  have "assign_checked (length src) (word_of_nat (le_nat src)) (word_of_nat (le_nat src)) (s', dest) =
      pb_ok (s', src @ drop (length src) dest)"
    using assms(3) by (simp add: assign_checked_same unsigned_member_back [OF len])
  moreover have "ucast (ucast (word_of_nat (le_nat src) :: u64) :: 8 word) = (word_of_nat (le_nat src) :: u64)"
    if "length src = 1"
    using narrow_and_back [of "word_of_nat (le_nat src)", where 'a = 8] le_nat_less [of src] that unsigned_member_back [OF len]
    by simp
  moreover have "ucast (ucast (word_of_nat (le_nat src) :: u64) :: 16 word) = (word_of_nat (le_nat src) :: u64)"
    if "length src = 2"
    using narrow_and_back [of "word_of_nat (le_nat src)", where 'a = 16] le_nat_less [of src] that unsigned_member_back [OF len]
    by simp
  moreover have "ucast (ucast (word_of_nat (le_nat src) :: u64) :: 32 word) = (word_of_nat (le_nat src) :: u64)"
    if "length src = 4"
    using narrow_and_back [of "word_of_nat (le_nat src)", where 'a = 32] le_nat_less [of src] that unsigned_member_back [OF len]
    by simp
  ultimately show ?thesis
    by (cases rule: int_memberE [OF assms(1)]) (simp_all only: pb_dec_uvarint_def assms(2), simp_all)
qed

interpretation varint_member: pb_member_codec "pb_enc_varint f" "pb_dec_varint f"
  "\<lambda>src. varint (unat (signed_member src))" PB_WT_VARINT "int_member f" for f
proof unfold_locales
  fix src and s :: "'b pb_istream" and rest and dest :: "byte list"
  assume *: "int_member f src" "wf_istream s" "pending s = varint (unat (signed_member src)) @ rest"
    "length src \<le> length dest"
  show "pb_dec_varint f dest s = pb_ok (advance (length (varint (unat (signed_member src)))) s, src @ drop (length src) dest)"
    by (rule pb_dec_varint_value [OF *(1) varint_codec.reads [OF *(2,3)] *(4)])
qed (simp_all add: proper_wire_type_def pb_enc_varint_eq pb_writers)

interpretation svarint_member: pb_member_codec "pb_enc_svarint f" "pb_dec_svarint f"
  "\<lambda>src. varint (unat (zigzag (signed_member src)))" PB_WT_VARINT "int_member f" for f
proof unfold_locales
  fix src and s :: "'b pb_istream" and rest and dest :: "byte list"
  assume *: "int_member f src" "wf_istream s" "pending s = varint (unat (zigzag (signed_member src))) @ rest"
    "length src \<le> length dest"
  show "pb_dec_svarint f dest s =
    pb_ok (advance (length (varint (unat (zigzag (signed_member src))))) s, src @ drop (length src) dest)"
    by (rule pb_dec_svarint_value [OF *(1) svarint_codec.reads [OF *(2,3)] *(4)])
qed (simp_all add: proper_wire_type_def pb_enc_svarint_eq pb_writers)

lemma uvarint_wire: "int_member f src \<Longrightarrow> unat (word_of_nat (le_nat src) :: u64) = le_nat src"
  by (rule unsigned_member_back) (auto dest: int_member_len)

interpretation uvarint_member: pb_member_codec "pb_enc_uvarint f" "pb_dec_uvarint f"
  "\<lambda>src. varint (le_nat src)" PB_WT_VARINT "int_member f" for f
proof unfold_locales
  fix src and s :: "'b pb_istream" and rest and dest :: "byte list"
  assume *: "int_member f src" "wf_istream s" "pending s = varint (le_nat src) @ rest" "length src \<le> length dest"
  then have "pb_decode_varint s = Some (Some (word_of_nat (le_nat src)), advance (length (varint (le_nat src))) s)"
    using varint_codec.reads [of s "word_of_nat (le_nat src)" rest] by (simp add: uvarint_wire)
  from pb_dec_uvarint_value [OF *(1) this *(4)]
  show "pb_dec_uvarint f dest s = pb_ok (advance (length (varint (le_nat src))) s, src @ drop (length src) dest)" .
next
  fix src
  assume i: "int_member f src"
  then show "pb_writes (pb_enc_uvarint f src) (varint (le_nat src))"
    using pb_writes_encode_varint [of "word_of_nat (le_nat src)"] by (simp add: pb_enc_uvarint_eq uvarint_wire)
qed (simp_all add: proper_wire_type_def)

interpretation bool_member: pb_member_codec pb_enc_bool pb_dec_bool "\<lambda>src. src" PB_WT_VARINT
  "\<lambda>src. src = [0] \<or> src = [1]"
proof unfold_locales
  fix src :: "byte list" assume ok: "src = [0] \<or> src = [1]"
  then have v: "src = varint (unat (if src = [1] then 1 else 0 :: u64))"
    by (auto simp: varint.simps)
  show "payload PB_WT_VARINT src" using ok by (auto simp: payload_def)
  have "pb_enc_bool src = (pb_encode_varint (if src = [1] then 1 else 0) :: 'a pb_ostream \<Rightarrow> _)"
    using ok by (auto simp: fun_eq_iff pb_enc_bool_def safe_read_bool_def)
  with v show "pb_writes (pb_enc_bool src :: 'a pb_ostream \<Rightarrow> _) src"
    using pb_writes_encode_varint by metis
  fix s :: "'b pb_istream" and rest and dest :: "byte list"
  assume s: "wf_istream s" "pending s = src @ rest" "length src \<le> length dest"
  have "pb_decode_varint32 s = Some (Some (if src = [1] then 1 else 0), advance (length src) s)"
    using s ok by (auto simp: pb_decode_varint32_first)
  with s ok show "pb_dec_bool dest s = pb_ok (advance (length src) s, src @ drop (length src) dest)"
    by (auto simp: pb_dec_bool_def dest_store_0)
qed (simp add: proper_wire_type_def)

interpretation fixed32_member: pb_member_codec pb_enc_fixed32 pb_dec_fixed32 "\<lambda>src. src" PB_WT_32BIT
  "\<lambda>src. length src = 4"
proof unfold_locales
  fix src :: "byte list" assume ok: "length src = 4"
  then have v: "le_bytes 4 (unat (word_of_nat (le_nat src) :: u32)) = src"
    using le_nat_less [of src] le_bytes_le_nat [of src] by (simp add: unat_of_nat)
  show "payload PB_WT_32BIT src" using ok by (simp add: payload_def)
  have "pb_enc_fixed32 src = (pb_encode_fixed32 (word_of_nat (le_nat src)) :: 'a pb_ostream \<Rightarrow> _)"
    using ok by (simp add: fun_eq_iff pb_enc_fixed32_def mem_load_exact small_casts)
  then show "pb_writes (pb_enc_fixed32 src :: 'a pb_ostream \<Rightarrow> _) src"
    using pb_writes_encode_fixed32 [of "word_of_nat (le_nat src)"] by (simp add: v)
  fix s :: "'b pb_istream" and rest and dest :: "byte list"
  assume s: "wf_istream s" "pending s = src @ rest" "length src \<le> length dest"
  from pb_decode_fixed32_reads [OF s(1,2) ok] v ok s(3)
  show "pb_dec_fixed32 dest s = pb_ok (advance (length src) s, src @ drop (length src) dest)"
    by (simp add: pb_dec_fixed32_def dest_store_0)
qed (simp add: proper_wire_type_def)

interpretation fixed64_member: pb_member_codec pb_enc_fixed64 pb_dec_fixed64 "\<lambda>src. src" PB_WT_64BIT
  "\<lambda>src. length src = 8"
proof unfold_locales
  fix src :: "byte list" assume ok: "length src = 8"
  then have v: "le_bytes 8 (unat (word_of_nat (le_nat src) :: u64)) = src"
    using le_bytes_le_nat [of src] by (simp add: unsigned_member_back)
  show "payload PB_WT_64BIT src" using ok by (simp add: payload_def)
  have "pb_enc_fixed64 src = (pb_encode_fixed64 (word_of_nat (le_nat src)) :: 'a pb_ostream \<Rightarrow> _)"
    using ok by (simp add: fun_eq_iff pb_enc_fixed64_def mem_load_exact)
  then show "pb_writes (pb_enc_fixed64 src :: 'a pb_ostream \<Rightarrow> _) src"
    using pb_writes_encode_fixed64 [of "word_of_nat (le_nat src)"] by (simp add: v)
  fix s :: "'b pb_istream" and rest and dest :: "byte list"
  assume s: "wf_istream s" "pending s = src @ rest" "length src \<le> length dest"
  from pb_decode_fixed64_reads [OF s(1,2) ok] v ok s(3)
  show "pb_dec_fixed64 dest s = pb_ok (advance (length src) s, src @ drop (length src) dest)"
    by (simp add: pb_dec_fixed64_def dest_store_0)
qed (simp add: proper_wire_type_def)

section \<open>Strings and bytes\<close>

lemma read_into_exact:
  assumes "wf_istream s" "off + unat n \<le> length mem"
  shows "read_into off n (s, mem) =
    (if unat n \<le> length (pending s)
     then pb_ok (advance (unat n) s, take off mem @ take (unat n) (pending s) @ drop (off + unat n) mem)
     else dec_error (s, mem) ''end-of-stream'')"
  using assms
  by (auto simp: read_into_def pb_read_wf dest_store_def mem_store_def dec_error_def pb_ireturn_error_def keeping_def min_def)

lemma dec_error_simps [simp]:
  "dec_error (s, d) msg =
     Some (None, s\<lparr>ierrmsg := (case ierrmsg s of None \<Rightarrow> Some msg | Some m \<Rightarrow> Some m)\<rparr>, d)"
  by (simp add: dec_error_def pb_ireturn_error_def)

lemma in_member_simps [simp]: "in_member w (Some (r, s, mem)) = Some (r, s, w mem)"
  by (simp add: in_member_def)

lemma length_pb_realloc: "pb_realloc al wrap ptr n = Some block \<Longrightarrow> length block = n"
  by (auto simp: pb_realloc_def Let_def split: if_splits option.splits)

lemma allocate_one:
  assumes "0 < n" "n < 2 ^ 64"
  shows "allocate_field al id s ptr (word_of_nat n) 1 =
    (case pb_realloc al id ptr n of
       None \<Rightarrow> pb_ireturn_error s ''realloc failed''
     | Some block \<Rightarrow> Some (Some block, s))"
proof -
  have u: "unat (word_of_nat n :: u64) = n" using assms by (intro unat_word_of_nat_less) simp
  then have "(word_of_nat n :: u64) \<noteq> 0" using assms(1) by (metis unsigned_0 less_irrefl)
  moreover have "\<not> (- 1 :: u64) div 1 < word_of_nat n" by (simp add: not_less)
  ultimately show ?thesis by (simp add: allocate_field_def u)
qed

lemma len_words:
  assumes "n < 2 ^ 32"
  shows "unat (word_of_nat n :: u32) = n" "ucast (word_of_nat n :: u32) = (word_of_nat n :: u64)"
    "unat (word_of_nat n :: u64) = n"
    "ucast (word_of_nat n + 1 :: u32) = (if n = 2 ^ 32 - 1 then 0 else word_of_nat (n + 1) :: u64)"
proof -
  show u: "unat (word_of_nat n :: u32) = n" "unat (word_of_nat n :: u64) = n"
    using assms by (auto intro!: unat_word_of_nat_less)
  then show "ucast (word_of_nat n :: u32) = (word_of_nat n :: u64)"
    by (simp add: word_unat_eq_iff unat_ucast_up)
  have "unat (word_of_nat n + 1 :: u32) = (if n = 2 ^ 32 - 1 then 0 else n + 1)"
    using u(1) assms by (auto simp: unat_word_ariths)
  moreover have "unat (word_of_nat (n + 1) :: u64) = n + 1"
    using assms by (intro unat_word_of_nat_less) simp
  ultimately show "ucast (word_of_nat n + 1 :: u32) = (if n = 2 ^ 32 - 1 then 0 else word_of_nat (n + 1) :: u64)"
    by (auto simp: word_unat_eq_iff unat_ucast_up)
qed

lemma bytes_left_less_iff:
  "wf_istream s \<Longrightarrow> n < 2 ^ 64 \<Longrightarrow> bytes_left s < word_of_nat n \<longleftrightarrow> length (pending s) < n"
  by (simp add: length_pending word_less_nat_alt unat_word_of_nat_less)

lemma pb_dec_string_inline:
  assumes "wf_istream s1" "pb_decode_varint32 s = Some (Some (word_of_nat n), s1)" "n < 2 ^ 32"
    "PB_ATYPE (field_type f) \<noteq> PB_ATYPE_POINTER"
    "length mem = unat (data_size f)"
  shows "pb_dec_string al f (Inline mem) s =
    (if n = 2 ^ 32 - 1 then dec_error (s1, Inline mem) ''size too large''
     else if length mem \<le> n then dec_error (s1, Inline mem) ''string overflow''
     else if n \<le> length (pending s1)
     then pb_ok (advance n s1, Inline (take n (pending s1) @ 0 # drop (Suc n) mem))
     else dec_error (s1, Inline (take n mem @ 0 # drop (Suc n) mem)) ''end-of-stream'')"
proof -
  note s1 = assms(1) and dec = assms(2)
  note w = len_words [OF assms(3)]
  show ?thesis
  proof (cases "n = 2 ^ 32 - 1")
    case True
    have "(0 :: u64) < word_of_nat n" using w(3) True by (simp add: word_less_nat_alt)
    with True dec w show ?thesis by (simp add: pb_dec_string_def Let_def)
  next
    case False
    have n1: "unat (word_of_nat (n + 1) :: u64) = n + 1" using assms(3) by (intro unat_word_of_nat_less) simp
    have small: "\<not> (word_of_nat (n + 1) :: u64) < word_of_nat n" by (simp only: word_less_nat_alt n1 w(3))
    have over: "(word_of_nat (n + 1) :: u64) > ucast (data_size f) \<longleftrightarrow> length mem \<le> n"
      by (simp only: word_less_nat_alt n1 unat_ucast_up) (simp add: assms(5) unat_ucast_up less_Suc_eq_le)
    show ?thesis
    proof (cases "length mem \<le> n")
      case True
      with False dec w small over assms(4) show ?thesis
        by (simp add: pb_dec_string_def Let_def del: of_nat_add of_nat_Suc)
    next
      case fit: False
      have r: "read_into 0 (word_of_nat n) (s1, mem) =
        (if n \<le> length (pending s1) then pb_ok (advance n s1, take n (pending s1) @ drop n mem)
         else dec_error (s1, mem) ''end-of-stream'')"
        using read_into_exact [OF s1, of 0 "word_of_nat n" mem] fit w(3) by simp
      have e: "Suc n + 0 \<le> length mem" "drop (Suc n) (take n (pending s1) @ drop n mem) = drop (Suc n) mem" if "n \<le> length (pending s1)"
        using that fit by simp_all
      from False fit dec w small over assms(4) r show ?thesis
        by (simp add: pb_dec_string_def Let_def mem_store_def del: of_nat_add of_nat_Suc)
    qed
  qed
qed

lemma pb_dec_string_pointer:
  assumes "wf_istream s1" "pb_decode_varint32 s = Some (Some (word_of_nat n), s1)" "n < 2 ^ 32"
    "PB_ATYPE (field_type f) = PB_ATYPE_POINTER"
  shows "pb_dec_string al f (Pointer ptr) s =
    (if n = 2 ^ 32 - 1 then dec_error (s1, Pointer ptr) ''size too large''
     else if length (pending s1) < n then dec_error (s1, Pointer ptr) ''end-of-stream''
     else case pb_realloc al id ptr (n + 1) of
            None \<Rightarrow> dec_error (s1, Pointer ptr) ''realloc failed''
          | Some block \<Rightarrow> pb_ok (advance n s1, Pointer (Some (take n (pending s1) @ [0]))))"
proof -
  note s1 = assms(1) and dec = assms(2)
  note w = len_words [OF assms(3)]
  show ?thesis
  proof (cases "n = 2 ^ 32 - 1")
    case True
    have "(0 :: u64) < word_of_nat n" using w(3) True by (simp add: word_less_nat_alt)
    with True dec w show ?thesis by (simp add: pb_dec_string_def Let_def)
  next
    case False
    have n1: "unat (word_of_nat (n + 1) :: u64) = n + 1" using assms(3) by (intro unat_word_of_nat_less) simp
    have small: "\<not> (word_of_nat (n + 1) :: u64) < word_of_nat n" by (simp only: word_less_nat_alt n1 w(3))
    have less: "bytes_left s1 < word_of_nat n \<longleftrightarrow> length (pending s1) < n"
      using bytes_left_less_iff [OF s1, of n] assms(3) by simp
    have alloc: "allocate_field al id s1 ptr (word_of_nat (n + 1)) 1 =
      (case pb_realloc al id ptr (n + 1) of None \<Rightarrow> pb_ireturn_error s1 ''realloc failed''
       | Some block \<Rightarrow> Some (Some block, s1))"
      using assms(3) by (intro allocate_one) simp_all
    show ?thesis
    proof (cases "length (pending s1) < n")
      case True
      with False dec w small less assms(4) show ?thesis
        by (simp add: pb_dec_string_def Let_def del: of_nat_add of_nat_Suc)
    next
      case fit: False
      show ?thesis
      proof (cases "pb_realloc al id ptr (n + 1)")
        case None
        with False fit dec w small less alloc assms(4) show ?thesis
          by (simp add: pb_dec_string_def Let_def pb_ireturn_error_def del: of_nat_add of_nat_Suc)
      next
        case (Some block)
        then have len: "length block = n + 1" by (rule length_pb_realloc)
        have "read_into 0 (word_of_nat n) (s1, block) =
          pb_ok (advance n s1, take n (pending s1) @ drop n block)"
          using read_into_exact [OF s1, of 0 "word_of_nat n" block] len fit w(3) by simp
        with Some len False fit dec w small less alloc assms(4) show ?thesis
          by (simp add: pb_dec_string_def Let_def mem_store_def del: of_nat_add of_nat_Suc)
      qed
    qed
  qed
qed

lemma allocsize_word:
  assumes "n < 2 ^ 32"
  shows "PB_BYTES_ARRAY_T_ALLOCSIZE (word_of_nat n) = word_of_nat (n + 4)"
    "unat (word_of_nat (n + 4) :: u64) = n + 4"
proof -
  show "unat (word_of_nat (n + 4) :: u64) = n + 4" using assms by (intro unat_word_of_nat_less) simp
  show "PB_BYTES_ARRAY_T_ALLOCSIZE (word_of_nat n) = word_of_nat (n + 4)"
    unfolding PB_BYTES_ARRAY_T_ALLOCSIZE_def len_words(2) [OF assms] by simp
qed

lemma pb_dec_bytes_inline:
  assumes "wf_istream s1" "pb_decode_varint32 s = Some (Some (word_of_nat n), s1)" "n < 2 ^ 32"
    "PB_ATYPE (field_type f) \<noteq> PB_ATYPE_POINTER"
    "length mem = unat (data_size f)"
  shows "pb_dec_bytes al f (Inline mem) s =
    (if length mem < n + 4 then dec_error (s1, Inline mem) ''bytes overflow''
     else if n \<le> length (pending s1)
     then pb_ok (advance n s1, Inline (le_bytes 4 n @ take n (pending s1) @ drop (n + 4) mem))
     else dec_error (s1, Inline (le_bytes 4 n @ drop 4 mem)) ''end-of-stream'')"
proof -
  note s1 = assms(1) and dec = assms(2)
  note w = len_words [OF assms(3)]
  note a = allocsize_word [OF assms(3)]
  have m: "\<not> PB_SIZE_MAX < word_of_nat n" by (simp add: PB_SIZE_MAX_def not_less)
  have small: "\<not> (word_of_nat (n + 4) :: u64) < word_of_nat n" by (simp only: word_less_nat_alt a(2) w(3))
  have over: "(word_of_nat (n + 4) :: u64) > ucast (data_size f) \<longleftrightarrow> length mem < n + 4"
    by (simp only: word_less_nat_alt a(2) unat_ucast_up) (simp add: assms(5) unat_ucast_up)
  show ?thesis
  proof (cases "length mem < n + 4")
    case True
    with dec w small over m a assms(4) show ?thesis
      by (simp add: pb_dec_bytes_def Let_def del: of_nat_add of_nat_Suc)
  next
    case fit: False
    have "read_into 4 (word_of_nat n) (s1, le_bytes 4 n @ drop 4 mem) =
      (if n \<le> length (pending s1)
       then pb_ok (advance n s1, le_bytes 4 n @ take n (pending s1) @ drop (n + 4) mem)
       else dec_error (s1, le_bytes 4 n @ drop 4 mem) ''end-of-stream'')"
      using read_into_exact [OF s1, of 4 "word_of_nat n" "le_bytes 4 n @ drop 4 mem"] fit w(3)
      by (simp add: add.commute)
    moreover have "dest_store 0 (le_bytes 4 n) (s1, mem) = pb_ok (s1, le_bytes 4 n @ drop 4 mem)"
      using dest_store_0 [of "le_bytes 4 n" mem] fit by simp
    ultimately show ?thesis
      using fit dec w small over m a assms(4)
      by (simp add: pb_dec_bytes_def Let_def del: of_nat_add of_nat_Suc)
  qed
qed

lemma pb_dec_bytes_pointer:
  assumes "wf_istream s1" "pb_decode_varint32 s = Some (Some (word_of_nat n), s1)" "n < 2 ^ 32"
    "PB_ATYPE (field_type f) = PB_ATYPE_POINTER"
  shows "pb_dec_bytes al f (Pointer ptr) s =
    (if length (pending s1) < n then dec_error (s1, Pointer ptr) ''end-of-stream''
     else case pb_realloc al id ptr (n + 4) of
            None \<Rightarrow> dec_error (s1, Pointer ptr) ''realloc failed''
          | Some block \<Rightarrow> pb_ok (advance n s1, Pointer (Some (le_bytes 4 n @ take n (pending s1)))))"
proof -
  note s1 = assms(1) and dec = assms(2)
  note w = len_words [OF assms(3)]
  note a = allocsize_word [OF assms(3)]
  have m: "\<not> PB_SIZE_MAX < word_of_nat n" by (simp add: PB_SIZE_MAX_def not_less)
  have small: "\<not> (word_of_nat (n + 4) :: u64) < word_of_nat n" by (simp only: word_less_nat_alt a(2) w(3))
  have less: "bytes_left s1 < word_of_nat n \<longleftrightarrow> length (pending s1) < n"
    using bytes_left_less_iff [OF s1, of n] assms(3) by simp
  have alloc: "allocate_field al id s1 ptr (word_of_nat (n + 4)) 1 =
    (case pb_realloc al id ptr (n + 4) of None \<Rightarrow> pb_ireturn_error s1 ''realloc failed''
     | Some block \<Rightarrow> Some (Some block, s1))"
    using assms(3) by (intro allocate_one) simp_all
  show ?thesis
  proof (cases "length (pending s1) < n")
    case True
    with dec w small less m a assms(4) show ?thesis
      by (simp add: pb_dec_bytes_def Let_def del: of_nat_add of_nat_Suc)
  next
    case fit: False
    show ?thesis
    proof (cases "pb_realloc al id ptr (n + 4)")
      case None
      with fit dec w small less m a alloc assms(4) show ?thesis
        by (simp add: pb_dec_bytes_def Let_def pb_ireturn_error_def del: of_nat_add of_nat_Suc)
    next
      case (Some block)
      then have len: "length block = n + 4" by (rule length_pb_realloc)
      have "read_into 4 (word_of_nat n) (s1, le_bytes 4 n @ drop 4 block) =
        pb_ok (advance n s1, le_bytes 4 n @ take n (pending s1))"
        using read_into_exact [OF s1, of 4 "word_of_nat n" "le_bytes 4 n @ drop 4 block"] len fit w(3)
        by simp
      moreover have "dest_store 0 (le_bytes 4 n) (s1, block) = pb_ok (s1, le_bytes 4 n @ drop 4 block)"
        using dest_store_0 [of "le_bytes 4 n" block] len by simp
      ultimately show ?thesis
        using Some fit dec w small less m a alloc assms(4)
        by (simp add: pb_dec_bytes_def Let_def del: of_nat_add of_nat_Suc)
    qed
  qed
qed

lemma bounded_strlen_exact:
  "0 \<notin> set xs \<Longrightarrow> length xs < n \<Longrightarrow> bounded_strlen (xs @ 0 # behind) n = Some (length xs)"
  by (induction xs arbitrary: n) auto

lemma bounded_strlen_full:
  "0 \<notin> set xs \<Longrightarrow> bounded_strlen xs (length xs) = Some (length xs)"
  by (induction xs) auto

section \<open>Properties\<close>

text \<open>A field written by \<open>enc\<close> behind its tag is read back by \<open>dec\<close>, or skipped, up to what follows it; the
  bytes of the member arrive unchanged, and those behind it in the destination stay as they are.\<close>

definition pb_field_round_trips ::
  "(byte list \<Rightarrow> unit pb_ostream \<Rightarrow> (unit, unit pb_ostream) pb_result) \<Rightarrow>
   (byte list \<Rightarrow> unit pb_istream \<Rightarrow> (unit, (unit, byte list) pb_decoding) pb_result) \<Rightarrow>
   pb_wire_type \<Rightarrow> u32 \<Rightarrow> byte list \<Rightarrow> byte list \<Rightarrow> bool" where
  "pb_field_round_trips enc dec wt tag src bs \<longleftrightarrow>
     pb_writes (\<lambda>s. pb_then (pb_encode_tag wt tag s) (\<lambda>_. enc src)) (tag_bytes wt (unat tag) @ bs) \<and>
     (\<forall>s rest dest. wf_istream s \<longrightarrow> pending s = (tag_bytes wt (unat tag) @ bs) @ rest \<longrightarrow>
        length src \<le> length dest \<longrightarrow>
        (\<exists>s1 s2. pb_decode_tag s = Some ((Some (wt, tag), False), s1) \<and>
           dec dest s1 = pb_ok (s2, src @ drop (length src) dest) \<and> pb_skip_field wt s1 = pb_ok s2 \<and>
           wf_istream s2 \<and> pending s2 = rest))"

lemma pb_field_round_tripsI:
  assumes "pb_member_codec enc dec wire wt ok" "ok src" "0 < tag" "tag < 2 ^ 29"
  shows "pb_field_round_trips enc dec wt tag src (wire src)"
proof -
  have "0 < unat tag" "unat tag < 2 ^ 29" using assms(3,4) by (simp_all add: word_less_nat_alt)
  with pb_member_codec.field_writes [OF assms(1,2)] pb_member_codec.field_reads [OF assms(1,2)]
  show ?thesis unfolding pb_field_round_trips_def by blast
qed

text \<open>C39. An integer member of 1, 2, 4 or 8 bytes, signed, zigzagged or unsigned, and one of a fixed width,
  is written behind its tag and read back byte by byte, negative numbers included; nothing behind the
  member is touched, and a reader that does not know the field skips exactly the same bytes.\<close>

theorem pb_fields_round_trip:
  assumes "data_size f \<in> {1, 2, 4, 8}" "length src = unat (data_size f)" "0 < tag" "tag < 2 ^ 29"
  shows "pb_field_round_trips (pb_enc_varint f) (pb_dec_varint f) PB_WT_VARINT tag src (varint (unat (signed_member src))) \<and>
    pb_field_round_trips (pb_enc_svarint f) (pb_dec_svarint f) PB_WT_VARINT tag src (varint (unat (zigzag (signed_member src)))) \<and>
    pb_field_round_trips (pb_enc_uvarint f) (pb_dec_uvarint f) PB_WT_VARINT tag src (varint (le_nat src)) \<and>
    (data_size f = 4 \<longrightarrow> pb_field_round_trips pb_enc_fixed32 pb_dec_fixed32 PB_WT_32BIT tag src src) \<and>
    (data_size f = 8 \<longrightarrow> pb_field_round_trips pb_enc_fixed64 pb_dec_fixed64 PB_WT_64BIT tag src src)"
proof -
  have i: "int_member f src" using assms(1,2) by (simp add: int_member_def)
  show ?thesis
    using pb_field_round_tripsI [OF varint_member.pb_member_codec_axioms i assms(3,4)]
      pb_field_round_tripsI [OF svarint_member.pb_member_codec_axioms i assms(3,4)]
      pb_field_round_tripsI [OF uvarint_member.pb_member_codec_axioms i assms(3,4)]
      pb_field_round_tripsI [OF fixed32_member.pb_member_codec_axioms _ assms(3,4), of src]
      pb_field_round_tripsI [OF fixed64_member.pb_member_codec_axioms _ assms(3,4), of src] assms(2)
    by simp
qed

theorem pb_fields_round_trip_witness:
  "pb_field_round_trips (pb_enc_varint \<lparr>field_tag = 1, field_type = 1, data_offset = 0, size_offset = 0,
    data_size = 2, array_size = 0, field_ptr = Null_ptr\<rparr>)
     (pb_dec_varint \<lparr>field_tag = 1, field_type = 1, data_offset = 0, size_offset = 0,
    data_size = 2, array_size = 0, field_ptr = Null_ptr\<rparr>) PB_WT_VARINT 1 [0xFE, 0xFF]
     (varint (unat (signed_member [0xFE, 0xFF])))"
  using pb_fields_round_trip [of "\<lparr>field_tag = 1, field_type = 1, data_offset = 0, size_offset = 0,
    data_size = 2, array_size = 0, field_ptr = Null_ptr\<rparr>" "[0xFE, 0xFF]" 1] by simp

text \<open>\<open>pb_dec_string\<close> on a stream that starts with the length \<open>n\<close>, on every branch.  In place: the string
  and its NUL are stored when both fit into the member and the stream has the bytes, and the rest of the
  member keeps its value; a string that does not fit changes nothing; when the stream is too short only
  the NUL is stored.  Through a pointer: the length is checked against the stream before a block of \<open>n + 1\<close>
  bytes is allocated, so a message cannot ask for more memory than it has bytes.\<close>

theorem pb_dec_string_exact:
  assumes "wf_istream s" "pending s = varint n @ body" "n < 2 ^ 32 - 1"
    and "PB_ATYPE (field_type f) \<noteq> PB_ATYPE_POINTER" "length mem = unat (data_size f)"
    and "PB_ATYPE (field_type g) = PB_ATYPE_POINTER"
  defines "s1 \<equiv> advance (length (varint n)) s" and "s2 \<equiv> advance (length (varint n) + n) s"
  shows "pb_dec_string al f (Inline mem) s =
      (if length mem \<le> n then dec_error (s1, Inline mem) ''string overflow''
       else if n \<le> length body then pb_ok (s2, Inline (take n body @ 0 # drop (Suc n) mem))
       else dec_error (s1, Inline (take n mem @ 0 # drop (Suc n) mem)) ''end-of-stream'') \<and>
    pb_dec_string al g (Pointer ptr) s =
      (if length body < n then dec_error (s1, Pointer ptr) ''end-of-stream''
       else if malloc_ok al (n + 1) then pb_ok (s2, Pointer (Some (take n body @ [0])))
       else dec_error (s1, Pointer ptr) ''realloc failed'')"
proof -
  have n: "n < 2 ^ 32" using assms(3) by simp
  have s1: "wf_istream s1" "pending s1 = body" "advance n s1 = s2"
    using assms(1,2) by (simp_all add: s1_def s2_def)
  note dec = pb_decode_varint32_reads [OF assms(1,2) n, folded s1_def]
  show ?thesis
    using pb_dec_string_inline [OF s1(1) dec n assms(4,5), of al]
      pb_dec_string_pointer [OF s1(1) dec n assms(6), of al ptr] assms(3) s1(2,3)
    by (simp add: pb_realloc_def Let_def)
qed

theorem pb_dec_string_exact_witness:
  "pb_dec_string good_allocator \<lparr>field_tag = 1, field_type = 0x07, data_offset = 0, size_offset = 0,
    data_size = 4, array_size = 0, field_ptr = Null_ptr\<rparr> (Inline [9, 9, 9, 9])
     (pb_istream_from_buffer [0x02, 0x61, 0x62] 3 :: unit pb_istream) =
   pb_ok (advance (Suc (Suc (Suc 0))) (pb_istream_from_buffer [0x02, 0x61, 0x62] 3), Inline [0x61, 0x62, 0, 9])"
proof -
  have "varint 2 = [0x02]" by (simp add: varint.simps)
  then show ?thesis
    using pb_dec_string_exact [of "pb_istream_from_buffer [0x02, 0x61, 0x62] 3 :: unit pb_istream" 2 "[0x61, 0x62]"
      "\<lparr>field_tag = 1, field_type = 0x07, data_offset = 0, size_offset = 0,
    data_size = 4, array_size = 0, field_ptr = Null_ptr\<rparr>" "[9, 9, 9, 9]"
      "\<lparr>field_tag = 1, field_type = 0x87, data_offset = 0, size_offset = 0,
    data_size = 4, array_size = 0, field_ptr = Null_ptr\<rparr>" good_allocator None]
    by (simp add: PB_ATYPE_def PB_ATYPE_POINTER_def)
qed

lemma static_not_pointer: "PB_ATYPE (field_type f) = PB_ATYPE_STATIC \<Longrightarrow> PB_ATYPE (field_type f) \<noteq> PB_ATYPE_POINTER"
  by (simp add: PB_ATYPE_STATIC_def PB_ATYPE_POINTER_def)

text \<open>\<open>pb_enc_string\<close> writes the \<open>k\<close> characters before the NUL, or all there are; \<open>pb_dec_string\<close> wants room for a NUL.\<close>

lemma enc_string_writes:
  assumes "PB_ATYPE (field_type f) = PB_ATYPE_STATIC" "bounded_strlen mem (unat (data_size f)) = Some k"
    "k < 2 ^ 32" "k \<le> length mem"
  shows "pb_writes (pb_enc_string f (Some mem) :: 's pb_ostream \<Rightarrow> (unit, 's pb_ostream) pb_result) (varint k @ take k mem)"
proof -
  have "pb_enc_string f (Some mem) = (pb_encode_string mem (word_of_nat k) :: 's pb_ostream \<Rightarrow> _)"
    using assms(2) static_not_pointer [OF assms(1)] by (simp add: fun_eq_iff pb_enc_string_def)
  then show ?thesis
    using pb_writes_encode_string [of "word_of_nat k" mem] len_words(3) [OF assms(3)] assms(4) by simp
qed

lemma dec_string_reads:
  assumes "PB_ATYPE (field_type f) = PB_ATYPE_STATIC" "length dest = unat (data_size f)" "wf_istream s"
    "pending s = (varint (length xs) @ xs) @ rest" "length xs < 2 ^ 32"
  shows "pb_dec_string al f (Inline dest) s =
    (if length xs = 2 ^ 32 - 1 then dec_error (advance (length (varint (length xs))) s, Inline dest) ''size too large''
     else if length dest \<le> length xs then dec_error (advance (length (varint (length xs))) s, Inline dest) ''string overflow''
     else pb_ok (advance (length (varint (length xs) @ xs)) s, Inline (xs @ 0 # drop (Suc (length xs)) dest)))"
  using pb_dec_string_inline [OF _ _ assms(5) static_not_pointer [OF assms(1)] assms(2),
      of "advance (length (varint (length xs))) s" s al]
    pb_decode_varint32_reads [OF assms(3) _ assms(5), of "xs @ rest"] assms(3,4) by simp

lemma enc_bytes_writes:
  assumes "length (le_bytes 4 (length ys) @ ys @ behind) = unat (data_size g)"
  shows "pb_writes (pb_enc_bytes g (Some (le_bytes 4 (length ys) @ ys @ behind)) :: 's pb_ostream \<Rightarrow> (unit, 's pb_ostream) pb_result)
    (varint (length ys) @ ys)"
proof -
  have small: "unat (data_size g) < 2 ^ 32" using unsigned_less [of "data_size g", where 'a = nat] by simp
  then have ys: "length ys < 2 ^ 32" "length ys + 4 \<le> unat (data_size g)" using assms by simp_all
  have "mem_load 4 (le_bytes 4 (length ys) @ ys @ behind) = Some (word_of_nat (length ys))"
    using ys(1) by (simp add: mem_load_def le_nat_le_bytes)
  moreover have "ucast (word_of_nat (length ys) :: u64) = (word_of_nat (length ys) :: u32)"
    using len_words(1,3) [OF ys(1)] ys(1) by (simp add: word_unat_eq_iff unat_mod_256)
  moreover have "\<not> (word_of_nat (length ys + 4) :: u64) < word_of_nat (length ys)"
    by (simp only: word_less_nat_alt allocsize_word(2) [OF ys(1)] len_words(3) [OF ys(1)])
  moreover have "\<not> (ucast (data_size g) :: u64) < word_of_nat (length ys + 4)"
    using ys(2) by (simp only: word_less_nat_alt allocsize_word(2) [OF ys(1)] unat_ucast_up) (simp add: unat_ucast_up)
  ultimately have "pb_enc_bytes g (Some (le_bytes 4 (length ys) @ ys @ behind)) =
      (pb_encode_string (ys @ behind) (word_of_nat (length ys)) :: 's pb_ostream \<Rightarrow> _)"
    by (simp add: fun_eq_iff pb_enc_bytes_def Let_def allocsize_word(1) [OF ys(1)] len_words(2) [OF ys(1)]
        del: of_nat_add)
  then show ?thesis
    using pb_writes_encode_string [of "word_of_nat (length ys)" "ys @ behind"] len_words(3) [OF ys(1)] by simp
qed

text \<open>C40. Strings and bytes stored in place.  What \<open>pb_enc_string\<close> writes for a member with a NUL in it is the length and
  the characters before the first NUL, and \<open>pb_dec_string\<close> reads it back into a member of the same size.  For a
  member without a NUL \<open>pb_enc_string\<close> writes all its characters, and \<open>pb_dec_string\<close> refuses them: it wants room for a NUL.
  What \<open>pb_enc_bytes\<close> writes for a member (the number of bytes it records, and that many of its bytes) is read back
  by \<open>pb_dec_bytes\<close>.\<close>

theorem pb_strings_round_trip:
  assumes f: "PB_ATYPE (field_type f) = PB_ATYPE_STATIC" "length dest = unat (data_size f)"
    and str: "0 \<notin> set xs" "length (xs @ 0 # after) = unat (data_size f)"
      "wf_istream s" "pending s = (varint (length xs) @ xs) @ rest"
    and full: "0 \<notin> set zs" "length zs = unat (data_size f)" "wf_istream u" "pending u = (varint (length zs) @ zs) @ rest"
    and g: "PB_ATYPE (field_type g) = PB_ATYPE_STATIC" "length dest' = unat (data_size g)"
    and bytes: "length (le_bytes 4 (length ys) @ ys @ behind) = unat (data_size g)"
      "wf_istream t" "pending t = (varint (length ys) @ ys) @ rest"
  shows "pb_writes (pb_enc_string f (Some (xs @ 0 # after)) :: 's pb_ostream \<Rightarrow> (unit, 's pb_ostream) pb_result) (varint (length xs) @ xs) \<and>
    pb_dec_string al f (Inline dest) s =
      pb_ok (advance (length (varint (length xs) @ xs)) s, Inline (xs @ 0 # drop (Suc (length xs)) dest)) \<and>
    pb_writes (pb_enc_string f (Some zs) :: 's pb_ostream \<Rightarrow> (unit, 's pb_ostream) pb_result) (varint (length zs) @ zs) \<and>
    (\<exists>msg. pb_dec_string al f (Inline dest) u = dec_error (advance (length (varint (length zs))) u, Inline dest) msg) \<and>
    pb_writes (pb_enc_bytes g (Some (le_bytes 4 (length ys) @ ys @ behind)) :: 's pb_ostream \<Rightarrow> (unit, 's pb_ostream) pb_result)
      (varint (length ys) @ ys) \<and>
    pb_dec_bytes al g (Inline dest') t =
      pb_ok (advance (length (varint (length ys) @ ys)) t, Inline (le_bytes 4 (length ys) @ ys @ drop (length ys + 4) dest'))"
proof (intro conjI)
  have small: "unat (data_size f) < 2 ^ 32" "unat (data_size g) < 2 ^ 32"
    using unsigned_less [of "data_size f", where 'a = nat] unsigned_less [of "data_size g", where 'a = nat] by simp_all
  have xs: "length xs < 2 ^ 32" "length xs < length dest" "length xs \<noteq> 2 ^ 32 - 1"
    using f(2) str(2) small by simp_all
  have zs: "length zs < 2 ^ 32" "length zs = length dest" using f(2) full(2) small by simp_all
  have ys: "length ys < 2 ^ 32" "length ys + 4 \<le> length dest'" using g(2) bytes(1) small by simp_all
  show "pb_writes (pb_enc_string f (Some (xs @ 0 # after)) :: 's pb_ostream \<Rightarrow> _) (varint (length xs) @ xs)"
    using enc_string_writes [OF f(1) bounded_strlen_exact [OF str(1)] xs(1), of after] xs(2) f(2) by simp
  show "pb_dec_string al f (Inline dest) s =
      pb_ok (advance (length (varint (length xs) @ xs)) s, Inline (xs @ 0 # drop (Suc (length xs)) dest))"
    using dec_string_reads [OF f str(3,4) xs(1), of al] xs(2,3) by simp
  show "pb_writes (pb_enc_string f (Some zs) :: 's pb_ostream \<Rightarrow> _) (varint (length zs) @ zs)"
    using enc_string_writes [OF f(1) bounded_strlen_full [OF full(1), unfolded full(2)]] zs(1) full(2) by simp
  show "\<exists>msg. pb_dec_string al f (Inline dest) u = dec_error (advance (length (varint (length zs))) u, Inline dest) msg"
    using dec_string_reads [OF f full(3,4) zs(1), of al] zs(2) by auto
  show "pb_writes (pb_enc_bytes g (Some (le_bytes 4 (length ys) @ ys @ behind)) :: 's pb_ostream \<Rightarrow> _) (varint (length ys) @ ys)"
    by (rule enc_bytes_writes [OF bytes(1)])
  show "pb_dec_bytes al g (Inline dest') t =
      pb_ok (advance (length (varint (length ys) @ ys)) t, Inline (le_bytes 4 (length ys) @ ys @ drop (length ys + 4) dest'))"
    using pb_dec_bytes_inline [OF _ _ ys(1) static_not_pointer [OF g(1)] g(2), of "advance (length (varint (length ys))) t" t al]
      pb_decode_varint32_reads [OF bytes(2) _ ys(1), of "ys @ rest"] ys bytes(2,3) by simp
qed

definition string_member :: "u32 \<Rightarrow> pb_field" where
  "string_member n = \<lparr>field_tag = 1, field_type = 0x07, data_offset = 0, size_offset = 0, data_size = n, array_size = 0, field_ptr = Null_ptr\<rparr>"

definition bytes_member :: "u32 \<Rightarrow> pb_field" where
  "bytes_member n = \<lparr>field_tag = 2, field_type = 0x06, data_offset = 0, size_offset = 0, data_size = n, array_size = 0, field_ptr = Null_ptr\<rparr>"

theorem pb_strings_round_trip_witness:
  "pb_dec_string good_allocator (string_member 2) (Inline [7, 7]) (pb_istream_from_buffer [1, 0x61, 9] 3 :: unit pb_istream) =
     pb_ok (\<lparr>source = Buf_read [9], bytes_left = 1, ierrmsg = None\<rparr>, Inline [0x61, 0]) \<and>
   (\<exists>msg. pb_dec_string good_allocator (string_member 2) (Inline [7, 7]) (pb_istream_from_buffer [2, 0x61, 0x62, 9] 4 :: unit pb_istream) =
     Some (None, \<lparr>source = Buf_read [0x61, 0x62, 9], bytes_left = 3, ierrmsg = Some msg\<rparr>, Inline [7, 7])) \<and>
   pb_dec_bytes good_allocator (bytes_member 6) (Inline [7, 7, 7, 7, 7, 7]) (pb_istream_from_buffer [1, 0x62, 9] 3 :: unit pb_istream) =
     pb_ok (\<lparr>source = Buf_read [9], bytes_left = 1, ierrmsg = None\<rparr>, Inline [1, 0, 0, 0, 0x62, 7])"
proof -
  have v: "varint (Suc 0) = [1]" "varint (Suc (Suc 0)) = [2]" by code_simp+
  have b: "le_bytes 4 (Suc 0) = [1, 0, 0, 0]" by code_simp
  let ?s = "pb_istream_from_buffer [1, 0x61, 9] 3 :: unit pb_istream"
    and ?u = "pb_istream_from_buffer [2, 0x61, 0x62, 9] 4 :: unit pb_istream"
    and ?t = "pb_istream_from_buffer [1, 0x62, 9] 3 :: unit pb_istream"
  have static: "PB_ATYPE (field_type (string_member 2)) = PB_ATYPE_STATIC" "PB_ATYPE (field_type (bytes_member 6)) = PB_ATYPE_STATIC"
    "unat (data_size (string_member 2)) = 2" "unat (data_size (bytes_member 6)) = 6"
    by (simp_all add: string_member_def bytes_member_def PB_ATYPE_def PB_ATYPE_STATIC_def)
  have streams: "wf_istream ?s" "pending ?s = (varint (length [0x61 :: byte]) @ [0x61]) @ [9]"
    "wf_istream ?u" "pending ?u = (varint (length [0x61, 0x62 :: byte]) @ [0x61, 0x62]) @ [9]"
    "wf_istream ?t" "pending ?t = (varint (length [0x62 :: byte]) @ [0x62]) @ [9]"
    by (simp_all add: v)
  show ?thesis
    using pb_strings_round_trip [OF static(1) _ _ _ streams(1,2) _ _ streams(3,4) static(2) _ _ streams(5,6),
        of "[7, 7]" "[]" "[7, 7, 7, 7, 7, 7]" "[0]" good_allocator, where 's = unit]
    by (auto simp: v b static advance_def pb_istream_from_buffer_def)
qed

text \<open>A member as its field describes it, and what decoding leaves of it.\<close>

definition member_fits :: "pb_field \<Rightarrow> pb_member \<Rightarrow> bool" where
  "member_fits f dest \<longleftrightarrow>
     (case dest of
        Inline mem \<Rightarrow> PB_ATYPE (field_type f) \<noteq> PB_ATYPE_POINTER \<and> length mem = unat (data_size f)
      | Pointer _ \<Rightarrow> PB_ATYPE (field_type f) = PB_ATYPE_POINTER)"

text \<open>A decoder of a member that starts with a length stays within the stream and the member.\<close>

definition member_within :: "pb_field \<Rightarrow> 's pb_istream \<Rightarrow> (unit, ('s, pb_member) pb_decoding) pb_result \<Rightarrow> bool" where
  "member_within f s res \<longleftrightarrow>
     (\<exists>r n e dest. res = Some (r, (advance n s)\<lparr>ierrmsg := e\<rparr>, dest) \<and> n \<le> length (pending s) \<and> member_fits f dest)"

lemma member_withinI:
  "n \<le> length (pending s) \<Longrightarrow> member_fits f dest \<Longrightarrow> member_within f s (Some (r, (advance n s)\<lparr>ierrmsg := e\<rparr>, dest))"
  by (auto simp: member_within_def)

lemma member_within_okI:
  "n \<le> length (pending s) \<Longrightarrow> member_fits f dest \<Longrightarrow> member_within f s (Some (r, advance n s, dest))"
  using member_withinI [of n s f dest r "ierrmsg s"] by (simp add: advance_same_errmsg)

text \<open>For every stream over a buffer, whatever its bytes, and every member that is as its field says:
  \<open>pb_dec_string\<close> and \<open>pb_dec_bytes\<close> return, read only the stream's bytes, and write only the \<open>data_size\<close>
  bytes of the member or the block they allocated.  A length is a hostile number here: it may be as large
  as \<open>2 ^ 32 - 1\<close>, where the room for the NUL wraps to 0.\<close>

lemma pb_dec_stays_in_member:
  assumes "wf_istream s" "member_fits f dest"
  shows "member_within f s (pb_dec_string al f dest s) \<and> member_within f s (pb_dec_bytes al f dest s)"
proof (cases rule: pb_withinE [OF pb_readerD [OF pb_reader_decode_varint32 assms(1)]])
  case (1 n e)
  then show ?thesis
    using assms by (simp add: pb_dec_string_def pb_dec_bytes_def member_withinI)
next
  case (2 v k)
  define s1 where "s1 = advance k s"
  have s1: "wf_istream s1" using assms(1) 2 by (simp add: s1_def)
  have n: "unat v < 2 ^ 32" using unsigned_less [of v, where 'a = nat] by simp
  have dec: "pb_decode_varint32 s = Some (Some (word_of_nat (unat v)), s1)" using 2 by (simp add: s1_def)
  have left: "unat v \<le> length (pending s1) \<Longrightarrow> k + unat v \<le> length (pending s)"
    using 2 assms(1) by (simp add: s1_def)
  have adv: "advance (unat v) s1 = advance (k + unat v) s" by (simp add: s1_def)
  have err: "member_within f s (dec_error (s1, d) msg)" if "member_fits f d" for d msg
    using member_withinI [of k s f d] 2 that by (simp add: s1_def)
  have ok: "member_within f s (pb_ok (advance (unat v) s1, d))"
    if "unat v \<le> length (pending s1)" "member_fits f d" for d
    unfolding adv using left that by (intro member_within_okI)
  show ?thesis
  proof (cases dest)
    case (Inline mem)
    then have m: "PB_ATYPE (field_type f) \<noteq> PB_ATYPE_POINTER" "length mem = unat (data_size f)"
      using assms(2) by (simp_all add: member_fits_def)
    have fits: "member_fits f (Inline m') \<longleftrightarrow> length m' = length mem" for m'
      using m by (simp add: member_fits_def)
    have "member_within f s (pb_dec_string al f (Inline mem) s)"
      unfolding pb_dec_string_inline [OF s1 dec n m] by (simp add: err ok fits del: dec_error_simps)
    moreover have "member_within f s (pb_dec_bytes al f (Inline mem) s)"
      unfolding pb_dec_bytes_inline [OF s1 dec n m] by (simp add: err ok fits del: dec_error_simps)
    ultimately show ?thesis using Inline by simp
  next
    case (Pointer ptr)
    then have m: "PB_ATYPE (field_type f) = PB_ATYPE_POINTER" using assms(2) by (simp add: member_fits_def)
    then have fits: "member_fits f (Pointer p)" for p by (simp add: member_fits_def)
    have "member_within f s (pb_dec_string al f (Pointer ptr) s)"
      unfolding pb_dec_string_pointer [OF s1 dec n m]
      by (simp add: err ok fits del: dec_error_simps split: option.split)
    moreover have "member_within f s (pb_dec_bytes al f (Pointer ptr) s)"
      unfolding pb_dec_bytes_pointer [OF s1 dec n m]
      by (simp add: err ok fits del: dec_error_simps split: option.split)
    ultimately show ?thesis using Pointer by simp
  qed
qed

end
