(* ===== verification/Pb_Common.thy ===== *)
theory Pb_Common
  imports Pb_Field
begin

text \<open>
  Message structures in memory, and the iterator over their fields: \<^verbatim>\<open>nanopb/pb_common.c\<close>.

  The memory at a pointer is a list of cells up to the end of its block.  A cell is a byte or belongs to a
  pointer: a pointer to a block takes eight cells, the first of which holds the block itself, so a block is
  owned by the one place that points to it, and the memory of a message with all its blocks is a tree.  A
  null pointer is eight zero bytes.  The address of a block is not modelled (the one function that
  looks at its bytes gets them as a parameter).

  \<open>None\<close> is an access outside a block, a value that is read as a pointer and is none, and a store that
  overwrites a pointer whose block was neither freed nor moved: a function that returns \<open>Some\<close> has no such
  leak.  A structure inside another one is a window of its cells.
\<close>

section \<open>Field types\<close>

definition PB_LTYPE_LAST_PACKABLE :: byte where "PB_LTYPE_LAST_PACKABLE = 0x05"
definition PB_LTYPE_EXTENSION :: byte where "PB_LTYPE_EXTENSION = 0x09"

definition PB_HTYPE :: "byte \<Rightarrow> byte" where "PB_HTYPE x = x AND 0x30"

definition PB_HTYPE_REQUIRED :: byte where "PB_HTYPE_REQUIRED = 0x00"
definition PB_HTYPE_OPTIONAL :: byte where "PB_HTYPE_OPTIONAL = 0x10"
definition PB_HTYPE_REPEATED :: byte where "PB_HTYPE_REPEATED = 0x20"
definition PB_HTYPE_ONEOF :: byte where "PB_HTYPE_ONEOF = 0x30"

definition PB_ATYPE_CALLBACK :: byte where "PB_ATYPE_CALLBACK = 0x40"

definition PB_LAST_FIELD :: pb_field where
  "PB_LAST_FIELD = \<lparr>field_tag = 0, field_type = 0, data_offset = 0, size_offset = 0, data_size = 0,
     array_size = 0, field_ptr = Null_ptr\<rparr>"

abbreviation ltype :: "pb_field \<Rightarrow> byte" where "ltype f \<equiv> PB_LTYPE (field_type f)"
abbreviation htype :: "pb_field \<Rightarrow> byte" where "htype f \<equiv> PB_HTYPE (field_type f)"
abbreviation atype :: "pb_field \<Rightarrow> byte" where "atype f \<equiv> PB_ATYPE (field_type f)"

lemmas pb_htypes = PB_HTYPE_REQUIRED_def PB_HTYPE_OPTIONAL_def PB_HTYPE_REPEATED_def PB_HTYPE_ONEOF_def

lemmas pb_atypes = PB_ATYPE_STATIC_def PB_ATYPE_POINTER_def PB_ATYPE_CALLBACK_def

text \<open>The bytes at a member that its decoder and encoder access; they are \<open>data_size\<close> in a proper descriptor.\<close>

definition item_size :: "pb_field \<Rightarrow> nat" where
  "item_size f =
     (if ltype f = PB_LTYPE_BOOL then 1 else if ltype f = PB_LTYPE_FIXED32 then 4
      else if ltype f = PB_LTYPE_FIXED64 then 8 else unat (data_size f))"

section \<open>Memory\<close>

datatype cell = Byte byte | Ptr "cell list" | Part

primrec is_byte :: "cell \<Rightarrow> bool" where
  "is_byte (Byte b) = True"
| "is_byte (Ptr block) = False"
| "is_byte Part = False"

primrec cell_byte :: "cell \<Rightarrow> byte" where
  "cell_byte (Byte b) = b"
| "cell_byte (Ptr block) = 0"
| "cell_byte Part = 0"

definition plain :: "cell list \<Rightarrow> bool" where
  "plain cs = list_all is_byte cs"

definition window :: "int \<Rightarrow> nat \<Rightarrow> cell list \<Rightarrow> cell list option" where
  "window off n mem =
     (if 0 \<le> off \<and> nat off + n \<le> length mem then Some (take n (drop (nat off) mem)) else None)"

definition put_window :: "int \<Rightarrow> cell list \<Rightarrow> cell list \<Rightarrow> cell list" where
  "put_window off cs mem = take (nat off) mem @ cs @ drop (nat off + length cs) mem"

definition load_bytes :: "int \<Rightarrow> nat \<Rightarrow> cell list \<Rightarrow> byte list option" where
  "load_bytes off n mem = do {
     cs \<leftarrow> window off n mem;
     if plain cs then Some (map cell_byte cs) else None
   }"

definition store_bytes :: "int \<Rightarrow> byte list \<Rightarrow> cell list \<Rightarrow> cell list option" where
  "store_bytes off bs mem = do {
     cs \<leftarrow> window off (length bs) mem;
     if plain cs then Some (put_window off (map Byte bs) mem) else None
   }"

text \<open>\<open>pb_size_t\<close> is \<open>uint32_t\<close>; \<open>bool\<close> has one byte.\<close>

definition load_size :: "int \<Rightarrow> cell list \<Rightarrow> u32 option" where
  "load_size off mem = map_option (\<lambda>bs. word_of_nat (le_nat bs)) (load_bytes off 4 mem)"

definition store_size :: "int \<Rightarrow> u32 \<Rightarrow> cell list \<Rightarrow> cell list option" where
  "store_size off v mem = store_bytes off (le_bytes 4 (unat v)) mem"

definition null_cells :: "cell list" where
  "null_cells = replicate 8 (Byte 0)"

definition ptr_cells :: "cell list \<Rightarrow> cell list" where
  "ptr_cells block = Ptr block # replicate 7 Part"

definition ptr_of :: "cell list \<Rightarrow> cell list option option" where
  "ptr_of cs =
     (if cs = null_cells then Some None
      else case cs of Ptr block # ps \<Rightarrow> if ps = replicate 7 Part then Some (Some block) else None
                    | _ \<Rightarrow> None)"

definition load_ptr :: "int \<Rightarrow> cell list \<Rightarrow> cell list option option" where
  "load_ptr off mem = Option.bind (window off 8 mem) ptr_of"

text \<open>A new block is stored where the old one was moved from, or where there was none.\<close>

definition move_ptr :: "int \<Rightarrow> cell list \<Rightarrow> cell list \<Rightarrow> cell list option" where
  "move_ptr off block mem = do {
     _ \<leftarrow> load_ptr off mem;
     Some (put_window off (ptr_cells block) mem)
   }"

text \<open>\<open>pb_free(*p); *p = NULL;\<close>\<close>

definition free_ptr :: "int \<Rightarrow> cell list \<Rightarrow> cell list option" where
  "free_ptr off mem = do {
     p \<leftarrow> load_ptr off mem;
     case p of
       None \<Rightarrow> Some mem
     | Some block \<Rightarrow> if plain block then Some (put_window off null_cells mem) else None
   }"

text \<open>An operation on the structure at an offset, and on the block a pointer points to.\<close>

definition on_window :: "int \<Rightarrow> nat \<Rightarrow> (cell list \<Rightarrow> cell list option) \<Rightarrow> cell list \<Rightarrow> cell list option" where
  "on_window off n f mem = do {
     cs \<leftarrow> window off n mem;
     cs' \<leftarrow> f cs;
     Some (put_window off cs' mem)
   }"

definition on_block :: "int \<Rightarrow> (cell list \<Rightarrow> cell list option) \<Rightarrow> cell list \<Rightarrow> cell list option" where
  "on_block off f mem = do {
     p \<leftarrow> load_ptr off mem;
     block \<leftarrow> p;
     block' \<leftarrow> f block;
     Some (put_window off (ptr_cells block') mem)
   }"

section \<open>The iterator\<close>

text \<open>
  The descriptor of a message is the list of its fields, without the terminator.  \<open>pData\<close> and \<open>pSize\<close> are
  offsets from \<open>dest_struct\<close>; \<open>pSize\<close> can also point to the local variable \<open>fixed_count_size\<close> of
  \<open>pb_decode_noinit\<close>.
\<close>

datatype pb_size_at = In_struct int | Fixed_count

record pb_iter =
  start :: "pb_field list"
  pos :: nat
  required_field_index :: nat
  pData :: int
  pSize :: pb_size_at

definition field_at :: "pb_field list \<Rightarrow> nat \<Rightarrow> pb_field" where
  "field_at fs i = (if i < length fs then fs ! i else PB_LAST_FIELD)"

abbreviation iter_field :: "pb_iter \<Rightarrow> pb_field" where
  "iter_field iter \<equiv> field_at (start iter) (pos iter)"

definition pb_field_iter_begin :: "pb_field list \<Rightarrow> bool \<times> pb_iter" where
  "pb_field_iter_begin fs =
     (let f = field_at fs 0; data = uint (data_offset f)
      in (field_tag f \<noteq> 0,
          \<lparr>start = fs, pos = 0, required_field_index = 0, pData = data,
           pSize = In_struct (data + sint (size_offset f))\<rparr>))"

definition pb_field_iter_next :: "pb_iter \<Rightarrow> bool \<times> pb_iter" where
  "pb_field_iter_next iter =
     (let prev = iter_field iter; f = field_at (start iter) (pos iter + 1) in
      if field_tag prev = 0 then (False, iter)
      else if field_tag f = 0 then (False, snd (pb_field_iter_begin (start iter)))
      else if htype prev = PB_HTYPE_ONEOF \<and> htype f = PB_HTYPE_ONEOF \<and> data_offset f = PB_SIZE_MAX
      then (True, iter\<lparr>pos := pos iter + 1\<rparr>)
      else
        let prev_size =
              (if atype prev = PB_ATYPE_STATIC \<and> htype prev = PB_HTYPE_REPEATED
               then uint (data_size prev) * uint (array_size prev)
               else if atype prev = PB_ATYPE_POINTER then 8
               else uint (data_size prev));
            data = pData iter + prev_size + uint (data_offset f)
        in (True, iter\<lparr>pos := pos iter + 1,
              required_field_index :=
                (if htype prev = PB_HTYPE_REQUIRED then required_field_index iter + 1
                 else required_field_index iter),
              pData := data, pSize := In_struct (data + sint (size_offset f))\<rparr>))"

text \<open>
  \<open>do { if (found) return true; pb_field_iter_next(iter); } while (iter->pos != start)\<close>; the loop comes back
  to where it started after as many rounds as there are fields.
\<close>

primrec iter_search :: "(pb_field \<Rightarrow> bool) \<Rightarrow> nat \<Rightarrow> nat \<Rightarrow> pb_iter \<Rightarrow> (bool \<times> pb_iter) option" where
  "iter_search P begun 0 iter = None"
| "iter_search P begun (Suc k) iter =
     (if P (iter_field iter) then Some (True, iter)
      else let iter = snd (pb_field_iter_next iter)
           in if pos iter = begun then Some (False, iter) else iter_search P begun k iter)"

definition pb_field_iter_find :: "pb_iter \<Rightarrow> u32 \<Rightarrow> (bool \<times> pb_iter) option" where
  "pb_field_iter_find iter tag =
     iter_search (\<lambda>f. field_tag f = tag \<and> ltype f \<noteq> PB_LTYPE_EXTENSION) (pos iter) (Suc (length (start iter))) iter"

definition find_extension_field :: "pb_iter \<Rightarrow> (bool \<times> pb_iter) option" where
  "find_extension_field iter =
     iter_search (\<lambda>f. ltype f = PB_LTYPE_EXTENSION) (pos iter) (Suc (length (start iter))) iter"

text \<open>
  The iterators that the body of \<open>do { ... } while (pb_field_iter_next(&iter))\<close> sees, and those of a loop over
  a whole message that returns at once when \<open>pb_field_iter_begin\<close> fails.
\<close>

function iter_visits :: "pb_iter \<Rightarrow> pb_iter list" where
  "iter_visits iter =
     iter # (case pb_field_iter_next iter of (again, iter') \<Rightarrow> if again then iter_visits iter' else [])"
  by pat_completeness auto
termination
  by (relation "measure (\<lambda>iter. length (start iter) - pos iter)")
    (auto simp: pb_field_iter_next_def Let_def field_at_def PB_LAST_FIELD_def pb_field_iter_begin_def split: if_splits)

declare iter_visits.simps [simp del]

definition each_field :: "pb_field list \<Rightarrow> pb_iter list" where
  "each_field fs =
     (case pb_field_iter_begin fs of (again, iter) \<Rightarrow> if again then iter_visits iter else [])"

section \<open>The world around a message\<close>

text \<open>
  The descriptors of the program, by number; the allocator; the address of a block, as far as the code
  looks at it; and the callbacks of the client, by the value of the function pointer.  A callback gets the
  stream, the field and the argument; one that decodes may change the argument.
\<close>

record 's pb_env =
  messages :: "nat \<Rightarrow> pb_field list"
  allocs :: allocator
  address :: "cell list \<Rightarrow> u64"
  decode_call :: "u64 \<Rightarrow> pb_field \<Rightarrow> u64 \<Rightarrow> 's pb_istream \<Rightarrow> (bool \<times> u64 \<times> 's pb_istream) option"
  encode_call :: "u64 \<Rightarrow> pb_field \<Rightarrow> u64 \<Rightarrow> 's pb_ostream \<Rightarrow> (bool \<times> 's pb_ostream) option"

text \<open>The two members of a \<open>pb_callback_t\<close>.\<close>

definition load_word :: "int \<Rightarrow> cell list \<Rightarrow> u64 option" where
  "load_word off mem = map_option (\<lambda>bs. word_of_nat (le_nat bs)) (load_bytes off 8 mem)"

definition load_flag :: "int \<Rightarrow> cell list \<Rightarrow> bool option" where
  "load_flag off mem = Option.bind (load_bytes off 1 mem) safe_read_bool"

definition store_flag :: "int \<Rightarrow> bool \<Rightarrow> cell list \<Rightarrow> cell list option" where
  "store_flag off b mem = store_bytes off [if b then 1 else 0] mem"

section \<open>Facts on memory\<close>

lemma plain_simps [simp]:
  "plain []" "plain (c # cs) \<longleftrightarrow> is_byte c \<and> plain cs" "plain (cs @ ds) \<longleftrightarrow> plain cs \<and> plain ds"
  "plain (map Byte bs)" "plain null_cells" "\<not> plain (ptr_cells block)" "plain (replicate n (Byte b))"
  by (auto simp: plain_def null_cells_def ptr_cells_def list_all_iff)

lemma plain_take [intro]: "plain cs \<Longrightarrow> plain (take n cs)" and plain_drop [intro]: "plain cs \<Longrightarrow> plain (drop n cs)"
  by (auto simp: plain_def list_all_iff dest: in_set_takeD in_set_dropD)

lemma plain_nth: "plain cs \<longleftrightarrow> (\<forall>i<length cs. is_byte (cs ! i))"
  by (auto simp: plain_def list_all_length)

lemma is_byteE: "is_byte c \<Longrightarrow> c = Byte (cell_byte c)"
  by (cases c) simp_all

lemma plain_bytes: "plain cs \<Longrightarrow> map Byte (map cell_byte cs) = cs"
  by (induction cs) (auto dest: is_byteE)

lemma bytes_of_plain [simp]: "map cell_byte (map Byte bs) = bs"
  by (induction bs) simp_all

lemma length_null_cells [simp]: "length null_cells = 8" and length_ptr_cells [simp]: "length (ptr_cells block) = 8"
  by (simp_all add: null_cells_def ptr_cells_def)

lemma ptr_of_simps [simp]: "ptr_of null_cells = Some None" "ptr_of (ptr_cells block) = Some (Some block)"
  by (simp_all add: ptr_of_def ptr_cells_def null_cells_def replicate_Suc [of 7, simplified])

lemma ptr_of_cases:
  assumes "ptr_of cs = Some p"
  shows "cs = (case p of None \<Rightarrow> null_cells | Some block \<Rightarrow> ptr_cells block)"
  using assms by (auto simp: ptr_of_def ptr_cells_def split: if_splits list.splits cell.splits)

lemma ptr_of_plain: "ptr_of cs = Some p \<Longrightarrow> plain cs \<longleftrightarrow> p = None"
  by (drule ptr_of_cases) (auto split: option.splits)

lemma zeros_null: "map Byte (replicate 8 0) = null_cells"
  by (simp add: null_cells_def)

lemma window_Some: "window off n mem = Some cs \<longleftrightarrow> 0 \<le> off \<and> nat off + n \<le> length mem \<and> cs = take n (drop (nat off) mem)"
  by (auto simp: window_def)

lemma length_window: "window off n mem = Some cs \<Longrightarrow> length cs = n"
  by (auto simp: window_Some)

lemma length_put_window [simp]: "nat off + length cs \<le> length mem \<Longrightarrow> length (put_window off cs mem) = length mem"
  by (simp add: put_window_def)

lemma window_put_same [simp]:
  "0 \<le> off \<Longrightarrow> nat off + length cs \<le> length mem \<Longrightarrow> n = length cs \<Longrightarrow> window off n (put_window off cs mem) = Some cs"
  by (simp add: window_def put_window_def)

lemma put_window_window: "window off n mem = Some cs \<Longrightarrow> put_window off cs mem = mem"
proof -
  assume "window off n mem = Some cs"
  then have cs: "nat off + n \<le> length mem" "cs = take n (drop (nat off) mem)" by (simp_all add: window_Some)
  then have "length cs = n" by simp
  with cs(2) have "cs @ drop (nat off + length cs) mem = drop (nat off) mem"
    by (metis append_take_drop_id drop_drop add.commute)
  then show ?thesis by (simp add: put_window_def)
qed

lemma window_whole: "window 0 (length mem) mem = Some mem" "put_window 0 cs mem = cs @ drop (length cs) mem"
  by (simp_all add: window_def put_window_def)

lemma nth_put_window:
  "nat off + length cs \<le> length mem \<Longrightarrow> k < length mem \<Longrightarrow>
   put_window off cs mem ! k = (if nat off \<le> k \<and> k < nat off + length cs then cs ! (k - nat off) else mem ! k)"
  by (auto simp: put_window_def nth_append)

text \<open>Two memories that differ at most at some offsets.\<close>

definition agree :: "nat set \<Rightarrow> cell list \<Rightarrow> cell list \<Rightarrow> bool" where
  "agree X mem mem' \<longleftrightarrow> length mem' = length mem \<and> (\<forall>k<length mem. k \<notin> X \<longrightarrow> mem' ! k = mem ! k)"

definition extent :: "int \<Rightarrow> nat \<Rightarrow> nat set" where
  "extent off n = {nat off..<nat off + n}"

lemma agree_refl [simp]: "agree X mem mem"
  by (simp add: agree_def)

lemma agree_trans: "agree X a b \<Longrightarrow> agree X b c \<Longrightarrow> agree X a c"
  by (simp add: agree_def)

lemma agree_mono: "agree X a b \<Longrightarrow> X \<subseteq> Y \<Longrightarrow> agree Y a b"
  by (auto simp: agree_def)

lemma agree_length: "agree X a b \<Longrightarrow> length b = length a"
  by (simp add: agree_def)

lemma agree_put_window: "nat off + length cs \<le> length mem \<Longrightarrow> agree (extent off (length cs)) mem (put_window off cs mem)"
  by (auto simp: agree_def extent_def nth_put_window)

lemma window_agree:
  assumes "agree X mem mem'" "extent off n \<inter> X = {}"
  shows "window off n mem' = window off n mem"
proof -
  have "take n (drop (nat off) mem') = take n (drop (nat off) mem)" if "nat off + n \<le> length mem"
    by (rule nth_equalityI) (use assms that in \<open>auto simp: agree_def extent_def disjoint_iff\<close>)
  with assms(1) show ?thesis by (simp add: window_def agree_def)
qed

lemma window_sub:
  "window off n mem = Some cs \<Longrightarrow> 0 \<le> p \<Longrightarrow> nat p + m \<le> n \<Longrightarrow> window (off + p) m mem = window p m cs"
proof -
  assume w: "window off n mem = Some cs" "0 \<le> p" "nat p + m \<le> n"
  then have o: "0 \<le> off" "nat off + n \<le> length mem" "cs = take n (drop (nat off) mem)" "length cs = n"
    by (auto simp: window_Some)
  then have "nat (off + p) = nat off + nat p" using w(2) by (simp add: nat_add_distrib)
  moreover have "take m (drop (nat p) (take n (drop (nat off) mem))) = take m (drop (nat off + nat p) mem)"
    using w(3) by (simp add: drop_take min_def add.commute)
  ultimately show ?thesis using w(2,3) o(1,2,4) by (simp add: window_def o(3) [symmetric])
qed

lemma load_bytes_Some: "load_bytes off n mem = Some bs \<longleftrightarrow> (\<exists>cs. window off n mem = Some cs \<and> plain cs \<and> bs = map cell_byte cs)"
  by (auto simp: load_bytes_def split: bind_splits)

lemma store_bytes_Some:
  "store_bytes off bs mem = Some mem' \<longleftrightarrow>
   (\<exists>cs. window off (length bs) mem = Some cs \<and> plain cs \<and> mem' = put_window off (map Byte bs) mem)"
  by (auto simp: store_bytes_def split: bind_splits)

lemma le_nat_size: "le_nat (le_bytes 4 (unat (v :: u32))) = unat v"
  using unsigned_less [of v, where 'a = nat] by (simp add: le_nat_le_bytes)

lemma load_size_word: "map_option (\<lambda>bs. word_of_nat (le_nat bs)) (Some (le_bytes 4 (unat v))) = Some (v :: u32)"
  by (simp add: le_nat_size)

lemma load_size_Some:
  "load_size off mem = Some v \<longleftrightarrow> (\<exists>cs. window off 4 mem = Some cs \<and> plain cs \<and> v = word_of_nat (le_nat (map cell_byte cs)))"
  by (auto simp: load_size_def load_bytes_Some)

lemma load_size_plain: "window off 4 mem = Some cs \<Longrightarrow> plain cs \<Longrightarrow> \<exists>v. load_size off mem = Some v"
  by (auto simp: load_size_Some)

lemma load_size_cells: "window off 4 mem = Some (map Byte (le_bytes 4 (unat v))) \<Longrightarrow> load_size off mem = Some v"
  by (simp add: load_size_def load_bytes_def le_nat_size del: map_map)

lemma store_size_exact:
  "window off 4 mem = Some cs \<Longrightarrow> plain cs \<Longrightarrow>
   store_size off v mem = Some (put_window off (map Byte (le_bytes 4 (unat v))) mem)"
  by (simp add: store_size_def store_bytes_def)

lemma load_ptr_Some: "load_ptr off mem = Some p \<longleftrightarrow> (\<exists>cs. window off 8 mem = Some cs \<and> ptr_of cs = Some p)"
  by (auto simp: load_ptr_def bind_eq_Some_conv)

end
