(* ===== verification/Pb_Decode.thy ===== *)
theory Pb_Decode
  imports Pb_Common
begin

text \<open>
  The decoder of messages and the release of what it allocated: \<^verbatim>\<open>nanopb/pb_decode.c\<close> from
  \<open>decode_static_field\<close> on.  The state of an operation is the stream and the memory of the structure.
  The functions take their callees as parameters and are closed by recursion on the depth
  of submessages.  The local variable \<open>fixed_count_size\<close> of \<open>pb_decode_noinit\<close>, to which an iterator may
  point, is passed along and returned.
\<close>

section \<open>Steps on memory\<close>

type_synonym 's pb_state = "('s, cell list) pb_decoding"

definition mem_read :: "(cell list \<Rightarrow> 'a option) \<Rightarrow> 's pb_state \<Rightarrow> ('a, 's pb_state) pb_result" where
  "mem_read f st = map_option (\<lambda>v. (Some v, st)) (f (snd st))"

definition mem_step :: "(cell list \<Rightarrow> cell list option) \<Rightarrow> 's pb_state \<Rightarrow> (unit, 's pb_state) pb_result" where
  "mem_step f st = map_option (\<lambda>mem. (Some (), fst st, mem)) (f (snd st))"

definition in_window :: "int \<Rightarrow> nat \<Rightarrow> (cell list \<Rightarrow> 's pb_istream \<Rightarrow> ('a, 's pb_state) pb_result) \<Rightarrow>
    's pb_state \<Rightarrow> ('a, 's pb_state) pb_result" where
  "in_window off n f st =
     (case window off n (snd st) of
        None \<Rightarrow> None
      | Some cs \<Rightarrow> map_option (\<lambda>(r, s, cs'). (r, s, put_window off cs' (snd st))) (f cs (fst st)))"

definition in_block :: "int \<Rightarrow> (cell list \<Rightarrow> 's pb_istream \<Rightarrow> ('a, 's pb_state) pb_result) \<Rightarrow>
    's pb_state \<Rightarrow> ('a, 's pb_state) pb_result" where
  "in_block off f st =
     (case load_ptr off (snd st) of
        Some (Some block) \<Rightarrow>
          map_option (\<lambda>(r, s, block'). (r, s, put_window off (ptr_cells block') (snd st))) (f block (fst st))
      | _ \<Rightarrow> None)"

definition load_count :: "pb_iter \<Rightarrow> u32 \<Rightarrow> cell list \<Rightarrow> u32 option" where
  "load_count iter fixed mem = (case pSize iter of In_struct off \<Rightarrow> load_size off mem | Fixed_count \<Rightarrow> Some fixed)"

text \<open>The new value of \<open>fixed_count_size\<close> is the result.\<close>

definition store_count :: "pb_iter \<Rightarrow> u32 \<Rightarrow> u32 \<Rightarrow> 's pb_state \<Rightarrow> (u32, 's pb_state) pb_result" where
  "store_count iter v fixed st =
     (case pSize iter of
        In_struct off \<Rightarrow> pb_then (mem_step (store_size off v) st) (\<lambda>_ st. Some (Some fixed, st))
      | Fixed_count \<Rightarrow> Some (Some v, st))"

definition size_offset_of :: "pb_iter \<Rightarrow> int option" where
  "size_offset_of iter = (case pSize iter of In_struct off \<Rightarrow> Some off | Fixed_count \<Rightarrow> None)"

section \<open>Default values and release\<close>

text \<open>The value of a field that is not in an array or a union: the branch \<open>if (init_data)\<close>.\<close>

definition init_data :: "(nat \<Rightarrow> cell list \<Rightarrow> cell list option) \<Rightarrow> pb_field \<Rightarrow> int \<Rightarrow> cell list \<Rightarrow> cell list option" where
  "init_data defaults f off mem =
     (if ltype f = PB_LTYPE_SUBMESSAGE then
        (case field_ptr f of Fields d \<Rightarrow> on_window off (unat (data_size f)) (defaults d) mem | _ \<Rightarrow> None)
      else case field_ptr f of
        Default bs \<Rightarrow> if unat (data_size f) \<le> length bs then store_bytes off (take (unat (data_size f)) bs) mem else None
      | Null_ptr \<Rightarrow> store_bytes off (replicate (unat (data_size f)) 0) mem
      | Fields _ \<Rightarrow> None)"

definition pb_field_set_to_default :: "(nat \<Rightarrow> cell list \<Rightarrow> cell list option) \<Rightarrow> pb_iter \<Rightarrow> cell list \<Rightarrow> cell list option" where
  "pb_field_set_to_default defaults iter mem =
     (let f = iter_field iter in
      if ltype f = PB_LTYPE_EXTENSION then
        (case load_ptr (pData iter) mem of Some None \<Rightarrow> Some mem | _ \<Rightarrow> None)
      else if atype f = PB_ATYPE_STATIC then do {
        size_at \<leftarrow> size_offset_of iter;
        (init, mem) \<leftarrow>
          (if htype f = PB_HTYPE_OPTIONAL \<and> size_at \<noteq> pData iter then
             map_option (Pair True) (store_flag size_at False mem)
           else if htype f = PB_HTYPE_REPEATED \<or> htype f = PB_HTYPE_ONEOF then
             map_option (Pair False) (store_size size_at 0 mem)
           else Some (True, mem));
        if init then init_data defaults f (pData iter) mem else Some mem
      }
      else if atype f = PB_ATYPE_POINTER then do {
        mem \<leftarrow> store_bytes (pData iter) (replicate 8 0) mem;
        if htype f = PB_HTYPE_REPEATED \<or> htype f = PB_HTYPE_ONEOF then do {
          size_at \<leftarrow> size_offset_of iter;
          store_size size_at 0 mem
        }
        else Some mem
      }
      else Some mem)"

primrec each_iter :: "(pb_iter \<Rightarrow> cell list \<Rightarrow> cell list option) \<Rightarrow> pb_iter list \<Rightarrow> cell list \<Rightarrow> cell list option" where
  "each_iter f [] mem = Some mem"
| "each_iter f (iter # iters) mem = Option.bind (f iter mem) (each_iter f iters)"

primrec pb_message_set_to_defaults :: "nat \<Rightarrow> 's pb_env \<Rightarrow> nat \<Rightarrow> cell list \<Rightarrow> cell list option" where
  "pb_message_set_to_defaults 0 env d mem = None"
| "pb_message_set_to_defaults (Suc depth) env d mem =
     each_iter (pb_field_set_to_default (pb_message_set_to_defaults depth env)) (each_field (messages env d)) mem"

text \<open>\<open>while (count--) { f(p); p += step; }\<close>\<close>

primrec each_item :: "(int \<Rightarrow> cell list \<Rightarrow> cell list option) \<Rightarrow> int \<Rightarrow> nat \<Rightarrow> int \<Rightarrow> cell list \<Rightarrow> cell list option" where
  "each_item f step 0 p mem = Some mem"
| "each_item f step (Suc k) p mem = Option.bind (f p mem) (each_item f step k (p + step))"

text \<open>The parts of \<open>pb_release_single_field\<close>: what the field contains, and the blocks it points to.\<close>

definition release_items :: "(nat \<Rightarrow> cell list \<Rightarrow> cell list option) \<Rightarrow> pb_iter \<Rightarrow> int \<Rightarrow> cell list \<Rightarrow> cell list option" where
  "release_items release iter size_at mem =
     (let f = iter_field iter; n = unat (data_size f) in do {
        count \<leftarrow>
          (if htype f = PB_HTYPE_REPEATED then do {
             count \<leftarrow> (if atype f = PB_ATYPE_STATIC \<and> size_at = pData iter then Some (array_size f)
                       else load_size size_at mem);
             Some (if atype f = PB_ATYPE_STATIC \<and> count > array_size f then array_size f else count)
           }
           else Some 1);
        let items = (\<lambda>p. each_item
          (\<lambda>p mem. case field_ptr f of Fields d \<Rightarrow> on_window p n (release d) mem | _ \<Rightarrow> None) (int n) (unat count) p);
        if atype f = PB_ATYPE_POINTER then do {
          p \<leftarrow> load_ptr (pData iter) mem;
          if p = None then Some mem else on_block (pData iter) (items 0) mem
        }
        else items (pData iter) mem
      })"

definition release_blocks :: "pb_iter \<Rightarrow> int \<Rightarrow> cell list \<Rightarrow> cell list option" where
  "release_blocks iter size_at mem =
     (let f = iter_field iter in do {
        mem \<leftarrow>
          (if htype f = PB_HTYPE_REPEATED \<and> (ltype f = PB_LTYPE_STRING \<or> ltype f = PB_LTYPE_BYTES) then do {
             count \<leftarrow> load_size size_at mem;
             if count = 0 then Some mem
             else on_block (pData iter) (each_item free_ptr 8 (unat count) 0) mem
           }
           else Some mem);
        mem \<leftarrow> (if htype f = PB_HTYPE_REPEATED then store_size size_at 0 mem else Some mem);
        free_ptr (pData iter) mem
      })"

definition pb_release_single_field :: "(nat \<Rightarrow> cell list \<Rightarrow> cell list option) \<Rightarrow> pb_iter \<Rightarrow> cell list \<Rightarrow> cell list option" where
  "pb_release_single_field release iter mem =
     (let f = iter_field iter in do {
        size_at \<leftarrow> size_offset_of iter;
        current \<leftarrow> (if htype f = PB_HTYPE_ONEOF then map_option (\<lambda>which. which = field_tag f) (load_size size_at mem)
                    else Some True);
        if \<not> current then Some mem
        else do {
          mem \<leftarrow>
            (if ltype f = PB_LTYPE_EXTENSION then
               (case load_ptr (pData iter) mem of Some None \<Rightarrow> Some mem | _ \<Rightarrow> None)
             else if ltype f = PB_LTYPE_SUBMESSAGE \<and> atype f \<noteq> PB_ATYPE_CALLBACK then release_items release iter size_at mem
             else Some mem);
          if atype f = PB_ATYPE_POINTER then release_blocks iter size_at mem else Some mem
        }
      })"

primrec pb_release :: "nat \<Rightarrow> 's pb_env \<Rightarrow> nat \<Rightarrow> cell list \<Rightarrow> cell list option" where
  "pb_release 0 env d mem = None"
| "pb_release (Suc depth) env d mem =
     each_iter (pb_release_single_field (pb_release depth env)) (each_field (messages env d)) mem"

section \<open>Fields\<close>

text \<open>The callees of a field at one level: those of its submessage.\<close>

record 's pb_callees =
  set_defaults :: "nat \<Rightarrow> cell list \<Rightarrow> cell list option"
  release_message :: "nat \<Rightarrow> cell list \<Rightarrow> cell list option"
  decode_message :: "nat \<Rightarrow> cell list \<Rightarrow> 's pb_istream \<Rightarrow> (unit, 's pb_state) pb_result"

definition pb_decode_with :: "'s pb_callees \<Rightarrow> nat \<Rightarrow> cell list \<Rightarrow> 's pb_istream \<Rightarrow> (unit, 's pb_state) pb_result" where
  "pb_decode_with calls d mem s =
     (case set_defaults calls d mem of
        None \<Rightarrow> None
      | Some mem \<Rightarrow>
          (case decode_message calls d mem s of
             Some (None, s, mem) \<Rightarrow> map_option (\<lambda>mem. (None, s, mem)) (release_message calls d mem)
           | r \<Rightarrow> r))"

text \<open>The work on a substream that holds what follows a length; the stream then goes on behind it.\<close>

definition pb_dec_submessage :: "'s pb_callees \<Rightarrow> pb_field \<Rightarrow> cell list \<Rightarrow> 's pb_istream \<Rightarrow> (unit, 's pb_state) pb_result" where
  "pb_dec_submessage calls f dest s =
     pb_then (keeping dest (pb_make_string_substream s)) (\<lambda>substream (s, dest).
       case field_ptr f of
         Null_ptr \<Rightarrow> dec_error (s, dest) ''invalid field descriptor''
       | Default _ \<Rightarrow> None
       | Fields d \<Rightarrow>
           (case (if htype f = PB_HTYPE_REPEATED then pb_decode_with calls d dest substream
                  else decode_message calls d dest substream) of
              None \<Rightarrow> None
            | Some (status, substream, dest) \<Rightarrow>
                pb_then (keeping dest (pb_close_string_substream s substream)) (\<lambda>_ st. Some (status, st))))"

definition on_plain :: "(byte list \<Rightarrow> 's pb_istream \<Rightarrow> (unit, ('s, byte list) pb_decoding) pb_result) \<Rightarrow>
    cell list \<Rightarrow> 's pb_istream \<Rightarrow> (unit, 's pb_state) pb_result" where
  "on_plain dec cs s =
     (if plain cs then map_option (\<lambda>(r, s, bs). (r, s, map Byte bs)) (dec (map cell_byte cs) s) else None)"

text \<open>A member that holds a string or bytes, in place or through the pointer in the cells \<open>cs\<close>.\<close>

definition on_member :: "(pb_member \<Rightarrow> 's pb_istream \<Rightarrow> (unit, ('s, pb_member) pb_decoding) pb_result) \<Rightarrow> pb_field \<Rightarrow>
    cell list \<Rightarrow> 's pb_istream \<Rightarrow> (unit, 's pb_state) pb_result" where
  "on_member dec f cs s =
     (case (if atype f = PB_ATYPE_POINTER then
              (case ptr_of cs of
                 None \<Rightarrow> None
               | Some p \<Rightarrow> if (case p of None \<Rightarrow> True | Some block \<Rightarrow> plain block)
                           then Some (Pointer (map_option (map cell_byte) p)) else None)
            else if plain cs then Some (Inline (map cell_byte cs)) else None) of
        None \<Rightarrow> None
      | Some dest \<Rightarrow>
          map_option (\<lambda>(r, s, dest). (r, s, case dest of
              Inline bs \<Rightarrow> map Byte bs
            | Pointer None \<Rightarrow> null_cells
            | Pointer (Some bs) \<Rightarrow> ptr_cells (map Byte bs))) (dec dest s))"

text \<open>\<open>PB_DECODERS\<close>.\<close>

definition pb_decoder :: "allocator \<Rightarrow> 's pb_callees \<Rightarrow> pb_field \<Rightarrow> cell list \<Rightarrow> 's pb_istream \<Rightarrow> (unit, 's pb_state) pb_result" where
  "pb_decoder al calls f =
     (if ltype f = PB_LTYPE_BOOL then on_plain pb_dec_bool
      else if ltype f = PB_LTYPE_VARINT then on_plain (pb_dec_varint f)
      else if ltype f = PB_LTYPE_UVARINT then on_plain (pb_dec_uvarint f)
      else if ltype f = PB_LTYPE_SVARINT then on_plain (pb_dec_svarint f)
      else if ltype f = PB_LTYPE_FIXED32 then on_plain pb_dec_fixed32
      else if ltype f = PB_LTYPE_FIXED64 then on_plain pb_dec_fixed64
      else if ltype f = PB_LTYPE_BYTES then on_member (pb_dec_bytes al f) f
      else if ltype f = PB_LTYPE_STRING then on_member (pb_dec_string al f) f
      else if ltype f = PB_LTYPE_SUBMESSAGE then pb_dec_submessage calls f
      else if ltype f = PB_LTYPE_FIXED_LENGTH_BYTES then on_plain (pb_dec_fixed_length_bytes f)
      else (\<lambda>_ _. None))"

text \<open>The loop over a packed array in place; it stores at most \<open>array_size\<close> items.\<close>

primrec packed_static :: "(cell list \<Rightarrow> 's pb_istream \<Rightarrow> (unit, 's pb_state) pb_result) \<Rightarrow> pb_iter \<Rightarrow> nat \<Rightarrow> u32 \<Rightarrow>
    's pb_state \<Rightarrow> ((bool \<times> u32) \<times> 's pb_state) option" where
  "packed_static func iter 0 fixed st = Some ((True, fixed), st)"
| "packed_static func iter (Suc k) fixed st =
     (let f = iter_field iter in
      case load_count iter fixed (snd st) of
        None \<Rightarrow> None
      | Some n \<Rightarrow>
          if bytes_left (fst st) > 0 \<and> n < array_size f then
            (case in_window (pData iter + uint (data_size f * n)) (item_size f) func st of
               None \<Rightarrow> None
             | Some (None, st) \<Rightarrow> Some ((False, fixed), st)
             | Some (Some _, st) \<Rightarrow>
                 (case store_count iter (n + 1) fixed st of
                    Some (Some fixed, st) \<Rightarrow> packed_static func iter k fixed st
                  | _ \<Rightarrow> None))
          else Some ((True, fixed), st))"

text \<open>A union that gets this field in place: the slot is cleared for a submessage.\<close>

definition prepare_union :: "'s pb_callees \<Rightarrow> pb_field \<Rightarrow> int \<Rightarrow> u32 \<Rightarrow> 's pb_state \<Rightarrow> (unit, 's pb_state) pb_result" where
  "prepare_union calls f off which st =
     (if ltype f = PB_LTYPE_SUBMESSAGE \<and> which \<noteq> field_tag f then
        pb_then (mem_step (store_bytes off (replicate (unat (data_size f)) 0)) st) (\<lambda>_.
          mem_step (on_window off (unat (data_size f)) (\<lambda>cs.
            case field_ptr f of Fields d \<Rightarrow> set_defaults calls d cs | _ \<Rightarrow> None)))
      else pb_ok st)"

text \<open>
  In the functions on fields the result of a call that succeeds is the new \<open>fixed_count_size\<close>.
\<close>

definition decode_static_field ::
  "allocator \<Rightarrow> 's pb_callees \<Rightarrow> pb_wire_type \<Rightarrow> pb_iter \<Rightarrow> u32 \<Rightarrow> 's pb_state \<Rightarrow> (u32, 's pb_state) pb_result" where
  "decode_static_field al calls wire_type iter fixed st =
     (let f = iter_field iter;
          item = (\<lambda>p fixed st. pb_then (in_window p (item_size f) (pb_decoder al calls f) st) (\<lambda>_ st. Some (Some fixed, st)))
      in if htype f = PB_HTYPE_REQUIRED then item (pData iter) fixed st
         else if htype f = PB_HTYPE_OPTIONAL then
           (if pSize iter \<noteq> In_struct (pData iter) then
              (case size_offset_of iter of
                 None \<Rightarrow> None
               | Some size_at \<Rightarrow> pb_then (mem_step (store_flag size_at True) st) (\<lambda>_. item (pData iter) fixed))
            else item (pData iter) fixed st)
         else if htype f = PB_HTYPE_REPEATED then
           (if wire_type = PB_WT_STRING \<and> ltype f \<le> PB_LTYPE_LAST_PACKABLE then
              pb_then (keeping (snd st) (pb_make_string_substream (fst st))) (\<lambda>substream (s, mem).
                case packed_static (pb_decoder al calls f) iter (unat (array_size f)) fixed (substream, mem) of
                  None \<Rightarrow> None
                | Some ((status, fixed), substream, mem) \<Rightarrow>
                    if bytes_left substream \<noteq> 0 then dec_error (s, mem) ''array overflow''
                    else pb_then (keeping mem (pb_close_string_substream s substream)) (\<lambda>_ st.
                      Some (if status then Some fixed else None, st)))
            else
              pb_then (mem_read (load_count iter fixed) st) (\<lambda>count st.
                pb_then (store_count iter (count + 1) fixed st) (\<lambda>fixed st.
                  if count \<ge> array_size f then dec_error st ''array overflow''
                  else item (pData iter + uint (data_size f * count)) fixed st)))
         else if htype f = PB_HTYPE_ONEOF then
           (case size_offset_of iter of
              None \<Rightarrow> None
            | Some size_at \<Rightarrow>
                pb_then (mem_read (load_size size_at) st) (\<lambda>which st.
                pb_then (prepare_union calls f (pData iter) which st) (\<lambda>_ st.
                pb_then (mem_step (store_size size_at (field_tag f)) st) (\<lambda>_. item (pData iter) fixed))))
         else dec_error st ''invalid field type'')"

text \<open>\<open>allocate_field(stream, pData, data_size, array_size)\<close>: a bigger block at the pointer.\<close>

definition allocate_at :: "allocator \<Rightarrow> int \<Rightarrow> u64 \<Rightarrow> u64 \<Rightarrow> 's pb_state \<Rightarrow> (unit, 's pb_state) pb_result" where
  "allocate_at al off bytes entries st =
     pb_then (mem_read (load_ptr off) st) (\<lambda>ptr (s, mem).
       pb_then (keeping mem (allocate_field al Byte s ptr bytes entries)) (\<lambda>block.
         mem_step (move_ptr off block)))"

definition initialize_pointer_field :: "'s pb_callees \<Rightarrow> pb_field \<Rightarrow> cell list \<Rightarrow> cell list option" where
  "initialize_pointer_field calls f item =
     (if ltype f = PB_LTYPE_STRING \<or> ltype f = PB_LTYPE_BYTES then store_bytes 0 (replicate 8 0) item
      else if ltype f = PB_LTYPE_SUBMESSAGE then
        Option.bind (store_bytes 0 (replicate (unat (data_size f)) 0) item) (\<lambda>item.
          case field_ptr f of Fields d \<Rightarrow> set_defaults calls d item | _ \<Rightarrow> None)
      else Some item)"

text \<open>The item at an offset of the block at \<open>pData\<close> is cleared and decoded.\<close>

definition decode_new_item ::
  "allocator \<Rightarrow> 's pb_callees \<Rightarrow> pb_iter \<Rightarrow> int \<Rightarrow> 's pb_state \<Rightarrow> (unit, 's pb_state) pb_result" where
  "decode_new_item al calls iter p =
     in_block (pData iter) (\<lambda>block s.
       in_window p (item_size (iter_field iter)) (\<lambda>item s.
         case initialize_pointer_field calls (iter_field iter) item of
           None \<Rightarrow> None
         | Some item \<Rightarrow> pb_decoder al calls (iter_field iter) item s) (s, block))"

text \<open>The loop over a packed array in a block; every item takes a byte or more of the substream.  The
  error of too many entries is set in the stream, not in the substream.\<close>

primrec packed_pointer :: "allocator \<Rightarrow> 's pb_callees \<Rightarrow> pb_iter \<Rightarrow> int \<Rightarrow> nat \<Rightarrow> u64 \<Rightarrow> 's pb_istream \<Rightarrow> 's pb_state \<Rightarrow>
    ((bool \<times> 's pb_istream) \<times> 's pb_state) option" where
  "packed_pointer al calls iter size_at 0 allocated s st = None"
| "packed_pointer al calls iter size_at (Suc k) allocated s st =
     (let f = iter_field iter in
      if bytes_left (fst st) = 0 then Some ((True, s), st)
      else (case load_size size_at (snd st) of
        None \<Rightarrow> None
      | Some n \<Rightarrow>
          if data_size f = 0 then None
          else if n = PB_SIZE_MAX then Some ((False, s\<lparr>ierrmsg := Some ''too many array entries''\<rparr>), st)
          else
            let remain = (bytes_left (fst st) - 1) div ucast (data_size f) + 1;
                more_needed = (ucast n + 1 > allocated);
                allocated = (if \<not> more_needed then allocated
                             else if remain < ucast PB_SIZE_MAX - allocated then allocated + remain
                             else allocated + 1)
            in (case (if more_needed then allocate_at al (pData iter) (ucast (data_size f)) allocated st else pb_ok st) of
                 None \<Rightarrow> None
               | Some (None, st) \<Rightarrow> Some ((False, s), st)
               | Some (Some _, st) \<Rightarrow>
                   (case decode_new_item al calls iter (uint (data_size f * n)) st of
                      None \<Rightarrow> None
                    | Some (None, st) \<Rightarrow> Some ((False, s), st)
                    | Some (Some _, st) \<Rightarrow>
                        (case mem_step (store_size size_at (n + 1)) st of
                           Some (Some _, st) \<Rightarrow> packed_pointer al calls iter size_at k allocated s st
                         | _ \<Rightarrow> None)))))"

definition decode_pointer_field ::
  "allocator \<Rightarrow> 's pb_callees \<Rightarrow> pb_wire_type \<Rightarrow> pb_iter \<Rightarrow> 's pb_state \<Rightarrow> (unit, 's pb_state) pb_result" where
  "decode_pointer_field al calls wire_type iter st =
     (let f = iter_field iter in
      case size_offset_of iter of
        None \<Rightarrow> None
      | Some size_at \<Rightarrow>
          if htype f = PB_HTYPE_REQUIRED \<or> htype f = PB_HTYPE_OPTIONAL \<or> htype f = PB_HTYPE_ONEOF then
            pb_then (mem_read (load_ptr (pData iter)) st) (\<lambda>ptr st.
            pb_then
              (if ltype f = PB_LTYPE_SUBMESSAGE \<and> ptr \<noteq> None
               then mem_step (pb_release_single_field (release_message calls) iter) st else pb_ok st) (\<lambda>_ st.
            pb_then
              (if htype f = PB_HTYPE_ONEOF then mem_step (store_size size_at (field_tag f)) st else pb_ok st) (\<lambda>_ st.
            if ltype f = PB_LTYPE_STRING \<or> ltype f = PB_LTYPE_BYTES
            then in_window (pData iter) 8 (pb_decoder al calls f) st
            else pb_then (allocate_at al (pData iter) (ucast (data_size f)) 1 st) (\<lambda>_. decode_new_item al calls iter 0))))
          else if htype f = PB_HTYPE_REPEATED then
            (if wire_type = PB_WT_STRING \<and> ltype f \<le> PB_LTYPE_LAST_PACKABLE then
               pb_then (mem_read (load_size size_at) st) (\<lambda>count (s, mem).
               pb_then (keeping mem (pb_make_string_substream s)) (\<lambda>substream (s, mem).
                 case packed_pointer al calls iter size_at (Suc (unat (bytes_left substream))) (ucast count) s (substream, mem) of
                   None \<Rightarrow> None
                 | Some ((status, s), substream, mem) \<Rightarrow>
                     pb_then (keeping mem (pb_close_string_substream s substream)) (\<lambda>_ st.
                       Some (if status then Some () else None, st))))
             else
               pb_then (mem_read (load_size size_at) st) (\<lambda>count st.
                 if count = PB_SIZE_MAX then dec_error st ''too many array entries''
                 else pb_then (allocate_at al (pData iter) (ucast (data_size f)) (ucast (count + 1)) st) (\<lambda>_ st.
                   pb_then (mem_step (store_size size_at (count + 1)) st) (\<lambda>_.
                     decode_new_item al calls iter (uint (data_size f * count))))))
          else dec_error st ''invalid field type'')"

text \<open>\<open>do { callback(&substream, field, arg) } while (substream.bytes_left)\<close>; the argument is the result.\<close>

partial_function (option) callback_loop ::
  "(u64 \<Rightarrow> 's pb_istream \<Rightarrow> (bool \<times> u64 \<times> 's pb_istream) option) \<Rightarrow> u64 \<Rightarrow> 's pb_istream \<Rightarrow>
     (bool \<times> u64 \<times> 's pb_istream) option" where
  "callback_loop func arg s =
     (case func arg s of
        None \<Rightarrow> None
      | Some (status, arg, s) \<Rightarrow>
          if status \<and> bytes_left s \<noteq> 0 then callback_loop func arg s else Some (status, arg, s))"

definition decode_callback_field ::
  "'s pb_env \<Rightarrow> pb_wire_type \<Rightarrow> pb_iter \<Rightarrow> 's pb_state \<Rightarrow> (unit, 's pb_state) pb_result" where
  "decode_callback_field env wire_type iter st =
     (let store_arg = (\<lambda>arg. mem_step (store_bytes (pData iter + 8) (le_bytes 8 (unat arg)))) in
      pb_then (mem_read (load_word (pData iter)) st) (\<lambda>func (s, mem).
        if func = 0 then keeping mem (pb_skip_field wire_type s)
        else pb_then (mem_read (load_word (pData iter + 8)) (s, mem)) (\<lambda>arg (s, mem).
          if wire_type = PB_WT_STRING then
            pb_then (keeping mem (pb_make_string_substream s)) (\<lambda>substream (s, mem).
              case callback_loop (decode_call env func (iter_field iter)) arg substream of
                None \<Rightarrow> None
              | Some (status, arg, substream) \<Rightarrow>
                  pb_then (store_arg arg (s, mem)) (\<lambda>_ (s, mem).
                    if \<not> status then dec_error (s, mem) ''callback failed''
                    else keeping mem (pb_close_string_substream s substream)))
          else
            pb_then (keeping mem (read_raw_value wire_type 10 s)) (\<lambda>bytes (s, mem).
              case decode_call env func (iter_field iter) arg (pb_istream_from_buffer bytes (word_of_nat (length bytes))) of
                None \<Rightarrow> None
              | Some (status, arg, _) \<Rightarrow>
                  pb_then (store_arg arg (s, mem)) (\<lambda>_ st. Some (if status then Some () else None, st))))))"

text \<open>The iterator comes back to the field it was at, with \<open>pSize\<close> as the descriptor says.\<close>

definition pb_release_union_field :: "'s pb_callees \<Rightarrow> pb_iter \<Rightarrow> 's pb_state \<Rightarrow> (pb_iter, 's pb_state) pb_result" where
  "pb_release_union_field calls iter st =
     (let new_tag = field_tag (iter_field iter) in
      case size_offset_of iter of
        None \<Rightarrow> None
      | Some size_at \<Rightarrow>
          pb_then (mem_read (load_size size_at) st) (\<lambda>old_tag st.
            if old_tag = 0 \<or> old_tag = new_tag then Some (Some iter, st)
            else case pb_field_iter_find iter old_tag of
              None \<Rightarrow> None
            | Some (False, _) \<Rightarrow> dec_error st ''invalid union tag''
            | Some (True, iter) \<Rightarrow>
                pb_then (mem_step (pb_release_single_field (release_message calls) iter) st) (\<lambda>_ st.
                  case pb_field_iter_find iter new_tag of
                    None \<Rightarrow> None
                  | Some (False, _) \<Rightarrow> dec_error st ''iterator error''
                  | Some (True, iter) \<Rightarrow>
                      if atype (iter_field iter) = PB_ATYPE_POINTER
                      then pb_then (mem_step (store_bytes (pData iter) (replicate 8 0)) st) (\<lambda>_ st. Some (Some iter, st))
                      else Some (Some iter, st))))"

text \<open>
  The result is the iterator, which a union field may have moved, and \<open>fixed_count_size\<close>.  First the switch of
  \<open>decode_field\<close> over the kinds of allocation.
\<close>

definition decode_by_atype ::
  "'s pb_env \<Rightarrow> 's pb_callees \<Rightarrow> pb_wire_type \<Rightarrow> u32 \<Rightarrow> pb_iter \<Rightarrow> 's pb_state \<Rightarrow> (pb_iter \<times> u32, 's pb_state) pb_result" where
  "decode_by_atype env calls wire_type fixed iter st =
     (if atype (iter_field iter) = PB_ATYPE_STATIC then
        pb_then (decode_static_field (allocs env) calls wire_type iter fixed st) (\<lambda>fixed st. Some (Some (iter, fixed), st))
      else if atype (iter_field iter) = PB_ATYPE_POINTER then
        pb_then (decode_pointer_field (allocs env) calls wire_type iter st) (\<lambda>_ st. Some (Some (iter, fixed), st))
      else if atype (iter_field iter) = PB_ATYPE_CALLBACK then
        pb_then (decode_callback_field env wire_type iter st) (\<lambda>_ st. Some (Some (iter, fixed), st))
      else dec_error st ''invalid field type'')"

definition decode_field ::
  "'s pb_env \<Rightarrow> 's pb_callees \<Rightarrow> pb_wire_type \<Rightarrow> pb_iter \<Rightarrow> u32 \<Rightarrow> 's pb_state \<Rightarrow> (pb_iter \<times> u32, 's pb_state) pb_result" where
  "decode_field env calls wire_type iter fixed st =
     pb_then
       (if htype (iter_field iter) = PB_HTYPE_ONEOF then pb_release_union_field calls iter st
        else Some (Some iter, st))
       (decode_by_atype env calls wire_type fixed)"

section \<open>Messages\<close>

definition PB_MAX_REQUIRED_FIELDS :: nat where "PB_MAX_REQUIRED_FIELDS = 64"

text \<open>The local variables of \<open>pb_decode_noinit\<close>; \<open>fixed_count_field\<close> is the position of the field.\<close>

record pb_decode_vars =
  the_iter :: pb_iter
  fields_seen :: "u32 list"
  extension_range_start :: u32
  fixed_count_field :: "nat option"
  fixed_count_size :: u32

definition decode_extension :: "pb_iter \<Rightarrow> cell list \<Rightarrow> unit option" where
  "decode_extension iter mem = (case load_ptr (pData iter) mem of Some None \<Rightarrow> Some () | _ \<Rightarrow> None)"

definition wrong_fixed_count :: "pb_decode_vars \<Rightarrow> bool" where
  "wrong_fixed_count vars =
     (case fixed_count_field vars of
        None \<Rightarrow> False
      | Some i \<Rightarrow> fixed_count_size vars \<noteq> array_size (field_at (start (the_iter vars)) i))"

text \<open>A field that is not in the descriptor; an extension that nobody handles leaves the stream alone.\<close>

definition decode_unknown ::
  "pb_wire_type \<Rightarrow> u32 \<Rightarrow> pb_decode_vars \<Rightarrow> 's pb_state \<Rightarrow> (pb_decode_vars, 's pb_state) pb_result" where
  "decode_unknown wire_type tag vars st =
     (case (if tag \<ge> extension_range_start vars then
              (case find_extension_field (the_iter vars) of
                 None \<Rightarrow> None
               | Some (found, iter) \<Rightarrow>
                   let range_start = (if found then field_tag (iter_field iter) else - 1) in
                   if tag \<ge> range_start \<and> decode_extension iter (snd st) = None then None
                   else Some (vars\<lparr>the_iter := iter, extension_range_start := range_start\<rparr>))
            else Some vars) of
        None \<Rightarrow> None
      | Some vars \<Rightarrow> pb_then (keeping (snd st) (pb_skip_field wire_type (fst st))) (\<lambda>_ st. Some (Some vars, st)))"

text \<open>
  A repeated field without a count in the structure is counted in \<open>fixed_count_size\<close>; a required field is noted
  in \<open>fields_seen\<close>.
\<close>

definition check_fixed_count :: "pb_decode_vars \<Rightarrow> 's pb_state \<Rightarrow> (pb_decode_vars, 's pb_state) pb_result" where
  "check_fixed_count vars st =
     (let iter = the_iter vars in
      if htype (iter_field iter) = PB_HTYPE_REPEATED \<and> pSize iter = In_struct (pData iter) then
        (if fixed_count_field vars \<noteq> Some (pos iter) then
           (if wrong_fixed_count vars then dec_error st ''wrong size for fixed count field''
            else Some (Some (vars\<lparr>fixed_count_field := Some (pos iter), fixed_count_size := 0,
                                  the_iter := iter\<lparr>pSize := Fixed_count\<rparr>\<rparr>), st))
         else Some (Some (vars\<lparr>the_iter := iter\<lparr>pSize := Fixed_count\<rparr>\<rparr>), st))
      else Some (Some vars, st))"

definition note_required :: "pb_decode_vars \<Rightarrow> pb_decode_vars" where
  "note_required vars =
     (let i = required_field_index (the_iter vars) in
      if htype (iter_field (the_iter vars)) = PB_HTYPE_REQUIRED \<and> i < PB_MAX_REQUIRED_FIELDS
      then vars\<lparr>fields_seen := (fields_seen vars)[i div 32 := fields_seen vars ! (i div 32) OR push_bit (i mod 32) 1]\<rparr>
      else vars)"

definition decode_known ::
  "'s pb_env \<Rightarrow> 's pb_callees \<Rightarrow> pb_wire_type \<Rightarrow> pb_decode_vars \<Rightarrow> 's pb_state \<Rightarrow> (pb_decode_vars, 's pb_state) pb_result" where
  "decode_known env calls wire_type vars st =
     pb_then (check_fixed_count vars st) (\<lambda>vars st.
       let vars = note_required vars in
       pb_then (decode_field env calls wire_type (the_iter vars) (fixed_count_size vars) st) (\<lambda>(iter, fixed) st.
         Some (Some (vars\<lparr>the_iter := iter, fixed_count_size := fixed\<rparr>), st)))"

text \<open>\<open>while (stream->bytes_left)\<close>: every round reads a byte or more.\<close>

primrec decode_loop ::
  "'s pb_env \<Rightarrow> 's pb_callees \<Rightarrow> nat \<Rightarrow> pb_decode_vars \<Rightarrow> 's pb_state \<Rightarrow> (pb_decode_vars, 's pb_state) pb_result" where
  "decode_loop env calls 0 vars st = None"
| "decode_loop env calls (Suc k) vars st =
     (if bytes_left (fst st) = 0 then Some (Some vars, st)
      else case pb_decode_tag (fst st) of
        None \<Rightarrow> None
      | Some ((None, eof), s) \<Rightarrow> Some (if eof then Some vars else None, s, snd st)
      | Some ((Some (wire_type, tag), _), s) \<Rightarrow>
          (case pb_field_iter_find (the_iter vars) tag of
             None \<Rightarrow> None
           | Some (found, iter) \<Rightarrow>
               pb_then
                 (if found then decode_known env calls wire_type (vars\<lparr>the_iter := iter\<rparr>) (s, snd st)
                  else decode_unknown wire_type tag (vars\<lparr>the_iter := iter\<rparr>) (s, snd st))
                 (decode_loop env calls k)))"

text \<open>The number of required fields: that of the last field, and one more if this is required itself.\<close>

definition required_count :: "pb_iter \<Rightarrow> nat" where
  "required_count iter =
     (let last_iter = last (iter_visits iter);
          wrapped = snd (pb_field_iter_next last_iter);
          count = required_field_index last_iter +
            (if htype (iter_field last_iter) = PB_HTYPE_REQUIRED \<and> field_tag (iter_field wrapped) \<noteq> 0 then 1 else 0)
      in min count PB_MAX_REQUIRED_FIELDS)"

definition missing_required :: "nat \<Rightarrow> u32 list \<Rightarrow> bool" where
  "missing_required count seen =
     ((\<exists>i\<in>set [0..<count div 32]. seen ! i \<noteq> - 1) \<or>
      count mod 32 \<noteq> 0 \<and> seen ! (count div 32) \<noteq> drop_bit (32 - count mod 32) (- 1))"

text \<open>The local variables before the loop.\<close>

definition decode_begin :: "pb_field list \<Rightarrow> pb_decode_vars" where
  "decode_begin fs =
     \<lparr>the_iter = snd (pb_field_iter_begin fs), fields_seen = [0, 0], extension_range_start = 0,
      fixed_count_field = None, fixed_count_size = 0\<rparr>"

definition decode_fields ::
  "'s pb_env \<Rightarrow> 's pb_callees \<Rightarrow> pb_field list \<Rightarrow> cell list \<Rightarrow> 's pb_istream \<Rightarrow> (unit, 's pb_state) pb_result" where
  "decode_fields env calls fs mem s =
     pb_then
       (decode_loop env calls (Suc (unat (bytes_left s))) (decode_begin fs) (s, mem)) (\<lambda>vars st.
       if wrong_fixed_count vars then dec_error st ''wrong size for fixed count field''
       else if missing_required (required_count (the_iter vars)) (fields_seen vars)
       then dec_error st ''missing required field''
       else pb_ok st)"

primrec pb_decode_noinit :: "nat \<Rightarrow> 's pb_env \<Rightarrow> nat \<Rightarrow> cell list \<Rightarrow> 's pb_istream \<Rightarrow> (unit, 's pb_state) pb_result" where
  "pb_decode_noinit 0 env d mem s = None"
| "pb_decode_noinit (Suc depth) env d mem s =
     decode_fields env
       \<lparr>set_defaults = pb_message_set_to_defaults depth env, release_message = pb_release depth env,
        decode_message = pb_decode_noinit depth env\<rparr> (messages env d) mem s"

definition calls_at :: "nat \<Rightarrow> 's pb_env \<Rightarrow> 's pb_callees" where
  "calls_at depth env =
     \<lparr>set_defaults = pb_message_set_to_defaults depth env, release_message = pb_release depth env,
      decode_message = pb_decode_noinit depth env\<rparr>"

definition pb_decode :: "nat \<Rightarrow> 's pb_env \<Rightarrow> nat \<Rightarrow> cell list \<Rightarrow> 's pb_istream \<Rightarrow> (unit, 's pb_state) pb_result" where
  "pb_decode depth env = pb_decode_with (calls_at depth env)"

definition delimited :: "(cell list \<Rightarrow> 's pb_istream \<Rightarrow> (unit, 's pb_state) pb_result) \<Rightarrow> cell list \<Rightarrow>
    's pb_istream \<Rightarrow> (unit, 's pb_state) pb_result" where
  "delimited dec mem s =
     pb_then (keeping mem (pb_make_string_substream s)) (\<lambda>substream (s, mem).
       case dec mem substream of
         None \<Rightarrow> None
       | Some (status, substream, mem) \<Rightarrow>
           pb_then (keeping mem (pb_close_string_substream s substream)) (\<lambda>_ st. Some (status, st)))"

definition pb_decode_delimited_noinit ::
  "nat \<Rightarrow> 's pb_env \<Rightarrow> nat \<Rightarrow> cell list \<Rightarrow> 's pb_istream \<Rightarrow> (unit, 's pb_state) pb_result" where
  "pb_decode_delimited_noinit depth env d = delimited (pb_decode_noinit depth env d)"

definition pb_decode_delimited ::
  "nat \<Rightarrow> 's pb_env \<Rightarrow> nat \<Rightarrow> cell list \<Rightarrow> 's pb_istream \<Rightarrow> (unit, 's pb_state) pb_result" where
  "pb_decode_delimited depth env d = delimited (pb_decode depth env d)"

definition pb_decode_nullterminated ::
  "nat \<Rightarrow> 's pb_env \<Rightarrow> nat \<Rightarrow> cell list \<Rightarrow> 's pb_istream \<Rightarrow> (unit, 's pb_state) pb_result" where
  "pb_decode_nullterminated depth env d = pb_decode depth env d"

end
