(* ===== verification/Pb_Layout.thy ===== *)
theory Pb_Layout
  imports Pb_Decode
begin

text \<open>
  Descriptors that fit a structure, and what it means for the memory of a structure to hold a message.
\<close>

section \<open>The iterator visits every field\<close>

definition tagged_fields :: "pb_field list \<Rightarrow> bool" where
  "tagged_fields fs \<longleftrightarrow> (\<forall>f\<in>set fs. field_tag f \<noteq> 0) \<and> distinct (map field_tag fs)"

lemma PB_LAST_FIELD_tag [simp]: "field_tag PB_LAST_FIELD = 0"
  by (simp add: PB_LAST_FIELD_def)

lemma field_at_in [simp]: "i < length fs \<Longrightarrow> field_at fs i = fs ! i"
  by (simp add: field_at_def)

lemma field_at_tag: "tagged_fields fs \<Longrightarrow> field_tag (field_at fs i) = 0 \<longleftrightarrow> length fs \<le> i"
  by (auto simp: field_at_def tagged_fields_def)

lemma iter_next_start [simp]: "start (snd (pb_field_iter_next iter)) = start iter"
  by (simp add: pb_field_iter_next_def pb_field_iter_begin_def Let_def)

lemma iter_begin_simps [simp]:
  "start (snd (pb_field_iter_begin fs)) = fs" "pos (snd (pb_field_iter_begin fs)) = 0"
  by (simp_all add: pb_field_iter_begin_def Let_def)

lemma iter_next_inside:
  assumes "tagged_fields (start iter)" "pos iter < length (start iter)"
  shows "fst (pb_field_iter_next iter) = (Suc (pos iter) < length (start iter))"
    "\<not> Suc (pos iter) < length (start iter) \<Longrightarrow> snd (pb_field_iter_next iter) = snd (pb_field_iter_begin (start iter))"
    "pos (snd (pb_field_iter_next iter)) = (if Suc (pos iter) < length (start iter) then Suc (pos iter) else 0)"
proof -
  have "field_tag (iter_field iter) \<noteq> 0"
    "field_tag (field_at (start iter) (pos iter + 1)) = 0 \<longleftrightarrow> \<not> Suc (pos iter) < length (start iter)"
    using assms by (simp_all add: field_at_tag not_less del: field_at_in)
  then show "fst (pb_field_iter_next iter) = (Suc (pos iter) < length (start iter))"
    "\<not> Suc (pos iter) < length (start iter) \<Longrightarrow> snd (pb_field_iter_next iter) = snd (pb_field_iter_begin (start iter))"
    "pos (snd (pb_field_iter_next iter)) = (if Suc (pos iter) < length (start iter) then Suc (pos iter) else 0)"
    by (simp_all add: pb_field_iter_next_def Let_def del: field_at_in)
qed

text \<open>The iterator at the \<open>i\<close>-th field.\<close>

primrec nth_iter :: "pb_field list \<Rightarrow> nat \<Rightarrow> pb_iter" where
  "nth_iter fs 0 = snd (pb_field_iter_begin fs)"
| "nth_iter fs (Suc i) = snd (pb_field_iter_next (nth_iter fs i))"

lemma start_nth_iter [simp]: "start (nth_iter fs i) = fs"
  by (induction i) simp_all

lemma pos_nth_iter [simp]: "tagged_fields fs \<Longrightarrow> i < length fs \<Longrightarrow> pos (nth_iter fs i) = i"
proof (induction i)
  case (Suc i)
  then show ?case using iter_next_inside(3) [of "nth_iter fs i"] by simp
qed simp

lemma iter_field_nth_iter [simp]: "tagged_fields fs \<Longrightarrow> i < length fs \<Longrightarrow> iter_field (nth_iter fs i) = fs ! i"
  by simp

lemma next_nth_iter:
  assumes "tagged_fields fs" "i < length fs"
  shows "pb_field_iter_next (nth_iter fs i) =
    (if Suc i < length fs then (True, nth_iter fs (Suc i)) else (False, nth_iter fs 0))"
  using iter_next_inside(1,2) [of "nth_iter fs i"] assms by (simp add: prod_eq_iff)

lemma visits_nth_iter:
  assumes "tagged_fields fs" "i < length fs"
  shows "iter_visits (nth_iter fs i) = map (nth_iter fs) [i..<length fs]"
  using assms(2)
proof (induction "length fs - i" arbitrary: i)
  case (Suc k)
  then have "[i..<length fs] = i # [Suc i..<length fs]" by (simp add: upt_conv_Cons)
  with Suc show ?case
    by (subst iter_visits.simps, cases "Suc i < length fs") (simp_all add: next_nth_iter [OF assms(1)] del: nth_iter.simps)
qed simp

lemma each_field_eq: "tagged_fields fs \<Longrightarrow> each_field fs = map (nth_iter fs) [0..<length fs]"
  using visits_nth_iter [of fs 0] field_at_tag [of fs 0]
  by (cases fs) (auto simp: each_field_def pb_field_iter_begin_def Let_def)

lemma required_count_min: "required_count iter \<le> 64"
  by (simp add: required_count_def PB_MAX_REQUIRED_FIELDS_def Let_def)

text \<open>
  A search finds the field wherever it starts, and an iterator that is moved has \<open>pSize\<close> from the descriptor
  again.
\<close>

definition is_at :: "pb_field list \<Rightarrow> nat \<Rightarrow> pb_iter \<Rightarrow> bool" where
  "is_at fs i iter \<longleftrightarrow> i < length fs \<and>
     (iter = nth_iter fs i \<or>
      htype (fs ! i) = PB_HTYPE_REPEATED \<and> pSize (nth_iter fs i) = In_struct (pData (nth_iter fs i)) \<and>
      iter = (nth_iter fs i)\<lparr>pSize := Fixed_count\<rparr>)"

lemma is_at_simps:
  assumes "tagged_fields fs" "is_at fs i iter"
  shows "start iter = fs" "pos iter = i" "iter_field iter = fs ! i"
    "required_field_index iter = required_field_index (nth_iter fs i)" "pData iter = pData (nth_iter fs i)"
    "i < length fs"
  using assms by (auto simp: is_at_def)

lemma next_is_at:
  assumes "tagged_fields fs" "is_at fs i iter"
  shows "snd (pb_field_iter_next iter) = nth_iter fs (if Suc i < length fs then Suc i else 0)"
proof -
  note at = is_at_simps [OF assms]
  from assms(2) consider "iter = nth_iter fs i"
    | "htype (fs ! i) = PB_HTYPE_REPEATED" "iter = (nth_iter fs i)\<lparr>pSize := Fixed_count\<rparr>"
    by (auto simp: is_at_def)
  then show ?thesis
  proof cases
    case 1
    with next_nth_iter [OF assms(1) at(6)] show ?thesis by (simp del: nth_iter.simps)
  next
    case 2
    have "field_tag (fs ! i) \<noteq> 0" using assms(1) at(6) by (simp add: tagged_fields_def)
    with 2 assms(1) at(6) have "pb_field_iter_next iter = pb_field_iter_next (nth_iter fs i)"
      by (simp add: pb_field_iter_next_def Let_def pb_htypes)
    with next_nth_iter [OF assms(1) at(6)] show ?thesis by (simp del: nth_iter.simps)
  qed
qed

lemma iter_search_from:
  assumes tagged: "tagged_fields fs" and fst: "begun < length fs"
  shows "is_at fs ((begun + d) mod length fs) iter \<Longrightarrow> d < length fs \<Longrightarrow> length fs - d \<le> k \<Longrightarrow>
    \<forall>e<d. \<not> P (fs ! ((begun + e) mod length fs)) \<Longrightarrow>
    (if \<exists>j<length fs. P (fs ! j)
     then \<exists>j iter'. iter_search P begun k iter = Some (True, iter') \<and> is_at fs j iter' \<and> P (fs ! j) \<and>
       (iter' = nth_iter fs j \<or> iter' = iter \<and> j = (begun + d) mod length fs)
     else iter_search P begun k iter = Some (False, nth_iter fs begun))"
proof (induction k arbitrary: d iter)
  case 0
  then show ?case by simp
next
  case (Suc k)
  let ?n = "length fs" let ?i = "(begun + d) mod length fs"
  have n: "0 < ?n" using fst by linarith
  note at = is_at_simps [OF tagged Suc.prems(1)]
  show ?case
  proof (cases "P (fs ! ?i)")
    case True
    then have "iter_search P begun (Suc k) iter = Some (True, iter)" using at(3) by simp
    with True Suc.prems(1) at(6) show ?thesis by (auto intro!: exI [of _ ?i])
  next
    case False
    define iter' where "iter' = snd (pb_field_iter_next iter)"
    have next_i: "(if Suc ?i < ?n then Suc ?i else 0) = (begun + Suc d) mod ?n"
      using n by (simp add: mod_Suc) (use at(6) in linarith)
    have iter': "iter' = nth_iter fs ((begun + Suc d) mod ?n)"
      using next_is_at [OF tagged Suc.prems(1)] unfolding iter'_def next_i .
    have pos: "pos iter' = (begun + Suc d) mod ?n" unfolding iter' using n tagged by (simp del: nth_iter.simps)
    have step: "iter_search P begun (Suc k) iter =
      (if pos iter' = begun then Some (False, iter') else iter_search P begun k iter')"
      using False at(3) by (simp add: iter'_def Let_def)
    have seen: "\<forall>e<Suc d. \<not> P (fs ! ((begun + e) mod ?n))"
      using Suc.prems(4) False by (auto simp: less_Suc_eq)
    show ?thesis
    proof (cases "Suc d = ?n")
      case True
      have none: "\<not> (\<exists>j<?n. P (fs ! j))"
      proof
        assume "\<exists>j<?n. P (fs ! j)"
        then obtain j where j: "j < ?n" "P (fs ! j)" by blast
        let ?e = "(j + ?n - begun) mod ?n"
        have "(begun + ?e) mod ?n = (begun + (j + ?n - begun)) mod ?n" by (simp add: mod_add_right_eq)
        also have "\<dots> = j" using fst j by simp
        finally have "(begun + ?e) mod ?n = j" .
        moreover have "?e < Suc d" using True n by simp
        ultimately show False using seen j by metis
      qed
      have "(begun + Suc d) mod ?n = begun" using True fst by simp
      then have "iter_search P begun (Suc k) iter = Some (False, nth_iter fs begun)"
        using step pos iter' by simp
      with none show ?thesis by simp
    next
      case False
      then have d: "Suc d < ?n" using Suc.prems(2) by simp
      have "(begun + Suc d) mod ?n \<noteq> begun"
      proof (cases "begun + Suc d < ?n")
        case False
        then have "(begun + Suc d) mod ?n = begun + Suc d - ?n" using fst d by (simp add: mod_if)
        with d False show ?thesis by arith
      qed simp
      then have eq: "iter_search P begun (Suc k) iter = iter_search P begun k iter'" using step pos by simp
      have at': "is_at fs ((begun + Suc d) mod ?n) iter'" using iter' n by (simp add: is_at_def del: nth_iter.simps)
      have "?n - Suc d \<le> k" using Suc.prems(3) by simp
      note IH = Suc.IH [OF at' d this seen]
      show ?thesis
      proof (cases "\<exists>j<?n. P (fs ! j)")
        case True
        with IH obtain j it where it: "iter_search P begun k iter' = Some (True, it)" "is_at fs j it" "P (fs ! j)"
          "it = nth_iter fs j \<or> it = iter' \<and> j = (begun + Suc d) mod ?n" by auto
        from it(4) have "it = nth_iter fs j" unfolding iter' by auto
        with it(1-3) True eq show ?thesis by auto
      next
        case False
        with IH eq show ?thesis by simp
      qed
    qed
  qed
qed

lemma iter_search_exact:
  assumes "tagged_fields fs" "is_at fs i iter"
  shows "if \<exists>j<length fs. P (fs ! j)
     then \<exists>j iter'. iter_search P (pos iter) (Suc (length (start iter))) iter = Some (True, iter') \<and> is_at fs j iter' \<and> P (fs ! j) \<and>
       (iter' = nth_iter fs j \<or> iter' = iter \<and> j = i)
     else iter_search P (pos iter) (Suc (length (start iter))) iter = Some (False, nth_iter fs i)"
proof -
  note at = is_at_simps [OF assms]
  have "is_at fs ((i + 0) mod length fs) iter" "0 < length fs" using assms(2) at(6) by auto
  from iter_search_from [OF assms(1) at(6) this, of "Suc (length fs)" P, unfolded add_0_right mod_less [OF at(6)]] at
  show ?thesis by (simp del: iter_search.simps)
qed

lemma iter_find_known:
  assumes "tagged_fields fs" "is_at fs i iter" "j < length fs" "ltype (fs ! j) \<noteq> PB_LTYPE_EXTENSION"
  obtains iter' where "pb_field_iter_find iter (field_tag (fs ! j)) = Some (True, iter')" "is_at fs j iter'"
    "iter' = nth_iter fs j \<or> iter' = iter \<and> j = i"
proof -
  have inj: "field_tag (fs ! k) = field_tag (fs ! j) \<Longrightarrow> k < length fs \<Longrightarrow> k = j" for k
    using assms(1,3) by (simp add: tagged_fields_def distinct_conv_nth) metis
  have "\<exists>k<length fs. field_tag (fs ! k) = field_tag (fs ! j) \<and> ltype (fs ! k) \<noteq> PB_LTYPE_EXTENSION"
    using assms by blast
  with iter_search_exact [OF assms(1,2), of "\<lambda>f. field_tag f = field_tag (fs ! j) \<and> ltype f \<noteq> PB_LTYPE_EXTENSION"]
  obtain k iter' where "pb_field_iter_find iter (field_tag (fs ! j)) = Some (True, iter')" "is_at fs k iter'"
    "field_tag (fs ! k) = field_tag (fs ! j)" "iter' = nth_iter fs k \<or> iter' = iter \<and> k = i"
    by (auto simp: pb_field_iter_find_def)
  moreover from this have "k = j" by (intro inj) (auto simp: is_at_def)
  ultimately show ?thesis using that by blast
qed

lemma iter_find_unknown:
  assumes "tagged_fields fs" "is_at fs i iter" "\<forall>f\<in>set fs. field_tag f = tag \<longrightarrow> ltype f = PB_LTYPE_EXTENSION"
  shows "pb_field_iter_find iter tag = Some (False, nth_iter fs i)"
proof -
  have "\<not> (\<exists>j<length fs. field_tag (fs ! j) = tag \<and> ltype (fs ! j) \<noteq> PB_LTYPE_EXTENSION)"
    using assms(3) by (metis nth_mem)
  with iter_search_exact [OF assms(1,2), of "\<lambda>f. field_tag f = tag \<and> ltype f \<noteq> PB_LTYPE_EXTENSION"]
  show ?thesis by (simp add: pb_field_iter_find_def del: iter_search.simps)
qed

lemma find_extension_none:
  assumes "tagged_fields fs" "is_at fs i iter" "\<forall>f\<in>set fs. ltype f \<noteq> PB_LTYPE_EXTENSION"
  shows "find_extension_field iter = Some (False, nth_iter fs i)"
proof -
  have "\<not> (\<exists>j<length fs. ltype (fs ! j) = PB_LTYPE_EXTENSION)" using assms(3) by (metis nth_mem)
  with iter_search_exact [OF assms(1,2), of "\<lambda>f. ltype f = PB_LTYPE_EXTENSION"]
  show ?thesis by (simp add: find_extension_field_def del: iter_search.simps)
qed

section \<open>Descriptors that fit a structure\<close>

definition is_text :: "pb_field \<Rightarrow> bool" where
  "is_text f \<longleftrightarrow> ltype f = PB_LTYPE_STRING \<or> ltype f = PB_LTYPE_BYTES"

abbreviation is_sub :: "pb_field \<Rightarrow> bool" where "is_sub f \<equiv> ltype f = PB_LTYPE_SUBMESSAGE"
abbreviation is_static :: "pb_field \<Rightarrow> bool" where "is_static f \<equiv> atype f = PB_ATYPE_STATIC"
abbreviation is_pointer :: "pb_field \<Rightarrow> bool" where "is_pointer f \<equiv> atype f = PB_ATYPE_POINTER"
abbreviation is_repeated :: "pb_field \<Rightarrow> bool" where "is_repeated f \<equiv> htype f = PB_HTYPE_REPEATED"
abbreviation is_oneof :: "pb_field \<Rightarrow> bool" where "is_oneof f \<equiv> htype f = PB_HTYPE_ONEOF"

text \<open>
  What the macros of \<^verbatim>\<open>pb.h\<close> make of a field, as far as the memory is concerned.  Callbacks and extensions
  are left out, and so are arrays of submessages inside the structure; an array with a fixed number of
  items has four bytes or more (see \<open>fixed_count_arrays_uninitialised\<close>).
\<close>

definition field_ok :: "pb_field \<Rightarrow> bool" where
  "field_ok f \<longleftrightarrow>
     (is_static f \<or> is_pointer f) \<and> (ltype f \<le> PB_LTYPE_SUBMESSAGE \<or> ltype f = PB_LTYPE_FIXED_LENGTH_BYTES) \<and>
     0 < data_size f \<and>
     (ltype f = PB_LTYPE_BOOL \<longrightarrow> data_size f = 1) \<and> (ltype f = PB_LTYPE_FIXED32 \<longrightarrow> data_size f = 4) \<and>
     (ltype f = PB_LTYPE_FIXED64 \<longrightarrow> data_size f = 8) \<and>
     (ltype f \<in> {PB_LTYPE_VARINT, PB_LTYPE_UVARINT, PB_LTYPE_SVARINT} \<longrightarrow> data_size f \<in> {1, 2, 4, 8}) \<and>
     (is_pointer f \<and> is_text f \<and> is_repeated f \<longrightarrow> data_size f = 8) \<and>
     (is_sub f \<longrightarrow> (\<exists>d. field_ptr f = Fields d) \<and> \<not> (is_static f \<and> is_repeated f)) \<and>
     (is_static f \<and> \<not> is_sub f \<and> \<not> is_repeated f \<and> \<not> is_oneof f \<longrightarrow>
        (case field_ptr f of Null_ptr \<Rightarrow> True | Default bs \<Rightarrow> unat (data_size f) \<le> length bs | Fields _ \<Rightarrow> False)) \<and>
     (htype f = PB_HTYPE_REQUIRED \<or> htype f = PB_HTYPE_OPTIONAL \<and> is_pointer f \<longrightarrow> size_offset f = 0) \<and>
     (is_oneof f \<or> is_repeated f \<and> is_pointer f \<longrightarrow> size_offset f \<noteq> 0) \<and>
     (is_static f \<and> is_repeated f \<longrightarrow> unat (data_size f) * unat (array_size f) < 2 ^ 32 \<and>
        (size_offset f = 0 \<longrightarrow> 4 \<le> unat (data_size f) * unat (array_size f)))"

definition data_at :: "pb_field list \<Rightarrow> nat \<Rightarrow> int" where
  "data_at fs i = pData (nth_iter fs i)"

definition size_at :: "pb_field list \<Rightarrow> nat \<Rightarrow> int" where
  "size_at fs i = (case pSize (nth_iter fs i) of In_struct off \<Rightarrow> off | Fixed_count \<Rightarrow> 0)"

text \<open>The bytes of a field at \<open>pData\<close> and at \<open>pSize\<close>; the fields of a union share the longest of its slots.\<close>

definition data_len :: "pb_field \<Rightarrow> nat" where
  "data_len f =
     (if is_pointer f then 8
      else if is_repeated f then unat (data_size f) * unat (array_size f) else unat (data_size f))"

definition size_len :: "pb_field \<Rightarrow> nat" where
  "size_len f =
     (if is_oneof f \<or> is_repeated f \<and> is_pointer f then 4 else if size_offset f = 0 then 0 else if is_repeated f then 4
      else if htype f = PB_HTYPE_OPTIONAL then 1 else 0)"

definition same_union :: "pb_field list \<Rightarrow> nat \<Rightarrow> nat \<Rightarrow> bool" where
  "same_union fs i j \<longleftrightarrow>
     is_oneof (fs ! i) \<and> is_oneof (fs ! j) \<and> data_at fs i = data_at fs j \<and> size_at fs i = size_at fs j"

definition slot_len :: "pb_field list \<Rightarrow> nat \<Rightarrow> nat" where
  "slot_len fs i = foldr max (map (\<lambda>j. data_len (fs ! j)) (filter (\<lambda>j. j = i \<or> same_union fs i j) [0..<length fs])) 0"

definition span :: "pb_field list \<Rightarrow> nat \<Rightarrow> nat set" where
  "span fs i = extent (data_at fs i) (slot_len fs i) \<union> extent (size_at fs i) (size_len (fs ! i))"

text \<open>An empty message has a byte that is not used.\<close>

definition layout_fits :: "pb_field list \<Rightarrow> nat \<Rightarrow> bool" where
  "layout_fits fs n \<longleftrightarrow>
     0 < n \<and> tagged_fields fs \<and>
     (\<forall>i<length fs.
        0 \<le> data_at fs i \<and> nat (data_at fs i) + slot_len fs i \<le> n \<and>
        0 \<le> size_at fs i \<and> nat (size_at fs i) + size_len (fs ! i) \<le> n \<and>
        size_at fs i = data_at fs i + sint (size_offset (fs ! i)) \<and>
        extent (data_at fs i) (slot_len fs i) \<inter> extent (size_at fs i) (size_len (fs ! i)) = {} \<and>
        (\<forall>j<length fs. i = j \<or> same_union fs i j \<or> span fs i \<inter> span fs j = {}))"

definition nested_ok :: "(nat \<Rightarrow> bool) \<Rightarrow> pb_field list \<Rightarrow> bool" where
  "nested_ok N fs \<longleftrightarrow> (\<forall>f\<in>set fs. \<forall>d. is_sub f \<and> is_static f \<and> field_ptr f = Fields d \<longrightarrow> N d)"

primrec nests :: "nat \<Rightarrow> 's pb_env \<Rightarrow> nat \<Rightarrow> bool" where
  "nests 0 env d = False"
| "nests (Suc n) env d = nested_ok (nests n env) (messages env d)"

definition wf_env :: "nat \<Rightarrow> 's pb_env \<Rightarrow> bool" where
  "wf_env n env \<longleftrightarrow> (\<forall>m. malloc_ok (allocs env) m \<longrightarrow> m < 2 ^ 32) \<and> (\<forall>d. nests n env d \<and>
     (\<forall>f\<in>set (messages env d). field_ok f \<and>
        (\<forall>d'. is_sub f \<and> field_ptr f = Fields d' \<longrightarrow> layout_fits (messages env d') (unat (data_size f)))))"

section \<open>Memory that holds a message\<close>

text \<open>\<open>sub\<close> says the same of a submessage.  An item is what a decoder is called for; an element of a block
  of strings is a pointer to it.\<close>

definition item_ok :: "(nat \<Rightarrow> cell list \<Rightarrow> bool) \<Rightarrow> pb_field \<Rightarrow> cell list \<Rightarrow> bool" where
  "item_ok sub f cs \<longleftrightarrow> (if is_sub f then \<exists>d. field_ptr f = Fields d \<and> sub d cs else plain cs)"

definition text_ok :: "cell list \<Rightarrow> bool" where
  "text_ok cs \<longleftrightarrow> (\<exists>p. ptr_of cs = Some p \<and> (\<forall>block. p = Some block \<longrightarrow> plain block))"

definition element_ok :: "(nat \<Rightarrow> cell list \<Rightarrow> bool) \<Rightarrow> pb_field \<Rightarrow> cell list \<Rightarrow> bool" where
  "element_ok sub f cs \<longleftrightarrow> (if is_text f then text_ok cs else item_ok sub f cs)"

definition element :: "pb_field \<Rightarrow> nat \<Rightarrow> cell list \<Rightarrow> cell list" where
  "element f i block = take (unat (data_size f)) (drop (i * unat (data_size f)) block)"

definition array_ok :: "(nat \<Rightarrow> cell list \<Rightarrow> bool) \<Rightarrow> pb_field \<Rightarrow> nat \<Rightarrow> cell list \<Rightarrow> bool" where
  "array_ok sub f k block \<longleftrightarrow>
     k * unat (data_size f) \<le> length block \<and> (\<forall>i<k. element_ok sub f (element f i block)) \<and>
     plain (drop (k * unat (data_size f)) block)"

definition target_ok :: "(nat \<Rightarrow> cell list \<Rightarrow> bool) \<Rightarrow> pb_field \<Rightarrow> nat \<Rightarrow> cell list option \<Rightarrow> bool" where
  "target_ok sub f k p \<longleftrightarrow>
     (case p of
        None \<Rightarrow> k = 0
      | Some block \<Rightarrow>
          if is_repeated f then array_ok sub f k block
          else if is_text f then plain block
          else length block = unat (data_size f) \<and> item_ok sub f block)"

definition value_ok :: "(nat \<Rightarrow> cell list \<Rightarrow> bool) \<Rightarrow> pb_field \<Rightarrow> nat \<Rightarrow> cell list \<Rightarrow> bool" where
  "value_ok sub f k cs \<longleftrightarrow>
     (if is_pointer f then \<exists>p. ptr_of cs = Some p \<and> target_ok sub f k p else item_ok sub f cs)"

text \<open>In a union only the field that \<open>which\<close> names has a value; the rest are bytes.  The pointers of a union
  that was never set are null.\<close>

definition union_ok :: "(nat \<Rightarrow> cell list \<Rightarrow> bool) \<Rightarrow> pb_field list \<Rightarrow> nat \<Rightarrow> u32 \<Rightarrow> cell list \<Rightarrow> bool" where
  "union_ok sub fs i which cs \<longleftrightarrow>
     (if which = field_tag (fs ! i)
      then value_ok sub (fs ! i) 0 (take (data_len (fs ! i)) cs) \<and> plain (drop (data_len (fs ! i)) cs)
      else (\<exists>j<length fs. same_union fs i j \<and> which = field_tag (fs ! j)) \<or>
        plain cs \<and> (which = 0 \<and> is_pointer (fs ! i) \<longrightarrow> take 8 cs = null_cells))"

definition count_at :: "pb_field list \<Rightarrow> nat \<Rightarrow> cell list \<Rightarrow> nat option" where
  "count_at fs i mem =
     (if is_repeated (fs ! i) \<and> is_pointer (fs ! i) then map_option unat (load_size (size_at fs i) mem) else Some 0)"

definition plain_at :: "int \<Rightarrow> nat \<Rightarrow> cell list \<Rightarrow> bool" where
  "plain_at off n mem \<longleftrightarrow> (\<exists>cs. window off n mem = Some cs \<and> plain cs)"

definition entry_ok :: "(nat \<Rightarrow> cell list \<Rightarrow> bool) \<Rightarrow> pb_field list \<Rightarrow> nat \<Rightarrow> cell list \<Rightarrow> bool" where
  "entry_ok sub fs i mem \<longleftrightarrow>
     (\<exists>cs. window (data_at fs i) (slot_len fs i) mem = Some cs \<and>
        plain_at (size_at fs i) (size_len (fs ! i)) mem \<and>
        (if is_oneof (fs ! i) then \<exists>which. load_size (size_at fs i) mem = Some which \<and> union_ok sub fs i which cs
         else \<exists>k. count_at fs i mem = Some k \<and> value_ok sub (fs ! i) k cs))"

definition wt_fields :: "(nat \<Rightarrow> cell list \<Rightarrow> bool) \<Rightarrow> pb_field list \<Rightarrow> cell list \<Rightarrow> bool" where
  "wt_fields sub fs mem \<longleftrightarrow>
     (\<forall>i<length fs. entry_ok sub fs i mem) \<and>
     (\<forall>k<length mem. (\<forall>i<length fs. k \<notin> span fs i) \<longrightarrow> is_byte (mem ! k))"

primrec well_typed :: "nat \<Rightarrow> 's pb_env \<Rightarrow> nat \<Rightarrow> cell list \<Rightarrow> bool" where
  "well_typed 0 env d mem = False"
| "well_typed (Suc n) env d mem = wt_fields (well_typed n env) (messages env d) mem"

section \<open>One field at a time\<close>

lemma pSize_nth_iter: "pSize (nth_iter fs i) = In_struct (size_at fs i)"
proof -
  have "\<exists>off. pSize (nth_iter fs i) = In_struct off"
    by (induction i) (auto simp: pb_field_iter_begin_def pb_field_iter_next_def Let_def)
  then show ?thesis by (auto simp: size_at_def)
qed

lemma slot_len_ge: "j < length fs \<Longrightarrow> j = i \<or> same_union fs i j \<Longrightarrow> data_len (fs ! j) \<le> slot_len fs i"
proof -
  have "x \<in> set xs \<Longrightarrow> x \<le> foldr max xs (0 :: nat)" for x xs by (induction xs) (auto simp: le_max_iff_disj)
  then show "j < length fs \<Longrightarrow> j = i \<or> same_union fs i j \<Longrightarrow> data_len (fs ! j) \<le> slot_len fs i"
    by (auto simp: slot_len_def)
qed

lemma slot_len_single: "i < length fs \<Longrightarrow> \<not> is_oneof (fs ! i) \<Longrightarrow> slot_len fs i = data_len (fs ! i)"
proof -
  assume "i < length fs" "\<not> is_oneof (fs ! i)"
  then have "filter (\<lambda>j. j = i \<or> same_union fs i j) [0..<length fs] = filter (\<lambda>j. j = i) [0..<length fs]"
    by (auto simp: same_union_def)
  also have "\<dots> = [i]" using \<open>i < length fs\<close> by (induction fs rule: rev_induct) (auto simp: less_Suc_eq)
  finally show ?thesis by (simp add: slot_len_def)
qed

lemma same_union_simps:
  "same_union fs i j \<Longrightarrow> same_union fs j i" "same_union fs i j \<Longrightarrow> same_union fs j k \<Longrightarrow> same_union fs i k"
  by (auto simp: same_union_def)

lemma slot_len_union: "i < length fs \<Longrightarrow> j < length fs \<Longrightarrow> same_union fs i j \<Longrightarrow> slot_len fs i = slot_len fs j"
proof -
  assume ij: "i < length fs" "j < length fs" "same_union fs i j"
  then have "(\<lambda>k. k = i \<or> same_union fs i k) = (\<lambda>k. k = j \<or> same_union fs j k)"
    by (auto simp: fun_eq_iff dest: same_union_simps)
  then show ?thesis by (simp add: slot_len_def)
qed

lemma span_union: "i < length fs \<Longrightarrow> j < length fs \<Longrightarrow> same_union fs i j \<Longrightarrow> span fs i = span fs j"
  using slot_len_union [of i fs j] by (simp add: span_def same_union_def size_len_def)

lemma layout_at:
  assumes "layout_fits fs n" "i < length fs"
  shows "0 \<le> data_at fs i" "nat (data_at fs i) + slot_len fs i \<le> n" "0 \<le> size_at fs i"
    "nat (size_at fs i) + size_len (fs ! i) \<le> n" "size_at fs i = data_at fs i + sint (size_offset (fs ! i))"
    "extent (data_at fs i) (slot_len fs i) \<inter> extent (size_at fs i) (size_len (fs ! i)) = {}"
    "tagged_fields fs" "0 < n"
  using assms unfolding layout_fits_def by blast+

lemma layout_apart:
  "layout_fits fs n \<Longrightarrow> i < length fs \<Longrightarrow> j < length fs \<Longrightarrow> i \<noteq> j \<Longrightarrow> \<not> same_union fs i j \<Longrightarrow> span fs i \<inter> span fs j = {}"
  by (auto simp: layout_fits_def)

text \<open>What is said of a field only depends on its bytes.\<close>

lemma entry_ok_agree:
  assumes "agree X mem mem'" "span fs i \<inter> X = {}"
  shows "entry_ok sub fs i mem' = entry_ok sub fs i mem"
proof -
  have w: "window (data_at fs i) (slot_len fs i) mem' = window (data_at fs i) (slot_len fs i) mem"
    "window (size_at fs i) (size_len (fs ! i)) mem' = window (size_at fs i) (size_len (fs ! i)) mem"
    using assms by (auto intro!: window_agree [OF assms(1)] simp: span_def)
  moreover have "size_len (fs ! i) = 4 \<Longrightarrow> load_size (size_at fs i) mem' = load_size (size_at fs i) mem"
    using w(2) by (simp add: load_size_def load_bytes_def)
  ultimately show ?thesis
    by (auto simp: entry_ok_def count_at_def plain_at_def size_len_def)
qed

text \<open>
  An operation on the \<open>j\<close>-th field of a well-typed message: the others are as they were, and it is enough to
  show that the field itself is well-typed again, and in a union that \<open>which\<close> names this field or is
  what it was.
\<close>

lemma entry_ok_other_in_union:
  assumes "layout_fits fs (length mem)" "i < length fs" "j < length fs" "same_union fs i j" "i \<noteq> j"
    "entry_ok sub fs j mem" "load_size (size_at fs j) mem = Some (field_tag (fs ! j))"
  shows "entry_ok sub fs i mem"
proof -
  have u: "same_union fs j i" using assms(4) by (rule same_union_simps)
  have "field_tag (fs ! i) \<noteq> field_tag (fs ! j)"
    using layout_at(7) [OF assms(1,2)] assms(2,3,5) by (auto simp: tagged_fields_def distinct_conv_nth)
  moreover have "size_at fs i = size_at fs j" "data_at fs i = data_at fs j" "is_oneof (fs ! i)" "is_oneof (fs ! j)"
    "size_len (fs ! i) = size_len (fs ! j)"
    using u by (simp_all add: same_union_def size_len_def)
  ultimately show ?thesis
    using assms(3,4,6,7) slot_len_union [OF assms(2-4)] by (auto simp: entry_ok_def union_ok_def)
qed

lemma wt_fields_update:
  assumes wt: "wt_fields sub fs mem" and fits: "layout_fits fs (length mem)" and j: "j < length fs"
    and agree: "agree (span fs j) mem mem'" and ok: "entry_ok sub fs j mem'"
    and union: "is_oneof (fs ! j) \<Longrightarrow> load_size (size_at fs j) mem' = Some (field_tag (fs ! j))"
  shows "wt_fields sub fs mem'"
  unfolding wt_fields_def
proof (intro conjI allI impI)
  have len: "length mem' = length mem" using agree by (rule agree_length)
  fix i assume i: "i < length fs"
  consider "i = j" | "i \<noteq> j" "same_union fs i j" | "i \<noteq> j" "\<not> same_union fs i j" by blast
  then show "entry_ok sub fs i mem'"
  proof cases
    case 2
    then have "is_oneof (fs ! j)" by (simp add: same_union_def)
    with 2 ok union show ?thesis
      using entry_ok_other_in_union [of fs mem' i j] fits i j len by simp
  next
    case 3
    then have "span fs i \<inter> span fs j = {}" using layout_apart fits i j by blast
    then show ?thesis using entry_ok_agree [OF agree] wt i by (simp add: wt_fields_def)
  qed (simp add: ok)
next
  fix k assume k: "k < length mem'" "\<forall>i<length fs. k \<notin> span fs i"
  then have "mem' ! k = mem ! k" "k < length mem" using agree j by (auto simp: agree_def)
  with wt k show "is_byte (mem' ! k)" by (simp add: wt_fields_def)
qed

lemma htypes_apart [simp]:
  "PB_HTYPE_REPEATED \<noteq> PB_HTYPE_ONEOF" "PB_HTYPE_ONEOF \<noteq> PB_HTYPE_REPEATED"
  "PB_HTYPE_REQUIRED \<noteq> PB_HTYPE_ONEOF" "PB_HTYPE_ONEOF \<noteq> PB_HTYPE_REQUIRED"
  "PB_HTYPE_REQUIRED \<noteq> PB_HTYPE_REPEATED" "PB_HTYPE_REPEATED \<noteq> PB_HTYPE_REQUIRED"
  "PB_HTYPE_OPTIONAL \<noteq> PB_HTYPE_ONEOF" "PB_HTYPE_ONEOF \<noteq> PB_HTYPE_OPTIONAL"
  "PB_HTYPE_OPTIONAL \<noteq> PB_HTYPE_REPEATED" "PB_HTYPE_REPEATED \<noteq> PB_HTYPE_OPTIONAL"
  "PB_HTYPE_OPTIONAL \<noteq> PB_HTYPE_REQUIRED" "PB_HTYPE_REQUIRED \<noteq> PB_HTYPE_OPTIONAL"
  by (simp_all add: pb_htypes)

lemma atypes_apart [simp]:
  "PB_ATYPE_STATIC \<noteq> PB_ATYPE_POINTER" "PB_ATYPE_POINTER \<noteq> PB_ATYPE_STATIC"
  "PB_ATYPE_CALLBACK \<noteq> PB_ATYPE_POINTER" "PB_ATYPE_POINTER \<noteq> PB_ATYPE_CALLBACK"
  "PB_ATYPE_CALLBACK \<noteq> PB_ATYPE_STATIC" "PB_ATYPE_STATIC \<noteq> PB_ATYPE_CALLBACK"
  by (simp_all add: pb_atypes)

lemma two_bits: "(x :: byte) AND 0x30 = (if bit x 4 then 0x10 else 0) OR (if bit x 5 then 0x20 else 0)"
proof (rule bit_word_eqI)
  fix n assume "n < LENGTH(8)"
  then consider "n = 0" | "n = 1" | "n = 2" | "n = 3" | "n = 4" | "n = 5" | "n = 6" | "n = 7" by force
  then show "bit (x AND 0x30) n = bit ((if bit x 4 then 0x10 else 0) OR (if bit x 5 then 0x20 else 0 :: byte)) n"
    by cases (auto simp: bit_simps)
qed

lemma htype_cases: "htype f = PB_HTYPE_REQUIRED \<or> htype f = PB_HTYPE_OPTIONAL \<or> is_repeated f \<or> is_oneof f"
  by (simp add: PB_HTYPE_def two_bits pb_htypes)

end
