(* ===== verification/Pb_Safe.thy ===== *)
theory Pb_Safe
  imports Pb_Layout "HOL-Library.Sublist"
begin

text \<open>
  Decoding is safe: from memory that holds a message, and a stream with any bytes, the functions of
  \<open>Pb_Decode\<close> return, stay inside the stream and the structure, lose no block, and leave a message.
\<close>

section \<open>Steps that are safe\<close>

text \<open>The stream goes on in its buffer: no more is left in it than before, and behind what is left the buffer is
  at least as long (a function that fails may have given up bytes without reading them).\<close>

definition src_bytes :: "'s pb_istream \<Rightarrow> byte list" where
  "src_bytes s = (case source s of Buf_read bs \<Rightarrow> bs | Read_callback _ _ \<Rightarrow> [])"

definition src_len :: "'s pb_istream \<Rightarrow> nat" where
  "src_len s = (case source s of Buf_read bs \<Rightarrow> length bs | Read_callback _ _ \<Rightarrow> 0)"

definition goes_on :: "'s pb_istream \<Rightarrow> 's pb_istream \<Rightarrow> bool" where
  "goes_on s s' \<longleftrightarrow> wf_istream s' \<and> unat (bytes_left s') \<le> unat (bytes_left s) \<and>
     src_len s - unat (bytes_left s) \<le> src_len s' - unat (bytes_left s') \<and> suffix (src_bytes s') (src_bytes s)"

definition safely :: "'s pb_istream \<Rightarrow> ('a option \<Rightarrow> 's pb_istream \<Rightarrow> 'd \<Rightarrow> bool) \<Rightarrow> ('a, ('s, 'd) pb_decoding) pb_result \<Rightarrow> bool" where
  "safely s Q res \<longleftrightarrow> (\<exists>r s' d. res = Some (r, s', d) \<and> goes_on s s' \<and> Q r s' d)"

lemma goes_on_refl: "wf_istream s \<Longrightarrow> goes_on s s"
  by (simp add: goes_on_def)

lemma goes_on_trans: "goes_on s s1 \<Longrightarrow> goes_on s1 s2 \<Longrightarrow> goes_on s s2"
  by (auto simp: goes_on_def)

lemma goes_on_wf: "goes_on s s1 \<Longrightarrow> wf_istream s1"
  by (simp add: goes_on_def)

lemma goes_on_errmsg [simp]: "goes_on s (s'\<lparr>ierrmsg := e\<rparr>) = goes_on s s'" "goes_on (s\<lparr>ierrmsg := e\<rparr>) s' = goes_on s s'"
  by (simp_all add: goes_on_def src_len_def src_bytes_def)

lemma src_len_wf: "wf_istream s \<Longrightarrow> unat (bytes_left s) \<le> src_len s"
  by (simp add: wf_istream_def src_len_def split: pb_source.splits)

lemma src_len_advance: "wf_istream s \<Longrightarrow> src_len (advance n s) = src_len s - n"
  by (auto simp: wf_istream_def src_len_def advance_def split: pb_source.splits)

lemma src_bytes_advance: "suffix (src_bytes (advance n s)) (src_bytes s)"
  by (auto simp: src_bytes_def advance_def split: pb_source.splits intro: suffix_drop)

lemma goes_on_advance: "wf_istream s \<Longrightarrow> n \<le> length (pending s) \<Longrightarrow> goes_on s (advance n s)"
  using src_len_wf [of s] length_pending [of s]
  by (simp add: goes_on_def bytes_left_advance src_len_advance src_bytes_advance)

lemma safelyI: "goes_on s s' \<Longrightarrow> Q r s' d \<Longrightarrow> safely s Q (Some (r, s', d))"
  by (auto simp: safely_def)

lemma safely_mono: "safely s Q m \<Longrightarrow> (\<And>r s' d. goes_on s s' \<Longrightarrow> Q r s' d \<Longrightarrow> R r s' d) \<Longrightarrow> safely s R m"
  unfolding safely_def by blast

lemma safely_from: "goes_on s s1 \<Longrightarrow> safely s1 Q m \<Longrightarrow> safely s Q m"
  unfolding safely_def using goes_on_trans by blast

lemma safely_then:
  assumes "safely s Q m" "\<And>s' d. goes_on s s' \<Longrightarrow> Q None s' d \<Longrightarrow> R None s' d"
    and "\<And>x s' d. goes_on s s' \<Longrightarrow> Q (Some x) s' d \<Longrightarrow> safely s' R (k x (s', d))"
  shows "safely s R (pb_then m k)"
proof -
  from assms(1) obtain r s' d where m: "m = Some (r, s', d)" "goes_on s s'" "Q r s' d" by (auto simp: safely_def)
  show ?thesis
  proof (cases r)
    case None
    with m assms(2) show ?thesis by (simp add: safelyI)
  next
    case (Some x)
    with m assms(3) safely_from show ?thesis by simp blast
  qed
qed

lemma safely_ok: "wf_istream s \<Longrightarrow> Q (Some v) s d \<Longrightarrow> safely s Q (Some (Some v, s, d))"
  by (simp add: safelyI goes_on_refl)

lemma safely_error: "wf_istream s \<Longrightarrow> (\<And>e. Q None (s\<lparr>ierrmsg := e\<rparr>) d) \<Longrightarrow> safely s Q (dec_error (s, d) msg)"
  by (simp add: safelyI goes_on_refl)

lemma safely_map: "safely s (\<lambda>r s d. Q r s (f d)) m \<Longrightarrow> safely s Q (map_option (\<lambda>(r, s, d). (r, s, f d)) m)"
  by (auto simp: safely_def)

lemma safely_reader:
  assumes "pb_reader op" "wf_istream s" "\<And>r s'. goes_on s s' \<Longrightarrow> Q r s' d"
  shows "safely s Q (keeping d (op s))"
  using pb_readerD [OF assms(1,2)]
proof (cases rule: pb_withinE)
  case (fails n e)
  with assms show ?thesis by (simp add: safelyI goes_on_advance)
next
  case (reads v n)
  with assms show ?thesis by (simp add: safelyI goes_on_advance)
qed

lemma safely_step: "wf_istream s \<Longrightarrow> f mem = Some mem' \<Longrightarrow> Q (Some ()) s mem' \<Longrightarrow> safely s Q (mem_step f (s, mem))"
  by (simp add: mem_step_def safelyI goes_on_refl)

lemma mem_read_simp [simp]: "mem_read f (s, mem) = map_option (\<lambda>v. (Some v, s, mem)) (f mem)"
  by (simp add: mem_read_def)

subsection \<open>Values that take bytes of the stream\<close>

text \<open>Reading a value that starts with a byte leaves less in the stream.\<close>

definition takes :: "'s pb_istream \<Rightarrow> ('a, 's pb_istream) pb_result \<Rightarrow> bool" where
  "takes s res \<longleftrightarrow>
     (\<exists>r n e. res = Some (r, (advance n s)\<lparr>ierrmsg := e\<rparr>) \<and> n \<le> length (pending s) \<and> (r \<noteq> None \<longrightarrow> 0 < n))"

lemma takes_safely:
  assumes "takes s m" "wf_istream s"
    "\<And>r s'. goes_on s s' \<Longrightarrow> (r \<noteq> None \<Longrightarrow> unat (bytes_left s') < unat (bytes_left s)) \<Longrightarrow> Q r s' d"
  shows "safely s Q (keeping d m)"
proof -
  from assms(1) obtain r n e where m: "m = Some (r, (advance n s)\<lparr>ierrmsg := e\<rparr>)" "n \<le> length (pending s)"
    "r \<noteq> None \<longrightarrow> 0 < n" by (auto simp: takes_def)
  have on: "goes_on s ((advance n s)\<lparr>ierrmsg := e\<rparr>)" using assms(2) m by (simp add: goes_on_advance)
  moreover have "unat (bytes_left ((advance n s)\<lparr>ierrmsg := e\<rparr>)) < unat (bytes_left s)" if "r \<noteq> None"
    using that assms(2) m length_pending [OF assms(2)] by (auto simp: bytes_left_advance)
  ultimately show ?thesis using m assms(3) by (simp add: safelyI)
qed

lemma takes_then_total:
  assumes "takes s m" "\<And>v n e. n \<le> length (pending s) \<Longrightarrow> m = Some (Some v, (advance n s)\<lparr>ierrmsg := e\<rparr>) \<Longrightarrow>
    \<exists>r e'. k v ((advance n s)\<lparr>ierrmsg := e\<rparr>) = Some (r, (advance n s)\<lparr>ierrmsg := e'\<rparr>)"
  shows "takes s (pb_then m k)"
proof -
  from assms(1) obtain r n e where m: "m = Some (r, (advance n s)\<lparr>ierrmsg := e\<rparr>)" "n \<le> length (pending s)"
    "r \<noteq> None \<longrightarrow> 0 < n" by (auto simp: takes_def)
  show ?thesis
  proof (cases r)
    case None
    with m show ?thesis by (auto simp: takes_def)
  next
    case (Some v)
    with m assms(2) [OF m(2)] show ?thesis by (fastforce simp: takes_def)
  qed
qed

lemma takes_readbyte:
  assumes "wf_istream s" "\<And>b bs. pending s = b # bs \<Longrightarrow> pb_within (advance (Suc 0) s) (k b (advance (Suc 0) s))"
  shows "takes s (pb_then (pb_readbyte s) k)"
proof (cases "pending s")
  case Nil
  have "s = advance 0 s" by simp
  with Nil assms(1) show ?thesis
    by (simp add: pb_readbyte_wf pb_ireturn_error_def takes_def) metis
next
  case (Cons b bs)
  from assms(2) [OF Cons] obtain r n e where
    "k b (advance (Suc 0) s) = Some (r, (advance n (advance (Suc 0) s))\<lparr>ierrmsg := e\<rparr>)"
    "n \<le> length (pending (advance (Suc 0) s))" by (auto simp: pb_within_def)
  then show ?thesis
    using assms(1) Cons by (auto simp: pb_readbyte_wf takes_def intro!: exI [of _ "Suc n"])
qed

lemma takes_varint: "wf_istream s \<Longrightarrow> takes s (pb_decode_varint s)"
  unfolding pb_decode_varint_def
  by (subst varint_loop.simps) (simp add: takes_readbyte Let_def varint_loop_within)

lemma takes_varint32: "wf_istream s \<Longrightarrow> takes s (pb_decode_varint32 s)"
  by (rule varint32_eof_within [of s False]) (auto simp: pb_decode_varint32_def takes_def)

lemma takes_read:
  assumes "wf_istream s" "n \<noteq> 0"
  shows "takes s (pb_then (pb_read False n s) (\<lambda>b s. Some (Some (f b), s)))"
proof (cases "unat n \<le> length (pending s)")
  case True
  moreover have "0 < unat n" using assms(2) by (simp add: unat_gt_0)
  ultimately show ?thesis
    using assms(1) by (auto simp: pb_read_wf takes_def advance_same_errmsg intro!: exI [of _ "unat n"] exI [of _ "ierrmsg s"])
next
  case False
  with assms(1) show ?thesis by (auto simp: pb_read_wf takes_def pb_ireturn_error_def intro!: exI [of _ 0])
qed

lemma takes_fixed: "wf_istream s \<Longrightarrow> takes s (pb_decode_fixed32 s)" "wf_istream s \<Longrightarrow> takes s (pb_decode_fixed64 s)"
  unfolding pb_decode_fixed32_def pb_decode_fixed64_def by (rule takes_read; simp)+

lemma takes_svarint: "wf_istream s \<Longrightarrow> takes s (pb_decode_svarint s)"
  unfolding pb_decode_svarint_def by (rule takes_then_total [OF takes_varint]) auto

section \<open>Items\<close>

text \<open>A decoder of a scalar: it keeps to the \<open>n\<close> bytes of the member, and takes a byte or more.\<close>

definition scalar_safe :: "nat \<Rightarrow> (byte list \<Rightarrow> 's pb_istream \<Rightarrow> (unit, ('s, byte list) pb_decoding) pb_result) \<Rightarrow> bool" where
  "scalar_safe n dec \<longleftrightarrow> (\<forall>s bs. wf_istream s \<and> length bs = n \<longrightarrow>
     safely s (\<lambda>r s' bs'. length bs' = n \<and> (r \<noteq> None \<longrightarrow> unat (bytes_left s') < unat (bytes_left s))) (dec bs s))"

definition stores :: "'s pb_istream \<Rightarrow> nat \<Rightarrow> (unit, ('s, byte list) pb_decoding) pb_result \<Rightarrow> bool" where
  "stores s n res \<longleftrightarrow> (\<exists>r e dest. res = Some (r, s\<lparr>ierrmsg := e\<rparr>, dest) \<and> length dest = n)"

lemma stores_simps [simp]:
  "length bs \<le> length dest \<Longrightarrow> stores s n (dest_store 0 bs (s, dest)) \<longleftrightarrow> length dest = n"
  "m \<le> length dest \<Longrightarrow> stores s n (assign_checked m v w (s, dest)) \<longleftrightarrow> length dest = n"
  "stores s n (dec_error (s, dest) msg) \<longleftrightarrow> length dest = n"
proof -
  have s: "stores s n (Some (r, s, d)) \<longleftrightarrow> length d = n" for r d
    by (auto simp: stores_def intro!: exI [of _ "ierrmsg s"])
  then show "length bs \<le> length dest \<Longrightarrow> stores s n (dest_store 0 bs (s, dest)) \<longleftrightarrow> length dest = n"
    by (simp add: dest_store_0)
  from s show "m \<le> length dest \<Longrightarrow> stores s n (assign_checked m v w (s, dest)) \<longleftrightarrow> length dest = n"
    by (auto simp: assign_checked_def dest_store_0 stores_def)
  show "stores s n (dec_error (s, dest) msg) \<longleftrightarrow> length dest = n"
    by (auto simp: stores_def)
qed

lemma scalar_safeI:
  fixes rd :: "'s pb_istream \<Rightarrow> ('v, 's pb_istream) pb_result"
  assumes "\<And>s. wf_istream s \<Longrightarrow> takes s (rd s)" "\<And>v s dest. length dest = n \<Longrightarrow> stores s n (k v (s, dest))"
  shows "scalar_safe n (\<lambda>dest s. pb_then (keeping dest (rd s)) k)"
  unfolding scalar_safe_def
proof (intro allI impI, elim conjE)
  fix s :: "'s pb_istream" and bs :: "byte list"
  assume s: "wf_istream s" "length bs = n"
  show "safely s (\<lambda>r s' bs'. length bs' = n \<and> (r \<noteq> None \<longrightarrow> unat (bytes_left s') < unat (bytes_left s)))
    (pb_then (keeping bs (rd s)) k)"
  proof (rule safely_then [where Q = "\<lambda>r s' d. d = bs \<and> (r \<noteq> None \<longrightarrow> unat (bytes_left s') < unat (bytes_left s))"])
    fix v :: 'v and s' :: "'s pb_istream" and d :: "byte list"
    assume on: "goes_on s s'" and q: "d = bs \<and> (Some v \<noteq> None \<longrightarrow> unat (bytes_left s') < unat (bytes_left s))"
    from assms(2) [of d s' v] q s(2) obtain r e dest' where
      "k v (s', d) = Some (r, s'\<lparr>ierrmsg := e\<rparr>, dest')" "length dest' = n" by (auto simp: stores_def)
    then show "safely s' (\<lambda>r s' bs'. length bs' = n \<and> (r \<noteq> None \<longrightarrow> unat (bytes_left s') < unat (bytes_left s))) (k v (s', d))"
      using q goes_on_refl [OF goes_on_wf [OF on]] by (auto intro!: safelyI)
  qed (use s assms(1) in \<open>auto intro: takes_safely\<close>)
qed

lemma scalar_safe_bool: "scalar_safe 1 pb_dec_bool"
  unfolding pb_dec_bool_def [abs_def] by (intro scalar_safeI takes_varint32) auto

lemma scalar_safe_fixed: "scalar_safe 4 pb_dec_fixed32" "scalar_safe 8 pb_dec_fixed64"
  unfolding pb_dec_fixed32_def [abs_def] pb_dec_fixed64_def [abs_def]
  by (rule scalar_safeI; simp add: takes_fixed)+

lemma size_cases:
  "data_size f \<in> {1, 2, 4, 8} \<Longrightarrow> unat (data_size f) = n \<Longrightarrow>
   (data_size f = 8 \<longleftrightarrow> n = 8) \<and> (data_size f = 4 \<longleftrightarrow> n = 4) \<and> (data_size f = 2 \<longleftrightarrow> n = 2) \<and> (data_size f = 1 \<longleftrightarrow> n = 1) \<and> n \<in> {1, 2, 4, 8}"
  by auto

lemma scalar_safe_varints:
  assumes "data_size f \<in> {1, 2, 4, 8}" "unat (data_size f) = n"
  shows "scalar_safe n (pb_dec_varint f)" "scalar_safe n (pb_dec_uvarint f)" "scalar_safe n (pb_dec_svarint f)"
  unfolding pb_dec_varint_def [abs_def] pb_dec_uvarint_def [abs_def] pb_dec_svarint_def [abs_def] Let_def
  by (rule scalar_safeI; use size_cases [OF assms] in \<open>auto simp: takes_varint takes_svarint\<close>)+

text \<open>Members that start with a length.\<close>

lemma safely_fixed_length:
  assumes "wf_istream s" "length bs = unat (data_size f)"
  shows "safely s (\<lambda>r s' bs'. length bs' = length bs) (pb_dec_fixed_length_bytes f bs s)"
  unfolding pb_dec_fixed_length_bytes_def
proof (rule safely_then [OF safely_reader [OF pb_reader_decode_varint32 assms(1), where Q = "\<lambda>r s' d. d = bs"]], simp_all, intro conjI impI)
  fix s' :: "'a pb_istream"
  assume on: "goes_on s s'"
  then have wf: "wf_istream s'" by (rule goes_on_wf)
  show "safely s' (\<lambda>r s' bs'. length bs' = length bs) (dest_store 0 [] (s', bs))"
    "safely s' (\<lambda>r s' bs'. length bs' = length bs) (dest_store 0 (replicate (unat (data_size f)) 0) (s', bs))"
    using assms(2) wf by (simp_all add: dest_store_0 safelyI goes_on_refl)
  have "unat (ucast (data_size f) :: u64) = unat (data_size f)" by (rule unat_ucast_up) simp
  then show "safely s' (\<lambda>r s' bs'. length bs' = length bs) (read_into 0 (ucast (data_size f)) (s', bs))"
    using assms(2) wf by (auto simp: read_into_exact safelyI goes_on_refl goes_on_advance)
qed (auto simp: safelyI goes_on_refl dest: goes_on_wf)

lemma plain_cells: "plain cs \<Longrightarrow> length (map cell_byte cs) = length cs"
  by simp

lemma safely_on_plain:
  assumes "wf_istream s" "plain cs"
    "safely s (\<lambda>r s' bs. length bs = length cs \<and> P r s') (dec (map cell_byte cs) s)"
  shows "safely s (\<lambda>r s' cs'. length cs' = length cs \<and> plain cs' \<and> P r s') (on_plain dec cs s)"
  using assms by (auto simp: on_plain_def safely_def)

lemma safely_inline:
  assumes "wf_istream s" "plain cs" "\<not> is_pointer f" "length cs = unat (data_size f)"
  shows "safely s (\<lambda>r s' cs'. length cs' = length cs \<and> plain cs') (on_member (pb_dec_string al f) f cs s)"
    "safely s (\<lambda>r s' cs'. length cs' = length cs \<and> plain cs') (on_member (pb_dec_bytes al f) f cs s)"
proof -
  have fits: "member_fits f (Inline (map cell_byte cs))" using assms by (simp add: member_fits_def)
  have *: "safely s (\<lambda>r s' cs'. length cs' = length cs \<and> plain cs') (on_member dec f cs s)"
    if "member_within f s (dec (Inline (map cell_byte cs)) s)" for dec
  proof -
    from that obtain r n e dest where dec: "dec (Inline (map cell_byte cs)) s = Some (r, (advance n s)\<lparr>ierrmsg := e\<rparr>, dest)"
      "n \<le> length (pending s)" "member_fits f dest" by (auto simp: member_within_def)
    from dec(3) assms obtain bs where "dest = Inline bs" "length bs = length cs"
      by (auto simp: member_fits_def split: pb_member.splits)
    with dec assms show ?thesis by (simp add: on_member_def safelyI goes_on_advance)
  qed
  from pb_dec_stays_in_member [OF assms(1) fits, of al]
  show "safely s (\<lambda>r s' cs'. length cs' = length cs \<and> plain cs') (on_member (pb_dec_string al f) f cs s)"
    "safely s (\<lambda>r s' cs'. length cs' = length cs \<and> plain cs') (on_member (pb_dec_bytes al f) f cs s)"
    by (simp_all add: *)
qed

lemma text_okE:
  assumes "text_ok cs"
  obtains p where "ptr_of cs = Some p" "\<And>block. p = Some block \<Longrightarrow> plain block"
  using assms by (auto simp: text_ok_def)

lemma text_ok_simps [simp]: "text_ok null_cells" "text_ok (ptr_cells block) = plain block"
  by (auto simp: text_ok_def)

lemma length_text: "text_ok cs \<Longrightarrow> length cs = 8"
  by (auto simp: text_ok_def split: option.splits dest!: ptr_of_cases)

lemma safely_text:
  assumes "wf_istream s" "is_pointer f" "text_ok cs"
  shows "safely s (\<lambda>r s' cs'. text_ok cs') (on_member (pb_dec_string al f) f cs s)"
    "safely s (\<lambda>r s' cs'. text_ok cs') (on_member (pb_dec_bytes al f) f cs s)"
proof -
  from assms(3) obtain p where p: "ptr_of cs = Some p" "\<forall>block. p = Some block \<longrightarrow> plain block"
    by (auto simp: text_ok_def)
  let ?dest = "Pointer (map_option (map cell_byte) p)"
  have fits: "member_fits f ?dest" using assms by (simp add: member_fits_def)
  have *: "safely s (\<lambda>r s' cs'. text_ok cs') (on_member dec f cs s)" if "member_within f s (dec ?dest s)" for dec
  proof -
    from that obtain r n e dest where dec: "dec ?dest s = Some (r, (advance n s)\<lparr>ierrmsg := e\<rparr>, dest)"
      "n \<le> length (pending s)" "member_fits f dest" by (auto simp: member_within_def)
    from dec(3) assms obtain q where "dest = Pointer q" by (auto simp: member_fits_def split: pb_member.splits)
    with dec assms p show ?thesis by (auto simp: on_member_def safelyI goes_on_advance split: option.splits)
  qed
  from pb_dec_stays_in_member [OF assms(1) fits, of al]
  show "safely s (\<lambda>r s' cs'. text_ok cs') (on_member (pb_dec_string al f) f cs s)"
    "safely s (\<lambda>r s' cs'. text_ok cs') (on_member (pb_dec_bytes al f) f cs s)"
    by (simp_all add: *)
qed

subsection \<open>Substreams\<close>

text \<open>\<open>sub\<close> was opened in \<open>s\<close>, which was left as \<open>s1\<close>: when \<open>sub\<close> is closed again, \<open>s\<close> has gone on.\<close>

definition child :: "'s pb_istream \<Rightarrow> 's pb_istream \<Rightarrow> 's pb_istream \<Rightarrow> bool" where
  "child s s1 sub \<longleftrightarrow> goes_on s s1 \<and> wf_istream sub \<and> unat (bytes_left sub) < unat (bytes_left s) \<and>
     unat (bytes_left s1) \<le> unat (bytes_left s) \<and>
     src_len s - unat (bytes_left s) + unat (bytes_left s1) \<le> src_len sub - unat (bytes_left sub) \<and>
     suffix (src_bytes sub) (src_bytes s)"

lemma safely_substream:
  assumes "wf_istream s" "\<And>s'. goes_on s s' \<Longrightarrow> R None s' d"
    "\<And>sub s1. child s s1 sub \<Longrightarrow> safely s R (k sub (s1, d))"
  shows "safely s R (pb_then (keeping d (pb_make_string_substream s)) k)"
proof -
  from takes_varint32 [OF assms(1)] obtain r n e where rd:
    "pb_decode_varint32 s = Some (r, (advance n s)\<lparr>ierrmsg := e\<rparr>)" "n \<le> length (pending s)" "r \<noteq> None \<longrightarrow> 0 < n"
    by (auto simp: takes_def)
  define s0 where "s0 = (advance n s)\<lparr>ierrmsg := e\<rparr>"
  have s0: "goes_on s s0" "wf_istream s0" using assms(1) rd(2) by (simp_all add: s0_def goes_on_advance)
  show ?thesis
  proof (cases r)
    case None
    with rd s0 assms(2) show ?thesis
      by (simp add: pb_make_string_substream_def s0_def [symmetric] safelyI)
  next
    case (Some len)
    have n: "0 < n" "n \<le> unat (bytes_left s)" using Some rd length_pending [OF assms(1)] by simp_all
    have u: "unat (ucast len :: u64) = unat len" by (rule unat_ucast_up) simp
    show ?thesis
    proof (cases "bytes_left s0 < ucast len")
      case True
      with Some rd s0 assms(2) show ?thesis
        by (simp add: pb_make_string_substream_def s0_def [symmetric] pb_ireturn_error_def safelyI)
    next
      case False
      define sub where "sub = s0\<lparr>bytes_left := ucast len\<rparr>"
      define s1 where "s1 = s0\<lparr>bytes_left := bytes_left s0 - ucast len\<rparr>"
      have left: "unat len \<le> unat (bytes_left s0)" using False u by (simp add: not_less word_le_nat_alt)
      have b0: "unat (bytes_left s0) = unat (bytes_left s) - n" "src_len s0 = src_len s - n"
        using assms(1) rd(2) src_len_advance [OF assms(1), of n]
        by (simp_all add: s0_def bytes_left_advance src_len_def)
      have b1: "unat (bytes_left s1) = unat (bytes_left s0) - unat len" "src_len s1 = src_len s0" "src_len sub = src_len s0"
        "unat (bytes_left sub) = unat len"
        using left u by (simp_all add: s1_def sub_def src_len_def unat_sub word_le_nat_alt)
      have wf: "wf_istream sub" "wf_istream s1"
        using s0(2) left b1 u by (auto simp: sub_def s1_def wf_istream_def split: pb_source.splits)
      have "suffix (src_bytes s0) (src_bytes s)" "src_bytes s1 = src_bytes s0" "src_bytes sub = src_bytes s0"
        using s0(1) by (simp_all add: goes_on_def s1_def sub_def src_bytes_def)
      then have "child s s1 sub"
        using wf n b0 b1 left src_len_wf [OF assms(1)] by (auto simp: child_def goes_on_def)
      moreover have "pb_make_string_substream s = Some (Some sub, s1)"
        using Some rd False by (simp add: pb_make_string_substream_def s0_def [symmetric] sub_def s1_def)
      ultimately show ?thesis using assms(3) by simp
    qed
  qed
qed

lemma safely_close:
  assumes "child s s1 sub" "goes_on sub sub'" "\<And>r s'. goes_on s s' \<Longrightarrow> Q r s' d"
  shows "safely s Q (keeping d (pb_close_string_substream s1 sub'))"
proof -
  define t where "t = (if bytes_left sub' \<noteq> 0 then advance (unat (bytes_left sub')) sub' else sub')"
  have wf: "wf_istream sub'" using assms(2) by (rule goes_on_wf)
  have "goes_on sub' t" using wf by (auto intro: goes_on_advance goes_on_refl simp: length_pending t_def)
  then have on: "goes_on sub t" using assms(2) goes_on_trans by blast
  have zero: "unat (bytes_left t) = 0"
    using bytes_left_advance [OF wf, of "unat (bytes_left sub')"] wf by (auto simp: length_pending t_def)
  define s2 where "s2 = s1\<lparr>source := source t, ierrmsg := ierrmsg t\<rparr>"
  have len: "src_len s2 = src_len t" "bytes_left s2 = bytes_left s1" "source s2 = source t"
    by (simp_all add: src_len_def s2_def)
  have "src_len sub - unat (bytes_left sub) \<le> src_len t" using on zero by (simp add: goes_on_def)
  then have room: "src_len s - unat (bytes_left s) + unat (bytes_left s1) \<le> src_len s2"
    using assms(1) len by (simp add: child_def)
  have "wf_istream t" using on by (rule goes_on_wf)
  then obtain bs where "source t = Buf_read bs" by (auto simp: wf_istream_def split: pb_source.splits)
  then have "wf_istream s2" using room len by (simp add: wf_istream_def src_len_def)
  moreover have "suffix (src_bytes s2) (src_bytes s)"
    using assms(1) on len(3) suffix_order.trans by (auto simp: goes_on_def child_def src_bytes_def)
  ultimately have "goes_on s s2" using room assms(1) len by (auto simp: goes_on_def child_def)
  moreover have "pb_close_string_substream s1 sub' = pb_ok s2"
    using wf by (simp add: pb_close_string_substream_def pb_skip_wf length_pending s2_def t_def)
  ultimately show ?thesis using assms(3) by (simp add: safelyI)
qed

subsection \<open>Every type of item\<close>

text \<open>
  What a field needs of the functions for its submessage, for streams with at most \<open>B\<close> bytes left, and default
  values for the messages \<open>N\<close>.  This is the interface between one level of a message and the next.
\<close>

definition callees_ok :: "'s pb_env \<Rightarrow> (nat \<Rightarrow> bool) \<Rightarrow> (nat \<Rightarrow> cell list \<Rightarrow> bool) \<Rightarrow> nat \<Rightarrow> 's pb_callees \<Rightarrow> bool" where
  "callees_ok env N sub B calls \<longleftrightarrow> (\<forall>d cs. layout_fits (messages env d) (length cs) \<longrightarrow>
     (N d \<and> plain cs \<longrightarrow> (\<exists>cs'. set_defaults calls d cs = Some cs' \<and> length cs' = length cs \<and> plain cs' \<and> sub d cs')) \<and>
     (sub d cs \<longrightarrow> (\<exists>cs'. release_message calls d cs = Some cs' \<and> length cs' = length cs \<and> plain cs' \<and> sub d cs')) \<and>
     (\<forall>s. sub d cs \<and> wf_istream s \<and> unat (bytes_left s) \<le> B \<longrightarrow>
        safely s (\<lambda>r s' cs'. length cs' = length cs \<and> sub d cs') (decode_message calls d cs s)))"

lemma callees_okD:
  assumes "callees_ok env N sub B calls" "layout_fits (messages env d) (length cs)"
  shows "N d \<Longrightarrow> plain cs \<Longrightarrow> \<exists>cs'. set_defaults calls d cs = Some cs' \<and> length cs' = length cs \<and> plain cs' \<and> sub d cs'"
    "sub d cs \<Longrightarrow> \<exists>cs'. release_message calls d cs = Some cs' \<and> length cs' = length cs \<and> plain cs' \<and> sub d cs'"
    "sub d cs \<Longrightarrow> wf_istream s \<Longrightarrow> unat (bytes_left s) \<le> B \<Longrightarrow>
       safely s (\<lambda>r s' cs'. length cs' = length cs \<and> sub d cs') (decode_message calls d cs s)"
  using assms unfolding callees_ok_def by blast+

text \<open>A message that could not be decoded is released.\<close>

lemma decode_with_safe:
  assumes "callees_ok env (\<lambda>_. True) sub B calls" "layout_fits (messages env d) (length cs)" "plain cs" "wf_istream s"
    "unat (bytes_left s) \<le> B"
  shows "safely s (\<lambda>r s' cs'. length cs' = length cs \<and> sub d cs' \<and> (r = None \<longrightarrow> plain cs')) (pb_decode_with calls d cs s)"
proof -
  from callees_okD(1) [OF assms(1,2) TrueI assms(3)] obtain c1 where c1: "set_defaults calls d cs = Some c1" "length c1 = length cs" "sub d c1"
    by blast
  with assms(2) have fits: "layout_fits (messages env d) (length c1)" by simp
  from callees_okD(3) [OF assms(1) fits c1(3) assms(4,5)] obtain r s' c2 where
    c2: "decode_message calls d c1 s = Some (r, s', c2)" "goes_on s s'" "length c2 = length cs" "sub d c2"
    using c1(2) by (auto simp: safely_def)
  show ?thesis
  proof (cases r)
    case None
    from c2(3) assms(2) have "layout_fits (messages env d) (length c2)" by simp
    from callees_okD(2) [OF assms(1) this c2(4)] None c1 c2 show ?thesis
      by (auto simp: pb_decode_with_def intro: safelyI)
  next
    case (Some v)
    with c1 c2 show ?thesis by (simp add: pb_decode_with_def safelyI)
  qed
qed

lemma dec_submessage_safe:
  assumes ok: "callees_ok env (\<lambda>_. True) sub B calls" and fits: "layout_fits (messages env d) (length cs)"
    and f: "field_ptr f = Fields d" and cs: "sub d cs" "is_repeated f \<Longrightarrow> plain cs"
    and s: "wf_istream s" "unat (bytes_left s) \<le> Suc B"
  shows "safely s (\<lambda>r s' cs'. length cs' = length cs \<and> sub d cs') (pb_dec_submessage calls f cs s)"
  unfolding pb_dec_submessage_def
proof (rule safely_substream [OF s(1)])
  show "length cs = length cs \<and> sub d cs" using cs by simp
next
  fix sub_s s1
  assume child: "child s s1 sub_s"
  then have sub_s: "wf_istream sub_s" "unat (bytes_left sub_s) \<le> B" using s(2) by (auto simp: child_def)
  have "safely sub_s (\<lambda>r s' cs'. length cs' = length cs \<and> sub d cs')
      (if is_repeated f then pb_decode_with calls d cs sub_s else decode_message calls d cs sub_s)"
    using decode_with_safe [OF ok fits _ sub_s] callees_okD(3) [OF ok fits cs(1) sub_s] cs(2)
    by (auto elim: safely_mono)
  then obtain r s2 c where *: "(if is_repeated f then pb_decode_with calls d cs sub_s else decode_message calls d cs sub_s)
      = Some (r, s2, c)" "goes_on sub_s s2" "length c = length cs" "sub d c"
    by (auto simp: safely_def)
  have "safely s (\<lambda>r s' cs'. length cs' = length cs \<and> sub d cs')
      (pb_then (keeping c (pb_close_string_substream s1 s2)) (\<lambda>_ st. Some (r, st)))"
    by (rule safely_then [OF safely_close [OF child *(2), where Q = "\<lambda>_ _ d. d = c"]])
      (auto simp: * safelyI goes_on_refl dest: goes_on_wf)
  then show "safely s (\<lambda>r s' cs'. length cs' = length cs \<and> sub d cs')
     (case (s1, cs) of (s, dest) \<Rightarrow>
        (case field_ptr f of Null_ptr \<Rightarrow> dec_error (s, dest) ''invalid field descriptor''
        | Fields d \<Rightarrow>
            (case if is_repeated f then pb_decode_with calls d dest sub_s else decode_message calls d dest sub_s of
               None \<Rightarrow> None
             | Some (status, substream, dest) \<Rightarrow>
                 pb_then (keeping dest (pb_close_string_substream s substream)) (\<lambda>_ st. Some (status, st)))
        | Default x \<Rightarrow> None))"
    using * f by simp
qed

lemma ltype_cases:
  assumes "field_ok f"
  shows "ltype f \<in> {PB_LTYPE_VARINT, PB_LTYPE_UVARINT, PB_LTYPE_SVARINT} \<or> ltype f = PB_LTYPE_BOOL \<or>
    ltype f = PB_LTYPE_FIXED32 \<or> ltype f = PB_LTYPE_FIXED64 \<or> is_text f \<or> is_sub f \<or> ltype f = PB_LTYPE_FIXED_LENGTH_BYTES"
proof (cases "ltype f = PB_LTYPE_FIXED_LENGTH_BYTES")
  case False
  with assms have "unat (ltype f) \<le> 8" by (auto simp: field_ok_def word_le_nat_alt pb_ltypes)
  then have "unat (ltype f) \<in> {0, 1, 2, 3, 4, 5, 6, 7, 8}" by auto
  moreover have "ltype f = word_of_nat (unat (ltype f))" by simp
  ultimately show ?thesis by (auto simp: pb_ltypes is_text_def simp del: of_nat_unat)
qed simp

lemma field_okD:
  assumes "field_ok f"
  shows "is_static f \<or> is_pointer f" "0 < data_size f" "ltype f = PB_LTYPE_BOOL \<Longrightarrow> data_size f = 1"
    "ltype f = PB_LTYPE_FIXED32 \<Longrightarrow> data_size f = 4" "ltype f = PB_LTYPE_FIXED64 \<Longrightarrow> data_size f = 8"
    "ltype f \<in> {PB_LTYPE_VARINT, PB_LTYPE_UVARINT, PB_LTYPE_SVARINT} \<Longrightarrow> data_size f \<in> {1, 2, 4, 8}"
    "is_pointer f \<Longrightarrow> is_text f \<Longrightarrow> is_repeated f \<Longrightarrow> data_size f = 8"
    "is_sub f \<Longrightarrow> \<exists>d. field_ptr f = Fields d" "is_sub f \<Longrightarrow> is_static f \<Longrightarrow> \<not> is_repeated f"
    "htype f = PB_HTYPE_REQUIRED \<or> htype f = PB_HTYPE_OPTIONAL \<and> is_pointer f \<Longrightarrow> size_offset f = 0"
    "is_oneof f \<or> is_repeated f \<and> is_pointer f \<Longrightarrow> size_offset f \<noteq> 0"
    "is_static f \<Longrightarrow> is_repeated f \<Longrightarrow> unat (data_size f) * unat (array_size f) < 2 ^ 32"
    "is_static f \<Longrightarrow> is_repeated f \<Longrightarrow> size_offset f = 0 \<Longrightarrow> 4 \<le> unat (data_size f) * unat (array_size f)"
  using assms unfolding field_ok_def by blast+

lemma decoder_of:
  "ltype f = PB_LTYPE_BOOL \<Longrightarrow> pb_decoder al calls f = on_plain pb_dec_bool"
  "ltype f = PB_LTYPE_VARINT \<Longrightarrow> pb_decoder al calls f = on_plain (pb_dec_varint f)"
  "ltype f = PB_LTYPE_UVARINT \<Longrightarrow> pb_decoder al calls f = on_plain (pb_dec_uvarint f)"
  "ltype f = PB_LTYPE_SVARINT \<Longrightarrow> pb_decoder al calls f = on_plain (pb_dec_svarint f)"
  "ltype f = PB_LTYPE_FIXED32 \<Longrightarrow> pb_decoder al calls f = on_plain pb_dec_fixed32"
  "ltype f = PB_LTYPE_FIXED64 \<Longrightarrow> pb_decoder al calls f = on_plain pb_dec_fixed64"
  "ltype f = PB_LTYPE_BYTES \<Longrightarrow> pb_decoder al calls f = on_member (pb_dec_bytes al f) f"
  "ltype f = PB_LTYPE_STRING \<Longrightarrow> pb_decoder al calls f = on_member (pb_dec_string al f) f"
  "is_sub f \<Longrightarrow> pb_decoder al calls f = pb_dec_submessage calls f"
  "ltype f = PB_LTYPE_FIXED_LENGTH_BYTES \<Longrightarrow> pb_decoder al calls f = on_plain (pb_dec_fixed_length_bytes f)"
  by (simp_all add: pb_decoder_def pb_ltypes)

lemma field_ok_size: "field_ok f \<Longrightarrow> item_size f = unat (data_size f)"
  by (auto simp: field_ok_def item_size_def)

lemma decoder_safe:
  assumes ok: "callees_ok env (\<lambda>_. True) sub B calls" and f: "field_ok f" "\<not> (is_pointer f \<and> is_text f)"
    and fits: "\<And>d. is_sub f \<Longrightarrow> field_ptr f = Fields d \<Longrightarrow> layout_fits (messages env d) (unat (data_size f))"
    and cs: "item_ok sub f cs" "length cs = unat (data_size f)" "is_sub f \<Longrightarrow> is_repeated f \<Longrightarrow> plain cs"
    and s: "wf_istream s" "unat (bytes_left s) \<le> Suc B"
  shows "safely s (\<lambda>r s' cs'. length cs' = length cs \<and> item_ok sub f cs' \<and>
      (ltype f \<le> PB_LTYPE_LAST_PACKABLE \<and> r \<noteq> None \<longrightarrow> unat (bytes_left s') < unat (bytes_left s)))
    (pb_decoder al calls f cs s)"
proof -
  have scalar: "safely s (\<lambda>r s' cs'. length cs' = length cs \<and> item_ok sub f cs' \<and>
      (ltype f \<le> PB_LTYPE_LAST_PACKABLE \<and> r \<noteq> None \<longrightarrow> unat (bytes_left s') < unat (bytes_left s))) (on_plain dec cs s)"
    if "scalar_safe (unat (data_size f)) dec" "\<not> is_sub f" for dec
  proof -
    from that have "safely s (\<lambda>r s' bs. length bs = length cs \<and> (r \<noteq> None \<longrightarrow> unat (bytes_left s') < unat (bytes_left s)))
        (dec (map cell_byte cs) s)"
      using s(1) cs(2) by (auto simp: scalar_safe_def)
    with safely_on_plain [OF s(1), of cs "\<lambda>r s'. r \<noteq> None \<longrightarrow> unat (bytes_left s') < unat (bytes_left s)" dec] that cs(1)
    show ?thesis by (auto simp: item_ok_def elim: safely_mono)
  qed
  have keeps: "safely s (\<lambda>r s' cs'. length cs' = length cs \<and> item_ok sub f cs' \<and>
      (ltype f \<le> PB_LTYPE_LAST_PACKABLE \<and> r \<noteq> None \<longrightarrow> unat (bytes_left s') < unat (bytes_left s))) m"
    if "safely s (\<lambda>r s' cs'. length cs' = length cs \<and> plain cs') m" "\<not> is_sub f" "\<not> ltype f \<le> PB_LTYPE_LAST_PACKABLE" for m :: "(unit, 'a pb_state) pb_result"
    by (rule safely_mono [OF that(1)]) (use that in \<open>auto simp: item_ok_def\<close>)
  consider (num) "ltype f \<in> {PB_LTYPE_VARINT, PB_LTYPE_UVARINT, PB_LTYPE_SVARINT}"
    | (bool) "ltype f = PB_LTYPE_BOOL" | (fixed32) "ltype f = PB_LTYPE_FIXED32" | (fixed64) "ltype f = PB_LTYPE_FIXED64"
    | (string) "is_text f" | (sub) "is_sub f" | (bytes) "ltype f = PB_LTYPE_FIXED_LENGTH_BYTES"
    using ltype_cases [OF f(1)] by (elim disjE)
  then show ?thesis
  proof cases
    case num
    then have n: "\<not> is_sub f" by (auto simp: pb_ltypes)
    note n_safe = scalar_safe_varints [OF field_okD(6) [OF f(1) num] refl]
    from num consider "ltype f = PB_LTYPE_VARINT" | "ltype f = PB_LTYPE_UVARINT" | "ltype f = PB_LTYPE_SVARINT" by auto
    then show ?thesis
    proof cases
      case 1
      show ?thesis unfolding decoder_of(2) [OF 1] by (rule scalar [OF n_safe(1) n])
    next
      case 2
      show ?thesis unfolding decoder_of(3) [OF 2] by (rule scalar [OF n_safe(2) n])
    next
      case 3
      show ?thesis unfolding decoder_of(4) [OF 3] by (rule scalar [OF n_safe(3) n])
    qed
  next
    case bool
    then have n: "\<not> is_sub f" by (simp add: pb_ltypes)
    show ?thesis unfolding decoder_of(1) [OF bool]
      by (rule scalar) (use field_okD(3) [OF f(1) bool] scalar_safe_bool n in simp_all)
  next
    case fixed32
    then have n: "\<not> is_sub f" by (simp add: pb_ltypes)
    show ?thesis unfolding decoder_of(5) [OF fixed32]
      by (rule scalar) (use field_okD(4) [OF f(1) fixed32] scalar_safe_fixed n in simp_all)
  next
    case fixed64
    then have n: "\<not> is_sub f" by (simp add: pb_ltypes)
    show ?thesis unfolding decoder_of(6) [OF fixed64]
      by (rule scalar) (use field_okD(5) [OF f(1) fixed64] scalar_safe_fixed n in simp_all)
  next
    case string
    then have n: "\<not> is_sub f" "\<not> ltype f \<le> PB_LTYPE_LAST_PACKABLE" by (auto simp: is_text_def pb_ltypes PB_LTYPE_LAST_PACKABLE_def)
    with string f(2) cs s(1) keeps [OF safely_inline(1)] keeps [OF safely_inline(2)] show ?thesis
      by (auto simp: is_text_def decoder_of item_ok_def)
  next
    case sub
    then obtain d where d: "field_ptr f = Fields d" using field_okD(8) [OF f(1)] by blast
    have "layout_fits (messages env d) (length cs)" "sub d cs" using fits [OF sub d] cs sub d by (auto simp: item_ok_def)
    from dec_submessage_safe [OF ok this(1) d this(2) cs(3) [OF sub] s] sub d show ?thesis
      by (auto simp: decoder_of item_ok_def PB_LTYPE_LAST_PACKABLE_def pb_ltypes elim: safely_mono)
  next
    case bytes
    then have n: "\<not> is_sub f" "\<not> ltype f \<le> PB_LTYPE_LAST_PACKABLE" by (auto simp: pb_ltypes PB_LTYPE_LAST_PACKABLE_def)
    then have "plain cs" using cs(1) by (simp add: item_ok_def)
    with safely_fixed_length [OF s(1), of "map cell_byte cs" f] cs(2)
      safely_on_plain [OF s(1), of cs "\<lambda>_ _. True" "pb_dec_fixed_length_bytes f"] bytes n keeps
    show ?thesis by (simp add: decoder_of)
  qed
qed

end
