(* ===== verification/Pb_Safe_Field.thy ===== *)
theory Pb_Safe_Field
  imports Pb_Safe
begin

text \<open>
  Decoding a single field of a well-typed message: \<open>decode_static_field\<close>, \<open>decode_pointer_field\<close> and the release
  of a field keep the message well-typed.
\<close>

section \<open>The slot of a field\<close>

text \<open>What one level of a message needs: the callees, the descriptor, a structure of \<open>n\<close> bytes, and an
  allocator that grants less than \<open>2 ^ 32\<close> bytes (offsets in an array have 32 bits).\<close>

definition level_ok :: "'s pb_env \<Rightarrow> (nat \<Rightarrow> bool) \<Rightarrow> (nat \<Rightarrow> cell list \<Rightarrow> bool) \<Rightarrow> nat \<Rightarrow> 's pb_callees \<Rightarrow> pb_field list \<Rightarrow> nat \<Rightarrow> bool" where
  "level_ok env N sub B calls fs n \<longleftrightarrow>
     callees_ok env N sub B calls \<and> layout_fits fs n \<and>
     (\<forall>f\<in>set fs. field_ok f \<and>
        (\<forall>d. is_sub f \<and> field_ptr f = Fields d \<longrightarrow> layout_fits (messages env d) (unat (data_size f)))) \<and>
     (\<forall>m. malloc_ok (allocs env) m \<longrightarrow> m < 2 ^ 32)"

lemma level_okD:
  assumes "level_ok env N sub B calls fs n"
  shows "callees_ok env N sub B calls" "layout_fits fs n" "tagged_fields fs"
    "i < length fs \<Longrightarrow> field_ok (fs ! i)"
    "i < length fs \<Longrightarrow> is_sub (fs ! i) \<Longrightarrow> field_ptr (fs ! i) = Fields d \<Longrightarrow>
       layout_fits (messages env d) (unat (data_size (fs ! i)))"
    "malloc_ok (allocs env) m \<Longrightarrow> m < 2 ^ 32"
proof -
  have l: "layout_fits fs n" using assms by (simp add: level_ok_def)
  then show "layout_fits fs n" .
  from l show "tagged_fields fs" unfolding layout_fits_def by blast
qed (use assms in \<open>auto simp: level_ok_def\<close>)

text \<open>The field is there: in a union it is the one that \<open>which\<close> names.\<close>

definition current :: "pb_field list \<Rightarrow> nat \<Rightarrow> cell list \<Rightarrow> bool" where
  "current fs i mem \<longleftrightarrow> (is_oneof (fs ! i) \<longrightarrow> load_size (size_at fs i) mem = Some (field_tag (fs ! i)))"

definition holds :: "(nat \<Rightarrow> cell list \<Rightarrow> bool) \<Rightarrow> pb_field list \<Rightarrow> nat \<Rightarrow> cell list \<Rightarrow> nat \<Rightarrow> cell list \<Rightarrow> bool" where
  "holds sub fs i mem k cs \<longleftrightarrow>
     window (data_at fs i) (data_len (fs ! i)) mem = Some cs \<and> count_at fs i mem = Some k \<and> value_ok sub (fs ! i) k cs \<and>
     plain_at (data_at fs i + int (data_len (fs ! i))) (slot_len fs i - data_len (fs ! i)) mem \<and>
     plain_at (size_at fs i) (size_len (fs ! i)) mem \<and> current fs i mem"

lemma window_split:
  "window off n mem = Some cs \<Longrightarrow> m \<le> n \<Longrightarrow>
   window off m mem = Some (take m cs) \<and> window (off + int m) (n - m) mem = Some (drop m cs)"
  by (auto simp: window_Some nat_add_distrib min_def drop_take add.commute)

lemma window_join:
  "window off m mem = Some cs \<Longrightarrow> window (off + int m) (n - m) mem = Some ds \<Longrightarrow> m \<le> n \<Longrightarrow>
   window off n mem = Some (cs @ ds)"
proof -
  assume w: "window off m mem = Some cs" "window (off + int m) (n - m) mem = Some ds" "m \<le> n"
  have "take (m + (n - m)) (drop (nat off) mem) = take m (drop (nat off) mem) @ take (n - m) (drop m (drop (nat off) mem))"
    by (rule take_add)
  with w show ?thesis by (auto simp: window_Some nat_add_distrib add.commute)
qed

lemma entry_ok_current:
  assumes "i < length fs" "current fs i mem"
  shows "entry_ok sub fs i mem \<longleftrightarrow> (\<exists>k cs. holds sub fs i mem k cs)"
proof
  have len: "data_len (fs ! i) \<le> slot_len fs i" using assms(1) by (intro slot_len_ge) simp_all
  {
    assume "entry_ok sub fs i mem"
    then obtain cs where w: "window (data_at fs i) (slot_len fs i) mem = Some cs"
      and ok: "plain_at (size_at fs i) (size_len (fs ! i)) mem"
        "if is_oneof (fs ! i) then \<exists>which. load_size (size_at fs i) mem = Some which \<and> union_ok sub fs i which cs
         else \<exists>k. count_at fs i mem = Some k \<and> value_ok sub (fs ! i) k cs"
      by (auto simp: entry_ok_def)
    from window_split [OF w len] have s: "window (data_at fs i) (data_len (fs ! i)) mem = Some (take (data_len (fs ! i)) cs)"
      "window (data_at fs i + int (data_len (fs ! i))) (slot_len fs i - data_len (fs ! i)) mem = Some (drop (data_len (fs ! i)) cs)"
      by auto
    show "\<exists>k cs. holds sub fs i mem k cs"
    proof (cases "is_oneof (fs ! i)")
      case True
      with ok assms(2) s show ?thesis by (auto simp: holds_def current_def count_at_def union_ok_def plain_at_def)
    next
      case False
      then have "slot_len fs i = data_len (fs ! i)" using slot_len_single assms(1) by blast
      moreover from this length_window [OF w] have "take (data_len (fs ! i)) cs = cs" "drop (data_len (fs ! i)) cs = []" by simp_all
      ultimately show ?thesis using False ok assms(2) s by (auto simp: holds_def current_def plain_at_def)
    qed
  }
  {
    assume "\<exists>k cs. holds sub fs i mem k cs"
    then obtain k cs ds where h: "window (data_at fs i) (data_len (fs ! i)) mem = Some cs" "count_at fs i mem = Some k"
      "value_ok sub (fs ! i) k cs" "plain_at (size_at fs i) (size_len (fs ! i)) mem" "plain ds"
      "window (data_at fs i + int (data_len (fs ! i))) (slot_len fs i - data_len (fs ! i)) mem = Some ds"
      by (auto simp: holds_def plain_at_def)
    from window_join [OF h(1,6) len] length_window [OF h(1)] length_window [OF h(6)] h assms(2) slot_len_single [OF assms(1)]
    show "entry_ok sub fs i mem"
      by (auto simp: entry_ok_def current_def count_at_def union_ok_def)
  }
qed

lemma wt_holds:
  assumes "wt_fields sub fs mem" "i < length fs" "current fs i mem"
  obtains k cs where "holds sub fs i mem k cs"
  using assms entry_ok_current [OF assms(2,3), of sub] by (auto simp: wt_fields_def)

lemma holds_wt:
  assumes "wt_fields sub fs mem" "layout_fits fs (length mem)" "i < length fs" "agree (span fs i) mem mem'"
    "holds sub fs i mem' k cs"
  shows "wt_fields sub fs mem'"
proof (rule wt_fields_update [OF assms(1-4)])
  have cur: "current fs i mem'" using assms(5) by (simp add: holds_def)
  with entry_ok_current [OF assms(3) cur, of sub] assms(5) show "entry_ok sub fs i mem'" by blast
  from cur show "is_oneof (fs ! i) \<Longrightarrow> load_size (size_at fs i) mem' = Some (field_tag (fs ! i))" by (simp add: current_def)
qed

text \<open>A field whose type does not depend on \<open>pSize\<close> has no count.\<close>

lemma count_0: "\<not> (is_repeated (fs ! i) \<and> is_pointer (fs ! i)) \<Longrightarrow> count_at fs i mem = Some 0"
  by (auto simp: count_at_def)

section \<open>Storing into a slot\<close>

lemma span_data: "extent (data_at fs i) (slot_len fs i) \<subseteq> span fs i" and span_size: "extent (size_at fs i) (size_len (fs ! i)) \<subseteq> span fs i"
  by (auto simp: span_def)

lemma extent_mono: "m \<le> n \<Longrightarrow> extent off m \<subseteq> extent off n"
  by (auto simp: extent_def)

lemma put_data:
  assumes fits: "layout_fits fs (length mem)" and i: "i < length fs" and len: "length cs = data_len (fs ! i)"
  shows "agree (span fs i) mem (put_window (data_at fs i) cs mem)"
    "window (data_at fs i) (data_len (fs ! i)) (put_window (data_at fs i) cs mem) = Some cs"
    "window (data_at fs i + int (data_len (fs ! i))) (slot_len fs i - data_len (fs ! i)) (put_window (data_at fs i) cs mem) =
       window (data_at fs i + int (data_len (fs ! i))) (slot_len fs i - data_len (fs ! i)) mem"
    "window (size_at fs i) (size_len (fs ! i)) (put_window (data_at fs i) cs mem) = window (size_at fs i) (size_len (fs ! i)) mem"
proof -
  note lay = layout_at [OF fits i]
  have le: "data_len (fs ! i) \<le> slot_len fs i" using i by (intro slot_len_ge) simp_all
  have room: "nat (data_at fs i) + length cs \<le> length mem" using lay(2) le len by simp
  have agree: "agree (extent (data_at fs i) (data_len (fs ! i))) mem (put_window (data_at fs i) cs mem)"
    using agree_put_window [OF room] len by simp
  moreover have "extent (data_at fs i) (data_len (fs ! i)) \<subseteq> span fs i"
    using extent_mono [OF le] span_data by blast
  ultimately show "agree (span fs i) mem (put_window (data_at fs i) cs mem)" by (rule agree_mono)
  show "window (data_at fs i) (data_len (fs ! i)) (put_window (data_at fs i) cs mem) = Some cs"
    using lay(1) room len by simp
  show "window (data_at fs i + int (data_len (fs ! i))) (slot_len fs i - data_len (fs ! i)) (put_window (data_at fs i) cs mem) =
       window (data_at fs i + int (data_len (fs ! i))) (slot_len fs i - data_len (fs ! i)) mem"
    by (rule window_agree [OF agree]) (use lay(1) in \<open>auto simp: extent_def nat_add_distrib\<close>)
  show "window (size_at fs i) (size_len (fs ! i)) (put_window (data_at fs i) cs mem) = window (size_at fs i) (size_len (fs ! i)) mem"
    by (rule window_agree [OF agree]) (use lay(6) extent_mono [OF le, of "data_at fs i"] in auto)
qed

lemma put_size:
  assumes fits: "layout_fits fs (length mem)" and i: "i < length fs" and len: "length cs = size_len (fs ! i)"
  shows "agree (span fs i) mem (put_window (size_at fs i) cs mem)"
    "window (data_at fs i) (slot_len fs i) (put_window (size_at fs i) cs mem) = window (data_at fs i) (slot_len fs i) mem"
    "window (data_at fs i) (data_len (fs ! i)) (put_window (size_at fs i) cs mem) = window (data_at fs i) (data_len (fs ! i)) mem"
    "window (data_at fs i + int (data_len (fs ! i))) (slot_len fs i - data_len (fs ! i)) (put_window (size_at fs i) cs mem) =
       window (data_at fs i + int (data_len (fs ! i))) (slot_len fs i - data_len (fs ! i)) mem"
    "window (size_at fs i) (size_len (fs ! i)) (put_window (size_at fs i) cs mem) = Some cs"
proof -
  note lay = layout_at [OF fits i]
  have le: "data_len (fs ! i) \<le> slot_len fs i" using i by (intro slot_len_ge) simp_all
  have room: "nat (size_at fs i) + length cs \<le> length mem" using lay(4) len by simp
  have agree: "agree (extent (size_at fs i) (size_len (fs ! i))) mem (put_window (size_at fs i) cs mem)"
    using agree_put_window [OF room] len by simp
  from agree_mono [OF this span_size] show "agree (span fs i) mem (put_window (size_at fs i) cs mem)" .
  show "window (data_at fs i) (slot_len fs i) (put_window (size_at fs i) cs mem) = window (data_at fs i) (slot_len fs i) mem"
    by (rule window_agree [OF agree]) (use lay(6) in auto)
  show "window (data_at fs i) (data_len (fs ! i)) (put_window (size_at fs i) cs mem) = window (data_at fs i) (data_len (fs ! i)) mem"
    by (rule window_agree [OF agree]) (use lay(6) extent_mono [OF le, of "data_at fs i"] in auto)
  show "window (data_at fs i + int (data_len (fs ! i))) (slot_len fs i - data_len (fs ! i)) (put_window (size_at fs i) cs mem) =
       window (data_at fs i + int (data_len (fs ! i))) (slot_len fs i - data_len (fs ! i)) mem"
    by (rule window_agree [OF agree]) (use lay(1,6) in \<open>auto simp: extent_def nat_add_distrib disjoint_iff\<close>)
  show "window (size_at fs i) (size_len (fs ! i)) (put_window (size_at fs i) cs mem) = Some cs"
    using lay(3) room len by simp
qed

lemma put_data_holds:
  assumes "layout_fits fs (length mem)" "i < length fs" "holds sub fs i mem k cs"
    "length cs' = data_len (fs ! i)" "value_ok sub (fs ! i) k cs'"
  shows "holds sub fs i (put_window (data_at fs i) cs' mem) k cs'"
proof -
  note put = put_data [OF assms(1,2,4)]
  have "load_size (size_at fs i) (put_window (data_at fs i) cs' mem) = load_size (size_at fs i) mem" if "size_len (fs ! i) = 4"
    using put(4) that by (simp add: load_size_def load_bytes_def)
  with put assms(3,5) show ?thesis
    by (auto simp: holds_def plain_at_def current_def count_at_def size_len_def)
qed

lemma put_data_wt:
  assumes "layout_fits fs (length mem)" "i < length fs" "holds sub fs i mem k cs" "wt_fields sub fs mem"
    "length cs' = data_len (fs ! i)" "value_ok sub (fs ! i) k cs'"
  shows "wt_fields sub fs (put_window (data_at fs i) cs' mem) \<and> length (put_window (data_at fs i) cs' mem) = length mem"
  using holds_wt [OF assms(4,1,2) put_data(1) [OF assms(1,2,5)] put_data_holds [OF assms(1,2,3,5,6)]]
    agree_length [OF put_data(1) [OF assms(1,2,5)]] by simp

lemma safely_window:
  assumes "window p m mem = Some cs"
    "safely s (\<lambda>r s' cs'. length cs' = m \<and> Q r s' (put_window p cs' mem)) (f cs s)"
  shows "safely s Q (in_window p m f (s, mem))"
  using assms by (auto simp: in_window_def safely_def)

lemma put_window_nested:
  assumes "window off n mem = Some cs" "0 \<le> p" "nat p + length ds \<le> n"
  shows "put_window (off + p) ds mem = put_window off (put_window p ds cs) mem"
proof -
  from assms(1) have o: "0 \<le> off" "nat off + n \<le> length mem" "cs = take n (drop (nat off) mem)" "length cs = n"
    by (auto simp: window_Some)
  have room: "nat p + length ds \<le> length cs" using assms(3) o(4) by simp
  have len: "length (put_window p ds cs) = n" using room o(4) by simp
  have off: "nat (off + p) = nat off + nat p" using o(1) assms(2) by (simp add: nat_add_distrib)
  show ?thesis
  proof (rule nth_equalityI)
    show "length (put_window (off + p) ds mem) = length (put_window off (put_window p ds cs) mem)"
      using o assms(3) len off by simp
    fix k assume "k < length (put_window (off + p) ds mem)"
    then have k: "k < length mem" using o assms(3) off by simp
    have 1: "put_window (off + p) ds mem ! k =
      (if nat off + nat p \<le> k \<and> k < nat off + nat p + length ds then ds ! (k - (nat off + nat p)) else mem ! k)"
      using nth_put_window [of "off + p" ds mem k] o assms(3) off k by simp
    have 2: "put_window off (put_window p ds cs) mem ! k =
      (if nat off \<le> k \<and> k < nat off + n then put_window p ds cs ! (k - nat off) else mem ! k)"
      using nth_put_window [of off "put_window p ds cs" mem k] o len k by simp
    have 3: "put_window p ds cs ! (k - nat off) =
      (if nat p \<le> k - nat off \<and> k - nat off < nat p + length ds then ds ! (k - nat off - nat p) else cs ! (k - nat off))"
      if "nat off \<le> k" "k < nat off + n"
      using nth_put_window [OF room, of "k - nat off"] that o(4) by simp
    show "put_window (off + p) ds mem ! k = put_window off (put_window p ds cs) mem ! k"
    proof -
      have "cs ! (k - nat off) = mem ! k" if "nat off \<le> k" "k < nat off + n"
        using that o(2) by (simp add: o(3))
      with 1 2 3 assms(3) show ?thesis by (auto simp: diff_diff_add)
    qed
  qed
qed

lemma plain_put_window: "plain cs \<Longrightarrow> plain ds \<Longrightarrow> plain (put_window p ds cs)"
  by (auto simp: put_window_def)

section \<open>Fields in place\<close>

lemma value_ok_static: "is_static f \<Longrightarrow> value_ok sub f k cs = item_ok sub f cs"
  by (simp add: value_ok_def)

text \<open>Decoding into the slot of a single item.\<close>

lemma item_in_place_safe:
  assumes ok: "level_ok env (\<lambda>_. True) sub B calls fs (length mem)" and i: "i < length fs"
    and f: "is_static (fs ! i)" "\<not> is_repeated (fs ! i)"
    and wt: "wt_fields sub fs mem" "holds sub fs i mem k cs"
    and s: "wf_istream s" "unat (bytes_left s) \<le> Suc B"
  shows "safely s (\<lambda>r s' mem'. length mem' = length mem \<and> wt_fields sub fs mem')
    (in_window (data_at fs i) (item_size (fs ! i)) (pb_decoder al calls (fs ! i)) (s, mem))"
proof -
  note lvl = level_okD [OF ok]
  have size: "item_size (fs ! i) = data_len (fs ! i)" "data_len (fs ! i) = unat (data_size (fs ! i))"
    using field_ok_size [OF lvl(4) [OF i]] f by (simp_all add: data_len_def)
  have w: "window (data_at fs i) (data_len (fs ! i)) mem = Some cs" and cs: "item_ok sub (fs ! i) cs"
    using wt(2) value_ok_static [OF f(1)] by (auto simp: holds_def)
  show ?thesis
    unfolding size(1)
  proof (rule safely_window [OF w], rule safely_mono [OF decoder_safe [OF lvl(1) lvl(4) [OF i] _ lvl(5) [OF i] cs _ _ s]])
    fix r s' cs'
    assume "length cs' = length cs \<and> item_ok sub (fs ! i) cs' \<and>
      (ltype (fs ! i) \<le> PB_LTYPE_LAST_PACKABLE \<and> r \<noteq> None \<longrightarrow> unat (bytes_left s') < unat (bytes_left s))"
    then have "length cs' = data_len (fs ! i)" "value_ok sub (fs ! i) k cs'"
      using length_window [OF w] value_ok_static [OF f(1)] by simp_all
    with put_data_wt [OF lvl(2) i wt(2,1) this]
    show "length cs' = data_len (fs ! i) \<and> length (put_window (data_at fs i) cs' mem) = length mem \<and>
        wt_fields sub fs (put_window (data_at fs i) cs' mem)" by simp
  qed (use f length_window [OF w] size in auto)
qed

text \<open>An array of scalars in place is plain memory; an item inside it may be stored.\<close>

lemma array_item_safe:
  assumes ok: "level_ok env (\<lambda>_. True) sub B calls fs (length mem)" and i: "i < length fs"
    and f: "is_static (fs ! i)" "is_repeated (fs ! i)"
    and wt: "wt_fields sub fs mem" and p: "j < array_size (fs ! i)"
    and s: "wf_istream s" "unat (bytes_left s) \<le> Suc B"
  shows "safely s (\<lambda>r s' mem'. length mem' = length mem \<and> wt_fields sub fs mem' \<and>
      (ltype (fs ! i) \<le> PB_LTYPE_LAST_PACKABLE \<and> r \<noteq> None \<longrightarrow> unat (bytes_left s') < unat (bytes_left s)) \<and>
      window (size_at fs i) (size_len (fs ! i)) mem' = window (size_at fs i) (size_len (fs ! i)) mem)
    (in_window (data_at fs i + uint (data_size (fs ! i) * j)) (item_size (fs ! i)) (pb_decoder al calls (fs ! i)) (s, mem))"
proof -
  note lvl = level_okD [OF ok]
  let ?f = "fs ! i" let ?n = "unat (data_size ?f)" let ?p = "data_size ?f * j"
  note fok = lvl(4) [OF i]
  have ns: "\<not> is_sub ?f" using field_okD(9) [OF fok] f by blast
  have size: "item_size ?f = ?n" "data_len ?f = ?n * unat (array_size ?f)"
    using field_ok_size [OF fok] f by (simp_all add: data_len_def)
  have cur: "current fs i mem" using f by (simp add: current_def)
  from wt_holds [OF wt i cur] obtain k cs where h: "holds sub fs i mem k cs" by blast
  then have w: "window (data_at fs i) (data_len ?f) mem = Some cs" and cs: "plain cs"
    using value_ok_static [OF f(1)] ns by (auto simp: holds_def item_ok_def)
  have "Suc (unat j) \<le> unat (array_size ?f)" using p by (simp add: word_less_nat_alt)
  then have "?n * Suc (unat j) \<le> ?n * unat (array_size ?f)" by (rule mult_le_mono2)
  then have in_array: "?n * unat j + ?n \<le> ?n * unat (array_size ?f)" by simp
  moreover have "?n * unat (array_size ?f) < 2 ^ 32" using field_okD(12) [OF fok] f by blast
  ultimately have p': "unat ?p = ?n * unat j" by (simp add: unat_word_ariths)
  then have up: "nat (uint ?p) = ?n * unat j" by simp
  have at: "window (data_at fs i + uint ?p) ?n mem = window (uint ?p) ?n cs"
    by (rule window_sub [OF w]) (use up in_array size in auto)
  have len: "length cs = ?n * unat (array_size ?f)" using length_window [OF w] size by simp
  then have w': "window (uint ?p) ?n cs = Some (take ?n (drop (?n * unat j) cs))"
    using in_array up by (simp add: window_def)
  have item: "item_ok sub ?f (take ?n (drop (?n * unat j) cs))" "length (take ?n (drop (?n * unat j) cs)) = ?n"
    using cs ns in_array len by (auto simp: item_ok_def)
  show ?thesis
    unfolding size(1)
  proof (rule safely_window [OF at [unfolded w']], rule safely_mono [OF decoder_safe [OF lvl(1) fok _ lvl(5) [OF i] item _ s]])
    fix r s' cs'
    assume q: "length cs' = length (take ?n (drop (?n * unat j) cs)) \<and> item_ok sub ?f cs' \<and>
      (ltype ?f \<le> PB_LTYPE_LAST_PACKABLE \<and> r \<noteq> None \<longrightarrow> unat (bytes_left s') < unat (bytes_left s))"
    then have n: "length cs' = ?n" using item(2) by simp
    define ds where "ds = put_window (uint ?p) cs' cs"
    have ds: "put_window (data_at fs i + uint ?p) cs' mem = put_window (data_at fs i) ds mem"
      unfolding ds_def by (rule put_window_nested [OF w]) (use up in_array n size in auto)
    have "plain ds" using q ns cs by (simp add: ds_def item_ok_def plain_put_window)
    then have ds_ok: "value_ok sub ?f k ds" using value_ok_static [OF f(1)] ns by (simp add: item_ok_def)
    have ds_len: "length ds = data_len ?f" using up in_array n len size by (simp add: ds_def)
    from put_data_wt [OF lvl(2) i h wt ds_len ds_ok] put_data(4) [OF lvl(2) i ds_len] n q
    show "length cs' = ?n \<and> length (put_window (data_at fs i + uint ?p) cs' mem) = length mem \<and>
        wt_fields sub fs (put_window (data_at fs i + uint ?p) cs' mem) \<and>
        (ltype ?f \<le> PB_LTYPE_LAST_PACKABLE \<and> r \<noteq> None \<longrightarrow> unat (bytes_left s') < unat (bytes_left s)) \<and>
        window (size_at fs i) (size_len ?f) (put_window (data_at fs i + uint ?p) cs' mem) = window (size_at fs i) (size_len ?f) mem"
      unfolding ds by simp
  qed (use f ns in auto)
qed

section \<open>Releasing a field\<close>

text \<open>The offset of an element.\<close>

definition elem_at :: "nat \<Rightarrow> nat \<Rightarrow> int" where
  "elem_at n i = int (i * n)"

lemma elem_at_simps [simp]: "nat (elem_at n i) = i * n" "0 \<le> elem_at n i" "elem_at n 0 = 0"
  by (simp_all only: elem_at_def nat_int)

lemma elem_at_Suc: "elem_at n i + int n = elem_at n (Suc i)"
  by (simp add: elem_at_def)

lemma window_element:
  "(Suc i) * unat (data_size f) \<le> length block \<Longrightarrow>
   window (elem_at (unat (data_size f)) i) (unat (data_size f)) block = Some (element f i block)"
  by (simp add: window_def element_def add.commute)

lemma length_element: "(Suc i) * unat (data_size f) \<le> length block \<Longrightarrow> length (element f i block) = unat (data_size f)"
  by (simp add: element_def)

lemma element_put_other:
  assumes "i \<noteq> j" "Suc j * unat (data_size f) \<le> length block" "length cs = unat (data_size f)"
    "Suc i * unat (data_size f) \<le> length block"
  shows "element f i (put_window (elem_at (unat (data_size f)) j) cs block) = element f i block"
proof -
  let ?n = "unat (data_size f)"
  have room: "nat (elem_at ?n j) + length cs \<le> length block" using assms(2,3) by simp
  have "extent (elem_at ?n i) ?n \<inter> extent (elem_at ?n j) (length cs) = {}"
  proof (cases "i < j")
    case True
    then have "Suc i * ?n \<le> j * ?n" by (intro mult_le_mono1) simp
    then show ?thesis by (auto simp: extent_def)
  next
    case False
    then have "Suc j * ?n \<le> i * ?n" using assms(1) by (intro mult_le_mono1) simp
    then show ?thesis using assms(3) by (auto simp: extent_def)
  qed
  from window_agree [OF agree_put_window [OF room] this]
  show ?thesis
    using window_element [OF assms(4)] window_element [of i f "put_window (elem_at ?n j) cs block"] room assms(4)
    by simp
qed

lemma each_item_clears:
  fixes f :: pb_field
  defines "n \<equiv> unat (data_size f)"
  assumes step: "\<And>b i. i < k \<Longrightarrow> Suc i * n \<le> length b \<Longrightarrow> E (element f i b) \<Longrightarrow>
      \<exists>cs. length cs = n \<and> plain cs \<and> g (elem_at n i) b = Some (put_window (elem_at n i) cs b)"
  shows "m + j = k \<Longrightarrow> plain (take (j * n) b) \<Longrightarrow> \<forall>i. j \<le> i \<and> i < k \<longrightarrow> E (element f i b) \<Longrightarrow> plain (drop (k * n) b) \<Longrightarrow>
    k * n \<le> length b \<Longrightarrow> \<exists>b'. each_item g (int n) m (elem_at n j) b = Some b' \<and> plain b' \<and> length b' = length b"
proof (induction m arbitrary: j b)
  case 0
  have "take (j * n) b @ drop (j * n) b = b" by simp
  with 0 have "plain b" by (metis add_0 plain_simps(3))
  then show ?case by simp
next
  case (Suc m)
  then have j: "j < k" by simp
  then have "Suc j * n \<le> k * n" by (intro mult_le_mono1) simp
  then have room: "Suc j * n \<le> length b" using Suc.prems(5) by simp
  with step [OF j this] Suc.prems(3) j obtain cs where
    cs: "length cs = n" "plain cs" "g (elem_at n j) b = Some (put_window (elem_at n j) cs b)" by auto
  let ?b = "put_window (elem_at n j) cs b"
  have len: "length ?b = length b" using cs(1) room by simp
  have b: "?b = take (j * n) b @ cs @ drop (Suc j * n) b" using cs(1) by (simp add: put_window_def add.commute)
  have lt: "length (take (j * n) b) = j * n" using room by simp
  have "plain (take (Suc j * n) ?b)" using b cs lt Suc.prems(2) by simp
  moreover have "\<forall>i. Suc j \<le> i \<and> i < k \<longrightarrow> E (element f i ?b)"
  proof (intro allI impI)
    fix i assume i: "Suc j \<le> i \<and> i < k"
    then have "Suc i * n \<le> k * n" by (intro mult_le_mono1) simp
    with element_put_other [of i j f b cs] i room cs(1) Suc.prems(3,5) show "E (element f i ?b)"
      by (auto simp: n_def)
  qed
  moreover have "plain (drop (k * n) ?b)"
  proof -
    have "drop (k * n) ?b = drop (k * n - Suc j * n) (drop (Suc j * n) b)"
      using b cs(1) lt \<open>Suc j * n \<le> k * n\<close> less_imp_le [OF j] by simp
    also have "\<dots> = drop (k * n) b" using \<open>Suc j * n \<le> k * n\<close> by simp
    finally show ?thesis using Suc.prems(4) by simp
  qed
  ultimately obtain b' where "each_item g (int n) m (elem_at n (Suc j)) ?b = Some b'" "plain b'" "length b' = length b"
    using Suc.IH [of "Suc j" ?b] Suc.prems(1,5) len by auto
  then show ?case using cs(3) by (simp add: elem_at_Suc)
qed

lemma array_cleared:
  assumes "array_ok sub f k block"
    "\<And>b i. Suc i * unat (data_size f) \<le> length b \<Longrightarrow> element_ok sub f (element f i b) \<Longrightarrow>
      \<exists>cs. length cs = unat (data_size f) \<and> plain cs \<and>
        g (elem_at (unat (data_size f)) i) b = Some (put_window (elem_at (unat (data_size f)) i) cs b)"
  shows "\<exists>b'. each_item g (int (unat (data_size f))) k 0 block = Some b' \<and> plain b' \<and> length b' = length block"
  using each_item_clears [where E = "element_ok sub f" and f = f and g = g and k = k and m = k and j = 0 and b = block] assms
  by (simp add: array_ok_def)

lemma free_text:
  assumes "window off 8 b = Some cs" "text_ok cs"
  shows "free_ptr off b = Some (put_window off null_cells b)"
proof -
  from assms(2) obtain p where p: "ptr_of cs = Some p" "\<forall>block. p = Some block \<longrightarrow> plain block" by (auto simp: text_ok_def)
  show ?thesis
  proof (cases p)
    case None
    then have "cs = null_cells" using ptr_of_cases [OF p(1)] by simp
    with assms(1) None p(1) show ?thesis by (simp add: free_ptr_def load_ptr_def put_window_window)
  next
    case (Some block)
    with assms(1) p show ?thesis by (simp add: free_ptr_def load_ptr_def)
  qed
qed

end
