(* ===== verification/Pb_Safe_Release.thy ===== *)
theory Pb_Safe_Release
  imports Pb_Safe_Field
begin

text \<open>
  Releasing a field, and a message: every block is freed once, and plain memory is left.
\<close>

section \<open>Blocks\<close>

definition cells_of :: "cell list option \<Rightarrow> cell list" where
  "cells_of p = (case p of None \<Rightarrow> null_cells | Some block \<Rightarrow> ptr_cells block)"

definition plain_block :: "cell list option \<Rightarrow> bool" where
  "plain_block p \<longleftrightarrow> (\<forall>block. p = Some block \<longrightarrow> plain block)"

lemma cells_of_simps [simp]:
  "cells_of None = null_cells" "cells_of (Some block) = ptr_cells block" "length (cells_of p) = 8"
  "ptr_of (cells_of p) = Some p" "plain (cells_of p) \<longleftrightarrow> p = None"
  by (auto simp: cells_of_def split: option.splits)

lemma plain_block_simps [simp]: "plain_block None" "plain_block (Some block) = plain block"
  by (auto simp: plain_block_def)

lemma ptr_of_cells: "ptr_of cs = Some p \<Longrightarrow> cs = cells_of p"
  by (auto simp: cells_of_def dest: ptr_of_cases)

text \<open>A slot with a pointer.\<close>

abbreviation points_at :: "int \<Rightarrow> cell list option \<Rightarrow> cell list \<Rightarrow> bool" where
  "points_at off p mem \<equiv> window off 8 mem = Some (cells_of p)"

lemma points_at_load: "points_at off p mem \<Longrightarrow> load_ptr off mem = Some p"
  by (simp add: load_ptr_def)

lemma load_points [simp]:
  "window off 8 mem = Some null_cells \<Longrightarrow> load_ptr off mem = Some None"
  "window off 8 mem = Some (ptr_cells block) \<Longrightarrow> load_ptr off mem = Some (Some block)"
  by (simp_all add: load_ptr_def)

lemma points_at_room: "points_at off p mem \<Longrightarrow> 0 \<le> off \<and> nat off + 8 \<le> length mem"
  by (simp add: window_Some)

lemma points_at_put: "points_at off p mem \<Longrightarrow> points_at off q (put_window off (cells_of q) mem)"
  by (drule points_at_room) simp

lemma put_twice: "nat off + length cs \<le> length mem \<Longrightarrow> length ds = length cs \<Longrightarrow>
    put_window off ds (put_window off cs mem) = put_window off ds mem"
  by (simp add: put_window_def)

lemma on_block_points:
  "points_at off (Some block) mem \<Longrightarrow> f block = Some block' \<Longrightarrow>
   on_block off f mem = Some (put_window off (cells_of (Some block')) mem)"
  by (simp add: on_block_def points_at_load)

lemma free_points: "points_at off p mem \<Longrightarrow> plain_block p \<Longrightarrow> free_ptr off mem = Some (put_window off null_cells mem)"
  using put_window_window [of off 8 mem null_cells] by (cases p) (simp_all add: free_ptr_def)

section \<open>The items of a block\<close>

lemma plain_elements:
  "m \<le> k \<Longrightarrow> \<forall>i<k. plain (element f i block) \<Longrightarrow> plain (take (m * unat (data_size f)) block)"
proof (induction m)
  case (Suc m)
  have "take (Suc m * unat (data_size f)) block = take (m * unat (data_size f)) block @ element f m block"
    unfolding element_def mult_Suc by (subst add.commute) (rule take_add)
  with Suc show ?case by simp
qed simp

lemma plain_array:
  assumes "array_ok sub f k block" "\<not> is_text f" "\<not> is_sub f"
  shows "plain block"
proof -
  have "plain (take (k * unat (data_size f)) block)"
    by (rule plain_elements [OF order.refl]) (use assms in \<open>auto simp: array_ok_def element_ok_def item_ok_def\<close>)
  moreover have "plain (drop (k * unat (data_size f)) block)" using assms(1) by (simp add: array_ok_def)
  ultimately show ?thesis by (metis append_take_drop_id plain_simps(3))
qed

lemma array_0: "array_ok sub f 0 block = plain block"
  by (simp add: array_ok_def)

lemma texts_freed:
  assumes "array_ok sub f k block" "is_text f" "data_size f = 8"
  shows "\<exists>block'. each_item free_ptr 8 k 0 block = Some block' \<and> plain block' \<and> length block' = length block"
proof -
  have n: "unat (data_size f) = 8" using assms(3) by simp
  have "\<exists>b'. each_item free_ptr (int (unat (data_size f))) k 0 block = Some b' \<and> plain b' \<and> length b' = length block"
  proof (rule array_cleared [OF assms(1)])
    fix b i assume "Suc i * unat (data_size f) \<le> length b" "element_ok sub f (element f i b)"
    then have "window (elem_at 8 i) 8 b = Some (element f i b)" "text_ok (element f i b)"
      using window_element [of i f b] n assms(2) by (simp_all add: element_ok_def)
    from free_text [OF this] show "\<exists>cs. length cs = unat (data_size f) \<and> plain cs \<and>
        free_ptr (elem_at (unat (data_size f)) i) b = Some (put_window (elem_at (unat (data_size f)) i) cs b)"
      using n by (intro exI [of _ null_cells]) simp
  qed
  then show ?thesis by (simp add: n)
qed

lemma subs_released:
  assumes ok: "callees_ok env N sub B calls" and f: "is_sub f" "field_ptr f = Fields d"
    and fits: "layout_fits (messages env d) (unat (data_size f))"
    and arr: "array_ok sub f k block"
  shows "\<exists>block'. each_item (\<lambda>p mem. case field_ptr f of Fields d \<Rightarrow> on_window p (unat (data_size f)) (release_message calls d) mem | _ \<Rightarrow> None)
      (int (unat (data_size f))) k 0 block = Some block' \<and> plain block' \<and> length block' = length block"
proof (rule array_cleared [OF arr])
  fix b i assume len: "Suc i * unat (data_size f) \<le> length b" and "element_ok sub f (element f i b)"
  then have "sub d (element f i b)" using f by (auto simp: element_ok_def item_ok_def is_text_def pb_ltypes)
  with callees_okD(2) [OF ok, of d "element f i b"] length_element [OF len] fits
  obtain cs where "release_message calls d (element f i b) = Some cs" "length cs = unat (data_size f)" "plain cs" by auto
  with window_element [OF len] f show "\<exists>cs. length cs = unat (data_size f) \<and> plain cs \<and>
      (case field_ptr f of Fields d \<Rightarrow> on_window (elem_at (unat (data_size f)) i) (unat (data_size f)) (release_message calls d) b | _ \<Rightarrow> None) =
        Some (put_window (elem_at (unat (data_size f)) i) cs b)"
    by (intro exI [of _ cs]) (simp add: on_window_def)
qed

section \<open>A field\<close>

text \<open>The pointer of a field and its target.\<close>

lemma holds_pointer:
  assumes "holds sub fs i mem k cs" "is_pointer (fs ! i)"
  obtains p where "points_at (data_at fs i) p mem" "target_ok sub (fs ! i) k p"
  using assms by (auto simp: holds_def value_ok_def data_len_def dest: ptr_of_cells)

lemma size_of_repeated:
  "is_repeated f \<Longrightarrow> is_pointer f \<Longrightarrow> size_len f = 4" "is_oneof f \<Longrightarrow> size_len f = 4"
  by (simp_all add: size_len_def)

lemma iter_simps:
  assumes "tagged_fields fs" "i < length fs"
  shows "iter_field (nth_iter fs i) = fs ! i" "pData (nth_iter fs i) = data_at fs i"
    "size_offset_of (nth_iter fs i) = Some (size_at fs i)" "pSize (nth_iter fs i) = In_struct (size_at fs i)"
    "pos (nth_iter fs i) = i" "field_at fs i = fs ! i"
  using assms by (simp_all add: data_at_def size_offset_of_def pSize_nth_iter)

lemma not_extension: "field_ok f \<Longrightarrow> ltype f \<noteq> PB_LTYPE_EXTENSION"
  by (drule ltype_cases) (auto simp: is_text_def PB_LTYPE_EXTENSION_def pb_ltypes)

lemma count_of:
  assumes "holds sub fs i mem k cs" "is_repeated (fs ! i)" "is_pointer (fs ! i)"
  obtains c where "load_size (size_at fs i) mem = Some c" "unat c = k"
  using assms by (auto simp: holds_def count_at_def)

text \<open>Releasing the items of a field leaves the blocks of strings and the block of the field itself.\<close>

lemma release_items_pointer:
  assumes ok: "level_ok env N sub B calls fs (length mem)" and i: "i < length fs"
    and f: "is_sub (fs ! i)" "is_pointer (fs ! i)"
    and h: "holds sub fs i mem k cs"
  shows "\<exists>p. release_items (release_message calls) (nth_iter fs i) (size_at fs i) mem =
      Some (put_window (data_at fs i) (cells_of p) mem) \<and> plain_block p"
proof -
  note lvl = level_okD [OF ok] note it = iter_simps [OF lvl(3) i]
  let ?f = "fs ! i" let ?n = "unat (data_size ?f)"
  let ?item = "\<lambda>p mem. case field_ptr ?f of Fields d \<Rightarrow> on_window p ?n (release_message calls d) mem | _ \<Rightarrow> None"
  obtain d where d: "field_ptr ?f = Fields d" using field_okD(8) [OF lvl(4) [OF i] f(1)] by blast
  note fits = lvl(5) [OF i f(1) d]
  from holds_pointer [OF h f(2)] obtain p where p: "points_at (data_at fs i) p mem" "target_ok sub ?f k p" .
  have nt: "\<not> is_text ?f" using f(1) by (auto simp: is_text_def pb_ltypes)
  show ?thesis
  proof (cases p)
    case None
    have same: "put_window (data_at fs i) null_cells mem = mem" using p(1) None by (simp add: put_window_window)
    have "release_items (release_message calls) (nth_iter fs i) (size_at fs i) mem = Some mem"
    proof (cases "is_repeated ?f")
      case True
      from count_of [OF h this f(2)] obtain c where "load_size (size_at fs i) mem = Some c" .
      with True f p(1) None show ?thesis by (simp add: release_items_def it Let_def)
    next
      case False
      with f p(1) None show ?thesis by (simp add: release_items_def it Let_def)
    qed
    with same show ?thesis by (intro exI [of _ None]) simp
  next
    case (Some block)
    note p = p [unfolded Some]
    show ?thesis
    proof (cases "is_repeated ?f")
      case True
      with p(2) have "array_ok sub ?f k block" by (simp add: target_ok_def)
      from subs_released [OF lvl(1) f(1) d fits this] obtain block' where
        b: "each_item ?item (int ?n) k 0 block = Some block'" "plain block'" by blast
      from count_of [OF h True f(2)] obtain c where c: "load_size (size_at fs i) mem = Some c" "unat c = k" .
      have "on_block (data_at fs i) (each_item ?item (int ?n) k 0) mem = Some (put_window (data_at fs i) (cells_of (Some block')) mem)"
        by (rule on_block_points [OF p(1)]) (rule b(1))
      with b(2) c True f points_at_load [OF p(1)] show ?thesis
        by (intro exI [of _ "Some block'"]) (simp add: release_items_def it Let_def)
    next
      case False
      with p(2) nt f(1) d have block: "length block = ?n" "sub d block" by (auto simp: target_ok_def item_ok_def)
      with callees_okD(2) [OF lvl(1), of d block] fits obtain block' where
        b: "release_message calls d block = Some block'" "length block' = length block" "plain block'" by auto
      have "each_item ?item (int ?n) 1 0 block = Some block'"
        using b block window_whole [of block] d by (simp add: on_window_def window_whole(2))
      then have "on_block (data_at fs i) (each_item ?item (int ?n) 1 0) mem = Some (put_window (data_at fs i) (cells_of (Some block')) mem)"
        by (intro on_block_points [OF p(1)])
      with b(3) False f points_at_load [OF p(1)] show ?thesis
        by (intro exI [of _ "Some block'"]) (simp add: release_items_def it Let_def del: each_item.simps)
    qed
  qed
qed


text \<open>Then the blocks of strings and the block itself.\<close>

lemma load_size_put:
  assumes "layout_fits fs (length mem)" "i < length fs" "length cs = data_len (fs ! i)" "size_len (fs ! i) = 4"
  shows "load_size (size_at fs i) (put_window (data_at fs i) cs mem) = load_size (size_at fs i) mem"
  using put_data(4) [OF assms(1-3)] assms(4) by (simp add: load_size_def load_bytes_def)

definition zero_size :: "cell list" where
  "zero_size = map Byte (le_bytes 4 0)"

lemma zero_size_simps [simp]: "length zero_size = 4" "plain zero_size"
  by (simp_all add: zero_size_def)

lemma store_zero: "window off 4 mem = Some cs \<Longrightarrow> plain cs \<Longrightarrow> store_size off 0 mem = Some (put_window off zero_size mem)"
  by (simp add: store_size_exact zero_size_def)

lemma load_zero: "window off 4 mem = Some zero_size \<Longrightarrow> load_size off mem = Some 0"
  using load_size_cells [of off mem 0] by (simp add: zero_size_def)

text \<open>What is left of a field that was cleared: its slot, in the given memory or one that differs in it.\<close>

definition cleared :: "pb_field list \<Rightarrow> nat \<Rightarrow> cell list \<Rightarrow> cell list \<Rightarrow> bool" where
  "cleared fs i mem mem' \<longleftrightarrow>
     agree (span fs i) mem mem' \<and> window (data_at fs i) 8 mem' = Some null_cells \<and>
     window (data_at fs i + int (data_len (fs ! i))) (slot_len fs i - data_len (fs ! i)) mem' =
       window (data_at fs i + int (data_len (fs ! i))) (slot_len fs i - data_len (fs ! i)) mem \<and>
     window (size_at fs i) (size_len (fs ! i)) mem' =
       (if is_repeated (fs ! i) then Some zero_size else window (size_at fs i) (size_len (fs ! i)) mem)"

lemma cleared_after_put:
  assumes "layout_fits fs (length mem)" "i < length fs" "data_len (fs ! i) = 8"
    "cleared fs i (put_window (data_at fs i) (cells_of p) mem) mem'"
  shows "cleared fs i mem mem'"
proof -
  have "length (cells_of p) = data_len (fs ! i)" using assms(3) by simp
  note put = put_data [OF assms(1,2) this]
  with assms(4) show ?thesis by (auto simp: cleared_def intro: agree_trans)
qed

text \<open>A pointer that owns plain memory, and a count.\<close>

lemma clear_pointer:
  assumes fits: "layout_fits fs (length mem)" and i: "i < length fs" and ptr: "is_pointer (fs ! i)"
    and p: "points_at (data_at fs i) p mem" "plain_block p" and sz: "plain_at (size_at fs i) (size_len (fs ! i)) mem"
  shows "\<exists>mem'. Option.bind (if is_repeated (fs ! i) then store_size (size_at fs i) 0 mem else Some mem) (free_ptr (data_at fs i)) = Some mem' \<and>
    cleared fs i mem mem'"
proof -
  have len: "data_len (fs ! i) = 8" using ptr by (simp add: data_len_def)
  define mem1 where "mem1 = (if is_repeated (fs ! i) then put_window (size_at fs i) zero_size mem else mem)"
  have store: "(if is_repeated (fs ! i) then store_size (size_at fs i) 0 mem else Some mem) = Some mem1"
    using sz ptr by (auto simp: mem1_def plain_at_def size_of_repeated store_zero)
  have sl: "is_repeated (fs ! i) \<Longrightarrow> length zero_size = size_len (fs ! i)" using ptr by (simp add: size_of_repeated)
  note put1 = put_size [OF fits i sl]
  have mem1: "agree (span fs i) mem mem1" "length mem1 = length mem"
    "window (data_at fs i) (data_len (fs ! i)) mem1 = window (data_at fs i) (data_len (fs ! i)) mem"
    "window (data_at fs i + int (data_len (fs ! i))) (slot_len fs i - data_len (fs ! i)) mem1 =
       window (data_at fs i + int (data_len (fs ! i))) (slot_len fs i - data_len (fs ! i)) mem"
    "window (size_at fs i) (size_len (fs ! i)) mem1 =
       (if is_repeated (fs ! i) then Some zero_size else window (size_at fs i) (size_len (fs ! i)) mem)"
    using put1 agree_length [OF put1(1)] by (simp_all add: mem1_def)
  have "points_at (data_at fs i) p mem1" using p(1) mem1(3) len by simp
  from free_points [OF this p(2)] store
  have "Option.bind (if is_repeated (fs ! i) then store_size (size_at fs i) 0 mem else Some mem) (free_ptr (data_at fs i)) =
      Some (put_window (data_at fs i) null_cells mem1)" by simp
  moreover have "length null_cells = data_len (fs ! i)" using len by simp
  note put2 = put_data [OF _ i this, of mem1, unfolded mem1(2), OF fits]
  have "cleared fs i mem (put_window (data_at fs i) null_cells mem1)"
    using put2 mem1 len by (auto simp: cleared_def intro: agree_trans)
  ultimately show ?thesis by blast
qed

lemma release_blocks_safe:
  assumes fits: "layout_fits fs (length mem)" and i: "i < length fs" and fok: "field_ok (fs ! i)"
    and ptr: "is_pointer (fs ! i)" and p: "points_at (data_at fs i) p mem"
    and sz: "plain_at (size_at fs i) (size_len (fs ! i)) mem"
    and plain: "\<not> (is_repeated (fs ! i) \<and> is_text (fs ! i)) \<Longrightarrow> plain_block p"
    and texts: "is_repeated (fs ! i) \<Longrightarrow> is_text (fs ! i) \<Longrightarrow>
      \<exists>c. load_size (size_at fs i) mem = Some c \<and> target_ok sub (fs ! i) (unat c) p"
  shows "\<exists>mem'. release_blocks (nth_iter fs i) (size_at fs i) mem = Some mem' \<and> cleared fs i mem mem'"
proof -
  note lay = layout_at [OF fits i] note it = iter_simps [OF lay(7) i]
  have len: "data_len (fs ! i) = 8" using ptr by (simp add: data_len_def)
  show ?thesis
  proof (cases "is_repeated (fs ! i) \<and> is_text (fs ! i)")
    case False
    then have "release_blocks (nth_iter fs i) (size_at fs i) mem =
        Option.bind (if is_repeated (fs ! i) then store_size (size_at fs i) 0 mem else Some mem) (free_ptr (data_at fs i))"
      by (auto simp: release_blocks_def it Let_def is_text_def)
    with clear_pointer [OF fits i ptr p plain [OF False] sz] show ?thesis by simp
  next
    case True
    with texts obtain c where c: "load_size (size_at fs i) mem = Some c" "target_ok sub (fs ! i) (unat c) p" by blast
    have ds: "data_size (fs ! i) = 8" using field_okD(7) [OF fok ptr] True by blast
    have "\<exists>q. (if c = 0 then Some mem else on_block (data_at fs i) (each_item free_ptr 8 (unat c) 0) mem) =
        Some (put_window (data_at fs i) (cells_of q) mem) \<and> plain_block q"
    proof (cases p)
      case None
      with c(2) have "c = 0" by (simp add: target_ok_def unat_eq_zero)
      with p None show ?thesis by (intro exI [of _ None]) (simp add: put_window_window)
    next
      case (Some block)
      with c(2) True have arr: "array_ok sub (fs ! i) (unat c) block" by (simp add: target_ok_def)
      from texts_freed [OF this _ ds] True obtain block' where
        b: "each_item free_ptr 8 (unat c) 0 block = Some block'" "plain block'" by blast
      have "on_block (data_at fs i) (each_item free_ptr 8 (unat c) 0) mem = Some (put_window (data_at fs i) (cells_of (Some block')) mem)"
        by (rule on_block_points [OF p [unfolded Some]]) (rule b(1))
      moreover have "block' = block" if "c = 0" using b that by simp
      ultimately show ?thesis using b(2) p Some by (intro exI [of _ "Some block'"]) (auto simp: put_window_window)
    qed
    then obtain q where q: "(if c = 0 then Some mem else on_block (data_at fs i) (each_item free_ptr 8 (unat c) 0) mem) =
        Some (put_window (data_at fs i) (cells_of q) mem)" "plain_block q" by blast
    let ?mem = "put_window (data_at fs i) (cells_of q) mem"
    have "release_blocks (nth_iter fs i) (size_at fs i) mem =
        Option.bind (if is_repeated (fs ! i) then store_size (size_at fs i) 0 ?mem else Some ?mem) (free_ptr (data_at fs i))"
    proof (cases "c = 0")
      case 0: True
      with q(1) have "?mem = mem" by simp
      with True c(1) 0 show ?thesis by (simp add: release_blocks_def it Let_def is_text_def)
    next
      case False
      with True c(1) q(1) show ?thesis by (simp add: release_blocks_def it Let_def is_text_def)
    qed
    moreover have lc: "length (cells_of q) = data_len (fs ! i)" using len by simp
    note put = put_data [OF fits i lc]
    have "length ?mem = length mem" using agree_length [OF put(1)] .
    then have "layout_fits fs (length ?mem)" using fits by simp
    from clear_pointer [OF this i ptr _ q(2)] put(2,4) sz len
    obtain mem' where "Option.bind (if is_repeated (fs ! i) then store_size (size_at fs i) 0 ?mem else Some ?mem) (free_ptr (data_at fs i)) = Some mem'"
      "cleared fs i ?mem mem'" by (auto simp: plain_at_def)
    ultimately show ?thesis using cleared_after_put [OF fits i len] by auto
  qed
qed


text \<open>The whole field: what was current is cleared, and the message is still well-typed.\<close>

lemma cleared_holds:
  assumes "cleared fs i mem mem'" "holds sub fs i mem k cs" "is_pointer (fs ! i)"
  shows "holds sub fs i mem' 0 null_cells"
proof -
  have len: "data_len (fs ! i) = 8" using assms(3) by (simp add: data_len_def)
  have eq: "load_size (size_at fs i) mem' = load_size (size_at fs i) mem" if "is_oneof (fs ! i)"
    using assms(1) that size_of_repeated(2) [OF that] by (auto simp: cleared_def load_size_def load_bytes_def)
  have zero: "load_size (size_at fs i) mem' = Some 0" if "is_repeated (fs ! i)"
    using assms(1) that size_of_repeated(1) [OF that assms(3)] by (auto simp: cleared_def intro: load_zero)
  have "value_ok sub (fs ! i) 0 null_cells" using assms(3) by (simp add: value_ok_def target_ok_def)
  with assms eq zero len show ?thesis
    by (auto simp: cleared_def holds_def plain_at_def count_at_def current_def)
qed

lemma release_field_current:
  assumes ok: "level_ok env N sub B calls fs (length mem)" and i: "i < length fs"
    and h: "holds sub fs i mem k cs"
  shows "\<exists>mem' k' cs'. pb_release_single_field (release_message calls) (nth_iter fs i) mem = Some mem' \<and>
    agree (span fs i) mem mem' \<and> holds sub fs i mem' k' cs' \<and> plain cs' \<and>
    (is_pointer (fs ! i) \<longrightarrow> k' = 0 \<and> cs' = null_cells)"
proof -
  note lvl = level_okD [OF ok] note it = iter_simps [OF lvl(3) i]
  let ?f = "fs ! i" let ?rel = "release_message calls"
  note fok = lvl(4) [OF i]
  have atype: "is_static ?f \<or> is_pointer ?f" using field_okD(1) [OF fok] .
  have cur: "current fs i mem" using h by (simp add: holds_def)
  have release: "pb_release_single_field ?rel (nth_iter fs i) mem =
      Option.bind (if is_sub ?f then release_items ?rel (nth_iter fs i) (size_at fs i) mem else Some mem)
        (\<lambda>mem. if is_pointer ?f then release_blocks (nth_iter fs i) (size_at fs i) mem else Some mem)"
    using cur not_extension [OF fok] atype
    by (auto simp: pb_release_single_field_def it current_def Let_def)
  have sz: "plain_at (size_at fs i) (size_len ?f) mem" using h by (simp add: holds_def)
  show ?thesis
  proof (cases "is_pointer ?f")
    case True
    then have len: "data_len ?f = 8" by (simp add: data_len_def)
    from holds_pointer [OF h True] obtain p where p: "points_at (data_at fs i) p mem" "target_ok sub ?f k p" .
    have "\<exists>mem'. pb_release_single_field ?rel (nth_iter fs i) mem = Some mem' \<and> cleared fs i mem mem'"
    proof (cases "is_sub ?f")
      case False
      have "plain_block p" if "\<not> (is_repeated ?f \<and> is_text ?f)"
        using p(2) that False plain_array [of sub ?f k]
        by (cases p) (auto simp: target_ok_def item_ok_def split: if_splits)
      moreover have "\<exists>c. load_size (size_at fs i) mem = Some c \<and> target_ok sub ?f (unat c) p" if "is_repeated ?f"
        using count_of [OF h that True] p(2) by metis
      ultimately have "\<exists>mem'. release_blocks (nth_iter fs i) (size_at fs i) mem = Some mem' \<and> cleared fs i mem mem'"
        by (intro release_blocks_safe [OF lvl(2) i fok True p(1) sz, where sub = sub])
      then show ?thesis using release False True by simp
    next
      case sub: True
      then have nt: "\<not> is_text ?f" by (auto simp: is_text_def pb_ltypes)
      from release_items_pointer [OF ok i sub True h] obtain q where q:
        "release_items ?rel (nth_iter fs i) (size_at fs i) mem = Some (put_window (data_at fs i) (cells_of q) mem)" "plain_block q"
        by blast
      let ?mem = "put_window (data_at fs i) (cells_of q) mem"
      have lc: "length (cells_of q) = data_len ?f" using len by simp
      note put = put_data [OF lvl(2) i lc]
      have "layout_fits fs (length ?mem)" using lvl(2) agree_length [OF put(1)] by simp
      from release_blocks_safe [OF this i fok True] put(2,4) sz len nt q(2)
      obtain mem' where "release_blocks (nth_iter fs i) (size_at fs i) ?mem = Some mem'" "cleared fs i ?mem mem'"
        by (auto simp: plain_at_def)
      with release sub True q(1) cleared_after_put [OF lvl(2) i len] show ?thesis by auto
    qed
    then obtain mem' where "pb_release_single_field ?rel (nth_iter fs i) mem = Some mem'" "cleared fs i mem mem'" by blast
    with cleared_holds [OF this(2) h True] show ?thesis
      by (intro exI [of _ mem'] exI [of _ 0] exI [of _ null_cells]) (simp add: cleared_def)
  next
    case False
    then have st: "is_static ?f" using atype by simp
    have w: "window (data_at fs i) (data_len ?f) mem = Some cs" and cs: "item_ok sub ?f cs"
      using h value_ok_static [OF st] by (auto simp: holds_def)
    show ?thesis
    proof (cases "is_sub ?f")
      case sub: False
      with release False h cs show ?thesis by (auto simp: item_ok_def)
    next
      case True
      then obtain d where d: "field_ptr ?f = Fields d" "sub d cs" using cs by (auto simp: item_ok_def)
      have nr: "\<not> is_repeated ?f" using field_okD(9) [OF fok True st] .
      then have len: "data_len ?f = unat (data_size ?f)" using False by (simp add: data_len_def)
      have "layout_fits (messages env d) (length cs)" using lvl(5) [OF i True d(1)] length_window [OF w] len by simp
      from callees_okD(2) [OF lvl(1) this d(2)] obtain cs' where
        cs': "?rel d cs = Some cs'" "length cs' = length cs" "plain cs'" "sub d cs'" by blast
      let ?mem = "put_window (data_at fs i) cs' mem"
      have "release_items ?rel (nth_iter fs i) (size_at fs i) mem = Some ?mem"
        using nr False d(1) w len cs'(1) by (simp add: release_items_def it Let_def on_window_def)
      moreover have lc: "length cs' = data_len ?f" using cs'(2) length_window [OF w] by simp
      moreover have "value_ok sub ?f k cs'" using value_ok_static [OF st] True d(1) cs'(4) by (simp add: item_ok_def)
      ultimately show ?thesis
        using put_data(1) [OF lvl(2) i lc] put_data_holds [OF lvl(2) i h lc] release False True cs'(3) by auto
    qed
  qed
qed


section \<open>A message\<close>

lemma each_iter_append: "each_iter f (xs @ ys) mem = Option.bind (each_iter f xs mem) (each_iter f ys)"
  by (induction xs arbitrary: mem) (auto split: bind_splits)

lemma each_iter_fold:
  fixes f :: "pb_iter \<Rightarrow> cell list \<Rightarrow> cell list option"
  assumes "\<And>i mem. i < n \<Longrightarrow> I i mem \<Longrightarrow> \<exists>mem'. f (iter_of i) mem = Some mem' \<and> I (Suc i) mem'" "I 0 mem"
  shows "m \<le> n \<Longrightarrow> \<exists>mem'. each_iter f (map iter_of [0..<m]) mem = Some mem' \<and> I m mem'"
proof (induction m)
  case (Suc m)
  then obtain mem1 where mem1: "each_iter f (map iter_of [0..<m]) mem = Some mem1" "I m mem1" by auto
  from assms(1) [OF _ mem1(2)] Suc.prems obtain mem2 where "f (iter_of m) mem1 = Some mem2" "I (Suc m) mem2" by auto
  with mem1(1) show ?case by (simp add: each_iter_append)
qed (simp add: assms(2))

text \<open>A field that is current has a plain slot.\<close>

definition is_clear :: "pb_field list \<Rightarrow> nat \<Rightarrow> cell list \<Rightarrow> bool" where
  "is_clear fs i mem \<longleftrightarrow> (current fs i mem \<longrightarrow> plain_at (data_at fs i) (slot_len fs i) mem)"

lemma holds_plain_slot:
  assumes "holds sub fs i mem k cs" "plain cs" "i < length fs"
  shows "plain_at (data_at fs i) (slot_len fs i) mem"
proof -
  from assms(1) obtain ds where ds: "plain ds"
    "window (data_at fs i + int (data_len (fs ! i))) (slot_len fs i - data_len (fs ! i)) mem = Some ds"
    "window (data_at fs i) (data_len (fs ! i)) mem = Some cs"
    by (auto simp: holds_def plain_at_def)
  have "data_len (fs ! i) \<le> slot_len fs i" using assms(3) by (intro slot_len_ge) simp_all
  from window_join [OF ds(3,2) this] ds(1) assms(2) show ?thesis by (simp add: plain_at_def)
qed

lemma current_union: "same_union fs i j \<Longrightarrow> tagged_fields fs \<Longrightarrow> i < length fs \<Longrightarrow> j < length fs \<Longrightarrow> i \<noteq> j \<Longrightarrow>
    current fs i mem \<Longrightarrow> \<not> current fs j mem"
  by (auto simp: current_def same_union_def tagged_fields_def distinct_conv_nth)

lemma current_agree:
  assumes "agree X mem mem'" "span fs j \<inter> X = {}"
  shows "current fs j mem' = current fs j mem"
proof -
  have "load_size (size_at fs j) mem' = load_size (size_at fs j) mem" if "is_oneof (fs ! j)"
  proof -
    have "extent (size_at fs j) 4 \<inter> X = {}" using assms(2) size_of_repeated(2) [OF that] by (auto simp: span_def)
    from window_agree [OF assms(1) this] show ?thesis by (simp add: load_size_def load_bytes_def)
  qed
  then show ?thesis by (auto simp: current_def)
qed

lemma is_clear_agree:
  assumes "agree X mem mem'" "span fs j \<inter> X = {}" "is_clear fs j mem"
  shows "is_clear fs j mem'"
proof -
  have "extent (data_at fs j) (slot_len fs j) \<inter> X = {}" using assms(2) by (auto simp: span_def)
  from window_agree [OF assms(1) this] current_agree [OF assms(1,2)] assms(3) show ?thesis
    by (simp add: is_clear_def plain_at_def)
qed

lemma is_clear_release:
  assumes ok: "level_ok env N sub B calls fs (length mem)" and i: "i < length fs" and wt: "wt_fields sub fs mem"
    and clear: "\<forall>j<i. is_clear fs j mem"
  shows "\<exists>mem'. pb_release_single_field (release_message calls) (nth_iter fs i) mem = Some mem' \<and>
    length mem' = length mem \<and> wt_fields sub fs mem' \<and> (\<forall>j<Suc i. is_clear fs j mem')"
proof (cases "current fs i mem")
  case False
  note lvl = level_okD [OF ok] note it = iter_simps [OF lvl(3) i]
  from False have one: "is_oneof (fs ! i)" by (simp add: current_def)
  moreover have "entry_ok sub fs i mem" using wt i by (simp add: wt_fields_def)
  with one obtain w where "load_size (size_at fs i) mem = Some w" by (auto simp: entry_ok_def)
  ultimately have "pb_release_single_field (release_message calls) (nth_iter fs i) mem = Some mem"
    using False by (simp add: pb_release_single_field_def it Let_def current_def)
  moreover have "is_clear fs i mem" using False by (simp add: is_clear_def)
  ultimately show ?thesis using wt clear by (auto simp: less_Suc_eq)
next
  case True
  note lvl = level_okD [OF ok]
  from wt_holds [OF wt i True] obtain k cs where h: "holds sub fs i mem k cs" by blast
  from release_field_current [OF ok i h] obtain mem' k' cs' where
    r: "pb_release_single_field (release_message calls) (nth_iter fs i) mem = Some mem'" "agree (span fs i) mem mem'"
      "holds sub fs i mem' k' cs'" "plain cs'" by blast
  have "wt_fields sub fs mem'" by (rule holds_wt [OF wt lvl(2) i r(2,3)])
  moreover have "is_clear fs j mem'" if le: "j < Suc i" for j
  proof -
    consider "j = i" | "j < i" "same_union fs i j" | "j < i" "\<not> same_union fs i j"
      using le by (auto simp: less_Suc_eq)
    then show ?thesis
    proof cases
      case 1
      with holds_plain_slot [OF r(3,4) i] show ?thesis by (simp add: is_clear_def)
    next
      case 2
      have "current fs i mem'" using r(3) by (simp add: holds_def)
      then have "\<not> current fs j mem'" using current_union [OF 2(2) lvl(3) i] 2(1) i by simp
      then show ?thesis by (simp add: is_clear_def)
    next
      case 3
      have "span fs i \<inter> span fs j = {}" using layout_apart [OF lvl(2) i _ _ 3(2)] 3(1) i by simp
      then show ?thesis using is_clear_agree [OF r(2)] clear 3(1) by blast
    qed
  qed
  ultimately show ?thesis using r(1) agree_length [OF r(2)] by blast
qed

lemma plain_atD: "plain_at off n mem \<Longrightarrow> k \<in> extent off n \<Longrightarrow> is_byte (mem ! k)"
proof -
  assume p: "plain_at off n mem" and k: "k \<in> extent off n"
  then have "nat off + n \<le> length mem" "plain (take n (drop (nat off) mem))" by (auto simp: plain_at_def window_Some)
  moreover have "k - nat off < n" "k = nat off + (k - nat off)" using k by (auto simp: extent_def)
  ultimately show "is_byte (mem ! k)"
    using plain_nth [of "take n (drop (nat off) mem)"] by fastforce
qed

lemma clear_plain:
  assumes wt: "wt_fields sub fs mem" and tagged: "tagged_fields fs" and clear: "\<forall>i<length fs. is_clear fs i mem"
  shows "plain mem"
  unfolding plain_nth
proof (intro allI impI)
  fix k assume k: "k < length mem"
  show "is_byte (mem ! k)"
  proof (cases "\<exists>i<length fs. k \<in> span fs i")
    case False
    with wt k show ?thesis by (simp add: wt_fields_def)
  next
    case True
    then obtain i where i: "i < length fs" "k \<in> span fs i" by blast
    have entry: "entry_ok sub fs i mem" using wt i by (simp add: wt_fields_def)
    have "plain_at (data_at fs i) (slot_len fs i) mem"
    proof (cases "current fs i mem")
      case True
      with clear i show ?thesis by (simp add: is_clear_def)
    next
      case False
      with entry obtain cs which where u: "window (data_at fs i) (slot_len fs i) mem = Some cs"
        "load_size (size_at fs i) mem = Some which" "union_ok sub fs i which cs" "is_oneof (fs ! i)"
        by (auto simp: entry_ok_def current_def split: if_splits)
      show ?thesis
      proof (cases "\<exists>j<length fs. same_union fs i j \<and> which = field_tag (fs ! j)")
        case True
        then obtain j where j: "j < length fs" "same_union fs i j" "which = field_tag (fs ! j)" by blast
        then have "current fs j mem" using u(2) by (simp add: current_def same_union_def)
        with clear j have "plain_at (data_at fs j) (slot_len fs j) mem" by (simp add: is_clear_def)
        moreover have "data_at fs j = data_at fs i" using j(2) by (simp add: same_union_def)
        ultimately show ?thesis using slot_len_union [OF i(1) j(1,2)] by simp
      next
        case no: False
        with u False show ?thesis by (auto simp: union_ok_def plain_at_def current_def)
      qed
    qed
    moreover have "plain_at (size_at fs i) (size_len (fs ! i)) mem" using entry by (auto simp: entry_ok_def)
    ultimately show ?thesis using i(2) plain_atD by (auto simp: span_def)
  qed
qed

lemma release_message_safe:
  assumes ok: "level_ok env N sub B calls fs (length mem)" and wt: "wt_fields sub fs mem"
  shows "\<exists>mem'. each_iter (pb_release_single_field (release_message calls)) (each_field fs) mem = Some mem' \<and>
    length mem' = length mem \<and> plain mem' \<and> wt_fields sub fs mem'"
proof -
  note lvl = level_okD [OF ok]
  let ?I = "\<lambda>i m. length m = length mem \<and> wt_fields sub fs m \<and> (\<forall>j<i. is_clear fs j m)"
  have step: "\<exists>m'. pb_release_single_field (release_message calls) (nth_iter fs i) m = Some m' \<and> ?I (Suc i) m'"
    if "i < length fs" "?I i m" for i m
    using is_clear_release [of env N sub B calls fs m i] ok that by auto
  have "\<exists>mem'. each_iter (pb_release_single_field (release_message calls)) (map (nth_iter fs) [0..<length fs]) mem = Some mem' \<and>
      ?I (length fs) mem'"
    by (rule each_iter_fold [where I = ?I and n = "length fs" and mem = mem], rule step) (use wt in simp_all)
  then obtain mem' where
    r: "each_iter (pb_release_single_field (release_message calls)) (map (nth_iter fs) [0..<length fs]) mem = Some mem'"
      "?I (length fs) mem'" by blast
  from r(2) have "plain mem'" by (intro clear_plain [where sub = sub, OF _ lvl(3)]) simp_all
  with r each_field_eq [OF lvl(3)] show ?thesis by simp
qed


section \<open>Default values\<close>

lemma window_plain: "plain mem \<Longrightarrow> 0 \<le> off \<Longrightarrow> nat off + n \<le> length mem \<Longrightarrow> \<exists>cs. window off n mem = Some cs \<and> plain cs"
  by (auto simp: window_Some)

lemma plain_at_plain: "plain mem \<Longrightarrow> 0 \<le> off \<Longrightarrow> nat off + n \<le> length mem \<Longrightarrow> plain_at off n mem"
  using window_plain by (simp add: plain_at_def)

lemma store_plain:
  "plain mem \<Longrightarrow> 0 \<le> off \<Longrightarrow> nat off + length bs \<le> length mem \<Longrightarrow>
   store_bytes off bs mem = Some (put_window off (map Byte bs) mem) \<and> plain (put_window off (map Byte bs) mem)"
  using window_plain [of mem off "length bs"] by (auto simp: store_bytes_def plain_put_window)

lemma store_size_plain:
  "plain mem \<Longrightarrow> 0 \<le> off \<Longrightarrow> nat off + 4 \<le> length mem \<Longrightarrow>
   store_size off 0 mem = Some (put_window off zero_size mem) \<and> plain (put_window off zero_size mem)"
  using store_plain [of mem off "le_bytes 4 0"] by (simp add: store_size_def zero_size_def)

definition null_if_pointer :: "pb_field list \<Rightarrow> nat \<Rightarrow> cell list \<Rightarrow> bool" where
  "null_if_pointer fs i mem \<longleftrightarrow> (is_pointer (fs ! i) \<longrightarrow> window (data_at fs i) 8 mem = Some null_cells)"

lemma entry_ok_plain:
  assumes "layout_fits fs (length mem)" "i < length fs" "plain mem"
    "is_oneof (fs ! i) \<Longrightarrow> load_size (size_at fs i) mem = Some 0 \<and> null_if_pointer fs i mem"
    "\<not> is_oneof (fs ! i) \<Longrightarrow> \<exists>k cs. count_at fs i mem = Some k \<and> window (data_at fs i) (data_len (fs ! i)) mem = Some cs \<and> value_ok sub (fs ! i) k cs"
  shows "entry_ok sub fs i mem"
proof -
  note lay = layout_at [OF assms(1,2)]
  from window_plain [OF assms(3) lay(1,2)] obtain cs where cs: "window (data_at fs i) (slot_len fs i) mem = Some cs" "plain cs" by blast
  have sz: "plain_at (size_at fs i) (size_len (fs ! i)) mem" using plain_at_plain [OF assms(3) lay(3,4)] .
  show ?thesis
  proof (cases "is_oneof (fs ! i)")
    case True
    have "field_tag (fs ! i) \<noteq> 0" using lay(7) assms(2) by (simp add: tagged_fields_def)
    moreover have "take 8 cs = null_cells" if "is_pointer (fs ! i)"
    proof -
      have "8 \<le> slot_len fs i" using slot_len_ge [OF assms(2), of i] that by (simp add: data_len_def)
      from window_split [OF cs(1) this] assms(4) [OF True] that show ?thesis by (simp add: null_if_pointer_def)
    qed
    ultimately show ?thesis using True cs sz assms(4) by (auto simp: entry_ok_def union_ok_def)
  next
    case False
    with assms(5) slot_len_single [OF assms(2) False] cs(1) sz show ?thesis by (auto simp: entry_ok_def)
  qed
qed

lemma size_at_data:
  assumes "layout_fits fs n" "i < length fs"
  shows "size_at fs i = data_at fs i \<longleftrightarrow> size_offset (fs ! i) = 0"
proof -
  have "size_offset (fs ! i) = 0" if "sint (size_offset (fs ! i)) = sint (0 :: u32)"
    using that by (rule signed_word_eqI)
  with layout_at(5) [OF assms] show ?thesis by auto
qed

text \<open>A store inside the field.\<close>

lemma put_inside:
  "0 \<le> off \<Longrightarrow> nat off + length cs \<le> length mem \<Longrightarrow> extent off (length cs) \<subseteq> span fs i \<Longrightarrow>
   agree (span fs i) mem (put_window off cs mem) \<and> length (put_window off cs mem) = length mem"
  using agree_put_window [of off cs mem] by (auto intro: agree_mono)

text \<open>The four bytes of a count.\<close>

lemma zero_count:
  assumes fits: "layout_fits fs (length mem)" and i: "i < length fs" and plain: "plain mem" and fok: "field_ok (fs ! i)"
    and rep: "is_repeated (fs ! i) \<or> is_oneof (fs ! i)"
  shows "\<exists>mem'. store_size (size_at fs i) 0 mem = Some mem' \<and> agree (span fs i) mem mem' \<and> plain mem' \<and>
    load_size (size_at fs i) mem' = Some 0 \<and>
    (is_pointer (fs ! i) \<or> is_oneof (fs ! i) \<longrightarrow>
       window (data_at fs i) (data_len (fs ! i)) mem' = window (data_at fs i) (data_len (fs ! i)) mem \<and>
       window (data_at fs i) (slot_len fs i) mem' = window (data_at fs i) (slot_len fs i) mem)"
proof -
  note lay = layout_at [OF fits i]
  have room: "nat (size_at fs i) + 4 \<le> length mem \<and> extent (size_at fs i) 4 \<subseteq> span fs i \<and> (is_pointer (fs ! i) \<or> is_oneof (fs ! i) \<longrightarrow> size_len (fs ! i) = 4)"
  proof (cases "size_len (fs ! i) = 4")
    case True
    with lay(4) span_size [of fs i] show ?thesis by simp
  next
    case False
    then have s: "\<not> is_oneof (fs ! i)" "is_repeated (fs ! i)" "\<not> is_pointer (fs ! i)" "size_offset (fs ! i) = 0"
      using rep by (auto simp: size_len_def split: if_splits)
    have st: "is_static (fs ! i)" using field_okD(1) [OF fok] s(3) by simp
    have "4 \<le> data_len (fs ! i)" using field_okD(13) [OF fok st s(2,4)] s(2,3) by (simp add: data_len_def)
    moreover have "data_len (fs ! i) \<le> slot_len fs i" using i by (intro slot_len_ge) simp_all
    ultimately have "4 \<le> slot_len fs i" by simp
    then have "extent (data_at fs i) 4 \<subseteq> span fs i" using extent_mono span_data by blast
    moreover have "size_at fs i = data_at fs i" using size_at_data [OF fits i] s(4) by simp
    ultimately show ?thesis using \<open>4 \<le> slot_len fs i\<close> lay(2) s(1,3) by simp
  qed
  let ?mem = "put_window (size_at fs i) zero_size mem"
  have "store_size (size_at fs i) 0 mem = Some ?mem" "plain ?mem"
    using store_size_plain [OF plain lay(3)] room by simp_all
  moreover have "agree (span fs i) mem ?mem" using put_inside [of "size_at fs i" zero_size mem fs i] lay(3) room by simp
  moreover have "load_size (size_at fs i) ?mem = Some 0" by (rule load_zero) (use lay(3) room in simp)
  moreover have "window (data_at fs i) (data_len (fs ! i)) ?mem = window (data_at fs i) (data_len (fs ! i)) mem \<and>
      window (data_at fs i) (slot_len fs i) ?mem = window (data_at fs i) (slot_len fs i) mem" if "is_pointer (fs ! i) \<or> is_oneof (fs ! i)"
    using put_size(2,3) [OF fits i, of zero_size] room that by simp
  ultimately show ?thesis by blast
qed


text \<open>The value of a field that is not in an array or a union.\<close>

lemma init_data_safe:
  assumes ok: "level_ok env N sub B calls fs (length mem)" and i: "i < length fs" and plain: "plain mem"
    and f: "is_static (fs ! i)" "\<not> is_repeated (fs ! i)" "\<not> is_oneof (fs ! i)"
    and nest: "nested_ok N fs"
  shows "\<exists>cs. init_data (set_defaults calls) (fs ! i) (data_at fs i) mem = Some (put_window (data_at fs i) cs mem) \<and>
    length cs = data_len (fs ! i) \<and> plain cs \<and> item_ok sub (fs ! i) cs"
proof -
  note lvl = level_okD [OF ok] note lay = layout_at [OF lvl(2) i]
  let ?f = "fs ! i"
  have len: "data_len ?f = unat (data_size ?f)" using f by (simp add: data_len_def)
  have "data_len ?f \<le> slot_len fs i" using i by (intro slot_len_ge) simp_all
  then have room: "nat (data_at fs i) + unat (data_size ?f) \<le> length mem" using lay(2) len by simp
  show ?thesis
  proof (cases "is_sub ?f")
    case True
    then obtain d where d: "field_ptr ?f = Fields d" using field_okD(8) [OF lvl(4) [OF i]] by blast
    from window_plain [OF plain lay(1) room] obtain cs where cs: "window (data_at fs i) (unat (data_size ?f)) mem = Some cs" "plain cs" by blast
    have "layout_fits (messages env d) (length cs)" using lvl(5) [OF i True d] length_window [OF cs(1)] by simp
    moreover have nest_d: "N d" using nest nth_mem [OF i] True f(1) d unfolding nested_ok_def by blast
    ultimately have "layout_fits (messages env d) (length cs)" by simp
    from callees_okD(1) [OF lvl(1) this nest_d cs(2)] obtain cs' where
      "set_defaults calls d cs = Some cs'" "length cs' = length cs" "plain cs'" "sub d cs'" by blast
    with True d cs(1) len length_window [OF cs(1)] show ?thesis
      by (intro exI [of _ cs']) (simp add: init_data_def on_window_def item_ok_def)
  next
    case False
    have ptr: "case field_ptr ?f of Null_ptr \<Rightarrow> True | Default bs \<Rightarrow> unat (data_size ?f) \<le> length bs | Fields _ \<Rightarrow> False"
      using lvl(4) [OF i] f False unfolding field_ok_def by blast
    show ?thesis
    proof (cases "field_ptr ?f")
      case Null_ptr
      with False store_plain [OF plain lay(1), of "replicate (unat (data_size ?f)) 0"] room len show ?thesis
        by (intro exI [of _ "map Byte (replicate (unat (data_size ?f)) 0)"]) (simp add: init_data_def item_ok_def del: map_replicate)
    next
      case (Default bs)
      with ptr have "length (take (unat (data_size ?f)) bs) = unat (data_size ?f)" by simp
      with Default False ptr store_plain [OF plain lay(1), of "take (unat (data_size ?f)) bs"] room len show ?thesis
        by (intro exI [of _ "map Byte (take (unat (data_size ?f)) bs)"]) (simp add: init_data_def item_ok_def)
    qed (use ptr in simp)
  qed
qed

definition default_field_ok :: "(nat \<Rightarrow> cell list \<Rightarrow> bool) \<Rightarrow> pb_field list \<Rightarrow> nat \<Rightarrow> cell list \<Rightarrow> cell list \<Rightarrow> bool" where
  "default_field_ok sub fs i mem mem' \<longleftrightarrow>
     agree (span fs i) mem mem' \<and> plain mem' \<and> entry_ok sub fs i mem' \<and>
     (is_oneof (fs ! i) \<longrightarrow> load_size (size_at fs i) mem' = Some 0 \<and> null_if_pointer fs i mem' \<and>
       (window (data_at fs i) (slot_len fs i) mem' = window (data_at fs i) (slot_len fs i) mem \<or>
        window (data_at fs i) 8 mem' = Some null_cells))"

lemma default_pointer:
  assumes ok: "level_ok env N sub B calls fs (length mem)" and i: "i < length fs" and plain: "plain mem"
    and ptr: "is_pointer (fs ! i)"
  shows "\<exists>mem'. pb_field_set_to_default (set_defaults calls) (nth_iter fs i) mem = Some mem' \<and> default_field_ok sub fs i mem mem'"
proof -
  note lvl = level_okD [OF ok] note lay = layout_at [OF lvl(2) i] note it = iter_simps [OF lvl(3) i]
  let ?f = "fs ! i"
  have len: "data_len ?f = 8" using ptr by (simp add: data_len_def)
  let ?m = "put_window (data_at fs i) null_cells mem"
  have "data_len ?f \<le> slot_len fs i" using i by (intro slot_len_ge) simp_all
  then have store: "store_bytes (data_at fs i) (replicate 8 0) mem = Some ?m" "plain ?m"
    using store_plain [OF plain lay(1), of "replicate 8 0"] lay(2) len by (simp_all add: zeros_null del: map_replicate)
  have nc: "length null_cells = data_len ?f" using len by simp
  note put = put_data [OF lvl(2) i nc]
  have m: "length ?m = length mem" using agree_length [OF put(1)] .
  have "\<exists>mem'. (if is_repeated ?f \<or> is_oneof ?f then store_size (size_at fs i) 0 ?m else Some ?m) = Some mem' \<and>
      agree (span fs i) mem mem' \<and> plain mem' \<and> window (data_at fs i) (data_len ?f) mem' = Some null_cells \<and>
      (is_repeated ?f \<or> is_oneof ?f \<longrightarrow> load_size (size_at fs i) mem' = Some 0)"
  proof (cases "is_repeated ?f \<or> is_oneof ?f")
    case True
    from zero_count [of fs ?m i, OF _ i store(2) lvl(4) [OF i] True] lvl(2) m ptr put(1,2) True
    show ?thesis by (auto intro: agree_trans)
  next
    case False
    with put(1,2) store(2) show ?thesis by auto
  qed
  then obtain mem' where r: "(if is_repeated ?f \<or> is_oneof ?f then store_size (size_at fs i) 0 ?m else Some ?m) = Some mem'"
      "agree (span fs i) mem mem'" "plain mem'" "window (data_at fs i) (data_len ?f) mem' = Some null_cells"
      "is_repeated ?f \<or> is_oneof ?f \<longrightarrow> load_size (size_at fs i) mem' = Some 0" by blast
  have "value_ok sub ?f 0 null_cells" using ptr by (simp add: value_ok_def target_ok_def)
  moreover have "count_at fs i mem' = Some 0" using r(5) by (simp add: count_at_def)
  ultimately have "entry_ok sub fs i mem'"
    using r lvl(2) agree_length [OF r(2)] i len by (intro entry_ok_plain) (auto simp: null_if_pointer_def)
  moreover have "pb_field_set_to_default (set_defaults calls) (nth_iter fs i) mem = Some mem'"
    using ptr not_extension [OF lvl(4) [OF i]] store(1) r(1)
    by (cases "is_repeated ?f \<or> is_oneof ?f") (auto simp: pb_field_set_to_default_def it Let_def)
  ultimately show ?thesis using r len by (auto simp: default_field_ok_def null_if_pointer_def)
qed

lemma default_static:
  assumes ok: "level_ok env N sub B calls fs (length mem)" and i: "i < length fs" and plain: "plain mem"
    and st: "is_static (fs ! i)"
    and nest: "nested_ok N fs"
  shows "\<exists>mem'. pb_field_set_to_default (set_defaults calls) (nth_iter fs i) mem = Some mem' \<and> default_field_ok sub fs i mem mem'"
proof -
  note lvl = level_okD [OF ok] note lay = layout_at [OF lvl(2) i] note it = iter_simps [OF lvl(3) i]
  let ?f = "fs ! i"
  note fok = lvl(4) [OF i]
  note ext = not_extension [OF fok]
  have zero: "count_at fs i m = Some 0" for m using st by (simp add: count_at_def)
  have slot: "data_len ?f \<le> slot_len fs i" using i by (intro slot_len_ge) simp_all
  show ?thesis
  proof (cases "is_repeated ?f \<or> is_oneof ?f")
    case True
    from zero_count [OF lvl(2) i plain fok True] obtain mem' where
      z: "store_size (size_at fs i) 0 mem = Some mem'" "agree (span fs i) mem mem'" "plain mem'" "load_size (size_at fs i) mem' = Some 0"
      "is_oneof ?f \<longrightarrow> window (data_at fs i) (slot_len fs i) mem' = window (data_at fs i) (slot_len fs i) mem" by blast
    have fits: "layout_fits fs (length mem')" using lvl(2) agree_length [OF z(2)] by simp
    have "nat (data_at fs i) + data_len ?f \<le> length mem'" using slot lay(2) agree_length [OF z(2)] by simp
    from window_plain [OF z(3) lay(1) this] obtain cs where cs: "window (data_at fs i) (data_len ?f) mem' = Some cs" "plain cs" by blast
    have "value_ok sub ?f 0 cs" if "\<not> is_oneof ?f"
      using that True cs(2) value_ok_static [OF st] field_okD(9) [OF fok _ st] by (auto simp: item_ok_def)
    then have "entry_ok sub fs i mem'" using cs(1) zero z(4) st
      by (intro entry_ok_plain [OF fits i z(3)]) (auto simp: null_if_pointer_def)
    moreover have "pb_field_set_to_default (set_defaults calls) (nth_iter fs i) mem = Some mem'"
      using st ext z(1) True by (auto simp: pb_field_set_to_default_def it Let_def)
    ultimately show ?thesis using z st by (auto simp: default_field_ok_def null_if_pointer_def)
  next
    case False
    define m where "m = (if htype ?f = PB_HTYPE_OPTIONAL \<and> size_at fs i \<noteq> data_at fs i
      then put_window (size_at fs i) [Byte 0] mem else mem)"
    define flagged where "flagged \<longleftrightarrow> htype ?f = PB_HTYPE_OPTIONAL \<and> size_at fs i \<noteq> data_at fs i"
    have "agree (span fs i) mem m \<and> plain m \<and>
      (if htype ?f = PB_HTYPE_OPTIONAL \<and> size_at fs i \<noteq> data_at fs i then map_option (Pair True) (store_flag (size_at fs i) False mem)
       else Some (True, mem)) = Some (True, m)"
    proof (cases "htype ?f = PB_HTYPE_OPTIONAL \<and> size_at fs i \<noteq> data_at fs i")
      case True
      then have "size_len ?f = 1" using st size_at_data [OF lvl(2) i] by (simp add: size_len_def)
      with True store_plain [OF plain lay(3), of "[0]"] lay(4) put_inside [OF lay(3), of "[Byte 0]" mem fs i] span_size [of fs i]
      show ?thesis by (simp add: m_def store_flag_def)
    next
      case False
      then show ?thesis using plain by (auto simp: m_def)
    qed
    then have m: "agree (span fs i) mem m" "plain m"
      "(if htype ?f = PB_HTYPE_OPTIONAL \<and> size_at fs i \<noteq> data_at fs i then map_option (Pair True) (store_flag (size_at fs i) False mem)
        else Some (True, mem)) = Some (True, m)" by blast+
    have lm: "length m = length mem" using agree_length [OF m(1)] .
    from init_data_safe [of env N sub B calls fs m i, OF _ i m(2) st _ _ nest] ok lm False obtain cs where
      cs: "init_data (set_defaults calls) ?f (data_at fs i) m = Some (put_window (data_at fs i) cs m)" "length cs = data_len ?f" "plain cs"
        "item_ok sub ?f cs" by auto
    have fits: "layout_fits fs (length m)" using lvl(2) lm by simp
    note put = put_data [OF fits i cs(2)]
    let ?m = "put_window (data_at fs i) cs m"
    have pm: "plain ?m" using m(2) cs(3) by (rule plain_put_window)
    have fits': "layout_fits fs (length ?m)" using fits agree_length [OF put(1)] by simp
    have "entry_ok sub fs i ?m"
      using put(2) zero cs(4) value_ok_static [OF st] False by (intro entry_ok_plain [OF fits' i pm]) auto
    moreover have "pb_field_set_to_default (set_defaults calls) (nth_iter fs i) mem = init_data (set_defaults calls) ?f (data_at fs i) m"
      using st ext False m(3) by (cases flagged) (auto simp: flagged_def pb_field_set_to_default_def it Let_def)
    ultimately show ?thesis using cs(1) pm agree_trans [OF m(1) put(1)] False by (auto simp: default_field_ok_def)
  qed
qed

lemma null_if_pointer_agree:
  assumes "agree X mem mem'" "span fs j \<inter> X = {}" "j < length fs" "null_if_pointer fs j mem"
  shows "null_if_pointer fs j mem'"
proof -
  have "window (data_at fs j) 8 mem' = window (data_at fs j) 8 mem" if "is_pointer (fs ! j)"
  proof (rule window_agree [OF assms(1)])
    have "8 \<le> slot_len fs j" using slot_len_ge [OF assms(3), of j] that by (simp add: data_len_def)
    then show "extent (data_at fs j) 8 \<inter> X = {}" using extent_mono span_data assms(2) by blast
  qed
  with assms(4) show ?thesis by (simp add: null_if_pointer_def)
qed

lemma null_if_pointer_union:
  assumes "layout_fits fs (length mem)" "length mem' = length mem" "same_union fs i j" "i < length fs" "j < length fs"
    "null_if_pointer fs j mem"
    "window (data_at fs i) (slot_len fs i) mem' = window (data_at fs i) (slot_len fs i) mem \<or> window (data_at fs i) 8 mem' = Some null_cells"
  shows "null_if_pointer fs j mem'"
  unfolding null_if_pointer_def
proof
  assume ptr: "is_pointer (fs ! j)"
  have at: "data_at fs j = data_at fs i" using assms(3) by (simp add: same_union_def)
  have "8 \<le> slot_len fs i" using slot_len_ge [OF assms(5), of i] assms(3) ptr by (simp add: data_len_def)
  moreover obtain cs where "window (data_at fs i) (slot_len fs i) mem = Some cs"
    using layout_at(1,2) [OF assms(1,4)] by (simp add: window_def)
  ultimately show "window (data_at fs j) 8 mem' = Some null_cells"
    using window_split [of "data_at fs i" "slot_len fs i" mem cs 8] window_split [of "data_at fs i" "slot_len fs i" mem' cs 8]
      assms(6,7) ptr at by (auto simp: null_if_pointer_def)
qed

lemma set_defaults_safe:
  assumes ok: "level_ok env N sub B calls fs (length mem)" and plain: "plain mem"
    and nest: "nested_ok N fs"
  shows "\<exists>mem'. each_iter (pb_field_set_to_default (set_defaults calls)) (each_field fs) mem = Some mem' \<and>
    length mem' = length mem \<and> plain mem' \<and> wt_fields sub fs mem'"
proof -
  note lvl = level_okD [OF ok]
  let ?I = "\<lambda>i m. length m = length mem \<and> plain m \<and>
    (\<forall>j<i. entry_ok sub fs j m \<and> (is_oneof (fs ! j) \<longrightarrow> null_if_pointer fs j m))"
  have step: "\<exists>m'. pb_field_set_to_default (set_defaults calls) (nth_iter fs i) m = Some m' \<and> ?I (Suc i) m'"
    if i: "i < length fs" and I: "?I i m" for i m
  proof -
    have ok': "level_ok env N sub B calls fs (length m)" using ok I by simp
    have "is_static (fs ! i) \<or> is_pointer (fs ! i)" using field_okD(1) [OF lvl(4) [OF i]] .
    then obtain m' where m': "pb_field_set_to_default (set_defaults calls) (nth_iter fs i) m = Some m'" "default_field_ok sub fs i m m'"
      using default_pointer [OF ok' i] default_static [OF ok' i _ _ nest] I by blast
    have len: "length m' = length mem" using m'(2) I agree_length by (fastforce simp: default_field_ok_def)
    have "entry_ok sub fs j m' \<and> (is_oneof (fs ! j) \<longrightarrow> null_if_pointer fs j m')" if j: "j < Suc i" for j
    proof -
      consider "j = i" | "j < i" "same_union fs i j" | "j < i" "\<not> same_union fs i j"
        using j by (auto simp: less_Suc_eq)
      then show ?thesis
      proof cases
        case 1
        with m'(2) show ?thesis by (simp add: default_field_ok_def)
      next
        case 2
        then have one: "is_oneof (fs ! i)" "is_oneof (fs ! j)" "size_at fs j = size_at fs i" by (simp_all add: same_union_def)
        have fits: "layout_fits fs (length m)" "layout_fits fs (length m')" using lvl(2) len I by simp_all
        have null: "null_if_pointer fs j m'"
          by (rule null_if_pointer_union [OF fits(1) _ 2(2) i])
            (use len I 2(1) i one m'(2) in \<open>auto simp: default_field_ok_def\<close>)
        with fits m'(2) 2(1) i one have "entry_ok sub fs j m'" by (intro entry_ok_plain) (auto simp: default_field_ok_def)
        with null show ?thesis by simp
      next
        case 3
        have "span fs j \<inter> span fs i = {}" using layout_apart [OF lvl(2) i _ _ 3(2)] 3(1) i by auto
        then show ?thesis using entry_ok_agree null_if_pointer_agree m'(2) I 3(1) i by (auto simp: default_field_ok_def)
      qed
    qed
    with m' len show ?thesis by (auto simp: default_field_ok_def)
  qed
  have "\<exists>mem'. each_iter (pb_field_set_to_default (set_defaults calls)) (map (nth_iter fs) [0..<length fs]) mem = Some mem' \<and>
      ?I (length fs) mem'"
    by (rule each_iter_fold [where I = ?I and n = "length fs" and mem = mem], rule step) (use plain in simp_all)
  then show ?thesis using each_field_eq [OF lvl(3)] by (auto simp: wt_fields_def plain_nth)
qed

end
