(* ===== verification/Pb_Safe_Static.thy ===== *)
theory Pb_Safe_Static
  imports Pb_Safe_Release
begin

text \<open>
  Decoding a field that is in the structure itself: \<open>decode_static_field\<close> keeps the message well-typed.
\<close>

section \<open>Storing the size of a field\<close>

text \<open>What an operation on a message keeps.\<close>

abbreviation kept :: "(nat \<Rightarrow> cell list \<Rightarrow> bool) \<Rightarrow> pb_field list \<Rightarrow> cell list \<Rightarrow> cell list \<Rightarrow> bool" where
  "kept sub fs mem mem' \<equiv> length mem' = length mem \<and> wt_fields sub fs mem'"

text \<open>
  A field of a union can be decoded into when it is the current one of a well-typed message, or when the slot
  holds nothing; the memory \<open>mem0\<close> is that before the slot was cleared.
\<close>

definition ready :: "(nat \<Rightarrow> cell list \<Rightarrow> bool) \<Rightarrow> pb_field list \<Rightarrow> nat \<Rightarrow> cell list \<Rightarrow> bool" where
  "ready sub fs i mem \<longleftrightarrow> (\<exists>mem0. wt_fields sub fs mem0 \<and> agree (span fs i) mem0 mem \<and>
     plain_at (size_at fs i) (size_len (fs ! i)) mem \<and>
     (current fs i mem \<and> mem0 = mem \<or>
      is_oneof (fs ! i) \<and> \<not> current fs i mem \<and> plain_at (data_at fs i) (slot_len fs i) mem \<and> null_if_pointer fs i mem))"

lemma readyE:
  assumes "ready sub fs i mem"
  obtains mem0 where "wt_fields sub fs mem0" "agree (span fs i) mem0 mem" "plain_at (size_at fs i) (size_len (fs ! i)) mem"
    "current fs i mem \<and> mem0 = mem \<or> is_oneof (fs ! i) \<and> \<not> current fs i mem \<and> plain_at (data_at fs i) (slot_len fs i) mem \<and> null_if_pointer fs i mem"
  using assms unfolding ready_def by blast

lemma ready_current: "wt_fields sub fs mem \<Longrightarrow> i < length fs \<Longrightarrow> current fs i mem \<Longrightarrow> ready sub fs i mem"
  unfolding ready_def by (rule exI [of _ mem]) (auto simp: wt_fields_def entry_ok_def)

lemma ready_wt: "ready sub fs i mem \<Longrightarrow> \<not> is_oneof (fs ! i) \<Longrightarrow> wt_fields sub fs mem"
  by (auto elim: readyE)

lemma put_size_holds:
  assumes fits: "layout_fits fs (length mem)" and i: "i < length fs"
    and data: "window (data_at fs i) (data_len (fs ! i)) mem = Some cs"
      "plain_at (data_at fs i + int (data_len (fs ! i))) (slot_len fs i - data_len (fs ! i)) mem"
    and ds: "length ds = size_len (fs ! i)" "plain ds"
    and ok: "count_at fs i (put_window (size_at fs i) ds mem) = Some k" "value_ok sub (fs ! i) k cs"
      "current fs i (put_window (size_at fs i) ds mem)"
  shows "holds sub fs i (put_window (size_at fs i) ds mem) k cs"
  using put_size(3-5) [OF fits i ds(1)] data ds(2) ok by (simp add: holds_def plain_at_def)

lemma set_size_wt:
  assumes fits: "layout_fits fs (length mem)" and i: "i < length fs" and wt: "wt_fields sub fs mem"
    and f: "\<not> is_oneof (fs ! i)" "\<not> is_pointer (fs ! i)" and ds: "length ds = size_len (fs ! i)" "plain ds"
  shows "kept sub fs mem (put_window (size_at fs i) ds mem)"
proof -
  let ?mem = "put_window (size_at fs i) ds mem"
  have cur: "current fs i mem" "current fs i ?mem" using f by (simp_all add: current_def)
  from wt_holds [OF wt i cur(1)] obtain k cs where h: "holds sub fs i mem k cs" by blast
  have "count_at fs i ?mem = Some 0" "k = 0" using f h by (auto simp: count_at_def holds_def)
  with h f have "holds sub fs i ?mem 0 cs"
    by (intro put_size_holds [OF fits i _ _ ds _ _ cur(2)]) (auto simp: holds_def)
  from holds_wt [OF wt fits i put_size(1) [OF fits i ds(1)] this] agree_length [OF put_size(1) [OF fits i ds(1)]]
  show ?thesis by simp
qed

text \<open>In a union the field becomes the current one.\<close>

lemma set_which:
  assumes fits: "layout_fits fs (length mem)" and i: "i < length fs" and wt: "wt_fields sub fs mem0"
    and agree: "agree (span fs i) mem0 mem" and one: "is_oneof (fs ! i)"
    and data: "window (data_at fs i) (data_len (fs ! i)) mem = Some cs"
      "plain_at (data_at fs i + int (data_len (fs ! i))) (slot_len fs i - data_len (fs ! i)) mem"
    and sz: "plain_at (size_at fs i) (size_len (fs ! i)) mem"
    and ok: "value_ok sub (fs ! i) 0 cs"
  shows "\<exists>mem'. store_size (size_at fs i) (field_tag (fs ! i)) mem = Some mem' \<and> kept sub fs mem mem' \<and> holds sub fs i mem' 0 cs"
proof -
  let ?ds = "map Byte (le_bytes 4 (unat (field_tag (fs ! i))))"
  let ?mem = "put_window (size_at fs i) ?ds mem"
  have len: "size_len (fs ! i) = 4" "length ?ds = size_len (fs ! i)" using one by (simp_all add: size_len_def)
  note put = put_size [OF fits i len(2)]
  have "load_size (size_at fs i) ?mem = Some (field_tag (fs ! i))" using load_size_cells put(5) len(1) by simp
  then have "current fs i ?mem" by (simp add: current_def)
  moreover have "count_at fs i ?mem = Some 0" using one by (simp add: count_at_def)
  ultimately have h: "holds sub fs i ?mem 0 cs" using ok by (intro put_size_holds [OF fits i data len(2)]) simp_all
  have fits0: "layout_fits fs (length mem0)" using fits agree_length [OF agree] by simp
  have "wt_fields sub fs ?mem" by (rule holds_wt [OF wt fits0 i agree_trans [OF agree put(1)] h])
  moreover have "store_size (size_at fs i) (field_tag (fs ! i)) mem = Some ?mem"
    using sz len(1) by (auto simp: plain_at_def store_size_exact)
  ultimately show ?thesis using h agree_length [OF put(1)] by blast
qed

section \<open>The count of an array\<close>

text \<open>Where an array in place has its count.\<close>

lemma array_count_at:
  assumes fits: "layout_fits fs (length mem)" and i: "i < length fs" and at: "is_at fs i iter"
    and f: "is_static (fs ! i)" "is_repeated (fs ! i)" and sz: "pSize iter \<noteq> In_struct (data_at fs i)"
  shows "pSize iter = Fixed_count \<or> pSize iter = In_struct (size_at fs i) \<and> size_len (fs ! i) = 4"
proof -
  from at consider "iter = nth_iter fs i" | "pSize iter = Fixed_count" by (auto simp: is_at_def)
  then show ?thesis
  proof cases
    case 1
    then have "pSize iter = In_struct (size_at fs i)" by (simp add: pSize_nth_iter)
    moreover from this sz size_at_data [OF fits i] have "size_offset (fs ! i) \<noteq> 0" by auto
    ultimately show ?thesis using f by (simp add: size_len_def)
  qed simp
qed

lemma count_steps:
  assumes fits: "layout_fits fs (length mem)" and i: "i < length fs" and at: "is_at fs i iter"
    and f: "is_static (fs ! i)" "is_repeated (fs ! i)" and sz: "pSize iter \<noteq> In_struct (data_at fs i)"
    and wt: "wt_fields sub fs mem"
  shows "\<exists>c. load_count iter fixed mem = Some c"
    "\<exists>fixed' mem'. store_count iter v fixed (s, mem) = Some (Some fixed', s, mem') \<and> kept sub fs mem mem'"
proof -
  have "entry_ok sub fs i mem" using wt i by (simp add: wt_fields_def)
  then have plain: "plain_at (size_at fs i) (size_len (fs ! i)) mem" by (auto simp: entry_ok_def)
  note at_count = array_count_at [OF fits i at f sz]
  show "\<exists>c. load_count iter fixed mem = Some c"
    using at_count plain by (auto simp: load_count_def plain_at_def dest: load_size_plain)
  let ?ds = "map Byte (le_bytes 4 (unat v))"
  have "kept sub fs mem (put_window (size_at fs i) ?ds mem)" if "size_len (fs ! i) = 4"
    by (rule set_size_wt [OF fits i wt]) (use f that in simp_all)
  then show "\<exists>fixed' mem'. store_count iter v fixed (s, mem) = Some (Some fixed', s, mem') \<and> kept sub fs mem mem'"
    using at_count plain wt by (auto simp: store_count_def mem_step_def plain_at_def store_size_exact)
qed

section \<open>Arrays in place\<close>

lemma packed_static_safe:
  assumes i: "i < length fs" and at: "is_at fs i iter" and f: "is_static (fs ! i)" "is_repeated (fs ! i)"
    and sz: "pSize iter \<noteq> In_struct (data_at fs i)"
  shows "level_ok env (\<lambda>_. True) sub B calls fs (length mem) \<Longrightarrow> wt_fields sub fs mem \<Longrightarrow> wf_istream s \<Longrightarrow>
    unat (bytes_left s) \<le> Suc B \<Longrightarrow>
    \<exists>status fixed' s' mem'. packed_static (pb_decoder al calls (fs ! i)) iter k fixed (s, mem) =
        Some ((status, fixed'), s', mem') \<and> goes_on s s' \<and> kept sub fs mem mem'"
proof (induction k arbitrary: fixed s mem)
  case 0
  then show ?case by (auto intro: goes_on_refl)
next
  case (Suc k)
  note lvl = level_okD [OF Suc.prems(1)]
  note it = is_at_simps [OF lvl(3) at]
  from count_steps(1) [OF lvl(2) i at f sz Suc.prems(2)] obtain n where n: "load_count iter fixed mem = Some n" by blast
  show ?case
  proof (cases "bytes_left s > 0 \<and> n < array_size (fs ! i)")
    case False
    with n it Suc.prems show ?thesis by (auto simp: Let_def intro: goes_on_refl)
  next
    case True
    then have "n < array_size (fs ! i)" by simp
    from array_item_safe [OF Suc.prems(1) i f Suc.prems(2) this Suc.prems(3,4), of al]
    obtain r s1 mem1 where item: "in_window (data_at fs i + uint (data_size (fs ! i) * n)) (item_size (fs ! i))
        (pb_decoder al calls (fs ! i)) (s, mem) = Some (r, s1, mem1)" "goes_on s s1" "kept sub fs mem mem1"
      by (auto simp: safely_def)
    have step: "packed_static (pb_decoder al calls (fs ! i)) iter (Suc k) fixed (s, mem) =
        (case r of None \<Rightarrow> Some ((False, fixed), s1, mem1)
         | Some _ \<Rightarrow> (case store_count iter (n + 1) fixed (s1, mem1) of
             Some (Some fixed, st) \<Rightarrow> packed_static (pb_decoder al calls (fs ! i)) iter k fixed st | _ \<Rightarrow> None))"
      using True n it item(1) by (simp add: Let_def data_at_def [symmetric] split: option.split)
    show ?thesis
    proof (cases r)
      case None
      with step item show ?thesis by auto
    next
      case (Some u)
      have fits: "layout_fits fs (length mem1)" using lvl(2) item(3) by simp
      from count_steps(2) [OF fits i at f sz, of sub "n + 1" fixed s1] item(3) obtain fixed2 mem2 where
        c: "store_count iter (n + 1) fixed (s1, mem1) = Some (Some fixed2, s1, mem2)" "kept sub fs mem1 mem2" by blast
      have "level_ok env (\<lambda>_. True) sub B calls fs (length mem2)" using Suc.prems(1) item(3) c(2) by simp
      moreover have "wf_istream s1" "unat (bytes_left s1) \<le> Suc B" using item(2) Suc.prems(4) by (auto simp: goes_on_def)
      ultimately obtain status fixed' s' mem' where
        "packed_static (pb_decoder al calls (fs ! i)) iter k fixed2 (s1, mem2) = Some ((status, fixed'), s', mem')"
        "goes_on s1 s'" "kept sub fs mem2 mem'" using Suc.IH [of mem2 s1 fixed2] c(2) by blast
      with step Some c item goes_on_trans show ?thesis by fastforce
    qed
  qed
qed


section \<open>A field in place\<close>

abbreviation keeps :: "(nat \<Rightarrow> cell list \<Rightarrow> bool) \<Rightarrow> pb_field list \<Rightarrow> cell list \<Rightarrow> 'a option \<Rightarrow> 's pb_istream \<Rightarrow> cell list \<Rightarrow> bool" where
  "keeps sub fs mem \<equiv> \<lambda>r s' mem'. kept sub fs mem mem'"

lemma keeps_then:
  assumes "safely s (keeps sub fs mem) m"
    "\<And>x s' mem'. goes_on s s' \<Longrightarrow> kept sub fs mem mem' \<Longrightarrow> safely s' (keeps sub fs mem) (k x (s', mem'))"
  shows "safely s (keeps sub fs mem) (pb_then m k)"
  by (rule safely_then [OF assms(1)]) (simp_all add: assms(2))

lemma keeps_return: "safely s (keeps sub fs mem) m \<Longrightarrow> safely s (keeps sub fs mem) (pb_then m (\<lambda>x st. Some (Some (f x), st)))"
  by (erule keeps_then) (auto intro: safely_ok goes_on_wf)

lemma keeps_error: "wf_istream s \<Longrightarrow> wt_fields sub fs mem' \<Longrightarrow> length mem' = length mem \<Longrightarrow>
    safely s (keeps sub fs mem) (dec_error (s, mem') msg)"
  by (rule safely_error) simp_all

lemma keeps_failed [simp]: "wf_istream s \<Longrightarrow> wt_fields sub fs mem' \<Longrightarrow> length mem' = length mem \<Longrightarrow>
    safely s (keeps sub fs mem) (Some (None, s\<lparr>ierrmsg := e\<rparr>, mem'))"
  by (rule safelyI) (simp_all add: goes_on_refl)

lemma keeps_from: "kept sub fs mem mem1 \<Longrightarrow> safely s (keeps sub fs mem1) m \<Longrightarrow> safely s (keeps sub fs mem) m"
  by (erule safely_mono) simp_all

text \<open>The tail of \<open>decode_static_field\<close>: the item at \<open>pData\<close>.\<close>

lemma single_item:
  assumes "level_ok env (\<lambda>_. True) sub B calls fs (length mem)" "i < length fs" "is_static (fs ! i)" "\<not> is_repeated (fs ! i)"
    "kept sub fs mem mem'" "holds sub fs i mem' k cs" "wf_istream s" "unat (bytes_left s) \<le> Suc B"
  shows "safely s (keeps sub fs mem)
    (pb_then (in_window (data_at fs i) (item_size (fs ! i)) (pb_decoder al calls (fs ! i)) (s, mem'))
      (\<lambda>_ st. Some (Some fixed, st)))"
proof (rule keeps_return, rule keeps_from [OF assms(5)])
  show "safely s (keeps sub fs mem') (in_window (data_at fs i) (item_size (fs ! i)) (pb_decoder al calls (fs ! i)) (s, mem'))"
    by (rule item_in_place_safe [OF _ assms(2-4) _ assms(6-8)]) (use assms(1,5) in simp_all)
qed

lemma static_optional:
  assumes ok: "level_ok env (\<lambda>_. True) sub B calls fs (length mem)" and i: "i < length fs"
    and f: "is_static (fs ! i)" "htype (fs ! i) = PB_HTYPE_OPTIONAL" "size_at fs i \<noteq> data_at fs i"
    and wt: "wt_fields sub fs mem"
  shows "\<exists>mem' k cs. store_flag (size_at fs i) True mem = Some mem' \<and> kept sub fs mem mem' \<and> holds sub fs i mem' k cs"
proof -
  note lvl = level_okD [OF ok]
  have len: "size_len (fs ! i) = 1" using f size_at_data [OF lvl(2) i] by (simp add: size_len_def)
  have "entry_ok sub fs i mem" using wt i by (simp add: wt_fields_def)
  then obtain ds where "window (size_at fs i) 1 mem = Some ds" "plain ds" using len by (auto simp: entry_ok_def plain_at_def)
  then have store: "store_flag (size_at fs i) True mem = Some (put_window (size_at fs i) [Byte 1] mem)"
    by (simp add: store_flag_def store_bytes_def)
  have kept: "kept sub fs mem (put_window (size_at fs i) [Byte 1] mem)"
    by (rule set_size_wt [OF lvl(2) i wt]) (use f len in simp_all)
  moreover have "current fs i (put_window (size_at fs i) [Byte 1] mem)" using f by (simp add: current_def)
  ultimately show ?thesis using store wt_holds [OF _ i] by metis
qed

lemma static_union:
  assumes ok: "level_ok env (\<lambda>_. True) sub B calls fs (length mem)" and i: "i < length fs"
    and f: "is_static (fs ! i)" "is_oneof (fs ! i)" and rdy: "ready sub fs i mem"
  shows "\<exists>which mem1 mem' k cs. load_size (size_at fs i) mem = Some which \<and>
    prepare_union calls (fs ! i) (data_at fs i) which (s, mem) = Some (Some (), s, mem1) \<and>
    store_size (size_at fs i) (field_tag (fs ! i)) mem1 = Some mem' \<and> kept sub fs mem mem' \<and> holds sub fs i mem' k cs"
proof -
  note lvl = level_okD [OF ok] note lay = layout_at [OF lvl(2) i]
  let ?f = "fs ! i"
  from rdy obtain mem0 where wt: "wt_fields sub fs mem0" "agree (span fs i) mem0 mem"
    and sz: "plain_at (size_at fs i) (size_len ?f) mem"
    and slot_ok: "current fs i mem \<and> mem0 = mem \<or> \<not> current fs i mem \<and> plain_at (data_at fs i) (slot_len fs i) mem"
    by (rule readyE) blast
  obtain which where which: "load_size (size_at fs i) mem = Some which"
    using sz size_of_repeated(2) [OF f(2)] unfolding plain_at_def by (metis load_size_plain)
  have len: "data_len ?f = unat (data_size ?f)" using f by (simp add: data_len_def)
  have slot: "data_len ?f \<le> slot_len fs i" using i by (intro slot_len_ge) simp_all
  have "\<exists>mem1 cs. prepare_union calls ?f (data_at fs i) which (s, mem) = Some (Some (), s, mem1) \<and>
      agree (span fs i) mem0 mem1 \<and> window (data_at fs i) (data_len ?f) mem1 = Some cs \<and> item_ok sub ?f cs \<and>
      plain_at (data_at fs i + int (data_len ?f)) (slot_len fs i - data_len ?f) mem1 \<and>
      plain_at (size_at fs i) (size_len ?f) mem1"
  proof (cases "current fs i mem")
    case True
    then have wt': "wt_fields sub fs mem" "mem0 = mem" using wt(1) slot_ok by auto
    from True which f have "which = field_tag ?f" by (simp add: current_def)
    moreover from wt_holds [OF wt'(1) i True] obtain k cs where "holds sub fs i mem k cs" by blast
    ultimately show ?thesis using value_ok_static [OF f(1)]
wt(2)
      by (intro exI [of _ mem] exI [of _ cs]) (simp add: holds_def prepare_union_def)
  next
    case False
    with which f have ne: "which \<noteq> field_tag ?f" by (simp add: current_def)
    from slot_ok False obtain slot_cs where sc: "window (data_at fs i) (slot_len fs i) mem = Some slot_cs" "plain slot_cs"
      by (auto simp: plain_at_def)
    from window_split [OF sc(1) slot] obtain cs ds where cs: "window (data_at fs i) (data_len ?f) mem = Some cs" "plain cs"
      "window (data_at fs i + int (data_len ?f)) (slot_len fs i - data_len ?f) mem = Some ds" "plain ds"
      using sc(2) by auto
    show ?thesis
    proof (cases "is_sub ?f")
      case False
      with cs sz wt(2) show ?thesis
        by (intro exI [of _ mem] exI [of _ cs]) (simp add: prepare_union_def plain_at_def item_ok_def)
    next
      case True
      then obtain d where d: "field_ptr ?f = Fields d" using field_okD(8) [OF lvl(4) [OF i]] by blast
      let ?z = "map Byte (replicate (unat (data_size ?f)) 0)"
      have z: "length ?z = data_len ?f" "plain ?z" using len by simp_all
      note put = put_data [OF lvl(2) i z(1)]
      have store: "store_bytes (data_at fs i) (replicate (unat (data_size ?f)) 0) mem = Some (put_window (data_at fs i) ?z mem)"
        using cs(1,2) len by (simp add: store_bytes_def del: map_replicate)
      have "layout_fits (messages env d) (length ?z)" using lvl(5) [OF i True d] by simp
      from callees_okD(1) [OF lvl(1) this TrueI z(2)] obtain cs' where
        c: "set_defaults calls d ?z = Some cs'" "length cs' = length ?z" "plain cs'" "sub d cs'" by blast
      let ?m = "put_window (data_at fs i) ?z mem"
      have fits: "layout_fits fs (length ?m)" using lvl(2) agree_length [OF put(1)] by simp
      have lc: "length cs' = data_len ?f" using c(2) z(1) by simp
      note put' = put_data [OF fits i lc]
      have "prepare_union calls ?f (data_at fs i) which (s, mem) = Some (Some (), s, put_window (data_at fs i) cs' ?m)"
        using True ne store put(2) c(1) d len
        by (simp add: prepare_union_def mem_step_def on_window_def del: map_replicate)
      moreover have "item_ok sub ?f cs'" using True d c(4) by (simp add: item_ok_def)
      ultimately show ?thesis using put put' cs(3,4) sz agree_trans [OF wt(2) agree_trans [OF put(1) put'(1)]]
        by (intro exI [of _ "put_window (data_at fs i) cs' ?m"] exI [of _ cs']) (simp add: plain_at_def del: map_replicate)
    qed
  qed
  then obtain mem1 cs where m1: "prepare_union calls ?f (data_at fs i) which (s, mem) = Some (Some (), s, mem1)"
    "agree (span fs i) mem0 mem1" "window (data_at fs i) (data_len ?f) mem1 = Some cs" "item_ok sub ?f cs"
    "plain_at (data_at fs i + int (data_len ?f)) (slot_len fs i - data_len ?f) mem1"
    "plain_at (size_at fs i) (size_len ?f) mem1" by blast
  have "layout_fits fs (length mem1)" using lvl(2) agree_length [OF m1(2)] agree_length [OF wt(2)] by simp
  from set_which [OF this i wt(1) m1(2) f(2) m1(3,5,6)] m1(4) value_ok_static [OF f(1)] obtain mem' where
    "store_size (size_at fs i) (field_tag ?f) mem1 = Some mem'" "kept sub fs mem1 mem'" "holds sub fs i mem' 0 cs" by auto
  with which m1(1) agree_length [OF m1(2)] agree_length [OF wt(2)] show ?thesis by auto
qed


text \<open>An array: one item, or a packed array in a substream.\<close>

lemma static_array_item:
  assumes ok: "level_ok env (\<lambda>_. True) sub B calls fs (length mem)" and i: "i < length fs" and at: "is_at fs i iter"
    and f: "is_static (fs ! i)" "is_repeated (fs ! i)" and sz: "pSize iter \<noteq> In_struct (data_at fs i)"
    and wt: "wt_fields sub fs mem" and s: "wf_istream s" "unat (bytes_left s) \<le> Suc B"
  shows "safely s (keeps sub fs mem)
    (pb_then (mem_read (load_count iter fixed) (s, mem)) (\<lambda>count st.
       pb_then (store_count iter (count + 1) fixed st) (\<lambda>fixed st.
         if count \<ge> array_size (fs ! i) then dec_error st ''array overflow''
         else pb_then (in_window (data_at fs i + uint (data_size (fs ! i) * count)) (item_size (fs ! i))
             (pb_decoder al calls (fs ! i)) st) (\<lambda>_ st. Some (Some fixed, st)))))"
proof -
  note lvl = level_okD [OF ok]
  from count_steps(1) [OF lvl(2) i at f sz wt] obtain n where n: "load_count iter fixed mem = Some n" by blast
  from count_steps(2) [OF lvl(2) i at f sz wt] obtain fixed1 mem1 where
    c: "store_count iter (n + 1) fixed (s, mem) = Some (Some fixed1, s, mem1)" "kept sub fs mem mem1" by blast
  show ?thesis
  proof (cases "array_size (fs ! i) \<le> n")
    case True
    with n c s show ?thesis by (simp add: keeps_error)
  next
    case False
    have ok1: "level_ok env (\<lambda>_. True) sub B calls fs (length mem1)" using ok c(2) by simp
    have "safely s (keeps sub fs mem1) (in_window (data_at fs i + uint (data_size (fs ! i) * n)) (item_size (fs ! i))
        (pb_decoder al calls (fs ! i)) (s, mem1))"
      by (rule safely_mono [OF array_item_safe [OF ok1 i f]]) (use c(2) False s in auto)
    from keeps_return [OF keeps_from [OF c(2) this]] n c(1) False show ?thesis by simp
  qed
qed

lemma static_array_packed:
  assumes ok: "level_ok env (\<lambda>_. True) sub B calls fs (length mem)" and i: "i < length fs" and at: "is_at fs i iter"
    and f: "is_static (fs ! i)" "is_repeated (fs ! i)" and sz: "pSize iter \<noteq> In_struct (data_at fs i)"
    and wt: "wt_fields sub fs mem" and s: "wf_istream s" "unat (bytes_left s) \<le> Suc B"
  shows "safely s (keeps sub fs mem)
    (pb_then (keeping mem (pb_make_string_substream s)) (\<lambda>substream (s, mem).
       case packed_static (pb_decoder al calls (fs ! i)) iter k fixed (substream, mem) of
         None \<Rightarrow> None
       | Some ((status, fixed), substream, mem) \<Rightarrow>
           if bytes_left substream \<noteq> 0 then dec_error (s, mem) ''array overflow''
           else pb_then (keeping mem (pb_close_string_substream s substream)) (\<lambda>_ st.
             Some (if status then Some fixed else None, st))))"
proof (rule safely_substream [OF s(1)])
  show "kept sub fs mem mem" using wt by simp
next
  fix substream s1
  assume child: "child s s1 substream"
  then have "wf_istream substream" "unat (bytes_left substream) \<le> Suc B" using s(2) by (auto simp: child_def)
  from packed_static_safe [OF i at f sz ok wt this] obtain status fixed' s2 mem2 where
    p: "packed_static (pb_decoder al calls (fs ! i)) iter k fixed (substream, mem) = Some ((status, fixed'), s2, mem2)"
      "goes_on substream s2" "kept sub fs mem mem2" by blast
  have on: "goes_on s s1" using child by (simp add: child_def)
  have err: "safely s (keeps sub fs mem) (dec_error (s1, mem2) msg :: (u32, _) pb_result)" for msg
    by (rule safely_from [OF on], rule keeps_error [OF goes_on_wf [OF on]]) (use p(3) in simp_all)
  have "safely s (keeps sub fs mem) (pb_then (keeping mem2 (pb_close_string_substream s1 s2)) (\<lambda>_ st.
      Some (if status then Some fixed' else None, st)))"
    by (rule keeps_then [OF safely_close [OF child p(2)]]) (use p(3) in \<open>auto intro: safelyI goes_on_refl dest: goes_on_wf\<close>)
  with err [of "''array overflow''"] p(1) show "safely s (keeps sub fs mem)
     (case (s1, mem) of (s, mem) \<Rightarrow>
       (case packed_static (pb_decoder al calls (fs ! i)) iter k fixed (substream, mem) of
         None \<Rightarrow> None
       | Some ((status, fixed), substream, mem) \<Rightarrow>
           if bytes_left substream \<noteq> 0 then dec_error (s, mem) ''array overflow''
           else pb_then (keeping mem (pb_close_string_substream s substream)) (\<lambda>_ st.
             Some (if status then Some fixed else None, st))))"
    by simp
qed

lemma static_field_safe:
  assumes ok: "level_ok env (\<lambda>_. True) sub B calls fs (length mem)" and at: "is_at fs i iter"
    and f: "is_static (fs ! i)" and sz: "is_repeated (fs ! i) \<Longrightarrow> pSize iter \<noteq> In_struct (data_at fs i)"
    and rdy: "ready sub fs i mem" and s: "wf_istream s" "unat (bytes_left s) \<le> Suc B"
  shows "safely s (keeps sub fs mem) (decode_static_field al calls wire_type iter fixed (s, mem))"
proof -
  note lvl = level_okD [OF ok]
  note it = is_at_simps(1-3) [OF lvl(3) at]
  note i = is_at_simps(6) [OF lvl(3) at]
  have data: "pData iter = data_at fs i" using is_at_simps(5) [OF lvl(3) at] by (simp add: data_at_def)
  have pSize: "pSize iter = In_struct (size_at fs i)" if "\<not> is_repeated (fs ! i)"
    using at that by (auto simp: is_at_def pSize_nth_iter)
  have cur: "current fs i mem" if "\<not> is_oneof (fs ! i)" using that by (simp add: current_def)
  have wt: "wt_fields sub fs mem" if "\<not> is_oneof (fs ! i)" using ready_wt [OF rdy that] .
  note single = single_item [OF ok i f]
  consider "htype (fs ! i) = PB_HTYPE_REQUIRED" | "htype (fs ! i) = PB_HTYPE_OPTIONAL" | "is_repeated (fs ! i)" | "is_oneof (fs ! i)"
    using htype_cases by blast
  then show ?thesis
  proof cases
    case 1
    then have no: "\<not> is_oneof (fs ! i)" by simp
    from wt_holds [OF wt [OF no] i cur [OF no]] obtain k cs where "holds sub fs i mem k cs" by blast
    with 1 wt [OF no] single [of mem k cs s] s it data show ?thesis by (simp add: decode_static_field_def Let_def)
  next
    case 2
    then have no: "\<not> is_oneof (fs ! i)" by simp
    show ?thesis
    proof (cases "size_at fs i = data_at fs i")
      case True
      from wt_holds [OF wt [OF no] i cur [OF no]] obtain k cs where "holds sub fs i mem k cs" by blast
      with 2 True single [of mem k cs s] wt [OF no] s it data pSize show ?thesis by (simp add: decode_static_field_def Let_def)
    next
      case False
      from static_optional [OF ok i f 2 False wt [OF no]] obtain mem1 k cs where
        o: "store_flag (size_at fs i) True mem = Some mem1" "kept sub fs mem mem1" "holds sub fs i mem1 k cs" by blast
      with 2 False single [of mem1 k cs s] s it data pSize show ?thesis
        by (simp add: decode_static_field_def Let_def size_offset_of_def mem_step_def)
    qed
  next
    case 3
    then have no: "\<not> is_oneof (fs ! i)" by simp
    show ?thesis
    proof (cases "wire_type = PB_WT_STRING \<and> ltype (fs ! i) \<le> PB_LTYPE_LAST_PACKABLE")
      case True
      with static_array_packed [OF ok i at f 3 sz [OF 3] wt [OF no] s, of al "unat (array_size (fs ! i))" fixed] 3 it data
      show ?thesis by (simp add: decode_static_field_def Let_def)
    next
      case False
      with static_array_item [OF ok i at f 3 sz [OF 3] wt [OF no] s, of fixed al, folded data] 3 it
      show ?thesis by (auto simp add: decode_static_field_def Let_def simp del: mem_read_simp)
    qed
  next
    case 4
    from static_union [OF ok i f 4 rdy, of s] obtain which mem1 mem2 k cs where
      u: "load_size (size_at fs i) mem = Some which" "prepare_union calls (fs ! i) (data_at fs i) which (s, mem) = Some (Some (), s, mem1)"
        "store_size (size_at fs i) (field_tag (fs ! i)) mem1 = Some mem2" "kept sub fs mem mem2" "holds sub fs i mem2 k cs" by blast
    with 4 single [of mem2 k cs s] s it data pSize show ?thesis
      by (simp add: decode_static_field_def Let_def size_offset_of_def mem_step_def)
  qed
qed

end
