(* ===== verification/Pb_Safe_Pointer.thy ===== *)
theory Pb_Safe_Pointer
  imports Pb_Safe_Static
begin

text \<open>
  Decoding a field through a pointer: \<open>decode_pointer_field\<close> allocates what it needs, loses no block, and keeps the
  message well-typed.
\<close>

section \<open>Allocation\<close>

definition old_cells :: "cell list option \<Rightarrow> cell list" where
  "old_cells p = (case p of None \<Rightarrow> [] | Some block \<Rightarrow> block)"

lemma old_cells_simps [simp]: "old_cells None = []" "old_cells (Some block) = block"
  by (simp_all add: old_cells_def)

lemma realloc_cells:
  assumes "pb_realloc al Byte p n = Some block"
  obtains ds where "block = take n (old_cells p) @ ds" "plain ds" "length block = n" "malloc_ok al n"
proof -
  let ?old = "take n (old_cells p)"
  have "malloc_ok al n" using assms by (simp add: pb_realloc_def split: if_splits)
  moreover have "block = ?old @ map (\<lambda>i. Byte (junk al i)) [length ?old..<n]"
    using assms by (cases p) (simp_all add: pb_realloc_def Let_def split: if_splits)
  moreover have "plain (map (\<lambda>i. Byte (junk al i)) [length ?old..<n])" by (simp add: plain_def list_all_iff)
  ultimately show ?thesis using that length_pb_realloc [OF assms] by blast
qed

text \<open>The check of \<open>allocate_field\<close> is exact: the product of the sizes does not wrap around.\<close>

lemma no_overflow:
  fixes m n :: u64
  assumes "n \<noteq> 0" "\<not> ((m \<ge> push_bit 32 1 \<or> n \<ge> push_bit 32 1) \<and> (- 1) div n < m)"
  shows "unat (n * m) = unat n * unat m"
proof -
  have "unat n * unat m < 2 ^ 64"
  proof (cases "m \<ge> push_bit 32 1 \<or> n \<ge> push_bit 32 1")
    case True
    with assms(2) have "\<not> (- 1) div n < m" by blast
    then have "m \<le> (- 1) div n" by (simp add: not_less)
    then have "unat m \<le> unat (- 1 :: u64) div unat n" by (simp add: word_le_nat_alt unat_div)
    then have "unat m * unat n \<le> unat (- 1 :: u64) div unat n * unat n" by (rule mult_le_mono1)
    also have "\<dots> \<le> unat (- 1 :: u64)" by simp
    also have "\<dots> < 2 ^ 64" using unsigned_less [of "- 1 :: u64", where 'a = nat] by simp
    finally show ?thesis by (simp add: mult.commute)
  next
    case False
    then have "unat m < 2 ^ 32" "unat n < 2 ^ 32" by (simp_all add: not_le word_less_nat_alt push_bit_eq_mult)
    then have "unat n * unat m < 2 ^ 32 * 2 ^ 32" by (intro mult_strict_mono') simp_all
    then show ?thesis by simp
  qed
  then show ?thesis by (simp add: unat_word_ariths)
qed

lemma allocate_at_cases:
  fixes bytes entries :: u64
  assumes p: "points_at off p mem" and limit: "\<And>m. malloc_ok al m \<Longrightarrow> m < 2 ^ 32"
  defines "N \<equiv> unat entries * unat bytes"
  shows "(\<exists>e. allocate_at al off bytes entries (s, mem) = Some (None, s\<lparr>ierrmsg := e\<rparr>, mem)) \<or>
    (\<exists>ds. allocate_at al off bytes entries (s, mem) =
        Some (Some (), s, put_window off (ptr_cells (take N (old_cells p) @ ds)) mem) \<and>
      plain ds \<and> length (take N (old_cells p) @ ds) = N \<and> N < 2 ^ 32)"
proof -
  have err: "\<exists>e. pb_ireturn_error s msg = Some (None, s\<lparr>ierrmsg := e\<rparr>)" for msg
    by (simp add: pb_ireturn_error_def) metis
  consider (bad) "\<exists>msg. allocate_field al Byte s p bytes entries = pb_ireturn_error s msg"
    | (good) block where "allocate_field al Byte s p bytes entries = Some (Some block, s)" "pb_realloc al Byte p N = Some block"
  proof (cases "bytes = 0 \<or> entries = 0 \<or> (bytes \<ge> push_bit 32 1 \<or> entries \<ge> push_bit 32 1) \<and> (- 1) div entries < bytes")
    case True
    then have "allocate_field al Byte s p bytes entries = pb_ireturn_error s ''invalid size'' \<or>
        allocate_field al Byte s p bytes entries = pb_ireturn_error s ''size too large''"
      by (simp only: allocate_field_def Let_def) auto
    then show ?thesis using that(1) by blast
  next
    case False
    then have "unat (entries * bytes) = N" unfolding N_def by (intro no_overflow) auto
    with False have "allocate_field al Byte s p bytes entries = (case pb_realloc al Byte p N of
        None \<Rightarrow> pb_ireturn_error s ''realloc failed'' | Some block \<Rightarrow> Some (Some block, s))"
      by (auto simp: allocate_field_def Let_def)
    then show ?thesis using that by (cases "pb_realloc al Byte p N") auto
  qed
  then show ?thesis
  proof cases
    case bad
    then obtain msg e where "allocate_field al Byte s p bytes entries = pb_ireturn_error s msg"
      "pb_ireturn_error s msg = (Some (None, s\<lparr>ierrmsg := e\<rparr>) :: (cell list, _) pb_result)" using err by blast
    with points_at_load [OF p] show ?thesis by (intro disjI1 exI [of _ e]) (simp add: allocate_at_def)
  next
    case good
    from realloc_cells [OF good(2)] obtain ds where
      "block = take N (old_cells p) @ ds" "plain ds" "length block = N" "malloc_ok al N" .
    with good points_at_load [OF p] limit show ?thesis
      by (intro disjI2 exI [of _ ds]) (simp add: allocate_at_def mem_step_def move_ptr_def)
  qed
qed

section \<open>A new item\<close>

lemma element_in: "Suc i * unat (data_size f) \<le> m \<Longrightarrow> element f i (take m block @ ds) = element f i block"
  if "m \<le> length block"
proof -
  assume i: "Suc i * unat (data_size f) \<le> m"
  let ?n = "unat (data_size f)"
  have "drop (i * ?n) (take m block @ ds) = take (m - i * ?n) (drop (i * ?n) block) @ ds"
    using that i by (simp add: drop_take)
  moreover have "?n \<le> m - i * ?n" using i by simp
  moreover have "?n \<le> length block - i * ?n" using i that by simp
  ultimately show ?thesis by (simp add: element_def min_def)
qed

lemma array_ok_realloc:
  assumes "target_ok sub f k p" "is_repeated f" "k * unat (data_size f) \<le> N" "plain ds"
  shows "array_ok sub f k (take N (old_cells p) @ ds)"
proof (cases p)
  case None
  with assms show ?thesis by (simp add: target_ok_def array_ok_def)
next
  case (Some block)
  let ?n = "unat (data_size f)"
  have arr: "array_ok sub f k block" using assms(1,2) Some by (simp add: target_ok_def)
  define m where "m = min N (length block)"
  have m: "k * ?n \<le> m" "m \<le> length block" "take N block = take m block" using arr assms(3) by (simp_all add: m_def array_ok_def min_def)
  have "element_ok sub f (element f i (take m block @ ds))" if "i < k" for i
  proof -
    have "Suc i * ?n \<le> k * ?n" using that by (intro mult_le_mono1) simp
    then have "Suc i * ?n \<le> m" using m(1) by simp
    from element_in [OF m(2) this] arr that show ?thesis by (simp add: array_ok_def)
  qed
  moreover have "plain (drop (k * ?n) (take m block))"
    using arr by (auto simp: array_ok_def drop_take)
  ultimately show ?thesis using Some m assms(4) by (simp add: array_ok_def)
qed

lemma initialize_item:
  assumes ok: "callees_ok env (\<lambda>_. True) sub B calls" and f: "field_ok f" "is_pointer f" "is_text f \<Longrightarrow> is_repeated f"
    and fits: "\<And>d. is_sub f \<Longrightarrow> field_ptr f = Fields d \<Longrightarrow> layout_fits (messages env d) (unat (data_size f))"
    and cs: "plain cs" "length cs = unat (data_size f)"
  shows "\<exists>cs'. initialize_pointer_field calls f cs = Some cs' \<and> length cs' = length cs \<and> plain cs' \<and> element_ok sub f cs'"
proof -
  have w: "window 0 (length cs) cs = Some cs" by (rule window_whole)
  consider "is_text f" | "is_sub f" "\<not> is_text f" | "\<not> is_text f" "\<not> is_sub f" by blast
  then show ?thesis
  proof cases
    case 1
    then have n: "unat (data_size f) = 8" using field_okD(7) [OF f(1,2) 1 f(3)] by simp
    with w cs have "store_bytes 0 (replicate 8 0) cs = Some null_cells"
      by (simp add: store_bytes_def window_whole(2) zeros_null del: map_replicate)
    with 1 n cs show ?thesis by (simp add: initialize_pointer_field_def is_text_def element_ok_def)
  next
    case 2
    then obtain d where d: "field_ptr f = Fields d" using field_okD(8) [OF f(1)] by blast
    let ?z = "map Byte (replicate (unat (data_size f)) 0)"
    have "store_bytes 0 (replicate (unat (data_size f)) 0) cs = Some ?z"
      using w cs by (simp add: store_bytes_def window_whole(2) del: map_replicate)
    moreover have "layout_fits (messages env d) (length ?z)" using fits [OF 2(1) d] by simp
    from callees_okD(1) [OF ok this TrueI] obtain cs' where
      "set_defaults calls d ?z = Some cs'" "length cs' = length ?z" "plain cs'" "sub d cs'" by auto
    ultimately show ?thesis using 2 d cs
      by (intro exI [of _ cs']) (simp add: initialize_pointer_field_def element_ok_def item_ok_def is_text_def del: map_replicate)
  next
    case 3
    with cs show ?thesis by (simp add: initialize_pointer_field_def element_ok_def item_ok_def is_text_def)
  qed
qed

lemma decode_element_safe:
  assumes ok: "callees_ok env (\<lambda>_. True) sub B calls" and f: "field_ok f" "is_pointer f" "is_text f \<Longrightarrow> is_repeated f"
    and fits: "\<And>d. is_sub f \<Longrightarrow> field_ptr f = Fields d \<Longrightarrow> layout_fits (messages env d) (unat (data_size f))"
    and cs: "plain cs" "length cs = unat (data_size f)" "element_ok sub f cs"
    and s: "wf_istream s" "unat (bytes_left s) \<le> Suc B"
  shows "safely s (\<lambda>r s' cs'. length cs' = length cs \<and> element_ok sub f cs' \<and>
      (ltype f \<le> PB_LTYPE_LAST_PACKABLE \<and> r \<noteq> None \<longrightarrow> unat (bytes_left s') < unat (bytes_left s)))
    (pb_decoder al calls f cs s)"
proof (cases "is_text f")
  case False
  with cs(3) have "item_ok sub f cs" by (simp add: element_ok_def)
  show ?thesis
    by (rule safely_mono [OF decoder_safe [OF ok f(1) _ fits \<open>item_ok sub f cs\<close> cs(2) cs(1) s]])
      (use False in \<open>simp_all add: element_ok_def\<close>)
next
  case True
  have n: "length cs = 8" using field_okD(7) [OF f(1,2) True f(3) [OF True]] cs(2) by simp
  have np: "\<not> ltype f \<le> PB_LTYPE_LAST_PACKABLE"
    using True by (auto simp: is_text_def pb_ltypes PB_LTYPE_LAST_PACKABLE_def)
  have "text_ok cs" using True cs(3) by (simp add: element_ok_def)
  from safely_text [OF s(1) f(2) this, of al] True
  have "safely s (\<lambda>r s' cs'. text_ok cs') (pb_decoder al calls f cs s)" by (auto simp: is_text_def decoder_of)
  then show ?thesis by (rule safely_mono) (use True n np length_text in \<open>auto simp: element_ok_def\<close>)
qed


text \<open>The item behind \<open>k\<close> others in a block is cleared, decoded, and joins them.\<close>

lemma array_ok_put:
  assumes arr: "array_ok sub f k block" and room: "Suc k * unat (data_size f) \<le> length block"
    and cs: "length cs = unat (data_size f)" "element_ok sub f cs"
  shows "array_ok sub f (Suc k) (put_window (elem_at (unat (data_size f)) k) cs block)"
proof -
  let ?n = "unat (data_size f)" let ?b = "put_window (elem_at ?n k) cs block"
  have in_block: "nat (elem_at ?n k) + length cs \<le> length block" using room cs(1) by simp
  have len: "length ?b = length block" using in_block by simp
  have "element_ok sub f (element f i ?b)" if i: "i < Suc k" for i
  proof (cases "i = k")
    case True
    have "window (elem_at ?n k) ?n ?b = Some cs" using in_block cs(1) by simp
    moreover have "Suc k * unat (data_size f) \<le> length ?b" using room len by simp
    from window_element [OF this] have "window (elem_at ?n k) ?n ?b = Some (element f k ?b)" .
    ultimately show ?thesis using True cs(2) by simp
  next
    case False
    then have "Suc i * ?n \<le> Suc k * ?n" using i by (intro mult_le_mono1) simp
    then have "Suc i * ?n \<le> length block" using room by (rule le_trans)
    from element_put_other [OF False room cs(1) this] arr i False show ?thesis by (simp add: array_ok_def)
  qed
  moreover have "plain (drop (Suc k * ?n) ?b)"
  proof -
    have "drop (Suc k * ?n) ?b = drop ?n (drop (k * ?n) block)"
      using room cs(1) by (simp add: put_window_def add.commute)
    moreover have "plain (drop ?n (drop (k * ?n) block))" using arr plain_drop unfolding array_ok_def by blast
    ultimately show ?thesis by (simp only:)
  qed
  ultimately show ?thesis using room len by (simp add: array_ok_def)
qed

lemma new_item_safe:
  assumes ok: "level_ok env (\<lambda>_. True) sub B calls fs n" and at: "is_at fs i iter"
    and f: "is_pointer (fs ! i)" "is_text (fs ! i) \<Longrightarrow> is_repeated (fs ! i)"
    and p: "points_at (data_at fs i) (Some block) mem"
    and arr: "array_ok sub (fs ! i) k block" and room: "Suc k * unat (data_size (fs ! i)) \<le> length block"
    and s: "wf_istream s" "unat (bytes_left s) \<le> Suc B"
  shows "safely s (\<lambda>r s' mem'. \<exists>block'. mem' = put_window (data_at fs i) (ptr_cells block') mem \<and>
      length block' = length block \<and> array_ok sub (fs ! i) (Suc k) block' \<and>
      (ltype (fs ! i) \<le> PB_LTYPE_LAST_PACKABLE \<and> r \<noteq> None \<longrightarrow> unat (bytes_left s') < unat (bytes_left s)))
    (decode_new_item al calls iter (elem_at (unat (data_size (fs ! i))) k) (s, mem))"
proof -
  note lvl = level_okD [OF ok]
  note it = is_at_simps(1-3) [OF lvl(3) at] note i = is_at_simps(6) [OF lvl(3) at]
  have data: "pData iter = data_at fs i" using is_at_simps(5) [OF lvl(3) at] by (simp add: data_at_def)
  let ?f = "fs ! i" let ?n = "unat (data_size ?f)" let ?off = "elem_at ?n k"
  note fok = lvl(4) [OF i]
  have size: "item_size ?f = ?n" using field_ok_size [OF fok] .
  note w = window_element [OF room]
  have el: "plain (element ?f k block)" "length (element ?f k block) = ?n"
    using arr length_element [OF room] unfolding array_ok_def element_def by blast+
  from initialize_item [OF lvl(1) fok f lvl(5) [OF i] el] obtain cs where
    c: "initialize_pointer_field calls ?f (element ?f k block) = Some cs" "length cs = ?n" "plain cs" "element_ok sub ?f cs"
    unfolding el(2) by blast
  from decode_element_safe [OF lvl(1) fok f lvl(5) [OF i] c(3,2,4) s, of al] obtain r s' cs' where
    d: "pb_decoder al calls ?f cs s = Some (r, s', cs')" "goes_on s s'" "length cs' = ?n" "element_ok sub ?f cs'"
      "ltype ?f \<le> PB_LTYPE_LAST_PACKABLE \<and> r \<noteq> None \<longrightarrow> unat (bytes_left s') < unat (bytes_left s)"
    unfolding safely_def c(2) by blast
  have "decode_new_item al calls iter ?off (s, mem) =
      Some (r, s', put_window (data_at fs i) (ptr_cells (put_window ?off cs' block)) mem)"
    using points_at_load [OF p] w c(1) d(1) it data size
    by (simp add: decode_new_item_def in_block_def in_window_def)
  moreover have "length (put_window ?off cs' block) = length block" using room d(3) by simp
  ultimately show ?thesis
    using array_ok_put [OF arr room d(3,4)] d(2,5) by (auto intro!: safelyI)
qed


section \<open>The slot of a pointer\<close>

lemma cells_of_inj: "cells_of p = cells_of q \<longleftrightarrow> p = q"
  by (metis cells_of_simps(4) option.inject)

definition slot_ptr :: "pb_field list \<Rightarrow> nat \<Rightarrow> cell list \<Rightarrow> cell list option \<Rightarrow> cell list \<Rightarrow> bool" where
  "slot_ptr fs i mem0 p mem \<longleftrightarrow>
     agree (span fs i) mem0 mem \<and> points_at (data_at fs i) p mem \<and>
     plain_at (data_at fs i + int (data_len (fs ! i))) (slot_len fs i - data_len (fs ! i)) mem \<and>
     plain_at (size_at fs i) (size_len (fs ! i)) mem"

lemma slot_ptrD:
  assumes "slot_ptr fs i mem0 p mem"
  shows "agree (span fs i) mem0 mem" "points_at (data_at fs i) p mem" "length mem = length mem0"
  using assms by (auto simp: slot_ptr_def dest: agree_length)

lemma slot_ptr_holds:
  assumes "holds sub fs i mem k cs" "is_pointer (fs ! i)"
  obtains p where "slot_ptr fs i mem p mem" "target_ok sub (fs ! i) k p" "cs = cells_of p"
proof -
  from holds_pointer [OF assms] obtain p where p: "points_at (data_at fs i) p mem" "target_ok sub (fs ! i) k p" .
  moreover have "data_len (fs ! i) = 8" using assms(2) by (simp add: data_len_def)
  ultimately show ?thesis using assms(1) that by (auto simp: holds_def slot_ptr_def)
qed

lemma slot_ptr_put:
  assumes "layout_fits fs (length mem0)" "i < length fs" "is_pointer (fs ! i)" "slot_ptr fs i mem0 p mem"
  shows "slot_ptr fs i mem0 q (put_window (data_at fs i) (cells_of q) mem)"
    "window (size_at fs i) (size_len (fs ! i)) (put_window (data_at fs i) (cells_of q) mem) =
      window (size_at fs i) (size_len (fs ! i)) mem"
proof -
  have len: "data_len (fs ! i) = 8" "length (cells_of q) = data_len (fs ! i)" using assms(3) by (simp_all add: data_len_def)
  have "layout_fits fs (length mem)" using assms(1) slot_ptrD(3) [OF assms(4)] by simp
  note put = put_data [OF this assms(2) len(2)]
  show "window (size_at fs i) (size_len (fs ! i)) (put_window (data_at fs i) (cells_of q) mem) =
      window (size_at fs i) (size_len (fs ! i)) mem" by (rule put(4))
  show "slot_ptr fs i mem0 q (put_window (data_at fs i) (cells_of q) mem)"
    using assms(4) put len agree_trans [OF slot_ptrD(1) [OF assms(4)] put(1)] by (simp add: slot_ptr_def plain_at_def)
qed

lemma slot_ptr_size:
  assumes "layout_fits fs (length mem0)" "i < length fs" "is_pointer (fs ! i)" "slot_ptr fs i mem0 p mem"
    "length ds = size_len (fs ! i)" "plain ds"
  shows "slot_ptr fs i mem0 p (put_window (size_at fs i) ds mem)"
    "window (size_at fs i) (size_len (fs ! i)) (put_window (size_at fs i) ds mem) = Some ds"
proof -
  have "layout_fits fs (length mem)" using assms(1) slot_ptrD(3) [OF assms(4)] by simp
  note put = put_size [OF this assms(2,5)]
  show "window (size_at fs i) (size_len (fs ! i)) (put_window (size_at fs i) ds mem) = Some ds" by (rule put(5))
  show "slot_ptr fs i mem0 p (put_window (size_at fs i) ds mem)"
    using assms(3,4,6) put agree_trans [OF slot_ptrD(1) [OF assms(4)] put(1)] by (simp add: slot_ptr_def plain_at_def data_len_def)
qed

lemma slot_ptr_wt:
  assumes "wt_fields sub fs mem0" "layout_fits fs (length mem0)" "i < length fs" "is_pointer (fs ! i)"
    "slot_ptr fs i mem0 p mem" "count_at fs i mem = Some k" "target_ok sub (fs ! i) k p" "current fs i mem"
  shows "kept sub fs mem0 mem" "holds sub fs i mem k (cells_of p)"
proof -
  have len: "data_len (fs ! i) = 8" using assms(4) by (simp add: data_len_def)
  have "value_ok sub (fs ! i) k (cells_of p)" using assms(4,7) by (simp add: value_ok_def)
  then show h: "holds sub fs i mem k (cells_of p)" using assms(5,6,8) len by (simp add: holds_def slot_ptr_def)
  show "kept sub fs mem0 mem"
    using holds_wt [OF assms(1-3) slot_ptrD(1) [OF assms(5)] h] slot_ptrD(3) [OF assms(5)] by simp
qed

text \<open>The count only depends on the bytes at \<open>pSize\<close>.\<close>

lemma count_same:
  assumes "window (size_at fs i) (size_len (fs ! i)) mem' = window (size_at fs i) (size_len (fs ! i)) mem"
  shows "count_at fs i mem' = count_at fs i mem" "current fs i mem' = current fs i mem"
proof -
  have "load_size (size_at fs i) mem' = load_size (size_at fs i) mem" if "size_len (fs ! i) = 4"
    using assms that by (simp add: load_size_def load_bytes_def)
  then show "count_at fs i mem' = count_at fs i mem" "current fs i mem' = current fs i mem"
    by (auto simp: count_at_def current_def size_of_repeated)
qed

section \<open>A single value\<close>

text \<open>Up to the allocation: the old submessage is released, and a union gets this field.\<close>

lemma pointer_prepared:
  assumes ok: "level_ok env (\<lambda>_. True) sub B calls fs (length mem)" and i: "i < length fs"
    and f: "is_pointer (fs ! i)" "\<not> is_repeated (fs ! i)" and rdy: "ready sub fs i mem"
  shows "\<exists>p mem1 mem2 q. load_ptr (data_at fs i) mem = Some p \<and>
    (if is_sub (fs ! i) \<and> p \<noteq> None then pb_release_single_field (release_message calls) (nth_iter fs i) mem else Some mem) = Some mem1 \<and>
    (if is_oneof (fs ! i) then store_size (size_at fs i) (field_tag (fs ! i)) mem1 else Some mem1) = Some mem2 \<and>
    kept sub fs mem mem2 \<and> slot_ptr fs i mem2 q mem2 \<and> holds sub fs i mem2 0 (cells_of q) \<and> target_ok sub (fs ! i) 0 q \<and>
    (is_sub (fs ! i) \<longrightarrow> q = None)"
proof -
  note lvl = level_okD [OF ok] note lay = layout_at [OF lvl(2) i]
  let ?f = "fs ! i"
  have len: "data_len ?f = 8" using f by (simp add: data_len_def)
  have count: "count_at fs i m = Some 0" for m using f by (simp add: count_at_def)
  from rdy obtain mem0 where wt0: "wt_fields sub fs mem0" "agree (span fs i) mem0 mem"
    and sz: "plain_at (size_at fs i) (size_len ?f) mem"
    and state: "current fs i mem \<and> mem0 = mem \<or>
      is_oneof ?f \<and> \<not> current fs i mem \<and> plain_at (data_at fs i) (slot_len fs i) mem \<and> null_if_pointer fs i mem"
    by (rule readyE)
  have fits: "layout_fits fs (length mem0)" using lvl(2) agree_length [OF wt0(2)] by simp
  have "\<exists>p mem1 q. load_ptr (data_at fs i) mem = Some p \<and>
    (if is_sub ?f \<and> p \<noteq> None then pb_release_single_field (release_message calls) (nth_iter fs i) mem else Some mem) = Some mem1 \<and>
    slot_ptr fs i mem0 q mem1 \<and> target_ok sub ?f 0 q \<and> (is_sub ?f \<longrightarrow> q = None) \<and> (\<not> is_oneof ?f \<longrightarrow> current fs i mem1)"
  proof (cases "current fs i mem")
    case True
    then have wt: "wt_fields sub fs mem" "mem0 = mem" using wt0(1) state by auto
    from wt_holds [OF wt(1) i True] obtain k cs where h: "holds sub fs i mem k cs" by blast
    from slot_ptr_holds [OF h f(1)] obtain p where p: "slot_ptr fs i mem p mem" "target_ok sub ?f k p" .
    have k: "k = 0" using h count by (simp add: holds_def)
    show ?thesis
    proof (cases "is_sub ?f \<and> p \<noteq> None")
      case False
      with p k True wt(2) points_at_load [OF slot_ptrD(2) [OF p(1)]] show ?thesis by auto
    next
      case rel: True
      from release_field_current [OF ok i h] f(1) obtain mem1 where r:
        "pb_release_single_field (release_message calls) (nth_iter fs i) mem = Some mem1" "agree (span fs i) mem mem1"
        "holds sub fs i mem1 0 null_cells" by blast
      from slot_ptr_holds [OF r(3) f(1)] obtain q where q: "slot_ptr fs i mem1 q mem1" "null_cells = cells_of q" .
      have "q = None" using q(2) cells_of_inj [of None q] by simp
      moreover have "slot_ptr fs i mem q mem1" using q(1) r(2) by (simp add: slot_ptr_def)
      moreover have "current fs i mem1" using r(3) by (simp add: holds_def)
      ultimately show ?thesis using r(1) rel wt(2) points_at_load [OF slot_ptrD(2) [OF p(1)]] by (auto simp: target_ok_def)
    qed
  next
    case False
    with state f(1) have one: "is_oneof ?f" and null: "points_at (data_at fs i) None mem"
      and slot: "plain_at (data_at fs i) (slot_len fs i) mem"
      by (auto simp: null_if_pointer_def)
    have "data_len ?f \<le> slot_len fs i" using i by (intro slot_len_ge) simp_all
    with slot window_split [of "data_at fs i" "slot_len fs i" mem _ "data_len ?f"]
    have "plain_at (data_at fs i + int (data_len ?f)) (slot_len fs i - data_len ?f) mem"
      by (auto simp: plain_at_def)
    with null sz wt0(2) have "slot_ptr fs i mem0 None mem" by (simp add: slot_ptr_def)
    with one points_at_load [OF null] show ?thesis by (auto simp: target_ok_def)
  qed
  then obtain p mem1 q where st: "load_ptr (data_at fs i) mem = Some p"
    "(if is_sub ?f \<and> p \<noteq> None then pb_release_single_field (release_message calls) (nth_iter fs i) mem else Some mem) = Some mem1"
    "slot_ptr fs i mem0 q mem1" "target_ok sub ?f 0 q" "is_sub ?f \<longrightarrow> q = None" "\<not> is_oneof ?f \<longrightarrow> current fs i mem1" by blast
  have "\<exists>mem2. (if is_oneof ?f then store_size (size_at fs i) (field_tag ?f) mem1 else Some mem1) = Some mem2 \<and>
    kept sub fs mem mem2 \<and> holds sub fs i mem2 0 (cells_of q)"
  proof (cases "is_oneof ?f")
    case True
    have "layout_fits fs (length mem1)" using fits slot_ptrD(3) [OF st(3)] by simp
    moreover have "value_ok sub ?f 0 (cells_of q)" using f st(4) by (simp add: value_ok_def)
    ultimately show ?thesis
      using set_which [OF _ i wt0(1) slot_ptrD(1) [OF st(3)] True, of "cells_of q"] st(3) len True slot_ptrD(3) [OF st(3)]
        agree_length [OF wt0(2)]
      by (auto simp: slot_ptr_def)
  next
    case False
    with slot_ptr_wt [OF wt0(1) fits i f(1) st(3) count st(4)] st(6) agree_length [OF wt0(2)] show ?thesis by simp
  qed
  then obtain mem2 where m2: "(if is_oneof ?f then store_size (size_at fs i) (field_tag ?f) mem1 else Some mem1) = Some mem2"
    "kept sub fs mem mem2" "holds sub fs i mem2 0 (cells_of q)" by blast
  from slot_ptr_holds [OF m2(3) f(1)] obtain q' where "slot_ptr fs i mem2 q' mem2" "cells_of q = cells_of q'" .
  moreover from this(2) have "q' = q" by (simp add: cells_of_inj)
  ultimately show ?thesis using st m2 by blast
qed


text \<open>A single value that is not a string: a block of its size, cleared and decoded.\<close>

lemma single_item_safe:
  assumes ok: "level_ok env (\<lambda>_. True) sub B calls fs (length mem)" and at: "is_at fs i iter"
    and f: "is_pointer (fs ! i)" "\<not> is_repeated (fs ! i)" "\<not> is_text (fs ! i)"
    and wt: "wt_fields sub fs mem" and slot: "slot_ptr fs i mem q mem" "target_ok sub (fs ! i) 0 q" "is_sub (fs ! i) \<longrightarrow> q = None"
      "current fs i mem"
    and s: "wf_istream s" "unat (bytes_left s) \<le> Suc B"
  shows "safely s (keeps sub fs mem)
    (pb_then (allocate_at (allocs env) (data_at fs i) (ucast (data_size (fs ! i))) 1 (s, mem)) (\<lambda>_. decode_new_item (allocs env) calls iter 0))"
proof -
  note lvl = level_okD [OF ok] note i = is_at_simps(6) [OF lvl(3) at]
  let ?f = "fs ! i" let ?n = "unat (data_size ?f)"
  have count: "count_at fs i m = Some 0" for m using f by (simp add: count_at_def)
  have bytes: "unat (ucast (data_size ?f) :: u64) = ?n" by (rule unat_ucast_up) simp
  have entries: "unat (1 :: u64) * unat (ucast (data_size ?f) :: u64) = ?n" using bytes by simp
  from allocate_at_cases [OF slot_ptrD(2) [OF slot(1)] lvl(6), where entries = 1 and bytes = "ucast (data_size ?f)" and s = s, unfolded entries]
  consider (bad) e where "allocate_at (allocs env) (data_at fs i) (ucast (data_size ?f)) 1 (s, mem) = Some (None, s\<lparr>ierrmsg := e\<rparr>, mem)"
    | (good) ds where "allocate_at (allocs env) (data_at fs i) (ucast (data_size ?f)) 1 (s, mem) =
        Some (Some (), s, put_window (data_at fs i) (ptr_cells (take ?n (old_cells q) @ ds)) mem)"
      "plain ds" "length (take ?n (old_cells q) @ ds) = ?n" by blast
  then show ?thesis
  proof cases
    case bad
    with s wt show ?thesis by simp
  next
    case good
    define block where "block = take ?n (old_cells q) @ ds"
    let ?mem = "put_window (data_at fs i) (cells_of (Some block)) mem"
    have "plain (old_cells q)" using slot(2,3) f by (cases q) (auto simp: target_ok_def item_ok_def)
    then have block: "plain block" "length block = ?n" using good(2,3) by (auto simp: block_def)
    then have arr: "array_ok sub ?f 0 block" by (simp add: array_0)
    note put = slot_ptr_put [OF lvl(2) i f(1) slot(1)]
    have p: "points_at (data_at fs i) (Some block) ?mem" using slot_ptrD(2) [OF put(1)] .
    have "safely s (keeps sub fs mem) (decode_new_item (allocs env) calls iter (elem_at ?n 0) (s, ?mem))"
    proof (rule safely_mono [OF new_item_safe [OF ok at f(1) _ p arr _ s]])
      fix r s' mem'
      assume "\<exists>block'. mem' = put_window (data_at fs i) (ptr_cells block') ?mem \<and> length block' = length block \<and>
        array_ok sub ?f (Suc 0) block' \<and> (ltype ?f \<le> PB_LTYPE_LAST_PACKABLE \<and> r \<noteq> None \<longrightarrow> unat (bytes_left s') < unat (bytes_left s))"
      then obtain block' where b: "mem' = put_window (data_at fs i) (cells_of (Some block')) ?mem" "length block' = ?n"
        "array_ok sub ?f (Suc 0) block'" using block(2) by auto
      have "element ?f 0 block' = block'" using b(2) by (simp add: element_def)
      with b(2,3) f have "target_ok sub ?f 0 (Some block')" by (auto simp: target_ok_def array_ok_def element_ok_def)
      moreover note put' = slot_ptr_put [OF lvl(2) i f(1) put(1)]
      have "current fs i mem'" unfolding b(1) using count_same(2) [OF put'(2)] count_same(2) [OF put(2)] slot(4)
        by (simp del: cells_of_simps)
      ultimately show "kept sub fs mem mem'"
        using slot_ptr_wt(1) [OF wt lvl(2) i f(1) put'(1) count] unfolding b(1) by blast
    qed (use f block in auto)
    with good(1) show ?thesis by (simp add: block_def)
  qed
qed

text \<open>A single string.\<close>

lemma single_text_safe:
  assumes ok: "level_ok env (\<lambda>_. True) sub B calls fs (length mem)" and i: "i < length fs"
    and f: "is_pointer (fs ! i)" "\<not> is_repeated (fs ! i)" "is_text (fs ! i)"
    and wt: "wt_fields sub fs mem" and h: "holds sub fs i mem 0 cs" and s: "wf_istream s"
  shows "safely s (keeps sub fs mem) (in_window (data_at fs i) 8 (pb_decoder al calls (fs ! i)) (s, mem))"
proof -
  note lvl = level_okD [OF ok]
  let ?f = "fs ! i"
  have len: "data_len ?f = 8" using f by (simp add: data_len_def)
  have w: "window (data_at fs i) 8 mem = Some cs" and v: "value_ok sub ?f 0 cs" using h len by (simp_all add: holds_def)
  have "text_ok cs" using v f by (auto simp: value_ok_def target_ok_def text_ok_def split: option.splits)
  from safely_text [OF s f(1) this, of al] f(3) have
    "safely s (\<lambda>r s' cs'. text_ok cs') (pb_decoder al calls ?f cs s)" by (auto simp: is_text_def decoder_of)
  then show ?thesis
  proof (intro safely_window [OF w], elim safely_mono)
    fix r s' cs'
    assume t: "text_ok cs'"
    then have "value_ok sub ?f 0 cs'" using f by (auto simp: value_ok_def target_ok_def text_ok_def split: option.splits)
    with put_data_wt [OF lvl(2) i h wt, of cs'] length_text [OF t] len
    show "length cs' = 8 \<and> kept sub fs mem (put_window (data_at fs i) cs' mem)" by simp
  qed
qed


section \<open>Arrays\<close>

lemma offset_exact:
  fixes n c :: u32
  assumes "Suc (unat c) * unat n < 2 ^ 32"
  shows "uint (n * c) = elem_at (unat n) (unat c)"
proof -
  have "unat c * unat n < 2 ^ 32" using assms by simp
  then have "unat (n * c) = unat c * unat n" by (simp add: unat_word_ariths mult.commute)
  then have "nat (uint (n * c)) = unat c * unat n" by simp
  then have "uint (n * c) = int (unat c * unat n)" by (metis nat_eq_iff uint_ge_0 int_nat_eq)
  then show ?thesis by (simp only: elem_at_def)
qed

lemma next_count: "c \<noteq> PB_SIZE_MAX \<Longrightarrow> unat (c + 1) = Suc (unat c)"
proof -
  assume "c \<noteq> PB_SIZE_MAX"
  then have "c \<noteq> - 1" by (simp add: PB_SIZE_MAX_def)
  then have "1 + c \<noteq> 0" by (simp add: eq_neg_iff_add_eq_0 add.commute)
  then show "unat (c + 1) = Suc (unat c)" using unatSuc [of c] by (simp add: add.commute)
qed

text \<open>The block of an array with \<open>k\<close> items gets room for \<open>E\<close>.\<close>

lemma array_grown:
  fixes entries :: u64
  assumes ok: "level_ok env (\<lambda>_. True) sub B calls fs (length mem)" and i: "i < length fs"
    and f: "is_pointer (fs ! i)" "is_repeated (fs ! i)"
    and slot: "slot_ptr fs i mem p mem" "target_ok sub (fs ! i) k p" and room: "k \<le> unat entries"
  shows "(\<exists>e. allocate_at (allocs env) (data_at fs i) (ucast (data_size (fs ! i))) entries (s, mem) = Some (None, s\<lparr>ierrmsg := e\<rparr>, mem)) \<or>
    (\<exists>block. allocate_at (allocs env) (data_at fs i) (ucast (data_size (fs ! i))) entries (s, mem) =
        Some (Some (), s, put_window (data_at fs i) (cells_of (Some block)) mem) \<and>
      array_ok sub (fs ! i) k block \<and> length block = unat entries * unat (data_size (fs ! i)) \<and>
      length block < 2 ^ 32)"
proof -
  note lvl = level_okD [OF ok]
  let ?f = "fs ! i" let ?n = "unat (data_size ?f)" let ?N = "unat entries * ?n"
  have bytes: "unat (ucast (data_size ?f) :: u64) = ?n" by (rule unat_ucast_up) simp
  note cases = allocate_at_cases [OF slot_ptrD(2) [OF slot(1)] lvl(6), where entries = entries and bytes = "ucast (data_size ?f)" and s = s, unfolded bytes]
  have "k * ?n \<le> ?N" using room by (rule mult_le_mono1)
  then have "plain ds \<Longrightarrow> array_ok sub ?f k (take ?N (old_cells p) @ ds)" for ds
    by (intro array_ok_realloc [OF slot(2) f(2)])
  with cases show ?thesis by (metis cells_of_simps(2))
qed

lemma pointer_array:
  assumes "wt_fields sub fs mem" "i < length fs" "is_pointer (fs ! i)" "is_repeated (fs ! i)"
  obtains p c where "slot_ptr fs i mem p mem" "target_ok sub (fs ! i) (unat c) p" "load_size (size_at fs i) mem = Some c"
proof -
  have "current fs i mem" using assms(4) by (simp add: current_def)
  from wt_holds [OF assms(1,2) this] obtain k cs where h: "holds sub fs i mem k cs" by blast
  from slot_ptr_holds [OF h assms(3)] obtain p where p: "slot_ptr fs i mem p mem" "target_ok sub (fs ! i) k p" .
  from count_of [OF h assms(4,3)] obtain c where "load_size (size_at fs i) mem = Some c" "unat c = k" .
  with p that show ?thesis by blast
qed

text \<open>A new count is stored.\<close>

lemma array_counted:
  assumes fits: "layout_fits fs (length mem0)" and i: "i < length fs" and f: "is_pointer (fs ! i)" "is_repeated (fs ! i)"
    and slot: "slot_ptr fs i mem0 p mem"
  shows "\<exists>mem'. store_size (size_at fs i) c mem = Some mem' \<and> slot_ptr fs i mem0 p mem' \<and> count_at fs i mem' = Some (unat c) \<and>
    load_size (size_at fs i) mem' = Some c"
proof -
  let ?ds = "map Byte (le_bytes 4 (unat c))"
  have len: "size_len (fs ! i) = 4" using f by (simp add: size_of_repeated)
  have "store_size (size_at fs i) c mem = Some (put_window (size_at fs i) ?ds mem)"
    using slot len by (auto simp: slot_ptr_def plain_at_def store_size_exact)
  moreover have "length ?ds = size_len (fs ! i)" using len by simp
  note sz = slot_ptr_size [OF fits i f(1) slot this plain_simps(4)]
  have "load_size (size_at fs i) (put_window (size_at fs i) ?ds mem) = Some c" using load_size_cells sz(2) len by simp
  ultimately show ?thesis using sz(1) f by (simp add: count_at_def)
qed

lemma array_item_new:
  assumes ok: "level_ok env (\<lambda>_. True) sub B calls fs (length mem)" and at: "is_at fs i iter"
    and f: "is_pointer (fs ! i)" "is_repeated (fs ! i)" and wt: "wt_fields sub fs mem"
    and s: "wf_istream s" "unat (bytes_left s) \<le> Suc B"
  shows "safely s (keeps sub fs mem)
    (pb_then (mem_read (load_size (size_at fs i)) (s, mem)) (\<lambda>count st.
       if count = PB_SIZE_MAX then dec_error st ''too many array entries''
       else pb_then (allocate_at (allocs env) (data_at fs i) (ucast (data_size (fs ! i))) (ucast (count + 1)) st) (\<lambda>_ st.
         pb_then (mem_step (store_size (size_at fs i) (count + 1)) st) (\<lambda>_.
           decode_new_item (allocs env) calls iter (uint (data_size (fs ! i) * count))))))"
proof -
  note lvl = level_okD [OF ok] note i = is_at_simps(6) [OF lvl(3) at]
  let ?f = "fs ! i" let ?n = "unat (data_size ?f)"
  from pointer_array [OF wt i f] obtain p c where p: "slot_ptr fs i mem p mem" "target_ok sub ?f (unat c) p"
    "load_size (size_at fs i) mem = Some c" .
  show ?thesis
  proof (cases "c = PB_SIZE_MAX")
    case True
    with p(3) s wt show ?thesis by simp
  next
    case False
    note nc = next_count [OF False]
    have entries: "unat (ucast (c + 1) :: u64) = Suc (unat c)" using nc by (subst unat_ucast_up) simp_all
    from array_grown [OF ok i f p(1,2), of "ucast (c + 1)" s, unfolded entries]
    consider (bad) e where "allocate_at (allocs env) (data_at fs i) (ucast (data_size ?f)) (ucast (c + 1)) (s, mem) = Some (None, s\<lparr>ierrmsg := e\<rparr>, mem)"
      | (good) block where "allocate_at (allocs env) (data_at fs i) (ucast (data_size ?f)) (ucast (c + 1)) (s, mem) =
          Some (Some (), s, put_window (data_at fs i) (cells_of (Some block)) mem)"
        "array_ok sub ?f (unat c) block" "length block = Suc (unat c) * ?n" "length block < 2 ^ 32" by fastforce
    then show ?thesis
    proof cases
      case bad
      with p(3) False s wt show ?thesis by simp
    next
      case good
      let ?mem = "put_window (data_at fs i) (cells_of (Some block)) mem"
      note put = slot_ptr_put [OF lvl(2) i f(1) p(1)]
      from array_counted [OF lvl(2) i f put(1), of "c + 1" "Some block"] nc obtain mem2 where
        m2: "store_size (size_at fs i) (c + 1) ?mem = Some mem2" "slot_ptr fs i mem (Some block) mem2"
          "count_at fs i mem2 = Some (Suc (unat c))" by auto
      have off: "uint (data_size ?f * c) = elem_at ?n (unat c)" by (rule offset_exact) (use good(3,4) in simp)
      have "safely s (keeps sub fs mem) (decode_new_item (allocs env) calls iter (elem_at ?n (unat c)) (s, mem2))"
      proof (rule safely_mono [OF new_item_safe [OF ok at f(1) _ slot_ptrD(2) [OF m2(2)] good(2) _ s]])
        fix r s' mem'
        assume "\<exists>block'. mem' = put_window (data_at fs i) (ptr_cells block') mem2 \<and> length block' = length block \<and>
          array_ok sub ?f (Suc (unat c)) block' \<and> (ltype ?f \<le> PB_LTYPE_LAST_PACKABLE \<and> r \<noteq> None \<longrightarrow> unat (bytes_left s') < unat (bytes_left s))"
        then obtain block' where b: "mem' = put_window (data_at fs i) (cells_of (Some block')) mem2"
          "array_ok sub ?f (Suc (unat c)) block'" by auto
        note put' = slot_ptr_put [OF lvl(2) i f(1) m2(2)]
        have "target_ok sub ?f (Suc (unat c)) (Some block')" using b(2) f by (simp add: target_ok_def)
        moreover have "count_at fs i mem' = Some (Suc (unat c))" unfolding b(1) using count_same(1) [OF put'(2)] m2(3)
          by (simp del: cells_of_simps)
        moreover have "current fs i mem'" using f by (simp add: current_def)
        ultimately show "kept sub fs mem mem'"
          using slot_ptr_wt(1) [OF wt lvl(2) i f(1) put'(1)] unfolding b(1) by blast
      qed (use f good(3) in simp_all)
      with p(3) False good(1) m2(1) off show ?thesis by (simp add: mem_step_def)
    qed
  qed
qed


text \<open>A packed array: \<open>allocated\<close> items fit into the block, when there are fewer.\<close>

definition has_room :: "pb_field list \<Rightarrow> nat \<Rightarrow> u64 \<Rightarrow> u32 \<Rightarrow> cell list \<Rightarrow> bool" where
  "has_room fs i allocated c mem \<longleftrightarrow>
     unat c \<le> unat allocated \<and> unat allocated < 2 ^ 32 \<and>
     (unat c < unat allocated \<longrightarrow> (\<exists>block. points_at (data_at fs i) (Some block) mem \<and>
        unat allocated * unat (data_size (fs ! i)) \<le> length block \<and> unat allocated * unat (data_size (fs ! i)) < 2 ^ 32))"

definition grown :: "u64 \<Rightarrow> u64 \<Rightarrow> u64" where
  "grown allocated remain =
     (if remain < ucast PB_SIZE_MAX - allocated then allocated + remain else allocated + 1)"

lemma remain_not_0:
  fixes b n :: u64
  assumes "b \<noteq> 0"
  shows "(b - 1) div n + 1 \<noteq> 0"
proof
  assume "(b - 1) div n + 1 = 0"
  then have "(b - 1) div n = - 1" by (simp add: eq_neg_iff_add_eq_0)
  moreover have "unat ((b - 1) div n) \<le> unat (b - 1)" by (simp add: unat_div)
  ultimately have "unat (- 1 :: u64) \<le> unat (b - 1)" by simp
  then have "- 1 \<le> b - 1" by (simp add: word_le_nat_alt)
  moreover have "b - 1 \<le> - 1" by simp
  ultimately have "b - 1 = - 1" by (rule antisym [rotated])
  with assms show False by simp
qed

lemma grown_more:
  assumes "unat allocated < 2 ^ 32" "remain \<noteq> 0"
  shows "unat allocated < unat (grown allocated remain)"
proof (cases "remain < ucast PB_SIZE_MAX - allocated")
  case True
  have m: "(ucast PB_SIZE_MAX :: u64) = 0xFFFFFFFF"
    by (simp add: PB_SIZE_MAX_def unsigned_minus_1_eq_mask mask_eq_exp_minus_1)
  have "allocated \<le> 0xFFFFFFFF" using assms(1) by (simp add: word_le_nat_alt)
  then have "unat (0xFFFFFFFF - allocated) = 0xFFFFFFFF - unat allocated" by (simp add: unat_sub)
  then have "unat remain < 0xFFFFFFFF - unat allocated" using True m by (simp add: word_less_nat_alt)
  then have "unat (allocated + remain) = unat allocated + unat remain" by (simp add: unat_word_ariths)
  moreover have "0 < unat remain" using assms(2) by (simp add: unat_gt_0)
  ultimately show ?thesis using True by (simp add: grown_def)
next
  case False
  have "unat (allocated + 1) = unat allocated + 1" using assms(1) by (simp add: unat_word_ariths)
  with False show ?thesis by (simp add: grown_def)
qed

text \<open>Before an item is decoded there is room for it.\<close>

lemma packed_room:
  assumes ok: "level_ok env (\<lambda>_. True) sub B calls fs (length mem)" and i: "i < length fs"
    and f: "is_pointer (fs ! i)" "is_repeated (fs ! i)" and wt: "wt_fields sub fs mem"
    and c: "load_size (size_at fs i) mem = Some c" and room: "has_room fs i allocated c mem" and r: "remain \<noteq> 0"
  defines "needed \<equiv> ucast c + 1 > allocated"
  defines "a \<equiv> (if needed then grown allocated remain else allocated)"
  shows "(\<exists>e. (if needed then allocate_at (allocs env) (data_at fs i) (ucast (data_size (fs ! i))) a (s, mem) else pb_ok (s, mem)) =
      Some (None, s\<lparr>ierrmsg := e\<rparr>, mem)) \<or>
    (\<exists>mem1 block. (if needed then allocate_at (allocs env) (data_at fs i) (ucast (data_size (fs ! i))) a (s, mem) else pb_ok (s, mem)) =
        Some (Some (), s, mem1) \<and> slot_ptr fs i mem (Some block) mem1 \<and> count_at fs i mem1 = Some (unat c) \<and>
      load_size (size_at fs i) mem1 = Some c \<and> array_ok sub (fs ! i) (unat c) block \<and>
      unat c < unat a \<and> unat a < 2 ^ 32 \<and> unat a * unat (data_size (fs ! i)) \<le> length block \<and>
      unat a * unat (data_size (fs ! i)) < 2 ^ 32)"
proof -
  note lvl = level_okD [OF ok]
  let ?f = "fs ! i" let ?n = "unat (data_size ?f)"
  have n: "0 < ?n" using field_okD(2) [OF lvl(4) [OF i]] by (simp add: unat_gt_0)
  from pointer_array [OF wt i f] obtain p c' where p: "slot_ptr fs i mem p mem" "target_ok sub ?f (unat c') p"
    "load_size (size_at fs i) mem = Some c'" .
  have cc: "c' = c" using p(3) c by simp
  have "unat (ucast c :: u64) = unat c" by (rule unat_ucast_up) simp
  then have "unat (ucast c + 1 :: u64) = Suc (unat c)" using unsigned_less [of c, where 'a = nat] by (simp add: unat_word_ariths)
  then have needed: "needed \<longleftrightarrow> unat c = unat allocated" using room by (auto simp: needed_def word_less_nat_alt has_room_def)
  show ?thesis
  proof (cases needed)
    case False
    with room needed obtain block where b: "points_at (data_at fs i) (Some block) mem" "unat allocated * ?n \<le> length block"
      "unat allocated * ?n < 2 ^ 32" "unat c < unat allocated" "unat allocated < 2 ^ 32" by (auto simp: has_room_def)
    have "p = Some block" using slot_ptrD(2) [OF p(1)] b(1) cells_of_inj by fastforce
    with p cc f c b False have "slot_ptr fs i mem (Some block) mem" "array_ok sub ?f (unat c) block" "count_at fs i mem = Some (unat c)"
      by (simp_all add: target_ok_def count_at_def)
    with b c False show ?thesis by (intro disjI2 exI [of _ mem] exI [of _ block]) (simp add: a_def)
  next
    case True
    have "unat allocated < 2 ^ 32" using room by (simp add: has_room_def)
    from grown_more [OF this r] True needed have a: "unat c < unat a" by (simp add: a_def)
    from array_grown [OF ok i f p(1,2), of a s, unfolded cc] a
    consider (bad) e where "allocate_at (allocs env) (data_at fs i) (ucast (data_size ?f)) a (s, mem) = Some (None, s\<lparr>ierrmsg := e\<rparr>, mem)"
      | (good) block where "allocate_at (allocs env) (data_at fs i) (ucast (data_size ?f)) a (s, mem) =
          Some (Some (), s, put_window (data_at fs i) (cells_of (Some block)) mem)"
        "array_ok sub ?f (unat c) block" "length block = unat a * ?n" "length block < 2 ^ 32" by fastforce
    then show ?thesis
    proof cases
      case bad
      with True show ?thesis by auto
    next
      case good
      note put = slot_ptr_put [OF lvl(2) i f(1) p(1), of "Some block"]
      let ?mem = "put_window (data_at fs i) (cells_of (Some block)) mem"
      have "size_len ?f = 4" using f by (simp add: size_of_repeated)
      then have ld: "load_size (size_at fs i) ?mem = Some c" using put(2) c by (simp add: load_size_def load_bytes_def)
      then have "count_at fs i ?mem = Some (unat c)" using f by (simp add: count_at_def)
      moreover have "unat a * 1 \<le> unat a * ?n" by (rule mult_le_mono2) (use n in simp)
      then have "unat a < 2 ^ 32" using good(3,4) by (simp only: mult_1_right)
      ultimately show ?thesis using True good put(1) a ld
        by (intro disjI2, rule_tac x = ?mem in exI, rule_tac x = block in exI) simp
    qed
  qed
qed


lemma packed_step:
  assumes "is_at fs i iter" "tagged_fields fs" "bytes_left s \<noteq> 0" "load_size sz mem = Some c" "0 < data_size (fs ! i)" "c \<noteq> PB_SIZE_MAX"
  shows "packed_pointer al calls iter sz (Suc k) allocated s0 (s, mem) =
    (let remain = (bytes_left s - 1) div ucast (data_size (fs ! i)) + 1;
         needed = (ucast c + 1 > allocated);
         a = (if needed then grown allocated remain else allocated)
     in case (if needed then allocate_at al (data_at fs i) (ucast (data_size (fs ! i))) a (s, mem) else pb_ok (s, mem)) of
          None \<Rightarrow> None
        | Some (None, st) \<Rightarrow> Some ((False, s0), st)
        | Some (Some _, st) \<Rightarrow>
            (case decode_new_item al calls iter (uint (data_size (fs ! i) * c)) st of
               None \<Rightarrow> None
             | Some (None, st) \<Rightarrow> Some ((False, s0), st)
             | Some (Some _, st) \<Rightarrow>
                 (case mem_step (store_size sz (c + 1)) st of
                    Some (Some _, st) \<Rightarrow> packed_pointer al calls iter sz k a s0 st
                  | _ \<Rightarrow> None)))"
proof -
  note it = is_at_simps(1-3) [OF assms(2,1)] note i = is_at_simps(6) [OF assms(2,1)]
  have data: "pData iter = data_at fs i" using is_at_simps(5) [OF assms(2,1)] by (simp add: data_at_def)
  have "data_size (fs ! i) \<noteq> 0" using assms(5) by auto
  with assms(3,4,6) it i show ?thesis by (simp add: data Let_def grown_def cong: if_cong)
qed

lemma packed_pointer_safe:
  assumes at: "is_at fs i iter" and f: "is_pointer (fs ! i)" "is_repeated (fs ! i)" "ltype (fs ! i) \<le> PB_LTYPE_LAST_PACKABLE"
  shows "level_ok env (\<lambda>_. True) sub B calls fs (length mem) \<Longrightarrow> wt_fields sub fs mem \<Longrightarrow> wf_istream s \<Longrightarrow>
    unat (bytes_left s) \<le> Suc B \<Longrightarrow> unat (bytes_left s) < k \<Longrightarrow> load_size (size_at fs i) mem = Some c \<Longrightarrow>
    has_room fs i allocated c mem \<Longrightarrow>
    \<exists>status e s' mem'. packed_pointer (allocs env) calls iter (size_at fs i) k allocated s0 (s, mem) =
        Some ((status, s0\<lparr>ierrmsg := e\<rparr>), s', mem') \<and> goes_on s s' \<and> kept sub fs mem mem'"
proof (induction k arbitrary: allocated s mem c)
  case 0
  then show ?case by simp
next
  case (Suc k)
  note lvl = level_okD [OF Suc.prems(1)] note i = is_at_simps(6) [OF lvl(3) at]
  let ?f = "fs ! i" let ?n = "unat (data_size ?f)"
  have nt: "\<not> is_text ?f" "\<not> is_sub ?f" using f(3) by (auto simp: is_text_def pb_ltypes PB_LTYPE_LAST_PACKABLE_def)
  consider (over) "bytes_left s = 0" | (many) "bytes_left s \<noteq> 0" "c = PB_SIZE_MAX" | (item) "bytes_left s \<noteq> 0" "c \<noteq> PB_SIZE_MAX" by blast
  then show ?case
  proof cases
    case over
    then show ?thesis using Suc.prems
      by (intro exI [of _ True] exI [of _ "ierrmsg s0"] exI [of _ s] exI [of _ mem]) (simp add: goes_on_refl)
  next
    case many
    moreover have "data_size ?f \<noteq> 0" using field_okD(2) [OF lvl(4) [OF i]] by auto
    ultimately show ?thesis using Suc.prems i is_at_simps(1,2) [OF lvl(3) at]
      by (intro exI [of _ False] exI [of _ "Some ''too many array entries''"] exI [of _ s] exI [of _ mem])
        (simp add: goes_on_refl Let_def)
  next
    case item
    define remain where "remain = (bytes_left s - 1) div (ucast (data_size ?f) :: u64) + 1"
    define needed where "needed \<longleftrightarrow> (ucast c + 1 :: u64) > allocated"
    define a where "a = (if needed then grown allocated remain else allocated)"
    let ?alloc = "if needed then allocate_at (allocs env) (data_at fs i) (ucast (data_size ?f)) a (s, mem) else pb_ok (s, mem)"
    note step = packed_step [OF at lvl(3) item(1) Suc.prems(6) field_okD(2) [OF lvl(4) [OF i]] item(2), of "allocs env" calls k allocated s0,
      folded remain_def needed_def, unfolded Let_def, folded a_def]
    have "remain \<noteq> 0" unfolding remain_def by (rule remain_not_0 [OF item(1)])
    from packed_room [OF Suc.prems(1) i f(1,2) Suc.prems(2,6,7) this, of s, folded needed_def, folded a_def]
    consider (bad) e where "?alloc = Some (None, s\<lparr>ierrmsg := e\<rparr>, mem)"
      | (good) mem1 block where "?alloc = Some (Some (), s, mem1)" "slot_ptr fs i mem (Some block) mem1"
          "count_at fs i mem1 = Some (unat c)" "array_ok sub ?f (unat c) block" "unat c < unat a" "unat a < 2 ^ 32"
          "unat a * ?n \<le> length block" "unat a * ?n < 2 ^ 32" by blast
    then show ?thesis
    proof cases
      case bad
      with step Suc.prems(2,3) show ?thesis
        by (intro exI [of _ False] exI [of _ "ierrmsg s0"] exI [of _ "s\<lparr>ierrmsg := e\<rparr>"] exI [of _ mem])
          (simp add: goes_on_refl del: packed_pointer.simps)
    next
      case good
      have "Suc (unat c) * ?n \<le> unat a * ?n" using good(5) by (intro mult_le_mono1) simp
      then have room: "Suc (unat c) * ?n \<le> length block" "Suc (unat c) * ?n < 2 ^ 32" using good(7,8) by linarith+
      from offset_exact [OF room(2)] have off: "uint (data_size ?f * c) = elem_at ?n (unat c)" .
      from new_item_safe [OF Suc.prems(1) at f(1) _ slot_ptrD(2) [OF good(2)] good(4) room(1) Suc.prems(3,4), of "allocs env"] f
      obtain r s2 block2 where d: "decode_new_item (allocs env) calls iter (elem_at ?n (unat c)) (s, mem1) =
          Some (r, s2, put_window (data_at fs i) (cells_of (Some block2)) mem1)"
        "goes_on s s2" "length block2 = length block" "array_ok sub ?f (Suc (unat c)) block2"
        "r \<noteq> None \<longrightarrow> unat (bytes_left s2) < unat (bytes_left s)" by (auto simp: safely_def)
      let ?mem2 = "put_window (data_at fs i) (cells_of (Some block2)) mem1"
      note put = slot_ptr_put [OF lvl(2) i f(1) good(2)]
      have step2: "packed_pointer (allocs env) calls iter (size_at fs i) (Suc k) allocated s0 (s, mem) =
         (case r of None \<Rightarrow> Some ((False, s0), s2, ?mem2)
          | Some _ \<Rightarrow> (case mem_step (store_size (size_at fs i) (c + 1)) (s2, ?mem2) of
              Some (Some _, st) \<Rightarrow> packed_pointer (allocs env) calls iter (size_at fs i) k a s0 st | _ \<Rightarrow> None))"
        unfolding step good(1) option.case prod.case off d(1) by (simp split: option.split)
      show ?thesis
      proof (cases r)
        case None
        have "plain block2" using plain_array [OF d(4) nt] .
        moreover have "unat c * ?n \<le> length block2" using room(1) d(3) by simp
        moreover have "\<forall>j<unat c. element_ok sub ?f (element ?f j block2)" using d(4) by (simp add: array_ok_def)
        ultimately have "target_ok sub ?f (unat c) (Some block2)" using f by (auto simp: target_ok_def array_ok_def)
        moreover have "count_at fs i ?mem2 = Some (unat c)" using count_same(1) [OF put(2)] good(3) by (simp del: cells_of_simps)
        moreover have "current fs i ?mem2" using f by (simp add: current_def)
        ultimately have "kept sub fs mem ?mem2" using slot_ptr_wt(1) [OF Suc.prems(2) lvl(2) i f(1) put(1)] by blast
        with step2 None d(2) show ?thesis
          by (intro exI [of _ False] exI [of _ "ierrmsg s0"] exI [of _ s2] exI [of _ ?mem2]) (simp del: packed_pointer.simps)
      next
        case (Some u)
        note nc = next_count [OF item(2)]
        from array_counted [OF lvl(2) i f(1,2) put(1), of "c + 1" "Some block2"] nc obtain mem3 where
          m3: "store_size (size_at fs i) (c + 1) ?mem2 = Some mem3" "slot_ptr fs i mem (Some block2) mem3"
            "count_at fs i mem3 = Some (Suc (unat c))" "load_size (size_at fs i) mem3 = Some (c + 1)" by auto
        have "target_ok sub ?f (Suc (unat c)) (Some block2)" using d(4) f by (simp add: target_ok_def)
        moreover have "current fs i mem3" using f by (simp add: current_def)
        ultimately have kept: "kept sub fs mem mem3" using slot_ptr_wt(1) [OF Suc.prems(2) lvl(2) i f(1) m3(2,3)] by blast
        have "has_room fs i a (c + 1) mem3"
          using good(5-8) nc slot_ptrD(2) [OF m3(2)] d(3) by (auto simp: has_room_def)
        moreover have "level_ok env (\<lambda>_. True) sub B calls fs (length mem3)" using Suc.prems(1) kept by simp
        moreover have "wf_istream s2" "unat (bytes_left s2) \<le> Suc B" "unat (bytes_left s2) < k"
          using d(2,5) Suc.prems(4,5) Some by (auto simp: goes_on_def)
        ultimately obtain status e s' mem' where
          "packed_pointer (allocs env) calls iter (size_at fs i) k a s0 (s2, mem3) = Some ((status, s0\<lparr>ierrmsg := e\<rparr>), s', mem')"
          "goes_on s2 s'" "kept sub fs mem3 mem'"
          using Suc.IH [of mem3 s2 "c + 1" a] kept m3(4) by blast
        with step2 Some m3(1) kept goes_on_trans [OF d(2)] show ?thesis
          by (intro exI [of _ status] exI [of _ e] exI [of _ s'] exI [of _ mem'])
            (simp add: mem_step_def del: packed_pointer.simps)
      qed
    qed
  qed
qed


lemma array_packed:
  assumes ok: "level_ok env (\<lambda>_. True) sub B calls fs (length mem)" and at: "is_at fs i iter"
    and f: "is_pointer (fs ! i)" "is_repeated (fs ! i)" "ltype (fs ! i) \<le> PB_LTYPE_LAST_PACKABLE"
    and wt: "wt_fields sub fs mem" and s: "wf_istream s" "unat (bytes_left s) \<le> Suc B"
  shows "safely s (keeps sub fs mem)
    (pb_then (mem_read (load_size (size_at fs i)) (s, mem)) (\<lambda>count (s, mem).
       pb_then (keeping mem (pb_make_string_substream s)) (\<lambda>substream (s, mem).
         case packed_pointer (allocs env) calls iter (size_at fs i) (Suc (unat (bytes_left substream))) (ucast count) s (substream, mem) of
           None \<Rightarrow> None
         | Some ((status, s), substream, mem) \<Rightarrow>
             pb_then (keeping mem (pb_close_string_substream s substream)) (\<lambda>_ st.
               Some (if status then Some () else None, st)))))"
proof -
  note lvl = level_okD [OF ok] note i = is_at_simps(6) [OF lvl(3) at]
  from pointer_array [OF wt i f(1,2)] obtain p c where c: "load_size (size_at fs i) mem = Some c" .
  have "unat (ucast c :: u64) = unat c" by (rule unat_ucast_up) simp
  then have room: "has_room fs i (ucast c) c mem" using unsigned_less [of c, where 'a = nat] by (simp add: has_room_def)
  have "safely s (keeps sub fs mem) (pb_then (keeping mem (pb_make_string_substream s)) (\<lambda>substream (s, mem).
      case packed_pointer (allocs env) calls iter (size_at fs i) (Suc (unat (bytes_left substream))) (ucast c) s (substream, mem) of
        None \<Rightarrow> None
      | Some ((status, s), substream, mem) \<Rightarrow>
          pb_then (keeping mem (pb_close_string_substream s substream)) (\<lambda>_ st.
            Some (if status then Some () else None, st))))"
  proof (rule safely_substream [OF s(1)])
    show "kept sub fs mem mem" using wt by simp
  next
    fix substream s1
    assume child: "child s s1 substream"
    then have "wf_istream substream" "unat (bytes_left substream) \<le> Suc B" using s(2) by (auto simp: child_def)
    from packed_pointer_safe [OF at f ok wt this lessI c room, of s1] obtain status e s2 mem2 where
      p: "packed_pointer (allocs env) calls iter (size_at fs i) (Suc (unat (bytes_left substream))) (ucast c) s1 (substream, mem) =
        Some ((status, s1\<lparr>ierrmsg := e\<rparr>), s2, mem2)" "goes_on substream s2" "kept sub fs mem mem2" by blast
    have child': "child s (s1\<lparr>ierrmsg := e\<rparr>) substream" using child by (simp add: child_def)
    have "safely s (keeps sub fs mem) (pb_then (keeping mem2 (pb_close_string_substream (s1\<lparr>ierrmsg := e\<rparr>) s2)) (\<lambda>_ st.
        Some (if status then Some () else None, st)))"
      by (rule keeps_then [OF safely_close [OF child' p(2)]]) (use p(3) in \<open>auto intro: safelyI goes_on_refl dest: goes_on_wf\<close>)
    with p(1) show "safely s (keeps sub fs mem)
       (case (s1, mem) of (s, mem) \<Rightarrow>
         (case packed_pointer (allocs env) calls iter (size_at fs i) (Suc (unat (bytes_left substream))) (ucast c) s (substream, mem) of
            None \<Rightarrow> None
          | Some ((status, s), substream, mem) \<Rightarrow>
              pb_then (keeping mem (pb_close_string_substream s substream)) (\<lambda>_ st.
                Some (if status then Some () else None, st))))"
      by (simp del: packed_pointer.simps)
  qed
  with c show ?thesis by (simp del: packed_pointer.simps)
qed

section \<open>A field with a pointer\<close>

lemma pointer_field_safe:
  assumes ok: "level_ok env (\<lambda>_. True) sub B calls fs (length mem)" and at: "is_at fs i iter"
    and f: "is_pointer (fs ! i)" and rdy: "ready sub fs i mem"
    and sz: "pSize iter = In_struct (size_at fs i)" and s: "wf_istream s" "unat (bytes_left s) \<le> Suc B"
  shows "safely s (keeps sub fs mem) (decode_pointer_field (allocs env) calls wire_type iter (s, mem))"
proof -
  note lvl = level_okD [OF ok]
  note it = is_at_simps(1-3) [OF lvl(3) at] note i = is_at_simps(6) [OF lvl(3) at]
  have data: "pData iter = data_at fs i" using is_at_simps(5) [OF lvl(3) at] by (simp add: data_at_def)
  have sz': "size_offset_of iter = Some (size_at fs i)" using sz by (simp add: size_offset_of_def)
  let ?f = "fs ! i"
  show ?thesis
  proof (cases "is_repeated ?f")
    case True
    have wt: "wt_fields sub fs mem" by (rule ready_wt [OF rdy]) (simp add: True)
    show ?thesis
    proof (cases "wire_type = PB_WT_STRING \<and> ltype ?f \<le> PB_LTYPE_LAST_PACKABLE")
      case packed: True
      with array_packed [OF ok at f True _ wt s] True it i sz' show ?thesis
        by (simp add: decode_pointer_field_def Let_def del: mem_read_simp)
    next
      case False
      with array_item_new [OF ok at f True wt s, folded data] True it i sz' show ?thesis
        by (auto simp add: decode_pointer_field_def Let_def simp del: mem_read_simp)
    qed
  next
    case False
    have nth: "iter = nth_iter fs i" using at False by (auto simp: is_at_def)
    from pointer_prepared [OF ok i f False rdy] obtain p mem1 mem2 q where st:
      "load_ptr (data_at fs i) mem = Some p"
      "(if is_sub ?f \<and> p \<noteq> None then pb_release_single_field (release_message calls) (nth_iter fs i) mem else Some mem) = Some mem1"
      "(if is_oneof ?f then store_size (size_at fs i) (field_tag ?f) mem1 else Some mem1) = Some mem2"
      "kept sub fs mem mem2" "slot_ptr fs i mem2 q mem2" "holds sub fs i mem2 0 (cells_of q)" "target_ok sub ?f 0 q"
      "is_sub ?f \<longrightarrow> q = None" by blast
    have rel: "(if is_sub ?f \<and> p \<noteq> None then mem_step (pb_release_single_field (release_message calls) iter) (s, mem) else pb_ok (s, mem)) =
        Some (Some (), s, mem1)" using st(2) by (auto simp: nth mem_step_def split: if_splits)
    have which: "(if is_oneof ?f then mem_step (store_size (size_at fs i) (field_tag ?f)) (s, mem1) else pb_ok (s, mem1)) =
        Some (Some (), s, mem2)" using st(3) by (auto simp: mem_step_def split: if_splits)
    have ok2: "level_ok env (\<lambda>_. True) sub B calls fs (length mem2)" and wt2: "wt_fields sub fs mem2" using ok st(4) by simp_all
    have cur: "current fs i mem2" using st(6) by (simp add: holds_def)
    have h: "htype ?f = PB_HTYPE_REQUIRED \<or> htype ?f = PB_HTYPE_OPTIONAL \<or> is_oneof ?f" using htype_cases False by blast
    have "safely s (keeps sub fs mem) (if is_text ?f then in_window (data_at fs i) 8 (pb_decoder (allocs env) calls ?f) (s, mem2)
        else pb_then (allocate_at (allocs env) (data_at fs i) (ucast (data_size ?f)) 1 (s, mem2)) (\<lambda>_. decode_new_item (allocs env) calls iter 0))"
    proof (cases "is_text ?f")
      case True
      from single_text_safe [OF ok2 i f False True wt2 st(6) s(1)] True show ?thesis by (simp add: keeps_from [OF st(4)])
    next
      case nt: False
      from single_item_safe [OF ok2 at f False nt wt2 st(5,7,8) cur s] nt show ?thesis by (simp add: keeps_from [OF st(4)])
    qed
    moreover have "decode_pointer_field (allocs env) calls wire_type iter (s, mem) =
       (if is_text ?f then in_window (data_at fs i) 8 (pb_decoder (allocs env) calls ?f) (s, mem2)
        else pb_then (allocate_at (allocs env) (data_at fs i) (ucast (data_size ?f)) 1 (s, mem2)) (\<lambda>_. decode_new_item (allocs env) calls iter 0))"
      by (simp only: decode_pointer_field_def Let_def sz' data it(3) option.case h if_True mem_read_simp st(1) option.map
          pb_then_simps rel which is_text_def)
    ultimately show ?thesis by simp
  qed
qed

end
