(* ===== verification/Pb_Safe_Message.thy ===== *)
theory Pb_Safe_Message
  imports Pb_Safe_Pointer
begin

text \<open>
  Decoding whole messages: \<open>decode_field\<close>, the loop of \<open>pb_decode_noinit\<close>, and the recursion over submessages.
\<close>

section \<open>Finding a field\<close>

lemma no_extensions: "level_ok env N sub B calls fs n \<Longrightarrow> f \<in> set fs \<Longrightarrow> ltype f \<noteq> PB_LTYPE_EXTENSION"
  using not_extension by (auto simp: level_ok_def)

lemma iter_find_cases:
  assumes "tagged_fields fs" "\<forall>f\<in>set fs. ltype f \<noteq> PB_LTYPE_EXTENSION" "is_at fs i iter"
  obtains (found) j iter' where "j < length fs" "field_tag (fs ! j) = tag" "pb_field_iter_find iter tag = Some (True, iter')"
      "is_at fs j iter'" "iter' = nth_iter fs j \<or> iter' = iter \<and> j = i"
  | (unknown) "\<forall>j<length fs. field_tag (fs ! j) \<noteq> tag" "pb_field_iter_find iter tag = Some (False, nth_iter fs i)"
proof (cases "\<exists>j<length fs. field_tag (fs ! j) = tag")
  case True
  then obtain j where j: "j < length fs" "field_tag (fs ! j) = tag" by blast
  from iter_find_known [OF assms(1,3) j(1)] assms(2) j that(1) show ?thesis by (metis nth_mem)
next
  case False
  then have "\<forall>f\<in>set fs. field_tag f = tag \<longrightarrow> ltype f = PB_LTYPE_EXTENSION" by (metis in_set_conv_nth)
  from iter_find_unknown [OF assms(1,3) this] False that(2) show ?thesis by blast
qed

lemma nth_is_at: "i < length fs \<Longrightarrow> is_at fs i (nth_iter fs i)"
  by (simp add: is_at_def)

section \<open>The field of a union\<close>

text \<open>Another field of the message is released, if it is there at all; the slot of the union then holds nothing.\<close>

lemma release_any:
  assumes ok: "level_ok env N sub B calls fs (length mem)" and j: "j < length fs" and wt: "wt_fields sub fs mem"
  shows "\<exists>mem'. pb_release_single_field (release_message calls) (nth_iter fs j) mem = Some mem' \<and>
    agree (span fs j) mem mem' \<and> kept sub fs mem mem' \<and> current fs j mem' = current fs j mem \<and>
    (current fs j mem \<longrightarrow> plain_at (data_at fs j) (slot_len fs j) mem')"
proof (cases "current fs j mem")
  case False
  note lvl = level_okD [OF ok] note it = iter_simps [OF lvl(3) j]
  from False have one: "is_oneof (fs ! j)" by (simp add: current_def)
  have "entry_ok sub fs j mem" using wt j by (simp add: wt_fields_def)
  with one obtain w where "load_size (size_at fs j) mem = Some w" by (auto simp: entry_ok_def)
  with False one wt show ?thesis by (auto simp: pb_release_single_field_def it Let_def current_def)
next
  case True
  note lvl = level_okD [OF ok]
  from wt_holds [OF wt j True] obtain k cs where "holds sub fs j mem k cs" by blast
  from release_field_current [OF ok j this] obtain mem' k' cs' where
    r: "pb_release_single_field (release_message calls) (nth_iter fs j) mem = Some mem'" "agree (span fs j) mem mem'"
      "holds sub fs j mem' k' cs'" "plain cs'" by blast
  have "wt_fields sub fs mem'" by (rule holds_wt [OF wt lvl(2) j r(2,3)])
  moreover have "current fs j mem'" using r(3) by (simp add: holds_def)
  ultimately show ?thesis using True r holds_plain_slot [OF r(3,4) j] agree_length [OF r(2)] by auto
qed

lemma union_slot_empty:
  assumes wt: "wt_fields sub fs mem" and tagged: "tagged_fields fs" and i: "i < length fs" and one: "is_oneof (fs ! i)"
    and which: "load_size (size_at fs i) mem = Some which" "which \<noteq> field_tag (fs ! i)"
    and none: "\<forall>j<length fs. same_union fs i j \<longrightarrow> which \<noteq> field_tag (fs ! j)"
  shows "plain_at (data_at fs i) (slot_len fs i) mem" "which = 0 \<Longrightarrow> null_if_pointer fs i mem"
proof -
  have "entry_ok sub fs i mem" using wt i by (simp add: wt_fields_def)
  with one which none obtain cs where cs: "window (data_at fs i) (slot_len fs i) mem = Some cs" "plain cs"
    "which = 0 \<and> is_pointer (fs ! i) \<longrightarrow> take 8 cs = null_cells"
    by (auto simp: entry_ok_def union_ok_def)
  then show "plain_at (data_at fs i) (slot_len fs i) mem" by (simp add: plain_at_def)
  have "is_pointer (fs ! i) \<Longrightarrow> 8 \<le> slot_len fs i" using slot_len_ge [OF i, of i] by (simp add: data_len_def)
  with cs(3) window_split [OF cs(1)] show "which = 0 \<Longrightarrow> null_if_pointer fs i mem" by (auto simp: null_if_pointer_def)
qed

text \<open>A pointer in an empty slot is set to null.\<close>

lemma union_slot_null:
  assumes fits: "layout_fits fs (length mem)" and i: "i < length fs" and ptr: "is_pointer (fs ! i)"
    and slot: "plain_at (data_at fs i) (slot_len fs i) mem"
  shows "\<exists>mem'. store_bytes (data_at fs i) (replicate 8 0) mem = Some mem' \<and> agree (span fs i) mem mem' \<and>
    window (size_at fs i) (size_len (fs ! i)) mem' = window (size_at fs i) (size_len (fs ! i)) mem \<and>
    plain_at (data_at fs i) (slot_len fs i) mem' \<and> null_if_pointer fs i mem'"
proof -
  have len: "data_len (fs ! i) = 8" "length null_cells = data_len (fs ! i)" using ptr by (simp_all add: data_len_def)
  have le: "data_len (fs ! i) \<le> slot_len fs i" using i by (intro slot_len_ge) simp_all
  note put = put_data [OF fits i len(2)]
  from slot obtain cs where cs: "window (data_at fs i) (slot_len fs i) mem = Some cs" "plain cs" by (auto simp: plain_at_def)
  from window_split [OF cs(1) le] cs(2) have w: "window (data_at fs i) 8 mem = Some (take 8 cs)" "plain (take 8 cs)"
    "window (data_at fs i + int (data_len (fs ! i))) (slot_len fs i - data_len (fs ! i)) mem = Some (drop 8 cs)" "plain (drop 8 cs)"
    using len(1) by auto
  have "store_bytes (data_at fs i) (replicate 8 0) mem = Some (put_window (data_at fs i) null_cells mem)"
    using w(1,2) by (simp add: store_bytes_def zeros_null del: map_replicate)
  moreover have "plain_at (data_at fs i) (slot_len fs i) (put_window (data_at fs i) null_cells mem)"
    using window_join [OF put(2) put(3) [unfolded w(3)] le] w(4) by (simp add: plain_at_def)
  moreover have "null_if_pointer fs i (put_window (data_at fs i) null_cells mem)"
    using put(2) len(1) by (simp add: null_if_pointer_def)
  ultimately show ?thesis using put(1,4) by blast
qed

lemma union_release_safe:
  assumes ok: "level_ok env N sub B calls fs (length mem)" and i: "i < length fs" and one: "is_oneof (fs ! i)"
    and wt: "wt_fields sub fs mem" and s: "wf_istream s"
  shows "safely s (\<lambda>r s' mem'. length mem' = length mem \<and> (r = None \<longrightarrow> wt_fields sub fs mem') \<and>
      (\<forall>iter. r = Some iter \<longrightarrow> iter = nth_iter fs i \<and> ready sub fs i mem'))
    (pb_release_union_field calls (nth_iter fs i) (s, mem))"
proof -
  note lvl = level_okD [OF ok] note it = iter_simps [OF lvl(3) i]
  have ext: "\<forall>f\<in>set fs. ltype f \<noteq> PB_LTYPE_EXTENSION" using no_extensions [OF ok] by blast
  let ?f = "fs ! i"
  have entry: "entry_ok sub fs i mem" using wt i by (simp add: wt_fields_def)
  then obtain which where which: "load_size (size_at fs i) mem = Some which" using one by (auto simp: entry_ok_def)
  have sz: "plain_at (size_at fs i) (size_len ?f) mem" using entry by (auto simp: entry_ok_def)
  consider (same) "which = field_tag ?f" | (unset) "which = 0" "which \<noteq> field_tag ?f" | (other) "which \<noteq> 0" "which \<noteq> field_tag ?f"
    by blast
  then show ?thesis
  proof cases
    case same
    then have "ready sub fs i mem" using which ready_current [OF wt i] by (simp add: current_def)
    with same which s show ?thesis by (simp add: pb_release_union_field_def it Let_def safelyI goes_on_refl)
  next
    case unset
    have "\<forall>j<length fs. same_union fs i j \<longrightarrow> which \<noteq> field_tag (fs ! j)"
      using unset(1) lvl(3) by (auto simp: tagged_fields_def)
    from union_slot_empty [OF wt lvl(3) i one which unset(2) this] unset(1)
    have "plain_at (data_at fs i) (slot_len fs i) mem" "null_if_pointer fs i mem" by simp_all
    moreover have "\<not> current fs i mem" using which unset(2) one by (simp add: current_def)
    ultimately have "ready sub fs i mem" using wt sz one unfolding ready_def by (intro exI [of _ mem]) simp
    with unset which s show ?thesis by (simp add: pb_release_union_field_def it Let_def safelyI goes_on_refl)
  next
    case other
    show ?thesis
    proof (cases rule: iter_find_cases [OF lvl(3) ext nth_is_at [OF i], where tag = which, case_names found unknown])
      case unknown
      with other which s wt show ?thesis
        by (simp add: pb_release_union_field_def it Let_def safelyI goes_on_refl)
    next
      case (found j iter')
      have ji: "j \<noteq> i" using found(2) other(2) by auto
      with found have iter': "iter' = nth_iter fs j" by blast
      from release_any [OF ok found(1) wt] obtain mem1 where r:
        "pb_release_single_field (release_message calls) (nth_iter fs j) mem = Some mem1" "agree (span fs j) mem mem1"
        "kept sub fs mem mem1" "current fs j mem1 = current fs j mem"
        "current fs j mem \<longrightarrow> plain_at (data_at fs j) (slot_len fs j) mem1" by blast
      have slot: "plain_at (data_at fs i) (slot_len fs i) mem1 \<and> \<not> current fs i mem1"
      proof (cases "same_union fs i j")
        case True
        have "size_at fs j = size_at fs i" "data_at fs j = data_at fs i" using True by (simp_all add: same_union_def)
        then have cj: "current fs j mem" using which found(2) by (simp add: current_def)
        with r(5) True slot_len_union [OF i found(1) True] \<open>data_at fs j = data_at fs i\<close>
        have "plain_at (data_at fs i) (slot_len fs i) mem1" by simp
        moreover have "current fs j mem1" using r(4) cj by simp
        then have "\<not> current fs i mem1"
          using current_union [OF same_union_simps(1) [OF True] lvl(3) found(1) i ji] by blast
        ultimately show ?thesis by simp
      next
        case False
        then have none: "\<forall>k<length fs. same_union fs i k \<longrightarrow> which \<noteq> field_tag (fs ! k)"
          using lvl(3) found(1,2) by (auto simp: tagged_fields_def distinct_conv_nth)
        have apart: "span fs i \<inter> span fs j = {}" using layout_apart [OF lvl(2) i found(1) ji [symmetric] False] .
        then have "extent (data_at fs i) (slot_len fs i) \<inter> span fs j = {}" using span_data by blast
        from window_agree [OF r(2) this] union_slot_empty(1) [OF wt lvl(3) i one which other(2) none]
        have "plain_at (data_at fs i) (slot_len fs i) mem1" by (simp add: plain_at_def)
        moreover have "\<not> current fs i mem1"
          using current_agree [OF r(2) apart] which other(2) one by (simp add: current_def)
        ultimately show ?thesis by simp
      qed
      have sz1: "plain_at (size_at fs i) (size_len ?f) mem1" using r(3) i by (auto simp: wt_fields_def entry_ok_def)
      from iter_find_known [OF lvl(3) nth_is_at [OF found(1)] i] ext i ji obtain iter2 where
        f2: "pb_field_iter_find (nth_iter fs j) (field_tag ?f) = Some (True, iter2)" "iter2 = nth_iter fs i" by (metis nth_mem)
      have "\<exists>mem2. (if is_pointer ?f then mem_step (store_bytes (data_at fs i) (replicate 8 0)) (s, mem1) else pb_ok (s, mem1)) =
          Some (Some (), s, mem2) \<and> agree (span fs i) mem1 mem2 \<and> plain_at (data_at fs i) (slot_len fs i) mem2 \<and>
          null_if_pointer fs i mem2 \<and> window (size_at fs i) (size_len ?f) mem2 = window (size_at fs i) (size_len ?f) mem1"
      proof (cases "is_pointer ?f")
        case False
        with slot show ?thesis by (auto simp: null_if_pointer_def)
      next
        case True
        have "layout_fits fs (length mem1)" using lvl(2) r(3) by simp
        from union_slot_null [OF this i True] slot True show ?thesis by (auto simp: mem_step_def)
      qed
      then obtain mem2 where m2: "(if is_pointer ?f then mem_step (store_bytes (data_at fs i) (replicate 8 0)) (s, mem1) else pb_ok (s, mem1)) =
          Some (Some (), s, mem2)" "agree (span fs i) mem1 mem2" "plain_at (data_at fs i) (slot_len fs i) mem2"
          "null_if_pointer fs i mem2" "window (size_at fs i) (size_len ?f) mem2 = window (size_at fs i) (size_len ?f) mem1" by blast
      have "ready sub fs i mem2"
        unfolding ready_def
        using r(3) m2 sz1 one slot count_same(2) [OF m2(5)] by (intro exI [of _ mem1]) (simp add: plain_at_def)
      moreover have "pb_release_union_field calls (nth_iter fs i) (s, mem) = Some (Some (nth_iter fs i), s, mem2)"
        using which other found(3) r(1) f2 m2(1) unfolding iter'
        by (auto simp: pb_release_union_field_def it Let_def mem_step_def split: if_splits)
      ultimately show ?thesis using r(3) agree_length [OF m2(2)] s by (simp add: safelyI goes_on_refl)
    qed
  qed
qed


section \<open>A field\<close>

lemma pointer_size:
  assumes fits: "layout_fits fs n" and at: "is_at fs i iter" and f: "field_ok (fs ! i)" "is_pointer (fs ! i)"
  shows "pSize iter = In_struct (size_at fs i)"
proof -
  have i: "i < length fs" using at by (simp add: is_at_def)
  from at consider "iter = nth_iter fs i" | "is_repeated (fs ! i)" "pSize (nth_iter fs i) = In_struct (pData (nth_iter fs i))"
    by (auto simp: is_at_def)
  then show ?thesis
  proof cases
    case 2
    then have "size_at fs i = data_at fs i" by (simp add: pSize_nth_iter data_at_def)
    with size_at_data [OF fits i] field_okD(11) [OF f(1)] f(2) 2(1) show ?thesis by simp
  qed (simp add: pSize_nth_iter)
qed

lemma decode_by_atype_safe:
  assumes ok: "level_ok env (\<lambda>_. True) sub B calls fs (length mem)" and at: "is_at fs i iter"
    and sz: "is_repeated (fs ! i) \<Longrightarrow> pSize iter \<noteq> In_struct (data_at fs i)"
    and rdy: "ready sub fs i mem" and s: "wf_istream s" "unat (bytes_left s) \<le> Suc B"
  shows "safely s (\<lambda>r s' mem'. kept sub fs mem mem' \<and> (\<forall>it fixed'. r = Some (it, fixed') \<longrightarrow> is_at fs i it))
    (decode_by_atype env calls wire_type fixed iter (s, mem))"
proof -
  note lvl = level_okD [OF ok]
  note i = is_at_simps(6) [OF lvl(3) at]
  have f: "iter_field iter = fs ! i" using is_at_simps(3) [OF lvl(3) at] .
  show ?thesis
  proof (cases "is_static (fs ! i)")
    case True
    show ?thesis
      unfolding decode_by_atype_def f if_P [OF True]
      by (rule safely_then [OF static_field_safe [OF ok at True sz rdy s]])
        (use at in \<open>auto intro!: safely_ok dest: goes_on_wf\<close>)
  next
    case False
    then have ptr: "is_pointer (fs ! i)" using field_okD(1) [OF lvl(4) [OF i]] by simp
    show ?thesis
      unfolding decode_by_atype_def f if_not_P [OF False] if_P [OF ptr]
      by (rule safely_then [OF pointer_field_safe [OF ok at ptr rdy pointer_size [OF lvl(2) at lvl(4) [OF i] ptr] s]])
        (use at in \<open>auto intro!: safely_ok dest: goes_on_wf\<close>)
  qed
qed

lemma decode_field_safe:
  assumes ok: "level_ok env (\<lambda>_. True) sub B calls fs (length mem)" and at: "is_at fs i iter"
    and sz: "is_repeated (fs ! i) \<Longrightarrow> pSize iter \<noteq> In_struct (data_at fs i)"
    and wt: "wt_fields sub fs mem" and s: "wf_istream s" "unat (bytes_left s) \<le> Suc B"
  shows "safely s (\<lambda>r s' mem'. kept sub fs mem mem' \<and> (\<forall>it fixed'. r = Some (it, fixed') \<longrightarrow> is_at fs i it))
    (decode_field env calls wire_type iter fixed (s, mem))"
proof -
  note lvl = level_okD [OF ok]
  note i = is_at_simps(6) [OF lvl(3) at]
  have f: "iter_field iter = fs ! i" using is_at_simps(3) [OF lvl(3) at] .
  show ?thesis
  proof (cases "is_oneof (fs ! i)")
    case True
    have nth: "iter = nth_iter fs i" using at True by (auto simp: is_at_def)
    show ?thesis
      unfolding decode_field_def f if_P [OF True]
    proof (rule safely_then [OF union_release_safe [OF ok i True wt s(1), folded nth]])
      fix it s' mem'
      assume on: "goes_on s s'"
        and q: "length mem' = length mem \<and> (Some it = None \<longrightarrow> wt_fields sub fs mem') \<and>
          (\<forall>iter'. Some it = Some iter' \<longrightarrow> iter' = iter \<and> ready sub fs i mem')"
      then have it: "it = iter" "ready sub fs i mem'" "length mem' = length mem" by simp_all
      have ok': "level_ok env (\<lambda>_. True) sub B calls fs (length mem')" using ok it(3) by simp
      have "unat (bytes_left s') \<le> Suc B" using on s(2) by (simp add: goes_on_def)
      from decode_by_atype_safe [OF ok' at sz it(2) goes_on_wf [OF on] this]
      show "safely s' (\<lambda>r s' mem'. kept sub fs mem mem' \<and> (\<forall>it fixed'. r = Some (it, fixed') \<longrightarrow> is_at fs i it))
          (decode_by_atype env calls wire_type fixed it (s', mem'))"
        unfolding it(1,3) .
    qed simp
  next
    case False
    have "ready sub fs i mem" using ready_current [OF wt i] False by (simp add: current_def)
    from decode_by_atype_safe [OF ok at sz this s] False show ?thesis unfolding decode_field_def f by simp
  qed
qed

section \<open>The loop\<close>

definition vars_ok :: "pb_field list \<Rightarrow> pb_decode_vars \<Rightarrow> bool" where
  "vars_ok fs vars \<longleftrightarrow> (\<exists>i. is_at fs i (the_iter vars)) \<or> fs = [] \<and> the_iter vars = snd (pb_field_iter_begin [])"

lemma decode_known_safe:
  assumes ok: "level_ok env (\<lambda>_. True) sub B calls fs (length mem)" and at: "is_at fs i (the_iter vars)"
    and wt: "wt_fields sub fs mem" and s: "wf_istream s" "unat (bytes_left s) \<le> Suc B"
  shows "safely s (\<lambda>r s' mem'. kept sub fs mem mem' \<and> (\<forall>vars'. r = Some vars' \<longrightarrow> vars_ok fs vars'))
    (decode_known env calls wire_type vars (s, mem))"
proof -
  note lvl = level_okD [OF ok]
  note it = is_at_simps(1-3) [OF lvl(3) at] note i = is_at_simps(6) [OF lvl(3) at]
  let ?Q = "\<lambda>(r :: pb_decode_vars option) s' mem'. kept sub fs mem mem' \<and> (\<forall>vars'. r = Some vars' \<longrightarrow> vars_ok fs vars')"
  let ?iter = "the_iter vars" let ?f = "fs ! i"
  have data: "pData ?iter = data_at fs i" using is_at_simps(5) [OF lvl(3) at] by (simp add: data_at_def)
  have step: "safely s ?Q (pb_then (decode_field env calls wire_type it fixed (s, mem)) (\<lambda>(iter, fixed) st.
      Some (Some (vars1\<lparr>the_iter := iter, fixed_count_size := fixed\<rparr>), st)))"
    if "is_at fs i it" "is_repeated ?f \<Longrightarrow> pSize it \<noteq> In_struct (data_at fs i)" for it fixed vars1
    by (rule safely_then [OF decode_field_safe [OF ok that wt s]])
      (auto simp: vars_ok_def intro!: safely_ok dest: goes_on_wf)
  show ?thesis
  proof (cases "is_repeated ?f \<and> pSize ?iter = In_struct (pData ?iter)")
    case False
    from step [OF at] False data it i show ?thesis
      by (auto simp: decode_known_def check_fixed_count_def note_required_def Let_def)
  next
    case True
    have "?iter = nth_iter fs i" using at True by (auto simp: is_at_def)
    with at True have at': "is_at fs i (?iter\<lparr>pSize := Fixed_count\<rparr>)" by (auto simp: is_at_def)
    from step [OF at'] True it i s wt show ?thesis
      by (auto simp: decode_known_def check_fixed_count_def note_required_def Let_def safelyI goes_on_refl)
  qed
qed


text \<open>
  A message without fields: the iterator stays at the terminator, and a field with number 0 is taken for it and
  decoded as a \<open>bool\<close>.
\<close>

abbreviation empty_iter :: pb_iter where "empty_iter \<equiv> snd (pb_field_iter_begin [])"

lemma empty_iter_simps:
  "start empty_iter = []" "pos empty_iter = 0" "iter_field empty_iter = PB_LAST_FIELD" "pData empty_iter = 0"
  "snd (pb_field_iter_next empty_iter) = empty_iter"
  by (simp_all add: pb_field_iter_begin_def pb_field_iter_next_def field_at_def PB_LAST_FIELD_def Let_def)

lemma empty_field: "field_at [] i = PB_LAST_FIELD"
  by (simp add: field_at_def)

lemma empty_find:
  "pb_field_iter_find empty_iter tag = Some (tag = 0, empty_iter)"
  "find_extension_field empty_iter = Some (False, empty_iter)"
proof -
  have "field_tag PB_LAST_FIELD = 0" "ltype PB_LAST_FIELD \<noteq> PB_LTYPE_EXTENSION"
    by (simp_all add: PB_LAST_FIELD_def PB_LTYPE_def PB_LTYPE_EXTENSION_def)
  then show "pb_field_iter_find empty_iter tag = Some (tag = 0, empty_iter)"
    "find_extension_field empty_iter = Some (False, empty_iter)"
    unfolding pb_field_iter_find_def find_extension_field_def empty_iter_simps(1,2)
    by (auto simp: empty_iter_simps empty_field Let_def)
qed

lemma last_field_types:
  "htype PB_LAST_FIELD = PB_HTYPE_REQUIRED" "atype PB_LAST_FIELD = PB_ATYPE_STATIC" "ltype PB_LAST_FIELD = PB_LTYPE_BOOL"
  "item_size PB_LAST_FIELD = 1"
  by (simp_all add: PB_LAST_FIELD_def PB_HTYPE_def PB_ATYPE_def PB_LTYPE_def item_size_def pb_htypes pb_atypes pb_ltypes)

lemma empty_message: "layout_fits [] n \<longleftrightarrow> 0 < n" "wt_fields sub [] mem \<longleftrightarrow> plain mem"
  by (auto simp: layout_fits_def tagged_fields_def wt_fields_def plain_nth)

lemma decode_known_empty:
  assumes mem: "plain mem" "0 < length mem" and s: "wf_istream s" and vars: "the_iter vars = empty_iter"
  shows "safely s (\<lambda>r s' mem'. kept sub [] mem mem' \<and> (\<forall>vars'. r = Some vars' \<longrightarrow> vars_ok [] vars'))
    (decode_known env calls wire_type vars (s, mem))"
proof -
  let ?Q = "\<lambda>(r :: pb_decode_vars option) s' mem'. kept sub [] mem mem' \<and> (\<forall>vars'. r = Some vars' \<longrightarrow> vars_ok [] vars')"
  have w: "window 0 1 mem = Some (take 1 mem)" "plain (take 1 mem)" using mem by (auto simp: window_def Suc_le_eq)
  have len: "length (take 1 mem) = 1" using mem(2) by (cases mem) simp_all
  then have "length (map cell_byte (take 1 mem)) = 1" by simp
  with scalar_safe_bool s have "safely s (\<lambda>r s' bs'. length bs' = 1 \<and> (r \<noteq> None \<longrightarrow> unat (bytes_left s') < unat (bytes_left s)))
      (pb_dec_bool (map cell_byte (take 1 mem)) s)" unfolding scalar_safe_def by blast
  then have "safely s (\<lambda>r s' bs. length bs = length (take 1 mem) \<and> True) (pb_dec_bool (map cell_byte (take 1 mem)) s)"
    unfolding len by (rule safely_mono) simp
  from safely_on_plain [where P = "\<lambda>_ _. True" and dec = pb_dec_bool, OF s w(2) this] have
    item: "safely s (\<lambda>r s' mem'. kept sub [] mem mem') (in_window 0 1 (on_plain pb_dec_bool) (s, mem))"
  proof (intro safely_window [OF w(1)], elim safely_mono)
    fix r s' cs'
    assume cs: "length cs' = length (take 1 mem) \<and> plain cs' \<and> True"
    then have "length cs' = 1" using len by simp
    with mem cs show "length cs' = 1 \<and> kept sub [] mem (put_window 0 cs' mem)"
      by (cases mem) (simp_all add: empty_message plain_put_window)
  qed
  have field: "safely s (\<lambda>r s' mem'. kept sub [] mem mem' \<and> (\<forall>it fixed'. r = Some (it, fixed') \<longrightarrow> it = empty_iter))
      (decode_field env calls wire_type empty_iter fixed (s, mem))" for fixed
  proof -
    have "decode_field env calls wire_type empty_iter fixed (s, mem) =
        pb_then (pb_then (in_window 0 1 (on_plain pb_dec_bool) (s, mem)) (\<lambda>_ st. Some (Some fixed, st)))
          (\<lambda>fixed st. Some (Some (empty_iter, fixed), st))"
      by (simp add: decode_field_def decode_by_atype_def decode_static_field_def Let_def empty_iter_simps(4) empty_field
          last_field_types decoder_of(1))
    moreover have "safely s (\<lambda>r s' mem'. kept sub [] mem mem' \<and> (\<forall>it fixed'. r = Some (it, fixed') \<longrightarrow> it = empty_iter)) \<dots>"
      by (rule safely_then [OF keeps_return [OF item]]) (auto intro!: safely_ok dest: goes_on_wf)
    ultimately show ?thesis by simp
  qed
  have vars': "the_iter vars = empty_iter" "iter_field (the_iter vars) = PB_LAST_FIELD" using vars by (simp_all add: empty_field)
  have "safely s ?Q (pb_then (decode_field env calls wire_type empty_iter fixed (s, mem)) (\<lambda>(iter, fixed) st.
      Some (Some (vars1\<lparr>the_iter := iter, fixed_count_size := fixed\<rparr>), st)))" for fixed vars1
    by (rule safely_then [OF field]) (auto simp: vars_ok_def intro!: safely_ok dest: goes_on_wf)
  then show ?thesis
    unfolding decode_known_def check_fixed_count_def note_required_def Let_def by (simp add: vars empty_field last_field_types)
qed

lemma decode_tag_takes:
  assumes "wf_istream s"
  shows "\<exists>r eof s'. pb_decode_tag s = Some ((r, eof), s') \<and> goes_on s s' \<and>
    (\<forall>wt tag. r = Some (wt, tag) \<longrightarrow> unat (bytes_left s') < unat (bytes_left s) \<and> tag \<noteq> - 1)"
proof -
  obtain r eof n e where d: "pb_decode_varint32_eof False s = Some ((r, eof), (advance n s)\<lparr>ierrmsg := e\<rparr>)"
    "n \<le> length (pending s)" "r \<noteq> None \<longrightarrow> 0 < n" using varint32_eof_within [OF assms] by metis
  let ?s = "(advance n s)\<lparr>ierrmsg := e\<rparr>"
  have on: "goes_on s ?s" using assms d(2) by (simp add: goes_on_advance)
  have less: "r \<noteq> None \<Longrightarrow> unat (bytes_left ?s) < unat (bytes_left s)"
    using d(2,3) assms length_pending [OF assms] by (auto simp: bytes_left_advance)
  have tag: "drop_bit 3 temp \<noteq> (- 1 :: u32)" for temp
  proof
    assume "drop_bit 3 temp = (- 1 :: u32)"
    then have "bit (drop_bit 3 temp) 31" by simp
    then have "bit temp 34" by (simp add: bit_drop_bit_eq)
    then show False by (auto dest: bit_imp_le_length)
  qed
  show ?thesis
  proof (cases r)
    case None
    with d(1) on show ?thesis by (simp add: pb_decode_tag_def)
  next
    case (Some temp)
    with d(1) on less tag show ?thesis by (auto simp: pb_decode_tag_def)
  qed
qed

lemma decode_unknown_safe:
  assumes tagged: "tagged_fields fs" and ext: "\<forall>f\<in>set fs. ltype f \<noteq> PB_LTYPE_EXTENSION" and vars: "vars_ok fs vars"
    and tag: "tag \<noteq> - 1" and wt: "wt_fields sub fs mem" and s: "wf_istream s"
  shows "safely s (\<lambda>r s' mem'. kept sub fs mem mem' \<and> (\<forall>vars'. r = Some vars' \<longrightarrow> vars_ok fs vars'))
    (decode_unknown wire_type tag vars (s, mem))"
proof -
  have "\<exists>it. find_extension_field (the_iter vars) = Some (False, it) \<and> vars_ok fs (vars\<lparr>the_iter := it, extension_range_start := - 1\<rparr>)"
  proof (cases "\<exists>i. is_at fs i (the_iter vars)")
    case True
    then obtain i where at: "is_at fs i (the_iter vars)" by blast
    have "is_at fs i (nth_iter fs i)" using nth_is_at is_at_simps(6) [OF tagged at] .
    with find_extension_none [OF tagged at ext] show ?thesis by (auto simp: vars_ok_def)
  next
    case False
    with vars empty_find(2) show ?thesis by (auto simp: vars_ok_def)
  qed
  then obtain it where it: "find_extension_field (the_iter vars) = Some (False, it)"
    "vars_ok fs (vars\<lparr>the_iter := it, extension_range_start := - 1\<rparr>)" by blast
  have "\<not> - 1 \<le> tag" using tag by (simp add: not_le order.strict_iff_order)
  with it vars obtain vars' where v: "(if tag \<ge> extension_range_start vars then
      (case find_extension_field (the_iter vars) of None \<Rightarrow> None
       | Some (found, iter) \<Rightarrow>
           let range_start = (if found then field_tag (iter_field iter) else - 1) in
           if tag \<ge> range_start \<and> decode_extension iter (snd (s, mem)) = None then None
           else Some (vars\<lparr>the_iter := iter, extension_range_start := range_start\<rparr>)) else Some vars) = Some vars'"
    "vars_ok fs vars'" by (cases "tag \<ge> extension_range_start vars") (auto simp: Let_def)
  have "safely s (\<lambda>r s' mem'. kept sub fs mem mem' \<and> (\<forall>vars'. r = Some vars' \<longrightarrow> vars_ok fs vars'))
      (pb_then (keeping mem (pb_skip_field wire_type s)) (\<lambda>_ st. Some (Some vars', st)))"
    by (rule safely_then [OF safely_reader [OF pb_reader_skip_field s, where Q = "\<lambda>_ _ d. d = mem"]])
      (use wt v(2) in \<open>auto intro!: safely_ok dest: goes_on_wf\<close>)
  then show ?thesis unfolding decode_unknown_def v(1) by simp
qed


lemma decode_round:
  assumes ok: "level_ok env (\<lambda>_. True) sub B calls fs (length mem)" and vars: "vars_ok fs vars" and tag: "tag \<noteq> - 1"
    and wt: "wt_fields sub fs mem" and s: "wf_istream s" "unat (bytes_left s) \<le> Suc B"
  shows "\<exists>found iter. pb_field_iter_find (the_iter vars) tag = Some (found, iter) \<and>
    safely s (\<lambda>r s' mem'. kept sub fs mem mem' \<and> (\<forall>vars'. r = Some vars' \<longrightarrow> vars_ok fs vars'))
      (if found then decode_known env calls wire_type (vars\<lparr>the_iter := iter\<rparr>) (s, mem)
       else decode_unknown wire_type tag (vars\<lparr>the_iter := iter\<rparr>) (s, mem))"
proof -
  note lvl = level_okD [OF ok]
  have ext: "\<forall>f\<in>set fs. ltype f \<noteq> PB_LTYPE_EXTENSION" using no_extensions [OF ok] by blast
  note unknown = decode_unknown_safe [OF lvl(3) ext _ tag wt s(1)]
  from vars consider (field) i where "is_at fs i (the_iter vars)" | (none) "fs = []" "the_iter vars = empty_iter"
    by (auto simp: vars_ok_def)
  then show ?thesis
  proof cases
    case field
    note i = is_at_simps(6) [OF lvl(3) field]
    show ?thesis
    proof (cases rule: iter_find_cases [OF lvl(3) ext field, where tag = tag, case_names found unknown])
      case (found j iter')
      then have "is_at fs j (the_iter (vars\<lparr>the_iter := iter'\<rparr>))" by simp
      from decode_known_safe [OF ok this wt s] found(3) show ?thesis by (intro exI [of _ True] exI [of _ iter']) simp
    next
      case unknown
      have "vars_ok fs (vars\<lparr>the_iter := nth_iter fs i\<rparr>)" using nth_is_at [OF i] by (auto simp: vars_ok_def)
      from decode_unknown_safe [OF lvl(3) ext this tag wt s(1)] unknown(2) show ?thesis by (intro exI [of _ False] exI [of _ "nth_iter fs i"]) simp
    qed
  next
    case none
    have mem: "plain mem" "0 < length mem" using wt lvl(2) none(1) by (simp_all add: empty_message)
    have v: "the_iter (vars\<lparr>the_iter := empty_iter\<rparr>) = empty_iter" "vars_ok fs (vars\<lparr>the_iter := empty_iter\<rparr>)"
      using none(1) by (simp_all add: vars_ok_def)
    show ?thesis
    proof (cases "tag = 0")
      case True
      with decode_known_empty [OF mem s(1) v(1)] none empty_find(1) show ?thesis
        by (intro exI [of _ True] exI [of _ empty_iter]) simp
    next
      case False
      with decode_unknown_safe [OF lvl(3) ext v(2) tag wt s(1)] none(2) empty_find(1) show ?thesis
        by (intro exI [of _ False] exI [of _ empty_iter]) simp
    qed
  qed
qed

lemma decode_loop_safe:
  "level_ok env (\<lambda>_. True) sub B calls fs (length mem) \<Longrightarrow> vars_ok fs vars \<Longrightarrow> wt_fields sub fs mem \<Longrightarrow> wf_istream s \<Longrightarrow>
    unat (bytes_left s) \<le> Suc B \<Longrightarrow> unat (bytes_left s) < k \<Longrightarrow>
    safely s (\<lambda>r s' mem'. kept sub fs mem mem') (decode_loop env calls k vars (s, mem))"
proof (induction k arbitrary: vars s mem)
  case 0
  then show ?case by simp
next
  case (Suc k)
  show ?case
  proof (cases "bytes_left s = 0")
    case True
    with Suc.prems show ?thesis by (simp add: safelyI goes_on_refl)
  next
    case False
    from decode_tag_takes [OF Suc.prems(4)] obtain r eof s1 where
      t: "pb_decode_tag s = Some ((r, eof), s1)" "goes_on s s1"
        "\<forall>wt tag. r = Some (wt, tag) \<longrightarrow> unat (bytes_left s1) < unat (bytes_left s) \<and> tag \<noteq> - 1" by blast
    show ?thesis
    proof (cases r)
      case None
      with False t Suc.prems show ?thesis by (simp add: safelyI)
    next
      case (Some wt_tag)
      then obtain wire_type tag where r: "r = Some (wire_type, tag)" by (cases wt_tag) simp
      then have tag: "unat (bytes_left s1) < unat (bytes_left s)" "tag \<noteq> - 1" using t(3) by simp_all
      have s1: "wf_istream s1" "unat (bytes_left s1) \<le> Suc B" using t(2) tag(1) Suc.prems(5) by (auto simp: goes_on_def)
      from decode_round [OF Suc.prems(1,2) tag(2) Suc.prems(3) s1] obtain found iter where
        f: "pb_field_iter_find (the_iter vars) tag = Some (found, iter)"
        and step: "safely s1 (\<lambda>r s' mem'. kept sub fs mem mem' \<and> (\<forall>vars'. r = Some vars' \<longrightarrow> vars_ok fs vars'))
          (if found then decode_known env calls wire_type (vars\<lparr>the_iter := iter\<rparr>) (s1, mem)
           else decode_unknown wire_type tag (vars\<lparr>the_iter := iter\<rparr>) (s1, mem))" by blast
      have "safely s1 (\<lambda>r s' mem'. kept sub fs mem mem')
          (pb_then (if found then decode_known env calls wire_type (vars\<lparr>the_iter := iter\<rparr>) (s1, mem)
             else decode_unknown wire_type tag (vars\<lparr>the_iter := iter\<rparr>) (s1, mem)) (decode_loop env calls k))"
      proof (rule safely_then [OF step])
        fix vars' s2 mem2
        assume on: "goes_on s1 s2" and q: "kept sub fs mem mem2 \<and> (\<forall>v. Some vars' = Some v \<longrightarrow> vars_ok fs v)"
        have "wf_istream s2" "unat (bytes_left s2) \<le> Suc B" "unat (bytes_left s2) < k"
          using on s1(2) tag(1) Suc.prems(6) by (auto simp: goes_on_def)
        moreover have "level_ok env (\<lambda>_. True) sub B calls fs (length mem2)" using Suc.prems(1) q by simp
        ultimately have "safely s2 (\<lambda>r s' mem'. kept sub fs mem2 mem') (decode_loop env calls k vars' (s2, mem2))"
          using Suc.IH [of mem2 vars' s2] q by blast
        then show "safely s2 (\<lambda>r s' mem'. kept sub fs mem mem') (decode_loop env calls k vars' (s2, mem2))"
          using q by (rule_tac safely_mono) simp_all
      qed simp
      from safely_from [OF t(2) this] False t(1) r f show ?thesis by (cases found) simp_all
    qed
  qed
qed

lemma decode_fields_safe:
  assumes ok: "level_ok env (\<lambda>_. True) sub B calls fs (length mem)" and wt: "wt_fields sub fs mem"
    and s: "wf_istream s" "unat (bytes_left s) \<le> Suc B"
  shows "safely s (keeps sub fs mem) (decode_fields env calls fs mem s)"
proof -
  have "vars_ok fs (decode_begin fs)"
  proof (cases fs)
    case (Cons f fs')
    then have "is_at fs 0 (snd (pb_field_iter_begin fs))" by (simp add: is_at_def)
    then show ?thesis by (auto simp: vars_ok_def decode_begin_def)
  qed (simp add: vars_ok_def decode_begin_def)
  from decode_loop_safe [OF ok this wt s lessI] show ?thesis
    unfolding decode_fields_def
    by (rule keeps_then) (auto simp: safelyI goes_on_refl dest: goes_on_wf)
qed

text \<open>With nothing left in the stream no field is decoded.\<close>

lemma decode_fields_end:
  assumes "wf_istream s" "bytes_left s = 0"
  shows "safely s (\<lambda>r s' mem'. mem' = mem) (decode_fields env calls fs mem s)"
  using assms by (simp add: decode_fields_def decode_begin_def safelyI goes_on_refl)

section \<open>Messages in messages\<close>

lemma nests_mono: "nests n env d \<Longrightarrow> n \<le> m \<Longrightarrow> nests m env d"
proof (induction n arbitrary: m d)
  case (Suc n)
  then obtain m' where "m = Suc m'" by (cases m) auto
  with Suc show ?case by (auto simp: nested_ok_def)
qed simp

lemma wf_envD:
  assumes "wf_env D env"
  shows "nests D env d" "f \<in> set (messages env d) \<Longrightarrow> field_ok f"
    "f \<in> set (messages env d) \<Longrightarrow> is_sub f \<Longrightarrow> field_ptr f = Fields d' \<Longrightarrow> layout_fits (messages env d') (unat (data_size f))"
  using assms unfolding wf_env_def by blast+

end
