(* ===== verification/Pb_Message.thy ===== *)
theory Pb_Message
  imports Pb_Safe_Message
begin

text \<open>
  Messages in messages: what \<open>pb_decode\<close> and \<open>pb_release\<close> promise for every descriptor and every input.
\<close>

section \<open>One level after the other\<close>

lemma level_okI:
  assumes "callees_ok env N sub B calls" "wf_env D env" "layout_fits (messages env d) n"
  shows "level_ok env N sub B calls (messages env d) n"
  using assms unfolding level_ok_def wf_env_def by blast

lemma callees_okI:
  assumes "\<And>d cs. layout_fits (messages env d) (length cs) \<Longrightarrow> N d \<Longrightarrow> plain cs \<Longrightarrow>
      \<exists>cs'. set_defaults calls d cs = Some cs' \<and> length cs' = length cs \<and> plain cs' \<and> sub d cs'"
    "\<And>d cs. layout_fits (messages env d) (length cs) \<Longrightarrow> sub d cs \<Longrightarrow>
      \<exists>cs'. release_message calls d cs = Some cs' \<and> length cs' = length cs \<and> plain cs' \<and> sub d cs'"
    "\<And>d cs s. layout_fits (messages env d) (length cs) \<Longrightarrow> sub d cs \<Longrightarrow> wf_istream s \<Longrightarrow> unat (bytes_left s) \<le> B \<Longrightarrow>
      safely s (\<lambda>r s' cs'. length cs' = length cs \<and> sub d cs') (decode_message calls d cs s)"
  shows "callees_ok env N sub B calls"
  unfolding callees_ok_def using assms by blast

text \<open>Callees that decode nothing.\<close>

lemma idle_safe: "wf_istream s \<Longrightarrow> Q None s cs \<Longrightarrow> safely s Q (Some (None, s, cs))"
  by (simp add: safelyI goes_on_refl)

lemma release_safe:
  assumes "wf_env D env"
  shows "layout_fits (messages env d) (length mem) \<Longrightarrow> well_typed n env d mem \<Longrightarrow>
    \<exists>mem'. pb_release n env d mem = Some mem' \<and> length mem' = length mem \<and> plain mem' \<and> well_typed n env d mem'"
proof (induction n arbitrary: d mem)
  case (Suc n)
  define calls :: "'a pb_callees" where "calls = \<lparr>set_defaults = \<lambda>_ _. None, release_message = pb_release n env,
    decode_message = \<lambda>_ cs s. Some (None, s, cs)\<rparr>"
  have "callees_ok env (\<lambda>_. False) (well_typed n env) 0 calls"
    by (rule callees_okI) (use Suc.IH in \<open>auto simp: calls_def intro: idle_safe\<close>)
  from release_message_safe [OF level_okI [OF this assms Suc.prems(1)]] Suc.prems(2) show ?case
    by (simp add: calls_def)
qed simp

lemma defaults_safe:
  assumes "wf_env D env"
  shows "layout_fits (messages env d) (length mem) \<Longrightarrow> nests n env d \<Longrightarrow> plain mem \<Longrightarrow>
    \<exists>mem'. pb_message_set_to_defaults n env d mem = Some mem' \<and> length mem' = length mem \<and> plain mem' \<and> well_typed n env d mem'"
proof (induction n arbitrary: d mem)
  case (Suc n)
  define calls :: "'a pb_callees" where "calls = \<lparr>set_defaults = pb_message_set_to_defaults n env, release_message = pb_release n env,
    decode_message = \<lambda>_ cs s. Some (None, s, cs)\<rparr>"
  have "callees_ok env (nests n env) (well_typed n env) 0 calls"
    by (rule callees_okI) (use Suc.IH release_safe [OF assms] in \<open>auto simp: calls_def intro: idle_safe\<close>)
  from set_defaults_safe [OF level_okI [OF this assms Suc.prems(1)] Suc.prems(3)] Suc.prems(2) show ?case
    by (simp add: calls_def)
qed simp

lemma calls_at_simps [simp]:
  "set_defaults (calls_at n env) = pb_message_set_to_defaults n env"
  "release_message (calls_at n env) = pb_release n env"
  "decode_message (calls_at n env) = pb_decode_noinit n env"
  by (simp_all add: calls_at_def)

lemma decode_noinit_Suc: "pb_decode_noinit (Suc n) env d mem s = decode_fields env (calls_at n env) (messages env d) mem s"
  by (simp add: calls_at_def)

lemma decode_safe:
  assumes "wf_env D env"
  shows "D + B \<le> n \<Longrightarrow> layout_fits (messages env d) (length mem) \<Longrightarrow> well_typed n env d mem \<Longrightarrow> wf_istream s \<Longrightarrow>
    unat (bytes_left s) \<le> B \<Longrightarrow>
    safely s (\<lambda>r s' mem'. length mem' = length mem \<and> well_typed n env d mem') (pb_decode_noinit n env d mem s)"
proof (induction n arbitrary: B d mem s)
  case (Suc n)
  show ?case
  proof (cases B)
    case 0
    then have "bytes_left s = 0" using Suc.prems(5) by (simp add: unat_eq_zero)
    then have "safely s (\<lambda>r s' mem'. mem' = mem) (decode_fields env (calls_at n env) (messages env d) mem s)"
      using decode_fields_end Suc.prems(4) by blast
    then show ?thesis unfolding decode_noinit_Suc by (rule safely_mono) (use Suc.prems(3) in simp)
  next
    case (Suc B')
    then have n: "D + B' \<le> n" "D \<le> n" using Suc.prems(1) by simp_all
    have "callees_ok env (\<lambda>_. True) (well_typed n env) B' (calls_at n env)"
    proof (rule callees_okI)
      show "\<exists>cs'. set_defaults (calls_at n env) d cs = Some cs' \<and> length cs' = length cs \<and> plain cs' \<and> well_typed n env d cs'"
        if "layout_fits (messages env d) (length cs)" "plain cs" for d cs
        using defaults_safe [OF assms that(1) nests_mono [OF wf_envD(1) [OF assms] n(2)] that(2)] by simp
    qed (use release_safe [OF assms] Suc.IH [OF n(1)] in auto)
    from decode_fields_safe [OF level_okI [OF this assms Suc.prems(2)] _ Suc.prems(4)] Suc.prems(3,5) Suc show ?thesis
      by (simp add: calls_at_def)
  qed
qed simp

lemma callees_at_ok:
  assumes "wf_env D env" "D + B \<le> n"
  shows "callees_ok env (\<lambda>_. True) (well_typed n env) B (calls_at n env)"
proof (rule callees_okI)
  have n: "D \<le> n" using assms(2) by simp
  show "\<exists>cs'. set_defaults (calls_at n env) d cs = Some cs' \<and> length cs' = length cs \<and> plain cs' \<and> well_typed n env d cs'"
    if "layout_fits (messages env d) (length cs)" "plain cs" for d cs
    using defaults_safe [OF assms(1) that(1) nests_mono [OF wf_envD(1) [OF assms(1)] n] that(2)] by simp
qed (use release_safe [OF assms(1)] decode_safe [OF assms] in auto)

end
