(* ===== verification/Pb_Required.thy ===== *)
theory Pb_Required
  imports Pb_Message
begin

text \<open>
  Required fields: a message is only accepted when the tag of each of them stands in the input.
\<close>

section \<open>The number of required fields\<close>

abbreviation is_required :: "pb_field \<Rightarrow> bool" where "is_required f \<equiv> htype f = PB_HTYPE_REQUIRED"

lemma required_index_nth_iter:
  "tagged_fields fs \<Longrightarrow> i < length fs \<Longrightarrow> required_field_index (nth_iter fs i) = length (filter is_required (take i fs))"
proof (induction i)
  case 0
  then show ?case by (simp add: pb_field_iter_begin_def Let_def)
next
  case (Suc i)
  then have i: "i < length fs" "field_tag (fs ! i) \<noteq> 0" "field_tag (fs ! Suc i) \<noteq> 0" by (auto simp: tagged_fields_def)
  with Suc show ?case by (auto simp: pb_field_iter_next_def Let_def take_Suc_conv_app_nth)
qed

lemma required_count_exact:
  assumes "tagged_fields fs" "is_at fs i iter"
  shows "required_count iter = min (length (filter is_required fs)) 64"
proof -
  let ?n = "length fs - 1"
  note at = is_at_simps [OF assms]
  have n: "?n < length fs" "\<not> Suc ?n < length fs" using at(6) by simp_all
  have "is_at fs ?n (last (iter_visits iter))"
  proof (cases "Suc i < length fs")
    case True
    then have "iter_visits iter = iter # iter_visits (nth_iter fs (Suc i))"
      using iter_next_inside(1) [of iter] next_is_at [OF assms] assms(1) at
      by (subst iter_visits.simps) (simp add: prod.case_eq_if del: nth_iter.simps)
    moreover have "last (iter # iter_visits (nth_iter fs (Suc i))) = nth_iter fs ?n"
      unfolding visits_nth_iter [OF assms(1) True] using True last_map [of "[Suc i..<length fs]" "nth_iter fs"] n(1)
      by (auto simp del: nth_iter.simps)
    ultimately show ?thesis using n by (simp add: is_at_def del: nth_iter.simps)
  next
    case False
    then have "iter_visits iter = [iter]"
      using iter_next_inside(1) [of iter] assms(1) at
      by (subst iter_visits.simps) (simp add: prod.case_eq_if)
    moreover have "i = ?n" using False at(6) by linarith
    ultimately show ?thesis using assms(2) by simp
  qed
  note last = is_at_simps [OF assms(1) this] next_is_at [OF assms(1) this]
  have "field_tag (iter_field (nth_iter fs 0)) \<noteq> 0"
    using assms(1) n by (cases fs) (simp_all add: tagged_fields_def)
  moreover have "filter is_required fs = filter is_required (take ?n fs) @ filter is_required [fs ! ?n]"
    using n by (metis filter_append take_Suc_conv_app_nth take_all not_less)
  ultimately show ?thesis
    using required_index_nth_iter [OF assms(1) n(1)] last n
    by (simp add: required_count_def Let_def PB_MAX_REQUIRED_FIELDS_def del: nth_iter.simps)
qed

lemma required_count_begin:
  assumes "tagged_fields fs"
  shows "required_count (snd (pb_field_iter_begin fs)) = min (length (filter is_required fs)) 64"
proof (cases "fs = []")
  case True
  have "iter_visits (snd (pb_field_iter_begin [])) = [snd (pb_field_iter_begin [])]"
    by (subst iter_visits.simps) (simp add: pb_field_iter_next_def pb_field_iter_begin_def Let_def field_at_def)
  with True show ?thesis
    by (simp add: required_count_def Let_def pb_field_iter_next_def pb_field_iter_begin_def field_at_def)
next
  case False
  then have "is_at fs 0 (snd (pb_field_iter_begin fs))" by (simp add: is_at_def)
  then show ?thesis by (rule required_count_exact [OF assms])
qed

lemma missing_none_seen: "n \<le> 64 \<Longrightarrow> missing_required n [0, 0] \<longleftrightarrow> n \<noteq> 0"
proof -
  assume "n \<le> 64"
  have "0 \<in> {0..<n div 32}" if "\<not> n < 32" using that by (simp add: div_greater_zero_iff)
  with \<open>n \<le> 64\<close> show ?thesis
    by (cases "n < 32") (auto simp: missing_required_def intro!: bexI [of _ 0])
qed

section \<open>The fields that were seen\<close>

text \<open>The states in which the loop of \<open>pb_decode_noinit\<close> starts a round, and a tag that it reads in one of them.\<close>

inductive round_starts :: "'s pb_env \<Rightarrow> 's pb_callees \<Rightarrow> pb_decode_vars \<Rightarrow> 's pb_state \<Rightarrow> pb_decode_vars \<Rightarrow> 's pb_state \<Rightarrow> bool"
  for env calls vars0 st0 where
  first_round: "round_starts env calls vars0 st0 vars0 st0"
| next_round: "round_starts env calls vars0 st0 vars (s, mem) \<Longrightarrow> pb_decode_tag s = Some ((Some (wire_type, tag), eof), s1) \<Longrightarrow>
    pb_field_iter_find (the_iter vars) tag = Some (found, iter) \<Longrightarrow>
    (if found then decode_known env calls wire_type (vars\<lparr>the_iter := iter\<rparr>) (s1, mem)
     else decode_unknown wire_type tag (vars\<lparr>the_iter := iter\<rparr>) (s1, mem)) = Some (Some vars', st') \<Longrightarrow>
    round_starts env calls vars0 st0 vars' st'"

definition reads_tag :: "'s pb_env \<Rightarrow> 's pb_callees \<Rightarrow> pb_decode_vars \<Rightarrow> 's pb_state \<Rightarrow> u32 \<Rightarrow> bool" where
  "reads_tag env calls vars0 st0 tag \<longleftrightarrow>
     (\<exists>vars u mem wire_type eof u'. round_starts env calls vars0 st0 vars (u, mem) \<and>
        pb_decode_tag u = Some ((Some (wire_type, tag), eof), u'))"

definition required_at :: "pb_field list \<Rightarrow> nat \<Rightarrow> nat" where
  "required_at fs j = length (filter is_required (take j fs))"

lemma required_at_inj:
  "i < j \<Longrightarrow> j < length fs \<Longrightarrow> is_required (fs ! i) \<Longrightarrow> required_at fs i < required_at fs j"
proof (induction j)
  case (Suc j)
  then show ?case by (cases "i = j") (auto simp: required_at_def take_Suc_conv_app_nth)
qed simp

lemma required_at_eq:
  assumes "i < length fs" "j < length fs" "is_required (fs ! i)" "is_required (fs ! j)" "required_at fs i = required_at fs j"
  shows "i = j"
  using required_at_inj [of i j fs] required_at_inj [of j i fs] assms by (cases i j rule: linorder_cases) simp_all

lemma required_at_less: "j < length fs \<Longrightarrow> is_required (fs ! j) \<Longrightarrow> required_at fs j < length (filter is_required fs)"
  by (subst (2) id_take_nth_drop [of j fs]) (simp_all add: required_at_def)

definition seen_bit :: "u32 list \<Rightarrow> nat \<Rightarrow> bool" where
  "seen_bit seen i = bit (seen ! (i div 32)) (i mod 32)"

definition seen_ok :: "(u32 \<Rightarrow> bool) \<Rightarrow> pb_field list \<Rightarrow> u32 list \<Rightarrow> bool" where
  "seen_ok tag_read fs seen \<longleftrightarrow> length seen = 2 \<and> (\<forall>i<64. seen_bit seen i \<longrightarrow>
     (\<exists>j<length fs. is_required (fs ! j) \<and> required_at fs j = i \<and> tag_read (field_tag (fs ! j))))"

lemma seen_ok_set:
  assumes "seen_ok tag_read fs seen" "j < length fs" "is_required (fs ! j)" "tag_read (field_tag (fs ! j))" "i = required_at fs j" "i < 64"
  shows "seen_ok tag_read fs (seen[i div 32 := seen ! (i div 32) OR push_bit (i mod 32) 1])"
  unfolding seen_ok_def
proof (intro conjI allI impI)
  fix k assume k: "k < 64" "seen_bit (seen[i div 32 := seen ! (i div 32) OR push_bit (i mod 32) 1]) k"
  have "seen_bit seen k \<or> k = i"
  proof (cases "k div 32 = i div 32 \<and> k mod 32 = i mod 32")
    case True
    then show ?thesis by (metis div_mult_mod_eq)
  next
    case False
    then show ?thesis
      using k assms(1,6) by (auto simp: seen_bit_def seen_ok_def nth_list_update bit_or_iff bit_push_bit_iff bit_1_iff bit_exp_iff split: if_splits)
  qed
  with assms k(1) show "\<exists>j<length fs. is_required (fs ! j) \<and> required_at fs j = k \<and> tag_read (field_tag (fs ! j))"
    by (auto simp: seen_ok_def)
qed (use assms(1) in \<open>simp add: seen_ok_def\<close>)

lemma missing_required_exact:
  assumes "\<not> missing_required n seen" "i < n" "n \<le> 64"
  shows "seen_bit seen i"
proof (cases "i div 32 < n div 32")
  case True
  with assms(1) have "seen ! (i div 32) = - 1" by (auto simp: missing_required_def)
  then show ?thesis by (simp add: seen_bit_def)
next
  case False
  moreover have "i div 32 \<le> n div 32" using assms(2) by (intro div_le_mono) simp
  ultimately have same: "i div 32 = n div 32" by simp
  have "i mod 32 < n mod 32"
    using assms(2) same div_mult_mod_eq [of i 32] div_mult_mod_eq [of n 32] by linarith
  with same show ?thesis using assms(1) by (auto simp: missing_required_def seen_bit_def bit_simps)
qed

lemma pb_then_result:
  assumes "pb_then m k = Some (Some y, st')"
  obtains x st where "m = Some (Some x, st)" "k x st = Some (Some y, st')"
  using assms by (auto simp: pb_then_def split: option.splits)

lemma decode_known_seen:
  assumes "decode_known env calls wire_type vars st = Some (Some vars', st')"
  shows "fields_seen vars' = fields_seen (note_required vars)"
proof -
  from assms obtain vars1 st1 where
    first: "check_fixed_count vars st = Some (Some vars1, st1)"
    and rest: "pb_then (decode_field env calls wire_type (the_iter (note_required vars1)) (fixed_count_size (note_required vars1)) st1)
      (\<lambda>(iter, fixed) st. Some (Some ((note_required vars1)\<lparr>the_iter := iter, fixed_count_size := fixed\<rparr>), st)) = Some (Some vars', st')"
    unfolding decode_known_def Let_def by (rule pb_then_result)
  have "fields_seen vars1 = fields_seen vars" "required_field_index (the_iter vars1) = required_field_index (the_iter vars)"
    "start (the_iter vars1) = start (the_iter vars)" "pos (the_iter vars1) = pos (the_iter vars)"
    using first by (auto simp: check_fixed_count_def Let_def dec_error_def keeping_def pb_ireturn_error_def split: if_splits)
  then have "fields_seen (note_required vars1) = fields_seen (note_required vars)"
    by (simp add: note_required_def Let_def)
  with rest show ?thesis by (auto elim!: pb_then_result split: prod.splits)
qed

lemma decode_unknown_seen:
  assumes "decode_unknown wire_type tag vars st = Some (Some vars', st')"
  shows "fields_seen vars' = fields_seen vars"
  using assms by (auto simp: decode_unknown_def Let_def elim!: pb_then_result split: option.splits if_splits)

lemma note_required_seen:
  assumes "tagged_fields fs" "is_at fs j (the_iter vars)" "seen_ok tag_read fs (fields_seen vars)" "tag_read (field_tag (fs ! j))"
  shows "seen_ok tag_read fs (fields_seen (note_required vars))"
proof -
  note at = is_at_simps [OF assms(1,2)]
  have "required_field_index (the_iter vars) = required_at fs j"
    using at(4) required_index_nth_iter [OF assms(1) at(6)] by (simp add: required_at_def)
  with seen_ok_set [OF assms(3) at(6) _ assms(4)] assms(3) at(3) show ?thesis
    by (simp add: note_required_def Let_def PB_MAX_REQUIRED_FIELDS_def)
qed

lemma decode_loop_seen:
  assumes fs: "fs \<noteq> []"
  shows "level_ok env (\<lambda>_. True) sub B calls fs (length mem) \<Longrightarrow> vars_ok fs vars \<Longrightarrow> wt_fields sub fs mem \<Longrightarrow> wf_istream s \<Longrightarrow>
    unat (bytes_left s) \<le> Suc B \<Longrightarrow> round_starts env calls vars0 st0 vars (s, mem) \<Longrightarrow> seen_ok (reads_tag env calls vars0 st0) fs (fields_seen vars) \<Longrightarrow>
    decode_loop env calls k vars (s, mem) = Some (Some vars', st') \<Longrightarrow>
    seen_ok (reads_tag env calls vars0 st0) fs (fields_seen vars') \<and> vars_ok fs vars'"
proof (induction k arbitrary: vars s mem)
  case (Suc k)
  note ok = Suc.prems(1) and result = Suc.prems(8)
  from decode_tag_takes [OF Suc.prems(4)] obtain r eof s1 where
    t: "pb_decode_tag s = Some ((r, eof), s1)" "goes_on s s1"
      "\<forall>wt tag. r = Some (wt, tag) \<longrightarrow> unat (bytes_left s1) < unat (bytes_left s) \<and> tag \<noteq> - 1" by blast
  show ?case
  proof (cases "bytes_left s = 0 \<or> r = None")
    case True
    with t(1) result Suc.prems(2,7) show ?thesis by (auto split: if_splits)
  next
    case False
    then obtain wire_type tag where r: "r = Some (wire_type, tag)" by (cases r) auto
    then have tag: "unat (bytes_left s1) < unat (bytes_left s)" "tag \<noteq> - 1" using t(3) by simp_all
    have s1: "wf_istream s1" "unat (bytes_left s1) \<le> Suc B" using t(2) tag(1) Suc.prems(5) by (auto simp: goes_on_def)
    have read: "reads_tag env calls vars0 st0 tag" using Suc.prems(6) t(1) r unfolding reads_tag_def by blast
    obtain i where i: "is_at fs i (the_iter vars)" using Suc.prems(2) fs by (auto simp: vars_ok_def)
    from decode_round [OF Suc.prems(1,2) tag(2) Suc.prems(3) s1] obtain found iter where
      f: "pb_field_iter_find (the_iter vars) tag = Some (found, iter)"
      and step: "safely s1 (\<lambda>r s' mem'. kept sub fs mem mem' \<and> (\<forall>vars'. r = Some vars' \<longrightarrow> vars_ok fs vars'))
        (if found then decode_known env calls wire_type (vars\<lparr>the_iter := iter\<rparr>) (s1, mem)
         else decode_unknown wire_type tag (vars\<lparr>the_iter := iter\<rparr>) (s1, mem))" by blast
    from result False t(1) r f obtain vars1 s2 mem2 where
      round: "(if found then decode_known env calls wire_type (vars\<lparr>the_iter := iter\<rparr>) (s1, mem)
         else decode_unknown wire_type tag (vars\<lparr>the_iter := iter\<rparr>) (s1, mem)) = Some (Some vars1, s2, mem2)"
      and rest: "decode_loop env calls k vars1 (s2, mem2) = Some (Some vars', st')"
      by (auto elim!: pb_then_result cong: if_cong)
    have q: "goes_on s1 s2" "kept sub fs mem mem2" "vars_ok fs vars1" using step unfolding round by (auto simp: safely_def)
    have "seen_ok (reads_tag env calls vars0 st0) fs (fields_seen vars1)"
    proof (cases rule: iter_find_cases [OF level_okD(3) [OF ok] _ i, where tag = tag, case_names ext found unknown])
      case ext
      then show ?case using no_extensions [OF ok] by blast
    next
      case (found j iter')
      have "seen_ok (reads_tag env calls vars0 st0) fs (fields_seen (note_required (vars\<lparr>the_iter := iter'\<rparr>)))"
        using note_required_seen [OF level_okD(3) [OF ok], of j "vars\<lparr>the_iter := iter'\<rparr>" "reads_tag env calls vars0 st0"] found Suc.prems(7) read by simp
      with found f round show ?thesis by (auto dest: decode_known_seen)
    next
      case unknown
      with f round Suc.prems(7) show ?thesis by (auto dest: decode_unknown_seen)
    qed
    moreover have "wf_istream s2" "unat (bytes_left s2) \<le> Suc B" using q(1) s1(2) by (auto simp: goes_on_def)
    moreover have "round_starts env calls vars0 st0 vars1 (s2, mem2)"
      using next_round [OF Suc.prems(6) t(1) [unfolded r] f round] .
    moreover have "level_ok env (\<lambda>_. True) sub B calls fs (length mem2)" using ok q(2) by simp
    ultimately show ?thesis using Suc.IH [of mem2 vars1 s2] q(2,3) rest by blast
  qed
qed simp

lemma decode_fields_required:
  assumes "level_ok env (\<lambda>_. True) sub B calls fs (length mem)" "wt_fields sub fs mem" "wf_istream s" "unat (bytes_left s) \<le> Suc B"
    "decode_fields env calls fs mem s = Some (Some (), st')" "j < length fs" "is_required (fs ! j)" "required_at fs j < 64"
  shows "reads_tag env calls (decode_begin fs) (s, mem) (field_tag (fs ! j))"
proof -
  define vars where "vars = decode_begin fs"
  have fs: "fs \<noteq> []" using assms(6) by auto
  then have "is_at fs 0 (the_iter vars)" by (simp add: is_at_def vars_def decode_begin_def)
  then have vars: "vars_ok fs vars" by (auto simp: vars_ok_def)
  let ?read = "reads_tag env calls vars (s, mem)"
  have seen: "seen_ok ?read fs (fields_seen vars)"
    by (auto simp: seen_ok_def vars_def decode_begin_def seen_bit_def less_Suc_eq nth_Cons split: nat.splits)
  from assms(5) obtain vars' st1 where loop: "decode_loop env calls (Suc (unat (bytes_left s))) vars (s, mem) = Some (Some vars', st1)"
    and check: "\<not> missing_required (required_count (the_iter vars')) (fields_seen vars')"
    unfolding decode_fields_def vars_def [symmetric]
    by (auto simp: dec_error_def keeping_def pb_ireturn_error_def elim!: pb_then_result split: if_splits)
  from decode_loop_seen [OF fs assms(1) vars assms(2-4) first_round seen loop]
  have final: "seen_ok ?read fs (fields_seen vars')" "vars_ok fs vars'" by simp_all
  then obtain i where "is_at fs i (the_iter vars')" using fs by (auto simp: vars_ok_def)
  from required_count_exact [OF level_okD(3) [OF assms(1)] this] check
  have "seen_bit (fields_seen vars') (required_at fs j)"
    using required_at_less [OF assms(6,7)] assms(8) by (auto intro: missing_required_exact)
  then obtain k where "k < length fs" "is_required (fs ! k)" "required_at fs k = required_at fs j" "?read (field_tag (fs ! k))"
    using final(1) assms(8) by (auto simp: seen_ok_def)
  then show ?thesis using required_at_eq assms(6,7) unfolding vars_def by metis
qed

text \<open>On an empty stream.\<close>

lemma decode_fields_none:
  assumes "tagged_fields fs" "bytes_left s = 0"
  shows "decode_fields env calls fs mem s =
    (if \<exists>f\<in>set fs. is_required f then dec_error (s, mem) ''missing required field'' else pb_ok (s, mem))"
  using required_count_begin [OF assms(1)] assms(2)
  by (simp add: decode_fields_def decode_begin_def wrong_fixed_count_def missing_none_seen filter_empty_conv)

lemma decode_fields_none_required:
  assumes "tagged_fields fs" "bytes_left s = 0" "j < length fs" "decode_fields env calls fs mem s = Some (Some (), st')"
  shows "\<not> is_required (fs ! j)"
  using assms decode_fields_none [OF assms(1,2), of env calls mem]
  by (auto simp: dec_error_def keeping_def pb_ireturn_error_def split: if_splits)

end
