(* ===== verification/Pb_Decode_Safe.thy ===== *)
theory Pb_Decode_Safe
  imports Pb_Required
begin

text \<open>
  The properties of \<^verbatim>\<open>nanopb/pb_decode.c\<close> on whole messages.
\<close>

section \<open>A message\<close>

declare varint_loop.simps [code] varint32_loop.simps [code] read_raw_varint.simps [code] pb_skip_varint.simps [code]
  callback_loop.simps [code]

text \<open>
  \<open>message Node { required uint32 id = 1; optional string name = 2; repeated Node items = 3; }\<close> with the string
  and the array on the heap: \<open>id\<close> is at 0, \<open>name\<close> at 8, \<open>items_count\<close> at 16 and \<open>items\<close> at 24.
\<close>

definition node_fields :: "pb_field list" where
  "node_fields =
     [\<lparr>field_tag = 1, field_type = 0x02, data_offset = 0, size_offset = 0, data_size = 4, array_size = 0, field_ptr = Null_ptr\<rparr>,
      \<lparr>field_tag = 2, field_type = 0x97, data_offset = 4, size_offset = 0, data_size = 8, array_size = 0, field_ptr = Null_ptr\<rparr>,
      \<lparr>field_tag = 3, field_type = 0xA8, data_offset = 8, size_offset = - 8, data_size = 32, array_size = 0, field_ptr = Fields 0\<rparr>]"

definition node_env :: "unit pb_env" where
  "node_env = \<lparr>messages = (\<lambda>d. if d = 0 then node_fields else []),
     allocs = \<lparr>malloc_ok = (\<lambda>n. n < 2 ^ 20), junk = (\<lambda>_. 0xCC)\<rparr>, address = (\<lambda>_. 0x1000),
     decode_call = (\<lambda>_ _ arg s. Some (False, arg, s)), encode_call = (\<lambda>_ _ _ s. Some (False, s))\<rparr>"

lemma less_Suc3: "(\<forall>i<Suc (Suc (Suc 0)). P i) \<longleftrightarrow> P 0 \<and> P 1 \<and> P 2"
  by (auto simp: less_Suc_eq numeral_2_eq_2)

lemma node_iters:
  "data_at node_fields 0 = 0" "data_at node_fields 1 = 8" "data_at node_fields 2 = 24"
  "size_at node_fields 0 = 0" "size_at node_fields 1 = 8" "size_at node_fields 2 = 16"
  by code_simp+

lemma node_oneof: "i < length node_fields \<Longrightarrow> \<not> is_oneof (node_fields ! i)"
proof -
  have "list_all (\<lambda>f. \<not> is_oneof f) node_fields" by code_simp
  then show "i < length node_fields \<Longrightarrow> \<not> is_oneof (node_fields ! i)" by (simp add: list_all_length)
qed

lemma node_lens:
  "length node_fields = 3" "data_len (node_fields ! 0) = 4" "data_len (node_fields ! 1) = 8" "data_len (node_fields ! 2) = 8"
  "size_len (node_fields ! 0) = 0" "size_len (node_fields ! 1) = 0" "size_len (node_fields ! 2) = 4"
  "sint (size_offset (node_fields ! 0)) = 0" "sint (size_offset (node_fields ! 1)) = 0"
  "sint (size_offset (node_fields ! 2)) = - 8" "tagged_fields node_fields"
  by code_simp+

lemma node_field_ok: "f \<in> set node_fields \<Longrightarrow> field_ok f"
  by (auto simp: node_fields_def field_ok_def is_text_def PB_ATYPE_def PB_LTYPE_def PB_HTYPE_def pb_ltypes pb_atypes pb_htypes)

lemma node_fits: "32 \<le> n \<Longrightarrow> layout_fits node_fields n"
proof -
  have slots: "slot_len node_fields 0 = 4" "slot_len node_fields 1 = 8" "slot_len node_fields 2 = 8"
    using slot_len_single [OF _ node_oneof, of 0] slot_len_single [OF _ node_oneof, of 1] slot_len_single [OF _ node_oneof, of 2]
    by (simp_all add: node_lens(1-4) del: One_nat_def)
  have spans: "span node_fields 0 = {0..<4}" "span node_fields 1 = {8..<16}" "span node_fields 2 = {16..<20} \<union> {24..<32}"
    unfolding span_def extent_def slots node_iters node_lens by auto
  show "32 \<le> n \<Longrightarrow> layout_fits node_fields n"
    using node_lens(11)
    unfolding layout_fits_def node_lens numeral_3_eq_3 less_Suc3 slots spans node_iters extent_def
    by (auto simp del: One_nat_def)
qed

lemma node_wf: "wf_env 1 node_env"
proof -
  have "nests 1 node_env d" for d
    by (auto simp: nested_ok_def node_env_def node_fields_def PB_ATYPE_def PB_ATYPE_STATIC_def PB_LTYPE_def PB_LTYPE_SUBMESSAGE_def)
  moreover have "field_ok f" if "f \<in> set (messages node_env d)" for f d
    using that node_field_ok by (auto simp: node_env_def split: if_splits)
  moreover have "layout_fits (messages node_env d') (unat (data_size f))"
    if "f \<in> set (messages node_env d)" "field_ptr f = Fields d'" for f d d'
    using that node_fits [of 32] by (auto simp: node_env_def node_fields_def split: if_splits)
  ultimately show ?thesis by (auto simp: wf_env_def node_env_def)
qed

text \<open>The \<open>id\<close> 42 and one item with the \<open>id\<close> 7; and the same with the last byte cut off.\<close>

definition node_input :: "unit pb_istream" where
  "node_input = pb_istream_from_buffer [0x08, 0x2A, 0x1A, 0x02, 0x08, 0x07] 6"

definition cut_input :: "unit pb_istream" where
  "cut_input = pb_istream_from_buffer [0x08, 0x2A, 0x1A, 0x02, 0x08] 5"

lemma node_inputs:
  "wf_istream node_input" "unat (bytes_left node_input) = 6" "wf_istream cut_input" "unat (bytes_left cut_input) = 5"
  by (simp_all add: node_input_def cut_input_def pb_istream_from_buffer_def wf_istream_def)

abbreviation fresh_node :: "cell list" where "fresh_node \<equiv> replicate 32 (Byte 0xCC)"

lemma fresh_node_fits: "layout_fits (messages node_env 0) (length fresh_node)" "plain fresh_node"
  using node_fits [of 32] by (simp_all add: node_env_def)

text \<open>What the decoder makes of the first input.\<close>

definition node_memory :: "cell list" where
  "node_memory = map Byte [0x2A, 0, 0, 0] @ replicate 4 (Byte 0xCC) @ null_cells @
     map Byte [1, 0, 0, 0] @ replicate 4 (Byte 0xCC) @ ptr_cells (Byte 7 # replicate 31 (Byte 0))"

lemma node_run:
  "pb_decode 7 node_env 0 fresh_node node_input =
   pb_ok (\<lparr>source = Buf_read [], bytes_left = 0, ierrmsg = None\<rparr>, node_memory)"
  by code_simp

lemma node_zeros: "well_typed 7 node_env 0 (replicate 32 (Byte 0))"
proof -
  have "nests 7 node_env 0" using nests_mono [OF wf_envD(1) [OF node_wf]] by simp
  moreover have "layout_fits (messages node_env 0) (length (replicate 32 (Byte 0)))" using fresh_node_fits by simp
  moreover have "pb_message_set_to_defaults 7 node_env 0 (replicate 32 (Byte 0)) = Some (replicate 32 (Byte 0))" by code_simp
  ultimately show ?thesis using defaults_safe [OF node_wf, of 0 "replicate 32 (Byte 0)" 7] by simp
qed

section \<open>Delimited messages\<close>

lemma delimited_safe:
  assumes s: "wf_istream s" and Q: "Q mem"
    and dec: "\<And>sub. wf_istream sub \<Longrightarrow> unat (bytes_left sub) \<le> unat (bytes_left s) \<Longrightarrow> safely sub (\<lambda>r s' mem'. Q mem') (dec mem sub)"
  shows "safely s (\<lambda>r s' mem'. Q mem') (delimited dec mem s)"
  unfolding delimited_def
proof (rule safely_substream [OF s])
  show "Q mem" by (rule Q)
next
  fix sub s1
  assume child: "child s s1 sub"
  then have sub: "wf_istream sub" "unat (bytes_left sub) \<le> unat (bytes_left s)" by (auto simp: child_def)
  from dec [OF this] obtain r s2 c where *: "dec mem sub = Some (r, s2, c)" "goes_on sub s2" "Q c"
    by (auto simp: safely_def)
  have "safely s (\<lambda>r s' mem'. Q mem') (pb_then (keeping c (pb_close_string_substream s1 s2)) (\<lambda>_ st. Some (r, st)))"
    by (rule safely_then [OF safely_close [OF child *(2), where Q = "\<lambda>_ _ d. d = c"]])
      (auto simp: * safelyI goes_on_refl dest: goes_on_wf)
  with * show "safely s (\<lambda>r s' mem'. Q mem')
     (case (s1, mem) of (s, mem) \<Rightarrow>
        (case dec mem sub of None \<Rightarrow> None
         | Some (status, substream, mem) \<Rightarrow>
             pb_then (keeping mem (pb_close_string_substream s substream)) (\<lambda>_ st. Some (status, st))))"
    by simp
qed

section \<open>Arrays with a fixed number of items\<close>

text \<open>\<open>message Flag { repeated bool on = 1 [fixed_count, max_count 1]; }\<close> is a structure of one byte; the items of
  \<open>message Names { repeated Name names = 1 [fixed_count, max_count 2]; }\<close> are structures with a pointer.\<close>

definition flag_fields :: "pb_field list" where
  "flag_fields = [\<lparr>field_tag = 1, field_type = 0x20, data_offset = 0, size_offset = 0, data_size = 1, array_size = 1, field_ptr = Null_ptr\<rparr>]"

definition names_env :: "unit pb_env" where
  "names_env = node_env\<lparr>messages := (\<lambda>d.
     if d = 0 then [\<lparr>field_tag = 1, field_type = 0x28, data_offset = 0, size_offset = 0, data_size = 8, array_size = 2, field_ptr = Fields 1\<rparr>]
     else if d = 1 then [\<lparr>field_tag = 1, field_type = 0x97, data_offset = 0, size_offset = 0, data_size = 8, array_size = 0, field_ptr = Null_ptr\<rparr>]
     else flag_fields)\<rparr>"

section \<open>Properties\<close>

text \<open>C4. Decoding is safe on every input.  Let the descriptors be well-formed (fields in place, on the heap and in
  unions, submessages, arrays that are packed or not; no callbacks, extensions or arrays of submessages in place) and nested
  at most \<open>D\<close> deep in place (recursion through pointers is not limited), let the allocator grant less than \<open>2 ^ 32\<close> bytes at a
  time, let the structure have room for the message, and let the stream hold any bytes.  Then \<open>pb_decode\<close> returns: it reads nothing behind the stream, writes nothing outside the structure
  and the blocks it allocated, follows no pointer that is none, and loses no block.  The structure holds a
  message afterwards, in which \<open>pb_release\<close> finds every block, so that after it nothing is left allocated; when
  \<open>pb_decode\<close> fails it has done so itself.  Submessages nest at most as deep as there are bytes.\<close>

theorem pb_decode_safe:
  assumes "wf_env D env" "layout_fits (messages env d) (length mem)" "plain mem" "wf_istream s"
    "D + unat (bytes_left s) \<le> n"
  shows "\<exists>r s' mem'. pb_decode n env d mem s = Some (r, s', mem') \<and>
    wf_istream s' \<and> suffix (src_bytes s') (src_bytes s) \<and> unat (bytes_left s') \<le> unat (bytes_left s) \<and>
    length mem' = length mem \<and> well_typed n env d mem' \<and> (r = None \<longrightarrow> plain mem') \<and>
    (\<exists>mem''. pb_release n env d mem' = Some mem'' \<and> length mem'' = length mem \<and> plain mem'')"
proof -
  from decode_with_safe [OF callees_at_ok [OF assms(1,5)] assms(2-4) order_refl]
  obtain r s' mem' where *: "pb_decode n env d mem s = Some (r, s', mem')" "goes_on s s'"
    "length mem' = length mem" "well_typed n env d mem'" "r = None \<longrightarrow> plain mem'"
    by (auto simp: pb_decode_def safely_def)
  moreover have "layout_fits (messages env d) (length mem')" using assms(2) *(3) by simp
  ultimately show ?thesis
    using release_safe [OF assms(1), of d mem' n] by (auto simp: goes_on_def)
qed

theorem pb_decode_safe_witness:
  "(\<exists>mem''. pb_release 7 node_env 0 node_memory = Some mem'' \<and> length mem'' = 32 \<and> plain mem'') \<and>
   (\<exists>r s' mem'. pb_decode 7 node_env 0 fresh_node cut_input = Some (r, s', mem') \<and> length mem' = 32 \<and> (r = None \<longrightarrow> plain mem'))"
  using pb_decode_safe [OF node_wf fresh_node_fits node_inputs(1), of 7]
    pb_decode_safe [OF node_wf fresh_node_fits node_inputs(3), of 7]
  by (auto simp: node_inputs node_run)



text \<open>C6. Required fields are checked: when \<open>pb_decode_noinit\<close> succeeds, then for each of the first 64 required
  fields of the message some round of its loop started with a tag that has the number of the field (not a place
  inside another field, nor one in a submessage).\<close>

theorem pb_decode_required:
  assumes "wf_env D env" "layout_fits (messages env d) (length mem)" "well_typed (Suc k) env d mem" "wf_istream s"
    "D + unat (bytes_left s) \<le> Suc k" "pb_decode_noinit (Suc k) env d mem s = Some (Some (), s', mem')"
    "j < length (messages env d)" "htype (messages env d ! j) = PB_HTYPE_REQUIRED"
    "length (filter (\<lambda>f. htype f = PB_HTYPE_REQUIRED) (take j (messages env d))) < 64"
  shows "\<exists>vars u mem1 wire_type eof u'.
    round_starts env (calls_at k env) (decode_begin (messages env d)) (s, mem) vars (u, mem1) \<and>
    pb_decode_tag u = Some ((Some (wire_type, field_tag (messages env d ! j)), eof), u')"
proof (cases "bytes_left s = 0")
  case True
  have "htype (messages env d ! j) \<noteq> PB_HTYPE_REQUIRED"
    using assms(6) decode_fields_none_required [of "messages env d" s j env "calls_at k env" mem] True assms(2,7)
    by (simp add: calls_at_def layout_fits_def)
  with assms(8) show ?thesis by simp
next
  case False
  then obtain B where B: "unat (bytes_left s) = Suc B" by (metis not0_implies_Suc unat_eq_0)
  with assms(5) have "D + B \<le> k" by simp
  from level_okI [OF callees_at_ok [OF assms(1) this] assms(1,2)]
  have "level_ok env (\<lambda>_. True) (well_typed k env) B (calls_at k env) (messages env d) (length mem)" .
  from decode_fields_required [OF this _ assms(4) _ _ assms(7,8)] assms(3,6,9) B
  have "reads_tag env (calls_at k env) (decode_begin (messages env d)) (s, mem) (field_tag (messages env d ! j))"
    by (simp add: calls_at_def required_at_def)
  then show ?thesis unfolding reads_tag_def .
qed

theorem pb_decode_required_witness:
  "\<exists>vars u mem1 wire_type eof u'.
     round_starts node_env (calls_at 6 node_env) (decode_begin node_fields) (node_input, replicate 32 (Byte 0)) vars (u, mem1) \<and>
     pb_decode_tag u = Some ((Some (wire_type, 1), eof), u')"
proof -
  have fits: "layout_fits (messages node_env 0) (length (replicate 32 (Byte 0)))" using fresh_node_fits by simp
  have run: "pb_decode_noinit (Suc 6) node_env 0 (replicate 32 (Byte 0)) node_input =
      Some (Some (), \<lparr>source = Buf_read [], bytes_left = 0, ierrmsg = None\<rparr>,
        map Byte [0x2A, 0, 0, 0] @ replicate 12 (Byte 0) @ map Byte [1, 0, 0, 0, 0, 0, 0, 0] @ ptr_cells (Byte 7 # replicate 31 (Byte 0)))"
    by code_simp
  have zeros: "well_typed (Suc 6) node_env 0 (replicate 32 (Byte 0))" using node_zeros by (simp del: well_typed.simps)
  have fields: "messages node_env 0 = node_fields" by (simp add: node_env_def)
  have "0 < length (messages node_env 0)" "htype (messages node_env 0 ! 0) = PB_HTYPE_REQUIRED" "field_tag (messages node_env 0 ! 0) = 1"
    by (simp_all add: node_env_def node_fields_def PB_HTYPE_def pb_htypes)
  with pb_decode_required [OF node_wf fits zeros node_inputs(1) _ run, of 0] show ?thesis
    by (simp add: node_inputs fields)
qed

text \<open>An empty input, exactly: \<open>pb_decode\<close> gives the default values, unless some field is required; then it
  fails with ``missing required field'', and the structure holds what \<open>pb_release\<close> makes of the default
  values.  The stream is where it was.\<close>

lemma pb_decode_empty_exact:
  assumes "wf_env D env" "layout_fits (messages env d) (length mem)" "plain mem" "bytes_left s = 0" "D \<le> n"
  shows "\<exists>mem'. pb_message_set_to_defaults n env d mem = Some mem' \<and> plain mem' \<and> well_typed n env d mem' \<and>
    (if \<exists>f\<in>set (messages env d). htype f = PB_HTYPE_REQUIRED
     then \<exists>mem''. pb_release n env d mem' = Some mem'' \<and> plain mem'' \<and>
       pb_decode n env d mem s = dec_error (s, mem'') ''missing required field''
     else pb_decode n env d mem s = pb_ok (s, mem'))"
proof -
  let ?fs = "messages env d"
  have n: "nests n env d" using nests_mono [OF wf_envD(1) [OF assms(1)] assms(5)] .
  then obtain k where k: "n = Suc k" by (cases n) auto
  from defaults_safe [OF assms(1,2) n assms(3)] obtain mem' where
    mem': "pb_message_set_to_defaults n env d mem = Some mem'" "length mem' = length mem" "plain mem'" "well_typed n env d mem'" by blast
  have tagged: "tagged_fields ?fs" using assms(2) by (simp add: layout_fits_def)
  have "layout_fits ?fs (length mem')" using assms(2) mem'(2) by simp
  from release_safe [OF assms(1) this mem'(4)] obtain mem'' where mem'': "pb_release n env d mem' = Some mem''" "plain mem''" by blast
  have "pb_decode_noinit n env d mem' s =
      (if \<exists>f\<in>set ?fs. is_required f then dec_error (s, mem') ''missing required field'' else pb_ok (s, mem'))"
    unfolding k decode_noinit_Suc by (rule decode_fields_none [OF tagged assms(4)])
  with mem' mem'' show ?thesis
    by (auto simp: pb_decode_def pb_decode_with_def pb_ireturn_error_def dec_error_def keeping_def)
qed

text \<open>Arrays with a fixed number of items are not initialised.  \<open>pb_field_set_to_default\<close> takes the place
  of the array for that of its count and writes four zero bytes there: an array of fewer bytes is overrun, and one of
  submessages keeps what it held, so that a message that cannot be decoded is released with pointers that are none
  (here the input is a field with a wire type that is none).\<close>

lemma fixed_count_arrays_uninitialised:
  "pb_message_set_to_defaults 1 names_env 2 [Byte 0xCC] = None \<and>
   pb_message_set_to_defaults 1 names_env 0 (replicate 16 (Byte 0xCC)) = Some (replicate 4 (Byte 0) @ replicate 12 (Byte 0xCC)) \<and>
   pb_decode_noinit 2 names_env 0 (replicate 4 (Byte 0) @ replicate 12 (Byte 0xCC)) (pb_istream_from_buffer [0x14] 1) =
     dec_error (\<lparr>source = Buf_read [], bytes_left = 0, ierrmsg = None\<rparr>, replicate 4 (Byte 0) @ replicate 12 (Byte 0xCC)) ''invalid wire_type'' \<and>
   pb_release 2 names_env 0 (replicate 4 (Byte 0) @ replicate 12 (Byte 0xCC)) = None \<and>
   pb_decode 2 names_env 0 (replicate 16 (Byte 0xCC)) (pb_istream_from_buffer [0x14] 1) = None"
  by code_simp

end
