(* ===== verification/Pb_Encode.thy ===== *)
theory Pb_Encode
  imports Pb_Common
begin

text \<open>
  The encoder of messages: \<^verbatim>\<open>nanopb/pb_encode.c\<close> from \<open>encode_array\<close> on.  The functions that call each other
  through submessages take the callee as a parameter and are closed by recursion on the depth of the
  submessages; the bound does not matter when it is large enough for the message.
\<close>

section \<open>Fields\<close>

text \<open>The bytes at \<open>pData\<close> as the last loop of \<open>pb_check_proto3_default_value\<close> reads them.\<close>

definition raw_bytes :: "'s pb_env \<Rightarrow> int \<Rightarrow> nat \<Rightarrow> cell list \<Rightarrow> byte list option" where
  "raw_bytes env off n mem =
     (case load_ptr off mem of
        Some (Some block) \<Rightarrow> if n \<le> 8 then Some (take n (le_bytes 8 (unat (address env block)))) else None
      | _ \<Rightarrow> load_bytes off n mem)"

definition check_default_value ::
  "'s pb_env \<Rightarrow> (nat \<Rightarrow> cell list \<Rightarrow> bool option) \<Rightarrow> pb_field \<Rightarrow> int \<Rightarrow> cell list \<Rightarrow> bool option" where
  "check_default_value env check_message f off mem =
     (let size_at = off + sint (size_offset f) in
      if htype f = PB_HTYPE_REQUIRED then Some False
      else if htype f = PB_HTYPE_REPEATED \<and> size_offset f \<noteq> 0 then map_option (\<lambda>n. n = 0) (load_size size_at mem)
      else if htype f = PB_HTYPE_REPEATED \<and> atype f = PB_ATYPE_STATIC then Some False
      else if htype f = PB_HTYPE_ONEOF then map_option (\<lambda>n. n = 0) (load_size size_at mem)
      else if htype f = PB_HTYPE_OPTIONAL \<and> size_offset f \<noteq> 0 then map_option Not (load_flag size_at mem)
      else if atype f = PB_ATYPE_STATIC \<and> ltype f = PB_LTYPE_BYTES then map_option (\<lambda>n. n = 0) (load_size off mem)
      else if atype f = PB_ATYPE_STATIC \<and> ltype f = PB_LTYPE_STRING then map_option (\<lambda>bs. bs = [0]) (load_bytes off 1 mem)
      else if atype f = PB_ATYPE_STATIC \<and> ltype f = PB_LTYPE_FIXED_LENGTH_BYTES then Some (data_size f = 0)
      else if atype f = PB_ATYPE_STATIC \<and> ltype f = PB_LTYPE_SUBMESSAGE then
        (case field_ptr f of
           Fields d \<Rightarrow> Option.bind (window off (unat (data_size f)) mem) (check_message d)
         | _ \<Rightarrow> None)
      else if atype f = PB_ATYPE_POINTER \<and> ltype f > PB_LTYPE_LAST_PACKABLE then
        map_option (\<lambda>p. p = None) (load_ptr off mem)
      else map_option (\<lambda>bs. \<forall>b\<in>set bs. b = 0) (raw_bytes env off (unat (data_size f)) mem))"

primrec check_all :: "(pb_iter \<Rightarrow> bool option) \<Rightarrow> pb_iter list \<Rightarrow> bool option" where
  "check_all check [] = Some True"
| "check_all check (iter # iters) =
     (case check iter of
        None \<Rightarrow> None
      | Some default_value \<Rightarrow> if default_value then check_all check iters else Some False)"

primrec check_message :: "nat \<Rightarrow> 's pb_env \<Rightarrow> nat \<Rightarrow> cell list \<Rightarrow> bool option" where
  "check_message 0 env d mem = None"
| "check_message (Suc depth) env d mem =
     check_all (\<lambda>iter. check_default_value env (check_message depth env) (iter_field iter) (pData iter) mem)
       (each_field (messages env d))"

definition pb_check_proto3_default_value :: "nat \<Rightarrow> 's pb_env \<Rightarrow> pb_field \<Rightarrow> int \<Rightarrow> cell list \<Rightarrow> bool option" where
  "pb_check_proto3_default_value depth env f off mem = check_default_value env (check_message depth env) f off mem"

text \<open>A submessage, of which \<open>encode\<close> is \<open>pb_encode\<close>: first its size is counted, then it is written to a stream that
  has room for this size only.\<close>

definition write_submessage ::
  "('s pb_ostream \<Rightarrow> (unit, 's pb_ostream) pb_result) \<Rightarrow> u64 \<Rightarrow> 's pb_ostream \<Rightarrow> (unit, 's pb_ostream) pb_result" where
  "write_submessage encode n s =
     (if sink s = None then pb_write [] n s
      else if bytes_written s + n > max_size s then pb_oreturn_error s ''stream full''
      else case encode \<lparr>sink = sink s, max_size = n, bytes_written = 0, oerrmsg = None\<rparr> of
             None \<Rightarrow> None
           | Some (status, sub) \<Rightarrow>
               (let s = s\<lparr>bytes_written := bytes_written s + bytes_written sub, sink := sink sub, oerrmsg := oerrmsg sub\<rparr>
                in if bytes_written sub \<noteq> n then pb_oreturn_error s ''submsg size changed'' else Some (status, s)))"

definition pb_encode_submessage ::
  "('s pb_ostream \<Rightarrow> (unit, 's pb_ostream) pb_result) \<Rightarrow> 's pb_ostream \<Rightarrow> (unit, 's pb_ostream) pb_result" where
  "pb_encode_submessage encode s =
     (case encode PB_OSTREAM_SIZING of
        None \<Rightarrow> None
      | Some (None, sub) \<Rightarrow> Some (None, s\<lparr>oerrmsg := oerrmsg sub\<rparr>)
      | Some (Some _, sub) \<Rightarrow>
          pb_then (pb_encode_varint (bytes_written sub) s) (\<lambda>_. write_submessage encode (bytes_written sub)))"

text \<open>\<open>PB_ENCODERS\<close>: \<open>src\<close> is the memory at the pointer, or \<open>None\<close> for \<open>NULL\<close>.\<close>

definition pb_encoder ::
  "(nat \<Rightarrow> cell list \<Rightarrow> 's pb_ostream \<Rightarrow> (unit, 's pb_ostream) pb_result) \<Rightarrow> pb_field \<Rightarrow> cell list option \<Rightarrow>
     's pb_ostream \<Rightarrow> (unit, 's pb_ostream) pb_result" where
  "pb_encoder encode f src s =
     (let on_bytes = (\<lambda>enc. case src of
            None \<Rightarrow> None
          | Some cs \<Rightarrow> if plain cs then enc (map cell_byte cs) s else None)
      in if ltype f = PB_LTYPE_BOOL then on_bytes pb_enc_bool
         else if ltype f = PB_LTYPE_VARINT then on_bytes (pb_enc_varint f)
         else if ltype f = PB_LTYPE_UVARINT then on_bytes (pb_enc_uvarint f)
         else if ltype f = PB_LTYPE_SVARINT then on_bytes (pb_enc_svarint f)
         else if ltype f = PB_LTYPE_FIXED32 then on_bytes pb_enc_fixed32
         else if ltype f = PB_LTYPE_FIXED64 then on_bytes pb_enc_fixed64
         else if ltype f = PB_LTYPE_BYTES then
           (if src = None then pb_enc_bytes f None s else on_bytes (\<lambda>bs. pb_enc_bytes f (Some bs)))
         else if ltype f = PB_LTYPE_STRING then
           (if src = None then pb_enc_string f None s else on_bytes (\<lambda>bs. pb_enc_string f (Some bs)))
         else if ltype f = PB_LTYPE_SUBMESSAGE then
           (case field_ptr f of
              Null_ptr \<Rightarrow> pb_oreturn_error s ''invalid field descriptor''
            | Default _ \<Rightarrow> None
            | Fields d \<Rightarrow> (case src of None \<Rightarrow> None | Some cs \<Rightarrow> pb_encode_submessage (encode d cs) s))
         else if ltype f = PB_LTYPE_FIXED_LENGTH_BYTES then on_bytes (pb_enc_fixed_length_bytes f)
         else None)"

text \<open>\<open>for (i = 0; i < count; i++) { ...; p += data_size; }\<close>\<close>

primrec encode_items :: "(int \<Rightarrow> 's pb_ostream \<Rightarrow> (unit, 's pb_ostream) pb_result) \<Rightarrow> int \<Rightarrow> nat \<Rightarrow> int \<Rightarrow>
    's pb_ostream \<Rightarrow> (unit, 's pb_ostream) pb_result" where
  "encode_items item step 0 p s = pb_ok s"
| "encode_items item step (Suc k) p s = pb_then (item p s) (\<lambda>_. encode_items item step k (p + step))"

text \<open>The item at \<open>p\<close> of an array in the memory \<open>src\<close>; that of strings on the heap is a pointer to one.\<close>

definition array_item ::
  "(nat \<Rightarrow> cell list \<Rightarrow> 's pb_ostream \<Rightarrow> (unit, 's pb_ostream) pb_result) \<Rightarrow> pb_field \<Rightarrow> (cell list \<times> int) option \<Rightarrow>
     int \<Rightarrow> 's pb_ostream \<Rightarrow> (unit, 's pb_ostream) pb_result" where
  "array_item encode f src p s =
     (case src of
        None \<Rightarrow> None
      | Some (mem, _) \<Rightarrow>
          (case window p (item_size f) mem of
             None \<Rightarrow> None
           | Some cs \<Rightarrow> pb_encoder encode f (Some cs) s))"

definition array_element ::
  "(nat \<Rightarrow> cell list \<Rightarrow> 's pb_ostream \<Rightarrow> (unit, 's pb_ostream) pb_result) \<Rightarrow> pb_field \<Rightarrow> (cell list \<times> int) option \<Rightarrow>
     int \<Rightarrow> 's pb_ostream \<Rightarrow> (unit, 's pb_ostream) pb_result" where
  "array_element encode f src p s =
     (if atype f = PB_ATYPE_POINTER \<and> (ltype f = PB_LTYPE_STRING \<or> ltype f = PB_LTYPE_BYTES) then
        (case src of
           None \<Rightarrow> None
         | Some (mem, _) \<Rightarrow>
             (case load_ptr p mem of None \<Rightarrow> None | Some block \<Rightarrow> pb_encoder encode f block s))
      else array_item encode f src p s)"

text \<open>The number of bytes of a packed array: \<open>Some None\<close> when an item cannot be encoded.\<close>

definition packed_size :: "pb_field \<Rightarrow> u64 \<Rightarrow> ('s pb_ostream \<Rightarrow> (unit, 's pb_ostream) pb_result) \<Rightarrow> u64 option option" where
  "packed_size f n items =
     (if ltype f = PB_LTYPE_FIXED32 then Some (Some (4 * n))
      else if ltype f = PB_LTYPE_FIXED64 then Some (Some (8 * n))
      else case items PB_OSTREAM_SIZING of
             None \<Rightarrow> None
           | Some (None, _) \<Rightarrow> Some None
           | Some (Some _, sizestream) \<Rightarrow> Some (Some (bytes_written sizestream)))"

definition encode_packed ::
  "pb_field \<Rightarrow> u64 \<Rightarrow> ('s pb_ostream \<Rightarrow> (unit, 's pb_ostream) pb_result) \<Rightarrow> 's pb_ostream \<Rightarrow> (unit, 's pb_ostream) pb_result" where
  "encode_packed f n items s =
     pb_then (pb_encode_tag PB_WT_STRING (field_tag f) s) (\<lambda>_ s.
       case packed_size f n items of
         None \<Rightarrow> None
       | Some None \<Rightarrow> Some (None, s)
       | Some (Some bytes) \<Rightarrow>
           pb_then (pb_encode_varint bytes s) (\<lambda>_ s. if sink s = None then pb_write [] bytes s else items s))"

definition encode_array ::
  "(nat \<Rightarrow> cell list \<Rightarrow> 's pb_ostream \<Rightarrow> (unit, 's pb_ostream) pb_result) \<Rightarrow> pb_field \<Rightarrow> (cell list \<times> int) option \<Rightarrow>
     u64 \<Rightarrow> 's pb_ostream \<Rightarrow> (unit, 's pb_ostream) pb_result" where
  "encode_array encode f src n s =
     (let first_item = (case src of None \<Rightarrow> 0 | Some (_, off) \<Rightarrow> off);
          each = (\<lambda>item. encode_items item (uint (data_size f)) (unat n) first_item)
      in if n = 0 then pb_ok s
         else if atype f \<noteq> PB_ATYPE_POINTER \<and> n > ucast (array_size f) then
           pb_oreturn_error s ''array max size exceeded''
         else if ltype f \<le> PB_LTYPE_LAST_PACKABLE then encode_packed f n (each (array_item encode f src)) s
         else each (\<lambda>p s. pb_then (pb_encode_tag_for_field f s) (\<lambda>_. array_element encode f src p)) s)"

text \<open>What \<open>pData\<close> points to when a single item is encoded: the inner \<open>None\<close> is \<open>NULL\<close>.\<close>

definition single_src :: "pb_field \<Rightarrow> (cell list \<times> int) option \<Rightarrow> cell list option option" where
  "single_src f src =
     (case src of
        None \<Rightarrow> Some None
      | Some (mem, off) \<Rightarrow>
          if atype f = PB_ATYPE_POINTER \<and> (ltype f = PB_LTYPE_STRING \<or> ltype f = PB_LTYPE_BYTES)
          then Some (Some (drop (nat off) mem))
          else map_option Some (window off (item_size f) mem))"

text \<open>A single item with its tag.\<close>

definition encode_single ::
  "(nat \<Rightarrow> cell list \<Rightarrow> 's pb_ostream \<Rightarrow> (unit, 's pb_ostream) pb_result) \<Rightarrow> pb_field \<Rightarrow> (cell list \<times> int) option \<Rightarrow>
     's pb_ostream \<Rightarrow> (unit, 's pb_ostream) pb_result" where
  "encode_single encode f src s =
     pb_then (pb_encode_tag_for_field f s) (\<lambda>_ s.
       case single_src f src of None \<Rightarrow> None | Some item \<Rightarrow> pb_encoder encode f item s)"

definition encode_basic_field ::
  "(pb_field \<Rightarrow> int \<Rightarrow> cell list \<Rightarrow> bool option) \<Rightarrow>
     (nat \<Rightarrow> cell list \<Rightarrow> 's pb_ostream \<Rightarrow> (unit, 's pb_ostream) pb_result) \<Rightarrow>
     pb_field \<Rightarrow> int \<Rightarrow> cell list \<Rightarrow> 's pb_ostream \<Rightarrow> (unit, 's pb_ostream) pb_result" where
  "encode_basic_field check encode f off mem s = do {
     let size_at = off + sint (size_offset f);
     implicit_has \<leftarrow>
       (if size_offset f = 0 \<and> htype f = PB_HTYPE_OPTIONAL then map_option Not (check f off mem) else Some True);
     (src, implicit_has) \<leftarrow>
       (if atype f = PB_ATYPE_POINTER
        then map_option (\<lambda>p. (map_option (\<lambda>block. (block, 0)) p, p \<noteq> None)) (load_ptr off mem)
        else Some (Some (mem, off), implicit_has));
     let single = encode_single encode f src s;
     if htype f = PB_HTYPE_REQUIRED then
       (if src = None then pb_oreturn_error s ''missing required field'' else single)
     else if htype f = PB_HTYPE_OPTIONAL then do {
       has \<leftarrow> (if size_offset f \<noteq> 0 then load_flag size_at mem else Some implicit_has);
       if has then single else pb_ok s
     }
     else if htype f = PB_HTYPE_REPEATED then do {
       n \<leftarrow> (if size_offset f \<noteq> 0 then load_size size_at mem else Some (array_size f));
       encode_array encode f src (ucast n) s
     }
     else if htype f = PB_HTYPE_ONEOF then do {
       which \<leftarrow> (if size_offset f \<noteq> 0 then load_size size_at mem else None);
       if which = field_tag f then single else pb_ok s
     }
     else pb_oreturn_error s ''invalid field type''
   }"

definition encode_callback_field ::
  "'s pb_env \<Rightarrow> pb_field \<Rightarrow> int \<Rightarrow> cell list \<Rightarrow> 's pb_ostream \<Rightarrow> (unit, 's pb_ostream) pb_result" where
  "encode_callback_field env f off mem s = do {
     func \<leftarrow> load_word off mem;
     if func \<noteq> 0 then do {
       arg \<leftarrow> load_word (off + 8) mem;
       (status, s) \<leftarrow> encode_call env func f arg s;
       if status then pb_ok s else pb_oreturn_error s ''callback error''
     }
     else pb_ok s
   }"

definition encode_field ::
  "'s pb_env \<Rightarrow> (pb_field \<Rightarrow> int \<Rightarrow> cell list \<Rightarrow> bool option) \<Rightarrow>
     (nat \<Rightarrow> cell list \<Rightarrow> 's pb_ostream \<Rightarrow> (unit, 's pb_ostream) pb_result) \<Rightarrow>
     pb_field \<Rightarrow> int \<Rightarrow> cell list \<Rightarrow> 's pb_ostream \<Rightarrow> (unit, 's pb_ostream) pb_result" where
  "encode_field env check encode f off mem s =
     (if atype f = PB_ATYPE_STATIC \<or> atype f = PB_ATYPE_POINTER then encode_basic_field check encode f off mem s
      else if atype f = PB_ATYPE_CALLBACK then encode_callback_field env f off mem s
      else pb_oreturn_error s ''invalid field type'')"

text \<open>The list of extensions, of which only the empty one is modelled.\<close>

definition encode_extension_field :: "int \<Rightarrow> cell list \<Rightarrow> 's pb_ostream \<Rightarrow> (unit, 's pb_ostream) pb_result" where
  "encode_extension_field off mem s =
     (case load_ptr off mem of Some None \<Rightarrow> pb_ok s | _ \<Rightarrow> None)"

section \<open>Messages\<close>

primrec encode_fields :: "(pb_iter \<Rightarrow> 's pb_ostream \<Rightarrow> (unit, 's pb_ostream) pb_result) \<Rightarrow> pb_iter list \<Rightarrow>
    's pb_ostream \<Rightarrow> (unit, 's pb_ostream) pb_result" where
  "encode_fields enc [] s = pb_ok s"
| "encode_fields enc (iter # iters) s = pb_then (enc iter s) (\<lambda>_. encode_fields enc iters)"

primrec pb_encode :: "nat \<Rightarrow> 's pb_env \<Rightarrow> nat \<Rightarrow> cell list \<Rightarrow> 's pb_ostream \<Rightarrow> (unit, 's pb_ostream) pb_result" where
  "pb_encode 0 env d mem s = None"
| "pb_encode (Suc depth) env d mem s =
     encode_fields
       (\<lambda>iter s. if ltype (iter_field iter) = PB_LTYPE_EXTENSION then encode_extension_field (pData iter) mem s
                 else encode_field env (pb_check_proto3_default_value depth env) (pb_encode depth env)
                        (iter_field iter) (pData iter) mem s)
       (each_field (messages env d)) s"

definition pb_encode_delimited :: "nat \<Rightarrow> 's pb_env \<Rightarrow> nat \<Rightarrow> cell list \<Rightarrow> 's pb_ostream \<Rightarrow> (unit, 's pb_ostream) pb_result" where
  "pb_encode_delimited depth env d mem s = pb_encode_submessage (pb_encode depth env d mem) s"

definition pb_encode_nullterminated :: "nat \<Rightarrow> 's pb_env \<Rightarrow> nat \<Rightarrow> cell list \<Rightarrow> 's pb_ostream \<Rightarrow> (unit, 's pb_ostream) pb_result" where
  "pb_encode_nullterminated depth env d mem s = pb_then (pb_encode depth env d mem s) (\<lambda>_. pb_write [0] 1)"

definition pb_get_encoded_size :: "nat \<Rightarrow> 's pb_env \<Rightarrow> nat \<Rightarrow> cell list \<Rightarrow> u64 option option" where
  "pb_get_encoded_size depth env d mem =
     (case pb_encode depth env d mem PB_OSTREAM_SIZING of
        None \<Rightarrow> None
      | Some (None, _) \<Rightarrow> Some None
      | Some (Some _, s) \<Rightarrow> Some (Some (bytes_written s)))"

end
