(* ===== verification/Pb_Format.thy ===== *)
theory Pb_Format
  imports Pb_Encode Pb_Layout "HOL-Library.Sublist"
begin

text \<open>
  The bytes of a message, as a function of the memory of its structure, without streams: what \<open>pb_encode\<close> is
  to write.  An emission is \<open>Some (Some bs)\<close> for the bytes \<open>bs\<close>, \<open>Some None\<close> when the message is refused, and \<open>None\<close> where
  nothing is said (memory that holds no message, a callback or an extension, or \<open>2 ^ 63\<close> bytes and more behind one length).
\<close>

section \<open>Emissions\<close>

type_synonym emission = "byte list option option"

definition emit :: "byte list \<Rightarrow> emission" where "emit bs = Some (Some bs)"

definition refuse :: emission where "refuse = Some None"

definition followed_by :: "emission \<Rightarrow> emission \<Rightarrow> emission" where
  "followed_by a b = (case a of Some (Some xs) \<Rightarrow> map_option (map_option ((@) xs)) b | _ \<Rightarrow> a)"

definition emit_all :: "emission list \<Rightarrow> emission" where
  "emit_all es = foldr followed_by es (emit [])"

text \<open>With the number of bytes in front.\<close>

definition prefixed :: "emission \<Rightarrow> emission" where
  "prefixed e =
     (case e of
        Some (Some bs) \<Rightarrow> if length bs < 2 ^ 63 then emit (varint (length bs) @ bs) else None
      | _ \<Rightarrow> e)"

section \<open>Members\<close>

definition field_wire_type :: "pb_field \<Rightarrow> pb_wire_type option" where
  "field_wire_type f =
     (if ltype f \<in> {PB_LTYPE_BOOL, PB_LTYPE_VARINT, PB_LTYPE_UVARINT, PB_LTYPE_SVARINT} then Some PB_WT_VARINT
      else if ltype f = PB_LTYPE_FIXED32 then Some PB_WT_32BIT
      else if ltype f = PB_LTYPE_FIXED64 then Some PB_WT_64BIT
      else if ltype f \<in> {PB_LTYPE_BYTES, PB_LTYPE_STRING, PB_LTYPE_SUBMESSAGE, PB_LTYPE_FIXED_LENGTH_BYTES} then Some PB_WT_STRING
      else None)"

definition tagged :: "pb_field \<Rightarrow> emission \<Rightarrow> emission" where
  "tagged f e =
     (case field_wire_type f of
        None \<Rightarrow> refuse
      | Some wt \<Rightarrow> followed_by (emit (tag_bytes wt (unat (field_tag f)))) e)"

text \<open>The characters of a string before its NUL, at most as many as its member has.\<close>

definition string_bytes :: "pb_field \<Rightarrow> byte list \<Rightarrow> emission" where
  "string_bytes f bs =
     (if atype f = PB_ATYPE_POINTER then (if 0 \<in> set bs then prefixed (emit (takeWhile (\<lambda>b. b \<noteq> 0) bs)) else None)
      else if unat (data_size f) \<le> length bs then prefixed (emit (takeWhile (\<lambda>b. b \<noteq> 0) (take (unat (data_size f)) bs)))
      else None)"

text \<open>A \<open>pb_bytes_array_t\<close> is its length in four bytes, and that many bytes.\<close>

definition bytes_bytes :: "pb_field \<Rightarrow> byte list \<Rightarrow> emission" where
  "bytes_bytes f bs =
     (let n = le_nat (take 4 bs) in
      if length bs < 4 then None
      else if atype f = PB_ATYPE_STATIC \<and> unat (data_size f) < n + 4 then refuse
      else if length bs < n + 4 then None
      else prefixed (emit (take n (drop 4 bs))))"

definition member_bytes :: "pb_field \<Rightarrow> byte list \<Rightarrow> emission" where
  "member_bytes f bs =
     (if ltype f = PB_LTYPE_BOOL then (case bs of [b] \<Rightarrow> emit [if b = 0 then 0 else 1] | _ \<Rightarrow> None)
      else if ltype f \<in> {PB_LTYPE_VARINT, PB_LTYPE_UVARINT, PB_LTYPE_SVARINT} then
        (if \<not> int_member f bs then None
         else if ltype f = PB_LTYPE_VARINT then emit (varint (unat (signed_member bs)))
         else if ltype f = PB_LTYPE_UVARINT then emit (varint (le_nat bs))
         else emit (varint (unat (zigzag (signed_member bs)))))
      else if ltype f = PB_LTYPE_FIXED32 then (if length bs = 4 then emit bs else None)
      else if ltype f = PB_LTYPE_FIXED64 then (if length bs = 8 then emit bs else None)
      else if ltype f = PB_LTYPE_BYTES then bytes_bytes f bs
      else if ltype f = PB_LTYPE_STRING then string_bytes f bs
      else if ltype f = PB_LTYPE_FIXED_LENGTH_BYTES then
        (if unat (data_size f) \<le> length bs then prefixed (emit (take (unat (data_size f)) bs)) else None)
      else None)"

text \<open>\<open>sub\<close> gives the bytes of a submessage.  A string or bytes without memory are empty.\<close>

definition item_bytes :: "(nat \<Rightarrow> cell list \<Rightarrow> emission) \<Rightarrow> pb_field \<Rightarrow> cell list option \<Rightarrow> emission" where
  "item_bytes sub f src =
     (case src of
        None \<Rightarrow> if ltype f \<in> {PB_LTYPE_BYTES, PB_LTYPE_STRING} then emit [0] else None
      | Some cs \<Rightarrow>
          if ltype f = PB_LTYPE_SUBMESSAGE then
            (case field_ptr f of Null_ptr \<Rightarrow> refuse | Default _ \<Rightarrow> None | Fields d \<Rightarrow> prefixed (sub d cs))
          else if plain cs then member_bytes f (map cell_byte cs) else None)"

section \<open>Fields\<close>

definition array_item_bytes :: "(nat \<Rightarrow> cell list \<Rightarrow> emission) \<Rightarrow> pb_field \<Rightarrow> cell list \<Rightarrow> int \<Rightarrow> emission" where
  "array_item_bytes sub f mem p = (case window p (item_size f) mem of None \<Rightarrow> None | Some cs \<Rightarrow> item_bytes sub f (Some cs))"

definition array_text_bytes :: "(nat \<Rightarrow> cell list \<Rightarrow> emission) \<Rightarrow> pb_field \<Rightarrow> cell list \<Rightarrow> int \<Rightarrow> emission" where
  "array_text_bytes sub f mem p = (case load_ptr p mem of None \<Rightarrow> None | Some block \<Rightarrow> item_bytes sub f block)"

text \<open>Numbers are packed behind one tag; other items have a tag each.\<close>

definition array_bytes :: "(nat \<Rightarrow> cell list \<Rightarrow> emission) \<Rightarrow> pb_field \<Rightarrow> (cell list \<times> int) option \<Rightarrow> nat \<Rightarrow> emission" where
  "array_bytes sub f src n =
     (if n = 0 then emit []
      else if atype f \<noteq> PB_ATYPE_POINTER \<and> unat (array_size f) < n then refuse
      else case src of
        None \<Rightarrow> None
      | Some (mem, off) \<Rightarrow>
          (let places = map (\<lambda>i. off + int i * uint (data_size f)) [0..<n]
           in if ltype f \<le> PB_LTYPE_LAST_PACKABLE
              then followed_by (emit (tag_bytes PB_WT_STRING (unat (field_tag f))))
                     (prefixed (emit_all (map (array_item_bytes sub f mem) places)))
              else if atype f = PB_ATYPE_POINTER \<and> is_text f
              then emit_all (map (\<lambda>p. tagged f (array_text_bytes sub f mem p)) places)
              else emit_all (map (\<lambda>p. tagged f (array_item_bytes sub f mem p)) places)))"

text \<open>\<open>is_default\<close> says whether a field without a flag has its default value, and is then left out.\<close>

definition field_bytes :: "(pb_field \<Rightarrow> int \<Rightarrow> cell list \<Rightarrow> bool option) \<Rightarrow> (nat \<Rightarrow> cell list \<Rightarrow> emission) \<Rightarrow>
    pb_field \<Rightarrow> int \<Rightarrow> cell list \<Rightarrow> emission" where
  "field_bytes is_default sub f off mem = do {
     src \<leftarrow> (if atype f = PB_ATYPE_POINTER then map_option (map_option (\<lambda>block. (block, 0))) (load_ptr off mem)
             else Some (Some (mem, off)));
     let size_at = off + sint (size_offset f);
     let single = tagged f (case single_src f src of None \<Rightarrow> None | Some item \<Rightarrow> item_bytes sub f item);
     if htype f = PB_HTYPE_REQUIRED then (if src = None then refuse else single)
     else if htype f = PB_HTYPE_OPTIONAL then do {
       has \<leftarrow> (if size_offset f \<noteq> 0 then load_flag size_at mem
               else map_option (\<lambda>d. if atype f = PB_ATYPE_POINTER then src \<noteq> None else \<not> d) (is_default f off mem));
       if has then single else emit []
     }
     else if htype f = PB_HTYPE_REPEATED then do {
       n \<leftarrow> (if size_offset f \<noteq> 0 then map_option unat (load_size size_at mem) else Some (unat (array_size f)));
       array_bytes sub f src n
     }
     else do {
       which \<leftarrow> (if size_offset f \<noteq> 0 then load_size size_at mem else None);
       if which = field_tag f then single else emit []
     }
   }"

primrec message_bytes :: "nat \<Rightarrow> 's pb_env \<Rightarrow> nat \<Rightarrow> cell list \<Rightarrow> emission" where
  "message_bytes 0 env d mem = None"
| "message_bytes (Suc depth) env d mem =
     emit_all (map
       (\<lambda>iter. let f = iter_field iter in
          if ltype f = PB_LTYPE_EXTENSION then (if load_ptr (pData iter) mem = Some None then emit [] else None)
          else if atype f = PB_ATYPE_STATIC \<or> atype f = PB_ATYPE_POINTER
          then field_bytes (pb_check_proto3_default_value depth env) (message_bytes depth env) f (pData iter) mem
          else None)
       (each_field (messages env d)))"

section \<open>What an encoder emits\<close>

text \<open>Output streams of the library over buffers of less than \<open>2 ^ 63\<close> bytes, and those that only count.\<close>

definition good_ostream :: "'s pb_ostream \<Rightarrow> bool" where
  "good_ostream s \<longleftrightarrow> wf_ostream s \<and> unat (max_size s) < 2 ^ 63"

text \<open>The call fails when it has written \<open>bs\<close>.\<close>

definition fails_after :: "byte list \<Rightarrow> 's pb_ostream \<Rightarrow> (unit, 's pb_ostream) pb_result \<Rightarrow> bool" where
  "fails_after bs s res \<longleftrightarrow> fits (length bs) s \<and> (\<exists>e. res = Some (None, (put bs s)\<lparr>oerrmsg := e\<rparr>))"

definition emits_to :: "byte list option \<Rightarrow> 's pb_ostream \<Rightarrow> (unit, 's pb_ostream) pb_result \<Rightarrow> bool" where
  "emits_to r s res \<longleftrightarrow>
     (case r of
        None \<Rightarrow> \<exists>bs. fails_after bs s res
      | Some bs \<Rightarrow> if fits (length bs) s then res = pb_ok (put bs s) else \<exists>bs'. strict_prefix bs' bs \<and> fails_after bs' s res)"

definition emits :: "('s pb_ostream \<Rightarrow> (unit, 's pb_ostream) pb_result) \<Rightarrow> emission \<Rightarrow> bool" where
  "emits op e \<longleftrightarrow> (\<forall>r s. e = Some r \<longrightarrow> good_ostream s \<longrightarrow> emits_to r s (op s))"

named_theorems pb_emits \<open>what an encoder emits\<close>

lemma emitsD: "emits op e \<Longrightarrow> e = Some r \<Longrightarrow> good_ostream s \<Longrightarrow> emits_to r s (op s)"
  by (simp add: emits_def)

lemma emits_None [pb_emits, simp]: "emits op None"
  by (simp add: emits_def)

lemma emission_simps [simp]:
  "followed_by None b = None" "followed_by (Some None) b = Some None"
  "followed_by (Some (Some xs)) b = map_option (map_option ((@) xs)) b"
  "prefixed None = None" "prefixed (Some None) = Some None"
  "emit_all [] = Some (Some [])" "emit_all (e # es) = followed_by e (emit_all es)"
  by (simp_all add: followed_by_def prefixed_def emit_all_def emit_def)

lemma emit_cong: "emits op e \<Longrightarrow> (\<And>s. good_ostream s \<Longrightarrow> op' s = op s) \<Longrightarrow> emits op' e"
  by (simp add: emits_def)

lemma good_put: "good_ostream s \<Longrightarrow> fits (length bs) s \<Longrightarrow> good_ostream (put bs s)"
  by (auto simp: good_ostream_def wf_put) (simp add: put_def)

lemma good_sizing [simp]: "good_ostream PB_OSTREAM_SIZING" "fits n PB_OSTREAM_SIZING"
  by (simp_all add: good_ostream_def wf_ostream_def fits_def PB_OSTREAM_SIZING_def)

lemma emits_ok [pb_emits]: "emits pb_ok (emit [])"
  by (auto simp: emits_def emits_to_def emit_def good_ostream_def fits_0)

lemma emits_writes:
  assumes "pb_writes op bs"
  shows "emits op (emit bs)"
  unfolding emits_def emits_to_def emit_def
proof (intro allI impI)
  fix r and s :: "'a pb_ostream"
  assume r: "Some (Some bs) = Some r" and "good_ostream s"
  then have "wf_ostream s" by (simp add: good_ostream_def)
  with assms show "case r of None \<Rightarrow> \<exists>bs. fails_after bs s (op s)
      | Some bs \<Rightarrow> if fits (length bs) s then op s = pb_ok (put bs s) else \<exists>bs'. strict_prefix bs' bs \<and> fails_after bs' s (op s)"
  proof (cases rule: pb_writesE)
    case (2 k e)
    then have "strict_prefix (take k bs) bs" "length (take k bs) = k" by (auto simp: strict_prefix_def take_is_prefix)
    with 2 r show ?thesis by (auto simp: fails_after_def intro!: exI [of _ "take k bs"])
  qed (use r in auto)
qed

lemma fails_then [intro]: "fails_after bs s res \<Longrightarrow> fails_after bs s (pb_then res k)"
  by (auto simp: fails_after_def)

lemma fails_put: "fits (length bs) s \<Longrightarrow> fails_after cs (put bs s) res \<Longrightarrow> fails_after (bs @ cs) s res"
  by (auto simp: fails_after_def fits_put)

lemma emits_then [pb_emits]:
  assumes f: "emits f a" and g: "emits g b"
  shows "emits (\<lambda>s. pb_then (f s) (\<lambda>_. g)) (followed_by a b)"
  unfolding emits_def
proof (intro allI impI)
  fix r and s :: "'a pb_ostream"
  assume r: "followed_by a b = Some r" and s: "good_ostream s"
  then obtain ra where a: "a = Some ra" by (cases a) auto
  from emitsD [OF f a s] have fs: "emits_to ra s (f s)" .
  show "emits_to r s (pb_then (f s) (\<lambda>_. g))"
  proof (cases ra)
    case None
    with fs a r show ?thesis by (auto simp: emits_to_def)
  next
    case (Some bs)
    with a r obtain rb where b: "b = Some rb" "r = map_option ((@) bs) rb" by auto
    show ?thesis
    proof (cases "fits (length bs) s")
      case True
      with fs Some have ok: "f s = pb_ok (put bs s)" by (simp add: emits_to_def)
      from emitsD [OF g b(1) good_put [OF s True]] have gs: "emits_to rb (put bs s) (g (put bs s))" .
      show ?thesis
      proof (cases rb)
        case None
        with gs ok b(2) show ?thesis using fails_put [OF True] by (auto simp: emits_to_def)
      next
        case rb: (Some cs)
        show ?thesis
        proof (cases "fits (length cs) (put bs s)")
          case True
          with gs ok b(2) rb \<open>fits (length bs) s\<close> show ?thesis by (simp add: emits_to_def fits_put)
        next
          case False
          with gs rb obtain cs' where "strict_prefix cs' cs" "fails_after cs' (put bs s) (g (put bs s))"
            by (auto simp: emits_to_def)
          then have "strict_prefix (bs @ cs') (bs @ cs)" "fails_after (bs @ cs') s (g (put bs s))"
            using fails_put [OF \<open>fits (length bs) s\<close>] by (auto simp: strict_prefix_def)
          moreover have "\<not> fits (length bs + length cs) s" using False fits_put [OF \<open>fits (length bs) s\<close>] by simp
          ultimately show ?thesis using ok b(2) rb by (auto simp: emits_to_def)
        qed
      qed
    next
      case False
      with fs Some obtain bs' where bs': "strict_prefix bs' bs" "fails_after bs' s (f s)" by (auto simp: emits_to_def)
      have "emits_to (Some (bs @ cs)) s (pb_then (f s) (\<lambda>_. g))" for cs
      proof -
        have "\<not> fits (length (bs @ cs)) s" using False fits_mono [of "length (bs @ cs)" s "length bs"] by auto
        moreover have "strict_prefix bs' (bs @ cs)" using bs'(1) prefix_order.less_le_trans [of bs' bs "bs @ cs"] by simp
        ultimately show ?thesis using bs'(2) by (auto simp: emits_to_def)
      qed
      then show ?thesis using b(2) bs'(2) by (cases rb) (auto simp: emits_to_def)
    qed
  qed
qed

lemma emits_refuse: "emits (\<lambda>s. pb_oreturn_error s msg) refuse"
proof -
  have "fails_after [] s (pb_oreturn_error s msg :: (unit, 's pb_ostream) pb_result)" if "good_ostream s" for s :: "'s pb_ostream"
    using that by (cases "oerrmsg s") (auto simp: fails_after_def pb_oreturn_error_def fits_0 good_ostream_def)
  then show ?thesis by (auto simp: emits_def emits_to_def refuse_def)
qed

lemma emits_if [pb_emits]: "(b \<Longrightarrow> emits f x) \<Longrightarrow> (\<not> b \<Longrightarrow> emits g y) \<Longrightarrow> emits (\<lambda>s. if b then f s else g s) (if b then x else y)"
  by simp

end
