(* ===== verification/Pb_Encode_Exact.thy ===== *)
theory Pb_Encode_Exact
  imports Pb_Format Pb_Decode_Safe
begin

text \<open>
  \<open>pb_encode\<close> writes the bytes that \<open>Pb_Format\<close> says, in one pass over a buffer or in two when a length comes first.
\<close>

section \<open>Single members\<close>

lemma emits_prefixed_write:
  assumes "unat n = length bs" "take (length bs) buf = bs"
  shows "emits (pb_encode_string buf n) (prefixed (emit bs))"
proof (cases "length bs < 2 ^ 63")
  case True
  have "length bs \<le> length buf" using assms(2) by (metis length_take min.cobounded1)
  with assms pb_writes_encode_string [of n buf] have "pb_writes (pb_encode_string buf n :: 'a pb_ostream \<Rightarrow> _) (varint (length bs) @ bs)"
    by simp
  with True show ?thesis by (simp add: prefixed_def emit_def) (metis emit_def emits_writes)
qed (simp add: prefixed_def emit_def)

lemma bounded_strlen_within:
  "n \<le> length mem \<Longrightarrow> bounded_strlen mem n = Some (length (takeWhile (\<lambda>b. b \<noteq> 0) (take n mem)))"
  by (induction mem arbitrary: n) (auto simp: take_Cons' Suc_le_eq)

lemma takeWhile_nul: "0 \<notin> set xs \<Longrightarrow> takeWhile (\<lambda>b. b \<noteq> 0) (xs @ 0 # ys) = xs"
  by (induction xs) auto

lemma emits_string: "emits (pb_enc_string f (Some mem)) (string_bytes f mem)"
proof (cases "string_bytes f mem")
  case (Some r)
  define n where "n = (if atype f = PB_ATYPE_POINTER then size_mod - 1 else unat (data_size f))"
  define bs where "bs = takeWhile (\<lambda>b. b \<noteq> 0) (if atype f = PB_ATYPE_POINTER then mem else take n mem)"
  have e: "string_bytes f mem = prefixed (emit bs)" "length bs < 2 ^ 63"
    using Some by (auto simp: string_bytes_def bs_def n_def prefixed_def emit_def split: if_splits)
  have "bounded_strlen mem n = Some (length bs) \<and> take (length bs) mem = bs"
  proof (cases "atype f = PB_ATYPE_POINTER")
    case True
    then have "0 \<in> set mem" using Some by (auto simp: string_bytes_def split: if_splits)
    then obtain xs ys where "mem = xs @ 0 # ys" "0 \<notin> set xs" by (meson split_list_first)
    moreover from this True have "bs = xs" by (simp add: bs_def takeWhile_nul)
    ultimately show ?thesis using bounded_strlen_exact [of xs n ys] e(2) True by (simp add: n_def)
  next
    case False
    then have le: "n \<le> length mem" using Some by (auto simp: string_bytes_def n_def split: if_splits)
    have "take (length bs) (take n mem) = bs" using False by (simp add: bs_def takeWhile_eq_take [symmetric] del: take_take)
    moreover have "length bs \<le> n" using False length_takeWhile_le [of "\<lambda>b. b \<noteq> 0" "take n mem"] by (simp add: bs_def)
    ultimately show ?thesis using bounded_strlen_within [OF le] False by (simp add: bs_def)
  qed
  then have k: "bounded_strlen mem n = Some (length bs)" "take (length bs) mem = bs" by simp_all
  have "unat (word_of_nat (length bs) :: u64) = length bs" using e(2) by (intro unat_word_of_nat_less) simp
  from emits_prefixed_write [OF this k(2)] k(1) show ?thesis
    by (auto simp: e(1) pb_enc_string_def n_def elim: emit_cong)
qed simp

lemma emits_bytes: "emits (pb_enc_bytes f (Some mem)) (bytes_bytes f mem)"
proof (cases "length mem < 4")
  case False
  define n where "n = le_nat (take 4 mem)"
  have n: "n < 2 ^ 32" using False le_nat_less [of "take 4 mem"] by (simp add: n_def)
  have load: "mem_load 4 mem = Some (word_of_nat n)" using False by (simp add: mem_load_def n_def)
  have len: "ucast (word_of_nat n :: u64) = (word_of_nat n :: u32)"
    using len_words(1,3) [OF n] n by (simp add: word_unat_eq_iff unat_mod_256)
  have "\<not> (word_of_nat (n + 4) :: u64) < word_of_nat n"
    by (simp only: word_less_nat_alt allocsize_word(2) [OF n] len_words(3) [OF n])
  moreover have "(ucast (data_size f) :: u64) < word_of_nat (n + 4) \<longleftrightarrow> unat (data_size f) < n + 4"
    by (simp only: word_less_nat_alt allocsize_word(2) [OF n] unat_ucast_up) (simp add: unat_ucast_up)
  ultimately have eq: "pb_enc_bytes f (Some mem) = (\<lambda>s :: 'a pb_ostream.
      if atype f = PB_ATYPE_STATIC \<and> unat (data_size f) < n + 4 then pb_oreturn_error s ''bytes size exceeded''
      else pb_encode_string (drop 4 mem) (word_of_nat n) s)"
    by (auto simp: fun_eq_iff pb_enc_bytes_def load len Let_def allocsize_word(1) [OF n] len_words(2) [OF n] simp del: of_nat_add)
  have "emits (pb_encode_string (drop 4 mem) (word_of_nat n) :: 'a pb_ostream \<Rightarrow> _) (prefixed (emit (take n (drop 4 mem))))"
    if "\<not> length mem < n + 4"
    by (rule emits_prefixed_write) (use that len_words(3) [OF n] in auto)
  then show ?thesis
    using False emits_refuse unfolding eq by (auto simp: bytes_bytes_def n_def [symmetric] Let_def)
qed (simp add: bytes_bytes_def Let_def)

lemma emits_bool: "emits (pb_enc_bool [b]) (emit [if b = 0 then 0 else 1])"
proof -
  have "varint (unat (if b \<noteq> 0 then 1 else 0 :: u64)) = [if b = 0 then 0 else 1]" by (simp add: varint.simps)
  moreover have "pb_enc_bool [b] = (pb_encode_varint (if b \<noteq> 0 then 1 else 0) :: 'a pb_ostream \<Rightarrow> _)"
    by (simp add: fun_eq_iff pb_enc_bool_def safe_read_bool_def)
  ultimately show ?thesis using emits_writes [OF pb_writes_encode_varint] by metis
qed

lemma emits_member:
  assumes "plain cs" "ltype f \<noteq> PB_LTYPE_SUBMESSAGE"
  shows "emits (pb_encoder encode f (Some cs)) (member_bytes f (map cell_byte cs))"
proof -
  let ?bs = "map cell_byte cs"
  let ?P = "emits (pb_encoder encode f (Some cs)) (member_bytes f ?bs)"
  note encoder = pb_encoder_def [abs_def] member_bytes_def Let_def pb_ltypes assms(1)
  have bool: ?P if "ltype f = PB_LTYPE_BOOL"
  proof (cases "\<exists>c. cs = [c]")
    case True
    then obtain c where cs: "cs = [c]" by blast
    have "pb_encoder encode f (Some cs) = (pb_enc_bool [cell_byte c] :: 'a pb_ostream \<Rightarrow> _)"
      using that assms(1) by (simp add: pb_encoder_def fun_eq_iff cs)
    with that emits_bool [of "cell_byte c"] show ?thesis by (simp add: member_bytes_def cs)
  next
    case False
    with that have "member_bytes f ?bs = None" by (cases cs; cases "tl cs") (simp_all add: member_bytes_def)
    then show ?thesis by simp
  qed
  have varint: ?P if "ltype f = PB_LTYPE_VARINT"
    using that emits_writes [OF varint_member.member_writes [of f ?bs]] by (auto simp: encoder)
  have uvarint: ?P if "ltype f = PB_LTYPE_UVARINT"
    using that emits_writes [OF uvarint_member.member_writes [of f ?bs]] by (auto simp: encoder)
  have svarint: ?P if "ltype f = PB_LTYPE_SVARINT"
    using that emits_writes [OF svarint_member.member_writes [of f ?bs]] by (auto simp: encoder)
  have fixed32: ?P if "ltype f = PB_LTYPE_FIXED32"
    using that emits_writes [OF fixed32_member.member_writes [of ?bs]] by (auto simp: encoder)
  have fixed64: ?P if "ltype f = PB_LTYPE_FIXED64"
    using that emits_writes [OF fixed64_member.member_writes [of ?bs]] by (auto simp: encoder)
  have bytes: ?P if "ltype f = PB_LTYPE_BYTES" using that emits_bytes [of f ?bs] by (simp add: encoder)
  have str: ?P if "ltype f = PB_LTYPE_STRING" using that emits_string [of f ?bs] by (simp add: encoder)
  have fixed: ?P if "ltype f = PB_LTYPE_FIXED_LENGTH_BYTES"
  proof (cases "unat (data_size f) \<le> length ?bs")
    case True
    have "emits (pb_enc_fixed_length_bytes f ?bs) (prefixed (emit (take (unat (data_size f)) ?bs)))"
      unfolding pb_enc_fixed_length_bytes_def [abs_def]
      by (rule emits_prefixed_write) (use True in \<open>simp_all add: unat_ucast_up\<close>)
    with that True show ?thesis by (simp add: encoder)
  next
    case False
    with that show ?thesis by (simp add: encoder)
  qed
  show ?thesis
  proof (cases "ltype f \<in> {PB_LTYPE_BOOL, PB_LTYPE_VARINT, PB_LTYPE_UVARINT, PB_LTYPE_SVARINT, PB_LTYPE_FIXED32, PB_LTYPE_FIXED64,
      PB_LTYPE_BYTES, PB_LTYPE_STRING, PB_LTYPE_FIXED_LENGTH_BYTES}")
    case True
    with bool varint uvarint svarint fixed32 fixed64 bytes str fixed show ?thesis by blast
  qed (simp add: member_bytes_def)
qed

section \<open>Submessages\<close>

lemma put_sizing: "bytes_written (put bs PB_OSTREAM_SIZING) = word_of_nat (length bs)"
  by (simp add: put_def PB_OSTREAM_SIZING_def)

lemma sizing_write:
  assumes "sink s = None"
  shows "pb_write [] (word_of_nat (length bs)) s = pb_ok (put bs s)" "fits n s"
  using assms by (simp_all add: pb_write_def put_def fits_def)

lemma emits_write_submessage:
  assumes enc: "emits enc (Some (Some bs))" and len: "length bs < 2 ^ 63"
  shows "emits (write_submessage enc (word_of_nat (length bs))) (emit bs)"
  unfolding emits_def emit_def
proof (intro allI impI)
  fix r and s :: "'a pb_ostream"
  assume "Some (Some bs) = Some r" and s: "good_ostream s"
  then have r: "r = Some bs" by simp
  define n :: u64 where "n = word_of_nat (length bs)"
  have n: "unat n = length bs" unfolding n_def using len by (intro unat_word_of_nat_less) simp
  show "emits_to r s (write_submessage enc (word_of_nat (length bs)) s)"
  proof (cases "sink s")
    case None
    then show ?thesis by (simp add: r emits_to_def write_submessage_def sizing_write)
  next
    case (Some k)
    with s obtain w fit where k: "sink s = Some (Buf_write w fit)" and *: "oerrmsg s = None" "bytes_written s \<le> max_size s"
      "unat (max_size s) - unat (bytes_written s) \<le> fit" "unat (max_size s) < 2 ^ 63"
      by (auto simp: good_ostream_def wf_ostream_def split: pb_sink.splits)
    have some: "sink s \<noteq> None" using k by simp
    from * have small: "unat (bytes_written s) < 2 ^ 63" by (simp add: word_le_nat_alt)
    then have "unat (bytes_written s + n) = unat (bytes_written s) + length bs"
      using len n by (simp add: unat_word_ariths)
    then have full: "bytes_written s + n > max_size s \<longleftrightarrow> \<not> fits (length bs) s"
      using k by (simp add: word_less_nat_alt fits_def not_le)
    show ?thesis
    proof (cases "fits (length bs) s")
      case False
      have "bs \<noteq> []" using False fits_0 [of s] s by (auto simp: good_ostream_def)
      moreover have "fails_after [] s (pb_oreturn_error s ''stream full'' :: (unit, 'a pb_ostream) pb_result)"
        using s *(1) by (auto simp: fails_after_def pb_oreturn_error_def good_ostream_def fits_0)
      ultimately show ?thesis
        using False full k by (auto simp: r emits_to_def write_submessage_def n_def [symmetric] strict_prefix_def intro!: exI [of _ "[]"])
    next
      case True
      define sub where "sub = \<lparr>sink = sink s, max_size = n, bytes_written = 0, oerrmsg = None\<rparr>"
      have "good_ostream sub" "fits (length bs) sub"
        using True k * n len by (auto simp: sub_def good_ostream_def wf_ostream_def fits_def)
      with emitsD [OF enc refl, of sub] have "enc sub = pb_ok (put bs sub)" by (simp add: emits_to_def)
      moreover have "s\<lparr>bytes_written := bytes_written s + bytes_written (put bs sub), sink := sink (put bs sub),
          oerrmsg := oerrmsg (put bs sub)\<rparr> = put bs s" "bytes_written (put bs sub) = n"
        using k *(1) by (simp_all add: put_def sub_def n_def)
      ultimately show ?thesis
        using True full some by (auto simp: r emits_to_def write_submessage_def n_def [symmetric] sub_def [symmetric] Let_def simp del: put_errmsg)
    qed
  qed
qed

lemma emits_submessage:
  assumes "emits enc e"
  shows "emits (pb_encode_submessage enc) (prefixed e)"
proof (cases e)
  case (Some r)
  note sizing = emitsD [OF assms Some good_sizing(1)]
  show ?thesis
  proof (cases r)
    case None
    with sizing obtain bs err where "enc PB_OSTREAM_SIZING = Some (None, (put bs PB_OSTREAM_SIZING)\<lparr>oerrmsg := err\<rparr>)"
      by (auto simp: emits_to_def fails_after_def)
    then have "fails_after [] s (pb_encode_submessage enc s)" if "good_ostream s" for s
      using that by (auto simp: pb_encode_submessage_def fails_after_def good_ostream_def fits_0)
    then show ?thesis using Some None by (auto simp: emits_def emits_to_def)
  next
    case bs: (Some bs)
    show ?thesis
    proof (cases "length bs < 2 ^ 63")
      case True
      define n :: u64 where "n = word_of_nat (length bs)"
      have n: "unat n = length bs" unfolding n_def using True by (intro unat_word_of_nat_less) simp
      have "enc PB_OSTREAM_SIZING = pb_ok (put bs PB_OSTREAM_SIZING)" using sizing bs by (simp add: emits_to_def)
      then have "pb_encode_submessage enc s = pb_then (pb_encode_varint n s) (\<lambda>_. write_submessage enc n)" for s
        by (simp add: pb_encode_submessage_def put_sizing n_def)
      moreover have "emits (\<lambda>s. pb_then (pb_encode_varint n s) (\<lambda>_. write_submessage enc n)) (followed_by (emit (varint (length bs))) (emit bs))"
        using emits_write_submessage [of enc bs] assms Some bs True emits_writes [OF pb_writes_encode_varint [of n]]
        unfolding n n_def [symmetric] by (intro emits_then) simp_all
      ultimately show ?thesis using True Some bs by (auto simp: prefixed_def emit_def elim: emit_cong)
    qed (simp add: Some bs prefixed_def)
  qed
qed simp

lemma emits_item:
  assumes "\<And>d cs. emits (encode d cs) (sub d cs)"
  shows "emits (pb_encoder encode f src) (item_bytes sub f src)"
proof (cases src)
  case None
  have "varint 0 = [0]" by (simp add: varint.simps)
  with emits_writes [OF pb_writes_encode_string [of 0 "[]"]] have "emits (pb_encode_string [] 0 :: 'a pb_ostream \<Rightarrow> _) (emit [0])" by simp
  then show ?thesis
    by (auto simp: None item_bytes_def pb_encoder_def [abs_def] pb_enc_bytes_def pb_enc_string_def pb_ltypes)
next
  case (Some cs)
  show ?thesis
  proof (cases "ltype f = PB_LTYPE_SUBMESSAGE")
    case True
    with emits_submessage [OF assms] emits_refuse show ?thesis
      by (auto simp: Some item_bytes_def pb_encoder_def [abs_def] pb_ltypes split: pb_ptr.splits)
  next
    case False
    with emits_member [of cs f encode] show ?thesis by (auto simp: Some item_bytes_def)
  qed
qed

section \<open>Arrays and fields\<close>

lemma emits_fail: "emits (\<lambda>s. Some (None, s)) refuse"
proof -
  have "fails_after [] s (Some (None, s) :: (unit, 's pb_ostream) pb_result)" if "good_ostream s" for s :: "'s pb_ostream"
    using that by (auto simp: fails_after_def good_ostream_def fits_0 intro!: exI [of _ "oerrmsg s"])
  then show ?thesis by (auto simp: emits_def emits_to_def refuse_def)
qed

lemma emits_tagged:
  assumes "emits g e"
  shows "emits (\<lambda>s. pb_then (pb_encode_tag_for_field f s) (\<lambda>_. g)) (tagged f e)"
proof (cases "field_wire_type f")
  case None
  then have "pb_encode_tag_for_field f = (\<lambda>s :: 'a pb_ostream. pb_oreturn_error s ''invalid field type'')"
    by (auto simp: field_wire_type_def pb_encode_tag_for_field_def fun_eq_iff Let_def split: if_splits)
  with None emits_then [OF emits_refuse assms] show ?thesis by (simp add: tagged_def refuse_def)
next
  case (Some wt)
  then have "pb_encode_tag_for_field f = (pb_encode_tag wt (field_tag f) :: 'a pb_ostream \<Rightarrow> _)"
    by (auto simp: field_wire_type_def pb_encode_tag_for_field_def fun_eq_iff Let_def pb_ltypes split: if_splits)
  moreover have "proper_wire_type wt" using Some by (auto simp: field_wire_type_def proper_wire_type_def split: if_splits)
  ultimately show ?thesis
    using Some emits_then [OF emits_writes [OF pb_writes_encode_tag] assms] by (simp add: tagged_def)
qed

lemma emits_items:
  assumes "\<And>p. emits (item p) (e p)"
  shows "emits (encode_items item step k p) (emit_all (map (\<lambda>i. e (p + int i * step)) [0..<k]))"
proof (induction k arbitrary: p)
  case 0
  then show ?case using emits_ok by (simp add: emit_def fun_eq_iff)
next
  case (Suc k)
  have "map (\<lambda>i. e (p + int i * step)) [0..<Suc k] = e p # map (\<lambda>i. e (p + step + int i * step)) [0..<k]"
    unfolding upt_conv_Cons [OF zero_less_Suc] map_Suc_upt [symmetric] by (simp add: algebra_simps)
  moreover have "encode_items item step (Suc k) p = (\<lambda>s. pb_then (item p s) (\<lambda>_. encode_items item step k (p + step)))"
    by (simp add: fun_eq_iff)
  ultimately show ?case using emits_then [OF assms Suc.IH [of "p + step"]] by simp
qed

text \<open>Items of a fixed width need no pass to count them.\<close>

lemma emit_all_width:
  "(\<And>e. e \<in> set es \<Longrightarrow> e = None \<or> (\<exists>bs. e = emit bs \<and> length bs = w)) \<Longrightarrow> emit_all es = Some r \<Longrightarrow>
   \<exists>bs. r = Some bs \<and> length bs = w * length es"
proof (induction es arbitrary: r)
  case (Cons e es)
  from Cons.prems obtain bs where "e = emit bs" "length bs = w" by (cases e) (auto simp: emit_def)
  with Cons show ?case by (fastforce simp: emit_def)
qed simp

lemma fixed_item_width:
  assumes "ltype f = PB_LTYPE_FIXED32 \<and> w = 4 \<or> ltype f = PB_LTYPE_FIXED64 \<and> w = 8"
  shows "item_bytes sub f (Some cs) = None \<or> (\<exists>bs. item_bytes sub f (Some cs) = emit bs \<and> length bs = w)"
  using assms by (auto simp: item_bytes_def member_bytes_def pb_ltypes)

text \<open>A packed array: the count of the first pass is the length of what the second writes.\<close>

lemma emits_packed:
  assumes items: "emits items e" and sized: "\<And>bs. e = Some (Some bs) \<Longrightarrow> packed_size f n items = Some (Some (word_of_nat (length bs)))"
    "e = Some None \<Longrightarrow> packed_size f n items = Some None"
  shows "emits (encode_packed f n items) (followed_by (emit (tag_bytes PB_WT_STRING (unat (field_tag f)))) (prefixed e))"
proof -
  let ?body = "\<lambda>s. case packed_size f n items of
        None \<Rightarrow> None
      | Some None \<Rightarrow> Some (None, s)
      | Some (Some bytes) \<Rightarrow> pb_then (pb_encode_varint bytes s) (\<lambda>_ s. if sink s = None then pb_write [] bytes s else items s)"
  have body: "emits ?body (prefixed e)"
  proof (cases e)
    case (Some r)
    show ?thesis
    proof (cases r)
      case None
      with Some sized(2) emits_fail show ?thesis by (simp add: refuse_def)
    next
      case bs: (Some bs)
      show ?thesis
      proof (cases "length bs < 2 ^ 63")
        case True
        define k :: u64 where "k = word_of_nat (length bs)"
        have k: "unat k = length bs" unfolding k_def using True by (intro unat_word_of_nat_less) simp
        have "emits (\<lambda>s. if sink s = None then pb_write [] k s else items s) (emit bs)"
          unfolding emits_def emit_def
        proof (intro allI impI)
          fix r and s :: "'a pb_ostream"
          assume "Some (Some bs) = Some r" "good_ostream s"
          with emitsD [OF items, of "Some bs" s] Some bs sizing_write(1) [of s bs] sizing_write(2) [of s]
          show "emits_to r s (if sink s = None then pb_write [] k s else items s)" by (auto simp: emits_to_def k_def)
        qed
        from emits_then [OF emits_writes [OF pb_writes_encode_varint [of k]] this]
        show ?thesis using sized(1) [of bs] Some bs True by (simp add: prefixed_def k k_def [symmetric] emit_def)
      qed (simp add: Some bs prefixed_def)
    qed
  qed simp
  show ?thesis unfolding encode_packed_def [abs_def]
    by (rule emits_then [OF emits_writes [OF pb_writes_encode_tag] body]) (simp add: proper_wire_type_def)
qed

lemma unat_small_word: "unat (word_of_nat (unat (c :: u32)) :: u64) = unat c" "(word_of_nat (unat c) :: u64) = ucast c"
  using unsigned_less [of c, where 'a = nat] by (simp_all add: word_unat_eq_iff unat_ucast_up unat_of_nat)

lemma packed_size_exact:
  assumes items: "emits items e" and e: "e = emit_all es" "length es = unat (c :: u32)"
    and es: "\<And>x w. x \<in> set es \<Longrightarrow> ltype f = PB_LTYPE_FIXED32 \<and> w = 4 \<or> ltype f = PB_LTYPE_FIXED64 \<and> w = 8 \<Longrightarrow>
      x = None \<or> (\<exists>bs. x = emit bs \<and> length bs = w)"
  shows "e = Some (Some bs) \<Longrightarrow> packed_size f (ucast c) items = Some (Some (word_of_nat (length bs)))"
    and "e = Some None \<Longrightarrow> packed_size f (ucast c) items = Some None"
proof -
  have width: "\<exists>bs. r = Some bs \<and> length bs = w * unat c"
    if "ltype f = PB_LTYPE_FIXED32 \<and> w = 4 \<or> ltype f = PB_LTYPE_FIXED64 \<and> w = 8" "e = Some r" for w r
    using emit_all_width [of es w r] es [OF _ that(1)] that(2) e by simp
  have words: "word_of_nat (4 * unat c) = (4 * ucast c :: u64)" "word_of_nat (8 * unat c) = (8 * ucast c :: u64)"
    by (simp_all add: unat_small_word)
  show "packed_size f (ucast c) items = Some (Some (word_of_nat (length bs)))" if bs: "e = Some (Some bs)"
  proof -
    consider "ltype f = PB_LTYPE_FIXED32" | "ltype f = PB_LTYPE_FIXED64" | "ltype f \<noteq> PB_LTYPE_FIXED32" "ltype f \<noteq> PB_LTYPE_FIXED64"
      by blast
    then show ?thesis
    proof cases
      case 1
      with width [of 4 "Some bs"] bs words(1) show ?thesis by (simp add: packed_size_def)
    next
      case 2
      with width [of 8 "Some bs"] bs words(2) show ?thesis by (simp add: packed_size_def PB_LTYPE_FIXED32_def PB_LTYPE_FIXED64_def)
    next
      case 3
      with emitsD [OF items bs good_sizing(1)] show ?thesis by (simp add: packed_size_def emits_to_def put_sizing)
    qed
  qed
  show "packed_size f (ucast c) items = Some None" if "e = Some None"
    using emitsD [OF items that good_sizing(1)] width [of 4 None] width [of 8 None] that
    by (auto simp: packed_size_def emits_to_def fails_after_def)
qed

lemma emits_array_item:
  assumes "\<And>d cs. emits (encode d cs) (sub d cs)"
  shows "emits (array_item encode f (Some (mem, off)) p) (array_item_bytes sub f mem p)"
  using emits_item [of encode sub f, OF assms]
  by (auto simp: array_item_def [abs_def] array_item_bytes_def split: option.split)

lemma emits_array_element:
  assumes "\<And>d cs. emits (encode d cs) (sub d cs)"
  shows "emits (array_element encode f (Some (mem, off)) p)
    (if atype f = PB_ATYPE_POINTER \<and> is_text f then array_text_bytes sub f mem p else array_item_bytes sub f mem p)"
  using emits_item [of encode sub f, OF assms] emits_array_item [of encode sub f, OF assms]
  by (auto simp: array_element_def [abs_def] array_text_bytes_def is_text_def split: option.split)

lemma emits_array:
  assumes sub: "\<And>d cs. emits (encode d cs) (sub d cs)"
  shows "emits (encode_array encode f src (ucast (c :: u32))) (array_bytes sub f src (unat c))"
proof (cases "c = 0")
  case True
  then show ?thesis using emits_ok by (simp add: encode_array_def [abs_def] array_bytes_def)
next
  case c: False
  have "unat (ucast c :: u64) = unat c" "unat c \<noteq> 0" using c by (simp_all add: unat_ucast_up unat_eq_0)
  moreover from this have "(ucast c :: u64) \<noteq> 0" by (metis unsigned_0)
  ultimately have n: "(ucast c :: u64) \<noteq> 0" "unat c \<noteq> 0" "unat (ucast c :: u64) = unat c" by simp_all
  have big: "(ucast (array_size f) :: u64) < ucast c \<longleftrightarrow> unat (array_size f) < unat c"
    by (simp add: word_less_nat_alt unat_ucast_up)
  consider (big) "atype f \<noteq> PB_ATYPE_POINTER \<and> unat (array_size f) < unat c"
    | (null) "\<not> (atype f \<noteq> PB_ATYPE_POINTER \<and> unat (array_size f) < unat c)" "src = None"
    | (place) mem off where "\<not> (atype f \<noteq> PB_ATYPE_POINTER \<and> unat (array_size f) < unat c)" "src = Some (mem, off)"
    by (cases src) auto
  then show ?thesis
  proof cases
    case big
    then show ?thesis using emits_refuse by (simp add: encode_array_def [abs_def] array_bytes_def n \<open>_ \<longleftrightarrow> _\<close>)
  next
    case null
    then show ?thesis by (auto simp: array_bytes_def n)
  next
    case place
    define step where "step = uint (data_size f)"
    define places where "places = map (\<lambda>i. off + int i * step) [0..<unat c]"
    define each where "each = (\<lambda>item :: int \<Rightarrow> 'a pb_ostream \<Rightarrow> _. encode_items item step (unat c) off)"
    have enc: "encode_array encode f src (ucast c) =
        (if ltype f \<le> PB_LTYPE_LAST_PACKABLE then encode_packed f (ucast c) (each (array_item encode f src))
         else each (\<lambda>p s. pb_then (pb_encode_tag_for_field f s) (\<lambda>_. array_element encode f src p)))"
      using place by (auto simp: encode_array_def [abs_def] n big Let_def each_def step_def)
    have all: "emits (each item) (emit_all (map e places))" if "\<And>p. emits (item p) (e p)" for item e
      using emits_items [of item e, OF that] by (simp add: each_def places_def comp_def)
    show ?thesis
    proof (cases "ltype f \<le> PB_LTYPE_LAST_PACKABLE")
      case True
      let ?es = "map (array_item_bytes sub f mem) places"
      have items: "emits (each (array_item encode f src)) (emit_all ?es)"
        by (rule all) (simp add: place(2) emits_array_item [of encode sub f, OF sub])
      have "x = None \<or> (\<exists>bs. x = emit bs \<and> length bs = w)"
        if "x \<in> set ?es" "ltype f = PB_LTYPE_FIXED32 \<and> w = 4 \<or> ltype f = PB_LTYPE_FIXED64 \<and> w = 8" for x w
      proof -
        from that(1) obtain p where x: "x = array_item_bytes sub f mem p" by auto
        show ?thesis
          using fixed_item_width [OF that(2), of sub "the (window p (item_size f) mem)"]
          by (cases "window p (item_size f) mem") (simp_all add: x array_item_bytes_def)
      qed
      from emits_packed [OF items packed_size_exact [OF items refl _ this]]
      have "emits (encode_packed f (ucast c) (each (array_item encode f src)))
          (followed_by (emit (tag_bytes PB_WT_STRING (unat (field_tag f)))) (prefixed (emit_all ?es)))"
        by (simp add: places_def)
      moreover have "array_bytes sub f src (unat c) =
          followed_by (emit (tag_bytes PB_WT_STRING (unat (field_tag f)))) (prefixed (emit_all ?es))"
        using True place by (auto simp: array_bytes_def n Let_def places_def step_def)
      ultimately show ?thesis using True unfolding enc by simp
    next
      case False
      let ?e = "\<lambda>p. tagged f (if atype f = PB_ATYPE_POINTER \<and> is_text f then array_text_bytes sub f mem p else array_item_bytes sub f mem p)"
      have "emits (each (\<lambda>p s. pb_then (pb_encode_tag_for_field f s) (\<lambda>_. array_element encode f src p))) (emit_all (map ?e places))"
        by (intro all emits_tagged) (simp add: place(2) emits_array_element [of encode sub f, OF sub, simplified])
      moreover have "array_bytes sub f src (unat c) = emit_all (map ?e places)"
        using False place by (auto simp: array_bytes_def n Let_def places_def step_def)
      ultimately show ?thesis using False by (simp add: enc)
    qed
  qed
qed

lemma emits_single:
  assumes "\<And>d cs. emits (encode d cs) (sub d cs)"
  shows "emits (encode_single encode f src) (tagged f (case single_src f src of None \<Rightarrow> None | Some item \<Rightarrow> item_bytes sub f item))"
  unfolding encode_single_def [abs_def]
  using emits_item [of encode sub f, OF assms] by (intro emits_tagged) (auto split: option.split)

text \<open>What \<open>encode_basic_field\<close> does once it knows where the data are.\<close>

lemma basic_field_at:
  assumes "(if atype f = PB_ATYPE_POINTER then map_option (map_option (\<lambda>block. (block, 0))) (load_ptr off mem)
            else Some (Some (mem, off))) = Some src"
    and "size_offset f = 0 \<and> htype f = PB_HTYPE_OPTIONAL \<longrightarrow> check f off mem = Some d"
  shows "encode_basic_field check encode f off mem = (\<lambda>s.
     if htype f = PB_HTYPE_REQUIRED then (if src = None then pb_oreturn_error s ''missing required field'' else encode_single encode f src s)
     else if htype f = PB_HTYPE_OPTIONAL then
       Option.bind (if size_offset f \<noteq> 0 then load_flag (off + sint (size_offset f)) mem
                    else Some (if atype f = PB_ATYPE_POINTER then src \<noteq> None else \<not> d))
         (\<lambda>has. if has then encode_single encode f src s else pb_ok s)
     else if is_repeated f then
       Option.bind (if size_offset f \<noteq> 0 then load_size (off + sint (size_offset f)) mem else Some (array_size f))
         (\<lambda>n. encode_array encode f src (ucast n) s)
     else Option.bind (if size_offset f \<noteq> 0 then load_size (off + sint (size_offset f)) mem else None)
         (\<lambda>which. if which = field_tag f then encode_single encode f src s else pb_ok s))"
proof (cases "atype f = PB_ATYPE_POINTER")
  case True
  then obtain p where "load_ptr off mem = Some p" "src = map_option (\<lambda>block. (block, 0)) p" using assms(1) by auto
  then show ?thesis
    using True assms(2) htype_cases [of f] 
    by (auto simp: fun_eq_iff encode_basic_field_def Let_def cong: if_cong)
next
  case False
  then have "src = Some (mem, off)" using assms(1) by simp
  then show ?thesis
    using False assms(2) htype_cases [of f] 
    by (auto simp: fun_eq_iff encode_basic_field_def Let_def cong: if_cong)
qed

lemma emits_basic_field:
  assumes sub: "\<And>d cs. emits (encode d cs) (sub d cs)"
  shows "emits (encode_basic_field check encode f off mem) (field_bytes check sub f off mem)"
proof -
  define place where "place = (if atype f = PB_ATYPE_POINTER then map_option (map_option (\<lambda>block. (block, 0 :: int))) (load_ptr off mem)
             else Some (Some (mem, off)))"
  show ?thesis
  proof (cases place)
    case None
    then show ?thesis by (simp add: field_bytes_def place_def [symmetric])
  next
    case (Some src)
    let ?size = "off + sint (size_offset f)"
    let ?single = "tagged f (case single_src f src of None \<Rightarrow> None | Some item \<Rightarrow> item_bytes sub f item)"
    note single = emits_single [of encode sub f src, OF sub]
    note eq = basic_field_at [OF Some [unfolded place_def], where check = check and encode = encode]
    note bytes = field_bytes_def place_def [symmetric] Some Let_def
    consider (required) "htype f = PB_HTYPE_REQUIRED" | (flag) "htype f = PB_HTYPE_OPTIONAL" "size_offset f \<noteq> 0"
      | (implicit) "htype f = PB_HTYPE_OPTIONAL" "size_offset f = 0" | (repeated) "is_repeated f" | (oneof) "is_oneof f"
      using htype_cases by blast
    then show ?thesis
    proof cases
      case required
      then show ?thesis
        using single emits_refuse [of "''missing required field''"] eq [where d = True] by (cases src) (simp_all add: bytes)
    next
      case flag
      then show ?thesis
        using single emits_ok eq [where d = True] by (cases "load_flag ?size mem") (auto simp: bytes)
    next
      case implicit
      show ?thesis
      proof (cases "check f off mem")
        case None
        with implicit show ?thesis by (simp add: bytes)
      next
        case d: (Some d)
        with implicit single emits_ok eq [where d = d] show ?thesis by (auto simp: bytes)
      qed
    next
      case repeated
      then show ?thesis
        using emits_array [of encode sub f src, OF sub] eq [where d = True]
        by (cases "load_size ?size mem") (auto simp: bytes)
    next
      case oneof
      then show ?thesis
        using single emits_ok eq [where d = True] by (cases "load_size ?size mem") (auto simp: bytes)
    qed
  qed
qed

section \<open>Messages\<close>

lemma emits_fields:
  assumes "\<And>iter. emits (enc iter) (e iter)"
  shows "emits (encode_fields enc iters) (emit_all (map e iters))"
proof (induction iters)
  case Nil
  then show ?case using emits_ok by (simp add: fun_eq_iff emit_def)
next
  case (Cons iter iters)
  have "encode_fields enc (iter # iters) = (\<lambda>s. pb_then (enc iter s) (\<lambda>_. encode_fields enc iters))" by (simp add: fun_eq_iff)
  with emits_then [OF assms Cons.IH] show ?case by simp
qed

lemma emits_message: "emits (pb_encode n env d mem) (message_bytes n env d mem)"
proof (induction n arbitrary: d mem)
  case (Suc n)
  let ?enc = "\<lambda>iter s. if ltype (iter_field iter) = PB_LTYPE_EXTENSION then encode_extension_field (pData iter) mem s
                 else encode_field env (pb_check_proto3_default_value n env) (pb_encode n env) (iter_field iter) (pData iter) mem s"
  have "emits (?enc iter) (let f = iter_field iter in
          if ltype f = PB_LTYPE_EXTENSION then (if load_ptr (pData iter) mem = Some None then emit [] else None)
          else if atype f = PB_ATYPE_STATIC \<or> atype f = PB_ATYPE_POINTER
          then field_bytes (pb_check_proto3_default_value n env) (message_bytes n env) f (pData iter) mem
          else None)" for iter
    using emits_ok emits_basic_field [OF Suc.IH]
    by (auto simp: encode_extension_field_def [abs_def] encode_field_def [abs_def] Let_def)
  from emits_fields [of ?enc, OF this] show ?case by (simp add: fun_eq_iff)
qed simp

section \<open>Properties\<close>


lemma node_bytes: "message_bytes 7 node_env 0 node_memory = Some (Some [0x08, 0x2A, 0x1A, 0x02, 0x08, 0x07])"
  by code_simp


text \<open>A proto3 submessage with a number on the heap: \<open>pb_check_proto3_default_value\<close> compares the first bytes of the pointer
  with 0, as many as the number has.  Whether the submessage is written depends on the address of the block.\<close>

definition heap_env :: "u64 \<Rightarrow> unit pb_env" where
  "heap_env a = node_env\<lparr>address := (\<lambda>_. a), messages := (\<lambda>d.
     if d = 0 then [\<lparr>field_tag = 1, field_type = 0x18, data_offset = 0, size_offset = 0, data_size = 8, array_size = 0, field_ptr = Fields 1\<rparr>]
     else [\<lparr>field_tag = 1, field_type = 0x90, data_offset = 0, size_offset = 0, data_size = 1, array_size = 0, field_ptr = Null_ptr\<rparr>])\<rparr>"

lemma submessage_dropped:
  "message_bytes 2 (heap_env 0x1001) 0 (ptr_cells [Byte 1]) = emit [0x0A, 0x02, 0x08, 0x01] \<and>
   message_bytes 2 (heap_env 0x1000) 0 (ptr_cells [Byte 1]) = emit []"
  by code_simp

end
