(* ===== verification/Ossl_Lhash.thy ===== *)
theory Ossl_Lhash
  imports Ossl_Mem "HOL-Library.Multiset"
begin

text \<open>
  The hash table of BoringSSL (\<^verbatim>\<open>crypto/lhash/lhash.c\<close>).

  A chain is the list of its items, in the order of the \<open>next\<close> pointers; no pointer to an item leaves the
  file.  The pointer to a pointer that the search returns is the index of the bucket and the position in
  its chain; it points to \<open>NULL\<close> when the position is the length of the chain.  The stored data are
  pointers other than \<open>NULL\<close>, so that \<open>NULL\<close> as a result is \<open>None\<close>.  The function pointers \<open>hash\<close> and \<open>comp\<close>
  stay opaque: as in the code the operations take helpers that call them.  What the table promises is stated over a key
  of the data in the locale \<open>hash_key\<close>; its interpretations are in the theories of the clients.
\<close>

section \<open>State\<close>

definition kMinNumBuckets :: nat where "kMinNumBuckets = 16"
definition kMaxAverageChainLength :: nat where "kMaxAverageChainLength = 2"
definition kMinAverageChainLength :: nat where "kMinAverageChainLength = 1"

record 'd lhash_item =
  item_data :: 'd
  item_hash :: u32

record ('h, 'c, 'd) lhash =
  num_items :: nat
  buckets :: "'d lhash_item list list"
  num_buckets :: nat
  callback_depth :: nat
  lh_comp :: 'c
  lh_hash :: 'h

section \<open>Operations\<close>

definition OPENSSL_lh_new :: "allocator \<Rightarrow> 'h \<Rightarrow> 'c \<Rightarrow> ('h, 'c, 'd) lhash option" where
  "OPENSSL_lh_new al hash cmp =
     (case OPENSSL_malloc al 48 of
        None \<Rightarrow> None
      | Some _ \<Rightarrow>
          (case OPENSSL_malloc al (8 * kMinNumBuckets) of
             None \<Rightarrow> None
           | Some _ \<Rightarrow>
               Some \<lparr>num_items = 0, buckets = replicate kMinNumBuckets [],
                 num_buckets = kMinNumBuckets, callback_depth = 0, lh_comp = cmp, lh_hash = hash\<rparr>))"

text \<open>The items that \<open>OPENSSL_lh_free\<close> frees, in its order.\<close>

definition OPENSSL_lh_free :: "('h, 'c, 'd) lhash option \<Rightarrow> 'd lhash_item list" where
  "OPENSSL_lh_free lh =
     (case lh of
        None \<Rightarrow> []
      | Some lh \<Rightarrow> foldl (\<lambda>freed i. foldl (\<lambda>freed n. freed @ [n]) freed (buckets lh ! i)) [] [0..<num_buckets lh])"

definition OPENSSL_lh_num_items :: "('h, 'c, 'd) lhash \<Rightarrow> nat" where
  "OPENSSL_lh_num_items lh = num_items lh"

text \<open>The loop of the two searches: the position of the first item with the property.\<close>

fun chain_search :: "('d \<Rightarrow> bool) \<Rightarrow> 'd lhash_item list \<Rightarrow> nat" where
  "chain_search eq [] = 0"
| "chain_search eq (cur # chain) = (if eq (item_data cur) then 0 else Suc (chain_search eq chain))"

definition get_next_ptr_and_hash ::
    "('h, 'c, 'd) lhash \<Rightarrow> 'd \<Rightarrow> ('h \<Rightarrow> 'd \<Rightarrow> u32) \<Rightarrow> ('c \<Rightarrow> 'd \<Rightarrow> 'd \<Rightarrow> int) \<Rightarrow> (nat \<times> nat) \<times> u32" where
  "get_next_ptr_and_hash lh data call_hash call_cmp =
     (let hash = call_hash (lh_hash lh) data; i = unat hash mod num_buckets lh in
      ((i, chain_search (\<lambda>cur. call_cmp (lh_comp lh) cur data = 0) (buckets lh ! i)), hash))"

definition get_next_ptr_by_key ::
    "('h, 'c, 'd) lhash \<Rightarrow> 'k \<Rightarrow> u32 \<Rightarrow> ('k \<Rightarrow> 'd \<Rightarrow> int) \<Rightarrow> nat \<times> nat" where
  "get_next_ptr_by_key lh k key_hash cmp_key =
     (let i = unat key_hash mod num_buckets lh in
      (i, chain_search (\<lambda>cur. cmp_key k cur = 0) (buckets lh ! i)))"

text \<open>\<open>*next_ptr\<close>.\<close>

definition next_item :: "('h, 'c, 'd) lhash \<Rightarrow> nat \<times> nat \<Rightarrow> 'd lhash_item option" where
  "next_item lh p =
     (case p of (i, j) \<Rightarrow> (if j < length (buckets lh ! i) then Some (buckets lh ! i ! j) else None))"

definition OPENSSL_lh_retrieve ::
    "('h, 'c, 'd) lhash \<Rightarrow> 'd \<Rightarrow> ('h \<Rightarrow> 'd \<Rightarrow> u32) \<Rightarrow> ('c \<Rightarrow> 'd \<Rightarrow> 'd \<Rightarrow> int) \<Rightarrow> 'd option" where
  "OPENSSL_lh_retrieve lh data call_hash call_cmp =
     (let next_ptr = fst (get_next_ptr_and_hash lh data call_hash call_cmp) in
      map_option item_data (next_item lh next_ptr))"

definition OPENSSL_lh_retrieve_key ::
    "('h, 'c, 'd) lhash \<Rightarrow> 'k \<Rightarrow> u32 \<Rightarrow> ('k \<Rightarrow> 'd \<Rightarrow> int) \<Rightarrow> 'd option" where
  "OPENSSL_lh_retrieve_key lh k key_hash cmp_key =
     (let next_ptr = get_next_ptr_by_key lh k key_hash cmp_key in
      map_option item_data (next_item lh next_ptr))"

definition lh_rebucket :: "allocator \<Rightarrow> ('h, 'c, 'd) lhash \<Rightarrow> nat \<Rightarrow> ('h, 'c, 'd) lhash" where
  "lh_rebucket al lh new_num_buckets =
     (let alloc_size = 8 * new_num_buckets mod size_mod in
      if alloc_size div 8 \<noteq> new_num_buckets then lh
      else case OPENSSL_malloc al alloc_size of
             None \<Rightarrow> lh
           | Some _ \<Rightarrow>
               (let new_buckets =
                  foldl (\<lambda>new i.
                    foldl (\<lambda>new cur.
                      (let new_bucket = unat (item_hash cur) mod new_num_buckets in
                       new[new_bucket := cur # new ! new_bucket]))
                      new (buckets lh ! i))
                    (replicate new_num_buckets []) [0..<num_buckets lh]
                in lh\<lparr>num_buckets := new_num_buckets, buckets := new_buckets\<rparr>))"

definition lh_maybe_resize :: "allocator \<Rightarrow> ('h, 'c, 'd) lhash \<Rightarrow> ('h, 'c, 'd) lhash" where
  "lh_maybe_resize al lh =
     (if callback_depth lh > 0 then lh
      else
        (let avg_chain_length = num_items lh div num_buckets lh in
         if avg_chain_length > kMaxAverageChainLength then
           (let new_num_buckets = num_buckets lh * 2 mod size_mod in
            if new_num_buckets > num_buckets lh then lh_rebucket al lh new_num_buckets else lh)
         else if avg_chain_length < kMinAverageChainLength \<and> num_buckets lh > kMinNumBuckets then
           (let new_num_buckets = num_buckets lh div 2;
                new_num_buckets = (if new_num_buckets < kMinNumBuckets then kMinNumBuckets else new_num_buckets)
            in lh_rebucket al lh new_num_buckets)
         else lh))"

text \<open>\<open>OPENSSL_lh_insert\<close> returns the flag, \<open>*old_data\<close> and the table.\<close>

definition OPENSSL_lh_insert ::
    "allocator \<Rightarrow> ('h, 'c, 'd) lhash \<Rightarrow> 'd \<Rightarrow> ('h \<Rightarrow> 'd \<Rightarrow> u32) \<Rightarrow> ('c \<Rightarrow> 'd \<Rightarrow> 'd \<Rightarrow> int) \<Rightarrow>
     bool \<times> 'd option \<times> ('h, 'c, 'd) lhash" where
  "OPENSSL_lh_insert al lh data call_hash call_cmp =
     (case get_next_ptr_and_hash lh data call_hash call_cmp of ((i, j), hash) \<Rightarrow>
        (case next_item lh (i, j) of
           Some item \<Rightarrow>
             (True, Some (item_data item),
              lh\<lparr>buckets := (buckets lh)[i := (buckets lh ! i)[j := item\<lparr>item_data := data\<rparr>]]\<rparr>)
         | None \<Rightarrow>
             (case OPENSSL_malloc al 24 of
                None \<Rightarrow> (False, None, lh)
              | Some _ \<Rightarrow>
                  (let item = \<lparr>item_data = data, item_hash = hash\<rparr>;
                       lh = lh\<lparr>buckets := (buckets lh)[i := buckets lh ! i @ [item]]\<rparr>;
                       lh = lh\<lparr>num_items := (num_items lh + 1) mod size_mod\<rparr>
                   in (True, None, lh_maybe_resize al lh)))))"

definition OPENSSL_lh_delete ::
    "allocator \<Rightarrow> ('h, 'c, 'd) lhash \<Rightarrow> 'd \<Rightarrow> ('h \<Rightarrow> 'd \<Rightarrow> u32) \<Rightarrow> ('c \<Rightarrow> 'd \<Rightarrow> 'd \<Rightarrow> int) \<Rightarrow>
     'd option \<times> ('h, 'c, 'd) lhash" where
  "OPENSSL_lh_delete al lh data call_hash call_cmp =
     (case fst (get_next_ptr_and_hash lh data call_hash call_cmp) of (i, j) \<Rightarrow>
        (case next_item lh (i, j) of
           None \<Rightarrow> (None, lh)
         | Some item \<Rightarrow>
             (let lh = lh\<lparr>buckets := (buckets lh)[i := take j (buckets lh ! i) @ drop (Suc j) (buckets lh ! i)]\<rparr>;
                  lh = lh\<lparr>num_items := (num_items lh + size_mod - 1) mod size_mod\<rparr>
              in (Some (item_data item), lh_maybe_resize al lh))))"

text \<open>\<open>OPENSSL_lh_doall_arg\<close> with a callback that changes the state behind \<open>arg\<close> and not the table.
  \<open>UINT_MAX\<close> is \<open>2 ^ 32 - 1\<close>.\<close>

definition OPENSSL_lh_doall_arg ::
    "allocator \<Rightarrow> ('h, 'c, 'd) lhash option \<Rightarrow> ('d \<Rightarrow> 's \<Rightarrow> 's) \<Rightarrow> 's \<Rightarrow> 's \<times> ('h, 'c, 'd) lhash option" where
  "OPENSSL_lh_doall_arg al lh func arg =
     (case lh of
        None \<Rightarrow> (arg, None)
      | Some lh \<Rightarrow>
          (let lh = (if callback_depth lh < 2 ^ 32 - 1
                     then lh\<lparr>callback_depth := callback_depth lh + 1\<rparr> else lh);
               arg = foldl (\<lambda>s i. foldl (\<lambda>s cur. func (item_data cur) s) s (buckets lh ! i))
                 arg [0..<num_buckets lh];
               lh = (if callback_depth lh < 2 ^ 32 - 1
                     then lh\<lparr>callback_depth := callback_depth lh - 1\<rparr> else lh)
           in (arg, Some (lh_maybe_resize al lh))))"

section \<open>What a table represents\<close>

definition lh_items :: "('h, 'c, 'd) lhash \<Rightarrow> 'd lhash_item list" where
  "lh_items lh = concat (buckets lh)"

text \<open>The table as a map from keys to data.\<close>

definition lh_map :: "('d \<Rightarrow> 'k) \<Rightarrow> ('h, 'c, 'd) lhash \<Rightarrow> 'k \<Rightarrow> 'd option" where
  "lh_map key lh = map_of (map (\<lambda>it. (key (item_data it), item_data it)) (lh_items lh))"

definition bucket_ok :: "('d \<Rightarrow> u32) \<Rightarrow> nat \<Rightarrow> nat \<Rightarrow> 'd lhash_item list \<Rightarrow> bool" where
  "bucket_ok hashf n i chain \<longleftrightarrow>
     (\<forall>it \<in> set chain. item_hash it = hashf (item_data it) \<and> unat (item_hash it) mod n = i)"

definition lh_wf :: "('d \<Rightarrow> u32) \<Rightarrow> ('d \<Rightarrow> 'k) \<Rightarrow> ('h, 'c, 'd) lhash \<Rightarrow> bool" where
  "lh_wf hashf key lh \<longleftrightarrow>
     kMinNumBuckets \<le> num_buckets lh \<and> num_buckets lh < size_mod \<and> length (buckets lh) = num_buckets lh \<and>
     num_items lh = length (lh_items lh) \<and> length (lh_items lh) < size_mod \<and>
     distinct (map (\<lambda>it. key (item_data it)) (lh_items lh)) \<and>
     (\<forall>i < num_buckets lh. bucket_ok hashf (num_buckets lh) i (buckets lh ! i))"

lemma kMinNumBuckets_pos [simp]: "0 < kMinNumBuckets"
  by (simp add: kMinNumBuckets_def)

lemma lh_wf_nb: "lh_wf hashf key lh \<Longrightarrow> 0 < num_buckets lh"
  using kMinNumBuckets_pos unfolding lh_wf_def by linarith

lemma lh_wf_nb2: "lh_wf hashf key lh \<Longrightarrow> num_buckets lh < size_mod"
  by (simp add: lh_wf_def)

subsection \<open>Chains\<close>

lemma chain_search_le: "chain_search eq chain \<le> length chain"
  by (induction eq chain rule: chain_search.induct) auto

lemma chain_search_less_iff:
  "chain_search eq chain < length chain \<longleftrightarrow> (\<exists>it \<in> set chain. eq (item_data it))"
  by (induction eq chain rule: chain_search.induct) auto

lemma chain_search_nth:
  "chain_search eq chain < length chain \<Longrightarrow> eq (item_data (chain ! chain_search eq chain))"
  by (induction eq chain rule: chain_search.induct) auto

lemma map_of_items_iff:
  assumes "distinct (map (\<lambda>it. key (item_data it)) its)"
  shows "map_of (map (\<lambda>it. (key (item_data it), item_data it)) its) k = Some d \<longleftrightarrow>
    key d = k \<and> (\<exists>it \<in> set its. item_data it = d)"
proof -
  have "distinct (map fst (map (\<lambda>it. (key (item_data it), item_data it)) its))"
    using assms by (simp add: comp_def)
  then show ?thesis by (subst map_of_eq_Some_iff) auto
qed

text \<open>Two lists of items with the same members represent the same map.\<close>

lemma map_of_items_cong:
  assumes "distinct (map (\<lambda>it. key (item_data it)) its)"
    and "distinct (map (\<lambda>it. key (item_data it)) its')" and "set its = set its'"
  shows "map_of (map (\<lambda>it. (key (item_data it), item_data it)) its)
    = map_of (map (\<lambda>it. (key (item_data it), item_data it)) its')"
proof
  fix k
  have "map_of (map (\<lambda>it. (key (item_data it), item_data it)) its) k = Some d \<longleftrightarrow>
      map_of (map (\<lambda>it. (key (item_data it), item_data it)) its') k = Some d" for d
    using assms by (simp add: map_of_items_iff)
  then show "map_of (map (\<lambda>it. (key (item_data it), item_data it)) its) k
    = map_of (map (\<lambda>it. (key (item_data it), item_data it)) its') k"
    by (metis option.exhaust)
qed

subsection \<open>Redistribution\<close>

text \<open>Two nested folds over the buckets are one over the items.\<close>

lemma foldl_buckets:
  assumes "n = length xss"
  shows "foldl (\<lambda>s i. foldl f s (xss ! i)) s [0..<n] = foldl f s (concat xss)"
proof -
  have "foldl (\<lambda>s i. foldl f s (xss ! i)) s [0..<n] = foldl (\<lambda>s xs. foldl f s xs) s (map ((!) xss) [0..<n])"
    by (simp add: foldl_map)
  also have "map ((!) xss) [0..<n] = xss" by (simp add: assms map_nth)
  also have "foldl (\<lambda>s xs. foldl f s xs) s xss = foldl f s (concat xss)"
    by (induction xss arbitrary: s) auto
  finally show ?thesis .
qed

lemma mset_concat_update:
  assumes "i < length xss"
  shows "mset (concat (xss[i := xs])) + mset (xss ! i) = mset (concat xss) + mset xs"
proof -
  have "concat xss = concat (take i xss) @ xss ! i @ concat (drop (Suc i) xss)"
    by (subst id_take_nth_drop [OF assms]) simp
  moreover have "concat (xss[i := xs]) = concat (take i xss) @ xs @ concat (drop (Suc i) xss)"
    using assms by (simp add: upd_conv_take_nth_drop)
  ultimately show ?thesis by simp
qed

definition put_front :: "nat \<Rightarrow> 'd lhash_item list list \<Rightarrow> 'd lhash_item \<Rightarrow> 'd lhash_item list list" where
  "put_front n new cur =
     (let new_bucket = unat (item_hash cur) mod n in new[new_bucket := cur # new ! new_bucket])"

lemma put_front_length [simp]: "length (foldl (put_front n) new its) = length new"
  by (induction its arbitrary: new) (auto simp: put_front_def Let_def)

lemma put_front_mset:
  assumes "0 < n" "length new = n"
  shows "mset (concat (foldl (put_front n) new its)) = mset (concat new) + mset its"
  using assms(2)
proof (induction its arbitrary: new)
  case Nil
  then show ?case by simp
next
  case (Cons it its)
  let ?b = "unat (item_hash it) mod n"
  have b: "?b < length new" using assms(1) Cons.prems by simp
  have "mset (concat (new[?b := it # new ! ?b])) = mset (concat new) + {#it#}"
    using mset_concat_update [OF b, of "it # new ! ?b"] by simp
  with Cons show ?case by (simp add: put_front_def Let_def)
qed

lemma bucket_ok_Cons:
  "bucket_ok hashf n i (it # chain) \<longleftrightarrow>
    item_hash it = hashf (item_data it) \<and> unat (item_hash it) mod n = i \<and> bucket_ok hashf n i chain"
  by (simp add: bucket_ok_def)

lemma put_front_bucket:
  assumes "0 < n" "length new = n" "\<forall>it \<in> set its. item_hash it = hashf (item_data it)"
    and "\<forall>i < n. bucket_ok hashf n i (new ! i)"
  shows "\<forall>i < n. bucket_ok hashf n i (foldl (put_front n) new its ! i)"
  using assms(2-)
proof (induction its arbitrary: new)
  case Nil
  then show ?case by simp
next
  case (Cons it its)
  have "\<forall>i < n. bucket_ok hashf n i (put_front n new it ! i)"
    using Cons.prems assms(1) by (auto simp: put_front_def Let_def bucket_ok_Cons nth_list_update)
  moreover have "length (put_front n new it) = n"
    using Cons.prems by (simp add: put_front_def Let_def)
  ultimately show ?case using Cons.IH [of "put_front n new it"] Cons.prems by simp
qed

lemma mset_concat_replicate_Nil [simp]: "concat (replicate n []) = []"
  by (induction n) auto

lemma lh_rebucket_folds:
  assumes "length (buckets lh) = num_buckets lh"
  shows "lh_rebucket al lh new =
    (if 8 * new mod size_mod div 8 \<noteq> new then lh
     else case OPENSSL_malloc al (8 * new mod size_mod) of
            None \<Rightarrow> lh
          | Some _ \<Rightarrow> lh\<lparr>num_buckets := new,
              buckets := foldl (put_front new) (replicate new []) (lh_items lh)\<rparr>)"
proof -
  have front: "put_front new = (\<lambda>bs cur. bs[unat (item_hash cur) mod new :=
      cur # bs ! (unat (item_hash cur) mod new)])"
    by (intro ext) (simp add: put_front_def Let_def)
  have items: "foldl (put_front new) (replicate new []) (lh_items lh)
      = foldl (\<lambda>bs i. foldl (put_front new) bs (buckets lh ! i)) (replicate new []) [0..<num_buckets lh]"
    unfolding lh_items_def using assms by (simp add: foldl_buckets)
  show ?thesis
    unfolding items unfolding front lh_rebucket_def Let_def by (rule refl)
qed

lemma lh_chain_subset:
  assumes "lh_wf hashf key lh" "i < num_buckets lh"
  shows "set (buckets lh ! i) \<subseteq> set (lh_items lh)"
proof -
  have "buckets lh ! i \<in> set (buckets lh)" using assms by (simp add: lh_wf_def)
  then show ?thesis by (auto simp: lh_items_def)
qed

lemma lh_wf_item_bucket:
  assumes "lh_wf hashf key lh" "it \<in> set (lh_items lh)"
  shows "item_hash it = hashf (item_data it)"
    and "it \<in> set (buckets lh ! (unat (item_hash it) mod num_buckets lh))"
proof -
  obtain i where i: "i < num_buckets lh" "it \<in> set (buckets lh ! i)"
    using assms by (auto simp: lh_wf_def lh_items_def in_set_conv_nth [of _ "buckets lh"])
  with assms(1) have "item_hash it = hashf (item_data it) \<and> unat (item_hash it) mod num_buckets lh = i"
    unfolding lh_wf_def bucket_ok_def by blast
  with i show "item_hash it = hashf (item_data it)"
    "it \<in> set (buckets lh ! (unat (item_hash it) mod num_buckets lh))" by metis+
qed

lemmas lh_wf_item_hash = lh_wf_item_bucket(1)

text \<open>After \<open>lh_rebucket\<close> the table has the same items, in chains of the new length, unless it could not
  allocate.\<close>

lemma lh_rebucket_cases:
  assumes wf: "lh_wf hashf key lh" and new: "kMinNumBuckets \<le> new"
  obtains "lh_rebucket al lh new = lh"
  | bs where "lh_rebucket al lh new = lh\<lparr>num_buckets := new, buckets := bs\<rparr>" "length bs = new"
      "mset (concat bs) = mset (lh_items lh)" "\<forall>i < new. bucket_ok hashf new i (bs ! i)"
      "OPENSSL_malloc al (8 * new) \<noteq> None" "new < size_mod"
proof (cases "lh_rebucket al lh new = lh")
  case True
  then show ?thesis using that(1) by blast
next
  case False
  define bs where "bs = foldl (put_front new) (replicate new []) (lh_items lh)"
  have pos: "0 < new" using new by (simp add: kMinNumBuckets_def)
  have eq: "lh_rebucket al lh new = lh\<lparr>num_buckets := new, buckets := bs\<rparr> \<and>
      OPENSSL_malloc al (8 * new) \<noteq> None \<and> new < size_mod"
  proof -
    have len: "length (buckets lh) = num_buckets lh" using wf by (simp add: lh_wf_def)
    have div: "8 * new mod size_mod div 8 = new"
      using False by (simp add: lh_rebucket_folds [OF len] split: if_splits)
    then have "8 * new \<le> 8 * new mod size_mod"
      using times_div_less_eq_dividend [of 8 "8 * new mod size_mod"] by argo
    then have ge: "8 * new mod size_mod = 8 * new"
      by (metis mod_less_eq_dividend order_antisym)
    then have "8 * new mod size_mod = 8 * new \<and> \<not> 8 * new mod size_mod div 8 \<noteq> new"
      using div by blast
    then have "lh_rebucket al lh new = (case OPENSSL_malloc al (8 * new) of
        None \<Rightarrow> lh | Some _ \<Rightarrow> lh\<lparr>num_buckets := new, buckets := bs\<rparr>)"
      unfolding lh_rebucket_folds [OF len] bs_def by argo
    moreover have "8 * new < size_mod" using ge by (metis mod_less_divisor zero_less_numeral)
    ultimately show ?thesis using False by (cases "OPENSSL_malloc al (8 * new)") simp_all
  qed
  have hashes: "\<forall>it \<in> set (lh_items lh). item_hash it = hashf (item_data it)"
    using lh_wf_item_hash [OF wf] by blast
  show ?thesis
  proof (rule that(2))
    show "lh_rebucket al lh new = lh\<lparr>num_buckets := new, buckets := bs\<rparr>"
      "OPENSSL_malloc al (8 * new) \<noteq> None" "new < size_mod" using eq by simp_all
    show "length bs = new" by (simp add: bs_def)
    show "mset (concat bs) = mset (lh_items lh)"
      using pos by (simp add: bs_def put_front_mset)
    show "\<forall>i < new. bucket_ok hashf new i (bs ! i)"
      unfolding bs_def by (rule put_front_bucket) (use pos hashes in \<open>auto simp: bucket_ok_def\<close>)
  qed
qed

text \<open>A table with the same items in other chains: neither the invariant nor the map sees the
  difference.\<close>

definition lh_resized :: "('h, 'c, 'd) lhash \<Rightarrow> ('h, 'c, 'd) lhash \<Rightarrow> bool" where
  "lh_resized lh lh' \<longleftrightarrow>
     mset (lh_items lh') = mset (lh_items lh) \<and> num_items lh' = num_items lh \<and>
     callback_depth lh' = callback_depth lh \<and> lh_comp lh' = lh_comp lh \<and> lh_hash lh' = lh_hash lh"

lemma lh_resized_refl [simp]: "lh_resized lh lh"
  by (simp add: lh_resized_def)

lemma mset_eq_distinct_map:
  "mset xs = mset ys \<Longrightarrow> distinct (map f xs) \<longleftrightarrow> distinct (map f ys)"
  by (metis mset_eq_imp_distinct_iff mset_map)

lemma lh_resized_map:
  assumes "lh_resized lh lh'" "distinct (map (\<lambda>it. key (item_data it)) (lh_items lh))"
  shows "lh_map key lh' = lh_map key lh" "set (lh_items lh') = set (lh_items lh)"
proof -
  show set: "set (lh_items lh') = set (lh_items lh)"
    using assms(1) unfolding lh_resized_def by (metis set_mset_mset)
  show "lh_map key lh' = lh_map key lh"
    unfolding lh_map_def
    by (rule map_of_items_cong)
      (use assms set mset_eq_distinct_map [of "lh_items lh'" "lh_items lh" "\<lambda>it. key (item_data it)"] in
        \<open>simp_all add: lh_resized_def\<close>)
qed

lemma lh_rebucket_keeps:
  assumes wf: "lh_wf hashf key lh" and new: "kMinNumBuckets \<le> new"
  shows "lh_wf hashf key (lh_rebucket al lh new) \<and> lh_resized lh (lh_rebucket al lh new)"
  using wf new
proof (cases rule: lh_rebucket_cases [where al = al])
  case 1
  with wf show ?thesis by simp
next
  case (2 bs)
  let ?lh = "lh\<lparr>num_buckets := new, buckets := bs\<rparr>"
  have items: "mset (lh_items ?lh) = mset (lh_items lh)"
    using 2(3) by (simp add: lh_items_def)
  have "lh_wf hashf key ?lh"
    using wf new 2 mset_eq_length [OF items] mset_eq_distinct_map [OF items, of "\<lambda>it. key (item_data it)"]
    by (simp add: lh_wf_def)
  moreover have "lh_resized lh ?lh" using items by (simp add: lh_resized_def)
  ultimately show ?thesis using 2(1) by simp
qed

lemma lh_maybe_resize_cases:
  assumes "num_buckets lh < size_mod"
  obtains "lh_maybe_resize al lh = lh"
  | new where "lh_maybe_resize al lh = lh_rebucket al lh new" "callback_depth lh = 0"
      "num_buckets lh < new \<or> kMinNumBuckets \<le> new"
      "new = num_buckets lh * 2 \<and> 3 \<le> num_items lh div num_buckets lh
        \<or> kMinNumBuckets < num_buckets lh \<and> num_items lh div num_buckets lh = 0
          \<and> new = max kMinNumBuckets (num_buckets lh div 2)"
proof (cases "callback_depth lh > 0")
  case True
  then show ?thesis using that(1) by (simp add: lh_maybe_resize_def)
next
  case False
  define avg where "avg = num_items lh div num_buckets lh"
  consider "3 \<le> avg" "num_buckets lh < num_buckets lh * 2 mod size_mod"
    | "3 \<le> avg" "\<not> num_buckets lh < num_buckets lh * 2 mod size_mod"
    | "avg = 0" "kMinNumBuckets < num_buckets lh"
    | "avg < 3" "\<not> (avg = 0 \<and> kMinNumBuckets < num_buckets lh)"
    by linarith
  note cases = this
  show ?thesis
    using cases
  proof cases
    case 1
    moreover have "num_buckets lh * 2 mod size_mod = num_buckets lh * 2"
    proof (cases "num_buckets lh * 2 < size_mod")
      case False
      then have "num_buckets lh * 2 mod size_mod = num_buckets lh * 2 - size_mod"
        using assms by (subst mod_if) simp
      with False 1(2) assms show ?thesis by linarith
    qed simp
    ultimately show ?thesis
      using that(2) [of "num_buckets lh * 2"] False
      by (simp add: lh_maybe_resize_def Let_def avg_def [symmetric] kMaxAverageChainLength_def)
  next
    case 2
    then show ?thesis
      using that(1) False
      by (simp add: lh_maybe_resize_def Let_def avg_def [symmetric] kMaxAverageChainLength_def)
  next
    case 3
    then show ?thesis
      using that(2) [of "max kMinNumBuckets (num_buckets lh div 2)"] False
      by (simp add: lh_maybe_resize_def Let_def avg_def [symmetric] kMaxAverageChainLength_def
          kMinAverageChainLength_def max_def)
  next
    case 4
    then show ?thesis
      using that(1) False
      by (auto simp: lh_maybe_resize_def Let_def avg_def [symmetric] kMaxAverageChainLength_def
          kMinAverageChainLength_def)
  qed
qed

lemma lh_maybe_resize_keeps:
  assumes "lh_wf hashf key lh"
  shows "lh_wf hashf key (lh_maybe_resize al lh) \<and> lh_resized lh (lh_maybe_resize al lh)"
  using lh_wf_nb2 [OF assms]
proof (cases rule: lh_maybe_resize_cases [where lh = lh and al = al])
  case 1
  with assms show ?thesis by simp
next
  case (2 new)
  moreover have "kMinNumBuckets \<le> num_buckets lh" using assms by (simp add: lh_wf_def)
  ultimately show ?thesis using lh_rebucket_keeps [OF assms, of new al] by auto
qed

text \<open>A table with another chain in one bucket.\<close>

lemma lh_wf_update:
  assumes "lh_wf hashf key lh" "i < num_buckets lh" "bucket_ok hashf (num_buckets lh) i chain"
    and "mset (buckets lh ! i) + mset its = mset chain + mset gone"
    and "distinct (map (\<lambda>it. key (item_data it)) its')" "mset its' + mset gone = mset (lh_items lh) + mset its"
    and "n = length its'" "n < size_mod"
  shows "lh_wf hashf key (lh\<lparr>buckets := (buckets lh)[i := chain], num_items := n\<rparr>) \<and>
    mset (lh_items (lh\<lparr>buckets := (buckets lh)[i := chain], num_items := n\<rparr>)) = mset its'"
proof -
  let ?lh = "lh\<lparr>buckets := (buckets lh)[i := chain], num_items := n\<rparr>"
  have i: "i < length (buckets lh)" using assms(1,2) by (simp add: lh_wf_def)
  have "mset (lh_items ?lh) + mset (buckets lh ! i) = mset (lh_items lh) + mset chain"
    using mset_concat_update [OF i, of chain] by (simp add: lh_items_def)
  then have "mset (lh_items ?lh) + (mset (buckets lh ! i) + mset its) + mset gone
      = mset (lh_items lh) + mset its + (mset chain + mset gone)"
    by (simp only: union_ac)
  also have "\<dots> = mset its' + mset gone + (mset (buckets lh ! i) + mset its)"
    by (simp only: assms(4,6))
  finally have items: "mset (lh_items ?lh) = mset its'" by (simp add: union_ac)
  have "lh_wf hashf key ?lh"
    using assms(1,2,3,5,7,8) i mset_eq_length [OF items]
      mset_eq_distinct_map [OF items, of "\<lambda>it. key (item_data it)"]
    by (auto simp: lh_wf_def nth_list_update)
  with items show ?thesis by simp
qed

lemma lh_map_items:
  assumes "lh_wf hashf key lh" "mset (lh_items lh) = mset its"
  shows "lh_map key lh = map_of (map (\<lambda>it. (key (item_data it), item_data it)) its)"
  unfolding lh_map_def
proof (rule map_of_items_cong)
  show dist: "distinct (map (\<lambda>it. key (item_data it)) (lh_items lh))"
    using assms(1) by (simp add: lh_wf_def)
  show "distinct (map (\<lambda>it. key (item_data it)) its)"
    using dist mset_eq_distinct_map [OF assms(2)] by blast
  show "set (lh_items lh) = set its" using assms(2) by (rule mset_eq_setD)
qed

lemma lh_map_Some_iff:
  assumes "lh_wf hashf key lh"
  shows "lh_map key lh k = Some d \<longleftrightarrow> key d = k \<and> d \<in> item_data ` set (lh_items lh)"
  using assms by (auto simp: lh_map_def map_of_items_iff lh_wf_def)

lemma lh_map_key: "lh_wf hashf key lh \<Longrightarrow> lh_map key lh k = Some d \<Longrightarrow> key d = k"
  by (simp add: lh_map_Some_iff)

lemma lh_maybe_resize_map:
  assumes "lh_wf hashf key lh"
  shows "lh_wf hashf key (lh_maybe_resize al lh)" "lh_resized lh (lh_maybe_resize al lh)"
    "lh_map key (lh_maybe_resize al lh) = lh_map key lh"
proof -
  note lh_maybe_resize_keeps [OF assms, of al]
  then show "lh_wf hashf key (lh_maybe_resize al lh)" "lh_resized lh (lh_maybe_resize al lh)"
    by simp_all
  moreover have "distinct (map (\<lambda>it. key (item_data it)) (lh_items lh))"
    using assms by (simp add: lh_wf_def)
  ultimately show "lh_map key (lh_maybe_resize al lh) = lh_map key lh"
    by (simp add: lh_resized_map)
qed

subsection \<open>The contract of the client\<close>

text \<open>The client has a key in mind that both functions respect.\<close>

locale hash_key =
  fixes hashf :: "'d \<Rightarrow> u32" and cmpf :: "'d \<Rightarrow> 'd \<Rightarrow> int" and key :: "'d \<Rightarrow> 'k"
  assumes cmpf_key: "cmpf x y = 0 \<longleftrightarrow> key x = key y"
    and hashf_key: "key x = key y \<Longrightarrow> hashf x = hashf y"
begin

lemma search_found_iff:
  assumes "lh_wf hashf key lh" and chain_def: "chain = buckets lh ! (unat (hashf d) mod num_buckets lh)"
  shows "chain_search (\<lambda>cur. cmpf cur d = 0) chain < length chain \<longleftrightarrow> lh_map key lh (key d) \<noteq> None"
    and "chain_search (\<lambda>cur. cmpf cur d = 0) chain < length chain \<Longrightarrow>
      lh_map key lh (key d) = Some (item_data (chain ! chain_search (\<lambda>cur. cmpf cur d = 0) chain))"
proof -
  let ?j = "chain_search (\<lambda>cur. cmpf cur d = 0) chain"
  have sub: "set chain \<subseteq> set (lh_items lh)"
    unfolding chain_def by (rule lh_chain_subset [OF assms(1)]) (simp add: lh_wf_nb [OF assms(1)])
  show found: "lh_map key lh (key d) = Some (item_data (chain ! ?j))" if "?j < length chain"
    using chain_search_nth [OF that] sub nth_mem [OF that]
    by (auto simp: lh_map_Some_iff [OF assms(1)] cmpf_key)
  show "?j < length chain \<longleftrightarrow> lh_map key lh (key d) \<noteq> None"
  proof
    assume "?j < length chain"
    then show "lh_map key lh (key d) \<noteq> None" using found by simp
  next
    assume "lh_map key lh (key d) \<noteq> None"
    then obtain y where "lh_map key lh (key d) = Some y" by blast
    then have "key y = key d \<and> y \<in> item_data ` set (lh_items lh)"
      by (simp only: lh_map_Some_iff [OF assms(1)])
    then obtain it where it: "it \<in> set (lh_items lh)" "key (item_data it) = key d" by blast
    then have "hashf (item_data it) = hashf d" by (intro hashf_key)
    then have "it \<in> set chain"
      using lh_wf_item_bucket [OF assms(1) it(1)] by (simp add: chain_def)
    with it(2) show "?j < length chain" by (auto simp: chain_search_less_iff cmpf_key)
  qed
qed

text \<open>Retrieval reads the map.\<close>

lemma retrieve_map:
  assumes "lh_wf hashf key lh" "call_hash (lh_hash lh) = hashf" "call_cmp (lh_comp lh) = cmpf"
  shows "OPENSSL_lh_retrieve lh d call_hash call_cmp = lh_map key lh (key d)"
  using search_found_iff [OF assms(1) refl, of d] assms(2,3)
  by (cases "lh_map key lh (key d)")
    (auto simp: OPENSSL_lh_retrieve_def get_next_ptr_and_hash_def next_item_def Let_def)

text \<open>So does retrieval by a key, when the comparison with the key agrees.\<close>

lemma retrieve_key_map:
  assumes "lh_wf hashf key lh" "\<And>x. cmp_key k x = 0 \<longleftrightarrow> cmpf x d = 0" "key_hash = hashf d"
  shows "OPENSSL_lh_retrieve_key lh k key_hash cmp_key = lh_map key lh (key d)"
  using search_found_iff [OF assms(1) refl, of d] assms(2,3)
  by (cases "lh_map key lh (key d)")
    (auto simp: OPENSSL_lh_retrieve_key_def get_next_ptr_by_key_def next_item_def Let_def)

text \<open>Insertion updates the map and returns the entry it replaces; it fails only for lack of memory.\<close>

lemma insert_map:
  assumes wf: "lh_wf hashf key lh" and calls: "call_hash (lh_hash lh) = hashf" "call_cmp (lh_comp lh) = cmpf"
    and room: "num_items lh + 1 < size_mod"
    and ins: "OPENSSL_lh_insert al lh d call_hash call_cmp = (ok, old, lh')"
  shows "lh_wf hashf key lh'"
    and "lh_map key lh' = (if ok then (lh_map key lh)(key d \<mapsto> d) else lh_map key lh)"
    and "old = lh_map key lh (key d)"
    and "\<not> ok \<Longrightarrow> lh' = lh \<and> old = None \<and> OPENSSL_malloc al 24 = None"
    and "lh_comp lh' = lh_comp lh" "lh_hash lh' = lh_hash lh" "callback_depth lh' = callback_depth lh"
proof -
  define i where "i = unat (hashf d) mod num_buckets lh"
  define j where "j = chain_search (\<lambda>cur. cmpf cur d = 0) (buckets lh ! i)"
  have ptr: "get_next_ptr_and_hash lh d call_hash call_cmp = ((i, j), hashf d)"
    by (simp add: get_next_ptr_and_hash_def Let_def i_def j_def calls)
  have dist: "distinct (map (\<lambda>it. key (item_data it)) (lh_items lh))"
    using wf by (simp add: lh_wf_def)
  have i: "i < num_buckets lh" using lh_wf_nb [OF wf] by (simp add: i_def)
  have bucket: "bucket_ok hashf (num_buckets lh) i (buckets lh ! i)"
    using wf i by (simp add: lh_wf_def)
  note found = search_found_iff [OF wf refl, of d, folded i_def, folded j_def]
  have "lh_wf hashf key lh' \<and> lh_map key lh' = (if ok then (lh_map key lh)(key d \<mapsto> d) else lh_map key lh) \<and>
      old = lh_map key lh (key d) \<and> (\<not> ok \<longrightarrow> lh' = lh \<and> old = None \<and> OPENSSL_malloc al 24 = None) \<and>
      lh_comp lh' = lh_comp lh \<and> lh_hash lh' = lh_hash lh \<and> callback_depth lh' = callback_depth lh"
  proof (cases "lh_map key lh (key d)")
    case None
    then have next_item: "next_item lh (i, j) = None" using found(1) by (simp add: next_item_def)
    show ?thesis
    proof (cases "OPENSSL_malloc al 24")
      case None
      then show ?thesis using ins next_item \<open>lh_map key lh (key d) = None\<close> wf
        by (simp add: OPENSSL_lh_insert_def ptr)
    next
      case (Some blk)
      define item where "item = \<lparr>item_data = d, item_hash = hashf d\<rparr>"
      define lh1 where "lh1 = lh\<lparr>buckets := (buckets lh)[i := buckets lh ! i @ [item]],
        num_items := length (item # lh_items lh)\<rparr>"
      have num: "num_items lh = length (lh_items lh)" using wf by (simp add: lh_wf_def)
      then have res: "ok = True" "old = None" "lh' = lh_maybe_resize al lh1"
        using ins Some room by (simp_all add: OPENSSL_lh_insert_def ptr next_item Let_def item_def lh1_def)
      have new: "key d \<notin> (\<lambda>it. key (item_data it)) ` set (lh_items lh)"
        using None by (auto simp: lh_map_def map_of_eq_None_iff image_image comp_def)
      have bucket': "bucket_ok hashf (num_buckets lh) i (buckets lh ! i @ [item])"
        using bucket by (auto simp: bucket_ok_def item_def i_def)
      have "lh_wf hashf key lh1 \<and> mset (lh_items lh1) = mset (item # lh_items lh)"
        unfolding lh1_def
        by (rule lh_wf_update [OF wf i bucket', where its = "[item]" and gone = "[]"])
          (use dist new room num in \<open>simp_all add: item_def\<close>)
      then have upd: "lh_wf hashf key lh1" "mset (lh_items lh1) = mset (item # lh_items lh)"
        by simp_all
      have "lh_map key lh1 = (lh_map key lh)(key d \<mapsto> d)"
        using lh_map_items [OF upd] by (simp add: lh_map_def item_def)
      with res None lh_maybe_resize_map [OF upd(1), of al] show ?thesis
        by (simp add: lh_resized_def lh1_def)
    qed
  next
    case (Some x)
    then have j: "j < length (buckets lh ! i)" using found(1) by simp
    define item where "item = buckets lh ! i ! j"
    have x: "x = item_data item" using found(2) j Some by (simp add: item_def)
    define its where "its = remove1 item (lh_items lh)"
    have "item \<in> set (lh_items lh)"
      using j lh_chain_subset [OF wf i] nth_mem [OF j] by (auto simp: item_def)
    then have items: "mset (lh_items lh) = mset (item # its)" by (simp add: its_def)
    have dist': "distinct (map (\<lambda>it. key (item_data it)) (item # its))"
      using dist mset_eq_distinct_map [OF items] by blast
    define item' where "item' = item\<lparr>item_data := d\<rparr>"
    define lh1 where "lh1 = lh\<lparr>buckets := (buckets lh)[i := (buckets lh ! i)[j := item']],
      num_items := length (item' # its)\<rparr>"
    have num: "num_items lh = length (item' # its)"
      using wf mset_eq_length [OF items] by (simp add: lh_wf_def)
    then have lh1: "lh1 = lh\<lparr>buckets := (buckets lh)[i := (buckets lh ! i)[j := item']]\<rparr>"
      by (cases lh) (simp add: lh1_def)
    have kx: "key x = key d"
      using Some lh_map_key [OF wf] by blast
    have res: "ok = True" "old = Some x" "lh' = lh1"
      using ins j by (simp_all add: OPENSSL_lh_insert_def ptr next_item_def lh1 item'_def x item_def)
    have "item \<in> set (buckets lh ! i)" using j by (simp add: item_def)
    then have "item_hash item = hashf x" "unat (item_hash item) mod num_buckets lh = i"
      using bucket by (auto simp: bucket_ok_def x)
    then have item': "item_hash item' = hashf d" "unat (item_hash item') mod num_buckets lh = i"
      using hashf_key [OF kx] by (simp_all add: item'_def)
    have bucket': "bucket_ok hashf (num_buckets lh) i ((buckets lh ! i)[j := item'])"
      using bucket item' set_update_subset_insert [of "buckets lh ! i" j item']
      unfolding bucket_ok_def by (auto simp: item'_def)
    have "mset ((buckets lh ! i)[j := item']) + {#item#} = mset (buckets lh ! i) + {#item'#}"
      using j by (simp add: mset_update item_def)
    then have "lh_wf hashf key lh1 \<and> mset (lh_items lh1) = mset (item' # its)"
      unfolding lh1_def
      by (intro lh_wf_update [OF wf i bucket', where its = "[item']" and gone = "[item]"])
        (use dist' items num room kx in \<open>simp_all add: item'_def x\<close>)
    then have upd: "lh_wf hashf key lh1" "mset (lh_items lh1) = mset (item' # its)"
      by simp_all
    have "lh_map key lh1 = (lh_map key lh)(key d \<mapsto> d)"
      using lh_map_items [OF upd] lh_map_items [OF wf items] kx by (simp add: x item'_def)
    moreover have "lh_comp lh1 = lh_comp lh \<and> lh_hash lh1 = lh_hash lh \<and> callback_depth lh1 = callback_depth lh"
      by (simp add: lh1_def)
    ultimately show ?thesis using upd(1) res Some by simp
  qed
  then show "lh_wf hashf key lh'"
    "lh_map key lh' = (if ok then (lh_map key lh)(key d \<mapsto> d) else lh_map key lh)"
    "old = lh_map key lh (key d)"
    "\<not> ok \<Longrightarrow> lh' = lh \<and> old = None \<and> OPENSSL_malloc al 24 = None"
    "lh_comp lh' = lh_comp lh" "lh_hash lh' = lh_hash lh" "callback_depth lh' = callback_depth lh"
    by blast+
qed

text \<open>Deletion removes the entry and returns it.\<close>

lemma delete_map:
  assumes wf: "lh_wf hashf key lh" and calls: "call_hash (lh_hash lh) = hashf" "call_cmp (lh_comp lh) = cmpf"
    and del: "OPENSSL_lh_delete al lh d call_hash call_cmp = (old, lh')"
  shows "lh_wf hashf key lh'"
    and "lh_map key lh' = (lh_map key lh)(key d := None)"
    and "old = lh_map key lh (key d)"
    and "lh_comp lh' = lh_comp lh" "lh_hash lh' = lh_hash lh" "callback_depth lh' = callback_depth lh"
proof -
  define i where "i = unat (hashf d) mod num_buckets lh"
  define j where "j = chain_search (\<lambda>cur. cmpf cur d = 0) (buckets lh ! i)"
  have ptr: "get_next_ptr_and_hash lh d call_hash call_cmp = ((i, j), hashf d)"
    by (simp add: get_next_ptr_and_hash_def Let_def i_def j_def calls)
  have dist: "distinct (map (\<lambda>it. key (item_data it)) (lh_items lh))"
    using wf by (simp add: lh_wf_def)
  have i: "i < num_buckets lh" using lh_wf_nb [OF wf] by (simp add: i_def)
  have bucket: "bucket_ok hashf (num_buckets lh) i (buckets lh ! i)"
    using wf i by (simp add: lh_wf_def)
  note found = search_found_iff [OF wf refl, of d, folded i_def, folded j_def]
  have "lh_wf hashf key lh' \<and> lh_map key lh' = (lh_map key lh)(key d := None) \<and>
      old = lh_map key lh (key d) \<and>
      lh_comp lh' = lh_comp lh \<and> lh_hash lh' = lh_hash lh \<and> callback_depth lh' = callback_depth lh"
  proof (cases "lh_map key lh (key d)")
    case None
    then have "next_item lh (i, j) = None" using found(1) by (simp add: next_item_def)
    then have "old = None" "lh' = lh" using del by (simp_all add: OPENSSL_lh_delete_def ptr)
    moreover have "(lh_map key lh)(key d := None) = lh_map key lh" using None by (rule fun_upd_idem)
    ultimately show ?thesis using None wf by simp
  next
    case (Some x)
    then have j: "j < length (buckets lh ! i)" using found(1) by simp
    define item where "item = buckets lh ! i ! j"
    have x: "x = item_data item" using found(2) j Some by (simp add: item_def)
    define its where "its = remove1 item (lh_items lh)"
    have "item \<in> set (lh_items lh)"
      using j lh_chain_subset [OF wf i] nth_mem [OF j] by (auto simp: item_def)
    then have items: "mset (lh_items lh) = mset (item # its)" by (simp add: its_def)
    have dist': "distinct (map (\<lambda>it. key (item_data it)) (item # its))"
      using dist mset_eq_distinct_map [OF items] by blast
    define chain where "chain = take j (buckets lh ! i) @ drop (Suc j) (buckets lh ! i)"
    define lh1 where "lh1 = lh\<lparr>buckets := (buckets lh)[i := chain], num_items := length its\<rparr>"
    have num: "num_items lh = Suc (length its)" "Suc (length its) < size_mod"
      using wf mset_eq_length [OF items] by (simp_all add: lh_wf_def)
    then have "(num_items lh + size_mod - 1) mod size_mod = length its" by simp
    then have res: "old = Some x" "lh' = lh_maybe_resize al lh1"
      using del j by (simp_all add: OPENSSL_lh_delete_def ptr next_item_def lh1_def chain_def x item_def Let_def)
    have kx: "key x = key d" using Some lh_map_key [OF wf] by blast
    have c: "buckets lh ! i = take j (buckets lh ! i) @ item # drop (Suc j) (buckets lh ! i)"
      unfolding item_def by (rule id_take_nth_drop [OF j])
    have bucket': "bucket_ok hashf (num_buckets lh) i chain"
      using bucket unfolding bucket_ok_def chain_def by (auto dest: in_set_takeD in_set_dropD)
    have "mset (buckets lh ! i) = mset chain + {#item#}"
      by (subst c) (simp add: chain_def)
    then have "lh_wf hashf key lh1 \<and> mset (lh_items lh1) = mset its"
      unfolding lh1_def
      by (intro lh_wf_update [OF wf i bucket', where its = "[]" and gone = "[item]"])
        (use dist' items num in simp_all)
    then have upd: "lh_wf hashf key lh1" "mset (lh_items lh1) = mset its"
      by simp_all
    have none: "map_of (map (\<lambda>it. (key (item_data it), item_data it)) its) (key d) = None"
      using dist' kx by (auto simp: map_of_eq_None_iff x)
    have "lh_map key lh1 = (lh_map key lh)(key d := None)"
      unfolding lh_map_items [OF upd] lh_map_items [OF wf items]
      using kx none by (auto simp: x fun_upd_def)
    moreover have "lh_comp lh1 = lh_comp lh \<and> lh_hash lh1 = lh_hash lh \<and> callback_depth lh1 = callback_depth lh"
      by (simp add: lh1_def)
    ultimately show ?thesis
      using lh_maybe_resize_map [OF upd(1), of al] res Some by (simp add: lh_resized_def)
  qed
  then show "lh_wf hashf key lh'" "lh_map key lh' = (lh_map key lh)(key d := None)"
    "old = lh_map key lh (key d)"
    "lh_comp lh' = lh_comp lh" "lh_hash lh' = lh_hash lh" "callback_depth lh' = callback_depth lh"
    by blast+
qed

lemma delete_absent:
  assumes wf: "lh_wf hashf key lh" and calls: "call_hash (lh_hash lh) = hashf" "call_cmp (lh_comp lh) = cmpf"
    and "lh_map key lh (key d) = None"
  shows "OPENSSL_lh_delete al lh d call_hash call_cmp = (None, lh)"
  using search_found_iff(1) [OF wf refl, of d] assms(4)
  by (simp add: OPENSSL_lh_delete_def get_next_ptr_and_hash_def Let_def calls next_item_def)

end

text \<open>A new table is empty.\<close>

lemma OPENSSL_lh_new_map:
  assumes "OPENSSL_lh_new al hash cmp = Some lh"
  shows "lh_wf hashf key lh" "lh_map key lh = (\<lambda>_. None)" "num_items lh = 0" "callback_depth lh = 0"
    "num_buckets lh = kMinNumBuckets" "lh_hash lh = hash" "lh_comp lh = cmp"
proof -
  have lh: "lh = \<lparr>num_items = 0, buckets = replicate kMinNumBuckets [],
      num_buckets = kMinNumBuckets, callback_depth = 0, lh_comp = cmp, lh_hash = hash\<rparr>"
    using assms by (auto simp: OPENSSL_lh_new_def split: option.splits)
  show "lh_wf hashf key lh"
    by (simp add: lh lh_wf_def lh_items_def bucket_ok_def) (simp add: kMinNumBuckets_def)
  show "lh_map key lh = (\<lambda>_. None)" by (simp add: lh lh_map_def lh_items_def)
qed (use assms in \<open>auto simp: OPENSSL_lh_new_def split: option.splits\<close>)

text \<open>\<open>OPENSSL_lh_free\<close> frees every item once, and \<open>OPENSSL_lh_doall_arg\<close> visits the items in the same order.\<close>

lemma OPENSSL_lh_free_items:
  assumes "length (buckets lh) = num_buckets lh"
  shows "OPENSSL_lh_free (Some lh) = lh_items lh"
proof -
  have "foldl (\<lambda>freed n. freed @ [n]) freed its = freed @ its" for freed its :: "'a lhash_item list"
    by (induction its arbitrary: freed) simp_all
  then have "foldl (\<lambda>freed n. freed @ [n]) [] (concat (buckets lh)) = concat (buckets lh)" by simp
  then show ?thesis
    by (simp only: OPENSSL_lh_free_def foldl_buckets [OF assms [symmetric]] option.case lh_items_def)
qed

lemma OPENSSL_lh_doall_arg_items:
  assumes "lh_wf hashf key lh" "OPENSSL_lh_doall_arg al (Some lh) func arg = (arg', lh')"
  shows "arg' = fold (\<lambda>it. func (item_data it)) (lh_items lh) arg"
    and "\<exists>lh1. lh' = Some lh1 \<and> lh_wf hashf key lh1 \<and> lh_map key lh1 = lh_map key lh"
proof -
  define d where "d = callback_depth lh"
  define d1 where "d1 = (if d < 2 ^ 32 - 1 then d + 1 else d)"
  define d2 where "d2 = (if d1 < 2 ^ 32 - 1 then d1 - 1 else d1)"
  have len: "length (buckets lh) = num_buckets lh" using assms(1) by (simp add: lh_wf_def)
  have eq: "arg' = foldl (\<lambda>s it. func (item_data it) s) arg (lh_items lh)"
    "lh' = Some (lh_maybe_resize al (lh\<lparr>callback_depth := d2\<rparr>))"
    using assms(2) len
    by (auto simp: OPENSSL_lh_doall_arg_def Let_def foldl_buckets lh_items_def d2_def d1_def d_def)
  show "arg' = fold (\<lambda>it. func (item_data it)) (lh_items lh) arg"
    by (simp add: eq foldl_conv_fold)
  have "lh_wf hashf key (lh\<lparr>callback_depth := d2\<rparr>)"
    using assms(1) by (simp add: lh_wf_def lh_items_def)
  moreover have "lh_map key (lh\<lparr>callback_depth := d2\<rparr>) = lh_map key lh"
    by (simp add: lh_map_def lh_items_def)
  ultimately show "\<exists>lh1. lh' = Some lh1 \<and> lh_wf hashf key lh1 \<and> lh_map key lh1 = lh_map key lh"
    using eq(2) lh_maybe_resize_map(1,3) by metis
qed

lemma lh_wf_card:
  assumes "lh_wf hashf key lh"
  shows "card (dom (lh_map key lh)) = num_items lh"
proof -
  have "dom (lh_map key lh) = set (map (\<lambda>it. key (item_data it)) (lh_items lh))"
    by (simp add: lh_map_def dom_map_of_conv_image_fst image_image)
  with assms show ?thesis by (simp add: distinct_card lh_wf_def del: set_map)
qed

subsection \<open>The length of the chains\<close>

text \<open>The bounds that resizing keeps while no iteration is under way.\<close>

definition lh_balanced :: "('h, 'c, 'd) lhash \<Rightarrow> bool" where
  "lh_balanced lh \<longleftrightarrow>
     num_items lh < 3 * num_buckets lh \<and>
     (\<exists>k. num_buckets lh = kMinNumBuckets * 2 ^ k \<and> (k = 0 \<or> num_buckets lh \<le> num_items lh))"

text \<open>One more or one less item unbalances a table by one; \<open>lh_maybe_resize\<close> restores the bounds when it
  is granted the memory.\<close>

lemma lh_maybe_resize_balanced:
  assumes len: "length (buckets lh) = num_buckets lh" and nb: "0 < num_buckets lh"
    and depth: "callback_depth lh = 0" and items: "num_items lh \<le> 3 * num_buckets lh"
    and k: "num_buckets lh = kMinNumBuckets * 2 ^ k" "k = 0 \<or> num_buckets lh \<le> num_items lh + 1"
    and grants: "\<And>n. n \<le> 16 * num_buckets lh \<Longrightarrow> OPENSSL_malloc al n \<noteq> None"
      "16 * num_buckets lh < size_mod"
  shows "lh_balanced (lh_maybe_resize al lh)"
proof -
  have resize: "num_buckets (lh_rebucket al lh new) = new \<and> num_items (lh_rebucket al lh new) = num_items lh"
    if "new \<le> 2 * num_buckets lh" for new
  proof -
    have "8 * new mod size_mod = 8 * new" using that grants(2) by simp
    moreover have "OPENSSL_malloc al (8 * new) \<noteq> None" using that grants(1) by simp
    ultimately show ?thesis by (auto simp: lh_rebucket_folds [OF len])
  qed
  define avg where "avg = num_items lh div num_buckets lh"
  have avg3: "3 \<le> avg \<longleftrightarrow> 3 * num_buckets lh \<le> num_items lh"
    using nb by (simp add: avg_def less_eq_div_iff_mult_less_eq)
  have avg0: "avg = 0 \<longleftrightarrow> num_items lh < num_buckets lh"
    using nb by (simp add: avg_def div_eq_0_iff)
  note defs = lh_maybe_resize_def Let_def avg_def [symmetric] depth
    kMaxAverageChainLength_def kMinAverageChainLength_def
  consider "3 \<le> avg" | "avg = 0" "kMinNumBuckets < num_buckets lh"
    | "avg < 3" "\<not> (avg = 0 \<and> kMinNumBuckets < num_buckets lh)"
    by linarith
  then show ?thesis
  proof cases
    case 1
    have "num_buckets lh * 2 mod size_mod = num_buckets lh * 2" using grants(2) by simp
    then have "lh_maybe_resize al lh = lh_rebucket al lh (num_buckets lh * 2)"
      using 1 nb by (simp add: defs)
    then have "num_buckets (lh_maybe_resize al lh) = num_buckets lh * 2"
      "num_items (lh_maybe_resize al lh) = num_items lh"
      using resize [of "num_buckets lh * 2"] by simp_all
    moreover have "num_buckets lh * 2 = kMinNumBuckets * 2 ^ Suc k" using k(1) by simp
    moreover have "num_items lh < 3 * (num_buckets lh * 2)" "num_buckets lh * 2 \<le> num_items lh"
      using 1 avg3 items nb by linarith+
    ultimately show ?thesis unfolding lh_balanced_def by metis
  next
    case 2
    then obtain k' where k': "k = Suc k'" using k(1) by (cases k) auto
    then have half: "num_buckets lh div 2 = kMinNumBuckets * 2 ^ k'" "num_buckets lh = 2 * (kMinNumBuckets * 2 ^ k')"
      using k(1) by simp_all
    have "kMinNumBuckets * 1 \<le> kMinNumBuckets * 2 ^ k'" by (rule mult_le_mono2) simp
    then have "\<not> num_buckets lh div 2 < kMinNumBuckets" using half by simp
    then have "lh_maybe_resize al lh = lh_rebucket al lh (num_buckets lh div 2)"
      using 2 by (simp add: defs)
    then have "num_buckets (lh_maybe_resize al lh) = num_buckets lh div 2"
      "num_items (lh_maybe_resize al lh) = num_items lh"
      using resize [of "num_buckets lh div 2"] by simp_all
    moreover have "num_items lh < 3 * (num_buckets lh div 2)" "num_buckets lh div 2 \<le> num_items lh"
      using 2 avg0 k(2) k' half nb by linarith+
    ultimately show ?thesis using half(1) unfolding lh_balanced_def by metis
  next
    case 3
    then have "lh_maybe_resize al lh = lh" by (auto simp: defs)
    moreover have "num_items lh < 3 * num_buckets lh" using 3 avg3 by linarith
    moreover have "kMinNumBuckets < num_buckets lh" if "k \<noteq> 0"
      using k(1) one_less_power [of "2 :: nat" k] that by simp
    then have "k = 0 \<or> num_buckets lh \<le> num_items lh"
      using 3 avg0 by linarith
    ultimately show ?thesis using k(1) by (auto simp: lh_balanced_def)
  qed
qed

lemma OPENSSL_lh_insert_balanced:
  assumes "lh_balanced lh" "length (buckets lh) = num_buckets lh" "callback_depth lh = 0"
    and "\<And>n. n \<le> 16 * num_buckets lh \<Longrightarrow> OPENSSL_malloc al n \<noteq> None" "16 * num_buckets lh < size_mod"
    and "OPENSSL_lh_insert al lh d call_hash call_cmp = (ok, old, lh')"
  shows "lh_balanced lh'"
proof -
  obtain k where k: "num_buckets lh = kMinNumBuckets * 2 ^ k" "k = 0 \<or> num_buckets lh \<le> num_items lh"
    and items: "num_items lh < 3 * num_buckets lh"
    using assms(1) unfolding lh_balanced_def by blast
  have "num_items lh + 1 < size_mod" using items assms(5) by linarith
  then consider "num_buckets lh' = num_buckets lh" "num_items lh' = num_items lh"
    | lh1 where "lh' = lh_maybe_resize al lh1" "num_items lh1 = num_items lh + 1"
      "num_buckets lh1 = num_buckets lh" "length (buckets lh1) = length (buckets lh)" "callback_depth lh1 = 0"
    using assms(3,6) by (auto simp: OPENSSL_lh_insert_def Let_def split: prod.splits option.splits)
  then show ?thesis
  proof cases
    case 1
    then show ?thesis using assms(1) by (simp add: lh_balanced_def)
  next
    case (2 lh1)
    show ?thesis
      unfolding 2(1)
      by (rule lh_maybe_resize_balanced [where k = k]) (use 2 assms k items in auto)
  qed
qed

lemma OPENSSL_lh_delete_balanced:
  assumes "lh_balanced lh" "length (buckets lh) = num_buckets lh" "callback_depth lh = 0" "0 < num_items lh"
    and "\<And>n. n \<le> 16 * num_buckets lh \<Longrightarrow> OPENSSL_malloc al n \<noteq> None" "16 * num_buckets lh < size_mod"
    and "OPENSSL_lh_delete al lh d call_hash call_cmp = (old, lh')"
  shows "lh_balanced lh'"
proof -
  obtain k where k: "num_buckets lh = kMinNumBuckets * 2 ^ k" "k = 0 \<or> num_buckets lh \<le> num_items lh"
    and items: "num_items lh < 3 * num_buckets lh"
    using assms(1) unfolding lh_balanced_def by blast
  have "(num_items lh + size_mod - 1) mod size_mod = num_items lh - 1"
    using items assms(4,6) by (simp add: mod_if)
  then consider "lh' = lh"
    | lh1 where "lh' = lh_maybe_resize al lh1" "num_items lh1 = num_items lh - 1"
      "num_buckets lh1 = num_buckets lh" "length (buckets lh1) = length (buckets lh)" "callback_depth lh1 = 0"
    using assms(3,7) by (auto simp: OPENSSL_lh_delete_def Let_def split: prod.splits option.splits)
  then show ?thesis
  proof cases
    case 1
    then show ?thesis using assms(1) by simp
  next
    case (2 lh1)
    show ?thesis
      unfolding 2(1)
      by (rule lh_maybe_resize_balanced [where k = k]) (use 2 assms k items in auto)
  qed
qed

end
