(* ===== verification/Ossl_Pool.thy ===== *)
theory Ossl_Pool
  imports Ossl_Lhash Cbs
begin

text \<open>
  Reference counts and the pool of immutable buffers of BoringSSL (\<^verbatim>\<open>crypto/refcount_c11.c\<close>,
  \<^verbatim>\<open>crypto/refcount_lock.c\<close>, \<^verbatim>\<open>crypto/pool/pool.c\<close>), through which TLS shares certificates.

  The memory maps addresses to the \<open>CRYPTO_BUFFER\<close>s that are allocated; \<open>data\<close> and \<open>len\<close> are the list of the
  bytes.  There is one pool; \<open>pool\<close> says whether the buffer belongs to it.  An operation that would read a
  member of a buffer that is not allocated, or reach the \<open>abort\<close> of a reference count, is \<open>None\<close> (for the reads of the
  hash table see \<open>buf_bytes\<close>).  The address that
  \<open>malloc\<close> returns is a parameter; the local variable \<open>tmp\<close> is given the same, for it only matters that it is the
  address of no buffer.  Concurrent calls are interleavings of the critical sections; each is one step, because
  the lock excludes writers and the increments of concurrent readers are atomic and commute.
\<close>

section \<open>Reference counts\<close>

definition CRYPTO_REFCOUNT_MAX :: u32 where "CRYPTO_REFCOUNT_MAX = 0xffffffff"

definition CRYPTO_refcount_inc :: "u32 \<Rightarrow> u32" where
  "CRYPTO_refcount_inc n = (if n < CRYPTO_REFCOUNT_MAX then n + 1 else n)"

definition CRYPTO_refcount_dec_and_test_zero :: "u32 \<Rightarrow> (bool \<times> u32) option" where
  "CRYPTO_refcount_dec_and_test_zero n =
     (if n = 0 then None
      else (let n = (if n < CRYPTO_REFCOUNT_MAX then n - 1 else n)
            in Some (n = 0, n)))"

text \<open>
  The lock-free versions.  Other threads change the count between the steps of the loop: the argument
  lists what each \<open>atomic_compare_exchange_weak\<close> finds, and whether it fails spuriously.  \<open>None\<close> is a loop that
  has not ended; the result has the value stored, if one is.
\<close>

fun refcount_inc_c11 :: "u32 \<Rightarrow> (u32 \<times> bool) list \<Rightarrow> u32 option option" where
  "refcount_inc_c11 expected [] = (if expected = CRYPTO_REFCOUNT_MAX then Some None else None)"
| "refcount_inc_c11 expected ((n, fails) # later) =
     (if expected = CRYPTO_REFCOUNT_MAX then Some None
      else (let new_value = expected + 1 in
            if n = expected \<and> \<not> fails then Some (Some new_value) else refcount_inc_c11 n later))"

text \<open>The result of the decrement is \<open>None\<close> for the abort, else the value returned and what is stored.\<close>

fun refcount_dec_c11 :: "u32 \<Rightarrow> (u32 \<times> bool) list \<Rightarrow> (bool \<times> u32 option) option option" where
  "refcount_dec_c11 expected [] =
     (if expected = 0 then Some None
      else if expected = CRYPTO_REFCOUNT_MAX then Some (Some (False, None)) else None)"
| "refcount_dec_c11 expected ((n, fails) # later) =
     (if expected = 0 then Some None
      else if expected = CRYPTO_REFCOUNT_MAX then Some (Some (False, None))
      else (let new_value = expected - 1 in
            if n = expected \<and> \<not> fails then Some (Some (new_value = 0, Some new_value))
            else refcount_dec_c11 n later))"

section \<open>Buffers\<close>

record crypto_buffer =
  buf_pool :: bool
  buf_data :: "byte list"
  buf_references :: u32
  buf_static :: bool

type_synonym buf_mem = "nat \<Rightarrow> crypto_buffer option"

record crypto_pool =
  pool_mem :: buf_mem
  pool_bufs :: "(unit, unit, nat) lhash"

text \<open>The bytes at an address.  The hash and the comparison of the table read them: an address that is not
  allocated has none, so a read of a freed buffer by the table is not \<open>None\<close> like other such reads; instead the
  invariant says that the table holds allocated buffers only (\<open>table_ok\<close>).\<close>

definition buf_bytes :: "buf_mem \<Rightarrow> nat \<Rightarrow> byte list" where
  "buf_bytes m p = (case m p of None \<Rightarrow> [] | Some buf \<Rightarrow> buf_data buf)"

definition CRYPTO_BUFFER_hash :: "buf_mem \<Rightarrow> nat \<Rightarrow> u32" where
  "CRYPTO_BUFFER_hash m buf = OPENSSL_hash32 (buf_bytes m buf)"

definition CRYPTO_BUFFER_cmp :: "buf_mem \<Rightarrow> nat \<Rightarrow> nat \<Rightarrow> int" where
  "CRYPTO_BUFFER_cmp m a b =
     (if length (buf_bytes m a) \<noteq> length (buf_bytes m b) then 1
      else mem_cmp (buf_bytes m a) (buf_bytes m b) (length (buf_bytes m a)))"

definition bufs_retrieve :: "crypto_pool \<Rightarrow> buf_mem \<Rightarrow> nat \<Rightarrow> nat option" where
  "bufs_retrieve s m p =
     OPENSSL_lh_retrieve (pool_bufs s) p (\<lambda>_. CRYPTO_BUFFER_hash m) (\<lambda>_. CRYPTO_BUFFER_cmp m)"

definition CRYPTO_BUFFER_POOL_new :: "allocator \<Rightarrow> buf_mem \<Rightarrow> crypto_pool option" where
  "CRYPTO_BUFFER_POOL_new al m =
     (case OPENSSL_malloc al 208 of
        None \<Rightarrow> None
      | Some _ \<Rightarrow>
          (case OPENSSL_lh_new al () () of
             None \<Rightarrow> None
           | Some bufs \<Rightarrow> Some \<lparr>pool_mem = m, pool_bufs = bufs\<rparr>))"

text \<open>\<open>CRYPTO_BUFFER_POOL_free\<close> in a debug build: whether its assertion holds.\<close>

definition CRYPTO_BUFFER_POOL_free_ok :: "crypto_pool \<Rightarrow> bool" where
  "CRYPTO_BUFFER_POOL_free_ok s \<longleftrightarrow> OPENSSL_lh_num_items (pool_bufs s) = 0"

definition crypto_buffer_free_object :: "nat \<Rightarrow> buf_mem \<Rightarrow> buf_mem" where
  "crypto_buffer_free_object p m = m(p := None)"

definition buf_refcount_inc :: "nat \<Rightarrow> buf_mem \<Rightarrow> buf_mem option" where
  "buf_refcount_inc p m =
     (case m p of
        None \<Rightarrow> None
      | Some buf \<Rightarrow> Some (m(p \<mapsto> buf\<lparr>buf_references := CRYPTO_refcount_inc (buf_references buf)\<rparr>)))"

text \<open>A duplicate is ignored when the new buffer would have static data and the old one has not.\<close>

definition usable_duplicate :: "bool \<Rightarrow> buf_mem \<Rightarrow> nat option \<Rightarrow> nat option" where
  "usable_duplicate data_is_static m duplicate =
     (case duplicate of
        None \<Rightarrow> None
      | Some q \<Rightarrow>
          (case m q of
             None \<Rightarrow> Some q
           | Some buf \<Rightarrow> if data_is_static \<and> \<not> buf_static buf then None else Some q))"

text \<open>The first critical section of \<open>crypto_buffer_new\<close>: look for a duplicate and take a reference to it.\<close>

definition crypto_buffer_lookup :: "nat \<Rightarrow> byte list \<Rightarrow> bool \<Rightarrow> crypto_pool \<Rightarrow> (nat option \<times> crypto_pool) option" where
  "crypto_buffer_lookup p data data_is_static s =
     (let tmp = \<lparr>buf_pool = False, buf_data = data, buf_references = 0, buf_static = False\<rparr>;
          duplicate = bufs_retrieve s ((pool_mem s)(p \<mapsto> tmp)) p;
          duplicate = usable_duplicate data_is_static (pool_mem s) duplicate in
      case duplicate of
        None \<Rightarrow> Some (None, s)
      | Some q \<Rightarrow>
          (case buf_refcount_inc q (pool_mem s) of
             None \<Rightarrow> None
           | Some m \<Rightarrow> Some (Some q, s\<lparr>pool_mem := m\<rparr>)))"

text \<open>Outside the lock: the new buffer.\<close>

definition crypto_buffer_make :: "allocator \<Rightarrow> nat \<Rightarrow> byte list \<Rightarrow> bool \<Rightarrow> bool \<Rightarrow> crypto_pool \<Rightarrow> crypto_pool option" where
  "crypto_buffer_make al p data data_is_static in_pool s =
     (case OPENSSL_malloc al 32 of
        None \<Rightarrow> None
      | Some _ \<Rightarrow>
          (case (if data_is_static then Some data
                 else case OPENSSL_memdup al data of
                        None \<Rightarrow> if length data \<noteq> 0 then None else Some []
                      | Some copy \<Rightarrow> Some copy) of
             None \<Rightarrow> None
           | Some block \<Rightarrow>
               Some (s\<lparr>pool_mem := (pool_mem s)(p \<mapsto>
                 \<lparr>buf_pool = in_pool, buf_data = block, buf_references = 1, buf_static = data_is_static\<rparr>)\<rparr>)))"

text \<open>The second critical section, and the release of the new buffer if it is not inserted.\<close>

definition crypto_buffer_insert :: "allocator \<Rightarrow> nat \<Rightarrow> bool \<Rightarrow> crypto_pool \<Rightarrow> (nat option \<times> crypto_pool) option" where
  "crypto_buffer_insert al p data_is_static s =
     (let m = pool_mem s;
          duplicate = usable_duplicate data_is_static m (bufs_retrieve s m p) in
      case duplicate of
        None \<Rightarrow>
          (case OPENSSL_lh_insert al (pool_bufs s) p (\<lambda>_. CRYPTO_BUFFER_hash m) (\<lambda>_. CRYPTO_BUFFER_cmp m) of
             (inserted, old, bufs) \<Rightarrow>
               (let s = s\<lparr>pool_bufs := bufs\<rparr> in
                if inserted then Some (Some p, s)
                else Some (None, s\<lparr>pool_mem := crypto_buffer_free_object p (pool_mem s)\<rparr>)))
      | Some q \<Rightarrow>
          (case buf_refcount_inc q m of
             None \<Rightarrow> None
           | Some m \<Rightarrow> Some (Some q, s\<lparr>pool_mem := crypto_buffer_free_object p m\<rparr>)))"

definition crypto_buffer_new ::
    "allocator \<Rightarrow> nat \<Rightarrow> byte list \<Rightarrow> bool \<Rightarrow> bool \<Rightarrow> crypto_pool \<Rightarrow> (nat option \<times> crypto_pool) option" where
  "crypto_buffer_new al p data data_is_static in_pool s =
     (if in_pool then
        (case crypto_buffer_lookup p data data_is_static s of
           None \<Rightarrow> None
         | Some (Some q, s) \<Rightarrow> Some (Some q, s)
         | Some (None, s) \<Rightarrow>
             (case crypto_buffer_make al p data data_is_static True s of
                None \<Rightarrow> Some (None, s)
              | Some s \<Rightarrow> crypto_buffer_insert al p data_is_static s))
      else
        (case crypto_buffer_make al p data data_is_static False s of
           None \<Rightarrow> Some (None, s)
         | Some s \<Rightarrow> Some (Some p, s)))"

definition CRYPTO_BUFFER_new ::
    "allocator \<Rightarrow> nat \<Rightarrow> byte list \<Rightarrow> bool \<Rightarrow> crypto_pool \<Rightarrow> (nat option \<times> crypto_pool) option" where
  "CRYPTO_BUFFER_new al p data in_pool s = crypto_buffer_new al p data False in_pool s"

definition CRYPTO_BUFFER_new_from_CBS ::
    "allocator \<Rightarrow> nat \<Rightarrow> CBS \<Rightarrow> bool \<Rightarrow> crypto_pool \<Rightarrow> (nat option \<times> crypto_pool) option" where
  "CRYPTO_BUFFER_new_from_CBS al p cbs in_pool s =
     CRYPTO_BUFFER_new al p (take (CBS_len cbs) (CBS_data cbs)) in_pool s"

definition CRYPTO_BUFFER_new_from_static_data_unsafe ::
    "allocator \<Rightarrow> nat \<Rightarrow> byte list \<Rightarrow> bool \<Rightarrow> crypto_pool \<Rightarrow> (nat option \<times> crypto_pool) option" where
  "CRYPTO_BUFFER_new_from_static_data_unsafe al p data in_pool s = crypto_buffer_new al p data True in_pool s"

text \<open>The contents of the new buffer are what \<open>malloc\<close> left there; the caller fills them.\<close>

definition CRYPTO_BUFFER_alloc :: "allocator \<Rightarrow> nat \<Rightarrow> nat \<Rightarrow> crypto_pool \<Rightarrow> nat option \<times> crypto_pool" where
  "CRYPTO_BUFFER_alloc al p len s =
     (case OPENSSL_malloc al 32 of
        None \<Rightarrow> (None, s)
      | Some _ \<Rightarrow>
          (case (case OPENSSL_malloc al len of
                   None \<Rightarrow> if len \<noteq> 0 then None else Some [] | Some block \<Rightarrow> Some block) of
             None \<Rightarrow> (None, s)
           | Some block \<Rightarrow>
               (Some p, s\<lparr>pool_mem := (pool_mem s)(p \<mapsto>
                 \<lparr>buf_pool = False, buf_data = block, buf_references = 1, buf_static = False\<rparr>)\<rparr>)))"

text \<open>The assertion that the deleted entry is the buffer is part of the model.\<close>

definition CRYPTO_BUFFER_free :: "allocator \<Rightarrow> nat option \<Rightarrow> crypto_pool \<Rightarrow> crypto_pool option" where
  "CRYPTO_BUFFER_free al buf s =
     (case buf of
        None \<Rightarrow> Some s
      | Some p \<Rightarrow>
     (case pool_mem s p of
        None \<Rightarrow> None
      | Some b \<Rightarrow>
     (case CRYPTO_refcount_dec_and_test_zero (buf_references b) of
        None \<Rightarrow> None
      | Some (zero, references) \<Rightarrow>
          (let m = (pool_mem s)(p \<mapsto> b\<lparr>buf_references := references\<rparr>);
               s = s\<lparr>pool_mem := m\<rparr> in
           if \<not> buf_pool b then
             Some (if zero then s\<lparr>pool_mem := crypto_buffer_free_object p m\<rparr> else s)
           else if \<not> zero then Some s
           else
             (let found = bufs_retrieve s m p in
              if found = Some p then
                (case OPENSSL_lh_delete al (pool_bufs s) p (\<lambda>_. CRYPTO_BUFFER_hash m) (\<lambda>_. CRYPTO_BUFFER_cmp m) of
                   (found, bufs) \<Rightarrow>
                     if found = Some p
                     then Some (s\<lparr>pool_bufs := bufs, pool_mem := crypto_buffer_free_object p m\<rparr>)
                     else None)
              else Some (s\<lparr>pool_mem := crypto_buffer_free_object p m\<rparr>))))))"

definition CRYPTO_BUFFER_up_ref :: "nat \<Rightarrow> crypto_pool \<Rightarrow> crypto_pool option" where
  "CRYPTO_BUFFER_up_ref p s = map_option (\<lambda>m. s\<lparr>pool_mem := m\<rparr>) (buf_refcount_inc p (pool_mem s))"

definition CRYPTO_BUFFER_data :: "nat \<Rightarrow> crypto_pool \<Rightarrow> byte list" where
  "CRYPTO_BUFFER_data p s = buf_bytes (pool_mem s) p"

definition CRYPTO_BUFFER_len :: "nat \<Rightarrow> crypto_pool \<Rightarrow> nat" where
  "CRYPTO_BUFFER_len p s = length (buf_bytes (pool_mem s) p)"

definition CRYPTO_BUFFER_init_CBS :: "nat \<Rightarrow> crypto_pool \<Rightarrow> CBS" where
  "CRYPTO_BUFFER_init_CBS p s = CBS_init (CRYPTO_BUFFER_data p s) (CRYPTO_BUFFER_len p s)"

section \<open>The table of the pool\<close>

text \<open>The bytes of a buffer are the key under which the table holds it.\<close>

interpretation buffers: hash_key "CRYPTO_BUFFER_hash m" "CRYPTO_BUFFER_cmp m" "buf_bytes m" for m
proof
  show "CRYPTO_BUFFER_cmp m x y = 0 \<longleftrightarrow> buf_bytes m x = buf_bytes m y" for x y
    by (auto simp: CRYPTO_BUFFER_cmp_def mem_cmp_eq_0_iff)
  show "buf_bytes m x = buf_bytes m y \<Longrightarrow> CRYPTO_BUFFER_hash m x = CRYPTO_BUFFER_hash m y" for x y
    by (simp add: CRYPTO_BUFFER_hash_def)
qed

lemma lh_wf_cong:
  assumes "\<forall>it \<in> set (lh_items lh). hashf (item_data it) = hashf' (item_data it) \<and> key (item_data it) = key' (item_data it)"
  shows "lh_wf hashf key lh \<longleftrightarrow> lh_wf hashf' key' lh" "lh_map key lh = lh_map key' lh"
proof -
  have keys: "map (\<lambda>it. key (item_data it)) (lh_items lh) = map (\<lambda>it. key' (item_data it)) (lh_items lh)"
    "map (\<lambda>it. (key (item_data it), item_data it)) (lh_items lh)
      = map (\<lambda>it. (key' (item_data it), item_data it)) (lh_items lh)"
    using assms by simp_all
  have "bucket_ok hashf n i (buckets lh ! i) \<longleftrightarrow> bucket_ok hashf' n i (buckets lh ! i)"
    if "i < length (buckets lh)" for i n
    using assms nth_mem [OF that] unfolding bucket_ok_def lh_items_def by auto
  then show "lh_wf hashf key lh \<longleftrightarrow> lh_wf hashf' key' lh"
    unfolding lh_wf_def keys by auto
  show "lh_map key lh = lh_map key' lh" by (simp only: lh_map_def keys)
qed

lemma lh_map_cong:
  assumes "\<forall>it \<in> set (lh_items lh). key (item_data it) = key' (item_data it)"
  shows "lh_map key lh = lh_map key' lh"
  by (rule lh_wf_cong(2) [where hashf = "\<lambda>_. 0" and hashf' = "\<lambda>_. 0"]) (use assms in simp)

definition pool_map :: "crypto_pool \<Rightarrow> byte list \<Rightarrow> nat option" where
  "pool_map s = lh_map (buf_bytes (pool_mem s)) (pool_bufs s)"

definition table_data :: "(unit, unit, nat) lhash \<Rightarrow> nat set" where
  "table_data bufs = item_data ` set (lh_items bufs)"

definition table_ok :: "buf_mem \<Rightarrow> (unit, unit, nat) lhash \<Rightarrow> bool" where
  "table_ok m bufs \<longleftrightarrow>
     lh_wf (CRYPTO_BUFFER_hash m) (buf_bytes m) bufs \<and>
     (\<forall>q \<in> table_data bufs. \<exists>b. m q = Some b \<and> buf_pool b)"

lemma table_okD: "table_ok m bufs \<Longrightarrow> q \<in> table_data bufs \<Longrightarrow> \<exists>b. m q = Some b \<and> buf_pool b"
  by (simp add: table_ok_def)

lemma table_ok_cong:
  assumes "table_ok m bufs"
    and "\<forall>q b. q \<in> table_data bufs \<longrightarrow> m q = Some b \<longrightarrow>
      (\<exists>b'. m' q = Some b' \<and> buf_data b' = buf_data b \<and> buf_pool b' = buf_pool b)"
  shows "table_ok m' bufs" "lh_map (buf_bytes m') bufs = lh_map (buf_bytes m) bufs"
proof -
  have "buf_bytes m' q = buf_bytes m q" if "q \<in> table_data bufs" for q
  proof -
    obtain b where "m q = Some b" using table_okD [OF assms(1) \<open>q \<in> _\<close>] by blast
    moreover from this obtain b' where "m' q = Some b'" "buf_data b' = buf_data b"
      using assms(2) \<open>q \<in> _\<close> by blast
    ultimately show ?thesis by (simp add: buf_bytes_def)
  qed
  then have same: "\<forall>it \<in> set (lh_items bufs).
      CRYPTO_BUFFER_hash m' (item_data it) = CRYPTO_BUFFER_hash m (item_data it) \<and>
      buf_bytes m' (item_data it) = buf_bytes m (item_data it)"
    by (simp add: CRYPTO_BUFFER_hash_def table_data_def)
  show "lh_map (buf_bytes m') bufs = lh_map (buf_bytes m) bufs"
    by (rule lh_wf_cong(2) [OF same])
  have "\<exists>b'. m' q = Some b' \<and> buf_pool b'" if "q \<in> table_data bufs" for q
  proof -
    obtain b where "m q = Some b" "buf_pool b" using table_okD [OF assms(1) \<open>q \<in> _\<close>] by blast
    then show ?thesis using assms(2) \<open>q \<in> _\<close> by metis
  qed
  then show "table_ok m' bufs"
    using assms(1) lh_wf_cong(1) [OF same] by (simp add: table_ok_def)
qed

lemma table_ok_map:
  assumes "table_ok m bufs"
  shows "lh_map (buf_bytes m) bufs k = Some q \<longleftrightarrow> buf_bytes m q = k \<and> q \<in> table_data bufs"
  unfolding table_data_def
  by (rule lh_map_Some_iff [where hashf = "CRYPTO_BUFFER_hash m"]) (use assms in \<open>simp add: table_ok_def\<close>)

lemma bufs_retrieve_map:
  assumes "table_ok m (pool_bufs s)"
  shows "bufs_retrieve s m p = lh_map (buf_bytes m) (pool_bufs s) (buf_bytes m p)"
  unfolding bufs_retrieve_def
  by (rule buffers.retrieve_map) (use assms in \<open>simp_all add: table_ok_def\<close>)

section \<open>The invariant\<close>

text \<open>
  \<open>refs p\<close> is the number of references to the buffer at \<open>p\<close> that callers own; \<open>pend\<close> are the buffers that threads
  have made and not yet tried to insert.  A saturated count is only known to be too large to matter.
\<close>

definition pool_inv :: "(nat \<Rightarrow> nat) \<Rightarrow> nat set \<Rightarrow> crypto_pool \<Rightarrow> bool" where
  "pool_inv refs pend s \<longleftrightarrow>
     table_ok (pool_mem s) (pool_bufs s) \<and>
     (\<forall>q \<in> table_data (pool_bufs s). q \<notin> pend) \<and>
     (\<forall>q b. pool_mem s q = Some b \<longrightarrow> q \<notin> pend \<longrightarrow>
        buf_references b \<noteq> 0 \<and>
        (buf_references b = CRYPTO_REFCOUNT_MAX \<or> unat (buf_references b) = refs q)) \<and>
     (\<forall>q \<in> pend. \<exists>b. pool_mem s q = Some b \<and> buf_references b = 1 \<and> buf_pool b \<and> refs q = 0) \<and>
     (\<forall>q. 0 < refs q \<longrightarrow> pool_mem s q \<noteq> None)"

lemma pool_invD:
  assumes "pool_inv refs pend s"
  shows "table_ok (pool_mem s) (pool_bufs s)"
    "\<And>q. q \<in> table_data (pool_bufs s) \<Longrightarrow> q \<notin> pend"
    "\<And>q b. pool_mem s q = Some b \<Longrightarrow> q \<notin> pend \<Longrightarrow> buf_references b \<noteq> 0 \<and>
        (buf_references b = CRYPTO_REFCOUNT_MAX \<or> unat (buf_references b) = refs q)"
    "\<And>q. q \<in> pend \<Longrightarrow> \<exists>b. pool_mem s q = Some b \<and> buf_references b = 1 \<and> buf_pool b \<and> refs q = 0"
    "\<And>q. 0 < refs q \<Longrightarrow> pool_mem s q \<noteq> None"
  using assms unfolding pool_inv_def by blast+

lemma not_less_REFCOUNT_MAX: "\<not> n < CRYPTO_REFCOUNT_MAX \<longleftrightarrow> n = CRYPTO_REFCOUNT_MAX"
proof -
  have "CRYPTO_REFCOUNT_MAX = - 1" by (simp add: CRYPTO_REFCOUNT_MAX_def)
  then show ?thesis by (metis not_less word_order.extremum_unique)
qed

lemma refcount_inc_tracks:
  assumes "n \<noteq> 0" "n = CRYPTO_REFCOUNT_MAX \<or> unat n = k"
  shows "CRYPTO_refcount_inc n \<noteq> 0 \<and>
    (CRYPTO_refcount_inc n = CRYPTO_REFCOUNT_MAX \<or> unat (CRYPTO_refcount_inc n) = Suc k)"
proof (cases "n < CRYPTO_REFCOUNT_MAX")
  case True
  then have "unat n < 2 ^ 32 - 1" by (simp add: word_less_nat_alt CRYPTO_REFCOUNT_MAX_def)
  then have "unat (n + 1) = Suc (unat n)" using unat_add_lem [of n 1] by simp
  moreover from this have "n + 1 \<noteq> 0" by (metis nat.distinct(1) unat_0)
  ultimately show ?thesis using True assms(2) by (auto simp: CRYPTO_refcount_inc_def)
next
  case False
  then have "n = CRYPTO_REFCOUNT_MAX" by (simp add: not_less_REFCOUNT_MAX)
  then show ?thesis by (simp add: CRYPTO_refcount_inc_def CRYPTO_REFCOUNT_MAX_def)
qed

lemma refcount_dec_tracks:
  assumes "n \<noteq> 0" "n = CRYPTO_REFCOUNT_MAX \<or> unat n = k" "0 < k"
  obtains (zero) "CRYPTO_refcount_dec_and_test_zero n = Some (True, 0)" "k = 1"
  | (more) n' where "CRYPTO_refcount_dec_and_test_zero n = Some (False, n')" "n' \<noteq> 0"
      "n' = CRYPTO_REFCOUNT_MAX \<or> unat n' = k - 1"
proof (cases "n < CRYPTO_REFCOUNT_MAX")
  case True
  then have k: "unat n = k" using assms(2) by auto
  have dec: "unat (n - 1) = unat n - 1" using assms(1) by (simp add: unat_minus_one)
  show ?thesis
  proof (cases "n - 1 = 0")
    case True
    then show ?thesis using zero k \<open>n < _\<close> by (auto simp: CRYPTO_refcount_dec_and_test_zero_def)
  next
    case False
    then show ?thesis using more [of "n - 1"] k dec assms(1) \<open>n < _\<close>
      by (simp add: CRYPTO_refcount_dec_and_test_zero_def)
  qed
next
  case False
  then have "n = CRYPTO_REFCOUNT_MAX" by (simp add: not_less_REFCOUNT_MAX)
  then show ?thesis using more [of n] assms(1) by (simp add: CRYPTO_refcount_dec_and_test_zero_def)
qed

text \<open>A change of one count, and of the references with it.\<close>

lemma pool_inv_count:
  assumes inv: "pool_inv refs pend s" and p: "pool_mem s p = Some b" "p \<notin> pend"
    and n: "n \<noteq> 0" "n = CRYPTO_REFCOUNT_MAX \<or> unat n = k"
  shows "pool_inv (refs(p := k)) pend (s\<lparr>pool_mem := (pool_mem s)(p \<mapsto> b\<lparr>buf_references := n\<rparr>)\<rparr>)"
    and "buf_bytes ((pool_mem s)(p \<mapsto> b\<lparr>buf_references := n\<rparr>)) = buf_bytes (pool_mem s)"
proof -
  let ?m = "(pool_mem s)(p \<mapsto> b\<lparr>buf_references := n\<rparr>)"
  note I = pool_invD [OF inv]
  have "table_ok ?m (pool_bufs s)"
    by (rule table_ok_cong(1) [OF I(1)]) (use p in auto)
  then show "pool_inv (refs(p := k)) pend (s\<lparr>pool_mem := ?m\<rparr>)"
    unfolding pool_inv_def using I p n by auto
  show "buf_bytes ?m = buf_bytes (pool_mem s)"
    using p by (auto simp: buf_bytes_def fun_eq_iff)
qed

lemma pool_inv_inc:
  assumes inv: "pool_inv refs pend s" and p: "pool_mem s p \<noteq> None" "p \<notin> pend"
  obtains m where "buf_refcount_inc p (pool_mem s) = Some m"
    "pool_inv (refs(p := Suc (refs p))) pend (s\<lparr>pool_mem := m\<rparr>)"
    "buf_bytes m = buf_bytes (pool_mem s)" "\<forall>q. q \<noteq> p \<longrightarrow> m q = pool_mem s q"
proof -
  obtain b where b: "pool_mem s p = Some b" using p(1) by blast
  note n = pool_invD(3) [OF inv b p(2)]
  note inc = refcount_inc_tracks [OF n [THEN conjunct1] n [THEN conjunct2]]
  note count = pool_inv_count [OF inv b p(2) inc [THEN conjunct1] inc [THEN conjunct2]]
  show ?thesis
    by (rule that [OF _ count]) (simp_all add: buf_refcount_inc_def b)
qed

section \<open>The operations\<close>

lemma crypto_buffer_lookup_ok:
  assumes inv: "pool_inv refs pend s" and p: "pool_mem s p = None"
  obtains (miss) "crypto_buffer_lookup p data st s = Some (None, s)"
      "usable_duplicate st (pool_mem s) (pool_map s data) = None"
  | (hit) q m where "crypto_buffer_lookup p data st s = Some (Some q, s\<lparr>pool_mem := m\<rparr>)"
      "pool_inv (refs(q := Suc (refs q))) pend (s\<lparr>pool_mem := m\<rparr>)"
      "usable_duplicate st (pool_mem s) (pool_map s data) = Some q" "pool_map s data = Some q"
      "buf_bytes m = buf_bytes (pool_mem s)" "buf_bytes m q = data" "pool_mem s q \<noteq> None"
proof -
  define tmp where "tmp = \<lparr>buf_pool = False, buf_data = data, buf_references = 0, buf_static = False\<rparr>"
  let ?m = "(pool_mem s)(p \<mapsto> tmp)"
  note I = pool_invD [OF inv]
  have notin: "p \<notin> table_data (pool_bufs s)" using table_okD [OF I(1), of p] p by auto
  have same: "table_ok ?m (pool_bufs s)" "lh_map (buf_bytes ?m) (pool_bufs s) = pool_map s"
    unfolding pool_map_def by (rule table_ok_cong [OF I(1)]; use notin in auto)+
  have ret: "bufs_retrieve s ?m p = pool_map s data"
    using bufs_retrieve_map [OF same(1), of p] unfolding same(2) by (simp add: buf_bytes_def tmp_def)
  show ?thesis
  proof (cases "usable_duplicate st (pool_mem s) (pool_map s data)")
    case None
    show ?thesis
    proof (rule miss)
      show "crypto_buffer_lookup p data st s = Some (None, s)"
        using None ret by (simp add: crypto_buffer_lookup_def Let_def tmp_def)
    qed (rule None)
  next
    case (Some q)
    then have q: "pool_map s data = Some q"
      by (auto simp: usable_duplicate_def split: option.splits if_splits)
    then have bytes: "buf_bytes (pool_mem s) q = data" and "q \<in> table_data (pool_bufs s)"
      using table_ok_map [OF I(1)] by (simp_all add: pool_map_def)
    then have live: "pool_mem s q \<noteq> None" "q \<notin> pend" using I(2) [of q] table_okD [OF I(1), of q] by auto
    obtain m where m: "buf_refcount_inc q (pool_mem s) = Some m"
      "pool_inv (refs(q := Suc (refs q))) pend (s\<lparr>pool_mem := m\<rparr>)"
      "buf_bytes m = buf_bytes (pool_mem s)"
      using pool_inv_inc [OF inv live] by blast
    show ?thesis
      by (rule hit [OF _ m(2) Some q m(3)])
        (use Some ret m bytes live in \<open>simp_all add: crypto_buffer_lookup_def Let_def tmp_def\<close>)
  qed
qed

text \<open>Making a buffer fails exactly when memory runs out for the object, or for the copy of data that are not
  static; then nothing has changed.\<close>

definition buffer_memory :: "allocator \<Rightarrow> bool \<Rightarrow> byte list \<Rightarrow> bool" where
  "buffer_memory al st data \<longleftrightarrow>
     OPENSSL_malloc al 32 \<noteq> None \<and> (\<not> st \<and> data \<noteq> [] \<longrightarrow> OPENSSL_malloc al (length data) \<noteq> None)"

lemma crypto_buffer_make_None: "crypto_buffer_make al p data st in_pool s = None \<longleftrightarrow> \<not> buffer_memory al st data"
  by (auto simp: crypto_buffer_make_def buffer_memory_def OPENSSL_memdup_def split: option.split)

lemma crypto_buffer_make_cases:
  obtains "crypto_buffer_make al p data st in_pool s = None"
  | "crypto_buffer_make al p data st in_pool s = Some (s\<lparr>pool_mem := (pool_mem s)(p \<mapsto>
      \<lparr>buf_pool = in_pool, buf_data = data, buf_references = 1, buf_static = st\<rparr>)\<rparr>)"
proof -
  have "(if st then Some data
      else case OPENSSL_memdup al data of
             None \<Rightarrow> if length data \<noteq> 0 then None else Some [] | Some copy \<Rightarrow> Some copy) \<in> {None, Some data}"
    by (auto simp: OPENSSL_memdup_def split: option.split)
  then show ?thesis
    using that by (cases "OPENSSL_malloc al 32") (auto simp: crypto_buffer_make_def)
qed

lemma crypto_buffer_make_ok:
  assumes inv: "pool_inv refs pend s" and p: "pool_mem s p = None"
    and make: "crypto_buffer_make al p data st True s = Some s'"
  shows "pool_inv refs (insert p pend) s'"
    and "buf_bytes (pool_mem s') p = data" "\<forall>q. q \<noteq> p \<longrightarrow> pool_mem s' q = pool_mem s q"
    and "\<exists>b. pool_mem s' p = Some b \<and> buf_static b = st"
proof -
  note I = pool_invD [OF inv]
  have s': "s' = s\<lparr>pool_mem := (pool_mem s)(p \<mapsto>
      \<lparr>buf_pool = True, buf_data = data, buf_references = 1, buf_static = st\<rparr>)\<rparr>"
    using make by (cases rule: crypto_buffer_make_cases [of al p data st True s]) simp_all
  have notin: "p \<notin> table_data (pool_bufs s)" using table_okD [OF I(1), of p] p by auto
  have "table_ok (pool_mem s') (pool_bufs s)"
    by (rule table_ok_cong(1) [OF I(1)]) (use notin in \<open>auto simp: s'\<close>)
  moreover have "refs p = 0" using I(5) [of p] p by auto
  ultimately show "pool_inv refs (insert p pend) s'"
    unfolding pool_inv_def using I(2-5) notin by (auto simp: s')
  show "buf_bytes (pool_mem s') p = data" "\<forall>q. q \<noteq> p \<longrightarrow> pool_mem s' q = pool_mem s q"
    "\<exists>b. pool_mem s' p = Some b \<and> buf_static b = st"
    by (simp_all add: s' buf_bytes_def)
qed

text \<open>Releasing a buffer that is in no table and that nobody refers to.\<close>

lemma pool_inv_release:
  assumes inv: "pool_inv refs pend s" and p: "p \<notin> table_data (pool_bufs s)" "refs p = 0"
  shows "pool_inv refs (pend - {p}) (s\<lparr>pool_mem := crypto_buffer_free_object p (pool_mem s)\<rparr>)"
proof -
  note I = pool_invD [OF inv]
  have "table_ok (crypto_buffer_free_object p (pool_mem s)) (pool_bufs s)"
    by (rule table_ok_cong(1) [OF I(1)]) (use p in \<open>auto simp: crypto_buffer_free_object_def\<close>)
  then show ?thesis
    unfolding pool_inv_def using I(2-5) p by (auto simp: crypto_buffer_free_object_def)
qed

lemma table_data_map:
  assumes "table_ok m bufs" "lh_wf (CRYPTO_BUFFER_hash m) (buf_bytes m) bufs'"
    and "lh_map (buf_bytes m) bufs' = (lh_map (buf_bytes m) bufs)(k := v)" "\<And>q. v = Some q \<Longrightarrow> buf_bytes m q = k"
  shows "table_data bufs' = {q \<in> table_data bufs. buf_bytes m q \<noteq> k} \<union> set_option v"
proof -
  have 1: "q \<in> table_data bufs \<longleftrightarrow> lh_map (buf_bytes m) bufs (buf_bytes m q) = Some q" for q
    using table_ok_map [OF assms(1)] by simp
  have 2: "q \<in> table_data bufs' \<longleftrightarrow> lh_map (buf_bytes m) bufs' (buf_bytes m q) = Some q" for q
    unfolding table_data_def using lh_map_Some_iff [OF assms(2)] by simp
  have "q \<in> table_data bufs' \<longleftrightarrow> (if buf_bytes m q = k then v = Some q else q \<in> table_data bufs)" for q
    unfolding 1 2 assms(3) by simp
  then show ?thesis using assms(4) by (auto simp: set_eq_iff split: if_splits)
qed

lemma crypto_buffer_insert_ok:
  assumes inv: "pool_inv refs pend s" and p: "p \<in> pend" and room: "num_items (pool_bufs s) + 1 < size_mod"
  obtains (failed) s' where "crypto_buffer_insert al p st s = Some (None, s')" "pool_inv refs (pend - {p}) s'"
      "\<forall>q. q \<noteq> p \<longrightarrow> pool_mem s' q = pool_mem s q" "OPENSSL_malloc al 24 = None"
      "pool_mem s' = (pool_mem s)(p := None)" "pool_bufs s' = pool_bufs s"
      "usable_duplicate st (pool_mem s) (pool_map s (buf_bytes (pool_mem s) p)) = None"
  | (inserted) s' where "crypto_buffer_insert al p st s = Some (Some p, s')"
      "pool_inv (refs(p := 1)) (pend - {p}) s'" "pool_mem s' = pool_mem s"
      "pool_map s' = (pool_map s)(buf_bytes (pool_mem s) p \<mapsto> p)"
      "usable_duplicate st (pool_mem s) (pool_map s (buf_bytes (pool_mem s) p)) = None"
  | (lost) q s' where "crypto_buffer_insert al p st s = Some (Some q, s')" "q \<noteq> p"
      "pool_inv (refs(q := Suc (refs q))) (pend - {p}) s'"
      "buf_bytes (pool_mem s') = (buf_bytes (pool_mem s))(p := [])" "buf_bytes (pool_mem s) q = buf_bytes (pool_mem s) p"
      "pool_map s' = pool_map s" "usable_duplicate st (pool_mem s) (pool_map s (buf_bytes (pool_mem s) p)) = Some q"
proof -
  note I = pool_invD [OF inv]
  obtain b where b: "pool_mem s p = Some b" "buf_references b = 1" "buf_pool b" "refs p = 0"
    using I(4) [OF p] by blast
  have notin: "p \<notin> table_data (pool_bufs s)" using I(2) p by blast
  have wf: "lh_wf (CRYPTO_BUFFER_hash (pool_mem s)) (buf_bytes (pool_mem s)) (pool_bufs s)"
    using I(1) by (simp add: table_ok_def)
  have ret: "bufs_retrieve s (pool_mem s) p = pool_map s (buf_bytes (pool_mem s) p)"
    using bufs_retrieve_map [OF I(1)] by (simp add: pool_map_def)
  show ?thesis
  proof (cases "usable_duplicate st (pool_mem s) (pool_map s (buf_bytes (pool_mem s) p))")
    case None
    obtain ok old bufs where ins: "OPENSSL_lh_insert al (pool_bufs s) p
        (\<lambda>_. CRYPTO_BUFFER_hash (pool_mem s)) (\<lambda>_. CRYPTO_BUFFER_cmp (pool_mem s)) = (ok, old, bufs)"
      by (cases rule: prod_cases3)
    note map = buffers.insert_map [OF wf refl refl room ins]
    show ?thesis
    proof (cases ok)
      case False
      then have fail: "bufs = pool_bufs s" "OPENSSL_malloc al 24 = None" using map(4) by simp_all
      show ?thesis
        by (rule failed [OF _ pool_inv_release [OF inv notin b(4)]])
          (use None ins ret False fail in
            \<open>simp_all add: crypto_buffer_insert_def Let_def crypto_buffer_free_object_def\<close>)
    next
      case True
      let ?s = "s\<lparr>pool_bufs := bufs\<rparr>"
      have upd: "lh_map (buf_bytes (pool_mem s)) bufs = (pool_map s)(buf_bytes (pool_mem s) p \<mapsto> p)"
        using map(2) True by (simp add: pool_map_def)
      have data: "table_data bufs \<subseteq> insert p (table_data (pool_bufs s))" "p \<in> table_data bufs"
        using table_data_map [OF I(1) map(1) upd [unfolded pool_map_def]] by auto
      have "table_ok (pool_mem s) bufs"
        using map(1) data b table_okD [OF I(1)] unfolding table_ok_def by blast
      then have "pool_inv (refs(p := 1)) (pend - {p}) ?s"
        unfolding pool_inv_def using I(2-5) data b by auto
      then show ?thesis
        by (rule inserted [rotated])
          (use None ins ret True upd in \<open>simp_all add: crypto_buffer_insert_def Let_def pool_map_def\<close>)
    qed
  next
    case (Some q)
    then have q: "pool_map s (buf_bytes (pool_mem s) p) = Some q"
      by (auto simp: usable_duplicate_def split: option.splits if_splits)
    then have bytes: "buf_bytes (pool_mem s) q = buf_bytes (pool_mem s) p" and "q \<in> table_data (pool_bufs s)"
      using table_ok_map [OF I(1)] by (simp_all add: pool_map_def)
    then have live: "pool_mem s q \<noteq> None" "q \<notin> pend" "q \<noteq> p"
      using I(2) [of q] table_okD [OF I(1), of q] notin by auto
    obtain m where m: "buf_refcount_inc q (pool_mem s) = Some m"
      "pool_inv (refs(q := Suc (refs q))) pend (s\<lparr>pool_mem := m\<rparr>)"
      "buf_bytes m = buf_bytes (pool_mem s)"
      using pool_inv_inc [OF inv live(1,2)] by blast
    let ?s = "s\<lparr>pool_mem := crypto_buffer_free_object p m\<rparr>"
    have "pool_inv (refs(q := Suc (refs q))) (pend - {p}) ?s"
      using pool_inv_release [OF m(2), of p] notin b(4) live(3) by simp
    moreover have bytes': "buf_bytes (crypto_buffer_free_object p m) = (buf_bytes (pool_mem s))(p := [])"
      unfolding m(3) [symmetric] by (auto simp: buf_bytes_def crypto_buffer_free_object_def)
    moreover have "pool_map ?s = pool_map s"
      unfolding pool_map_def
      by (simp, rule lh_map_cong) (use bytes' notin in \<open>auto simp: table_data_def\<close>)
    ultimately show ?thesis
      by (intro lost [of q ?s])
        (use Some ret m bytes live q in \<open>simp_all add: crypto_buffer_insert_def Let_def\<close>)
  qed
qed

lemma CRYPTO_BUFFER_up_ref_ok:
  assumes inv: "pool_inv refs pend s" and p: "0 < refs p"
  obtains s' where "CRYPTO_BUFFER_up_ref p s = Some s'" "pool_inv (refs(p := Suc (refs p))) pend s'"
    "buf_bytes (pool_mem s') = buf_bytes (pool_mem s)"
proof -
  have "p \<notin> pend" using pool_invD(4) [OF inv, of p] p by auto
  then obtain m where "buf_refcount_inc p (pool_mem s) = Some m"
    "pool_inv (refs(p := Suc (refs p))) pend (s\<lparr>pool_mem := m\<rparr>)" "buf_bytes m = buf_bytes (pool_mem s)"
    using pool_inv_inc [OF inv] pool_invD(5) [OF inv p] by blast
  then show ?thesis
    by (intro that [of "s\<lparr>pool_mem := m\<rparr>"]) (simp_all add: CRYPTO_BUFFER_up_ref_def)
qed

lemma CRYPTO_BUFFER_free_ok:
  assumes inv: "pool_inv refs pend s" and p: "0 < refs p"
  obtains s' where "CRYPTO_BUFFER_free al (Some p) s = Some s'"
    "pool_inv (refs(p := refs p - 1)) pend s'" "\<forall>q. q \<noteq> p \<longrightarrow> pool_mem s' q = pool_mem s q"
    "1 < refs p \<longrightarrow> buf_bytes (pool_mem s') p = buf_bytes (pool_mem s) p"
proof -
  note I = pool_invD [OF inv]
  have notpend: "p \<notin> pend" using I(4) [of p] p by auto
  obtain b where b: "pool_mem s p = Some b" using I(5) [OF p] by blast
  have n: "buf_references b \<noteq> 0" "buf_references b = CRYPTO_REFCOUNT_MAX \<or> unat (buf_references b) = refs p"
    using I(3) [OF b notpend] by simp_all
  from n p show ?thesis
  proof (cases rule: refcount_dec_tracks)
    case (more n')
    let ?s = "s\<lparr>pool_mem := (pool_mem s)(p \<mapsto> b\<lparr>buf_references := n'\<rparr>)\<rparr>"
    note count = pool_inv_count [OF inv b notpend more(2,3)]
    show ?thesis
      by (rule that [of ?s])
        (use more(1) count b in \<open>simp_all add: CRYPTO_BUFFER_free_def Let_def\<close>)
  next
    case zero
    let ?m = "(pool_mem s)(p \<mapsto> b\<lparr>buf_references := 0\<rparr>)"
    define s0 where "s0 = s\<lparr>pool_mem := ?m\<rparr>"
    have bytes: "buf_bytes ?m = buf_bytes (pool_mem s)"
      using b by (auto simp: buf_bytes_def fun_eq_iff)
    have table: "table_ok ?m (pool_bufs s)"
      by (rule table_ok_cong(1) [OF I(1)]) (use b in auto)
    have ret: "bufs_retrieve s0 ?m p = lh_map (buf_bytes ?m) (pool_bufs s) (buf_bytes ?m p)"
      using bufs_retrieve_map [of ?m s0 p] table by (simp add: s0_def)
    have rest: "pool_inv (refs(p := refs p - 1)) pend (s\<lparr>pool_mem := crypto_buffer_free_object p ?m, pool_bufs := bufs\<rparr>)"
      if "table_ok ?m bufs" "table_data bufs \<subseteq> table_data (pool_bufs s)" "p \<notin> table_data bufs" for bufs
    proof -
      have "table_ok (crypto_buffer_free_object p ?m) bufs"
        by (rule table_ok_cong(1) [OF that(1)]) (use that(3) in \<open>auto simp: crypto_buffer_free_object_def\<close>)
      then show ?thesis
        unfolding pool_inv_def using I(2-5) that(2,3) zero(2) notpend by (auto simp: crypto_buffer_free_object_def)
    qed
    show ?thesis
    proof (cases "buf_pool b \<and> p \<in> table_data (pool_bufs s)")
      case True
      then have found: "lh_map (buf_bytes ?m) (pool_bufs s) (buf_bytes ?m p) = Some p"
        using table_ok_map [OF table] by simp
      obtain old bufs where del: "OPENSSL_lh_delete al (pool_bufs s) p
          (\<lambda>_. CRYPTO_BUFFER_hash ?m) (\<lambda>_. CRYPTO_BUFFER_cmp ?m) = (old, bufs)"
        by (cases rule: prod.exhaust)
      have wf: "lh_wf (CRYPTO_BUFFER_hash ?m) (buf_bytes ?m) (pool_bufs s)"
        using table by (simp add: table_ok_def)
      note map = buffers.delete_map [OF wf refl refl del]
      have data: "table_data bufs = {q \<in> table_data (pool_bufs s). buf_bytes ?m q \<noteq> buf_bytes ?m p}"
        using table_data_map [OF table map(1,2)] by simp
      have "table_ok ?m bufs"
        using map(1) data table_okD [OF table] unfolding table_ok_def by blast
      then have "pool_inv (refs(p := refs p - 1)) pend (s\<lparr>pool_mem := crypto_buffer_free_object p ?m, pool_bufs := bufs\<rparr>)"
        by (rule rest) (use data in auto)
      then show ?thesis
        by (rule that [rotated])
          (use True b zero found map(3) del ret in
            \<open>simp_all add: CRYPTO_BUFFER_free_def Let_def s0_def crypto_buffer_free_object_def\<close>)
    next
      case False
      then have notin: "p \<notin> table_data (pool_bufs s)" using table_okD [OF I(1), of p] b by auto
      then have "lh_map (buf_bytes ?m) (pool_bufs s) (buf_bytes ?m p) \<noteq> Some p"
        using table_ok_map [OF table] by simp
      moreover have "pool_inv (refs(p := refs p - 1)) pend
          (s\<lparr>pool_mem := crypto_buffer_free_object p ?m, pool_bufs := pool_bufs s\<rparr>)"
        by (rule rest [OF table]) (use notin in auto)
      ultimately show ?thesis
        by (intro that [of "s\<lparr>pool_mem := crypto_buffer_free_object p ?m, pool_bufs := pool_bufs s\<rparr>"])
          (use False b zero ret in
            \<open>simp_all add: CRYPTO_BUFFER_free_def Let_def s0_def crypto_buffer_free_object_def\<close>)
    qed
  qed
qed

section \<open>Interleavings\<close>

text \<open>A run: the pool, the references that callers own, and the buffers under construction.\<close>

record pool_run =
  run_pool :: crypto_pool
  run_refs :: "nat \<Rightarrow> nat"
  run_pending :: "nat set"

text \<open>The steps that threads take, each with the address that \<open>malloc\<close> picks.  A call of
  \<open>crypto_buffer_new\<close> with the pool is a \<open>Lookup\<close> and, if that finds nothing, a \<open>Make\<close> and an \<open>Insert\<close>, with any
  steps of other threads between them.\<close>

datatype pool_call =
    Lookup nat "byte list" bool
  | Make allocator nat "byte list" bool
  | Insert allocator nat
  | New_unpooled allocator nat "byte list" bool
  | Alloc allocator nat nat
  | Up_ref nat
  | Free allocator nat

text \<open>What a caller has to respect: \<open>malloc\<close> returns free addresses, and only owned references are
  used.\<close>

fun pool_call_ok :: "pool_call \<Rightarrow> pool_run \<Rightarrow> bool" where
  "pool_call_ok (Lookup p data st) r \<longleftrightarrow> pool_mem (run_pool r) p = None"
| "pool_call_ok (Make al p data st) r \<longleftrightarrow> pool_mem (run_pool r) p = None"
| "pool_call_ok (Insert al p) r \<longleftrightarrow> p \<in> run_pending r \<and> num_items (pool_bufs (run_pool r)) + 1 < size_mod"
| "pool_call_ok (New_unpooled al p data st) r \<longleftrightarrow> pool_mem (run_pool r) p = None"
| "pool_call_ok (Alloc al p len) r \<longleftrightarrow> pool_mem (run_pool r) p = None"
| "pool_call_ok (Up_ref p) r \<longleftrightarrow> 0 < run_refs r p"
| "pool_call_ok (Free al p) r \<longleftrightarrow> 0 < run_refs r p"

definition gain :: "nat option \<Rightarrow> (nat \<Rightarrow> nat) \<Rightarrow> nat \<Rightarrow> nat" where
  "gain p refs = (case p of None \<Rightarrow> refs | Some p \<Rightarrow> refs(p := Suc (refs p)))"

fun pool_exec :: "pool_call \<Rightarrow> pool_run \<Rightarrow> pool_run option" where
  "pool_exec (Lookup p data st) r =
     (case crypto_buffer_lookup p data st (run_pool r) of
        None \<Rightarrow> None
      | Some (q, s) \<Rightarrow> Some (r\<lparr>run_pool := s, run_refs := gain q (run_refs r)\<rparr>))"
| "pool_exec (Make al p data st) r =
     (case crypto_buffer_make al p data st True (run_pool r) of
        None \<Rightarrow> Some r
      | Some s \<Rightarrow> Some (r\<lparr>run_pool := s, run_pending := insert p (run_pending r)\<rparr>))"
| "pool_exec (Insert al p) r =
     (case pool_mem (run_pool r) p of
        None \<Rightarrow> None
      | Some b \<Rightarrow>
          (case crypto_buffer_insert al p (buf_static b) (run_pool r) of
             None \<Rightarrow> None
           | Some (q, s) \<Rightarrow> Some (r\<lparr>run_pool := s, run_refs := gain q (run_refs r), run_pending := run_pending r - {p}\<rparr>)))"
| "pool_exec (New_unpooled al p data st) r =
     (case crypto_buffer_new al p data st False (run_pool r) of
        None \<Rightarrow> None
      | Some (q, s) \<Rightarrow> Some (r\<lparr>run_pool := s, run_refs := gain q (run_refs r)\<rparr>))"
| "pool_exec (Alloc al p len) r =
     (case CRYPTO_BUFFER_alloc al p len (run_pool r) of
        (q, s) \<Rightarrow> Some (r\<lparr>run_pool := s, run_refs := gain q (run_refs r)\<rparr>))"
| "pool_exec (Up_ref p) r =
     map_option (\<lambda>s. r\<lparr>run_pool := s, run_refs := gain (Some p) (run_refs r)\<rparr>) (CRYPTO_BUFFER_up_ref p (run_pool r))"
| "pool_exec (Free al p) r =
     map_option (\<lambda>s. r\<lparr>run_pool := s, run_refs := (run_refs r)(p := run_refs r p - 1)\<rparr>)
       (CRYPTO_BUFFER_free al (Some p) (run_pool r))"

inductive pool_reachable :: "pool_run \<Rightarrow> bool" where
  init: "CRYPTO_BUFFER_POOL_new al (\<lambda>_. None) = Some s \<Longrightarrow>
    pool_reachable \<lparr>run_pool = s, run_refs = (\<lambda>_. 0), run_pending = {}\<rparr>"
| call: "pool_reachable r \<Longrightarrow> pool_call_ok c r \<Longrightarrow> pool_exec c r = Some r' \<Longrightarrow> pool_reachable r'"

abbreviation run_inv :: "pool_run \<Rightarrow> bool" where
  "run_inv r \<equiv> pool_inv (run_refs r) (run_pending r) (run_pool r)"

lemma pool_inv_unpooled:
  assumes inv: "pool_inv refs pend s" and p: "pool_mem s p = None"
  shows "pool_inv (refs(p := Suc (refs p))) pend (s\<lparr>pool_mem := (pool_mem s)(p \<mapsto>
      \<lparr>buf_pool = False, buf_data = data, buf_references = 1, buf_static = st\<rparr>)\<rparr>)"
proof -
  note I = pool_invD [OF inv]
  let ?m = "(pool_mem s)(p \<mapsto> \<lparr>buf_pool = False, buf_data = data, buf_references = 1, buf_static = st\<rparr>)"
  have notin: "p \<notin> table_data (pool_bufs s)" using table_okD [OF I(1), of p] p by auto
  have "table_ok ?m (pool_bufs s)"
    by (rule table_ok_cong(1) [OF I(1)]) (use notin in auto)
  moreover have "refs p = 0" "p \<notin> pend" using I(4,5) [of p] p by auto
  ultimately show ?thesis
    unfolding pool_inv_def using I(2-5) by auto
qed

lemma frame_bytes:
  assumes "\<forall>q. q \<noteq> p \<longrightarrow> m' q = m q" "refs p = (0 :: nat)"
  shows "\<forall>q. 0 < refs q \<longrightarrow> buf_bytes m' q = buf_bytes m q"
proof (intro allI impI)
  fix q assume "0 < refs q"
  with assms have "m' q = m q" by (metis less_irrefl)
  then show "buf_bytes m' q = buf_bytes m q" by (simp add: buf_bytes_def)
qed

text \<open>Every step is possible, keeps the invariant and the contents of all buffers in use.\<close>

lemma pool_exec_ok:
  assumes inv: "run_inv r" and ok: "pool_call_ok c r"
  obtains r' where "pool_exec c r = Some r'" "run_inv r'"
    "\<forall>p. 0 < run_refs r p \<longrightarrow> 0 < run_refs r' p \<longrightarrow> buf_bytes (pool_mem (run_pool r')) p = buf_bytes (pool_mem (run_pool r)) p"
proof (cases c)
  case (Lookup p data st)
  with ok have p: "pool_mem (run_pool r) p = None" by simp
  show ?thesis
  proof (cases rule: crypto_buffer_lookup_ok [OF inv p, where data = data and st = st])
    case 1
    then show ?thesis by (intro that [of r]) (use inv in \<open>simp_all add: Lookup gain_def\<close>)
  next
    case (2 q m)
    then show ?thesis
      by (intro that [of "r\<lparr>run_pool := (run_pool r)\<lparr>pool_mem := m\<rparr>, run_refs := gain (Some q) (run_refs r)\<rparr>"])
        (simp_all add: Lookup gain_def)
  qed
next
  case (Make al p data st)
  with ok have p: "pool_mem (run_pool r) p = None" by simp
  show ?thesis
  proof (cases "crypto_buffer_make al p data st True (run_pool r)")
    case None
    then show ?thesis by (intro that [of r]) (use inv in \<open>simp_all add: Make\<close>)
  next
    case (Some s)
    have "run_refs r p = 0" using pool_invD(5) [OF inv, of p] p by auto
    with Some crypto_buffer_make_ok [OF inv p Some] frame_bytes [where refs = "run_refs r" and p = p, OF crypto_buffer_make_ok(3) [OF inv p Some]]
    show ?thesis
      by (intro that [of "r\<lparr>run_pool := s, run_pending := insert p (run_pending r)\<rparr>"])
        (simp_all add: Make)
  qed
next
  case (Insert al p)
  with ok have p: "p \<in> run_pending r" "num_items (pool_bufs (run_pool r)) + 1 < size_mod" by simp_all
  obtain b where b: "pool_mem (run_pool r) p = Some b" "run_refs r p = 0"
    using pool_invD(4) [OF inv p(1)] by blast
  show ?thesis
  proof (cases rule: crypto_buffer_insert_ok [OF inv p, where al = al and st = "buf_static b"])
    case (1 s')
    have "\<forall>q. 0 < run_refs r q \<longrightarrow> buf_bytes (pool_mem s') q = buf_bytes (pool_mem (run_pool r)) q"
      by (rule frame_bytes [of p]) (use 1(3) b(2) in simp_all)
    with 1(1,2) b show ?thesis
      by (intro that [of "r\<lparr>run_pool := s', run_pending := run_pending r - {p}\<rparr>"])
        (simp_all add: Insert gain_def)
  next
    case (2 s')
    with b show ?thesis
      by (intro that [of "r\<lparr>run_pool := s', run_refs := gain (Some p) (run_refs r), run_pending := run_pending r - {p}\<rparr>"])
        (auto simp: Insert gain_def)
  next
    case (3 q s')
    with b show ?thesis
      by (intro that [of "r\<lparr>run_pool := s', run_refs := gain (Some q) (run_refs r), run_pending := run_pending r - {p}\<rparr>"])
        (auto simp: Insert gain_def)
  qed
next
  case (New_unpooled al p data st)
  with ok have p: "pool_mem (run_pool r) p = None" by simp
  then have r0: "run_refs r p = 0" using pool_invD(5) [OF inv, of p] by auto
  show ?thesis
  proof (cases rule: crypto_buffer_make_cases [of al p data st False "run_pool r"])
    case 1
    then show ?thesis
      by (intro that [of r]) (use inv in \<open>simp_all add: New_unpooled gain_def crypto_buffer_new_def\<close>)
  next
    case 2
    then show ?thesis
      using pool_inv_unpooled [OF inv p, of data st] r0
      by (intro that) (auto simp: New_unpooled gain_def crypto_buffer_new_def buf_bytes_def)
  qed
next
  case (Alloc al p len)
  with ok have p: "pool_mem (run_pool r) p = None" by simp
  then have r0: "run_refs r p = 0" using pool_invD(5) [OF inv, of p] by auto
  consider "CRYPTO_BUFFER_alloc al p len (run_pool r) = (None, run_pool r)"
    | block where "CRYPTO_BUFFER_alloc al p len (run_pool r) = (Some p, (run_pool r)\<lparr>pool_mem := (pool_mem (run_pool r))(p \<mapsto>
        \<lparr>buf_pool = False, buf_data = block, buf_references = 1, buf_static = False\<rparr>)\<rparr>)"
    by (cases "OPENSSL_malloc al 32"; cases "OPENSSL_malloc al len"; cases "len = 0")
      (simp_all add: CRYPTO_BUFFER_alloc_def)
  then show ?thesis
  proof cases
    case 1
    then show ?thesis by (intro that [of r]) (use inv in \<open>simp_all add: Alloc gain_def\<close>)
  next
    case (2 block)
    then show ?thesis
      using pool_inv_unpooled [OF inv p, of block False] r0
      by (intro that) (auto simp: Alloc gain_def buf_bytes_def)
  qed
next
  case (Up_ref p)
  with ok have p: "0 < run_refs r p" by simp
  from CRYPTO_BUFFER_up_ref_ok [OF inv p] obtain s' where
    "CRYPTO_BUFFER_up_ref p (run_pool r) = Some s'" "pool_inv ((run_refs r)(p := Suc (run_refs r p))) (run_pending r) s'"
    "buf_bytes (pool_mem s') = buf_bytes (pool_mem (run_pool r))" .
  then show ?thesis
    by (intro that [of "r\<lparr>run_pool := s', run_refs := gain (Some p) (run_refs r)\<rparr>"]) (simp_all add: Up_ref gain_def)
next
  case (Free al p)
  with ok have p: "0 < run_refs r p" by simp
  from CRYPTO_BUFFER_free_ok [OF inv p, of al] obtain s' where
    s': "CRYPTO_BUFFER_free al (Some p) (run_pool r) = Some s'"
      "pool_inv ((run_refs r)(p := run_refs r p - 1)) (run_pending r) s'"
      "\<forall>q. q \<noteq> p \<longrightarrow> pool_mem s' q = pool_mem (run_pool r) q"
      "1 < run_refs r p \<longrightarrow> buf_bytes (pool_mem s') p = buf_bytes (pool_mem (run_pool r)) p" .
  then show ?thesis
    by (intro that [of "r\<lparr>run_pool := s', run_refs := (run_refs r)(p := run_refs r p - 1)\<rparr>"])
      (auto simp: Free buf_bytes_def)
qed

lemma pool_reachable_inv: "pool_reachable r \<Longrightarrow> run_inv r"
proof (induction rule: pool_reachable.induct)
  case (init al s)
  then obtain bufs where bufs: "OPENSSL_lh_new al () () = Some bufs" and s: "s = \<lparr>pool_mem = (\<lambda>_. None), pool_bufs = bufs\<rparr>"
    by (auto simp: CRYPTO_BUFFER_POOL_new_def split: option.splits)
  have "table_data bufs = {}"
    using bufs by (auto simp: table_data_def lh_items_def OPENSSL_lh_new_def split: option.splits)
  then show ?case
    using OPENSSL_lh_new_map(1) [OF bufs] by (simp add: pool_inv_def s table_ok_def)
next
  case (call r c r')
  from pool_exec_ok [OF call.IH call.hyps(2)] call.hyps(3) show ?case by (metis option.inject)
qed

section \<open>Properties\<close>

text \<open>C3. However the critical sections of concurrent calls interleave, no call that respects the ownership of
  references reads a buffer that has been freed or aborts on a reference count; every reference that is
  owned points to a live buffer; and the table never holds two buffers with the same bytes, nor one that is
  still under construction.\<close>

theorem pool_interleavings_safe:
  assumes "pool_reachable r"
  shows "(\<forall>c. pool_call_ok c r \<longrightarrow> pool_exec c r \<noteq> None)
    \<and> (\<forall>p. 0 < run_refs r p \<longrightarrow> pool_mem (run_pool r) p \<noteq> None)
    \<and> (\<forall>p \<in> table_data (pool_bufs (run_pool r)). \<forall>q \<in> table_data (pool_bufs (run_pool r)).
        CRYPTO_BUFFER_data p (run_pool r) = CRYPTO_BUFFER_data q (run_pool r) \<longrightarrow> p = q)
    \<and> table_data (pool_bufs (run_pool r)) \<inter> run_pending r = {}"
proof (intro conjI allI impI ballI)
  note inv = pool_reachable_inv [OF assms]
  note I = pool_invD [OF inv]
  show "pool_exec c r \<noteq> None" if "pool_call_ok c r" for c
    using pool_exec_ok [OF inv that] by (metis option.distinct(1))
  show "pool_mem (run_pool r) p \<noteq> None" if "0 < run_refs r p" for p using that by (rule I(5))
  show "p = q" if "p \<in> table_data (pool_bufs (run_pool r))" "q \<in> table_data (pool_bufs (run_pool r))"
    "CRYPTO_BUFFER_data p (run_pool r) = CRYPTO_BUFFER_data q (run_pool r)" for p q
    using table_ok_map [OF I(1)] that unfolding CRYPTO_BUFFER_data_def by (metis option.inject)
  show "table_data (pool_bufs (run_pool r)) \<inter> run_pending r = {}" using I(2) by blast
qed

text \<open>C23. A buffer does not change while somebody owns a reference to it, and nothing is leaked: when no
  reference is left and no call is under way, and no count has saturated, all memory is released and the
  assertion of \<open>CRYPTO_BUFFER_POOL_free\<close> holds.\<close>

theorem pool_immutable_no_leak:
  assumes "pool_reachable r"
  shows "(\<forall>c r' p. pool_call_ok c r \<longrightarrow> pool_exec c r = Some r' \<longrightarrow> 0 < run_refs r p \<longrightarrow> 0 < run_refs r' p \<longrightarrow>
      CRYPTO_BUFFER_data p (run_pool r') = CRYPTO_BUFFER_data p (run_pool r))
    \<and> (run_pending r = {} \<longrightarrow> (\<forall>p. run_refs r p = 0) \<longrightarrow>
      (\<forall>p b. pool_mem (run_pool r) p = Some b \<longrightarrow> buf_references b \<noteq> CRYPTO_REFCOUNT_MAX) \<longrightarrow>
      pool_mem (run_pool r) = (\<lambda>_. None) \<and> CRYPTO_BUFFER_POOL_free_ok (run_pool r))"
proof (intro conjI allI impI)
  note inv = pool_reachable_inv [OF assms]
  note I = pool_invD [OF inv]
  show "CRYPTO_BUFFER_data p (run_pool r') = CRYPTO_BUFFER_data p (run_pool r)"
    if "pool_call_ok c r" "pool_exec c r = Some r'" "0 < run_refs r p" "0 < run_refs r' p" for c r' p
    using pool_exec_ok [OF inv that(1)] that(2-4) unfolding CRYPTO_BUFFER_data_def by (metis option.inject)
  assume none: "run_pending r = {}" "\<forall>p. run_refs r p = 0"
    and sat: "\<forall>p b. pool_mem (run_pool r) p = Some b \<longrightarrow> buf_references b \<noteq> CRYPTO_REFCOUNT_MAX"
  have "pool_mem (run_pool r) p = None" for p
  proof (rule ccontr)
    assume "pool_mem (run_pool r) p \<noteq> None"
    then obtain b where b: "pool_mem (run_pool r) p = Some b" by blast
    with I(3) [OF b] none sat show False by (auto simp: unat_eq_zero)
  qed
  then show mem: "pool_mem (run_pool r) = (\<lambda>_. None)" by blast
  have "table_data (pool_bufs (run_pool r)) = {}" using table_okD [OF I(1)] by (fastforce simp: mem)
  then have "lh_items (pool_bufs (run_pool r)) = []" by (simp add: table_data_def)
  then show "CRYPTO_BUFFER_POOL_free_ok (run_pool r)"
    using I(1) by (simp add: CRYPTO_BUFFER_POOL_free_ok_def OPENSSL_lh_num_items_def table_ok_def lh_wf_def)
qed

text \<open>C24. \<open>crypto_buffer_new\<close> with the pool, in any state that concurrent calls can leave, seen as a map from contents to
  buffers: a duplicate is shared, unless it is not static and the new data are; else the new buffer takes the
  entry of its contents.  It fails only when \<open>malloc\<close> does: surely when it has no memory for the object, or for the copy of
  data that are not static and not empty, and otherwise only when the table has none for a new item; then
  nothing has changed.  The buffer returned has the contents asked for.\<close>

theorem crypto_buffer_new_refines_map:
  assumes "pool_reachable r" "pool_mem (run_pool r) p = None" "num_items (pool_bufs (run_pool r)) + 1 < size_mod"
  shows "\<exists>q s. crypto_buffer_new al p data st True (run_pool r) = Some (q, s) \<and>
    (case usable_duplicate st (pool_mem (run_pool r)) (pool_map (run_pool r) data) of
       Some q0 \<Rightarrow> q = Some q0 \<and> pool_map s = pool_map (run_pool r)
     | None \<Rightarrow>
         q = Some p \<and> pool_map s = (pool_map (run_pool r))(data \<mapsto> p) \<and> buffer_memory al st data
         \<or> q = None \<and> pool_map s = pool_map (run_pool r) \<and> pool_mem s = pool_mem (run_pool r) \<and>
           (\<not> buffer_memory al st data \<or> OPENSSL_malloc al 24 = None)) \<and>
    (\<forall>q1. q = Some q1 \<longrightarrow> CRYPTO_BUFFER_data q1 s = data)"
proof -
  let ?s = "run_pool r"
  note inv = pool_reachable_inv [OF assms(1)]
  note p = assms(2)
  show ?thesis
  proof (cases rule: crypto_buffer_lookup_ok [OF inv p, where data = data and st = st])
    case (2 q m)
    then show ?thesis
      by (intro exI [of _ "Some q"] exI [of _ "?s\<lparr>pool_mem := m\<rparr>"])
        (simp add: crypto_buffer_new_def CRYPTO_BUFFER_data_def pool_map_def)
  next
    case miss: 1
    show ?thesis
    proof (cases "crypto_buffer_make al p data st True ?s")
      case None
      with miss show ?thesis
        using crypto_buffer_make_None [of al p data st True ?s]
        by (intro exI [of _ None] exI [of _ ?s]) (simp add: crypto_buffer_new_def)
    next
      case (Some s1)
      note make = crypto_buffer_make_ok [OF inv p Some]
      have memory: "buffer_memory al st data" using crypto_buffer_make_None [of al p data st True ?s] Some by simp
      have s1: "pool_bufs s1 = pool_bufs ?s"
        using Some by (cases rule: crypto_buffer_make_cases [of al p data st True ?s]) auto
      have notin: "p \<notin> table_data (pool_bufs ?s)" using table_okD [OF pool_invD(1) [OF inv], of p] p by auto
      have map1: "pool_map s1 = pool_map ?s"
        unfolding pool_map_def s1
        by (rule lh_map_cong) (use make(3) notin in \<open>auto simp: table_data_def buf_bytes_def\<close>)
      have dup: "usable_duplicate st (pool_mem s1) (pool_map s1 data) = None"
      proof (cases "pool_map ?s data")
        case None
        then show ?thesis by (simp add: map1 usable_duplicate_def)
      next
        case (Some q)
        then obtain b where b: "pool_mem ?s q = Some b"
          using miss(2) by (cases "pool_mem ?s q") (simp_all add: usable_duplicate_def)
        then have "q \<noteq> p" using p by auto
        then have "pool_mem s1 q = pool_mem ?s q" using make(3) by blast
        with Some b miss(2) show ?thesis by (simp add: map1 usable_duplicate_def)
      qed
      have room: "num_items (pool_bufs s1) + 1 < size_mod" using assms(3) by (simp add: s1)
      show ?thesis
      proof (cases rule: crypto_buffer_insert_ok [OF make(1) insertI1 room, where al = al and st = st])
        case (1 s')
        have mem: "pool_mem s' = pool_mem ?s" using 1(5) make(3) p by auto
        then have "pool_map s' = pool_map ?s" using 1(6) s1 by (simp add: pool_map_def)
        with 1 miss Some mem memory show ?thesis
          by (intro exI [of _ None] exI [of _ s']) (simp add: crypto_buffer_new_def)
      next
        case (2 s')
        with miss Some make(2) map1 memory show ?thesis
          by (intro exI [of _ "Some p"] exI [of _ s']) (simp add: crypto_buffer_new_def CRYPTO_BUFFER_data_def)
      next
        case (3 q s')
        with dup make(2) show ?thesis by simp
      qed
    qed
  qed
qed

text \<open>Runs for the concrete examples.\<close>

fun pool_runs :: "pool_call list \<Rightarrow> pool_run \<Rightarrow> pool_run option" where
  "pool_runs [] r = Some r"
| "pool_runs (c # cs) r =
     (if pool_call_ok c r then Option.bind (pool_exec c r) (pool_runs cs) else None)"

lemma pool_runs_reachable: "pool_reachable r \<Longrightarrow> pool_runs cs r = Some r' \<Longrightarrow> pool_reachable r'"
proof (induction cs arbitrary: r)
  case (Cons c cs)
  then show ?case
    by (auto split: if_splits bind_splits intro: pool_reachable.call)
qed simp

definition example_run :: pool_run where
  "example_run = \<lparr>run_pool = the (CRYPTO_BUFFER_POOL_new good_allocator (\<lambda>_. None)),
     run_refs = (\<lambda>_. 0), run_pending = {}\<rparr>"

lemma example_run_reachable: "pool_reachable example_run"
proof -
  have "CRYPTO_BUFFER_POOL_new good_allocator (\<lambda>_. None) \<noteq> None"
    by (simp add: CRYPTO_BUFFER_POOL_new_def OPENSSL_lh_new_def OPENSSL_malloc_def good_allocator_def kMinNumBuckets_def)
  then show ?thesis unfolding example_run_def by (auto intro: pool_reachable.init)
qed

text \<open>Two threads that make the same buffer at the same time: the second to insert gets the buffer of the
  first.\<close>

lemma pool_interleavings_safe_witness:
  "\<exists>r. pool_reachable r \<and> run_refs r 7 = 2 \<and> pool_exec (Free good_allocator 7) r \<noteq> None"
proof -
  define cs where "cs = [Lookup 7 [1, 2] False, Lookup 8 [1, 2] False, Make good_allocator 7 [1, 2] False,
    Make good_allocator 8 [1, 2] False, Insert good_allocator 7, Insert good_allocator 8]"
  have "map_option (\<lambda>r. (run_refs r 7, pool_mem (run_pool r) 8 = None)) (pool_runs cs example_run) = Some (2, True)"
    unfolding cs_def by code_simp
  then obtain r where r: "pool_runs cs example_run = Some r" "run_refs r 7 = 2" by auto
  note reach = pool_runs_reachable [OF example_run_reachable r(1)]
  have "pool_call_ok (Free good_allocator 7) r" by (simp add: r(2))
  then have "pool_exec (Free good_allocator 7) r \<noteq> None"
    using pool_interleavings_safe [OF reach] by blast
  with reach r(2) show ?thesis by blast
qed

lemma pool_immutable_no_leak_witness:
  "\<exists>r. pool_runs [New_unpooled good_allocator 7 [5] True, Free good_allocator 7] example_run = Some r \<and>
    CRYPTO_BUFFER_POOL_free_ok (run_pool r)"
proof -
  obtain r where r: "pool_runs [New_unpooled good_allocator 7 [5] True, Free good_allocator 7] example_run = Some r"
    "run_pending r = {}" "run_refs r = (\<lambda>_. 0)" "pool_mem (run_pool r) = (\<lambda>_. None)"
    by (simp add: example_run_def CRYPTO_BUFFER_POOL_new_def OPENSSL_lh_new_def OPENSSL_malloc_def
        good_allocator_def kMinNumBuckets_def crypto_buffer_new_def crypto_buffer_make_def gain_def
        CRYPTO_BUFFER_free_def CRYPTO_refcount_dec_and_test_zero_def CRYPTO_REFCOUNT_MAX_def
        crypto_buffer_free_object_def Let_def fun_upd_def fun_eq_iff)
  with pool_immutable_no_leak [OF pool_runs_reachable [OF example_run_reachable r(1)]]
  show ?thesis by simp
qed

lemma crypto_buffer_new_refines_map_witness:
  "\<exists>s. crypto_buffer_new good_allocator 7 [1, 2] False True (run_pool example_run) = Some (Some 7, s) \<and>
    CRYPTO_BUFFER_data 7 s = [1, 2]"
proof -
  have "map_option fst (crypto_buffer_new good_allocator 7 [1, 2] False True (run_pool example_run)) = Some (Some 7)"
    by code_simp
  moreover have "pool_mem (run_pool example_run) 7 = None" "num_items (pool_bufs (run_pool example_run)) + 1 < size_mod"
    by code_simp+
  ultimately show ?thesis
    using crypto_buffer_new_refines_map [OF example_run_reachable, of 7 good_allocator "[1, 2]" False] by auto
qed

text \<open>C8. The hash table with the functions of the pool is a map from contents to buffers: retrieval looks the key up,
  insertion updates the map and returns the entry it replaces, or changes nothing when memory has run out,
  deletion removes the entry and returns it; the rehashing that follows is invisible, and the invariant of
  the table is kept.\<close>

theorem lhash_refines_map:
  assumes "lh_wf (CRYPTO_BUFFER_hash m) (buf_bytes m) lh" "num_items lh + 1 < size_mod"
    and "OPENSSL_lh_insert al lh d (\<lambda>_. CRYPTO_BUFFER_hash m) (\<lambda>_. CRYPTO_BUFFER_cmp m) = (ok, old, lh1)"
    and "OPENSSL_lh_delete al lh d (\<lambda>_. CRYPTO_BUFFER_hash m) (\<lambda>_. CRYPTO_BUFFER_cmp m) = (gone, lh2)"
  shows "OPENSSL_lh_retrieve lh d (\<lambda>_. CRYPTO_BUFFER_hash m) (\<lambda>_. CRYPTO_BUFFER_cmp m)
      = lh_map (buf_bytes m) lh (buf_bytes m d)
    \<and> old = lh_map (buf_bytes m) lh (buf_bytes m d) \<and> gone = lh_map (buf_bytes m) lh (buf_bytes m d)
    \<and> lh_map (buf_bytes m) lh1 = (if ok then (lh_map (buf_bytes m) lh)(buf_bytes m d \<mapsto> d) else lh_map (buf_bytes m) lh)
    \<and> (ok \<or> lh1 = lh \<and> OPENSSL_malloc al 24 = None)
    \<and> lh_map (buf_bytes m) lh2 = (lh_map (buf_bytes m) lh)(buf_bytes m d := None)
    \<and> lh_wf (CRYPTO_BUFFER_hash m) (buf_bytes m) lh1 \<and> lh_wf (CRYPTO_BUFFER_hash m) (buf_bytes m) lh2
    \<and> num_items lh1 = card (dom (lh_map (buf_bytes m) lh1))"
  using buffers.retrieve_map [OF assms(1) refl refl, of d] buffers.insert_map [OF assms(1) refl refl assms(2,3)]
    buffers.delete_map [OF assms(1) refl refl assms(4)] lh_wf_card [OF buffers.insert_map(1) [OF assms(1) refl refl assms(2,3)]]
  by (cases ok) simp_all

definition example_mem :: buf_mem where
  "example_mem = (\<lambda>_. None)(
     7 \<mapsto> \<lparr>buf_pool = True, buf_data = [1, 2], buf_references = 1, buf_static = False\<rparr>,
     8 \<mapsto> \<lparr>buf_pool = True, buf_data = [1, 2], buf_references = 1, buf_static = False\<rparr>)"

lemma lhash_refines_map_witness:
  "\<exists>lh lh1 lh2. OPENSSL_lh_new good_allocator () () = Some lh \<and>
    OPENSSL_lh_insert good_allocator lh 7 (\<lambda>_. CRYPTO_BUFFER_hash example_mem) (\<lambda>_. CRYPTO_BUFFER_cmp example_mem)
      = (True, None, lh1) \<and>
    OPENSSL_lh_insert good_allocator lh1 8 (\<lambda>_. CRYPTO_BUFFER_hash example_mem) (\<lambda>_. CRYPTO_BUFFER_cmp example_mem)
      = (True, Some 7, lh2) \<and>
    lh_map (buf_bytes example_mem) lh1 [1, 2] = Some 7 \<and> lh_map (buf_bytes example_mem) lh2 [1, 2] = Some 8"
proof -
  let ?h = "\<lambda>_ :: unit. CRYPTO_BUFFER_hash example_mem" and ?c = "\<lambda>_ :: unit. CRYPTO_BUFFER_cmp example_mem"
  obtain lh :: "(unit, unit, nat) lhash" where lh: "OPENSSL_lh_new good_allocator () () = Some lh"
    by (simp add: OPENSSL_lh_new_def OPENSSL_malloc_def good_allocator_def kMinNumBuckets_def)
  then have lh_eq: "lh = the (OPENSSL_lh_new good_allocator () ())" by simp
  define lh1 where "lh1 = snd (snd (OPENSSL_lh_insert good_allocator lh 7 ?h ?c))"
  define lh2 where "lh2 = snd (snd (OPENSSL_lh_insert good_allocator lh1 8 ?h ?c))"
  have "(\<lambda>(ok, old, _). (ok, old)) (OPENSSL_lh_insert good_allocator lh 7 ?h ?c) = (True, None)"
    "(\<lambda>(ok, old, _). (ok, old)) (OPENSSL_lh_insert good_allocator lh1 8 ?h ?c) = (True, Some 7)"
    unfolding lh1_def lh_eq by code_simp+
  then have ins: "OPENSSL_lh_insert good_allocator lh 7 ?h ?c = (True, None, lh1)"
    "OPENSSL_lh_insert good_allocator lh1 8 ?h ?c = (True, Some 7, lh2)"
    by (auto simp: lh1_def lh2_def split: prod.splits)
  have items: "num_items lh + 1 < size_mod" "num_items lh1 + 1 < size_mod"
    unfolding lh1_def lh_eq by code_simp+
  obtain gone lh3 where del: "OPENSSL_lh_delete good_allocator lh 7 ?h ?c = (gone, lh3)" by (rule prod.exhaust)
  obtain gone' lh4 where del': "OPENSSL_lh_delete good_allocator lh1 8 ?h ?c = (gone', lh4)" by (rule prod.exhaust)
  note new = OPENSSL_lh_new_map(1) [OF lh, of "CRYPTO_BUFFER_hash example_mem" "buf_bytes example_mem"]
  have one: "lh_map (buf_bytes example_mem) lh1 = (lh_map (buf_bytes example_mem) lh)(buf_bytes example_mem 7 \<mapsto> 7)"
    "lh_wf (CRYPTO_BUFFER_hash example_mem) (buf_bytes example_mem) lh1"
    using lhash_refines_map [OF new items(1) ins(1) del] by simp_all
  have two: "lh_map (buf_bytes example_mem) lh2 = (lh_map (buf_bytes example_mem) lh1)(buf_bytes example_mem 8 \<mapsto> 8)"
    using lhash_refines_map [OF one(2) items(2) ins(2) del'] by simp
  have "buf_bytes example_mem 7 = [1, 2]" "buf_bytes example_mem 8 = [1, 2]"
    by (simp_all add: buf_bytes_def example_mem_def)
  with lh ins one(1) two show ?thesis by (intro exI [of _ lh] exI [of _ lh1] exI [of _ lh2]) simp
qed

text \<open>C25. When memory is granted and no iteration is under way, insertion and deletion keep the chains short: fewer than
  three items to a bucket on average, and at least as many items as buckets once the table has grown, with a
  number of buckets that is a power of two times the minimum.\<close>

theorem lhash_stays_balanced:
  assumes "lh_balanced lh" "lh_wf (CRYPTO_BUFFER_hash m) (buf_bytes m) lh" "callback_depth lh = 0"
    and "\<And>n. n \<le> 16 * num_buckets lh \<Longrightarrow> OPENSSL_malloc al n \<noteq> None" "16 * num_buckets lh < size_mod"
    and "OPENSSL_lh_insert al lh d (\<lambda>_. CRYPTO_BUFFER_hash m) (\<lambda>_. CRYPTO_BUFFER_cmp m) = (ok, old, lh1)"
    and "OPENSSL_lh_delete al lh d (\<lambda>_. CRYPTO_BUFFER_hash m) (\<lambda>_. CRYPTO_BUFFER_cmp m) = (gone, lh2)"
  shows "ok \<and> lh_balanced lh1 \<and> lh_balanced lh2"
proof (intro conjI)
  have len: "length (buckets lh) = num_buckets lh" "16 \<le> num_buckets lh"
    using assms(2) by (simp_all add: lh_wf_def kMinNumBuckets_def)
  have "num_items lh + 1 < size_mod" using assms(1,5) unfolding lh_balanced_def by linarith
  moreover have "OPENSSL_malloc al 24 \<noteq> None" using assms(4) [of 24] len(2) by simp
  ultimately show "ok"
    using buffers.insert_map(4) [OF assms(2) refl refl _ assms(6)] by argo
  show "lh_balanced lh1" by (rule OPENSSL_lh_insert_balanced [OF assms(1) len(1) assms(3-6)])
  show "lh_balanced lh2"
  proof (cases "num_items lh = 0")
    case True
    then have "lh_items lh = []" using assms(2) by (simp add: lh_wf_def)
    then have "lh_map (buf_bytes m) lh (buf_bytes m d) = None" by (simp add: lh_map_def)
    then have "lh2 = lh" using buffers.delete_absent [OF assms(2) refl refl] assms(7) by simp
    with assms(1) show ?thesis by simp
  next
    case False
    then show ?thesis using OPENSSL_lh_delete_balanced [OF assms(1) len(1) assms(3) _ assms(4,5,7)] by simp
  qed
qed

lemma lhash_stays_balanced_witness:
  "\<exists>lh lh1. OPENSSL_lh_new good_allocator () () = Some lh \<and>
    OPENSSL_lh_insert good_allocator lh 7 (\<lambda>_. CRYPTO_BUFFER_hash example_mem) (\<lambda>_. CRYPTO_BUFFER_cmp example_mem)
      = (True, None, lh1) \<and> lh_balanced lh1"
proof -
  let ?h = "\<lambda>_ :: unit. CRYPTO_BUFFER_hash example_mem" and ?c = "\<lambda>_ :: unit. CRYPTO_BUFFER_cmp example_mem"
  obtain lh :: "(unit, unit, nat) lhash" where lh: "OPENSSL_lh_new good_allocator () () = Some lh"
    by (simp add: OPENSSL_lh_new_def OPENSSL_malloc_def good_allocator_def kMinNumBuckets_def)
  then have lh_eq: "lh = the (OPENSSL_lh_new good_allocator () ())" by simp
  obtain ok old lh1 where ins: "OPENSSL_lh_insert good_allocator lh 7 ?h ?c = (ok, old, lh1)"
    by (cases rule: prod_cases3)
  obtain gone lh2 where del: "OPENSSL_lh_delete good_allocator lh 7 ?h ?c = (gone, lh2)" by (rule prod.exhaust)
  note new = OPENSSL_lh_new_map(1) [OF lh, where hashf = "CRYPTO_BUFFER_hash example_mem" and key = "buf_bytes example_mem"]
    OPENSSL_lh_new_map(2-5) [OF lh]
  have "lh_balanced lh"
    using new(3,5) by (auto simp: lh_balanced_def kMinNumBuckets_def intro: exI [of _ 0])
  moreover have "OPENSSL_malloc good_allocator n \<noteq> None" if "n \<le> 16 * num_buckets lh" for n
    using that new(5) by (simp add: OPENSSL_malloc_def good_allocator_def kMinNumBuckets_def)
  moreover have "16 * num_buckets lh < size_mod" using new(5) by (simp add: kMinNumBuckets_def)
  ultimately have "ok" "lh_balanced lh1"
    using lhash_stays_balanced [OF _ new(1) new(4) _ _ ins del] by blast+
  moreover have "old = None"
    using buffers.insert_map(3) [OF new(1) refl refl _ ins] by (simp add: new(2,3))
  ultimately show ?thesis using lh ins by (intro exI [of _ lh] exI [of _ lh1]) simp
qed

text \<open>The lock-free counter operations take effect at one instant: what they store is what the operation
  under the lock makes of the value the counter then has, and a thread that stores nothing has seen a value
  that the operation does not change.\<close>

lemma refcount_inc_c11_atomic:
  "refcount_inc_c11 expected trace = Some r \<Longrightarrow>
    \<exists>c \<in> insert expected (fst ` set trace). CRYPTO_refcount_inc c = (case r of None \<Rightarrow> c | Some v \<Rightarrow> v)"
proof (induction expected trace rule: refcount_inc_c11.induct)
  case (1 expected)
  then show ?case by (auto simp: CRYPTO_refcount_inc_def split: if_splits)
next
  case (2 expected n fails later)
  show ?case
  proof (cases "expected = CRYPTO_REFCOUNT_MAX")
    case True
    with 2(2) show ?thesis by (auto simp: CRYPTO_refcount_inc_def)
  next
    case False
    then have less: "expected < CRYPTO_REFCOUNT_MAX" using not_less_REFCOUNT_MAX by blast
    show ?thesis
    proof (cases "n = expected \<and> \<not> fails")
      case True
      with 2(2) False less show ?thesis by (auto simp: CRYPTO_refcount_inc_def Let_def)
    next
      case again: False
      then have "refcount_inc_c11 n later = Some r" using 2(2) False by (auto simp: Let_def split: if_splits)
      with 2(1) [OF False refl] again show ?thesis by auto
    qed
  qed
qed

lemma refcount_dec_c11_atomic:
  "refcount_dec_c11 expected trace = Some r \<Longrightarrow>
    \<exists>c \<in> insert expected (fst ` set trace).
      CRYPTO_refcount_dec_and_test_zero c
        = map_option (\<lambda>(zero, v). (zero, case v of None \<Rightarrow> c | Some v \<Rightarrow> v)) r"
proof (induction expected trace rule: refcount_dec_c11.induct)
  case (1 expected)
  then show ?case by (auto simp: CRYPTO_refcount_dec_and_test_zero_def CRYPTO_REFCOUNT_MAX_def split: if_splits)
next
  case (2 expected n fails later)
  show ?case
  proof (cases "expected = 0 \<or> expected = CRYPTO_REFCOUNT_MAX")
    case True
    with 2(2) show ?thesis
      by (auto simp: CRYPTO_refcount_dec_and_test_zero_def CRYPTO_REFCOUNT_MAX_def)
  next
    case False
    then have less: "expected < CRYPTO_REFCOUNT_MAX" using not_less_REFCOUNT_MAX by blast
    show ?thesis
    proof (cases "n = expected \<and> \<not> fails")
      case True
      with 2(2) False less show ?thesis by (auto simp: CRYPTO_refcount_dec_and_test_zero_def Let_def)
    next
      case again: False
      then have "refcount_dec_c11 n later = Some r" using 2(2) False by (auto simp: Let_def split: if_splits)
      with 2(1) False again show ?thesis by auto
    qed
  qed
qed

end
