(* ===== verification/Ossl_Stack.thy ===== *)
theory Ossl_Stack
  imports Ossl_Mem "HOL-Library.Multiset" "HOL-Library.List_Lexorder"
begin

text \<open>
  The stack of pointers of BoringSSL (\<^verbatim>\<open>crypto/stack/stack.c\<close>) and a list of strings without duplicates that is
  built on it (\<open>append_ia5\<close> of \<^verbatim>\<open>crypto/x509v3/v3_utl.c\<close>, the e-mail addresses of a certificate).

  A \<open>_STACK *\<close> is \<open>None\<close> for \<open>NULL\<close>; an element is \<open>None\<close> for a \<open>NULL\<close> pointer.  The array is the list of its
  \<open>num_alloc\<close> cells; what a fresh cell holds is the parameter \<open>fresh\<close>.  An access outside the array makes an
  operation \<open>None\<close>.  What \<open>free\<close> gets is forgotten: that the list and the copy of the string are released when
  \<open>append_ia5\<close> fails is not stated.  The comparison function stays an opaque pointer that the helper of the
  call interprets, and \<open>qsort\<close> of the C library is a parameter.
\<close>

section \<open>State\<close>

definition kMinSize :: nat where "kMinSize = 4"

record ('p, 'c) stack_st =
  st_num :: nat
  st_data :: "'p option list"
  st_sorted :: bool
  st_num_alloc :: nat
  st_comp :: "'c option"

type_synonym ('p, 'c) stack = "('p, 'c) stack_st option"

text \<open>Array accesses: \<open>data[i] = p\<close>, and \<open>memmove\<close> of \<open>n\<close> cells from index \<open>src\<close> to index \<open>dst\<close>.\<close>

definition arr_put :: "'a list \<Rightarrow> nat \<Rightarrow> 'a \<Rightarrow> 'a list option" where
  "arr_put xs i x = (if i < length xs then Some (xs[i := x]) else None)"

definition arr_move :: "'a list \<Rightarrow> nat \<Rightarrow> nat \<Rightarrow> nat \<Rightarrow> 'a list option" where
  "arr_move xs dst src n =
     (if dst + n \<le> length xs \<and> src + n \<le> length xs
      then Some (take dst xs @ take n (drop src xs) @ drop (dst + n) xs) else None)"

section \<open>Operations\<close>

definition sk_new :: "allocator \<Rightarrow> 'c option \<Rightarrow> ('p, 'c) stack" where
  "sk_new al cmp =
     (case OPENSSL_malloc al 40 of
        None \<Rightarrow> None
      | Some _ \<Rightarrow>
          (case OPENSSL_malloc al (8 * kMinSize) of
             None \<Rightarrow> None
           | Some _ \<Rightarrow>
               Some \<lparr>st_num = 0, st_data = replicate kMinSize None, st_sorted = False,
                 st_num_alloc = kMinSize, st_comp = cmp\<rparr>))"

definition sk_new_null :: "allocator \<Rightarrow> ('p, 'c) stack" where
  "sk_new_null al = sk_new al None"

definition sk_num :: "('p, 'c) stack \<Rightarrow> nat" where
  "sk_num sk = (case sk of None \<Rightarrow> 0 | Some s \<Rightarrow> st_num s)"

definition sk_zero :: "('p, 'c) stack \<Rightarrow> ('p, 'c) stack" where
  "sk_zero sk =
     (case sk of
        None \<Rightarrow> None
      | Some s \<Rightarrow>
          (if st_num s = 0 then Some s
           else Some (s\<lparr>st_data := replicate (st_num s) None @ drop (st_num s) (st_data s),
                        st_num := 0, st_sorted := False\<rparr>)))"

definition sk_value :: "('p, 'c) stack \<Rightarrow> nat \<Rightarrow> 'p option" where
  "sk_value sk i =
     (case sk of None \<Rightarrow> None | Some s \<Rightarrow> if i \<ge> st_num s then None else st_data s ! i)"

definition sk_set :: "('p, 'c) stack \<Rightarrow> nat \<Rightarrow> 'p option \<Rightarrow> ('p option \<times> ('p, 'c) stack) option" where
  "sk_set sk i p =
     (case sk of
        None \<Rightarrow> Some (None, None)
      | Some s \<Rightarrow>
          (if i \<ge> st_num s then Some (None, Some s)
           else case arr_put (st_data s) i p of
                  None \<Rightarrow> None
                | Some d \<Rightarrow> Some (p, Some (s\<lparr>st_data := d\<rparr>))))"

text \<open>\<open>sk_pop_free_ex\<close> calls the function on the elements; the state is what the calls work on.\<close>

definition sk_pop_free_ex :: "('p, 'c) stack \<Rightarrow> ('p \<Rightarrow> 's \<Rightarrow> 's) \<Rightarrow> 's \<Rightarrow> 's" where
  "sk_pop_free_ex sk free_func w =
     (case sk of
        None \<Rightarrow> w
      | Some s \<Rightarrow>
          foldl (\<lambda>w i. case st_data s ! i of None \<Rightarrow> w | Some p \<Rightarrow> free_func p w) w [0..<st_num s])"

text \<open>The version that calls the function itself, by way of \<open>call_free_func_legacy\<close>.\<close>

definition sk_pop_free :: "('p, 'c) stack \<Rightarrow> ('p \<Rightarrow> 's \<Rightarrow> 's) \<Rightarrow> 's \<Rightarrow> 's" where
  "sk_pop_free sk free_func w = sk_pop_free_ex sk (\<lambda>p. free_func p) w"

text \<open>The growth of the array in \<open>sk_insert\<close>; \<open>None\<close> when it is not possible.\<close>

definition sk_grow :: "allocator \<Rightarrow> (nat \<Rightarrow> 'p option) \<Rightarrow> ('p, 'c) stack_st \<Rightarrow> ('p, 'c) stack_st option" where
  "sk_grow al fresh s =
     (let new_alloc = st_num_alloc s * 2 mod size_mod;
          alloc_size = new_alloc * 8 mod size_mod;
          new_alloc = (if new_alloc < st_num_alloc s \<or> alloc_size div 8 \<noteq> new_alloc
                       then (st_num_alloc s + 1) mod size_mod else new_alloc);
          alloc_size = new_alloc * 8 mod size_mod in
      if new_alloc < st_num_alloc s \<or> alloc_size div 8 \<noteq> new_alloc then None
      else case OPENSSL_malloc al alloc_size of
             None \<Rightarrow> None
           | Some _ \<Rightarrow>
               Some (s\<lparr>st_data := take new_alloc (st_data s @ map fresh [length (st_data s)..<new_alloc]),
                       st_num_alloc := new_alloc\<rparr>))"

definition sk_insert ::
    "allocator \<Rightarrow> (nat \<Rightarrow> 'p option) \<Rightarrow> ('p, 'c) stack \<Rightarrow> 'p option \<Rightarrow> nat \<Rightarrow> (nat \<times> ('p, 'c) stack) option" where
  "sk_insert al fresh sk p pos =
     (case sk of
        None \<Rightarrow> Some (0, None)
      | Some s \<Rightarrow>
     (case (if st_num_alloc s \<le> (st_num s + 1) mod size_mod then sk_grow al fresh s else Some s) of
        None \<Rightarrow> Some (0, Some s)
      | Some s \<Rightarrow>
     (case (if pos \<ge> st_num s then arr_put (st_data s) (st_num s) p
            else case arr_move (st_data s) (pos + 1) pos (st_num s - pos) of
                   None \<Rightarrow> None
                 | Some d \<Rightarrow> arr_put d pos p) of
        None \<Rightarrow> None
      | Some d \<Rightarrow>
          (let s = s\<lparr>st_data := d, st_num := (st_num s + 1) mod size_mod, st_sorted := False\<rparr>
           in Some (st_num s, Some s)))))"

definition sk_delete :: "('p, 'c) stack \<Rightarrow> nat \<Rightarrow> ('p option \<times> ('p, 'c) stack) option" where
  "sk_delete sk pos =
     (case sk of
        None \<Rightarrow> Some (None, None)
      | Some s \<Rightarrow>
          (if pos \<ge> st_num s then Some (None, Some s)
           else
             (let ret = st_data s ! pos in
              case (if pos \<noteq> st_num s - 1
                    then arr_move (st_data s) pos (pos + 1) (st_num s - pos - 1) else Some (st_data s)) of
                None \<Rightarrow> None
              | Some d \<Rightarrow> Some (ret, Some (s\<lparr>st_data := d, st_num := st_num s - 1\<rparr>)))))"

text \<open>The linear searches: \<open>n\<close> elements from index \<open>i\<close> on.\<close>

fun sk_scan :: "('a \<Rightarrow> bool) \<Rightarrow> 'a list \<Rightarrow> nat \<Rightarrow> nat \<Rightarrow> nat option" where
  "sk_scan eq xs i 0 = None"
| "sk_scan eq xs i (Suc n) = (if eq (xs ! i) then Some i else sk_scan eq xs (Suc i) n)"

definition sk_delete_ptr :: "('p, 'c) stack \<Rightarrow> 'p option \<Rightarrow> ('p option \<times> ('p, 'c) stack) option" where
  "sk_delete_ptr sk p =
     (case sk of
        None \<Rightarrow> Some (None, None)
      | Some s \<Rightarrow>
          (case sk_scan (\<lambda>e. e = p) (st_data s) 0 (st_num s) of
             Some i \<Rightarrow> sk_delete sk i
           | None \<Rightarrow> Some (None, sk)))"

text \<open>The binary search; \<open>cmp\<close> compares the wanted element with the argument.\<close>

function sk_bsearch :: "('a \<Rightarrow> int) \<Rightarrow> 'a list \<Rightarrow> nat \<Rightarrow> nat \<Rightarrow> nat option" where
  "sk_bsearch cmp xs lo hi =
     (if lo < hi then
        (let mid = lo + (hi - lo - 1) div 2; r = cmp (xs ! mid) in
         if r > 0 then sk_bsearch cmp xs (mid + 1) hi
         else if r < 0 then sk_bsearch cmp xs lo mid
         else if hi - lo = 1 then Some mid
         else sk_bsearch cmp xs lo (mid + 1))
      else None)"
  by pat_completeness auto
termination by (relation "measure (\<lambda>(cmp, xs, lo, hi). hi - lo)") auto

definition sk_is_sorted :: "('p, 'c) stack \<Rightarrow> bool" where
  "sk_is_sorted sk = (case sk of None \<Rightarrow> True | Some s \<Rightarrow> st_sorted s)"

text \<open>The result is \<open>*out_index\<close> when an element is found.\<close>

definition sk_find :: "('p, 'c) stack \<Rightarrow> 'p option \<Rightarrow> ('c \<Rightarrow> 'p option \<Rightarrow> 'p option \<Rightarrow> int) \<Rightarrow> nat option" where
  "sk_find sk p call_cmp =
     (case sk of
        None \<Rightarrow> None
      | Some s \<Rightarrow>
          (case st_comp s of
             None \<Rightarrow> sk_scan (\<lambda>e. e = p) (st_data s) 0 (st_num s)
           | Some cmp \<Rightarrow>
               (if p = None then None
                else if \<not> sk_is_sorted sk
                then sk_scan (\<lambda>e. call_cmp cmp p e = 0) (st_data s) 0 (st_num s)
                else sk_bsearch (call_cmp cmp p) (st_data s) 0 (st_num s))))"

definition sk_shift :: "('p, 'c) stack \<Rightarrow> ('p option \<times> ('p, 'c) stack) option" where
  "sk_shift sk =
     (case sk of
        None \<Rightarrow> Some (None, None)
      | Some s \<Rightarrow> if st_num s = 0 then Some (None, Some s) else sk_delete sk 0)"

definition sk_push ::
    "allocator \<Rightarrow> (nat \<Rightarrow> 'p option) \<Rightarrow> ('p, 'c) stack_st \<Rightarrow> 'p option \<Rightarrow> (nat \<times> ('p, 'c) stack) option" where
  "sk_push al fresh s p = sk_insert al fresh (Some s) p (st_num s)"

definition sk_pop :: "('p, 'c) stack \<Rightarrow> ('p option \<times> ('p, 'c) stack) option" where
  "sk_pop sk =
     (case sk of
        None \<Rightarrow> Some (None, None)
      | Some s \<Rightarrow> if st_num s = 0 then Some (None, Some s) else sk_delete sk (st_num s - 1))"

definition sk_dup :: "allocator \<Rightarrow> (nat \<Rightarrow> 'p option) \<Rightarrow> ('p, 'c) stack \<Rightarrow> ('p, 'c) stack" where
  "sk_dup al fresh sk =
     (case sk of
        None \<Rightarrow> None
      | Some s \<Rightarrow>
          (case OPENSSL_malloc al 40 of
             None \<Rightarrow> None
           | Some _ \<Rightarrow>
               (case OPENSSL_malloc al (8 * st_num_alloc s mod size_mod) of
                  None \<Rightarrow> None
                | Some _ \<Rightarrow>
                    Some \<lparr>st_num = st_num s,
                      st_data = take (st_num s) (st_data s) @ map fresh [st_num s..<st_num_alloc s],
                      st_sorted = st_sorted s, st_num_alloc = st_num_alloc s, st_comp = st_comp s\<rparr>)))"

definition sk_sort ::
    "(('p option \<Rightarrow> 'p option \<Rightarrow> int) \<Rightarrow> 'p option list \<Rightarrow> 'p option list) \<Rightarrow>
     ('c \<Rightarrow> 'p option \<Rightarrow> 'p option \<Rightarrow> int) \<Rightarrow> ('p, 'c) stack \<Rightarrow> ('p, 'c) stack" where
  "sk_sort qsort call_cmp sk =
     (case sk of
        None \<Rightarrow> None
      | Some s \<Rightarrow>
          (case st_comp s of
             None \<Rightarrow> Some s
           | Some cmp \<Rightarrow>
               (if st_sorted s then Some s
                else
                  (let s = (if st_num s \<ge> 2
                            then s\<lparr>st_data := qsort (call_cmp cmp) (take (st_num s) (st_data s))
                              @ drop (st_num s) (st_data s)\<rparr>
                            else s)
                   in Some (s\<lparr>st_sorted := True\<rparr>)))))"

definition sk_set_cmp_func :: "('p, 'c) stack_st \<Rightarrow> 'c option \<Rightarrow> 'c option \<times> ('p, 'c) stack_st" where
  "sk_set_cmp_func s cmp =
     (let old = st_comp s;
          s = (if st_comp s \<noteq> cmp then s\<lparr>st_sorted := False\<rparr> else s)
      in (old, s\<lparr>st_comp := cmp\<rparr>))"

text \<open>The loop of \<open>sk_deep_copy\<close> over the indices; the copies made so far are freed when one fails.  The
  state is what copying and freeing work on.\<close>

fun deep_copy_loop ::
    "('p \<Rightarrow> 's \<Rightarrow> 'p option \<times> 's) \<Rightarrow> ('p \<Rightarrow> 's \<Rightarrow> 's) \<Rightarrow> nat \<Rightarrow> nat \<Rightarrow> 'p option list \<Rightarrow> 's \<Rightarrow> 'p option list option \<times> 's"
where
  "deep_copy_loop copy_func free_func i 0 d w = (Some d, w)"
| "deep_copy_loop copy_func free_func i (Suc n) d w =
     (case d ! i of
        None \<Rightarrow> deep_copy_loop copy_func free_func (Suc i) n d w
      | Some p \<Rightarrow>
          (case copy_func p w of
             (None, w) \<Rightarrow>
               (None, foldl (\<lambda>w j. case d ! j of None \<Rightarrow> w | Some q \<Rightarrow> free_func q w) w [0..<i])
           | (Some q, w) \<Rightarrow> deep_copy_loop copy_func free_func (Suc i) n (d[i := Some q]) w))"

definition sk_deep_copy ::
    "allocator \<Rightarrow> (nat \<Rightarrow> 'p option) \<Rightarrow> ('p, 'c) stack \<Rightarrow> ('p \<Rightarrow> 's \<Rightarrow> 'p option \<times> 's) \<Rightarrow> ('p \<Rightarrow> 's \<Rightarrow> 's) \<Rightarrow> 's \<Rightarrow>
     ('p, 'c) stack \<times> 's" where
  "sk_deep_copy al fresh sk copy_func free_func w =
     (case sk_dup al fresh sk of
        None \<Rightarrow> (None, w)
      | Some ret \<Rightarrow>
          (case deep_copy_loop copy_func free_func 0 (st_num ret) (st_data ret) w of
             (None, w) \<Rightarrow> (None, w)
           | (Some d, w) \<Rightarrow> (Some (ret\<lparr>st_data := d\<rparr>), w)))"

section \<open>A stack as a list\<close>

definition sk_list :: "('p, 'c) stack_st \<Rightarrow> 'p option list" where
  "sk_list s = take (st_num s) (st_data s)"

definition stack_wf :: "('p, 'c) stack_st \<Rightarrow> bool" where
  "stack_wf s \<longleftrightarrow>
     st_num s < st_num_alloc s \<and> length (st_data s) = st_num_alloc s \<and> st_num_alloc s < size_mod"

lemma sk_list_length [simp]: "stack_wf s \<Longrightarrow> length (sk_list s) = st_num s"
  by (simp add: stack_wf_def sk_list_def)

lemma sk_list_nth: "i < st_num s \<Longrightarrow> sk_list s ! i = st_data s ! i"
  by (simp add: sk_list_def)

lemma mod_size_double:
  assumes "0 < n" "n < size_mod"
  shows "n * 2 mod size_mod < n \<or> n * 2 mod size_mod = n * 2"
proof (cases "n * 2 < size_mod")
  case False
  then have "n * 2 mod size_mod = n * 2 - size_mod" using assms by (subst mod_if) simp
  then show ?thesis using False assms by linarith
qed simp

lemma sk_grow_Some:
  assumes wf: "length (st_data s) = st_num_alloc s" "0 < st_num_alloc s" "st_num_alloc s < size_mod"
    and grow: "sk_grow al fresh s = Some s'"
  shows "st_num s' = st_num s" "st_num_alloc s < st_num_alloc s'" "length (st_data s') = st_num_alloc s'"
    "st_num_alloc s' < size_mod" "take (st_num_alloc s) (st_data s') = st_data s"
    "st_sorted s' = st_sorted s" "st_comp s' = st_comp s"
proof -
  define a where "a = st_num_alloc s * 2 mod size_mod"
  define n where "n = (if a < st_num_alloc s \<or> a * 8 mod size_mod div 8 \<noteq> a then (st_num_alloc s + 1) mod size_mod else a)"
  have s': "\<not> n < st_num_alloc s" "s' = s\<lparr>st_data := take n (st_data s @ map fresh [length (st_data s)..<n]), st_num_alloc := n\<rparr>"
    using grow unfolding sk_grow_def Let_def a_def [symmetric] n_def [symmetric]
    by (auto split: if_splits option.splits)
  have "a < st_num_alloc s \<or> a = st_num_alloc s * 2"
    using mod_size_double [OF wf(2,3)] by (simp add: a_def)
  moreover have "(st_num_alloc s + 1) mod size_mod < st_num_alloc s \<or> (st_num_alloc s + 1) mod size_mod = st_num_alloc s + 1"
  proof (cases "st_num_alloc s + 1 < size_mod")
    case False
    then have "st_num_alloc s + 1 = size_mod" using wf(3) by simp
    then have "(st_num_alloc s + 1) mod size_mod = 0" by (metis mod_self)
    then show ?thesis using wf(2) by simp
  qed simp
  moreover have "n < size_mod" by (simp add: n_def a_def)
  ultimately have n: "st_num_alloc s < n" "n < size_mod"
    using s'(1) wf(2) unfolding n_def by (auto split: if_splits)
  with s'(2) wf show "st_num s' = st_num s" "st_num_alloc s < st_num_alloc s'" "length (st_data s') = st_num_alloc s'"
    "st_num_alloc s' < size_mod" "take (st_num_alloc s) (st_data s') = st_data s"
    "st_sorted s' = st_sorted s" "st_comp s' = st_comp s"
    by (simp_all add: min_def)
qed

lemma arr_insert:
  assumes n: "n < length xs"
  obtains d where "(if pos \<ge> n then arr_put xs n p
      else case arr_move xs (pos + 1) pos (n - pos) of None \<Rightarrow> None | Some d \<Rightarrow> arr_put d pos p) = Some d"
    "length d = length xs" "take (n + 1) d = take pos (take n xs) @ p # drop pos (take n xs)"
proof (cases "pos \<ge> n")
  case True
  with n show ?thesis
    by (intro that [of "xs[n := p]"]) (simp_all add: arr_put_def take_Suc_conv_app_nth min_def)
next
  case False
  define d where "d = take (pos + 1) xs @ take (n - pos) (drop pos xs) @ drop (n + 1) xs"
  have len: "length d = length xs" using n False by (simp add: d_def)
  have "arr_move xs (pos + 1) pos (n - pos) = Some d" using n False by (simp add: arr_move_def d_def)
  moreover have "take (n + 1) (d[pos := p]) = take pos (take n xs) @ p # drop pos (take n xs)"
  proof (rule nth_equalityI)
    show "length (take (n + 1) (d[pos := p])) = length (take pos (take n xs) @ p # drop pos (take n xs))"
      using n False len by simp
    fix i assume "i < length (take (n + 1) (d[pos := p]))"
    then have "i < n + 1" "i < length d" by simp_all
    then show "take (n + 1) (d[pos := p]) ! i = (take pos (take n xs) @ p # drop pos (take n xs)) ! i"
      using n False by (auto simp: d_def nth_append nth_list_update nth_Cons' min_def)
  qed
  ultimately show ?thesis
    using False len n by (intro that [of "d[pos := p]"]) (simp_all add: arr_put_def)
qed

lemma arr_remove:
  assumes n: "n \<le> length xs" "pos < n"
  obtains d where "(if pos \<noteq> n - 1 then arr_move xs pos (pos + 1) (n - pos - 1) else Some xs) = Some d"
    "length d = length xs" "take (n - 1) d = take pos (take n xs) @ drop (Suc pos) (take n xs)"
proof (cases "pos = n - 1")
  case True
  with n show ?thesis by (intro that [of xs]) (simp_all add: min_def)
next
  case False
  define d where "d = take pos xs @ take (n - pos - 1) (drop (pos + 1) xs) @ drop (pos + (n - pos - 1)) xs"
  have "arr_move xs pos (pos + 1) (n - pos - 1) = Some d" using n False by (simp add: arr_move_def d_def)
  moreover have "take (n - 1) d = take pos (take n xs) @ drop (Suc pos) (take n xs)"
  proof (rule nth_equalityI)
    show "length (take (n - 1) d) = length (take pos (take n xs) @ drop (Suc pos) (take n xs))"
      using n False by (simp add: d_def)
    fix i assume "i < length (take (n - 1) d)"
    then have "i < n - 1" by simp
    then show "take (n - 1) d ! i = (take pos (take n xs) @ drop (Suc pos) (take n xs)) ! i"
      using n False by (auto simp: d_def nth_append min_def)
  qed
  ultimately show ?thesis using False n by (intro that [of d]) (simp_all add: d_def)
qed

text \<open>\<open>sk_insert\<close> inserts, appending when the index is too large, or changes nothing.\<close>

lemma sk_insert_room:
  assumes t: "st_num t + 1 < st_num_alloc t" "length (st_data t) = st_num_alloc t" "st_num_alloc t < size_mod"
  obtains s' d where "(if pos \<ge> st_num t then arr_put (st_data t) (st_num t) p
      else case arr_move (st_data t) (pos + 1) pos (st_num t - pos) of None \<Rightarrow> None | Some d \<Rightarrow> arr_put d pos p) = Some d"
    "s' = t\<lparr>st_data := d, st_num := (st_num t + 1) mod size_mod, st_sorted := False\<rparr>"
    "stack_wf s'" "sk_list s' = take pos (sk_list t) @ p # drop pos (sk_list t)" "st_num s' = st_num t + 1"
proof -
  have "st_num t < length (st_data t)" using t by simp
  from arr_insert [OF this, of pos p] obtain d where d:
    "(if pos \<ge> st_num t then arr_put (st_data t) (st_num t) p
      else case arr_move (st_data t) (pos + 1) pos (st_num t - pos) of None \<Rightarrow> None | Some d \<Rightarrow> arr_put d pos p) = Some d"
    "length d = length (st_data t)" "take (st_num t + 1) d = take pos (sk_list t) @ p # drop pos (sk_list t)"
    unfolding sk_list_def .
  have mod: "(st_num t + 1) mod size_mod = st_num t + 1" using t by simp
  show ?thesis
    by (rule that [OF d(1) refl]) (use d(2,3) t mod in \<open>simp_all add: stack_wf_def sk_list_def\<close>)
qed

lemma sk_insert_list:
  assumes wf: "stack_wf s"
  obtains (failed) "sk_insert al fresh (Some s) p pos = Some (0, Some s)" "st_num_alloc s = st_num s + 1"
      "sk_grow al fresh s = None"
  | (inserted) s' where "sk_insert al fresh (Some s) p pos = Some (st_num s + 1, Some s')" "stack_wf s'"
      "sk_list s' = take pos (sk_list s) @ p # drop pos (sk_list s)" "st_comp s' = st_comp s" "\<not> st_sorted s'"
proof -
  have W: "st_num s < st_num_alloc s" "length (st_data s) = st_num_alloc s" "st_num_alloc s < size_mod"
    using wf by (simp_all add: stack_wf_def)
  have mod: "Suc (st_num s) mod size_mod = Suc (st_num s)" using W by simp
  show ?thesis
  proof (cases "st_num_alloc s \<le> st_num s + 1")
    case False
    then have "st_num s + 1 < st_num_alloc s" by simp
    from sk_insert_room [OF this W(2,3), of pos p] obtain s' d where
      "(if pos \<ge> st_num s then arr_put (st_data s) (st_num s) p
        else case arr_move (st_data s) (pos + 1) pos (st_num s - pos) of None \<Rightarrow> None | Some d \<Rightarrow> arr_put d pos p) = Some d"
      and s': "s' = s\<lparr>st_data := d, st_num := (st_num s + 1) mod size_mod, st_sorted := False\<rparr>"
      "stack_wf s'" "sk_list s' = take pos (sk_list s) @ p # drop pos (sk_list s)" "st_num s' = st_num s + 1" .
    then have "sk_insert al fresh (Some s) p pos = Some (st_num s + 1, Some s')"
      unfolding sk_insert_def using False mod by simp
    then show ?thesis by (rule inserted) (use s' in simp_all)
  next
    case True
    show ?thesis
    proof (cases "sk_grow al fresh s")
      case None
      then have "sk_insert al fresh (Some s) p pos = Some (0, Some s)"
        unfolding sk_insert_def using True mod by simp
      then show ?thesis by (rule failed) (use True W None in simp_all)
    next
      case (Some t)
      have "0 < st_num_alloc s" using W(1) by simp
      note grow = sk_grow_Some [OF W(2) this W(3) Some]
      have "sk_list t = take (st_num s) (take (st_num_alloc s) (st_data t))"
        using W(1) grow(1) by (simp add: sk_list_def min_def)
      then have list: "sk_list t = sk_list s" by (simp add: grow(5) sk_list_def)
      have "st_num t + 1 < st_num_alloc t" using True W(1) grow(1,2) by simp
      from sk_insert_room [OF this grow(3,4), of pos p] obtain s' d where
        "(if pos \<ge> st_num t then arr_put (st_data t) (st_num t) p
          else case arr_move (st_data t) (pos + 1) pos (st_num t - pos) of None \<Rightarrow> None | Some d \<Rightarrow> arr_put d pos p) = Some d"
        and s': "s' = t\<lparr>st_data := d, st_num := (st_num t + 1) mod size_mod, st_sorted := False\<rparr>"
        "stack_wf s'" "sk_list s' = take pos (sk_list t) @ p # drop pos (sk_list t)" "st_num s' = st_num t + 1" .
      then have "sk_insert al fresh (Some s) p pos = Some (st_num s + 1, Some s')"
        unfolding sk_insert_def using True Some grow(1) mod by simp
      then show ?thesis by (rule inserted) (use s' list grow(7) in simp_all)
    qed
  qed
qed

lemma sk_delete_list:
  assumes wf: "stack_wf s" and pos: "pos < st_num s"
  obtains s' where "sk_delete (Some s) pos = Some (sk_list s ! pos, Some s')" "stack_wf s'"
    "sk_list s' = take pos (sk_list s) @ drop (Suc pos) (sk_list s)" "st_comp s' = st_comp s" "st_sorted s' = st_sorted s"
proof -
  have W: "st_num s < st_num_alloc s" "length (st_data s) = st_num_alloc s" "st_num_alloc s < size_mod"
    using wf by (simp_all add: stack_wf_def)
  then have "st_num s \<le> length (st_data s)" by simp
  from arr_remove [OF this pos] obtain d where d:
    "(if pos \<noteq> st_num s - 1 then arr_move (st_data s) pos (pos + 1) (st_num s - pos - 1) else Some (st_data s)) = Some d"
    "length d = length (st_data s)" "take (st_num s - 1) d = take pos (sk_list s) @ drop (Suc pos) (sk_list s)"
    unfolding sk_list_def .
  let ?s = "s\<lparr>st_data := d, st_num := st_num s - 1\<rparr>"
  show ?thesis
  proof (rule that [of ?s])
    show "sk_delete (Some s) pos = Some (sk_list s ! pos, Some ?s)"
      unfolding sk_delete_def using d(1) pos by (simp add: sk_list_nth Let_def)
    show "stack_wf ?s" using W d(2) by (simp add: stack_wf_def)
    show "sk_list ?s = take pos (sk_list s) @ drop (Suc pos) (sk_list s)" using d(3) by (simp add: sk_list_def)
  qed simp_all
qed

subsection \<open>Searching\<close>

lemma sk_scan_Some_iff:
  "sk_scan eq xs i n = Some k \<longleftrightarrow> i \<le> k \<and> k < i + n \<and> eq (xs ! k) \<and> (\<forall>j. i \<le> j \<longrightarrow> j < k \<longrightarrow> \<not> eq (xs ! j))"
proof (induction n arbitrary: i)
  case (Suc n)
  show ?case
  proof (cases "eq (xs ! i)")
    case True
    then show ?thesis by (auto simp: not_less_eq_eq le_less_Suc_eq dest: le_neq_implies_less)
  next
    case False
    then show ?thesis using Suc.IH [of "Suc i"] by (auto simp: Suc_le_eq) (metis le_neq_implies_less)+
  qed
qed simp

lemma sk_scan_None_iff: "sk_scan eq xs i n = None \<longleftrightarrow> (\<forall>k. i \<le> k \<longrightarrow> k < i + n \<longrightarrow> \<not> eq (xs ! k))"
proof (induction n arbitrary: i)
  case (Suc n)
  then show ?case by (auto simp: Suc_le_eq) (metis le_neq_implies_less)+
qed simp

lemma sk_scan_take: "i + n \<le> m \<Longrightarrow> sk_scan eq (take m xs) i n = sk_scan eq xs i n"
  by (induction n arbitrary: i) simp_all

text \<open>The first index in a half-open interval with a property.\<close>

definition first_match :: "(nat \<Rightarrow> bool) \<Rightarrow> nat \<Rightarrow> nat \<Rightarrow> nat option \<Rightarrow> bool" where
  "first_match P lo hi r \<longleftrightarrow>
     (case r of
        None \<Rightarrow> \<forall>k. lo \<le> k \<longrightarrow> k < hi \<longrightarrow> \<not> P k
      | Some k \<Rightarrow> lo \<le> k \<and> k < hi \<and> P k \<and> (\<forall>j. lo \<le> j \<longrightarrow> j < k \<longrightarrow> \<not> P j))"

lemma first_match_right:
  "first_match P lo mid r \<Longrightarrow> mid \<le> hi \<Longrightarrow> \<forall>k. mid \<le> k \<longrightarrow> k < hi \<longrightarrow> \<not> P k \<Longrightarrow> first_match P lo hi r"
  unfolding first_match_def by (cases r; simp; metis not_less)

lemma first_match_left:
  "first_match P mid hi r \<Longrightarrow> lo \<le> mid \<Longrightarrow> \<forall>k. lo \<le> k \<longrightarrow> k < mid \<longrightarrow> \<not> P k \<Longrightarrow> first_match P lo hi r"
  unfolding first_match_def by (cases r; simp; metis not_less)

lemma first_match_hit:
  "first_match P lo (mid + 1) r \<Longrightarrow> lo \<le> mid \<Longrightarrow> mid < hi \<Longrightarrow> P mid \<Longrightarrow> first_match P lo hi r"
  unfolding first_match_def by (cases r) auto

lemma sk_scan_first: "first_match (\<lambda>k. eq (xs ! k)) i (i + n) r \<longleftrightarrow> sk_scan eq xs i n = r"
  by (cases r) (auto simp: first_match_def sk_scan_Some_iff sk_scan_None_iff)

declare sk_bsearch.simps [simp del]

lemma sk_bsearch_take: "hi \<le> m \<Longrightarrow> sk_bsearch cmp (take m xs) lo hi = sk_bsearch cmp xs lo hi"
proof (induction "hi - lo" arbitrary: lo hi rule: less_induct)
  case less
  define mid where "mid = lo + (hi - lo - 1) div 2"
  show ?case
  proof (cases "lo < hi")
    case True
    then have mid: "lo \<le> mid" "mid < hi" by (auto simp: mid_def)
    have next_lo: "mid + 1 < hi" if "hi - lo \<noteq> 1" using that True by (auto simp: mid_def)
    have "sk_bsearch cmp (take m xs) (mid + 1) hi = sk_bsearch cmp xs (mid + 1) hi"
      "sk_bsearch cmp (take m xs) lo mid = sk_bsearch cmp xs lo mid"
      "hi - lo \<noteq> 1 \<Longrightarrow> sk_bsearch cmp (take m xs) lo (mid + 1) = sk_bsearch cmp xs lo (mid + 1)"
      by (rule less.hyps; use mid next_lo less.prems in linarith)+
    moreover have "take m xs ! mid = xs ! mid" using mid less.prems by simp
    ultimately show ?thesis
      using True unfolding sk_bsearch.simps [of cmp _ lo hi] Let_def mid_def [symmetric] by simp
  qed (simp add: sk_bsearch.simps)
qed

subsection \<open>The contract of the comparison function\<close>

text \<open>A comparison orders the elements it is meant for by a key; \<open>valid\<close> leaves out \<open>NULL\<close>.\<close>

locale stack_order =
  fixes cmp :: "'e \<Rightarrow> 'e \<Rightarrow> int" and key :: "'e \<Rightarrow> 'k::linorder" and valid :: "'e \<Rightarrow> bool"
  assumes cmp_less: "valid x \<Longrightarrow> valid y \<Longrightarrow> cmp x y < 0 \<longleftrightarrow> key x < key y"
    and cmp_eq: "valid x \<Longrightarrow> valid y \<Longrightarrow> cmp x y = 0 \<longleftrightarrow> key x = key y"
begin

lemma cmp_greater: "valid x \<Longrightarrow> valid y \<Longrightarrow> cmp x y > 0 \<longleftrightarrow> key x > key y"
  using cmp_less [of x y] cmp_eq [of x y] by (metis not_less_iff_gr_or_eq)

lemma cmp_le: "valid x \<Longrightarrow> valid y \<Longrightarrow> cmp x y \<le> 0 \<longleftrightarrow> key x \<le> key y"
  using cmp_greater [of x y] by (simp add: not_less [symmetric])

text \<open>On a sorted array the binary search finds what the linear search finds.\<close>

lemma bsearch_finds_first:
  assumes "\<forall>i < length xs. valid (xs ! i)" "valid p" "sorted (map key xs)"
  shows "lo \<le> hi \<Longrightarrow> hi \<le> length xs \<Longrightarrow>
    first_match (\<lambda>k. cmp p (xs ! k) = 0) lo hi (sk_bsearch (cmp p) xs lo hi)"
proof (induction "hi - lo" arbitrary: lo hi rule: less_induct)
  case less
  have mono: "key (xs ! i) \<le> key (xs ! j)" if "i \<le> j" "j < length xs" for i j
    using sorted_nth_mono [OF assms(3), of i j] that by simp
  have eq: "cmp p (xs ! k) = 0 \<longleftrightarrow> key p = key (xs ! k)" if "k < length xs" for k
    using cmp_eq [OF assms(2)] assms(1) that by blast
  define mid where "mid = lo + (hi - lo - 1) div 2"
  show ?case
  proof (cases "lo < hi")
    case False
    then show ?thesis by (simp add: sk_bsearch.simps first_match_def)
  next
    case True
    then have mid: "lo \<le> mid" "mid < hi" "mid < length xs" using less.prems by (auto simp: mid_def)
    have v: "valid (xs ! mid)" using assms(1) mid(3) by simp
    have step: "sk_bsearch (cmp p) xs lo hi =
       (if cmp p (xs ! mid) > 0 then sk_bsearch (cmp p) xs (mid + 1) hi
        else if cmp p (xs ! mid) < 0 then sk_bsearch (cmp p) xs lo mid
        else if hi - lo = 1 then Some mid
        else sk_bsearch (cmp p) xs lo (mid + 1))"
      using True by (subst sk_bsearch.simps) (simp add: Let_def mid_def)
    consider (above) "cmp p (xs ! mid) > 0" | (below) "cmp p (xs ! mid) < 0" | (hit) "cmp p (xs ! mid) = 0"
      by linarith
    then show ?thesis
    proof cases
      case above
      then have "key (xs ! mid) < key p" using cmp_greater [OF assms(2) v] by blast
      then have "cmp p (xs ! k) \<noteq> 0" if "k < mid + 1" for k
        using mono [of k mid] mid(3) eq [of k] that by auto
      then have none: "\<forall>k. lo \<le> k \<longrightarrow> k < mid + 1 \<longrightarrow> cmp p (xs ! k) \<noteq> 0" by blast
      have found: "first_match (\<lambda>k. cmp p (xs ! k) = 0) (mid + 1) hi (sk_bsearch (cmp p) xs (mid + 1) hi)"
        by (rule less.hyps) (use mid less.prems in auto)
      have "first_match (\<lambda>k. cmp p (xs ! k) = 0) lo hi (sk_bsearch (cmp p) xs (mid + 1) hi)"
        by (rule first_match_left [OF found _ none]) (use mid(1) in simp)
      with above show ?thesis by (simp add: step)
    next
      case below
      then have "key p < key (xs ! mid)" using cmp_less [OF assms(2) v] by blast
      then have "cmp p (xs ! k) \<noteq> 0" if "mid \<le> k" "k < hi" for k
        using mono [of mid k] less.prems eq [of k] that by auto
      then have none: "\<forall>k. mid \<le> k \<longrightarrow> k < hi \<longrightarrow> cmp p (xs ! k) \<noteq> 0" by blast
      have found: "first_match (\<lambda>k. cmp p (xs ! k) = 0) lo mid (sk_bsearch (cmp p) xs lo mid)"
        by (rule less.hyps) (use mid less.prems in auto)
      have "first_match (\<lambda>k. cmp p (xs ! k) = 0) lo hi (sk_bsearch (cmp p) xs lo mid)"
        by (rule first_match_right [OF found _ none]) (use mid(2) in simp)
      with below show ?thesis by (simp add: step)
    next
      case hit
      show ?thesis
      proof (cases "hi - lo = 1")
        case one: True
        then have "mid = lo" using mid by simp
        with hit one mid show ?thesis by (auto simp: step first_match_def)
      next
        case more: False
        then have "mid + 1 < hi" using True by (auto simp: mid_def)
        then have "first_match (\<lambda>k. cmp p (xs ! k) = 0) lo (mid + 1) (sk_bsearch (cmp p) xs lo (mid + 1))"
          by (intro less.hyps) (use mid less.prems in auto)
        then have "first_match (\<lambda>k. cmp p (xs ! k) = 0) lo hi (sk_bsearch (cmp p) xs lo (mid + 1))"
          by (rule first_match_hit) (use mid hit in simp_all)
        with hit more show ?thesis by (simp add: step)
      qed
    qed
  qed
qed

text \<open>On a sorted array the binary search finds what the linear search finds.\<close>

lemma bsearch_scan:
  assumes "\<forall>i < length xs. valid (xs ! i)" "valid p" "sorted (map key xs)" "n \<le> length xs"
  shows "sk_bsearch (cmp p) xs 0 n = sk_scan (\<lambda>e. cmp p e = 0) xs 0 n"
  using bsearch_finds_first [OF assms(1-3), of 0 n] assms(4) sk_scan_first [of "\<lambda>e. cmp p e = 0" xs 0 n]
  by simp

lemma sorted_cmp:
  assumes "\<forall>x \<in> set xs. valid x"
  shows "sorted_wrt (\<lambda>x y. cmp x y \<le> 0) xs \<longleftrightarrow> sorted (map key xs)"
  using assms by (induction xs) (auto simp: cmp_le)

end

section \<open>The sorted flag\<close>

text \<open>When the flag is set, the elements are sorted by the comparison function of the stack.\<close>

definition stack_ok :: "('c \<Rightarrow> 'p option \<Rightarrow> 'p option \<Rightarrow> int) \<Rightarrow> ('p, 'c) stack_st \<Rightarrow> bool" where
  "stack_ok call_cmp s \<longleftrightarrow>
     stack_wf s \<and>
     (st_sorted s \<longrightarrow>
        (\<exists>c. st_comp s = Some c \<and> sorted_wrt (\<lambda>x y. call_cmp c x y \<le> 0) (sk_list s)))"

lemma sorted_wrt_delete:
  "sorted_wrt P xs \<Longrightarrow> sorted_wrt P (take n xs @ drop (Suc n) xs)"
proof (induction xs arbitrary: n)
  case (Cons x xs)
  then show ?case
    by (cases n) (auto dest: in_set_takeD in_set_dropD)
qed simp

lemma sk_delete_ok:
  assumes "stack_ok cc s" "pos < st_num s"
  obtains s' where "sk_delete (Some s) pos = Some (sk_list s ! pos, Some s')" "stack_ok cc s'"
    "sk_list s' = take pos (sk_list s) @ drop (Suc pos) (sk_list s)" "st_comp s' = st_comp s"
proof -
  have "stack_wf s" using assms(1) by (simp add: stack_ok_def)
  from sk_delete_list [OF this assms(2)] obtain s' where s':
    "sk_delete (Some s) pos = Some (sk_list s ! pos, Some s')" "stack_wf s'"
    "sk_list s' = take pos (sk_list s) @ drop (Suc pos) (sk_list s)" "st_comp s' = st_comp s" "st_sorted s' = st_sorted s" .
  then have "stack_ok cc s'"
    using assms(1) by (auto simp: stack_ok_def intro: sorted_wrt_delete)
  with s' show ?thesis by (intro that)
qed

text \<open>\<open>qsort\<close> of the C library, on the elements it is given.\<close>

definition qsort_sorts :: "(('a \<Rightarrow> 'a \<Rightarrow> int) \<Rightarrow> 'a list \<Rightarrow> 'a list) \<Rightarrow> ('a \<Rightarrow> 'a \<Rightarrow> int) \<Rightarrow> 'a list \<Rightarrow> bool" where
  "qsort_sorts qsort cmp xs \<longleftrightarrow>
     mset (qsort cmp xs) = mset xs \<and> sorted_wrt (\<lambda>x y. cmp x y \<le> 0) (qsort cmp xs)"

lemma sk_sort_ok:
  assumes ok: "stack_ok cc s" and c: "st_comp s = Some c" and q: "qsort_sorts qsort (cc c) (sk_list s)"
  obtains s' where "sk_sort qsort cc (Some s) = Some s'" "stack_ok cc s'" "st_sorted s'" "st_comp s' = Some c"
    "mset (sk_list s') = mset (sk_list s)"
proof -
  have wf: "stack_wf s" using ok by (simp add: stack_ok_def)
  consider "st_sorted s" | "\<not> st_sorted s" "st_num s < 2" | "\<not> st_sorted s" "st_num s \<ge> 2" by linarith
  then show ?thesis
  proof cases
    case 1
    then show ?thesis using ok c by (intro that [of s]) (simp_all add: sk_sort_def)
  next
    case 2
    have "length (sk_list s) < 2" using wf 2(2) by simp
    then have "sorted_wrt (\<lambda>x y. cc c x y \<le> 0) (sk_list s)"
      by (cases "sk_list s"; cases "tl (sk_list s)") auto
    then show ?thesis
      using wf 2 c by (intro that [of "s\<lparr>st_sorted := True\<rparr>"])
        (simp_all add: sk_sort_def stack_ok_def stack_wf_def sk_list_def)
  next
    case 3
    let ?q = "qsort (cc c) (sk_list s)"
    have len: "length ?q = st_num s"
      using q wf by (metis qsort_sorts_def mset_eq_length sk_list_length)
    let ?s = "s\<lparr>st_data := ?q @ drop (st_num s) (st_data s), st_sorted := True\<rparr>"
    have "stack_wf ?s" using wf len by (simp add: stack_wf_def)
    moreover have "sk_list ?s = ?q" using len by (simp add: sk_list_def)
    ultimately show ?thesis
      using 3 c q by (intro that [of ?s])
        (simp_all add: sk_sort_def stack_ok_def qsort_sorts_def sk_list_def [symmetric])
  qed
qed

lemma sk_set_cmp_func_ok:
  assumes "stack_ok cc s" "sk_set_cmp_func s cmp = (old, s')"
  shows "stack_ok cc s'" "sk_list s' = sk_list s" "old = st_comp s" "st_comp s' = cmp"
  using assms by (auto simp: sk_set_cmp_func_def Let_def stack_ok_def stack_wf_def sk_list_def)

lemma sk_zero_ok:
  assumes "stack_ok cc s"
  obtains s' where "sk_zero (Some s) = Some s'" "stack_ok cc s'" "sk_list s' = []" "st_comp s' = st_comp s"
proof (cases "st_num s = 0")
  case True
  with assms show ?thesis by (intro that [of s]) (simp_all add: sk_zero_def sk_list_def)
next
  case False
  with assms show ?thesis
    by (intro that [of "s\<lparr>st_data := replicate (st_num s) None @ drop (st_num s) (st_data s), st_num := 0, st_sorted := False\<rparr>"])
      (auto simp: sk_zero_def sk_list_def stack_ok_def stack_wf_def)
qed

lemma sk_dup_ok:
  assumes "stack_ok cc s" "sk_dup al fresh (Some s) = Some s'"
  shows "stack_ok cc s'" "sk_list s' = sk_list s" "st_comp s' = st_comp s" "st_sorted s' = st_sorted s"
proof -
  have s': "s' = \<lparr>st_num = st_num s, st_data = take (st_num s) (st_data s) @ map fresh [st_num s..<st_num_alloc s],
      st_sorted = st_sorted s, st_num_alloc = st_num_alloc s, st_comp = st_comp s\<rparr>"
    using assms(2) by (auto simp: sk_dup_def split: option.splits)
  show list: "sk_list s' = sk_list s" using assms(1) by (simp add: s' sk_list_def stack_ok_def stack_wf_def)
  show "stack_ok cc s'"
    using assms(1) list by (auto simp: s' stack_ok_def stack_wf_def)
qed (use assms in \<open>auto simp: sk_dup_def split: option.splits\<close>)

section \<open>A list of strings without duplicates\<close>

text \<open>A C string is a block of bytes that ends with its first zero, or is followed by one.\<close>

definition c_string :: "byte list \<Rightarrow> byte list" where
  "c_string s = takeWhile (\<lambda>b. b \<noteq> 0) s"

text \<open>\<open>strcmp\<close> of the C library.\<close>

fun c_strcmp :: "byte list \<Rightarrow> byte list \<Rightarrow> int" where
  "c_strcmp [] b = (if b = [] \<or> hd b = 0 then 0 else -1)"
| "c_strcmp (x # a) b =
     (let y = (case b of [] \<Rightarrow> 0 | y # _ \<Rightarrow> y) in
      if x < y then -1 else if x > y then 1 else if x = 0 then 0 else c_strcmp a (tl b))"

lemma c_strcmp_order:
  "(c_strcmp a b < 0 \<longleftrightarrow> c_string a < c_string b) \<and> (c_strcmp a b = 0 \<longleftrightarrow> c_string a = c_string b)"
proof (induction a b rule: c_strcmp.induct)
  case (1 b)
  then show ?case by (cases b) (auto simp: c_string_def)
next
  case (2 x a b)
  show ?case
  proof (cases b)
    case Nil
    then show ?thesis by (cases "x = 0") (auto simp: c_string_def word_neq_0_conv)
  next
    case (Cons y b')
    consider "x < y" | "x > y" | "x = y" "x = 0" | "x = y" "x \<noteq> 0" by (metis not_less_iff_gr_or_eq)
    then show ?thesis
    proof cases
      case 4
      then show ?thesis using 2 [OF refl] Cons by (simp add: c_string_def)
    qed (use Cons in \<open>auto simp: c_string_def word_neq_0_conv dest: le_less_trans [OF word_zero_le]\<close>)
  qed
qed

text \<open>The comparison of a stack of strings; it is not called on \<open>NULL\<close>.\<close>

definition sk_strcmp :: "byte list option \<Rightarrow> byte list option \<Rightarrow> int" where
  "sk_strcmp a b = (case (a, b) of (Some a, Some b) \<Rightarrow> c_strcmp a b | _ \<Rightarrow> 0)"

definition string_of :: "byte list option \<Rightarrow> byte list" where
  "string_of p = (case p of None \<Rightarrow> [] | Some s \<Rightarrow> c_string s)"

interpretation strings: stack_order sk_strcmp string_of "\<lambda>p. p \<noteq> None"
  by unfold_locales (auto simp: sk_strcmp_def string_of_def c_strcmp_order)

definition V_ASN1_IA5STRING :: int where "V_ASN1_IA5STRING = 22"

record asn1_string =
  ia5_type :: int
  ia5_data :: "byte list option"

text \<open>The result is the return value and the new \<open>*sk\<close>.\<close>

definition append_ia5 ::
    "allocator \<Rightarrow> (nat \<Rightarrow> byte list option) \<Rightarrow>
     ((byte list option \<Rightarrow> byte list option \<Rightarrow> int) \<Rightarrow> byte list option list \<Rightarrow> byte list option list) \<Rightarrow>
     (byte list, unit) stack \<Rightarrow> asn1_string \<Rightarrow> (bool \<times> (byte list, unit) stack) option" where
  "append_ia5 al fresh qsort sk email =
     (if ia5_type email \<noteq> V_ASN1_IA5STRING then Some (True, sk)
      else case ia5_data email of
        None \<Rightarrow> Some (True, sk)
      | Some d \<Rightarrow>
          (if length d = 0 then Some (True, sk)
           else if 0 \<in> set d then Some (True, sk)
           else
     (case (case sk of None \<Rightarrow> sk_new al (Some ()) | Some s \<Rightarrow> Some s) of
        None \<Rightarrow> Some (False, None)
      | Some s \<Rightarrow>
     (case OPENSSL_strndup al d (length d) of
        None \<Rightarrow> Some (False, None)
      | Some emtmp \<Rightarrow>
          (let sk = sk_sort qsort (\<lambda>_. sk_strcmp) (Some s) in
           case sk_find sk (Some emtmp) (\<lambda>_. sk_strcmp) of
             Some _ \<Rightarrow> Some (True, sk)
           | None \<Rightarrow>
               (case sk of
                  None \<Rightarrow> None
                | Some s \<Rightarrow>
                    (case sk_push al fresh s (Some emtmp) of
                       None \<Rightarrow> None
                     | Some (n, sk) \<Rightarrow> if n = 0 then Some (False, None) else Some (True, sk))))))))"

text \<open>The strings in a stack of them.\<close>

definition sk_strings :: "(byte list, unit) stack \<Rightarrow> byte list list" where
  "sk_strings sk = (case sk of None \<Rightarrow> [] | Some s \<Rightarrow> map string_of (sk_list s))"

definition strings_ok :: "(byte list, unit) stack \<Rightarrow> bool" where
  "strings_ok sk \<longleftrightarrow>
     (case sk of
        None \<Rightarrow> True
      | Some s \<Rightarrow> stack_ok (\<lambda>_. sk_strcmp) s \<and> st_comp s = Some () \<and> (\<forall>p \<in> set (sk_list s). p \<noteq> None))"

lemma sk_new_ok:
  assumes "sk_new al cmp = Some s"
  shows "stack_ok cc s" "sk_list s = []" "st_comp s = cmp"
proof -
  have s: "s = \<lparr>st_num = 0, st_data = replicate kMinSize None, st_sorted = False,
      st_num_alloc = kMinSize, st_comp = cmp\<rparr>"
    using assms by (auto simp: sk_new_def split: option.splits)
  show "stack_ok cc s" "sk_list s = []" "st_comp s = cmp"
    by (simp_all add: s stack_ok_def stack_wf_def sk_list_def kMinSize_def)
qed

text \<open>\<open>sk_find\<close> on a stack of strings, by either search: the first string that is equal.\<close>

lemma sk_find_strings:
  assumes "strings_ok (Some s)"
  shows "sk_find (Some s) (Some str) (\<lambda>_. sk_strcmp) = sk_scan (\<lambda>x. x = c_string str) (sk_strings (Some s)) 0 (st_num s)"
proof -
  have ok: "stack_wf s" "st_comp s = Some ()" "\<forall>p \<in> set (sk_list s). p \<noteq> None"
    "st_sorted s \<Longrightarrow> sorted_wrt (\<lambda>x y. sk_strcmp x y \<le> 0) (sk_list s)"
    using assms by (auto simp: strings_ok_def stack_ok_def)
  have scan: "sk_scan (\<lambda>e. sk_strcmp (Some str) e = 0) (sk_list s) 0 (st_num s)
      = sk_scan (\<lambda>x. x = c_string str) (map string_of (sk_list s)) 0 (st_num s)"
  proof -
    have "first_match (\<lambda>k. sk_strcmp (Some str) (sk_list s ! k) = 0) 0 (st_num s) r
        \<longleftrightarrow> first_match (\<lambda>k. map string_of (sk_list s) ! k = c_string str) 0 (st_num s) r" for r
    proof -
      have "sk_strcmp (Some str) (sk_list s ! k) = 0 \<longleftrightarrow> map string_of (sk_list s) ! k = c_string str"
        if "k < st_num s" for k
      proof -
        have "sk_list s ! k \<in> set (sk_list s)" using that ok(1) by simp
        then show ?thesis
          using strings.cmp_eq [of "Some str" "sk_list s ! k"] ok(1,3) that by (auto simp: string_of_def)
      qed
      then show ?thesis by (cases r) (auto simp: first_match_def)
    qed
    then show ?thesis
      using sk_scan_first [of "\<lambda>e. sk_strcmp (Some str) e = 0" "sk_list s" 0 "st_num s"]
        sk_scan_first [of "\<lambda>x. x = c_string str" "map string_of (sk_list s)" 0 "st_num s"] by simp
  qed
  show ?thesis
  proof (cases "st_sorted s")
    case False
    then show ?thesis
      using ok(1,2) scan by (simp add: sk_find_def sk_is_sorted_def sk_strings_def) (simp add: sk_list_def sk_scan_take)
  next
    case True
    then have sorted: "sorted (map string_of (sk_list s))"
      using ok(3,4) strings.sorted_cmp [of "sk_list s"] by simp
    have "sk_bsearch (sk_strcmp (Some str)) (st_data s) 0 (st_num s)
        = sk_bsearch (sk_strcmp (Some str)) (sk_list s) 0 (st_num s)"
      unfolding sk_list_def by (rule sk_bsearch_take [symmetric]) simp
    also have "\<dots> = sk_scan (\<lambda>e. sk_strcmp (Some str) e = 0) (sk_list s) 0 (st_num s)"
      by (rule strings.bsearch_scan) (use ok sorted in auto)
    finally show ?thesis
      using True ok(2) scan by (simp add: sk_find_def sk_is_sorted_def sk_strings_def)
  qed
qed

lemma sk_strings_insert:
  assumes "sk_list s' = take pos (sk_list s) @ p # drop pos (sk_list s)"
  shows "set (sk_strings (Some s')) = insert (string_of p) (set (sk_strings (Some s)))"
    and "distinct (sk_strings (Some s')) \<longleftrightarrow> distinct (sk_strings (Some s)) \<and> string_of p \<notin> set (sk_strings (Some s))"
proof -
  have "mset (take pos (sk_list s)) + mset (drop pos (sk_list s)) = mset (sk_list s)"
    by (simp flip: mset_append)
  then have "mset (sk_list s') = add_mset p (mset (sk_list s))" by (simp add: assms)
  then have "mset (sk_strings (Some s')) = add_mset (string_of p) (mset (sk_strings (Some s)))"
    by (simp add: sk_strings_def)
  then have "mset (sk_strings (Some s')) = mset (string_of p # sk_strings (Some s))" by simp
  note m = this
  show "set (sk_strings (Some s')) = insert (string_of p) (set (sk_strings (Some s)))"
    using mset_eq_setD [OF m] by simp
  show "distinct (sk_strings (Some s')) \<longleftrightarrow> distinct (sk_strings (Some s)) \<and> string_of p \<notin> set (sk_strings (Some s))"
    using mset_eq_imp_distinct_iff [OF m] by auto
qed

lemma strndup_string:
  assumes "0 \<notin> set d" "OPENSSL_strndup al d (length d) = Some e"
  shows "c_string e = d"
proof -
  have "takeWhile (\<lambda>b. b \<noteq> 0) d = d" by (subst takeWhile_eq_all_conv) (use assms(1) in auto)
  then have "take (OPENSSL_strnlen d (length d)) d = d" using OPENSSL_strnlen_takeWhile [of d "length d"] by simp
  moreover have "\<exists>e'. e = take (OPENSSL_strnlen d (length d)) d @ [0]"
    using assms(2) by (auto simp: OPENSSL_strndup_def Let_def split: if_splits option.splits)
  ultimately have "e = d @ [0]" by simp
  then show ?thesis using \<open>takeWhile _ d = d\<close> assms(1) by (auto simp: c_string_def takeWhile_append)
qed

lemma sk_find_first_string:
  assumes "strings_ok (Some s)"
  shows "case sk_find (Some s) (Some str) (\<lambda>_. sk_strcmp) of
      None \<Rightarrow> c_string str \<notin> set (sk_strings (Some s))
    | Some i \<Rightarrow> i < length (sk_strings (Some s)) \<and> sk_strings (Some s) ! i = c_string str \<and>
        (\<forall>j < i. sk_strings (Some s) ! j \<noteq> c_string str)"
proof -
  have len: "length (sk_strings (Some s)) = st_num s"
    using assms by (simp add: sk_strings_def strings_ok_def stack_ok_def)
  show ?thesis
    unfolding sk_find_strings [OF assms]
  proof (cases "sk_scan (\<lambda>x. x = c_string str) (sk_strings (Some s)) 0 (st_num s)")
    case None
    then show "case sk_scan (\<lambda>x. x = c_string str) (sk_strings (Some s)) 0 (st_num s) of
      None \<Rightarrow> c_string str \<notin> set (sk_strings (Some s))
    | Some i \<Rightarrow> i < length (sk_strings (Some s)) \<and> sk_strings (Some s) ! i = c_string str \<and>
        (\<forall>j < i. sk_strings (Some s) ! j \<noteq> c_string str)"
      unfolding None option.case using sk_scan_None_iff [THEN iffD1, OF None] len
      by (auto simp: in_set_conv_nth)
  next
    case (Some i)
    then show "case sk_scan (\<lambda>x. x = c_string str) (sk_strings (Some s)) 0 (st_num s) of
      None \<Rightarrow> c_string str \<notin> set (sk_strings (Some s))
    | Some i \<Rightarrow> i < length (sk_strings (Some s)) \<and> sk_strings (Some s) ! i = c_string str \<and>
        (\<forall>j < i. sk_strings (Some s) ! j \<noteq> c_string str)"
      unfolding Some option.case using sk_scan_Some_iff [THEN iffD1, OF Some] len by simp
  qed
qed

definition ia5_strings :: "asn1_string \<Rightarrow> byte list set" where
  "ia5_strings email =
     (case ia5_data email of
        None \<Rightarrow> {}
      | Some d \<Rightarrow> if ia5_type email = V_ASN1_IA5STRING \<and> d \<noteq> [] \<and> 0 \<notin> set d then {d} else {})"

section \<open>Properties\<close>

text \<open>C26. A stack is a list: \<open>sk_insert\<close> inserts at an index, at the end when it is too large, or fails without a change, and it
  does not fail while there is room in the array; \<open>sk_delete\<close>, \<open>sk_pop\<close>, \<open>sk_shift\<close> and \<open>sk_delete_ptr\<close> remove the element at an index, the
  last, the first, and the first occurrence of a pointer, and return it; no array access is out of
  bounds.\<close>

theorem stack_refines_list:
  assumes "stack_wf s"
  shows "(\<exists>n sk. sk_insert al fresh (Some s) p pos = Some (n, sk) \<and>
      (n = 0 \<and> sk = Some s \<and> st_num_alloc s = st_num s + 1
       \<or> (\<exists>s'. n = st_num s + 1 \<and> sk = Some s' \<and> stack_wf s' \<and> sk_list s' = take pos (sk_list s) @ p # drop pos (sk_list s))))
    \<and> (\<exists>s'. sk_delete (Some s) pos = Some (if pos < st_num s then sk_list s ! pos else None, Some s') \<and> stack_wf s' \<and>
         sk_list s' = take pos (sk_list s) @ drop (Suc pos) (sk_list s))
    \<and> (sk_list s \<noteq> [] \<longrightarrow>
        (\<exists>s'. sk_pop (Some s) = Some (last (sk_list s), Some s') \<and> stack_wf s' \<and> sk_list s' = butlast (sk_list s)) \<and>
        (\<exists>s'. sk_shift (Some s) = Some (hd (sk_list s), Some s') \<and> stack_wf s' \<and> sk_list s' = tl (sk_list s)))
    \<and> (\<exists>s'. sk_delete_ptr (Some s) p = Some (if p \<in> set (sk_list s) then p else None, Some s') \<and> stack_wf s' \<and>
         sk_list s' = remove1 p (sk_list s))"
proof (intro conjI impI)
  show "\<exists>n sk. sk_insert al fresh (Some s) p pos = Some (n, sk) \<and>
      (n = 0 \<and> sk = Some s \<and> st_num_alloc s = st_num s + 1
       \<or> (\<exists>s'. n = st_num s + 1 \<and> sk = Some s' \<and> stack_wf s' \<and> sk_list s' = take pos (sk_list s) @ p # drop pos (sk_list s)))"
    by (cases rule: sk_insert_list [OF assms, of al fresh p pos]) auto
  have len: "length (sk_list s) = st_num s" using assms by simp
  show "\<exists>s'. sk_delete (Some s) pos = Some (if pos < st_num s then sk_list s ! pos else None, Some s') \<and> stack_wf s' \<and>
         sk_list s' = take pos (sk_list s) @ drop (Suc pos) (sk_list s)"
  proof (cases "pos < st_num s")
    case True
    then show ?thesis using sk_delete_list [OF assms True] by auto
  next
    case False
    then show ?thesis using assms len by (intro exI [of _ s]) (simp add: sk_delete_def)
  qed
  show "\<exists>s'. sk_delete_ptr (Some s) p = Some (if p \<in> set (sk_list s) then p else None, Some s') \<and> stack_wf s' \<and>
         sk_list s' = remove1 p (sk_list s)"
  proof (cases "sk_scan (\<lambda>e. e = p) (st_data s) 0 (st_num s)")
    case None
    then have "p \<notin> set (sk_list s)"
      using len by (auto simp: sk_scan_None_iff in_set_conv_nth sk_list_nth)
    then show ?thesis using None assms by (intro exI [of _ s]) (simp add: sk_delete_ptr_def remove1_idem)
  next
    case (Some i)
    then have i: "i < st_num s" "st_data s ! i = p" "\<forall>j < i. st_data s ! j \<noteq> p"
      by (simp_all add: sk_scan_Some_iff)
    then have p: "sk_list s ! i = p" "p \<notin> set (take i (sk_list s))"
      by (auto simp: sk_list_nth in_set_conv_nth)
    have split: "sk_list s = take i (sk_list s) @ p # drop (Suc i) (sk_list s)"
      using id_take_nth_drop [of i "sk_list s"] i(1) p(1) len by simp
    have "remove1 p (sk_list s) = remove1 p (take i (sk_list s) @ p # drop (Suc i) (sk_list s))"
      by (rule arg_cong [OF split])
    also have "\<dots> = take i (sk_list s) @ drop (Suc i) (sk_list s)" by (simp add: remove1_append p(2))
    finally have rem: "remove1 p (sk_list s) = take i (sk_list s) @ drop (Suc i) (sk_list s)" .
    have mem: "p \<in> set (sk_list s)" using nth_mem [of i "sk_list s"] p(1) i(1) len by simp
    show ?thesis
    proof (rule sk_delete_list [OF assms i(1)])
      fix s' assume "sk_delete (Some s) i = Some (sk_list s ! i, Some s')" "stack_wf s'"
        "sk_list s' = take i (sk_list s) @ drop (Suc i) (sk_list s)"
      then show ?thesis using rem mem Some p(1) by (intro exI [of _ s']) (simp add: sk_delete_ptr_def)
    qed
  qed
  assume ne: "sk_list s \<noteq> []"
  then have "0 < st_num s" unfolding len [symmetric] by simp
  then have num: "0 < st_num s" "st_num s - 1 < st_num s" by simp_all
  show "\<exists>s'. sk_pop (Some s) = Some (last (sk_list s), Some s') \<and> stack_wf s' \<and> sk_list s' = butlast (sk_list s)"
  proof (rule sk_delete_list [OF assms num(2)])
    fix s' assume "sk_delete (Some s) (st_num s - 1) = Some (sk_list s ! (st_num s - 1), Some s')" "stack_wf s'"
      "sk_list s' = take (st_num s - 1) (sk_list s) @ drop (Suc (st_num s - 1)) (sk_list s)"
    then show ?thesis
      using num(1) len by (intro exI [of _ s']) (simp add: sk_pop_def last_conv_nth [OF ne] butlast_conv_take)
  qed
  show "\<exists>s'. sk_shift (Some s) = Some (hd (sk_list s), Some s') \<and> stack_wf s' \<and> sk_list s' = tl (sk_list s)"
  proof (rule sk_delete_list [OF assms num(1)])
    fix s' assume "sk_delete (Some s) 0 = Some (sk_list s ! 0, Some s')" "stack_wf s'"
      "sk_list s' = take 0 (sk_list s) @ drop (Suc 0) (sk_list s)"
    then show ?thesis
      using num(1) by (intro exI [of _ s']) (simp add: sk_shift_def hd_conv_nth [OF ne] drop_Suc)
  qed
qed

text \<open>C27. \<open>sk_find\<close> on a stack of strings returns the index of the first equal string, whether the flag lets it search
  by halves or not.\<close>

theorem sk_find_exact:
  assumes "strings_ok (Some s)"
  shows "case sk_find (Some s) (Some str) (\<lambda>_. sk_strcmp) of
      None \<Rightarrow> c_string str \<notin> set (sk_strings (Some s))
    | Some i \<Rightarrow> i < length (sk_strings (Some s)) \<and> sk_strings (Some s) ! i = c_string str \<and>
        (\<forall>j < i. sk_strings (Some s) ! j \<noteq> c_string str)"
  by (rule sk_find_first_string [OF assms])

text \<open>What can fail: \<open>malloc\<close>, or the computation of a size.\<close>

definition out_of_memory :: "allocator \<Rightarrow> bool" where
  "out_of_memory al \<longleftrightarrow> (\<exists>n < size_mod. \<not> malloc_ok al n)"

definition stack_capacity :: "('p, 'c) stack \<Rightarrow> nat" where
  "stack_capacity sk = (case sk of None \<Rightarrow> 0 | Some s \<Rightarrow> st_num_alloc s)"

definition ia5_length :: "asn1_string \<Rightarrow> nat" where
  "ia5_length email = (case ia5_data email of None \<Rightarrow> 0 | Some d \<Rightarrow> length d)"

lemma malloc_None: "OPENSSL_malloc al n = None \<Longrightarrow> n + 8 < size_mod \<Longrightarrow> out_of_memory al"
  by (auto simp: OPENSSL_malloc_def out_of_memory_def split: if_splits intro!: exI [of _ "n + 8"])

lemma sk_new_None: "sk_new al cmp = None \<Longrightarrow> out_of_memory al"
  by (auto simp: sk_new_def kMinSize_def split: option.splits intro: malloc_None)

lemma strndup_None: "OPENSSL_strndup al d (length d) = None \<Longrightarrow> length d < 2 ^ 60 \<Longrightarrow> out_of_memory al"
  using OPENSSL_strnlen_le [of d "length d"]
  by (auto simp: OPENSSL_strndup_def Let_def split: option.splits if_splits intro: malloc_None)

lemma sk_grow_None: "sk_grow al fresh s = None \<Longrightarrow> st_num_alloc s < 2 ^ 60 \<Longrightarrow> out_of_memory al"
  by (auto simp: sk_grow_def Let_def split: option.splits if_splits intro: malloc_None)

lemma sk_sort_capacity: "sk_sort qsort cc (Some s) = Some t \<Longrightarrow> st_num_alloc t = st_num_alloc s"
  by (auto simp: sk_sort_def Let_def split: option.splits if_splits)


text \<open>Concrete stacks: \<open>qsort\<close> as an insertion sort.\<close>

fun insert_by :: "('a \<Rightarrow> 'a \<Rightarrow> int) \<Rightarrow> 'a \<Rightarrow> 'a list \<Rightarrow> 'a list" where
  "insert_by cmp x [] = [x]"
| "insert_by cmp x (y # ys) = (if cmp x y \<le> 0 then x # y # ys else y # insert_by cmp x ys)"

definition example_qsort :: "('a \<Rightarrow> 'a \<Rightarrow> int) \<Rightarrow> 'a list \<Rightarrow> 'a list" where
  "example_qsort cmp xs = foldr (insert_by cmp) xs []"

lemma example_qsort_sorts:
  assumes "None \<notin> set xs"
  shows "qsort_sorts example_qsort sk_strcmp xs"
proof -
  have ins: "mset (insert_by sk_strcmp x ys) = add_mset x (mset ys)" for x ys
    by (induction ys) auto
  have sort_ins: "sorted (map string_of (insert_by sk_strcmp x ys))"
    if "sorted (map string_of ys)" "x \<noteq> None" "None \<notin> set ys" for x ys
    using that
  proof (induction ys)
    case (Cons y ys)
    have set: "set (insert_by sk_strcmp x ys) = insert x (set ys)"
      using ins [of x ys] by (metis set_mset_add_mset_insert set_mset_mset)
    have "y \<noteq> None" "None \<notin> set ys" using Cons.prems(3) by (metis list.set_intros(1), simp)
    then have le: "sk_strcmp x y \<le> 0 \<longleftrightarrow> string_of x \<le> string_of y"
      using strings.cmp_le [of x y] Cons.prems(2) by blast
    show ?case
      using Cons.IH Cons.prems(1,2) \<open>None \<notin> set ys\<close> by (auto simp: set le intro: order_trans)
  qed simp
  have "mset (example_qsort sk_strcmp xs) = mset xs \<and> sorted (map string_of (example_qsort sk_strcmp xs))"
    using assms
  proof (induction xs)
    case (Cons x xs)
    then have "None \<notin> set (example_qsort sk_strcmp xs)" by (metis list.set_intros(2) mset_eq_setD)
    moreover have "x \<noteq> None" "None \<notin> set xs" using Cons.prems by (metis list.set_intros)+
    moreover have "example_qsort sk_strcmp (x # xs) = insert_by sk_strcmp x (example_qsort sk_strcmp xs)"
      by (simp add: example_qsort_def)
    ultimately show ?case using sort_ins [of "example_qsort sk_strcmp xs" x] ins Cons.IH by simp
  qed (simp add: example_qsort_def)
  moreover from this have "\<forall>p \<in> set (example_qsort sk_strcmp xs). p \<noteq> None"
    using assms by (metis mset_eq_setD)
  ultimately show ?thesis
    using strings.sorted_cmp by (auto simp: qsort_sorts_def)
qed

definition example_email :: "byte list \<Rightarrow> asn1_string" where
  "example_email d = \<lparr>ia5_type = V_ASN1_IA5STRING, ia5_data = Some d\<rparr>"

definition add_email :: "byte list \<Rightarrow> (byte list, unit) stack \<Rightarrow> (byte list, unit) stack" where
  "add_email d sk =
     (case append_ia5 good_allocator (\<lambda>_. None) example_qsort sk (example_email d) of
        None \<Rightarrow> None | Some (_, sk) \<Rightarrow> sk)"

text \<open>A search by halves in an array of three or more elements does not look at the first one when the rest is
  smaller than what is searched.\<close>

lemma sk_bsearch_above: "\<forall>k. lo \<le> k \<longrightarrow> k < hi \<longrightarrow> cmp (xs ! k) > 0 \<Longrightarrow> sk_bsearch cmp xs lo hi = None"
proof (induction cmp xs lo hi rule: sk_bsearch.induct)
  case (1 cmp xs lo hi)
  show ?case
  proof (cases "lo < hi")
    case True
    let ?mid = "lo + (hi - lo - 1) div 2"
    have mid: "lo \<le> ?mid" "?mid < hi" using True by auto
    then have "cmp (xs ! ?mid) > 0" using 1(4) by blast
    moreover from this have "sk_bsearch cmp xs (?mid + 1) hi = None"
      using 1(1) [OF True refl refl] 1(4) mid by simp
    ultimately show ?thesis using True by (simp add: sk_bsearch.simps [of _ _ lo hi] Let_def)
  qed (simp add: sk_bsearch.simps [of _ _ lo hi])
qed

lemma sk_bsearch_skips_first:
  assumes "3 \<le> n" "\<forall>k. 0 < k \<longrightarrow> k < n \<longrightarrow> cmp (xs ! k) > 0"
  shows "sk_bsearch cmp xs 0 n = None"
proof -
  have "0 < (n - 1) div 2" "(n - 1) div 2 < n" using assms(1) by auto
  moreover from this have "sk_bsearch cmp xs ((n - 1) div 2 + 1) n = None" using assms(2) by (intro sk_bsearch_above) simp
  ultimately show ?thesis using assms by (simp add: sk_bsearch.simps [of _ _ 0 n] Let_def)
qed

text \<open>C28. \<open>sk_set\<close> misleads \<open>sk_find\<close>.  In a sorted stack of three or more strings every one of them is found; replace
  the first by a string that is greater than all, and the flag of being sorted stays set: \<open>sk_find\<close> then misses that string,
  though the stack holds it, and the search without the flag finds it.\<close>

theorem sk_set_misleads_find:
  assumes ok: "strings_ok (Some s)" "st_sorted s" and n: "3 \<le> st_num s"
    and greatest: "\<forall>x \<in> set (sk_strings (Some s)). x < c_string str"
  shows "(\<forall>x. Some x \<in> set (sk_list s) \<longrightarrow> sk_find (Some s) (Some x) (\<lambda>_. sk_strcmp) \<noteq> None) \<and>
    (\<exists>s'. sk_set (Some s) 0 (Some str) = Some (Some str, Some s') \<and> st_sorted s' \<and> sk_strings (Some s') ! 0 = c_string str \<and>
       sk_find (Some s') (Some str) (\<lambda>_. sk_strcmp) = None \<and>
       sk_find (Some (s'\<lparr>st_sorted := False\<rparr>)) (Some str) (\<lambda>_. sk_strcmp) = Some 0)"
proof (intro conjI allI impI)
  fix x
  assume "Some x \<in> set (sk_list s)"
  then have "c_string x \<in> set (sk_strings (Some s))" by (force simp: sk_strings_def string_of_def)
  with sk_find_first_string [OF ok(1), of x] show "sk_find (Some s) (Some x) (\<lambda>_. sk_strcmp) \<noteq> None"
    by (auto split: option.splits)
next
  have wf: "stack_wf s" "st_comp s = Some ()" "\<forall>p \<in> set (sk_list s). p \<noteq> None"
    using ok(1) by (simp_all add: strings_ok_def stack_ok_def)
  define s' where "s' = s\<lparr>st_data := (st_data s)[0 := Some str]\<rparr>"
  have len: "0 < length (st_data s)" "st_num s \<le> length (st_data s)" using wf(1) by (simp_all add: stack_wf_def)
  have set: "sk_set (Some s) 0 (Some str) = Some (Some str, Some s')"
    using n len by (simp add: sk_set_def arr_put_def s'_def)
  have sk: "sk_list s' = (sk_list s)[0 := Some str]" using n by (simp add: s'_def sk_list_def take_update_swap)
  have "sk_strcmp (Some str) (st_data s' ! k) > 0" if k: "0 < k" "k < st_num s" for k
  proof -
    have nth: "st_data s' ! k = sk_list s ! k" using k by (simp add: s'_def sk_list_nth)
    have mem: "sk_list s ! k \<in> set (sk_list s)" using k wf(1) by simp
    then have "string_of (sk_list s ! k) < c_string str" using greatest by (auto simp: sk_strings_def)
    then show ?thesis
      unfolding nth using strings.cmp_greater [of "Some str" "sk_list s ! k"] mem wf(3) by (auto simp: string_of_def)
  qed
  then have miss: "sk_find (Some s') (Some str) (\<lambda>_. sk_strcmp) = None"
    using sk_bsearch_skips_first [of "st_num s" "sk_strcmp (Some str)" "st_data s'"] n wf(2) ok(2)
    by (simp add: sk_find_def s'_def sk_is_sorted_def)
  have "sk_strcmp (Some str) (Some str) = 0" using strings.cmp_eq [of "Some str" "Some str"] by simp
  then have hit: "sk_find (Some (s'\<lparr>st_sorted := False\<rparr>)) (Some str) (\<lambda>_. sk_strcmp) = Some 0"
    using wf(2) n len by (simp add: sk_find_def s'_def sk_is_sorted_def sk_scan_Some_iff)
  have "sk_strings (Some s') ! 0 = c_string str"
    using n wf(1) by (simp add: sk_strings_def sk string_of_def)
  with set miss hit ok(2) show "\<exists>s'. sk_set (Some s) 0 (Some str) = Some (Some str, Some s') \<and> st_sorted s' \<and>
      sk_strings (Some s') ! 0 = c_string str \<and> sk_find (Some s') (Some str) (\<lambda>_. sk_strcmp) = None \<and>
      sk_find (Some (s'\<lparr>st_sorted := False\<rparr>)) (Some str) (\<lambda>_. sk_strcmp) = Some 0"
    by (intro exI [of _ s']) (simp add: s'_def)
qed

theorem sk_set_misleads_find_witness:
  "\<exists>s'. sk_set (Some \<lparr>st_num = 3, st_data = [Some [0x61], Some [0x62], Some [0x63], None], st_sorted = True,
      st_num_alloc = 4, st_comp = Some ()\<rparr>) 0 (Some [0x7A]) = Some (Some [0x7A], Some s') \<and>
    sk_find (Some s') (Some [0x7A]) (\<lambda>_. sk_strcmp) = None"
proof -
  define s :: "(byte list, unit) stack_st" where
    "s = \<lparr>st_num = 3, st_data = [Some [0x61], Some [0x62], Some [0x63], None], st_sorted = True,
      st_num_alloc = 4, st_comp = Some ()\<rparr>"
  have "strings_ok (Some s)"
    by (auto simp: s_def strings_ok_def stack_ok_def stack_wf_def sk_list_def sk_strcmp_def)
  moreover have "\<forall>x \<in> set (sk_strings (Some s)). x < c_string [0x7A]"
    by (simp add: s_def sk_strings_def sk_list_def string_of_def c_string_def)
  ultimately show ?thesis
    using sk_set_misleads_find [of s "[0x7A]"] unfolding s_def [symmetric] by (auto simp: s_def)
qed

lemma stack_refines_list_witness:
  "\<exists>s'. sk_delete_ptr (Some \<lparr>st_num = 3, st_data = [Some 5, Some 6, Some (7 :: nat), None], st_sorted = False,
      st_num_alloc = 4, st_comp = Some ()\<rparr>) (Some 6) = Some (Some 6, Some s') \<and> sk_list s' = [Some 5, Some 7]"
proof -
  define s :: "(nat, unit) stack_st" where
    "s = \<lparr>st_num = 3, st_data = [Some 5, Some 6, Some 7, None], st_sorted = False, st_num_alloc = 4, st_comp = Some ()\<rparr>"
  have "stack_wf s" by (simp add: s_def stack_wf_def)
  then have "\<exists>s'. sk_delete_ptr (Some s) (Some 6) = Some (if Some 6 \<in> set (sk_list s) then Some 6 else None, Some s') \<and>
      stack_wf s' \<and> sk_list s' = remove1 (Some 6) (sk_list s)"
    using stack_refines_list [of s good_allocator "\<lambda>_. None" "Some 6" 0] by blast
  moreover have "sk_list s = [Some 5, Some 6, Some 7]" by (simp add: s_def sk_list_def)
  ultimately have "\<exists>s'. sk_delete_ptr (Some s) (Some 6) = Some (Some 6, Some s') \<and> sk_list s' = [Some 5, Some 7]"
    by (simp, blast)
  then show ?thesis unfolding s_def .
qed

lemma sk_find_exact_witness:
  "sk_find (Some \<lparr>st_num = 3, st_data = [Some [0x61], Some [0x62], Some [0x62], None], st_sorted = True,
      st_num_alloc = 4, st_comp = Some ()\<rparr>) (Some [0x62]) (\<lambda>_. sk_strcmp) = Some 1"
proof -
  define s :: "(byte list, unit) stack_st" where
    "s = \<lparr>st_num = 3, st_data = [Some [0x61], Some [0x62], Some [0x62], None], st_sorted = True,
      st_num_alloc = 4, st_comp = Some ()\<rparr>"
  have ok: "strings_ok (Some s)"
    by (auto simp: s_def strings_ok_def stack_ok_def stack_wf_def sk_list_def sk_strcmp_def)
  have "sk_strings (Some s) = [[0x61], [0x62], [0x62]]" "c_string [0x62] = [0x62]"
    by (simp_all add: s_def sk_strings_def sk_list_def string_of_def c_string_def)
  with sk_find_exact [OF ok, of "[0x62]"]
  have "case sk_find (Some s) (Some [0x62]) (\<lambda>_. sk_strcmp) of None \<Rightarrow> False
    | Some i \<Rightarrow> i < 3 \<and> [[0x61], [0x62], [0x62]] ! i = [0x62 :: byte] \<and> (\<forall>j < i. [[0x61], [0x62], [0x62]] ! j \<noteq> [0x62 :: byte])"
    by (simp split: option.splits)
  then have "sk_find (Some s) (Some [0x62]) (\<lambda>_. sk_strcmp) = Some 1"
    by (auto simp: numeral_3_eq_3 less_Suc_eq split: option.splits)
  then show ?thesis unfolding s_def .
qed


end
