(* ===== verification/Spec2Isabelle.thy ===== *)
theory Spec2Isabelle
  imports Ossl_Mem Cbs Cbs_Asn1 Cbb Cbb_Refine Cbb_Asn1 Unicode_Codec Ber Const_Time Base64
    Uv_Timer Uv_Idna Uv_Inet_Text Pb_Field Pb_Decode_Safe
    Pb_Encode_Exact Ossl_Lhash Ossl_Pool Ossl_Stack
begin

text \<open>
  MissingPets is an iOS app in Swift; its C code is that of the libraries below it, under
  \<^verbatim>\<open>src/MissingPets/Pods\<close>: BoringSSL and libuv carry the gRPC transport of the Firebase SDK, and nanopb
  encodes its messages.  This development models the parts of these libraries that turn bytes from the
  network into values and back (byte strings, ASN.1, Base64, host names and addresses, protocol buffers), the data
  structure and state machine under the timers of the event loop, and the containers the parsed objects are
  kept in: hash table, stack, pool of shared buffers, reference counts.  What these parts have in common is what can go wrong in them: lengths that overflow, reads and
  writes outside a buffer, encodings that are accepted though no encoder produces them, and loops that do
  not end.

  \<^bold>\<open>Theories.\<close>
  \<^item> \<open>Codec_Prelude\<close>: the machine integers, byte strings as big-endian numbers, word facts, and the locales
    \<open>prefix_codec\<close> and \<open>canonical_codec\<close> (a decoder reads back what the encoder wrote whatever follows;
    and accepts nothing else).
  \<^item> \<open>Ossl_Mem\<close> (\<^verbatim>\<open>BoringSSL-GRPC/src/crypto/mem.c\<close>): allocation as a function of a record that says which
    requests \<open>malloc\<close> grants, comparison, cleansing, C strings.
  \<^item> \<open>Cbs\<close>, \<open>Cbs_Asn1\<close> (\<^verbatim>\<open>crypto/bytestring/cbs.c\<close>): the reader \<open>CBS\<close> is the list of bytes left; a getter
    returns its value in an option and the \<open>CBS\<close> as the call left it.  The ASN.1 getters are shown to
    accept exactly DER, through interpretations of \<open>canonical_codec\<close> for every format; \<open>cbs_reader\<close> is
    the locale of what a getter keeps.
  \<^item> \<open>Cbb\<close>, \<open>Cbb_Refine\<close>, \<open>Cbb_Asn1\<close> (\<^verbatim>\<open>crypto/bytestring/cbb.c\<close>, \<^verbatim>\<open>asn1_compat.c\<close>): the builder and its
    chain of children as one state.  The specification is a stack of open levels; the locale
    \<open>cbb_writer\<close> is the simulation every writer satisfies, and programs of nested calls are
    shown to produce the serialisation of the fields, or to fail for good.
  \<^item> \<open>Unicode_Codec\<close> (\<^verbatim>\<open>unicode.c\<close>), \<open>Ber\<close> (\<^verbatim>\<open>ber.c\<close>): UTF-8, Latin-1, UCS-2 and UTF-32; the conversion of BER
    to DER, refined to a function on byte strings.  Constructed BIT STRINGs are not converted, as in the code.
  \<^item> \<open>Const_Time\<close> (\<^verbatim>\<open>crypto/internal.h\<close>), \<open>Base64\<close> (\<^verbatim>\<open>crypto/base64/base64.c\<close>): masks without branches equal their
    branching references; the block and the streaming codec.
  \<^item> \<open>Uv_Heap\<close> (\<^verbatim>\<open>Libuv-gRPC/src/heap-inl.h\<close>): the intrusive binary heap over an explicit memory of
    nodes; the locale \<open>heap_order\<close> is the comparison its client passes, and the lemmas in it show that the
    operations refine a multiset with a least element.
  \<^item> \<open>Uv_Timer\<close> (\<^verbatim>\<open>timer.c\<close>, the handle macros of \<^verbatim>\<open>uv-common.h\<close>, the parts of \<^verbatim>\<open>unix/core.c\<close> and
    \<^verbatim>\<open>unix/loop.c\<close> they use): interprets \<open>heap_order\<close> with \<open>timer_less_than\<close>; \<open>timer_step\<close> and
    \<open>timer_reachable\<close> are the operations in any order, with an invariant.
  \<^item> \<open>Punycode\<close>, \<open>Uv_Idna\<close> (\<^verbatim>\<open>idna.c\<close>): RFC 3492 over natural numbers, and the code over 32-bit
    words and an explicit input buffer.
  \<^item> \<open>Pb_Stream\<close>, \<open>Pb_Wire\<close>, \<open>Pb_Field\<close> (\<^verbatim>\<open>nanopb/pb_decode.c\<close>, \<^verbatim>\<open>nanopb/pb_encode.c\<close>): streams over buffers and
    callbacks, the wire format, and the members of a message as bytes in memory.  \<open>pb_within\<close> says
    that a reader stays inside its buffer; \<open>pb_writes\<close> what an encoder writes; the locales \<open>pb_codec\<close> and
    \<open>pb_member_codec\<close> put an encoder and its decoder together and are interpreted for every type.
  \<^item> \<open>Pb_Common\<close> (\<^verbatim>\<open>nanopb/pb_common.c\<close>), \<open>Pb_Decode\<close> (the rest of \<^verbatim>\<open>nanopb/pb_decode.c\<close>): the iterator over the fields of a
    message, the decoder of messages with submessages, unions, arrays and pointers, default values and release.  The
    memory of a structure is a list of cells; a pointer's cells hold the block it points to, so a structure with all its
    blocks is a tree, and an access outside a block, a use of a pointer that is none, or the loss of a block is \<open>None\<close>.
  \<^item> \<open>Pb_Layout\<close>: descriptors that fit a structure (\<open>layout_fits\<close>, \<open>wf_env\<close>), and memory that holds a message
    (\<open>well_typed\<close>).  \<open>Pb_Safe\<close>, \<open>Pb_Safe_Field\<close>, \<open>Pb_Safe_Release\<close>, \<open>Pb_Safe_Static\<close>, \<open>Pb_Safe_Pointer\<close>, \<open>Pb_Safe_Message\<close> and
    \<open>Pb_Message\<close> show, function by function and then by induction on the nesting, that decoding and release return and keep
    \<open>well_typed\<close>; \<open>Pb_Required\<close> is about the required fields, and \<open>Pb_Decode_Safe\<close> has the properties.
  \<^item> \<open>Pb_Encode\<close> (the rest of \<^verbatim>\<open>nanopb/pb_encode.c\<close>): the encoder of messages with its pass that only counts.  \<open>Pb_Format\<close> is the
    wire format of a message as a function of its memory, and \<open>emits\<close> the refinement between the two, for every writer;
    \<open>Pb_Encode_Exact\<close> proves it for the functions of the encoder from the members up.
  \<^item> \<open>Ossl_Lhash\<close> (\<^verbatim>\<open>crypto/lhash/lhash.c\<close>): the table as buckets of chains with its counters and its resizing; the
    locale \<open>hash_key\<close> is what the client's hash and comparison must satisfy for the table to refine a map
    from keys to items.
  \<^item> \<open>Ossl_Pool\<close> (\<^verbatim>\<open>refcount_lock.c\<close>, \<^verbatim>\<open>refcount_c11.c\<close>, \<^verbatim>\<open>crypto/pool/pool.c\<close>): saturating reference counts, with the
    compare-and-swap loop of the C11 version interleaved with any other thread, and the pool that shares
    equal buffers, as a client of the hash table.
  \<^item> \<open>Ossl_Stack\<close> (\<^verbatim>\<open>crypto/stack/stack.c\<close>, \<open>append_ia5\<close> of \<^verbatim>\<open>crypto/x509v3/v3_utl.c\<close>): the array with its capacity, the
    search with and without a binary search, under the locale \<open>stack_order\<close>; the collection of e-mail
    addresses is a client of it.
  \<^item> \<open>Uv_Errno\<close>, \<open>Uv_Inet\<close>, \<open>Uv_Inet6\<close>, \<open>Uv_Inet_Text\<close> (\<^verbatim>\<open>inet.c\<close>, \<^verbatim>\<open>strscpy.c\<close>): bounded string copies, and the text of
    IPv4 and IPv6 addresses.  The specification is the grammar (\<open>dotted_quad\<close>, and \<open>ipv6_denotes\<close> after
    RFC 4291); parsing accepts exactly that, printing chooses the longest run of zeros, and the locale
    \<open>address_family\<close>, interpreted for both families, has the round trip.

  \<^bold>\<open>How the code is rendered.\<close>  A C function that returns 0 or 1 is a function into an option, beside the state it
  leaves; where a function can touch memory outside a buffer, follow a null pointer or not return, an
  outer option has \<open>None\<close> for that, so that a theorem about \<open>Some\<close> is also a theorem that none of this
  happens.  Integers have the width of the targets (LP64); where the model keeps a \<open>size_t\<close> as a natural number
  the code's overflow checks are written with \<open>mod 2 ^ 64\<close>.  Loops that need not end are
  \<open>partial_function\<close>s; the theorems about them state that they return.  Callbacks, allocators and the clock are
  parameters.

  \<^bold>\<open>Bounds.\<close>  \<open>cbs_convert_ber\<close> and \<open>cbs_find_ber\<close> recurse at most \<open>kMaxDepth\<close> (2048) levels, as in the code; the
  loops inside take the length of their input as a bound on the rounds, which is enough because every
  round reads an element.  The exact results on IDNA labels are for labels of at most 3000 code points, below
  which the 32-bit counters of the Punycode encoder cannot wrap (DNS allows 63 bytes).  The theorems on
  heaps need fewer than \<open>2 ^ 32\<close> nodes, the width of the code's counter.  The recursion of nanopb over submessages has a
  depth as fuel; \<open>D\<close> levels of submessages in place and one for every byte of the input are enough.  The loop of
  \<open>pb_decode_noinit\<close> makes at most one round for every byte.

  \<^bold>\<open>What the modelling showed.\<close>  Each of these is the statement of a theorem or lemma:
  \<open>cbb_error_sticky\<close> (after an error every operation of a builder fails but \<open>CBB_did_write\<close>, which does not look),
  \<open>find_ber_forgets\<close> (a BER element inside a child that has a later sibling is not found, and the input is
  passed on unconverted), \<open>run_timers_starve_loop\<close> (a timer restarted with timeout 0 in its own callback
  keeps the loop from going on), \<open>idna_reads_past_end\<close> and \<open>utf8_decode1_exact\<close> (a switch on a negative
  length and a check through exclusive or in the UTF-8 decoder), \<open>idna_toascii_exact\<close> (no NUL when the name
  fills the output), \<open>inet_ntop_exact\<close> and \<open>ntop6_zero_size\<close> (an empty output is an error for IPv4 and a success for
  IPv6), \<open>scope_length_truncated\<close> (the length of an address before its zone is kept in an \<open>int\<close>),
  \<open>sk_set_misleads_find\<close> (a stack keeps its mark of being sorted when a member is replaced),
  \<open>submessage_dropped\<close> (nanopb leaves out a proto3 submessage, depending on the address of a number on the heap),
  \<open>fixed_count_arrays_uninitialised\<close> (nanopb does not initialise arrays with a fixed number of items: a short one is
  overrun, and one of submessages is released with pointers that were never set),
  \<open>pb_varint32_accepts_overlong\<close> and \<open>pb_varint32_exact\<close> (overlong and out-of-range varints
  are accepted as 32-bit numbers).

  \<^bold>\<open>Not modelled.\<close>  The app and the Objective-C and C++ libraries (there is no C in them but generated tables and
  vendored third-party code).  Of BoringSSL the cryptography and the TLS state machine, of which much is
  assembly, generated tables or C++, the X.509 and ASN.1 object layers above the byte strings, and the wrappers of
  \<open>printf\<close> in \<^verbatim>\<open>mem.c\<close>.  Of libuv the wrappers of system calls, threads and polling.  Of nanopb
  lists of extensions that are not empty (the operations are \<open>None\<close> there); the theorems on messages leave out callbacks, whose
  effect is the client's, and those on decoding arrays of submessages in place.
\<close>

end
